(* ===== verification/Prelude.thy ===== *)
theory Prelude
  imports Main "HOL-Library.Word" "HOL-Library.While_Combinator"
begin

text \<open>
  Shared vocabulary of the development.

  \<^item> Machine types: \<open>u8\<close> to \<open>u64\<close> for values the code computes with bitwise;
    positions, lengths and counters of type \<open>uint64_t\<close> and \<open>size_t\<close> (taken as 64 bits wide)
    are \<open>nat\<close> with the wrap-around written out by \<open>wrap64\<close>.
  \<^item> Outcomes: \<open>res\<close> separates a returned value, a returned error code, a memory fault (an
    access outside the object, undefined behaviour in C) and a computation that does not return.
  \<^item> Stateful operations are functions \<open>'s \<Rightarrow> ('e, 'a) res \<times> 's\<close>: the object keeps the changes
    made before an early return, as it does in C.
  \<^item> Bits: \<open>bit_at\<close> reads a byte buffer most significant bit first, \<open>nbits\<close> and \<open>bits_val\<close>
    relate a word to its bit string, \<open>has_bits\<close> says that a bit string is at a position.
\<close>

unbundle bit_operations_syntax

named_theorems monad_simps \<open>unfolding rules of the outcome and state monads\<close>
named_theorems codec_simps \<open>lengths and shapes of encoded bit strings\<close>

section \<open>Machine types\<close>

type_synonym u8 = "8 word"
type_synonym u16 = "16 word"
type_synonym u32 = "32 word"
type_synonym u64 = "64 word"

text \<open>A C pointer to bytes: \<open>None\<close> is NULL, \<open>Some bs\<close> points at the first of the accessible
  bytes \<open>bs\<close>.\<close>

type_synonym ptr = "u8 list option"

definition wrap64 :: "nat \<Rightarrow> nat" where
  "wrap64 n = n mod 18446744073709551616"

definition wrap32 :: "nat \<Rightarrow> nat" where
  "wrap32 n = n mod 4294967296"

lemma wrap64_small [simp]: "n < 18446744073709551616 \<Longrightarrow> wrap64 n = n"
  by (simp add: wrap64_def)

lemma wrap32_small [simp]: "n < 4294967296 \<Longrightarrow> wrap32 n = n"
  by (simp add: wrap32_def)

lemma wrap64_le [simp]: "wrap64 n \<le> n"
  by (simp add: wrap64_def)

lemma wrap64_less [simp]: "wrap64 n < 18446744073709551616"
  by (simp add: wrap64_def)

lemma wrap32_less [simp]: "wrap32 n < 4294967296"
  by (simp add: wrap32_def)

section \<open>Outcomes\<close>

datatype ('e, 'a) res = Ok 'a | Err 'e | Fault | Diverge

definition rbind :: "('e, 'a) res \<Rightarrow> ('a \<Rightarrow> ('e, 'b) res) \<Rightarrow> ('e, 'b) res" where
  "rbind m f = (case m of Ok a \<Rightarrow> f a | Err e \<Rightarrow> Err e | Fault \<Rightarrow> Fault | Diverge \<Rightarrow> Diverge)"

lemma rbind_simps [simp, monad_simps]:
  "rbind (Ok a) f = f a"
  "rbind (Err e) f = Err e"
  "rbind Fault f = Fault"
  "rbind Diverge f = Diverge"
  by (simp_all add: rbind_def)

lemma rbind_eq_Ok: "rbind m f = Ok b \<longleftrightarrow> (\<exists>a. m = Ok a \<and> f a = Ok b)"
  by (cases m) simp_all

lemma rbind_cong [fundef_cong]:
  "m = m' \<Longrightarrow> (\<And>a. m' = Ok a \<Longrightarrow> f a = f' a) \<Longrightarrow> rbind m f = rbind m' f'"
  by (cases m') simp_all

section \<open>Operations on an object\<close>

definition sret :: "'a \<Rightarrow> 's \<Rightarrow> ('e, 'a) res \<times> 's" where
  "sret a s = (Ok a, s)"

definition sfail :: "'e \<Rightarrow> 's \<Rightarrow> ('e, 'a) res \<times> 's" where
  "sfail e s = (Err e, s)"

definition slift :: "('e, 'a) res \<Rightarrow> 's \<Rightarrow> ('e, 'a) res \<times> 's" where
  "slift m s = (m, s)"

definition sbind ::
  "('s \<Rightarrow> ('e, 'a) res \<times> 's) \<Rightarrow> ('a \<Rightarrow> 's \<Rightarrow> ('e, 'b) res \<times> 's) \<Rightarrow> 's \<Rightarrow> ('e, 'b) res \<times> 's" where
  "sbind m f s =
     (case m s of
        (Ok a, s') \<Rightarrow> f a s'
      | (Err e, s') \<Rightarrow> (Err e, s')
      | (Fault, s') \<Rightarrow> (Fault, s')
      | (Diverge, s') \<Rightarrow> (Diverge, s'))"

lemma sret_apply [simp, monad_simps]: "sret a s = (Ok a, s)"
  by (simp add: sret_def)

lemma sfail_apply [simp, monad_simps]: "sfail e s = (Err e, s)"
  by (simp add: sfail_def)

lemma slift_apply [simp, monad_simps]: "slift m s = (m, s)"
  by (simp add: slift_def)

lemma sbind_Ok [monad_simps]: "m s = (Ok a, s') \<Longrightarrow> sbind m f s = f a s'"
  by (simp add: sbind_def)

lemma sbind_slift_Ok [simp, monad_simps]: "sbind (slift (Ok a)) f = f a"
  by (simp add: fun_eq_iff sbind_def)

lemma sbind_sret [simp, monad_simps]: "sbind (sret a) f = f a"
  by (simp add: fun_eq_iff sbind_def)

lemma sbind_eq_Ok:
  "sbind m f s = (Ok b, s'') \<longleftrightarrow> (\<exists>a s'. m s = (Ok a, s') \<and> f a s' = (Ok b, s''))"
  by (auto simp: sbind_def split: prod.splits res.splits)

lemma sbind_OkE:
  assumes "sbind m f s = (Ok b, s'')"
  obtains a s' where "m s = (Ok a, s')" and "f a s' = (Ok b, s'')"
  using assms by (auto simp: sbind_eq_Ok)

lemma sbind_cong [fundef_cong]:
  "m s = m' s' \<Longrightarrow> (\<And>a t. m' s' = (Ok a, t) \<Longrightarrow> f a t = f' a t) \<Longrightarrow> sbind m f s = sbind m' f' s'"
  by (auto simp: sbind_def split: prod.splits res.splits)

text \<open>\<open>for (i = 0; i < n; i++) { rc = f(x[i]); if (rc != TP_OK) return rc; }\<close>\<close>

fun for_each :: "('a \<Rightarrow> 's \<Rightarrow> ('e, unit) res \<times> 's) \<Rightarrow> 'a list \<Rightarrow> 's \<Rightarrow> ('e, unit) res \<times> 's" where
  "for_each f [] s = (Ok (), s)"
| "for_each f (x # xs) s = sbind (f x) (\<lambda>_. for_each f xs) s"

text \<open>The same over a value only: \<open>b = f(x[i], b)\<close> with early returns.\<close>

fun fold_res :: "('a \<Rightarrow> 'b \<Rightarrow> ('e, 'b) res) \<Rightarrow> 'a list \<Rightarrow> 'b \<Rightarrow> ('e, 'b) res" where
  "fold_res f [] b = Ok b"
| "fold_res f (x # xs) b = rbind (f x b) (fold_res f xs)"

lemma fold_res_Ok:
  "(\<And>x b. x \<in> set xs \<Longrightarrow> f x b = Ok (g x b)) \<Longrightarrow> fold_res f xs b = Ok (fold g xs b)"
  by (induction xs arbitrary: b) simp_all

text \<open>The reading counterpart: \<open>n\<close> reads in order, the results as a list.\<close>

fun read_seq :: "nat \<Rightarrow> ('s \<Rightarrow> ('e, 'a) res \<times> 's) \<Rightarrow> 's \<Rightarrow> ('e, 'a list) res \<times> 's" where
  "read_seq 0 rd s = (Ok [], s)"
| "read_seq (Suc n) rd s = sbind rd (\<lambda>x. sbind (read_seq n rd) (\<lambda>xs. sret (x # xs))) s"

text \<open>\<open>never_faults m s\<close>: the operation neither touches memory outside its objects nor runs
  forever.\<close>

definition safe :: "('e, 'a) res \<Rightarrow> bool" where
  "safe m \<longleftrightarrow> m \<noteq> Fault \<and> m \<noteq> Diverge"

lemma safe_simps [simp]: "safe (Ok a)" "safe (Err e)" "\<not> safe Fault" "\<not> safe Diverge"
  by (simp_all add: safe_def)

lemma safe_cases:
  assumes "safe m" obtains (Ok) a where "m = Ok a" | (Err) e where "m = Err e"
  using assms by (cases m) auto

section \<open>Bits of words and buffers\<close>

definition bit_at :: "u8 list \<Rightarrow> nat \<Rightarrow> bool" where
  "bit_at bs i = bit (bs ! (i div 8)) (7 - i mod 8)"

text \<open>The low \<open>n\<close> bits of a word, most significant first.\<close>

definition nbits :: "nat \<Rightarrow> 'a::len word \<Rightarrow> bool list" where
  "nbits n v = map (\<lambda>i. bit v (n - 1 - i)) [0..<n]"

text \<open>The value of a bit string, most significant bit first, in a word.\<close>

definition bits_val :: "bool list \<Rightarrow> 'a::len word" where
  "bits_val xs = foldl (\<lambda>v b. push_bit 1 v OR of_bool b) 0 xs"

definition has_bits :: "u8 list \<Rightarrow> nat \<Rightarrow> bool list \<Rightarrow> bool" where
  "has_bits bs p xs \<longleftrightarrow> p + length xs \<le> 8 * length bs \<and> (\<forall>j < length xs. bit_at bs (p + j) = xs ! j)"

lemma length_nbits [simp, codec_simps]: "length (nbits n v) = n"
  by (simp add: nbits_def)

lemma nth_nbits [simp]: "i < n \<Longrightarrow> nbits n v ! i = bit v (n - 1 - i)"
  by (simp add: nbits_def)

lemma has_bits_Nil [simp]: "has_bits bs p [] \<longleftrightarrow> p \<le> 8 * length bs"
  by (simp add: has_bits_def)

lemma has_bits_append:
  "has_bits bs p (xs @ ys) \<longleftrightarrow> has_bits bs p xs \<and> has_bits bs (p + length xs) ys"
proof
  assume h: "has_bits bs p (xs @ ys)"
  then have all: "\<And>j. j < length xs + length ys \<Longrightarrow> bit_at bs (p + j) = (xs @ ys) ! j"
    by (simp add: has_bits_def)
  have "bit_at bs (p + j) = xs ! j" if "j < length xs" for j
    using all[of j] that by (simp add: nth_append)
  moreover have "bit_at bs (p + length xs + j) = ys ! j" if "j < length ys" for j
    using all[of "length xs + j"] that by (simp add: nth_append add.assoc)
  ultimately show "has_bits bs p xs \<and> has_bits bs (p + length xs) ys"
    using h by (simp add: has_bits_def)
next
  assume h: "has_bits bs p xs \<and> has_bits bs (p + length xs) ys"
  have "bit_at bs (p + j) = (xs @ ys) ! j" if "j < length xs + length ys" for j
  proof (cases "j < length xs")
    case True
    then show ?thesis using h by (simp add: has_bits_def nth_append)
  next
    case False
    then have "j - length xs < length ys" using that by simp
    then have "bit_at bs (p + length xs + (j - length xs)) = ys ! (j - length xs)"
      using h by (simp add: has_bits_def)
    then show ?thesis using False by (simp add: nth_append)
  qed
  then show "has_bits bs p (xs @ ys)" using h by (simp add: has_bits_def)
qed

lemma has_bits_appendI:
  "has_bits bs p xs \<Longrightarrow> has_bits bs (p + length xs) ys \<Longrightarrow> has_bits bs p (xs @ ys)"
  by (simp add: has_bits_append)

lemma has_bits_bound: "has_bits bs p xs \<Longrightarrow> p + length xs \<le> 8 * length bs"
  by (simp add: has_bits_def)

lemma bits_val_snoc: "bits_val (xs @ [b]) = 2 * bits_val xs OR of_bool b"
  by (simp add: bits_val_def push_bit_eq_mult mult.commute)

lemma bits_val_Nil [simp]: "bits_val [] = 0"
  by (simp add: bits_val_def)

lemma bit_bits_val:
  "bit (bits_val xs :: 'a::len word) i \<longleftrightarrow> i < LENGTH('a) \<and> i < length xs \<and> xs ! (length xs - 1 - i)"
proof (induction xs arbitrary: i rule: rev_induct)
  case Nil
  then show ?case by simp
next
  case (snoc b xs)
  show ?case
  proof (cases i)
    case 0
    then show ?thesis by (simp add: bits_val_snoc bit_or_iff bit_double_iff)
  next
    case (Suc k)
    then show ?thesis
      by (auto simp: bits_val_snoc bit_or_iff bit_double_iff snoc.IH nth_append
          dest: bit_imp_le_length)
  qed
qed

lemma nbits_bits_val:
  "length xs = n \<Longrightarrow> n \<le> LENGTH('a) \<Longrightarrow> nbits n (bits_val xs :: 'a::len word) = xs"
  by (rule nth_equalityI) (auto simp: bit_bits_val)

text \<open>Reading back the low \<open>n\<close> bits of a word gives the word reduced to \<open>n\<close> bits.\<close>

lemma bits_val_nbits: "bits_val (nbits n (v :: 'a::len word)) = (take_bit n v :: 'a word)"
  by (rule bit_word_eqI) (auto simp: bit_bits_val bit_simps)

lemma bits_val_nbits_ucast:
  "bits_val (nbits n (v :: 'a::len word)) = (ucast (take_bit n v) :: 'b::len word)"
  by (rule bit_word_eqI) (auto simp: bit_bits_val bit_simps dest: bit_imp_le_length)

lemma take_bit_small: "unat (v :: 'a::len word) < 2 ^ n \<Longrightarrow> take_bit n v = v"
  by (metis take_bit_nat_eq_self unsigned_take_bit_eq word_unat_eq_iff)

lemma unat_bound: "unat (v :: 'a::len word) < 2 ^ LENGTH('a)"
  by (rule unsigned_less)

lemma ucast_and_one: "(ucast (x AND 1 :: 'a::len word) :: 'b::len word) = of_bool (bit x 0)"
  by (rule bit_word_eqI) (auto simp: bit_simps bit_1_iff)

lemma word_and_one: "(x AND 1 :: 'a::len word) = of_bool (bit x 0)"
  by (rule bit_word_eqI) (auto simp: bit_simps bit_1_iff)

lemma nbits_ucast: "n \<le> LENGTH('a) \<Longrightarrow> n \<le> LENGTH('b) \<Longrightarrow>
    nbits n (ucast (v :: 'a::len word) :: 'b::len word) = nbits n v"
  by (rule nth_equalityI) (auto simp: bit_simps dest: bit_imp_le_length)

lemma nbits_inj:
  assumes "nbits n v = nbits n (w :: 'a::len word)" and "unat v < 2 ^ n" and "unat w < 2 ^ n"
  shows "v = w"
proof -
  have "v = (bits_val (nbits n v) :: 'a word)" using assms(2) by (simp add: bits_val_nbits take_bit_small)
  also have "\<dots> = bits_val (nbits n w)" by (simp only: assms(1))
  also have "\<dots> = w" using assms(3) by (simp add: bits_val_nbits take_bit_small)
  finally show ?thesis .
qed

lemma xor_cancel_right: "a XOR c = b XOR c \<Longrightarrow> a = (b :: 'a::len word)"
  by (metis xor.assoc xor.right_neutral xor_self_eq)

lemma xor_cancel_left: "c XOR a = c XOR b \<Longrightarrow> a = (b :: 'a::len word)"
  using xor_cancel_right[of a c b] by (simp add: xor.commute)

lemma unat_take_bit_less: "unat (take_bit n (v :: 'a::len word)) < 2 ^ n"
  by (simp only: unsigned_take_bit_eq) simp

end
