(* ===== verification/Common.thy ===== *)
theory Common
  imports Prelude
begin

text \<open>
  The shared types of \<open>include/triepack/triepack_common.h\<close> with the helpers of
  \<open>src/bitstream/bitstream.c\<close> that build and name them: result codes, tagged values, addressing
  and checksum enumerations, format constants, version metadata.

  A \<open>tp_value\<close> is the C tagged union. Floats are only ever copied bit for bit, so they are their
  bit patterns. A string or blob is a pointer with a length, kept apart as in C: the pointer may be
  NULL, and nothing in the type says that \<open>length\<close> bytes are accessible behind it
  (\<open>value_view\<close> is the content when they are). \<open>TP_RESERVED\<close> stands for a tag outside the
  enumeration, which the four-bit tag field of the format can hold.
\<close>

section \<open>Result codes\<close>

datatype tp_result =
    TP_OK
  | TP_ERR_EOF | TP_ERR_ALLOC | TP_ERR_INVALID_PARAM | TP_ERR_INVALID_POSITION
  | TP_ERR_NOT_ALIGNED | TP_ERR_OVERFLOW | TP_ERR_INVALID_UTF8
  | TP_ERR_BAD_MAGIC | TP_ERR_VERSION | TP_ERR_CORRUPT | TP_ERR_NOT_FOUND | TP_ERR_TRUNCATED
  | TP_ERR_ALPHABET | TP_ERR_UNSUPPORTED
  | TP_ERR_JSON_SYNTAX | TP_ERR_JSON_DEPTH | TP_ERR_JSON_TYPE

type_synonym 'a tp = "(tp_result, 'a) res"

fun tp_result_code :: "tp_result \<Rightarrow> int" where
  "tp_result_code TP_OK = 0"
| "tp_result_code TP_ERR_EOF = -1"
| "tp_result_code TP_ERR_ALLOC = -2"
| "tp_result_code TP_ERR_INVALID_PARAM = -3"
| "tp_result_code TP_ERR_INVALID_POSITION = -4"
| "tp_result_code TP_ERR_NOT_ALIGNED = -5"
| "tp_result_code TP_ERR_OVERFLOW = -6"
| "tp_result_code TP_ERR_INVALID_UTF8 = -7"
| "tp_result_code TP_ERR_BAD_MAGIC = -10"
| "tp_result_code TP_ERR_VERSION = -11"
| "tp_result_code TP_ERR_CORRUPT = -12"
| "tp_result_code TP_ERR_NOT_FOUND = -13"
| "tp_result_code TP_ERR_TRUNCATED = -14"
| "tp_result_code TP_ERR_ALPHABET = -15"
| "tp_result_code TP_ERR_UNSUPPORTED = -16"
| "tp_result_code TP_ERR_JSON_SYNTAX = -20"
| "tp_result_code TP_ERR_JSON_DEPTH = -21"
| "tp_result_code TP_ERR_JSON_TYPE = -22"

definition tp_result_str :: "int \<Rightarrow> string" where
  "tp_result_str result =
     (if result = tp_result_code TP_OK then ''OK''
      else if result = tp_result_code TP_ERR_EOF then ''read past end of stream''
      else if result = tp_result_code TP_ERR_ALLOC then ''memory allocation failed''
      else if result = tp_result_code TP_ERR_INVALID_PARAM then ''invalid parameter''
      else if result = tp_result_code TP_ERR_INVALID_POSITION then ''seek beyond bounds''
      else if result = tp_result_code TP_ERR_NOT_ALIGNED then ''not byte-aligned''
      else if result = tp_result_code TP_ERR_OVERFLOW then ''varint overflow''
      else if result = tp_result_code TP_ERR_INVALID_UTF8 then ''invalid UTF-8''
      else if result = tp_result_code TP_ERR_BAD_MAGIC then ''bad magic bytes''
      else if result = tp_result_code TP_ERR_VERSION then ''unsupported version''
      else if result = tp_result_code TP_ERR_CORRUPT then ''data corrupt''
      else if result = tp_result_code TP_ERR_NOT_FOUND then ''key not found''
      else if result = tp_result_code TP_ERR_TRUNCATED then ''data truncated''
      else if result = tp_result_code TP_ERR_ALPHABET then ''keys use too many distinct byte values''
      else if result = tp_result_code TP_ERR_UNSUPPORTED then ''operation not implemented''
      else if result = tp_result_code TP_ERR_JSON_SYNTAX then ''JSON syntax error''
      else if result = tp_result_code TP_ERR_JSON_DEPTH then ''JSON nesting too deep''
      else if result = tp_result_code TP_ERR_JSON_TYPE then ''JSON type mismatch''
      else ''unknown error'')"

section \<open>Enumerations and format constants\<close>

datatype tp_addr_mode = TP_ADDR_BIT | TP_ADDR_BYTE | TP_ADDR_SYMBOL_FIXED | TP_ADDR_SYMBOL_UTF8

datatype tp_checksum_type = TP_CHECKSUM_CRC32 | TP_CHECKSUM_SHA256 | TP_CHECKSUM_XXHASH64

definition TP_HEADER_SIZE :: nat where "TP_HEADER_SIZE = 32"
definition TP_MAX_ALPHABET_SIZE :: nat where "TP_MAX_ALPHABET_SIZE = 249"
definition TP_VARINT_MAX_GROUPS :: nat where "TP_VARINT_MAX_GROUPS = 10"
definition TP_FORMAT_VERSION_MAJOR :: u8 where "TP_FORMAT_VERSION_MAJOR = 1"
definition TP_FORMAT_VERSION_MINOR :: u8 where "TP_FORMAT_VERSION_MINOR = 0"

section \<open>Version metadata\<close>

record tp_version_info =
  vi_name :: string
  vi_implementation :: string
  vi_version :: string
  vi_version_major :: u8
  vi_version_minor :: u8
  vi_version_patch :: u8
  vi_format_version_major :: u8
  vi_format_version_minor :: u8
  vi_max_alphabet_size :: u16

text \<open>The version string and numbers come from the header the build generates, so they are
  arguments.\<close>

definition tp_version :: "string \<Rightarrow> nat \<Rightarrow> nat \<Rightarrow> nat \<Rightarrow> tp_version_info" where
  "tp_version version_string major minor patch =
     \<lparr>vi_name = ''triepack'', vi_implementation = ''c'', vi_version = version_string,
      vi_version_major = word_of_nat major, vi_version_minor = word_of_nat minor,
      vi_version_patch = word_of_nat patch,
      vi_format_version_major = TP_FORMAT_VERSION_MAJOR,
      vi_format_version_minor = TP_FORMAT_VERSION_MINOR,
      vi_max_alphabet_size = word_of_nat TP_MAX_ALPHABET_SIZE\<rparr>"

section \<open>Values\<close>

datatype tp_value =
    TP_NULL
  | TP_BOOL bool
  | TP_INT u64
  | TP_UINT u64
  | TP_FLOAT32 u32
  | TP_FLOAT64 u64
  | TP_STRING ptr nat
  | TP_BLOB ptr nat
  | TP_ARRAY "tp_value list option" nat
  | TP_DICT ptr nat
  | TP_RESERVED nat

text \<open>The \<open>type\<close> field: the four-bit tag of the format.\<close>

fun tp_type :: "tp_value \<Rightarrow> nat" where
  "tp_type TP_NULL = 0"
| "tp_type (TP_BOOL _) = 1"
| "tp_type (TP_INT _) = 2"
| "tp_type (TP_UINT _) = 3"
| "tp_type (TP_FLOAT32 _) = 4"
| "tp_type (TP_FLOAT64 _) = 5"
| "tp_type (TP_STRING _ _) = 6"
| "tp_type (TP_BLOB _ _) = 7"
| "tp_type (TP_ARRAY _ _) = 8"
| "tp_type (TP_DICT _ _) = 9"
| "tp_type (TP_RESERVED t) = t"

text \<open>\<open>strlen\<close>: \<open>None\<close> when no NUL byte is accessible.\<close>

fun strlen :: "u8 list \<Rightarrow> nat option" where
  "strlen [] = None"
| "strlen (c # cs) = (if c = 0 then Some 0 else map_option Suc (strlen cs))"

definition tp_value_null :: tp_value where "tp_value_null = TP_NULL"
definition tp_value_bool :: "bool \<Rightarrow> tp_value" where "tp_value_bool val = TP_BOOL val"
definition tp_value_int :: "u64 \<Rightarrow> tp_value" where "tp_value_int val = TP_INT val"
definition tp_value_uint :: "u64 \<Rightarrow> tp_value" where "tp_value_uint val = TP_UINT val"
definition tp_value_float32 :: "u32 \<Rightarrow> tp_value" where "tp_value_float32 val = TP_FLOAT32 val"
definition tp_value_float64 :: "u64 \<Rightarrow> tp_value" where "tp_value_float64 val = TP_FLOAT64 val"

definition tp_value_string :: "ptr \<Rightarrow> tp_value tp" where
  "tp_value_string str =
     (case str of
        None \<Rightarrow> Ok (TP_STRING None 0)
      | Some s \<Rightarrow> (case strlen s of None \<Rightarrow> Fault | Some n \<Rightarrow> Ok (TP_STRING (Some s) n)))"

definition tp_value_string_n :: "ptr \<Rightarrow> nat \<Rightarrow> tp_value" where
  "tp_value_string_n str len = TP_STRING str len"

definition tp_value_blob :: "ptr \<Rightarrow> nat \<Rightarrow> tp_value" where
  "tp_value_blob data len = TP_BLOB data len"

text \<open>The bytes a pointer with a length denotes, when they are all accessible.\<close>

definition view :: "ptr \<Rightarrow> nat \<Rightarrow> u8 list option" where
  "view p n = (case p of None \<Rightarrow> if n = 0 then Some [] else None
                       | Some bs \<Rightarrow> if n \<le> length bs then Some (take n bs) else None)"

text \<open>Two values are the same to a client: same scalar, or string and blob contents equal.\<close>

fun value_agree :: "tp_value \<Rightarrow> tp_value \<Rightarrow> bool" where
  "value_agree (TP_STRING p n) (TP_STRING q m) = (n = m \<and> view p n \<noteq> None \<and> view p n = view q m)"
| "value_agree (TP_BLOB p n) (TP_BLOB q m) = (n = m \<and> view p n \<noteq> None \<and> view p n = view q m)"
| "value_agree v w = (v = w)"

text \<open>Values the encoder can store and give back: no array, dictionary or reserved tag, and every
  string or blob length backed by accessible bytes.\<close>

fun storable :: "tp_value \<Rightarrow> bool" where
  "storable (TP_STRING p n) = (view p n \<noteq> None \<and> n < 2305843009213693952)"
| "storable (TP_BLOB p n) = (view p n \<noteq> None \<and> n < 2305843009213693952)"
| "storable (TP_ARRAY _ _) = False"
| "storable (TP_DICT _ _) = False"
| "storable (TP_RESERVED _) = False"
| "storable _ = True"

lemma view_None_ptr: "view None n = Some bs \<longleftrightarrow> n = 0 \<and> bs = []"
  by (auto simp: view_def)

lemma view_Some_iff: "view (Some xs) n = Some bs \<longleftrightarrow> n \<le> length xs \<and> bs = take n xs"
  by (auto simp: view_def)

lemma view_length: "view p n = Some bs \<Longrightarrow> length bs = n"
  by (auto simp: view_def split: option.splits if_splits)

lemma strlen_Some: "strlen s = Some n \<Longrightarrow> n < length s \<and> s ! n = 0 \<and> (\<forall>i<n. s ! i \<noteq> 0)"
proof (induction s arbitrary: n)
  case Nil
  then show ?case by simp
next
  case (Cons c cs)
  show ?case
  proof (cases "c = 0")
    case True
    then show ?thesis using Cons.prems by simp
  next
    case False
    then obtain k where k: "strlen cs = Some k" "n = Suc k" using Cons.prems by auto
    then show ?thesis using Cons.IH[OF k(1)] False by (auto simp: less_Suc_eq_0_disj)
  qed
qed

lemma tp_result_code_inj: "tp_result_code a = tp_result_code b \<Longrightarrow> a = b"
  by (cases a; cases b; simp)

end
