(* ===== verification/Symbols.thy ===== *)
theory Symbols
  imports Common
begin

text \<open>
  The alphabet of a dictionary: \<open>tp_symbol_info\<close> and the control codes of
  \<open>src/core/core_internal.h\<close>, with the key entries. \<open>symbols_ok\<close> is what the trie writer and every
  walker rely on: each byte of the alphabet has its own code, apart from the control codes, and the
  code fits the symbol width.
\<close>

section \<open>Control codes\<close>

definition TP_CTRL_END :: nat where "TP_CTRL_END = 0"
definition TP_CTRL_END_VAL :: nat where "TP_CTRL_END_VAL = 1"
definition TP_CTRL_SKIP :: nat where "TP_CTRL_SKIP = 2"
definition TP_CTRL_SUFFIX :: nat where "TP_CTRL_SUFFIX = 3"
definition TP_CTRL_ESCAPE :: nat where "TP_CTRL_ESCAPE = 4"
definition TP_CTRL_BRANCH :: nat where "TP_CTRL_BRANCH = 5"
definition TP_NUM_CONTROL_CODES :: nat where "TP_NUM_CONTROL_CODES = 6"

lemmas ctrl_defs = TP_CTRL_END_def TP_CTRL_END_VAL_def TP_CTRL_SKIP_def TP_CTRL_SUFFIX_def
  TP_CTRL_ESCAPE_def TP_CTRL_BRANCH_def TP_NUM_CONTROL_CODES_def

section \<open>Symbol tables and entries\<close>

record tp_symbol_info =
  s_bits_per_symbol :: nat
  s_symbol_count :: nat
  s_alphabet_size :: nat
  s_ctrl_codes :: "nat list"
  s_symbol_map :: "nat list"
  s_reverse_map :: "u8 list"
  s_code_is_ctrl :: "bool list"

text \<open>\<open>memset(si, 0, sizeof(*sym))\<close>.\<close>

definition zero_symbols :: tp_symbol_info where
  "zero_symbols = \<lparr>s_bits_per_symbol = 0, s_symbol_count = 0, s_alphabet_size = 0,
     s_ctrl_codes = replicate 6 0, s_symbol_map = replicate 256 0, s_reverse_map = replicate 256 0,
     s_code_is_ctrl = replicate 256 False\<rparr>"

definition ctrl_code :: "tp_symbol_info \<Rightarrow> nat \<Rightarrow> nat" where
  "ctrl_code si c = s_ctrl_codes si ! c"

definition symbol_code :: "tp_symbol_info \<Rightarrow> u8 \<Rightarrow> nat" where
  "symbol_code si c = s_symbol_map si ! unat c"

definition is_ctrl :: "tp_symbol_info \<Rightarrow> nat \<Rightarrow> bool" where
  "is_ctrl si code \<longleftrightarrow> code < 256 \<and> s_code_is_ctrl si ! code"

text \<open>The key block of an entry holds \<open>key_len\<close> bytes and a NUL.\<close>

record tp_entry =
  e_key :: "u8 list"
  e_key_len :: nat
  e_val :: tp_value

definition entry_key :: "tp_entry \<Rightarrow> u8 list" where
  "entry_key e = take (e_key_len e) (e_key e)"

definition entry_ok :: "tp_entry \<Rightarrow> bool" where
  "entry_ok e \<longleftrightarrow> length (e_key e) = Suc (e_key_len e)"

lemma length_entry_key [simp]: "entry_ok e \<Longrightarrow> length (entry_key e) = e_key_len e"
  by (simp add: entry_ok_def entry_key_def)

section \<open>Well-formed tables\<close>

text \<open>\<open>al\<close> is the set of key bytes.\<close>

definition symbols_ok :: "u8 set \<Rightarrow> tp_symbol_info \<Rightarrow> bool" where
  "symbols_ok al si \<longleftrightarrow>
     1 \<le> s_bits_per_symbol si \<and> s_bits_per_symbol si \<le> 8 \<and>
     length (s_ctrl_codes si) = 6 \<and> length (s_symbol_map si) = 256 \<and>
     length (s_reverse_map si) = 256 \<and> length (s_code_is_ctrl si) = 256 \<and>
     distinct (s_ctrl_codes si) \<and>
     (\<forall>c < 6. ctrl_code si c < 2 ^ s_bits_per_symbol si) \<and>
     (\<forall>code < 256. s_code_is_ctrl si ! code \<longleftrightarrow> (\<exists>c < 6. ctrl_code si c = code)) \<and>
     (\<forall>c \<in> al. symbol_code si c < 2 ^ s_bits_per_symbol si \<and> \<not> is_ctrl si (symbol_code si c) \<and>
        s_reverse_map si ! symbol_code si c = c) \<and>
     (\<forall>c. c \<notin> al \<longrightarrow> is_ctrl si (symbol_code si c))"

lemma symbols_okD:
  assumes "symbols_ok al si"
  shows "1 \<le> s_bits_per_symbol si" "s_bits_per_symbol si \<le> 8"
    "c < 6 \<Longrightarrow> ctrl_code si c < 2 ^ s_bits_per_symbol si"
    "b \<in> al \<Longrightarrow> symbol_code si b < 2 ^ s_bits_per_symbol si"
    "b \<in> al \<Longrightarrow> \<not> is_ctrl si (symbol_code si b)"
    "b \<notin> al \<Longrightarrow> is_ctrl si (symbol_code si b)"
    "b \<in> al \<Longrightarrow> s_reverse_map si ! symbol_code si b = b"
  using assms by (auto simp: symbols_ok_def)

lemma ctrl_code_less: "symbols_ok al si \<Longrightarrow> c < 6 \<Longrightarrow> ctrl_code si c < 256"
proof -
  assume a: "symbols_ok al si" "c < 6"
  have "(2 :: nat) ^ s_bits_per_symbol si \<le> 2 ^ 8"
    using symbols_okD(2)[OF a(1)] by (intro power_increasing) simp_all
  then show ?thesis using symbols_okD(3)[OF a(1,2)] by simp
qed

lemma is_ctrl_iff:
  assumes "symbols_ok al si" shows "is_ctrl si code \<longleftrightarrow> (\<exists>c < 6. ctrl_code si c = code)"
  using assms ctrl_code_less[OF assms] by (auto simp: is_ctrl_def symbols_ok_def)

lemma ctrl_code_inj:
  "symbols_ok al si \<Longrightarrow> c < 6 \<Longrightarrow> d < 6 \<Longrightarrow> ctrl_code si c = ctrl_code si d \<longleftrightarrow> c = d"
  by (auto simp: symbols_ok_def ctrl_code_def nth_eq_iff_index_eq)

lemma symbol_code_not_ctrl:
  assumes "symbols_ok al si" and "b \<in> al" and "c < 6" shows "symbol_code si b \<noteq> ctrl_code si c"
  using symbols_okD(5)[OF assms(1,2)] is_ctrl_iff[OF assms(1)] assms(3) by auto

lemma symbol_code_eq_iff:
  assumes "symbols_ok al si" and "b \<in> al" shows "symbol_code si b = symbol_code si c \<longleftrightarrow> b = c"
proof
  assume eq: "symbol_code si b = symbol_code si c"
  then have "c \<in> al" using symbols_okD(5,6)[OF assms(1)] assms(2) by metis
  then show "b = c" using symbols_okD(7)[OF assms(1)] assms(2) eq by metis
qed simp

end
