(* ===== verification/Clib.thy ===== *)
theory Clib
  imports Prelude "HOL-Library.List_Lexorder" "HOL-Library.Multiset"
begin

text \<open>
  What the modelled files use of the C library and of C arrays: \<open>memcmp\<close>, \<open>qsort\<close>, reading and
  writing \<open>a[i]\<close>. \<open>qsort\<close> itself is a parameter of the definitions that call it; \<open>qsort_ok\<close> is
  what the standard promises of it (a permutation, ordered by the comparison), which leaves the order
  of equal elements open. \<open>insertion_sort\<close> shows that the promise can be met.
\<close>

section \<open>Arrays\<close>

definition fetch :: "'a list \<Rightarrow> nat \<Rightarrow> ('e, 'a) res" where
  "fetch xs i = (if i < length xs then Ok (xs ! i) else Fault)"

definition store :: "'a list \<Rightarrow> nat \<Rightarrow> 'a \<Rightarrow> ('e, 'a list) res" where
  "store xs i v = (if i < length xs then Ok (xs[i := v]) else Fault)"

text \<open>\<open>memcpy(dst + off, src, n)\<close>.\<close>

definition memcpy :: "'a list \<Rightarrow> nat \<Rightarrow> 'a list \<Rightarrow> nat \<Rightarrow> ('e, 'a list) res" where
  "memcpy dst off src n =
     (if off + n \<le> length dst \<and> n \<le> length src then Ok (take off dst @ take n src @ drop (off + n) dst) else Fault)"

section \<open>memcmp\<close>

text \<open>\<open>memcmp\<close> over the first \<open>n\<close> bytes of two blocks that have them: the sign of the first
  difference.\<close>

fun memcmp :: "u8 list \<Rightarrow> u8 list \<Rightarrow> nat \<Rightarrow> int" where
  "memcmp (x # xs) (y # ys) (Suc n) =
     (if x = y then memcmp xs ys n else int (unat x) - int (unat y))"
| "memcmp _ _ _ = 0"

lemma byte_difference:
  "int (unat (x :: u8)) - int (unat y) < 0 \<longleftrightarrow> x < y" "int (unat x) - int (unat y) = 0 \<longleftrightarrow> x = y"
  using word_less_nat_alt[of x y] word_unat_eq_iff[of x y] by linarith+

lemma memcmp_blocks:
  "(memcmp (xs @ us) (ys @ vs) (min (length xs) (length ys)) < 0 \<or>
     (memcmp (xs @ us) (ys @ vs) (min (length xs) (length ys)) = 0 \<and> length xs < length ys)) \<longleftrightarrow> xs < ys"
proof (induction xs arbitrary: ys)
  case Nil
  then show ?case by (cases ys) simp_all
next
  case (Cons x xs)
  show ?case
  proof (cases ys)
    case ys: (Cons y ys')
    show ?thesis
    proof (cases "x = y")
      case True
      then show ?thesis using ys Cons.IH[of ys'] by simp
    next
      case False
      then show ?thesis using ys byte_difference[of x y] by simp
    qed
  qed simp
qed

lemma memcmp_blocks_eq:
  "(memcmp (xs @ us) (ys @ vs) (min (length xs) (length ys)) = 0 \<and> length xs = length ys) \<longleftrightarrow> xs = ys"
proof (induction xs arbitrary: ys)
  case Nil
  then show ?case by (cases ys) simp_all
next
  case (Cons x xs)
  show ?case
  proof (cases ys)
    case ys: (Cons y ys')
    show ?thesis
    proof (cases "x = y")
      case True
      then show ?thesis using ys Cons.IH[of ys'] by simp
    next
      case False
      then show ?thesis using ys byte_difference[of x y] by simp
    qed
  qed simp
qed

lemma memcmp_take: "n \<le> length xs \<Longrightarrow> n \<le> length ys \<Longrightarrow> memcmp xs ys n = 0 \<longleftrightarrow> take n xs = take n ys"
proof (induction xs ys n rule: memcmp.induct)
  case (1 x xs y ys n)
  then show ?case using byte_difference[of x y] by auto
qed auto

section \<open>qsort\<close>

type_synonym 'a qsort = "('a \<Rightarrow> 'a \<Rightarrow> int) \<Rightarrow> 'a list \<Rightarrow> 'a list"

definition consistent_on :: "('a \<Rightarrow> 'a \<Rightarrow> int) \<Rightarrow> 'a set \<Rightarrow> bool" where
  "consistent_on cmp A \<longleftrightarrow>
     (\<forall>a \<in> A. \<forall>b \<in> A. cmp a b \<le> 0 \<or> cmp b a \<le> 0) \<and>
     (\<forall>a \<in> A. \<forall>b \<in> A. \<forall>c \<in> A. cmp a b \<le> 0 \<longrightarrow> cmp b c \<le> 0 \<longrightarrow> cmp a c \<le> 0)"

definition qsort_ok :: "'a qsort \<Rightarrow> bool" where
  "qsort_ok qs \<longleftrightarrow>
     (\<forall>cmp es. consistent_on cmp (set es) \<longrightarrow>
        mset (qs cmp es) = mset es \<and> sorted_wrt (\<lambda>a b. cmp a b \<le> 0) (qs cmp es))"

text \<open>A sort that meets the hypothesis: insertion.\<close>

fun insert_by :: "('a \<Rightarrow> 'a \<Rightarrow> int) \<Rightarrow> 'a \<Rightarrow> 'a list \<Rightarrow> 'a list" where
  "insert_by cmp x [] = [x]"
| "insert_by cmp x (y # ys) = (if cmp x y \<le> 0 then x # y # ys else y # insert_by cmp x ys)"

definition insertion_sort :: "'a qsort" where
  "insertion_sort cmp es = foldr (insert_by cmp) es []"

lemma mset_insert_by: "mset (insert_by cmp x ys) = add_mset x (mset ys)"
  by (induction ys) simp_all

lemma set_insert_by: "set (insert_by cmp x ys) = insert x (set ys)"
  by (induction ys) auto

lemma consistent_subset: "consistent_on cmp A \<Longrightarrow> B \<subseteq> A \<Longrightarrow> consistent_on cmp B"
  unfolding consistent_on_def by (meson subsetD)

lemma sorted_insert_by:
  assumes "consistent_on cmp (insert x (set ys))" and "sorted_wrt (\<lambda>a b. cmp a b \<le> 0) ys"
  shows "sorted_wrt (\<lambda>a b. cmp a b \<le> 0) (insert_by cmp x ys)"
  using assms
proof (induction ys)
  case Nil
  then show ?case by simp
next
  case (Cons y ys)
  have c: "consistent_on cmp (insert x (set ys))"
    using Cons.prems(1) by (rule consistent_subset) auto
  show ?case
  proof (cases "cmp x y \<le> 0")
    case True
    have "cmp x z \<le> 0" if "z \<in> set ys" for z
    proof -
      have "cmp y z \<le> 0" using Cons.prems(2) that by simp
      then show ?thesis using Cons.prems(1) True that unfolding consistent_on_def
        by (meson insertI1 insertI2 list.set_intros)
    qed
    then show ?thesis using True Cons.prems(2) by simp
  next
    case False
    then have "cmp y x \<le> 0" using Cons.prems(1) unfolding consistent_on_def
      by (meson insertI1 insertI2 list.set_intros)
    then show ?thesis using False Cons.IH[OF c] Cons.prems(2) by (simp add: set_insert_by)
  qed
qed

lemma insertion_sort_ok: "qsort_ok insertion_sort"
  unfolding qsort_ok_def
proof (intro allI impI)
  fix cmp es assume "consistent_on cmp (set es)"
  then show "mset (insertion_sort cmp es) = mset es \<and> sorted_wrt (\<lambda>a b. cmp a b \<le> 0) (insertion_sort cmp es)"
  proof (induction es)
    case Nil
    then show ?case by (simp add: insertion_sort_def)
  next
    case (Cons e es)
    have c: "consistent_on cmp (set es)" using Cons.prems by (rule consistent_subset) auto
    note ih = Cons.IH[OF c]
    then have "set (insertion_sort cmp es) = set es" by (metis set_mset_mset)
    then show ?case using ih Cons.prems sorted_insert_by[of cmp e "insertion_sort cmp es"]
      by (simp add: insertion_sort_def mset_insert_by)
  qed
qed

end
