(* ===== verification/Encoder.thy ===== *)
theory Encoder
  imports Symbols Clib
begin

text \<open>
  The encoder up to serialisation: \<open>src/core/encoder.c\<close> lines 15-295 and 791-813. Options, entries
  with owned copies, the sort and deduplication before a build, the symbol analysis.

  \<open>qsort\<close> of the C library is the parameter \<open>qs\<close>.
\<close>

section \<open>State\<close>

record tp_encoder_options =
  o_trie_mode :: tp_addr_mode
  o_value_mode :: tp_addr_mode
  o_checksum :: tp_checksum_type
  o_enable_suffix :: bool
  o_compact_mode :: bool
  o_bits_per_symbol :: nat

record tp_encoder =
  en_opts :: tp_encoder_options
  en_count :: nat
  en_entries :: "tp_entry list"
  en_entries_cap :: nat
  en_sorted :: bool
  en_sym :: tp_symbol_info

text \<open>\<open>sizeof\<close> of the structures the encoder allocates.\<close>

definition SIZEOF_ENCODER :: nat where "SIZEOF_ENCODER = 1616"
definition SIZEOF_ENTRY :: nat where "SIZEOF_ENTRY = 40"

section \<open>Values the encoder owns\<close>

definition value_deep_copy :: "nat \<Rightarrow> tp_value \<Rightarrow> tp_value tp" where
  "value_deep_copy heap v =
     (case v of
        TP_STRING (Some s) len \<Rightarrow>
          if heap < wrap64 (len + 1) then Err TP_ERR_ALLOC
          else if length s < len then Fault
          else Ok (TP_STRING (Some (take len s @ [0])) len)
      | TP_BLOB (Some d) len \<Rightarrow>
          if heap < (if len > 0 then len else 1) then Err TP_ERR_ALLOC
          else if length d < len then Fault
          else Ok (TP_BLOB (Some (take len d)) len)
      | _ \<Rightarrow> Ok v)"

section \<open>Lifecycle\<close>

definition tp_encoder_defaults :: tp_encoder_options where
  "tp_encoder_defaults =
     \<lparr>o_trie_mode = TP_ADDR_BIT, o_value_mode = TP_ADDR_BYTE, o_checksum = TP_CHECKSUM_CRC32,
      o_enable_suffix = False, o_compact_mode = False, o_bits_per_symbol = 0\<rparr>"

definition tp_encoder_create_ex :: "nat \<Rightarrow> tp_encoder_options \<Rightarrow> tp_encoder tp" where
  "tp_encoder_create_ex heap opts =
     (if o_trie_mode opts \<noteq> TP_ADDR_BIT then Err TP_ERR_UNSUPPORTED
      else if o_value_mode opts \<noteq> TP_ADDR_BYTE then Err TP_ERR_UNSUPPORTED
      else if o_checksum opts \<noteq> TP_CHECKSUM_CRC32 then Err TP_ERR_UNSUPPORTED
      else if o_enable_suffix opts then Err TP_ERR_UNSUPPORTED
      else if o_compact_mode opts then Err TP_ERR_UNSUPPORTED
      else if o_bits_per_symbol opts > 15 then Err TP_ERR_INVALID_PARAM
      else if heap < SIZEOF_ENCODER then Err TP_ERR_ALLOC
      else Ok \<lparr>en_opts = opts, en_count = 0, en_entries = [], en_entries_cap = 0,
               en_sorted = False, en_sym = zero_symbols\<rparr>)"

definition tp_encoder_create :: "nat \<Rightarrow> tp_encoder tp" where
  "tp_encoder_create heap = tp_encoder_create_ex heap tp_encoder_defaults"

type_synonym encoding = "tp_encoder \<Rightarrow> unit tp \<times> tp_encoder"

definition tp_encoder_add_n :: "nat \<Rightarrow> ptr \<Rightarrow> nat \<Rightarrow> tp_value option \<Rightarrow> encoding" where
  "tp_encoder_add_n heap key key_len val enc =
     (case key of
        None \<Rightarrow> (Err TP_ERR_INVALID_PARAM, enc)
      | Some kb \<Rightarrow>
          let full = (en_count enc \<ge> en_entries_cap enc);
              new_cap = (if en_entries_cap enc = 0 then 16 else wrap64 (en_entries_cap enc * 2));
              enc1 = (if full then enc\<lparr>en_entries_cap := new_cap\<rparr> else enc) in
          if full \<and> heap < wrap64 (new_cap * SIZEOF_ENTRY) then (Err TP_ERR_ALLOC, enc)
          else if heap < wrap64 (key_len + 1) then (Err TP_ERR_ALLOC, enc1)
          else if length kb < key_len then (Fault, enc1)
          else
            sbind (slift (value_deep_copy heap (case val of None \<Rightarrow> tp_value_null | Some v \<Rightarrow> v)))
              (\<lambda>v s. (Ok (), s\<lparr>en_entries := take (en_count s) (en_entries s) @
                          [\<lparr>e_key = take key_len kb @ [0], e_key_len = key_len, e_val = v\<rparr>],
                        en_count := wrap32 (en_count s + 1), en_sorted := False\<rparr>)) enc1)"

definition tp_encoder_add :: "nat \<Rightarrow> ptr \<Rightarrow> tp_value option \<Rightarrow> encoding" where
  "tp_encoder_add heap key val enc =
     (case key of
        None \<Rightarrow> (Err TP_ERR_INVALID_PARAM, enc)
      | Some kb \<Rightarrow> (case strlen kb of
                      None \<Rightarrow> (Fault, enc)
                    | Some n \<Rightarrow> tp_encoder_add_n heap key n val enc))"

definition tp_encoder_count :: "tp_encoder \<Rightarrow> nat" where
  "tp_encoder_count enc = en_count enc"

definition tp_encoder_reset :: encoding where
  "tp_encoder_reset enc =
     (Ok (), enc\<lparr>en_entries := [], en_entries_cap := 0, en_count := 0, en_sorted := False\<rparr>)"

section \<open>Sorting and deduplication\<close>

definition entry_cmp :: "tp_entry \<Rightarrow> tp_entry \<Rightarrow> int" where
  "entry_cmp ea eb =
     (let min_len = (if e_key_len ea < e_key_len eb then e_key_len ea else e_key_len eb);
          cmp = memcmp (e_key ea) (e_key eb) min_len in
      if cmp \<noteq> 0 then cmp
      else if e_key_len ea < e_key_len eb then -1
      else if e_key_len ea > e_key_len eb then 1
      else 0)"

definition sort_entries :: "tp_entry qsort \<Rightarrow> tp_encoder \<Rightarrow> tp_encoder" where
  "sort_entries qs enc =
     (let enc1 = (if en_count enc > 1 then enc\<lparr>en_entries := qs entry_cmp (take (en_count enc) (en_entries enc))\<rparr>
                  else enc) in
      enc1\<lparr>en_sorted := True\<rparr>)"

definition same_key :: "tp_entry \<Rightarrow> tp_entry \<Rightarrow> bool" where
  "same_key a b \<longleftrightarrow> e_key_len a = e_key_len b \<and> memcmp (e_key a) (e_key b) (e_key_len a) = 0"

text \<open>The loop at index \<open>i\<close>, with \<open>k\<close> iterations to go: the entries and \<open>write\<close>.\<close>

fun dedup_loop :: "nat \<Rightarrow> nat \<Rightarrow> nat \<Rightarrow> nat \<Rightarrow> tp_entry list \<Rightarrow> tp_entry list \<times> nat" where
  "dedup_loop 0 i wr cnt es = (es, wr)"
| "dedup_loop (Suc k) i wr cnt es =
     (if i + 1 < cnt \<and> same_key (es ! i) (es ! (i + 1)) then dedup_loop k (i + 1) wr cnt es
      else dedup_loop k (i + 1) (wr + 1) cnt (if wr \<noteq> i then es[wr := es ! i] else es))"

definition dedup_entries :: "tp_encoder \<Rightarrow> tp_encoder" where
  "dedup_entries enc =
     (if en_count enc \<le> 1 then enc
      else let (es, wr) = dedup_loop (en_count enc) 0 0 (en_count enc) (en_entries enc) in
        enc\<lparr>en_entries := take wr es, en_count := wr\<rparr>)"

section \<open>Symbol analysis\<close>

text \<open>The bytes \<open>key[0..key_len)\<close> of an entry.\<close>

definition key_bytes :: "tp_entry \<Rightarrow> u8 list tp" where
  "key_bytes e = (if e_key_len e \<le> length (e_key e) then Ok (take (e_key_len e) (e_key e)) else Fault)"

definition scan_used :: "tp_entry list \<Rightarrow> bool list tp" where
  "scan_used es =
     fold_res (\<lambda>e used. rbind (key_bytes e) (\<lambda>cs. Ok (fold (\<lambda>c u. u[unat c := True]) cs used)))
       es (replicate 256 False)"

function auto_bps_loop :: "nat \<Rightarrow> nat \<Rightarrow> nat" where
  "auto_bps_loop n_sym bps = (if 2 ^ bps < n_sym then auto_bps_loop n_sym (bps + 1) else bps)"
  by pat_completeness auto
termination
  by (relation "measure (\<lambda>(n_sym, bps). n_sym - 2 ^ bps)") (auto intro!: diff_less_mono2)

declare auto_bps_loop.simps [simp del]

text \<open>One byte value of the loop that assigns codes; the state is the symbol map, the reverse map
  and the next code.\<close>

definition assign_code :: "bool list \<Rightarrow> nat \<Rightarrow> nat list \<times> u8 list \<times> nat \<Rightarrow> nat list \<times> u8 list \<times> nat" where
  "assign_code used i st =
     (case st of (smap, rmap, code) \<Rightarrow>
        if used ! i then
          (smap[i := code], if code < 256 then rmap[code := word_of_nat i] else rmap, code + 1)
        else (smap, rmap, code))"

definition analyze_symbols :: "tp_encoder \<Rightarrow> tp_encoder tp" where
  "analyze_symbols enc =
     rbind (scan_used (take (en_count enc) (en_entries enc))) (\<lambda>used.
       let alphabet_size = length (filter (\<lambda>i. used ! i) [0..<256]);
           total_symbols = alphabet_size + TP_NUM_CONTROL_CODES;
           bps = (if o_bits_per_symbol (en_opts enc) = 0 then auto_bps_loop total_symbols 1
                  else o_bits_per_symbol (en_opts enc));
           (smap, rmap, _) = fold (assign_code used) [0..<256]
              (replicate 256 0, replicate 256 0, TP_NUM_CONTROL_CODES) in
       Ok (enc\<lparr>en_sym :=
         \<lparr>s_bits_per_symbol = bps, s_symbol_count = total_symbols, s_alphabet_size = alphabet_size,
          s_ctrl_codes = [0..<TP_NUM_CONTROL_CODES], s_symbol_map = smap, s_reverse_map = rmap,
          s_code_is_ctrl = replicate TP_NUM_CONTROL_CODES True @ replicate 250 False\<rparr>\<rparr>))"

section \<open>The encoder's invariant\<close>

definition enc_ok :: "tp_encoder \<Rightarrow> bool" where
  "enc_ok enc \<longleftrightarrow> en_count enc = length (en_entries enc) \<and> en_count enc < 4294967296 \<and>
     (\<forall>e \<in> set (en_entries enc). entry_ok e) \<and> o_bits_per_symbol (en_opts enc) \<le> 15"

text \<open>What a client has stored: keys with values, in the order of the calls.\<close>

definition stored :: "tp_encoder \<Rightarrow> (u8 list \<times> tp_value) list" where
  "stored enc = map (\<lambda>e. (entry_key e, e_val e)) (take (en_count enc) (en_entries enc))"

lemma create_ok: "tp_encoder_create_ex heap opts = Ok enc \<Longrightarrow> enc_ok enc \<and> stored enc = []"
  by (auto simp: tp_encoder_create_ex_def enc_ok_def stored_def split: if_splits)

lemma deep_copy_agrees:
  assumes "value_deep_copy heap v = Ok v'" and "storable v" shows "value_agree v v' \<and> storable v'"
proof (cases v)
  case (TP_STRING p n)
  then show ?thesis using assms
    by (cases p) (auto simp: value_deep_copy_def view_def split: if_splits)
next
  case (TP_BLOB p n)
  then show ?thesis using assms
    by (cases p) (auto simp: value_deep_copy_def view_def split: if_splits)
qed (use assms in \<open>auto simp: value_deep_copy_def\<close>)

lemma add_n_ok:
  assumes ok: "enc_ok enc" and room: "en_count enc < 4294967295"
    and eq: "tp_encoder_add_n heap (Some kb) n val enc = (Ok (), enc')"
  shows "enc_ok enc' \<and> (\<exists>v. value_deep_copy heap (case val of None \<Rightarrow> tp_value_null | Some v \<Rightarrow> v) = Ok v \<and>
    stored enc' = stored enc @ [(take n kb, v)])"
proof -
  have len: "length kb \<ge> n"
    using eq by (auto simp: tp_encoder_add_n_def Let_def split: if_splits)
  have e: "entry_key \<lparr>e_key = take n kb @ [0], e_key_len = n, e_val = v\<rparr> = take n kb"
    "entry_ok \<lparr>e_key = take n kb @ [0], e_key_len = n, e_val = v\<rparr>" for v
    using len by (simp_all add: entry_key_def entry_ok_def)
  show ?thesis
    using eq ok room e
    by (auto simp: tp_encoder_add_n_def Let_def sbind_eq_Ok enc_ok_def stored_def
        split: if_splits)
qed

lemma add_n_failed:
  assumes "enc_ok enc" and "tp_encoder_add_n heap key n val enc = (m, enc')" and "m \<noteq> Ok ()"
  shows "enc_ok enc' \<and> stored enc' = stored enc"
  using assms by (auto simp: tp_encoder_add_n_def Let_def sbind_def enc_ok_def stored_def
      split: option.splits if_splits res.splits)

lemma reset_ok: "enc_ok enc \<Longrightarrow> \<exists>enc'. tp_encoder_reset enc = (Ok (), enc') \<and> enc_ok enc' \<and> stored enc' = []"
  by (simp add: tp_encoder_reset_def enc_ok_def stored_def)

section \<open>The comparison is the lexicographic order of the keys\<close>

lemma entry_block: "entry_ok e \<Longrightarrow> \<exists>us. e_key e = entry_key e @ us"
  by (metis append_take_drop_id entry_key_def)

lemma entry_cmp_key:
  assumes "entry_ok a" and "entry_ok b"
  shows "entry_cmp a b < 0 \<longleftrightarrow> entry_key a < entry_key b" "entry_cmp a b = 0 \<longleftrightarrow> entry_key a = entry_key b"
proof -
  obtain us vs where k: "e_key a = entry_key a @ us" "e_key b = entry_key b @ vs"
    using entry_block assms by blast
  have l: "length (entry_key a) = e_key_len a" "length (entry_key b) = e_key_len b" using assms by simp_all
  have m: "(if e_key_len a < e_key_len b then e_key_len a else e_key_len b) = min (e_key_len a) (e_key_len b)"
    by simp
  note c = memcmp_blocks[of "entry_key a" us "entry_key b" vs, folded k, unfolded l]
    and d = memcmp_blocks_eq[of "entry_key a" us "entry_key b" vs, folded k, unfolded l]
  show "entry_cmp a b < 0 \<longleftrightarrow> entry_key a < entry_key b"
    unfolding c[symmetric] entry_cmp_def m Let_def by auto
  show "entry_cmp a b = 0 \<longleftrightarrow> entry_key a = entry_key b"
    unfolding d[symmetric] entry_cmp_def m Let_def by auto
qed

lemma entry_cmp_le: "entry_ok a \<Longrightarrow> entry_ok b \<Longrightarrow> entry_cmp a b \<le> 0 \<longleftrightarrow> entry_key a \<le> entry_key b"
  using entry_cmp_key[of a b] by (auto simp: order_le_less)

lemma same_key_iff:
  assumes "entry_ok a" and "entry_ok b" shows "same_key a b \<longleftrightarrow> entry_key a = entry_key b"
proof -
  obtain us vs where k: "e_key a = entry_key a @ us" "e_key b = entry_key b @ vs"
    using entry_block assms by blast
  have l: "length (entry_key a) = e_key_len a" "length (entry_key b) = e_key_len b" using assms by simp_all
  show ?thesis
    unfolding memcmp_blocks_eq[of "entry_key a" us "entry_key b" vs, folded k, unfolded l, symmetric] same_key_def
    by auto
qed

section \<open>qsort\<close>

lemma entry_cmp_consistent: "\<forall>e \<in> A. entry_ok e \<Longrightarrow> consistent_on entry_cmp A"
  unfolding consistent_on_def by (auto simp: entry_cmp_le)

lemma qsort_entries:
  assumes "qsort_ok qs" and "\<forall>e \<in> set es. entry_ok e"
  shows "mset (qs entry_cmp es) = mset es" and "sorted (map entry_key (qs entry_cmp es))"
proof -
  have q: "mset (qs entry_cmp es) = mset es" "sorted_wrt (\<lambda>a b. entry_cmp a b \<le> 0) (qs entry_cmp es)"
    using assms entry_cmp_consistent unfolding qsort_ok_def by blast+
  show "mset (qs entry_cmp es) = mset es" by (rule q)
  have "set (qs entry_cmp es) = set es" using q(1) by (metis set_mset_mset)
  then show "sorted (map entry_key (qs entry_cmp es))"
    unfolding sorted_map using q(2) assms(2)
    by (elim sorted_wrt_mono_rel[rotated]) (simp add: entry_cmp_le)
qed

section \<open>Deduplication\<close>

text \<open>What the in-place loop computes: of each run of equal keys the last entry.\<close>

fun dedup :: "tp_entry list \<Rightarrow> tp_entry list" where
  "dedup (a # b # es) = (if same_key a b then dedup (b # es) else a # dedup (b # es))"
| "dedup es = es"

lemma dedup_loop_dedup:
  "wr \<le> i \<Longrightarrow> i + k = cnt \<Longrightarrow> length es = cnt \<Longrightarrow> dedup_loop k i wr cnt es = (es', wr') \<Longrightarrow>
   take wr' es' = take wr es @ dedup (drop i es) \<and> wr' \<le> length es'"
proof (induction k arbitrary: i wr es)
  case 0
  then show ?case by simp
next
  case (Suc k)
  have i: "i < length es" using Suc.prems by simp
  have d: "drop i es = es ! i # drop (Suc i) es" using i by (simp add: Cons_nth_drop_Suc)
  show ?case
  proof (cases "i + 1 < cnt \<and> same_key (es ! i) (es ! (i + 1))")
    case True
    then have "drop (Suc i) es = es ! Suc i # drop (Suc (Suc i)) es"
      using Suc.prems by (simp add: Cons_nth_drop_Suc)
    then have "dedup (drop i es) = dedup (drop (Suc i) es)" using True d by simp
    then show ?thesis using True Suc.IH[of wr "Suc i" es] Suc.prems by simp
  next
    case False
    let ?es = "if wr \<noteq> i then es[wr := es ! i] else es"
    have t: "take (Suc wr) ?es = take wr es @ [es ! i]"
      using Suc.prems(1) i by (auto simp: take_Suc_conv_app_nth)
    have r: "drop (Suc i) ?es = drop (Suc i) es" using Suc.prems(1) by simp
    have "dedup (drop i es) = es ! i # dedup (drop (Suc i) es)"
    proof (cases "drop (Suc i) es")
      case Nil
      then show ?thesis using d by simp
    next
      case (Cons b bs)
      then have lt: "Suc i < length es" by (metis drop_eq_Nil list.distinct(1) not_le)
      then have "b = es ! Suc i" using Cons by (metis hd_drop_conv_nth list.sel(1))
      then show ?thesis using d Cons False lt Suc.prems(3) by simp
    qed
    moreover have "dedup_loop k (Suc i) (Suc wr) cnt ?es = (es', wr')"
      using Suc.prems(4) unfolding dedup_loop.simps if_not_P[OF False] by simp
    ultimately show ?thesis using Suc.IH[of "Suc wr" "Suc i" ?es] Suc.prems(1-3) t r by auto
  qed
qed

lemma dedup_props:
  assumes "\<forall>e \<in> set es. entry_ok e" and "sorted (map entry_key es)"
  shows "set (dedup es) \<subseteq> set es" and "set (map entry_key (dedup es)) = set (map entry_key es)"
    and "sorted_wrt (<) (map entry_key (dedup es))"
proof -
  have "set (dedup es) \<subseteq> set es \<and> set (map entry_key (dedup es)) = set (map entry_key es) \<and>
    sorted_wrt (<) (map entry_key (dedup es))"
    using assms
  proof (induction es rule: dedup.induct)
    case (1 a b es)
    have k: "same_key a b \<longleftrightarrow> entry_key a = entry_key b" using "1.prems"(1) by (simp add: same_key_iff)
    show ?case
    proof (cases "same_key a b")
      case True
      then show ?thesis using "1.IH"(1)[OF True] "1.prems" k by auto
    next
      case False
      note ih = "1.IH"(2)[OF False]
      have lt: "entry_key a < entry_key x" if "x \<in> set (b # es)" for x
        using "1.prems"(2) k False that by fastforce
      show ?thesis using ih False "1.prems" lt by auto
    qed
  qed simp_all
  then show "set (dedup es) \<subseteq> set es" "set (map entry_key (dedup es)) = set (map entry_key es)"
    "sorted_wrt (<) (map entry_key (dedup es))" by blast+
qed

text \<open>The first two steps of a build: sorted, one entry per key, the keys unchanged.\<close>

definition keys_sorted :: "tp_entry list \<Rightarrow> bool" where
  "keys_sorted es \<longleftrightarrow> (\<forall>e \<in> set es. entry_ok e) \<and> sorted_wrt (<) (map entry_key es)"

lemma prepare_ok:
  assumes q: "qsort_ok qs" and ok: "enc_ok enc" and e': "enc' = dedup_entries (sort_entries qs enc)"
  shows "enc_ok enc'" and "keys_sorted (en_entries enc')" and "set (en_entries enc') \<subseteq> set (en_entries enc)"
    and "set (map entry_key (en_entries enc')) = set (map entry_key (en_entries enc))"
    and "en_opts enc' = en_opts enc"
proof -
  let ?es = "en_entries enc"
  have len: "en_count enc = length ?es" and all: "\<forall>e \<in> set ?es. entry_ok e"
    using ok by (simp_all add: enc_ok_def)
  have "enc_ok enc' \<and> keys_sorted (en_entries enc') \<and> set (en_entries enc') \<subseteq> set ?es \<and>
    set (map entry_key (en_entries enc')) = set (map entry_key ?es) \<and> en_opts enc' = en_opts enc"
  proof (cases "en_count enc > 1")
    case True
    let ?s = "qs entry_cmp ?es"
    have m: "mset ?s = mset ?es" and so: "sorted (map entry_key ?s)"
      using qsort_entries[OF q all] by simp_all
    have ls: "length ?s = length ?es" and ss: "set ?s = set ?es"
      using m by (metis size_mset, metis set_mset_mset)
    obtain es' wr where dl: "dedup_loop (length ?es) 0 0 (length ?es) ?s = (es', wr)" by force
    have t: "take wr es' = dedup ?s" "wr \<le> length es'"
      using dedup_loop_dedup[of 0 0 "length ?es" "length ?es" ?s es' wr] ls dl by simp_all
    have all': "\<forall>e \<in> set ?s. entry_ok e" using all ss by simp
    note d = dedup_props[OF all' so]
    have wr: "wr = length (dedup ?s)" using t by (metis length_take min.absorb2)
    have "length (dedup xs) \<le> length xs" for xs by (induction xs rule: dedup.induct) auto
    then have "length (dedup ?s) \<le> length ?es" using ls by metis
    then show ?thesis
      using e' True len dl t d wr ok ss unfolding keys_sorted_def
      by (auto simp: sort_entries_def dedup_entries_def enc_ok_def)
  next
    case False
    then show ?thesis using e' ok len all
      by (cases ?es) (auto simp: sort_entries_def dedup_entries_def keys_sorted_def enc_ok_def Let_def)
  qed
  then show "enc_ok enc'" "keys_sorted (en_entries enc')" "set (en_entries enc') \<subseteq> set ?es"
    "set (map entry_key (en_entries enc')) = set (map entry_key ?es)" "en_opts enc' = en_opts enc"
    by blast+
qed

section \<open>Symbol analysis\<close>

text \<open>The bytes of the stored keys.\<close>

definition alphabet :: "tp_entry list \<Rightarrow> u8 set" where
  "alphabet es = \<Union> (set ` entry_key ` set es)"

lemma scan_used_ok:
  assumes "\<forall>e \<in> set es. entry_ok e"
  shows "\<exists>used. scan_used es = Ok used \<and> length used = 256 \<and> (\<forall>c :: u8. used ! unat c \<longleftrightarrow> c \<in> alphabet es)"
proof -
  have mark: "length (fold (\<lambda>c u. u[unat (c :: u8) := True]) cs u) = length u \<and>
    (length u = 256 \<longrightarrow> (\<forall>c. fold (\<lambda>c u. u[unat c := True]) cs u ! unat c \<longleftrightarrow> u ! unat c \<or> c \<in> set cs))"
    for cs u
  proof (induction cs arbitrary: u)
    case (Cons d cs)
    have "unat d < 256" using unat_bound[of d] by simp
    then show ?case using Cons[of "u[unat d := True]"]
      by (auto simp: nth_list_update word_unat_eq_iff)
  qed simp
  have kb: "key_bytes e = Ok (entry_key e)" if "entry_ok e" for e
    using that by (simp add: key_bytes_def entry_ok_def entry_key_def)
  have "\<exists>used. fold_res (\<lambda>e used. rbind (key_bytes e) (\<lambda>cs. Ok (fold (\<lambda>c u. u[unat c := True]) cs used))) es u = Ok used
      \<and> length used = 256 \<and> (\<forall>c :: u8. used ! unat c \<longleftrightarrow> u ! unat c \<or> c \<in> alphabet es)"
    if "length u = 256" for u
    using assms that
  proof (induction es arbitrary: u)
    case (Cons e es)
    then show ?case using mark[of "entry_key e" u]
      Cons.IH[of "fold (\<lambda>c u. u[unat c := True]) (entry_key e) u"] kb[of e]
      by (auto simp: alphabet_def)
  qed (simp add: alphabet_def)
  from this[of "replicate 256 False"] show ?thesis
  proof -
    have "replicate 256 False ! unat c = False" for c :: u8 using unat_bound[of c] by simp
    then show ?thesis using \<open>length (replicate 256 False) = 256 \<Longrightarrow> _\<close> by (simp add: scan_used_def)
  qed
qed

definition rank_used :: "bool list \<Rightarrow> nat \<Rightarrow> nat" where
  "rank_used used n = length (filter (\<lambda>i. used ! i) [0..<n])"

lemma rank_used_Suc: "rank_used used (Suc n) = rank_used used n + (if used ! n then 1 else 0)"
  by (simp add: rank_used_def)

lemma rank_used_mono: "m \<le> n \<Longrightarrow> rank_used used m \<le> rank_used used n"
  by (induction n) (auto simp: rank_used_Suc le_Suc_eq)

lemma rank_used_less: "used ! m \<Longrightarrow> m < n \<Longrightarrow> rank_used used m < rank_used used n"
  using rank_used_mono[of "Suc m" n used] by (simp add: rank_used_Suc)

lemma assign_codes:
  assumes "n \<le> 256" and "rank_used used 256 \<le> 250"
  shows "\<exists>smap rmap. fold (assign_code used) [0..<n] (replicate 256 0, replicate 256 0, 6) =
      (smap, rmap, 6 + rank_used used n) \<and> length smap = 256 \<and> length rmap = 256 \<and>
      (\<forall>j < 256. smap ! j = (if j < n \<and> used ! j then 6 + rank_used used j else 0)) \<and>
      (\<forall>j < n. used ! j \<longrightarrow> rmap ! (6 + rank_used used j) = word_of_nat j)"
  using assms(1)
proof (induction n)
  case 0
  then show ?case by (simp add: rank_used_def)
next
  case (Suc n)
  then obtain smap rmap where ih: "fold (assign_code used) [0..<n] (replicate 256 0, replicate 256 0, 6) =
      (smap, rmap, 6 + rank_used used n)" "length smap = 256" "length rmap = 256"
      "\<forall>j < 256. smap ! j = (if j < n \<and> used ! j then 6 + rank_used used j else 0)"
      "\<forall>j < n. used ! j \<longrightarrow> rmap ! (6 + rank_used used j) = word_of_nat j"
    by auto
  have lt: "6 + rank_used used n < 256" if "used ! n"
    using rank_used_less[OF that, of 256] Suc.prems assms(2) by simp
  have ne: "rank_used used n \<noteq> rank_used used j" if "used ! j" "j < n" for j
    using rank_used_less[OF that] by simp
  show ?case
  proof (cases "used ! n")
    case True
    have "\<forall>j < Suc n. used ! j \<longrightarrow> rmap[6 + rank_used used n := word_of_nat n] ! (6 + rank_used used j) = word_of_nat j"
      using ih(3,5) ne lt[OF True] by (auto simp: nth_list_update less_Suc_eq)
    moreover have "\<forall>j < 256. smap[n := 6 + rank_used used n] ! j =
        (if j < Suc n \<and> used ! j then 6 + rank_used used j else 0)"
      using ih(2,4) True Suc.prems by (auto simp: nth_list_update less_Suc_eq)
    moreover have "assign_code used n (smap, rmap, 6 + rank_used used n) =
        (smap[n := 6 + rank_used used n], rmap[6 + rank_used used n := word_of_nat n], 6 + rank_used used (Suc n))"
      using True lt[OF True] by (simp add: assign_code_def rank_used_Suc)
    ultimately show ?thesis using ih(1-3) by auto
  next
    case False
    then have "assign_code used n (smap, rmap, 6 + rank_used used n) = (smap, rmap, 6 + rank_used used (Suc n))"
      by (simp add: assign_code_def rank_used_Suc)
    then show ?thesis using ih False by (auto simp: less_Suc_eq)
  qed
qed

lemma auto_bps_least:
  "n_sym \<le> 2 ^ auto_bps_loop n_sym b \<and> b \<le> auto_bps_loop n_sym b \<and>
   (\<forall>k. b \<le> k \<longrightarrow> n_sym \<le> 2 ^ k \<longrightarrow> auto_bps_loop n_sym b \<le> k)"
proof (induction n_sym b rule: auto_bps_loop.induct)
  case (1 n_sym b)
  show ?case
  proof (cases "2 ^ b < n_sym")
    case True
    have "auto_bps_loop n_sym b \<le> k" if "b \<le> k" "n_sym \<le> 2 ^ k" for k
    proof -
      have "b \<noteq> k" using True that by auto
      then show ?thesis using 1 True that by (subst auto_bps_loop.simps) simp
    qed
    then show ?thesis using 1 True by (subst (1 2) auto_bps_loop.simps) simp
  next
    case False
    then show ?thesis by (subst (1 2 3) auto_bps_loop.simps) simp
  qed
qed

lemma unat_image_u8: "(\<exists>c :: u8. unat c = i) \<longleftrightarrow> i < 256"
proof
  assume "i < 256"
  then have "unat (word_of_nat i :: u8) = i" by (simp add: unsigned_of_nat take_bit_nat_eq_self)
  then show "\<exists>c :: u8. unat c = i" by blast
next
  show "\<exists>c :: u8. unat c = i \<Longrightarrow> i < 256" using unat_bound[where 'a = 8] by auto
qed

lemma rank_used_card:
  assumes "\<forall>c :: u8. used ! unat c \<longleftrightarrow> c \<in> al"
  shows "rank_used used 256 = card al"
proof -
  have "{i \<in> set [0..<256]. used ! i} = unat ` al"
    using assms unat_image_u8 by (auto simp: image_iff) (metis+)
  then have "rank_used used 256 = card (unat ` al)"
    unfolding rank_used_def by (metis distinct_card distinct_filter distinct_upt set_filter)
  then show ?thesis by (simp add: card_image inj_on_def word_unat_eq_iff)
qed

text \<open>A symbol width the client chose has to hold every code, and the decoder takes no more than 8 bits; the
  default 0 leaves the choice to the analysis.\<close>

definition width_fits :: "tp_encoder \<Rightarrow> bool" where
  "width_fits enc \<longleftrightarrow> o_bits_per_symbol (en_opts enc) = 0 \<or>
     (o_bits_per_symbol (en_opts enc) \<le> 8 \<and> card (alphabet (en_entries enc)) + 6 \<le> 2 ^ o_bits_per_symbol (en_opts enc))"

definition chosen_width :: "tp_encoder \<Rightarrow> nat" where
  "chosen_width enc = (if o_bits_per_symbol (en_opts enc) = 0 then auto_bps_loop (card (alphabet (en_entries enc)) + 6) 1
     else o_bits_per_symbol (en_opts enc))"

lemma chosen_width_fits:
  assumes "width_fits enc" and "card (alphabet (en_entries enc)) \<le> 249"
  shows "card (alphabet (en_entries enc)) + 6 \<le> 2 ^ chosen_width enc" "1 \<le> chosen_width enc" "chosen_width enc \<le> 8"
  using assms auto_bps_least[of "card (alphabet (en_entries enc)) + 6" 1] by (auto simp: width_fits_def chosen_width_def)

lemma chosen_width_bounds:
  assumes "enc_ok enc" and "card (alphabet (en_entries enc)) \<le> 249"
  shows "1 \<le> chosen_width enc" "chosen_width enc \<le> 15"
proof -
  have "auto_bps_loop (card (alphabet (en_entries enc)) + 6) 1 \<le> 8"
    using assms(2) auto_bps_least[of "card (alphabet (en_entries enc)) + 6" 1] by auto
  then show "1 \<le> chosen_width enc" "chosen_width enc \<le> 15"
    using assms(1) auto_bps_least[of "card (alphabet (en_entries enc)) + 6" 1] by (simp_all add: chosen_width_def enc_ok_def)
qed

text \<open>The table the analysis builds is well-formed for the bytes of the keys, when the width holds them.\<close>

lemma analyze_ok:
  assumes ok: "enc_ok enc" and width: "width_fits enc"
    and al: "card (alphabet (en_entries enc)) \<le> 249"
  shows "\<exists>si. analyze_symbols enc = Ok (enc\<lparr>en_sym := si\<rparr>) \<and> symbols_ok (alphabet (en_entries enc)) si \<and>
    s_symbol_count si = card (alphabet (en_entries enc)) + 6 \<and>
    s_bits_per_symbol si = chosen_width enc \<and>
    (\<forall>c < 6. ctrl_code si c = c) \<and>
    (\<forall>c \<in> alphabet (en_entries enc). 6 \<le> symbol_code si c \<and> symbol_code si c < s_symbol_count si) \<and>
    (\<forall>code. 6 \<le> code \<longrightarrow> code < s_symbol_count si \<longrightarrow>
       s_reverse_map si ! code \<in> alphabet (en_entries enc) \<and> symbol_code si (s_reverse_map si ! code) = code)"
proof -
  let ?al = "alphabet (en_entries enc)"
  obtain used where u: "scan_used (en_entries enc) = Ok used" "length used = 256"
      and us: "\<forall>c :: u8. used ! unat c \<longleftrightarrow> c \<in> ?al"
    using scan_used_ok[of "en_entries enc"] ok by (auto simp: enc_ok_def)
  have rk: "rank_used used 256 = card ?al" using rank_used_card[OF us] .
  obtain smap rmap where f: "fold (assign_code used) [0..<256] (replicate 256 0, replicate 256 0, 6) =
      (smap, rmap, 6 + rank_used used 256)" "length smap = 256" "length rmap = 256"
      and sm: "\<forall>j < 256. smap ! j = (if j < 256 \<and> used ! j then 6 + rank_used used j else 0)"
      and rm: "\<forall>j < 256. used ! j \<longrightarrow> rmap ! (6 + rank_used used j) = word_of_nat j"
    using assign_codes[of 256 used] rk al by auto
  let ?n = "card ?al + 6"
  let ?b = "chosen_width enc"
  let ?si = "\<lparr>s_bits_per_symbol = ?b, s_symbol_count = ?n, s_alphabet_size = card ?al,
          s_ctrl_codes = [0..<6], s_symbol_map = smap, s_reverse_map = rmap,
          s_code_is_ctrl = replicate 6 True @ replicate 250 False\<rparr>"
  have b: "?n \<le> 2 ^ ?b" "1 \<le> ?b" "?b \<le> 8"
    using chosen_width_fits[OF width al] by simp_all
  have lt: "unat c < 256" for c :: u8 using unat_bound[of c] by simp
  have code: "symbol_code ?si c = (if c \<in> ?al then 6 + rank_used used (unat c) else 0)" for c
    using sm us lt[of c] by (simp add: symbol_code_def)
  have less: "6 + rank_used used (unat c) < ?n" if "c \<in> ?al" for c
    using rank_used_less[of used "unat c" 256] us lt[of c] that rk by simp
  have ictl: "is_ctrl ?si k \<longleftrightarrow> k < 6" for k
    by (auto simp: is_ctrl_def nth_append)
  have rev: "rmap ! (6 + rank_used used (unat c)) = c" if "c \<in> ?al" for c
    using rm us lt[of c] that by simp
  have so: "symbols_ok ?al ?si"
    unfolding symbols_ok_def
  proof (intro conjI)
    show "\<forall>c < 6. ctrl_code ?si c < 2 ^ s_bits_per_symbol ?si"
      using b(1) by (auto simp: ctrl_code_def)
    show "\<forall>code < 256. s_code_is_ctrl ?si ! code \<longleftrightarrow> (\<exists>c < 6. ctrl_code ?si c = code)"
      by (auto simp: ctrl_code_def nth_append)
    show "\<forall>c \<in> ?al. symbol_code ?si c < 2 ^ s_bits_per_symbol ?si \<and> \<not> is_ctrl ?si (symbol_code ?si c) \<and>
        s_reverse_map ?si ! symbol_code ?si c = c"
      using less_le_trans[OF less b(1)] rev code ictl by simp
    show "\<forall>c. c \<notin> ?al \<longrightarrow> is_ctrl ?si (symbol_code ?si c)"
      using code ictl by simp
  qed (use b f in simp_all)
  have "analyze_symbols enc = Ok (enc\<lparr>en_sym := ?si\<rparr>)"
    using u f(1) ok rk
    by (simp add: chosen_width_def analyze_symbols_def TP_NUM_CONTROL_CODES_def Let_def enc_ok_def rank_used_def)
  moreover have "\<forall>c < 6. ctrl_code ?si c = c" by (simp add: ctrl_code_def)
  moreover have "\<forall>c \<in> ?al. 6 \<le> symbol_code ?si c \<and> symbol_code ?si c < s_symbol_count ?si"
    using less code by simp
  moreover have "\<exists>c \<in> ?al. symbol_code ?si c = k" if k: "6 \<le> k" "k < ?n" for k
  proof -
    have inj: "inj_on (symbol_code ?si) ?al"
      using symbol_code_eq_iff[OF so] by (auto simp: inj_on_def)
    have sub: "symbol_code ?si ` ?al \<subseteq> {6..<?n}" using less code by auto
    have "card (symbol_code ?si ` ?al) = card {6..<?n}" using card_image[OF inj] by simp
    then have "symbol_code ?si ` ?al = {6..<?n}" using sub by (intro card_subset_eq) simp_all
    then have "k \<in> symbol_code ?si ` ?al" using k by simp
    then show ?thesis by (auto simp: image_iff)
  qed
  then have "\<forall>k. 6 \<le> k \<longrightarrow> k < s_symbol_count ?si \<longrightarrow>
       s_reverse_map ?si ! k \<in> ?al \<and> symbol_code ?si (s_reverse_map ?si ! k) = k"
    using symbols_okD(7)[OF so] by fastforce
  ultimately show ?thesis using so by (intro exI[of _ ?si]) simp
qed

text \<open>A key set with more than 249 distinct bytes gives a symbol count above 255.\<close>

lemma analyze_count:
  assumes ok: "enc_ok enc" and "analyze_symbols enc = Ok enc'"
  shows "s_symbol_count (en_sym enc') = card (alphabet (en_entries enc)) + 6"
    and "en_entries enc' = en_entries enc" and "en_count enc' = en_count enc" and "en_opts enc' = en_opts enc"
    and "s_bits_per_symbol (en_sym enc') = chosen_width enc" and "enc_ok enc'"
proof -
  obtain used where u: "scan_used (en_entries enc) = Ok used"
      and us: "\<forall>c :: u8. used ! unat c \<longleftrightarrow> c \<in> alphabet (en_entries enc)"
    using scan_used_ok[of "en_entries enc"] ok by (auto simp: enc_ok_def)
  have rk: "rank_used used 256 = card (alphabet (en_entries enc))" using rank_used_card[OF us] .
  show "s_symbol_count (en_sym enc') = card (alphabet (en_entries enc)) + 6"
    "en_entries enc' = en_entries enc" "en_count enc' = en_count enc" "en_opts enc' = en_opts enc"
    "s_bits_per_symbol (en_sym enc') = chosen_width enc" "enc_ok enc'"
    using assms u rk
    by (auto simp: chosen_width_def analyze_symbols_def Let_def enc_ok_def rank_used_def TP_NUM_CONTROL_CODES_def split: prod.splits)
qed

end
