(* ===== verification/Bitstream.thy ===== *)
theory Bitstream
  imports Common
begin

text \<open>
  The bitstream reader and writer: \<open>src/bitstream/bitstream.c\<close>, \<open>bitstream_read.c\<close>,
  \<open>bitstream_write.c\<close> and \<open>bitstream_internal.h\<close>.

  Positions and lengths (\<open>uint64_t\<close>, \<open>size_t\<close>) are \<open>nat\<close> with the wrap-around of every addition
  written out by \<open>wrap64\<close>. The buffer of a reader is a pointer (NULL is possible), the buffer of a
  writer a block of \<open>cap\<close> bytes (an empty block for the NULL left by a failed detach). An access
  outside the block is \<open>Fault\<close>. Handles and out-pointers are always valid in the model, so the
  NULL guards on them have no counterpart; the guards on data pointers and sizes do.
  \<open>heap\<close> is the largest block the allocator grants.
\<close>

section \<open>State\<close>

datatype tp_bit_order = TP_BIT_ORDER_MSB_FIRST | TP_BIT_ORDER_LSB_FIRST

record tp_bitstream_reader =
  r_buf :: ptr
  r_bit_len :: nat
  r_pos :: nat
  r_order :: tp_bit_order
  r_owns_buf :: bool

record tp_bitstream_writer =
  w_buf :: "u8 list"
  w_cap :: nat
  w_growth :: nat
  w_pos :: nat

type_synonym 'a reading = "tp_bitstream_reader \<Rightarrow> 'a tp \<times> tp_bitstream_reader"
type_synonym writing = "tp_bitstream_writer \<Rightarrow> unit tp \<times> tp_bitstream_writer"

section \<open>Construction\<close>

text \<open>\<open>sizeof\<close> of the two structures, the blocks the constructors ask the allocator for.\<close>

definition SIZEOF_READER :: nat where "SIZEOF_READER = 32"
definition SIZEOF_WRITER :: nat where "SIZEOF_WRITER = 32"

definition tp_bs_reader_create :: "nat \<Rightarrow> ptr \<Rightarrow> nat \<Rightarrow> tp_bitstream_reader tp" where
  "tp_bs_reader_create heap buf bit_len =
     (if heap < SIZEOF_READER then Err TP_ERR_ALLOC
      else Ok \<lparr>r_buf = buf, r_bit_len = bit_len, r_pos = 0,
               r_order = TP_BIT_ORDER_MSB_FIRST, r_owns_buf = False\<rparr>)"

definition tp_bs_reader_create_copy :: "nat \<Rightarrow> ptr \<Rightarrow> nat \<Rightarrow> tp_bitstream_reader tp" where
  "tp_bs_reader_create_copy heap buf bit_len =
     (let byte_len = wrap64 (bit_len + 7) div 8 in
      if heap < byte_len then Err TP_ERR_ALLOC
      else
        rbind (case buf of
                 None \<Rightarrow> Ok (replicate byte_len 0)
               | Some bs \<Rightarrow> if byte_len \<le> length bs then Ok (take byte_len bs) else Fault)
          (\<lambda>copy. if heap < SIZEOF_READER then Err TP_ERR_ALLOC
             else Ok \<lparr>r_buf = Some copy, r_bit_len = bit_len, r_pos = 0,
                      r_order = TP_BIT_ORDER_MSB_FIRST, r_owns_buf = True\<rparr>))"

definition tp_bs_reader_set_bit_order :: "tp_bit_order \<Rightarrow> unit reading" where
  "tp_bs_reader_set_bit_order order r = (Ok (), r\<lparr>r_order := order\<rparr>)"

definition DEFAULT_WRITER_CAP :: nat where "DEFAULT_WRITER_CAP = 256"

definition tp_bs_writer_create :: "nat \<Rightarrow> nat \<Rightarrow> nat \<Rightarrow> tp_bitstream_writer tp" where
  "tp_bs_writer_create heap initial_cap growth =
     (if heap < SIZEOF_WRITER then Err TP_ERR_ALLOC
      else let cap = (if initial_cap > 0 then initial_cap else DEFAULT_WRITER_CAP) in
        if heap < cap then Err TP_ERR_ALLOC
        else Ok \<lparr>w_buf = replicate cap 0, w_cap = cap, w_growth = growth, w_pos = 0\<rparr>)"

section \<open>Reader cursor\<close>

definition tp_bs_reader_position :: "tp_bitstream_reader \<Rightarrow> nat" where
  "tp_bs_reader_position r = r_pos r"

definition tp_bs_reader_remaining :: "tp_bitstream_reader \<Rightarrow> nat" where
  "tp_bs_reader_remaining r = (if r_pos r \<ge> r_bit_len r then 0 else r_bit_len r - r_pos r)"

definition tp_bs_reader_length :: "tp_bitstream_reader \<Rightarrow> nat" where
  "tp_bs_reader_length r = r_bit_len r"

definition tp_bs_reader_seek :: "nat \<Rightarrow> unit reading" where
  "tp_bs_reader_seek bit_pos r =
     (if bit_pos > r_bit_len r then (Err TP_ERR_INVALID_POSITION, r)
      else (Ok (), r\<lparr>r_pos := bit_pos\<rparr>))"

definition tp_bs_reader_advance :: "nat \<Rightarrow> unit reading" where
  "tp_bs_reader_advance n r =
     (if wrap64 (r_pos r + n) > r_bit_len r then (Err TP_ERR_EOF, r)
      else (Ok (), r\<lparr>r_pos := wrap64 (r_pos r + n)\<rparr>))"

definition tp_bs_reader_align_to_byte :: "unit reading" where
  "tp_bs_reader_align_to_byte r =
     (let rem = r_pos r mod 8 in
      if rem \<noteq> 0 then
        let skip = 8 - rem in
        if wrap64 (r_pos r + skip) > r_bit_len r then (Err TP_ERR_EOF, r)
        else (Ok (), r\<lparr>r_pos := wrap64 (r_pos r + skip)\<rparr>)
      else (Ok (), r))"

definition tp_bs_reader_is_byte_aligned :: "tp_bitstream_reader \<Rightarrow> bool" where
  "tp_bs_reader_is_byte_aligned r = (r_pos r mod 8 = 0)"

definition tp_bs_reader_get_buffer :: "tp_bitstream_reader \<Rightarrow> ptr \<times> nat" where
  "tp_bs_reader_get_buffer r = (r_buf r, r_bit_len r)"

section \<open>Stateless reads\<close>

definition read_bit_msb :: "ptr \<Rightarrow> nat \<Rightarrow> u8 tp" where
  "read_bit_msb buf bit_pos =
     (case buf of
        None \<Rightarrow> Fault
      | Some bs \<Rightarrow>
          let byte_idx = bit_pos div 8; bit_idx = 7 - bit_pos mod 8 in
          if byte_idx < length bs then Ok (drop_bit bit_idx (bs ! byte_idx) AND 1) else Fault)"

text \<open>The loop of \<open>tp_bs_read_bits_at\<close>: at bit \<open>i\<close>, with \<open>k\<close> iterations to go.\<close>

fun read_bits_loop :: "ptr \<Rightarrow> nat \<Rightarrow> nat \<Rightarrow> nat \<Rightarrow> u64 \<Rightarrow> u64 tp" where
  "read_bits_loop buf bit_pos i 0 val = Ok val"
| "read_bits_loop buf bit_pos i (Suc k) val =
     rbind (read_bit_msb buf (wrap64 (bit_pos + i)))
       (\<lambda>b. read_bits_loop buf bit_pos (Suc i) k (push_bit 1 val OR ucast b))"

definition tp_bs_read_bits_at :: "ptr \<Rightarrow> nat \<Rightarrow> nat \<Rightarrow> u64 tp" where
  "tp_bs_read_bits_at buf bit_pos n =
     (if buf = None \<or> n = 0 \<or> n > 64 then Err TP_ERR_INVALID_PARAM
      else read_bits_loop buf bit_pos 0 n 0)"

definition sign_extend :: "nat \<Rightarrow> u64 \<Rightarrow> u64" where
  "sign_extend n raw =
     (if n < 64 \<and> raw AND push_bit (n - 1) 1 \<noteq> 0 then raw OR NOT (push_bit n 1 - 1) else raw)"

definition tp_bs_read_bits_signed_at :: "ptr \<Rightarrow> nat \<Rightarrow> nat \<Rightarrow> u64 tp" where
  "tp_bs_read_bits_signed_at buf bit_pos n =
     (if buf = None \<or> n = 0 \<or> n > 64 then Err TP_ERR_INVALID_PARAM
      else rbind (tp_bs_read_bits_at buf bit_pos n) (\<lambda>raw. Ok (sign_extend n raw)))"

section \<open>Bit-level and byte-level reads\<close>

definition tp_bs_read_bits :: "nat \<Rightarrow> u64 reading" where
  "tp_bs_read_bits n r =
     (if n = 0 \<or> n > 64 then (Err TP_ERR_INVALID_PARAM, r)
      else if wrap64 (r_pos r + n) > r_bit_len r then (Err TP_ERR_EOF, r)
      else (tp_bs_read_bits_at (r_buf r) (r_pos r) n, r\<lparr>r_pos := wrap64 (r_pos r + n)\<rparr>))"

definition tp_bs_read_bits_signed :: "nat \<Rightarrow> u64 reading" where
  "tp_bs_read_bits_signed n r =
     (if n = 0 \<or> n > 64 then (Err TP_ERR_INVALID_PARAM, r)
      else if wrap64 (r_pos r + n) > r_bit_len r then (Err TP_ERR_EOF, r)
      else (tp_bs_read_bits_signed_at (r_buf r) (r_pos r) n, r\<lparr>r_pos := wrap64 (r_pos r + n)\<rparr>))"

definition tp_bs_read_bit :: "u8 reading" where
  "tp_bs_read_bit r =
     (if r_pos r \<ge> r_bit_len r then (Err TP_ERR_EOF, r)
      else case read_bit_msb (r_buf r) (r_pos r) of
             Ok b \<Rightarrow> (Ok b, r\<lparr>r_pos := wrap64 (r_pos r + 1)\<rparr>)
           | m \<Rightarrow> (m, r))"

definition tp_bs_peek_bits :: "nat \<Rightarrow> u64 reading" where
  "tp_bs_peek_bits n r =
     (if n = 0 \<or> n > 64 then (Err TP_ERR_INVALID_PARAM, r)
      else if wrap64 (r_pos r + n) > r_bit_len r then (Err TP_ERR_EOF, r)
      else (tp_bs_read_bits_at (r_buf r) (r_pos r) n, r))"

definition tp_bs_read_bits32 :: "nat \<Rightarrow> u32 reading" where
  "tp_bs_read_bits32 n r =
     (if n = 0 \<or> n > 32 then (Err TP_ERR_INVALID_PARAM, r)
      else sbind (tp_bs_read_bits n) (\<lambda>val. sret (ucast val)) r)"

definition tp_bs_read_u8 :: "u8 reading" where
  "tp_bs_read_u8 = sbind (tp_bs_read_bits 8) (\<lambda>val. sret (ucast val))"

definition tp_bs_read_u16 :: "u16 reading" where
  "tp_bs_read_u16 = sbind (tp_bs_read_bits 16) (\<lambda>val. sret (ucast val))"

definition tp_bs_read_u32 :: "u32 reading" where
  "tp_bs_read_u32 = sbind (tp_bs_read_bits 32) (\<lambda>val. sret (ucast val))"

definition tp_bs_read_u64 :: "u64 reading" where
  "tp_bs_read_u64 = tp_bs_read_bits 64"

definition tp_bs_read_bytes :: "nat \<Rightarrow> u8 list reading" where
  "tp_bs_read_bytes n = read_seq n tp_bs_read_u8"

text \<open>The pointer handed out is \<open>buf + pos / 8\<close>: the rest of the block from that byte on.\<close>

definition tp_bs_reader_direct_ptr :: "nat \<Rightarrow> ptr reading" where
  "tp_bs_reader_direct_ptr n r =
     (if \<not> tp_bs_reader_is_byte_aligned r then (Err TP_ERR_NOT_ALIGNED, r)
      else if wrap64 (r_pos r + wrap64 (n * 8)) > r_bit_len r then (Err TP_ERR_EOF, r)
      else (Ok (map_option (drop (r_pos r div 8)) (r_buf r)),
            r\<lparr>r_pos := wrap64 (r_pos r + wrap64 (n * 8))\<rparr>))"

section \<open>Writing\<close>

text \<open>\<open>ensure_capacity\<close> grows the block by the growth increment, or doubles it, until it holds the
  bits to come. Its loop does not end when the capacity is 0 and the growth 0: \<open>Diverge\<close>.\<close>

definition grow_step :: "nat \<Rightarrow> nat \<Rightarrow> nat" where
  "grow_step growth c = (if growth > 0 then wrap64 (c + growth) else wrap64 (c * 2))"

definition ensure_capacity :: "nat \<Rightarrow> nat \<Rightarrow> writing" where
  "ensure_capacity heap n_bits w =
     (let needed_bytes = wrap64 (w_pos w + n_bits + 7) div 8 in
      if needed_bytes \<le> w_cap w then (Ok (), w)
      else case while_option (\<lambda>c. c < needed_bytes) (grow_step (w_growth w))
                  (grow_step (w_growth w) (w_cap w)) of
             None \<Rightarrow> (Diverge, w)
           | Some new_cap \<Rightarrow>
               if heap < new_cap then (Err TP_ERR_ALLOC, w)
               else (Ok (), w\<lparr>w_buf := take (w_cap w) (w_buf w) @ replicate (new_cap - w_cap w) 0,
                               w_cap := new_cap\<rparr>))"

definition write_bit_msb :: "u8 list \<Rightarrow> nat \<Rightarrow> u8 \<Rightarrow> u8 list tp" where
  "write_bit_msb buf bit_pos val =
     (let byte_idx = bit_pos div 8; bit_idx = 7 - bit_pos mod 8 in
      if byte_idx < length buf then
        Ok (if val \<noteq> 0 then buf[byte_idx := buf ! byte_idx OR push_bit bit_idx 1]
            else buf[byte_idx := buf ! byte_idx AND NOT (push_bit bit_idx 1)])
      else Fault)"

text \<open>\<open>write_bit_msb(w->buf, w->pos, bit); w->pos++\<close>, the step every writing loop shares.\<close>

definition put_bit :: "u8 \<Rightarrow> writing" where
  "put_bit b w =
     (case write_bit_msb (w_buf w) (w_pos w) b of
        Ok buf' \<Rightarrow> (Ok (), w\<lparr>w_buf := buf', w_pos := wrap64 (w_pos w + 1)\<rparr>)
      | Err e \<Rightarrow> (Err e, w) | Fault \<Rightarrow> (Fault, w) | Diverge \<Rightarrow> (Diverge, w))"

definition tp_bs_write_bits :: "nat \<Rightarrow> u64 \<Rightarrow> nat \<Rightarrow> writing" where
  "tp_bs_write_bits heap value n w =
     (if n = 0 \<or> n > 64 then (Err TP_ERR_INVALID_PARAM, w)
      else sbind (ensure_capacity heap n)
             (\<lambda>_. for_each (\<lambda>i. put_bit (ucast (drop_bit (n - 1 - i) value AND 1))) [0..<n]) w)"

definition tp_bs_write_bits_signed :: "nat \<Rightarrow> u64 \<Rightarrow> nat \<Rightarrow> writing" where
  "tp_bs_write_bits_signed heap value n w =
     (if n = 0 \<or> n > 64 then (Err TP_ERR_INVALID_PARAM, w)
      else let raw = (if n < 64 then value AND (push_bit n 1 - 1) else value) in
        tp_bs_write_bits heap raw n w)"

definition tp_bs_write_bit :: "nat \<Rightarrow> u8 \<Rightarrow> writing" where
  "tp_bs_write_bit heap value = sbind (ensure_capacity heap 1) (\<lambda>_. put_bit (value AND 1))"

definition tp_bs_writer_align_to_byte :: "nat \<Rightarrow> writing" where
  "tp_bs_writer_align_to_byte heap w =
     (let rem = w_pos w mod 8 in
      if rem \<noteq> 0 then
        let pad = 8 - rem in
        sbind (ensure_capacity heap pad) (\<lambda>_ w'. (Ok (), w'\<lparr>w_pos := wrap64 (w_pos w' + pad)\<rparr>)) w
      else (Ok (), w))"

definition tp_bs_write_u8 :: "nat \<Rightarrow> u8 \<Rightarrow> writing" where
  "tp_bs_write_u8 heap val = tp_bs_write_bits heap (ucast val) 8"

definition tp_bs_write_u16 :: "nat \<Rightarrow> u16 \<Rightarrow> writing" where
  "tp_bs_write_u16 heap val = tp_bs_write_bits heap (ucast val) 16"

definition tp_bs_write_u32 :: "nat \<Rightarrow> u32 \<Rightarrow> writing" where
  "tp_bs_write_u32 heap val = tp_bs_write_bits heap (ucast val) 32"

definition tp_bs_write_u64 :: "nat \<Rightarrow> u64 \<Rightarrow> writing" where
  "tp_bs_write_u64 heap val = tp_bs_write_bits heap val 64"

text \<open>Reading \<open>buf[i]\<close> of a caller's array: outside it is \<open>Fault\<close>.\<close>

definition load :: "u8 list \<Rightarrow> nat \<Rightarrow> u8 tp" where
  "load bs i = (if i < length bs then Ok (bs ! i) else Fault)"

definition tp_bs_write_bytes :: "nat \<Rightarrow> ptr \<Rightarrow> nat \<Rightarrow> writing" where
  "tp_bs_write_bytes heap buf n w =
     (case buf of
        None \<Rightarrow> if n > 0 then (Err TP_ERR_INVALID_PARAM, w) else (Ok (), w)
      | Some bs \<Rightarrow> for_each (\<lambda>i. sbind (slift (load bs i)) (tp_bs_write_u8 heap)) [0..<n] w)"

definition tp_bs_writer_append_buffer :: "nat \<Rightarrow> ptr \<Rightarrow> nat \<Rightarrow> writing" where
  "tp_bs_writer_append_buffer heap buf bit_len w =
     (if buf = None \<and> bit_len > 0 then (Err TP_ERR_INVALID_PARAM, w)
      else sbind (ensure_capacity heap bit_len)
             (\<lambda>_. for_each (\<lambda>i. sbind (slift (read_bit_msb buf i)) put_bit) [0..<bit_len]) w)"

text \<open>\<open>tp_bs_copy_bits\<close> moves both cursors; its loop is over reader and writer together.\<close>

fun copy_bits_loop ::
  "nat \<Rightarrow> tp_bitstream_reader \<times> tp_bitstream_writer \<Rightarrow>
   unit tp \<times> tp_bitstream_reader \<times> tp_bitstream_writer" where
  "copy_bits_loop 0 (r, w) = (Ok (), r, w)"
| "copy_bits_loop (Suc k) (r, w) =
     (case sbind (slift (read_bit_msb (r_buf r) (r_pos r))) put_bit w of
        (Ok (), w') \<Rightarrow> copy_bits_loop k (r\<lparr>r_pos := wrap64 (r_pos r + 1)\<rparr>, w')
      | (m, w') \<Rightarrow> (m, r, w'))"

definition tp_bs_copy_bits ::
  "nat \<Rightarrow> nat \<Rightarrow> tp_bitstream_reader \<times> tp_bitstream_writer \<Rightarrow>
   unit tp \<times> tp_bitstream_reader \<times> tp_bitstream_writer" where
  "tp_bs_copy_bits heap n_bits rw =
     (case rw of (r, w) \<Rightarrow>
        if wrap64 (r_pos r + n_bits) > r_bit_len r then (Err TP_ERR_EOF, r, w)
        else case ensure_capacity heap n_bits w of
               (Ok (), w') \<Rightarrow> copy_bits_loop n_bits (r, w')
             | (m, w') \<Rightarrow> (m, r, w'))"

definition tp_bs_writer_position :: "tp_bitstream_writer \<Rightarrow> nat" where
  "tp_bs_writer_position w = w_pos w"

definition tp_bs_writer_get_buffer :: "tp_bitstream_writer \<Rightarrow> u8 list \<times> nat" where
  "tp_bs_writer_get_buffer w = (w_buf w, w_pos w)"

text \<open>Detaching hands out the block, its length in bytes and bits; the writer gets a fresh zeroed
  block, or none when the allocation fails.\<close>

definition tp_bs_writer_detach_buffer ::
  "nat \<Rightarrow> tp_bitstream_writer \<Rightarrow> (tp_result \<times> u8 list \<times> nat \<times> nat) \<times> tp_bitstream_writer" where
  "tp_bs_writer_detach_buffer heap w =
     (let out = (w_buf w, wrap64 (w_pos w + 7) div 8, w_pos w) in
      if heap < w_cap w then ((TP_ERR_ALLOC, out), w\<lparr>w_buf := [], w_cap := 0, w_pos := 0\<rparr>)
      else ((TP_OK, out), w\<lparr>w_buf := replicate (w_cap w) 0, w_pos := 0\<rparr>))"

definition tp_bs_writer_to_reader :: "nat \<Rightarrow> tp_bitstream_writer \<Rightarrow> tp_bitstream_reader tp" where
  "tp_bs_writer_to_reader heap w = tp_bs_reader_create heap (Some (w_buf w)) (w_pos w)"

end
