(* ===== verification/Bitstream_Laws.thy ===== *)
theory Bitstream_Laws
  imports Bitstream
begin

text \<open>
  What the reader and writer promise. A well-formed reader (\<open>reader_ok\<close>) never faults, whatever
  the bytes, and keeps its stream (\<open>rsafe\<close>); reading \<open>n\<close> bits gives the value of the next \<open>n\<close>
  bits of the buffer. A well-formed writer (\<open>writer_ok\<close>) represents the bit string \<open>w_bits\<close>, and
  every write appends to it or fails with the allocator, never with a fault.
\<close>

section \<open>The reader's invariant\<close>

definition r_bytes :: "tp_bitstream_reader \<Rightarrow> u8 list" where
  "r_bytes r = (case r_buf r of None \<Rightarrow> [] | Some bs \<Rightarrow> bs)"

definition reader_ok :: "tp_bitstream_reader \<Rightarrow> bool" where
  "reader_ok r \<longleftrightarrow> r_buf r \<noteq> None \<and> r_bit_len r \<le> 8 * length (r_bytes r) \<and>
     r_pos r \<le> r_bit_len r \<and> r_bit_len r \<le> 9223372036854775808"

definition same_stream :: "tp_bitstream_reader \<Rightarrow> tp_bitstream_reader \<Rightarrow> bool" where
  "same_stream r r' \<longleftrightarrow> r_buf r' = r_buf r \<and> r_bit_len r' = r_bit_len r"

definition adv :: "nat \<Rightarrow> tp_bitstream_reader \<Rightarrow> tp_bitstream_reader" where
  "adv n r = r\<lparr>r_pos := r_pos r + n\<rparr>"

text \<open>The bit string \<open>xs\<close> comes next.\<close>

definition next_bits :: "tp_bitstream_reader \<Rightarrow> bool list \<Rightarrow> bool" where
  "next_bits r xs \<longleftrightarrow> has_bits (r_bytes r) (r_pos r) xs \<and> r_pos r + length xs \<le> r_bit_len r"

lemma adv_simps [simp]:
  "r_pos (adv n r) = r_pos r + n" "r_buf (adv n r) = r_buf r" "r_bit_len (adv n r) = r_bit_len r"
  "r_bytes (adv n r) = r_bytes r" "r_order (adv n r) = r_order r" "r_owns_buf (adv n r) = r_owns_buf r"
  by (simp_all add: adv_def r_bytes_def)

lemma adv_0 [simp]: "adv 0 r = r"
  by (simp add: adv_def)

lemma adv_adv [simp]: "adv m (adv n r) = adv (n + m) r"
  by (simp add: adv_def add.assoc)

lemma r_bytes_upd [simp]: "r_bytes (r\<lparr>r_pos := p\<rparr>) = r_bytes r"
  by (simp add: r_bytes_def)

lemma r_buf_bytes: "reader_ok r \<Longrightarrow> r_buf r = Some (r_bytes r)"
  by (auto simp: reader_ok_def r_bytes_def)

lemma next_bits_append:
  "next_bits r (xs @ ys) \<longleftrightarrow> next_bits r xs \<and> next_bits (adv (length xs) r) ys"
  by (auto simp: next_bits_def has_bits_append)

lemma next_bits_appendD:
  "next_bits r (xs @ ys) \<Longrightarrow> next_bits r xs" "next_bits r (xs @ ys) \<Longrightarrow> next_bits (adv (length xs) r) ys"
  by (simp_all add: next_bits_append)

lemma reader_ok_adv: "reader_ok r \<Longrightarrow> next_bits r xs \<Longrightarrow> reader_ok (adv (length xs) r)"
  by (auto simp: reader_ok_def next_bits_def)

lemma reader_ok_same: "reader_ok r \<Longrightarrow> same_stream r r' \<Longrightarrow> r_pos r' \<le> r_bit_len r' \<Longrightarrow> reader_ok r'"
  by (simp add: reader_ok_def same_stream_def r_bytes_def)

lemma same_stream_refl [simp]: "same_stream r r"
  by (simp add: same_stream_def)

lemma same_stream_trans: "same_stream r r' \<Longrightarrow> same_stream r' r'' \<Longrightarrow> same_stream r r''"
  by (simp add: same_stream_def)

lemma same_stream_pos [simp]: "same_stream r (r\<lparr>r_pos := p\<rparr>)"
  by (simp add: same_stream_def)

section \<open>Stateless reads\<close>

lemma read_bit_msb_ok:
  "p < 8 * length bs \<Longrightarrow> read_bit_msb (Some bs) p = Ok (of_bool (bit_at bs p))"
  by (auto simp: read_bit_msb_def bit_at_def Let_def less_mult_imp_div_less mult.commute
      and_one_eq bit_drop_bit_eq bit_0 [symmetric] simp del: bit_0 intro!: bit_word_eqI)
     (auto simp: bit_simps)

lemma read_bit_msb_fault: "8 * length bs \<le> p \<Longrightarrow> read_bit_msb (Some bs) p = Fault"
  by (simp add: read_bit_msb_def Let_def div_less_iff_less_mult)

lemma read_bits_loop_ok:
  assumes "p + i + k \<le> 8 * length bs" and "p + i + k < 18446744073709551616"
  shows "read_bits_loop (Some bs) p i k v =
    Ok (foldl (\<lambda>v b. push_bit 1 v OR of_bool b) v (map (bit_at bs) [p + i..<p + i + k]))"
  using assms
proof (induction k arbitrary: i v)
  case 0
  then show ?case by simp
next
  case (Suc k)
  have "read_bit_msb (Some bs) (wrap64 (p + i)) = Ok (of_bool (bit_at bs (p + i)))"
    using Suc.prems by (simp add: read_bit_msb_ok)
  moreover have "[p + i..<p + i + Suc k] = (p + i) # [p + Suc i..<p + Suc i + k]"
    by (subst upt_conv_Cons) simp_all
  ultimately show ?case
    using Suc.IH[of "Suc i"] Suc.prems by simp
qed

lemma read_bits_at_ok:
  assumes "0 < n" and "n \<le> 64" and "p + n \<le> 8 * length bs" and "p + n < 18446744073709551616"
  shows "tp_bs_read_bits_at (Some bs) p n = Ok (bits_val (map (bit_at bs) [p..<p + n]))"
  using assms read_bits_loop_ok[of p 0 n bs 0] by (simp add: tp_bs_read_bits_at_def bits_val_def)

lemma has_bits_map:
  assumes "has_bits bs p xs"
  shows "map (bit_at bs) [p..<p + length xs] = xs"
  using assms by (auto simp: has_bits_def intro!: nth_equalityI)

lemma read_bits_at_has_bits:
  assumes "has_bits bs p xs" and "0 < length xs" and "length xs \<le> 64"
    and "p + length xs < 18446744073709551616"
  shows "tp_bs_read_bits_at (Some bs) p (length xs) = Ok (bits_val xs)"
  using assms read_bits_at_ok[of "length xs" p bs] by (simp add: has_bits_map has_bits_bound)

section \<open>Reads of a well-formed reader\<close>

lemma tp_bs_read_bits_next:
  assumes ok: "reader_ok r" and nx: "next_bits r xs" and n: "n = length xs" "0 < n" "n \<le> 64"
  shows "tp_bs_read_bits n r = (Ok (bits_val xs), adv n r)"
proof -
  have b: "has_bits (r_bytes r) (r_pos r) xs" "r_pos r + length xs \<le> r_bit_len r"
    using nx by (simp_all add: next_bits_def)
  have lt: "r_pos r + length xs < 18446744073709551616"
    using b(2) ok by (simp add: reader_ok_def)
  have "tp_bs_read_bits_at (r_buf r) (r_pos r) n = Ok (bits_val xs)"
    using b(1) n lt ok by (simp add: r_buf_bytes read_bits_at_has_bits)
  then show ?thesis
    using n b(2) lt by (simp add: tp_bs_read_bits_def adv_def)
qed

lemma tp_bs_peek_bits_next:
  assumes ok: "reader_ok r" and nx: "next_bits r xs" and n: "n = length xs" "0 < n" "n \<le> 64"
  shows "tp_bs_peek_bits n r = (Ok (bits_val xs), r)"
  using tp_bs_read_bits_next[OF assms] n
  by (auto simp: tp_bs_peek_bits_def tp_bs_read_bits_def split: if_splits)

lemma next_bits_exists:
  assumes "reader_ok r" and "r_pos r + n \<le> r_bit_len r"
  shows "next_bits r (map (bit_at (r_bytes r)) [r_pos r..<r_pos r + n])"
  using assms by (auto simp: next_bits_def has_bits_def reader_ok_def)

lemma tp_bs_read_bits_eof:
  "reader_ok r \<Longrightarrow> 0 < n \<Longrightarrow> n \<le> 64 \<Longrightarrow> r_bit_len r < r_pos r + n \<Longrightarrow>
   tp_bs_read_bits n r = (Err TP_ERR_EOF, r)"
  by (auto simp: tp_bs_read_bits_def reader_ok_def)

text \<open>Every read of a well-formed reader returns, and the reader stays well-formed.\<close>

definition rsafe :: "'a reading \<Rightarrow> bool" where
  "rsafe m \<longleftrightarrow> (\<forall>r. reader_ok r \<longrightarrow>
     safe (fst (m r)) \<and> reader_ok (snd (m r)) \<and> same_stream r (snd (m r)))"

lemma rsafeD:
  assumes "rsafe m" and "reader_ok r" and "m r = (x, r')"
  shows "safe x" and "reader_ok r'" and "same_stream r r'"
  using assms unfolding rsafe_def by (metis fst_conv snd_conv)+

lemma rsafeI:
  assumes "\<And>r x r'. reader_ok r \<Longrightarrow> m r = (x, r') \<Longrightarrow> safe x \<and> r_pos r' \<le> r_bit_len r' \<and> same_stream r r'"
  shows "rsafe m"
  unfolding rsafe_def
proof (intro allI impI)
  fix r assume ok: "reader_ok r"
  obtain x r' where m: "m r = (x, r')" by force
  show "safe (fst (m r)) \<and> reader_ok (snd (m r)) \<and> same_stream r (snd (m r))"
    using assms[OF ok m] m reader_ok_same[OF ok] by auto
qed

lemma rsafe_sret [intro]: "rsafe (sret a)"
  by (simp add: rsafe_def)

lemma rsafe_sfail [intro]: "rsafe (sfail e)"
  by (simp add: rsafe_def)

lemma rsafe_slift [intro]: "safe m \<Longrightarrow> rsafe (slift m)"
  by (simp add: rsafe_def)

lemma rsafe_sbind [intro]:
  assumes m: "rsafe m" and f: "\<And>a. rsafe (f a)"
  shows "rsafe (sbind m f)"
proof (rule rsafeI)
  fix r x r'' assume ok: "reader_ok r" and eq: "sbind m f r = (x, r'')"
  obtain y r' where y: "m r = (y, r')" by force
  note s = rsafeD[OF m ok y]
  show "safe x \<and> r_pos r'' \<le> r_bit_len r'' \<and> same_stream r r''"
  proof (cases y)
    case (Ok a)
    then have "f a r' = (x, r'')" using eq y by (simp add: sbind_def)
    note t = rsafeD[OF f s(2) this]
    then show ?thesis using s(3) by (auto simp: reader_ok_def intro: same_stream_trans)
  next
    case (Err e)
    then show ?thesis using eq y s by (auto simp: sbind_def reader_ok_def)
  qed (use s in simp_all)
qed

lemma rsafe_if [intro]: "rsafe a \<Longrightarrow> rsafe b \<Longrightarrow> rsafe (if c then a else b)"
  by simp

lemma rsafe_read_seq [intro]:
  assumes "rsafe m" shows "rsafe (read_seq n m)"
proof (induction n)
  case 0
  then show ?case by (auto simp: rsafe_def)
next
  case (Suc n)
  have "rsafe (sbind m (\<lambda>x. sbind (read_seq n m) (\<lambda>xs. sret (x # xs))))"
    using assms Suc by blast
  then show ?case by (simp add: rsafe_def)
qed

lemma rsafe_read_bits [intro]: "rsafe (tp_bs_read_bits n)"
proof (rule rsafeI)
  fix r x r' assume ok: "reader_ok r" and eq: "tp_bs_read_bits n r = (x, r')"
  show "safe x \<and> r_pos r' \<le> r_bit_len r' \<and> same_stream r r'"
  proof (cases "0 < n \<and> n \<le> 64 \<and> r_pos r + n \<le> r_bit_len r")
    case True
    then have "tp_bs_read_bits n r =
      (Ok (bits_val (map (bit_at (r_bytes r)) [r_pos r..<r_pos r + n])), adv n r)"
      using ok by (intro tp_bs_read_bits_next next_bits_exists) simp_all
    then show ?thesis using eq True by (auto simp: same_stream_def)
  next
    case False
    then consider "n = 0 \<or> 64 < n" | "0 < n" "n \<le> 64" "r_bit_len r < r_pos r + n" by linarith
    then show ?thesis
    proof cases
      case 1
      then show ?thesis using eq ok by (auto simp: tp_bs_read_bits_def reader_ok_def)
    next
      case 2
      then show ?thesis using eq ok tp_bs_read_bits_eof[OF ok 2] by (auto simp: reader_ok_def)
    qed
  qed
qed

lemma rsafe_peek_bits [intro]: "rsafe (tp_bs_peek_bits n)"
proof (rule rsafeI)
  fix r x r' assume ok: "reader_ok r" and eq: "tp_bs_peek_bits n r = (x, r')"
  have "fst (tp_bs_peek_bits n r) = fst (tp_bs_read_bits n r)" and "r' = r"
    using eq by (auto simp: tp_bs_peek_bits_def tp_bs_read_bits_def split: if_splits)
  moreover have "safe (fst (tp_bs_read_bits n r))"
    using rsafe_read_bits ok by (auto simp: rsafe_def)
  ultimately show "safe x \<and> r_pos r' \<le> r_bit_len r' \<and> same_stream r r'"
    using eq ok by (simp add: reader_ok_def)
qed

lemma rsafe_read_bits_signed [intro]: "rsafe (tp_bs_read_bits_signed n)"
proof (rule rsafeI)
  fix r x r' assume ok: "reader_ok r" and eq: "tp_bs_read_bits_signed n r = (x, r')"
  obtain y r2 where y: "tp_bs_read_bits n r = (y, r2)" by force
  note s = rsafeD[OF rsafe_read_bits ok y]
  have "r' = r2 \<and> (safe y \<longrightarrow> safe x)"
    using eq y by (auto simp: tp_bs_read_bits_signed_def tp_bs_read_bits_def
        tp_bs_read_bits_signed_at_def tp_bs_read_bits_at_def rbind_def split: if_splits res.splits)
  then show "safe x \<and> r_pos r' \<le> r_bit_len r' \<and> same_stream r r'"
    using s by (auto simp: reader_ok_def)
qed

lemma rsafe_read_bit [intro]: "rsafe tp_bs_read_bit"
proof (rule rsafeI)
  fix r x r' assume ok: "reader_ok r" and eq: "tp_bs_read_bit r = (x, r')"
  show "safe x \<and> r_pos r' \<le> r_bit_len r' \<and> same_stream r r'"
  proof (cases "r_pos r < r_bit_len r")
    case True
    then have rb: "read_bit_msb (r_buf r) (r_pos r) = Ok (of_bool (bit_at (r_bytes r) (r_pos r)))"
      using ok by (simp add: r_buf_bytes read_bit_msb_ok reader_ok_def)
    moreover have "wrap64 (r_pos r + 1) \<le> r_bit_len r"
      using True wrap64_le[of "r_pos r + 1"] by linarith
    ultimately show ?thesis using eq True by (auto simp: tp_bs_read_bit_def rb)
  next
    case False
    then show ?thesis using eq ok by (auto simp: tp_bs_read_bit_def reader_ok_def)
  qed
qed

lemma rsafe_cursor [intro]:
  "rsafe (tp_bs_reader_seek p)" "rsafe (tp_bs_reader_advance n)" "rsafe tp_bs_reader_align_to_byte"
  "rsafe (tp_bs_reader_direct_ptr n)"
  by (rule rsafeI; auto simp: tp_bs_reader_seek_def tp_bs_reader_advance_def Let_def
      tp_bs_reader_align_to_byte_def tp_bs_reader_direct_ptr_def reader_ok_def split: if_splits)+

lemma rsafe_read_bytes_family [intro]:
  "rsafe (tp_bs_read_bits32 n)" "rsafe tp_bs_read_u8" "rsafe tp_bs_read_u16" "rsafe tp_bs_read_u32"
  "rsafe tp_bs_read_u64" "rsafe (tp_bs_read_bytes n)"
proof -
  show "rsafe tp_bs_read_u8" "rsafe tp_bs_read_u16" "rsafe tp_bs_read_u32" "rsafe tp_bs_read_u64"
    unfolding tp_bs_read_u8_def tp_bs_read_u16_def tp_bs_read_u32_def tp_bs_read_u64_def by blast+
  then show "rsafe (tp_bs_read_bytes n)"
    unfolding tp_bs_read_bytes_def by blast
  have "rsafe (sbind (tp_bs_read_bits n) (\<lambda>val. sret (ucast val :: u32)))" by blast
  then show "rsafe (tp_bs_read_bits32 n)"
    by (auto simp: rsafe_def tp_bs_read_bits32_def)
qed

section \<open>The writer's invariant\<close>

text \<open>\<open>writer_ok\<close>: the block has \<open>cap\<close> bytes, the cursor is inside it, everything behind the
  cursor is zero (which aligning relies on), and the allocator grants at most \<open>2 ^ 60\<close> bytes, so
  that bit positions stay far from the wrap-around.\<close>

definition writer_ok :: "nat \<Rightarrow> tp_bitstream_writer \<Rightarrow> bool" where
  "writer_ok heap w \<longleftrightarrow> length (w_buf w) = w_cap w \<and> w_pos w \<le> 8 * w_cap w \<and> 0 < w_cap w \<and>
     w_cap w \<le> heap \<and> heap \<le> 1152921504606846976 \<and> w_growth w \<le> 9223372036854775808 \<and>
     (\<forall>i. w_pos w \<le> i \<and> i < 8 * w_cap w \<longrightarrow> \<not> bit_at (w_buf w) i)"

text \<open>The bit string written so far.\<close>

definition w_bits :: "tp_bitstream_writer \<Rightarrow> bool list" where
  "w_bits w = map (bit_at (w_buf w)) [0..<w_pos w]"

text \<open>The allocator can serve a write of \<open>n\<close> more bits.\<close>

definition room :: "nat \<Rightarrow> tp_bitstream_writer \<Rightarrow> nat \<Rightarrow> bool" where
  "room heap w n \<longleftrightarrow>
     (let need = (w_pos w + n + 7) div 8 in
      if w_growth w = 0 then 2 * need \<le> heap else need + w_growth w \<le> heap)"

text \<open>\<open>w'\<close> is \<open>w\<close> with \<open>xs\<close> appended.\<close>

definition appended :: "nat \<Rightarrow> tp_bitstream_writer \<Rightarrow> bool list \<Rightarrow> tp_bitstream_writer \<Rightarrow> bool" where
  "appended heap w xs w' \<longleftrightarrow> writer_ok heap w' \<and> w_bits w' = w_bits w @ xs \<and>
     w_growth w' = w_growth w \<and> w_pos w' = w_pos w + length xs"

lemma length_w_bits [simp]: "length (w_bits w) = w_pos w"
  by (simp add: w_bits_def)

lemma appended_refl: "writer_ok heap w \<Longrightarrow> appended heap w [] w"
  by (simp add: appended_def)

lemma appended_trans:
  "appended heap w xs w' \<Longrightarrow> appended heap w' ys w'' \<Longrightarrow> appended heap w (xs @ ys) w''"
  by (simp add: appended_def)

lemma appended_ok: "appended heap w xs w' \<Longrightarrow> writer_ok heap w'"
  by (simp add: appended_def)

lemma writer_pos_bound: "writer_ok heap w \<Longrightarrow> w_pos w \<le> 9223372036854775808"
  by (simp add: writer_ok_def)

lemma room_appended:
  "appended heap w xs w' \<Longrightarrow> room heap w (length xs + n) \<Longrightarrow> room heap w' n"
  by (simp add: appended_def room_def Let_def add.assoc split: if_splits)

lemma room_mono: "room heap w n \<Longrightarrow> m \<le> n \<Longrightarrow> room heap w m"
proof -
  assume "room heap w n" "m \<le> n"
  moreover have "(w_pos w + m + 7) div 8 \<le> (w_pos w + n + 7) div 8"
    using \<open>m \<le> n\<close> by (intro div_le_mono) simp
  ultimately show ?thesis by (auto simp: room_def Let_def split: if_splits)
qed

lemma has_bits_w_bits:
  "writer_ok heap w \<Longrightarrow> has_bits (w_buf w) 0 (w_bits w)"
  by (simp add: has_bits_def w_bits_def writer_ok_def)

section \<open>Setting a bit\<close>

lemma write_bit_msb_ok:
  assumes "p < 8 * length buf"
  shows "\<exists>buf'. write_bit_msb buf p v = Ok buf' \<and> length buf' = length buf \<and>
    (\<forall>i < 8 * length buf. bit_at buf' i = (if i = p then v \<noteq> 0 else bit_at buf i))"
proof -
  have lt: "p div 8 < length buf" using assms by (simp add: less_mult_imp_div_less mult.commute)
  let ?k = "7 - p mod 8"
  let ?x = "if v \<noteq> 0 then buf ! (p div 8) OR push_bit ?k 1 else buf ! (p div 8) AND NOT (push_bit ?k 1)"
  let ?b = "buf[p div 8 := ?x]"
  have "bit_at ?b i = (if i = p then v \<noteq> 0 else bit_at buf i)" if "i < 8 * length buf" for i
  proof (cases "i div 8 = p div 8")
    case True
    have "7 - i mod 8 = ?k \<longleftrightarrow> i = p"
    proof
      assume "7 - i mod 8 = ?k"
      moreover have "i mod 8 < 8" "p mod 8 < 8" by simp_all
      ultimately have "i mod 8 = p mod 8" by linarith
      then show "i = p" using True by (metis div_mult_mod_eq)
    qed simp
    moreover have "bit (push_bit ?k (1 :: u8)) (7 - i mod 8) \<longleftrightarrow> 7 - i mod 8 = ?k"
    proof -
      have "bit (push_bit (7 - b) (1 :: u8)) (7 - a) \<longleftrightarrow> 7 - a = 7 - b" if "a < 8" "b < 8" for a b :: nat
        unfolding bit_push_bit_iff bit_1_iff using that by auto
      then show ?thesis by simp
    qed
    moreover have "7 - i mod 8 < 8" by simp
    ultimately show ?thesis
      using True lt by (auto simp: bit_at_def bit_or_iff bit_and_iff bit_not_iff simp del: push_bit_of_1)
  next
    case False
    then have "i \<noteq> p" by auto
    then show ?thesis using False by (simp add: bit_at_def)
  qed
  moreover have "write_bit_msb buf p v = Ok ?b"
    using lt by (simp add: write_bit_msb_def Let_def)
  ultimately show ?thesis by (intro exI[of _ ?b]) simp
qed

text \<open>Appending one bit when the block has room for it.\<close>

lemma put_bit_ok:
  assumes ok: "writer_ok heap w" and lt: "w_pos w < 8 * w_cap w"
  shows "\<exists>w'. put_bit b w = (Ok (), w') \<and> appended heap w [b \<noteq> 0] w' \<and> w_cap w' = w_cap w"
proof -
  have len: "length (w_buf w) = w_cap w" using ok by (simp add: writer_ok_def)
  obtain buf' where wr: "write_bit_msb (w_buf w) (w_pos w) b = Ok buf'"
    and l: "length buf' = w_cap w"
    and bits: "\<And>i. i < 8 * w_cap w \<Longrightarrow> bit_at buf' i = (if i = w_pos w then b \<noteq> 0 else bit_at (w_buf w) i)"
    using write_bit_msb_ok[of "w_pos w" "w_buf w" b] lt len by auto
  let ?w = "w\<lparr>w_buf := buf', w_pos := Suc (w_pos w)\<rparr>"
  have "wrap64 (w_pos w + 1) = Suc (w_pos w)" using writer_pos_bound[OF ok] by simp
  then have "put_bit b w = (Ok (), ?w)" using wr by (simp add: put_bit_def)
  moreover have "writer_ok heap ?w"
    using ok l lt bits by (auto simp: writer_ok_def)
  moreover have "w_bits ?w = w_bits w @ [b \<noteq> 0]"
    using bits lt by (auto simp: w_bits_def)
  ultimately show ?thesis by (auto simp: appended_def)
qed

lemma for_each_put_bit:
  assumes "writer_ok heap w" and "w_pos w + length is \<le> 8 * w_cap w"
  shows "\<exists>w'. for_each (\<lambda>i. put_bit (f i)) is w = (Ok (), w') \<and>
    appended heap w (map (\<lambda>i. f i \<noteq> 0) is) w'"
  using assms
proof (induction "is" arbitrary: w)
  case Nil
  then show ?case by (simp add: appended_refl)
next
  case (Cons i "is")
  obtain w1 where w1: "put_bit (f i) w = (Ok (), w1)" "appended heap w [f i \<noteq> 0] w1" "w_cap w1 = w_cap w"
    using put_bit_ok[of heap w "f i"] Cons.prems by auto
  have "w_pos w1 + length is \<le> 8 * w_cap w1" using w1 Cons.prems by (simp add: appended_def)
  then obtain w2 where w2: "for_each (\<lambda>i. put_bit (f i)) is w1 = (Ok (), w2)"
      "appended heap w1 (map (\<lambda>i. f i \<noteq> 0) is) w2"
    using Cons.IH[of w1] w1 by (auto simp: appended_def)
  then show ?case using w1 appended_trans[OF w1(2) w2(2)] by (simp add: sbind_Ok)
qed

section \<open>Growing the block\<close>

lemma grow_loop_returns:
  assumes "need \<le> 2305843009213693952" and "0 < c0" and "g \<le> 9223372036854775808"
    and "c0 < need"
  shows "\<exists>c. while_option (\<lambda>c. c < need) (grow_step g) (grow_step g c0) = Some c \<and> need \<le> c \<and>
    (if g = 0 then c \<le> 2 * need else c \<le> need + g)"
proof -
  let ?b = "\<lambda>c. c < need" and ?s = "grow_step g"
  let ?P = "\<lambda>c. 0 < c \<and> (if g = 0 then c \<le> 2 * need else c \<le> need + g)"
  have step: "?P (?s c) \<and> c < ?s c" if "0 < c" "c < need" for c
    using that assms by (auto simp: grow_step_def)
  have init: "?P (?s c0)" using step assms by blast
  have "\<exists>c. while_option ?b ?s (?s c0) = Some c"
    by (rule measure_while_option_Some[where P = ?P and f = "\<lambda>c. need - c"])
       (use step init in \<open>auto simp: diff_less_mono2\<close>)
  then obtain c where c: "while_option ?b ?s (?s c0) = Some c" by blast
  have "?P c" using while_option_rule[where P = ?P, OF _ c init] step by blast
  moreover have "\<not> c < need" using while_option_stop[OF c] .
  ultimately show ?thesis using c by auto
qed

lemma ensure_capacity_ok:
  assumes ok: "writer_ok heap w" and n: "n \<le> 9223372036854775800"
  shows "(ensure_capacity heap n w = (Err TP_ERR_ALLOC, w) \<and> \<not> room heap w n) \<or>
    (\<exists>w'. ensure_capacity heap n w = (Ok (), w') \<and> appended heap w [] w' \<and> w_pos w' + n \<le> 8 * w_cap w')"
proof -
  let ?need = "(w_pos w + n + 7) div 8"
  have wrap: "wrap64 (w_pos w + n + 7) = w_pos w + n + 7"
    using writer_pos_bound[OF ok] n by simp
  show ?thesis
  proof (cases "?need \<le> w_cap w")
    case True
    then have "ensure_capacity heap n w = (Ok (), w)"
      by (simp add: ensure_capacity_def wrap)
    then show ?thesis using True ok by (auto intro: appended_refl)
  next
    case False
    have "?need \<le> 2305843009213693952" using writer_pos_bound[OF ok] n by simp
    then obtain c where c: "while_option (\<lambda>c. c < ?need) (grow_step (w_growth w))
          (grow_step (w_growth w) (w_cap w)) = Some c"
      and le: "?need \<le> c" and ub: "if w_growth w = 0 then c \<le> 2 * ?need else c \<le> ?need + w_growth w"
      using grow_loop_returns[of ?need "w_cap w" "w_growth w"] False ok
      by (auto simp: writer_ok_def simp del: grow_step_def)
    let ?w = "w\<lparr>w_buf := take (w_cap w) (w_buf w) @ replicate (c - w_cap w) 0, w_cap := c\<rparr>"
    have eq: "ensure_capacity heap n w = (if heap < c then (Err TP_ERR_ALLOC, w) else (Ok (), ?w))"
      using False c by (simp add: ensure_capacity_def wrap)
    show ?thesis
    proof (cases "heap < c")
      case True
      then have "\<not> room heap w n" using ub by (auto simp: room_def Let_def split: if_splits)
      then show ?thesis using eq True by simp
    next
      case hp: False
      have len: "length (w_buf w) = w_cap w" using ok by (simp add: writer_ok_def)
      have bits: "bit_at (w_buf ?w) i = (i < 8 * w_cap w \<and> bit_at (w_buf w) i)" if "i < 8 * c" for i
      proof (cases "i < 8 * w_cap w")
        case True
        then have "i div 8 < w_cap w" by (simp add: less_mult_imp_div_less mult.commute)
        then show ?thesis using True len by (simp add: bit_at_def nth_append)
      next
        case b: False
        then have "w_cap w \<le> i div 8" by (simp add: less_eq_div_iff_mult_less_eq mult.commute)
        moreover have "i div 8 < c" using that by (simp add: less_mult_imp_div_less mult.commute)
        ultimately show ?thesis using b len by (simp add: bit_at_def nth_append)
      qed
      have "writer_ok heap ?w"
        using ok hp False le bits by (auto simp: writer_ok_def)
      moreover have "w_bits ?w = w_bits w"
        unfolding w_bits_def using ok False le bits
        by (auto simp: writer_ok_def intro!: map_cong)
      ultimately have "appended heap w [] ?w" by (simp add: appended_def)
      then show ?thesis using eq hp le by auto
    qed
  qed
qed

section \<open>Writing operations\<close>

text \<open>A writing operation that appends \<open>xs\<close>: it does, or the allocator refused; it never faults.\<close>

definition writes :: "nat \<Rightarrow> writing \<Rightarrow> tp_bitstream_writer \<Rightarrow> bool list \<Rightarrow> bool" where
  "writes heap m w xs \<longleftrightarrow>
     (\<exists>w'. m w = (Ok (), w') \<and> appended heap w xs w') \<or>
     (fst (m w) = Err TP_ERR_ALLOC \<and> \<not> room heap w (length xs))"

lemma writes_OkD: "writes heap m w xs \<Longrightarrow> m w = (Ok (), w') \<Longrightarrow> appended heap w xs w'"
  by (auto simp: writes_def)

lemma writes_eq: "m w = m' w \<Longrightarrow> writes heap m' w xs \<Longrightarrow> writes heap m w xs"
  by (simp add: writes_def)

lemma writes_room: "writes heap m w xs \<Longrightarrow> room heap w (length xs) \<Longrightarrow>
    \<exists>w'. m w = (Ok (), w') \<and> appended heap w xs w'"
  by (auto simp: writes_def)

lemma writes_safe: "writes heap m w xs \<Longrightarrow> safe (fst (m w))"
  by (auto simp: writes_def)

lemma writes_sbind:
  assumes m: "writes heap m w xs"
    and f: "\<And>w'. appended heap w xs w' \<Longrightarrow> writes heap (f ()) w' ys"
  shows "writes heap (sbind m f) w (xs @ ys)"
proof (cases "\<exists>w'. m w = (Ok (), w') \<and> appended heap w xs w'")
  case True
  then obtain w' where w': "m w = (Ok (), w')" "appended heap w xs w'" by blast
  have eq: "sbind m f w = f () w'" using w'(1) by (simp add: sbind_def)
  show ?thesis
  proof (cases "\<exists>w''. f () w' = (Ok (), w'') \<and> appended heap w' ys w''")
    case True
    then show ?thesis using eq appended_trans[OF w'(2)] by (auto simp: writes_def)
  next
    case False
    then have "fst (f () w') = Err TP_ERR_ALLOC" "\<not> room heap w' (length ys)"
      using f[OF w'(2)] by (auto simp: writes_def)
    then show ?thesis using eq room_appended[OF w'(2)] by (auto simp: writes_def)
  qed
next
  case False
  then have "fst (m w) = Err TP_ERR_ALLOC" "\<not> room heap w (length xs)"
    using m by (auto simp: writes_def)
  then show ?thesis
    using room_mono[of heap w "length (xs @ ys)" "length xs"]
    by (auto simp: writes_def sbind_def split: prod.splits res.splits)
qed

lemma writes_sret: "writer_ok heap w \<Longrightarrow> writes heap (sret ()) w []"
  by (auto simp: writes_def appended_refl)

lemma writes_for_each:
  assumes "writer_ok heap w"
    and "\<And>x w. x \<in> set xs \<Longrightarrow> writer_ok heap w \<Longrightarrow> writes heap (f x) w (g x)"
  shows "writes heap (for_each f xs) w (concat (map g xs))"
  using assms
proof (induction xs arbitrary: w)
  case Nil
  then show ?case by (simp add: writes_def appended_refl)
next
  case (Cons x xs)
  have "writes heap (sbind (f x) (\<lambda>_. for_each f xs)) w (g x @ concat (map g xs))"
  proof (rule writes_sbind)
    show "writes heap (f x) w (g x)" using Cons.prems by simp
    fix w' assume "appended heap w (g x) w'"
    then show "writes heap (for_each f xs) w' (concat (map g xs))"
      using Cons.IH[of w'] Cons.prems(2) appended_ok by auto
  qed
  then show ?case by (simp add: writes_def)
qed

text \<open>The same for an operation that also returns a value.\<close>

definition yields :: "nat \<Rightarrow> (tp_bitstream_writer \<Rightarrow> 'a tp \<times> tp_bitstream_writer) \<Rightarrow>
    tp_bitstream_writer \<Rightarrow> bool list \<Rightarrow> 'a \<Rightarrow> bool" where
  "yields heap m w xs a \<longleftrightarrow>
     (\<exists>w'. m w = (Ok a, w') \<and> appended heap w xs w') \<or>
     (fst (m w) = Err TP_ERR_ALLOC \<and> \<not> room heap w (length xs))"

lemma yields_unit: "yields heap m w xs () \<longleftrightarrow> writes heap m w xs"
  by (simp add: yields_def writes_def)

lemma yields_sret: "writer_ok heap w \<Longrightarrow> yields heap (sret a) w [] a"
  by (auto simp: yields_def appended_refl)

lemma yields_sbind:
  assumes m: "yields heap m w xs a"
    and f: "\<And>w'. appended heap w xs w' \<Longrightarrow> yields heap (f a) w' ys b"
  shows "yields heap (sbind m f) w (xs @ ys) b"
proof (cases "\<exists>w'. m w = (Ok a, w') \<and> appended heap w xs w'")
  case True
  then obtain w' where w': "m w = (Ok a, w')" "appended heap w xs w'" by blast
  have eq: "sbind m f w = f a w'" using w'(1) by (simp add: sbind_def)
  show ?thesis
  proof (cases "\<exists>w''. f a w' = (Ok b, w'') \<and> appended heap w' ys w''")
    case True
    then show ?thesis using eq appended_trans[OF w'(2)] by (auto simp: yields_def)
  next
    case False
    then have "fst (f a w') = Err TP_ERR_ALLOC" "\<not> room heap w' (length ys)"
      using f[OF w'(2)] by (auto simp: yields_def)
    then show ?thesis using eq room_appended[OF w'(2)] by (auto simp: yields_def)
  qed
next
  case False
  then have "fst (m w) = Err TP_ERR_ALLOC" "\<not> room heap w (length xs)"
    using m by (auto simp: yields_def)
  then show ?thesis
    using room_mono[of heap w "length (xs @ ys)" "length xs"]
    by (auto simp: yields_def sbind_def split: prod.splits res.splits)
qed

lemma writes_bits_after_capacity:
  assumes ok: "writer_ok heap w" and n: "n \<le> 9223372036854775800" and len: "length is = n"
    and xs: "xs = map (\<lambda>i. f i \<noteq> 0) is"
  shows "writes heap (sbind (ensure_capacity heap n) (\<lambda>_. for_each (\<lambda>i. put_bit (f i)) is)) w xs"
  using ensure_capacity_ok[OF ok n]
proof
  assume h: "\<exists>w'. ensure_capacity heap n w = (Ok (), w') \<and> appended heap w [] w' \<and>
      w_pos w' + n \<le> 8 * w_cap w'"
  then obtain w1 where w1: "ensure_capacity heap n w = (Ok (), w1)" "appended heap w [] w1"
      "w_pos w1 + n \<le> 8 * w_cap w1" by blast
  obtain w2 where "for_each (\<lambda>i. put_bit (f i)) is w1 = (Ok (), w2)" "appended heap w1 xs w2"
    using for_each_put_bit[OF appended_ok[OF w1(2)], of "is" f] w1(3) len xs by auto
  then show ?thesis using w1(1) appended_trans[OF w1(2)] by (auto simp: writes_def sbind_def)
next
  assume "ensure_capacity heap n w = (Err TP_ERR_ALLOC, w) \<and> \<not> room heap w n"
  then show ?thesis using len xs by (simp add: writes_def sbind_def)
qed

lemma write_bits_writes:
  assumes ok: "writer_ok heap w" and n: "0 < n" "n \<le> 64"
  shows "writes heap (tp_bs_write_bits heap v n) w (nbits n v)"
proof -
  have "nbits n v = map (\<lambda>i. (ucast (drop_bit (n - 1 - i) v AND 1) :: u8) \<noteq> 0) [0..<n]"
    using n by (auto simp: nbits_def ucast_and_one bit_drop_bit_eq simp del: bit_0)
  then have "writes heap (sbind (ensure_capacity heap n)
      (\<lambda>_. for_each (\<lambda>i. put_bit (ucast (drop_bit (n - 1 - i) v AND 1))) [0..<n])) w (nbits n v)"
    using n by (intro writes_bits_after_capacity[OF ok]) simp_all
  then show ?thesis using n by (simp add: writes_def tp_bs_write_bits_def)
qed

lemma write_bit_writes:
  assumes ok: "writer_ok heap w"
  shows "writes heap (tp_bs_write_bit heap v) w [bit v 0]"
proof -
  have "[bit v 0] = map (\<lambda>i. v AND 1 \<noteq> 0) [0::nat]" by (simp add: word_and_one del: bit_0)
  then have "writes heap (sbind (ensure_capacity heap 1) (\<lambda>_. for_each (\<lambda>i. put_bit (v AND 1)) [0::nat])) w [bit v 0]"
    by (intro writes_bits_after_capacity[OF ok]) simp_all
  moreover have "for_each (\<lambda>i. put_bit (v AND 1)) [0::nat] = put_bit (v AND 1)"
    by (auto simp: fun_eq_iff sbind_def put_bit_def split: prod.splits res.splits)
  ultimately show ?thesis by (simp add: tp_bs_write_bit_def)
qed

lemma align_writes:
  assumes ok: "writer_ok heap w"
  shows "writes heap (tp_bs_writer_align_to_byte heap) w (replicate ((8 - w_pos w mod 8) mod 8) False)"
proof (cases "w_pos w mod 8 = 0")
  case True
  then show ?thesis using ok by (simp add: writes_def tp_bs_writer_align_to_byte_def appended_refl)
next
  case False
  let ?pad = "8 - w_pos w mod 8"
  have pad: "(8 - w_pos w mod 8) mod 8 = ?pad" using False by simp
  from ensure_capacity_ok[OF ok, of ?pad] show ?thesis
  proof
    assume "\<exists>w'. ensure_capacity heap ?pad w = (Ok (), w') \<and> appended heap w [] w' \<and>
      w_pos w' + ?pad \<le> 8 * w_cap w'"
    then obtain w1 where w1: "ensure_capacity heap ?pad w = (Ok (), w1)" "appended heap w [] w1"
      "w_pos w1 + ?pad \<le> 8 * w_cap w1" by blast
    let ?w = "w1\<lparr>w_pos := w_pos w1 + ?pad\<rparr>"
    have "wrap64 (w_pos w1 + ?pad) = w_pos w1 + ?pad"
      using writer_pos_bound[OF appended_ok[OF w1(2)]] by simp
    then have "tp_bs_writer_align_to_byte heap w = (Ok (), ?w)"
      using False w1(1) by (simp add: tp_bs_writer_align_to_byte_def Let_def sbind_def)
    moreover have "writer_ok heap ?w"
      using appended_ok[OF w1(2)] w1(3) by (auto simp: writer_ok_def)
    moreover have "w_bits ?w = w_bits w1 @ replicate ?pad False"
    proof -
      have "map (bit_at (w_buf w1)) [w_pos w1..<w_pos w1 + ?pad] = replicate ?pad False"
        using appended_ok[OF w1(2)] w1(3) by (auto simp: writer_ok_def intro!: nth_equalityI)
      moreover have "[0..<w_pos w1 + ?pad] = [0..<w_pos w1] @ [w_pos w1..<w_pos w1 + ?pad]"
        by (rule upt_add_eq_append) simp
      ultimately show ?thesis by (simp add: w_bits_def)
    qed
    ultimately show ?thesis using w1(2) pad by (auto simp: writes_def appended_def)
  next
    assume "ensure_capacity heap ?pad w = (Err TP_ERR_ALLOC, w) \<and> \<not> room heap w ?pad"
    then show ?thesis
      using False pad by (simp add: writes_def tp_bs_writer_align_to_byte_def Let_def sbind_def)
  qed simp
qed

lemma tp_bs_writer_create_ok:
  assumes "tp_bs_writer_create heap cap growth = Ok w" and "heap \<le> 1152921504606846976"
    and "growth \<le> 9223372036854775808"
  shows "writer_ok heap w \<and> w_bits w = [] \<and> w_pos w = 0 \<and> w_growth w = growth"
  using assms
  by (auto simp: tp_bs_writer_create_def Let_def writer_ok_def w_bits_def bit_at_def
      DEFAULT_WRITER_CAP_def less_mult_imp_div_less mult.commute split: if_splits)

end
