(* ===== verification/Bit_Codec.thy ===== *)
theory Bit_Codec
  imports Bitstream_Laws
begin

text \<open>
  The interface between the bitstream and everything serialised with it. A \<open>codec\<close> is a pair of a
  writing and a reading operation with the bit string they agree on; the bit string may depend on
  the bit position (string payloads are byte aligned). Its laws are what a component promises, its
  lemmas what a client gets: sequences of items written in a loop read back in a loop, and a writer's
  block read from where the items start. The fixed-width integers are interpreted here, the
  variable-length ones, code points, headers and values in their own theories.
\<close>

section \<open>Sequences of encoded items\<close>

fun enc_seq :: "(nat \<Rightarrow> 'a \<Rightarrow> bool list) \<Rightarrow> nat \<Rightarrow> 'a list \<Rightarrow> bool list" where
  "enc_seq enc p [] = []"
| "enc_seq enc p (x # xs) = enc p x @ enc_seq enc (p + length (enc p x)) xs"

lemma enc_seq_append:
  "enc_seq enc p (xs @ ys) = enc_seq enc p xs @ enc_seq enc (p + length (enc_seq enc p xs)) ys"
  by (induction xs arbitrary: p) (simp_all add: add.assoc)

lemma enc_seq_const: "enc_seq (\<lambda>_. f) p xs = concat (map f xs)"
  by (induction xs arbitrary: p) simp_all

text \<open>A reader over what a writer has written, from bit \<open>p\<close> on.\<close>

definition reader_over :: "tp_bitstream_writer \<Rightarrow> nat \<Rightarrow> tp_bitstream_reader" where
  "reader_over w p = \<lparr>r_buf = Some (w_buf w), r_bit_len = w_pos w, r_pos = p,
     r_order = TP_BIT_ORDER_MSB_FIRST, r_owns_buf = False\<rparr>"

lemma reader_over_simps [simp]:
  "r_pos (reader_over w p) = p" "r_bit_len (reader_over w p) = w_pos w"
  "r_bytes (reader_over w p) = w_buf w" "r_buf (reader_over w p) = Some (w_buf w)"
  by (simp_all add: reader_over_def r_bytes_def)

lemma reader_over_ok: "writer_ok heap w \<Longrightarrow> p \<le> w_pos w \<Longrightarrow> reader_ok (reader_over w p)"
  by (auto simp: reader_ok_def writer_ok_def)

lemma next_bits_reader_over:
  assumes "writer_ok heap w" and "w_bits w = pre @ xs @ post"
  shows "next_bits (reader_over w (length pre)) xs"
proof -
  have "has_bits (w_buf w) 0 (pre @ xs @ post)"
    using has_bits_w_bits[OF assms(1)] assms(2) by simp
  moreover have "length pre + length xs \<le> w_pos w"
    using arg_cong[OF assms(2), of length] by simp
  ultimately show ?thesis by (simp add: next_bits_def has_bits_append)
qed

text \<open>A list written element by element.\<close>

lemma writes_enc_seq:
  assumes "\<And>x w. x \<in> set xs \<Longrightarrow> writer_ok heap w \<Longrightarrow> writes heap (f x) w (enc (w_pos w) x)" and "writer_ok heap w"
  shows "writes heap (for_each f xs) w (enc_seq enc (w_pos w) xs)"
  using assms
proof (induction xs arbitrary: w)
  case Nil
  then show ?case by (simp add: writes_def appended_refl)
next
  case (Cons x xs)
  have "writes heap (sbind (f x) (\<lambda>_. for_each f xs)) w
      (enc (w_pos w) x @ enc_seq enc (w_pos w + length (enc (w_pos w) x)) xs)"
  proof (rule writes_sbind)
    show "writes heap (f x) w (enc (w_pos w) x)" using Cons.prems by simp
    fix w' assume a: "appended heap w (enc (w_pos w) x) w'"
    then have "w_pos w' = w_pos w + length (enc (w_pos w) x)" by (simp add: appended_def)
    then show "writes heap (for_each f xs) w' (enc_seq enc (w_pos w + length (enc (w_pos w) x)) xs)"
      using Cons.IH[of w'] Cons.prems appended_ok[OF a] by simp
  qed
  then show ?case by (simp add: writes_def)
qed

section \<open>The interface\<close>

locale codec =
  fixes enc :: "nat \<Rightarrow> 'a \<Rightarrow> bool list"
    and wr :: "nat \<Rightarrow> 'a \<Rightarrow> writing"
    and rd :: "'b reading"
    and valid :: "'a \<Rightarrow> bool"
    and agree :: "'a \<Rightarrow> 'b \<Rightarrow> bool"
  assumes wr_writes: "valid a \<Longrightarrow> writer_ok heap w \<Longrightarrow> writes heap (wr heap a) w (enc (w_pos w) a)"
    and rd_enc: "valid a \<Longrightarrow> reader_ok r \<Longrightarrow> next_bits r (enc (r_pos r) a) \<Longrightarrow>
      \<exists>b. rd r = (Ok b, adv (length (enc (r_pos r) a)) r) \<and> agree a b"
    and rd_rsafe: "rsafe rd"
begin

lemma wr_seq:
  "\<forall>x \<in> set xs. valid x \<Longrightarrow> writer_ok heap w \<Longrightarrow> writes heap (for_each (wr heap) xs) w (enc_seq enc (w_pos w) xs)"
  by (rule writes_enc_seq) (simp_all add: wr_writes)

lemma rd_seq:
  assumes "\<forall>x \<in> set xs. valid x" and "reader_ok r" and "next_bits r (enc_seq enc (r_pos r) xs)"
  shows "\<exists>ys. read_seq (length xs) rd r = (Ok ys, adv (length (enc_seq enc (r_pos r) xs)) r) \<and>
    list_all2 agree xs ys"
  using assms
proof (induction xs arbitrary: r)
  case Nil
  then show ?case by simp
next
  case (Cons x xs)
  let ?e = "enc (r_pos r) x"
  have nx: "next_bits r ?e" "next_bits (adv (length ?e) r) (enc_seq enc (r_pos r + length ?e) xs)"
    using Cons.prems(3) by (simp_all add: next_bits_append)
  obtain y where y: "rd r = (Ok y, adv (length ?e) r)" "agree x y"
    using rd_enc Cons.prems nx(1) by fastforce
  obtain ys where ys: "read_seq (length xs) rd (adv (length ?e) r) =
      (Ok ys, adv (length (enc_seq enc (r_pos r + length ?e) xs)) (adv (length ?e) r))"
      "list_all2 agree xs ys"
    using Cons.IH[of "adv (length ?e) r"] Cons.prems nx reader_ok_adv by fastforce
  show ?case using y ys by (auto simp: sbind_def)
qed

text \<open>Reading skips the items before the wanted one, as the value store is searched.\<close>

lemma rd_nth:
  assumes "\<forall>x \<in> set xs. valid x" and "reader_ok r" and "next_bits r (enc_seq enc (r_pos r) xs)"
    and "i < length xs"
  shows "\<exists>ys r' b r''. read_seq i rd r = (Ok ys, r') \<and> rd r' = (Ok b, r'') \<and> agree (xs ! i) b \<and>
    reader_ok r' \<and> same_stream r r'"
proof -
  have split: "xs = take i xs @ xs ! i # drop (Suc i) xs" using assms(4) by (rule id_take_nth_drop)
  let ?p = "enc_seq enc (r_pos r) (take i xs)"
  have nx: "next_bits r (?p @ enc_seq enc (r_pos r + length ?p) (xs ! i # drop (Suc i) xs))"
    using assms(3) split enc_seq_append[of enc "r_pos r" "take i xs"] by metis
  have nx1: "next_bits r ?p" and nx2: "next_bits (adv (length ?p) r) (enc (r_pos r + length ?p) (xs ! i))"
    using nx by (simp_all add: next_bits_append)
  have "\<forall>x \<in> set (take i xs). valid x" using assms(1) by (meson in_set_takeD)
  moreover have "length (take i xs) = i" using assms(4) by simp
  ultimately obtain ys where ys: "read_seq i rd r = (Ok ys, adv (length ?p) r)"
    using rd_seq[of "take i xs" r] assms(2) nx1 by auto
  have ok: "reader_ok (adv (length ?p) r)" using reader_ok_adv[OF assms(2) nx1] .
  obtain b where "rd (adv (length ?p) r) = (Ok b, adv (length (enc (r_pos r + length ?p) (xs ! i))) (adv (length ?p) r))"
      "agree (xs ! i) b"
    using rd_enc[of "xs ! i" "adv (length ?p) r"] ok nx2 assms(1,4) by auto
  then show ?thesis using ys ok by (auto simp: same_stream_def)
qed

text \<open>The round trip: what a loop of writes appends, a loop of reads gives back.\<close>

lemma seq_roundtrip:
  assumes "\<forall>x \<in> set xs. valid x" and "writer_ok heap w" and "for_each (wr heap) xs w = (Ok (), w')"
  shows "\<exists>ys. read_seq (length xs) rd (reader_over w' (w_pos w)) =
      (Ok ys, reader_over w' (w_pos w')) \<and> list_all2 agree xs ys"
proof -
  let ?e = "enc_seq enc (w_pos w) xs"
  have a: "appended heap w ?e w'" using writes_OkD[OF wr_seq[OF assms(1,2)] assms(3)] .
  have "w_bits w' = w_bits w @ ?e @ []" using a by (simp add: appended_def)
  from next_bits_reader_over[OF appended_ok[OF a] this]
  have "next_bits (reader_over w' (w_pos w)) ?e" by simp
  moreover have "reader_ok (reader_over w' (w_pos w))"
    using reader_over_ok[OF appended_ok[OF a]] a by (simp add: appended_def)
  ultimately obtain ys where "read_seq (length xs) rd (reader_over w' (w_pos w)) =
      (Ok ys, adv (length ?e) (reader_over w' (w_pos w))) \<and> list_all2 agree xs ys"
    using rd_seq[OF assms(1), of "reader_over w' (w_pos w)"] by auto
  moreover have "adv (length ?e) (reader_over w' (w_pos w)) = reader_over w' (w_pos w')"
    using a by (simp add: adv_def reader_over_def appended_def)
  ultimately show ?thesis by auto
qed

lemma item_roundtrip:
  assumes "valid x" and "writer_ok heap w" and "wr heap x w = (Ok (), w')"
  shows "\<exists>b. rd (reader_over w' (w_pos w)) = (Ok b, reader_over w' (w_pos w')) \<and> agree x b"
proof -
  have "for_each (wr heap) [x] w = (Ok (), w')" using assms(3) by (simp add: sbind_def)
  from seq_roundtrip[OF _ assms(2) this] assms(1)
  obtain ys where ys: "read_seq 1 rd (reader_over w' (w_pos w)) = (Ok ys, reader_over w' (w_pos w'))"
      "list_all2 agree [x] ys"
    by auto
  then obtain b where "ys = [b]" "agree x b" by (auto simp: list_all2_Cons1)
  then show ?thesis using ys(1) by (auto simp: sbind_eq_Ok)
qed

end

text \<open>Codecs whose bit string does not depend on the position and whose reading gives exactly the
  item: the laws in the form most uses need.\<close>

locale exact_codec = codec "\<lambda>_. enc" wr rd valid "(=)"
  for enc :: "'a \<Rightarrow> bool list" and wr :: "nat \<Rightarrow> 'a \<Rightarrow> writing" and rd :: "'a reading"
    and valid :: "'a \<Rightarrow> bool"
begin

lemma rd_exact:
  "valid a \<Longrightarrow> reader_ok r \<Longrightarrow> next_bits r (enc a) \<Longrightarrow> rd r = (Ok a, adv (length (enc a)) r)"
  using rd_enc by auto

lemma wr_exact: "valid a \<Longrightarrow> writer_ok heap w \<Longrightarrow> writes heap (wr heap a) w (enc a)"
  using wr_writes by simp

lemma seq_exact_roundtrip:
  assumes "\<forall>x \<in> set xs. valid x" and "writer_ok heap w" and "for_each (wr heap) xs w = (Ok (), w')"
  shows "read_seq (length xs) rd (reader_over w' (w_pos w)) = (Ok xs, reader_over w' (w_pos w'))"
  using seq_roundtrip[OF assms] by (auto simp: list.rel_eq)

text \<open>The first of several fields.\<close>

lemma wr_then:
  assumes "valid a" and "writer_ok heap w" and "\<And>w. writer_ok heap w \<Longrightarrow> writes heap m w xs"
  shows "writes heap (sbind (wr heap a) (\<lambda>_. m)) w (enc a @ xs)"
  using assms wr_exact by (intro writes_sbind) (auto dest: appended_ok)

lemma rd_then:
  assumes "valid a" and "reader_ok r" and "next_bits r (enc a @ xs)"
  shows "sbind rd f r = f a (adv (length (enc a)) r)" and "reader_ok (adv (length (enc a)) r)"
    and "next_bits (adv (length (enc a)) r) xs"
  using assms rd_exact reader_ok_adv[of r "enc a"] by (auto simp: sbind_def next_bits_append)

end

text \<open>Codecs with one encoding per item: whatever is read was encoded so.\<close>

locale strict_codec = exact_codec +
  assumes rd_only: "reader_ok r \<Longrightarrow> rd r = (Ok a, r') \<Longrightarrow>
    valid a \<and> next_bits r (enc a) \<and> r' = adv (length (enc a)) r"
begin

lemma rd_only_then:
  assumes "reader_ok r" and "sbind rd f r = (Ok b, r'')"
  obtains a where "valid a" and "next_bits r (enc a)" and "reader_ok (adv (length (enc a)) r)"
    and "f a (adv (length (enc a)) r) = (Ok b, r'')"
proof -
  obtain a r' where "rd r = (Ok a, r')" and f: "f a r' = (Ok b, r'')"
    using assms(2) by (auto simp: sbind_eq_Ok)
  with rd_only[OF assms(1) this(1)] show thesis
    using that[of a] reader_ok_adv[OF assms(1)] by blast
qed

lemma rd_iff:
  "reader_ok r \<Longrightarrow> rd r = (Ok a, r') \<longleftrightarrow> valid a \<and> next_bits r (enc a) \<and> r' = adv (length (enc a)) r"
  using rd_only[of r a r'] rd_exact[of a r] by blast

end

section \<open>Fixed-width fields\<close>

lemma write_bits_value:
  "writer_ok heap w \<Longrightarrow> 0 < n \<Longrightarrow> n \<le> 64 \<Longrightarrow> writes heap (tp_bs_write_bits heap v n) w (nbits n v)"
  by (rule write_bits_writes)

lemma read_bits_value:
  assumes "reader_ok r" and "next_bits r (nbits n v)" and "0 < n" and "n \<le> 64" and "unat v < 2 ^ n"
  shows "tp_bs_read_bits n r = (Ok v, adv n r)"
  using tp_bs_read_bits_next[OF assms(1,2)] assms by (simp add: bits_val_nbits take_bit_small)

lemma ucast_ucast_id: "LENGTH('a) \<le> LENGTH('b) \<Longrightarrow>
    (ucast (ucast (v :: 'a::len word) :: 'b::len word) :: 'a word) = v"
  by (rule bit_word_eqI) (auto simp: bit_simps)

lemma read_field:
  fixes v :: "'a::len word"
  assumes "reader_ok r" and "next_bits r (nbits LENGTH('a) v)" and "LENGTH('a) \<le> 64"
  shows "sbind (tp_bs_read_bits LENGTH('a)) (\<lambda>x. sret (ucast x)) r = (Ok v, adv LENGTH('a) r)"
proof -
  have "tp_bs_read_bits LENGTH('a) r = (Ok (bits_val (nbits LENGTH('a) v)), adv LENGTH('a) r)"
    using assms by (intro tp_bs_read_bits_next) simp_all
  moreover have "(ucast (bits_val (nbits LENGTH('a) v) :: u64) :: 'a word) = v"
    using assms(3) by (simp add: bits_val_nbits_ucast ucast_ucast_id)
  ultimately show ?thesis by (simp add: sbind_def)
qed

lemma read_field_only:
  assumes ok: "reader_ok r" and n: "LENGTH('a) \<le> 64"
    and eq: "sbind (tp_bs_read_bits LENGTH('a)) (\<lambda>x. sret (ucast x)) r = (Ok (v :: 'a::len word), r')"
  shows "next_bits r (nbits LENGTH('a) v) \<and> r' = adv LENGTH('a) r"
proof -
  obtain x where x: "tp_bs_read_bits LENGTH('a) r = (Ok x, r')" "v = ucast x"
    using eq by (auto simp: sbind_eq_Ok)
  have fit: "r_pos r + LENGTH('a) \<le> r_bit_len r"
    using x tp_bs_read_bits_eof[OF ok _ n] by (cases "r_bit_len r < r_pos r + LENGTH('a)") auto
  obtain xs where xs: "next_bits r xs" "length xs = LENGTH('a)"
    using next_bits_exists[OF ok fit] by auto
  have rd: "tp_bs_read_bits LENGTH('a) r = (Ok (bits_val xs), adv LENGTH('a) r)"
    using tp_bs_read_bits_next[OF ok xs(1)] xs(2) n by simp
  then have "v = ucast (bits_val xs :: u64)" using x by simp
  then have "nbits LENGTH('a) v = xs"
    using n xs(2) by (simp add: nbits_ucast nbits_bits_val)
  then show ?thesis using xs rd x by simp
qed

interpretation u8c: strict_codec "nbits 8" tp_bs_write_u8 tp_bs_read_u8 "\<lambda>_. True"
proof unfold_locales
  show "writes heap (tp_bs_write_u8 heap a) w (nbits 8 a)" if "writer_ok heap w" for heap a w
    using write_bits_writes[OF that, of 8 "ucast a"] by (simp add: tp_bs_write_u8_def nbits_ucast)
  show "\<exists>b. tp_bs_read_u8 r = (Ok b, adv (length (nbits 8 a)) r) \<and> a = b"
    if "reader_ok r" "next_bits r (nbits 8 a)" for r and a :: u8
    using read_field[of r a] that by (simp add: tp_bs_read_u8_def)
  show "True \<and> next_bits r (nbits 8 a) \<and> r' = adv (length (nbits 8 a)) r"
    if "reader_ok r" "tp_bs_read_u8 r = (Ok a, r')" for r a r'
    using read_field_only[of r a] that by (simp add: tp_bs_read_u8_def)
qed blast

interpretation u16c: strict_codec "nbits 16" tp_bs_write_u16 tp_bs_read_u16 "\<lambda>_. True"
proof unfold_locales
  show "writes heap (tp_bs_write_u16 heap a) w (nbits 16 a)" if "writer_ok heap w" for heap a w
    using write_bits_writes[OF that, of 16 "ucast a"] by (simp add: tp_bs_write_u16_def nbits_ucast)
  show "\<exists>b. tp_bs_read_u16 r = (Ok b, adv (length (nbits 16 a)) r) \<and> a = b"
    if "reader_ok r" "next_bits r (nbits 16 a)" for r and a :: u16
    using read_field[of r a] that by (simp add: tp_bs_read_u16_def)
  show "True \<and> next_bits r (nbits 16 a) \<and> r' = adv (length (nbits 16 a)) r"
    if "reader_ok r" "tp_bs_read_u16 r = (Ok a, r')" for r a r'
    using read_field_only[of r a] that by (simp add: tp_bs_read_u16_def)
qed blast

interpretation u32c: strict_codec "nbits 32" tp_bs_write_u32 tp_bs_read_u32 "\<lambda>_. True"
proof unfold_locales
  show "writes heap (tp_bs_write_u32 heap a) w (nbits 32 a)" if "writer_ok heap w" for heap a w
    using write_bits_writes[OF that, of 32 "ucast a"] by (simp add: tp_bs_write_u32_def nbits_ucast)
  show "\<exists>b. tp_bs_read_u32 r = (Ok b, adv (length (nbits 32 a)) r) \<and> a = b"
    if "reader_ok r" "next_bits r (nbits 32 a)" for r and a :: u32
    using read_field[of r a] that by (simp add: tp_bs_read_u32_def)
  show "True \<and> next_bits r (nbits 32 a) \<and> r' = adv (length (nbits 32 a)) r"
    if "reader_ok r" "tp_bs_read_u32 r = (Ok a, r')" for r a r'
    using read_field_only[of r a] that by (simp add: tp_bs_read_u32_def)
qed blast

interpretation u64c: strict_codec "nbits 64" tp_bs_write_u64 tp_bs_read_u64 "\<lambda>_. True"
proof unfold_locales
  show "writes heap (tp_bs_write_u64 heap a) w (nbits 64 a)" if "writer_ok heap w" for heap a w
    using write_bits_writes[OF that, of 64 a] by (simp add: tp_bs_write_u64_def)
  show "\<exists>b. tp_bs_read_u64 r = (Ok b, adv (length (nbits 64 a)) r) \<and> a = b"
    if "reader_ok r" "next_bits r (nbits 64 a)" for r and a :: u64
    using read_bits_value[OF that] unat_bound[of a] by (simp add: tp_bs_read_u64_def)
  show "True \<and> next_bits r (nbits 64 a) \<and> r' = adv (length (nbits 64 a)) r"
    if "reader_ok r" "tp_bs_read_u64 r = (Ok a, r')" for r a r'
    using read_field_only[of r a] that by (simp add: tp_bs_read_u64_def sbind_eq_Ok)
qed blast

section \<open>Raw bytes\<close>

lemma write_bytes_writes:
  assumes ok: "writer_ok heap w" and v: "view p n = Some bs"
  shows "writes heap (tp_bs_write_bytes heap p n) w (concat (map (nbits 8) bs))"
proof (cases p)
  case None
  then show ?thesis using v ok by (simp add: view_None_ptr writes_def tp_bs_write_bytes_def appended_refl)
next
  case (Some xs)
  then have n: "n \<le> length xs" "bs = take n xs" using v by (auto simp: view_Some_iff)
  have "writes heap (for_each (\<lambda>i. sbind (slift (load xs i)) (tp_bs_write_u8 heap)) [0..<n]) w
     (concat (map (\<lambda>i. nbits 8 (xs ! i)) [0..<n]))"
  proof (rule writes_for_each[OF ok])
    fix i w assume "i \<in> set [0..<n]" "writer_ok heap w"
    then show "writes heap (sbind (slift (load xs i)) (tp_bs_write_u8 heap)) w (nbits 8 (xs ! i))"
      using n u8c.wr_exact by (simp add: writes_def load_def sbind_def)
  qed
  moreover have "map (\<lambda>i. nbits 8 (xs ! i)) [0..<n] = map (nbits 8) bs"
    using n by (auto intro!: nth_equalityI)
  ultimately show ?thesis using Some by (simp add: tp_bs_write_bytes_def writes_def)
qed

lemma read_bytes_next:
  assumes "reader_ok r" and "next_bits r (concat (map (nbits 8) bs))"
  shows "tp_bs_read_bytes (length bs) r = (Ok bs, adv (8 * length bs) r)"
proof -
  have "length (concat (map (nbits 8) bs)) = 8 * length bs"
    by (induction bs) simp_all
  then show ?thesis
    using u8c.rd_seq[of bs r] assms by (auto simp: tp_bs_read_bytes_def enc_seq_const list.rel_eq)
qed

text \<open>A reader over a byte block, at bit \<open>p\<close>; reading it byte by byte.\<close>

definition bytes_reader :: "u8 list \<Rightarrow> nat \<Rightarrow> tp_bitstream_reader" where
  "bytes_reader bs p = \<lparr>r_buf = Some bs, r_bit_len = 8 * length bs, r_pos = p,
     r_order = TP_BIT_ORDER_MSB_FIRST, r_owns_buf = False\<rparr>"

lemma has_bits_byte: "i < length bs \<Longrightarrow> has_bits bs (8 * i) (nbits 8 (bs ! i))"
  by (simp add: has_bits_def bit_at_def)

lemma has_bits_bytes: "i + n \<le> length bs \<Longrightarrow> has_bits bs (8 * i) (concat (map (nbits 8) (take n (drop i bs))))"
proof (induction n arbitrary: i)
  case 0
  then show ?case by simp
next
  case (Suc n)
  have "take (Suc n) (drop i bs) = bs ! i # take n (drop (Suc i) bs)"
    using Suc.prems by (simp add: Cons_nth_drop_Suc[symmetric])
  then show ?case
    using Suc.IH[of "Suc i"] Suc.prems has_bits_byte[of i bs] by (simp add: has_bits_append add.commute)
qed

lemma bytes_reader_ok: "p \<le> 8 * length bs \<Longrightarrow> length bs \<le> 1152921504606846976 \<Longrightarrow> reader_ok (bytes_reader bs p)"
  by (simp add: reader_ok_def bytes_reader_def r_bytes_def)

lemma read_u8_bytes_reader:
  assumes "i < length bs" and "length bs \<le> 1152921504606846976"
  shows "tp_bs_read_u8 (bytes_reader bs (8 * i)) = (Ok (bs ! i), bytes_reader bs (8 * Suc i))"
proof -
  have "next_bits (bytes_reader bs (8 * i)) (nbits 8 (bs ! i))"
    using has_bits_byte[OF assms(1)] assms(1) by (simp add: next_bits_def bytes_reader_def r_bytes_def)
  then show ?thesis
    using u8c.rd_exact[of "bytes_reader bs (8 * i)" "bs ! i"] bytes_reader_ok[of "8 * i" bs] assms
    by (simp add: bytes_reader_def adv_def)
qed

end
