(* ===== verification/Varint.thy ===== *)
theory Varint
  imports Bit_Codec
begin

text \<open>
  Variable-length integers: \<open>src/bitstream/bitstream_varint.c\<close> and \<open>tp_bs_read_varint_u_at\<close> of
  \<open>bitstream_read.c\<close>. Seven bits per byte, least significant group first, the top bit set on every
  byte but the last; signed values are zigzag mapped first. \<open>varint_bytes\<close> is the reference
  encoding; every 64-bit value takes at most ten bytes, the reader's limit.
\<close>

section \<open>The operations\<close>

text \<open>The loop of \<open>tp_bs_read_varint_u\<close>, with \<open>g\<close> of the ten groups to go.\<close>

fun read_varint_loop :: "nat \<Rightarrow> nat \<Rightarrow> u64 \<Rightarrow> u64 reading" where
  "read_varint_loop 0 shift val r = (Err TP_ERR_OVERFLOW, r)"
| "read_varint_loop (Suc g) shift val r =
     (if wrap64 (r_pos r + 8) > r_bit_len r then (Err TP_ERR_EOF, r)
      else sbind (tp_bs_read_bits 8)
             (\<lambda>byte_val. let val' = val OR push_bit shift (byte_val AND 127) in
                if byte_val AND 128 = 0 then sret val' else read_varint_loop g (shift + 7) val') r)"

definition tp_bs_read_varint_u :: "u64 reading" where
  "tp_bs_read_varint_u = read_varint_loop TP_VARINT_MAX_GROUPS 0 0"

definition zigzag_decode :: "u64 \<Rightarrow> u64" where
  "zigzag_decode raw = (if raw AND 1 \<noteq> 0 then - drop_bit 1 raw - 1 else drop_bit 1 raw)"

definition tp_bs_read_varint_s :: "u64 reading" where
  "tp_bs_read_varint_s = sbind tp_bs_read_varint_u (\<lambda>raw. sret (zigzag_decode raw))"

lemma unat_drop_bit_7: "unat (drop_bit 7 (v :: u64)) = unat v div 128"
proof -
  have "unat v mod 18446744073709551616 = unat v" using unat_bound[of v] by simp
  then show ?thesis by (simp only: unsigned_drop_bit_eq) (simp add: drop_bit_eq_div take_bit_eq_mod)
qed

lemma unat_drop_bit_7_less: "drop_bit 7 (v :: u64) \<noteq> 0 \<Longrightarrow> unat (drop_bit 7 v) < unat v"
proof -
  assume "drop_bit 7 v \<noteq> 0"
  then have "unat v div 128 \<noteq> 0" by (metis unat_drop_bit_7 unat_eq_zero)
  then show ?thesis unfolding unat_drop_bit_7 by (cases "unat v = 0") simp_all
qed

function tp_bs_write_varint_u :: "nat \<Rightarrow> u64 \<Rightarrow> writing" where
  "tp_bs_write_varint_u heap value w =
     (let byte_val = (ucast (value AND 127) :: u8);
          value' = drop_bit 7 value;
          byte_val' = (if value' \<noteq> 0 then byte_val OR 128 else byte_val) in
      sbind (tp_bs_write_bits heap (ucast byte_val') 8)
        (\<lambda>_. if value' \<noteq> 0 then tp_bs_write_varint_u heap value' else sret ()) w)"
  by pat_completeness auto
termination
proof (relation "measure (\<lambda>(heap, value, w). unat value)", goal_cases)
  case 1
  then show ?case by simp
next
  case (2 heap v w)
  then show ?case by (simp add: unat_drop_bit_7_less)
qed

declare tp_bs_write_varint_u.simps [simp del]

definition zigzag_encode :: "u64 \<Rightarrow> u64" where
  "zigzag_encode value = push_bit 1 value XOR signed_drop_bit 63 value"

definition tp_bs_write_varint_s :: "nat \<Rightarrow> u64 \<Rightarrow> writing" where
  "tp_bs_write_varint_s heap value = tp_bs_write_varint_u heap (zigzag_encode value)"

text \<open>The stateless reader: the value and the number of bits consumed.\<close>

fun read_varint_at_loop :: "ptr \<Rightarrow> nat \<Rightarrow> nat \<Rightarrow> nat \<Rightarrow> nat \<Rightarrow> u64 \<Rightarrow> (u64 \<times> nat) tp" where
  "read_varint_at_loop buf bit_pos 0 shift total_bits val = Err TP_ERR_OVERFLOW"
| "read_varint_at_loop buf bit_pos (Suc g) shift total_bits val =
     rbind (tp_bs_read_bits_at buf (wrap64 (bit_pos + total_bits)) 8)
       (\<lambda>byte_val. let val' = val OR push_bit shift (byte_val AND 127) in
          if byte_val AND 128 = 0 then Ok (val', total_bits + 8)
          else read_varint_at_loop buf bit_pos g (shift + 7) (total_bits + 8) val')"

definition tp_bs_read_varint_u_at :: "ptr \<Rightarrow> nat \<Rightarrow> (u64 \<times> nat) tp" where
  "tp_bs_read_varint_u_at buf bit_pos =
     (if buf = None then Err TP_ERR_INVALID_PARAM
      else read_varint_at_loop buf bit_pos TP_VARINT_MAX_GROUPS 0 0 0)"

section \<open>The reference encoding\<close>

function varint_bytes :: "u64 \<Rightarrow> u8 list" where
  "varint_bytes v =
     (if drop_bit 7 v = 0 then [ucast (v AND 127)]
      else (ucast (v AND 127) OR 128) # varint_bytes (drop_bit 7 v))"
  by pat_completeness auto
termination
proof (relation "measure unat", goal_cases)
  case 1
  then show ?case by simp
next
  case (2 v)
  then show ?case by (simp add: unat_drop_bit_7_less)
qed

declare varint_bytes.simps [simp del]

definition varint_enc :: "u64 \<Rightarrow> bool list" where
  "varint_enc v = concat (map (nbits 8) (varint_bytes v))"

lemma length_concat_bytes: "length (concat (map (nbits 8) bs)) = 8 * length bs"
  by (induction bs) simp_all

lemma length_varint_enc: "length (varint_enc v) = 8 * length (varint_bytes v)"
  by (simp add: varint_enc_def length_concat_bytes)

lemma varint_bytes_not_Nil [simp]: "varint_bytes v \<noteq> []"
  by (subst varint_bytes.simps) simp

lemma length_varint_bytes_le: "unat v < 2 ^ (7 * k) \<Longrightarrow> 0 < k \<Longrightarrow> length (varint_bytes v) \<le> k"
proof (induction v arbitrary: k rule: varint_bytes.induct)
  case (1 v)
  show ?case
  proof (cases "drop_bit 7 v = 0")
    case True
    then show ?thesis using "1.prems" by (subst varint_bytes.simps) simp
  next
    case False
    obtain j where k: "k = Suc j" using "1.prems"(2) by (cases k) auto
    have "unat (drop_bit 7 v) < 2 ^ (7 * j)"
      using "1.prems"(1) k by (simp add: unat_drop_bit_7 power_add less_mult_imp_div_less mult.commute)
    moreover have "j \<noteq> 0"
    proof
      assume "j = 0"
      then have "unat v < 128" using "1.prems"(1) k by simp
      then have "unat (drop_bit 7 v) = 0" by (simp add: unat_drop_bit_7)
      then show False using False by (metis unat_eq_zero)
    qed
    ultimately have "length (varint_bytes (drop_bit 7 v)) \<le> j" using "1.IH"[OF False] by simp
    then show ?thesis using False k by (subst varint_bytes.simps) simp
  qed
qed

lemma length_varint_bytes_10: "length (varint_bytes v) \<le> 10"
proof -
  have "unat v < 2 ^ (7 * 10)" using unat_bound[of v] by simp
  then show ?thesis by (rule length_varint_bytes_le) simp
qed

section \<open>Writing\<close>

lemma varint_writes:
  "writer_ok heap w \<Longrightarrow> writes heap (tp_bs_write_varint_u heap v) w (varint_enc v)"
proof (induction v arbitrary: w rule: varint_bytes.induct)
  case (1 v)
  let ?v' = "drop_bit 7 v"
  let ?b = "if ?v' \<noteq> 0 then ucast (v AND 127) OR 128 else (ucast (v AND 127) :: u8)"
  let ?rest = "if ?v' \<noteq> 0 then varint_enc ?v' else []"
  have enc: "varint_enc v = nbits 8 ?b @ ?rest"
    unfolding varint_enc_def by (subst varint_bytes.simps) simp
  have "writes heap (sbind (tp_bs_write_bits heap (ucast ?b) 8)
      (\<lambda>_. if ?v' \<noteq> 0 then tp_bs_write_varint_u heap ?v' else sret ())) w (nbits 8 ?b @ ?rest)"
  proof (rule writes_sbind)
    show "writes heap (tp_bs_write_bits heap (ucast ?b) 8) w (nbits 8 ?b)"
      using write_bits_writes[OF "1.prems", of 8 "ucast ?b"] by (simp add: nbits_ucast)
    fix w' assume "appended heap w (nbits 8 ?b) w'"
    then have "writer_ok heap w'" by (rule appended_ok)
    then show "writes heap (if ?v' \<noteq> 0 then tp_bs_write_varint_u heap ?v' else sret ()) w' ?rest"
      using "1.IH" by (simp add: writes_sret)
  qed
  then show ?case
    unfolding enc by (simp add: writes_def tp_bs_write_varint_u.simps[of heap v] Let_def)
qed

section \<open>Reading\<close>

lemma and_127: "v AND 127 = (take_bit 7 v :: 'a::len word)"
  using take_bit_eq_mask[of 7 v] by (simp add: mask_eq_exp_minus_1)

lemma group_merge: "push_bit s (v AND 127) OR push_bit (s + 7) (drop_bit 7 v) = push_bit s (v :: u64)"
  proof (rule bit_word_eqI)
  fix n assume "n < LENGTH(64)"
  consider "n < s" | "s \<le> n" "n < s + 7" | "s + 7 \<le> n" by linarith
  then show "bit (push_bit s (v AND 127) OR push_bit (s + 7) (drop_bit 7 v)) n = bit (push_bit s v) n"
    unfolding and_127 by cases (auto simp: bit_simps)
qed

lemma bit_or_128: "bit (x OR 128 :: u8) k \<longleftrightarrow> bit x k \<or> k = 7"
proof -
  have "bit (128 :: u8) k \<longleftrightarrow> k = 7" using bit_exp_iff[where 'a = "8 word", of 7 k] by auto
  then show ?thesis by (simp add: bit_or_iff)
qed

lemma and_128_iff: "(x :: u64) AND 128 \<noteq> 0 \<longleftrightarrow> bit x 7"
proof -
  have e: "bit (128 :: u64) k \<longleftrightarrow> k = 7" for k using bit_exp_iff[where 'a = "64 word", of 7 k] by auto
  have "bit (x AND 128) k \<longleftrightarrow> k = 7 \<and> bit x 7" for k
    unfolding bit_and_iff e by auto
  then show ?thesis by (metis bit_0_eq bot_apply bot_bool_def bit_word_eqI)
qed

lemma cont_byte:
  "(ucast (ucast (v AND 127) OR 128 :: u8) :: u64) AND 127 = (v :: u64) AND 127"
  "(ucast (ucast (v AND 127) OR 128 :: u8) :: u64) AND 128 \<noteq> 0"
  "(ucast (ucast (v AND 127) :: u8) :: u64) AND 127 = v AND 127"
  "(ucast (ucast (v AND 127) :: u8) :: u64) AND 128 = 0"
proof -
  show "(ucast (ucast (v AND 127) OR 128 :: u8) :: u64) AND 127 = v AND 127"
    "(ucast (ucast (v AND 127) :: u8) :: u64) AND 127 = v AND 127"
    unfolding and_127 by (rule bit_word_eqI; auto simp: bit_take_bit_iff bit_ucast_iff bit_or_128)+
  show "(ucast (ucast (v AND 127) OR 128 :: u8) :: u64) AND 128 \<noteq> 0"
    unfolding and_128_iff by (simp add: bit_ucast_iff bit_or_128)
  have "\<not> bit (ucast (ucast (v AND 127) :: u8) :: u64) 7"
    unfolding and_127 by (simp add: bit_ucast_iff bit_take_bit_iff)
  then show "(ucast (ucast (v AND 127) :: u8) :: u64) AND 128 = 0"
    using and_128_iff by blast
qed

lemma unat_ucast_8_64: "unat (ucast (b :: u8) :: u64) = unat b"
  by (simp add: unsigned_ucast_eq take_bit_nat_eq_self_iff less_trans[OF unat_bound])

lemma read_varint_loop_enc:
  assumes "reader_ok r" and "next_bits r (varint_enc v)" and "length (varint_bytes v) \<le> g"
  shows "read_varint_loop g shift acc r =
    (Ok (acc OR push_bit shift v), adv (length (varint_enc v)) r)"
  using assms
proof (induction v arbitrary: r g shift acc rule: varint_bytes.induct)
  case (1 v)
  let ?v' = "drop_bit 7 v"
  let ?b = "if ?v' \<noteq> 0 then ucast (v AND 127) OR 128 else (ucast (v AND 127) :: u8)"
  let ?rest = "if ?v' \<noteq> 0 then varint_enc ?v' else []"
  have enc: "varint_enc v = nbits 8 ?b @ ?rest"
    unfolding varint_enc_def by (subst varint_bytes.simps) simp
  obtain h where g: "g = Suc h" using "1.prems"(3) by (cases g) auto
  have nx: "next_bits r (nbits 8 ?b)" "next_bits (adv 8 r) ?rest"
    using "1.prems"(2) unfolding enc by (simp_all add: next_bits_append)
  have rd: "tp_bs_read_bits 8 r = (Ok (ucast ?b), adv 8 r)"
    using read_bits_value[OF "1.prems"(1), of 8 "ucast ?b"] nx(1) unat_bound[of ?b]
    by (simp add: nbits_ucast unat_ucast_8_64)
  have fits: "\<not> r_bit_len r < wrap64 (r_pos r + 8)"
    using nx(1) by (auto simp: next_bits_def not_less intro: order_trans[OF wrap64_le])
  have ok': "reader_ok (adv 8 r)" using reader_ok_adv[OF "1.prems"(1) nx(1)] by simp
  show ?case
  proof (cases "?v' = 0")
    case True
    have "push_bit shift (v AND 127) = push_bit shift v"
      using group_merge[of shift v] True by simp
    then show ?thesis using True g rd fits cont_byte[of v] enc
      by (simp add: sbind_def Let_def del: push_bit_and)
  next
    case False
    have "length (varint_bytes ?v') \<le> h" using "1.prems"(3) g False by (subst (asm) varint_bytes.simps) simp
    then have "read_varint_loop h (shift + 7) (acc OR push_bit shift (v AND 127)) (adv 8 r) =
        (Ok ((acc OR push_bit shift (v AND 127)) OR push_bit (shift + 7) ?v'), adv (length (varint_enc ?v')) (adv 8 r))"
      using "1.IH"[OF False ok'] nx(2) False by simp
    moreover have "(acc OR push_bit shift (v AND 127)) OR push_bit (shift + 7) ?v' = acc OR push_bit shift v"
      using group_merge[of shift v] by (simp add: or.assoc)
    ultimately show ?thesis using False g rd fits cont_byte[of v] enc
      by (simp add: sbind_def Let_def del: push_bit_and)
  qed
qed

lemma rsafe_read_varint_loop [intro]: "rsafe (read_varint_loop g shift val)"
proof (induction g arbitrary: shift val)
  case 0
  then show ?case by (simp add: rsafe_def)
next
  case (Suc g)
  have "rsafe (sbind (tp_bs_read_bits 8)
             (\<lambda>byte_val. let val' = val OR push_bit shift (byte_val AND 127) in
                if byte_val AND 128 = 0 then sret val' else read_varint_loop g (shift + 7) val'))"
    unfolding Let_def using Suc by blast
  then show ?case by (auto simp: rsafe_def)
qed

lemma rsafe_read_varint [intro]: "rsafe tp_bs_read_varint_u" "rsafe tp_bs_read_varint_s"
  unfolding tp_bs_read_varint_u_def tp_bs_read_varint_s_def by blast+

interpretation varint: exact_codec varint_enc tp_bs_write_varint_u tp_bs_read_varint_u "\<lambda>_. True"
proof unfold_locales
  show "writes heap (tp_bs_write_varint_u heap a) w (varint_enc a)" if "writer_ok heap w" for heap a w
    using that by (rule varint_writes)
  show "\<exists>b. tp_bs_read_varint_u r = (Ok b, adv (length (varint_enc a)) r) \<and> a = b"
    if "reader_ok r" "next_bits r (varint_enc a)" for r a
    using read_varint_loop_enc[OF that, of 10 0 0] length_varint_bytes_10
    by (simp add: tp_bs_read_varint_u_def TP_VARINT_MAX_GROUPS_def)
qed blast

section \<open>Zigzag\<close>

lemma bit_zigzag_encode:
  "bit (zigzag_encode v) n \<longleftrightarrow> n < 64 \<and> (if n = 0 then bit v 63 else bit v (n - 1) \<noteq> bit v 63)"
  unfolding zigzag_encode_def bit_xor_iff bit_push_bit_iff bit_signed_drop_bit_iff
  by (cases "n = 0") (auto simp: min_def dest: bit_imp_le_length)

lemma zigzag_inverse: "zigzag_decode (zigzag_encode v) = v"
proof (rule bit_word_eqI)
  fix n assume n: "n < LENGTH(64)"
  have odd: "zigzag_encode v AND 1 \<noteq> 0 \<longleftrightarrow> bit v 63"
    by (simp add: word_and_one bit_zigzag_encode del: bit_0)
  have neg: "- x - 1 = NOT x" for x :: u64
    by (simp add: not_eq_complement)
  have d: "bit (drop_bit 1 (zigzag_encode v)) n \<longleftrightarrow> n < 63 \<and> bit v n \<noteq> bit v 63"
    by (auto simp: bit_drop_bit_eq bit_zigzag_encode)
  show "bit (zigzag_decode (zigzag_encode v)) n = bit v n"
    using n d by (cases "n = 63") (auto simp: zigzag_decode_def odd neg bit_not_iff)
qed

interpretation varint_s: exact_codec "\<lambda>v. varint_enc (zigzag_encode v)"
  tp_bs_write_varint_s tp_bs_read_varint_s "\<lambda>_. True"
proof unfold_locales
  show "writes heap (tp_bs_write_varint_s heap a) w (varint_enc (zigzag_encode a))"
    if "writer_ok heap w" for heap a w
    using varint.wr_exact[OF _ that] by (simp add: tp_bs_write_varint_s_def)
  show "\<exists>b. tp_bs_read_varint_s r = (Ok b, adv (length (varint_enc (zigzag_encode a))) r) \<and> a = b"
    if "reader_ok r" "next_bits r (varint_enc (zigzag_encode a))" for r a
    using varint.rd_exact[OF _ that] by (simp add: tp_bs_read_varint_s_def sbind_def zigzag_inverse)
qed blast

end
