(* ===== verification/Trie.thy ===== *)
theory Trie
  imports Symbols Varint "HOL-Library.List_Lexorder"
begin

text \<open>
  The trie between the key list and its bits. A node has a label, possibly a terminal (with a value
  or without) and children with distinct first bytes. \<open>flat\<close> is the key list it stands for,
  \<open>trie_of\<close> the trie of a key list, \<open>ser\<close> its bit string in the file format: the code that writes
  and the code that walks the trie are both stated against it.
\<close>

section \<open>Tries and their keys\<close>

datatype trie = Node (lab: "u8 list") (trm: "bool option") (kids: "(u8 \<times> trie) list")

fun nterms :: "trie \<Rightarrow> nat" where
  "nterms (Node l tm ks) = (if tm = None then 0 else 1) + sum_list (map (\<lambda>(c, t). nterms t) ks)"

fun depth :: "trie \<Rightarrow> nat" where
  "depth (Node l tm ks) = Suc (fold max (map (\<lambda>(c, t). depth t) ks) 0)"

fun flat :: "trie \<Rightarrow> (u8 list \<times> bool) list" where
  "flat (Node l tm ks) =
     (case tm of None \<Rightarrow> [] | Some b \<Rightarrow> [(l, b)]) @
     concat (map (\<lambda>(c, t). map (\<lambda>(k, b). (l @ c # k, b)) (flat t)) ks)"

fun wf_trie :: "trie \<Rightarrow> bool" where
  "wf_trie (Node l tm ks) \<longleftrightarrow>
     (tm = None \<longrightarrow> ks \<noteq> []) \<and> distinct (map fst ks) \<and> (\<forall>(c, t) \<in> set ks. wf_trie t)"

section \<open>The bit string\<close>

definition code_bits :: "tp_symbol_info \<Rightarrow> nat \<Rightarrow> bool list" where
  "code_bits si code = nbits (s_bits_per_symbol si) (word_of_nat code :: u64)"

definition chr_bits :: "tp_symbol_info \<Rightarrow> u8 \<Rightarrow> bool list" where
  "chr_bits si c = code_bits si (symbol_code si c)"

definition ctl_bits :: "tp_symbol_info \<Rightarrow> nat \<Rightarrow> bool list" where
  "ctl_bits si c = code_bits si (ctrl_code si c)"

definition num_bits :: "nat \<Rightarrow> bool list" where
  "num_bits n = varint_enc (word_of_nat n)"

definition term_bits :: "tp_symbol_info \<Rightarrow> nat \<Rightarrow> bool option \<Rightarrow> bool list" where
  "term_bits si vi tm =
     (case tm of
        None \<Rightarrow> []
      | Some b \<Rightarrow> if b then ctl_bits si TP_CTRL_END_VAL @ num_bits vi else ctl_bits si TP_CTRL_END)"

fun ser :: "tp_symbol_info \<Rightarrow> nat \<Rightarrow> trie \<Rightarrow> bool list"
  and ser_kids :: "tp_symbol_info \<Rightarrow> nat \<Rightarrow> (u8 \<times> trie) list \<Rightarrow> bool list" where
  "ser si vi (Node l tm ks) =
     concat (map (chr_bits si) l) @ term_bits si vi tm @
     (if ks = [] then []
      else ctl_bits si TP_CTRL_BRANCH @ num_bits (length ks) @
        ser_kids si (if tm = None then vi else vi + 1) ks)"
| "ser_kids si vi [] = []"
| "ser_kids si vi ((c, t) # ks) =
     (if ks = [] then [] else ctl_bits si TP_CTRL_SKIP @ num_bits (length (chr_bits si c @ ser si vi t))) @
     chr_bits si c @ ser si vi t @ ser_kids si (vi + nterms t) ks"

lemma length_code_bits [simp]: "length (code_bits si c) = s_bits_per_symbol si"
  "length (chr_bits si b) = s_bits_per_symbol si" "length (ctl_bits si k) = s_bits_per_symbol si"
  by (simp_all add: code_bits_def chr_bits_def ctl_bits_def)

section \<open>The trie of a key list\<close>

definition starts_with :: "u8 \<Rightarrow> u8 list \<times> bool \<Rightarrow> bool" where
  "starts_with c e \<longleftrightarrow> fst e \<noteq> [] \<and> hd (fst e) = c"

text \<open>The byte all keys start with.\<close>

definition all_head :: "(u8 list \<times> bool) list \<Rightarrow> u8 option" where
  "all_head es =
     (case es of
        (c # _, _) # _ \<Rightarrow> if list_all (starts_with c) es then Some c else None
      | _ \<Rightarrow> None)"

text \<open>The keys grouped by their first byte, which is dropped.\<close>

definition behead :: "(u8 list \<times> bool) list \<Rightarrow> (u8 list \<times> bool) list" where
  "behead es = map (\<lambda>(k, b). (tl k, b)) es"

function groups :: "(u8 list \<times> bool) list \<Rightarrow> (u8 \<times> (u8 list \<times> bool) list) list" where
  "groups [] = []"
| "groups ((k, b) # es) =
     (hd k, behead ((k, b) # takeWhile (starts_with (hd k)) es)) #
     groups (dropWhile (starts_with (hd k)) es)"
  by pat_completeness auto
termination
  by (relation "measure length") (auto simp: le_imp_less_Suc length_dropWhile_le)

definition total_len :: "(u8 list \<times> bool) list \<Rightarrow> nat" where
  "total_len es = sum_list (map (length \<circ> fst) es)"

lemma total_len_simps [simp]: "total_len [] = 0" "total_len (e # es) = length (fst e) + total_len es"
  "total_len (xs @ ys) = total_len xs + total_len ys"
  by (simp_all add: total_len_def)

lemma total_len_behead: "total_len (behead es) \<le> total_len es"
  by (induction es) (auto simp: behead_def)

lemma total_len_behead_less:
  "es \<noteq> [] \<Longrightarrow> fst (hd es) \<noteq> [] \<Longrightarrow> total_len (behead es) < total_len es"
  using total_len_behead[of "tl es"] by (cases es; cases "fst (hd es)") (auto simp: behead_def)

lemma total_len_groups: "(c, g) \<in> set (groups es) \<Longrightarrow> total_len g \<le> total_len es"
proof (induction es rule: groups.induct)
  case (2 k b es)
  have "total_len (takeWhile (starts_with (hd k)) es) + total_len (dropWhile (starts_with (hd k)) es) = total_len es"
    by (metis takeWhile_dropWhile_id total_len_simps(3))
  then show ?case using 2 total_len_behead[of "(k, b) # takeWhile (starts_with (hd k)) es"] by auto
qed simp

lemma total_len_groups_less:
  "(c, g) \<in> set (groups es) \<Longrightarrow> es \<noteq> [] \<Longrightarrow> \<forall>e \<in> set es. fst e \<noteq> [] \<Longrightarrow> total_len g < total_len es"
proof (induction es rule: groups.induct)
  case (2 k b es)
  let ?t = "takeWhile (starts_with (hd k)) es" and ?d = "dropWhile (starts_with (hd k)) es"
  have s: "total_len ?t + total_len ?d = total_len es"
    by (metis takeWhile_dropWhile_id total_len_simps(3))
  from 2(2) consider "g = behead ((k, b) # ?t)" | "(c, g) \<in> set (groups ?d)" by auto
  then show ?case
  proof cases
    case 1
    then show ?thesis using total_len_behead_less[of "(k, b) # ?t"] s 2(4) by simp
  next
    case 2
    then show ?thesis using total_len_groups[OF 2] s "2.prems"(3) by (cases k) auto
  qed
qed simp

lemma total_len_filter: "total_len (filter P es) \<le> total_len es"
  by (induction es) auto

lemma groups_filter_less:
  assumes "(c, g) \<in> set (groups (filter (\<lambda>e. fst e \<noteq> []) es))" shows "total_len g < total_len es"
proof -
  have "filter (\<lambda>e. fst e \<noteq> []) es \<noteq> []" using assms by (cases "filter (\<lambda>e. fst e \<noteq> []) es") auto
  then have "total_len g < total_len (filter (\<lambda>e. fst e \<noteq> []) es)"
    using total_len_groups_less[OF assms] by fastforce
  then show ?thesis using total_len_filter[of "\<lambda>e. fst e \<noteq> []" es] by simp
qed

fun push :: "u8 \<Rightarrow> trie \<Rightarrow> trie" where
  "push c (Node l tm ks) = Node (c # l) tm ks"

function trie_of :: "(u8 list \<times> bool) list \<Rightarrow> trie" where
  "trie_of es =
     (case all_head es of
        Some c \<Rightarrow> push c (trie_of (behead es))
      | None \<Rightarrow>
          if es = [] then Node [] None []
          else if fst (hd es) = [] then
            Node [] (Some (snd (hd es))) (map (\<lambda>z. (fst z, trie_of (snd z))) (groups (filter (\<lambda>e. fst e \<noteq> []) (tl es))))
          else Node [] None (map (\<lambda>z. (fst z, trie_of (snd z))) (groups (filter (\<lambda>e. fst e \<noteq> []) es))))"
  by pat_completeness auto

termination
proof (relation "measure total_len")
  show "wf (measure total_len)" by simp
  show "(behead es, es) \<in> measure total_len" if "all_head es = Some c" for es c
    using that total_len_behead_less[of es]
    by (auto simp: all_head_def split: list.splits prod.splits if_splits)
  show "(snd z, es) \<in> measure total_len"
    if "z \<in> set (groups (filter (\<lambda>e. fst e \<noteq> []) (tl es)))" "es \<noteq> []" for es z
    using that groups_filter_less[of "fst z" "snd z" "tl es"] by (cases es) auto
  show "(snd z, es) \<in> measure total_len"
    if "z \<in> set (groups (filter (\<lambda>e. fst e \<noteq> []) es))" for es z
    using that groups_filter_less[of "fst z" "snd z" es] by auto
qed

declare trie_of.simps [simp del]

section \<open>Key lists in order\<close>

definition ordered :: "(u8 list \<times> bool) list \<Rightarrow> bool" where
  "ordered es \<longleftrightarrow> sorted_wrt (<) (map fst es)"

lemma ordered_Cons: "ordered (e # es) \<longleftrightarrow> (\<forall>x \<in> set es. fst e < fst x) \<and> ordered es"
  by (auto simp: ordered_def)

lemma ordered_append: "ordered (xs @ ys) \<longleftrightarrow> ordered xs \<and> ordered ys \<and> (\<forall>x \<in> set xs. \<forall>y \<in> set ys. fst x < fst y)"
  by (auto simp: ordered_def sorted_wrt_append)

lemma ordered_tl_nonempty:
  assumes "ordered es" and "x \<in> set (tl es)" shows "fst x \<noteq> []"
proof (cases es)
  case (Cons e r)
  then have "fst e < fst x" using assms by (simp add: ordered_Cons)
  then show ?thesis by (metis Nil_le_Cons leD order_less_le_trans not_less_Nil)
qed (use assms in simp)

lemma ordered_all_nonempty:
  assumes "ordered es" and "es \<noteq> []" and "fst (hd es) \<noteq> []" shows "\<forall>x \<in> set es. fst x \<noteq> []"
  using assms ordered_tl_nonempty[OF assms(1)] by (cases es) auto

lemma fst_behead: "map fst (behead es) = map (tl \<circ> fst) es"
  by (induction es) (auto simp: behead_def)

lemma length_behead [simp]: "length (behead es) = length es"
  by (simp add: behead_def)

lemma behead_Nil [simp]: "behead es = [] \<longleftrightarrow> es = []" "behead [] = []"
  by (simp_all add: behead_def)

lemma ordered_behead:
  "ordered es \<Longrightarrow> \<forall>e \<in> set es. starts_with c e \<Longrightarrow> ordered (behead es)"
proof (induction es)
  case (Cons e es)
  have "fst (tl (fst e), snd e) < fst x" if x: "x \<in> set (behead es)" for x
  proof -
    obtain k0 b0 where "(k0, b0) \<in> set es" "x = (tl k0, b0)" using x by (auto simp: behead_def)
    then obtain y where y: "y \<in> set es" "x = (tl (fst y), snd y)" by (metis fst_conv snd_conv)
    have "fst e < fst y" "starts_with c e" "starts_with c y" using Cons.prems y by (auto simp: ordered_Cons)
    then show ?thesis using y(2) by (cases "fst e"; cases "fst y") (auto simp: starts_with_def)
  qed
  then show ?case using Cons by (simp add: ordered_Cons behead_def split_def)
qed (simp add: ordered_def)

lemma prepend_behead:
  "\<forall>e \<in> set es. starts_with c e \<Longrightarrow> map (\<lambda>(k, b). (c # k, b)) (behead es) = es"
  by (induction es) (auto simp: behead_def starts_with_def)

lemma all_head_Some:
  "all_head es = Some c \<longleftrightarrow> es \<noteq> [] \<and> (\<forall>e \<in> set es. starts_with c e)"
  by (auto simp: all_head_def starts_with_def list_all_iff split: list.splits prod.splits if_splits)

section \<open>Groups\<close>

text \<open>In an ordered list of non-empty keys the groups are the runs of a first byte, each non-empty
  and ordered, in increasing order of the byte.\<close>

definition good_groups :: "(u8 list \<times> bool) list \<Rightarrow> (u8 \<times> (u8 list \<times> bool) list) list \<Rightarrow> bool" where
  "good_groups es gs \<longleftrightarrow>
     concat (map (\<lambda>(c, g). map (\<lambda>(k, b). (c # k, b)) g) gs) = es \<and>
     sorted_wrt (<) (map fst gs) \<and> (\<forall>(c, g) \<in> set gs. g \<noteq> [] \<and> ordered g)"

lemma starts_with_run:
  assumes "ordered ((k, b) # es)" and "k \<noteq> []" and "x \<in> set (dropWhile (starts_with (hd k)) es)"
  shows "fst x \<noteq> [] \<and> hd k < hd (fst x)"
proof -
  let ?d = "dropWhile (starts_with (hd k)) es"
  have ne: "?d \<noteq> []" using assms(3) by (metis empty_iff list.set(1))
  have sub: "set ?d \<subseteq> set es" by (meson set_dropWhileD subsetI)
  have lt: "k < fst y" if "y \<in> set ?d" for y using assms(1) sub that by (auto simp: ordered_Cons)
  have h: "\<not> starts_with (hd k) (hd ?d)" using hd_dropWhile[OF ne] .
  have od: "ordered ?d"
  proof -
    have "ordered (takeWhile (starts_with (hd k)) es @ ?d)" using assms(1) by (simp add: ordered_Cons)
    then show ?thesis unfolding ordered_append by blast
  qed
  have nonempty: "fst y \<noteq> []" "hd k \<le> hd (fst y)" if "y \<in> set ?d" for y
    using lt[OF that] assms(2) by (cases k; cases "fst y"; auto)+
  have hd0: "hd k < hd (fst (hd ?d))"
    using nonempty[of "hd ?d"] h ne by (auto simp: starts_with_def order_le_less)
  have "fst (hd ?d) \<le> fst x"
    using od assms(3) ne by (cases ?d) (auto simp: ordered_Cons)
  then have "hd (fst (hd ?d)) \<le> hd (fst x)"
    using nonempty(1)[of "hd ?d"] nonempty(1)[OF assms(3)] ne
    by (cases "fst (hd ?d)"; cases "fst x") auto
  then show ?thesis using hd0 nonempty(1)[OF assms(3)] by simp
qed

lemma groups_good: "ordered es \<Longrightarrow> \<forall>e \<in> set es. fst e \<noteq> [] \<Longrightarrow> good_groups es (groups es)"
proof (induction es rule: groups.induct)
  case 1
  then show ?case by (simp add: good_groups_def)
next
  case (2 k b es)
  let ?c = "hd k" let ?t = "takeWhile (starts_with ?c) es" and ?d = "dropWhile (starts_with ?c) es"
  have k: "k \<noteq> []" using "2.prems" by simp
  have od: "ordered ((k, b) # ?t)" "ordered ?d"
  proof -
    have "ordered (((k, b) # ?t) @ ?d)" using "2.prems" by simp
    then show "ordered ((k, b) # ?t)" "ordered ?d" unfolding ordered_append by blast+
  qed
  have run: "\<forall>e \<in> set ((k, b) # ?t). starts_with ?c e"
    using k by (auto simp: starts_with_def dest: set_takeWhileD)
  have dne: "\<forall>e \<in> set ?d. fst e \<noteq> []" using "2.prems"(2) by (auto dest: set_dropWhileD)
  have ih: "good_groups ?d (groups ?d)" using "2.IH" od(2) dne by simp
  have up: "?c < x" if x: "x \<in> set (map fst (groups ?d))" for x
  proof -
    obtain g where g: "(x, g) \<in> set (groups ?d)" using x by auto
    then obtain k' b' r where "g = (k', b') # r" using ih by (cases g) (auto simp: good_groups_def)
    then have "(x # k', b') \<in> set (concat (map (\<lambda>(c, g). map (\<lambda>(k, b). (c # k, b)) g) (groups ?d)))"
      using g by force
    then have "(x # k', b') \<in> set ?d" using ih unfolding good_groups_def by metis
    then show ?thesis using starts_with_run[OF "2.prems"(1) k] by fastforce
  qed
  have "map (\<lambda>(k, b). (?c # k, b)) (behead ((k, b) # ?t)) @
      concat (map (\<lambda>(c, g). map (\<lambda>(k, b). (c # k, b)) g) (groups ?d)) = (k, b) # es"
    using prepend_behead[OF run] ih by (simp add: good_groups_def)
  then show ?case using ih up ordered_behead[OF od(1) run] by (simp add: good_groups_def)
qed

lemma trie_of_push: "all_head es = Some c \<Longrightarrow> trie_of es = push c (trie_of (behead es))"
  by (subst trie_of.simps) simp

lemma filter_nonempty_id: "\<forall>e \<in> set es. fst e \<noteq> [] \<Longrightarrow> filter (\<lambda>e. fst e \<noteq> []) es = es"
  by simp

lemma trie_of_term:
  assumes "ordered es" and "es \<noteq> []" and "fst (hd es) = []"
  shows "trie_of es = Node [] (Some (snd (hd es))) (map (\<lambda>z. (fst z, trie_of (snd z))) (groups (tl es)))"
proof -
  have "all_head es = None" using assms(2,3) by (cases es) (auto simp: all_head_def)
  moreover have "\<forall>e \<in> set (tl es). fst e \<noteq> []" using ordered_tl_nonempty[OF assms(1)] by blast
  ultimately show ?thesis using assms by (subst trie_of.simps) (simp only: filter_nonempty_id, simp)
qed

lemma trie_of_branch:
  assumes "ordered es" and "es \<noteq> []" and "fst (hd es) \<noteq> []" and "all_head es = None"
  shows "trie_of es = Node [] None (map (\<lambda>z. (fst z, trie_of (snd z))) (groups es))"
  using assms ordered_all_nonempty[OF assms(1-3)]
  by (subst trie_of.simps) (simp only: filter_nonempty_id, simp)

text \<open>Induction over the shapes \<open>trie_of\<close> distinguishes.\<close>

lemma trie_of_induct [consumes 1, case_names Nil push trm branch]:
  assumes o: "ordered es"
    and nil: "P []"
    and push: "\<And>c es. ordered es \<Longrightarrow> all_head es = Some c \<Longrightarrow> P (behead es) \<Longrightarrow> ordered (behead es) \<Longrightarrow> P es"
    and term': "\<And>b es. ordered (([], b) # es) \<Longrightarrow> good_groups es (groups es) \<Longrightarrow>
      (\<And>c g. (c, g) \<in> set (groups es) \<Longrightarrow> P g) \<Longrightarrow> P (([], b) # es)"
    and branch: "\<And>es. ordered es \<Longrightarrow> es \<noteq> [] \<Longrightarrow> fst (hd es) \<noteq> [] \<Longrightarrow> all_head es = None \<Longrightarrow>
      good_groups es (groups es) \<Longrightarrow> (\<And>c g. (c, g) \<in> set (groups es) \<Longrightarrow> P g) \<Longrightarrow> P es"
  shows "P es"
  using o
proof (induction es rule: measure_induct_rule[where f = total_len])
  case (less es)
  have og: "ordered g" if "good_groups xs gs" "(c, g) \<in> set gs" for c g xs gs
    using that by (auto simp: good_groups_def)
  show ?case
  proof (cases "all_head es")
    case (Some c)
    then have h: "es \<noteq> []" "\<forall>e \<in> set es. starts_with c e" by (simp_all add: all_head_Some)
    then have "total_len (behead es) < total_len es"
      by (intro total_len_behead_less) (auto simp: starts_with_def)
    then show ?thesis using push[OF less.prems Some] less ordered_behead[OF less.prems h(2)] by blast
  next
    case None
    consider "es = []" | b r where "es = ([], b) # r" | "es \<noteq> []" "fst (hd es) \<noteq> []"
      by (cases es; cases "fst (hd es)") auto
    then show ?thesis
    proof cases
      case 1
      then show ?thesis using nil by simp
    next
      case (2 b r)
      then have ne: "\<forall>e \<in> set r. fst e \<noteq> []" and "ordered r"
        using ordered_tl_nonempty[OF less.prems] less.prems by (auto simp: ordered_Cons)
      then have gg: "good_groups r (groups r)" by (simp add: groups_good)
      have "P g" if "(c, g) \<in> set (groups r)" for c g
      proof -
        have "total_len g < total_len es"
          using groups_filter_less[of c g r] that 2 by (simp only: filter_nonempty_id[OF ne]) simp
        then show ?thesis using less.IH og[OF gg that] by blast
      qed
      then show ?thesis using term'[of b r] gg 2 less.prems by blast
    next
      case 3
      have ne: "\<forall>e \<in> set es. fst e \<noteq> []" using ordered_all_nonempty[OF less.prems 3] .
      then have gg: "good_groups es (groups es)" using less.prems by (simp add: groups_good)
      have "P g" if "(c, g) \<in> set (groups es)" for c g
      proof -
        have "total_len g < total_len es"
          using groups_filter_less[of c g es] that by (simp only: filter_nonempty_id[OF ne])
        then show ?thesis using less.IH og[OF gg that] by blast
      qed
      then show ?thesis using branch[OF less.prems 3 None gg] by blast
    qed
  qed
qed

lemma flat_push: "flat (push c t) = map (\<lambda>(k, b). (c # k, b)) (flat t)"
  by (cases t) (auto simp: map_concat comp_def split_def split: option.splits)

lemma flat_groups:
  assumes "good_groups es gs" and "\<And>c g. (c, g) \<in> set gs \<Longrightarrow> flat (trie_of g) = g"
  shows "flat (Node [] None (map (\<lambda>z. (fst z, trie_of (snd z))) gs)) = es"
proof -
  have eq: "map (\<lambda>z. map (\<lambda>(k, b). (fst z # k, b)) (flat (trie_of (snd z)))) gs =
      map (\<lambda>(c, g). map (\<lambda>(k, b). (c # k, b)) g) gs"
    using assms(2) by auto
  have "flat (Node [] None (map (\<lambda>z. (fst z, trie_of (snd z))) gs)) =
      concat (map (\<lambda>z. map (\<lambda>(k, b). (fst z # k, b)) (flat (trie_of (snd z)))) gs)"
    by (simp add: comp_def)
  also have "\<dots> = es" unfolding eq using assms(1) by (simp only: good_groups_def)
  finally show ?thesis .
qed

text \<open>The trie of a key list stands for exactly that list.\<close>

lemma flat_trie_of: "ordered es \<Longrightarrow> flat (trie_of es) = es"
proof (induction rule: trie_of_induct)
  case Nil
  show ?case by (subst trie_of.simps) (simp add: all_head_def)
next
  case (push c es)
  have "\<forall>e \<in> set es. starts_with c e" using push(2) by (simp add: all_head_Some)
  then show ?case using prepend_behead push.IH by (simp add: trie_of_push[OF push(2)] flat_push)
next
  case (trm b es)
  show ?case using flat_groups[OF trm(2,3)] trie_of_term[OF trm(1)] by simp
next
  case (branch es)
  show ?case using flat_groups[OF branch(5,6)] trie_of_branch[OF branch(1-4)] by simp
qed

lemma wf_push: "wf_trie (push c t) = wf_trie t"
  by (cases t) simp

lemma sorted_distinct: "sorted_wrt (<) (xs :: 'a::linorder list) \<Longrightarrow> distinct xs"
  by (induction xs) auto

lemma wf_trie_of: "ordered es \<Longrightarrow> es \<noteq> [] \<Longrightarrow> wf_trie (trie_of es)"
proof (induction rule: trie_of_induct)
  case (push c es)
  then show ?case by (simp add: trie_of_push wf_push)
next
  case (trm b es)
  have "distinct (map fst (groups es))" using trm(2) by (simp add: good_groups_def sorted_distinct)
  then show ?case using trm(2,3) trie_of_term[OF trm(1)] by (auto simp: good_groups_def comp_def)
next
  case (branch es)
  have "distinct (map fst (groups es))" using branch(5) by (simp add: good_groups_def sorted_distinct)
  moreover have "groups es \<noteq> []" using branch(2) by (cases es) auto
  ultimately show ?case using branch(5,6) trie_of_branch[OF branch(1-4)] by (auto simp: good_groups_def comp_def)
qed simp

lemma nterms_flat: "nterms t = length (flat t)"
proof (induction t)
  case (Node l tm ks)
  have "map (\<lambda>(c, t). nterms t) ks = map (\<lambda>(c, t). length (flat t)) ks"
    by (rule map_cong) (use Node in auto)
  then have "sum_list (map (\<lambda>(c, t). nterms t) ks) = sum_list (map (\<lambda>(c, t). length (flat t)) ks)"
    by (rule arg_cong)
  then show ?case by (cases tm) (simp_all add: length_concat comp_def split_def)
qed

section \<open>Depth and size\<close>

lemma fold_max_le: "fold max xs a \<le> m \<longleftrightarrow> a \<le> m \<and> (\<forall>x \<in> set xs. x \<le> (m :: nat))"
  by (induction xs arbitrary: a) auto

lemma depth_push [simp]: "depth (push c t) = depth t"
  by (cases t) simp

lemma group_keys_shorter:
  assumes "good_groups es gs" and "(c, g) \<in> set gs" and "\<forall>e \<in> set es. length (fst e) \<le> m" and "x \<in> set g"
  shows "Suc (length (fst x)) \<le> m"
proof -
  have "(c # fst x, snd x) \<in> set (concat (map (\<lambda>(c, g). map (\<lambda>(k, b). (c # k, b)) g) gs))"
    using assms(2,4) by force
  then have "(c # fst x, snd x) \<in> set es" using assms(1) unfolding good_groups_def by metis
  then show ?thesis using assms(3) by fastforce
qed

lemma depth_groups:
  assumes gg: "good_groups es gs" and le: "\<forall>e \<in> set es. length (fst e) \<le> m"
    and ih: "\<And>c g m. (c, g) \<in> set gs \<Longrightarrow> \<forall>e \<in> set g. length (fst e) \<le> m \<Longrightarrow> depth (trie_of g) \<le> Suc m"
  shows "depth (Node l tm (map (\<lambda>z. (fst z, trie_of (snd z))) gs)) \<le> Suc m"
proof -
  have "depth (trie_of g) \<le> m" if g: "(c, g) \<in> set gs" for c g
  proof -
    have k: "\<forall>x \<in> set g. Suc (length (fst x)) \<le> m" using group_keys_shorter[OF gg g le] by blast
    moreover have "g \<noteq> []" using gg g by (auto simp: good_groups_def)
    ultimately have "0 < m" by (cases g) auto
    then show ?thesis using ih[OF g, of "m - 1"] k by (cases m) auto
  qed
  then show ?thesis by (auto simp: fold_max_le)
qed

lemma depth_trie_of: "ordered es \<Longrightarrow> \<forall>e \<in> set es. length (fst e) \<le> m \<Longrightarrow> depth (trie_of es) \<le> Suc m"
proof (induction arbitrary: m rule: trie_of_induct)
  case Nil
  show ?case by (subst trie_of.simps) (simp add: all_head_def)
next
  case (push c es)
  have "\<forall>e \<in> set (behead es). length (fst e) \<le> m" using push(5) by (auto simp: behead_def intro: le_trans)
  then show ?case using push by (simp add: trie_of_push)
next
  case (trm b es)
  then show ?case using depth_groups[OF trm(2), of m] trie_of_term[OF trm(1)] by simp
next
  case (branch es)
  then show ?case using depth_groups[OF branch(5,7)] trie_of_branch[OF branch(1-4)] by simp
qed

fun weight :: "trie \<Rightarrow> nat" where
  "weight (Node l tm ks) = length l + (if tm = None then 0 else 1) + sum_list (map (\<lambda>(c, t). Suc (weight t)) ks)"

lemma length_num_bits: "length (num_bits n) \<le> 80"
  using length_varint_bytes_10[of "word_of_nat n"] by (simp add: num_bits_def length_varint_enc)

lemma length_concat_chr: "length (concat (map (chr_bits si) l)) = s_bits_per_symbol si * length l"
  by (induction l) simp_all

text \<open>The bit string is linear in the number of key bytes and keys.\<close>

lemma length_term_bits:
  "s_bits_per_symbol si \<le> b \<Longrightarrow> length (term_bits si vi tm) \<le> (if tm = None then 0 else 80 + b)"
  using length_num_bits[of vi] by (auto simp: term_bits_def split: option.splits)

lemma length_ser:
  "s_bits_per_symbol si \<le> b \<Longrightarrow> length (ser si vi t) \<le> (160 + 3 * b) * weight t"
  "s_bits_per_symbol si \<le> b \<Longrightarrow>
    length (ser_kids si vi ks) + (if ks = [] then 0 else 80 + b) \<le> (160 + 3 * b) * sum_list (map (\<lambda>(c, t). Suc (weight t)) ks)"
proof (induction si vi t and si vi ks rule: ser_ser_kids.induct)
  case (1 si vi l tm ks)
  let ?v = "if tm = None then vi else vi + 1" and ?K = "160 + 3 * b"
  let ?S = "sum_list (map (\<lambda>(c, t). Suc (weight t)) ks)"
  have bps: "s_bits_per_symbol si \<le> b" using "1.prems" .
  have k: "length (ser_kids si ?v ks) + (if ks = [] then 0 else 80 + b) \<le> ?K * ?S"
    using "1.IH" bps by (cases "ks = []") (simp_all split del: if_split)
  have m: "length (concat (map (chr_bits si) l)) \<le> ?K * length l"
    unfolding length_concat_chr using bps by (intro mult_le_mono1) simp
  have t: "length (term_bits si vi tm) \<le> ?K * (if tm = None then 0 else 1)"
    using length_term_bits[OF bps, of vi tm] by (auto split: if_splits)
  have "length (ser si vi (Node l tm ks)) \<le> length (concat (map (chr_bits si) l)) + length (term_bits si vi tm) +
      (length (ser_kids si ?v ks) + (if ks = [] then 0 else 80 + b))"
    using length_num_bits[of "length ks"] bps by (simp split del: if_split) (auto split: if_splits)
  then have "length (ser si vi (Node l tm ks)) \<le> ?K * length l + ?K * (if tm = None then 0 else 1) + ?K * ?S"
    using k m t by linarith
  also have "\<dots> = ?K * weight (Node l tm ks)" by (simp only: weight.simps distrib_left)
  finally show ?case .
next
  case (2 si vi)
  then show ?case by simp
next
  case (3 si vi c t ks)
  let ?K = "160 + 3 * b"
  let ?S = "sum_list (map (\<lambda>(c, t). Suc (weight t)) ks)"
  have bps: "s_bits_per_symbol si \<le> b" using "3.prems" .
  have t: "length (ser si vi t) \<le> ?K * weight t" using "3.IH" bps by simp
  have k: "length (ser_kids si (vi + nterms t) ks) + (if ks = [] then 0 else 80 + b) \<le> ?K * ?S"
    using "3.IH" bps by simp
  have "length (ser_kids si vi ((c, t) # ks)) + (80 + b) \<le> b + length (ser si vi t) +
      (length (ser_kids si (vi + nterms t) ks) + (if ks = [] then 0 else 80 + b)) + (80 + b)"
    using bps length_num_bits[of "length (chr_bits si c @ ser si vi t)"] by simp
  then have "length (ser_kids si vi ((c, t) # ks)) + (80 + b) \<le> ?K + ?K * weight t + ?K * ?S"
    using t k by linarith
  also have "\<dots> = ?K * sum_list (map (\<lambda>(c, t). Suc (weight t)) ((c, t) # ks))"
    by (simp add: distrib_left del: distrib_left_numeral)
  finally show ?case by simp
qed

lemma weight_push: "weight (push c t) = Suc (weight t)"
  by (cases t) simp

lemma total_len_prepend: "total_len (map (\<lambda>(k, b). (c # k, b)) g) = total_len g + length g"
  by (induction g) auto

lemma total_len_concat: "total_len (concat xss) = sum_list (map total_len xss)"
  by (induction xss) simp_all

lemma weight_groups:
  assumes gg: "good_groups es gs"
    and ih: "\<And>c g. (c, g) \<in> set gs \<Longrightarrow> weight (trie_of g) \<le> total_len g + length g"
  shows "sum_list (map (\<lambda>(c, t). Suc (weight t)) (map (\<lambda>z. (fst z, trie_of (snd z))) gs)) \<le>
    total_len es + length es"
proof -
  have e: "concat (map (\<lambda>(c, g). map (\<lambda>(k, b). (c # k, b)) g) gs) = es"
    using gg by (simp add: good_groups_def)
  have "Suc (weight (trie_of (snd z))) \<le> total_len (snd z) + length (snd z) + length (snd z)" if "z \<in> set gs" for z
    using ih[of "fst z" "snd z"] that gg by (cases "snd z") (auto simp: good_groups_def)
  then have "sum_list (map (\<lambda>z. Suc (weight (trie_of (snd z)))) gs) \<le>
      sum_list (map (\<lambda>z. total_len (snd z) + length (snd z) + length (snd z)) gs)"
    by (rule sum_list_mono)
  also have "\<dots> = total_len es + length es"
    unfolding e[symmetric] total_len_concat length_concat
    by (simp add: comp_def split_def sum_list_addf total_len_prepend[unfolded split_def])
  finally show ?thesis by (simp add: comp_def)
qed

lemma weight_trie_of: "ordered es \<Longrightarrow> weight (trie_of es) \<le> total_len es + length es"
proof (induction rule: trie_of_induct)
  case Nil
  show ?case by (subst trie_of.simps) (simp add: all_head_def)
next
  case (push c es)
  have "total_len (behead es) < total_len es"
    using push(2) by (intro total_len_behead_less) (auto simp: all_head_Some starts_with_def)
  then show ?case using push.IH by (simp add: trie_of_push[OF push(2)] weight_push)
next
  case (trm b es)
  then show ?case using weight_groups[OF trm(2)] trie_of_term[OF trm(1)] by simp
next
  case (branch es)
  then show ?case using weight_groups[OF branch(5)] trie_of_branch[OF branch(1-4)] by simp
qed

text \<open>All bytes of the trie come from the keys.\<close>

fun chars :: "trie \<Rightarrow> u8 set" where
  "chars (Node l tm ks) = set l \<union> (\<Union>(c, t) \<in> set ks. insert c (chars t))"

lemma flat_kid: "(c, t) \<in> set ks \<Longrightarrow> (k, b) \<in> set (flat t) \<Longrightarrow> (l @ c # k, b) \<in> set (flat (Node l tm ks))"
  by force

lemma wf_flat_nonempty: "wf_trie t \<Longrightarrow> flat t \<noteq> []"
proof (induction t)
  case (Node l tm ks)
  show ?case
  proof (cases tm)
    case None
    then obtain c t ks' where ks: "ks = (c, t) # ks'" using Node.prems by (cases ks) auto
    then have "flat t \<noteq> []" using Node.IH[of "(c, t)" t] Node.prems by simp
    then show ?thesis using ks None by simp
  qed simp
qed

text \<open>The bytes of a key list.\<close>

definition key_bytes_of :: "(u8 list \<times> bool) list \<Rightarrow> u8 set" where
  "key_bytes_of es = {c. \<exists>k b. (k, b) \<in> set es \<and> c \<in> set k}"

lemma key_bytes_ofI: "(k, b) \<in> set es \<Longrightarrow> set k \<subseteq> key_bytes_of es"
  by (auto simp: key_bytes_of_def)

lemma chars_flat: "wf_trie t \<Longrightarrow> chars t \<subseteq> key_bytes_of (flat t)"
proof (induction t)
  case (Node l tm ks)
  define F where "F = flat (Node l tm ks)"
  have kid: "set l \<subseteq> key_bytes_of F" "insert c (chars t) \<subseteq> key_bytes_of F" if ct: "(c, t) \<in> set ks" for c t
  proof -
    have wf: "wf_trie t" using Node.prems ct by auto
    have key: "set (l @ c # k) \<subseteq> key_bytes_of F" if "(k, b) \<in> set (flat t)" for k b
      using key_bytes_ofI[OF flat_kid[OF ct that, of l tm]] unfolding F_def .
    obtain k b where kb: "(k, b) \<in> set (flat t)" using wf_flat_nonempty[OF wf] by (cases "flat t") auto
    show "set l \<subseteq> key_bytes_of F" using key[OF kb] by simp
    have "chars t \<subseteq> key_bytes_of (flat t)" using Node.IH[OF ct, of t] wf by simp
    moreover have "key_bytes_of (flat t) \<subseteq> key_bytes_of F"
      using key unfolding key_bytes_of_def[of "flat t"] by auto
    ultimately show "insert c (chars t) \<subseteq> key_bytes_of F" using key[OF kb] by auto
  qed
  have "set l \<subseteq> key_bytes_of F"
  proof (cases tm)
    case None
    then obtain c t where "(c, t) \<in> set ks" using Node.prems by (cases ks) auto
    then show ?thesis by (rule kid)
  next
    case (Some b)
    then have "(l, b) \<in> set F" by (simp add: F_def)
    then show ?thesis by (rule key_bytes_ofI)
  qed
  then have "chars (Node l tm ks) \<subseteq> key_bytes_of F" using kid(2) by auto
  then show ?case by (simp only: F_def)
qed

lemma ser_push: "ser si vi (push c t) = chr_bits si c @ ser si vi t"
  by (cases t) simp

lemma nterms_push [simp]: "nterms (push c t) = nterms t"
  by (cases t) simp

end
