(* ===== verification/Trie_Write.thy ===== *)
theory Trie_Write
  imports Encoder Trie
begin

text \<open>
  Serialising the trie: \<open>varint_bits\<close>, \<open>trie_subtree_size\<close> and \<open>trie_write\<close> of
  \<open>src/core/encoder.c\<close>. The range \<open>entries[start..end)\<close> is passed as the list of its entries. Both
  functions recurse on one child after the other; the recursive call is handed to the loop over the
  children, and \<open>fuel\<close> bounds the depth (a computation that needs more is \<open>Diverge\<close>).
\<close>

section \<open>Scanning a range\<close>

text \<open>\<open>entries[i].key[common]\<close>: the NUL behind the key is readable, nothing beyond it.\<close>

definition key_char :: "tp_entry \<Rightarrow> nat \<Rightarrow> u8 tp" where
  "key_char e i = (if i < length (e_key e) then Ok (e_key e ! i) else Fault)"

text \<open>One round of the common-prefix loop: do all entries have the same byte at \<open>common\<close>?\<close>

fun all_have :: "nat \<Rightarrow> u8 option \<Rightarrow> tp_entry list \<Rightarrow> bool tp" where
  "all_have common ch [] = Ok True"
| "all_have common ch (e # es) =
     (if e_key_len e \<le> common then Ok False
      else rbind (key_char e common)
             (\<lambda>c. case ch of
                    None \<Rightarrow> all_have common (Some c) es
                  | Some d \<Rightarrow> if c \<noteq> d then Ok False else all_have common ch es))"

lemma all_have_True: "all_have common ch (e # es) = Ok True \<Longrightarrow> common < e_key_len e"
  by (auto split: if_splits)

text \<open>The loop does not end on an empty range; on others it stops at the first key's length.\<close>

function find_common :: "tp_entry list \<Rightarrow> nat \<Rightarrow> nat tp" where
  "find_common [] common = Diverge"
| "find_common (e # es) common =
     rbind (all_have common None (e # es))
       (\<lambda>b. if b then find_common (e # es) (common + 1) else Ok common)"
  by pat_completeness auto
termination
proof (relation "measure (\<lambda>(es, common). e_key_len (hd es) - common)", goal_cases)
  case 1
  then show ?case by simp
next
  case (2 e es common b)
  then show ?case using all_have_True[of common None e es] by auto
qed

text \<open>\<open>while (ce < end && key[common] == ch) ce++\<close>: the entries of the group, and those after it.\<close>

fun take_group :: "nat \<Rightarrow> u8 \<Rightarrow> tp_entry list \<Rightarrow> (tp_entry list \<times> tp_entry list) tp" where
  "take_group common ch [] = Ok ([], [])"
| "take_group common ch (e # es) =
     rbind (key_char e common)
       (\<lambda>c. if c = ch then rbind (take_group common ch es) (\<lambda>(g, r). Ok (e # g, r))
            else Ok ([], e # es))"

lemma take_group_shorter: "take_group common ch es = Ok (g, r) \<Longrightarrow> length r \<le> length es"
proof (induction es arbitrary: g r)
  case (Cons e es)
  then show ?case by (auto simp: rbind_eq_Ok le_SucI split: if_splits)
qed simp

function child_groups :: "nat \<Rightarrow> tp_entry list \<Rightarrow> tp_entry list list tp" where
  "child_groups common [] = Ok []"
| "child_groups common (e # es) =
     rbind (key_char e common)
       (\<lambda>ch. rbind (take_group common ch es)
         (\<lambda>gr. rbind (child_groups common (snd gr)) (\<lambda>gs. Ok ((e # fst gr) # gs))))"
  by pat_completeness auto
termination
proof (relation "measure (\<lambda>(common, es). length es)", goal_cases)
  case 1
  then show ?case by simp
next
  case (2 common e es ch gr)
  then show ?case using take_group_shorter[of common ch es "fst gr" "snd gr"] by simp
qed

section \<open>Sizes\<close>

function varint_bits :: "nat \<Rightarrow> nat" where
  "varint_bits val = (let val' = val div 128 in 8 + (if val' > 0 then varint_bits val' else 0))"
  by pat_completeness auto
termination by (relation "measure id") auto

declare varint_bits.simps [simp del]

text \<open>The value type of the entry decides between END and END_VAL.\<close>

definition has_value :: "bool \<Rightarrow> tp_entry \<Rightarrow> bool" where
  "has_value has_values e \<longleftrightarrow> has_values \<and> tp_type (e_val e) \<noteq> tp_type TP_NULL"

text \<open>The loop over the children; every child but the last is preceded by SKIP and its size.\<close>

fun size_children ::
  "(tp_entry list \<Rightarrow> nat \<Rightarrow> (nat \<times> nat) tp) \<Rightarrow> nat \<Rightarrow> tp_entry list list \<Rightarrow> nat \<Rightarrow> nat \<Rightarrow> (nat \<times> nat) tp" where
  "size_children sizer bps [] bits vi = Ok (bits, vi)"
| "size_children sizer bps (g # gs) bits vi =
     rbind (sizer g vi)
       (\<lambda>(child_sz, vi').
          if gs \<noteq> [] then size_children sizer bps gs (wrap64 (bits + bps + varint_bits child_sz + child_sz)) vi'
          else size_children sizer bps gs (wrap64 (bits + child_sz)) vi')"

fun trie_subtree_size ::
  "nat \<Rightarrow> tp_symbol_info \<Rightarrow> tp_entry list \<Rightarrow> nat \<Rightarrow> bool \<Rightarrow> nat \<Rightarrow> (nat \<times> nat) tp" where
  "trie_subtree_size 0 si es prefix_len has_values vi = Diverge"
| "trie_subtree_size (Suc fuel) si es prefix_len has_values vi =
     rbind (find_common es prefix_len) (\<lambda>common.
       let bps = s_bits_per_symbol si;
           bits = wrap64 ((common - prefix_len) * bps);
           has_terminal = (e_key_len (hd es) = common) in
       rbind (child_groups common (if has_terminal then tl es else es)) (\<lambda>gs.
         let bits1 = (if \<not> has_terminal then bits
                      else if has_value has_values (hd es) then wrap64 (bits + bps + varint_bits vi)
                      else wrap64 (bits + bps));
             vi1 = (if has_terminal then wrap32 (vi + 1) else vi) in
         if has_terminal \<and> gs = [] then Ok (bits1, vi1)
         else size_children (\<lambda>g v. trie_subtree_size fuel si g common has_values v) bps gs
                (wrap64 (bits1 + bps + varint_bits (length gs))) vi1))"

section \<open>Writing\<close>

definition write_code :: "nat \<Rightarrow> tp_symbol_info \<Rightarrow> nat \<Rightarrow> writing" where
  "write_code heap si code = tp_bs_write_bits heap (word_of_nat code) (s_bits_per_symbol si)"

type_synonym 'a write_returning = "tp_bitstream_writer \<Rightarrow> 'a tp \<times> tp_bitstream_writer"

fun write_children ::
  "nat \<Rightarrow> tp_symbol_info \<Rightarrow> (tp_entry list \<Rightarrow> nat \<Rightarrow> (nat \<times> nat) tp) \<Rightarrow>
   (tp_entry list \<Rightarrow> nat \<Rightarrow> nat write_returning) \<Rightarrow> tp_entry list list \<Rightarrow> nat \<Rightarrow> nat write_returning" where
  "write_children heap si sizer wr [] vi = sret vi"
| "write_children heap si sizer wr (g # gs) vi =
     sbind (if gs \<noteq> [] then
              sbind (slift (sizer g vi)) (\<lambda>(child_sz, _).
                sbind (write_code heap si (ctrl_code si TP_CTRL_SKIP)) (\<lambda>_.
                  tp_bs_write_varint_u heap (word_of_nat child_sz)))
            else sret ())
       (\<lambda>_. sbind (wr g vi) (\<lambda>vi'. write_children heap si sizer wr gs vi'))"

fun trie_write ::
  "nat \<Rightarrow> nat \<Rightarrow> tp_symbol_info \<Rightarrow> tp_entry list \<Rightarrow> nat \<Rightarrow> bool \<Rightarrow> nat \<Rightarrow> nat write_returning" where
  "trie_write 0 heap si es prefix_len has_values vi = slift Diverge"
| "trie_write (Suc fuel) heap si es prefix_len has_values vi =
     sbind (slift (find_common es prefix_len)) (\<lambda>common.
     sbind (for_each (\<lambda>i. sbind (slift (key_char (hd es) i))
              (\<lambda>ch. write_code heap si (symbol_code si ch))) [prefix_len..<common]) (\<lambda>_.
       let has_terminal = (e_key_len (hd es) = common) in
     sbind (slift (child_groups common (if has_terminal then tl es else es))) (\<lambda>gs.
     sbind (if \<not> has_terminal then sret ()
            else if has_value has_values (hd es) then
              sbind (write_code heap si (ctrl_code si TP_CTRL_END_VAL))
                (\<lambda>_. tp_bs_write_varint_u heap (word_of_nat vi))
            else write_code heap si (ctrl_code si TP_CTRL_END)) (\<lambda>_.
       let vi1 = (if has_terminal then wrap32 (vi + 1) else vi) in
       if gs = [] then sret vi1
       else
         sbind (write_code heap si (ctrl_code si TP_CTRL_BRANCH)) (\<lambda>_.
         sbind (tp_bs_write_varint_u heap (word_of_nat (length gs))) (\<lambda>_.
           write_children heap si (\<lambda>g v. trie_subtree_size fuel si g common has_values v)
             (\<lambda>g v. trie_write fuel heap si g common has_values v) gs vi1))))))"

section \<open>A range of entries as a key list\<close>

definition rest :: "bool \<Rightarrow> nat \<Rightarrow> tp_entry list \<Rightarrow> (u8 list \<times> bool) list" where
  "rest hv c es = map (\<lambda>e. (drop c (entry_key e), has_value hv e)) es"

text \<open>What every call is made with: intact key blocks, the first \<open>c\<close> bytes consumed, the remaining
  keys in strict order.\<close>

definition range_ok :: "bool \<Rightarrow> nat \<Rightarrow> tp_entry list \<Rightarrow> bool" where
  "range_ok hv c es \<longleftrightarrow> (\<forall>e \<in> set es. entry_ok e \<and> c \<le> e_key_len e) \<and> ordered (rest hv c es)"

lemma rest_simps [simp]: "rest hv c [] = []" "length (rest hv c es) = length es"
  "rest hv c (e # es) = (drop c (entry_key e), has_value hv e) # rest hv c es"
  "rest hv c (xs @ ys) = rest hv c xs @ rest hv c ys" "rest hv c es = [] \<longleftrightarrow> es = []"
  by (simp_all add: rest_def)

lemma set_rest: "set (rest hv c es) = (\<lambda>e. (drop c (entry_key e), has_value hv e)) ` set es"
  by (simp add: rest_def)

lemma behead_rest: "behead (rest hv c es) = rest hv (Suc c) es"
  by (auto simp: behead_def rest_def tl_drop[symmetric] drop_Suc)

lemma key_char_ok: "entry_ok e \<Longrightarrow> c < e_key_len e \<Longrightarrow> key_char e c = Ok (entry_key e ! c)"
  by (simp add: key_char_def entry_ok_def entry_key_def)

lemma starts_with_rest:
  "entry_ok e \<Longrightarrow> starts_with d (drop c (entry_key e), b) \<longleftrightarrow> c < e_key_len e \<and> entry_key e ! c = d"
  by (auto simp: starts_with_def hd_drop_conv_nth)

lemma all_have_starts:
  "\<forall>e \<in> set es. entry_ok e \<Longrightarrow>
   all_have c (Some d) es = Ok (\<forall>x \<in> set (rest hv c es). starts_with d x)"
  by (induction es) (auto simp: key_char_ok starts_with_rest)

lemma all_have_head:
  assumes "\<forall>e \<in> set es. entry_ok e" and "es \<noteq> []"
  shows "all_have c None es = Ok (all_head (rest hv c es) \<noteq> None)"
proof (cases es)
  case (Cons e r)
  have ok: "entry_ok e" "\<forall>e \<in> set r. entry_ok e" using assms Cons by simp_all
  show ?thesis
  proof (cases "e_key_len e \<le> c")
    case True
    then have "drop c (entry_key e) = []" using ok by simp
    then show ?thesis using True Cons by (simp add: all_head_def)
  next
    case False
    then have k: "key_char e c = Ok (entry_key e ! c)" using ok by (simp add: key_char_ok)
    have "all_head (rest hv c es) \<noteq> None \<longleftrightarrow> (\<exists>d. \<forall>x \<in> set (rest hv c es). starts_with d x)"
      using assms(2) all_head_Some[of "rest hv c es"] by auto
    also have "\<dots> \<longleftrightarrow> (\<forall>x \<in> set (rest hv c r). starts_with (entry_key e ! c) x)"
      using Cons ok False by (auto simp: starts_with_rest)
    finally show ?thesis using Cons k False all_have_starts[OF ok(2), of c "entry_key e ! c" hv] by simp
  qed
qed (use assms in simp)

lemma range_tail_nonterminal:
  assumes "range_ok hv c es" and "e \<in> set (tl es)" shows "c < e_key_len e"
proof -
  have "(drop c (entry_key e), has_value hv e) \<in> set (tl (rest hv c es))"
    using assms(2) by (cases es) (auto simp: set_rest)
  then have "drop c (entry_key e) \<noteq> []"
    using ordered_tl_nonempty[of "rest hv c es"] assms(1) by (fastforce simp: range_ok_def)
  moreover have "entry_ok e" using assms by (cases es) (auto simp: range_ok_def)
  ultimately show ?thesis by simp
qed

section \<open>The common prefix\<close>

lemma range_ok_Suc:
  assumes "range_ok hv c es" and "all_head (rest hv c es) = Some d" shows "range_ok hv (Suc c) es"
proof -
  have s: "\<forall>x \<in> set (rest hv c es). starts_with d x" using assms(2) by (simp add: all_head_Some)
  then have "ordered (rest hv (Suc c) es)"
    using ordered_behead[of "rest hv c es" d] assms(1) by (simp add: range_ok_def behead_rest)
  moreover have "\<forall>e \<in> set es. Suc c \<le> e_key_len e"
    using s assms(1) by (auto simp: set_rest range_ok_def starts_with_rest)
  ultimately show ?thesis using assms(1) by (simp add: range_ok_def)
qed

lemma find_common_ok:
  assumes "range_ok hv p es" and "es \<noteq> []"
  shows "\<exists>c. find_common es p = Ok c \<and> p \<le> c \<and> range_ok hv c es \<and> all_head (rest hv c es) = None \<and>
    trie_of (rest hv p es) =
      (case trie_of (rest hv c es) of Node l tm ks \<Rightarrow> Node (take (c - p) (drop p (entry_key (hd es))) @ l) tm ks)"
  using assms
proof (induction es p rule: find_common.induct)
  case (2 e es p)
  have ok: "\<forall>x \<in> set (e # es). entry_ok x" using "2.prems" by (simp add: range_ok_def)
  note step = all_have_head[OF ok, of p hv]
  show ?case
  proof (cases "all_head (rest hv p (e # es))")
    case None
    then show ?thesis using step "2.prems" by (auto split: trie.split)
  next
    case (Some d)
    have ro: "range_ok hv (Suc p) (e # es)" using range_ok_Suc[OF "2.prems"(1) Some] .
    have b: "all_have p None (e # es) = Ok True" using step Some by simp
    have "\<exists>c. find_common (e # es) (Suc p) = Ok c \<and> Suc p \<le> c \<and> range_ok hv c (e # es) \<and>
      all_head (rest hv c (e # es)) = None \<and> trie_of (rest hv (Suc p) (e # es)) =
      (case trie_of (rest hv c (e # es)) of Node l tm ks \<Rightarrow>
        Node (take (c - Suc p) (drop (Suc p) (entry_key (hd (e # es)))) @ l) tm ks)"
      using "2.IH"[OF b TrueI] ro unfolding Suc_eq_plus1 by blast
    then obtain c where c: "find_common (e # es) (Suc p) = Ok c" "Suc p \<le> c" "range_ok hv c (e # es)"
      "all_head (rest hv c (e # es)) = None" "trie_of (rest hv (Suc p) (e # es)) =
      (case trie_of (rest hv c (e # es)) of Node l tm ks \<Rightarrow>
        Node (take (c - Suc p) (drop (Suc p) (entry_key (hd (e # es)))) @ l) tm ks)" by blast
    have len: "p < length (entry_key e)" using ro ok by (simp add: range_ok_def)
    have d: "d = entry_key e ! p"
      using Some ok by (auto simp: all_head_Some starts_with_rest)
    have "take (c - p) (drop p (entry_key e)) = d # take (c - Suc p) (drop (Suc p) (entry_key e))"
      using len c(2) d by (simp add: Cons_nth_drop_Suc[symmetric] take_Cons' Suc_diff_le)
    moreover have "trie_of (rest hv p (e # es)) = push d (trie_of (rest hv (Suc p) (e # es)))"
      using trie_of_push[OF Some] by (simp only: behead_rest)
    moreover have "find_common (e # es) p = Ok c"
      using c(1) unfolding find_common.simps(2)[of e es p] b by simp
    ultimately show ?thesis using c
      by (intro exI[of _ c]) (simp del: find_common.simps rest_simps split: trie.splits)
  qed
qed simp

section \<open>The children\<close>

lemma take_group_ok:
  assumes "\<forall>e \<in> set es. entry_ok e \<and> c < e_key_len e"
  shows "take_group c d es =
    Ok (takeWhile (\<lambda>e. entry_key e ! c = d) es, dropWhile (\<lambda>e. entry_key e ! c = d) es)"
  using assms by (induction es) (simp_all add: key_char_ok)

lemma rest_takeWhile:
  assumes "\<forall>e \<in> set es. entry_ok e \<and> c < e_key_len e"
  shows "takeWhile (starts_with d) (rest hv c es) = rest hv c (takeWhile (\<lambda>e. entry_key e ! c = d) es)"
    "dropWhile (starts_with d) (rest hv c es) = rest hv c (dropWhile (\<lambda>e. entry_key e ! c = d) es)"
  using assms by (induction es) (simp_all add: starts_with_rest)

lemma child_groups_ok:
  assumes "\<forall>e \<in> set es. entry_ok e \<and> c < e_key_len e"
  shows "\<exists>gs. child_groups c es = Ok gs \<and> concat gs = es \<and>
    groups (rest hv c es) = map (\<lambda>g. (entry_key (hd g) ! c, rest hv (Suc c) g)) gs \<and>
    (\<forall>g \<in> set gs. g \<noteq> [] \<and> (\<forall>e \<in> set g. entry_key e ! c = entry_key (hd g) ! c))"
  using assms
proof (induction "length es" arbitrary: es rule: less_induct)
  case less
  show ?case
  proof (cases es)
    case (Cons e r)
    let ?d = "entry_key e ! c" let ?t = "takeWhile (\<lambda>e. entry_key e ! c = ?d) r"
      and ?r = "dropWhile (\<lambda>e. entry_key e ! c = ?d) r"
    have e: "entry_ok e" "c < e_key_len e" and r: "\<forall>e \<in> set r. entry_ok e \<and> c < e_key_len e"
      using less.prems Cons by simp_all
    have dr: "\<forall>e \<in> set ?r. entry_ok e \<and> c < e_key_len e" using r by (auto dest: set_dropWhileD)
    have "length ?r < length es" using Cons length_dropWhile_le[of _ r] by (simp add: le_imp_less_Suc)
    then obtain gs where gs: "child_groups c ?r = Ok gs" "concat gs = ?r"
        "groups (rest hv c ?r) = map (\<lambda>g. (entry_key (hd g) ! c, rest hv (Suc c) g)) gs"
        "\<forall>g \<in> set gs. g \<noteq> [] \<and> (\<forall>e \<in> set g. entry_key e ! c = entry_key (hd g) ! c)"
      using less.hyps[of ?r] dr by blast
    have 1: "child_groups c es = Ok ((e # ?t) # gs)"
      using Cons gs(1) take_group_ok[OF r] e by (simp add: key_char_ok)
    have "groups (rest hv c es) = (?d, rest hv (Suc c) (e # ?t)) # groups (rest hv c ?r)"
    proof -
      have "hd (drop c (entry_key e)) = ?d" using e by (simp add: hd_drop_conv_nth)
      then show ?thesis
        using Cons rest_takeWhile[OF r, of ?d hv] behead_rest[of hv c "e # ?t"] by simp
    qed
    then have 2: "groups (rest hv c es) = map (\<lambda>g. (entry_key (hd g) ! c, rest hv (Suc c) g)) ((e # ?t) # gs)"
      unfolding gs(3) by simp
    have 3: "\<forall>x \<in> set (e # ?t). entry_key x ! c = ?d" by (auto dest: set_takeWhileD)
    have 4: "concat ((e # ?t) # gs) = es" unfolding concat.simps gs(2) using Cons by simp
    have "\<forall>g \<in> set ((e # ?t) # gs). g \<noteq> [] \<and> (\<forall>e \<in> set g. entry_key e ! c = entry_key (hd g) ! c)"
    proof
      fix g assume "g \<in> set ((e # ?t) # gs)"
      then consider "g = e # ?t" | "g \<in> set gs" by auto
      then show "g \<noteq> [] \<and> (\<forall>e \<in> set g. entry_key e ! c = entry_key (hd g) ! c)"
      proof cases
        case 1
        show ?thesis using 3 unfolding 1 list.sel(1) by blast
      next
        case 2
        then show ?thesis using gs(4) by blast
      qed
    qed
    then show ?thesis using 1 2 4 by blast
  qed simp
qed

section \<open>The shape of a call\<close>

text \<open>What both functions find in their range: the common prefix, a terminal or not, the groups of
  the children; and the trie of the range put together from the tries of the groups.\<close>

definition group_ok :: "bool \<Rightarrow> nat \<Rightarrow> tp_entry list \<Rightarrow> bool" where
  "group_ok hv c g \<longleftrightarrow> g \<noteq> [] \<and> range_ok hv c g \<and>
     trie_of (rest hv c g) = push (entry_key (hd g) ! c) (trie_of (rest hv (Suc c) g))"

lemma group_okI:
  assumes r: "range_ok hv c es" and g: "g \<noteq> []" "\<forall>e \<in> set g. entry_key e ! c = entry_key (hd g) ! c"
    and ge: "concat gs = es" "g \<in> set gs" and lt: "\<forall>e \<in> set es. c < e_key_len e"
  shows "group_ok hv c g"
proof -
  obtain xs ys where gs: "gs = xs @ g # ys" using ge(2) by (meson split_list)
  have es: "es = concat xs @ g @ concat ys" using ge(1) gs by simp
  have ro: "range_ok hv c g" using r es by (auto simp: range_ok_def ordered_append)
  let ?d = "entry_key (hd g) ! c"
  have "\<forall>x \<in> set (rest hv c g). starts_with ?d x"
  proof
    fix x assume "x \<in> set (rest hv c g)"
    then obtain e where e: "e \<in> set g" "x = (drop c (entry_key e), has_value hv e)" by (auto simp: set_rest)
    then have "entry_ok e" "c < e_key_len e" using ro lt es by (auto simp: range_ok_def)
    then show "starts_with ?d x" using starts_with_rest g(2) e by blast
  qed
  then have "all_head (rest hv c g) = Some ?d" using g(1) by (simp add: all_head_Some)
  then show ?thesis using trie_of_push ro g(1) by (simp add: group_ok_def behead_rest)
qed

lemma range_shape:
  assumes "range_ok hv p es" and "es \<noteq> []"
  shows "\<exists>c gs. find_common es p = Ok c \<and> p \<le> c \<and> c \<le> e_key_len (hd es) \<and>
    child_groups c (if e_key_len (hd es) = c then tl es else es) = Ok gs \<and>
    (\<forall>g \<in> set gs. group_ok hv c g) \<and> (e_key_len (hd es) \<noteq> c \<longrightarrow> gs \<noteq> []) \<and>
    length (concat gs) \<le> length es \<and>
    trie_of (rest hv p es) = Node (take (c - p) (drop p (entry_key (hd es))))
      (if e_key_len (hd es) = c then Some (has_value hv (hd es)) else None)
      (map (\<lambda>g. (entry_key (hd g) ! c, trie_of (rest hv (Suc c) g))) gs)"
proof -
  obtain c where c: "find_common es p = Ok c" "p \<le> c" "range_ok hv c es" "all_head (rest hv c es) = None"
    "trie_of (rest hv p es) = (case trie_of (rest hv c es) of Node l tm ks \<Rightarrow>
        Node (take (c - p) (drop p (entry_key (hd es))) @ l) tm ks)"
    using find_common_ok[OF assms] by blast
  obtain e r where es: "es = e # r" using assms(2) by (cases es) auto
  have hd: "hd es = e" "tl es = r" using es by simp_all
  have e: "entry_ok e" "c \<le> e_key_len e" using c(3) es by (simp_all add: range_ok_def)
  have od: "ordered (rest hv c es)" using c(3) by (simp add: range_ok_def)
  let ?cs = "if e_key_len e = c then r else es"
  have lt: "\<forall>x \<in> set ?cs. entry_ok x \<and> c < e_key_len x"
    using range_tail_nonterminal[OF c(3)] c(3) es by (auto simp: range_ok_def)
  obtain gs where gs: "child_groups c ?cs = Ok gs" "concat gs = ?cs"
    "groups (rest hv c ?cs) = map (\<lambda>g. (entry_key (hd g) ! c, rest hv (Suc c) g)) gs"
    "\<forall>g \<in> set gs. g \<noteq> [] \<and> (\<forall>e \<in> set g. entry_key e ! c = entry_key (hd g) ! c)"
    using child_groups_ok[OF lt, of hv] by blast
  have rcs: "range_ok hv c ?cs" using c(3) es by (auto simp: range_ok_def ordered_Cons)
  have ltcs: "\<forall>x \<in> set ?cs. c < e_key_len x" using lt by blast
  have gok: "\<forall>g \<in> set gs. group_ok hv c g"
    using group_okI[OF rcs _ _ gs(2) _ ltcs] gs(4) by blast
  have ne: "e_key_len e \<noteq> c \<longrightarrow> gs \<noteq> []" using gs(2) es by auto
  have "trie_of (rest hv c es) = Node [] (if e_key_len e = c then Some (has_value hv e) else None)
      (map (\<lambda>g. (entry_key (hd g) ! c, trie_of (rest hv (Suc c) g))) gs)"
  proof (cases "e_key_len e = c")
    case True
    have "fst (hd (rest hv c es)) = []" using True e es by simp
    from trie_of_term[OF od _ this] show ?thesis using True es gs(3) by (simp add: comp_def)
  next
    case False
    have "fst (hd (rest hv c es)) \<noteq> []" using False e es by simp
    moreover have "rest hv c es \<noteq> []" using assms(2) by simp
    ultimately have t: "trie_of (rest hv c es) =
        Node [] None (map (\<lambda>z. (fst z, trie_of (snd z))) (groups (rest hv c es)))"
      using trie_of_branch[OF od _ _ c(4)] by blast
    have "groups (rest hv c es) = map (\<lambda>g. (entry_key (hd g) ! c, rest hv (Suc c) g)) gs"
      using gs(3) False by (simp only: if_False)
    then show ?thesis unfolding t using False by (simp add: comp_def)
  qed
  then have t: "trie_of (rest hv p es) = Node (take (c - p) (drop p (entry_key e)))
      (if e_key_len e = c then Some (has_value hv e) else None)
      (map (\<lambda>g. (entry_key (hd g) ! c, trie_of (rest hv (Suc c) g))) gs)"
    unfolding c(5) hd by (simp only: trie.case append_Nil2)
  have len: "length (concat gs) \<le> length es" using es gs(2) by auto
  show ?thesis unfolding hd using c(1,2) e(2) gs(1) gok ne t len by blast
qed

section \<open>The dry run computes the size\<close>

lemma varint_bits_bytes: "varint_bits (unat (v :: u64)) = 8 * length (varint_bytes v)"
proof (induction v rule: varint_bytes.induct)
  case (1 v)
  show ?case
  proof (cases "drop_bit 7 v = 0")
    case True
    then have "unat v div 128 = 0" by (metis unat_0 unat_drop_bit_7)
    then show ?thesis using True by (subst varint_bits.simps, subst varint_bytes.simps) simp
  next
    case False
    then have "unat v div 128 \<noteq> 0" by (metis unat_drop_bit_7 unat_eq_zero)
    then show ?thesis using 1[OF False] False unfolding unat_drop_bit_7
      by (subst varint_bits.simps, subst varint_bytes.simps) simp
  qed
qed

lemma varint_bits_num: "n < 18446744073709551616 \<Longrightarrow> varint_bits n = length (num_bits n)"
  using varint_bits_bytes[of "word_of_nat n"]
  by (simp add: num_bits_def length_varint_enc unsigned_of_nat take_bit_nat_eq_self)

text \<open>The tries of the groups, as children of a node.\<close>

definition group_tries :: "bool \<Rightarrow> nat \<Rightarrow> tp_entry list list \<Rightarrow> (u8 \<times> trie) list" where
  "group_tries hv c gs = map (\<lambda>g. (entry_key (hd g) ! c, trie_of (rest hv (Suc c) g))) gs"

lemma group_tries_simps [simp]:
  "group_tries hv c [] = []" "group_tries hv c gs = [] \<longleftrightarrow> gs = []"
  "group_tries hv c (g # gs) = (entry_key (hd g) ! c, trie_of (rest hv (Suc c) g)) # group_tries hv c gs"
  "length (group_tries hv c gs) = length gs"
  by (simp_all add: group_tries_def)

lemma ser_group:
  assumes "group_ok hv c g"
  shows "chr_bits si (entry_key (hd g) ! c) @ ser si vi (trie_of (rest hv (Suc c) g)) =
      ser si vi (trie_of (rest hv c g))"
    and "nterms (trie_of (rest hv (Suc c) g)) = nterms (trie_of (rest hv c g))"
  using assms by (simp_all add: group_ok_def ser_push)

definition kids_terms :: "(u8 \<times> trie) list \<Rightarrow> nat" where
  "kids_terms ks = sum_list (map (\<lambda>(c, t). nterms t) ks)"

lemma size_children_ok:
  assumes "\<forall>g \<in> set gs. group_ok hv c g"
    and "\<And>g v. g \<in> set gs \<Longrightarrow> v + nterms (trie_of (rest hv c g)) < 4294967296 \<Longrightarrow>
      length (ser si v (trie_of (rest hv c g))) < 18446744073709551616 \<Longrightarrow>
      sizer g v = Ok (length (ser si v (trie_of (rest hv c g))), v + nterms (trie_of (rest hv c g)))"
    and "vi + kids_terms (group_tries hv c gs) < 4294967296"
    and "bits + length (ser_kids si vi (group_tries hv c gs)) < 18446744073709551616"
  shows "size_children sizer (s_bits_per_symbol si) gs bits vi =
    Ok (bits + length (ser_kids si vi (group_tries hv c gs)), vi + kids_terms (group_tries hv c gs))"
  using assms
proof (induction gs arbitrary: bits vi)
  case Nil
  then show ?case by (simp add: kids_terms_def)
next
  case (Cons g gs)
  let ?t = "trie_of (rest hv c g)"
  let ?sz = "length (ser si vi ?t)"
  have g: "group_ok hv c g" using Cons.prems(1) by simp
  note sg = ser_group[OF g]
  have kt: "kids_terms (group_tries hv c (g # gs)) = nterms ?t + kids_terms (group_tries hv c gs)"
    using sg(2) by (simp add: kids_terms_def)
  let ?head = "if gs = [] then [] else ctl_bits si TP_CTRL_SKIP @ num_bits ?sz"
  have sk: "ser_kids si vi (group_tries hv c (g # gs)) =
      ?head @ ser si vi ?t @ ser_kids si (vi + nterms ?t) (group_tries hv c gs)"
    using sg(1)[of si vi] sg(2) by simp
  have sz: "?sz < 18446744073709551616" using Cons.prems(4) unfolding sk by simp
  have "sizer g vi = Ok (?sz, vi + nterms ?t)"
    using Cons.prems(2)[of g vi] Cons.prems(3) sz unfolding kt by simp
  moreover have "size_children sizer (s_bits_per_symbol si) gs
      (bits + (length ?head + ?sz)) (vi + nterms ?t) =
      Ok (bits + (length ?head + ?sz) + length (ser_kids si (vi + nterms ?t) (group_tries hv c gs)),
        vi + nterms ?t + kids_terms (group_tries hv c gs))"
    using Cons.IH[of "vi + nterms ?t" "bits + (length ?head + ?sz)"] Cons.prems unfolding kt sk by simp
  moreover have "wrap64 (bits + (length ?head + ?sz)) = bits + (length ?head + ?sz)"
    using Cons.prems(4) unfolding sk by simp
  ultimately show ?case
    unfolding kt sk by (cases "gs = []") (simp_all add: varint_bits_num[OF sz] add.assoc)
qed

lemma depth_groups_le:
  assumes "depth (Node l tm (group_tries hv c gs)) \<le> Suc fuel" and "g \<in> set gs" and "group_ok hv c g"
  shows "depth (trie_of (rest hv c g)) \<le> fuel"
  using assms by (auto simp: group_tries_def fold_max_le group_ok_def)

lemma nterms_range: "range_ok hv p es \<Longrightarrow> nterms (trie_of (rest hv p es)) = length es"
  by (simp add: nterms_flat flat_trie_of range_ok_def)

lemma length_groups_le: "\<forall>g \<in> set gs. group_ok hv c g \<Longrightarrow> length gs \<le> length (concat gs)"
proof (induction gs)
  case (Cons g gs)
  then have "1 \<le> length g" by (cases g) (simp_all add: group_ok_def)
  moreover have "length gs \<le> length (concat gs)" using Cons by simp
  ultimately show ?case by simp
qed simp

lemma trie_subtree_size_ok:
  assumes "depth (trie_of (rest hv p es)) \<le> fuel" and "range_ok hv p es" and "es \<noteq> []"
    and "vi + nterms (trie_of (rest hv p es)) < 4294967296"
    and "length (ser si vi (trie_of (rest hv p es))) < 18446744073709551616"
  shows "trie_subtree_size fuel si es p hv vi =
    Ok (length (ser si vi (trie_of (rest hv p es))), vi + nterms (trie_of (rest hv p es)))"
  using assms
proof (induction fuel arbitrary: es p vi)
  case 0
  then show ?case by (cases "trie_of (rest hv p es)") simp
next
  case (Suc fuel)
  obtain c gs where sh: "find_common es p = Ok c" "p \<le> c" "c \<le> e_key_len (hd es)"
    "child_groups c (if e_key_len (hd es) = c then tl es else es) = Ok gs"
    "\<forall>g \<in> set gs. group_ok hv c g" "e_key_len (hd es) \<noteq> c \<longrightarrow> gs \<noteq> []" "length (concat gs) \<le> length es"
    "trie_of (rest hv p es) = Node (take (c - p) (drop p (entry_key (hd es))))
      (if e_key_len (hd es) = c then Some (has_value hv (hd es)) else None) (group_tries hv c gs)"
    using range_shape[OF Suc.prems(2,3)] unfolding group_tries_def by blast
  let ?l = "take (c - p) (drop p (entry_key (hd es)))" and ?ks = "group_tries hv c gs"
    and ?bps = "s_bits_per_symbol si"
  let ?tm = "if e_key_len (hd es) = c then Some (has_value hv (hd es)) else None"
  have hd: "entry_ok (hd es)" using Suc.prems(2,3) by (cases es) (auto simp: range_ok_def)
  have ll: "length (concat (map (chr_bits si) ?l)) = (c - p) * ?bps"
  proof -
    have "length ?l = c - p" using hd sh(2,3) by simp
    then show ?thesis unfolding length_concat_chr by (simp only: mult.commute)
  qed
  have gl: "length gs < 18446744073709551616"
    using length_groups_le[OF sh(5)] sh(7) Suc.prems(4) nterms_range[OF Suc.prems(2)] by simp
  have vl: "vi < 4294967296" using Suc.prems(4) by simp
  have kids: "size_children (\<lambda>g v. trie_subtree_size fuel si g c hv v) ?bps gs b v =
      Ok (b + length (ser_kids si v ?ks), v + kids_terms ?ks)"
    if "v + kids_terms ?ks < 4294967296" "b + length (ser_kids si v ?ks) < 18446744073709551616" for b v
    using size_children_ok[OF sh(5) _ that] Suc.IH depth_groups_le[OF Suc.prems(1)[unfolded sh(8)]] sh(5)
    by (simp add: group_ok_def)
  have nt: "nterms (trie_of (rest hv p es)) = (if ?tm = None then 0 else 1) + kids_terms ?ks"
    unfolding sh(8) by (simp add: kids_terms_def)
  have kt: "sum_list (map (\<lambda>(c, t). nterms t) ?ks) = kids_terms ?ks" by (simp add: kids_terms_def)
  show ?case
  proof (cases "gs = []")
    case True
    then have tm: "e_key_len (hd es) = c" using sh(6) by blast
    show ?thesis
      using Suc.prems(4,5) ll sh(1,4) tm True vl unfolding nt sh(8)
      by (cases "has_value hv (hd es)")
         (simp_all add: term_bits_def varint_bits_num kids_terms_def Let_def add.assoc)
  next
    case False
    show ?thesis
      using Suc.prems(4,5) ll sh(1,4) False vl gl kids unfolding nt sh(8)
      by (cases "e_key_len (hd es) = c"; cases "has_value hv (hd es)")
         (simp_all add: term_bits_def varint_bits_num Let_def kt add.assoc)
  qed
qed

section \<open>Writing appends the bit string\<close>

lemma write_code_writes:
  "writer_ok heap w \<Longrightarrow> 1 \<le> s_bits_per_symbol si \<Longrightarrow> s_bits_per_symbol si \<le> 15 \<Longrightarrow>
   yields heap (write_code heap si code) w (code_bits si code) ()"
  using write_bits_writes[of heap w "s_bits_per_symbol si" "word_of_nat code"]
  by (simp add: yields_unit write_code_def code_bits_def)

lemma write_num_yields: "writer_ok heap w \<Longrightarrow> yields heap (tp_bs_write_varint_u heap (word_of_nat n)) w (num_bits n) ()"
  using varint.wr_exact by (simp add: yields_unit num_bits_def)

text \<open>Two fields in a row, the second after any appended bits.\<close>

lemma yields_seq:
  assumes "yields heap m w xs ()" and "\<And>w. writer_ok heap w \<Longrightarrow> yields heap n w ys b"
  shows "yields heap (sbind m (\<lambda>_. n)) w (xs @ ys) b"
  using assms by (intro yields_sbind) (auto dest: appended_ok)

lemma write_children_yields:
  assumes bps: "1 \<le> s_bits_per_symbol si" "s_bits_per_symbol si \<le> 15"
    and "\<forall>g \<in> set gs. group_ok hv c g"
    and sz: "\<And>g v. g \<in> set gs \<Longrightarrow> v + nterms (trie_of (rest hv c g)) < 4294967296 \<Longrightarrow>
      length (ser si v (trie_of (rest hv c g))) < 18446744073709551616 \<Longrightarrow>
      sizer g v = Ok (length (ser si v (trie_of (rest hv c g))), v + nterms (trie_of (rest hv c g)))"
    and wr: "\<And>g v w. g \<in> set gs \<Longrightarrow> writer_ok heap w \<Longrightarrow> v + nterms (trie_of (rest hv c g)) < 4294967296 \<Longrightarrow>
      length (ser si v (trie_of (rest hv c g))) < 18446744073709551616 \<Longrightarrow>
      yields heap (wr g v) w (ser si v (trie_of (rest hv c g))) (v + nterms (trie_of (rest hv c g)))"
    and "vi + kids_terms (group_tries hv c gs) < 4294967296"
    and "length (ser_kids si vi (group_tries hv c gs)) < 18446744073709551616"
    and "writer_ok heap w"
  shows "yields heap (write_children heap si sizer wr gs vi) w (ser_kids si vi (group_tries hv c gs))
    (vi + kids_terms (group_tries hv c gs))"
  using assms(3-)
proof (induction gs arbitrary: vi w)
  case Nil
  then show ?case by (simp add: kids_terms_def yields_sret del: sret_apply)
next
  case (Cons g gs)
  let ?t = "trie_of (rest hv c g)"
  let ?sz = "length (ser si vi ?t)"
  have g: "group_ok hv c g" using Cons.prems(1) by simp
  note sg = ser_group[OF g]
  have kt: "kids_terms (group_tries hv c (g # gs)) = nterms ?t + kids_terms (group_tries hv c gs)"
    using sg(2) by (simp add: kids_terms_def)
  let ?head = "if gs = [] then [] else ctl_bits si TP_CTRL_SKIP @ num_bits ?sz"
  have sk: "ser_kids si vi (group_tries hv c (g # gs)) =
      ?head @ ser si vi ?t @ ser_kids si (vi + nterms ?t) (group_tries hv c gs)"
    using sg(1)[of si vi] sg(2) by simp
  have sz: "?sz < 18446744073709551616" using Cons.prems(5) unfolding sk by simp
  have s: "sizer g vi = Ok (?sz, vi + nterms ?t)"
    using Cons.prems(2)[of g vi] Cons.prems(4) sz unfolding kt by simp
  have 1: "yields heap (if gs \<noteq> [] then
              sbind (slift (sizer g vi)) (\<lambda>(child_sz, _).
                sbind (write_code heap si (ctrl_code si TP_CTRL_SKIP)) (\<lambda>_.
                  tp_bs_write_varint_u heap (word_of_nat child_sz)))
            else sret ()) w ?head ()"
    using yields_seq[OF write_code_writes[OF Cons.prems(6) bps] write_num_yields] Cons.prems(6)
    by (simp add: s ctl_bits_def yields_sret del: sret_apply)
  have 2: "yields heap (wr g vi) w' (ser si vi ?t) (vi + nterms ?t)" if "writer_ok heap w'" for w'
    using Cons.prems(3)[of g w' vi] Cons.prems(4) sz that unfolding kt by simp
  have 3: "yields heap (write_children heap si sizer wr gs (vi + nterms ?t)) w'
      (ser_kids si (vi + nterms ?t) (group_tries hv c gs))
      (vi + nterms ?t + kids_terms (group_tries hv c gs))" if "writer_ok heap w'" for w'
    using Cons.IH[of "vi + nterms ?t" w'] Cons.prems that unfolding kt sk by simp
  have 4: "yields heap (sbind (wr g vi) (write_children heap si sizer wr gs)) w'
      (ser si vi ?t @ ser_kids si (vi + nterms ?t) (group_tries hv c gs))
      (vi + nterms ?t + kids_terms (group_tries hv c gs))" if "writer_ok heap w'" for w'
  proof (rule yields_sbind[where f = "write_children heap si sizer wr gs", OF 2[OF that]])
    fix w'' assume "appended heap w' (ser si vi ?t) w''"
    then show "yields heap (write_children heap si sizer wr gs (vi + nterms ?t)) w''
      (ser_kids si (vi + nterms ?t) (group_tries hv c gs))
      (vi + nterms ?t + kids_terms (group_tries hv c gs))" by (intro 3) (rule appended_ok)
  qed
  show ?case
    using yields_seq[OF 1 4] unfolding kt sk by (simp add: add.assoc split del: if_split)
qed

lemma label_loop_yields:
  assumes bps: "1 \<le> s_bits_per_symbol si" "s_bits_per_symbol si \<le> 15"
    and e: "entry_ok e" and c: "p \<le> c" "c \<le> e_key_len e" and ok: "writer_ok heap w"
  shows "yields heap (for_each (\<lambda>i. sbind (slift (key_char e i)) (\<lambda>ch. write_code heap si (symbol_code si ch))) [p..<c])
    w (concat (map (chr_bits si) (take (c - p) (drop p (entry_key e))))) ()"
proof -
  have "writes heap (for_each (\<lambda>i. sbind (slift (key_char e i)) (\<lambda>ch. write_code heap si (symbol_code si ch))) [p..<c])
      w (concat (map (\<lambda>i. chr_bits si (entry_key e ! i)) [p..<c]))"
  proof (rule writes_for_each[OF ok])
    fix i w assume i: "i \<in> set [p..<c]" and ok: "writer_ok heap w"
    have "key_char e i = Ok (entry_key e ! i)" using i c e by (intro key_char_ok) auto
    then show "writes heap (sbind (slift (key_char e i)) (\<lambda>ch. write_code heap si (symbol_code si ch))) w
        (chr_bits si (entry_key e ! i))"
      using write_code_writes[OF ok bps] by (simp add: yields_unit chr_bits_def)
  qed
  moreover have "map (\<lambda>i. chr_bits si (entry_key e ! i)) [p..<c] =
      map (chr_bits si) (take (c - p) (drop p (entry_key e)))"
    using c e by (intro nth_equalityI) auto
  ultimately show ?thesis by (simp add: yields_unit)
qed

text \<open>\<open>trie_write\<close> appends the bit string of the trie of its range, or the allocator refuses; the
  next value index is the one after its terminals.\<close>

lemma trie_write_yields:
  assumes bps: "1 \<le> s_bits_per_symbol si" "s_bits_per_symbol si \<le> 15"
    and "depth (trie_of (rest hv p es)) \<le> fuel" and "range_ok hv p es" and "es \<noteq> []"
    and "vi + nterms (trie_of (rest hv p es)) < 4294967296"
    and "length (ser si vi (trie_of (rest hv p es))) < 18446744073709551616"
    and "writer_ok heap w"
  shows "yields heap (trie_write fuel heap si es p hv vi) w (ser si vi (trie_of (rest hv p es)))
    (vi + nterms (trie_of (rest hv p es)))"
  using assms(3-)
proof (induction fuel arbitrary: es p vi w)
  case 0
  then show ?case by (cases "trie_of (rest hv p es)") simp
next
  case (Suc fuel)
  obtain c gs where sh: "find_common es p = Ok c" "p \<le> c" "c \<le> e_key_len (hd es)"
    "child_groups c (if e_key_len (hd es) = c then tl es else es) = Ok gs"
    "\<forall>g \<in> set gs. group_ok hv c g" "e_key_len (hd es) \<noteq> c \<longrightarrow> gs \<noteq> []" "length (concat gs) \<le> length es"
    "trie_of (rest hv p es) = Node (take (c - p) (drop p (entry_key (hd es))))
      (if e_key_len (hd es) = c then Some (has_value hv (hd es)) else None) (group_tries hv c gs)"
    using range_shape[OF Suc.prems(2,3)] unfolding group_tries_def by blast
  let ?l = "take (c - p) (drop p (entry_key (hd es)))" and ?ks = "group_tries hv c gs"
  let ?tm = "if e_key_len (hd es) = c then Some (has_value hv (hd es)) else None"
  let ?v1 = "if e_key_len (hd es) = c then vi + 1 else vi"
  have hd: "entry_ok (hd es)" using Suc.prems(2,3) by (cases es) (auto simp: range_ok_def)
  have vl: "vi < 4294967296" using Suc.prems(4) by simp
  have kt: "sum_list (map (\<lambda>(c, t). nterms t) ?ks) = kids_terms ?ks" by (simp add: kids_terms_def)
  have nt: "vi + nterms (trie_of (rest hv p es)) = ?v1 + kids_terms ?ks"
    unfolding sh(8) by (simp add: kt)
  have sl: "gs \<noteq> [] \<Longrightarrow> length (ser_kids si ?v1 ?ks) < 18446744073709551616"
    using Suc.prems(5) unfolding sh(8) by (simp split: if_splits)
  have v1: "?v1 + kids_terms ?ks < 4294967296" using Suc.prems(4) unfolding nt .
  have dg: "g \<in> set gs \<Longrightarrow> depth (trie_of (rest hv c g)) \<le> fuel \<and> range_ok hv c g \<and> g \<noteq> []" for g
    using depth_groups_le[OF Suc.prems(1)[unfolded sh(8)]] sh(5) by (auto simp: group_ok_def)
  have kids: "yields heap (write_children heap si (\<lambda>g v. trie_subtree_size fuel si g c hv v)
             (\<lambda>g v. trie_write fuel heap si g c hv v) gs ?v1) w' (ser_kids si ?v1 ?ks) (?v1 + kids_terms ?ks)"
    if "writer_ok heap w'" "gs \<noteq> []" for w'
  proof (rule write_children_yields[OF bps sh(5) _ _ v1 sl[OF that(2)] that(1)])
    fix g v assume g: "g \<in> set gs" "v + nterms (trie_of (rest hv c g)) < 4294967296"
      "length (ser si v (trie_of (rest hv c g))) < 18446744073709551616"
    show "trie_subtree_size fuel si g c hv v =
        Ok (length (ser si v (trie_of (rest hv c g))), v + nterms (trie_of (rest hv c g)))"
      using trie_subtree_size_ok dg g by blast
    show "yields heap (trie_write fuel heap si g c hv v) w (ser si v (trie_of (rest hv c g)))
        (v + nterms (trie_of (rest hv c g)))" if "writer_ok heap w" for w
      using Suc.IH dg g that by blast
  qed
  have brn: "yields heap (sbind (write_code heap si (ctrl_code si TP_CTRL_BRANCH)) (\<lambda>_.
         sbind (tp_bs_write_varint_u heap (word_of_nat (length gs))) (\<lambda>_.
           write_children heap si (\<lambda>g v. trie_subtree_size fuel si g c hv v)
             (\<lambda>g v. trie_write fuel heap si g c hv v) gs ?v1))) w'
      (ctl_bits si TP_CTRL_BRANCH @ num_bits (length ?ks) @ ser_kids si ?v1 ?ks) (?v1 + kids_terms ?ks)"
    if "writer_ok heap w'" "gs \<noteq> []" for w'
    unfolding ctl_bits_def group_tries_simps(4)
    by (intro yields_seq[OF write_code_writes[OF that(1) bps]] yields_seq[OF write_num_yields] kids that(2))
  let ?fin = "if gs = [] then sret ?v1 else sbind (write_code heap si (ctrl_code si TP_CTRL_BRANCH)) (\<lambda>_.
         sbind (tp_bs_write_varint_u heap (word_of_nat (length gs))) (\<lambda>_.
           write_children heap si (\<lambda>g v. trie_subtree_size fuel si g c hv v)
             (\<lambda>g v. trie_write fuel heap si g c hv v) gs ?v1))"
  have fin: "yields heap ?fin w' (if ?ks = [] then [] else ctl_bits si TP_CTRL_BRANCH @ num_bits (length ?ks) @
        ser_kids si ?v1 ?ks) (?v1 + kids_terms ?ks)" if "writer_ok heap w'" for w'
    using brn[OF that] yields_sret[OF that, of ?v1]
    by (cases "gs = []") (simp_all add: kids_terms_def split del: if_split)
  let ?trm = "if \<not> e_key_len (hd es) = c then sret ()
            else if has_value hv (hd es) then
              sbind (write_code heap si (ctrl_code si TP_CTRL_END_VAL))
                (\<lambda>_. tp_bs_write_varint_u heap (word_of_nat vi))
            else write_code heap si (ctrl_code si TP_CTRL_END)"
  have trm: "yields heap ?trm w' (term_bits si vi ?tm) ()" if ok: "writer_ok heap w'" for w'
    using yields_seq[OF write_code_writes[OF ok bps] write_num_yields] write_code_writes[OF ok bps]
      yields_sret[OF ok, of "()"]
    by (simp add: term_bits_def ctl_bits_def)
  have "trie_write (Suc fuel) heap si es p hv vi = sbind (for_each (\<lambda>i. sbind (slift (key_char (hd es) i))
              (\<lambda>ch. write_code heap si (symbol_code si ch))) [p..<c]) (\<lambda>_. sbind ?trm (\<lambda>_. ?fin))"
  proof -
    have "(if e_key_len (hd es) = c then wrap32 (vi + 1) else vi) = ?v1"
      using v1 by (auto split: if_splits)
    then show ?thesis by (simp only: trie_write.simps sh(1) sbind_slift_Ok Let_def sh(4))
  qed
  moreover have "yields heap (sbind (for_each (\<lambda>i. sbind (slift (key_char (hd es) i))
              (\<lambda>ch. write_code heap si (symbol_code si ch))) [p..<c]) (\<lambda>_. sbind ?trm (\<lambda>_. ?fin))) w
      (concat (map (chr_bits si) ?l) @ term_bits si vi ?tm @
       (if ?ks = [] then [] else ctl_bits si TP_CTRL_BRANCH @ num_bits (length ?ks) @ ser_kids si ?v1 ?ks))
      (?v1 + kids_terms ?ks)"
    by (intro yields_seq[OF label_loop_yields[OF bps hd sh(2,3) Suc.prems(6)]] yields_seq[OF trm] fin)
  moreover have "ser si vi (trie_of (rest hv p es)) = concat (map (chr_bits si) ?l) @ term_bits si vi ?tm @
       (if ?ks = [] then [] else ctl_bits si TP_CTRL_BRANCH @ num_bits (length ?ks) @ ser_kids si ?v1 ?ks)"
    unfolding sh(8) by simp
  ultimately show ?case unfolding nt by simp
qed

end
