(* ===== verification/Value.thy ===== *)
theory Value
  imports Varint
begin

text \<open>
  Tagged values in the value store: \<open>src/core/value.c\<close>. A four-bit tag, then the payload; strings
  and blobs carry their length and are byte aligned, so that reading hands out a pointer into the
  file. Encoding and decoding form a \<open>codec\<close> whose bit string depends on the bit position.
\<close>

section \<open>The code\<close>

text \<open>The payload of a string or blob: length, alignment, raw bytes.\<close>

definition write_sized :: "nat \<Rightarrow> ptr \<Rightarrow> nat \<Rightarrow> writing" where
  "write_sized heap p n =
     sbind (tp_bs_write_varint_u heap (word_of_nat n))
       (\<lambda>_. sbind (tp_bs_writer_align_to_byte heap) (\<lambda>_. tp_bs_write_bytes heap p n))"

definition tp_value_encode :: "nat \<Rightarrow> tp_value \<Rightarrow> writing" where
  "tp_value_encode heap val =
     sbind (tp_bs_write_bits heap (word_of_nat (tp_type val)) 4)
       (\<lambda>_. case val of
              TP_NULL \<Rightarrow> sret ()
            | TP_BOOL b \<Rightarrow> tp_bs_write_bit heap (if b then 1 else 0)
            | TP_INT i \<Rightarrow> tp_bs_write_varint_s heap i
            | TP_UINT u \<Rightarrow> tp_bs_write_varint_u heap u
            | TP_FLOAT32 bits \<Rightarrow> tp_bs_write_u32 heap bits
            | TP_FLOAT64 bits \<Rightarrow> tp_bs_write_u64 heap bits
            | TP_STRING str str_len \<Rightarrow> write_sized heap str str_len
            | TP_BLOB dat len \<Rightarrow> write_sized heap dat len
            | TP_ARRAY _ _ \<Rightarrow> sfail TP_ERR_INVALID_PARAM
            | TP_DICT _ _ \<Rightarrow> sfail TP_ERR_INVALID_PARAM
            | TP_RESERVED _ \<Rightarrow> sret ())"

text \<open>Reading one: with a base buffer a pointer into the stream, without it the bytes are skipped
  and the pointer is NULL. \<open>slen * 8\<close> is 64-bit arithmetic.\<close>

definition read_sized :: "ptr \<Rightarrow> (ptr \<times> nat) reading" where
  "read_sized base_buf =
     sbind tp_bs_read_varint_u (\<lambda>slen.
     sbind tp_bs_reader_align_to_byte (\<lambda>_.
     if base_buf \<noteq> None then
       sbind (tp_bs_reader_direct_ptr (unat slen)) (\<lambda>p. sret (p, unat slen))
     else
       sbind (tp_bs_reader_advance (wrap64 (unat slen * 8))) (\<lambda>_. sret (None, unat slen))))"

definition tp_value_decode :: "ptr \<Rightarrow> tp_value reading" where
  "tp_value_decode base_buf =
     sbind (tp_bs_read_bits 4) (\<lambda>tag.
     if tag = 0 then sret TP_NULL
     else if tag = 1 then sbind tp_bs_read_bit (\<lambda>b. sret (TP_BOOL (b \<noteq> 0)))
     else if tag = 2 then sbind tp_bs_read_varint_s (\<lambda>i. sret (TP_INT i))
     else if tag = 3 then sbind tp_bs_read_varint_u (\<lambda>u. sret (TP_UINT u))
     else if tag = 4 then sbind tp_bs_read_u32 (\<lambda>bits. sret (TP_FLOAT32 bits))
     else if tag = 5 then sbind tp_bs_read_u64 (\<lambda>bits. sret (TP_FLOAT64 bits))
     else if tag = 6 then sbind (read_sized base_buf) (\<lambda>(p, n). sret (TP_STRING p n))
     else if tag = 7 then sbind (read_sized base_buf) (\<lambda>(p, n). sret (TP_BLOB p n))
     else if tag = 8 \<or> tag = 9 then sfail TP_ERR_INVALID_PARAM
     else sret (TP_RESERVED (unat tag)))"

section \<open>The bit string\<close>

definition pad_bits :: "nat \<Rightarrow> bool list" where
  "pad_bits p = replicate ((8 - p mod 8) mod 8) False"

definition sized_enc :: "nat \<Rightarrow> u8 list \<Rightarrow> bool list" where
  "sized_enc p bs =
     (let len = varint_enc (word_of_nat (length bs)) in
      len @ pad_bits (p + length len) @ concat (map (nbits 8) bs))"

text \<open>The bytes behind a pointer and length, empty when there are none.\<close>

definition content :: "ptr \<Rightarrow> nat \<Rightarrow> u8 list" where
  "content p n = (case view p n of Some bs \<Rightarrow> bs | None \<Rightarrow> [])"

definition value_enc :: "nat \<Rightarrow> tp_value \<Rightarrow> bool list" where
  "value_enc p val =
     nbits 4 (word_of_nat (tp_type val) :: u64) @
     (case val of
        TP_BOOL b \<Rightarrow> [b]
      | TP_INT i \<Rightarrow> varint_enc (zigzag_encode i)
      | TP_UINT u \<Rightarrow> varint_enc u
      | TP_FLOAT32 bits \<Rightarrow> nbits 32 bits
      | TP_FLOAT64 bits \<Rightarrow> nbits 64 bits
      | TP_STRING str n \<Rightarrow> sized_enc (p + 4) (content str n)
      | TP_BLOB dat n \<Rightarrow> sized_enc (p + 4) (content dat n)
      | _ \<Rightarrow> [])"

section \<open>Encoding\<close>

lemma sized_writes:
  assumes ok: "writer_ok heap w" and v: "view p n = Some bs"
  shows "writes heap (write_sized heap p n) w (sized_enc (w_pos w) bs)"
  unfolding write_sized_def sized_enc_def Let_def
proof (rule writes_sbind)
  have n: "length bs = n" using v by (rule view_length)
  show "writes heap (tp_bs_write_varint_u heap (word_of_nat n)) w (varint_enc (word_of_nat (length bs)))"
    using varint.wr_exact[OF _ ok] n by simp
  fix w1 assume a1: "appended heap w (varint_enc (word_of_nat (length bs))) w1"
  have p1: "w_pos w1 = w_pos w + length (varint_enc (word_of_nat (length bs)))"
    using a1 by (simp add: appended_def)
  show "writes heap (sbind (tp_bs_writer_align_to_byte heap) (\<lambda>_. tp_bs_write_bytes heap p n)) w1
      (pad_bits (w_pos w + length (varint_enc (word_of_nat (length bs)))) @ concat (map (nbits 8) bs))"
  proof (rule writes_sbind)
    show "writes heap (tp_bs_writer_align_to_byte heap) w1
        (pad_bits (w_pos w + length (varint_enc (word_of_nat (length bs)))))"
      using align_writes[OF appended_ok[OF a1]] p1 by (simp add: pad_bits_def)
    fix w2 assume "appended heap w1 (pad_bits (w_pos w + length (varint_enc (word_of_nat (length bs))))) w2"
    then show "writes heap (tp_bs_write_bytes heap p n) w2 (concat (map (nbits 8) bs))"
      using write_bytes_writes[OF appended_ok v] by simp
  qed
qed

text \<open>Values whose bytes can be read, and the two kinds the value store refuses.\<close>

fun legible :: "tp_value \<Rightarrow> bool" where
  "legible (TP_STRING p n) = (view p n \<noteq> None)"
| "legible (TP_BLOB p n) = (view p n \<noteq> None)"
| "legible _ = True"

fun nested :: "tp_value \<Rightarrow> bool" where
  "nested (TP_ARRAY _ _) = True"
| "nested (TP_DICT _ _) = True"
| "nested _ = False"

lemma storable_legible: "storable v \<Longrightarrow> legible v \<and> \<not> nested v"
  by (cases v) simp_all

lemma legible_view: "legible (TP_STRING p n) \<Longrightarrow> view p n = Some (content p n)"
  "legible (TP_BLOB p n) \<Longrightarrow> view p n = Some (content p n)"
  by (auto simp: content_def)

lemma storable_view: "storable (TP_STRING p n) \<Longrightarrow> view p n = Some (content p n)"
  "storable (TP_BLOB p n) \<Longrightarrow> view p n = Some (content p n)"
  by (auto simp: content_def)

lemma legible_writes:
  assumes v: "legible val" "\<not> nested val" and ok: "writer_ok heap w"
  shows "writes heap (tp_value_encode heap val) w (value_enc (w_pos w) val)"
  unfolding tp_value_encode_def value_enc_def
proof (rule writes_sbind)
  show "writes heap (tp_bs_write_bits heap (word_of_nat (tp_type val)) 4) w (nbits 4 (word_of_nat (tp_type val) :: u64))"
    using write_bits_writes[OF ok] by simp
  fix w1 assume a: "appended heap w (nbits 4 (word_of_nat (tp_type val) :: u64)) w1"
  have ok1: "writer_ok heap w1" and p1: "w_pos w1 = w_pos w + 4"
    using a by (simp_all add: appended_def)
  show "writes heap (case val of TP_NULL \<Rightarrow> sret ()
            | TP_BOOL b \<Rightarrow> tp_bs_write_bit heap (if b then 1 else 0)
            | TP_INT i \<Rightarrow> tp_bs_write_varint_s heap i
            | TP_UINT u \<Rightarrow> tp_bs_write_varint_u heap u
            | TP_FLOAT32 bits \<Rightarrow> tp_bs_write_u32 heap bits
            | TP_FLOAT64 bits \<Rightarrow> tp_bs_write_u64 heap bits
            | TP_STRING str str_len \<Rightarrow> write_sized heap str str_len
            | TP_BLOB dat len \<Rightarrow> write_sized heap dat len
            | TP_ARRAY _ _ \<Rightarrow> sfail TP_ERR_INVALID_PARAM
            | TP_DICT _ _ \<Rightarrow> sfail TP_ERR_INVALID_PARAM
            | TP_RESERVED _ \<Rightarrow> sret ()) w1
       (case val of TP_BOOL b \<Rightarrow> [b] | TP_INT i \<Rightarrow> varint_enc (zigzag_encode i) | TP_UINT u \<Rightarrow> varint_enc u
      | TP_FLOAT32 bits \<Rightarrow> nbits 32 bits | TP_FLOAT64 bits \<Rightarrow> nbits 64 bits
      | TP_STRING str n \<Rightarrow> sized_enc (w_pos w + 4) (content str n)
      | TP_BLOB dat n \<Rightarrow> sized_enc (w_pos w + 4) (content dat n) | _ \<Rightarrow> [])"
  proof (cases val)
    case (TP_BOOL b)
    then show ?thesis using write_bit_writes[OF ok1, of "if b then 1 else 0"] by (cases b) simp_all
  next
    case (TP_STRING p n)
    then show ?thesis using sized_writes[OF ok1 legible_view(1)[of p n]] v p1 by simp
  next
    case (TP_BLOB p n)
    then show ?thesis using sized_writes[OF ok1 legible_view(2)[of p n]] v p1 by simp
  qed (use v ok1 varint.wr_exact varint_s.wr_exact u32c.wr_exact u64c.wr_exact in
       \<open>simp_all add: writes_sret[OF ok1] del: sret_apply\<close>)
qed

lemma value_writes:
  "storable val \<Longrightarrow> writer_ok heap w \<Longrightarrow> writes heap (tp_value_encode heap val) w (value_enc (w_pos w) val)"
  by (rule legible_writes) (simp_all add: storable_legible)

section \<open>Decoding\<close>

lemma bytes_at:
  assumes "has_bits bs (8 * k) (concat (map (nbits 8) xs))"
  shows "take (length xs) (drop k bs) = xs"
  using assms
proof (induction xs arbitrary: k)
  case Nil
  then show ?case by simp
next
  case (Cons x xs)
  have h: "has_bits bs (8 * k) (nbits 8 x)" "has_bits bs (8 * Suc k) (concat (map (nbits 8) xs))"
    using Cons.prems by (simp_all add: has_bits_append add.commute)
  have k: "k < length bs" using has_bits_bound[OF h(1)] by simp
  have "bs ! k = x"
  proof (rule bit_word_eqI)
    fix n assume n: "n < LENGTH(8)"
    define j where "j = 7 - n"
    have j: "j < 8" "n = 7 - j" using n by (simp_all add: j_def)
    have "bit_at bs (8 * k + j) = nbits 8 x ! j"
      using h(1) j(1) by (simp add: has_bits_def)
    then show "bit (bs ! k) n = bit x n" using j by (simp add: bit_at_def)
  qed
  then show ?case using Cons.IH[OF h(2)] k by (simp add: Cons_nth_drop_Suc[symmetric])
qed

lemma align_next:
  assumes ok: "reader_ok r" and nx: "next_bits r (pad_bits (r_pos r))"
  shows "tp_bs_reader_align_to_byte r = (Ok (), adv (length (pad_bits (r_pos r))) r)"
proof (cases "r_pos r mod 8 = 0")
  case True
  then show ?thesis by (simp add: tp_bs_reader_align_to_byte_def pad_bits_def)
next
  case False
  let ?k = "8 - r_pos r mod 8"
  have l: "length (pad_bits (r_pos r)) = ?k" using False by (simp add: pad_bits_def)
  have fit: "r_pos r + ?k \<le> r_bit_len r" using nx l by (simp add: next_bits_def)
  moreover have "wrap64 (r_pos r + ?k) = r_pos r + ?k"
    using fit ok by (simp add: reader_ok_def)
  ultimately show ?thesis using False l by (simp add: tp_bs_reader_align_to_byte_def Let_def adv_def)
qed

lemma pad_bits_aligned: "(p + length (pad_bits p)) mod 8 = 0"
proof (cases "p mod 8 = 0")
  case False
  then have l: "length (pad_bits p) = 8 - p mod 8" by (simp add: pad_bits_def)
  have "p mod 8 < 8" by simp
  then show ?thesis unfolding l by presburger
qed (simp add: pad_bits_def)

lemma direct_ptr_next:
  assumes ok: "reader_ok r" and al: "r_pos r mod 8 = 0" and nx: "next_bits r (concat (map (nbits 8) bs))"
  shows "\<exists>p. tp_bs_reader_direct_ptr (length bs) r = (Ok p, adv (8 * length bs) r) \<and>
    view p (length bs) = Some bs"
proof -
  have len: "length (concat (map (nbits 8) bs)) = 8 * length bs" by (rule length_concat_bytes)
  have fit: "r_pos r + 8 * length bs \<le> r_bit_len r" using nx len by (simp add: next_bits_def)
  then have w: "wrap64 (r_pos r + wrap64 (length bs * 8)) = r_pos r + 8 * length bs"
    using ok by (simp add: reader_ok_def mult.commute)
  obtain k where k: "r_pos r = 8 * k" using al by (metis mod_0_imp_dvd dvdE)
  have "has_bits (r_bytes r) (8 * k) (concat (map (nbits 8) bs))" using nx k by (simp add: next_bits_def)
  then have t: "take (length bs) (drop k (r_bytes r)) = bs" by (rule bytes_at)
  then have "length bs \<le> length (drop k (r_bytes r))" by (metis length_take min.cobounded1)
  then have "view (Some (drop k (r_bytes r))) (length bs) = Some bs" using t by (simp add: view_Some_iff)
  moreover have "tp_bs_reader_direct_ptr (length bs) r = (Ok (Some (drop k (r_bytes r))), adv (8 * length bs) r)"
    using ok al fit w k by (simp add: tp_bs_reader_direct_ptr_def tp_bs_reader_is_byte_aligned_def
        r_buf_bytes adv_def)
  ultimately show ?thesis by blast
qed

lemma sized_reads:
  assumes ok: "reader_ok r" and nx: "next_bits r (sized_enc (r_pos r) bs)"
    and n: "length bs < 2305843009213693952"
  shows "\<exists>p. read_sized (Some b) r = (Ok (p, length bs), adv (length (sized_enc (r_pos r) bs)) r) \<and>
    view p (length bs) = Some bs"
proof -
  let ?l = "varint_enc (word_of_nat (length bs))"
  let ?r1 = "adv (length ?l) r"
  let ?pad = "pad_bits (r_pos ?r1)"
  let ?r2 = "adv (length ?pad) ?r1"
  have nx1: "next_bits r ?l" and nx2: "next_bits ?r1 ?pad" and nx3: "next_bits ?r2 (concat (map (nbits 8) bs))"
    using nx by (simp_all add: sized_enc_def Let_def next_bits_append add.assoc)
  have ok1: "reader_ok ?r1" using reader_ok_adv[OF ok nx1] .
  have ok2: "reader_ok ?r2" using reader_ok_adv[OF ok1 nx2] .
  have al: "r_pos ?r2 mod 8 = 0" using pad_bits_aligned[of "r_pos ?r1"] by (simp only: adv_simps)
  have u: "unat (word_of_nat (length bs) :: u64) = length bs"
    using n by (simp add: unsigned_of_nat take_bit_nat_eq_self)
  obtain p where p: "tp_bs_reader_direct_ptr (length bs) ?r2 = (Ok p, adv (8 * length bs) ?r2)"
      "view p (length bs) = Some bs"
    using direct_ptr_next[OF ok2 al nx3] by blast
  have "read_sized (Some b) r = (Ok (p, length bs), adv (8 * length bs) ?r2)"
    using varint.rd_exact[OF TrueI ok nx1] align_next[OF ok1 nx2] p(1) u
    by (simp add: read_sized_def sbind_def)
  moreover have "adv (8 * length bs) ?r2 = adv (length (sized_enc (r_pos r) bs)) r"
    by (simp add: sized_enc_def Let_def length_concat_bytes add.assoc)
  ultimately show ?thesis using p(2) by auto
qed

lemma rsafe_sized [intro]: "rsafe (read_sized b)"
  unfolding read_sized_def
  by (intro rsafe_sbind rsafe_if rsafe_sret rsafe_read_varint rsafe_cursor)

lemma rsafe_value_decode [intro]: "rsafe (tp_value_decode b)"
  unfolding tp_value_decode_def split_def
  by (intro rsafe_sbind rsafe_if rsafe_sret rsafe_sfail rsafe_read_varint rsafe_read_bits rsafe_read_bit
      rsafe_sized rsafe_read_bytes_family)

lemma tag_next:
  assumes "reader_ok r" and "next_bits r (nbits 4 (word_of_nat t :: u64))" and "t < 16"
  shows "tp_bs_read_bits 4 r = (Ok (word_of_nat t), adv 4 r)"
proof -
  have "unat (word_of_nat t :: u64) < 2 ^ 4"
    using assms(3) by (simp add: unsigned_of_nat take_bit_nat_eq_self)
  then show ?thesis using read_bits_value[OF assms(1,2)] by simp
qed

lemma read_bit_next:
  assumes ok: "reader_ok r" and nx: "next_bits r [b]"
  shows "tp_bs_read_bit r = (Ok (of_bool b), adv 1 r)"
proof -
  have "bit_at (r_bytes r) (r_pos r) = b" "r_pos r < r_bit_len r"
    using nx by (simp_all add: next_bits_def has_bits_def)
  moreover have "read_bit_msb (Some (r_bytes r)) (r_pos r) = Ok (of_bool (bit_at (r_bytes r) (r_pos r)))"
    using ok calculation(2) by (intro read_bit_msb_ok) (simp add: reader_ok_def)
  ultimately show ?thesis
    using ok by (simp add: tp_bs_read_bit_def r_buf_bytes adv_def reader_ok_def)
qed

lemma value_reads:
  assumes v: "storable val" and ok: "reader_ok r" and nx: "next_bits r (value_enc (r_pos r) val)"
  shows "\<exists>x. tp_value_decode (Some b) r = (Ok x, adv (length (value_enc (r_pos r) val)) r) \<and>
    value_agree val x"
proof -
  have t: "next_bits r (nbits 4 (word_of_nat (tp_type val) :: u64))"
    using nx by (simp add: value_enc_def next_bits_append)
  have ty: "tp_type val < 16" using v by (cases val) simp_all
  note tag = tag_next[OF ok t ty]
  have ok4: "reader_ok (adv 4 r)" using reader_ok_adv[OF ok t] by simp
  show ?thesis
  proof (cases val)
    case (TP_STRING p n)
    have vw: "view p n = Some (content p n)" using v storable_view(1) unfolding TP_STRING by blast
    have len: "length (content p n) = n" using view_length[OF vw] .
    have "next_bits (adv 4 r) (sized_enc (r_pos (adv 4 r)) (content p n))"
      using nx TP_STRING by (simp add: value_enc_def next_bits_append)
    from sized_reads[OF ok4 this, of b] show ?thesis
      using TP_STRING tag v len vw by (auto simp: tp_value_decode_def sbind_def value_enc_def)
  next
    case (TP_BLOB p n)
    have vw: "view p n = Some (content p n)" using v storable_view(2) unfolding TP_BLOB by blast
    have len: "length (content p n) = n" using view_length[OF vw] .
    have "next_bits (adv 4 r) (sized_enc (r_pos (adv 4 r)) (content p n))"
      using nx TP_BLOB by (simp add: value_enc_def next_bits_append)
    from sized_reads[OF ok4 this, of b] show ?thesis
      using TP_BLOB tag v len vw by (auto simp: tp_value_decode_def sbind_def value_enc_def)
  next
    case (TP_BOOL c)
    then have "next_bits (adv 4 r) [c]" using nx by (simp add: value_enc_def next_bits_append)
    from read_bit_next[OF ok4 this] show ?thesis
      using TP_BOOL tag by (simp add: tp_value_decode_def sbind_def value_enc_def)
  next
    case (TP_INT i)
    then have "next_bits (adv 4 r) (varint_enc (zigzag_encode i))"
      using nx by (simp add: value_enc_def next_bits_append)
    from varint_s.rd_exact[OF TrueI ok4 this] show ?thesis
      using TP_INT tag by (simp add: tp_value_decode_def sbind_def value_enc_def)
  next
    case (TP_UINT u)
    then have "next_bits (adv 4 r) (varint_enc u)" using nx by (simp add: value_enc_def next_bits_append)
    from varint.rd_exact[OF TrueI ok4 this] show ?thesis
      using TP_UINT tag by (simp add: tp_value_decode_def sbind_def value_enc_def)
  next
    case (TP_FLOAT32 x)
    then have "next_bits (adv 4 r) (nbits 32 x)" using nx by (simp add: value_enc_def next_bits_append)
    from u32c.rd_exact[OF TrueI ok4 this] show ?thesis
      using TP_FLOAT32 tag by (simp add: tp_value_decode_def sbind_def value_enc_def)
  next
    case (TP_FLOAT64 x)
    then have "next_bits (adv 4 r) (nbits 64 x)" using nx by (simp add: value_enc_def next_bits_append)
    from u64c.rd_exact[OF TrueI ok4 this] show ?thesis
      using TP_FLOAT64 tag by (simp add: tp_value_decode_def sbind_def value_enc_def)
  qed (use tag v in \<open>simp_all add: tp_value_decode_def sbind_def value_enc_def\<close>)
qed

interpretation valc: codec value_enc tp_value_encode "tp_value_decode (Some b)" storable value_agree for b
proof unfold_locales
  show "writes heap (tp_value_encode heap a) w (value_enc (w_pos w) a)"
    if "storable a" "writer_ok heap w" for heap a w
    using that by (rule value_writes)
  show "\<exists>x. tp_value_decode (Some b) r = (Ok x, adv (length (value_enc (r_pos r) a)) r) \<and> value_agree a x"
    if "storable a" "reader_ok r" "next_bits r (value_enc (r_pos r) a)" for r a
    using that by (rule value_reads)
qed (rule rsafe_value_decode)

section \<open>What decoding hands out\<close>

text \<open>A decoded string or blob shorter than \<open>2 ^ 60\<close> bytes lies inside the stream. The products
  and sums of the bounds check are 64-bit: a length of \<open>2 ^ 61\<close> passes it.\<close>

definition in_bounds :: "tp_value \<Rightarrow> bool" where
  "in_bounds val = (case val of TP_STRING p n \<Rightarrow> view p n \<noteq> None | TP_BLOB p n \<Rightarrow> view p n \<noteq> None | _ \<Rightarrow> True)"

definition value_len :: "tp_value \<Rightarrow> nat" where
  "value_len val = (case val of TP_STRING p n \<Rightarrow> n | TP_BLOB p n \<Rightarrow> n | _ \<Rightarrow> 0)"

lemma direct_ptr_view:
  assumes ok: "reader_ok r" and eq: "tp_bs_reader_direct_ptr n r = (Ok p, r')"
    and n: "n < 1152921504606846976"
  shows "view p n \<noteq> None"
proof -
  have w: "wrap64 (r_pos r + wrap64 (n * 8)) = r_pos r + 8 * n"
    using n ok by (simp add: reader_ok_def mult.commute)
  have p: "r_pos r mod 8 = 0" "r_pos r + 8 * n \<le> r_bit_len r" "p = Some (drop (r_pos r div 8) (r_bytes r))"
    using eq ok by (auto simp: tp_bs_reader_direct_ptr_def r_buf_bytes w
        tp_bs_reader_is_byte_aligned_def split: if_splits)
  have "r_pos r + 8 * n \<le> 8 * length (r_bytes r)" using p(2) ok by (simp add: reader_ok_def)
  then have "n \<le> length (drop (r_pos r div 8) (r_bytes r))" using p(1) by auto
  then show ?thesis using p(3) by (simp add: view_def)
qed

lemma sized_view:
  assumes "reader_ok r" and "read_sized (Some b) r = (Ok (p, n), r')" and "n < 1152921504606846976"
  shows "view p n \<noteq> None"
proof -
  obtain u r1 r2 where "tp_bs_read_varint_u r = (Ok u, r1)" and "tp_bs_reader_align_to_byte r1 = (Ok (), r2)"
      and d: "tp_bs_reader_direct_ptr (unat u) r2 = (Ok p, r')" "n = unat u"
    using assms(2) by (auto simp: read_sized_def sbind_eq_Ok)
  then have "reader_ok r2"
    using rsafeD(2)[OF rsafe_read_varint(1) assms(1)] rsafeD(2)[OF rsafe_cursor(3)] by blast
  then show ?thesis using direct_ptr_view d assms(3) by blast
qed

lemma value_decode_in_bounds:
  assumes ok: "reader_ok r" and eq: "tp_value_decode (Some b) r = (Ok x, r')"
    and n: "value_len x < 1152921504606846976"
  shows "in_bounds x"
proof -
  obtain tag r1 where tag: "tp_bs_read_bits 4 r = (Ok tag, r1)"
    using eq by (auto simp: tp_value_decode_def sbind_eq_Ok)
  have ok1: "reader_ok r1" using rsafeD(2)[OF rsafe_read_bits ok tag] .
  have "(\<exists>p n. x \<in> {TP_STRING p n, TP_BLOB p n} \<and> read_sized (Some b) r1 = (Ok (p, n), r')) \<or>
      (\<forall>p n. x \<noteq> TP_STRING p n \<and> x \<noteq> TP_BLOB p n)"
    using eq tag by (auto simp: tp_value_decode_def sbind_eq_Ok split: if_splits)
  then show ?thesis
    using sized_view[OF ok1] n by (cases x) (auto simp: in_bounds_def value_len_def)
qed

text \<open>What a stored length of any size does: tag, length and padding come next, \<open>e\<close> is where the bytes begin.\<close>

definition string_head :: "nat \<Rightarrow> u64 \<Rightarrow> bool list" where
  "string_head p u = nbits 4 (6 :: u64) @ varint_enc u @ pad_bits (p + 4 + length (varint_enc u))"

lemma string_decode:
  assumes ok: "reader_ok r" and nx: "next_bits r (string_head (r_pos r) u)" and e: "e = r_pos r + length (string_head (r_pos r) u)"
  shows "fst (tp_value_decode (Some b) r) = (if wrap64 (e + wrap64 (8 * unat u)) \<le> r_bit_len r
      then Ok (TP_STRING (Some (drop (e div 8) (r_bytes r))) (unat u)) else Err TP_ERR_EOF)"
    and "e mod 8 = 0"
proof -
  have t: "next_bits r (nbits 4 (word_of_nat 6 :: u64))" using nx by (simp add: string_head_def next_bits_append)
  have ok4: "reader_ok (adv 4 r)" using reader_ok_adv[OF ok t] by simp
  let ?l = "varint_enc u" and ?r1 = "adv (length (varint_enc u)) (adv 4 r)"
  have nx1: "next_bits (adv 4 r) ?l" and nx2: "next_bits ?r1 (pad_bits (r_pos ?r1))"
    using nx by (simp_all add: string_head_def next_bits_append add.assoc)
  have ok1: "reader_ok ?r1" using reader_ok_adv[OF ok4 nx1] .
  let ?r2 = "adv (length (pad_bits (r_pos ?r1))) ?r1"
  have pos: "r_pos ?r2 = e" by (simp add: e string_head_def add.assoc)
  have al: "r_pos ?r2 mod 8 = 0" using pad_bits_aligned[of "r_pos ?r1"] by (simp only: adv_simps)
  then show "e mod 8 = 0" using pos by simp
  show "fst (tp_value_decode (Some b) r) = (if wrap64 (e + wrap64 (8 * unat u)) \<le> r_bit_len r
      then Ok (TP_STRING (Some (drop (e div 8) (r_bytes r))) (unat u)) else Err TP_ERR_EOF)"
    using tag_next[OF ok t] varint.rd_exact[OF TrueI ok4 nx1] align_next[OF ok1 nx2] pos al ok
    by (simp add: tp_value_decode_def read_sized_def sbind_def tp_bs_reader_direct_ptr_def tp_bs_reader_is_byte_aligned_def
        r_buf_bytes mult.commute)
qed

end
