(* ===== verification/Header.thy ===== *)
theory Header
  imports Bit_Codec
begin

text \<open>
  The 32-byte file header: \<open>src/core/header.c\<close>, with the structure and constants of
  \<open>src/core/core_internal.h\<close>. Reading inverts writing; a header is accepted exactly when the next
  256 bits are the encoding of one with the right magic and major version.
\<close>

section \<open>The code\<close>

definition TP_MAGIC_0 :: u8 where "TP_MAGIC_0 = 0x54"
definition TP_MAGIC_1 :: u8 where "TP_MAGIC_1 = 0x52"
definition TP_MAGIC_2 :: u8 where "TP_MAGIC_2 = 0x50"
definition TP_MAGIC_3 :: u8 where "TP_MAGIC_3 = 0x00"

definition TP_FLAG_HAS_VALUES :: u16 where "TP_FLAG_HAS_VALUES = push_bit 0 1"
definition TP_FLAG_HAS_SUFFIX_TABLE :: u16 where "TP_FLAG_HAS_SUFFIX_TABLE = push_bit 1 1"
definition TP_FLAG_HAS_NESTED_DICTS :: u16 where "TP_FLAG_HAS_NESTED_DICTS = push_bit 2 1"
definition TP_FLAG_COMPACT_MODE :: u16 where "TP_FLAG_COMPACT_MODE = push_bit 3 1"

record tp_header =
  h_magic_0 :: u8
  h_magic_1 :: u8
  h_magic_2 :: u8
  h_magic_3 :: u8
  h_version_major :: u8
  h_version_minor :: u8
  h_flags :: u16
  h_num_keys :: u32
  h_trie_data_offset :: u32
  h_value_store_offset :: u32
  h_suffix_table_offset :: u32
  h_total_data_bits :: u32
  h_reserved :: u32

definition tp_header_write :: "nat \<Rightarrow> tp_header \<Rightarrow> writing" where
  "tp_header_write heap h =
     sbind (tp_bs_write_u8 heap (h_magic_0 h)) (\<lambda>_.
     sbind (tp_bs_write_u8 heap (h_magic_1 h)) (\<lambda>_.
     sbind (tp_bs_write_u8 heap (h_magic_2 h)) (\<lambda>_.
     sbind (tp_bs_write_u8 heap (h_magic_3 h)) (\<lambda>_.
     sbind (tp_bs_write_u8 heap (h_version_major h)) (\<lambda>_.
     sbind (tp_bs_write_u8 heap (h_version_minor h)) (\<lambda>_.
     sbind (tp_bs_write_u16 heap (h_flags h)) (\<lambda>_.
     sbind (tp_bs_write_u32 heap (h_num_keys h)) (\<lambda>_.
     sbind (tp_bs_write_u32 heap (h_trie_data_offset h)) (\<lambda>_.
     sbind (tp_bs_write_u32 heap (h_value_store_offset h)) (\<lambda>_.
     sbind (tp_bs_write_u32 heap (h_suffix_table_offset h)) (\<lambda>_.
     sbind (tp_bs_write_u32 heap (h_total_data_bits h)) (\<lambda>_.
     tp_bs_write_u32 heap (h_reserved h)))))))))))))"

definition tp_header_read :: "tp_header reading" where
  "tp_header_read =
     sbind tp_bs_read_u8 (\<lambda>m0.
     sbind tp_bs_read_u8 (\<lambda>m1.
     sbind tp_bs_read_u8 (\<lambda>m2.
     sbind tp_bs_read_u8 (\<lambda>m3.
     if m0 \<noteq> TP_MAGIC_0 \<or> m1 \<noteq> TP_MAGIC_1 \<or> m2 \<noteq> TP_MAGIC_2 \<or> m3 \<noteq> TP_MAGIC_3
     then sfail TP_ERR_BAD_MAGIC
     else
     sbind tp_bs_read_u8 (\<lambda>major.
     sbind tp_bs_read_u8 (\<lambda>minor.
     if major \<noteq> TP_FORMAT_VERSION_MAJOR then sfail TP_ERR_VERSION
     else
     sbind tp_bs_read_u16 (\<lambda>flags.
     sbind tp_bs_read_u32 (\<lambda>num_keys.
     sbind tp_bs_read_u32 (\<lambda>trie_off.
     sbind tp_bs_read_u32 (\<lambda>value_off.
     sbind tp_bs_read_u32 (\<lambda>suffix_off.
     sbind tp_bs_read_u32 (\<lambda>total.
     sbind tp_bs_read_u32 (\<lambda>reserved.
     sret \<lparr>h_magic_0 = m0, h_magic_1 = m1, h_magic_2 = m2, h_magic_3 = m3,
           h_version_major = major, h_version_minor = minor, h_flags = flags,
           h_num_keys = num_keys, h_trie_data_offset = trie_off,
           h_value_store_offset = value_off, h_suffix_table_offset = suffix_off,
           h_total_data_bits = total, h_reserved = reserved\<rparr>)))))))))))))"

section \<open>The codec\<close>

definition header_valid :: "tp_header \<Rightarrow> bool" where
  "header_valid h \<longleftrightarrow> h_magic_0 h = TP_MAGIC_0 \<and> h_magic_1 h = TP_MAGIC_1 \<and>
     h_magic_2 h = TP_MAGIC_2 \<and> h_magic_3 h = TP_MAGIC_3 \<and> h_version_major h = TP_FORMAT_VERSION_MAJOR"

definition header_enc :: "tp_header \<Rightarrow> bool list" where
  "header_enc h =
     nbits 8 (h_magic_0 h) @ nbits 8 (h_magic_1 h) @ nbits 8 (h_magic_2 h) @ nbits 8 (h_magic_3 h) @
     nbits 8 (h_version_major h) @ nbits 8 (h_version_minor h) @ nbits 16 (h_flags h) @
     nbits 32 (h_num_keys h) @ nbits 32 (h_trie_data_offset h) @ nbits 32 (h_value_store_offset h) @
     nbits 32 (h_suffix_table_offset h) @ nbits 32 (h_total_data_bits h) @ nbits 32 (h_reserved h)"

lemma length_header_enc [simp]: "length (header_enc h) = 256"
  by (simp add: header_enc_def)

lemma header_writes: "writer_ok heap w \<Longrightarrow> writes heap (tp_header_write heap h) w (header_enc h)"
  unfolding tp_header_write_def header_enc_def
  by (intro u8c.wr_then u16c.wr_then u32c.wr_then u32c.wr_exact TrueI)

lemma reader_ok_adv_le: "reader_ok r \<Longrightarrow> next_bits r xs \<Longrightarrow> k \<le> length xs \<Longrightarrow> reader_ok (adv k r)"
  by (auto simp: reader_ok_def next_bits_def)

lemma header_reads:
  assumes v: "header_valid h" and r: "reader_ok r" and n: "next_bits r (header_enc h)"
  shows "tp_header_read r = (Ok h, adv 256 r)"
proof -
  have ok: "reader_ok (adv k r)" if "k \<le> 256" for k
    using reader_ok_adv_le[OF r n] that by simp
  note nx = n[unfolded header_enc_def next_bits_append, simplified]
  have "tp_bs_read_u8 r = (Ok (h_magic_0 h), adv 8 r)" "tp_bs_read_u8 (adv 8 r) = (Ok (h_magic_1 h), adv 16 r)"
    "tp_bs_read_u8 (adv 16 r) = (Ok (h_magic_2 h), adv 24 r)"
    "tp_bs_read_u8 (adv 24 r) = (Ok (h_magic_3 h), adv 32 r)"
    "tp_bs_read_u8 (adv 32 r) = (Ok (h_version_major h), adv 40 r)"
    "tp_bs_read_u8 (adv 40 r) = (Ok (h_version_minor h), adv 48 r)"
    using u8c.rd_exact[of r "h_magic_0 h"] u8c.rd_exact[of "adv 8 r" "h_magic_1 h"]
      u8c.rd_exact[of "adv 16 r" "h_magic_2 h"] u8c.rd_exact[of "adv 24 r" "h_magic_3 h"]
      u8c.rd_exact[of "adv 32 r" "h_version_major h"] u8c.rd_exact[of "adv 40 r" "h_version_minor h"]
      nx r ok by simp_all
  moreover have "tp_bs_read_u16 (adv 48 r) = (Ok (h_flags h), adv 64 r)"
    "tp_bs_read_u32 (adv 64 r) = (Ok (h_num_keys h), adv 96 r)"
    "tp_bs_read_u32 (adv 96 r) = (Ok (h_trie_data_offset h), adv 128 r)"
    "tp_bs_read_u32 (adv 128 r) = (Ok (h_value_store_offset h), adv 160 r)"
    "tp_bs_read_u32 (adv 160 r) = (Ok (h_suffix_table_offset h), adv 192 r)"
    "tp_bs_read_u32 (adv 192 r) = (Ok (h_total_data_bits h), adv 224 r)"
    "tp_bs_read_u32 (adv 224 r) = (Ok (h_reserved h), adv 256 r)"
    using u16c.rd_exact[of "adv 48 r" "h_flags h"] u32c.rd_exact[of "adv 64 r" "h_num_keys h"]
      u32c.rd_exact[of "adv 96 r" "h_trie_data_offset h"] u32c.rd_exact[of "adv 128 r" "h_value_store_offset h"]
      u32c.rd_exact[of "adv 160 r" "h_suffix_table_offset h"] u32c.rd_exact[of "adv 192 r" "h_total_data_bits h"]
      u32c.rd_exact[of "adv 224 r" "h_reserved h"] nx ok by simp_all
  ultimately show ?thesis using v by (simp add: tp_header_read_def header_valid_def sbind_def)
qed

lemma if_sfail_OkE:
  assumes "(if c then sfail e else m) r = (Ok b, r')" obtains "\<not> c" and "m r = (Ok b, r')"
  using assms by (auto split: if_splits)

lemma header_reads_only:
  assumes r: "reader_ok r" and eq: "tp_header_read r = (Ok h, r')"
  shows "header_valid h \<and> next_bits r (header_enc h) \<and> r' = adv 256 r"
  using assms unfolding tp_header_read_def
  by (elim u8c.rd_only_then[rotated] u16c.rd_only_then[rotated] u32c.rd_only_then[rotated] if_sfail_OkE)
     (auto simp: header_valid_def header_enc_def next_bits_append)

lemma rsafe_header_read [intro]: "rsafe tp_header_read"
  unfolding tp_header_read_def by (intro rsafe_sbind rsafe_if rsafe_sfail rsafe_sret rsafe_read_bytes_family)

interpretation hdr: strict_codec header_enc tp_header_write tp_header_read header_valid
proof unfold_locales
  show "writes heap (tp_header_write heap a) w (header_enc a)" if "writer_ok heap w" for heap a w
    using that by (rule header_writes)
  show "\<exists>b. tp_header_read r = (Ok b, adv (length (header_enc a)) r) \<and> a = b"
    if "header_valid a" "reader_ok r" "next_bits r (header_enc a)" for r a
    using header_reads[OF that] by simp
  show "header_valid a \<and> next_bits r (header_enc a) \<and> r' = adv (length (header_enc a)) r"
    if "reader_ok r" "tp_header_read r = (Ok a, r')" for r a r'
    using header_reads_only[OF that] by simp
qed (rule rsafe_header_read)

end
