(* ===== verification/Crc32.thy ===== *)
theory Crc32
  imports Prelude
begin

text \<open>
  The checksum of \<open>src/core/integrity.c\<close>: the table-driven CRC-32. The reference is the bitwise
  shift register of the reflected polynomial 0xEDB88320; the table is eight steps of it, and a change
  confined to four consecutive bytes always changes the checksum.
\<close>

section \<open>The code\<close>

definition crc32_table :: "u32 list" where
  "crc32_table =
     [0x00000000, 0x77073096, 0xEE0E612C, 0x990951BA, 0x076DC419, 0x706AF48F, 0xE963A535, 0x9E6495A3,
      0x0EDB8832, 0x79DCB8A4, 0xE0D5E91E, 0x97D2D988, 0x09B64C2B, 0x7EB17CBD, 0xE7B82D07, 0x90BF1D91,
      0x1DB71064, 0x6AB020F2, 0xF3B97148, 0x84BE41DE, 0x1ADAD47D, 0x6DDDE4EB, 0xF4D4B551, 0x83D385C7,
      0x136C9856, 0x646BA8C0, 0xFD62F97A, 0x8A65C9EC, 0x14015C4F, 0x63066CD9, 0xFA0F3D63, 0x8D080DF5,
      0x3B6E20C8, 0x4C69105E, 0xD56041E4, 0xA2677172, 0x3C03E4D1, 0x4B04D447, 0xD20D85FD, 0xA50AB56B,
      0x35B5A8FA, 0x42B2986C, 0xDBBBC9D6, 0xACBCF940, 0x32D86CE3, 0x45DF5C75, 0xDCD60DCF, 0xABD13D59,
      0x26D930AC, 0x51DE003A, 0xC8D75180, 0xBFD06116, 0x21B4F4B5, 0x56B3C423, 0xCFBA9599, 0xB8BDA50F,
      0x2802B89E, 0x5F058808, 0xC60CD9B2, 0xB10BE924, 0x2F6F7C87, 0x58684C11, 0xC1611DAB, 0xB6662D3D,
      0x76DC4190, 0x01DB7106, 0x98D220BC, 0xEFD5102A, 0x71B18589, 0x06B6B51F, 0x9FBFE4A5, 0xE8B8D433,
      0x7807C9A2, 0x0F00F934, 0x9609A88E, 0xE10E9818, 0x7F6A0DBB, 0x086D3D2D, 0x91646C97, 0xE6635C01,
      0x6B6B51F4, 0x1C6C6162, 0x856530D8, 0xF262004E, 0x6C0695ED, 0x1B01A57B, 0x8208F4C1, 0xF50FC457,
      0x65B0D9C6, 0x12B7E950, 0x8BBEB8EA, 0xFCB9887C, 0x62DD1DDF, 0x15DA2D49, 0x8CD37CF3, 0xFBD44C65,
      0x4DB26158, 0x3AB551CE, 0xA3BC0074, 0xD4BB30E2, 0x4ADFA541, 0x3DD895D7, 0xA4D1C46D, 0xD3D6F4FB,
      0x4369E96A, 0x346ED9FC, 0xAD678846, 0xDA60B8D0, 0x44042D73, 0x33031DE5, 0xAA0A4C5F, 0xDD0D7CC9,
      0x5005713C, 0x270241AA, 0xBE0B1010, 0xC90C2086, 0x5768B525, 0x206F85B3, 0xB966D409, 0xCE61E49F,
      0x5EDEF90E, 0x29D9C998, 0xB0D09822, 0xC7D7A8B4, 0x59B33D17, 0x2EB40D81, 0xB7BD5C3B, 0xC0BA6CAD,
      0xEDB88320, 0x9ABFB3B6, 0x03B6E20C, 0x74B1D29A, 0xEAD54739, 0x9DD277AF, 0x04DB2615, 0x73DC1683,
      0xE3630B12, 0x94643B84, 0x0D6D6A3E, 0x7A6A5AA8, 0xE40ECF0B, 0x9309FF9D, 0x0A00AE27, 0x7D079EB1,
      0xF00F9344, 0x8708A3D2, 0x1E01F268, 0x6906C2FE, 0xF762575D, 0x806567CB, 0x196C3671, 0x6E6B06E7,
      0xFED41B76, 0x89D32BE0, 0x10DA7A5A, 0x67DD4ACC, 0xF9B9DF6F, 0x8EBEEFF9, 0x17B7BE43, 0x60B08ED5,
      0xD6D6A3E8, 0xA1D1937E, 0x38D8C2C4, 0x4FDFF252, 0xD1BB67F1, 0xA6BC5767, 0x3FB506DD, 0x48B2364B,
      0xD80D2BDA, 0xAF0A1B4C, 0x36034AF6, 0x41047A60, 0xDF60EFC3, 0xA867DF55, 0x316E8EEF, 0x4669BE79,
      0xCB61B38C, 0xBC66831A, 0x256FD2A0, 0x5268E236, 0xCC0C7795, 0xBB0B4703, 0x220216B9, 0x5505262F,
      0xC5BA3BBE, 0xB2BD0B28, 0x2BB45A92, 0x5CB36A04, 0xC2D7FFA7, 0xB5D0CF31, 0x2CD99E8B, 0x5BDEAE1D,
      0x9B64C2B0, 0xEC63F226, 0x756AA39C, 0x026D930A, 0x9C0906A9, 0xEB0E363F, 0x72076785, 0x05005713,
      0x95BF4A82, 0xE2B87A14, 0x7BB12BAE, 0x0CB61B38, 0x92D28E9B, 0xE5D5BE0D, 0x7CDCEFB7, 0x0BDBDF21,
      0x86D3D2D4, 0xF1D4E242, 0x68DDB3F8, 0x1FDA836E, 0x81BE16CD, 0xF6B9265B, 0x6FB077E1, 0x18B74777,
      0x88085AE6, 0xFF0F6A70, 0x66063BCA, 0x11010B5C, 0x8F659EFF, 0xF862AE69, 0x616BFFD3, 0x166CCF45,
      0xA00AE278, 0xD70DD2EE, 0x4E048354, 0x3903B3C2, 0xA7672661, 0xD06016F7, 0x4969474D, 0x3E6E77DB,
      0xAED16A4A, 0xD9D65ADC, 0x40DF0B66, 0x37D83BF0, 0xA9BCAE53, 0xDEBB9EC5, 0x47B2CF7F, 0x30B5FFE9,
      0xBDBDF21C, 0xCABAC28A, 0x53B39330, 0x24B4A3A6, 0xBAD03605, 0xCDD70693, 0x54DE5729, 0x23D967BF,
      0xB3667A2E, 0xC4614AB8, 0x5D681B02, 0x2A6F2B94, 0xB40BBE37, 0xC30C8EA1, 0x5A05DF1B, 0x2D02EF8D]"

definition crc32_step :: "u32 \<Rightarrow> u8 \<Rightarrow> u32" where
  "crc32_step crc d = crc32_table ! unat ((crc XOR ucast d) AND 0xFF) XOR drop_bit 8 crc"

text \<open>The loop over \<open>data[0..len)\<close>; bytes beyond the block are a \<open>Fault\<close>.\<close>

definition tp_crc32 :: "u8 list \<Rightarrow> nat \<Rightarrow> ('e, u32) res" where
  "tp_crc32 data len =
     (if len \<le> length data then Ok (foldl crc32_step 0xFFFFFFFF (take len data) XOR 0xFFFFFFFF) else Fault)"

section \<open>The shift register\<close>

definition crc_bit :: "u32 \<Rightarrow> u32" where
  "crc_bit x = (if bit x 0 then drop_bit 1 x XOR 0xEDB88320 else drop_bit 1 x)"

lemma crc_bit_xor: "crc_bit (x XOR y) = crc_bit x XOR crc_bit y"
  by (rule bit_word_eqI) (auto simp: crc_bit_def bit_xor_iff bit_drop_bit_eq simp del: bit_0)

lemma funpow_crc_bit_xor: "(crc_bit ^^ n) (x XOR y) = (crc_bit ^^ n) x XOR (crc_bit ^^ n) y"
  by (induction n) (simp_all add: crc_bit_xor)

lemma crc_bit_inj: "crc_bit x = crc_bit y \<Longrightarrow> x = y"
proof -
  assume eq: "crc_bit x = crc_bit y"
  have top: "bit (crc_bit z) 31 \<longleftrightarrow> bit z 0" for z
    by (auto simp: crc_bit_def bit_xor_iff bit_drop_bit_eq simp del: bit_0 dest: bit_imp_le_length)
  have b0: "bit x 0 = bit y 0" using top[of x] top[of y] eq by simp
  have "drop_bit 1 x = drop_bit 1 y"
    using eq b0 unfolding crc_bit_def by (metis xor_cancel_right)
  then have "bit x (Suc n) = bit y (Suc n)" for n
    by (metis bit_drop_bit_eq comp_apply plus_1_eq_Suc)
  then show "x = y" using b0 by (intro bit_word_eqI) (metis not0_implies_Suc)
qed

lemma funpow_crc_bit_inj: "(crc_bit ^^ n) x = (crc_bit ^^ n) y \<Longrightarrow> x = y"
  by (induction n) (auto dest: crc_bit_inj)

lemma funpow_crc_bit_push: "n \<le> 32 \<Longrightarrow> (crc_bit ^^ n) (push_bit n (drop_bit n y)) = drop_bit n y"
proof -
  have "(crc_bit ^^ k) (push_bit n (drop_bit n y)) = push_bit (n - k) (drop_bit n y)" if "k \<le> n" "n \<le> 32" for k
    using that
  proof (induction k)
    case 0
    then show ?case by simp
  next
    case (Suc k)
    have "crc_bit (push_bit (n - k) (drop_bit n y)) = push_bit (n - Suc k) (drop_bit n y)"
      using Suc.prems
      by (intro bit_word_eqI) (auto simp: crc_bit_def bit_simps simp del: bit_0 dest: bit_imp_le_length)
    then show ?case using Suc by simp
  qed
  then show "n \<le> 32 \<Longrightarrow> ?thesis" by (metis diff_self_eq_0 le_refl push_bit_0_id id_apply)
qed

lemma funpow_add_swap: "(f ^^ m) ((f ^^ n) x) = (f ^^ (n + m)) x"
  by (metis add.commute comp_apply funpow_add)

lemma funpow_8: "(f ^^ 8) x = f (f (f (f (f (f (f (f x)))))))"
  by (simp add: numeral_eq_Suc)

lemma crc_bit_eval:
  "crc_bit 0 = 0" "crc_bit 1 = 0xEDB88320"
  "crc_bit (numeral (num.Bit0 n)) = drop_bit 1 (numeral (num.Bit0 n))"
  "crc_bit (numeral (num.Bit1 n)) = drop_bit 1 (numeral (num.Bit1 n)) XOR 0xEDB88320"
  by (simp_all add: crc_bit_def)

lemma crc32_table_eq: "crc32_table = map (\<lambda>i. (crc_bit ^^ 8) (word_of_nat i)) [0..<256]"
  by (simp add: crc32_table_def crc_bit_eval funpow_8 upt_rec)

lemma crc32_step_shift: "crc32_step crc d = (crc_bit ^^ 8) (crc XOR ucast d)"
proof -
  let ?x = "crc XOR ucast d"
  have le: "8 \<le> (32 :: nat)" by simp
  have low: "?x AND 0xFF = take_bit 8 ?x" using take_bit_eq_mask[of 8 ?x] by (simp add: mask_eq_exp_minus_1)
  have i: "unat (?x AND 0xFF) < 256" using unat_take_bit_less[of 8 ?x] unfolding low by simp
  have hi: "drop_bit 8 ?x = drop_bit 8 crc"
    by (rule bit_word_eqI) (auto simp: bit_drop_bit_eq bit_xor_iff bit_ucast_iff dest: bit_imp_le_length)
  have "?x = (?x AND 0xFF) XOR push_bit 8 (drop_bit 8 ?x)"
  proof (rule bit_word_eqI)
    fix n
    show "bit ?x n = bit ((?x AND 0xFF) XOR push_bit 8 (drop_bit 8 ?x)) n"
      unfolding low by (cases "n < 8") (auto simp: bit_xor_iff bit_take_bit_iff bit_push_bit_iff
          bit_drop_bit_eq dest: bit_imp_le_length)
  qed
  then have "(crc_bit ^^ 8) ?x = (crc_bit ^^ 8) (?x AND 0xFF) XOR drop_bit 8 crc"
    using funpow_crc_bit_xor[of 8 "?x AND 0xFF" "push_bit 8 (drop_bit 8 ?x)"] funpow_crc_bit_push[OF le, of ?x]
    unfolding hi by metis
  moreover have "crc32_table ! unat (?x AND 0xFF) = (crc_bit ^^ 8) (?x AND 0xFF)"
    using i unfolding crc32_table_eq by simp
  ultimately show ?thesis by (simp add: crc32_step_def)
qed

section \<open>Bursts\<close>

text \<open>Up to four bytes, the first one lowest.\<close>

fun le_word :: "u8 list \<Rightarrow> u32" where
  "le_word [] = 0"
| "le_word (d # ds) = ucast d XOR push_bit 8 (le_word ds)"

lemma bit_le_word: "bit (le_word ds) n \<longleftrightarrow> n < 32 \<and> n div 8 < length ds \<and> bit (ds ! (n div 8)) (n mod 8)"
proof (induction ds arbitrary: n)
  case Nil
  then show ?case by simp
next
  case (Cons d ds)
  show ?case
  proof (cases "n < 8")
    case True
    then show ?thesis by (simp add: bit_xor_iff bit_ucast_iff bit_push_bit_iff)
  next
    case False
    have div: "n div 8 = Suc ((n - 8) div 8)" and md: "(n - 8) mod 8 = n mod 8"
      using False by (simp_all add: le_div_geq le_mod_geq)
    have "\<not> bit d n" using False by (auto dest: bit_imp_le_length)
    then show ?thesis using False Cons.IH[of "n - 8"]
      by (auto simp: bit_xor_iff bit_ucast_iff bit_push_bit_iff div md)
  qed
qed

lemma le_word_inj:
  assumes "length ds = length es" and "length ds \<le> 4" and "le_word ds = le_word es" shows "ds = es"
proof (rule nth_equalityI[OF assms(1)])
  fix i assume i: "i < length ds"
  show "ds ! i = es ! i"
  proof (rule bit_word_eqI)
    fix n assume "n < LENGTH(8)"
    then have "(8 * i + n) div 8 = i" "(8 * i + n) mod 8 = n" "8 * i + n < 32"
      using i assms(2) by simp_all
    then show "bit (ds ! i) n = bit (es ! i) n"
      using bit_le_word[of ds "8 * i + n"] bit_le_word[of es "8 * i + n"] assms(1,3) i by simp
  qed
qed

lemma foldl_crc32_step:
  assumes "length ds \<le> 4"
  shows "foldl crc32_step s ds = (crc_bit ^^ (8 * length ds)) (s XOR le_word ds)"
  using assms
proof (induction ds arbitrary: s)
  case Nil
  then show ?case by simp
next
  case (Cons d ds)
  have top: "drop_bit 8 (push_bit 8 (le_word ds)) = le_word ds"
  proof (rule bit_word_eqI)
    fix n assume "n < LENGTH(32)"
    have "n < 24" if "bit (le_word ds) n" using that Cons.prems by (auto simp: bit_le_word)
    then show "bit (drop_bit 8 (push_bit 8 (le_word ds))) n = bit (le_word ds) n"
      by (auto simp: bit_drop_bit_eq bit_push_bit_iff)
  qed
  have push: "(crc_bit ^^ 8) (push_bit 8 (le_word ds)) = le_word ds"
    using funpow_crc_bit_push[of 8 "push_bit 8 (le_word ds)"] unfolding top by simp
  have "foldl crc32_step s (d # ds) = (crc_bit ^^ (8 * length ds)) ((crc_bit ^^ 8) (s XOR ucast d) XOR le_word ds)"
    using Cons by (simp add: crc32_step_shift[of s d])
  also have "\<dots> = (crc_bit ^^ (8 * length ds)) ((crc_bit ^^ 8) (s XOR ucast d XOR push_bit 8 (le_word ds)))"
    using push by (simp add: funpow_crc_bit_xor xor.assoc)
  also have "\<dots> = (crc_bit ^^ (8 * length (d # ds))) (s XOR le_word (d # ds))"
    by (simp add: funpow_add_swap xor.assoc del: funpow.simps)
  finally show ?case .
qed

lemma foldl_crc32_inj: "foldl crc32_step s ds = foldl crc32_step t ds \<Longrightarrow> s = t"
proof (induction ds arbitrary: s t)
  case Nil
  then show ?case by simp
next
  case (Cons d ds)
  then have "(crc_bit ^^ 8) (s XOR ucast d) = (crc_bit ^^ 8) (t XOR ucast d)"
    by (simp add: crc32_step_shift)
  then have "s XOR ucast d = t XOR ucast d" by (rule funpow_crc_bit_inj)
  then show ?case by (rule xor_cancel_right)
qed

lemma crc32_burst_detected:
  assumes "length ds = length es" and "length ds \<le> 4" and "ds \<noteq> es"
  shows "foldl crc32_step s (pre @ ds @ post) \<noteq> foldl crc32_step s (pre @ es @ post)"
proof
  let ?s = "foldl crc32_step s pre"
  assume "foldl crc32_step s (pre @ ds @ post) = foldl crc32_step s (pre @ es @ post)"
  then have "foldl crc32_step ?s ds = foldl crc32_step ?s es"
    by (auto dest: foldl_crc32_inj)
  then have "?s XOR le_word ds = ?s XOR le_word es"
    using assms by (auto simp: foldl_crc32_step dest: funpow_crc_bit_inj)
  then have "le_word ds = le_word es" by (rule xor_cancel_left)
  then show False using le_word_inj assms by blast
qed

end
