(* ===== verification/Build.thy ===== *)
theory Build
  imports Trie_Write Value Header Crc32
begin

text \<open>
  \<open>tp_encoder_build\<close> of \<open>src/core/encoder.c\<close>: sort, deduplicate, analyse, write header, symbol
  table, trie and value store, then align, append the checksum and patch the header in the detached
  block. The definitions follow the sections of the function; \<open>trie_fuel\<close> bounds the recursion of
  the trie writer by the longest key.
\<close>

section \<open>The code\<close>

definition build_header :: "nat \<Rightarrow> bool \<Rightarrow> tp_header" where
  "build_header num_keys has_values =
     \<lparr>h_magic_0 = TP_MAGIC_0, h_magic_1 = TP_MAGIC_1, h_magic_2 = TP_MAGIC_2, h_magic_3 = TP_MAGIC_3,
      h_version_major = TP_FORMAT_VERSION_MAJOR, h_version_minor = TP_FORMAT_VERSION_MINOR,
      h_flags = (if has_values then 0 OR TP_FLAG_HAS_VALUES else 0), h_num_keys = word_of_nat num_keys,
      h_trie_data_offset = 0, h_value_store_offset = 0, h_suffix_table_offset = 0,
      h_total_data_bits = 0, h_reserved = 0\<rparr>"

definition writer_position :: "nat write_returning" where
  "writer_position w = (Ok (tp_bs_writer_position w), w)"

definition write_trie_config :: "nat \<Rightarrow> tp_symbol_info \<Rightarrow> writing" where
  "write_trie_config heap si =
     sbind (tp_bs_write_bits heap (word_of_nat (s_bits_per_symbol si)) 4) (\<lambda>_.
     sbind (tp_bs_write_bits heap (word_of_nat (s_symbol_count si)) 8) (\<lambda>_.
     sbind (for_each (\<lambda>c. write_code heap si (ctrl_code si c)) [0..<TP_NUM_CONTROL_CODES]) (\<lambda>_.
     for_each (\<lambda>code. tp_bs_write_varint_u heap (ucast (if code < 256 then s_reverse_map si ! code else 0)))
       [TP_NUM_CONTROL_CODES..<s_symbol_count si])))"

definition trie_fuel :: "tp_entry list \<Rightarrow> nat" where
  "trie_fuel es = Suc (fold max (map e_key_len es) 0)"

text \<open>Everything up to the end of the value store: the two offsets and the length of the data
  stream, in bits.\<close>

definition write_stream :: "nat \<Rightarrow> tp_encoder \<Rightarrow> bool \<Rightarrow> (nat \<times> nat \<times> nat) write_returning" where
  "write_stream heap enc has_values =
     (let es = take (en_count enc) (en_entries enc); si = en_sym enc in
      sbind (tp_header_write heap (build_header (en_count enc) has_values)) (\<lambda>_.
      sbind writer_position (\<lambda>data_start.
      sbind (write_trie_config heap si) (\<lambda>_.
      sbind writer_position (\<lambda>trie_pos.
      sbind (if en_count enc > 0 then
               sbind (trie_write (trie_fuel es) heap si es 0 has_values 0) (\<lambda>_. sret ())
             else sret ()) (\<lambda>_.
      sbind writer_position (\<lambda>value_pos.
      sbind (if has_values then for_each (\<lambda>e. tp_value_encode heap (e_val e)) es else sret ()) (\<lambda>_.
      sbind writer_position (\<lambda>end_pos.
      sret (trie_pos - data_start, value_pos - data_start, end_pos - data_start))))))))))"

text \<open>\<open>out_buf[i] = v\<close>, and four of them for a big-endian number.\<close>

definition store_byte :: "nat \<Rightarrow> u8 \<Rightarrow> u8 list \<Rightarrow> u8 list tp" where
  "store_byte i v buf = (if i < length buf then Ok (buf[i := v]) else Fault)"

definition put_be32 :: "nat \<Rightarrow> u64 \<Rightarrow> u8 list \<Rightarrow> u8 list tp" where
  "put_be32 i x buf =
     rbind (store_byte i (ucast (drop_bit 24 x)) buf) (\<lambda>b.
     rbind (store_byte (i + 1) (ucast (drop_bit 16 x)) b) (\<lambda>b.
     rbind (store_byte (i + 2) (ucast (drop_bit 8 x)) b) (\<lambda>b.
     store_byte (i + 3) (ucast x) b)))"

definition patch_file :: "nat \<Rightarrow> nat \<Rightarrow> nat \<Rightarrow> nat \<Rightarrow> u8 list \<Rightarrow> (u8 list \<times> nat) tp" where
  "patch_file trie_off value_off total_bits byte_len buf =
     rbind (put_be32 12 (word_of_nat trie_off) buf) (\<lambda>b.
     rbind (put_be32 16 (word_of_nat value_off) b) (\<lambda>b.
     rbind (put_be32 20 0 b) (\<lambda>b.
     rbind (put_be32 24 (word_of_nat total_bits) b) (\<lambda>b.
     let crc_data_len = byte_len - 4 in
     rbind (tp_crc32 b crc_data_len) (\<lambda>crc.
     rbind (put_be32 crc_data_len (ucast crc) b) (\<lambda>b. Ok (b, byte_len)))))))"

definition UINT32_MAX :: nat where "UINT32_MAX = 4294967295"

definition finish_file :: "nat \<Rightarrow> nat \<times> nat \<times> nat \<Rightarrow> (u8 list \<times> nat) write_returning" where
  "finish_file heap offsets =
     (case offsets of (trie_off, value_off, total_bits) \<Rightarrow>
        if total_bits > UINT32_MAX \<or> trie_off > UINT32_MAX \<or> value_off > UINT32_MAX
        then sfail TP_ERR_OVERFLOW
        else
          sbind (tp_bs_writer_align_to_byte heap) (\<lambda>_.
          sbind (\<lambda>w. (tp_crc32 (fst (tp_bs_writer_get_buffer w)) (tp_bs_writer_position w div 8), w)) (\<lambda>crc.
          sbind (tp_bs_write_u32 heap crc) (\<lambda>_ w.
            case tp_bs_writer_detach_buffer heap w of
              ((rc, out_buf, out_byte_len, _), w') \<Rightarrow>
                if rc \<noteq> TP_OK then (Err rc, w')
                else (patch_file trie_off value_off total_bits out_byte_len out_buf, w')))))"

definition tp_encoder_build ::
  "tp_entry qsort \<Rightarrow> nat \<Rightarrow> tp_encoder \<Rightarrow> (u8 list \<times> nat) tp \<times> tp_encoder" where
  "tp_encoder_build qs heap enc =
     (let enc1 = dedup_entries (sort_entries qs enc);
          has_values = list_ex (\<lambda>e. tp_type (e_val e) \<noteq> tp_type TP_NULL)
            (take (en_count enc1) (en_entries enc1)) in
      case analyze_symbols enc1 of
        Ok enc2 \<Rightarrow>
          if s_symbol_count (en_sym enc2) > 255 then (Err TP_ERR_ALPHABET, enc2)
          else (rbind (tp_bs_writer_create heap 256 0)
                  (\<lambda>w. fst (sbind (write_stream heap enc2 has_values) (finish_file heap) w)), enc2)
      | Err e \<Rightarrow> (Err e, enc1) | Fault \<Rightarrow> (Fault, enc1) | Diverge \<Rightarrow> (Diverge, enc1))"

section \<open>The data stream\<close>

definition config_enc :: "tp_symbol_info \<Rightarrow> bool list" where
  "config_enc si =
     nbits 4 (word_of_nat (s_bits_per_symbol si) :: u64) @ nbits 8 (word_of_nat (s_symbol_count si) :: u64) @
     concat (map (ctl_bits si) [0..<TP_NUM_CONTROL_CODES]) @
     concat (map (\<lambda>code. num_bits (unat (s_reverse_map si ! code))) [TP_NUM_CONTROL_CODES..<s_symbol_count si])"

definition trie_bits :: "tp_symbol_info \<Rightarrow> bool \<Rightarrow> tp_entry list \<Rightarrow> bool list" where
  "trie_bits si hv es = (if es = [] then [] else ser si 0 (trie_of (rest hv 0 es)))"

definition values_bits :: "bool \<Rightarrow> nat \<Rightarrow> tp_entry list \<Rightarrow> bool list" where
  "values_bits hv p es = (if hv then enc_seq value_enc p (map e_val es) else [])"

lemma config_yields:
  assumes bps: "1 \<le> s_bits_per_symbol si" "s_bits_per_symbol si \<le> 15" and n: "s_symbol_count si \<le> 255"
    and ok: "writer_ok heap w"
  shows "yields heap (write_trie_config heap si) w (config_enc si) ()"
proof -
  have bits: "yields heap (tp_bs_write_bits heap v k) w (nbits k v) ()" if "writer_ok heap w" "0 < k" "k \<le> 64" for v k w
    using write_bits_writes[OF that] by (simp add: yields_unit)
  have ctl: "yields heap (for_each (\<lambda>c. write_code heap si (ctrl_code si c)) [0..<TP_NUM_CONTROL_CODES]) w
      (concat (map (ctl_bits si) [0..<TP_NUM_CONTROL_CODES])) ()" if "writer_ok heap w" for w
    unfolding yields_unit using write_code_writes[OF _ bps]
    by (intro writes_for_each that) (simp add: yields_unit ctl_bits_def)
  have tab: "yields heap (for_each (\<lambda>code. tp_bs_write_varint_u heap (ucast (if code < 256 then s_reverse_map si ! code else 0)))
       [TP_NUM_CONTROL_CODES..<s_symbol_count si]) w
      (concat (map (\<lambda>code. num_bits (unat (s_reverse_map si ! code))) [TP_NUM_CONTROL_CODES..<s_symbol_count si])) ()"
    if "writer_ok heap w" for w
    unfolding yields_unit
  proof (rule writes_for_each[OF that])
    fix code w assume c: "code \<in> set [TP_NUM_CONTROL_CODES..<s_symbol_count si]" and w: "writer_ok heap w"
    have "(ucast (s_reverse_map si ! code) :: u64) = word_of_nat (unat (s_reverse_map si ! code))"
      by (simp add: word_unat_eq_iff unsigned_ucast_eq unsigned_of_nat)
    then show "writes heap (tp_bs_write_varint_u heap (ucast (if code < 256 then s_reverse_map si ! code else 0))) w
        (num_bits (unat (s_reverse_map si ! code)))"
      using write_num_yields[OF w, of "unat (s_reverse_map si ! code)"] c n by (simp add: yields_unit)
  qed
  show ?thesis
    unfolding write_trie_config_def config_enc_def
    by (intro yields_seq bits ctl tab ok) simp_all
qed

lemma yields_position: "yields heap (f (w_pos w)) w xs b \<Longrightarrow> yields heap (sbind writer_position f) w xs b"
  by (simp add: yields_def writer_position_def tp_bs_writer_position_def sbind_def)

text \<open>The next part starts where the one before ended.\<close>

lemma yields_at:
  assumes "yields heap m w xs ()"
    and "\<And>w'. writer_ok heap w' \<Longrightarrow> w_pos w' = w_pos w + length xs \<Longrightarrow> yields heap n w' ys b"
  shows "yields heap (sbind m (\<lambda>_. n)) w (xs @ ys) b"
  using assms by (intro yields_sbind) (auto simp: appended_def)

lemma for_each_map: "for_each f (map g xs) = for_each (\<lambda>x. f (g x)) xs"
  by (induction xs) (auto simp: fun_eq_iff sbind_def split: prod.splits res.splits)

lemma values_yields:
  assumes v: "\<forall>e \<in> set es. legible (e_val e) \<and> \<not> nested (e_val e)" and ok: "writer_ok heap w"
  shows "yields heap (if hv then for_each (\<lambda>e. tp_value_encode heap (e_val e)) es else sret ()) w
    (values_bits hv (w_pos w) es) ()"
proof -
  have "writes heap (for_each (tp_value_encode heap) (map e_val es)) w (enc_seq value_enc (w_pos w) (map e_val es))"
    using v by (intro writes_enc_seq legible_writes ok) auto
  then show ?thesis using yields_sret[OF ok, of "()"]
    by (simp add: yields_unit values_bits_def for_each_map del: sret_apply)
qed

text \<open>An operation that gives up with \<open>e\<close> after at most \<open>n\<close> bits, if the allocator does not refuse before.\<close>

definition refuses :: "nat \<Rightarrow> tp_result \<Rightarrow> 'a write_returning \<Rightarrow> tp_bitstream_writer \<Rightarrow> nat \<Rightarrow> bool" where
  "refuses heap e m w n \<longleftrightarrow> fst (m w) = Err e \<or> (fst (m w) = Err TP_ERR_ALLOC \<and> \<not> room heap w n)"

lemma sbind_fst_Err: "fst (m s) = Err e \<Longrightarrow> fst (sbind m f s) = Err e"
  by (cases "m s") (auto simp: sbind_def)

lemma refuses_first: "refuses heap e m w n \<Longrightarrow> n \<le> n' \<Longrightarrow> refuses heap e (sbind m f) w n'"
  using room_mono by (auto simp: refuses_def dest: sbind_fst_Err)

lemma refuses_after:
  assumes "yields heap m w xs a" and "\<And>w'. appended heap w xs w' \<Longrightarrow> refuses heap e (f a) w' n"
  shows "refuses heap e (sbind m f) w (length xs + n)"
proof (cases "\<exists>w'. m w = (Ok a, w') \<and> appended heap w xs w'")
  case True
  then obtain w' where w': "m w = (Ok a, w')" "appended heap w xs w'" by blast
  then have "sbind m f w = f a w'" by (simp add: sbind_def)
  then show ?thesis using assms(2)[OF w'(2)] room_appended[OF w'(2), of n] by (auto simp: refuses_def)
next
  case False
  then have "fst (m w) = Err TP_ERR_ALLOC" "\<not> room heap w (length xs)" using assms(1) by (auto simp: yields_def)
  then show ?thesis using sbind_fst_Err room_mono by (fastforce simp: refuses_def)
qed

lemma refuses_position: "refuses heap e (f (w_pos w)) w n \<Longrightarrow> refuses heap e (sbind writer_position f) w n"
  by (simp add: refuses_def writer_position_def tp_bs_writer_position_def sbind_def)

lemma nested_refused:
  assumes "nested v" and "writer_ok heap w" shows "refuses heap TP_ERR_INVALID_PARAM (tp_value_encode heap v) w 4"
proof -
  have "yields heap (tp_bs_write_bits heap (word_of_nat (tp_type v)) 4) w (nbits 4 (word_of_nat (tp_type v) :: u64)) ()"
    using write_bits_writes[OF assms(2)] by (simp add: yields_unit)
  from refuses_after[OF this, of TP_ERR_INVALID_PARAM "\<lambda>_. sfail TP_ERR_INVALID_PARAM" 0] show ?thesis
    using assms(1) by (cases v) (simp_all add: tp_value_encode_def refuses_def sfail_def)
qed

text \<open>A value store with an array or a dictionary in it ends at the tag of the first.\<close>

definition plain_part :: "tp_entry list \<Rightarrow> tp_entry list" where
  "plain_part es = takeWhile (\<lambda>e. \<not> nested (e_val e)) es"

lemma values_refused:
  assumes "\<forall>e \<in> set es. legible (e_val e)" and "\<exists>e \<in> set es. nested (e_val e)" and "writer_ok heap w"
  shows "refuses heap TP_ERR_INVALID_PARAM (for_each (\<lambda>e. tp_value_encode heap (e_val e)) es) w
    (length (values_bits True (w_pos w) (plain_part es)) + 4)"
  using assms
proof (induction es arbitrary: w)
  case (Cons e es)
  let ?f = "\<lambda>e. tp_value_encode heap (e_val e)"
  have s: "for_each ?f (e # es) = sbind (?f e) (\<lambda>_. for_each ?f es)" by (simp add: fun_eq_iff)
  show ?case
  proof (cases "nested (e_val e)")
    case True
    have "refuses heap TP_ERR_INVALID_PARAM (for_each ?f (e # es)) w 4"
      unfolding s by (rule refuses_first[OF nested_refused[OF True Cons.prems(3)]]) simp
    then show ?thesis using True by (simp add: plain_part_def values_bits_def del: for_each.simps)
  next
    case False
    let ?x = "value_enc (w_pos w) (e_val e)"
    have y: "yields heap (?f e) w ?x ()"
      using legible_writes[OF _ False Cons.prems(3)] Cons.prems(1) by (simp add: yields_unit)
    have "refuses heap TP_ERR_INVALID_PARAM (sbind (?f e) (\<lambda>_. for_each ?f es)) w
        (length ?x + (length (values_bits True (w_pos w + length ?x) (plain_part es)) + 4))"
    proof (rule refuses_after[OF y])
      fix w' assume a: "appended heap w ?x w'"
      then have "w_pos w' = w_pos w + length ?x" by (simp add: appended_def)
      then show "refuses heap TP_ERR_INVALID_PARAM (for_each ?f es) w'
          (length (values_bits True (w_pos w + length ?x) (plain_part es)) + 4)"
        using Cons.IH[of w'] Cons.prems False appended_ok[OF a] by simp
    qed
    then show ?thesis unfolding s using False by (simp add: plain_part_def values_bits_def add.assoc)
  qed
qed simp

text \<open>Bounds on the keys: with less than \<open>2 ^ 56\<close> key bytes and keys no size computation wraps.\<close>

definition key_volume :: "tp_entry list \<Rightarrow> nat" where
  "key_volume es = sum_list (map e_key_len es) + length es"

lemma keys_range_ok: "keys_sorted es \<Longrightarrow> range_ok hv 0 es"
  by (auto simp: keys_sorted_def range_ok_def ordered_def rest_def comp_def)

lemma total_len_rest: "\<forall>e \<in> set es. entry_ok e \<Longrightarrow> total_len (rest hv 0 es) = sum_list (map e_key_len es)"
  by (induction es) simp_all

lemma keys_trie:
  assumes "keys_sorted es"
  shows "depth (trie_of (rest hv 0 es)) \<le> trie_fuel es"
    and "nterms (trie_of (rest hv 0 es)) = length es"
    and "s_bits_per_symbol si \<le> b \<Longrightarrow> length (ser si vi (trie_of (rest hv 0 es))) \<le> (160 + 3 * b) * key_volume es"
    and "flat (trie_of (rest hv 0 es)) = rest hv 0 es"
    and "es \<noteq> [] \<Longrightarrow> wf_trie (trie_of (rest hv 0 es))"
proof -
  have r: "range_ok hv 0 es" using keys_range_ok[OF assms] .
  then have o: "ordered (rest hv 0 es)" by (simp add: range_ok_def)
  have ok: "\<forall>e \<in> set es. entry_ok e" using assms by (simp add: keys_sorted_def)
  have "\<forall>x \<in> set (rest hv 0 es). length (fst x) \<le> fold max (map e_key_len es) 0"
  proof -
    have "\<forall>k \<in> set (map e_key_len es). k \<le> fold max (map e_key_len es) 0"
      using fold_max_le[of "map e_key_len es" 0 "fold max (map e_key_len es) 0"] by simp
    then show ?thesis using ok by (auto simp: set_rest)
  qed
  then show "depth (trie_of (rest hv 0 es)) \<le> trie_fuel es"
    using depth_trie_of[OF o] by (simp add: trie_fuel_def)
  show "nterms (trie_of (rest hv 0 es)) = length es" using nterms_range[OF r] .
  show "flat (trie_of (rest hv 0 es)) = rest hv 0 es" using flat_trie_of[OF o] .
  show "es \<noteq> [] \<Longrightarrow> wf_trie (trie_of (rest hv 0 es))" using wf_trie_of[OF o] by simp
  assume "s_bits_per_symbol si \<le> b"
  then have "length (ser si vi (trie_of (rest hv 0 es))) \<le> (160 + 3 * b) * weight (trie_of (rest hv 0 es))"
    by (rule length_ser)
  also have "\<dots> \<le> (160 + 3 * b) * key_volume es"
    using weight_trie_of[OF o] total_len_rest[OF ok] by (intro mult_le_mono2) (simp add: key_volume_def)
  finally show "length (ser si vi (trie_of (rest hv 0 es))) \<le> (160 + 3 * b) * key_volume es" .
qed

text \<open>An encoder that can be written: what sorting, deduplicating and analysing establish for any width and
  any values whose bytes are there.\<close>

definition writable :: "tp_encoder \<Rightarrow> bool" where
  "writable enc \<longleftrightarrow> enc_ok enc \<and> keys_sorted (en_entries enc) \<and> 1 \<le> s_bits_per_symbol (en_sym enc) \<and>
     s_bits_per_symbol (en_sym enc) \<le> 15 \<and> s_symbol_count (en_sym enc) \<le> 255 \<and>
     (\<forall>e \<in> set (en_entries enc). legible (e_val e)) \<and> key_volume (en_entries enc) < 72057594037927936"

text \<open>An encoder whose file reads back: the width holds the codes, and the format can hold the values.\<close>

definition canonical :: "u8 set \<Rightarrow> tp_symbol_info \<Rightarrow> bool" where
  "canonical al si \<longleftrightarrow> symbols_ok al si \<and> 6 \<le> s_symbol_count si \<and> s_symbol_count si \<le> 255 \<and>
     (\<forall>c < 6. ctrl_code si c = c) \<and>
     (\<forall>c \<in> al. 6 \<le> symbol_code si c \<and> symbol_code si c < s_symbol_count si) \<and>
     (\<forall>code. 6 \<le> code \<longrightarrow> code < s_symbol_count si \<longrightarrow>
        s_reverse_map si ! code \<in> al \<and> symbol_code si (s_reverse_map si ! code) = code)"

definition ready :: "tp_encoder \<Rightarrow> bool" where
  "ready enc \<longleftrightarrow> enc_ok enc \<and> keys_sorted (en_entries enc) \<and>
     canonical (alphabet (en_entries enc)) (en_sym enc) \<and>
     (\<forall>e \<in> set (en_entries enc). storable (e_val e)) \<and> key_volume (en_entries enc) < 72057594037927936"

lemma ready_writable: "ready enc \<Longrightarrow> writable enc \<and> (\<forall>e \<in> set (en_entries enc). \<not> nested (e_val e))"
  using symbols_okD(1,2)[of "alphabet (en_entries enc)" "en_sym enc"] storable_legible
  by (fastforce simp: ready_def writable_def canonical_def)

definition stream_bits :: "tp_encoder \<Rightarrow> bool \<Rightarrow> bool list" where
  "stream_bits enc hv =
     config_enc (en_sym enc) @ trie_bits (en_sym enc) hv (en_entries enc) @
     values_bits hv (256 + length (config_enc (en_sym enc)) + length (trie_bits (en_sym enc) hv (en_entries enc)))
       (en_entries enc)"

text \<open>What is on the stream when the value store ends, all of it or up to the first value refused.\<close>

definition written_bits :: "tp_encoder \<Rightarrow> bool \<Rightarrow> bool list" where
  "written_bits enc hv =
     config_enc (en_sym enc) @ trie_bits (en_sym enc) hv (en_entries enc) @
     values_bits hv (256 + length (config_enc (en_sym enc)) + length (trie_bits (en_sym enc) hv (en_entries enc)))
       (plain_part (en_entries enc))"

lemma written_plain: "\<forall>e \<in> set (en_entries enc). \<not> nested (e_val e) \<Longrightarrow> written_bits enc hv = stream_bits enc hv"
  by (simp add: written_bits_def stream_bits_def plain_part_def takeWhile_eq_all_conv[THEN iffD2])

definition trie_off :: "tp_encoder \<Rightarrow> nat" where
  "trie_off enc = length (config_enc (en_sym enc))"

definition value_off :: "tp_encoder \<Rightarrow> bool \<Rightarrow> nat" where
  "value_off enc hv = trie_off enc + length (trie_bits (en_sym enc) hv (en_entries enc))"

lemma trie_part_yields:
  assumes r: "writable enc" and ok: "writer_ok heap w" and es: "es = en_entries enc" and si: "si = en_sym enc"
  shows "yields heap (if en_count enc > 0 then
               sbind (trie_write (trie_fuel es) heap si es 0 hv 0) (\<lambda>_. sret ())
             else sret ()) w (trie_bits si hv es) ()"
proof (cases "es = []")
  case True
  then show ?thesis using r ok es yields_sret[OF ok, of "()"]
    by (simp add: writable_def enc_ok_def trie_bits_def del: sret_apply)
next
  case False
  have ks: "keys_sorted es" and bps: "1 \<le> s_bits_per_symbol si" "s_bits_per_symbol si \<le> 15"
    and cnt: "length es < 4294967296" "en_count enc > 0" and vol: "key_volume es < 72057594037927936"
    using r es si False by (auto simp: writable_def enc_ok_def)
  note kt = keys_trie[OF ks]
  have "length (ser si 0 (trie_of (rest hv 0 es))) < 18446744073709551616"
    using kt(3)[OF bps(2), of 0 hv] by (rule le_less_trans) (use vol in simp)
  then have y: "yields heap (trie_write (trie_fuel es) heap si es 0 hv 0) w (ser si 0 (trie_of (rest hv 0 es)))
      (0 + nterms (trie_of (rest hv 0 es)))"
    using kt(1,2) keys_range_ok[OF ks] False cnt ok by (intro trie_write_yields bps) simp_all
  have "yields heap (sbind (trie_write (trie_fuel es) heap si es 0 hv 0) (\<lambda>_. sret ())) w
      (ser si 0 (trie_of (rest hv 0 es)) @ []) ()"
    by (rule yields_sbind[OF y]) (auto intro: yields_sret dest: appended_ok)
  then show ?thesis using cnt False by (simp add: trie_bits_def)
qed

lemma stream_yields:
  assumes r: "writable enc" and pl: "\<forall>e \<in> set (en_entries enc). \<not> nested (e_val e)"
    and ok: "writer_ok heap w" and w0: "w_pos w = 0"
  shows "yields heap (write_stream heap enc hv) w
    (header_enc (build_header (en_count enc) hv) @ stream_bits enc hv)
    (trie_off enc, value_off enc hv, length (stream_bits enc hv))"
proof -
  let ?es = "en_entries enc" and ?si = "en_sym enc" and ?h = "build_header (en_count enc) hv"
  let ?c = "config_enc ?si" and ?t = "trie_bits ?si hv ?es"
  let ?v = "values_bits hv (256 + length ?c + length ?t) ?es"
  have take: "take (en_count enc) (en_entries enc) = ?es" using r by (simp add: writable_def enc_ok_def)
  have bps: "1 \<le> s_bits_per_symbol ?si" "s_bits_per_symbol ?si \<le> 15" "s_symbol_count ?si \<le> 255"
    and st: "\<forall>e \<in> set ?es. legible (e_val e) \<and> \<not> nested (e_val e)" using r pl by (simp_all add: writable_def)
  have head: "yields heap (tp_header_write heap ?h) w (header_enc ?h) ()"
    using header_writes[OF ok] by (simp add: yields_unit)
  have "yields heap (write_stream heap enc hv) w (header_enc ?h @ ?c @ ?t @ ?v @ [])
    (trie_off enc, value_off enc hv, length (stream_bits enc hv))"
    unfolding write_stream_def Let_def take
  proof (rule yields_at[OF head], rule yields_position, rule yields_at[OF config_yields[OF bps]], assumption,
      rule yields_position, rule yields_at[OF trie_part_yields[OF r _ refl refl]], assumption,
      rule yields_position)
    fix w1 w2 w3
    assume p: "w_pos w1 = w_pos w + length (header_enc ?h)" "w_pos w2 = w_pos w1 + length ?c"
      "w_pos w3 = w_pos w2 + length ?t" and ok3: "writer_ok heap w3"
    have v: "?v = values_bits hv (w_pos w3) ?es" using p w0 by simp
    show "yields heap (sbind (if hv then for_each (\<lambda>e. tp_value_encode heap (e_val e)) ?es else sret ()) (\<lambda>_.
        sbind writer_position (\<lambda>end_pos.
        sret (w_pos w2 - w_pos w1, w_pos w3 - w_pos w1, end_pos - w_pos w1)))) w3
        (?v @ []) (trie_off enc, value_off enc hv, length (stream_bits enc hv))"
      unfolding v
    proof (rule yields_at[OF values_yields[OF st ok3]], rule yields_position)
      fix w4 assume "writer_ok heap w4" "w_pos w4 = w_pos w3 + length (values_bits hv (w_pos w3) ?es)"
      then show "yields heap (sret (w_pos w2 - w_pos w1, w_pos w3 - w_pos w1, w_pos w4 - w_pos w1)) w4 []
          (trie_off enc, value_off enc hv, length (stream_bits enc hv))"
        using yields_sret p w0 by (simp add: trie_off_def value_off_def stream_bits_def v[symmetric] del: sret_apply)
    qed
  qed
  then show ?thesis by (simp add: stream_bits_def)
qed

text \<open>The next part starts where the one before ended, and it refuses.\<close>

lemma refuses_at:
  assumes "yields heap m w xs ()"
    and "\<And>w'. writer_ok heap w' \<Longrightarrow> w_pos w' = w_pos w + length xs \<Longrightarrow> refuses heap e n w' k"
  shows "refuses heap e (sbind m (\<lambda>_. n)) w (length xs + k)"
  using assms by (intro refuses_after) (auto simp: appended_def)

lemma stream_refused:
  assumes r: "writable enc" and ne: "\<exists>e \<in> set (en_entries enc). nested (e_val e)"
    and ok: "writer_ok heap w" and w0: "w_pos w = 0"
  shows "refuses heap TP_ERR_INVALID_PARAM (write_stream heap enc True) w (256 + length (written_bits enc True) + 4)"
proof -
  let ?es = "en_entries enc" and ?si = "en_sym enc" and ?h = "build_header (en_count enc) True"
  let ?c = "config_enc ?si" and ?t = "trie_bits ?si True ?es"
  let ?v = "values_bits True (256 + length ?c + length ?t) (plain_part ?es)"
  have take: "take (en_count enc) (en_entries enc) = ?es" using r by (simp add: writable_def enc_ok_def)
  have bps: "1 \<le> s_bits_per_symbol ?si" "s_bits_per_symbol ?si \<le> 15" "s_symbol_count ?si \<le> 255"
    and st: "\<forall>e \<in> set ?es. legible (e_val e)" using r by (simp_all add: writable_def)
  have head: "yields heap (tp_header_write heap ?h) w (header_enc ?h) ()"
    using header_writes[OF ok] by (simp add: yields_unit)
  have "refuses heap TP_ERR_INVALID_PARAM (write_stream heap enc True) w
      (length (header_enc ?h) + (length ?c + (length ?t + (length ?v + 4))))"
    unfolding write_stream_def Let_def take
  proof (rule refuses_at[OF head], rule refuses_position, rule refuses_at[OF config_yields[OF bps]], assumption,
      rule refuses_position, rule refuses_at[OF trie_part_yields[OF r _ refl refl]], assumption,
      rule refuses_position)
    fix w1 w2 w3
    assume p: "w_pos w1 = w_pos w + length (header_enc ?h)" "w_pos w2 = w_pos w1 + length ?c"
      "w_pos w3 = w_pos w2 + length ?t" and ok3: "writer_ok heap w3"
    have v: "?v = values_bits True (w_pos w3) (plain_part ?es)" using p w0 by simp
    have vr: "refuses heap TP_ERR_INVALID_PARAM (if True then for_each (\<lambda>e. tp_value_encode heap (e_val e)) ?es else sret ()) w3
        (length ?v + 4)" using values_refused[OF st ne ok3] unfolding v by simp
    show "refuses heap TP_ERR_INVALID_PARAM (sbind (if True then for_each (\<lambda>e. tp_value_encode heap (e_val e)) ?es else sret ()) (\<lambda>_.
        sbind writer_position (\<lambda>end_pos.
        sret (w_pos w2 - w_pos w1, w_pos w3 - w_pos w1, end_pos - w_pos w1)))) w3 (length ?v + 4)"
      by (rule refuses_first[OF vr]) simp
  qed
  then show ?thesis by (simp add: written_bits_def add.assoc)
qed

section \<open>Patching the block\<close>

lemma next_multiple: "p + (8 - p mod 8) mod 8 = 8 * ((p + 7) div 8)" for p :: nat
proof -
  have m: "p = 8 * (p div 8) + p mod 8" "p mod 8 < 8" by simp_all
  obtain d r where p: "p = 8 * d + r" "r < 8" using m by blast
  show ?thesis
  proof (cases "r = 0")
    case False
    then have "(8 * d + r + 7) div 8 = d + 1" "(8 - r) mod 8 = 8 - r" using p(2) by auto
    then show ?thesis using p by simp
  qed (simp add: p(1))
qed

lemma has_bits_agree:
  assumes "has_bits buf p xs" and "length buf' = length buf"
    and "\<And>j. p < 8 * j + 8 \<Longrightarrow> 8 * j < p + length xs \<Longrightarrow> buf' ! j = buf ! j"
  shows "has_bits buf' p xs"
proof -
  have "bit_at buf' (p + k) = bit_at buf (p + k)" if "k < length xs" for k
  proof -
    have "8 * ((p + k) div 8) \<le> p + k" "p + k < 8 * ((p + k) div 8) + 8" by simp_all
    then have "p < 8 * ((p + k) div 8) + 8" "8 * ((p + k) div 8) < p + length xs" using that by linarith+
    then show ?thesis using assms(3) by (simp add: bit_at_def)
  qed
  then show ?thesis using assms by (simp add: has_bits_def)
qed

lemma nbits_split: "nbits (m + n) v = nbits m (drop_bit n v) @ nbits n (v :: 'a::len word)"
proof (rule nth_equalityI)
  fix i assume "i < length (nbits (m + n) v)"
  then show "nbits (m + n) v ! i = (nbits m (drop_bit n v) @ nbits n v) ! i"
    by (cases "i < m") (auto simp: nth_append bit_drop_bit_eq intro!: arg_cong[of _ _ "bit v"])
qed simp

lemma nbits_be32:
  "nbits 32 (x :: u64) = nbits 8 (ucast (drop_bit 24 x) :: u8) @ nbits 8 (ucast (drop_bit 16 x) :: u8) @
     nbits 8 (ucast (drop_bit 8 x) :: u8) @ nbits 8 (ucast x :: u8)"
  using nbits_split[of 24 8 x] nbits_split[of 16 8 "drop_bit 8 x"] nbits_split[of 8 8 "drop_bit 16 x"]
  by (simp add: nbits_ucast)

lemma put_be32_ok:
  assumes "i + 4 \<le> length buf"
  shows "\<exists>buf'. put_be32 i x buf = Ok buf' \<and> length buf' = length buf \<and> has_bits buf' (8 * i) (nbits 32 x) \<and>
    (\<forall>j. j < i \<or> i + 4 \<le> j \<longrightarrow> buf' ! j = buf ! j)"
proof -
  let ?b = "buf[i := ucast (drop_bit 24 x), i + 1 := ucast (drop_bit 16 x),
    i + 2 := ucast (drop_bit 8 x), i + 3 := ucast x]"
  have "put_be32 i x buf = Ok ?b" using assms by (simp add: put_be32_def store_byte_def)
  moreover have "has_bits ?b (8 * i) (nbits 32 x)"
    unfolding nbits_be32
    using has_bits_byte[of i ?b] has_bits_byte[of "i + 1" ?b] has_bits_byte[of "i + 2" ?b] has_bits_byte[of "i + 3" ?b] assms
    by (intro has_bits_appendI) (simp_all add: nth_list_update add.commute)
  ultimately show ?thesis by (intro exI[of _ ?b]) auto
qed

lemma put_be32_keeps:
  assumes i: "i + 4 \<le> length buf"
  shows "\<exists>buf'. put_be32 i x buf = Ok buf' \<and> length buf' = length buf \<and> has_bits buf' (8 * i) (nbits 32 x) \<and>
    take i buf' = take i buf \<and>
    (\<forall>p xs. has_bits buf p xs \<longrightarrow> p + length xs \<le> 8 * i \<or> 8 * i + 32 \<le> p \<longrightarrow> has_bits buf' p xs)"
proof -
  obtain buf' where b: "put_be32 i x buf = Ok buf'" "length buf' = length buf"
      "has_bits buf' (8 * i) (nbits 32 x)" "\<forall>j. j < i \<or> i + 4 \<le> j \<longrightarrow> buf' ! j = buf ! j"
    using put_be32_ok[OF i] by blast
  have "has_bits buf' p xs" if "has_bits buf p xs" "p + length xs \<le> 8 * i \<or> 8 * i + 32 \<le> p" for p xs
    by (rule has_bits_agree[OF that(1) b(2)]) (use b(4) that(2) in auto)
  moreover have "take i buf' = take i buf" using b(2,4) i by (intro nth_equalityI) auto
  ultimately show ?thesis using b by blast
qed

definition patched_header :: "nat \<Rightarrow> nat \<Rightarrow> nat \<Rightarrow> tp_header \<Rightarrow> tp_header" where
  "patched_header t v n h = h\<lparr>h_trie_data_offset := word_of_nat t, h_value_store_offset := word_of_nat v,
     h_suffix_table_offset := 0, h_total_data_bits := word_of_nat n\<rparr>"

lemma nbits32_of_nat: "nbits 32 (word_of_nat n :: u32) = nbits 32 (word_of_nat n :: u64)"
proof -
  have "(word_of_nat n :: u32) = ucast (word_of_nat n :: u64)"
    by (simp add: word_unat_eq_iff unsigned_ucast_eq unsigned_of_nat take_bit_take_bit)
  then show ?thesis by (simp add: nbits_ucast)
qed

definition header_front :: "tp_header \<Rightarrow> bool list" where
  "header_front h = nbits 8 (h_magic_0 h) @ nbits 8 (h_magic_1 h) @ nbits 8 (h_magic_2 h) @
     nbits 8 (h_magic_3 h) @ nbits 8 (h_version_major h) @ nbits 8 (h_version_minor h) @
     nbits 16 (h_flags h) @ nbits 32 (h_num_keys h)"

lemma length_header_front [simp]: "length (header_front h) = 96"
  by (simp add: header_front_def)

lemma header_enc_front: "header_enc h = header_front h @ nbits 32 (h_trie_data_offset h) @
    nbits 32 (h_value_store_offset h) @ nbits 32 (h_suffix_table_offset h) @
    nbits 32 (h_total_data_bits h) @ nbits 32 (h_reserved h)"
  by (simp add: header_enc_def header_front_def)

lemma header_front_patched [simp]: "header_front (patched_header t v n h) = header_front h"
  by (simp add: header_front_def patched_header_def)

lemma patch_header_ok:
  assumes h: "has_bits buf 0 (header_enc h @ xs)" and len: "28 \<le> length buf"
  obtains b1 b2 b3 b4 where "put_be32 12 (word_of_nat t) buf = Ok b1" and "put_be32 16 (word_of_nat v) b1 = Ok b2"
    and "put_be32 20 0 b2 = Ok b3" and "put_be32 24 (word_of_nat n) b3 = Ok b4" and "length b4 = length buf"
    and "has_bits b4 0 (header_enc (patched_header t v n h) @ xs)"
proof -
  let ?R = "nbits 32 (h_reserved h) @ xs"
  have A: "has_bits buf 0 (header_front h)" and R: "has_bits buf 224 ?R"
    using h by (simp_all add: header_enc_front has_bits_append)
  obtain b1 where b1: "put_be32 12 (word_of_nat t) buf = Ok b1" "length b1 = length buf"
      "has_bits b1 (8 * 12) (nbits 32 (word_of_nat t :: u64))"
      and k1: "\<And>p xs. has_bits buf p xs \<Longrightarrow> p + length xs \<le> 8 * 12 \<or> 8 * 12 + 32 \<le> p \<Longrightarrow> has_bits b1 p xs"
    using put_be32_keeps[of 12 buf "word_of_nat t"] len by auto
  obtain b2 where b2: "put_be32 16 (word_of_nat v) b1 = Ok b2" "length b2 = length b1"
      "has_bits b2 (8 * 16) (nbits 32 (word_of_nat v :: u64))"
      and k2: "\<And>p xs. has_bits b1 p xs \<Longrightarrow> p + length xs \<le> 8 * 16 \<or> 8 * 16 + 32 \<le> p \<Longrightarrow> has_bits b2 p xs"
    using put_be32_keeps[of 16 b1 "word_of_nat v"] len b1(2) by auto
  obtain b3 where b3: "put_be32 20 0 b2 = Ok b3" "length b3 = length b2"
      "has_bits b3 (8 * 20) (nbits 32 (0 :: u64))"
      and k3: "\<And>p xs. has_bits b2 p xs \<Longrightarrow> p + length xs \<le> 8 * 20 \<or> 8 * 20 + 32 \<le> p \<Longrightarrow> has_bits b3 p xs"
    using put_be32_keeps[of 20 b2 0] len b1(2) b2(2) by auto
  obtain b4 where b4: "put_be32 24 (word_of_nat n) b3 = Ok b4" "length b4 = length b3"
      "has_bits b4 (8 * 24) (nbits 32 (word_of_nat n :: u64))"
      and k4: "\<And>p xs. has_bits b3 p xs \<Longrightarrow> p + length xs \<le> 8 * 24 \<or> 8 * 24 + 32 \<le> p \<Longrightarrow> has_bits b4 p xs"
    using put_be32_keeps[of 24 b3 "word_of_nat n"] len b1(2) b2(2) b3(2) by auto
  have "has_bits b4 0 (header_front h)" using A by (intro k4 k3 k2 k1) simp_all
  moreover have "has_bits b4 96 (nbits 32 (word_of_nat t :: u64))" using b1(3) by (intro k4 k3 k2) simp_all
  moreover have "has_bits b4 128 (nbits 32 (word_of_nat v :: u64))" using b2(3) by (intro k4 k3) simp_all
  moreover have "has_bits b4 160 (nbits 32 (0 :: u64))" using b3(3) by (intro k4) simp_all
  moreover have "has_bits b4 224 ?R" using R by (intro k4 k3 k2 k1) simp_all
  ultimately have "has_bits b4 0 (header_enc (patched_header t v n h) @ xs)"
    using b4(3) nbits32_of_nat[of 0]
    by (simp add: header_enc_front has_bits_append patched_header_def[of t v n h] nbits32_of_nat
        header_front_patched[unfolded patched_header_def])
  then show thesis using that b1(1,2) b2(1,2) b3(1,2) b4(1,2) by simp
qed

text \<open>The layout of a finished file: patched header, data stream, padding, checksum.\<close>

definition file_header :: "tp_encoder \<Rightarrow> bool \<Rightarrow> tp_header" where
  "file_header enc hv = patched_header (trie_off enc) (value_off enc hv) (length (stream_bits enc hv))
     (build_header (en_count enc) hv)"

definition file_layout :: "tp_encoder \<Rightarrow> bool \<Rightarrow> u8 list \<Rightarrow> nat \<Rightarrow> bool" where
  "file_layout enc hv buf len \<longleftrightarrow>
     len = (256 + length (stream_bits enc hv) + 7) div 8 + 4 \<and> len \<le> length buf \<and>
     length buf \<le> 1152921504606846976 \<and>
     length (stream_bits enc hv) \<le> UINT32_MAX \<and>
     has_bits buf 0 (header_enc (file_header enc hv) @ stream_bits enc hv @ pad_bits (length (stream_bits enc hv))) \<and>
     (\<exists>crc :: u32. crc = foldl crc32_step 0xFFFFFFFF (take (len - 4) buf) XOR 0xFFFFFFFF \<and>
       has_bits buf (8 * (len - 4)) (nbits 32 crc))"

lemma patch_file_ok:
  assumes h: "has_bits buf 0 (header_enc h @ xs)" and len: "36 \<le> byte_len" "byte_len \<le> length buf"
    and xs: "256 + length xs \<le> 8 * (byte_len - 4)"
  shows "\<exists>buf'. patch_file t v n byte_len buf = Ok (buf', byte_len) \<and> length buf' = length buf \<and>
    has_bits buf' 0 (header_enc (patched_header t v n h) @ xs) \<and>
    (\<exists>crc :: u32. crc = foldl crc32_step 0xFFFFFFFF (take (byte_len - 4) buf') XOR 0xFFFFFFFF \<and>
      has_bits buf' (8 * (byte_len - 4)) (nbits 32 crc))"
proof -
  obtain b1 b2 b3 b4 where b: "put_be32 12 (word_of_nat t) buf = Ok b1" "put_be32 16 (word_of_nat v) b1 = Ok b2"
    "put_be32 20 0 b2 = Ok b3" "put_be32 24 (word_of_nat n) b3 = Ok b4" "length b4 = length buf"
    "has_bits b4 0 (header_enc (patched_header t v n h) @ xs)"
    using len by (auto intro: patch_header_ok[OF h, of t v n])
  let ?L = "byte_len - 4"
  let ?crc = "foldl crc32_step 0xFFFFFFFF (take ?L b4) XOR 0xFFFFFFFF"
  have crc: "(tp_crc32 b4 ?L :: u32 tp) = Ok ?crc" using len b(5) by (simp add: tp_crc32_def)
  obtain b5 where b5: "put_be32 ?L (ucast ?crc) b4 = Ok b5" "length b5 = length b4"
      "has_bits b5 (8 * ?L) (nbits 32 (ucast ?crc :: u64))" "take ?L b5 = take ?L b4"
      and k5: "\<And>p xs. has_bits b4 p xs \<Longrightarrow> p + length xs \<le> 8 * ?L \<or> 8 * ?L + 32 \<le> p \<Longrightarrow> has_bits b5 p xs"
    using put_be32_keeps[of ?L b4 "ucast ?crc"] len b(5) by auto
  have "patch_file t v n byte_len buf = Ok (b5, byte_len)"
    using b crc b5(1) by (simp add: patch_file_def Let_def)
  moreover have "has_bits b5 0 (header_enc (patched_header t v n h) @ xs)"
    using b(6) xs by (intro k5) simp_all
  moreover have "has_bits b5 (8 * ?L) (nbits 32 ?crc)"
    using b5(3) by (simp add: nbits_ucast)
  ultimately show ?thesis using b(5) b5(2,4) by (intro exI[of _ b5]) simp
qed

text \<open>Finishing a written stream: too long, out of memory, or the file.\<close>

lemma finish_file_ok:
  assumes ok: "writer_ok heap w" and r: "w_bits w = header_enc (build_header (en_count enc) hv) @ stream_bits enc hv"
  shows "(UINT32_MAX < length (stream_bits enc hv) \<and>
      fst (finish_file heap (trie_off enc, value_off enc hv, length (stream_bits enc hv)) w) = Err TP_ERR_OVERFLOW) \<or>
    (fst (finish_file heap (trie_off enc, value_off enc hv, length (stream_bits enc hv)) w) = Err TP_ERR_ALLOC \<and>
      \<not> room heap w 40) \<or>
    (\<exists>buf len. fst (finish_file heap (trie_off enc, value_off enc hv, length (stream_bits enc hv)) w) = Ok (buf, len) \<and>
      file_layout enc hv buf len)"
proof -
  let ?S = "stream_bits enc hv" let ?n = "length ?S" and ?t = "trie_off enc" and ?v = "value_off enc hv"
  let ?pad = "pad_bits (w_pos w)"
  have pos: "w_pos w = 256 + ?n" using arg_cong[OF r, of length] by simp
  have le: "?t \<le> ?n" "?v \<le> ?n" by (simp_all add: trie_off_def value_off_def stream_bits_def)
  show ?thesis
  proof (cases "?n > UINT32_MAX")
    case True
    then show ?thesis by (simp add: finish_file_def)
  next
    case False
    then have f: "finish_file heap (?t, ?v, ?n) = sbind (tp_bs_writer_align_to_byte heap) (\<lambda>_.
          sbind (\<lambda>w. (tp_crc32 (fst (tp_bs_writer_get_buffer w)) (tp_bs_writer_position w div 8), w)) (\<lambda>crc.
          sbind (tp_bs_write_u32 heap crc) (\<lambda>_ w.
            case tp_bs_writer_detach_buffer heap w of
              ((rc, out_buf, out_byte_len, _), w') \<Rightarrow>
                if rc \<noteq> TP_OK then (Err rc, w') else (patch_file ?t ?v ?n out_byte_len out_buf, w'))))"
      using le by (simp add: finish_file_def)
    have al: "writes heap (tp_bs_writer_align_to_byte heap) w ?pad"
      using align_writes[OF ok] by (simp add: pad_bits_def)
    have "(256 + ?n) mod 8 = ?n mod 8" by presburger
    then have pad: "?pad = pad_bits ?n" by (simp add: pos pad_bits_def)
    have lp: "length ?pad \<le> 7" by (simp add: pad_bits_def)
    show ?thesis
    proof (cases "fst (tp_bs_writer_align_to_byte heap w) = Err TP_ERR_ALLOC \<and> \<not> room heap w (length ?pad)")
      case True
      then have "\<not> room heap w 40" using room_mono[of heap w 40 "length ?pad"] lp by auto
      then show ?thesis using True by (auto simp: f sbind_def split: prod.splits)
    next
      case no_err: False
      then obtain w1 where w1: "tp_bs_writer_align_to_byte heap w = (Ok (), w1)" "appended heap w ?pad w1"
        using al by (auto simp: writes_def)
      note ok1 = appended_ok[OF w1(2)]
      define q where "q = (256 + ?n + 7) div 8"
      have p1: "w_pos w1 = 8 * q"
        using w1(2) pos next_multiple[of "256 + ?n"] by (simp add: appended_def pad_bits_def q_def)
      then have pe: "256 + ?n + length ?pad = 8 * q" using w1(2) pos by (simp add: appended_def)
      have q1: "q \<le> length (w_buf w1)" using ok1 p1 by (simp add: writer_ok_def)
      define crc where "crc = foldl crc32_step 0xFFFFFFFF (take q (w_buf w1)) XOR 0xFFFFFFFF"
      have c: "(tp_crc32 (fst (tp_bs_writer_get_buffer w1)) (tp_bs_writer_position w1 div 8) :: u32 tp) = Ok crc"
        using q1 p1 by (simp add: tp_crc32_def tp_bs_writer_get_buffer_def tp_bs_writer_position_def crc_def)
      have wr: "writes heap (tp_bs_write_u32 heap crc) w1 (nbits 32 crc)" by (rule u32c.wr_writes[OF _ ok1]) simp
      show ?thesis
      proof (cases "fst (tp_bs_write_u32 heap crc w1) = Err TP_ERR_ALLOC \<and> \<not> room heap w1 32")
        case True
        then have "\<not> room heap w 40" using room_appended[OF w1(2), of 32] room_mono[of heap w 40 "length ?pad + 32"] lp by auto
        then show ?thesis using True w1 c by (auto simp: f sbind_def split: prod.splits)
      next
        case no_err2: False
        then obtain w2 where w2: "tp_bs_write_u32 heap crc w1 = (Ok (), w2)" "appended heap w1 (nbits 32 crc) w2"
          using wr by (auto simp: writes_def)
        note ok2 = appended_ok[OF w2(2)]
        have p2: "w_pos w2 = 8 * q + 32" using w2(2) p1 by (simp add: appended_def)
        have cap: "length (w_buf w2) = w_cap w2" "8 * q + 32 \<le> 8 * w_cap w2" "w_cap w2 \<le> heap"
            "w_cap w2 \<le> 1152921504606846976"
          using ok2 p2 by (auto simp: writer_ok_def)
        have len: "wrap64 (w_pos w2 + 7) div 8 = q + 4" using p2 cap by (simp add: wrap64_def)
        have "w_bits w2 = header_enc (build_header (en_count enc) hv) @ (?S @ ?pad) @ nbits 32 crc"
          using w2(2) w1(2) r by (simp add: appended_def)
        then have hb: "has_bits (w_buf w2) 0 (header_enc (build_header (en_count enc) hv) @ (?S @ ?pad))"
          using has_bits_w_bits[OF ok2] by (simp add: has_bits_append)
        have "36 \<le> q + 4" by (simp add: q_def)
        with patch_file_ok[OF hb, of "q + 4" ?t ?v ?n] obtain buf where
          b: "patch_file ?t ?v ?n (q + 4) (w_buf w2) = Ok (buf, q + 4)" "length buf = length (w_buf w2)"
            "has_bits buf 0 (header_enc (file_header enc hv) @ ?S @ ?pad)"
            "\<exists>crc :: u32. crc = foldl crc32_step 0xFFFFFFFF (take q buf) XOR 0xFFFFFFFF \<and>
              has_bits buf (8 * q) (nbits 32 crc)"
          using cap pe unfolding file_header_def by auto
        have "fst (finish_file heap (?t, ?v, ?n) w) = Ok (buf, q + 4)"
          using w1(1) c w2(1) cap len b(1) by (simp add: f sbind_def tp_bs_writer_detach_buffer_def Let_def)
        moreover have "file_layout enc hv buf (q + 4)"
          using b cap False pad by (simp add: file_layout_def) (simp add: q_def)
        ultimately show ?thesis by blast
      qed
    qed
  qed
qed

section \<open>The whole build\<close>

lemma sum_list_distinct_le:
  "distinct xs \<Longrightarrow> set xs \<subseteq> set ys \<Longrightarrow> sum_list (map f xs) \<le> sum_list (map (f :: 'a \<Rightarrow> nat) ys)"
proof (induction xs arbitrary: ys)
  case (Cons x xs)
  have sub: "set xs \<subseteq> set (remove1 x ys)"
  proof
    fix y assume y: "y \<in> set xs"
    then have "y \<noteq> x" using Cons.prems(1) by auto
    then show "y \<in> set (remove1 x ys)" using y Cons.prems(2) by (simp add: in_set_remove1 subset_iff)
  qed
  then have "sum_list (map f xs) \<le> sum_list (map f (remove1 x ys))"
    by (intro Cons.IH) (use Cons.prems sub in simp_all)
  then show ?case using Cons.prems sum_list_map_remove1[of x ys f] by simp
qed simp

lemma key_volume_sub:
  assumes "keys_sorted es" and "set es \<subseteq> set es'" shows "key_volume es \<le> key_volume es'"
proof -
  have "distinct (map entry_key es)" using assms(1) strict_sorted_iff by (auto simp: keys_sorted_def)
  then have d: "distinct es" by (simp add: distinct_map)
  have "key_volume xs = sum_list (map (\<lambda>e. Suc (e_key_len e)) xs)" for xs
    by (induction xs) (simp_all add: key_volume_def)
  then show ?thesis using sum_list_distinct_le[OF d assms(2), of "\<lambda>e. Suc (e_key_len e)"] by simp
qed

lemma alphabet_keys:
  "set (map entry_key es) = set (map entry_key es') \<Longrightarrow> alphabet es = alphabet es'"
  by (simp add: alphabet_def)

definition any_value :: "tp_encoder \<Rightarrow> bool" where
  "any_value enc = list_ex (has_value True) (en_entries enc)"

text \<open>What a client of the encoder has to guarantee for a file that reads back, and what sorting and
  analysing make of it: a width that holds the symbols, values of the scalar kinds, and less than \<open>2 ^ 56\<close>
  key bytes.\<close>

definition buildable :: "tp_encoder \<Rightarrow> bool" where
  "buildable enc \<longleftrightarrow> enc_ok enc \<and> width_fits enc \<and>
     (\<forall>e \<in> set (en_entries enc). storable (e_val e)) \<and> key_volume (en_entries enc) < 72057594037927936"

lemma prepare_alphabet:
  assumes "qsort_ok qs" and "enc_ok enc"
  shows "alphabet (en_entries (dedup_entries (sort_entries qs enc))) = alphabet (en_entries enc)"
  using prepare_ok(4)[OF assms refl] by (rule alphabet_keys)

lemma buildable_ready:
  assumes q: "qsort_ok qs" and b: "buildable enc" and al: "card (alphabet (en_entries enc)) \<le> 249"
    and e2: "analyze_symbols (dedup_entries (sort_entries qs enc)) = Ok enc2"
  shows "ready enc2"
proof -
  let ?e1 = "dedup_entries (sort_entries qs enc)"
  have ok: "enc_ok enc" using b by (simp add: buildable_def)
  note p = prepare_ok[OF q ok refl] and a = prepare_alphabet[OF q ok]
  have "width_fits ?e1" using b a p(5) by (simp add: buildable_def width_fits_def)
  then obtain si where si: "analyze_symbols ?e1 = Ok (?e1\<lparr>en_sym := si\<rparr>)" "canonical (alphabet (en_entries ?e1)) si"
    using analyze_ok[OF p(1)] a al by (auto simp: canonical_def)
  have "ready (?e1\<lparr>en_sym := si\<rparr>)"
    using p(1-3) si(2) b key_volume_sub[OF p(2,3)] by (auto simp: ready_def buildable_def enc_ok_def)
  then show ?thesis using si(1) e2 by simp
qed

text \<open>The memory a build needs: the writer doubles its block.\<close>

definition build_room :: "nat \<Rightarrow> tp_encoder \<Rightarrow> bool \<Rightarrow> bool" where
  "build_room heap enc hv \<longleftrightarrow> 256 \<le> heap \<and> 2 * ((303 + length (written_bits enc hv)) div 8) \<le> heap"

lemma room_created: "w_pos w = 0 \<Longrightarrow> w_growth w = 0 \<Longrightarrow> build_room heap enc hv \<Longrightarrow>
    room heap w (256 + length (written_bits enc hv) + 40)"
  by (simp add: build_room_def room_def Let_def add.assoc)

lemma write_file_ok:
  assumes r: "writable enc" and pl: "\<forall>e \<in> set (en_entries enc). \<not> nested (e_val e)"
    and c: "tp_bs_writer_create heap 256 0 = Ok w" and h: "heap \<le> 1152921504606846976"
  shows "(fst (sbind (write_stream heap enc hv) (finish_file heap) w) = Err TP_ERR_ALLOC \<and> \<not> build_room heap enc hv) \<or>
    (UINT32_MAX < length (stream_bits enc hv) \<and>
      fst (sbind (write_stream heap enc hv) (finish_file heap) w) = Err TP_ERR_OVERFLOW) \<or>
    (\<exists>buf len. fst (sbind (write_stream heap enc hv) (finish_file heap) w) = Ok (buf, len) \<and>
      file_layout enc hv buf len)"
proof -
  have w: "writer_ok heap w" "w_bits w = []" "w_pos w = 0" "w_growth w = 0"
    using tp_bs_writer_create_ok[OF c h] by simp_all
  let ?H = "header_enc (build_header (en_count enc) hv)" and ?S = "stream_bits enc hv"
  have room: "room heap w (256 + length ?S + 40)" if "build_room heap enc hv"
    using room_created[OF w(3,4) that] written_plain[OF pl] by simp
  show ?thesis
  proof (cases "\<exists>w'. write_stream heap enc hv w = (Ok (trie_off enc, value_off enc hv, length ?S), w') \<and>
      appended heap w (?H @ ?S) w'")
    case True
    then obtain w' where w': "write_stream heap enc hv w = (Ok (trie_off enc, value_off enc hv, length ?S), w')"
      "appended heap w (?H @ ?S) w'" by blast
    then have "w_bits w' = ?H @ ?S"
      using w(2) by (simp add: appended_def)
    from finish_file_ok[OF appended_ok[OF w'(2)] this] show ?thesis
      using w'(1) room room_appended[OF w'(2), of 40] by (auto simp: sbind_def add.assoc)
  next
    case False
    then have "fst (write_stream heap enc hv w) = Err TP_ERR_ALLOC \<and> \<not> room heap w (length (?H @ ?S))"
      using stream_yields[OF r pl w(1,3), of hv] unfolding yields_def by blast
    moreover have "room heap w (length (?H @ ?S))" if "build_room heap enc hv"
      using room[OF that] by (rule room_mono) simp
    ultimately show ?thesis by (auto simp: sbind_fst_Err)
  qed
qed

lemma write_file_refused:
  assumes r: "writable enc" and ne: "\<exists>e \<in> set (en_entries enc). nested (e_val e)"
    and c: "tp_bs_writer_create heap 256 0 = Ok w" and h: "heap \<le> 1152921504606846976"
  shows "fst (sbind (write_stream heap enc True) (finish_file heap) w) = Err TP_ERR_INVALID_PARAM \<or>
    (fst (sbind (write_stream heap enc True) (finish_file heap) w) = Err TP_ERR_ALLOC \<and> \<not> build_room heap enc True)"
proof -
  have w: "writer_ok heap w" "w_pos w = 0" "w_growth w = 0"
    using tp_bs_writer_create_ok[OF c h] by simp_all
  have "refuses heap TP_ERR_INVALID_PARAM (sbind (write_stream heap enc True) (finish_file heap)) w
      (256 + length (written_bits enc True) + 40)"
    using stream_refused[OF r ne w(1,2)] by (rule refuses_first) simp
  then show ?thesis using room_created[OF w(2,3), of heap enc True] by (auto simp: refuses_def)
qed

lemma analyze_total:
  assumes ok: "enc_ok enc" shows "\<exists>enc'. analyze_symbols enc = Ok enc'"
  using ok scan_used_ok[of "en_entries enc"]
  by (auto simp: analyze_symbols_def Let_def enc_ok_def split: prod.splits)

text \<open>Every outcome of a build, for any width and any values.\<close>

lemma build_any:
  assumes q: "qsort_ok qs" and ok: "enc_ok enc" and leg: "\<forall>e \<in> set (en_entries enc). legible (e_val e)"
    and vol: "key_volume (en_entries enc) < 72057594037927936" and h: "heap \<le> 1152921504606846976"
  shows "if 249 < card (alphabet (en_entries enc)) then fst (tp_encoder_build qs heap enc) = Err TP_ERR_ALPHABET
    else \<exists>enc2. snd (tp_encoder_build qs heap enc) = enc2 \<and> (buildable enc \<longrightarrow> ready enc2) \<and>
      en_entries enc2 = en_entries (dedup_entries (sort_entries qs enc)) \<and>
      s_bits_per_symbol (en_sym enc2) = chosen_width enc \<and>
      (fst (tp_encoder_build qs heap enc) = Err TP_ERR_ALLOC \<and> \<not> build_room heap enc2 (any_value enc2) \<or>
       (if \<exists>e \<in> set (en_entries enc2). nested (e_val e) then fst (tp_encoder_build qs heap enc) = Err TP_ERR_INVALID_PARAM
        else fst (tp_encoder_build qs heap enc) = Err TP_ERR_OVERFLOW \<and> UINT32_MAX < length (stream_bits enc2 (any_value enc2)) \<or>
          (\<exists>buf len. fst (tp_encoder_build qs heap enc) = Ok (buf, len) \<and> file_layout enc2 (any_value enc2) buf len)))"
proof -
  let ?e1 = "dedup_entries (sort_entries qs enc)"
  note p = prepare_ok[OF q ok refl] and a = prepare_alphabet[OF q ok]
  obtain enc2 where e2: "analyze_symbols ?e1 = Ok enc2" using analyze_total[OF p(1)] by blast
  note an = analyze_count[OF p(1) e2]
  have cw: "chosen_width ?e1 = chosen_width enc" using a p(5) by (simp add: chosen_width_def)
  have hv: "list_ex (\<lambda>e. tp_type (e_val e) \<noteq> tp_type TP_NULL) (take (en_count ?e1) (en_entries ?e1)) = any_value enc2"
    using p(1) an(2) by (simp add: any_value_def has_value_def[abs_def] enc_ok_def)
  show ?thesis
  proof (cases "249 < card (alphabet (en_entries enc))")
    case True
    then show ?thesis using an(1) a e2 by (simp add: tp_encoder_build_def Let_def)
  next
    case False
    have r: "writable enc2"
      using an p(2,3) leg vol key_volume_sub[OF p(2,3)] chosen_width_bounds[OF ok] False a cw
      by (auto simp: writable_def)
    have rd: "buildable enc \<Longrightarrow> ready enc2" using buildable_ready[OF q _ _ e2] False by simp
    have eq: "tp_encoder_build qs heap enc = (rbind (tp_bs_writer_create heap 256 0)
        (\<lambda>w. fst (sbind (write_stream heap enc2 (any_value enc2)) (finish_file heap) w)), enc2)"
      using e2 hv r by (simp add: tp_encoder_build_def Let_def writable_def)
    have nv: "any_value enc2" if ex: "\<exists>e \<in> set (en_entries enc2). nested (e_val e)"
    proof -
      obtain e where "e \<in> set (en_entries enc2)" "nested (e_val e)" using ex by blast
      moreover have "has_value True e" using calculation(2) by (cases "e_val e") (simp_all add: has_value_def)
      ultimately show ?thesis by (auto simp: any_value_def list_ex_iff)
    qed
    let ?m = "fst (tp_encoder_build qs heap enc)"
    have out: "?m = Err TP_ERR_ALLOC \<and> \<not> build_room heap enc2 (any_value enc2) \<or>
       (if \<exists>e \<in> set (en_entries enc2). nested (e_val e) then ?m = Err TP_ERR_INVALID_PARAM
        else ?m = Err TP_ERR_OVERFLOW \<and> UINT32_MAX < length (stream_bits enc2 (any_value enc2)) \<or>
          (\<exists>buf len. ?m = Ok (buf, len) \<and> file_layout enc2 (any_value enc2) buf len))"
    proof (cases "tp_bs_writer_create heap 256 0")
      case (Ok w)
      show ?thesis
      proof (cases "\<exists>e \<in> set (en_entries enc2). nested (e_val e)")
        case True
        then show ?thesis using write_file_refused[OF r True Ok h] nv by (simp add: eq Ok) blast
      next
        case False
        then show ?thesis using write_file_ok[OF r _ Ok h, of "any_value enc2"] by (auto simp: eq Ok)
      qed
    qed (auto simp: eq tp_bs_writer_create_def Let_def build_room_def SIZEOF_WRITER_def split: if_splits)
    show ?thesis using False rd an(2,5) cw out by (simp add: eq)
  qed
qed

lemma build_ok:
  assumes q: "qsort_ok qs" and b: "buildable enc" and h: "heap \<le> 1152921504606846976"
  shows "if 249 < card (alphabet (en_entries enc)) then fst (tp_encoder_build qs heap enc) = Err TP_ERR_ALPHABET
    else \<exists>enc2. snd (tp_encoder_build qs heap enc) = enc2 \<and> ready enc2 \<and>
      en_entries enc2 = en_entries (dedup_entries (sort_entries qs enc)) \<and>
      (fst (tp_encoder_build qs heap enc) = Err TP_ERR_ALLOC \<and> \<not> build_room heap enc2 (any_value enc2) \<or>
       fst (tp_encoder_build qs heap enc) = Err TP_ERR_OVERFLOW \<and> UINT32_MAX < length (stream_bits enc2 (any_value enc2)) \<or>
       (\<exists>buf len. fst (tp_encoder_build qs heap enc) = Ok (buf, len) \<and> file_layout enc2 (any_value enc2) buf len))"
proof (cases "249 < card (alphabet (en_entries enc))")
  case True
  then show ?thesis using build_any[OF q _ _ _ h, of enc] b storable_legible by (simp add: buildable_def)
next
  case False
  have "enc_ok enc" "\<forall>e \<in> set (en_entries enc). legible (e_val e)" "key_volume (en_entries enc) < 72057594037927936"
    using b storable_legible by (auto simp: buildable_def)
  from build_any[OF q this h] obtain enc2 where e2: "snd (tp_encoder_build qs heap enc) = enc2" "buildable enc \<longrightarrow> ready enc2"
      "en_entries enc2 = en_entries (dedup_entries (sort_entries qs enc))"
    and out: "fst (tp_encoder_build qs heap enc) = Err TP_ERR_ALLOC \<and> \<not> build_room heap enc2 (any_value enc2) \<or>
       (if \<exists>e \<in> set (en_entries enc2). nested (e_val e) then fst (tp_encoder_build qs heap enc) = Err TP_ERR_INVALID_PARAM
        else fst (tp_encoder_build qs heap enc) = Err TP_ERR_OVERFLOW \<and> UINT32_MAX < length (stream_bits enc2 (any_value enc2)) \<or>
          (\<exists>buf len. fst (tp_encoder_build qs heap enc) = Ok (buf, len) \<and> file_layout enc2 (any_value enc2) buf len))"
    using False by auto
  have r: "ready enc2" using b e2(2) by simp
  then have "\<not> (\<exists>e \<in> set (en_entries enc2). nested (e_val e))" using ready_writable by blast
  then show ?thesis using False e2(1,3) r out by auto
qed

end
