(* ===== verification/Dict.thy ===== *)
theory Dict
  imports Header Symbols Crc32 Varint Value
begin

text \<open>
  Opening a dictionary: the first part of \<open>src/core/decoder.c\<close>. A \<open>tp_dict\<close> is the structure of
  \<open>core_internal.h\<close>. \<open>dict_ok\<close> is what opening establishes and every walker relies on: a symbol
  width of 1 to 8 bits, full tables, a buffer at least as long as the stated length.
\<close>

section \<open>State\<close>

record tp_dict_info =
  di_format_version_major :: u8
  di_format_version_minor :: u8
  di_num_keys :: nat
  di_trie_mode :: tp_addr_mode
  di_value_mode :: tp_addr_mode
  di_checksum_type :: tp_checksum_type
  di_bits_per_symbol :: nat
  di_has_values :: bool
  di_has_suffix_table :: bool
  di_compact_mode :: bool
  di_total_bytes :: nat

record tp_dict =
  d_buf :: ptr
  d_len :: nat
  d_info :: tp_dict_info
  d_hdr :: tp_header
  d_trie_start :: nat
  d_value_start :: nat
  d_sym :: tp_symbol_info

definition SIZEOF_DICT :: nat where "SIZEOF_DICT = 1664"

section \<open>The code\<close>

text \<open>A loop over a value that reads on the way: \<open>b = f(x[i], b)\<close> with early returns.\<close>

fun sfold :: "('a \<Rightarrow> 'b \<Rightarrow> 's \<Rightarrow> ('e, 'b) res \<times> 's) \<Rightarrow> 'a list \<Rightarrow> 'b \<Rightarrow> 's \<Rightarrow> ('e, 'b) res \<times> 's" where
  "sfold f [] b s = (Ok b, s)"
| "sfold f (x # xs) b s = sbind (f x b) (sfold f xs) s"

text \<open>One control code, one symbol code.\<close>

definition read_ctrl_code :: "nat \<Rightarrow> tp_symbol_info \<Rightarrow> tp_symbol_info reading" where
  "read_ctrl_code c si =
     sbind (tp_bs_read_bits (s_bits_per_symbol si)) (\<lambda>val.
     sret (si\<lparr>s_ctrl_codes := (s_ctrl_codes si)[c := wrap32 (unat val)],
              s_code_is_ctrl := (if unat val < 256 then (s_code_is_ctrl si)[unat val := True]
                                 else s_code_is_ctrl si)\<rparr>))"

definition read_symbol_code :: "nat \<Rightarrow> tp_symbol_info \<Rightarrow> tp_symbol_info reading" where
  "read_symbol_code code si =
     sbind tp_bs_read_varint_u (\<lambda>cp.
     sret (if code < 256 \<and> unat cp < 256 then
             si\<lparr>s_reverse_map := (s_reverse_map si)[code := ucast cp],
                s_symbol_map := (s_symbol_map si)[unat cp := code]\<rparr>
           else si))"

definition parse_symbols :: "tp_symbol_info \<Rightarrow> tp_symbol_info reading" where
  "parse_symbols si =
     sbind (tp_bs_read_bits 4) (\<lambda>bps.
     if unat bps < 1 \<or> unat bps > 8 then sfail TP_ERR_ALPHABET
     else
       sbind (tp_bs_read_bits 8) (\<lambda>n.
       if unat n < TP_NUM_CONTROL_CODES \<or> unat n > 2 ^ unat bps then sfail TP_ERR_ALPHABET
       else
         sbind (sfold read_ctrl_code [0..<TP_NUM_CONTROL_CODES]
                  (si\<lparr>s_bits_per_symbol := unat bps, s_symbol_count := unat n,
                      s_code_is_ctrl := replicate 256 False\<rparr>)) (\<lambda>si.
         sfold read_symbol_code [TP_NUM_CONTROL_CODES..<unat n]
           (si\<lparr>s_reverse_map := replicate 256 0, s_symbol_map := replicate 256 0\<rparr>))))"

definition parse_trie_config :: "tp_dict \<Rightarrow> tp_dict reading" where
  "parse_trie_config dict =
     sbind (parse_symbols (d_sym dict)) (\<lambda>si.
     sret (dict\<lparr>d_sym := si, d_info := (d_info dict)\<lparr>di_bits_per_symbol := s_bits_per_symbol si\<rparr>\<rparr>))"

definition load_be32 :: "u8 list \<Rightarrow> nat \<Rightarrow> u32 tp" where
  "load_be32 bs i =
     rbind (load bs i) (\<lambda>b0. rbind (load bs (i + 1)) (\<lambda>b1.
     rbind (load bs (i + 2)) (\<lambda>b2. rbind (load bs (i + 3)) (\<lambda>b3.
     Ok (push_bit 24 (ucast b0) OR push_bit 16 (ucast b1) OR push_bit 8 (ucast b2) OR ucast b3)))))"

definition check_crc32 :: "u8 list \<Rightarrow> nat \<Rightarrow> unit tp" where
  "check_crc32 bs len =
     rbind (load_be32 bs (len - 4)) (\<lambda>expected.
     rbind (tp_crc32 bs (len - 4)) (\<lambda>actual.
     if actual \<noteq> expected then Err TP_ERR_CORRUPT else Ok ()))"

definition new_dict :: "ptr \<Rightarrow> nat \<Rightarrow> tp_header \<Rightarrow> tp_dict" where
  "new_dict buf len hdr =
     \<lparr>d_buf = buf, d_len = len,
      d_info = \<lparr>di_format_version_major = h_version_major hdr, di_format_version_minor = h_version_minor hdr,
        di_num_keys = unat (h_num_keys hdr), di_trie_mode = TP_ADDR_BIT, di_value_mode = TP_ADDR_BYTE,
        di_checksum_type = TP_CHECKSUM_CRC32, di_bits_per_symbol = 0,
        di_has_values = (h_flags hdr AND TP_FLAG_HAS_VALUES \<noteq> 0), di_has_suffix_table = False,
        di_compact_mode = (h_flags hdr AND TP_FLAG_COMPACT_MODE \<noteq> 0), di_total_bytes = len\<rparr>,
      d_hdr = hdr, d_trie_start = 0, d_value_start = 0, d_sym = zero_symbols\<rparr>"

definition dict_open_impl :: "nat \<Rightarrow> ptr \<Rightarrow> nat \<Rightarrow> bool \<Rightarrow> tp_dict tp" where
  "dict_open_impl heap buf len check_crc =
     (case buf of
        None \<Rightarrow> Err TP_ERR_INVALID_PARAM
      | Some bs \<Rightarrow>
          if len < TP_HEADER_SIZE then Err TP_ERR_TRUNCATED
          else
            rbind (tp_bs_reader_create heap buf (wrap64 (len * 8))) (\<lambda>r. fst (
              sbind tp_header_read (\<lambda>hdr.
              sbind (slift (if check_crc \<and> len \<ge> 4 then check_crc32 bs len else Ok ())) (\<lambda>_.
              if h_flags hdr AND TP_FLAG_HAS_SUFFIX_TABLE \<noteq> 0 then sfail TP_ERR_VERSION
              else if heap < SIZEOF_DICT then sfail TP_ERR_ALLOC
              else
                sbind (parse_trie_config (new_dict buf len hdr)) (\<lambda>dict.
                let data_start = TP_HEADER_SIZE * 8 in
                sret (dict\<lparr>d_trie_start := data_start + unat (h_trie_data_offset hdr),
                           d_value_start := data_start + unat (h_value_store_offset hdr)\<rparr>)))) r)))"

definition tp_dict_open :: "nat \<Rightarrow> ptr \<Rightarrow> nat \<Rightarrow> tp_dict tp" where
  "tp_dict_open heap buf len = dict_open_impl heap buf len True"

definition tp_dict_open_unchecked :: "nat \<Rightarrow> ptr \<Rightarrow> nat \<Rightarrow> tp_dict tp" where
  "tp_dict_open_unchecked heap buf len = dict_open_impl heap buf len False"

definition tp_dict_count :: "tp_dict \<Rightarrow> nat" where
  "tp_dict_count dict = di_num_keys (d_info dict)"

definition tp_dict_get_info :: "tp_dict \<Rightarrow> tp_dict_info" where
  "tp_dict_get_info dict = d_info dict"

section \<open>Opening never faults, and what it establishes\<close>

definition tables_ok :: "tp_symbol_info \<Rightarrow> bool" where
  "tables_ok si \<longleftrightarrow> length (s_ctrl_codes si) = 6 \<and> length (s_symbol_map si) = 256 \<and>
     length (s_reverse_map si) = 256 \<and> length (s_code_is_ctrl si) = 256"

definition dict_ok :: "tp_dict \<Rightarrow> bool" where
  "dict_ok d \<longleftrightarrow> (\<exists>bs. d_buf d = Some bs \<and> d_len d \<le> length bs) \<and> d_len d \<le> 1152921504606846976 \<and>
     tables_ok (d_sym d) \<and> 1 \<le> s_bits_per_symbol (d_sym d) \<and> s_bits_per_symbol (d_sym d) \<le> 8"

lemma rsafe_sfold [intro]:
  assumes "\<And>x b. x \<in> set xs \<Longrightarrow> rsafe (f x b)" shows "rsafe (sfold f xs b)"
  using assms
proof (induction xs arbitrary: b)
  case Nil
  then show ?case by (auto simp: rsafe_def)
next
  case (Cons x xs)
  have "rsafe (sbind (f x b) (sfold f xs))" using Cons by (intro rsafe_sbind) simp_all
  then show ?case by (simp add: rsafe_def)
qed

lemma sfold_inv:
  assumes "sfold f xs b s = (Ok c, s')" and "P b"
    and "\<And>x b c s s'. P b \<Longrightarrow> f x b s = (Ok c, s') \<Longrightarrow> P c"
  shows "P c"
  using assms(1,2)
  by (induction xs arbitrary: b s) (auto simp: sbind_eq_Ok dest: assms(3))

lemma rsafe_parse_symbols [intro]: "rsafe (parse_symbols si)"
  unfolding parse_symbols_def read_ctrl_code_def[abs_def] read_symbol_code_def[abs_def]
  by (intro rsafe_sbind rsafe_if rsafe_sfail rsafe_sfold) (simp_all add: rsafe_read_bits rsafe_read_varint rsafe_sret)

lemma parse_symbols_ok:
  assumes "parse_symbols si r = (Ok si', r')" and "tables_ok si"
  shows "tables_ok si' \<and> 1 \<le> s_bits_per_symbol si' \<and> s_bits_per_symbol si' \<le> 8"
proof -
  let ?P = "\<lambda>b si. tables_ok si \<and> s_bits_per_symbol si = b"
  obtain bps n :: u64 and r2 r3 s2 where c: "sfold read_ctrl_code [0..<TP_NUM_CONTROL_CODES]
                  (si\<lparr>s_bits_per_symbol := unat bps, s_symbol_count := unat n,
                      s_code_is_ctrl := replicate 256 False\<rparr>) r2 = (Ok s2, r3)"
    and s: "sfold read_symbol_code [TP_NUM_CONTROL_CODES..<unat n]
           (s2\<lparr>s_reverse_map := replicate 256 0, s_symbol_map := replicate 256 0\<rparr>) r3 = (Ok si', r')"
    and b: "1 \<le> unat bps" "unat bps \<le> 8"
    using assms(1) unfolding parse_symbols_def by (auto simp: sbind_eq_Ok Suc_le_eq not_less split: if_splits)
  have "?P (unat bps) s2"
    by (rule sfold_inv[OF c, of "?P (unat bps)"]) (use assms(2) in \<open>auto simp: tables_ok_def read_ctrl_code_def sbind_eq_Ok\<close>)
  then have "?P (unat bps) si'"
    by (intro sfold_inv[OF s, of "?P (unat bps)"]) (auto simp: tables_ok_def read_symbol_code_def sbind_eq_Ok split: if_splits)
  then show ?thesis using b by simp
qed

lemma load_be32_ok: "i + 4 \<le> length bs \<Longrightarrow> \<exists>x. load_be32 bs i = Ok x"
  by (simp add: load_be32_def load_def)

lemma safe_check_crc32: "4 \<le> len \<Longrightarrow> len \<le> length bs \<Longrightarrow> safe (check_crc32 bs len)"
  using load_be32_ok[of "len - 4" bs] by (auto simp: check_crc32_def tp_crc32_def)

lemma reader_create_ok:
  "len \<le> length bs \<Longrightarrow> len \<le> 1152921504606846976 \<Longrightarrow> tp_bs_reader_create heap (Some bs) (wrap64 (len * 8)) = Ok r \<Longrightarrow>
    reader_ok r \<and> r = bytes_reader bs 0\<lparr>r_bit_len := 8 * len\<rparr>"
  by (auto simp: tp_bs_reader_create_def reader_ok_def r_bytes_def bytes_reader_def split: if_splits)

lemma open_safe:
  assumes len: "len \<le> length bs" "len \<le> 1152921504606846976"
  shows "safe (dict_open_impl heap (Some bs) len check)"
proof (cases "len < TP_HEADER_SIZE")
  case False
  then have "rsafe (sbind tp_header_read (\<lambda>hdr.
              sbind (slift (if check \<and> len \<ge> 4 then check_crc32 bs len else Ok ())) (\<lambda>_.
              if h_flags hdr AND TP_FLAG_HAS_SUFFIX_TABLE \<noteq> 0 then sfail TP_ERR_VERSION
              else if heap < SIZEOF_DICT then sfail TP_ERR_ALLOC
              else
                sbind (parse_trie_config (new_dict (Some bs) len hdr)) (\<lambda>dict.
                let data_start = TP_HEADER_SIZE * 8 in
                sret (dict\<lparr>d_trie_start := data_start + unat (h_trie_data_offset hdr),
                           d_value_start := data_start + unat (h_value_store_offset hdr)\<rparr>)))))"
    unfolding parse_trie_config_def Let_def
    by (intro rsafe_sbind rsafe_if rsafe_header_read rsafe_slift rsafe_sfail rsafe_sret rsafe_parse_symbols)
      (use safe_check_crc32 len in simp)
  then show ?thesis
    using reader_create_ok[OF len] False
    by (cases "tp_bs_reader_create heap (Some bs) (wrap64 (len * 8))")
      (auto simp: dict_open_impl_def rsafe_def tp_bs_reader_create_def split: if_splits)
qed (simp add: dict_open_impl_def)

lemma fst_eq_Ok: "fst (m s) = Ok a \<longleftrightarrow> (\<exists>s'. m s = (Ok a, s'))"
  by (cases "m s") auto

lemma open_ok:
  assumes len: "len \<le> length bs" "len \<le> 1152921504606846976"
    and eq: "dict_open_impl heap (Some bs) len check = Ok d"
  shows "dict_ok d \<and> d_buf d = Some bs \<and> d_len d = len"
proof -
  obtain r hdr r1 r2 d' where p: "parse_trie_config (new_dict (Some bs) len hdr) r1 = (Ok d', r2)"
    and d: "d = d'\<lparr>d_trie_start := 256 + unat (h_trie_data_offset hdr),
                   d_value_start := 256 + unat (h_value_store_offset hdr)\<rparr>"
    using eq unfolding dict_open_impl_def TP_HEADER_SIZE_def Let_def
    by (auto simp: rbind_eq_Ok fst_eq_Ok sbind_eq_Ok split: if_splits)
  then have "tables_ok (d_sym d') \<and> 1 \<le> s_bits_per_symbol (d_sym d') \<and> s_bits_per_symbol (d_sym d') \<le> 8"
    using parse_symbols_ok by (fastforce simp: parse_trie_config_def sbind_eq_Ok new_dict_def tables_ok_def zero_symbols_def)
  moreover have "d_buf d' = Some bs \<and> d_len d' = len"
    using p by (auto simp: parse_trie_config_def sbind_eq_Ok new_dict_def)
  ultimately show ?thesis using d len by (auto simp: dict_ok_def)
qed

end
