(* ===== verification/Lookup.thy ===== *)
theory Lookup
  imports Dict
begin

text \<open>
  Looking a key up: \<open>tp_dict_lookup_n\<close> of \<open>src/core/decoder.c\<close> and its callers. The walk over the
  trie bits is \<open>lookup_loop\<close>, one iteration per unit of fuel; \<open>lookup_fuel\<close> bounds the iterations:
  between two consumed key bytes every iteration moves the reader forward. On a dictionary that
  satisfies \<open>dict_ok\<close>, whatever its bytes, a lookup returns and reads nothing outside the buffer.
\<close>

section \<open>The code\<close>

text \<open>How the walk ends when the key is there: at END, or at END_VAL with an index.\<close>

datatype lookup_hit = At_null | At_index nat

definition is_ctrl_code :: "tp_symbol_info \<Rightarrow> nat \<Rightarrow> bool" where
  "is_ctrl_code si code = s_code_is_ctrl si ! (if code < 256 then code else 0)"

text \<open>The loop over the children of a BRANCH, with \<open>n\<close> children to go: the last of them has no
  SKIP. True when a child starts with the wanted byte; its symbol is consumed.\<close>

fun child_loop :: "nat \<Rightarrow> tp_symbol_info \<Rightarrow> u8 \<Rightarrow> bool reading" where
  "child_loop 0 si target = sret False"
| "child_loop (Suc n) si target =
     sbind (if n > 0 then sbind (tp_bs_read_bits (s_bits_per_symbol si)) (\<lambda>_. tp_bs_read_varint_u)
            else sret 0) (\<lambda>skip_dist.
     sbind (tp_bs_peek_bits (s_bits_per_symbol si)) (\<lambda>raw.
     let csym = wrap32 (unat raw) in
     if \<not> is_ctrl si csym \<and> csym = symbol_code si target then
       (\<lambda>r. (Ok True, snd (tp_bs_reader_advance (s_bits_per_symbol si) r)))
     else
       sbind (if n > 0 then tp_bs_reader_advance (unat skip_dist) else sret ()) (\<lambda>_.
       child_loop n si target)))"

text \<open>Reading a symbol: an end of the stream behind a terminal means the key is not there.\<close>

definition read_sym :: "tp_symbol_info \<Rightarrow> bool \<Rightarrow> nat reading" where
  "read_sym si expect_branch r =
     (case tp_bs_read_bits (s_bits_per_symbol si) r of
        (Err e, r') \<Rightarrow> (Err (if expect_branch then TP_ERR_NOT_FOUND else e), r')
      | (Ok raw, r') \<Rightarrow> (Ok (wrap32 (unat raw)), r')
      | (Fault, r') \<Rightarrow> (Fault, r')
      | (Diverge, r') \<Rightarrow> (Diverge, r'))"

fun lookup_loop :: "nat \<Rightarrow> tp_symbol_info \<Rightarrow> u8 list \<Rightarrow> nat \<Rightarrow> nat \<Rightarrow> bool \<Rightarrow> lookup_hit reading" where
  "lookup_loop 0 si key key_len key_idx expect_branch = slift Diverge"
| "lookup_loop (Suc fuel) si key key_len key_idx expect_branch =
     sbind (read_sym si expect_branch) (\<lambda>code.
     if code = ctrl_code si TP_CTRL_END then
       (if key_idx = key_len then sret At_null
        else lookup_loop fuel si key key_len key_idx True)
     else if code = ctrl_code si TP_CTRL_END_VAL then
       sbind tp_bs_read_varint_u (\<lambda>vi.
       if key_idx = key_len then sret (At_index (wrap32 (unat vi)))
       else lookup_loop fuel si key key_len key_idx True)
     else if code = ctrl_code si TP_CTRL_BRANCH then
       sbind tp_bs_read_varint_u (\<lambda>child_count.
       if key_idx \<ge> key_len then sfail TP_ERR_NOT_FOUND
       else
         sbind (slift (load key key_idx)) (\<lambda>target.
         sbind (child_loop (unat child_count) si target) (\<lambda>found_child.
         if \<not> found_child then sfail TP_ERR_NOT_FOUND
         else lookup_loop fuel si key key_len (key_idx + 1) False)))
     else if expect_branch then sfail TP_ERR_NOT_FOUND
     else if \<not> is_ctrl_code si code then
       (if key_idx \<ge> key_len then sfail TP_ERR_NOT_FOUND
        else
          sbind (slift (load key key_idx)) (\<lambda>c.
          if code \<noteq> symbol_code si c then sfail TP_ERR_NOT_FOUND
          else lookup_loop fuel si key key_len (key_idx + 1) expect_branch))
     else sfail TP_ERR_INVALID_PARAM)"

definition lookup_fuel :: "nat \<Rightarrow> nat \<Rightarrow> nat" where
  "lookup_fuel bit_len key_len = Suc ((key_len + 1) * (bit_len + 2))"

text \<open>Fetching the value: \<open>want\<close> says that the caller passed a place for it.\<close>

definition fetch_value :: "tp_dict \<Rightarrow> bool \<Rightarrow> lookup_hit \<Rightarrow> tp_value option reading" where
  "fetch_value dict want hit =
     (if \<not> want then sret None
      else case hit of
        At_null \<Rightarrow> sret (Some tp_value_null)
      | At_index value_index \<Rightarrow>
          if di_has_values (d_info dict) then
            sbind (tp_bs_reader_seek (d_value_start dict)) (\<lambda>_.
            sbind (read_seq value_index (tp_value_decode (d_buf dict))) (\<lambda>_.
            sbind (tp_value_decode (d_buf dict)) (\<lambda>v. sret (Some v))))
          else sret (Some tp_value_null))"

definition tp_dict_lookup_n :: "nat \<Rightarrow> tp_dict \<Rightarrow> ptr \<Rightarrow> nat \<Rightarrow> bool \<Rightarrow> tp_value option tp" where
  "tp_dict_lookup_n heap dict key key_len want =
     (case key of
        None \<Rightarrow> Err TP_ERR_INVALID_PARAM
      | Some kb \<Rightarrow>
          if di_num_keys (d_info dict) = 0 then Err TP_ERR_NOT_FOUND
          else
            rbind (tp_bs_reader_create heap (d_buf dict) (wrap64 (d_len dict * 8))) (\<lambda>r. fst (
              sbind (tp_bs_reader_seek (d_trie_start dict)) (\<lambda>_.
              sbind (lookup_loop (lookup_fuel (d_len dict * 8) key_len) (d_sym dict) kb key_len 0 False) (\<lambda>hit.
              fetch_value dict want hit)) r)))"

definition tp_dict_lookup :: "nat \<Rightarrow> tp_dict \<Rightarrow> ptr \<Rightarrow> bool \<Rightarrow> tp_value option tp" where
  "tp_dict_lookup heap dict key want =
     (case key of
        None \<Rightarrow> Err TP_ERR_INVALID_PARAM
      | Some kb \<Rightarrow> (case strlen kb of
                      None \<Rightarrow> Fault
                    | Some n \<Rightarrow> tp_dict_lookup_n heap dict key n want))"

definition tp_dict_contains :: "nat \<Rightarrow> tp_dict \<Rightarrow> ptr \<Rightarrow> bool tp" where
  "tp_dict_contains heap dict key =
     (case key of
        None \<Rightarrow> Err TP_ERR_INVALID_PARAM
      | Some _ \<Rightarrow>
          (case tp_dict_lookup heap dict key True of
             Ok _ \<Rightarrow> Ok True
           | Err e \<Rightarrow> if e = TP_ERR_NOT_FOUND then Ok False else Err e
           | Fault \<Rightarrow> Fault
           | Diverge \<Rightarrow> Diverge))"

section \<open>A lookup returns and stays inside the buffer, whatever the bytes\<close>

lemma rsafe_child_loop: "rsafe (child_loop n si target)"
proof (induction n)
  case 0
  show ?case unfolding child_loop.simps by (rule rsafe_sret)
next
  case (Suc n)
  have adv: "rsafe (\<lambda>r. (Ok True, snd (tp_bs_reader_advance k r)))" for k
    using rsafe_cursor(2)[of k] by (simp add: rsafe_def)
  show ?case
    unfolding child_loop.simps Let_def
    by (intro rsafe_sbind rsafe_if rsafe_sret rsafe_peek_bits rsafe_read_bits rsafe_read_varint(1) adv rsafe_cursor(2) Suc.IH)
qed

lemma rsafe_read_sym: "rsafe (read_sym si b)"
proof (rule rsafeI)
  fix r x r' assume ok: "reader_ok r" and eq: "read_sym si b r = (x, r')"
  obtain y r2 where y: "tp_bs_read_bits (s_bits_per_symbol si) r = (y, r2)" by force
  note s = rsafeD[OF rsafe_read_bits ok y]
  have "r' = r2 \<and> (safe y \<longrightarrow> safe x)"
    using eq y by (auto simp: read_sym_def split: res.splits)
  then show "safe x \<and> r_pos r' \<le> r_bit_len r' \<and> same_stream r r'"
    using s by (auto simp: reader_ok_def)
qed

text \<open>A symbol that is read moves the reader forward.\<close>

lemma read_sym_pos:
  assumes "reader_ok r" and "read_sym si b r = (Ok v, r')" and "1 \<le> s_bits_per_symbol si" and "s_bits_per_symbol si \<le> 8"
  shows "r_pos r < r_pos r'"
proof -
  obtain raw where "tp_bs_read_bits (s_bits_per_symbol si) r = (Ok raw, r')"
    using assms(2) by (auto simp: read_sym_def split: prod.splits res.splits)
  then show ?thesis using assms(1,3,4) by (auto simp: tp_bs_read_bits_def reader_ok_def split: if_splits)
qed

lemma read_varint_loop_pos:
  "reader_ok r \<Longrightarrow> read_varint_loop g shift val r = (Ok v, r') \<Longrightarrow> r_pos r \<le> r_pos r'"
proof (induction g arbitrary: shift val r)
  case (Suc g)
  obtain b r1 where b: "tp_bs_read_bits 8 r = (Ok b, r1)"
    and k: "r' = r1 \<or> read_varint_loop g (shift + 7) (val OR push_bit shift (b AND 0x7F)) r1 = (Ok v, r')"
    using Suc.prems(2) by (auto simp: sbind_eq_Ok Let_def split: if_splits)
  have "r_pos r \<le> r_pos r1" using b Suc.prems(1) by (auto simp: tp_bs_read_bits_def reader_ok_def split: if_splits)
  moreover have "reader_ok r1" using rsafeD(2)[OF rsafe_read_bits Suc.prems(1) b] .
  ultimately show ?case using k Suc.IH by (auto intro: le_trans)
qed simp

lemma read_varint_pos: "reader_ok r \<Longrightarrow> tp_bs_read_varint_u r = (Ok v, r') \<Longrightarrow> r_pos r \<le> r_pos r'"
  unfolding tp_bs_read_varint_u_def by (rule read_varint_loop_pos)

text \<open>Safety of one run.\<close>

definition safe_at :: "'a reading \<Rightarrow> tp_bitstream_reader \<Rightarrow> bool" where
  "safe_at m r \<longleftrightarrow> safe (fst (m r)) \<and> reader_ok (snd (m r)) \<and> same_stream r (snd (m r))"

lemma safe_at_rsafe: "rsafe m \<Longrightarrow> reader_ok r \<Longrightarrow> safe_at m r"
  by (simp add: rsafe_def safe_at_def)

lemma safe_at_sbind':
  assumes m: "safe_at m r"
    and f: "\<And>a r'. m r = (Ok a, r') \<Longrightarrow> reader_ok r' \<Longrightarrow> same_stream r r' \<Longrightarrow> safe_at (f a) r'"
  shows "safe_at (sbind m f) r"
proof -
  obtain x r' where x: "m r = (x, r')" by force
  then have s: "safe x" "reader_ok r'" "same_stream r r'" using m by (simp_all add: safe_at_def)
  show ?thesis
  proof (cases x)
    case (Ok a)
    then have "safe_at (f a) r'" using f x s by simp
    then show ?thesis using x Ok s(3) same_stream_trans by (auto simp: safe_at_def sbind_def)
  qed (use s x in \<open>auto simp: safe_at_def sbind_def\<close>)
qed

lemma safe_at_sbind:
  assumes "rsafe m" and "reader_ok r"
    and "\<And>a r'. m r = (Ok a, r') \<Longrightarrow> reader_ok r' \<Longrightarrow> same_stream r r' \<Longrightarrow> safe_at (f a) r'"
  shows "safe_at (sbind m f) r"
  using safe_at_sbind'[OF safe_at_rsafe[OF assms(1,2)]] assms(3) by blast

lemma safe_at_if: "(c \<Longrightarrow> safe_at a r) \<Longrightarrow> (\<not> c \<Longrightarrow> safe_at b r) \<Longrightarrow> safe_at (if c then a else b) r"
  by simp

text \<open>What is left to do: the key bytes, then the bits in front of the reader.\<close>

definition lookup_left :: "tp_bitstream_reader \<Rightarrow> nat \<Rightarrow> nat \<Rightarrow> nat" where
  "lookup_left r key_len key_idx = (key_len - key_idx) * (r_bit_len r + 2) + (r_bit_len r - r_pos r)"

lemma lookup_left_pos:
  "same_stream r r' \<Longrightarrow> r_pos r < r_pos r' \<Longrightarrow> reader_ok r' \<Longrightarrow> lookup_left r' n i < lookup_left r n i"
  by (auto simp: lookup_left_def same_stream_def reader_ok_def)

lemma lookup_left_key:
  assumes "same_stream r r'" and "i < n" shows "lookup_left r' n (i + 1) < lookup_left r n i"
proof -
  have "n - i = Suc (n - (i + 1))" using assms(2) by simp
  then show ?thesis using assms(1) by (simp add: lookup_left_def same_stream_def)
qed

lemma lookup_loop_safe:
  assumes bps: "1 \<le> s_bits_per_symbol si" "s_bits_per_symbol si \<le> 8" and key: "key_len \<le> length key"
  shows "reader_ok r \<Longrightarrow> key_idx \<le> key_len \<Longrightarrow> lookup_left r key_len key_idx < fuel \<Longrightarrow>
    safe_at (lookup_loop fuel si key key_len key_idx eb) r"
proof (induction fuel arbitrary: r key_idx eb)
  case (Suc fuel)
  show ?case
    unfolding lookup_loop.simps
  proof (intro safe_at_sbind[OF rsafe_read_sym Suc.prems(1)])
    fix code r1 assume rd: "read_sym si eb r = (Ok code, r1)" and ok1: "reader_ok r1" and st1: "same_stream r r1"
    note pos = read_sym_pos[OF Suc.prems(1) rd bps]
    have again: "safe_at (lookup_loop fuel si key key_len key_idx b) r'"
      if "reader_ok r'" "same_stream r1 r'" "r_pos r1 \<le> r_pos r'" for r' b
    proof (rule Suc.IH[OF that(1) Suc.prems(2)])
      have "lookup_left r' key_len key_idx < lookup_left r key_len key_idx"
        using that pos same_stream_trans[OF st1 that(2)] by (intro lookup_left_pos) simp_all
      then show "lookup_left r' key_len key_idx < fuel" using Suc.prems(3) by simp
    qed
    have nxt: "safe_at (lookup_loop fuel si key key_len (key_idx + 1) b) r'"
      if "reader_ok r'" "same_stream r1 r'" "key_idx < key_len" for r' b
    proof (rule Suc.IH[OF that(1)])
      show "key_idx + 1 \<le> key_len" using that(3) by simp
      have "lookup_left r' key_len (key_idx + 1) < lookup_left r key_len key_idx"
        using same_stream_trans[OF st1 that(2)] that(3) by (rule lookup_left_key)
      then show "lookup_left r' key_len (key_idx + 1) < fuel" using Suc.prems(3) by simp
    qed
    have ld: "rsafe (slift (load key key_idx))" if "key_idx < key_len"
      using that key by (intro rsafe_slift) (simp add: load_def)
    show "safe_at (if code = ctrl_code si TP_CTRL_END then
       (if key_idx = key_len then sret At_null
        else lookup_loop fuel si key key_len key_idx True)
     else if code = ctrl_code si TP_CTRL_END_VAL then
       sbind tp_bs_read_varint_u (\<lambda>vi.
       if key_idx = key_len then sret (At_index (wrap32 (unat vi)))
       else lookup_loop fuel si key key_len key_idx True)
     else if code = ctrl_code si TP_CTRL_BRANCH then
       sbind tp_bs_read_varint_u (\<lambda>child_count.
       if key_idx \<ge> key_len then sfail TP_ERR_NOT_FOUND
       else
         sbind (slift (load key key_idx)) (\<lambda>target.
         sbind (child_loop (unat child_count) si target) (\<lambda>found_child.
         if \<not> found_child then sfail TP_ERR_NOT_FOUND
         else lookup_loop fuel si key key_len (key_idx + 1) False)))
     else if eb then sfail TP_ERR_NOT_FOUND
     else if \<not> is_ctrl_code si code then
       (if key_idx \<ge> key_len then sfail TP_ERR_NOT_FOUND
        else
          sbind (slift (load key key_idx)) (\<lambda>c.
          if code \<noteq> symbol_code si c then sfail TP_ERR_NOT_FOUND
          else lookup_loop fuel si key key_len (key_idx + 1) eb))
     else sfail TP_ERR_INVALID_PARAM) r1"
    proof (intro safe_at_if safe_at_sbind[OF rsafe_read_varint(1)] safe_at_sbind[OF ld]
        safe_at_sbind[OF rsafe_child_loop] safe_at_rsafe[OF rsafe_sret] safe_at_rsafe[OF rsafe_sfail] again nxt)
    qed (use ok1 in \<open>auto dest: read_varint_pos intro: same_stream_trans\<close>)
  qed
qed simp

lemma rsafe_fetch_value: "d_buf d = Some bs \<Longrightarrow> rsafe (fetch_value d want hit)"
  unfolding fetch_value_def
  by (cases hit; simp del: sret_apply; intro impI conjI; intro rsafe_sbind rsafe_sret rsafe_cursor(1) rsafe_read_seq rsafe_value_decode)

lemma dict_reader:
  assumes d: "dict_ok d" and c: "tp_bs_reader_create heap (d_buf d) (wrap64 (d_len d * 8)) = Ok r"
  obtains bs where "d_buf d = Some bs" and "reader_ok r" and "r_bit_len r = 8 * d_len d" and "r_bytes r = bs"
    and "r_pos r = 0"
proof -
  obtain bs where bs: "d_buf d = Some bs" "d_len d \<le> length bs" "d_len d \<le> 1152921504606846976"
    using d by (auto simp: dict_ok_def)
  have "reader_ok r" "r = bytes_reader bs 0\<lparr>r_bit_len := 8 * d_len d\<rparr>"
    using reader_create_ok[OF bs(2,3), of heap r] c unfolding bs(1) by blast+
  then show thesis by (intro that[OF bs(1)]) (simp_all add: bytes_reader_def r_bytes_def)
qed

lemma lookup_walk_safe:
  assumes d: "dict_ok d" and r: "reader_ok r" "r_bit_len r = 8 * d_len d" and n: "n \<le> length kb"
  shows "safe_at (lookup_loop (lookup_fuel (d_len d * 8) n) (d_sym d) kb n 0 False) r"
proof (rule lookup_loop_safe)
  have "lookup_left r n 0 \<le> n * (8 * d_len d + 2) + 8 * d_len d" using r(2) by (simp add: lookup_left_def)
  then show "lookup_left r n 0 < lookup_fuel (d_len d * 8) n" by (simp add: lookup_fuel_def algebra_simps)
qed (use d n r in \<open>simp_all add: dict_ok_def\<close>)

lemma lookup_safe:
  assumes d: "dict_ok d" and n: "n \<le> length kb"
  shows "safe (tp_dict_lookup_n heap d (Some kb) n want)"
proof (cases "di_num_keys (d_info d) = 0")
  case False
  show ?thesis
  proof (cases "tp_bs_reader_create heap (d_buf d) (wrap64 (d_len d * 8))")
    case (Ok r)
    obtain bs where bs: "d_buf d = Some bs" "reader_ok r" "r_bit_len r = 8 * d_len d"
      by (rule dict_reader[OF d Ok])
    have "safe_at (sbind (tp_bs_reader_seek (d_trie_start d)) (\<lambda>_.
        sbind (lookup_loop (lookup_fuel (d_len d * 8) n) (d_sym d) kb n 0 False) (fetch_value d want))) r"
    proof (rule safe_at_sbind[OF rsafe_cursor(1) bs(2)])
      fix u r1 assume r1: "reader_ok r1" "same_stream r r1"
      then have "safe_at (lookup_loop (lookup_fuel (d_len d * 8) n) (d_sym d) kb n 0 False) r1"
        using bs(3) by (intro lookup_walk_safe[OF d] n) (simp_all add: same_stream_def)
      moreover have "rsafe (fetch_value d want hit)" for hit by (rule rsafe_fetch_value[OF bs(1)])
      ultimately show "safe_at (sbind (lookup_loop (lookup_fuel (d_len d * 8) n) (d_sym d) kb n 0 False) (fetch_value d want)) r1"
        using safe_at_sbind' safe_at_rsafe by blast
    qed
    then show ?thesis using False by (simp add: tp_dict_lookup_n_def Ok safe_at_def)
  qed (use False in \<open>auto simp: tp_dict_lookup_n_def tp_bs_reader_create_def split: if_splits\<close>)
qed (simp add: tp_dict_lookup_n_def)

lemma lookup_str_safe:
  "dict_ok d \<Longrightarrow> strlen kb \<noteq> None \<Longrightarrow> safe (tp_dict_lookup heap d (Some kb) want)"
  using lookup_safe strlen_Some by (fastforce simp: tp_dict_lookup_def)

lemma contains_safe:
  "dict_ok d \<Longrightarrow> strlen kb \<noteq> None \<Longrightarrow> safe (tp_dict_contains heap d (Some kb))"
  using lookup_str_safe[of d kb heap True] by (auto simp: tp_dict_contains_def elim: safe_cases)

end
