(* ===== verification/Lookup_Trie.thy ===== *)
theory Lookup_Trie
  imports Lookup Trie_Write
begin

text \<open>
  The walk of \<open>tp_dict_lookup_n\<close> over the bits of a trie. \<open>look\<close> is what a lookup should answer on
  a key list; \<open>walk_ok\<close> shows that the code's loop answers it on the bit string of every trie with
  these keys. The one condition is about a key that extends the last key of the whole trie: the
  code reads on behind the last leaf, so the answer depends on the bits that follow (\<open>stop_at\<close>).
\<close>

section \<open>The specification\<close>

definition hit :: "nat \<Rightarrow> bool \<Rightarrow> lookup_hit" where
  "hit vi b = (if b then At_index vi else At_null)"

fun look :: "nat \<Rightarrow> (u8 list \<times> bool) list \<Rightarrow> u8 list \<Rightarrow> lookup_hit option" where
  "look vi [] k = None"
| "look vi ((k', b) # es) k = (if k' = k then Some (hit vi b) else look (vi + 1) es k)"

definition extends :: "u8 list \<Rightarrow> u8 list \<Rightarrow> bool" where
  "extends k k' \<longleftrightarrow> (\<exists>c k''. k = k' @ c # k'')"

lemma look_append:
  "look vi (xs @ ys) k = (case look vi xs k of Some h \<Rightarrow> Some h | None \<Rightarrow> look (vi + length xs) ys k)"
  by (induction xs arbitrary: vi) (auto split: option.splits)

lemma look_prefix: "look vi (map (\<lambda>(k, b). (l @ k, b)) es) (l @ k) = look vi es k"
  by (induction es arbitrary: vi) auto

lemma look_None: "k \<notin> fst ` set es \<Longrightarrow> look vi es k = None"
  by (induction es arbitrary: vi) auto

lemma look_nth: "distinct (map fst es) \<Longrightarrow> j < length es \<Longrightarrow> look vi es (fst (es ! j)) = Some (hit (vi + j) (snd (es ! j)))"
proof (induction es arbitrary: vi j)
  case (Cons e es)
  show ?case
  proof (cases j)
    case (Suc j')
    then have "fst e \<noteq> fst (es ! j')" using Cons.prems by (auto simp: image_iff)
    then show ?thesis using Suc Cons.IH[of j' "vi + 1"] Cons.prems by (cases e) auto
  qed (cases e; simp)
qed simp

text \<open>The children's part of the key list.\<close>

definition kid_keys :: "(u8 \<times> trie) list \<Rightarrow> (u8 list \<times> bool) list" where
  "kid_keys ks = concat (map (\<lambda>(c, t). map (\<lambda>(k, b). (c # k, b)) (flat t)) ks)"

lemma kid_keys_simps [simp]:
  "kid_keys [] = []" "kid_keys ((c, t) # ks) = map (\<lambda>(k, b). (c # k, b)) (flat t) @ kid_keys ks"
  "kid_keys (ks1 @ ks2) = kid_keys ks1 @ kid_keys ks2"
  by (simp_all add: kid_keys_def)

lemma kid_keys_hd: "(k, b) \<in> set (kid_keys ks) \<Longrightarrow> k \<noteq> [] \<and> hd k \<in> fst ` set ks"
  by (force simp: kid_keys_def)

lemma length_kid_keys: "length (kid_keys ks) = kids_terms ks"
  by (induction ks) (auto simp: kids_terms_def nterms_flat)

lemma flat_Node: "flat (Node l tm ks) =
    map (\<lambda>(k, b). (l @ k, b)) ((case tm of None \<Rightarrow> [] | Some b \<Rightarrow> [([], b)]) @ kid_keys ks)"
  by (cases tm) (simp_all add: kid_keys_def map_concat comp_def split_def)

lemma look_miss_kid: "c \<notin> fst ` set ks \<Longrightarrow> look vi (kid_keys ks) (c # k) = None"
  using kid_keys_hd by (intro look_None) force

lemma look_hit_kid:
  assumes "distinct (map fst (ks1 @ (c, t) # ks2))"
  shows "look vi (kid_keys (ks1 @ (c, t) # ks2)) (c # k) = look (vi + kids_terms ks1) (flat t) k"
proof -
  have m: "look v (kid_keys ks2) (c # k) = None" "look vi (kid_keys ks1) (c # k) = None" for v
    using assms by (auto intro!: look_miss_kid)
  have "look v (map (\<lambda>(k, b). (c # k, b)) (flat t)) (c # k) = look v (flat t) k" for v
    using look_prefix[of v "[c]" "flat t" k] by simp
  then show ?thesis
    using m by (simp add: look_append length_kid_keys split: option.splits)
qed

section \<open>Reading the pieces\<close>

definition starts :: "tp_bitstream_reader \<Rightarrow> bool list \<Rightarrow> bool" where
  "starts r xs \<longleftrightarrow> reader_ok r \<and> next_bits r xs"

lemma starts_append: "starts r (xs @ ys) \<longleftrightarrow> starts r xs \<and> starts (adv (length xs) r) ys"
  using reader_ok_adv by (auto simp: starts_def next_bits_append)

lemma starts_Nil [simp]: "starts r [] \<longleftrightarrow> reader_ok r"
  by (auto simp: starts_def next_bits_def reader_ok_def)

lemma starts_ok: "starts r xs \<Longrightarrow> reader_ok r"
  by (simp add: starts_def)

lemma starts_end: "starts r xs \<Longrightarrow> reader_ok (adv (length xs) r)"
  using reader_ok_adv by (simp add: starts_def)

lemma starts_length: "starts r xs \<Longrightarrow> length xs \<le> 9223372036854775808"
  by (simp add: starts_def next_bits_def reader_ok_def)

lemma unat_code: "n \<le> 32 \<Longrightarrow> code < 2 ^ n \<Longrightarrow> unat (word_of_nat code :: u64) = code"
proof -
  assume "n \<le> 32" "code < 2 ^ n"
  moreover have "(2 :: nat) ^ n \<le> 2 ^ 32" using \<open>n \<le> 32\<close> by (intro power_increasing) simp_all
  ultimately show ?thesis by (simp add: unat_of_nat)
qed

lemma read_code:
  assumes bps: "1 \<le> s_bits_per_symbol si" "s_bits_per_symbol si \<le> 8" and c: "code < 2 ^ s_bits_per_symbol si"
    and st: "starts r (code_bits si code)"
  shows "tp_bs_read_bits (s_bits_per_symbol si) r = (Ok (word_of_nat code), adv (s_bits_per_symbol si) r)"
    and "tp_bs_peek_bits (s_bits_per_symbol si) r = (Ok (word_of_nat code), r)"
    and "wrap32 (unat (word_of_nat code :: u64)) = code"
    and "read_sym si b r = (Ok code, adv (s_bits_per_symbol si) r)"
proof -
  have u: "unat (word_of_nat code :: u64) = code" using bps c by (intro unat_code) simp_all
  show rd: "tp_bs_read_bits (s_bits_per_symbol si) r = (Ok (word_of_nat code), adv (s_bits_per_symbol si) r)"
    using st bps c u by (intro read_bits_value) (simp_all add: starts_def code_bits_def)
  then show "tp_bs_peek_bits (s_bits_per_symbol si) r = (Ok (word_of_nat code), r)"
    by (auto simp: tp_bs_peek_bits_def tp_bs_read_bits_def split: if_splits)
  have "(2 :: nat) ^ s_bits_per_symbol si \<le> 2 ^ 8" using bps by (intro power_increasing) simp_all
  then show w: "wrap32 (unat (word_of_nat code :: u64)) = code" using u c by simp
  show "read_sym si b r = (Ok code, adv (s_bits_per_symbol si) r)" using rd w by (simp add: read_sym_def)
qed

lemma read_num:
  "starts r (num_bits n) \<Longrightarrow> tp_bs_read_varint_u r = (Ok (word_of_nat n), adv (length (num_bits n)) r)"
  using varint.rd_exact[OF TrueI, of r "word_of_nat n"] by (simp add: starts_def num_bits_def)

section \<open>One iteration\<close>

text \<open>\<open>kb\<close> is the caller's block, \<open>n\<close> the key length, \<open>k\<close> what the walk has not consumed.\<close>

definition todo :: "u8 list \<Rightarrow> nat \<Rightarrow> nat \<Rightarrow> u8 list \<Rightarrow> bool" where
  "todo kb n i k \<longleftrightarrow> n \<le> length kb \<and> i \<le> n \<and> k = drop i (take n kb)"

lemma todo_Nil: "todo kb n i [] \<longleftrightarrow> n \<le> length kb \<and> i = n"
  by (auto simp: todo_def)

lemma todo_Cons: "todo kb n i (c # k) \<longleftrightarrow> i < n \<and> load kb i = Ok c \<and> todo kb n (i + 1) k"
proof
  assume a: "todo kb n i (c # k)"
  then have i: "i < n" by (cases "i = n") (auto simp: todo_def)
  have "drop i (take n kb) = kb ! i # drop (Suc i) (take n kb)"
    using a i Cons_nth_drop_Suc[of i "take n kb"] by (simp add: todo_def)
  then show "i < n \<and> load kb i = Ok c \<and> todo kb n (i + 1) k"
    using a i by (auto simp: todo_def load_def)
next
  assume a: "i < n \<and> load kb i = Ok c \<and> todo kb n (i + 1) k"
  then have "drop i (take n kb) = c # k"
    using Cons_nth_drop_Suc[of i "take n kb"] by (auto simp: todo_def load_def split: if_splits)
  then show "todo kb n i (c # k)" using a by (simp add: todo_def)
qed

lemma read_ctl:
  assumes so: "symbols_ok al si" and c: "c < 6" and st: "starts r (ctl_bits si c)"
  shows "read_sym si b r = (Ok (ctrl_code si c), adv (s_bits_per_symbol si) r)"
    and "tp_bs_read_bits (s_bits_per_symbol si) r = (Ok (word_of_nat (ctrl_code si c)), adv (s_bits_per_symbol si) r)"
  using read_code[OF symbols_okD(1,2)[OF so]] symbols_okD(3)[OF so c] st by (simp_all add: ctl_bits_def)

lemma read_chr:
  assumes so: "symbols_ok al si" and c: "c \<in> al" and st: "starts r (chr_bits si c)"
  shows "read_sym si b r = (Ok (symbol_code si c), adv (s_bits_per_symbol si) r)"
    and "tp_bs_peek_bits (s_bits_per_symbol si) r = (Ok (word_of_nat (symbol_code si c)), r)"
    and "wrap32 (unat (word_of_nat (symbol_code si c) :: u64)) = symbol_code si c"
  using read_code[OF symbols_okD(1,2)[OF so]] symbols_okD(4)[OF so c] st by (simp_all add: chr_bits_def)

lemma lookup_end:
  assumes so: "symbols_ok al si" and st: "starts r (ctl_bits si TP_CTRL_END)"
  shows "lookup_loop (Suc f) si kb n i eb r =
    (if i = n then (Ok At_null, adv (s_bits_per_symbol si) r)
     else lookup_loop f si kb n i True (adv (s_bits_per_symbol si) r))"
  using read_ctl(1)[OF so _ st] by (simp add: sbind_def ctrl_defs)

lemma lookup_end_val:
  assumes so: "symbols_ok al si" and st: "starts r (ctl_bits si TP_CTRL_END_VAL @ num_bits vi)"
    and vi: "vi < 4294967296"
  shows "lookup_loop (Suc f) si kb n i eb r =
    (if i = n then (Ok (At_index vi), adv (s_bits_per_symbol si + length (num_bits vi)) r)
     else lookup_loop f si kb n i True (adv (s_bits_per_symbol si + length (num_bits vi)) r))"
proof -
  have a: "starts r (ctl_bits si TP_CTRL_END_VAL)" "starts (adv (s_bits_per_symbol si) r) (num_bits vi)"
    using st by (simp_all add: starts_append)
  show ?thesis
    using read_ctl(1)[OF so _ a(1)] read_num[OF a(2)] assms(3)
    by (simp add: sbind_def ctrl_code_inj[OF so] ctrl_defs unat_of_nat)
qed

lemma lookup_branch:
  assumes so: "symbols_ok al si" and st: "starts r (ctl_bits si TP_CTRL_BRANCH @ num_bits m)"
    and m: "m < 18446744073709551616"
  shows "lookup_loop (Suc f) si kb n i eb r =
    (if i \<ge> n then (Err TP_ERR_NOT_FOUND, adv (s_bits_per_symbol si + length (num_bits m)) r)
     else sbind (slift (load kb i)) (\<lambda>target.
          sbind (child_loop m si target) (\<lambda>found_child.
          if \<not> found_child then sfail TP_ERR_NOT_FOUND
          else lookup_loop f si kb n (i + 1) False)) (adv (s_bits_per_symbol si + length (num_bits m)) r))"
proof -
  have a: "starts r (ctl_bits si TP_CTRL_BRANCH)" "starts (adv (s_bits_per_symbol si) r) (num_bits m)"
    using st by (simp_all add: starts_append)
  show ?thesis
    using read_ctl(1)[OF so _ a(1)] read_num[OF a(2)] assms(3)
    by (simp add: sbind_def ctrl_code_inj[OF so] ctrl_defs unat_of_nat)
qed

lemma chr_not_is_ctrl:
  assumes so: "symbols_ok al si" and c: "c \<in> al" shows "\<not> is_ctrl_code si (symbol_code si c)"
proof -
  have "(2 :: nat) ^ s_bits_per_symbol si \<le> 2 ^ 8" using symbols_okD(2)[OF so] by (intro power_increasing) simp_all
  then have "symbol_code si c < 256" using symbols_okD(4)[OF so c] by simp
  then show ?thesis using symbols_okD(5)[OF so c] by (simp add: is_ctrl_code_def is_ctrl_def)
qed

lemma lookup_chr:
  assumes so: "symbols_ok al si" and st: "starts r (chr_bits si c)" and c: "c \<in> al" and k: "todo kb n i k"
  shows "lookup_loop (Suc f) si kb n i False r =
    (if k \<noteq> [] \<and> hd k = c then lookup_loop f si kb n (i + 1) False (adv (s_bits_per_symbol si) r)
     else (Err TP_ERR_NOT_FOUND, adv (s_bits_per_symbol si) r))"
proof -
  have nc: "symbol_code si c \<noteq> ctrl_code si TP_CTRL_END" "symbol_code si c \<noteq> ctrl_code si TP_CTRL_END_VAL"
    "symbol_code si c \<noteq> ctrl_code si TP_CTRL_BRANCH" using symbol_code_not_ctrl[OF so c] by (simp_all add: ctrl_defs)
  have "i \<ge> n" if "k = []" using k that by (simp add: todo_Nil)
  moreover have "i < n \<and> load kb i = Ok d" if "k = d # k'" for d k' using k that by (simp add: todo_Cons)
  ultimately show ?thesis
    using read_chr(1)[OF so c st] nc chr_not_is_ctrl[OF so c] symbol_code_eq_iff[OF so c]
    by (cases k) (auto simp: sbind_def)
qed

text \<open>The label of a node.\<close>

lemma lookup_label:
  assumes so: "symbols_ok al si"
    and "starts r (concat (map (chr_bits si) l))" and "set l \<subseteq> al" and "todo kb n i k" and "length k < f"
  shows "(\<exists>k'. k = l @ k' \<and> todo kb n (i + length l) k' \<and>
      lookup_loop f si kb n i False r =
        lookup_loop (f - length l) si kb n (i + length l) False (adv (s_bits_per_symbol si * length l) r)) \<or>
    ((\<forall>k'. k \<noteq> l @ k') \<and> (\<exists>r'. lookup_loop f si kb n i False r = (Err TP_ERR_NOT_FOUND, r')))"
  using assms(2-)
proof (induction l arbitrary: r i k f)
  case Nil
  then show ?case by simp
next
  case (Cons c l)
  obtain f' where f: "f = Suc f'" using Cons.prems(4) by (cases f) auto
  have st: "starts r (chr_bits si c)" "starts (adv (s_bits_per_symbol si) r) (concat (map (chr_bits si) l))"
    using Cons.prems(1) by (simp_all add: starts_append)
  note step = lookup_chr[OF so st(1) _ Cons.prems(3), of f']
  show ?case
  proof (cases "k \<noteq> [] \<and> hd k = c")
    case True
    then obtain k1 where k: "k = c # k1" by (cases k) auto
    have t: "todo kb n (i + 1) k1" using Cons.prems(3) k by (simp add: todo_Cons)
    show ?thesis using Cons.IH[OF st(2) _ t, of f'] step Cons.prems(2,4) k f by auto
  next
    case False
    then show ?thesis using step Cons.prems(2) f by (cases k) auto
  qed
qed

section \<open>The children of a BRANCH\<close>

text \<open>The bits of one child with what introduces it.\<close>

definition preamble :: "tp_symbol_info \<Rightarrow> bool \<Rightarrow> nat \<Rightarrow> bool list" where
  "preamble si is_last n = (if is_last then [] else ctl_bits si TP_CTRL_SKIP @ num_bits n)"

lemma ser_kids_Cons:
  "ser_kids si vi ((c, t) # ks) =
     preamble si (ks = []) (s_bits_per_symbol si + length (ser si vi t)) @ chr_bits si c @ ser si vi t @
     ser_kids si (vi + nterms t) ks"
  by (simp add: preamble_def)

lemma read_preamble:
  assumes so: "symbols_ok al si" and st: "starts r (preamble si (\<not> 0 < n) d)"
  shows "\<exists>x. (if 0 < n then sbind (tp_bs_read_bits (s_bits_per_symbol si)) (\<lambda>_. tp_bs_read_varint_u) else sret 0) r =
      (Ok x, adv (length (preamble si (\<not> 0 < n) d)) r) \<and> (0 < n \<longrightarrow> d < 18446744073709551616 \<longrightarrow> unat x = d)"
proof (cases "0 < n")
  case True
  then have a: "starts r (ctl_bits si TP_CTRL_SKIP)" "starts (adv (s_bits_per_symbol si) r) (num_bits d)"
    using st by (simp_all add: preamble_def starts_append)
  show ?thesis
    using read_ctl(2)[OF so _ a(1)] read_num[OF a(2)] True
    by (simp add: sbind_def ctrl_defs preamble_def unat_of_nat)
qed (simp add: preamble_def)

lemma child_loop_step:
  assumes so: "symbols_ok al si" and c: "c \<in> al"
    and st: "starts r (preamble si (\<not> 0 < n) d @ chr_bits si c @ xs)" and d: "d = s_bits_per_symbol si + length xs"
  shows "child_loop (Suc n) si target r =
    (let r1 = adv (length (preamble si (\<not> 0 < n) d)) r in
     if target = c then (Ok True, adv (s_bits_per_symbol si) r1)
     else child_loop n si target (if 0 < n then adv d r1 else r1))"
proof -
  let ?r1 = "adv (length (preamble si (\<not> 0 < n) d)) r"
  have a: "starts r (preamble si (\<not> 0 < n) d)" "starts ?r1 (chr_bits si c @ xs)" "starts ?r1 (chr_bits si c)"
    using st by (simp_all add: starts_append)
  have fit: "r_pos ?r1 + d \<le> r_bit_len ?r1" "r_bit_len ?r1 \<le> 9223372036854775808" "reader_ok ?r1"
    using a(2) d by (simp_all add: starts_def next_bits_def reader_ok_def)
  obtain x where x: "(if 0 < n then sbind (tp_bs_read_bits (s_bits_per_symbol si)) (\<lambda>_. tp_bs_read_varint_u) else sret 0) r = (Ok x, ?r1)"
    "0 < n \<longrightarrow> d < 18446744073709551616 \<longrightarrow> unat x = d"
    using read_preamble[OF so a(1)] by blast
  have adv: "tp_bs_reader_advance m ?r1 = (Ok (), adv m ?r1)" if "m \<le> d" for m
    using that fit by (simp add: tp_bs_reader_advance_def adv_def)
  have "\<not> is_ctrl si (symbol_code si c)" using symbols_okD(5)[OF so c] .
  then show ?thesis
    using x(1) read_chr(2,3)[OF so c a(3)] symbol_code_eq_iff[OF so c, of target] adv[of "s_bits_per_symbol si"] adv[of d] d x(2) fit
    by (auto simp: sbind_def Let_def)
qed

lemma child_loop_miss:
  assumes so: "symbols_ok al si"
  shows "fst ` set ks \<subseteq> al \<Longrightarrow> starts r (ser_kids si vi ks) \<Longrightarrow> target \<notin> fst ` set ks \<Longrightarrow>
    \<exists>r'. child_loop (length ks) si target r = (Ok False, r')"
proof (induction ks arbitrary: r vi)
  case (Cons ct ks)
  obtain c t where ct: "ct = (c, t)" by force
  let ?d = "s_bits_per_symbol si + length (ser si vi t)"
  let ?p = "preamble si (ks = []) ?d"
  have st: "starts r (?p @ chr_bits si c @ ser si vi t)"
    and st2: "starts (adv (length ?p + ?d) r) (ser_kids si (vi + nterms t) ks)"
    using Cons.prems(2) unfolding ct ser_kids_Cons by (simp_all add: starts_append add.assoc)
  have n: "\<not> 0 < length ks \<longleftrightarrow> ks = []" by simp
  have "child_loop (Suc (length ks)) si target r =
      child_loop (length ks) si target (if 0 < length ks then adv ?d (adv (length ?p) r) else adv (length ?p) r)"
    using child_loop_step[OF so _ st[folded n] refl, of target] Cons.prems(1,3) ct n
    by (simp add: Let_def del: child_loop.simps)
  then show ?case
    using Cons.IH[OF _ st2] Cons.prems(1,3) by (cases "ks = []") (simp_all del: child_loop.simps(2))
qed simp

lemma child_loop_hit:
  assumes so: "symbols_ok al si"
  shows "fst ` set (ks1 @ (c, t) # ks2) \<subseteq> al \<Longrightarrow> starts r (ser_kids si vi (ks1 @ (c, t) # ks2)) \<Longrightarrow>
    c \<notin> fst ` set ks1 \<Longrightarrow>
    \<exists>p. child_loop (length (ks1 @ (c, t) # ks2)) si c r = (Ok True, adv p r) \<and>
      starts (adv p r) (ser si (vi + kids_terms ks1) t @ ser_kids si (vi + kids_terms ks1 + nterms t) ks2) \<and>
      p + length (ser si (vi + kids_terms ks1) t) + length (ser_kids si (vi + kids_terms ks1 + nterms t) ks2) =
        length (ser_kids si vi (ks1 @ (c, t) # ks2))"
proof (induction ks1 arbitrary: r vi)
  case Nil
  let ?d = "s_bits_per_symbol si + length (ser si vi t)"
  let ?p = "preamble si (ks2 = []) ?d"
  have n: "\<not> 0 < length ks2 \<longleftrightarrow> ks2 = []" by simp
  have st: "starts r (?p @ chr_bits si c @ ser si vi t)"
    and st2: "starts (adv (length ?p + s_bits_per_symbol si) r) (ser si vi t @ ser_kids si (vi + nterms t) ks2)"
    using Nil.prems(2) unfolding append_Nil ser_kids_Cons by (simp_all add: starts_append add.assoc)
  have "child_loop (Suc (length ks2)) si c r = (Ok True, adv (length ?p + s_bits_per_symbol si) r)"
    using child_loop_step[OF so _ st[folded n] refl, of c] Nil.prems(1) n
    by (simp add: Let_def del: child_loop.simps)
  then show ?case using st2
    by (intro exI[of _ "length ?p + s_bits_per_symbol si"])
      (simp add: kids_terms_def ser_kids_Cons del: child_loop.simps ser_kids.simps(2))
next
  case (Cons x ks1)
  obtain a u where x: "x = (a, u)" by force
  let ?ks = "ks1 @ (c, t) # ks2"
  let ?d = "s_bits_per_symbol si + length (ser si vi u)"
  let ?p = "preamble si False ?d"
  have st: "starts r (?p @ chr_bits si a @ ser si vi u)"
    and st2: "starts (adv (length ?p + ?d) r) (ser_kids si (vi + nterms u) ?ks)"
    using Cons.prems(2) unfolding x append_Cons ser_kids_Cons by (simp_all add: starts_append add.assoc)
  have n: "(\<not> 0 < length ?ks) = False" by simp
  have step: "child_loop (Suc (length ?ks)) si c r = child_loop (length ?ks) si c (adv (length ?p + ?d) r)"
    using child_loop_step[OF so _ st[folded n] refl, of c] Cons.prems(1,3) x n
    by (auto simp: Let_def simp del: child_loop.simps)
  have k: "vi + nterms u + kids_terms ks1 = vi + kids_terms ((a, u) # ks1)" by (simp add: kids_terms_def)
  obtain p where p: "child_loop (length ?ks) si c (adv (length ?p + ?d) r) = (Ok True, adv p (adv (length ?p + ?d) r))"
    "starts (adv p (adv (length ?p + ?d) r)) (ser si (vi + kids_terms ((a, u) # ks1)) t @
       ser_kids si (vi + kids_terms ((a, u) # ks1) + nterms t) ks2)"
    "p + length (ser si (vi + kids_terms ((a, u) # ks1)) t) +
       length (ser_kids si (vi + kids_terms ((a, u) # ks1) + nterms t) ks2) = length (ser_kids si (vi + nterms u) ?ks)"
    using Cons.IH[OF _ st2] Cons.prems(1,3) unfolding k by auto
  show ?case
    unfolding x append_Cons
    using p step
    by (intro exI[of _ "length ?p + ?d + p"])
      (simp add: ser_kids_Cons add.assoc del: child_loop.simps ser_kids.simps(2))
qed

section \<open>What follows a subtree\<close>

declare lookup_loop.simps(2) [simp del] child_loop.simps(2) [simp del]

text \<open>No symbol that a walk behind a terminal would go on with.\<close>

definition stop_at :: "tp_symbol_info \<Rightarrow> tp_bitstream_reader \<Rightarrow> bool" where
  "stop_at si r \<longleftrightarrow> (\<forall>code r'. read_sym si True r = (Ok code, r') \<longrightarrow>
     code \<noteq> ctrl_code si TP_CTRL_END \<and> code \<noteq> ctrl_code si TP_CTRL_END_VAL \<and> code \<noteq> ctrl_code si TP_CTRL_BRANCH)"

lemma lookup_stop:
  assumes ok: "reader_ok r" and stop: "stop_at si r"
  shows "\<exists>r'. lookup_loop (Suc f) si kb n i True r = (Err TP_ERR_NOT_FOUND, r')"
proof -
  obtain x r' where x: "read_sym si True r = (x, r')" by force
  have "safe x" using rsafeD(1)[OF rsafe_read_sym ok x] .
  moreover have "x = Err TP_ERR_NOT_FOUND" if "x = Err e" for e
    using x that by (auto simp: read_sym_def split: prod.splits res.splits)
  ultimately show ?thesis
    using x stop by (cases x) (auto simp: lookup_loop.simps sbind_def stop_at_def)
qed

text \<open>Between the subtrees of a node the walk stops: a sibling starts with SKIP or with a key byte.\<close>

lemma stop_at_kids:
  assumes so: "symbols_ok al si" and st: "starts r (ser_kids si vi ks)" and ks: "ks \<noteq> []" "fst ` set ks \<subseteq> al"
  shows "stop_at si r"
proof -
  obtain c t ks' where k: "ks = (c, t) # ks'" using ks(1) by (cases ks) auto
  show ?thesis
  proof (cases "ks' = []")
    case True
    then have "starts r (chr_bits si c)" using st k by (simp add: starts_append)
    then show ?thesis
      using read_chr(1)[OF so, of c r True] ks(2) k symbol_code_not_ctrl[OF so, of c]
      by (auto simp: stop_at_def ctrl_defs)
  next
    case False
    then have "starts r (ctl_bits si TP_CTRL_SKIP)" using st k by (simp add: starts_append)
    then show ?thesis
      using read_ctl(1)[OF so, of TP_CTRL_SKIP r True] by (auto simp: stop_at_def ctrl_code_inj[OF so] ctrl_defs)
  qed
qed

section \<open>The walk over a trie\<close>

text \<open>How a run of the loop answers \<open>k\<close>: \<open>ends\<close> says that a walk behind the last leaf stops.\<close>

definition answers ::
  "lookup_hit option \<Rightarrow> bool \<Rightarrow> lookup_hit tp \<times> tp_bitstream_reader \<Rightarrow> bool" where
  "answers h ends x \<longleftrightarrow>
     (case h of Some a \<Rightarrow> fst x = Ok a | None \<Rightarrow> ends \<longrightarrow> fst x = Err TP_ERR_NOT_FOUND)"

definition last_key :: "(u8 list \<times> bool) list \<Rightarrow> u8 list" where
  "last_key es = fst (last es)"

lemma last_key_kids: "flat t \<noteq> [] \<Longrightarrow> last_key (kid_keys (ks @ [(c, t)])) = c # last_key (flat t)"
  by (simp add: last_key_def last_map split: prod.splits)

lemma last_key_prefix: "es \<noteq> [] \<Longrightarrow> last_key (map (\<lambda>(k, b). (l @ k, b)) es) = l @ last_key es"
  by (simp add: last_key_def last_map split: prod.splits)

lemma extends_append: "extends (l @ k) (l @ k') = extends k k'" "extends (c # k) (c # k') = extends k k'"
  by (simp_all add: extends_def)

text \<open>The children: the walk goes into the one with the next byte, or gives up.\<close>

lemma walk_kids:
  assumes so: "symbols_ok al si" and dist: "distinct (map fst ks)" and al: "fst ` set ks \<subseteq> al" and ne: "ks \<noteq> []"
    and m: "length ks < 18446744073709551616" and wf: "\<forall>(c, t) \<in> set ks. wf_trie t"
    and st: "starts r (ctl_bits si TP_CTRL_BRANCH @ num_bits (length ks) @ ser_kids si vi ks)"
    and td: "todo kb n i k" and fuel: "2 * length k + 2 \<le> Suc f"
    and fin: "ends \<Longrightarrow> stop_at si (adv (length (ctl_bits si TP_CTRL_BRANCH @ num_bits (length ks) @ ser_kids si vi ks)) r) \<or>
      \<not> extends k (last_key (kid_keys ks))"
    and ih: "\<And>c t v r k f. (c, t) \<in> set ks \<Longrightarrow> v + nterms t \<le> vi + kids_terms ks \<Longrightarrow> starts r (ser si v t) \<Longrightarrow>
      todo kb n (i + 1) k \<Longrightarrow> 2 * length k + 3 \<le> f \<Longrightarrow>
      answers (look v (flat t) k) (stop_at si (adv (length (ser si v t)) r) \<or> \<not> extends k (last_key (flat t)))
        (lookup_loop f si kb n (i + 1) False r)"
  shows "answers (look vi (kid_keys ks) k) ends (lookup_loop (Suc f) si kb n i eb r)"
proof -
  let ?r1 = "adv (s_bits_per_symbol si + length (num_bits (length ks))) r"
  have a: "starts r (ctl_bits si TP_CTRL_BRANCH @ num_bits (length ks))" "starts ?r1 (ser_kids si vi ks)"
    using st by (simp_all add: starts_append)
  note br = lookup_branch[OF so a(1) m, of f kb n i eb]
  show ?thesis
  proof (cases k)
    case Nil
    have "look vi (kid_keys ks) [] = None" using kid_keys_hd by (intro look_None) force
    then show ?thesis using br td Nil by (simp add: answers_def todo_Nil)
  next
    case k: (Cons c k')
    then have t: "i < n" "load kb i = Ok c" "todo kb n (i + 1) k'" using td by (simp_all add: todo_Cons)
    show ?thesis
    proof (cases "c \<in> fst ` set ks")
      case False
      obtain r' where "child_loop (length ks) si c ?r1 = (Ok False, r')"
        using child_loop_miss[OF so al a(2) False] by blast
      then show ?thesis using br t k look_miss_kid[OF False] by (simp add: answers_def sbind_def)
    next
      case True
      then obtain ks1 u ks2 where ks: "ks = ks1 @ (c, u) # ks2" by (metis (no_types, lifting) imageE prod.collapse split_list)
      then have c1: "c \<notin> fst ` set ks1" using dist by auto
      let ?v = "vi + kids_terms ks1"
      obtain p where p: "child_loop (length ks) si c ?r1 = (Ok True, adv p ?r1)"
        "starts (adv p ?r1) (ser si ?v u @ ser_kids si (?v + nterms u) ks2)"
        "p + length (ser si ?v u) + length (ser_kids si (?v + nterms u) ks2) = length (ser_kids si vi ks)"
        using child_loop_hit[OF so al[unfolded ks] a(2)[unfolded ks] c1] unfolding ks by blast
      have eq: "lookup_loop (Suc f) si kb n i eb r = lookup_loop f si kb n (i + 1) False (adv p ?r1)"
        using br t p(1) by (simp add: sbind_def)
      have u: "(c, u) \<in> set ks" "?v + nterms u \<le> vi + kids_terms ks" "starts (adv p ?r1) (ser si ?v u)"
        "starts (adv (length (ser si ?v u)) (adv p ?r1)) (ser_kids si (?v + nterms u) ks2)"
        using ks p(2) by (simp_all add: kids_terms_def starts_append)
      have look: "look vi (kid_keys ks) (c # k') = look ?v (flat u) k'"
        using look_hit_kid[OF dist[unfolded ks]] ks by simp
      have stop: "ends \<Longrightarrow> stop_at si (adv (length (ser si ?v u)) (adv p ?r1)) \<or> \<not> extends k' (last_key (flat u))"
      proof (cases "ks2 = []")
        case False
        then show ?thesis using stop_at_kids[OF so u(4)] al ks by auto
      next
        case True
        have "flat u \<noteq> []" using wf u(1) wf_flat_nonempty by auto
        then have "last_key (kid_keys ks) = c # last_key (flat u)" using True ks last_key_kids by simp
        moreover have "adv (length (ctl_bits si TP_CTRL_BRANCH @ num_bits (length ks) @ ser_kids si vi ks)) r =
            adv (length (ser si ?v u)) (adv p ?r1)"
          using p(3) True by (simp add: adv_def add.assoc add.commute add.left_commute)
        ultimately show "ends \<Longrightarrow> ?thesis" using fin k by (simp add: extends_append)
      qed
      have "answers (look ?v (flat u) k')
          (stop_at si (adv (length (ser si ?v u)) (adv p ?r1)) \<or> \<not> extends k' (last_key (flat u)))
          (lookup_loop f si kb n (i + 1) False (adv p ?r1))"
        using fuel k by (intro ih[OF u(1,2,3) t(3)]) simp
      then show ?thesis using stop by (auto simp: answers_def eq k look split: option.splits)
    qed
  qed
qed

lemma length_kids_le: "1 \<le> s_bits_per_symbol si \<Longrightarrow> length ks \<le> length (ser_kids si vi ks)"
proof (induction ks arbitrary: vi)
  case (Cons ct ks)
  obtain c t where ct: "ct = (c, t)" by force
  have "length ks \<le> length (ser_kids si (vi + nterms t) ks)" using Cons by simp
  moreover have "length (ser_kids si (vi + nterms t) ks) + 1 \<le> length (ser_kids si vi (ct # ks))"
    using Cons.prems unfolding ct ser_kids_Cons by simp
  ultimately show ?case by simp
qed simp

lemma lookup_term:
  assumes so: "symbols_ok al si" and st: "starts r (term_bits si vi (Some b))" and vi: "vi < 4294967296"
  shows "lookup_loop (Suc f) si kb n i eb r =
    (if i = n then (Ok (hit vi b), adv (length (term_bits si vi (Some b))) r)
     else lookup_loop f si kb n i True (adv (length (term_bits si vi (Some b))) r))"
  using lookup_end[OF so, of r f kb n i eb] lookup_end_val[OF so _ vi, of r f kb n i eb] st
  by (cases b) (simp_all add: term_bits_def hit_def)

lemma look_label: "(\<forall>k'. k \<noteq> l @ k') \<Longrightarrow> look vi (flat (Node l tm ks)) k = None"
  by (intro look_None) (auto simp: flat_Node split_def)

text \<open>A node behind its label.\<close>

lemma walk_node:
  assumes so: "symbols_ok al si" and wf: "wf_trie (Node l tm ks)" and al: "chars (Node l tm ks) \<subseteq> al"
    and vi: "vi + nterms (Node l tm ks) < 4294967296"
    and st: "starts r (term_bits si vi tm @ (if ks = [] then [] else ctl_bits si TP_CTRL_BRANCH @
        num_bits (length ks) @ ser_kids si (if tm = None then vi else vi + 1) ks))"
    and td: "todo kb n i k" and fuel: "2 * length k + 3 \<le> f"
    and ih: "\<And>c t v r k f. (c, t) \<in> set ks \<Longrightarrow> v + nterms t \<le> vi + nterms (Node l tm ks) \<Longrightarrow>
      starts r (ser si v t) \<Longrightarrow> todo kb n (i + 1) k \<Longrightarrow> 2 * length k + 3 \<le> f \<Longrightarrow>
      answers (look v (flat t) k) (stop_at si (adv (length (ser si v t)) r) \<or> \<not> extends k (last_key (flat t)))
        (lookup_loop f si kb n (i + 1) False r)"
  shows "answers (look vi ((case tm of None \<Rightarrow> [] | Some b \<Rightarrow> [([], b)]) @ kid_keys ks) k)
    (stop_at si (adv (length (term_bits si vi tm @ (if ks = [] then [] else ctl_bits si TP_CTRL_BRANCH @
        num_bits (length ks) @ ser_kids si (if tm = None then vi else vi + 1) ks))) r) \<or>
     \<not> extends k (last_key ((case tm of None \<Rightarrow> [] | Some b \<Rightarrow> [([], b)]) @ kid_keys ks)))
    (lookup_loop f si kb n i False r)"
proof -
  obtain f1 where f: "f = Suc f1" "2 * length k + 2 \<le> f1" using fuel by (cases f) auto
  let ?K = "\<lambda>v. ctl_bits si TP_CTRL_BRANCH @ num_bits (length ks) @ ser_kids si v ks"
  have kids: "answers (look v (kid_keys ks) k) (stop_at si (adv (length (?K v)) r') \<or> \<not> extends k (last_key (kid_keys ks)))
      (lookup_loop (Suc f2) si kb n i eb r')"
    if ne: "ks \<noteq> []" and st': "starts r' (?K v)" and fuel': "2 * length k + 2 \<le> Suc f2"
      and v: "v + kids_terms ks \<le> vi + nterms (Node l tm ks)" for v r' f2 eb
  proof (rule walk_kids[OF so _ _ ne _ _ st' td fuel'])
    show "distinct (map fst ks)" "\<forall>(c, t) \<in> set ks. wf_trie t" using wf by simp_all
    show "fst ` set ks \<subseteq> al" using al by (auto split: prod.splits)
    have "length (ser_kids si v ks) \<le> 9223372036854775808"
      using st' starts_length[of "adv (s_bits_per_symbol si + length (num_bits (length ks))) r'" "ser_kids si v ks"]
      by (simp add: starts_append add.assoc)
    then show "length ks < 18446744073709551616" using length_kids_le[OF symbols_okD(1)[OF so], of ks v] by linarith
  qed (use ih v in \<open>auto intro: le_trans\<close>)
  have ne: "kid_keys ks \<noteq> []" if "ks \<noteq> []"
    using that wf wf_flat_nonempty by (cases ks) (auto simp: kid_keys_def)
  show ?thesis
  proof (cases tm)
    case None
    then have "ks \<noteq> []" using wf by simp
    then show ?thesis using kids[of r vi f1 False] st f None by (simp add: term_bits_def kids_terms_def)
  next
    case (Some b)
    have stt: "starts r (term_bits si vi (Some b))" using st Some by (simp add: starts_append)
    let ?r1 = "adv (length (term_bits si vi (Some b))) r"
    note tm' = lookup_term[OF so stt, of f1 kb n i False]
    show ?thesis
    proof (cases k)
      case Nil
      then show ?thesis using tm' vi Some f(1) td by (simp add: answers_def todo_Nil)
    next
      case (Cons c k')
      then have i: "i < n" using td by (simp add: todo_Cons)
      obtain f2 where f2: "f1 = Suc f2" using f(2) by (cases f1) auto
      have step: "lookup_loop f si kb n i False r = lookup_loop (Suc f2) si kb n i True ?r1"
        using tm' i vi Some f(1) f2 by simp
      show ?thesis
      proof (cases "ks = []")
        case True
        have "extends k []" using Cons by (simp add: extends_def)
        then show ?thesis
          using lookup_stop[OF starts_end[OF stt], of si f2 kb n i] True Some Cons step
          by (auto simp: answers_def last_key_def)
      next
        case False
        have "starts ?r1 (?K (vi + 1))" using st Some False by (simp add: starts_append)
        from kids[OF False this] have "answers (look (vi + 1) (kid_keys ks) k)
            (stop_at si (adv (length (?K (vi + 1))) ?r1) \<or> \<not> extends k (last_key (kid_keys ks)))
            (lookup_loop (Suc f2) si kb n i True ?r1)"
          using f(2) f2 Some by (simp add: kids_terms_def)
        then show ?thesis
          using Some Cons False ne[OF False] step by (simp add: last_key_def add.assoc)
      qed
    qed
  qed
qed

text \<open>The loop answers every lookup on the bits of a trie as \<open>look\<close> does on its keys.\<close>

lemma walk_ok:
  assumes so: "symbols_ok al si"
  shows "wf_trie t \<Longrightarrow> chars t \<subseteq> al \<Longrightarrow> vi + nterms t < 4294967296 \<Longrightarrow> starts r (ser si vi t) \<Longrightarrow>
    todo kb n i k \<Longrightarrow> 2 * length k + 3 \<le> f \<Longrightarrow>
    answers (look vi (flat t) k) (stop_at si (adv (length (ser si vi t)) r) \<or> \<not> extends k (last_key (flat t)))
      (lookup_loop f si kb n i False r)"
proof (induction t arbitrary: vi r i k f)
  case (Node l tm ks)
  let ?es = "(case tm of None \<Rightarrow> [] | Some b \<Rightarrow> [([], b)]) @ kid_keys ks"
  let ?B = "term_bits si vi tm @ (if ks = [] then [] else ctl_bits si TP_CTRL_BRANCH @
        num_bits (length ks) @ ser_kids si (if tm = None then vi else vi + 1) ks)"
  let ?r1 = "adv (s_bits_per_symbol si * length l) r"
  have st: "starts r (concat (map (chr_bits si) l))" "starts ?r1 ?B"
    using Node.prems(4) by (simp_all add: starts_append length_concat_chr)
  have len: "length (ser si vi (Node l tm ks)) = s_bits_per_symbol si * length l + length ?B"
    by (simp add: length_concat_chr)
  have al: "set l \<subseteq> al" using Node.prems(2) by simp
  from lookup_label[OF so st(1) al Node.prems(5), of f] Node.prems(6) consider
      (on) k' where "k = l @ k'" "todo kb n (i + length l) k'"
        "lookup_loop f si kb n i False r = lookup_loop (f - length l) si kb n (i + length l) False ?r1"
    | (off) r' where "\<forall>k'. k \<noteq> l @ k'" "lookup_loop f si kb n i False r = (Err TP_ERR_NOT_FOUND, r')"
    by fastforce
  then show ?case
  proof cases
    case off
    then show ?thesis using look_label[OF off(1)] by (simp add: answers_def del: flat.simps)
  next
    case on
    have ne: "?es \<noteq> []" using wf_flat_nonempty[OF Node.prems(1)] by (simp add: flat_Node del: flat.simps)
    then have lk: "last_key (flat (Node l tm ks)) = l @ last_key ?es"
      unfolding flat_Node by (rule last_key_prefix)
    have "answers (look vi ?es k') (stop_at si (adv (length ?B) ?r1) \<or> \<not> extends k' (last_key ?es))
        (lookup_loop (f - length l) si kb n (i + length l) False ?r1)"
    proof (rule walk_node[OF so Node.prems(1-3) st(2) on(2)])
      show "2 * length k' + 3 \<le> f - length l" using Node.prems(6) on(1) by simp
      fix c t v r' k'' f'
      assume ct: "(c, t) \<in> set ks" and v: "v + nterms t \<le> vi + nterms (Node l tm ks)"
        and s: "starts r' (ser si v t)" "todo kb n (i + length l + 1) k''" "2 * length k'' + 3 \<le> f'"
      have "wf_trie t" "chars t \<subseteq> al" using Node.prems(1,2) ct by auto
      then show "answers (look v (flat t) k'') (stop_at si (adv (length (ser si v t)) r') \<or> \<not> extends k'' (last_key (flat t)))
          (lookup_loop f' si kb n (i + length l + 1) False r')"
        using Node.IH[OF ct _ _ _ _ s(1) s(2,3)] v Node.prems(3) by simp
    qed
    moreover have "look vi (flat (Node l tm ks)) k = look vi ?es k'"
      by (simp only: flat_Node on(1) look_prefix)
    moreover have "adv (length (ser si vi (Node l tm ks))) r = adv (length ?B) ?r1"
      by (simp only: len adv_adv)
    moreover have "extends k (last_key (flat (Node l tm ks))) = extends k' (last_key ?es)"
      by (simp only: lk on(1) extends_append)
    ultimately show ?thesis using on(3) by (simp only:)
  qed
qed

end
