(* ===== verification/Reopen.thy ===== *)
theory Reopen
  imports Build Lookup_Trie
begin

text \<open>
  Encoder and decoder together: a file that \<open>tp_encoder_build\<close> has written is opened, its symbol
  table comes back, and every lookup answers as the client's key list says. \<open>opened\<close> relates a
  dictionary to the encoder state it was built from.
\<close>

section \<open>The symbol table comes back\<close>

text \<open>A reading loop over an index range whose state after \<open>k\<close> rounds is \<open>S k\<close>.\<close>

lemma sfold_states:
  assumes "a \<le> b" and "\<And>k r. a \<le> k \<Longrightarrow> k < b \<Longrightarrow> starts r (enc k) \<Longrightarrow> f k (S k) r = (Ok (S (Suc k)), adv (length (enc k)) r)"
    and "starts r (concat (map enc [a..<b]))"
  shows "sfold f [a..<b] (S a) r = (Ok (S b), adv (length (concat (map enc [a..<b]))) r)"
  using assms
proof (induction a arbitrary: r rule: inc_induct)
  case base
  then show ?case by simp
next
  case (step a)
  have u: "[a..<b] = a # [Suc a..<b]" using step.hyps by (simp add: upt_conv_Cons)
  have st: "starts r (enc a)" "starts (adv (length (enc a)) r) (concat (map enc [Suc a..<b]))"
    using step.prems(2) by (simp_all add: u starts_append)
  have "f a (S a) r = (Ok (S (Suc a)), adv (length (enc a)) r)"
    using step.prems(1)[OF _ _ st(1)] step.hyps by simp
  then show ?case using step.IH[OF step.prems(1) st(2)] by (simp add: u sbind_def)
qed

definition ctrl_state :: "tp_symbol_info \<Rightarrow> nat \<Rightarrow> tp_symbol_info" where
  "ctrl_state si k = zero_symbols\<lparr>s_bits_per_symbol := s_bits_per_symbol si, s_symbol_count := s_symbol_count si,
     s_ctrl_codes := [0..<k] @ replicate (6 - k) 0, s_code_is_ctrl := map (\<lambda>x. x < k) [0..<256]\<rparr>"

definition code_state :: "u8 set \<Rightarrow> tp_symbol_info \<Rightarrow> nat \<Rightarrow> tp_symbol_info" where
  "code_state al si k = (ctrl_state si 6)\<lparr>
     s_reverse_map := map (\<lambda>x. if 6 \<le> x \<and> x < k then s_reverse_map si ! x else 0) [0..<256],
     s_symbol_map := map (\<lambda>b. if word_of_nat b \<in> al \<and> symbol_code si (word_of_nat b) < k
       then symbol_code si (word_of_nat b) else 0) [0..<256]\<rparr>"

definition parsed :: "u8 set \<Rightarrow> tp_symbol_info \<Rightarrow> tp_symbol_info" where
  "parsed al si = code_state al si (s_symbol_count si)"

lemma canonicalD:
  assumes "canonical al si"
  shows "symbols_ok al si" "6 \<le> s_symbol_count si" "s_symbol_count si \<le> 255" "c < 6 \<Longrightarrow> ctrl_code si c = c"
    "b \<in> al \<Longrightarrow> 6 \<le> symbol_code si b" "b \<in> al \<Longrightarrow> symbol_code si b < s_symbol_count si"
    "6 \<le> code \<Longrightarrow> code < s_symbol_count si \<Longrightarrow> s_reverse_map si ! code \<in> al"
    "6 \<le> code \<Longrightarrow> code < s_symbol_count si \<Longrightarrow> symbol_code si (s_reverse_map si ! code) = code"
  using assms by (auto simp: canonical_def)

lemma canonical_count: "canonical al si \<Longrightarrow> s_symbol_count si \<le> 2 ^ s_bits_per_symbol si"
proof (cases "s_symbol_count si = 6")
  case True
  assume c: "canonical al si"
  then show ?thesis using symbols_okD(3)[OF canonicalD(1)[OF c], of 5] canonicalD(4)[OF c, of 5] True by simp
next
  case False
  assume c: "canonical al si"
  let ?m = "s_symbol_count si - 1"
  have m: "6 \<le> ?m" "?m < s_symbol_count si" using canonicalD(2)[OF c] False by auto
  have "?m < 2 ^ s_bits_per_symbol si"
    using symbols_okD(4)[OF canonicalD(1)[OF c] canonicalD(7)[OF c m]] canonicalD(8)[OF c m] by simp
  then show ?thesis by linarith
qed

lemma read_ctrl_state:
  assumes c: "canonical al si" and k: "k < 6" and st: "starts r (ctl_bits si k)"
  shows "read_ctrl_code k (ctrl_state si k) r = (Ok (ctrl_state si (Suc k)), adv (length (ctl_bits si k)) r)"
proof -
  have rd: "tp_bs_read_bits (s_bits_per_symbol si) r = (Ok (word_of_nat k), adv (s_bits_per_symbol si) r)"
    using read_ctl(2)[OF canonicalD(1)[OF c] k st] canonicalD(4)[OF c k] by simp
  have u: "unat (word_of_nat k :: u64) = k" using k by (simp add: unat_of_nat)
  have l: "([0..<k] @ replicate (6 - k) 0)[k := k] = [0..<Suc k] @ replicate (6 - Suc k) (0 :: nat)"
    using k by (intro nth_equalityI) (auto simp: nth_append nth_list_update)
  have m: "(map (\<lambda>x. x < k) [0..<256])[k := True] = map (\<lambda>x. x < Suc k) [0..<256]"
    using k by (intro nth_equalityI) (auto simp: nth_list_update)
  show ?thesis using rd u l m k by (simp add: read_ctrl_code_def ctrl_state_def sbind_def del: upt_Suc)
qed

lemma read_code_state:
  assumes c: "canonical al si" and k: "6 \<le> k" "k < s_symbol_count si"
    and st: "starts r (num_bits (unat (s_reverse_map si ! k)))"
  shows "read_symbol_code k (code_state al si k) r =
    (Ok (code_state al si (Suc k)), adv (length (num_bits (unat (s_reverse_map si ! k)))) r)"
proof -
  let ?b = "s_reverse_map si ! k"
  have b: "?b \<in> al" "symbol_code si ?b = k" using canonicalD(7,8)[OF c k] by simp_all
  have lt: "unat ?b < 256" using unat_bound[of ?b] by simp
  have "(word_of_nat (unat ?b) :: u64) = ucast ?b"
    by (simp add: word_unat_eq_iff unsigned_ucast_eq unsigned_of_nat)
  then have u: "unat (word_of_nat (unat ?b) :: u64) = unat ?b" "(ucast (word_of_nat (unat ?b) :: u64) :: u8) = ?b"
    using unat_ucast_8_64[of ?b] ucast_ucast_id[where 'a = 8 and 'b = 64, of ?b] by simp_all
  have k256: "k < 256" using k canonicalD(3)[OF c] by simp
  have m1: "(map (\<lambda>x. if 6 \<le> x \<and> x < k then s_reverse_map si ! x else 0) [0..<256])[k := ?b] =
      map (\<lambda>x. if 6 \<le> x \<and> x < Suc k then s_reverse_map si ! x else 0) [0..<256]"
    using k k256 by (intro nth_equalityI) (auto simp: nth_list_update less_Suc_eq)
  have eq: "x = unat ?b" if "x < 256" "word_of_nat x \<in> al" "symbol_code si (word_of_nat x) = k" for x
  proof -
    have "word_of_nat x = ?b"
      using symbol_code_eq_iff[OF canonicalD(1)[OF c] b(1)] b(2) that(3) by metis
    then have "unat (word_of_nat x :: u8) = unat ?b" by simp
    then show ?thesis using that(1) by (simp add: unat_of_nat)
  qed
  have m2: "(map (\<lambda>x. if word_of_nat x \<in> al \<and> symbol_code si (word_of_nat x) < k
       then symbol_code si (word_of_nat x) else 0) [0..<256])[unat ?b := k] =
      map (\<lambda>x. if word_of_nat x \<in> al \<and> symbol_code si (word_of_nat x) < Suc k
       then symbol_code si (word_of_nat x) else 0) [0..<256]"
    (is "?L = ?R")
  proof (rule nth_equalityI)
    fix x assume "x < length ?L"
    then have x: "x < 256" by simp
    show "?L ! x = ?R ! x"
    proof (cases "x = unat ?b")
      case True
      then show ?thesis using b x by simp
    next
      case False
      then have "\<not> (word_of_nat x \<in> al \<and> symbol_code si (word_of_nat x) = k)" using eq[OF x] by blast
      then show ?thesis using x False by (auto simp: less_Suc_eq)
    qed
  qed simp
  show ?thesis
    using read_num[OF st] u lt k256 m1 m2
    by (simp add: read_symbol_code_def code_state_def sbind_def)
qed

lemma parse_symbols_built:
  assumes c: "canonical al si" and st: "starts r (config_enc si)"
  shows "parse_symbols zero_symbols r = (Ok (parsed al si), adv (length (config_enc si)) r)"
proof -
  let ?bps = "s_bits_per_symbol si" and ?n = "s_symbol_count si"
  note so = canonicalD(1)[OF c]
  have bps: "1 \<le> ?bps" "?bps \<le> 8" using symbols_okD(1,2)[OF so] .
  have n: "6 \<le> ?n" "?n \<le> 255" "?n \<le> 2 ^ ?bps" using canonicalD(2,3)[OF c] canonical_count[OF c] .
  let ?C = "concat (map (ctl_bits si) [0..<6])"
  let ?T = "concat (map (\<lambda>code. num_bits (unat (s_reverse_map si ! code))) [6..<?n])"
  have s: "starts r (nbits 4 (word_of_nat ?bps :: u64))" "starts (adv 4 r) (nbits 8 (word_of_nat ?n :: u64))"
    "starts (adv 12 r) ?C" "starts (adv (12 + length ?C) r) ?T"
    using st by (simp_all add: config_enc_def starts_append TP_NUM_CONTROL_CODES_def add.assoc)
  have r1: "tp_bs_read_bits 4 r = (Ok (word_of_nat ?bps), adv 4 r)"
    using s(1) bps by (intro read_bits_value) (simp_all add: starts_def unat_of_nat)
  have r2: "tp_bs_read_bits 8 (adv 4 r) = (Ok (word_of_nat ?n), adv 12 r)"
    using s(2) n read_bits_value[of "adv 4 r" 8 "word_of_nat ?n"] by (simp add: starts_def unat_of_nat)
  have r3: "sfold read_ctrl_code [0..<6] (ctrl_state si 0) (adv 12 r) = (Ok (ctrl_state si 6), adv (length ?C) (adv 12 r))"
    by (rule sfold_states[OF _ _ s(3)]) (use read_ctrl_state[OF c] in auto)
  have r4: "sfold read_symbol_code [6..<?n] (code_state al si 6) (adv (12 + length ?C) r) =
      (Ok (code_state al si ?n), adv (length ?T) (adv (12 + length ?C) r))"
    by (rule sfold_states[OF n(1) _ s(4)]) (use read_code_state[OF c] in auto)
  have u: "unat (word_of_nat ?bps :: u64) = ?bps" "unat (word_of_nat ?n :: u64) = ?n"
    using bps n by (simp_all add: unat_of_nat)
  have z: "zero_symbols\<lparr>s_bits_per_symbol := ?bps, s_symbol_count := ?n, s_code_is_ctrl := replicate 256 False\<rparr> = ctrl_state si 0"
    by (simp add: ctrl_state_def zero_symbols_def map_replicate_const)
  have "(\<lambda>b. if word_of_nat b \<in> al \<and> symbol_code si (word_of_nat b) < 6 then symbol_code si (word_of_nat b) else 0) = (\<lambda>_. 0)"
    using canonicalD(5)[OF c] by (fastforce simp: fun_eq_iff)
  moreover have "(\<lambda>x :: nat. if 6 \<le> x \<and> x < 6 then s_reverse_map si ! x else 0) = (\<lambda>_. 0)"
    by (auto simp add: fun_eq_iff)
  ultimately have z2: "(ctrl_state si 6)\<lparr>s_reverse_map := replicate 256 0, s_symbol_map := replicate 256 0\<rparr> = code_state al si 6"
    unfolding code_state_def by (simp only: map_replicate_const length_upt) simp
  have len: "length (config_enc si) = 12 + length ?C + length ?T"
    by (simp add: config_enc_def TP_NUM_CONTROL_CODES_def)
  show ?thesis
    unfolding parse_symbols_def
    using bps n r3 r4
    by (simp add: sbind_def r1 r2 u z z2 TP_NUM_CONTROL_CODES_def parsed_def len add.assoc)
qed

lemma parsed_codes:
  assumes c: "canonical al si"
  shows "s_bits_per_symbol (parsed al si) = s_bits_per_symbol si"
    and "k < 6 \<Longrightarrow> ctrl_code (parsed al si) k = ctrl_code si k"
    and "b \<in> al \<Longrightarrow> symbol_code (parsed al si) b = symbol_code si b"
    and "b \<notin> al \<Longrightarrow> symbol_code (parsed al si) b = 0"
proof -
  have b: "unat b < 256" for b :: u8 using unat_bound[of b] by simp
  show "s_bits_per_symbol (parsed al si) = s_bits_per_symbol si"
    by (simp add: parsed_def code_state_def ctrl_state_def)
  show "k < 6 \<Longrightarrow> ctrl_code (parsed al si) k = ctrl_code si k"
    using canonicalD(4)[OF c] by (simp add: parsed_def code_state_def ctrl_state_def ctrl_code_def)
  show "b \<in> al \<Longrightarrow> symbol_code (parsed al si) b = symbol_code si b"
    using canonicalD(6)[OF c] b by (simp add: parsed_def code_state_def symbol_code_def)
  show "b \<notin> al \<Longrightarrow> symbol_code (parsed al si) b = 0"
    using b by (simp add: parsed_def code_state_def symbol_code_def)
qed

lemma parsed_ok:
  assumes c: "canonical al si" shows "symbols_ok al (parsed al si)"
proof -
  note so = canonicalD(1)[OF c] and pc = parsed_codes[OF c]
  have ctl: "\<And>k. k < 6 \<Longrightarrow> ctrl_code (parsed al si) k = k" using pc(2) canonicalD(4)[OF c] by simp
  have ctrl: "is_ctrl (parsed al si) code \<longleftrightarrow> code < 6" for code
    by (auto simp: is_ctrl_def parsed_def code_state_def ctrl_state_def)
  have lt: "symbol_code si b < 256" if "b \<in> al" for b
    using canonicalD(3)[OF c] canonicalD(6)[OF c that] by linarith
  have rev: "s_reverse_map (parsed al si) ! symbol_code (parsed al si) b = b" if b: "b \<in> al" for b
    using pc(3)[OF b] lt[OF b] canonicalD(5,6)[OF c b] symbols_okD(7)[OF so b]
    by (simp add: parsed_def code_state_def)
  have codes: "\<forall>code < 256. s_code_is_ctrl (parsed al si) ! code \<longleftrightarrow> (\<exists>k < 6. ctrl_code (parsed al si) k = code)"
  proof (intro allI impI)
    fix code :: nat assume "code < 256"
    then have "s_code_is_ctrl (parsed al si) ! code \<longleftrightarrow> code < 6"
      by (simp add: parsed_def code_state_def ctrl_state_def)
    also have "\<dots> \<longleftrightarrow> (\<exists>k < 6. ctrl_code (parsed al si) k = code)" using ctl by auto
    finally show "s_code_is_ctrl (parsed al si) ! code \<longleftrightarrow> (\<exists>k < 6. ctrl_code (parsed al si) k = code)" .
  qed
  have tabs: "length (s_ctrl_codes (parsed al si)) = 6" "length (s_symbol_map (parsed al si)) = 256"
    "length (s_reverse_map (parsed al si)) = 256" "length (s_code_is_ctrl (parsed al si)) = 256"
    "distinct (s_ctrl_codes (parsed al si))"
    by (simp_all add: parsed_def code_state_def ctrl_state_def)
  show ?thesis
    unfolding symbols_ok_def
  proof (intro conjI tabs codes)
    show "1 \<le> s_bits_per_symbol (parsed al si)" "s_bits_per_symbol (parsed al si) \<le> 8"
      using symbols_okD(1,2)[OF so] pc(1) by simp_all
    show "\<forall>k < 6. ctrl_code (parsed al si) k < 2 ^ s_bits_per_symbol (parsed al si)"
      using symbols_okD(3)[OF so] pc(1,2) by simp
    show "\<forall>b \<in> al. symbol_code (parsed al si) b < 2 ^ s_bits_per_symbol (parsed al si) \<and>
        \<not> is_ctrl (parsed al si) (symbol_code (parsed al si) b) \<and>
        s_reverse_map (parsed al si) ! symbol_code (parsed al si) b = b"
      using rev ctrl pc(1,3) symbols_okD(4)[OF so] canonicalD(5)[OF c] by (simp add: not_less)
    show "\<forall>b. b \<notin> al \<longrightarrow> is_ctrl (parsed al si) (symbol_code (parsed al si) b)"
      using ctrl pc(4) by simp
  qed
qed

text \<open>Tables with the same codes write the same bits.\<close>

definition same_codes :: "u8 set \<Rightarrow> tp_symbol_info \<Rightarrow> tp_symbol_info \<Rightarrow> bool" where
  "same_codes al si si' \<longleftrightarrow> s_bits_per_symbol si' = s_bits_per_symbol si \<and>
     (\<forall>k < 6. ctrl_code si' k = ctrl_code si k) \<and> (\<forall>b \<in> al. symbol_code si' b = symbol_code si b)"

lemma same_codes_bits:
  assumes "same_codes al si si'"
  shows "b \<in> al \<Longrightarrow> chr_bits si' b = chr_bits si b" and "k < 6 \<Longrightarrow> ctl_bits si' k = ctl_bits si k"
    and "term_bits si' vi tm = term_bits si vi tm"
  using assms by (auto simp: same_codes_def chr_bits_def ctl_bits_def code_bits_def term_bits_def ctrl_defs
      split: option.splits)

lemma ser_cong: "same_codes al si si' \<Longrightarrow> chars t \<subseteq> al \<Longrightarrow> ser si' vi t = ser si vi t"
proof (induction t arbitrary: vi)
  case (Node l tm ks)
  have kids: "(\<And>c t vi. (c, t) \<in> set xs \<Longrightarrow> c \<in> al \<and> ser si' vi t = ser si vi t) \<Longrightarrow> ser_kids si' vi xs = ser_kids si vi xs" for xs vi
  proof (induction xs arbitrary: vi)
    case (Cons x xs)
    obtain c t where x: "x = (c, t)" by force
    have "c \<in> al" "ser si' vi t = ser si vi t" using Cons.prems[of c t] x by simp_all
    moreover have "ser_kids si' (vi + nterms t) xs = ser_kids si (vi + nterms t) xs"
      by (rule Cons.IH, rule Cons.prems) simp
    ultimately show ?case using x same_codes_bits(1,2)[OF Node.prems(1)] by (simp add: ctrl_defs)
  qed simp
  have "c \<in> al \<and> ser si' v t = ser si v t" if "(c, t) \<in> set ks" for c t v
    using Node.IH[OF that] Node.prems that by force
  then have "ser_kids si' v ks = ser_kids si v ks" for v by (rule kids)
  moreover have "map (chr_bits si') l = map (chr_bits si) l"
    using Node.prems(2) same_codes_bits(1)[OF Node.prems(1)] by (intro map_cong) auto
  ultimately show ?case
    using same_codes_bits(2,3)[OF Node.prems(1)] by (simp add: ctrl_defs cong: map_cong)
qed

lemma parsed_same: "canonical al si \<Longrightarrow> same_codes al si (parsed al si)"
  using parsed_codes by (simp add: same_codes_def)

section \<open>Opening a built file\<close>

lemma nbits_be32': "nbits 32 (x :: u32) = nbits 8 (ucast (drop_bit 24 x) :: u8) @ nbits 8 (ucast (drop_bit 16 x) :: u8) @
     nbits 8 (ucast (drop_bit 8 x) :: u8) @ nbits 8 (ucast x :: u8)"
  using nbits_split[of 24 8 x] nbits_split[of 16 8 "drop_bit 8 x"] nbits_split[of 8 8 "drop_bit 16 x"]
  by (simp add: nbits_ucast)

lemma be32_merge: "push_bit 24 (ucast (ucast (drop_bit 24 x) :: u8)) OR push_bit 16 (ucast (ucast (drop_bit 16 x) :: u8)) OR
    push_bit 8 (ucast (ucast (drop_bit 8 x) :: u8)) OR ucast (ucast x :: u8) = (x :: u32)"
  (is "?L = x")
proof (rule bit_word_eqI)
  fix n assume "n < LENGTH(32)"
  then consider "n < 8" | "8 \<le> n" "n < 16" | "16 \<le> n" "n < 24" | "24 \<le> n" "n < 32" by fastforce
  then show "bit ?L n = bit x n"
    by cases (auto simp: bit_simps)
qed

lemma load_bits:
  assumes "has_bits bs (8 * i) (nbits 8 b)" shows "load bs i = Ok b"
proof -
  have i: "i < length bs" using assms by (simp add: has_bits_def)
  have "nbits 8 (bs ! i) = nbits 8 b"
    using has_bits_map[OF assms] has_bits_map[OF has_bits_byte[OF i]] by simp
  then have "bs ! i = b" by (rule nbits_inj) (use unat_bound[where 'a = 8] in simp_all)
  then show ?thesis using i by (simp add: load_def)
qed

lemma load_be32_bits:
  assumes "has_bits bs (8 * i) (nbits 32 (x :: u32))" shows "load_be32 bs i = Ok x"
proof -
  have "has_bits bs (8 * i) (nbits 8 (ucast (drop_bit 24 x) :: u8))" "has_bits bs (8 * (i + 1)) (nbits 8 (ucast (drop_bit 16 x) :: u8))"
    "has_bits bs (8 * (i + 2)) (nbits 8 (ucast (drop_bit 8 x) :: u8))" "has_bits bs (8 * (i + 3)) (nbits 8 (ucast x :: u8))"
    using assms unfolding nbits_be32' by (simp_all add: has_bits_append algebra_simps)
  from this[THEN load_bits] show ?thesis by (simp add: load_be32_def be32_merge)
qed

definition opened :: "tp_encoder \<Rightarrow> bool \<Rightarrow> u8 list \<Rightarrow> nat \<Rightarrow> tp_dict \<Rightarrow> bool" where
  "opened enc hv buf len d \<longleftrightarrow> dict_ok d \<and> d_buf d = Some buf \<and> d_len d = len \<and>
     di_num_keys (d_info d) = en_count enc \<and> di_has_values (d_info d) = hv \<and>
     d_trie_start d = 256 + trie_off enc \<and> d_value_start d = 256 + value_off enc hv \<and>
     d_sym d = parsed (alphabet (en_entries enc)) (en_sym enc)"

lemma flags_built:
  "h_flags (file_header enc hv) AND TP_FLAG_HAS_SUFFIX_TABLE = 0"
  "h_flags (file_header enc hv) AND TP_FLAG_HAS_VALUES \<noteq> 0 \<longleftrightarrow> hv"
  by (simp_all add: file_header_def patched_header_def build_header_def TP_FLAG_HAS_SUFFIX_TABLE_def TP_FLAG_HAS_VALUES_def)

lemma open_built:
  assumes r: "ready enc" and f: "file_layout enc hv buf len" and h: "SIZEOF_DICT \<le> heap"
  shows "\<exists>d. dict_open_impl heap (Some buf) len check = Ok d \<and> opened enc hv buf len d"
proof -
  let ?h = "file_header enc hv" let ?S = "stream_bits enc hv"
  have len: "len = (256 + length ?S + 7) div 8 + 4" "len \<le> length buf" "length buf \<le> 1152921504606846976"
    and max: "length ?S \<le> UINT32_MAX"
    and hb: "has_bits buf 0 (header_enc ?h @ ?S @ pad_bits (length ?S))"
    and crc: "\<exists>crc :: u32. crc = foldl crc32_step 0xFFFFFFFF (take (len - 4) buf) XOR 0xFFFFFFFF \<and>
       has_bits buf (8 * (len - 4)) (nbits 32 crc)"
    using f by (auto simp: file_layout_def)
  obtain rd where rd: "tp_bs_reader_create heap (Some buf) (wrap64 (len * 8)) = Ok rd"
    using h by (simp add: tp_bs_reader_create_def SIZEOF_READER_def SIZEOF_DICT_def)
  have ro: "reader_ok rd" "rd = bytes_reader buf 0\<lparr>r_bit_len := 8 * len\<rparr>"
    using reader_create_ok[OF len(2) le_trans[OF len(2,3)] rd] by blast+
  have "256 + length ?S \<le> 8 * len" using len(1) by linarith
  then have st: "starts rd (header_enc ?h @ ?S)"
    using ro hb by (simp add: starts_def next_bits_def has_bits_append bytes_reader_def r_bytes_def)
  have hd: "tp_header_read rd = (Ok ?h, adv 256 rd)"
  proof (rule header_reads[OF _ ro(1)])
    show "header_valid ?h" by (simp add: header_valid_def file_header_def patched_header_def build_header_def)
    show "next_bits rd (header_enc ?h)" using st by (simp add: next_bits_append starts_def)
  qed
  have ck: "(if check \<and> len \<ge> 4 then check_crc32 buf len else Ok ()) = Ok ()"
    using crc load_be32_bits[of buf "len - 4"] len(2) by (auto simp: check_crc32_def tp_crc32_def)
  have can: "canonical (alphabet (en_entries enc)) (en_sym enc)" using r by (simp add: ready_def)
  have "starts (adv 256 rd) (config_enc (en_sym enc))" using st by (simp add: starts_append stream_bits_def)
  note ps = parse_symbols_built[OF can this]
  have cnt: "en_count enc < 4294967296" using r by (simp add: ready_def enc_ok_def)
  have off: "trie_off enc < 4294967296" "value_off enc hv < 4294967296"
    using max by (simp_all add: trie_off_def value_off_def stream_bits_def UINT32_MAX_def)
  have fields: "unat (h_num_keys ?h) = en_count enc" "unat (h_trie_data_offset ?h) = trie_off enc"
    "unat (h_value_store_offset ?h) = value_off enc hv"
    using cnt off by (simp_all add: file_header_def patched_header_def build_header_def unat_of_nat)
  have "\<exists>d. dict_open_impl heap (Some buf) len check = Ok d \<and>
     di_num_keys (d_info d) = en_count enc \<and> di_has_values (d_info d) = hv \<and>
     d_trie_start d = 256 + trie_off enc \<and> d_value_start d = 256 + value_off enc hv \<and>
     d_sym d = parsed (alphabet (en_entries enc)) (en_sym enc)"
    unfolding dict_open_impl_def
    using len(1) h flags_built[of enc hv] fields ps hd ck rd
    by (simp add: TP_HEADER_SIZE_def sbind_def parse_trie_config_def new_dict_def)
  then show ?thesis using open_ok[OF len(2)] len unfolding opened_def by (meson le_trans)
qed

section \<open>Lookups in an opened file\<close>

lemma chars_trie:
  assumes "keys_sorted es" and "es \<noteq> []"
  shows "chars (trie_of (rest hv 0 es)) \<subseteq> alphabet es"
proof -
  have "chars (trie_of (rest hv 0 es)) \<subseteq> key_bytes_of (flat (trie_of (rest hv 0 es)))"
    using keys_trie(5)[OF assms] by (rule chars_flat)
  also have "\<dots> = key_bytes_of (rest hv 0 es)" using keys_trie(4)[OF assms(1)] by simp
  also have "\<dots> \<subseteq> alphabet es" by (auto simp: key_bytes_of_def rest_def alphabet_def)
  finally show ?thesis .
qed

text \<open>The reader of a lookup at the trie and at the value store.\<close>

lemma opened_streams:
  assumes r: "ready enc" and f: "file_layout enc hv buf len" and o: "opened enc hv buf len d"
    and rd: "reader_ok rd" "r_bytes rd = buf" "r_bit_len rd = 8 * len"
  shows "r_pos rd = d_trie_start d \<Longrightarrow> starts rd (trie_bits (d_sym d) hv (en_entries enc))"
    and "r_pos rd = d_value_start d \<Longrightarrow> starts rd (values_bits hv (r_pos rd) (en_entries enc))"
    and "d_trie_start d \<le> 8 * len" and "d_value_start d \<le> 8 * len"
    and "d_trie_start d + length (trie_bits (d_sym d) hv (en_entries enc)) = d_value_start d"
proof -
  let ?es = "en_entries enc" and ?al = "alphabet (en_entries enc)" and ?si = "en_sym enc"
  have can: "canonical ?al ?si" and ks: "keys_sorted ?es" using r by (simp_all add: ready_def)
  have "ser (parsed ?al ?si) 0 (trie_of (rest hv 0 ?es)) = ser ?si 0 (trie_of (rest hv 0 ?es))" if "?es \<noteq> []"
    using ser_cong[OF parsed_same[OF can] chars_trie[OF ks that]] .
  then have tb: "trie_bits (d_sym d) hv ?es = trie_bits ?si hv ?es"
    using o by (simp add: trie_bits_def opened_def)
  have len: "256 + length (stream_bits enc hv) \<le> 8 * len"
    and hb: "has_bits buf 0 (header_enc (file_header enc hv) @ stream_bits enc hv)"
    using f by (auto simp: file_layout_def has_bits_append)
  have st: "has_bits buf (256 + trie_off enc) (trie_bits ?si hv ?es)"
    "has_bits buf (256 + value_off enc hv) (values_bits hv (256 + value_off enc hv) ?es)"
    using hb by (simp_all add: stream_bits_def has_bits_append trie_off_def value_off_def add.assoc)
  have le: "256 + trie_off enc + length (trie_bits ?si hv ?es) = 256 + value_off enc hv"
    "256 + value_off enc hv + length (values_bits hv (256 + value_off enc hv) ?es) \<le> 8 * len"
    using len by (simp_all add: trie_off_def value_off_def stream_bits_def add.assoc)
  have ds: "d_trie_start d = 256 + trie_off enc" "d_value_start d = 256 + value_off enc hv"
    using o by (simp_all add: opened_def)
  show "r_pos rd = d_trie_start d \<Longrightarrow> starts rd (trie_bits (d_sym d) hv (en_entries enc))"
    "r_pos rd = d_value_start d \<Longrightarrow> starts rd (values_bits hv (r_pos rd) (en_entries enc))"
    "d_trie_start d \<le> 8 * len" "d_value_start d \<le> 8 * len"
    "d_trie_start d + length (trie_bits (d_sym d) hv (en_entries enc)) = d_value_start d"
    using st le rd ds by (simp_all add: starts_def next_bits_def tb)
qed

text \<open>The value at index \<open>j\<close> of the store.\<close>

lemma fetch_built:
  assumes r: "ready enc" and f: "file_layout enc True buf len" and o: "opened enc True buf len d"
    and rd: "reader_ok rd" "r_bytes rd = buf" "r_bit_len rd = 8 * len" and j: "j < length (en_entries enc)"
  shows "\<exists>v. fst (fetch_value d True (At_index j) rd) = Ok (Some v) \<and> value_agree (e_val (en_entries enc ! j)) v"
proof -
  let ?vs = "map e_val (en_entries enc)" and ?r = "rd\<lparr>r_pos := d_value_start d\<rparr>"
  note os = opened_streams[OF r f o]
  have le: "d_value_start d \<le> 8 * len" using os(4)[OF rd] .
  have ok: "reader_ok ?r" "r_bytes ?r = buf" "r_bit_len ?r = 8 * len" using rd le by (simp_all add: reader_ok_def)
  have st: "starts ?r (enc_seq value_enc (r_pos ?r) ?vs)" using os(2)[OF ok] by (simp add: values_bits_def)
  have "\<forall>x \<in> set ?vs. storable x" using r by (auto simp: ready_def)
  from valc.rd_nth[OF this ok(1), of j buf] st j obtain ys r' b r'' where
    "read_seq j (tp_value_decode (Some buf)) ?r = (Ok ys, r')" "tp_value_decode (Some buf) r' = (Ok b, r'')"
    "value_agree (?vs ! j) b"
    by (auto simp: starts_def)
  then show ?thesis
    using o rd(3) le j by (simp add: fetch_value_def opened_def tp_bs_reader_seek_def sbind_def)
qed

text \<open>What the walk answers.\<close>

lemma walk_built:
  assumes r: "ready enc" and f: "file_layout enc hv buf len" and o: "opened enc hv buf len d"
    and rd: "reader_ok rd" "r_bytes rd = buf" "r_bit_len rd = 8 * len" "r_pos rd = d_trie_start d"
    and ne: "en_entries enc \<noteq> []" and n: "n \<le> length kb"
  shows "answers (look 0 (rest hv 0 (en_entries enc)) (take n kb))
    (stop_at (d_sym d) (rd\<lparr>r_pos := d_value_start d\<rparr>) \<or> \<not> extends (take n kb) (entry_key (last (en_entries enc))))
    (lookup_loop (lookup_fuel (d_len d * 8) n) (d_sym d) kb n 0 False rd)"
proof -
  let ?es = "en_entries enc" and ?si = "d_sym d" and ?t = "trie_of (rest hv 0 (en_entries enc))"
  have ks: "keys_sorted ?es" and can: "canonical (alphabet ?es) (en_sym enc)" using r by (simp_all add: ready_def)
  have si: "?si = parsed (alphabet ?es) (en_sym enc)" using o by (simp add: opened_def)
  have so: "symbols_ok (alphabet ?es) ?si" unfolding si by (rule parsed_ok[OF can])
  note kt = keys_trie[OF ks]
  note os = opened_streams[OF r f o]
  have st: "starts rd (ser ?si 0 ?t)" using os(1)[OF rd] ne by (simp add: trie_bits_def)
  have cnt: "length ?es < 4294967296" using r by (simp add: ready_def enc_ok_def)
  have td: "todo kb n 0 (take n kb)" using n by (simp add: todo_def)
  have fuel: "2 * length (take n kb) + 3 \<le> lookup_fuel (d_len d * 8) n"
    using n by (simp add: lookup_fuel_def algebra_simps)
  have last: "last_key (rest hv 0 ?es) = entry_key (last ?es)"
    using ne by (simp add: last_key_def rest_def last_map)
  have adv: "adv (length (ser ?si 0 ?t)) rd = rd\<lparr>r_pos := d_value_start d\<rparr>"
    using os(5)[OF rd(1-3)] ne rd(4) by (simp add: adv_def trie_bits_def)
  from walk_ok[OF so kt(5)[OF ne] chars_trie[OF ks ne] _ st td fuel] show ?thesis
    using kt(2) cnt by (simp add: last adv kt(4))
qed

lemma look_rest:
  assumes ks: "keys_sorted es" and j: "j < length es"
  shows "look 0 (rest hv 0 es) (entry_key (es ! j)) = Some (hit j (has_value hv (es ! j)))"
proof -
  have "distinct (map fst (rest hv 0 es))"
    using ks sorted_distinct[of "map entry_key es"] by (simp add: keys_sorted_def rest_def comp_def)
  then show ?thesis using look_nth[of "rest hv 0 es" j 0] j by (simp add: rest_def)
qed

lemma null_type: "tp_type v = tp_type TP_NULL \<Longrightarrow> storable v \<Longrightarrow> v = TP_NULL"
  by (cases v) simp_all

lemma lookup_unfold:
  assumes o: "opened enc hv buf len d" and ne: "en_entries enc \<noteq> []" and r: "ready enc"
    and f: "file_layout enc hv buf len" and h: "SIZEOF_READER \<le> heap"
  shows "\<exists>rd. reader_ok rd \<and> r_bytes rd = buf \<and> r_bit_len rd = 8 * len \<and> r_pos rd = d_trie_start d \<and>
    tp_dict_lookup_n heap d (Some kb) n want =
      fst (sbind (lookup_loop (lookup_fuel (d_len d * 8) n) (d_sym d) kb n 0 False) (fetch_value d want) rd)"
proof -
  have d: "dict_ok d" "d_buf d = Some buf" "d_len d = len" using o by (simp_all add: opened_def)
  obtain rd where c: "tp_bs_reader_create heap (d_buf d) (wrap64 (d_len d * 8)) = Ok rd"
    using h by (simp add: tp_bs_reader_create_def)
  have rd: "reader_ok rd" "r_bit_len rd = 8 * len" "r_bytes rd = buf"
    using dict_reader[OF d(1) c] d by (metis option.inject)+
  have le: "d_trie_start d \<le> 8 * len" using opened_streams(3)[OF r f o rd(1,3,2)] .
  have nk: "di_num_keys (d_info d) \<noteq> 0" using o ne r by (simp add: opened_def ready_def enc_ok_def)
  show ?thesis
    using rd le nk c
    by (intro exI[of _ "rd\<lparr>r_pos := d_trie_start d\<rparr>"])
      (simp add: tp_dict_lookup_n_def tp_bs_reader_seek_def sbind_def reader_ok_def)
qed

text \<open>A stored key is found with its value.\<close>

lemma lookup_found:
  assumes r: "ready enc" and f: "file_layout enc (any_value enc) buf len" and o: "opened enc (any_value enc) buf len d"
    and h: "SIZEOF_READER \<le> heap" and n: "n \<le> length kb" and e: "e \<in> set (en_entries enc)" "entry_key e = take n kb"
  shows "\<exists>v. tp_dict_lookup_n heap d (Some kb) n True = Ok (Some v) \<and> value_agree (e_val e) v"
proof -
  let ?hv = "any_value enc" and ?es = "en_entries enc"
  obtain j where j: "j < length ?es" "?es ! j = e" using e(1) by (auto simp: in_set_conv_nth)
  have ne: "?es \<noteq> []" using e(1) by auto
  have ks: "keys_sorted ?es" and sto: "storable (e_val e)" using r e(1) by (auto simp: ready_def)
  obtain rd where rd: "reader_ok rd" "r_bytes rd = buf" "r_bit_len rd = 8 * len" "r_pos rd = d_trie_start d"
    "tp_dict_lookup_n heap d (Some kb) n True =
      fst (sbind (lookup_loop (lookup_fuel (d_len d * 8) n) (d_sym d) kb n 0 False) (fetch_value d True) rd)"
    using lookup_unfold[OF o ne r f h] by blast
  let ?l = "lookup_loop (lookup_fuel (d_len d * 8) n) (d_sym d) kb n 0 False rd"
  have d: "dict_ok d" "d_len d = len" using o by (simp_all add: opened_def)
  have "look 0 (rest ?hv 0 ?es) (take n kb) = Some (hit j (has_value ?hv e))"
    using look_rest[OF ks j(1)] j(2) e(2) by simp
  then have l: "fst ?l = Ok (hit j (has_value ?hv e))"
    using walk_built[OF r f o rd(1-4) ne n] by (simp add: answers_def)
  have "safe_at (lookup_loop (lookup_fuel (d_len d * 8) n) (d_sym d) kb n 0 False) rd"
    using lookup_walk_safe[OF d(1) rd(1) _ n] rd(3) d(2) by simp
  then obtain r2 where r2: "?l = (Ok (hit j (has_value ?hv e)), r2)" "reader_ok r2" "same_stream rd r2"
    using l by (cases ?l) (auto simp: safe_at_def)
  have eq: "tp_dict_lookup_n heap d (Some kb) n True = fst (fetch_value d True (hit j (has_value ?hv e)) r2)"
    using rd(5) r2(1) by (simp add: sbind_def)
  show ?thesis
  proof (cases "has_value ?hv e")
    case True
    then have hv: "?hv" by (simp add: has_value_def)
    have "r_bytes r2 = buf" "r_bit_len r2 = 8 * len" using r2(3) rd(2,3) by (simp_all add: same_stream_def r_bytes_def)
    then show ?thesis
      using fetch_built[OF r _ _ r2(2) _ _ j(1)] f o hv eq True j(2) by (simp add: hit_def)
  next
    case False
    have "e_val e = TP_NULL"
    proof (rule ccontr)
      assume "e_val e \<noteq> TP_NULL"
      then have "has_value True e" using null_type[OF _ sto] by (auto simp: has_value_def)
      then have "?hv" using e(1) by (auto simp: any_value_def list_ex_iff)
      then show False using False \<open>has_value True e\<close> by simp
    qed
    then show ?thesis using eq False by (simp add: hit_def fetch_value_def tp_value_null_def)
  qed
qed

text \<open>Any other key is not found, unless it extends the last key: then the walk reads behind the trie.\<close>

lemma lookup_not_found:
  assumes r: "ready enc" and f: "file_layout enc hv buf len" and o: "opened enc hv buf len d"
    and h: "SIZEOF_READER \<le> heap" and n: "n \<le> length kb" and k: "take n kb \<notin> entry_key ` set (en_entries enc)"
    and ext: "en_entries enc \<noteq> [] \<Longrightarrow> \<not> extends (take n kb) (entry_key (last (en_entries enc)))"
  shows "tp_dict_lookup_n heap d (Some kb) n want = Err TP_ERR_NOT_FOUND"
proof (cases "en_entries enc = []")
  case True
  then show ?thesis using o r by (simp add: tp_dict_lookup_n_def opened_def ready_def enc_ok_def)
next
  case ne: False
  obtain rd where rd: "reader_ok rd" "r_bytes rd = buf" "r_bit_len rd = 8 * len" "r_pos rd = d_trie_start d"
    "tp_dict_lookup_n heap d (Some kb) n want =
      fst (sbind (lookup_loop (lookup_fuel (d_len d * 8) n) (d_sym d) kb n 0 False) (fetch_value d want) rd)"
    using lookup_unfold[OF o ne r f h] by blast
  have "look 0 (rest hv 0 (en_entries enc)) (take n kb) = None"
    using k by (intro look_None) (auto simp: rest_def)
  then have "fst (lookup_loop (lookup_fuel (d_len d * 8) n) (d_sym d) kb n 0 False rd) = Err TP_ERR_NOT_FOUND"
    using walk_built[OF r f o rd(1-4) ne n] ext[OF ne] by (simp add: answers_def)
  then show ?thesis using rd(5) by (simp add: sbind_fst_Err)
qed

end
