(* ===== verification/Last_Wins.thy ===== *)
theory Last_Wins
  imports Encoder
begin

text \<open>
  The comment on \<open>dedup_entries\<close> promises that of several entries with one key the last added is
  kept. The loop keeps the last of a sorted run (\<open>dedup_last\<close>), so with an unstable \<open>qsort\<close>, which the C
  standard allows, any of them may be kept. \<open>prepare_last\<close> shows that with a stable sort the promise
  holds; no other theory assumes that.
\<close>

definition equivalent_by :: "('a \<Rightarrow> 'a \<Rightarrow> int) \<Rightarrow> 'a \<Rightarrow> 'a \<Rightarrow> bool" where
  "equivalent_by cmp x y \<longleftrightarrow> cmp x y \<le> 0 \<and> cmp y x \<le> 0"

definition stable_qsort :: "'a qsort \<Rightarrow> bool" where
  "stable_qsort qs \<longleftrightarrow> qsort_ok qs \<and>
     (\<forall>cmp es. consistent_on cmp (set es) \<longrightarrow>
        (\<forall>x \<in> set es. filter (equivalent_by cmp x) (qs cmp es) = filter (equivalent_by cmp x) es))"

section \<open>Insertion is stable\<close>

lemma filter_insert_by:
  assumes "consistent_on cmp (insert e (insert x (set ys)))"
  shows "filter (equivalent_by cmp x) (insert_by cmp e ys) = filter (equivalent_by cmp x) (e # ys)"
  using assms
proof (induction ys)
  case (Cons y ys)
  have c: "consistent_on cmp (insert e (insert x (set ys)))"
    using Cons.prems by (rule consistent_subset) auto
  let ?P = "equivalent_by cmp x"
  have ih: "filter ?P (insert_by cmp e ys) = (if ?P e then [e] else []) @ filter ?P ys"
    using Cons.IH[OF c] by simp
  have no: "cmp e y \<le> 0" if "?P e" "?P y"
  proof -
    have "cmp e x \<le> 0" "cmp x y \<le> 0" using that by (simp_all add: equivalent_by_def)
    then show ?thesis using Cons.prems unfolding consistent_on_def
      by (meson insertI1 insertI2 list.set_intros)
  qed
  show ?case
  proof (cases "cmp e y \<le> 0")
    case False
    then have "\<not> (?P e \<and> ?P y)" using no by blast
    then show ?thesis using False by (auto simp: ih)
  qed simp
qed simp

lemma insertion_sort_stable: "stable_qsort (insertion_sort :: 'a qsort)"
proof -
  have "filter (equivalent_by cmp x) (insertion_sort cmp es) = filter (equivalent_by cmp x) es"
    if "consistent_on cmp (insert x (set es))" for cmp :: "'a \<Rightarrow> 'a \<Rightarrow> int" and es x
    using that
  proof (induction es)
    case (Cons e es)
    have c: "consistent_on cmp (insert x (set es))" using Cons.prems by (rule consistent_subset) auto
    have s: "set (insertion_sort cmp es) = set es"
      using insertion_sort_ok consistent_subset[OF c, of "set es"] unfolding qsort_ok_def
      by (metis set_mset_mset subset_insertI)
    have "consistent_on cmp (insert e (insert x (set (insertion_sort cmp es))))"
      using Cons.prems by (rule consistent_subset) (auto simp: s)
    then show ?case using Cons.IH[OF c] filter_insert_by[of cmp e x "insertion_sort cmp es"]
      by (simp add: insertion_sort_def)
  qed (simp add: insertion_sort_def)
  then show ?thesis using insertion_sort_ok by (simp add: stable_qsort_def insert_absorb)
qed

section \<open>Deduplication keeps the last of a run\<close>

lemma dedup_last:
  assumes "\<forall>e \<in> set es. entry_ok e" and "sorted (map entry_key es)" and "e \<in> set (dedup es)"
  shows "e = last (filter (\<lambda>x. entry_key x = entry_key e) es)"
  using assms
proof (induction es rule: dedup.induct)
  case (1 a b es)
  have k: "same_key a b \<longleftrightarrow> entry_key a = entry_key b" using "1.prems"(1) by (simp add: same_key_iff)
  let ?f = "filter (\<lambda>x. entry_key x = entry_key e)"
  have sub: "e \<in> set (dedup (b # es)) \<Longrightarrow> ?f (b # es) \<noteq> []"
    using dedup_props(1)[of "b # es"] "1.prems"(1,2) by (auto simp: filter_empty_conv)
  show ?case
  proof (cases "same_key a b")
    case True
    then have e: "e \<in> set (dedup (b # es))" using "1.prems"(3) by simp
    then have "e = last (?f (b # es))" using "1.IH"(1)[OF True] "1.prems"(1,2) by simp
    then show ?thesis using sub[OF e] by simp
  next
    case False
    have lt: "entry_key a < entry_key x" if "x \<in> set (b # es)" for x
      using "1.prems"(2) k False that by fastforce
    show ?thesis
    proof (cases "e = a")
      case True
      then have "?f (b # es) = []" using lt by (fastforce simp: filter_empty_conv)
      then show ?thesis using True by simp
    next
      case ne: False
      then have e: "e \<in> set (dedup (b # es))" using "1.prems"(3) False by simp
      then have "e = last (?f (b # es))" using "1.IH"(2)[OF False] "1.prems"(1,2) by simp
      then show ?thesis using sub[OF e] by simp
    qed
  qed
qed simp_all

lemma prepare_eq:
  assumes q: "qsort_ok qs" and ok: "enc_ok enc"
  shows "en_entries (dedup_entries (sort_entries qs enc)) = dedup (qs entry_cmp (en_entries enc))"
proof -
  let ?es = "en_entries enc" and ?s = "qs entry_cmp (en_entries enc)"
  have len: "en_count enc = length ?es" using ok by (simp add: enc_ok_def)
  have m: "mset ?s = mset ?es" using qsort_entries(1)[OF q] ok by (simp add: enc_ok_def)
  then have ls: "length ?s = length ?es" by (metis size_mset)
  show ?thesis
  proof (cases "en_count enc > 1")
    case True
    obtain es' wr where dl: "dedup_loop (length ?es) 0 0 (length ?es) ?s = (es', wr)" by force
    then show ?thesis
      using dedup_loop_dedup[of 0 0 "length ?es" "length ?es" ?s es' wr] ls True len
      by (simp add: sort_entries_def dedup_entries_def)
  next
    case False
    then have "?es = [] \<or> (\<exists>e. ?es = [e])" using len by (cases ?es) auto
    then have "?s = ?es" using m by (auto simp: add_mset_eq_singleton_iff mset_single_iff)
    then show ?thesis using False len \<open>?es = [] \<or> (\<exists>e. ?es = [e])\<close>
      by (auto simp: sort_entries_def dedup_entries_def)
  qed
qed

text \<open>With a stable sort every entry that is kept is the last added with its key.\<close>

lemma prepare_last:
  assumes q: "stable_qsort qs" and ok: "enc_ok enc"
    and e: "e \<in> set (en_entries (dedup_entries (sort_entries qs enc)))"
  shows "e = last (filter (\<lambda>x. entry_key x = entry_key e) (en_entries enc))"
proof -
  let ?es = "en_entries enc" and ?s = "qs entry_cmp (en_entries enc)"
  have qo: "qsort_ok qs" using q by (simp add: stable_qsort_def)
  have all: "\<forall>x \<in> set ?es. entry_ok x" using ok by (simp add: enc_ok_def)
  note s = qsort_entries[OF qo all]
  have ss: "set ?s = set ?es" using s(1) by (metis set_mset_mset)
  have e1: "e \<in> set (dedup ?s)" using e prepare_eq[OF qo ok] by simp
  then have "e \<in> set ?es" using dedup_props(1)[OF _ s(2)] all ss by auto
  have f: "filter (\<lambda>x. entry_key x = entry_key e) xs = filter (equivalent_by entry_cmp e) xs" if "set xs \<subseteq> set ?es" for xs
    using that all \<open>e \<in> set ?es\<close> by (intro filter_cong refl) (auto simp: equivalent_by_def entry_cmp_le)
  have "e = last (filter (\<lambda>x. entry_key x = entry_key e) ?s)"
    by (rule dedup_last[OF _ s(2) e1]) (use all ss in simp)
  also have "filter (\<lambda>x. entry_key x = entry_key e) ?s = filter (equivalent_by entry_cmp e) ?s" by (rule f) (simp add: ss)
  also have "\<dots> = filter (equivalent_by entry_cmp e) ?es"
    using q entry_cmp_consistent[OF all] \<open>e \<in> set ?es\<close> by (simp add: stable_qsort_def)
  also have "\<dots> = filter (\<lambda>x. entry_key x = entry_key e) ?es" by (rule f[symmetric]) simp
  finally show ?thesis .
qed

end
