(* ===== verification/Client.thy ===== *)
theory Client
  imports Reopen Last_Wins
begin

text \<open>
  The library as its client sees it: an encoder is a finite map from byte strings to values, adding
  overrides, and a dictionary opened from a built file answers lookups in the map of the entries the
  build kept. \<open>contents\<close> is the abstraction function, \<open>kept\<close> the map of a build, which differs from it at most
  where a key was added more than once; \<open>build_succeeds\<close> bounds file and memory in terms of what was added.
\<close>

section \<open>The encoder as a finite map\<close>

definition contents :: "tp_encoder \<Rightarrow> u8 list \<rightharpoonup> tp_value" where
  "contents enc = map_of (rev (stored enc))"

lemma contents_create: "tp_encoder_create_ex heap opts = Ok enc \<Longrightarrow> contents enc = Map.empty"
  using create_ok by (simp add: contents_def)

lemma contents_add:
  assumes "enc_ok enc" and "en_count enc < 4294967295"
    and "tp_encoder_add_n heap (Some kb) n val enc = (Ok (), enc')"
  shows "\<exists>v. value_deep_copy heap (case val of None \<Rightarrow> tp_value_null | Some v \<Rightarrow> v) = Ok v \<and>
    contents enc' = (contents enc)(take n kb \<mapsto> v)"
  using add_n_ok[OF assms] by (auto simp: contents_def)

lemma map_of_rev_last: "map_of (rev xs) k = (if \<exists>v. (k, v) \<in> set xs then Some (snd (last (filter (\<lambda>x. fst x = k) xs))) else None)"
proof (induction xs rule: rev_induct)
  case (snoc x xs)
  then show ?case by (cases x) auto
qed simp

lemma stored_entries: "enc_ok enc \<Longrightarrow> stored enc = map (\<lambda>e. (entry_key e, e_val e)) (en_entries enc)"
  by (simp add: stored_def enc_ok_def)

lemma dom_contents: "enc_ok enc \<Longrightarrow> dom (contents enc) = entry_key ` set (en_entries enc)"
  by (simp add: contents_def stored_entries dom_map_of_conv_image_fst image_image)

lemma contents_last:
  assumes ok: "enc_ok enc" and e: "e \<in> set (en_entries enc)" "e = last (filter (\<lambda>x. entry_key x = entry_key e) (en_entries enc))"
  shows "contents enc (entry_key e) = Some (e_val e)"
proof -
  let ?f = "\<lambda>e. (entry_key e, e_val e)" and ?xs = "filter (\<lambda>x. entry_key x = entry_key e) (en_entries enc)"
  have "?xs \<noteq> []" using e(1) by (auto simp: filter_empty_conv)
  then have "snd (last (map ?f ?xs)) = e_val (last ?xs)" by (simp add: last_map)
  moreover have "filter (\<lambda>x. fst x = entry_key e) (map ?f (en_entries enc)) = map ?f ?xs"
    by (simp add: filter_map comp_def)
  ultimately have "snd (last (filter (\<lambda>x. fst x = entry_key e) (stored enc))) = e_val e"
    using e(2) by (simp add: stored_entries[OF ok])
  then show ?thesis using e(1) by (auto simp: contents_def map_of_rev_last stored_entries[OF ok])
qed

section \<open>What a build keeps\<close>

text \<open>A map that takes for every key one of the values listed with it.\<close>

definition picks :: "('k \<times> 'v) list \<Rightarrow> ('k \<rightharpoonup> 'v) \<Rightarrow> bool" where
  "picks xs m \<longleftrightarrow> dom m = fst ` set xs \<and> (\<forall>k v. m k = Some v \<longrightarrow> (k, v) \<in> set xs)"

lemma picks_distinct:
  assumes p: "picks xs m" and d: "distinct (map fst xs)" shows "m = map_of (rev xs)"
proof
  fix k
  have d': "distinct (map fst (rev xs))" using d by (simp add: rev_map[symmetric])
  show "m k = map_of (rev xs) k"
  proof (cases "m k")
    case None
    then have "k \<notin> fst ` set xs" using p by (auto simp: picks_def)
    then have "map_of (rev xs) k = None" by (simp add: map_of_eq_None_iff)
    then show ?thesis using None by simp
  next
    case (Some v)
    then have "(k, v) \<in> set (rev xs)" using p by (simp add: picks_def)
    then have "map_of (rev xs) k = Some v" using map_of_eq_Some_iff[OF d'] by blast
    then show ?thesis using Some by simp
  qed
qed

definition kept :: "tp_entry qsort \<Rightarrow> tp_encoder \<Rightarrow> u8 list \<rightharpoonup> tp_value" where
  "kept qs enc = contents (dedup_entries (sort_entries qs enc))"

lemma filter_same_key: "distinct (map f xs) \<Longrightarrow> x \<in> set xs \<Longrightarrow> filter (\<lambda>y. f y = f x) xs = [x]"
proof (induction xs)
  case (Cons y ys)
  have nin: "f y \<notin> f ` set ys" using Cons.prems(1) by simp
  have no: "f z \<noteq> f y" if "z \<in> set ys" for z
  proof
    assume "f z = f y"
    then show False using nin imageI[OF that, of f] by simp
  qed
  then have "filter (\<lambda>z. f z = f y) ys = []" by (simp add: filter_empty_conv)
  moreover have "f y \<noteq> f x" if "x \<in> set ys" using no[OF that] by simp
  ultimately show ?case using Cons by (cases "x = y") auto
qed simp

lemma kept_entry:
  assumes q: "qsort_ok qs" and ok: "enc_ok enc" and x: "x \<in> set (en_entries (dedup_entries (sort_entries qs enc)))"
  shows "kept qs enc (entry_key x) = Some (e_val x)"
proof -
  note p = prepare_ok[OF q ok refl]
  have "distinct (map entry_key (en_entries (dedup_entries (sort_entries qs enc))))"
    using p(2) strict_sorted_iff by (auto simp: keys_sorted_def)
  from filter_same_key[OF this x] show ?thesis
    unfolding kept_def by (intro contents_last[OF p(1) x]) simp
qed

lemma dom_kept: "qsort_ok qs \<Longrightarrow> enc_ok enc \<Longrightarrow> dom (kept qs enc) = dom (contents enc)"
  using prepare_ok(1,4)[OF _ _ refl] by (simp add: kept_def dom_contents)

lemma kept_picks:
  assumes q: "qsort_ok qs" and ok: "enc_ok enc" shows "picks (stored enc) (kept qs enc)"
proof -
  let ?es = "en_entries (dedup_entries (sort_entries qs enc))"
  note p = prepare_ok[OF q ok refl]
  have "(k, v) \<in> set (stored enc)" if kv: "kept qs enc k = Some v" for k v
  proof -
    have "k \<in> entry_key ` set ?es" using kv dom_contents[OF p(1)] by (auto simp: kept_def)
    then obtain x where x: "x \<in> set ?es" "k = entry_key x" by auto
    then have "v = e_val x" using kv kept_entry[OF q ok x(1)] by simp
    then show ?thesis using x p(3) by (auto simp: stored_entries[OF ok])
  qed
  moreover have "dom (kept qs enc) = fst ` set (stored enc)"
    by (simp add: dom_kept[OF q ok] contents_def dom_map_of_conv_image_fst)
  ultimately show ?thesis by (simp add: picks_def)
qed

text \<open>Keys added once keep their value, and so do all keys when the sort is stable.\<close>

lemma kept_contents:
  assumes "qsort_ok qs" and "enc_ok enc" and "distinct (map fst (stored enc))" shows "kept qs enc = contents enc"
  unfolding contents_def by (rule picks_distinct[OF kept_picks[OF assms(1,2)] assms(3)])

lemma kept_stable:
  assumes q: "stable_qsort qs" and ok: "enc_ok enc" shows "kept qs enc = contents enc"
proof
  fix k
  let ?es = "en_entries (dedup_entries (sort_entries qs enc))"
  have qo: "qsort_ok qs" using q by (simp add: stable_qsort_def)
  note p = prepare_ok[OF qo ok refl]
  show "kept qs enc k = contents enc k"
  proof (cases "k \<in> entry_key ` set ?es")
    case True
    then obtain x where x: "x \<in> set ?es" "k = entry_key x" by auto
    have "x \<in> set (en_entries enc)" using x(1) p(3) by blast
    then have "contents enc (entry_key x) = Some (e_val x)" using prepare_last[OF q ok x(1)] by (intro contents_last[OF ok])
    then show ?thesis using kept_entry[OF qo ok x(1)] x(2) by simp
  next
    case False
    then have "k \<notin> dom (contents enc)" using p(4) dom_contents[OF ok] by simp
    then show ?thesis using dom_kept[OF qo ok] by (metis domIff)
  qed
qed

section \<open>Bounds on the file\<close>

definition entry_cost :: "tp_entry \<Rightarrow> nat" where
  "entry_cost e = 184 * Suc (e_key_len e) + 100 + 8 * value_len (e_val e)"

definition volume :: "tp_encoder \<Rightarrow> nat" where
  "volume enc = sum_list (map entry_cost (en_entries enc))"

lemma length_varint_enc_le: "length (varint_enc v) \<le> 80"
  using length_varint_bytes_10[of v] by (simp add: length_varint_enc)

lemma length_value_enc: "storable v \<Longrightarrow> length (value_enc p v) \<le> 100 + 8 * value_len v"
proof -
  assume s: "storable v"
  have sized: "length (sized_enc q bs) \<le> 87 + 8 * length bs" for q bs
  proof -
    let ?v = "varint_enc (word_of_nat (length bs))"
    have "length (pad_bits m) \<le> 7" for m by (simp add: pad_bits_def)
    from this[of "q + length ?v"] length_varint_enc_le[of "word_of_nat (length bs)"]
    have "length ?v + length (pad_bits (q + length ?v)) \<le> 87" by linarith
    moreover have "length (concat (map (nbits 8) bs)) = 8 * length (bs :: u8 list)" by (induction bs) simp_all
    ultimately show ?thesis by (simp add: sized_enc_def Let_def)
  qed
  have "length (sized_enc q (content p' n)) \<le> 96 + 8 * n" if "view p' n = Some y" for p' n q y
    using sized[of q "content p' n"] view_length[OF that] that by (simp add: content_def)
  moreover have "length (varint_enc u) \<le> 96" for u by (rule le_trans[OF length_varint_enc_le]) simp
  ultimately show ?thesis using s by (cases v) (auto simp: value_enc_def value_len_def)
qed

lemma length_values:
  "\<forall>v \<in> set vs. storable v \<Longrightarrow> length (enc_seq value_enc p vs) \<le> sum_list (map (\<lambda>v. 100 + 8 * value_len v) vs)"
proof (induction vs arbitrary: p)
  case (Cons v vs)
  have "storable v" "\<forall>v \<in> set vs. storable v" using Cons.prems by simp_all
  then show ?case using add_le_mono[OF length_value_enc[of v p] Cons.IH[of "p + length (value_enc p v)"]] by simp
qed simp

lemma length_values_bits:
  "\<forall>e \<in> set es. storable (e_val e) \<Longrightarrow>
   length (values_bits hv p es) \<le> sum_list (map (\<lambda>e. 100 + 8 * value_len (e_val e)) es)"
  using length_values[of "map e_val es" p] by (simp add: values_bits_def comp_def)

lemma length_config_enc: "canonical al si \<Longrightarrow> length (config_enc si) \<le> 19980"
proof -
  assume c: "canonical al si"
  have bps: "s_bits_per_symbol si \<le> 8" "s_symbol_count si \<le> 255"
    using symbols_okD(2)[OF canonicalD(1)[OF c]] canonicalD(3)[OF c] by simp_all
  have "length (concat (map f xs)) \<le> 80 * length xs" if "\<And>x. length (f x) \<le> 80" for f :: "nat \<Rightarrow> bool list" and xs
    by (induction xs) (use that in \<open>auto intro: add_le_mono\<close>)
  from this[of "\<lambda>code. num_bits (unat (s_reverse_map si ! code))"] length_num_bits
  have "length (concat (map (\<lambda>code. num_bits (unat (s_reverse_map si ! code))) [6..<s_symbol_count si])) \<le> 80 * 249"
    using bps(2) by (fastforce intro: le_trans)
  moreover have "length (concat (map (ctl_bits si) xs)) \<le> 8 * length xs" for xs
    by (induction xs) (use bps in \<open>auto intro: add_le_mono\<close>)
  from this[of "[0..<6]"] have "length (concat (map (ctl_bits si) [0..<6])) \<le> 48" by simp
  ultimately show ?thesis by (simp add: config_enc_def TP_NUM_CONTROL_CODES_def)
qed

lemma length_stream_bits:
  assumes r: "ready enc2" and sub: "set (en_entries enc2) \<subseteq> set (en_entries enc)"
  shows "length (stream_bits enc2 hv) \<le> 19980 + volume enc"
proof -
  let ?es = "en_entries enc2"
  have ks: "keys_sorted ?es" and can: "canonical (alphabet ?es) (en_sym enc2)"
    and sto: "\<forall>e \<in> set ?es. storable (e_val e)" using r by (simp_all add: ready_def)
  have "length (trie_bits (en_sym enc2) hv ?es) \<le> 184 * key_volume ?es"
    using keys_trie(3)[OF ks symbols_okD(2)[OF canonicalD(1)[OF can]]] by (simp add: trie_bits_def)
  moreover have cost: "184 * key_volume es + sum_list (map (\<lambda>e. 100 + 8 * value_len (e_val e)) es) = sum_list (map entry_cost es)" for es
    by (induction es) (simp_all add: key_volume_def entry_cost_def)
  note cost[of ?es]
  moreover have "sum_list (map entry_cost ?es) \<le> volume enc"
  proof -
    have "distinct (map entry_key ?es)" using ks strict_sorted_iff by (auto simp: keys_sorted_def)
    then show ?thesis using sum_list_distinct_le[OF _ sub] by (simp add: volume_def distinct_map)
  qed
  ultimately show ?thesis
    using length_config_enc[OF can] length_values_bits[OF sto, of hv "256 + length (config_enc (en_sym enc2)) + length (trie_bits (en_sym enc2) hv ?es)"]
    unfolding stream_bits_def length_append by linarith
qed

lemma build_succeeds:
  assumes q: "qsort_ok qs" and b: "buildable enc" and al: "card (alphabet (en_entries enc)) \<le> 249"
    and fits: "19980 + volume enc \<le> UINT32_MAX"
    and heap: "256 \<le> heap" "20283 + volume enc \<le> 4 * heap" "heap \<le> 1152921504606846976"
  shows "\<exists>buf len. fst (tp_encoder_build qs heap enc) = Ok (buf, len)"
proof -
  obtain enc2 where e2: "ready enc2" "en_entries enc2 = en_entries (dedup_entries (sort_entries qs enc))"
    and res: "fst (tp_encoder_build qs heap enc) = Err TP_ERR_ALLOC \<and> \<not> build_room heap enc2 (any_value enc2) \<or>
       fst (tp_encoder_build qs heap enc) = Err TP_ERR_OVERFLOW \<and> UINT32_MAX < length (stream_bits enc2 (any_value enc2)) \<or>
       (\<exists>buf len. fst (tp_encoder_build qs heap enc) = Ok (buf, len) \<and> file_layout enc2 (any_value enc2) buf len)"
    using build_ok[OF q b heap(3)] al by auto
  have "set (en_entries enc2) \<subseteq> set (en_entries enc)"
    using prepare_ok(3)[OF q _ refl] b e2(2) by (simp add: buildable_def)
  then have len: "length (stream_bits enc2 (any_value enc2)) \<le> 19980 + volume enc" by (rule length_stream_bits[OF e2(1)])
  moreover have "written_bits enc2 (any_value enc2) = stream_bits enc2 (any_value enc2)"
    using ready_writable[OF e2(1)] by (intro written_plain) blast
  ultimately have "build_room heap enc2 (any_value enc2)" using heap len unfolding build_room_def by simp
  then show ?thesis using res len fits by auto
qed

section \<open>Build, open, look up\<close>

lemma build_open:
  assumes q: "qsort_ok qs" and b: "buildable enc"
    and heap: "SIZEOF_DICT \<le> heap" "heap \<le> 1152921504606846976"
    and built: "tp_encoder_build qs heap enc = (Ok (buf, len), enc2)"
  shows "\<exists>d. dict_open_impl heap (Some buf) len check = Ok d \<and> opened enc2 (any_value enc2) buf len d \<and>
    ready enc2 \<and> file_layout enc2 (any_value enc2) buf len \<and>
    en_entries enc2 = en_entries (dedup_entries (sort_entries qs enc))"
proof -
  have r: "ready enc2" and e: "en_entries enc2 = en_entries (dedup_entries (sort_entries qs enc))"
    and f: "file_layout enc2 (any_value enc2) buf len"
    using build_ok[OF q b heap(2)] built by (auto split: if_splits)
  show ?thesis using open_built[OF r f, of heap check] heap r f e by auto
qed

text \<open>The same of a copy of the file that ends with its last byte.\<close>

lemma has_bits_take: "has_bits bs p xs \<Longrightarrow> p + length xs \<le> 8 * n \<Longrightarrow> n \<le> length bs \<Longrightarrow> has_bits (take n bs) p xs"
proof -
  assume h: "has_bits bs p xs" and n: "p + length xs \<le> 8 * n" "n \<le> length bs"
  have "bit_at (take n bs) (p + j) = bit_at bs (p + j)" if "j < length xs" for j
  proof -
    have "(p + j) div 8 < n" using that n(1) by simp
    then show ?thesis by (simp add: bit_at_def)
  qed
  then show ?thesis using h n by (simp add: has_bits_def min_absorb2)
qed

lemma file_layout_take: "file_layout enc hv buf len \<Longrightarrow> file_layout enc hv (take len buf) len"
proof -
  assume f: "file_layout enc hv buf len"
  then have len: "len = (256 + length (stream_bits enc hv) + 7) div 8 + 4" "len \<le> length buf" by (simp_all add: file_layout_def)
  let ?n = "length (stream_bits enc hv)"
  have "256 + (?n + length (pad_bits ?n)) \<le> 8 * len"
  proof -
    have "length (pad_bits ?n) \<le> 7" by (simp add: pad_bits_def)
    moreover have "8 * ((256 + ?n + 7) div 8) \<ge> 256 + ?n" by simp
    ultimately show ?thesis using len(1) by simp
  qed
  moreover have "take (len - 4) (take len buf) = take (len - 4) buf" by (simp add: min_absorb1)
  moreover have "4 \<le> len" using len(1) by simp
  ultimately show ?thesis using f len(2) unfolding file_layout_def
    by (auto intro!: has_bits_take exI[of _ "foldl crc32_step 0xFFFFFFFF (take (len - 4) buf) XOR 0xFFFFFFFF"])
qed

lemma opened_info:
  assumes q: "qsort_ok qs" and ok: "enc_ok enc" and r: "ready enc2"
    and e: "en_entries enc2 = en_entries (dedup_entries (sort_entries qs enc))"
    and d: "opened enc2 (any_value enc2) buf len d"
  shows "tp_dict_count d = card (dom (contents enc)) \<and>
    di_has_values (tp_dict_get_info d) = list_ex (\<lambda>e. e_val e \<noteq> TP_NULL) (en_entries enc2) \<and> d_len d = len"
proof -
  have ks: "keys_sorted (en_entries enc2)" and cnt: "en_count enc2 = length (en_entries enc2)"
    and sto: "\<forall>e \<in> set (en_entries enc2). storable (e_val e)" using r by (simp_all add: ready_def enc_ok_def)
  have "distinct (map entry_key (en_entries enc2))" using ks strict_sorted_iff by (auto simp: keys_sorted_def)
  then have "en_count enc2 = card (entry_key ` set (en_entries enc2))"
    using cnt distinct_card[of "map entry_key (en_entries enc2)"] by simp
  also have "entry_key ` set (en_entries enc2) = dom (contents enc)"
    using prepare_ok(4)[OF q ok refl] unfolding e dom_contents[OF ok] by simp
  finally have "en_count enc2 = card (dom (contents enc))" .
  moreover have "has_value True e \<longleftrightarrow> e_val e \<noteq> TP_NULL" if "e \<in> set (en_entries enc2)" for e
    using sto that null_type[of "e_val e"] by (auto simp: has_value_def)
  then have "any_value enc2 = list_ex (\<lambda>e. e_val e \<noteq> TP_NULL) (en_entries enc2)"
    by (auto simp: any_value_def list_ex_iff)
  ultimately show ?thesis using d by (simp add: opened_def tp_dict_count_def tp_dict_get_info_def)
qed

lemma built_file_info:
  assumes q: "qsort_ok qs" and b: "buildable enc"
    and heap: "SIZEOF_DICT \<le> heap" "heap \<le> 1152921504606846976"
    and built: "tp_encoder_build qs heap enc = (Ok (buf, len), enc2)"
  shows "\<exists>d. dict_open_impl heap (Some buf) len check = Ok d \<and> tp_dict_count d = card (dom (contents enc)) \<and>
    di_has_values (tp_dict_get_info d) = list_ex (\<lambda>e. e_val e \<noteq> TP_NULL) (en_entries enc2) \<and> d_len d = len"
  using build_open[OF q b heap built, of check] opened_info[OF q] b by (auto simp: buildable_def)

text \<open>The greatest key, the only one whose extensions a lookup may take for stored keys.\<close>

definition greatest_key :: "tp_encoder \<Rightarrow> u8 list" where
  "greatest_key enc = Max (dom (contents enc))"

lemma last_is_greatest:
  assumes "keys_sorted es" and "es \<noteq> []" shows "entry_key (last es) = Max (entry_key ` set es)"
proof -
  have s: "sorted_wrt (<) (map entry_key es)" using assms(1) by (simp add: keys_sorted_def)
  obtain ks k0 where ks: "map entry_key es = ks @ [k0]" using assms(2) by (cases "map entry_key es" rule: rev_cases) auto
  then have "k \<le> last (map entry_key es)" if "k \<in> set (map entry_key es)" for k
    using s that by (auto simp: sorted_wrt_append)
  then have "Max (set (map entry_key es)) = last (map entry_key es)"
    using assms(2) by (intro Max_eqI) (auto simp: last_map)
  then show ?thesis using assms(2) by (simp add: last_map)
qed

lemma lookup_opened:
  assumes q: "qsort_ok qs" and ok: "enc_ok enc" and r: "ready enc2" and f: "file_layout enc2 (any_value enc2) buf len"
    and e: "en_entries enc2 = en_entries (dedup_entries (sort_entries qs enc))"
    and od: "opened enc2 (any_value enc2) buf len d" and h: "SIZEOF_READER \<le> heap" and n: "n \<le> length kb"
  shows "case kept qs enc (take n kb) of
      Some v \<Rightarrow> \<exists>v'. tp_dict_lookup_n heap d (Some kb) n True = Ok (Some v') \<and> value_agree v v'
    | None \<Rightarrow> contents enc = Map.empty \<or> \<not> extends (take n kb) (greatest_key enc) \<longrightarrow>
        tp_dict_lookup_n heap d (Some kb) n want = Err TP_ERR_NOT_FOUND"
proof -
  note p = prepare_ok[OF q ok refl]
  have keys: "entry_key ` set (en_entries enc2) = dom (contents enc)"
    using p(4) unfolding e dom_contents[OF ok] by simp
  have dk: "dom (kept qs enc) = dom (contents enc)" by (rule dom_kept[OF q ok])
  show ?thesis
  proof (cases "kept qs enc (take n kb)")
    case (Some v)
    then have "take n kb \<in> entry_key ` set (en_entries enc2)" unfolding keys dk[symmetric] by blast
    then obtain x where x: "x \<in> set (en_entries enc2)" "entry_key x = take n kb" by auto
    have "kept qs enc (entry_key x) = Some (e_val x)" using x(1) unfolding e by (rule kept_entry[OF q ok])
    then have "e_val x = v" using Some x(2) by simp
    then show ?thesis using lookup_found[OF r f od h n x] Some by auto
  next
    case None
    then have no: "take n kb \<notin> dom (contents enc)" unfolding dk[symmetric] by auto
    have "tp_dict_lookup_n heap d (Some kb) n want = Err TP_ERR_NOT_FOUND"
      if ext: "contents enc = Map.empty \<or> \<not> extends (take n kb) (greatest_key enc)"
    proof (rule lookup_not_found[OF r f od h n])
      show "take n kb \<notin> entry_key ` set (en_entries enc2)" using no by (simp add: keys)
      assume ne: "en_entries enc2 \<noteq> []"
      have "entry_key (last (en_entries enc2)) = greatest_key enc"
        using last_is_greatest[OF _ ne] p(2) unfolding e greatest_key_def keys[symmetric] by (simp add: e)
      moreover have "contents enc \<noteq> Map.empty" using ne keys by auto
      ultimately show "\<not> extends (take n kb) (entry_key (last (en_entries enc2)))" using ext by simp
    qed
    then show ?thesis using None by simp
  qed
qed

lemma lookup_built:
  assumes q: "qsort_ok qs" and b: "buildable enc"
    and heap: "SIZEOF_DICT \<le> heap" "heap \<le> 1152921504606846976"
    and built: "tp_encoder_build qs heap enc = (Ok (buf, len), enc2)"
    and o: "dict_open_impl heap (Some buf) len check = Ok d" and n: "n \<le> length kb"
  shows "case kept qs enc (take n kb) of
      Some v \<Rightarrow> \<exists>v'. tp_dict_lookup_n heap d (Some kb) n True = Ok (Some v') \<and> value_agree v v'
    | None \<Rightarrow> contents enc = Map.empty \<or> \<not> extends (take n kb) (greatest_key enc) \<longrightarrow>
        tp_dict_lookup_n heap d (Some kb) n want = Err TP_ERR_NOT_FOUND"
proof -
  have ok: "enc_ok enc" using b by (simp add: buildable_def)
  have r: "ready enc2" and f: "file_layout enc2 (any_value enc2) buf len"
    and e: "en_entries enc2 = en_entries (dedup_entries (sort_entries qs enc))"
    and od: "opened enc2 (any_value enc2) buf len d"
    using build_open[OF q b heap built, of check] o by auto
  have h: "SIZEOF_READER \<le> heap" using heap(1) by (simp add: SIZEOF_DICT_def SIZEOF_READER_def)
  show ?thesis by (rule lookup_opened[OF q ok r f e od h n])
qed

section \<open>Damage to a built file\<close>

text \<open>Up to four consecutive bytes changed in front of the checksum: the file no longer opens.\<close>

lemma check_crc32_tampered:
  assumes crc: "has_bits (pre @ es @ post @ tail) (8 * n) (nbits 32 (foldl crc32_step 0xFFFFFFFF (pre @ ds @ post) XOR 0xFFFFFFFF :: u32))"
    and n: "n = length (pre @ es @ post)" and ds: "length ds = length es" "length ds \<le> 4" "ds \<noteq> es"
  shows "check_crc32 (pre @ es @ post @ tail) (n + 4) = Err TP_ERR_CORRUPT"
proof -
  have ld: "load_be32 (pre @ es @ post @ tail) n = Ok (foldl crc32_step 0xFFFFFFFF (pre @ ds @ post) XOR 0xFFFFFFFF)"
    by (rule load_be32_bits[OF crc])
  have cr: "(tp_crc32 (pre @ es @ post @ tail) n :: u32 tp) = Ok (foldl crc32_step 0xFFFFFFFF (pre @ es @ post) XOR 0xFFFFFFFF)"
    using n by (simp add: tp_crc32_def)
  have "foldl crc32_step 0xFFFFFFFF (pre @ es @ post) XOR 0xFFFFFFFF \<noteq> foldl crc32_step 0xFFFFFFFF (pre @ ds @ post) XOR (0xFFFFFFFF :: u32)"
    using crc32_burst_detected[OF ds] xor_cancel_right by metis
  then show ?thesis using ld cr by (simp add: check_crc32_def)
qed

lemma open_tampered:
  assumes f: "file_layout enc hv (pre @ ds @ post @ tail) len" and len: "len = length (pre @ ds @ post) + 4" "4 \<le> length tail"
    and ds: "length ds = length es" "length ds \<le> 4" "ds \<noteq> es"
  shows "\<exists>e. dict_open_impl heap (Some (pre @ es @ post @ tail)) len True = Err e"
proof -
  let ?n = "length (pre @ ds @ post)" let ?buf = "pre @ es @ post @ tail"
  have l: "36 \<le> len" "len \<le> 1152921504606846976" "len \<le> length ?buf"
    using f len ds(1) by (auto simp: file_layout_def)
  have "has_bits (pre @ ds @ post @ tail) (8 * ?n) (nbits 32 (foldl crc32_step 0xFFFFFFFF (pre @ ds @ post) XOR 0xFFFFFFFF :: u32))"
  proof -
    have "len - 4 = ?n" "take ?n (pre @ ds @ post @ tail) = pre @ ds @ post" using len(1) by simp_all
    then show ?thesis using f unfolding file_layout_def by metis
  qed
  moreover have "bit_at (pre @ ds @ post @ tail) (8 * ?n + j) = bit_at ?buf (8 * ?n + j)" if "j < 32" for j
  proof -
    have "(8 * ?n + j) div 8 = ?n + j div 8" "j div 8 < 4" using that by simp_all
    then show ?thesis using ds(1) by (simp add: bit_at_def nth_append)
  qed
  ultimately have "has_bits ?buf (8 * ?n) (nbits 32 (foldl crc32_step 0xFFFFFFFF (pre @ ds @ post) XOR 0xFFFFFFFF :: u32))"
    using ds(1) by (simp add: has_bits_def)
  then have ck: "check_crc32 ?buf len = Err TP_ERR_CORRUPT"
    using check_crc32_tampered[of pre es post tail ?n ds] ds len(1) by simp
  have no: "dict_open_impl heap (Some ?buf) len True \<noteq> Ok d" for d
    using ck l(1) by (auto simp: dict_open_impl_def rbind_eq_Ok fst_eq_Ok sbind_eq_Ok split: if_splits)
  have "safe (dict_open_impl heap (Some ?buf) len True)" using l by (intro open_safe) simp_all
  then show ?thesis using no by (auto elim: safe_cases)
qed

section \<open>An example\<close>

definition sample_encoder :: tp_encoder where
  "sample_encoder = \<lparr>en_opts = tp_encoder_defaults, en_count = 1,
     en_entries = [\<lparr>e_key = [97, 0], e_key_len = 1, e_val = TP_INT 5\<rparr>], en_entries_cap = 16,
     en_sorted = False, en_sym = zero_symbols\<rparr>"

lemma sample_made:
  "tp_encoder_create 1000000 = Ok enc \<Longrightarrow> tp_encoder_add_n 1000000 (Some [97]) 1 (Some (TP_INT 5)) enc = (Ok (), sample_encoder)"
  by (auto simp: tp_encoder_create_def tp_encoder_create_ex_def tp_encoder_defaults_def tp_encoder_add_n_def Let_def
      SIZEOF_ENTRY_def value_deep_copy_def sample_encoder_def sbind_def split: if_splits)

lemma sample_buildable: "buildable sample_encoder"
  by (simp add: buildable_def width_fits_def sample_encoder_def enc_ok_def entry_ok_def tp_encoder_defaults_def key_volume_def)

lemma sample_contents: "contents sample_encoder = [[97] \<mapsto> TP_INT 5]"
  by (simp add: contents_def stored_def sample_encoder_def entry_key_def)

lemma sample_kept: "kept insertion_sort sample_encoder = [[97] \<mapsto> TP_INT 5]"
proof -
  have "distinct (map fst (stored sample_encoder))" by (simp add: stored_def sample_encoder_def)
  then show ?thesis using kept_contents[OF insertion_sort_ok] sample_buildable by (simp add: buildable_def sample_contents)
qed

lemma sample_built: "\<exists>buf len enc2. tp_encoder_build insertion_sort 1000000 sample_encoder = (Ok (buf, len), enc2)"
proof -
  have "card (alphabet (en_entries sample_encoder)) \<le> 249"
    by (simp add: alphabet_def sample_encoder_def entry_key_def)
  moreover have "volume sample_encoder = 468"
    by (simp add: volume_def entry_cost_def sample_encoder_def value_len_def)
  ultimately have "\<exists>buf len. fst (tp_encoder_build insertion_sort 1000000 sample_encoder) = Ok (buf, len)"
    by (intro build_succeeds insertion_sort_ok sample_buildable) (simp_all add: UINT32_MAX_def)
  then show ?thesis by (metis prod.collapse)
qed

end
