(* ===== verification/Iterator.thy ===== *)
theory Iterator
  imports Lookup
begin

text \<open>
  Iteration: \<open>tp_dict_iterate\<close>, \<open>tp_iter_next\<close>, \<open>tp_iter_reset\<close> and their helpers of
  \<open>src/core/decoder.c\<close>. The state is the structure of \<open>core_internal.h\<close>; \<open>key_buf\<close> is the block
  behind the pointer (its bytes are indeterminate after \<open>malloc\<close>, zero here; none is read before it
  is written). A step works on the iterator and the reader it creates. The inner loop walks down a
  subtree and is bounded by the bits of the buffer; the outer loop consumes a child of a stack frame
  per round and is bounded by \<open>rounds_left\<close>.
\<close>

section \<open>State\<close>

definition TP_ITER_MAX_DEPTH :: nat where "TP_ITER_MAX_DEPTH = 256"

record tp_iter_frame =
  f_subtree_end :: nat
  f_next_child_pos :: nat
  f_remaining :: nat
  f_key_prefix_len :: nat

record tp_iterator =
  it_dict :: tp_dict
  it_pos :: nat
  it_distance :: nat
  it_done :: bool
  it_key_buf :: "u8 list"
  it_key_buf_cap :: nat
  it_key_len :: nat
  it_stack :: "tp_iter_frame list"
  it_stack_top :: int
  it_started :: bool
  it_root_pos :: nat
  it_root_end :: nat
  it_root_key_len :: nat
  it_value_pos :: nat
  it_value_index :: nat

definition SIZEOF_ITERATOR :: nat where "SIZEOF_ITERATOR = 8288"
definition KEY_BUF_INITIAL :: nat where "KEY_BUF_INITIAL = 256"

type_synonym 'a iterating = "tp_iterator \<Rightarrow> 'a tp \<times> tp_iterator"
type_synonym 'a stepping = "tp_iterator \<times> tp_bitstream_reader \<Rightarrow> 'a tp \<times> tp_iterator \<times> tp_bitstream_reader"

definition on_reader :: "'a reading \<Rightarrow> 'a stepping" where
  "on_reader m s = (case s of (it, r) \<Rightarrow> case m r of (x, r') \<Rightarrow> (x, it, r'))"

definition on_iter :: "'a iterating \<Rightarrow> 'a stepping" where
  "on_iter m s = (case s of (it, r) \<Rightarrow> case m it of (x, it') \<Rightarrow> (x, it', r))"

section \<open>The key buffer and the value cursor\<close>

definition iter_key_reserve :: "nat \<Rightarrow> nat \<Rightarrow> unit iterating" where
  "iter_key_reserve heap needed it =
     (if needed \<le> it_key_buf_cap it then (Ok (), it)
      else
        case while_option (\<lambda>cap. cap < needed) (\<lambda>cap. wrap64 (cap * 2))
               (if it_key_buf_cap it \<noteq> 0 then it_key_buf_cap it else KEY_BUF_INITIAL) of
          None \<Rightarrow> (Diverge, it)
        | Some cap \<Rightarrow>
            if heap < cap then (Err TP_ERR_ALLOC, it)
            else (Ok (), it\<lparr>it_key_buf := take cap (it_key_buf it) @ replicate (cap - length (it_key_buf it)) 0,
                            it_key_buf_cap := cap\<rparr>))"

definition iter_push_key :: "nat \<Rightarrow> u8 \<Rightarrow> unit iterating" where
  "iter_push_key heap byte it =
     sbind (iter_key_reserve heap (wrap64 (it_key_len it + 1))) (\<lambda>_ it.
       if it_key_len it < length (it_key_buf it)
       then (Ok (), it\<lparr>it_key_buf := (it_key_buf it)[it_key_len it := byte], it_key_len := wrap64 (it_key_len it + 1)\<rparr>)
       else (Fault, it)) it"

definition seek_value :: "nat \<Rightarrow> tp_dict \<Rightarrow> unit stepping" where
  "seek_value index d =
     sbind (on_reader (tp_bs_reader_seek (d_value_start d))) (\<lambda>_.
     sbind (on_reader (read_seq index (tp_value_decode (d_buf d)))) (\<lambda>_ (it, r).
     (Ok (), it\<lparr>it_value_pos := tp_bs_reader_position r, it_value_index := index\<rparr>, r)))"

definition iter_value_at :: "nat \<Rightarrow> nat \<Rightarrow> tp_value iterating" where
  "iter_value_at heap index it =
     (let d = it_dict it in
      if \<not> di_has_values (d_info d) then (Ok tp_value_null, it)
      else
        case tp_bs_reader_create heap (d_buf d) (wrap64 (d_len d * 8)) of
          Ok r \<Rightarrow>
            (case sbind (if index \<noteq> it_value_index it then seek_value index d else sret ()) (\<lambda>_.
                  sbind (\<lambda>(it, r). on_reader (tp_bs_reader_seek (it_value_pos it)) (it, r)) (\<lambda>_.
                  sbind (on_reader (tp_value_decode (d_buf d))) (\<lambda>val (it, r).
                  (Ok val, it\<lparr>it_value_pos := tp_bs_reader_position r, it_value_index := wrap64 (index + 1)\<rparr>, r)))) (it, r) of
               (x, it', _) \<Rightarrow> (x, it'))
        | Err e \<Rightarrow> (Err e, it) | Fault \<Rightarrow> (Fault, it) | Diverge \<Rightarrow> (Diverge, it))"

section \<open>Creation and reset\<close>

definition tp_iter_reset :: "tp_iterator \<Rightarrow> tp_iterator" where
  "tp_iter_reset it = it\<lparr>it_pos := it_root_pos it, it_done := False, it_key_len := it_root_key_len it,
     it_stack_top := -1, it_started := False, it_value_pos := d_value_start (it_dict it), it_value_index := 0\<rparr>"

definition zero_frame :: tp_iter_frame where
  "zero_frame = \<lparr>f_subtree_end = 0, f_next_child_pos = 0, f_remaining = 0, f_key_prefix_len = 0\<rparr>"

definition tp_dict_iterate :: "nat \<Rightarrow> tp_dict \<Rightarrow> tp_iterator tp" where
  "tp_dict_iterate heap dict =
     (if heap < SIZEOF_ITERATOR then Err TP_ERR_ALLOC
      else if heap < KEY_BUF_INITIAL then Err TP_ERR_ALLOC
      else Ok (tp_iter_reset
        \<lparr>it_dict = dict, it_pos = 0, it_distance = 0, it_done = False, it_key_buf = replicate KEY_BUF_INITIAL 0,
         it_key_buf_cap = KEY_BUF_INITIAL, it_key_len = 0, it_stack = replicate TP_ITER_MAX_DEPTH zero_frame,
         it_stack_top = 0, it_started = False, it_root_pos = d_trie_start dict, it_root_end = d_value_start dict,
         it_root_key_len = 0, it_value_pos = 0, it_value_index = 0\<rparr>))"

definition tp_iter_get_distance :: "tp_iterator \<Rightarrow> nat" where
  "tp_iter_get_distance it = it_distance it"

section \<open>One step\<close>

definition push_frame :: "nat \<Rightarrow> u64 \<Rightarrow> unit stepping" where
  "push_frame subtree_end nchildren s =
     (case s of (it, r) \<Rightarrow>
        if it_stack_top it + 1 \<ge> int TP_ITER_MAX_DEPTH then (Err TP_ERR_OVERFLOW, it, r)
        else
          let top = it_stack_top it + 1 in
          (Ok (), it\<lparr>it_stack_top := top, it_stack := (it_stack it)[nat top :=
             \<lparr>f_subtree_end = subtree_end, f_next_child_pos = tp_bs_reader_position r,
              f_remaining = wrap32 (unat nchildren), f_key_prefix_len = it_key_len it\<rparr>]\<rparr>, r))"

text \<open>How the walk down a subtree ends: a key with its value, a branch whose children come next, or
  the end of the subtree.\<close>

datatype walk_end = Emitted tp_value | Branched | Subtree_end

fun walk_down :: "nat \<Rightarrow> nat \<Rightarrow> tp_symbol_info \<Rightarrow> nat \<Rightarrow> walk_end stepping" where
  "walk_down 0 heap si subtree_end = slift Diverge"
| "walk_down (Suc fuel) heap si subtree_end =
     (\<lambda>(it, r).
       if \<not> tp_bs_reader_position r < subtree_end then (Ok Subtree_end, it, r)
       else
         sbind (on_reader (tp_bs_read_bits (s_bits_per_symbol si))) (\<lambda>raw.
         let code = wrap32 (unat raw) in
         if code = ctrl_code si TP_CTRL_END \<or> code = ctrl_code si TP_CTRL_END_VAL then
           sbind (if code = ctrl_code si TP_CTRL_END_VAL then on_reader tp_bs_read_varint_u else sret 0) (\<lambda>vi.
           sbind (\<lambda>(it, r).
               if tp_bs_reader_position r < subtree_end then
                 sbind (on_reader (tp_bs_read_bits (s_bits_per_symbol si))) (\<lambda>bsym.
                 if wrap32 (unat bsym) \<noteq> ctrl_code si TP_CTRL_BRANCH then sfail TP_ERR_CORRUPT
                 else sbind (on_reader tp_bs_read_varint_u) (push_frame subtree_end)) (it, r)
               else (Ok (), it, r)) (\<lambda>_.
           if code = ctrl_code si TP_CTRL_END_VAL
           then sbind (on_iter (iter_value_at heap (unat vi))) (\<lambda>v. sret (Emitted v))
           else sret (Emitted tp_value_null)))
         else if code = ctrl_code si TP_CTRL_BRANCH then
           sbind (on_reader tp_bs_read_varint_u) (\<lambda>n. sbind (push_frame subtree_end n) (\<lambda>_. sret Branched))
         else if is_ctrl si code then sfail TP_ERR_CORRUPT
         else
           sbind (on_iter (iter_push_key heap (if code < 256 then s_reverse_map si ! code else 0))) (\<lambda>_.
           walk_down fuel heap si subtree_end)) (it, r))"

text \<open>\<open>while (stack_top >= 0 && stack[stack_top].remaining == 0) stack_top--;\<close> from \<open>n\<close> frames down.\<close>

fun unwind :: "tp_iter_frame list \<Rightarrow> nat \<Rightarrow> nat" where
  "unwind stack 0 = 0"
| "unwind stack (Suc n) = (if f_remaining (stack ! n) = 0 then unwind stack n else Suc n)"

text \<open>Moving to the next unvisited sibling: the end of its subtree.\<close>

definition next_sibling :: "tp_symbol_info \<Rightarrow> nat stepping" where
  "next_sibling si s =
     (case s of (it, r) \<Rightarrow>
        let n = unwind (it_stack it) (nat (it_stack_top it + 1)); it = it\<lparr>it_stack_top := int n - 1\<rparr> in
        if it_stack_top it < 0 then (Err TP_ERR_EOF, it, r)
        else
          let top = nat (it_stack_top it); f = it_stack it ! top;
              it = it\<lparr>it_key_len := f_key_prefix_len f\<rparr>;
              put = (\<lambda>f it. it\<lparr>it_stack := (it_stack it)[top := f]\<rparr>) in
          sbind (on_reader (tp_bs_reader_seek (f_next_child_pos f))) (\<lambda>_.
          if f_remaining f > 1 then
            sbind (on_reader (tp_bs_read_bits (s_bits_per_symbol si))) (\<lambda>skip_sym.
            if wrap32 (unat skip_sym) \<noteq> ctrl_code si TP_CTRL_SKIP then sfail TP_ERR_CORRUPT
            else
              sbind (on_reader tp_bs_read_varint_u) (\<lambda>dist (it, r).
              let pos = tp_bs_reader_position r; end' = wrap64 (pos + unat dist) in
              (Ok end', put (f\<lparr>f_next_child_pos := end', f_remaining := f_remaining f - 1\<rparr>) (it\<lparr>it_pos := pos\<rparr>), r)))
          else (\<lambda>(it, r).
            (Ok (f_subtree_end f), put (f\<lparr>f_remaining := f_remaining f - 1\<rparr>) (it\<lparr>it_pos := f_next_child_pos f\<rparr>), r)))
          (it, r))"

text \<open>The outer loop: \<open>Some\<close> end of the subtree to descend into, or \<open>None\<close> to move on.\<close>

fun iter_loop :: "nat \<Rightarrow> nat \<Rightarrow> nat \<Rightarrow> tp_symbol_info \<Rightarrow> nat option \<Rightarrow> tp_value stepping" where
  "iter_loop 0 fuel heap si descending = slift Diverge"
| "iter_loop (Suc rounds) fuel heap si descending =
     sbind (case descending of Some subtree_end \<Rightarrow> sret subtree_end | None \<Rightarrow> next_sibling si) (\<lambda>subtree_end.
     sbind (\<lambda>(it, r). on_reader (tp_bs_reader_seek (it_pos it)) (it, r)) (\<lambda>_.
     sbind (walk_down fuel heap si subtree_end) (\<lambda>we.
     case we of
       Emitted v \<Rightarrow> sret v
     | Branched \<Rightarrow> iter_loop rounds fuel heap si None
     | Subtree_end \<Rightarrow> iter_loop rounds fuel heap si None)))"

text \<open>The children waiting on the stack, a frame weighing as much as all the children that can be
  pushed above it.\<close>

definition rounds_left :: "tp_iterator \<Rightarrow> nat" where
  "rounds_left it =
     (\<Sum>i < nat (it_stack_top it + 1). f_remaining (it_stack it ! i) * 4294967296 ^ (TP_ITER_MAX_DEPTH - 1 - i))"

definition iter_fuel :: "tp_iterator \<Rightarrow> nat" where
  "iter_fuel it = 4294967296 ^ TP_ITER_MAX_DEPTH + rounds_left it + 2"

definition tp_iter_next :: "nat \<Rightarrow> (u8 list \<times> nat \<times> tp_value) iterating" where
  "tp_iter_next heap it =
     (if it_done it then (Err TP_ERR_EOF, it)
      else if di_num_keys (d_info (it_dict it)) = 0 then (Err TP_ERR_EOF, it\<lparr>it_done := True\<rparr>)
      else
        let d = it_dict it in
        case tp_bs_reader_create heap (d_buf d) (wrap64 (d_len d * 8)) of
          Ok r \<Rightarrow>
            let (it1, descending) =
              (if \<not> it_started it then
                 (it\<lparr>it_started := True, it_pos := it_root_pos it, it_key_len := it_root_key_len it\<rparr>,
                  Some (it_root_end it))
               else (it, None)) in
            (case iter_loop (iter_fuel it1) (d_len d * 8 + 2) heap (d_sym d) descending (it1, r) of
               (Ok v, it2, _) \<Rightarrow> (Ok (take (it_key_len it2) (it_key_buf it2), it_key_len it2, v), it2)
             | (Err e, it2, _) \<Rightarrow> (Err e, it2\<lparr>it_done := True\<rparr>)
             | (Fault, it2, _) \<Rightarrow> (Fault, it2)
             | (Diverge, it2, _) \<Rightarrow> (Diverge, it2))
        | Err e \<Rightarrow> (Err e, it) | Fault \<Rightarrow> (Fault, it) | Diverge \<Rightarrow> (Diverge, it))"

end
