(* ===== verification/Iterator_Safe.thy ===== *)
theory Iterator_Safe
  imports Iterator
begin

text \<open>
  On any dictionary that opens, whatever its bytes, every call of \<open>tp_iter_next\<close> returns, touches
  nothing outside the buffer, the key block and the stack, and keeps the iterator's invariant. The
  outer loop ends because the weighted number of waiting children goes down in every round.
\<close>

section \<open>The invariant\<close>

definition it_ok :: "nat \<Rightarrow> tp_iterator \<Rightarrow> bool" where
  "it_ok heap it \<longleftrightarrow> dict_ok (it_dict it) \<and> heap \<le> 1152921504606846976 \<and>
     length (it_key_buf it) = it_key_buf_cap it \<and> 0 < it_key_buf_cap it \<and>
     it_key_buf_cap it \<le> 1152921504606846976 \<and> it_key_len it \<le> it_key_buf_cap it \<and>
     length (it_stack it) = TP_ITER_MAX_DEPTH \<and> -1 \<le> it_stack_top it \<and> it_stack_top it < int TP_ITER_MAX_DEPTH \<and>
     it_root_key_len it \<le> it_key_buf_cap it \<and>
     (\<forall>i < nat (it_stack_top it + 1). f_key_prefix_len (it_stack it ! i) \<le> it_key_buf_cap it \<and>
        f_remaining (it_stack it ! i) < 4294967296)"

definition st_ok :: "nat \<Rightarrow> tp_dict \<Rightarrow> tp_iterator \<times> tp_bitstream_reader \<Rightarrow> bool" where
  "st_ok heap d s \<longleftrightarrow> it_ok heap (fst s) \<and> it_dict (fst s) = d \<and> reader_ok (snd s) \<and>
     r_buf (snd s) = d_buf d \<and> r_bit_len (snd s) = 8 * d_len d"

text \<open>The frames in use. \<open>runs Q m s\<close>: the step returns, keeps the invariant, and a result satisfies
  \<open>Q\<close>.\<close>

definition waiting :: "tp_iterator \<Rightarrow> tp_iter_frame list" where
  "waiting it = take (nat (it_stack_top it + 1)) (it_stack it)"

definition runs ::
  "nat \<Rightarrow> tp_dict \<Rightarrow> ('a \<Rightarrow> tp_iterator \<times> tp_bitstream_reader \<Rightarrow> bool) \<Rightarrow> 'a stepping \<Rightarrow>
   tp_iterator \<times> tp_bitstream_reader \<Rightarrow> bool" where
  "runs heap d Q m s \<longleftrightarrow> safe (fst (m s)) \<and> st_ok heap d (snd (m s)) \<and> (\<forall>a. fst (m s) = Ok a \<longrightarrow> Q a (snd (m s)))"

lemma runs_sbind:
  assumes m: "runs heap d P m s" and f: "\<And>a s'. P a s' \<Longrightarrow> st_ok heap d s' \<Longrightarrow> runs heap d Q (f a) s'"
  shows "runs heap d Q (sbind m f) s"
proof -
  obtain x s' where x: "m s = (x, s')" by (cases "m s")
  have s: "safe x" "st_ok heap d s'" and P: "\<And>a. x = Ok a \<Longrightarrow> P a s'" using m x by (simp_all add: runs_def)
  show ?thesis
  proof (cases x)
    case (Ok a)
    then have "runs heap d Q (f a) s'" using f P s(2) by blast
    then show ?thesis using x Ok by (simp add: runs_def sbind_def)
  qed (use s x in \<open>simp_all add: runs_def sbind_def\<close>)
qed

lemma runs_sret: "st_ok heap d s \<Longrightarrow> Q a s \<Longrightarrow> runs heap d Q (sret a) s"
  by (simp add: runs_def)

lemma runs_sfail: "st_ok heap d s \<Longrightarrow> runs heap d Q (sfail e) s"
  by (simp add: runs_def)

text \<open>A read moves the reader only.\<close>

lemma runs_reader:
  assumes "st_ok heap d s" and "rsafe m" and "\<And>a r'. m (snd s) = (Ok a, r') \<Longrightarrow> reader_ok r' \<Longrightarrow> Q a (fst s, r')"
  shows "runs heap d Q (on_reader m) s"
proof -
  obtain it r where s: "s = (it, r)" by force
  obtain x r' where x: "m r = (x, r')" by force
  have "reader_ok r" using assms(1) s by (simp add: st_ok_def)
  note sf = rsafeD[OF assms(2) this x]
  then show ?thesis using assms(1,3) x by (auto simp: s runs_def on_reader_def st_ok_def same_stream_def)
qed

lemma runs_if: "(c \<Longrightarrow> runs heap d Q a s) \<Longrightarrow> (\<not> c \<Longrightarrow> runs heap d Q b s) \<Longrightarrow> runs heap d Q (if c then a else b) s"
  by simp

section \<open>Key buffer and values\<close>

text \<open>Doubling reaches every size the allocator could grant.\<close>

lemma double_terminates:
  assumes "0 < c" and "c \<le> 2305843009213693952" and "n \<le> 2305843009213693952"
  shows "\<exists>m. while_option (\<lambda>cap. cap < n) (\<lambda>cap. wrap64 (cap * 2)) c = Some m \<and> n \<le> m \<and> c \<le> m"
proof -
  let ?P = "\<lambda>x. c \<le> x \<and> x \<le> 4611686018427387904"
  have "\<exists>m. while_option (\<lambda>cap. cap < n) (\<lambda>cap. wrap64 (cap * 2)) c = Some m"
  proof (rule measure_while_option_Some[where P = ?P and f = "\<lambda>x. n - x"])
    fix x assume x: "?P x" "x < n"
    then have "wrap64 (x * 2) = x * 2" using assms by simp
    then show "?P (wrap64 (x * 2)) \<and> n - wrap64 (x * 2) < n - x" using x assms by auto
  qed (use assms in simp)
  then obtain m where m: "while_option (\<lambda>cap. cap < n) (\<lambda>cap. wrap64 (cap * 2)) c = Some m" by blast
  have "?P m"
  proof (rule while_option_rule[OF _ m])
    fix x assume x: "?P x" "x < n"
    then have "wrap64 (x * 2) = x * 2" using assms by simp
    then show "?P (wrap64 (x * 2))" using x assms by auto
  qed (use assms in simp)
  then show ?thesis using m while_option_stop[OF m] by auto
qed

lemma reserve_ok:
  assumes ok: "it_ok heap it" and n: "n \<le> 1152921504606846977"
  shows "iter_key_reserve heap n it = (Err TP_ERR_ALLOC, it) \<or>
    (\<exists>it'. iter_key_reserve heap n it = (Ok (), it') \<and> it_ok heap it' \<and> n \<le> it_key_buf_cap it' \<and>
      it_key_buf_cap it \<le> it_key_buf_cap it' \<and>
      it' = it\<lparr>it_key_buf := it_key_buf it', it_key_buf_cap := it_key_buf_cap it'\<rparr> \<and>
      take (it_key_buf_cap it) (it_key_buf it') = it_key_buf it)"
proof (cases "n \<le> it_key_buf_cap it")
  case True
  then show ?thesis using ok by (auto simp: iter_key_reserve_def it_ok_def)
next
  case False
  have c: "0 < it_key_buf_cap it" "it_key_buf_cap it \<le> 1152921504606846976" "length (it_key_buf it) = it_key_buf_cap it"
    using ok by (simp_all add: it_ok_def)
  obtain m where m: "while_option (\<lambda>cap. cap < n) (\<lambda>cap. wrap64 (cap * 2)) (it_key_buf_cap it) = Some m"
    "n \<le> m" "it_key_buf_cap it \<le> m"
    using double_terminates[of "it_key_buf_cap it" n] c n by auto
  show ?thesis
  proof (cases "heap < m")
    case True
    then show ?thesis using False m c by (simp add: iter_key_reserve_def)
  next
    case fits: False
    let ?it = "it\<lparr>it_key_buf := it_key_buf it @ replicate (m - it_key_buf_cap it) 0, it_key_buf_cap := m\<rparr>"
    have "iter_key_reserve heap n it = (Ok (), ?it)"
      using False m c fits by (simp add: iter_key_reserve_def)
    moreover have "it_ok heap ?it" using ok m c fits by (auto simp: it_ok_def intro: le_trans)
    ultimately show ?thesis using m c by (intro disjI2 exI[of _ ?it]) simp
  qed
qed

lemma push_key_ok:
  assumes ok: "it_ok heap it"
  shows "iter_push_key heap b it = (Err TP_ERR_ALLOC, it) \<or>
    (\<exists>it'. iter_push_key heap b it = (Ok (), it') \<and> it_ok heap it' \<and>
      it' = it\<lparr>it_key_buf := it_key_buf it', it_key_buf_cap := it_key_buf_cap it', it_key_len := it_key_len it + 1\<rparr> \<and>
      it_key_buf_cap it \<le> it_key_buf_cap it' \<and>
      take (it_key_len it + 1) (it_key_buf it') = take (it_key_len it) (it_key_buf it) @ [b])"
proof -
  have c: "it_key_len it \<le> it_key_buf_cap it" "it_key_buf_cap it \<le> 1152921504606846976"
    "length (it_key_buf it) = it_key_buf_cap it" using ok by (simp_all add: it_ok_def)
  then have w: "wrap64 (Suc (it_key_len it)) = Suc (it_key_len it)" by simp
  from reserve_ok[OF ok, of "it_key_len it + 1"] c consider
    "iter_key_reserve heap (it_key_len it + 1) it = (Err TP_ERR_ALLOC, it)"
    | it' where "iter_key_reserve heap (it_key_len it + 1) it = (Ok (), it')" "it_ok heap it'"
      "it_key_len it + 1 \<le> it_key_buf_cap it'" "it_key_buf_cap it \<le> it_key_buf_cap it'"
      "it' = it\<lparr>it_key_buf := it_key_buf it', it_key_buf_cap := it_key_buf_cap it'\<rparr>"
      "take (it_key_buf_cap it) (it_key_buf it') = it_key_buf it"
    by fastforce
  then show ?thesis
  proof cases
    case 1
    then show ?thesis by (simp add: iter_push_key_def sbind_def w)
  next
    case (2 it')
    obtain x c where it': "it' = it\<lparr>it_key_buf := x, it_key_buf_cap := c\<rparr>" using 2(5) by blast
    have len: "it_key_len it' = it_key_len it" by (simp add: it')
    have lb: "it_key_len it < length (it_key_buf it')" using 2(2,3) by (simp add: it_ok_def)
    let ?it = "it'\<lparr>it_key_buf := (it_key_buf it')[it_key_len it := b], it_key_len := it_key_len it + 1\<rparr>"
    have "iter_push_key heap b it = (Ok (), ?it)"
      using 2(1) lb len w by (simp add: iter_push_key_def sbind_def)
    moreover have "it_ok heap ?it" using 2(2,3) by (simp add: it_ok_def)
    moreover have "take (it_key_len it) (it_key_buf it') = take (it_key_len it) (it_key_buf it)"
      using 2(6) c(1) by (metis min.absorb1 take_take)
    then have "take (it_key_len it + 1) (it_key_buf ?it) = take (it_key_len it) (it_key_buf it) @ [b]"
      using lb by (simp add: take_Suc_conv_app_nth)
    moreover have "?it = it\<lparr>it_key_buf := it_key_buf ?it, it_key_buf_cap := it_key_buf_cap ?it, it_key_len := it_key_len it + 1\<rparr>"
      by (simp add: it')
    ultimately show ?thesis using 2(4) by (intro disjI2 exI[of _ ?it]) simp
  qed
qed

text \<open>Fetching a value changes the cursor only.\<close>

lemma st_ok_cursor:
  "st_ok heap d (it\<lparr>it_value_pos := p, it_value_index := i\<rparr>, r) = st_ok heap d (it, r)"
  by (simp add: st_ok_def it_ok_def)

definition same_but_cursor :: "tp_iterator \<Rightarrow> tp_iterator \<Rightarrow> bool" where
  "same_but_cursor it it' \<longleftrightarrow> it' = it\<lparr>it_value_pos := it_value_pos it', it_value_index := it_value_index it'\<rparr>"

lemma same_but_cursor_refl [simp]: "same_but_cursor it it"
  by (simp add: same_but_cursor_def)

lemma same_but_cursor_set: "same_but_cursor it it' \<Longrightarrow> same_but_cursor it (it'\<lparr>it_value_pos := p, it_value_index := i\<rparr>)"
proof -
  assume "same_but_cursor it it'"
  then obtain a b where "it' = it\<lparr>it_value_pos := a, it_value_index := b\<rparr>" by (auto simp: same_but_cursor_def)
  then show ?thesis by (simp add: same_but_cursor_def)
qed

abbreviation cursor_only :: "tp_iterator \<Rightarrow> 'a \<Rightarrow> tp_iterator \<times> tp_bitstream_reader \<Rightarrow> bool" where
  "cursor_only it a s \<equiv> same_but_cursor it (fst s)"

lemma cursor_only_reader:
  "st_ok heap d s \<Longrightarrow> cursor_only it () s \<Longrightarrow> rsafe m \<Longrightarrow> runs heap d (cursor_only it) (on_reader m) s"
  by (rule runs_reader) simp_all

lemma cursor_only_seek:
  "st_ok heap d s \<Longrightarrow> cursor_only it () s \<Longrightarrow>
   runs heap d (cursor_only it) (\<lambda>(it, r). on_reader (tp_bs_reader_seek (it_value_pos it)) (it, r)) s"
  using cursor_only_reader[OF _ _ rsafe_cursor(1), of heap d s it "it_value_pos (fst s)"]
  by (cases s) (simp add: runs_def)

lemma cursor_only_set:
  "st_ok heap d s \<Longrightarrow> cursor_only it () s \<Longrightarrow>
   runs heap d (cursor_only it) (\<lambda>(it, r). (Ok a, it\<lparr>it_value_pos := tp_bs_reader_position r, it_value_index := k\<rparr>, r)) s"
  by (cases s) (simp add: runs_def st_ok_cursor same_but_cursor_set)

lemma cursor_only_sret: "st_ok heap d s \<Longrightarrow> cursor_only it () s \<Longrightarrow> runs heap d (cursor_only it) (sret a) s"
  by (simp add: runs_def)

lemma cursor_only_fetch:
  assumes "st_ok heap d s" and "cursor_only it () s" and "rsafe (tp_value_decode (d_buf d))"
  shows "runs heap d (cursor_only it)
    (sbind (if c then seek_value i d else sret ()) (\<lambda>_.
     sbind (\<lambda>(it, r). on_reader (tp_bs_reader_seek (it_value_pos it)) (it, r)) (\<lambda>_.
     sbind (on_reader (tp_value_decode (d_buf d))) (\<lambda>val (it, r).
     (Ok val, it\<lparr>it_value_pos := tp_bs_reader_position r, it_value_index := k\<rparr>, r))))) s"
  unfolding seek_value_def
  by (intro runs_sbind[where P = "cursor_only it"] runs_if cursor_only_sret cursor_only_set cursor_only_seek
        cursor_only_reader) (simp_all add: assms rsafe_cursor(1) rsafe_read_seq)

lemma value_at_ok:
  assumes ok: "it_ok heap it"
  shows "safe (fst (iter_value_at heap i it)) \<and> it_ok heap (snd (iter_value_at heap i it)) \<and>
    it_dict (snd (iter_value_at heap i it)) = it_dict it \<and>
    (\<forall>v. fst (iter_value_at heap i it) = Ok v \<longrightarrow> same_but_cursor it (snd (iter_value_at heap i it)))"
proof -
  let ?d = "it_dict it"
  have d: "dict_ok ?d" using ok by (simp add: it_ok_def)
  show ?thesis
  proof (cases "tp_bs_reader_create heap (d_buf ?d) (wrap64 (d_len ?d * 8))")
    case (Ok r)
    obtain bs where bs: "d_buf ?d = Some bs" "reader_ok r" "r_bit_len r = 8 * d_len ?d" "r_bytes r = bs"
      by (rule dict_reader[OF d Ok])
    have "runs heap ?d (cursor_only it)
      (sbind (if i \<noteq> it_value_index it then seek_value i ?d else sret ()) (\<lambda>_.
       sbind (\<lambda>(it, r). on_reader (tp_bs_reader_seek (it_value_pos it)) (it, r)) (\<lambda>_.
       sbind (on_reader (tp_value_decode (d_buf ?d))) (\<lambda>val (it, r).
       (Ok val, it\<lparr>it_value_pos := tp_bs_reader_position r, it_value_index := wrap64 (i + 1)\<rparr>, r))))) (it, r)"
      using ok bs by (intro cursor_only_fetch) (simp_all add: st_ok_def r_buf_bytes rsafe_value_decode)
    then show ?thesis unfolding runs_def st_ok_def
      by (cases "di_has_values (d_info ?d)") (auto simp: iter_value_at_def Let_def Ok ok split: prod.splits)
  qed (auto simp: ok iter_value_at_def Let_def tp_bs_reader_create_def split: if_splits)
qed

section \<open>The stack\<close>

lemma waiting_top: "waiting (it\<lparr>it_pos := p\<rparr>) = waiting it" "waiting (it\<lparr>it_key_len := n\<rparr>) = waiting it"
  by (simp_all add: waiting_def)

lemma length_waiting: "it_ok heap it \<Longrightarrow> length (waiting it) = nat (it_stack_top it + 1)"
  by (auto simp: waiting_def it_ok_def)

definition pushed :: "tp_iter_frame list \<Rightarrow> 'a \<Rightarrow> tp_iterator \<times> tp_bitstream_reader \<Rightarrow> bool" where
  "pushed ws a s \<longleftrightarrow> (\<exists>f. waiting (fst s) = ws @ [f] \<and> f_remaining f < 4294967296 \<and> length ws < TP_ITER_MAX_DEPTH)"

abbreviation stack_is :: "tp_iter_frame list \<Rightarrow> 'a \<Rightarrow> tp_iterator \<times> tp_bitstream_reader \<Rightarrow> bool" where
  "stack_is ws a s \<equiv> waiting (fst s) = ws"

lemma it_ok_push:
  assumes ok: "it_ok heap it" and top: "it_stack_top it + 1 < int TP_ITER_MAX_DEPTH"
    and f: "f_remaining f < 4294967296" "f_key_prefix_len f \<le> it_key_buf_cap it"
  defines "it' \<equiv> it\<lparr>it_stack_top := it_stack_top it + 1, it_stack := (it_stack it)[nat (it_stack_top it + 1) := f]\<rparr>"
  shows "it_ok heap it'" and "waiting it' = waiting it @ [f]" and "length (waiting it) < TP_ITER_MAX_DEPTH"
proof -
  define n where "n = nat (it_stack_top it + 1)"
  have n: "it_stack_top it + 1 = int n" "n < TP_ITER_MAX_DEPTH" "n < length (it_stack it)"
    "nat (int n + 1) = Suc n" using ok top by (auto simp: it_ok_def n_def)
  show "waiting it' = waiting it @ [f]"
    using n by (simp add: waiting_def it'_def take_Suc_conv_app_nth add.assoc)
  show "length (waiting it) < TP_ITER_MAX_DEPTH" using n by (simp add: waiting_def)
  have len: "length (it_stack it') = TP_ITER_MAX_DEPTH" "nat (it_stack_top it' + 1) = Suc n"
    "it_stack_top it' = int n" using ok n by (simp_all add: it_ok_def it'_def)
  have "f_key_prefix_len (it_stack it' ! i) \<le> it_key_buf_cap it' \<and> f_remaining (it_stack it' ! i) < 4294967296"
    if "i < Suc n" for i
    using that ok f n by (cases "i = n") (simp_all add: it_ok_def it'_def n_def[symmetric])
  then show "it_ok heap it'" using ok len n by (simp add: it_ok_def it'_def)
qed

lemma push_frame_runs:
  assumes st: "st_ok heap d s" and ws: "waiting (fst s) = ws"
  shows "runs heap d (pushed ws) (push_frame e n) s"
proof -
  obtain it r where s: "s = (it, r)" by force
  have ok: "it_ok heap it" using st s by (simp add: st_ok_def)
  have len: "it_key_len it \<le> it_key_buf_cap it" using ok by (simp add: it_ok_def)
  show ?thesis
  proof (cases "it_stack_top it + 1 \<ge> int TP_ITER_MAX_DEPTH")
    case True
    then show ?thesis using st s by (simp add: runs_def push_frame_def)
  next
    case False
    let ?f = "\<lparr>f_subtree_end = e, f_next_child_pos = tp_bs_reader_position r,
      f_remaining = wrap32 (unat n), f_key_prefix_len = it_key_len it\<rparr>"
    note pf = it_ok_push[of heap it ?f, OF ok]
    show ?thesis using False pf len st ws
      by (auto simp: s runs_def push_frame_def Let_def pushed_def st_ok_def)
  qed
qed

lemma push_key_runs:
  assumes st: "st_ok heap d s" and ws: "waiting (fst s) = ws"
  shows "runs heap d (\<lambda>_ s'. waiting (fst s') = ws \<and> snd s' = snd s) (on_iter (iter_push_key heap b)) s"
proof -
  obtain it r where s: "s = (it, r)" by force
  have ok: "it_ok heap it" using st s by (simp add: st_ok_def)
  from push_key_ok[OF ok, of b] show ?thesis
  proof (elim disjE exE conjE)
    fix it' assume 1: "iter_push_key heap b it = (Ok (), it')" "it_ok heap it'"
      and 2: "it' = it\<lparr>it_key_buf := it_key_buf it', it_key_buf_cap := it_key_buf_cap it', it_key_len := it_key_len it + 1\<rparr>"
    obtain x c where it': "it' = it\<lparr>it_key_buf := x, it_key_buf_cap := c, it_key_len := it_key_len it + 1\<rparr>" using 2 by blast
    have "waiting it' = waiting it" "it_dict it' = it_dict it" by (simp_all add: it' waiting_def)
    then show ?thesis using 1 st ws by (simp add: s runs_def on_iter_def st_ok_def)
  qed (use st ws in \<open>simp add: s runs_def on_iter_def\<close>)
qed

lemma value_runs:
  assumes st: "st_ok heap d s" and ws: "waiting (fst s) = ws"
  shows "runs heap d (stack_is ws) (on_iter (iter_value_at heap i)) s"
proof -
  obtain it r where s: "s = (it, r)" by force
  have ok: "it_ok heap it" using st s by (simp add: st_ok_def)
  obtain x it' where x: "iter_value_at heap i it = (x, it')" by force
  have v: "safe x" "it_ok heap it'" "it_dict it' = it_dict it" "\<forall>v. x = Ok v \<longrightarrow> same_but_cursor it it'"
    using value_at_ok[OF ok, of i] x by simp_all
  have "waiting it' = waiting it" if c: "same_but_cursor it it'"
  proof -
    obtain a b where "it' = it\<lparr>it_value_pos := a, it_value_index := b\<rparr>"
      using c unfolding same_but_cursor_def by blast
    then show ?thesis by (simp add: waiting_def)
  qed
  then show ?thesis using v st ws x by (auto simp: s runs_def on_iter_def st_ok_def)
qed

section \<open>Walking down\<close>

definition walked :: "tp_iter_frame list \<Rightarrow> walk_end \<Rightarrow> tp_iterator \<times> tp_bitstream_reader \<Rightarrow> bool" where
  "walked ws we s \<longleftrightarrow> waiting (fst s) = ws \<or> pushed ws we s"

lemma walked_simps: "waiting (fst s) = ws \<Longrightarrow> walked ws we s" "pushed ws a s \<Longrightarrow> walked ws we s"
  by (simp_all add: walked_def pushed_def)

lemma runs_weaken: "runs heap d P m s \<Longrightarrow> (\<And>a s'. P a s' \<Longrightarrow> Q a s') \<Longrightarrow> runs heap d Q m s"
  by (simp add: runs_def)

lemma runs_branch:
  assumes "st_ok heap d s" and "waiting (fst s) = ws"
  shows "runs heap d (pushed ws) (sbind (on_reader tp_bs_read_varint_u) (push_frame e)) s"
  by (intro runs_sbind[where P = "stack_is ws"] runs_reader push_frame_runs) (simp_all add: assms rsafe_read_varint(1))

lemma runs_after_terminal:
  assumes st: "st_ok heap d s" and ws: "waiting (fst s) = ws"
  shows "runs heap d (walked ws) (sbind (\<lambda>(it, r).
      if tp_bs_reader_position r < e then
        sbind (on_reader (tp_bs_read_bits n)) (\<lambda>bsym.
        if wrap32 (unat bsym) \<noteq> c then sfail TP_ERR_CORRUPT
        else sbind (on_reader tp_bs_read_varint_u) (push_frame e)) (it, r)
      else (Ok (), it, r)) (\<lambda>_.
    if b then sbind (on_iter (iter_value_at heap i)) (\<lambda>v. sret (Emitted v))
    else sret (Emitted tp_value_null))) s"
proof (rule runs_sbind)
  let ?P = "\<lambda>(a :: unit) s. waiting (fst s) = ws \<or> pushed ws a s"
  show "runs heap d ?P (\<lambda>(it, r).
      if tp_bs_reader_position r < e then
        sbind (on_reader (tp_bs_read_bits n)) (\<lambda>bsym.
        if wrap32 (unat bsym) \<noteq> c then sfail TP_ERR_CORRUPT
        else sbind (on_reader tp_bs_read_varint_u) (push_frame e)) (it, r)
      else (Ok (), it, r)) s"
  proof -
    have "runs heap d ?P (sbind (on_reader (tp_bs_read_bits n)) (\<lambda>bsym.
        if wrap32 (unat bsym) \<noteq> c then sfail TP_ERR_CORRUPT
        else sbind (on_reader tp_bs_read_varint_u) (push_frame e))) s"
    proof (rule runs_sbind[where P = "stack_is ws"], rule runs_reader[OF st rsafe_read_bits])
      show "runs heap d ?P (if wrap32 (unat bsym) \<noteq> c then sfail TP_ERR_CORRUPT
          else sbind (on_reader tp_bs_read_varint_u) (push_frame e)) s'"
        if "stack_is ws bsym s'" "st_ok heap d s'" for bsym s'
        using that by (intro runs_if runs_sfail runs_weaken[OF runs_branch]) auto
    qed (use ws in simp)
    then show ?thesis using st ws by (cases s) (simp add: runs_def)
  qed
next
  fix u s' assume w: "waiting (fst s') = ws \<or> pushed ws u s'" and st': "st_ok heap d s'"
  then have w': "walked ws we s'" for we by (auto intro: walked_simps)
  have val: "runs heap d (stack_is (waiting (fst s'))) (on_iter (iter_value_at heap i)) s'"
    using st' by (intro value_runs) simp_all
  show "runs heap d (walked ws) (if b then sbind (on_iter (iter_value_at heap i)) (\<lambda>v. sret (Emitted v))
      else sret (Emitted tp_value_null)) s'"
    by (intro runs_if runs_sbind[OF val] runs_sret) (use w' st' in \<open>auto simp: walked_def pushed_def\<close>)
qed

lemma read_bits_pos:
  assumes "reader_ok r" and "tp_bs_read_bits n r = (Ok v, r')" and "1 \<le> n" and "n \<le> 8"
  shows "r_pos r < r_pos r' \<and> r_bit_len r' = r_bit_len r"
  using assms by (auto simp: tp_bs_read_bits_def reader_ok_def split: if_splits)

lemma walk_down_runs:
  assumes d: "dict_ok d"
  shows "st_ok heap d s \<Longrightarrow> waiting (fst s) = ws \<Longrightarrow> 8 * d_len d - r_pos (snd s) < fuel \<Longrightarrow>
    runs heap d (walked ws) (walk_down fuel heap (d_sym d) e) s"
proof (induction fuel arbitrary: s)
  case (Suc fuel)
  obtain it r where s: "s = (it, r)" by force
  have r: "reader_ok r" "r_bit_len r = 8 * d_len d" using Suc.prems(1) by (simp_all add: s st_ok_def)
  have bps: "1 \<le> s_bits_per_symbol (d_sym d)" "s_bits_per_symbol (d_sym d) \<le> 8" using d by (simp_all add: dict_ok_def)
  let ?bps = "s_bits_per_symbol (d_sym d)"
  have "runs heap d (\<lambda>_ s'. waiting (fst s') = ws \<and> 8 * d_len d - r_pos (snd s') < fuel)
      (on_reader (tp_bs_read_bits ?bps)) s"
  proof (intro runs_reader Suc.prems(1) rsafe_read_bits)
    fix a r' assume "tp_bs_read_bits ?bps (snd s) = (Ok a, r')" and "reader_ok r'"
    then show "waiting (fst (fst s, r')) = ws \<and> 8 * d_len d - r_pos (snd (fst s, r')) < fuel"
      using read_bits_pos[OF r(1) _ bps, of a r'] r(2) Suc.prems(2,3) by (auto simp: s reader_ok_def)
  qed
  then have "runs heap d (walked ws) (sbind (on_reader (tp_bs_read_bits ?bps)) (\<lambda>raw.
       let code = wrap32 (unat raw) in
       if code = ctrl_code (d_sym d) TP_CTRL_END \<or> code = ctrl_code (d_sym d) TP_CTRL_END_VAL then
         sbind (if code = ctrl_code (d_sym d) TP_CTRL_END_VAL then on_reader tp_bs_read_varint_u else sret 0) (\<lambda>vi.
         sbind (\<lambda>(it, r).
             if tp_bs_reader_position r < e then
               sbind (on_reader (tp_bs_read_bits ?bps)) (\<lambda>bsym.
               if wrap32 (unat bsym) \<noteq> ctrl_code (d_sym d) TP_CTRL_BRANCH then sfail TP_ERR_CORRUPT
               else sbind (on_reader tp_bs_read_varint_u) (push_frame e)) (it, r)
             else (Ok (), it, r)) (\<lambda>_.
         if code = ctrl_code (d_sym d) TP_CTRL_END_VAL
         then sbind (on_iter (iter_value_at heap (unat vi))) (\<lambda>v. sret (Emitted v))
         else sret (Emitted tp_value_null)))
       else if code = ctrl_code (d_sym d) TP_CTRL_BRANCH then
         sbind (on_reader tp_bs_read_varint_u) (\<lambda>n. sbind (push_frame e n) (\<lambda>_. sret Branched))
       else if is_ctrl (d_sym d) code then sfail TP_ERR_CORRUPT
       else sbind (on_iter (iter_push_key heap (if code < 256 then s_reverse_map (d_sym d) ! code else 0))) (\<lambda>_.
         walk_down fuel heap (d_sym d) e))) s" (is "runs _ _ _ (sbind _ ?k) _")
  proof (rule runs_sbind)
    fix raw s' assume s': "waiting (fst s') = ws \<and> 8 * d_len d - r_pos (snd s') < fuel" and st: "st_ok heap d s'"
    have sret_w: "runs heap d (stack_is ws) (sret v) s'" for v :: u64 using s' st by (simp add: runs_def)
    have rd: "runs heap d (stack_is ws) (on_reader tp_bs_read_varint_u) s'"
      using s' st by (intro runs_reader) (simp_all add: rsafe_read_varint(1))
    show "runs heap d (walked ws) (?k raw) s'"
      unfolding Let_def
    proof (intro runs_if)
      show "runs heap d (walked ws) (sfail TP_ERR_CORRUPT) s'" using st by (rule runs_sfail)
    next
      show "runs heap d (walked ws) (sbind (on_reader tp_bs_read_varint_u) (\<lambda>n. sbind (push_frame e n) (\<lambda>_. sret Branched))) s'"
        by (intro runs_sbind[OF rd] runs_sbind[OF push_frame_runs] runs_sret) (auto simp: walked_def pushed_def)
    next
      let ?b = "if wrap32 (unat raw) < 256 then s_reverse_map (d_sym d) ! wrap32 (unat raw) else 0"
      show "runs heap d (walked ws) (sbind (on_iter (iter_push_key heap ?b)) (\<lambda>_. walk_down fuel heap (d_sym d) e)) s'"
        using s' st Suc.IH by (intro runs_sbind[OF push_key_runs]) auto
    next
      show "runs heap d (walked ws) (sbind (if c then on_reader tp_bs_read_varint_u else sret 0) (\<lambda>vi.
          sbind (\<lambda>(it, r).
             if tp_bs_reader_position r < e then
               sbind (on_reader (tp_bs_read_bits ?bps)) (\<lambda>bsym.
               if wrap32 (unat bsym) \<noteq> ctrl_code (d_sym d) TP_CTRL_BRANCH then sfail TP_ERR_CORRUPT
               else sbind (on_reader tp_bs_read_varint_u) (push_frame e)) (it, r)
             else (Ok (), it, r)) (\<lambda>_.
          if c then sbind (on_iter (iter_value_at heap (unat vi))) (\<lambda>v. sret (Emitted v))
          else sret (Emitted tp_value_null)))) s'" for c
        by (intro runs_sbind[where P = "stack_is ws"] runs_if rd sret_w runs_after_terminal)
    qed
  qed
  then show ?case using Suc.prems(1,2) by (auto simp: s runs_def walked_def)
qed simp

section \<open>Moving to the next sibling\<close>

definition stack_weight :: "tp_iter_frame list \<Rightarrow> nat" where
  "stack_weight fs = (\<Sum>i < length fs. f_remaining (fs ! i) * 4294967296 ^ (TP_ITER_MAX_DEPTH - 1 - i))"

lemma stack_weight_snoc: "stack_weight (fs @ [f]) = stack_weight fs + f_remaining f * 4294967296 ^ (TP_ITER_MAX_DEPTH - 1 - length fs)"
  by (simp add: stack_weight_def nth_append)

lemma stack_weight_take: "stack_weight (take n fs) \<le> stack_weight fs"
proof (induction fs rule: rev_induct)
  case (snoc f fs)
  then show ?case by (cases "n \<le> length fs") (auto simp: stack_weight_snoc)
qed simp

lemma rounds_left_stack_weight: "it_ok heap it \<Longrightarrow> rounds_left it = stack_weight (waiting it)"
  by (auto simp: rounds_left_def stack_weight_def waiting_def it_ok_def intro!: sum.cong)

lemma stack_weight_push:
  assumes "f_remaining g < 4294967296" and "length (us @ [f]) < TP_ITER_MAX_DEPTH"
  shows "stack_weight ((us @ [f]) @ [g]) < stack_weight (us @ [f]) + 4294967296 ^ (TP_ITER_MAX_DEPTH - 1 - length us)"
proof -
  have "TP_ITER_MAX_DEPTH - 1 - length us = Suc (TP_ITER_MAX_DEPTH - 1 - length (us @ [f]))"
    using assms(2) by (simp add: TP_ITER_MAX_DEPTH_def)
  then show ?thesis using assms(1) by (simp only: stack_weight_snoc[of "us @ [f]"] power_Suc) simp
qed

lemma unwind_le: "unwind stack n \<le> n"
  by (induction n) auto

lemma unwind_top: "unwind stack n = Suc m \<Longrightarrow> f_remaining (stack ! m) \<noteq> 0"
  by (induction n) (auto split: if_splits)

definition consumed :: "tp_iter_frame list \<Rightarrow> 'a \<Rightarrow> tp_iterator \<times> tp_bitstream_reader \<Rightarrow> bool" where
  "consumed ws a s \<longleftrightarrow> (\<exists>us f. waiting (fst s) = us @ [f] \<and> length us < TP_ITER_MAX_DEPTH \<and>
     stack_weight (us @ [f]) + 4294967296 ^ (TP_ITER_MAX_DEPTH - 1 - length us) \<le> stack_weight ws)"

text \<open>Taking a child off the top frame.\<close>

lemma take_child:
  assumes ok: "it_ok heap it" and top: "it_stack_top it = int m" and f: "it_stack it ! m = f" "f_remaining f \<noteq> 0"
    and f': "f_remaining f' = f_remaining f - 1" "f_key_prefix_len f' = f_key_prefix_len f"
    and it': "it' = it\<lparr>it_pos := p, it_stack := (it_stack it)[m := f']\<rparr>"
  shows "it_ok heap it'" and "consumed (waiting it) a (it', r)"
proof -
  have m: "m < TP_ITER_MAX_DEPTH" "length (it_stack it) = TP_ITER_MAX_DEPTH" "nat (it_stack_top it + 1) = Suc m"
    using ok top by (auto simp: it_ok_def)
  have old: "waiting it = take m (it_stack it) @ [f]" using m f by (simp add: waiting_def take_Suc_conv_app_nth)
  have new: "waiting it' = take m (it_stack it) @ [f']" using m by (simp add: waiting_def it' take_Suc_conv_app_nth)
  have "f_key_prefix_len (it_stack it' ! i) \<le> it_key_buf_cap it' \<and> f_remaining (it_stack it' ! i) < 4294967296"
    if "i < Suc m" for i
    using that ok f f' m by (cases "i = m") (auto simp: it_ok_def it')
  then show "it_ok heap it'" using ok m by (simp add: it_ok_def it')
  have "f_remaining f' * k + k \<le> f_remaining f * k" for k
    using f(2) f'(1) by (cases "f_remaining f") simp_all
  then show "consumed (waiting it) a (it', r)" unfolding consumed_def
    using m by (intro exI[of _ "take m (it_stack it)"] exI[of _ f']) (simp add: new old stack_weight_snoc)
qed

lemma next_sibling_runs:
  assumes st: "st_ok heap d s" and ws: "waiting (fst s) = ws"
  shows "runs heap d (consumed ws) (next_sibling si) s"
proof -
  obtain it r where s: "s = (it, r)" by force
  have ok: "it_ok heap it" using st s by (simp add: st_ok_def)
  define n where "n = unwind (it_stack it) (nat (it_stack_top it + 1))"
  have n: "n \<le> nat (it_stack_top it + 1)" unfolding n_def by (rule unwind_le)
  let ?it = "it\<lparr>it_stack_top := int n - 1\<rparr>"
  have ok1: "it_ok heap ?it" using ok n by (auto simp: it_ok_def)
  show ?thesis
  proof (cases n)
    case 0
    then show ?thesis using st ok1 n_def by (simp add: s next_sibling_def Let_def runs_def st_ok_def)
  next
    case (Suc m)
    define f where "f = it_stack it ! m"
    let ?it2 = "?it\<lparr>it_key_len := f_key_prefix_len f\<rparr>"
    have rem: "f_remaining f \<noteq> 0" using unwind_top[of "it_stack it" _ m] Suc n_def f_def by metis
    have ok2: "it_ok heap ?it2" using ok1 Suc n by (auto simp: it_ok_def f_def)
    have "waiting ?it2 = take n (waiting it)" using n by (simp add: waiting_def min_absorb1)
    then have wle: "stack_weight (waiting ?it2) \<le> stack_weight ws" using ws stack_weight_take[of n "waiting it"] by (simp add: s)
    have tc: "it_ok heap it' \<and> consumed ws a (it', r')"
      if "it' = ?it2\<lparr>it_pos := p, it_stack := (it_stack it)[m := f']\<rparr>" "f_remaining f' = f_remaining f - 1"
        "f_key_prefix_len f' = f_key_prefix_len f" for it' f' p and a :: nat and r'
    proof -
      have t: "it_stack_top ?it2 = int m" "it_stack ?it2 ! m = f" using Suc by (simp_all add: f_def)
      have e: "it' = ?it2\<lparr>it_pos := p, it_stack := (it_stack ?it2)[m := f']\<rparr>" using that(1) by simp
      note tc = take_child[OF ok2 t rem that(2,3) e]
      have "consumed (waiting ?it2) a (it', r')" by (rule tc(2))
      then show ?thesis using tc(1) order_trans[OF _ wle] by (auto simp: consumed_def)
    qed
    let ?P = "\<lambda>_ s. fst s = ?it2"
    have st2: "st_ok heap d (?it2, r)" using st ok2 by (simp add: s st_ok_def)
    have dict: "it_dict it = d" using st by (simp add: s st_ok_def)
    let ?put = "\<lambda>f it. it\<lparr>it_stack := (it_stack it)[m := f]\<rparr>"
    have "runs heap d (consumed ws) (sbind (on_reader (tp_bs_reader_seek (f_next_child_pos f))) (\<lambda>_.
          if f_remaining f > 1 then
            sbind (on_reader (tp_bs_read_bits (s_bits_per_symbol si))) (\<lambda>skip_sym.
            if wrap32 (unat skip_sym) \<noteq> ctrl_code si TP_CTRL_SKIP then sfail TP_ERR_CORRUPT
            else
              sbind (on_reader tp_bs_read_varint_u) (\<lambda>dist (it, r).
              let pos = tp_bs_reader_position r; end' = wrap64 (pos + unat dist) in
              (Ok end', ?put (f\<lparr>f_next_child_pos := end', f_remaining := f_remaining f - 1\<rparr>) (it\<lparr>it_pos := pos\<rparr>), r)))
          else (\<lambda>(it, r).
            (Ok (f_subtree_end f), ?put (f\<lparr>f_remaining := f_remaining f - 1\<rparr>) (it\<lparr>it_pos := f_next_child_pos f\<rparr>), r)))) (?it2, r)"
      (is "runs _ _ _ ?body _")
    proof (intro runs_sbind[where P = ?P] runs_if runs_reader runs_sfail)
      fix a :: unit and s' assume s': "fst s' = ?it2" "st_ok heap d s'" and r1: "\<not> f_remaining f > 1"
      obtain r' where r': "s' = (?it2, r')" using s'(1) by (cases s') simp
      show "runs heap d (consumed ws) (\<lambda>(it, r).
            (Ok (f_subtree_end f), ?put (f\<lparr>f_remaining := f_remaining f - 1\<rparr>) (it\<lparr>it_pos := f_next_child_pos f\<rparr>), r)) s'"
        using s'(2) tc[OF refl, of "f\<lparr>f_remaining := f_remaining f - 1\<rparr>" "f_next_child_pos f" "f_subtree_end f" r'] dict
        by (simp add: runs_def r' st_ok_def)
    next
      fix dist :: u64 and s' assume s': "fst s' = ?it2" "st_ok heap d s'"
      obtain r' where r': "s' = (?it2, r')" using s'(1) by (cases s') simp
      let ?e = "wrap64 (tp_bs_reader_position r' + unat dist)"
      show "runs heap d (consumed ws) ((\<lambda>(it, r). let pos = tp_bs_reader_position r; end' = wrap64 (pos + unat dist) in
              (Ok end', ?put (f\<lparr>f_next_child_pos := end', f_remaining := f_remaining f - 1\<rparr>) (it\<lparr>it_pos := pos\<rparr>), r))) s'"
        using s'(2) tc[OF refl, of "f\<lparr>f_next_child_pos := ?e, f_remaining := f_remaining f - 1\<rparr>" "tp_bs_reader_position r'" ?e r'] dict
        by (simp add: runs_def r' st_ok_def Let_def)
    qed (use st2 in \<open>simp_all add: rsafe_cursor(1) rsafe_read_bits rsafe_read_varint(1)\<close>)
    moreover have "next_sibling si (it, r) = ?body (?it2, r)"
      using Suc unfolding f_def by (simp add: next_sibling_def Let_def n_def[symmetric])
    ultimately show ?thesis by (simp add: s runs_def)
  qed
qed

section \<open>The outer loop\<close>

lemma runs_descend:
  assumes d: "dict_ok d" and st: "st_ok heap d s" and ws: "waiting (fst s) = ws"
    and fuel: "8 * d_len d < fuel"
    and more: "\<And>s'. st_ok heap d s' \<Longrightarrow> waiting (fst s') = ws \<or> pushed ws () s' \<Longrightarrow>
      runs heap d (\<lambda>_ _. True) (iter_loop rounds fuel heap (d_sym d) None) s'"
  shows "runs heap d (\<lambda>_ _. True) (sbind (\<lambda>(it, r). on_reader (tp_bs_reader_seek (it_pos it)) (it, r)) (\<lambda>_.
     sbind (walk_down fuel heap (d_sym d) e) (\<lambda>we.
     case we of
       Emitted v \<Rightarrow> sret v
     | Branched \<Rightarrow> iter_loop rounds fuel heap (d_sym d) None
     | Subtree_end \<Rightarrow> iter_loop rounds fuel heap (d_sym d) None))) s"
proof (rule runs_sbind)
  show "runs heap d (stack_is ws) (\<lambda>(it, r). on_reader (tp_bs_reader_seek (it_pos it)) (it, r)) s"
    using runs_reader[OF st rsafe_cursor(1), where Q = "stack_is ws"] ws by (cases s) (simp add: runs_def)
  fix u s' assume s': "waiting (fst s') = ws" "st_ok heap d s'"
  show "runs heap d (\<lambda>_ _. True) (sbind (walk_down fuel heap (d_sym d) e) (\<lambda>we.
     case we of
       Emitted v \<Rightarrow> sret v
     | Branched \<Rightarrow> iter_loop rounds fuel heap (d_sym d) None
     | Subtree_end \<Rightarrow> iter_loop rounds fuel heap (d_sym d) None)) s'"
  proof (rule runs_sbind[OF walk_down_runs[OF d s'(2,1)]])
    fix we s2 assume "walked ws we s2" and st2: "st_ok heap d s2"
    then have "waiting (fst s2) = ws \<or> pushed ws () s2" by (simp add: walked_def pushed_def)
    then show "runs heap d (\<lambda>_ _. True) (case we of
       Emitted v \<Rightarrow> sret v
     | Branched \<Rightarrow> iter_loop rounds fuel heap (d_sym d) None
     | Subtree_end \<Rightarrow> iter_loop rounds fuel heap (d_sym d) None) s2"
      using more[OF st2] st2 by (cases we) (simp_all add: runs_def)
  qed (use fuel in simp)
qed

lemma iter_loop_runs:
  assumes d: "dict_ok d" and fuel: "8 * d_len d < fuel"
  shows "st_ok heap d s \<Longrightarrow> stack_weight (waiting (fst s)) < rounds \<Longrightarrow>
    runs heap d (\<lambda>_ _. True) (iter_loop rounds fuel heap (d_sym d) None) s"
proof (induction rounds arbitrary: s)
  case (Suc rounds)
  let ?ws = "waiting (fst s)"
  show ?case unfolding iter_loop.simps option.case
  proof (rule runs_sbind[OF next_sibling_runs[OF Suc.prems(1) refl]])
    fix e :: nat and s1 assume c: "consumed ?ws e s1" and st1: "st_ok heap d s1"
    then obtain us f where us: "waiting (fst s1) = us @ [f]" "length us < TP_ITER_MAX_DEPTH"
      "stack_weight (us @ [f]) + 4294967296 ^ (TP_ITER_MAX_DEPTH - 1 - length us) \<le> stack_weight ?ws"
      by (auto simp: consumed_def)
    have pos: "(0::nat) < 4294967296 ^ (TP_ITER_MAX_DEPTH - 1 - length us)" by simp
    show "runs heap d (\<lambda>_ _. True) (sbind (\<lambda>(it, r). on_reader (tp_bs_reader_seek (it_pos it)) (it, r)) (\<lambda>_.
       sbind (walk_down fuel heap (d_sym d) e) (\<lambda>we.
       case we of
         Emitted v \<Rightarrow> sret v
       | Branched \<Rightarrow> iter_loop rounds fuel heap (d_sym d) None
       | Subtree_end \<Rightarrow> iter_loop rounds fuel heap (d_sym d) None))) s1"
    proof (rule runs_descend[OF d st1 us(1) fuel], rule Suc.IH)
      fix s2 assume "waiting (fst s2) = us @ [f] \<or> pushed (us @ [f]) () s2"
      then have "stack_weight (waiting (fst s2)) < stack_weight ?ws"
      proof
        assume "waiting (fst s2) = us @ [f]"
        then show ?thesis using us(3) by (simp add: less_le_trans[OF less_add_same_cancel1[THEN iffD2, OF pos]])
      next
        assume "pushed (us @ [f]) () s2"
        then obtain g where g: "waiting (fst s2) = (us @ [f]) @ [g]" "f_remaining g < 4294967296"
          "length (us @ [f]) < TP_ITER_MAX_DEPTH" unfolding pushed_def by blast
        show ?thesis using stack_weight_push[OF g(2,3)] us(3) unfolding g(1) by linarith
      qed
      then show "stack_weight (waiting (fst s2)) < rounds" using Suc.prems(2) by simp
    qed
  qed
qed simp

lemma iter_loop_descending_runs:
  assumes d: "dict_ok d" and fuel: "8 * d_len d < fuel" and st: "st_ok heap d s"
    and rounds: "stack_weight (waiting (fst s)) + 4294967296 ^ TP_ITER_MAX_DEPTH < rounds"
  shows "runs heap d (\<lambda>_ _. True) (iter_loop (Suc rounds) fuel heap (d_sym d) (Some e)) s"
  unfolding iter_loop.simps option.case sbind_sret
proof (rule runs_descend[OF d st refl fuel], rule iter_loop_runs[OF d fuel])
  fix s2 assume "waiting (fst s2) = waiting (fst s) \<or> pushed (waiting (fst s)) () s2"
  then show "stack_weight (waiting (fst s2)) < rounds"
  proof
    assume "pushed (waiting (fst s)) () s2"
    then obtain f where f: "waiting (fst s2) = waiting (fst s) @ [f]" "f_remaining f < 4294967296"
      by (auto simp: pushed_def)
    have "(4294967296 :: nat) ^ (TP_ITER_MAX_DEPTH - 1 - length (waiting (fst s))) \<le> 4294967296 ^ (TP_ITER_MAX_DEPTH - 1)"
      by (rule power_increasing) simp_all
    with f(2) have "f_remaining f * 4294967296 ^ (TP_ITER_MAX_DEPTH - 1 - length (waiting (fst s)))
        \<le> 4294967296 * 4294967296 ^ (TP_ITER_MAX_DEPTH - 1)" by (intro mult_mono) simp_all
    also have "\<dots> = 4294967296 ^ TP_ITER_MAX_DEPTH"
      by (simp only: TP_ITER_MAX_DEPTH_def power_Suc[symmetric]) simp
    finally show ?thesis using rounds f(1) by (simp add: stack_weight_snoc)
  qed (use rounds in simp)
qed

section \<open>A step of the iteration\<close>

lemma iter_next_safe:
  assumes ok: "it_ok heap it"
  shows "safe (fst (tp_iter_next heap it)) \<and> it_ok heap (snd (tp_iter_next heap it)) \<and>
    it_dict (snd (tp_iter_next heap it)) = it_dict it"
proof -
  let ?d = "it_dict it"
  have d: "dict_ok ?d" using ok by (simp add: it_ok_def)
  show ?thesis
  proof (cases "it_done it \<or> di_num_keys (d_info ?d) = 0")
    case True
    then show ?thesis using ok by (auto simp: tp_iter_next_def it_ok_def)
  next
    case live: False
    show ?thesis
    proof (cases "tp_bs_reader_create heap (d_buf ?d) (wrap64 (d_len ?d * 8))")
      case (Ok r)
      obtain bs where bs: "d_buf ?d = Some bs" "reader_ok r" "r_bit_len r = 8 * d_len ?d" "r_bytes r = bs"
        by (rule dict_reader[OF d Ok])
      define start where "start = (if \<not> it_started it then
                 (it\<lparr>it_started := True, it_pos := it_root_pos it, it_key_len := it_root_key_len it\<rparr>,
                  Some (it_root_end it))
               else (it, None))"
      obtain it1 desc where it1: "start = (it1, desc)" by force
      have st: "st_ok heap ?d (it1, r)" and dict: "it_dict it1 = ?d"
        using ok it1 bs by (auto simp: start_def st_ok_def it_ok_def r_buf_bytes split: if_splits)
      have "rounds_left it1 = stack_weight (waiting it1)" using st by (intro rounds_left_stack_weight[of heap]) (simp add: st_ok_def)
      then have w: "iter_fuel it1 = Suc (stack_weight (waiting it1) + 4294967296 ^ TP_ITER_MAX_DEPTH + 1)"
        by (simp add: iter_fuel_def)
      have "runs heap ?d (\<lambda>_ _. True) (iter_loop (iter_fuel it1) (d_len ?d * 8 + 2) heap (d_sym ?d) desc) (it1, r)"
      proof (cases desc)
        case None
        show ?thesis unfolding w None by (rule iter_loop_runs[OF d _ st]) simp_all
      next
        case (Some e)
        show ?thesis unfolding w Some by (rule iter_loop_descending_runs[OF d _ st]) simp_all
      qed
      then obtain x it2 r2 where "iter_loop (iter_fuel it1) (d_len ?d * 8 + 2) heap (d_sym ?d) desc (it1, r) = (x, it2, r2)"
        and x: "safe x" "it_ok heap it2" "it_dict it2 = ?d"
        by (auto simp: runs_def st_ok_def) (metis prod.collapse)
      then have "tp_iter_next heap it = (case x of
            Ok v \<Rightarrow> (Ok (take (it_key_len it2) (it_key_buf it2), it_key_len it2, v), it2)
          | Err e \<Rightarrow> (Err e, it2\<lparr>it_done := True\<rparr>)
          | Fault \<Rightarrow> (Fault, it2) | Diverge \<Rightarrow> (Diverge, it2))"
        using live it1 by (auto simp: tp_iter_next_def Let_def Ok start_def split: res.splits)
      moreover have "it_ok heap (it2\<lparr>it_done := True\<rparr>)" using x(2) by (simp add: it_ok_def)
      ultimately show ?thesis using x by (cases x) simp_all
    qed (use ok live in \<open>auto simp: tp_iter_next_def tp_bs_reader_create_def split: if_splits\<close>)
  qed
qed

lemma iterate_ok:
  assumes "dict_ok d" and "heap \<le> 1152921504606846976"
  shows "if heap < SIZEOF_ITERATOR then tp_dict_iterate heap d = Err TP_ERR_ALLOC
    else \<exists>it. tp_dict_iterate heap d = Ok it \<and> it_ok heap it \<and> it_dict it = d"
  using assms
  by (simp add: tp_dict_iterate_def SIZEOF_ITERATOR_def KEY_BUF_INITIAL_def it_ok_def tp_iter_reset_def)

lemma iter_reset_ok: "it_ok heap it \<Longrightarrow> it_ok heap (tp_iter_reset it) \<and> it_dict (tp_iter_reset it) = it_dict it"
  by (simp add: tp_iter_reset_def it_ok_def)

lemma iteration_safe:
  assumes d: "dict_ok d" and h: "heap \<le> 1152921504606846976" and it: "tp_dict_iterate heap d = Ok it"
  shows "safe (fst (tp_iter_next heap (((\<lambda>it. snd (tp_iter_next heap it)) ^^ n) it))) \<and>
    it_ok heap (((\<lambda>it. snd (tp_iter_next heap it)) ^^ n) it)"
proof (induction n)
  case 0
  have "it_ok heap it" using iterate_ok[OF d h] it by (auto split: if_splits)
  then show ?case using iter_next_safe by simp
next
  case (Suc n)
  then show ?case using iter_next_safe[of heap] by simp
qed

end
