(* ===== verification/Prefix.thy ===== *)
theory Prefix
  imports Iterator
begin

text \<open>
  Prefix search: \<open>descend_to_prefix\<close> and \<open>tp_dict_find_prefix\<close> of \<open>src/core/decoder.c\<close>, and the
  unsupported fuzzy search. The descent keeps \<open>pos\<close>, \<open>end\<close> and the number of matched bytes between
  iterations and seeks the reader anew in each, so these three are its whole state: \<open>prefix_fuel\<close>
  is the number of states, and a run that uses it up has repeated one, so it never returns.
\<close>

text \<open>The search for the child that starts with the wanted code, with \<open>n\<close> children to go: its start
  and end. \<open>preamble\<close> is where the child is introduced.\<close>

fun prefix_child :: "nat \<Rightarrow> ptr \<Rightarrow> tp_symbol_info \<Rightarrow> nat \<Rightarrow> nat \<Rightarrow> nat \<Rightarrow> (nat \<times> nat) option reading" where
  "prefix_child 0 buf si want end' child_preamble = sret None"
| "prefix_child (Suc n) buf si want end' child_preamble =
     sbind (tp_bs_reader_seek child_preamble) (\<lambda>_.
     sbind (if n > 0 then
              sbind (tp_bs_read_bits (s_bits_per_symbol si)) (\<lambda>skip_sym.
              if wrap32 (unat skip_sym) \<noteq> ctrl_code si TP_CTRL_SKIP then sfail TP_ERR_CORRUPT
              else
                sbind tp_bs_read_varint_u (\<lambda>dist r.
                let child_start = tp_bs_reader_position r; child_end = wrap64 (child_start + unat dist) in
                (Ok (child_start, child_end, child_end), r)))
            else sret (child_preamble, end', child_preamble)) (\<lambda>(child_start, child_end, child_preamble).
     sbind (slift (tp_bs_read_bits_at buf child_start (s_bits_per_symbol si))) (\<lambda>first.
     if wrap32 (unat first) = want then sret (Some (child_start, child_end))
     else prefix_child n buf si want end' child_preamble)))"

text \<open>What an iteration finds at \<open>pos\<close>: a literal or a BRANCH.\<close>

datatype prefix_symbol = Literal u8 | At_branch

definition prefix_symbol_at :: "tp_symbol_info \<Rightarrow> nat \<Rightarrow> prefix_symbol reading" where
  "prefix_symbol_at si end' =
     sbind (tp_bs_read_bits (s_bits_per_symbol si)) (\<lambda>raw.
     let code = wrap32 (unat raw) in
     if code = ctrl_code si TP_CTRL_END \<or> code = ctrl_code si TP_CTRL_END_VAL then
       sbind (if code = ctrl_code si TP_CTRL_END_VAL then tp_bs_read_varint_u else sret 0) (\<lambda>vi r.
       if tp_bs_reader_position r \<ge> end' then (Err TP_ERR_NOT_FOUND, r)
       else
         sbind (tp_bs_read_bits (s_bits_per_symbol si)) (\<lambda>raw.
         if wrap32 (unat raw) \<noteq> ctrl_code si TP_CTRL_BRANCH then sfail TP_ERR_CORRUPT
         else sret At_branch) r)
     else if code = ctrl_code si TP_CTRL_BRANCH then sret At_branch
     else if is_ctrl si code then sfail TP_ERR_CORRUPT
     else sret (Literal (if code < 256 then s_reverse_map si ! code else 0)))"

fun descend_loop ::
  "nat \<Rightarrow> ptr \<Rightarrow> tp_symbol_info \<Rightarrow> u8 list \<Rightarrow> nat \<Rightarrow> nat \<Rightarrow> nat \<Rightarrow> nat \<Rightarrow> (nat \<times> nat) reading" where
  "descend_loop 0 buf si prefix prefix_len pos end' matched = slift Diverge"
| "descend_loop (Suc fuel) buf si prefix prefix_len pos end' matched =
     (if matched = prefix_len then sret (pos, end')
      else if pos \<ge> end' then sfail TP_ERR_NOT_FOUND
      else
        sbind (tp_bs_reader_seek pos) (\<lambda>_.
        sbind (prefix_symbol_at si end') (\<lambda>sy.
        sbind (slift (load prefix matched)) (\<lambda>c.
        case sy of
          Literal byte \<Rightarrow>
            if byte \<noteq> c then sfail TP_ERR_NOT_FOUND
            else (\<lambda>r. descend_loop fuel buf si prefix prefix_len (tp_bs_reader_position r) end' (matched + 1) r)
        | At_branch \<Rightarrow>
            sbind tp_bs_read_varint_u (\<lambda>nchildren r.
            sbind (prefix_child (unat nchildren) buf si (symbol_code si c) end' (tp_bs_reader_position r)) (\<lambda>child.
            case child of
              None \<Rightarrow> sfail TP_ERR_NOT_FOUND
            | Some (child_start, child_end) \<Rightarrow>
                descend_loop fuel buf si prefix prefix_len child_start child_end matched) r)))))"

definition prefix_fuel :: "nat \<Rightarrow> nat" where
  "prefix_fuel prefix_len = 18446744073709551616 * 18446744073709551616 * (prefix_len + 1) + 1"

definition descend_to_prefix :: "nat \<Rightarrow> tp_dict \<Rightarrow> u8 list \<Rightarrow> nat \<Rightarrow> (nat \<times> nat) tp" where
  "descend_to_prefix heap dict prefix prefix_len =
     rbind (tp_bs_reader_create heap (d_buf dict) (wrap64 (d_len dict * 8))) (\<lambda>r.
     fst (descend_loop (prefix_fuel prefix_len) (d_buf dict) (d_sym dict) prefix prefix_len
            (d_trie_start dict) (d_value_start dict) 0 r))"

text \<open>\<open>memcpy(it->key_buf, prefix, prefix_len)\<close> and the new root.\<close>

definition seed_iterator :: "u8 list \<Rightarrow> nat \<Rightarrow> nat \<Rightarrow> nat \<Rightarrow> unit iterating" where
  "seed_iterator prefix prefix_len sub_pos sub_end it =
     (if length prefix < prefix_len \<or> length (it_key_buf it) < prefix_len then (Fault, it)
      else (Ok (), tp_iter_reset (it\<lparr>it_key_buf := take prefix_len prefix @ drop prefix_len (it_key_buf it),
              it_root_pos := sub_pos, it_root_end := sub_end, it_root_key_len := prefix_len\<rparr>)))"

definition tp_dict_find_prefix :: "nat \<Rightarrow> tp_dict \<Rightarrow> ptr \<Rightarrow> tp_iterator tp" where
  "tp_dict_find_prefix heap dict prefix =
     (case prefix of
        None \<Rightarrow> Err TP_ERR_INVALID_PARAM
      | Some pb \<Rightarrow>
          rbind (tp_dict_iterate heap dict) (\<lambda>it.
          case strlen pb of
            None \<Rightarrow> Fault
          | Some prefix_len \<Rightarrow>
              if prefix_len = 0 \<or> di_num_keys (d_info dict) = 0 then Ok it
              else
                case descend_to_prefix heap dict pb prefix_len of
                  Err e \<Rightarrow> if e = TP_ERR_NOT_FOUND then Ok (it\<lparr>it_done := True\<rparr>) else Err e
                | Fault \<Rightarrow> Fault
                | Diverge \<Rightarrow> Diverge
                | Ok (sub_pos, sub_end) \<Rightarrow>
                    (case iter_key_reserve heap prefix_len it of
                       (Ok _, it) \<Rightarrow>
                         (case seed_iterator pb prefix_len sub_pos sub_end it of
                            (Ok _, it) \<Rightarrow> Ok it
                          | (Err e, _) \<Rightarrow> Err e | (Fault, _) \<Rightarrow> Fault | (Diverge, _) \<Rightarrow> Diverge)
                     | (Err _, _) \<Rightarrow> Err TP_ERR_ALLOC | (Fault, _) \<Rightarrow> Fault | (Diverge, _) \<Rightarrow> Diverge)))"

definition tp_dict_find_fuzzy :: "tp_dict \<Rightarrow> ptr \<Rightarrow> u8 \<Rightarrow> tp_iterator tp" where
  "tp_dict_find_fuzzy dict query max_dist =
     (case query of None \<Rightarrow> Err TP_ERR_INVALID_PARAM | Some _ \<Rightarrow> Err TP_ERR_UNSUPPORTED)"

end
