(* ===== verification/Samples.thy ===== *)
theory Samples
  imports Client Iterator_Safe Prefix
begin

text \<open>
  Small concrete objects, with the facts that let a theorem of the library be applied to them: a
  fresh writer with a megabyte to grow into, and the dictionary built from \<open>sample_encoder\<close>.
\<close>

definition sample_writer :: tp_bitstream_writer where
  "sample_writer = \<lparr>w_buf = replicate 16 0, w_cap = 16, w_growth = 0, w_pos = 0\<rparr>"

lemma sample_writer_ok: "writer_ok 1000000 sample_writer"
  by (auto simp: writer_ok_def sample_writer_def bit_at_def less_mult_imp_div_less)

lemma sample_writer_pos: "w_pos sample_writer = 0"
  by (simp add: sample_writer_def)

lemma sample_room: "n \<le> 4000 \<Longrightarrow> room 1000000 sample_writer n"
proof -
  assume "n \<le> 4000"
  then have "(n + 7) div 8 \<le> 500000" by simp
  then show ?thesis by (simp add: room_def sample_writer_def)
qed

lemma sample_writes:
  assumes "writes 1000000 m sample_writer xs" and "length xs \<le> 4000"
  shows "\<exists>w'. m sample_writer = (Ok (), w')"
  using assms sample_room by (auto simp: writes_def)

lemma sample_reader_ok: "length bs \<le> 1000 \<Longrightarrow> reader_ok (bytes_reader bs 0)"
  by (simp add: reader_ok_def bytes_reader_def r_bytes_def)

lemma sample_opened:
  "\<exists>buf len enc2 d. tp_encoder_build insertion_sort 1000000 sample_encoder = (Ok (buf, len), enc2) \<and>
     tp_dict_open 1000000 (Some buf) len = Ok d \<and> len \<le> length buf \<and> length buf \<le> 1152921504606846976 \<and>
     opened enc2 True buf len d \<and> ready enc2 \<and> file_layout enc2 True buf len"
proof -
  obtain buf len enc2 where b: "tp_encoder_build insertion_sort 1000000 sample_encoder = (Ok (buf, len), enc2)"
    using sample_built by blast
  have "any_value sample_encoder" by (simp add: any_value_def sample_encoder_def has_value_def)
  moreover have e: "en_entries enc2 = en_entries (dedup_entries (sort_entries insertion_sort sample_encoder))"
    using build_open[OF insertion_sort_ok sample_buildable _ _ b, of False] by (auto simp: SIZEOF_DICT_def)
  have "en_entries (dedup_entries (sort_entries insertion_sort sample_encoder)) = en_entries sample_encoder"
    by (simp add: dedup_entries_def sort_entries_def sample_encoder_def Let_def)
  ultimately have hv: "any_value enc2" using e by (simp add: any_value_def)
  then show ?thesis
    using build_open[OF insertion_sort_ok sample_buildable _ _ b, of True] b
    by (auto simp: tp_dict_open_def file_layout_def SIZEOF_DICT_def)
qed

lemma sample_value: "storable (TP_STRING (Some [104, 105]) 2)"
  by (simp add: view_def)

lemma sample_decodes:
  "\<exists>w' x. tp_value_decode (Some bs) (reader_over w' 0) = (Ok x, reader_over w' (w_pos w')) \<and>
     reader_ok (reader_over w' 0) \<and> value_agree (TP_STRING (Some [104, 105]) 2) x"
proof -
  let ?v = "TP_STRING (Some [104, 105]) 2"
  have wr: "writes 1000000 (tp_value_encode 1000000 ?v) sample_writer (value_enc 0 ?v)"
    using value_writes[OF sample_value sample_writer_ok] by (simp add: sample_writer_def)
  moreover have "length (value_enc 0 ?v) \<le> 4000" using length_value_enc[OF sample_value, of 0] by (simp add: value_len_def)
  ultimately obtain w' where w': "tp_value_encode 1000000 ?v sample_writer = (Ok (), w')" using sample_writes by blast
  have a: "appended 1000000 sample_writer (value_enc 0 ?v) w'" using writes_OkD[OF wr w'] .
  have "reader_ok (reader_over w' 0)" using reader_over_ok[OF appended_ok[OF a], of 0] by simp
  then show ?thesis using valc.item_roundtrip[OF sample_value sample_writer_ok w', of bs]
    by (auto simp: sample_writer_def)
qed

end
