(* ===== verification/Symbol_Utf8.thy ===== *)
theory Symbol_Utf8
  imports Bit_Codec
begin

text \<open>
  Fixed-width symbols and UTF-8 code points: \<open>src/bitstream/bitstream_symbol.c\<close>. The writer emits
  the bytes of RFC 3629 (\<open>utf8_bytes\<close>), the reader gives the code point back; both reject
  surrogates, the reader also overlong forms.
\<close>

section \<open>The operations\<close>

definition tp_bs_read_symbol :: "nat \<Rightarrow> u32 reading" where
  "tp_bs_read_symbol bps r =
     (if bps = 0 \<or> bps > 32 then (Err TP_ERR_INVALID_PARAM, r)
      else sbind (tp_bs_read_bits bps) (\<lambda>val. sret (ucast val)) r)"

definition tp_bs_write_symbol :: "nat \<Rightarrow> u32 \<Rightarrow> nat \<Rightarrow> writing" where
  "tp_bs_write_symbol heap val bps w =
     (if bps = 0 \<or> bps > 32 then (Err TP_ERR_INVALID_PARAM, w)
      else tp_bs_write_bits heap (ucast val) bps w)"

fun utf8_cont_loop :: "nat \<Rightarrow> u32 \<Rightarrow> u32 reading" where
  "utf8_cont_loop 0 cp = sret cp"
| "utf8_cont_loop (Suc k) cp =
     sbind tp_bs_read_u8
       (\<lambda>b. if b AND 0xC0 \<noteq> 0x80 then sfail TP_ERR_INVALID_UTF8
            else utf8_cont_loop k (push_bit 6 cp OR ucast (b AND 0x3F)))"

text \<open>The checks after the loop: overlong forms, then surrogates.\<close>

definition utf8_check :: "nat \<Rightarrow> u32 \<Rightarrow> u32 reading" where
  "utf8_check cont cp =
     (if cont = 1 \<and> cp < 0x80 then sfail TP_ERR_INVALID_UTF8
      else if cont = 2 \<and> cp < 0x800 then sfail TP_ERR_INVALID_UTF8
      else if cont = 3 \<and> cp < 0x10000 then sfail TP_ERR_INVALID_UTF8
      else if cp \<ge> 0xD800 \<and> cp \<le> 0xDFFF then sfail TP_ERR_INVALID_UTF8
      else sret cp)"

definition tp_bs_read_utf8 :: "u32 reading" where
  "tp_bs_read_utf8 =
     sbind tp_bs_read_u8
       (\<lambda>first.
          if first AND 0x80 = 0 then sret (ucast first)
          else if first AND 0xE0 = 0xC0 then
            sbind (utf8_cont_loop 1 (ucast (first AND 0x1F))) (utf8_check 1)
          else if first AND 0xF0 = 0xE0 then
            sbind (utf8_cont_loop 2 (ucast (first AND 0x0F))) (utf8_check 2)
          else if first AND 0xF8 = 0xF0 then
            sbind (utf8_cont_loop 3 (ucast (first AND 0x07))) (utf8_check 3)
          else sfail TP_ERR_INVALID_UTF8)"

definition tp_bs_write_utf8 :: "nat \<Rightarrow> u32 \<Rightarrow> writing" where
  "tp_bs_write_utf8 heap cp w =
     (if cp \<ge> 0xD800 \<and> cp \<le> 0xDFFF then (Err TP_ERR_INVALID_UTF8, w)
      else if cp \<le> 0x7F then tp_bs_write_u8 heap (ucast cp) w
      else if cp \<le> 0x7FF then
        sbind (tp_bs_write_u8 heap (ucast (0xC0 OR drop_bit 6 cp)))
          (\<lambda>_. tp_bs_write_u8 heap (ucast (0x80 OR (cp AND 0x3F)))) w
      else if cp \<le> 0xFFFF then
        sbind (tp_bs_write_u8 heap (ucast (0xE0 OR drop_bit 12 cp)))
          (\<lambda>_. sbind (tp_bs_write_u8 heap (ucast (0x80 OR (drop_bit 6 cp AND 0x3F))))
            (\<lambda>_. tp_bs_write_u8 heap (ucast (0x80 OR (cp AND 0x3F))))) w
      else if cp \<le> 0x10FFFF then
        sbind (tp_bs_write_u8 heap (ucast (0xF0 OR drop_bit 18 cp)))
          (\<lambda>_. sbind (tp_bs_write_u8 heap (ucast (0x80 OR (drop_bit 12 cp AND 0x3F))))
            (\<lambda>_. sbind (tp_bs_write_u8 heap (ucast (0x80 OR (drop_bit 6 cp AND 0x3F))))
              (\<lambda>_. tp_bs_write_u8 heap (ucast (0x80 OR (cp AND 0x3F)))))) w
      else (Err TP_ERR_INVALID_UTF8, w))"

section \<open>The reference encoding\<close>

definition scalar_value :: "u32 \<Rightarrow> bool" where
  "scalar_value cp \<longleftrightarrow> cp \<le> 0x10FFFF \<and> \<not> (0xD800 \<le> cp \<and> cp \<le> 0xDFFF)"

text \<open>RFC 3629, in arithmetic: a lead byte and base-64 digits above 128.\<close>

definition utf8_bytes :: "nat \<Rightarrow> nat list" where
  "utf8_bytes n =
     (if n < 0x80 then [n]
      else if n < 0x800 then [192 + n div 64, 128 + n mod 64]
      else if n < 0x10000 then [224 + n div 4096, 128 + n div 64 mod 64, 128 + n mod 64]
      else [240 + n div 262144, 128 + n div 4096 mod 64, 128 + n div 64 mod 64, 128 + n mod 64])"

definition utf8_enc :: "u32 \<Rightarrow> bool list" where
  "utf8_enc cp = concat (map (\<lambda>k. nbits 8 (word_of_nat k :: u8)) (utf8_bytes (unat cp)))"

section \<open>Bytes as numbers\<close>

lemma or_plus:
  assumes "x < 2 ^ k" shows "push_bit k c OR x = push_bit k c + (x :: nat)"
proof (rule disjunctive_add_eq_or [symmetric])
  have "\<not> bit x n" if "k \<le> n" for n
    using assms that by (metis bit_take_bit_iff not_le take_bit_nat_eq_self)
  then show "push_bit k c AND x = 0"
    by (intro bit_eqI) (auto simp: bit_and_iff bit_push_bit_iff)
qed

lemma or_consts:
  "x < 64 \<Longrightarrow> 192 OR x = 192 + (x :: nat)" "x < 64 \<Longrightarrow> 128 OR x = 128 + (x :: nat)"
  "x < 32 \<Longrightarrow> 224 OR x = 224 + (x :: nat)" "x < 16 \<Longrightarrow> 240 OR x = 240 + (x :: nat)"
  using or_plus[of x 6 3] or_plus[of x 6 2] or_plus[of x 5 7] or_plus[of x 4 15]
  by (simp_all add: push_bit_eq_mult)

lemma unat_drop32: "unat (drop_bit k (x :: u32)) = unat x div 2 ^ k"
  by (metis drop_bit_eq_div take_bit_nat_eq_self unat_bound unsigned_drop_bit_eq)

lemma unat_and_63: "unat ((x :: u32) AND 0x3F) = unat x mod 64"
proof -
  have "x AND 0x3F = take_bit 6 x" using take_bit_eq_mask[of 6 x] by (simp add: mask_eq_exp_minus_1)
  then have "unat (x AND 0x3F) = take_bit 6 (unat x)" by (simp only: unsigned_take_bit_eq)
  then show ?thesis by (simp add: take_bit_eq_mod)
qed

lemma byte_eq: "unat (x :: u32) = n \<Longrightarrow> (ucast x :: u8) = word_of_nat n"
  by (simp add: word_unat_eq_iff unsigned_ucast_eq unsigned_of_nat)

text \<open>The bytes as the code computes them.\<close>

definition utf8_words :: "u32 \<Rightarrow> u8 list" where
  "utf8_words cp =
     (if cp \<le> 0x7F then [ucast cp]
      else if cp \<le> 0x7FF then [ucast (0xC0 OR drop_bit 6 cp), ucast (0x80 OR (cp AND 0x3F))]
      else if cp \<le> 0xFFFF then
        [ucast (0xE0 OR drop_bit 12 cp), ucast (0x80 OR (drop_bit 6 cp AND 0x3F)),
         ucast (0x80 OR (cp AND 0x3F))]
      else [ucast (0xF0 OR drop_bit 18 cp), ucast (0x80 OR (drop_bit 12 cp AND 0x3F)),
         ucast (0x80 OR (drop_bit 6 cp AND 0x3F)), ucast (0x80 OR (cp AND 0x3F))])"

lemma utf8_words_bytes:
  assumes "cp \<le> 0x10FFFF" shows "utf8_words cp = map word_of_nat (utf8_bytes (unat cp))"
proof -
  have u: "unat cp \<le> 0x10FFFF" using assms by (simp add: word_le_nat_alt)
  have cont: "(ucast (0x80 OR (drop_bit k cp AND 0x3F)) :: u8) = word_of_nat (128 + unat cp div 2 ^ k mod 64)"
    for k by (rule byte_eq) (simp add: unsigned_or_eq unat_and_63 unat_drop32 or_consts)
  have cont0: "(ucast (0x80 OR (cp AND 0x3F)) :: u8) = word_of_nat (128 + unat cp mod 64)"
    using cont[of 0] by simp
  have lead2: "(ucast (0xC0 OR drop_bit 6 cp) :: u8) = word_of_nat (192 + unat cp div 64)"
    if "unat cp < 2048" by (rule byte_eq) (use that in \<open>simp add: unsigned_or_eq unat_drop32 or_consts\<close>)
  have lead3: "(ucast (0xE0 OR drop_bit 12 cp) :: u8) = word_of_nat (224 + unat cp div 4096)"
    if "unat cp < 65536" by (rule byte_eq) (use that in \<open>simp add: unsigned_or_eq unat_drop32 or_consts\<close>)
  have lead4: "(ucast (0xF0 OR drop_bit 18 cp) :: u8) = word_of_nat (240 + unat cp div 262144)"
    by (rule byte_eq) (use u in \<open>simp add: unsigned_or_eq unat_drop32 or_consts\<close>)
  have lead1: "(ucast cp :: u8) = word_of_nat (unat cp)" by (rule byte_eq) simp
  consider "unat cp < 128" | "128 \<le> unat cp" "unat cp < 2048" | "2048 \<le> unat cp" "unat cp < 65536"
    | "65536 \<le> unat cp" by linarith
  then show ?thesis
    by cases (simp_all only: utf8_words_def utf8_bytes_def word_le_nat_alt unat_numeral cont0 lead1 lead2 lead3 lead4
       cont list.map, simp_all)
qed

section \<open>Writing\<close>

lemma utf8_writes:
  assumes v: "scalar_value cp" and ok: "writer_ok heap w"
  shows "writes heap (tp_bs_write_utf8 heap cp) w (utf8_enc cp)"
proof -
  have one: "writes heap (tp_bs_write_u8 heap b) w (nbits 8 b)" if "writer_ok heap w" for b w
    using u8c.wr_exact that by simp
  have sur: "\<not> (cp \<ge> 0xD800 \<and> cp \<le> 0xDFFF)" and le: "cp \<le> 0x10FFFF"
    using v by (simp_all add: scalar_value_def)
  have enc: "utf8_enc cp = concat (map (nbits 8) (utf8_words cp))"
    using v by (simp add: scalar_value_def utf8_enc_def utf8_words_bytes comp_def)
  consider "cp \<le> 0x7F" | "\<not> cp \<le> 0x7F" "cp \<le> 0x7FF" | "\<not> cp \<le> 0x7F" "\<not> cp \<le> 0x7FF" "cp \<le> 0xFFFF"
    | "\<not> cp \<le> 0x7F" "\<not> cp \<le> 0x7FF" "\<not> cp \<le> 0xFFFF" by blast
  then show ?thesis
  proof cases
    case 1
    show ?thesis
      by (rule writes_eq[of _ _ "tp_bs_write_u8 heap (ucast cp)"])
         (use 1 sur ok one in \<open>auto simp: tp_bs_write_utf8_def enc utf8_words_def\<close>)
  next
    case 2
    show ?thesis unfolding tp_bs_write_utf8_def[abs_def] if_not_P[OF sur] enc
      by (simp only: utf8_words_def 2 if_True if_False list.map concat.simps append_Nil2 writes_def)
         (fold writes_def, rule u8c.wr_then[OF TrueI ok one])
  next
    case 3
    show ?thesis unfolding tp_bs_write_utf8_def[abs_def] if_not_P[OF sur] enc
      by (simp only: utf8_words_def 3 if_True if_False list.map concat.simps append_Nil2 writes_def)
         (fold writes_def, intro u8c.wr_then[OF TrueI ok] u8c.wr_then one TrueI)
  next
    case 4
    show ?thesis unfolding tp_bs_write_utf8_def[abs_def] if_not_P[OF sur] enc
      by (simp only: utf8_words_def 4 le if_True if_False list.map concat.simps append_Nil2 writes_def)
         (fold writes_def, intro u8c.wr_then[OF TrueI ok] u8c.wr_then one TrueI)
  qed
qed

section \<open>Reading\<close>

lemma read_u8_word: "reader_ok r \<Longrightarrow> next_bits r (nbits 8 b) \<Longrightarrow> tp_bs_read_u8 r = (Ok b, adv 8 r)"
  using u8c.rd_exact[of r b] by simp

lemma u8_bits_eqI:
  assumes "bit a 0 = bit b 0" "bit a 1 = bit b 1" "bit a 2 = bit b 2" "bit a 3 = bit b 3"
    "bit a 4 = bit b 4" "bit a 5 = bit b 5" "bit a 6 = bit b 6" "bit a 7 = bit b 7"
  shows "a = (b :: u8)"
proof (rule bit_word_eqI)
  fix n assume "n < LENGTH(8)"
  then have "n = 0 \<or> n = 1 \<or> n = 2 \<or> n = 3 \<or> n = 4 \<or> n = 5 \<or> n = 6 \<or> n = 7" by auto
  then show "bit a n = bit b n" using assms by auto
qed

lemma low_masks:
  "x AND 0x3F = (take_bit 6 x :: 'a::len word)" "x AND 0x1F = (take_bit 5 x :: 'a::len word)"
  "x AND 0x0F = (take_bit 4 x :: 'a::len word)" "x AND 0x07 = (take_bit 3 x :: 'a::len word)"
  using take_bit_eq_mask[of 6 x] take_bit_eq_mask[of 5 x] take_bit_eq_mask[of 4 x] take_bit_eq_mask[of 3 x]
  by (simp_all add: mask_eq_exp_minus_1)

lemma lead_masks:
  fixes b :: u8
  shows "b AND 0x80 = 0 \<longleftrightarrow> \<not> bit b 7" "b AND 0xC0 = 0x80 \<longleftrightarrow> bit b 7 \<and> \<not> bit b 6"
    "b AND 0xE0 = 0xC0 \<longleftrightarrow> bit b 7 \<and> bit b 6 \<and> \<not> bit b 5"
    "b AND 0xF0 = 0xE0 \<longleftrightarrow> bit b 7 \<and> bit b 6 \<and> bit b 5 \<and> \<not> bit b 4"
    "b AND 0xF8 = 0xF0 \<longleftrightarrow> bit b 7 \<and> bit b 6 \<and> bit b 5 \<and> bit b 4 \<and> \<not> bit b 3"
proof -
  have eq: "a = c \<longleftrightarrow> (\<forall>n \<in> {0,1,2,3,4,5,6,7}. bit a n = bit c n)" for a c :: u8
    using u8_bits_eqI[of a c] by auto
  show "b AND 0x80 = 0 \<longleftrightarrow> \<not> bit b 7" "b AND 0xC0 = 0x80 \<longleftrightarrow> bit b 7 \<and> \<not> bit b 6"
    "b AND 0xE0 = 0xC0 \<longleftrightarrow> bit b 7 \<and> bit b 6 \<and> \<not> bit b 5"
    "b AND 0xF0 = 0xE0 \<longleftrightarrow> bit b 7 \<and> bit b 6 \<and> bit b 5 \<and> \<not> bit b 4"
    "b AND 0xF8 = 0xF0 \<longleftrightarrow> bit b 7 \<and> bit b 6 \<and> bit b 5 \<and> bit b 4 \<and> \<not> bit b 3"
    unfolding eq by (auto simp: bit_and_iff)
qed

text \<open>Bits of the emitted bytes.\<close>

lemma bit_byte_consts:
  "bit (ucast (0x80 OR y :: u32) :: u8) n \<longleftrightarrow> n < 8 \<and> (n = 7 \<or> bit y n)"
  "bit (ucast (0xC0 OR y :: u32) :: u8) n \<longleftrightarrow> n < 8 \<and> (n = 7 \<or> n = 6 \<or> bit y n)"
  "bit (ucast (0xE0 OR y :: u32) :: u8) n \<longleftrightarrow> n < 8 \<and> (n = 7 \<or> n = 6 \<or> n = 5 \<or> bit y n)"
  "bit (ucast (0xF0 OR y :: u32) :: u8) n \<longleftrightarrow> n < 8 \<and> (n = 7 \<or> n = 6 \<or> n = 5 \<or> n = 4 \<or> bit y n)"
proof -
  have n8: "n < 8 \<Longrightarrow> n = 0 \<or> n = 1 \<or> n = 2 \<or> n = 3 \<or> n = 4 \<or> n = 5 \<or> n = 6 \<or> n = 7" by auto
  show "bit (ucast (0x80 OR y :: u32) :: u8) n \<longleftrightarrow> n < 8 \<and> (n = 7 \<or> bit y n)"
    "bit (ucast (0xC0 OR y :: u32) :: u8) n \<longleftrightarrow> n < 8 \<and> (n = 7 \<or> n = 6 \<or> bit y n)"
    "bit (ucast (0xE0 OR y :: u32) :: u8) n \<longleftrightarrow> n < 8 \<and> (n = 7 \<or> n = 6 \<or> n = 5 \<or> bit y n)"
    "bit (ucast (0xF0 OR y :: u32) :: u8) n \<longleftrightarrow> n < 8 \<and> (n = 7 \<or> n = 6 \<or> n = 5 \<or> n = 4 \<or> bit y n)"
    by (cases "n < 8", drule n8, elim disjE, simp_all add: bit_ucast_iff bit_or_iff)+
qed

lemma bit_low_ucast: "k \<le> 8 \<Longrightarrow> bit (ucast (take_bit k (b :: u8)) :: u32) n \<longleftrightarrow> n < k \<and> bit b n"
  by (auto simp: bit_ucast_iff bit_take_bit_iff dest: bit_imp_le_length)

lemma cont_byte_read:
  fixes y :: u32
  defines "b \<equiv> (ucast (0x80 OR (y AND 0x3F)) :: u8)"
  shows "b AND 0xC0 = 0x80" and "ucast (b AND 0x3F) = y AND 0x3F"
proof -
  show "b AND 0xC0 = 0x80"
    unfolding b_def lead_masks low_masks by (simp add: bit_byte_consts bit_take_bit_iff)
  show "ucast (b AND 0x3F) = y AND 0x3F"
    unfolding b_def low_masks
    by (rule bit_word_eqI) (auto simp: bit_byte_consts bit_take_bit_iff bit_low_ucast)
qed

lemma high_bits_zero: "unat (x :: u32) < 2 ^ k \<Longrightarrow> k \<le> n \<Longrightarrow> \<not> bit x n"
  by (metis bit_take_bit_iff not_le take_bit_small)

lemma high_bit_less: "unat (x :: u32) < 2 ^ k \<Longrightarrow> bit x n \<Longrightarrow> n < k"
  using high_bits_zero not_le by blast

lemma digits_merge: "push_bit 6 (drop_bit (6 + k) y) OR (drop_bit k y AND 0x3F) = (drop_bit k y :: u32)"
proof (rule bit_word_eqI)
  fix n assume "n < LENGTH(32)"
  then show "bit (push_bit 6 (drop_bit (6 + k) y) OR (drop_bit k y AND 0x3F)) n = bit (drop_bit k y) n"
    unfolding low_masks by (cases "n < 6") (auto simp: bit_simps algebra_simps)
qed

text \<open>The continuation bytes of \<open>cp\<close> for its low \<open>k\<close> base-64 digits.\<close>

definition utf8_conts :: "nat \<Rightarrow> u32 \<Rightarrow> u8 list" where
  "utf8_conts k cp = map (\<lambda>j. ucast (0x80 OR (drop_bit (6 * j) cp AND 0x3F))) (rev [0..<k])"

lemma utf8_conts_Suc:
  "utf8_conts (Suc k) cp = ucast (0x80 OR (drop_bit (6 * k) cp AND 0x3F)) # utf8_conts k cp"
  by (simp add: utf8_conts_def)

lemma length_utf8_conts: "length (utf8_conts k cp) = k"
  by (simp add: utf8_conts_def)

lemma utf8_cont_loop_conts:
  "reader_ok r \<Longrightarrow> next_bits r (concat (map (nbits 8) (utf8_conts k cp))) \<Longrightarrow>
   utf8_cont_loop k (drop_bit (6 * k) cp) r = (Ok cp, adv (8 * k) r)"
proof (induction k arbitrary: r)
  case 0
  then show ?case by simp
next
  case (Suc k)
  let ?b = "ucast (0x80 OR (drop_bit (6 * k) cp AND 0x3F)) :: u8"
  have n: "next_bits r (nbits 8 ?b)" "next_bits (adv 8 r) (concat (map (nbits 8) (utf8_conts k cp)))"
    using Suc.prems(2) by (simp_all add: utf8_conts_Suc next_bits_append)
  have ok: "reader_ok (adv 8 r)" using reader_ok_adv[OF Suc.prems(1) n(1)] by simp
  have "6 * Suc k = 6 + 6 * k" by simp
  then show ?case
    using read_u8_word[OF Suc.prems(1) n(1)] cont_byte_read[of "drop_bit (6 * k) cp"]
      digits_merge[of "6 * k" cp] Suc.IH[OF ok n(2)] by (simp add: sbind_def)
qed

lemma lead_low:
  "unat cp < 2048 \<Longrightarrow> (ucast ((ucast (0xC0 OR drop_bit 6 cp) :: u8) AND 0x1F) :: u32) = drop_bit 6 cp"
  "unat cp < 65536 \<Longrightarrow> (ucast ((ucast (0xE0 OR drop_bit 12 cp) :: u8) AND 0x0F) :: u32) = drop_bit 12 cp"
  "unat cp < 2097152 \<Longrightarrow> (ucast ((ucast (0xF0 OR drop_bit 18 cp) :: u8) AND 0x07) :: u32) = drop_bit 18 cp"
proof -
  show "unat cp < 2048 \<Longrightarrow> (ucast ((ucast (0xC0 OR drop_bit 6 cp) :: u8) AND 0x1F) :: u32) = drop_bit 6 cp"
    unfolding low_masks
    by (rule bit_word_eqI) (auto simp: bit_byte_consts bit_low_ucast bit_drop_bit_eq
        dest: high_bit_less[of _ 11, simplified])
  show "unat cp < 65536 \<Longrightarrow> (ucast ((ucast (0xE0 OR drop_bit 12 cp) :: u8) AND 0x0F) :: u32) = drop_bit 12 cp"
    unfolding low_masks
    by (rule bit_word_eqI) (auto simp: bit_byte_consts bit_low_ucast bit_drop_bit_eq
        dest: high_bit_less[of _ 16, simplified])
  show "unat cp < 2097152 \<Longrightarrow> (ucast ((ucast (0xF0 OR drop_bit 18 cp) :: u8) AND 0x07) :: u32) = drop_bit 18 cp"
    unfolding low_masks
    by (rule bit_word_eqI) (auto simp: bit_byte_consts bit_low_ucast bit_drop_bit_eq
        dest: high_bit_less[of _ 21, simplified])
qed

lemma lead_class:
  "unat (cp :: u32) < 128 \<Longrightarrow> \<not> bit (ucast cp :: u8) 7"
  "bit (ucast (0xC0 OR drop_bit 6 cp) :: u8) 7" "bit (ucast (0xC0 OR drop_bit 6 cp) :: u8) 6"
  "unat cp < 2048 \<Longrightarrow> \<not> bit (ucast (0xC0 OR drop_bit 6 cp) :: u8) 5"
  "bit (ucast (0xE0 OR drop_bit 12 cp) :: u8) 7" "bit (ucast (0xE0 OR drop_bit 12 cp) :: u8) 6"
  "bit (ucast (0xE0 OR drop_bit 12 cp) :: u8) 5"
  "unat cp < 65536 \<Longrightarrow> \<not> bit (ucast (0xE0 OR drop_bit 12 cp) :: u8) 4"
  "bit (ucast (0xF0 OR drop_bit 18 cp) :: u8) 7" "bit (ucast (0xF0 OR drop_bit 18 cp) :: u8) 6"
  "bit (ucast (0xF0 OR drop_bit 18 cp) :: u8) 5" "bit (ucast (0xF0 OR drop_bit 18 cp) :: u8) 4"
  "unat cp < 2097152 \<Longrightarrow> \<not> bit (ucast (0xF0 OR drop_bit 18 cp) :: u8) 3"
proof -
  show "unat cp < 128 \<Longrightarrow> \<not> bit (ucast cp :: u8) 7"
    using high_bits_zero[of cp 7 7] by (simp add: bit_ucast_iff)
qed (use high_bits_zero[of cp 11] high_bits_zero[of cp 16] high_bits_zero[of cp 21]
      in \<open>simp_all add: bit_byte_consts bit_drop_bit_eq\<close>)

lemma utf8_read:
  assumes v: "scalar_value cp" and ok: "reader_ok r" and nx: "next_bits r (utf8_enc cp)"
  shows "tp_bs_read_utf8 r = (Ok cp, adv (length (utf8_enc cp)) r)"
proof -
  have sur: "\<not> (cp \<ge> 0xD800 \<and> cp \<le> 0xDFFF)" and le: "unat cp \<le> 0x10FFFF"
    using v by (simp_all add: scalar_value_def word_le_nat_alt)
  have enc: "utf8_enc cp = concat (map (nbits 8) (utf8_words cp))"
    using v by (simp add: scalar_value_def utf8_enc_def utf8_words_bytes comp_def)
  have chk: "utf8_check k cp s = (Ok cp, s)" if "k = 1 \<longrightarrow> 128 \<le> unat cp" "k = 2 \<longrightarrow> 2048 \<le> unat cp"
      "k = 3 \<longrightarrow> 65536 \<le> unat cp" for k s
    using that sur by (auto simp: utf8_check_def word_less_nat_alt)
  have lead: "next_bits r (nbits 8 b)" "next_bits (adv 8 r) (concat (map (nbits 8) bs))"
    "reader_ok (adv 8 r)" "length (utf8_enc cp) = 8 + 8 * length bs" if "utf8_words cp = b # bs" for b bs
  proof -
    show n: "next_bits r (nbits 8 b)" "next_bits (adv 8 r) (concat (map (nbits 8) bs))"
      using nx unfolding enc that by (simp_all add: next_bits_append)
    show "reader_ok (adv 8 r)" using reader_ok_adv[OF ok n(1)] by simp
    have "length (concat (map (nbits 8) bs)) = 8 * length bs" by (induction bs) simp_all
    then show "length (utf8_enc cp) = 8 + 8 * length bs" unfolding enc that by simp
  qed
  consider "unat cp < 128" | "128 \<le> unat cp" "unat cp < 2048" | "2048 \<le> unat cp" "unat cp < 65536"
    | "65536 \<le> unat cp" by linarith
  then show ?thesis
  proof cases
    case 1
    have "utf8_words cp = [ucast cp]" using 1 by (simp add: utf8_words_def word_le_nat_alt)
    moreover have "(ucast (ucast cp :: u8) :: u32) = cp"
      proof (rule bit_word_eqI)
      fix n
      show "bit (ucast (ucast cp :: u8) :: u32) n = bit cp n"
        using high_bit_less[of cp 7 n] 1 by (auto simp: bit_ucast_iff)
    qed
    ultimately show ?thesis
      using read_u8_word[OF ok, of "ucast cp"] nx lead_class(1)[OF 1] unfolding enc
      by (simp add: tp_bs_read_utf8_def sbind_def lead_masks)
  next
    case 2
    have w: "utf8_words cp = ucast (0xC0 OR drop_bit 6 cp) # utf8_conts 1 cp"
      using 2 by (simp add: utf8_words_def utf8_conts_def word_le_nat_alt)
    note n = lead[OF w]
    show ?thesis
      using read_u8_word[OF ok n(1)] utf8_cont_loop_conts[OF n(3,2)] 2 lead_low(1)[OF 2(2)] lead_class(2-4)
      unfolding n(4) by (simp add: tp_bs_read_utf8_def sbind_def lead_masks chk length_utf8_conts del: utf8_cont_loop.simps)
  next
    case 3
    have w: "utf8_words cp = ucast (0xE0 OR drop_bit 12 cp) # utf8_conts 2 cp"
      using 3 by (simp add: utf8_words_def utf8_conts_def word_le_nat_alt upt_rec)
    note n = lead[OF w]
    show ?thesis
      using read_u8_word[OF ok n(1)] utf8_cont_loop_conts[OF n(3,2)] 3 lead_low(2)[OF 3(2)] lead_class(5-8)
      unfolding n(4) by (simp add: tp_bs_read_utf8_def sbind_def lead_masks chk length_utf8_conts del: utf8_cont_loop.simps)
  next
    case 4
    have w: "utf8_words cp = ucast (0xF0 OR drop_bit 18 cp) # utf8_conts 3 cp"
      using 4 by (simp add: utf8_words_def utf8_conts_def word_le_nat_alt upt_rec)
    note n = lead[OF w]
    have "unat cp < 2097152" using le by simp
    then show ?thesis
      using read_u8_word[OF ok n(1)] utf8_cont_loop_conts[OF n(3,2)] 4 lead_low(3) lead_class(9-13)
      unfolding n(4) by (simp add: tp_bs_read_utf8_def sbind_def lead_masks chk length_utf8_conts del: utf8_cont_loop.simps)
  qed
qed

section \<open>The codecs\<close>

lemma rsafe_utf8 [intro]: "rsafe tp_bs_read_utf8"
proof -
  have loop: "rsafe (utf8_cont_loop k cp)" for k cp
  proof (induction k arbitrary: cp)
    case 0
    show ?case unfolding utf8_cont_loop.simps by (rule rsafe_sret)
  next
    case (Suc k)
    show ?case unfolding utf8_cont_loop.simps
      by (intro rsafe_sbind rsafe_if rsafe_sfail Suc.IH rsafe_read_bytes_family)
  qed
  have check: "rsafe (utf8_check k cp)" for k cp
    unfolding utf8_check_def by (intro rsafe_if rsafe_sfail rsafe_sret)
  show ?thesis
    unfolding tp_bs_read_utf8_def
    by (intro rsafe_sbind rsafe_if rsafe_sfail rsafe_sret loop check rsafe_read_bytes_family)
qed

interpretation utf8c: exact_codec utf8_enc tp_bs_write_utf8 tp_bs_read_utf8 scalar_value
  by unfold_locales (use utf8_writes utf8_read rsafe_utf8 in auto)

lemma symbol_codec:
  assumes "0 < bps" and "bps \<le> 32"
  shows "exact_codec (nbits bps) (\<lambda>heap v. tp_bs_write_symbol heap v bps) (tp_bs_read_symbol bps)
    (\<lambda>v. unat v < 2 ^ bps)"
proof unfold_locales
  show "writes heap (tp_bs_write_symbol heap a bps) w (nbits bps a)" if "writer_ok heap w" for heap a w
    using write_bits_writes[OF that, of bps "ucast a"] assms
    by (simp add: tp_bs_write_symbol_def writes_def nbits_ucast)
  show "\<exists>b. tp_bs_read_symbol bps r = (Ok b, adv (length (nbits bps a)) r) \<and> a = b"
    if "unat a < 2 ^ bps" "reader_ok r" "next_bits r (nbits bps a)" for r a
  proof -
    have "(ucast (bits_val (nbits bps a) :: u64) :: u32) = a"
      using that(1) by (simp add: bits_val_nbits_ucast ucast_ucast_id take_bit_small)
    then show ?thesis
      using tp_bs_read_bits_next[OF that(2,3), of bps] assms by (simp add: tp_bs_read_symbol_def sbind_def)
  qed
  show "rsafe (tp_bs_read_symbol bps)"
    unfolding tp_bs_read_symbol_def[abs_def] using assms by (simp add: not_less) blast
qed

lemma write_utf8_rejects:
  "\<not> scalar_value cp \<Longrightarrow> tp_bs_write_utf8 heap cp w = (Err TP_ERR_INVALID_UTF8, w)"
  by (auto simp: scalar_value_def tp_bs_write_utf8_def word_le_nat_alt)

text \<open>The reader has no upper bound: it accepts a code point the writer refuses.\<close>

lemma read_utf8_above_range:
  "fst (tp_bs_read_utf8 (bytes_reader [0xF4, 0x90, 0x80, 0x80] 0)) = Ok 0x110000"
  using read_u8_bytes_reader[of 0 "[0xF4, 0x90, 0x80, 0x80]"]
    read_u8_bytes_reader[of 1 "[0xF4, 0x90, 0x80, 0x80]"]
    read_u8_bytes_reader[of 2 "[0xF4, 0x90, 0x80, 0x80]"]
    read_u8_bytes_reader[of 3 "[0xF4, 0x90, 0x80, 0x80]"]
  by (simp add: tp_bs_read_utf8_def sbind_def utf8_check_def numeral_3_eq_3)

lemma read_utf8_no_surrogate:
  assumes "tp_bs_read_utf8 r = (Ok cp, r')" shows "\<not> (0xD800 \<le> cp \<and> cp \<le> 0xDFFF)"
proof -
  have chk: "utf8_check k c s = (Ok cp, r') \<Longrightarrow> \<not> (0xD800 \<le> cp \<and> cp \<le> 0xDFFF)" for k c s
    by (auto simp: utf8_check_def split: if_splits)
  have small: "\<not> 0xD800 \<le> (ucast (b :: u8) :: u32)" for b
    using unat_bound[of b] by (simp add: word_le_nat_alt unsigned_ucast_eq take_bit_nat_eq_self)
  show ?thesis using assms chk small
    by (auto simp: tp_bs_read_utf8_def sbind_eq_Ok split: if_splits)
qed

end
