(* ===== verification/Bitvec.thy ===== *)
theory Bitvec
  imports Bitstream Clib
begin

text \<open>
  The ranked bit vector and LOUDS navigation of \<open>src/v2/v2_bitvec.c\<close>. A vector may be the NULL
  pointer, as in the code's checks. \<open>__builtin_popcountll\<close> is the number of one bits, as the
  compiler documents it. \<open>bv_ok\<close> relates a vector to the bit list it stands for; against it rank is
  counting, select is searching, and LOUDS navigation is arithmetic on the degree sequence.
\<close>

section \<open>The code\<close>

definition TP2_SUPER_BITS :: nat where "TP2_SUPER_BITS = 2048"
definition TP2_BLOCK_BITS :: nat where "TP2_BLOCK_BITS = 256"

record tp2_bitvec =
  bv_bits :: "u8 list"
  bv_nbits :: nat
  bv_super :: "nat list"
  bv_block :: "nat list"
  bv_nsuper :: nat
  bv_nblock :: nat

definition SIZEOF_BITVEC :: nat where "SIZEOF_BITVEC = 48"

definition popcount64 :: "u64 \<Rightarrow> nat" where
  "popcount64 x = length (filter (bit x) [0..<64])"

definition tp2_bv_get :: "tp2_bitvec \<Rightarrow> nat \<Rightarrow> u8 tp" where
  "tp2_bv_get bv i =
     (if i div 8 < length (bv_bits bv) then Ok (drop_bit (7 - i mod 8) (bv_bits bv ! (i div 8)) AND 1) else Fault)"

text \<open>The loop that fills the rank index, at bit \<open>i\<close> with \<open>k\<close> iterations to go.\<close>

fun index_loop :: "nat \<Rightarrow> nat \<Rightarrow> nat \<Rightarrow> nat \<Rightarrow> tp2_bitvec \<Rightarrow> tp2_bitvec tp" where
  "index_loop 0 i total' within bv = Ok bv"
| "index_loop (Suc k) i total' within bv =
     rbind (if i mod TP2_SUPER_BITS = 0 then store (bv_super bv) (i div TP2_SUPER_BITS) total' else Ok (bv_super bv)) (\<lambda>super.
     let within = (if i mod TP2_SUPER_BITS = 0 then 0 else within) in
     rbind (if i mod TP2_BLOCK_BITS = 0 then store (bv_block bv) (i div TP2_BLOCK_BITS) (within mod 65536)
            else Ok (bv_block bv)) (\<lambda>block.
     let bv = bv\<lparr>bv_super := super, bv_block := block\<rparr> in
     rbind (if i < bv_nbits bv then tp2_bv_get bv i else Ok 0) (\<lambda>b.
     if b \<noteq> 0 then index_loop k (i + 1) (wrap64 (total' + 1)) (wrap64 (within + 1)) bv
     else index_loop k (i + 1) total' within bv)))"

definition tp2_bv_create :: "nat \<Rightarrow> ptr \<Rightarrow> nat \<Rightarrow> tp2_bitvec option tp" where
  "tp2_bv_create heap bits nbits' =
     (if heap < SIZEOF_BITVEC then Ok None
      else
        let nbytes = wrap64 (nbits' + 7) div 8;
            nsuper = wrap64 (nbits' + TP2_SUPER_BITS - 1) div TP2_SUPER_BITS + 1;
            nblock = wrap64 (nbits' + TP2_BLOCK_BITS - 1) div TP2_BLOCK_BITS + 1 in
        if heap < nbytes + 8 then Ok None
        else
          rbind (case bits of
                   Some bs \<Rightarrow> if nbytes = 0 then Ok (replicate (nbytes + 8) 0)
                              else if nbytes \<le> length bs then Ok (take nbytes bs @ replicate 8 0) else Fault
                 | None \<Rightarrow> Ok (replicate (nbytes + 8) 0)) (\<lambda>copy.
          rbind (if nbits' mod 8 \<noteq> 0 then
                   (if nbytes = 0 then Fault
                    else store copy (nbytes - 1) (copy ! (nbytes - 1) AND push_bit (8 - nbits' mod 8) 0xFF))
                 else Ok copy) (\<lambda>copy.
          if heap < nsuper * 8 \<or> heap < nblock * 2 then Ok None
          else
            rbind (index_loop (nbits' + 1) 0 0 0
                     \<lparr>bv_bits = copy, bv_nbits = nbits', bv_super = replicate nsuper 0, bv_block = replicate nblock 0,
                      bv_nsuper = nsuper, bv_nblock = nblock\<rparr>) (\<lambda>bv. Ok (Some bv)))))"

definition tp2_bv_size :: "tp2_bitvec option \<Rightarrow> nat" where
  "tp2_bv_size bv = (case bv of None \<Rightarrow> 0 | Some bv \<Rightarrow> bv_nbits bv)"

text \<open>Eight bytes as a word, and the three loops of \<open>tp2_bv_rank1\<close>.\<close>

fun load_word :: "u8 list \<Rightarrow> nat \<Rightarrow> nat \<Rightarrow> u64 \<Rightarrow> u64 tp" where
  "load_word bits i 0 w = Ok w"
| "load_word bits i (Suc k) w = rbind (load bits i) (\<lambda>b. load_word bits (i + 1) k (push_bit 8 w OR ucast b))"

function rank_words :: "u8 list \<Rightarrow> nat \<Rightarrow> nat \<Rightarrow> nat \<Rightarrow> (nat \<times> nat) tp" where
  "rank_words bits i j c =
     (if j + 64 \<le> i
      then rbind (load_word bits (j div 8) 8 0) (\<lambda>w. rank_words bits i (j + 64) (wrap64 (c + popcount64 w)))
      else Ok (j, c))"
  by pat_completeness auto
termination by (relation "measure (\<lambda>(bits, i, j, c). i - j)") auto

function rank_bytes :: "u8 list \<Rightarrow> nat \<Rightarrow> nat \<Rightarrow> nat \<Rightarrow> (nat \<times> nat) tp" where
  "rank_bytes bits i j c =
     (if j + 8 \<le> i
      then rbind (load bits (j div 8)) (\<lambda>b. rank_bytes bits i (j + 8) (wrap64 (c + popcount64 (ucast b))))
      else Ok (j, c))"
  by pat_completeness auto
termination by (relation "measure (\<lambda>(bits, i, j, c). i - j)") auto

function rank_bits :: "tp2_bitvec \<Rightarrow> nat \<Rightarrow> nat \<Rightarrow> nat \<Rightarrow> nat tp" where
  "rank_bits bv i j c =
     (if j < i then rbind (tp2_bv_get bv j) (\<lambda>b. rank_bits bv i (j + 1) (wrap64 (c + unat b)))
      else Ok c)"
  by pat_completeness auto
termination by (relation "measure (\<lambda>(bv, i, j, c). i - j)") auto

declare rank_words.simps [simp del] rank_bytes.simps [simp del] rank_bits.simps [simp del]

definition tp2_bv_rank1 :: "tp2_bitvec option \<Rightarrow> nat \<Rightarrow> nat tp" where
  "tp2_bv_rank1 bv i =
     (case bv of
        None \<Rightarrow> Ok 0
      | Some bv \<Rightarrow>
          if i = 0 then Ok 0
          else
            let i = (if i > bv_nbits bv then bv_nbits bv else i) in
            rbind (fetch (bv_super bv) (i div TP2_SUPER_BITS)) (\<lambda>s.
            rbind (fetch (bv_block bv) (i div TP2_BLOCK_BITS)) (\<lambda>b.
            rbind (rank_words (bv_bits bv) i (i div TP2_BLOCK_BITS * TP2_BLOCK_BITS) (wrap64 (s + b))) (\<lambda>(j, c).
            rbind (rank_bytes (bv_bits bv) i j c) (\<lambda>(j, c). rank_bits bv i j c)))))"

definition tp2_bv_rank0 :: "tp2_bitvec option \<Rightarrow> nat \<Rightarrow> nat tp" where
  "tp2_bv_rank0 bv i =
     (case bv of
        None \<Rightarrow> Ok 0
      | Some v \<Rightarrow>
          let i = (if i > bv_nbits v then bv_nbits v else i) in
          rbind (tp2_bv_rank1 bv i) (\<lambda>r. Ok (if r \<le> i then i - r else wrap64 (18446744073709551616 + i - r))))"

definition bv_rank :: "tp2_bitvec option \<Rightarrow> bool \<Rightarrow> nat \<Rightarrow> nat tp" where
  "bv_rank bv want_one i = (if want_one then tp2_bv_rank1 bv i else tp2_bv_rank0 bv i)"

function select_loop :: "tp2_bitvec option \<Rightarrow> nat \<Rightarrow> bool \<Rightarrow> nat \<Rightarrow> nat \<Rightarrow> nat tp" where
  "select_loop bv k want_one lo hi =
     (if lo < hi then
        let mid = lo + (hi - lo) div 2 in
        rbind (bv_rank bv want_one (mid + 1)) (\<lambda>seen.
        if seen \<le> k then select_loop bv k want_one (mid + 1) hi else select_loop bv k want_one lo mid)
      else Ok lo)"
  by pat_completeness auto
termination by (relation "measure (\<lambda>(bv, k, w, lo, hi). hi - lo)") auto

declare select_loop.simps [simp del]

definition bv_select :: "tp2_bitvec option \<Rightarrow> nat \<Rightarrow> bool \<Rightarrow> nat tp" where
  "bv_select bv k want_one =
     (case bv of
        None \<Rightarrow> Ok 0
      | Some v \<Rightarrow>
          if bv_nbits v = 0 then Ok 0
          else
            rbind (bv_rank bv want_one (bv_nbits v)) (\<lambda>available.
            if k \<ge> available then Ok (bv_nbits v) else select_loop bv k want_one 0 (bv_nbits v)))"

definition tp2_bv_select1 :: "tp2_bitvec option \<Rightarrow> nat \<Rightarrow> nat tp" where
  "tp2_bv_select1 bv k = bv_select bv k True"

definition tp2_bv_select0 :: "tp2_bitvec option \<Rightarrow> nat \<Rightarrow> nat tp" where
  "tp2_bv_select0 bv k = bv_select bv k False"

definition tp2_bv_index_bytes :: "tp2_bitvec option \<Rightarrow> nat" where
  "tp2_bv_index_bytes bv = (case bv of None \<Rightarrow> 0 | Some bv \<Rightarrow> wrap64 (bv_nsuper bv * 8 + bv_nblock bv * 2))"

definition tp2_louds_child_begin :: "tp2_bitvec option \<Rightarrow> nat \<Rightarrow> nat tp" where
  "tp2_louds_child_begin bv v = (if v = 0 then Ok 0 else rbind (tp2_bv_select0 bv (v - 1)) (\<lambda>s. Ok (wrap64 (s + 1))))"

definition tp2_louds_child_count :: "tp2_bitvec option \<Rightarrow> nat \<Rightarrow> nat tp" where
  "tp2_louds_child_count bv v =
     rbind (tp2_louds_child_begin bv v) (\<lambda>begin.
     rbind (tp2_bv_select0 bv v) (\<lambda>end. Ok (if end > begin then end - begin else 0)))"

definition tp2_louds_child :: "tp2_bitvec option \<Rightarrow> nat \<Rightarrow> nat \<Rightarrow> nat tp" where
  "tp2_louds_child bv v k =
     rbind (tp2_louds_child_begin bv v) (\<lambda>begin.
     rbind (tp2_bv_rank1 bv (wrap64 (begin + k))) (\<lambda>r. Ok (wrap64 (r + 1))))"

section \<open>The bit list and its counts\<close>

definition bv_list :: "tp2_bitvec \<Rightarrow> bool list" where
  "bv_list bv = map (bit_at (bv_bits bv)) [0..<bv_nbits bv]"

definition cnt :: "bool \<Rightarrow> bool list \<Rightarrow> nat \<Rightarrow> nat" where
  "cnt b xs i = count_list (take i xs) b"

lemma length_bv_list [simp]: "length (bv_list bv) = bv_nbits bv"
  by (simp add: bv_list_def)

lemma count_list_append': "count_list (xs @ ys) b = count_list xs b + count_list ys b"
  by (induction xs) auto

lemma cnt_0 [simp]: "cnt b xs 0 = 0"
  by (simp add: cnt_def)

lemma cnt_Suc: "i < length xs \<Longrightarrow> cnt b xs (Suc i) = cnt b xs i + (if xs ! i = b then 1 else 0)"
  by (simp add: cnt_def take_Suc_conv_app_nth count_list_append')

lemma cnt_le: "cnt b xs i \<le> i"
  unfolding cnt_def using count_le_length[of "take i xs" b] by simp

lemma cnt_mono: "i \<le> j \<Longrightarrow> cnt b xs i \<le> cnt b xs j"
proof -
  assume "i \<le> j"
  then have "take j xs = take i xs @ take (j - i) (drop i xs)" by (metis le_add_diff_inverse take_add)
  then show ?thesis by (simp add: cnt_def count_list_append')
qed

lemma cnt_add: "cnt b xs (i + n) = cnt b xs i + count_list (take n (drop i xs)) b"
  by (simp add: cnt_def take_add count_list_append')

lemma cnt_other: "i \<le> length xs \<Longrightarrow> cnt False xs i = i - cnt True xs i"
proof (induction i)
  case (Suc i)
  then show ?case using cnt_le[of True xs i] by (simp add: cnt_Suc)
qed simp

lemma popcount_nbits: "popcount64 w = count_list (nbits 64 w) True"
proof -
  have "nbits 64 w = rev (map (bit w) [0..<64])"
    by (rule nth_equalityI) (auto simp: rev_nth)
  moreover have "count_list (rev ys) True = count_list ys True" for ys by (induction ys) (simp_all add: count_list_append')
  moreover have "count_list (map f xs) True = length (filter f xs)" for f and xs :: "nat list" by (induction xs) simp_all
  ultimately show ?thesis by (simp add: popcount64_def)
qed

lemma bits_val_byte: "bits_val (xs @ nbits 8 (b :: u8)) = push_bit 8 (bits_val xs) OR (ucast b :: u64)"
proof (rule bit_word_eqI)
  fix n assume "n < LENGTH(64)"
  moreover have "bit b n \<Longrightarrow> n < 8" using bit_imp_le_length[of b n] by simp
  ultimately show "bit (bits_val (xs @ nbits 8 b) :: u64) n = bit (push_bit 8 (bits_val xs) OR (ucast b :: u64)) n"
    by (cases "n < 8") (auto simp: bit_bits_val bit_or_iff bit_push_bit_iff bit_ucast_iff nth_append)
qed

lemma popcount_bits_val: "length xs \<le> 64 \<Longrightarrow> popcount64 (bits_val xs) = count_list xs True"
proof -
  assume l: "length xs \<le> 64"
  have "nbits 64 (bits_val xs :: u64) = replicate (64 - length xs) False @ xs"
    using l by (intro nth_equalityI) (auto simp: bit_bits_val nth_append add.commute)
  moreover have "count_list (replicate n False) True = 0" for n by (induction n) simp_all
  ultimately show ?thesis by (simp add: popcount_nbits count_list_append')
qed

section \<open>Rank counts\<close>

definition bv_ok :: "tp2_bitvec \<Rightarrow> bool" where
  "bv_ok bv \<longleftrightarrow> bv_nbits bv \<le> 8 * length (bv_bits bv) \<and> bv_nbits bv < 9223372036854775808 \<and>
     length (bv_super bv) = bv_nsuper bv \<and> length (bv_block bv) = bv_nblock bv \<and>
     (\<forall>j. j * TP2_SUPER_BITS \<le> bv_nbits bv \<longrightarrow>
        j < bv_nsuper bv \<and> bv_super bv ! j = cnt True (bv_list bv) (j * TP2_SUPER_BITS)) \<and>
     (\<forall>j. j * TP2_BLOCK_BITS \<le> bv_nbits bv \<longrightarrow>
        j < bv_nblock bv \<and> cnt True (bv_list bv) (j * TP2_BLOCK_BITS) =
          cnt True (bv_list bv) (j * TP2_BLOCK_BITS div TP2_SUPER_BITS * TP2_SUPER_BITS) + bv_block bv ! j)"

lemma bit_at_list: "i + n \<le> bv_nbits bv \<Longrightarrow> take n (drop i (bv_list bv)) = map (bit_at (bv_bits bv)) [i..<i + n]"
  by (rule nth_equalityI) (auto simp: bv_list_def)

lemma nbits_byte: "k < length bs \<Longrightarrow> nbits 8 (bs ! k) = map (bit_at bs) [8 * k..<8 * k + 8]"
  by (rule nth_equalityI) (auto simp: bit_at_def)

lemma load_word_ok:
  "i + k \<le> length bs \<Longrightarrow> load_word bs i k (bits_val xs) = Ok (bits_val (xs @ map (bit_at bs) [8 * i..<8 * (i + k)]))"
proof (induction k arbitrary: i xs)
  case (Suc k)
  have u: "[8 * i..<8 * (i + Suc k)] = [8 * i..<8 * i + 8] @ [8 * (i + 1)..<8 * (i + 1 + k)]"
    using upt_add_eq_append[of "8 * i" "8 * i + 8" "8 * k"] by (simp add: algebra_simps)
  have "load_word bs i (Suc k) (bits_val xs) = load_word bs (i + 1) k (bits_val (xs @ nbits 8 (bs ! i)))"
    using Suc.prems by (simp add: load_def bits_val_byte)
  also have "\<dots> = Ok (bits_val ((xs @ nbits 8 (bs ! i)) @ map (bit_at bs) [8 * (i + 1)..<8 * (i + 1 + k)]))"
    by (rule Suc.IH) (use Suc.prems in simp)
  finally show ?case using nbits_byte[of i bs] Suc.prems unfolding u by simp
qed simp

lemma get_ok: "i < 8 * length (bv_bits bv) \<Longrightarrow> tp2_bv_get bv i = Ok (of_bool (bit_at (bv_bits bv) i))"
  by (simp add: tp2_bv_get_def bit_at_def word_and_one bit_drop_bit_eq) 

lemma cnt_bound: "cnt b (bv_list bv) i \<le> bv_nbits bv"
  unfolding cnt_def using count_le_length[of "take i (bv_list bv)" b] by simp

lemma rank_words_ok:
  assumes ok: "bv_ok bv" and i: "i \<le> bv_nbits bv"
  shows "j mod 8 = 0 \<Longrightarrow> j \<le> i \<Longrightarrow>
    \<exists>j'. rank_words (bv_bits bv) i j (cnt True (bv_list bv) j) = Ok (j', cnt True (bv_list bv) j') \<and> j' mod 8 = 0 \<and> j' \<le> i"
proof (induction "i - j" arbitrary: j rule: less_induct)
  case less
  show ?case
  proof (cases "j + 64 \<le> i")
    case True
    have j: "8 * (j div 8) = j" using less.prems(1) by presburger
    have bnd: "j div 8 + 8 \<le> length (bv_bits bv)" "j + 64 \<le> bv_nbits bv"
      using True j ok i unfolding bv_ok_def by linarith+
    have w: "load_word (bv_bits bv) (j div 8) 8 0 = Ok (bits_val (take 64 (drop j (bv_list bv))))"
      using load_word_ok[OF bnd(1), of "[]"] bit_at_list[OF bnd(2)] j by (simp add: algebra_simps)
    have p: "popcount64 (bits_val (take 64 (drop j (bv_list bv)))) = count_list (take 64 (drop j (bv_list bv))) True"
      by (rule popcount_bits_val) simp
    have "wrap64 (cnt True (bv_list bv) j + popcount64 (bits_val (take 64 (drop j (bv_list bv))))) = cnt True (bv_list bv) (j + 64)"
      using cnt_bound[of True bv "j + 64"] ok unfolding p cnt_add by (simp add: bv_ok_def)
    then have "rank_words (bv_bits bv) i j (cnt True (bv_list bv) j) = rank_words (bv_bits bv) i (j + 64) (cnt True (bv_list bv) (j + 64))"
      using True w by (subst rank_words.simps) simp
    moreover have "(j + 64) mod 8 = 0" using less.prems(1) by presburger
    ultimately show ?thesis using less.hyps[of "j + 64"] True by simp
  next
    case False
    then show ?thesis using less.prems by (simp add: rank_words.simps)
  qed
qed

lemma rank_bytes_ok:
  assumes ok: "bv_ok bv" and i: "i \<le> bv_nbits bv"
  shows "j mod 8 = 0 \<Longrightarrow> j \<le> i \<Longrightarrow>
    \<exists>j'. rank_bytes (bv_bits bv) i j (cnt True (bv_list bv) j) = Ok (j', cnt True (bv_list bv) j') \<and> j' \<le> i"
proof (induction "i - j" arbitrary: j rule: less_induct)
  case less
  show ?case
  proof (cases "j + 8 \<le> i")
    case True
    have j: "8 * (j div 8) = j" using less.prems(1) by presburger
    have bnd: "j div 8 < length (bv_bits bv)" "j + 8 \<le> bv_nbits bv"
      using True j ok i unfolding bv_ok_def by linarith+
    let ?b = "bv_bits bv ! (j div 8)"
    have "(ucast ?b :: u64) = bits_val (nbits 8 ?b)" using bits_val_byte[of "[]" ?b] by simp
    also have "nbits 8 ?b = take 8 (drop j (bv_list bv))"
      using nbits_byte[OF bnd(1)] bit_at_list[OF bnd(2)] j by simp
    finally have p: "popcount64 (ucast ?b) = count_list (take 8 (drop j (bv_list bv))) True"
      by (simp add: popcount_bits_val)
    have "wrap64 (cnt True (bv_list bv) j + popcount64 (ucast ?b)) = cnt True (bv_list bv) (j + 8)"
      using cnt_bound[of True bv "j + 8"] ok unfolding p cnt_add by (simp add: bv_ok_def)
    then have "rank_bytes (bv_bits bv) i j (cnt True (bv_list bv) j) = rank_bytes (bv_bits bv) i (j + 8) (cnt True (bv_list bv) (j + 8))"
      using True bnd(1) by (subst rank_bytes.simps) (simp add: load_def)
    moreover have "(j + 8) mod 8 = 0" using less.prems(1) by presburger
    ultimately show ?thesis using less.hyps[of "j + 8"] True by simp
  next
    case False
    then show ?thesis using less.prems by (simp add: rank_bytes.simps)
  qed
qed

lemma rank_bits_ok:
  assumes ok: "bv_ok bv" and i: "i \<le> bv_nbits bv"
  shows "j \<le> i \<Longrightarrow> rank_bits bv i j (cnt True (bv_list bv) j) = Ok (cnt True (bv_list bv) i)"
proof (induction j rule: inc_induct)
  case base
  show ?case by (simp add: rank_bits.simps)
next
  case (step j)
  have j: "j < bv_nbits bv" "j < 8 * length (bv_bits bv)" using step.hyps ok i by (simp_all add: bv_ok_def)
  have "cnt True (bv_list bv) (Suc j) = cnt True (bv_list bv) j + of_bool (bit_at (bv_bits bv) j)"
    using j(1) by (simp add: cnt_Suc bv_list_def)
  moreover have "cnt True (bv_list bv) (Suc j) < 18446744073709551616"
    using cnt_bound[of True bv "Suc j"] ok by (simp add: bv_ok_def)
  ultimately have "rank_bits bv i j (cnt True (bv_list bv) j) = rank_bits bv i (Suc j) (cnt True (bv_list bv) (Suc j))"
    using step.hyps get_ok[OF j(2)] by (cases "bit_at (bv_bits bv) j"; subst rank_bits.simps; simp)
  then show ?case using step.IH by simp
qed

text \<open>Rank is counting; a position behind the end counts as the end.\<close>

lemma rank1_inside:
  assumes ok: "bv_ok bv" and n: "n \<le> bv_nbits bv" and n0: "n \<noteq> 0"
  shows "tp2_bv_rank1 (Some bv) n = Ok (cnt True (bv_list bv) n)"
proof -
  define s where "s = n div TP2_SUPER_BITS"
  define b where "b = n div TP2_BLOCK_BITS"
  define j where "j = b * TP2_BLOCK_BITS"
  have j: "j mod 8 = 0" "j \<le> n" "s * TP2_SUPER_BITS \<le> n" "j div TP2_SUPER_BITS = s"
    by (simp_all add: j_def b_def s_def TP2_BLOCK_BITS_def TP2_SUPER_BITS_def)
  have s: "s < length (bv_super bv)" "bv_super bv ! s = cnt True (bv_list bv) (s * TP2_SUPER_BITS)"
    using ok le_trans[OF j(3) n] by (simp_all add: bv_ok_def)
  have "b < bv_nblock bv \<and> cnt True (bv_list bv) (b * TP2_BLOCK_BITS) =
      cnt True (bv_list bv) (b * TP2_BLOCK_BITS div TP2_SUPER_BITS * TP2_SUPER_BITS) + bv_block bv ! b"
    using ok le_trans[OF j(2) n] unfolding bv_ok_def j_def by blast
  then have b: "b < length (bv_block bv)" "cnt True (bv_list bv) j = cnt True (bv_list bv) (s * TP2_SUPER_BITS) + bv_block bv ! b"
    unfolding j(4)[unfolded j_def] using ok by (simp_all only: bv_ok_def j_def)
  have c: "wrap64 (bv_super bv ! s + bv_block bv ! b) = cnt True (bv_list bv) j"
    using cnt_bound[of True bv j] ok s(2) b(2) by (simp add: bv_ok_def)
  obtain j1 where w: "rank_words (bv_bits bv) n j (cnt True (bv_list bv) j) = Ok (j1, cnt True (bv_list bv) j1)"
    "j1 mod 8 = 0" "j1 \<le> n" using rank_words_ok[OF ok n j(1,2)] by auto
  obtain j2 where y: "rank_bytes (bv_bits bv) n j1 (cnt True (bv_list bv) j1) = Ok (j2, cnt True (bv_list bv) j2)" "j2 \<le> n"
    using rank_bytes_ok[OF ok n w(2,3)] by auto
  show ?thesis
    unfolding tp2_bv_rank1_def option.case if_not_P[OF n0] Let_def if_not_P[OF leD[OF n]]
      s_def[symmetric] b_def[symmetric] j_def[symmetric]
    using s(1) b(1) by (simp add: fetch_def c w(1) y(1) rank_bits_ok[OF ok n y(2)])
qed

lemma rank1_ok:
  assumes ok: "bv_ok bv"
  shows "tp2_bv_rank1 (Some bv) i = Ok (cnt True (bv_list bv) (min i (bv_nbits bv)))"
proof (cases "i = 0 \<or> bv_nbits bv = 0")
  case True
  have "rank_words (bv_bits bv) 0 0 0 = Ok (0, 0)" "rank_bytes (bv_bits bv) 0 0 0 = Ok (0, 0)" "rank_bits bv 0 0 0 = Ok 0"
    by (subst rank_words.simps rank_bytes.simps rank_bits.simps, simp)+
  moreover have "0 < bv_nsuper bv \<and> bv_super bv ! 0 = cnt True (bv_list bv) (0 * TP2_SUPER_BITS)"
    "0 < bv_nblock bv \<and> cnt True (bv_list bv) (0 * TP2_BLOCK_BITS) =
       cnt True (bv_list bv) (0 * TP2_BLOCK_BITS div TP2_SUPER_BITS * TP2_SUPER_BITS) + bv_block bv ! 0"
    using ok unfolding bv_ok_def by (metis le0 mult_0)+
  ultimately show ?thesis using True ok by (auto simp: tp2_bv_rank1_def Let_def fetch_def bv_ok_def)
next
  case False
  have "tp2_bv_rank1 (Some bv) i = tp2_bv_rank1 (Some bv) (min i (bv_nbits bv))"
    using False by (simp add: tp2_bv_rank1_def Let_def min_def)
  then show ?thesis using rank1_inside[OF ok, of "min i (bv_nbits bv)"] False by simp
qed

lemma rank0_ok:
  assumes ok: "bv_ok bv"
  shows "tp2_bv_rank0 (Some bv) i = Ok (cnt False (bv_list bv) (min i (bv_nbits bv)))"
  using rank1_ok[OF ok, of "min i (bv_nbits bv)"] cnt_other[of "min i (bv_nbits bv)" "bv_list bv"]
    cnt_le[of True "bv_list bv" "min i (bv_nbits bv)"]
  by (auto simp: tp2_bv_rank0_def Let_def min_def split: if_splits)

lemma bv_rank_ok: "bv_ok bv \<Longrightarrow> bv_rank (Some bv) b i = Ok (cnt b (bv_list bv) (min i (bv_nbits bv)))"
  by (cases b) (simp_all add: bv_rank_def rank1_ok rank0_ok)

section \<open>Select searches\<close>

text \<open>The positions of \<open>b\<close>; the \<open>k\<close>-th of them, or the length.\<close>

definition positions :: "bool \<Rightarrow> bool list \<Rightarrow> nat list" where
  "positions b xs = filter (\<lambda>i. xs ! i = b) [0..<length xs]"

definition sel :: "bool \<Rightarrow> bool list \<Rightarrow> nat \<Rightarrow> nat" where
  "sel b xs k = (if k < length (positions b xs) then positions b xs ! k else length xs)"

lemma cnt_filter: "i \<le> length xs \<Longrightarrow> cnt b xs i = length (filter (\<lambda>i. xs ! i = b) [0..<i])"
  by (induction i) (auto simp: cnt_Suc)

lemma length_positions: "length (positions b xs) = cnt b xs (length xs)"
  by (simp add: positions_def cnt_filter)

lemma sel_eq:
  assumes "i < length xs" and "xs ! i = b" shows "sel b xs (cnt b xs i) = i"
proof -
  have u: "[0..<length xs] = [0..<i] @ i # [Suc i..<length xs]"
    using assms(1) by (metis less_imp_le_nat upt_add_eq_append le_add_diff_inverse upt_conv_Cons zero_le)
  have p: "positions b xs = filter (\<lambda>i. xs ! i = b) [0..<i] @ i # filter (\<lambda>i. xs ! i = b) [Suc i..<length xs]"
    using assms(2) by (simp add: positions_def u)
  then show ?thesis using assms(1) by (simp add: sel_def cnt_filter p)
qed

lemma cnt_beyond: "length xs \<le> i \<Longrightarrow> cnt b xs i = cnt b xs (length xs)"
  by (simp add: cnt_def)

lemma select_loop_ok:
  assumes ok: "bv_ok bv"
  defines "xs \<equiv> bv_list bv"
  shows "lo \<le> hi \<Longrightarrow> hi \<le> bv_nbits bv \<Longrightarrow> cnt b xs lo \<le> k \<Longrightarrow> k < cnt b xs (hi + 1) \<Longrightarrow>
    select_loop (Some bv) k b lo hi = Ok (sel b xs k)"
proof (induction "hi - lo" arbitrary: lo hi rule: less_induct)
  case less
  have len: "length xs = bv_nbits bv" by (simp add: xs_def)
  show ?case
  proof (cases "lo < hi")
    case True
    define mid where "mid = lo + (hi - lo) div 2"
    have mid: "lo \<le> mid" "mid < hi" using True by (auto simp: mid_def)
    have r: "bv_rank (Some bv) b (mid + 1) = Ok (cnt b xs (mid + 1))"
      using bv_rank_ok[OF ok, of b "mid + 1"] mid less.prems(2) by (simp add: xs_def min_def)
    show ?thesis
    proof (cases "cnt b xs (mid + 1) \<le> k")
      case le: True
      have "select_loop (Some bv) k b lo hi = select_loop (Some bv) k b (mid + 1) hi"
        using True r le by (subst select_loop.simps) (simp add: mid_def[symmetric] Let_def)
      then show ?thesis using less.hyps[of hi "mid + 1"] less.prems mid le by simp
    next
      case False
      have "select_loop (Some bv) k b lo hi = select_loop (Some bv) k b lo mid"
        using True r False by (subst select_loop.simps) (simp add: mid_def[symmetric] Let_def)
      then show ?thesis using less.hyps[of mid lo] less.prems mid False by simp
    qed
  next
    case False
    then have eq: "lo = hi" using less.prems(1) by simp
    have lt: "lo < length xs"
    proof (rule ccontr)
      assume "\<not> lo < length xs"
      then show False using less.prems(3,4) eq cnt_beyond[of xs lo b] cnt_beyond[of xs "hi + 1" b] by simp
    qed
    then have "cnt b xs (Suc lo) = cnt b xs lo + (if xs ! lo = b then 1 else 0)" by (rule cnt_Suc)
    then have "xs ! lo = b" "cnt b xs lo = k" using less.prems(3,4) eq by (auto split: if_splits)
    then show ?thesis using False sel_eq[OF lt, of b] by (subst select_loop.simps) simp
  qed
qed

lemma select_ok:
  assumes ok: "bv_ok bv"
  shows "bv_select (Some bv) k b = Ok (sel b (bv_list bv) k)"
proof (cases "bv_nbits bv = 0")
  case True
  then show ?thesis by (simp add: bv_select_def sel_def positions_def)
next
  case ne: False
  have r: "bv_rank (Some bv) b (bv_nbits bv) = Ok (length (positions b (bv_list bv)))"
    using bv_rank_ok[OF ok, of b "bv_nbits bv"] by (simp add: length_positions)
  show ?thesis
  proof (cases "k < length (positions b (bv_list bv))")
    case True
    then have "k < cnt b (bv_list bv) (bv_nbits bv + 1)"
      using cnt_beyond[of "bv_list bv" "bv_nbits bv + 1" b] by (simp add: length_positions)
    then show ?thesis using select_loop_ok[OF ok, of 0 "bv_nbits bv" b k] ne r True by (simp add: bv_select_def)
  next
    case False
    then show ?thesis using ne r by (simp add: bv_select_def sel_def)
  qed
qed

text \<open>Rank and select are inverse on the positions of \<open>b\<close>.\<close>

lemma sel_nth: "k < length (positions b xs) \<Longrightarrow> sel b xs k < length xs \<and> xs ! sel b xs k = b \<and> cnt b xs (sel b xs k) = k"
proof -
  assume k: "k < length (positions b xs)"
  then have m: "positions b xs ! k \<in> set (positions b xs)" by simp
  then have p: "positions b xs ! k < length xs" "xs ! (positions b xs ! k) = b" by (simp_all add: positions_def)
  have "cnt b xs (positions b xs ! k) < length (positions b xs)"
    using cnt_Suc[OF p(1), of b] cnt_mono[of "Suc (positions b xs ! k)" "length xs" b xs] p by (simp add: length_positions)
  moreover have "positions b xs ! cnt b xs (positions b xs ! k) = positions b xs ! k"
    using sel_eq[OF p] calculation by (simp add: sel_def)
  moreover have "distinct (positions b xs)" by (simp add: positions_def)
  ultimately show ?thesis using k p by (simp add: sel_def nth_eq_iff_index_eq)
qed

end
