(* ===== verification/Bitvec_Index.thy ===== *)
theory Bitvec_Index
  imports Bitvec
begin

text \<open>
  \<open>tp2_bv_create\<close> builds the rank index that \<open>bv_ok\<close> asks for, and LOUDS navigation on a degree
  sequence: the child functions of \<open>src/v2/v2_bitvec.c\<close> compute the breadth-first numbering.
\<close>

section \<open>Building the rank index\<close>

text \<open>What the loop has filled in when it reaches bit \<open>i\<close>.\<close>

definition indexed :: "tp2_bitvec \<Rightarrow> nat \<Rightarrow> bool" where
  "indexed bv i \<longleftrightarrow> (\<forall>j. j * 2048 < i \<longrightarrow> bv_super bv ! j = cnt True (bv_list bv) (j * 2048)) \<and>
     (\<forall>j. j * 256 < i \<longrightarrow> cnt True (bv_list bv) (j * 256) =
        cnt True (bv_list bv) (j * 256 div 2048 * 2048) + bv_block bv ! j)"

definition sized :: "tp2_bitvec \<Rightarrow> bool" where
  "sized bv \<longleftrightarrow> bv_nbits bv \<le> 8 * length (bv_bits bv) \<and> bv_nbits bv < 9223372036854775808 \<and>
     length (bv_super bv) = bv_nsuper bv \<and> length (bv_block bv) = bv_nblock bv \<and>
     bv_nbits bv div 2048 < bv_nsuper bv \<and> bv_nbits bv div 256 < bv_nblock bv"

lemma bv_list_index [simp]: "bv_list (bv\<lparr>bv_super := s, bv_block := b\<rparr>) = bv_list bv"
  by (simp add: bv_list_def)

lemma cnt_gap: "i \<le> j \<Longrightarrow> cnt b xs j - cnt b xs i \<le> j - i"
proof -
  assume "i \<le> j"
  then have "cnt b xs j = cnt b xs i + count_list (take (j - i) (drop i xs)) b" using cnt_add[of b xs i "j - i"] by simp
  moreover have "count_list (take (j - i) (drop i xs)) b \<le> j - i"
    using count_le_length[of "take (j - i) (drop i xs)" b] by simp
  ultimately show ?thesis by simp
qed

lemma index_step:
  assumes sz: "sized bv" and ix: "indexed bv i" and i: "i \<le> bv_nbits bv"
    and tot: "t = cnt True (bv_list bv) i"
    and wi: "i mod 2048 \<noteq> 0 \<Longrightarrow> w = cnt True (bv_list bv) i - cnt True (bv_list bv) (i div 2048 * 2048)"
  defines "w' \<equiv> if i mod 2048 = 0 then 0 else w"
  defines "s' \<equiv> if i mod 2048 = 0 then (bv_super bv)[i div 2048 := t] else bv_super bv"
  defines "b' \<equiv> if i mod 256 = 0 then (bv_block bv)[i div 256 := w' mod 65536] else bv_block bv"
  defines "bv' \<equiv> bv\<lparr>bv_super := s', bv_block := b'\<rparr>"
  shows "sized bv'" and "indexed bv' (i + 1)" and "i div 2048 < length (bv_super bv)" and "i div 256 < length (bv_block bv)"
    and "w' = cnt True (bv_list bv) i - cnt True (bv_list bv) (i div 2048 * 2048)"
proof -
  let ?C = "cnt True (bv_list bv)"
  show sb: "i div 2048 < length (bv_super bv)" "i div 256 < length (bv_block bv)"
    using sz div_le_mono[OF i, of 2048] div_le_mono[OF i, of 256] by (simp_all add: sized_def)
  show w: "w' = ?C i - ?C (i div 2048 * 2048)"
  proof (cases "i mod 2048 = 0")
    case True
    then have "i div 2048 * 2048 = i" by (simp add: minus_mod_eq_div_mult[symmetric])
    then show ?thesis using True by (simp add: w'_def)
  qed (simp add: w'_def wi)
  show "sized bv'" using sz by (simp add: sized_def bv'_def s'_def b'_def)
  have le: "i div 2048 * 2048 \<le> i" by (rule div_times_less_eq_dividend)
  have small: "w' < 65536" using cnt_gap[OF le, of True "bv_list bv"] w mod_less_divisor[of 2048 i] 
    by (simp add: minus_div_mult_eq_mod[symmetric])
  have sup: "bv_super bv' ! j = ?C (j * 2048)" if "j * 2048 < i + 1" for j
  proof (cases "j * 2048 = i")
    case True
    then have "i mod 2048 = 0" "j = i div 2048" by (simp_all add: True[symmetric])
    then show ?thesis using sb tot True by (simp add: bv'_def s'_def)
  next
    case False
    then have "j * 2048 < i" using that by simp
    moreover have "j \<noteq> i div 2048 \<or> i mod 2048 \<noteq> 0" using False by (auto simp: minus_mod_eq_div_mult[symmetric])
    ultimately have "j * 2048 < i" "j \<noteq> i div 2048 \<or> i mod 2048 \<noteq> 0" by blast+
    then show ?thesis using ix by (auto simp: bv'_def s'_def indexed_def)
  qed
  have blk: "?C (j * 256) = ?C (j * 256 div 2048 * 2048) + bv_block bv' ! j" if "j * 256 < i + 1" for j
  proof (cases "j * 256 = i")
    case True
    then have "i mod 256 = 0" "j = i div 256" by (simp_all add: True[symmetric])
    then have "bv_block bv' ! j = w'" using sb small by (simp add: bv'_def b'_def)
    then show ?thesis using w True cnt_mono[OF le, of True "bv_list bv"] by simp
  next
    case False
    then have "j * 256 < i" using that by simp
    moreover have "j \<noteq> i div 256 \<or> i mod 256 \<noteq> 0" using False by (auto simp: minus_mod_eq_div_mult[symmetric])
    ultimately have "j * 256 < i" "j \<noteq> i div 256 \<or> i mod 256 \<noteq> 0" by blast+
    then show ?thesis using ix by (auto simp: bv'_def b'_def indexed_def)
  qed
  show "indexed bv' (i + 1)" using sup blk by (simp add: indexed_def bv'_def)
qed

lemma index_loop_ok:
  "sized bv \<Longrightarrow> indexed bv i \<Longrightarrow> i + k = bv_nbits bv + 1 \<Longrightarrow> t = cnt True (bv_list bv) i \<Longrightarrow>
   (i mod 2048 \<noteq> 0 \<Longrightarrow> w = cnt True (bv_list bv) i - cnt True (bv_list bv) (i div 2048 * 2048)) \<Longrightarrow>
   \<exists>bv'. index_loop k i t w bv = Ok bv' \<and> sized bv' \<and> indexed bv' (bv_nbits bv + 1) \<and>
     bv_bits bv' = bv_bits bv \<and> bv_nbits bv' = bv_nbits bv"
proof (induction k arbitrary: i t w bv)
  case (Suc k)
  have i: "i \<le> bv_nbits bv" using Suc.prems(3) by simp
  let ?C = "cnt True (bv_list bv)"
  define w' where "w' = (if i mod 2048 = 0 then 0 else w)"
  define s' where "s' = (if i mod 2048 = 0 then (bv_super bv)[i div 2048 := t] else bv_super bv)"
  define b' where "b' = (if i mod 256 = 0 then (bv_block bv)[i div 256 := w' mod 65536] else bv_block bv)"
  define bv' where "bv' = bv\<lparr>bv_super := s', bv_block := b'\<rparr>"
  note st = index_step[OF Suc.prems(1,2) i Suc.prems(4,5), folded w'_def s'_def, folded b'_def, folded bv'_def]
  have w5: "w' = ?C i - ?C (i div 2048 * 2048)" by (rule st(5))
  have same: "bv_bits bv' = bv_bits bv" "bv_nbits bv' = bv_nbits bv" "bv_list bv' = bv_list bv" by (simp_all add: bv'_def)
  define b where "b = (i < bv_nbits bv \<and> bit_at (bv_bits bv) i)"
  have get: "(if i < bv_nbits bv' then tp2_bv_get bv' i else Ok 0) = Ok (of_bool b :: u8)"
    using get_ok[of i bv'] Suc.prems(1) same by (auto simp: b_def sized_def)
  have c: "?C (i + 1) = ?C i + of_bool b"
  proof (cases "i < bv_nbits bv")
    case True
    then show ?thesis using cnt_Suc[of i "bv_list bv" True] by (simp add: b_def bv_list_def)
  next
    case False
    then show ?thesis using cnt_beyond[of "bv_list bv" i True] cnt_beyond[of "bv_list bv" "i + 1" True] by (simp add: b_def)
  qed
  have big: "?C (i + 1) < 18446744073709551616" using cnt_bound[of True bv "i + 1"] Suc.prems(1) by (simp add: sized_def)
  have eq: "index_loop (Suc k) i t w bv = index_loop k (i + 1) (if b then wrap64 (t + 1) else t) (if b then wrap64 (w' + 1) else w') bv'"
  proof -
    have e1: "(if i mod TP2_SUPER_BITS = 0 then store (bv_super bv) (i div TP2_SUPER_BITS) t else Ok (bv_super bv)) = Ok s'"
      using st(3) by (simp add: store_def TP2_SUPER_BITS_def s'_def)
    have e2: "(if i mod TP2_BLOCK_BITS = 0 then store (bv_block bv) (i div TP2_BLOCK_BITS) (w' mod 65536) else Ok (bv_block bv)) = Ok b'"
      using st(4) by (simp add: store_def TP2_BLOCK_BITS_def b'_def)
    have e3: "(if i mod TP2_SUPER_BITS = 0 then 0 else w) = w'" by (simp add: TP2_SUPER_BITS_def w'_def)
    have "index_loop (Suc k) i t w bv =
        rbind (if i < bv_nbits bv' then tp2_bv_get bv' i else Ok 0) (\<lambda>x.
          if x \<noteq> 0 then index_loop k (i + 1) (wrap64 (t + 1)) (wrap64 (w' + 1)) bv' else index_loop k (i + 1) t w' bv')"
      by (simp only: index_loop.simps(2) Let_def e1 e2 e3 rbind_simps bv'_def[symmetric])
    also have "\<dots> = index_loop k (i + 1) (if b then wrap64 (t + 1) else t) (if b then wrap64 (w' + 1) else w') bv'"
      unfolding get rbind_simps by (cases b) simp_all
    finally show ?thesis .
  qed
  have t': "(if b then wrap64 (t + 1) else t) = cnt True (bv_list bv') (i + 1)"
    unfolding same(3) c Suc.prems(4) using big c by (cases b) (simp_all only: if_True if_False of_bool_eq add_0_right wrap64_small)
  have dv: "(i + 1) mod 2048 \<noteq> 0 \<Longrightarrow> (i + 1) div 2048 = i div 2048" using div_Suc[of i 2048] by simp
  have wrap: "wrap64 (w' + 1) = w' + 1" if b
  proof -
    have "w' \<le> ?C i" unfolding w5 by (rule diff_le_self)
    then have "w' + 1 \<le> ?C (i + 1)" using c that by (simp only: of_bool_eq)
    then have "w' + 1 < 18446744073709551616" using big by (rule le_less_trans)
    then show ?thesis by (rule wrap64_small)
  qed
  have w2: "(if b then wrap64 (w' + 1) else w') = cnt True (bv_list bv') (i + 1) - cnt True (bv_list bv') ((i + 1) div 2048 * 2048)"
    if "(i + 1) mod 2048 \<noteq> 0"
  proof -
    have le: "?C (i div 2048 * 2048) \<le> ?C i" by (rule cnt_mono[OF div_times_less_eq_dividend])
    show ?thesis
    proof (cases b)
      case True
      have "w' + 1 = ?C i + 1 - ?C (i div 2048 * 2048)" using le w5 by linarith
      then show ?thesis unfolding dv[OF that] same(3) c using wrap[OF True] True by (simp only: if_True of_bool_eq)
    next
      case False
      then show ?thesis unfolding dv[OF that] same(3) c using w5 by (simp only: if_False of_bool_eq add_0_right)
    qed
  qed
  show ?case
    using Suc.IH[of bv' "i + 1", OF st(1,2) _ t' w2] Suc.prems(3) eq same by simp
qed simp

lemma indexed_ok: "sized bv \<Longrightarrow> indexed bv (bv_nbits bv + 1) \<Longrightarrow> bv_ok bv"
proof -
  assume s: "sized bv" and ix: "indexed bv (bv_nbits bv + 1)"
  have "j < bv_nsuper bv" if "j * 2048 \<le> bv_nbits bv" for j
    using s div_le_mono[OF that, of 2048] by (simp add: sized_def)
  moreover have "j < bv_nblock bv" if "j * 256 \<le> bv_nbits bv" for j
    using s div_le_mono[OF that, of 256] by (simp add: sized_def)
  ultimately show ?thesis
    using s ix by (auto simp: bv_ok_def sized_def indexed_def TP2_SUPER_BITS_def TP2_BLOCK_BITS_def)
qed

text \<open>Creating a vector over \<open>n\<close> bits of a block that has them.\<close>

lemma bit_at_take_append: "i < 8 * k \<Longrightarrow> k \<le> length bs \<Longrightarrow> bit_at (take k bs @ ys) i = bit_at bs i"
  by (simp add: bit_at_def nth_append less_mult_imp_div_less mult.commute)

lemma bit_ff: "bit (255 :: u8) k \<longleftrightarrow> k < 8"
proof -
  have "(255 :: u8) = mask 8" by (simp add: mask_eq_exp_minus_1)
  then show ?thesis by (simp only: bit_mask_iff) auto
qed

lemma bit_at_masked:
  assumes i: "i < n" and n: "n mod 8 \<noteq> 0" and k: "k = (n + 7) div 8 - 1" and len: "k < length bs"
  shows "bit_at (bs[k := bs ! k AND push_bit (8 - n mod 8) 0xFF]) i = bit_at bs i"
proof (cases "i div 8 = k")
  case True
  obtain q r where qr: "n div 8 = q" "n mod 8 = r" "n = 8 * q + r" "r < 8" using mult_div_mod_eq[of 8 n, symmetric] by fastforce
  have "8 * (q + 1) \<le> n + 7" "n + 7 < 8 * Suc (q + 1)" using qr n by simp_all
  then have "(n + 7) div 8 = q + 1" by (rule div_nat_eqI)
  then have "n = 8 * k + n mod 8" using k qr by simp
  then have "i mod 8 < n mod 8" using i True mod_div_mult_eq[of i 8] by linarith
  moreover have "n mod 8 < 8" by simp
  ultimately have "8 - n mod 8 \<le> 7 - i mod 8" "7 - i mod 8 < 8" "7 - i mod 8 - (8 - n mod 8) < 8" by linarith+
  then have "bit (push_bit (8 - n mod 8) (0xFF :: u8)) (7 - i mod 8)" by (simp only: bit_push_bit_iff bit_ff) simp
  then show ?thesis using True len by (simp add: bit_at_def bit_and_iff)
next
  case False
  then show ?thesis using len by (simp add: bit_at_def nth_list_update)
qed

lemma create_bv_ok:
  assumes len: "n \<le> 8 * length bs" and n: "n < 9223372036854775808"
  shows "tp2_bv_create heap (Some bs) n = Ok None \<and> heap < 64 + n \<or>
    (\<exists>bv. tp2_bv_create heap (Some bs) n = Ok (Some bv) \<and> bv_ok bv \<and> bv_nbits bv = n \<and>
       bv_list bv = map (bit_at bs) [0..<n])"
proof -
  let ?nb = "(n + 7) div 8" and ?ns = "(n + 2047) div 2048 + 1" and ?nk = "(n + 255) div 256 + 1"
  have wr: "wrap64 (n + 7) = n + 7" "wrap64 (n + 2047) = n + 2047" "wrap64 (n + 255) = n + 255"
    using n by (auto intro!: wrap64_small)
  have nb: "?nb \<le> length bs" using div_le_mono[of "n + 7" "8 * length bs + 7" 8] len by simp
  define c0 where "c0 = take ?nb bs @ replicate 8 (0 :: u8)"
  define c1 where "c1 = (if n mod 8 \<noteq> 0 then c0[?nb - 1 := c0 ! (?nb - 1) AND push_bit (8 - n mod 8) 0xFF] else c0)"
  have l0: "length c0 = ?nb + 8" using nb by (simp add: c0_def)
  then have l1: "length c1 = ?nb + 8" by (simp add: c1_def)
  have same: "bit_at c1 i = bit_at bs i" if "i < n" for i
  proof -
    have "bit_at c0 i = bit_at bs i" unfolding c0_def using that nb by (intro bit_at_take_append) auto
    moreover have "bit_at c1 i = bit_at c0 i"
    proof (cases "n mod 8 = 0")
      case False
      have "?nb - 1 < length c0" using l0 by simp
      then show ?thesis unfolding c1_def using bit_at_masked[OF that False refl] False by simp
    qed (simp add: c1_def)
    ultimately show ?thesis by simp
  qed
  let ?bv = "\<lparr>bv_bits = c1, bv_nbits = n, bv_super = replicate ?ns 0, bv_block = replicate ?nk 0,
               bv_nsuper = ?ns, bv_nblock = ?nk\<rparr>"
  have "sized ?bv" using l1 n div_le_mono[of n "n + 2047" 2048] div_le_mono[of n "n + 255" 256] by (simp add: sized_def)
  from index_loop_ok[OF this, of 0 "n + 1" 0 0] obtain bv where
    bv: "index_loop (n + 1) 0 0 0 ?bv = Ok bv" "sized bv" "indexed bv (bv_nbits bv + 1)" "bv_bits bv = c1" "bv_nbits bv = n"
    by (auto simp: indexed_def)
  have list: "bv_list bv = map (bit_at bs) [0..<n]" using same bv(4,5) by (simp add: bv_list_def)
  have copy: "(if ?nb = 0 then Ok (replicate (?nb + 8) 0) else if ?nb \<le> length bs then Ok (take ?nb bs @ replicate 8 0) else Fault) = Ok c0"
    using nb by (simp add: c0_def)
  have mask: "(if n mod 8 \<noteq> 0 then
      (if ?nb = 0 then Fault else store c0 (?nb - 1) (c0 ! (?nb - 1) AND push_bit (8 - n mod 8) 0xFF)) else Ok c0) = Ok c1"
    using l0 by (auto simp: c1_def store_def)
  have minus: "n + 2048 - 1 = n + 2047" "n + 256 - 1 = n + 255" by simp_all
  have "tp2_bv_create heap (Some bs) n = (if heap < SIZEOF_BITVEC then Ok None else if heap < ?nb + 8 then Ok None
      else if heap < ?ns * 8 \<or> heap < ?nk * 2 then Ok None
      else rbind (index_loop (n + 1) 0 0 0 ?bv) (\<lambda>bv. Ok (Some bv)))"
    unfolding tp2_bv_create_def TP2_SUPER_BITS_def TP2_BLOCK_BITS_def Let_def
    by (simp only: minus wr option.case copy mask rbind_simps)
  then have created: "tp2_bv_create heap (Some bs) n = (if heap < SIZEOF_BITVEC \<or> heap < ?nb + 8 \<or> heap < ?ns * 8 \<or> heap < ?nk * 2
      then Ok None else Ok (Some bv))"
    unfolding bv(1) rbind_simps by (auto split: if_split)
  have below: "m * c \<le> n" if "Suc m * d \<le> n + (d - 1)" "0 < d" "c \<le> d" for m c d
  proof -
    have "m * d + d \<le> n + (d - 1)" using that(1) by simp
    then have "m * d \<le> n" using that(2) by linarith
    then show ?thesis using mult_le_mono2[OF that(3), of m] by linarith
  qed
  have s8: "(q + 1) * 8 \<le> n + 64" if "q * 2048 \<le> n + 2047" for q
    using below[of "q - 1" 2048 8] that by (cases q) simp_all
  have k2: "(q + 1) * 2 \<le> n + 64" if "q * 256 \<le> n + 255" for q
    using below[of "q - 1" 256 2] that by (cases q) simp_all
  have b8: "q + 8 \<le> n + 64" if "q \<le> n + 7" for q using that by linarith
  have "?nb + 8 \<le> n + 64" "?ns * 8 \<le> n + 64" "?nk * 2 \<le> n + 64"
    by (rule b8 s8 k2, rule div_le_dividend div_times_less_eq_dividend)+
  then have "heap < SIZEOF_BITVEC \<or> heap < ?nb + 8 \<or> heap < ?ns * 8 \<or> heap < ?nk * 2 \<Longrightarrow> heap < 64 + n"
    by (auto simp: SIZEOF_BITVEC_def)
  then show ?thesis unfolding created using bv(5) indexed_ok[OF bv(2,3)] list by (simp split: if_split)
qed

section \<open>LOUDS navigation\<close>

text \<open>The LOUDS bits of a degree sequence, node by node in breadth-first order: \<open>1^d 0\<close>.\<close>

definition louds_bits :: "nat list \<Rightarrow> bool list" where
  "louds_bits degs = concat (map (\<lambda>d. replicate d True @ [False]) degs)"

lemma louds_bits_snoc: "louds_bits (ds @ [d]) = louds_bits ds @ replicate d True @ [False]"
  by (simp add: louds_bits_def)

lemma length_louds_bits: "length (louds_bits ds) = sum_list ds + length ds"
  by (induction ds rule: rev_induct) (simp_all add: louds_bits_def)

lemma positions_append: "positions b (xs @ ys) = positions b xs @ map (\<lambda>i. i + length xs) (positions b ys)"
proof -
  have "[0..<length xs + length ys] = [0..<length xs] @ map (\<lambda>i. i + length xs) [0..<length ys]"
    by (simp add: map_add_upt upt_add_eq_append[of 0 "length xs"] add.commute)
  moreover have "filter (\<lambda>i. (xs @ ys) ! i = b) [0..<length xs] = filter (\<lambda>i. xs ! i = b) [0..<length xs]"
    by (rule filter_cong) (simp_all add: nth_append)
  moreover have "filter (\<lambda>i. (xs @ ys) ! (i + length xs) = b) [0..<length ys] = filter (\<lambda>i. ys ! i = b) [0..<length ys]"
    by (rule filter_cong) (simp_all add: nth_append)
  ultimately show ?thesis by (simp add: positions_def filter_map o_def)
qed

lemma positions_group: "positions False (replicate d True @ [False]) = [d]"
  by (simp add: positions_def nth_append)

lemma positions_louds: "positions False (louds_bits ds) = map (\<lambda>v. sum_list (take (Suc v) ds) + v) [0..<length ds]"
proof (induction ds rule: rev_induct)
  case (snoc d ds)
  have "map (\<lambda>v. sum_list (take (Suc v) (ds @ [d])) + v) [0..<length ds] = map (\<lambda>v. sum_list (take (Suc v) ds) + v) [0..<length ds]"
    by simp
  then show ?case using snoc unfolding louds_bits_snoc positions_append[of False "louds_bits ds"] positions_group
    by (simp add: length_louds_bits)
qed (simp add: positions_def louds_bits_def)

lemma sel_louds: "v < length ds \<Longrightarrow> sel False (louds_bits ds) v = sum_list (take (Suc v) ds) + v"
  by (simp add: sel_def positions_louds)

lemma louds_begin:
  assumes ok: "bv_ok bv" and xs: "bv_list bv = louds_bits ds" and v: "v \<le> length ds"
  shows "tp2_louds_child_begin (Some bv) v = Ok (sum_list (take v ds) + v)"
proof (cases v)
  case (Suc u)
  have "length (bv_list bv) < 9223372036854775808" using ok by (simp add: bv_ok_def)
  then have "sum_list ds + length ds < 9223372036854775808" by (simp add: xs length_louds_bits)
  moreover have "sum_list (take v ds) \<le> sum_list ds" by (metis append_take_drop_id le_add1 sum_list_append)
  ultimately have "sum_list (take (Suc u) ds) + u + 1 < 18446744073709551616" using v unfolding Suc by linarith
  then show ?thesis using select_ok[OF ok, of u False] v Suc
    by (simp add: tp2_louds_child_begin_def tp2_bv_select0_def xs sel_louds)
qed (simp add: tp2_louds_child_begin_def)

lemma louds_count:
  assumes ok: "bv_ok bv" and xs: "bv_list bv = louds_bits ds" and v: "v < length ds"
  shows "tp2_louds_child_count (Some bv) v = Ok (ds ! v)"
  using select_ok[OF ok, of v False] louds_begin[OF ok xs, of v] v
  by (simp add: tp2_louds_child_count_def tp2_bv_select0_def xs sel_louds take_Suc_conv_app_nth)

lemma count_list_replicate: "count_list (replicate n a) b = (if a = b then n else 0)"
  by (induction n) auto

lemma cnt_louds: "v < length ds \<Longrightarrow> k \<le> ds ! v \<Longrightarrow> cnt True (louds_bits ds) (sum_list (take v ds) + v + k) = sum_list (take v ds) + k"
proof -
  assume v: "v < length ds" and k: "k \<le> ds ! v"
  have "louds_bits (take v ds @ ds ! v # drop (Suc v) ds) = louds_bits (take v ds) @ replicate (ds ! v) True @ False # louds_bits (drop (Suc v) ds)"
    by (simp add: louds_bits_def)
  then have "louds_bits ds = louds_bits (take v ds) @ replicate (ds ! v) True @ False # louds_bits (drop (Suc v) ds)"
    using v by (simp only: id_take_nth_drop[symmetric])
  then have "take (sum_list (take v ds) + v + k) (louds_bits ds) = louds_bits (take v ds) @ replicate k True"
    using v k by (simp add: length_louds_bits min_absorb1 take_replicate)
  moreover have "count_list (louds_bits es) True = sum_list es" for es
    by (induction es rule: rev_induct) (simp_all add: louds_bits_snoc count_list_append' louds_bits_def[of "[]"] count_list_replicate)
  ultimately show ?thesis by (simp add: cnt_def count_list_append' count_list_replicate)
qed

text \<open>A rose tree numbered breadth first: \<open>bfs\<close> is the queue of the numbering.\<close>

datatype rose = Rose (rose_kids: "rose list")

function bfs :: "rose list \<Rightarrow> rose list" where
  "bfs [] = []"
| "bfs (t # q) = t # bfs (q @ rose_kids t)"
  by pat_completeness auto
termination
proof (relation "measure (\<lambda>q. sum_list (map size q))")
  fix t q
  have "sum_list (map size (rose_kids t)) < size t" by (cases t) (simp add: size_list_conv_sum_list)
  then show "(q @ rose_kids t, t # q) \<in> measure (\<lambda>q. sum_list (map size q))" by simp
qed simp

lemma bfs_queue: "bfs q = q @ concat (map rose_kids (bfs q))"
  by (induction q rule: bfs.induct) simp_all

definition louds_tree :: "rose \<Rightarrow> bool list" where
  "louds_tree t = louds_bits (map (length \<circ> rose_kids) (bfs [t]))"

lemma nth_concat_offset:
  "v < length xss \<Longrightarrow> k < length (xss ! v) \<Longrightarrow> concat xss ! (sum_list (map length (take v xss)) + k) = xss ! v ! k"
proof (induction xss arbitrary: v)
  case (Cons xs xss)
  then show ?case by (cases v) (auto simp: nth_append add.assoc)
qed simp

lemma louds_child:
  assumes ok: "bv_ok bv" and xs: "bv_list bv = louds_bits ds" and v: "v < length ds" and k: "k < ds ! v"
  shows "tp2_louds_child (Some bv) v k = Ok (sum_list (take v ds) + k + 1)"
proof -
  have len: "bv_nbits bv = sum_list ds + length ds" using arg_cong[OF xs, of length] by (simp add: length_louds_bits)
  have big: "bv_nbits bv < 9223372036854775808" using ok by (simp add: bv_ok_def)
  have "sum_list (take v ds) + ds ! v \<le> sum_list ds"
    using v by (metis take_Suc_conv_app_nth append_take_drop_id le_add1 sum_list_append sum_list_simps(2) add_0_right sum_list.Cons sum_list.Nil)
  then have b: "sum_list (take v ds) + v + k \<le> bv_nbits bv" using len v k by linarith
  then have "sum_list (take v ds) + v + k < 18446744073709551616" "sum_list (take v ds) + k + 1 < 18446744073709551616" using big by linarith+
  then show ?thesis using rank1_ok[OF ok, of "sum_list (take v ds) + v + k"] louds_begin[OF ok xs, of v] cnt_louds[of v ds k] v k b
    by (simp add: tp2_louds_child_def xs min_absorb1 add.commute)
qed

text \<open>The code's child functions follow the tree in its breadth-first numbering.\<close>

lemma louds_tree_count:
  assumes ok: "bv_ok bv" and xs: "bv_list bv = louds_tree t" and v: "v < length (bfs [t])"
  shows "tp2_louds_child_count (Some bv) v = Ok (length (rose_kids (bfs [t] ! v)))"
proof -
  have "bv_list bv = louds_bits (map (length \<circ> rose_kids) (bfs [t]))" by (simp only: xs louds_tree_def)
  then show ?thesis using louds_count[OF ok, of _ v] v by (simp del: bfs.simps)
qed

lemma louds_tree_child:
  assumes ok: "bv_ok bv" and xs: "bv_list bv = louds_tree t" and v: "v < length (bfs [t])" and k: "k < length (rose_kids (bfs [t] ! v))"
  shows "\<exists>c. tp2_louds_child (Some bv) v k = Ok c \<and> c < length (bfs [t]) \<and> bfs [t] ! c = rose_kids (bfs [t] ! v) ! k"
proof -
  let ?n = "bfs [t]" and ?ds = "map (length \<circ> rose_kids) (bfs [t])"
  have xs': "bv_list bv = louds_bits ?ds" by (simp only: xs louds_tree_def)
  define c where "c = sum_list (take v ?ds) + k"
  have m: "sum_list (map length (take v (map rose_kids ?n))) = sum_list (take v ?ds)" by (simp del: bfs.simps add: take_map)
  have n: "?n = t # concat (map rose_kids ?n)" using bfs_queue[of "[t]"] by simp
  have "c < length (concat (map rose_kids ?n))"
  proof -
    have "sum_list (take v ?ds) + ?ds ! v \<le> sum_list ?ds"
      using v by (metis take_Suc_conv_app_nth append_take_drop_id le_add1 sum_list_append sum_list.Cons sum_list.Nil add_0_right length_map)
    then show ?thesis using k v by (simp del: bfs.simps add: c_def length_concat)
  qed
  moreover have "concat (map rose_kids ?n) ! c = rose_kids (?n ! v) ! k"
    using nth_concat_offset[of v "map rose_kids ?n" k] v k m by (simp del: bfs.simps add: c_def)
  ultimately have "c + 1 < length ?n" "?n ! (c + 1) = rose_kids (?n ! v) ! k" by (subst n, simp)+
  moreover have "tp2_louds_child (Some bv) v k = Ok (c + 1)" using louds_child[OF ok xs', of v k] v k by (simp del: bfs.simps add: c_def)
  ultimately show "\<exists>c. tp2_louds_child (Some bv) v k = Ok c \<and> c < length ?n \<and> ?n ! c = rose_kids (?n ! v) ! k" by blast
qed

section \<open>Created vectors\<close>

text \<open>How many of the first \<open>i\<close> bits of a buffer are \<open>b\<close>.\<close>

definition bit_count :: "bool \<Rightarrow> u8 list \<Rightarrow> nat \<Rightarrow> nat" where
  "bit_count b bs i = length (filter (\<lambda>j. bit_at bs j = b) [0..<i])"

lemma cnt_bit_count: "i \<le> n \<Longrightarrow> cnt b (map (bit_at bs) [0..<n]) i = bit_count b bs i"
  unfolding bit_count_def by (subst cnt_filter) (auto intro!: arg_cong[of _ _ length] filter_cong)

lemma created_rank:
  assumes "bv_ok bv" and "bv_nbits bv = n" and "bv_list bv = map (bit_at bs) [0..<n]"
  shows "bv_rank (Some bv) b i = Ok (bit_count b bs (min i n))"
  using bv_rank_ok[OF assms(1), of b i] assms(2,3) by (simp add: cnt_bit_count)

lemma created_select:
  assumes ok: "bv_ok bv" and n: "bv_nbits bv = n" and xs: "bv_list bv = map (bit_at bs) [0..<n]"
  shows "\<exists>j. bv_select (Some bv) k b = Ok j \<and>
    (if k < bit_count b bs n then j < n \<and> bit_at bs j = b \<and> bit_count b bs j = k else j = n)"
proof -
  have len: "length (positions b (bv_list bv)) = bit_count b bs n" by (simp add: length_positions xs cnt_bit_count)
  show ?thesis
  proof (cases "k < bit_count b bs n")
    case True
    then show ?thesis using select_ok[OF ok, of k b] sel_nth[of k b "bv_list bv"] len by (auto simp: xs cnt_bit_count)
  next
    case False
    then show ?thesis using select_ok[OF ok, of k b] len by (simp add: sel_def xs)
  qed
qed

end
