(* ===== verification/Tails.thy ===== *)
theory Tails
  imports Clib Common
begin

text \<open>
  The suffix-merged tail pool of \<open>src/v2/v2_tails.c\<close>. A tail is a block of at least \<open>len\<close> bytes
  (the NULL pointer with length 0 is the empty block). \<open>qsort\<close> is the parameter \<open>qs\<close>, \<open>heap\<close> the
  largest block the allocator grants. The pool is compared with its specification: the tails that
  are no proper suffix of another, each once, in descending order of their reversed bytes.
\<close>

section \<open>The code\<close>

record tail_entry =
  t_bytes :: "u8 list"
  t_len :: nat
  t_offset :: nat
  t_seq :: nat
  t_distinct_of :: nat

record tp2_tail_ref =
  tr_offset :: nat
  tr_length :: nat

record tp2_tailpool =
  tl_pool :: "u8 list"
  tl_pool_len :: nat
  tl_distinct :: nat
  tl_refs :: "tp2_tail_ref list option"
  tl_count :: nat

definition SIZEOF_TAILPOOL :: nat where "SIZEOF_TAILPOOL = 40"
definition SIZEOF_TAIL_REF :: nat where "SIZEOF_TAIL_REF = 16"
definition SIZEOF_TAIL_ENTRY :: nat where "SIZEOF_TAIL_ENTRY = 40"

text \<open>The loop of \<open>cmp_reversed\<close>, \<open>k\<close> bytes to go.\<close>

fun cmp_loop :: "nat \<Rightarrow> nat \<Rightarrow> tail_entry \<Rightarrow> tail_entry \<Rightarrow> int option" where
  "cmp_loop 0 i x y = None"
| "cmp_loop (Suc k) i x y =
     (let xb = t_bytes x ! (t_len x - 1 - i); yb = t_bytes y ! (t_len y - 1 - i) in
      if xb \<noteq> yb then Some (if xb < yb then -1 else 1) else cmp_loop k (i + 1) x y)"

definition cmp_reversed :: "tail_entry \<Rightarrow> tail_entry \<Rightarrow> int" where
  "cmp_reversed x y =
     (case cmp_loop (min (t_len x) (t_len y)) 0 x y of
        Some c \<Rightarrow> c
      | None \<Rightarrow>
          if t_len x \<noteq> t_len y then (if t_len x < t_len y then -1 else 1)
          else if t_seq x < t_seq y then -1 else if t_seq x > t_seq y then 1 else 0)"

definition same_tail :: "tail_entry \<Rightarrow> tail_entry \<Rightarrow> bool" where
  "same_tail a b \<longleftrightarrow> t_len a = t_len b \<and> memcmp (t_bytes a) (t_bytes b) (t_len a) = 0"

definition is_proper_suffix :: "tail_entry \<Rightarrow> tail_entry \<Rightarrow> bool" where
  "is_proper_suffix s big \<longleftrightarrow>
     t_len s < t_len big \<and> memcmp (drop (t_len big - t_len s) (t_bytes big)) (t_bytes s) (t_len s) = 0"

text \<open>The pass that numbers the distinct tails, at index \<open>i\<close> with \<open>k\<close> entries to go.\<close>

fun number_loop :: "nat \<Rightarrow> nat \<Rightarrow> nat \<Rightarrow> tail_entry list \<Rightarrow> tail_entry list \<times> nat" where
  "number_loop 0 i ndistinct sorted' = (sorted', ndistinct)"
| "number_loop (Suc k) i ndistinct sorted' =
     (if i > 0 \<and> same_tail (sorted' ! i) (sorted' ! (i - 1))
      then number_loop k (i + 1) ndistinct (sorted'[i := (sorted' ! i)\<lparr>t_distinct_of := ndistinct - 1\<rparr>])
      else number_loop k (i + 1) (ndistinct + 1) (sorted'[i := (sorted' ! i)\<lparr>t_distinct_of := ndistinct\<rparr>]))"

text \<open>Step 3, from the last distinct tail to the first: the tails, the pool and its length.\<close>

fun emit_loop ::
  "nat \<Rightarrow> int \<Rightarrow> tail_entry list \<Rightarrow> u8 list \<Rightarrow> nat \<Rightarrow> (tail_entry list \<times> u8 list \<times> nat) tp" where
  "emit_loop 0 prev distinct' pool pool_len = Ok (distinct', pool, pool_len)"
| "emit_loop (Suc i) prev distinct' pool pool_len =
     (let d = distinct' ! i; big = distinct' ! nat prev in
      if prev \<ge> 0 \<and> is_proper_suffix d big
      then emit_loop i prev (distinct'[i := d\<lparr>t_offset := wrap64 (t_offset big + t_len big) - t_len d\<rparr>]) pool pool_len
      else if pool_len + t_len d \<le> length pool
      then emit_loop i (int i) (distinct'[i := d\<lparr>t_offset := pool_len\<rparr>])
             (take pool_len pool @ take (t_len d) (t_bytes d) @ drop (pool_len + t_len d) pool)
             (wrap64 (pool_len + t_len d))
      else Fault)"

definition zero_entry :: tail_entry where
  "zero_entry = \<lparr>t_bytes = [], t_len = 0, t_offset = 0, t_seq = 0, t_distinct_of = 0\<rparr>"

text \<open>The arrays have \<open>count\<close> elements and every tail its bytes: each is compared or copied in full,
  so a shorter block is a fault of the caller.\<close>

definition tails_readable :: "u8 list list \<Rightarrow> nat list \<Rightarrow> nat \<Rightarrow> bool" where
  "tails_readable tails lens cnt \<longleftrightarrow>
     cnt \<le> length tails \<and> cnt \<le> length lens \<and> (\<forall>i \<in> {0..<cnt}. lens ! i \<le> length (tails ! i))"

definition tp2_tailpool_build ::
  "tail_entry qsort \<Rightarrow> nat \<Rightarrow> u8 list list \<Rightarrow> nat list \<Rightarrow> nat \<Rightarrow> tp2_tailpool option tp" where
  "tp2_tailpool_build qs heap tails lens cnt =
     (if heap < SIZEOF_TAILPOOL then Ok None
      else if cnt = 0 then
        Ok (Some \<lparr>tl_pool = [0], tl_pool_len = 0, tl_distinct = 0, tl_refs = None, tl_count = 0\<rparr>)
      else if heap < cnt * SIZEOF_TAIL_REF \<or> heap < cnt * SIZEOF_TAIL_ENTRY then Ok None
      else if \<not> tails_readable tails lens cnt then Fault
      else
        let es = map (\<lambda>i. \<lparr>t_bytes = tails ! i, t_len = lens ! i, t_offset = 0, t_seq = i, t_distinct_of = 0\<rparr>) [0..<cnt];
            (ss, ndistinct) = number_loop cnt 0 0 (qs cmp_reversed es) in
        if heap < ndistinct * SIZEOF_TAIL_ENTRY then Ok None
        else
          rbind (fold_res (\<lambda>e ds. store ds (t_distinct_of e) e) ss (replicate ndistinct zero_entry)) (\<lambda>ds.
          let cap = fold (\<lambda>d cap. wrap64 (cap + t_len d)) ds 0 in
          if heap < (if cap = 0 then 1 else cap) then Ok None
          else
            rbind (emit_loop ndistinct (-1) ds (replicate (if cap = 0 then 1 else cap) 0) 0) (\<lambda>(ds, pool, pool_len).
            rbind (fold_res (\<lambda>e refs. rbind (fetch ds (t_distinct_of e)) (\<lambda>d.
                     store refs (t_seq e) \<lparr>tr_offset = t_offset d, tr_length = t_len d\<rparr>)) ss
                   (replicate cnt \<lparr>tr_offset = 0, tr_length = 0\<rparr>)) (\<lambda>refs.
            Ok (Some \<lparr>tl_pool = pool, tl_pool_len = pool_len, tl_distinct = ndistinct, tl_refs = Some refs,
                      tl_count = cnt\<rparr>)))))"

definition tp2_tailpool_bytes :: "tp2_tailpool option \<Rightarrow> ptr" where
  "tp2_tailpool_bytes tp = (case tp of None \<Rightarrow> None | Some tp \<Rightarrow> Some (tl_pool tp))"

definition tp2_tailpool_size :: "tp2_tailpool option \<Rightarrow> nat" where
  "tp2_tailpool_size tp = (case tp of None \<Rightarrow> 0 | Some tp \<Rightarrow> tl_pool_len tp)"

definition tp2_tailpool_distinct :: "tp2_tailpool option \<Rightarrow> nat" where
  "tp2_tailpool_distinct tp = (case tp of None \<Rightarrow> 0 | Some tp \<Rightarrow> tl_distinct tp)"

definition tp2_tailpool_ref :: "tp2_tailpool option \<Rightarrow> nat \<Rightarrow> tp2_tail_ref tp" where
  "tp2_tailpool_ref tp i =
     (let none = \<lparr>tr_offset = 0, tr_length = 0\<rparr> in
      case tp of
        None \<Rightarrow> Ok none
      | Some tp \<Rightarrow> (case tl_refs tp of
                     None \<Rightarrow> Ok none
                   | Some refs \<Rightarrow> if i \<ge> tl_count tp then Ok none else fetch refs i))"

section \<open>The comparison is the order of the reversed bytes\<close>

definition content :: "tail_entry \<Rightarrow> u8 list" where
  "content e = take (t_len e) (t_bytes e)"

definition tail_ok :: "tail_entry \<Rightarrow> bool" where
  "tail_ok e \<longleftrightarrow> t_len e \<le> length (t_bytes e)"

lemma length_content [simp]: "tail_ok e \<Longrightarrow> length (content e) = t_len e"
  by (simp add: content_def tail_ok_def)

lemma content_update [simp]:
  "content (e\<lparr>t_distinct_of := n\<rparr>) = content e" "content (e\<lparr>t_offset := o'\<rparr>) = content e"
  "tail_ok (e\<lparr>t_distinct_of := n\<rparr>) = tail_ok e" "tail_ok (e\<lparr>t_offset := o'\<rparr>) = tail_ok e"
  by (simp_all add: content_def tail_ok_def)

fun first_difference :: "u8 list \<Rightarrow> u8 list \<Rightarrow> int option" where
  "first_difference (x # xs) (y # ys) = (if x \<noteq> y then Some (if x < y then -1 else 1) else first_difference xs ys)"
| "first_difference _ _ = None"

lemma cmp_loop_difference:
  assumes x: "tail_ok x" and y: "tail_ok y"
  shows "i + k = min (t_len x) (t_len y) \<Longrightarrow>
    cmp_loop k i x y = first_difference (drop i (rev (content x))) (drop i (rev (content y)))"
proof (induction k arbitrary: i)
  case 0
  then have "drop i (rev (content x)) = [] \<or> drop i (rev (content y)) = []" using x y by (auto simp: min_def split: if_splits)
  then show ?case by (metis cmp_loop.simps(1) first_difference.simps(2,3) neq_Nil_conv)
next
  case (Suc k)
  then have i: "i < t_len x" "i < t_len y" by simp_all
  have "drop i (rev (content e)) = t_bytes e ! (t_len e - 1 - i) # drop (Suc i) (rev (content e))"
    if "tail_ok e" "i < t_len e" for e
  proof -
    have "rev (content e) ! i = t_bytes e ! (t_len e - 1 - i)"
      using that by (simp add: rev_nth) (simp add: content_def)
    then show ?thesis using that by (simp add: Cons_nth_drop_Suc[symmetric])
  qed
  then show ?case using Suc i x y by (simp add: Let_def)
qed

lemma first_difference_less:
  "(case first_difference xs ys of Some c \<Rightarrow> c | None \<Rightarrow> if length xs \<noteq> length ys then (if length xs < length ys then -1 else 1) else d) =
     (if xs = ys then d else if xs < ys then -1 else (1 :: int))"
proof (induction xs arbitrary: ys)
  case Nil
  then show ?case by (cases ys) simp_all
next
  case (Cons x xs)
  then show ?case
  proof (cases ys)
    case ys: (Cons y ys')
    show ?thesis
    proof (cases "x = y")
      case True
      then have "length (x # xs) \<noteq> length ys \<longleftrightarrow> length xs \<noteq> length ys'" "length (x # xs) < length ys \<longleftrightarrow> length xs < length ys'"
        "x # xs = ys \<longleftrightarrow> xs = ys'" "x # xs < ys \<longleftrightarrow> xs < ys'" "first_difference (x # xs) ys = first_difference xs ys'"
        by (simp_all add: ys)
      then show ?thesis using Cons.IH[of ys'] by (simp only:)
    qed (simp add: ys)
  qed simp
qed

lemma cmp_reversed_order:
  assumes "tail_ok x" and "tail_ok y"
  shows "cmp_reversed x y \<le> 0 \<longleftrightarrow>
    rev (content x) < rev (content y) \<or> (content x = content y \<and> t_seq x \<le> t_seq y)"
proof -
  let ?d = "if t_seq x < t_seq y then - 1 else if t_seq x > t_seq y then 1 else (0 :: int)"
  have "cmp_reversed x y = (if rev (content x) = rev (content y) then ?d else if rev (content x) < rev (content y) then -1 else 1)"
    unfolding first_difference_less[symmetric] cmp_reversed_def
    using cmp_loop_difference[OF assms, of 0 "min (t_len x) (t_len y)"] assms by simp
  then show ?thesis by auto
qed

lemma cmp_reversed_consistent: "\<forall>e \<in> A. tail_ok e \<Longrightarrow> consistent_on cmp_reversed A"
  unfolding consistent_on_def by (auto simp: cmp_reversed_order)

lemma same_tail_content: "tail_ok a \<Longrightarrow> tail_ok b \<Longrightarrow> same_tail a b \<longleftrightarrow> content a = content b"
proof -
  assume a: "tail_ok a" and b: "tail_ok b"
  show ?thesis
  proof (cases "t_len a = t_len b")
    case True
    then show ?thesis using memcmp_take[of "t_len a" "t_bytes a" "t_bytes b"] a b
      by (simp add: same_tail_def content_def tail_ok_def)
  next
    case False
    then have "content a \<noteq> content b" using length_content[OF a] length_content[OF b] by metis
    then show ?thesis using False by (simp add: same_tail_def)
  qed
qed

definition proper_suffix :: "u8 list \<Rightarrow> u8 list \<Rightarrow> bool" where
  "proper_suffix s big \<longleftrightarrow> length s < length big \<and> drop (length big - length s) big = s"

lemma is_proper_suffix_content: "tail_ok a \<Longrightarrow> tail_ok b \<Longrightarrow> is_proper_suffix a b \<longleftrightarrow> proper_suffix (content a) (content b)"
  using memcmp_take[of "t_len a" "drop (t_len b - t_len a) (t_bytes b)" "t_bytes a"]
  by (auto simp: is_proper_suffix_def proper_suffix_def content_def tail_ok_def drop_take)

section \<open>Numbering the distinct tails\<close>

definition number_at :: "u8 list list \<Rightarrow> nat \<Rightarrow> nat" where
  "number_at cs j = length (remdups_adj (take (Suc j) cs)) - 1"

lemma remdups_adj_snoc:
  "remdups_adj (xs @ [x]) = (if xs \<noteq> [] \<and> last xs = x then remdups_adj xs else remdups_adj xs @ [x])"
proof (cases "xs = []")
  case False
  then obtain ys y where "xs = ys @ [y]" by (metis append_butlast_last_id)
  then show ?thesis using remdups_adj_append_two[of ys y x] by (simp add: remdups_adj_append'')
qed simp

lemma number_at_nth:
  assumes j: "j < length cs"
  shows "number_at cs j < length (remdups_adj cs)" and "remdups_adj cs ! number_at cs j = cs ! j"
proof -
  let ?p = "remdups_adj (take (Suc j) cs)"
  have ne: "take (Suc j) cs \<noteq> []" "?p \<noteq> []" using j by auto
  have "\<exists>zs. remdups_adj (take n cs @ ys) = remdups_adj (take n cs) @ zs" for n ys
  proof (induction ys rule: rev_induct)
    case (snoc y ys)
    then show ?case using remdups_adj_snoc[of "take n cs @ ys" y] by auto
  qed simp
  from this[of "Suc j" "drop (Suc j) cs"] obtain zs where z: "remdups_adj cs = ?p @ zs" by auto
  have n: "number_at cs j < length ?p" using ne(2) by (simp add: number_at_def)
  then show "number_at cs j < length (remdups_adj cs)" by (simp add: z)
  have "?p ! number_at cs j = last ?p" using last_conv_nth[OF ne(2)] by (simp only: number_at_def)
  also have "\<dots> = last (take (Suc j) cs)" by (rule last_remdups_adj)
  also have "\<dots> = cs ! j" using j by (simp add: take_Suc_conv_app_nth)
  finally show "remdups_adj cs ! number_at cs j = cs ! j" using n by (simp add: z nth_append)
qed

definition renumbered :: "tail_entry list \<Rightarrow> tail_entry list" where
  "renumbered ss = map (\<lambda>j. (ss ! j)\<lparr>t_distinct_of := number_at (map content ss) j\<rparr>) [0..<length ss]"

lemma number_loop_ok:
  assumes ok: "\<forall>e \<in> set ss. tail_ok e"
  shows "i + k = length ss \<Longrightarrow>
    number_loop k i (length (remdups_adj (take i (map content ss)))) (take i (renumbered ss) @ drop i ss) =
      (renumbered ss, length (remdups_adj (map content ss)))"
proof (induction k arbitrary: i)
  case (Suc k)
  let ?cs = "map content ss" and ?es = "take i (renumbered ss) @ drop i ss"
  have len: "length (renumbered ss) = length ss" by (simp add: renumbered_def)
  have i: "i < length ss" using Suc.prems by simp
  have at: "?es ! i = ss ! i" using i len by (simp add: nth_append)
  have before: "i > 0 \<Longrightarrow> content (?es ! (i - 1)) = ?cs ! (i - 1) \<and> tail_ok (?es ! (i - 1))"
    using i ok len by (simp add: nth_append renumbered_def)
  have take: "take (Suc i) ?cs = take i ?cs @ [?cs ! i]" using i by (simp add: take_Suc_conv_app_nth)
  have lst: "i > 0 \<Longrightarrow> last (take i ?cs) = ?cs ! (i - 1)" using i last_conv_nth[of "take i ?cs"] by (cases "ss = []") (simp_all add: min_absorb2)
  have same: "i > 0 \<and> same_tail (?es ! i) (?es ! (i - 1)) \<longleftrightarrow> take i ?cs \<noteq> [] \<and> last (take i ?cs) = ?cs ! i"
  proof (cases "i > 0")
    case True
    then show ?thesis using same_tail_content[of "?es ! i" "?es ! (i - 1)"] before lst ok i at by auto
  qed simp
  have upd: "?es[i := (?es ! i)\<lparr>t_distinct_of := number_at ?cs i\<rparr>] = take (Suc i) (renumbered ss) @ drop (Suc i) ss"
  proof -
    have "drop i ss = ss ! i # drop (Suc i) ss" using i by (simp add: Cons_nth_drop_Suc)
    moreover have "take (Suc i) (renumbered ss) = take i (renumbered ss) @ [(ss ! i)\<lparr>t_distinct_of := number_at ?cs i\<rparr>]"
      using i len by (simp add: take_Suc_conv_app_nth) (simp add: renumbered_def)
    ultimately show ?thesis using at i len by (simp add: list_update_append)
  qed
  have ih: "number_loop k (i + 1) (length (remdups_adj (take (Suc i) ?cs))) (take (Suc i) (renumbered ss) @ drop (Suc i) ss) =
      (renumbered ss, length (remdups_adj ?cs))"
    using Suc.IH[of "i + 1"] Suc.prems by simp
  show ?case
  proof (cases "i > 0 \<and> same_tail (?es ! i) (?es ! (i - 1))")
    case True
    then have "take i ?cs \<noteq> [] \<and> last (take i ?cs) = ?cs ! i" using same by blast
    then have "remdups_adj (take (Suc i) ?cs) = remdups_adj (take i ?cs)"
      unfolding take remdups_adj_snoc by (rule if_P)
    then show ?thesis using True upd ih by (simp add: number_at_def)
  next
    case False
    then have "\<not> (take i ?cs \<noteq> [] \<and> last (take i ?cs) = ?cs ! i)" using same by blast
    then have "remdups_adj (take (Suc i) ?cs) = remdups_adj (take i ?cs) @ [?cs ! i]"
      unfolding take remdups_adj_snoc by (rule if_not_P)
    then show ?thesis using False upd ih by (simp only: number_loop.simps if_False number_at_def) simp
  qed
qed (simp add: renumbered_def)

section \<open>Placing the distinct tails\<close>

lemma place_ok:
  "\<forall>e \<in> set es. t_distinct_of e < length ds \<Longrightarrow>
   \<exists>ds'. fold_res (\<lambda>e ds. store ds (t_distinct_of e) e) es ds = (Ok ds' :: tail_entry list tp) \<and> length ds' = length ds \<and>
     (\<forall>d < length ds. (\<exists>e \<in> set es. t_distinct_of e = d) \<longrightarrow> t_distinct_of (ds' ! d) = d \<and> ds' ! d \<in> set es) \<and>
     (\<forall>d < length ds. (\<forall>e \<in> set es. t_distinct_of e \<noteq> d) \<longrightarrow> ds' ! d = ds ! d)"
proof (induction es arbitrary: ds)
  case (Cons e es)
  have e: "t_distinct_of e < length ds" using Cons.prems by simp
  let ?ds = "ds[t_distinct_of e := e]"
  have "\<forall>e \<in> set es. t_distinct_of e < length ?ds" using Cons.prems by simp
  from Cons.IH[OF this] obtain ds' where ds': "fold_res (\<lambda>e ds. store ds (t_distinct_of e) e) es ?ds = (Ok ds' :: tail_entry list tp)"
    "length ds' = length ?ds"
    "\<forall>d < length ?ds. (\<exists>e \<in> set es. t_distinct_of e = d) \<longrightarrow> t_distinct_of (ds' ! d) = d \<and> ds' ! d \<in> set es"
    "\<forall>d < length ?ds. (\<forall>e \<in> set es. t_distinct_of e \<noteq> d) \<longrightarrow> ds' ! d = ?ds ! d"
    by blast
  have "t_distinct_of (ds' ! d) = d \<and> ds' ! d \<in> set (e # es)"
    if "d < length ds" "\<exists>a \<in> set (e # es). t_distinct_of a = d" for d
  proof (cases "\<exists>a \<in> set es. t_distinct_of a = d")
    case True
    then show ?thesis using ds'(3) that(1) by simp
  next
    case False
    then show ?thesis using ds'(4) that by auto
  qed
  moreover have "ds' ! d = ds ! d" if "d < length ds" "\<forall>a \<in> set (e # es). t_distinct_of a \<noteq> d" for d
    using ds'(4) that by auto
  ultimately show ?case using ds'(1,2) e by (simp add: store_def)
qed simp

lemma cap_sum:
  "c + sum_list (map t_len ds) < 18446744073709551616 \<Longrightarrow>
   fold (\<lambda>d cap. wrap64 (cap + t_len d)) ds c = c + sum_list (map t_len ds)"
  by (induction ds arbitrary: c) (simp_all add: add.assoc)

lemma refs_ok:
  "\<forall>e \<in> set es. t_distinct_of e < length ds \<and> t_seq e < length refs \<Longrightarrow> distinct (map t_seq es) \<Longrightarrow>
   \<exists>refs'. fold_res (\<lambda>e refs. rbind (fetch ds (t_distinct_of e)) (\<lambda>d. store refs (t_seq e) (f d))) es refs = (Ok refs' :: 'r list tp) \<and>
     length refs' = length refs \<and> (\<forall>e \<in> set es. refs' ! t_seq e = f (ds ! t_distinct_of e)) \<and>
     (\<forall>i < length refs. i \<notin> t_seq ` set es \<longrightarrow> refs' ! i = refs ! i)"
proof (induction es arbitrary: refs)
  case (Cons e es)
  let ?r = "refs[t_seq e := f (ds ! t_distinct_of e)]"
  obtain refs' where r: "fold_res (\<lambda>e refs. rbind (fetch ds (t_distinct_of e)) (\<lambda>d. store refs (t_seq e) (f d))) es ?r = (Ok refs' :: 'r list tp)"
    "length refs' = length refs" "\<forall>e \<in> set es. refs' ! t_seq e = f (ds ! t_distinct_of e)"
    "\<And>i. i < length refs \<Longrightarrow> i \<notin> t_seq ` set es \<Longrightarrow> refs' ! i = ?r ! i"
    using Cons.IH[of ?r] Cons.prems by auto
  then show ?case using r(4)[of "t_seq e"] Cons.prems by (simp add: fetch_def store_def)
qed simp

section \<open>Emitting the pool\<close>

text \<open>The pool of a list of tails in emission order, \<open>prev\<close> the tail emitted last.\<close>

fun merged :: "u8 list option \<Rightarrow> u8 list list \<Rightarrow> u8 list" where
  "merged prev [] = []"
| "merged prev (c # cs) =
     (if (case prev of None \<Rightarrow> False | Some p \<Rightarrow> proper_suffix c p) then merged prev cs else c @ merged (Some c) cs)"

definition placed :: "u8 list \<Rightarrow> nat \<Rightarrow> tail_entry \<Rightarrow> bool" where
  "placed pool n e \<longleftrightarrow> t_offset e + t_len e \<le> n \<and> take (t_len e) (drop (t_offset e) pool) = content e"

lemma placed_mono:
  assumes "placed pool n e" and "take n pool' = take n pool" and "n \<le> n'"
  shows "placed pool' n' e"
proof -
  have t: "take (t_len e) (drop (t_offset e) xs) = drop (t_offset e) (take (t_offset e + t_len e) (take n xs))" for xs :: "u8 list"
    using assms(1) by (simp add: placed_def take_drop min_absorb1 add.commute)
  have "take (t_len e) (drop (t_offset e) pool') = take (t_len e) (drop (t_offset e) pool)"
    by (simp only: t assms(2))
  then show ?thesis using assms(1,3) by (simp add: placed_def)
qed

lemma placed_suffix:
  assumes big: "placed pool n b" "tail_ok b" and e: "tail_ok e" and suf: "proper_suffix (content e) (content b)" and n: "n < 18446744073709551616"
  shows "placed pool n (e\<lparr>t_offset := wrap64 (t_offset b + t_len b) - t_len e\<rparr>)"
proof -
  have len: "t_len e < t_len b" and dr: "drop (t_len b - t_len e) (content b) = content e"
    using suf big(2) e by (simp_all add: proper_suffix_def)
  have fit: "t_offset b + t_len b \<le> n" and c: "take (t_len b) (drop (t_offset b) pool) = content b"
    using big(1) by (simp_all add: placed_def)
  have w: "wrap64 (t_offset b + t_len b) = t_offset b + t_len b" using fit n by (intro wrap64_small) linarith
  have o: "t_offset b + t_len b - t_len e = t_len b - t_len e + t_offset b" using len by simp
  have "take (t_len e) (drop (t_len b - t_len e) (drop (t_offset b) pool)) = content e"
    using dr len unfolding c[symmetric] by (simp add: drop_take)
  then show ?thesis unfolding placed_def using fit len w o by simp
qed

text \<open>The tail emitted last, by the index the loop keeps.\<close>

definition emitted :: "tail_entry list \<Rightarrow> int \<Rightarrow> u8 list option" where
  "emitted ds prev = (if prev \<ge> 0 then Some (content (ds ! nat prev)) else None)"

lemma emit_loop_ok:
  "\<forall>e \<in> set ds. tail_ok e \<Longrightarrow> i \<le> length ds \<Longrightarrow> prev < 0 \<or> i \<le> nat prev \<and> nat prev < length ds \<Longrightarrow>
   \<forall>j \<in> {i..<length ds}. placed pool n (ds ! j) \<Longrightarrow> n + sum_list (map t_len (take i ds)) \<le> length pool \<Longrightarrow>
   length pool < 18446744073709551616 \<Longrightarrow>
   \<exists>ds' pool' n'. emit_loop i prev ds pool n = Ok (ds', pool', n') \<and> map content ds' = map content ds \<and>
     (\<forall>e \<in> set ds'. tail_ok e \<and> placed pool' n' e) \<and> n' \<le> length pool' \<and>
     take n' pool' = take n pool @ merged (emitted ds prev) (rev (take i (map content ds)))"
proof (induction i arbitrary: prev ds pool n)
  case 0
  then have "\<forall>e \<in> set ds. placed pool n e" by (metis atLeastLessThan_iff in_set_conv_nth zero_le)
  then show ?case using 0 by simp
next
  case (Suc i)
  let ?d = "ds ! i" and ?big = "ds ! nat prev"
  have i: "i < length ds" using Suc.prems(2) by simp
  have d: "tail_ok ?d" using Suc.prems(1) i by simp
  have len: "t_len (ds[i := e] ! j) = t_len (ds ! j)" if "t_len e = t_len ?d" "j < length ds" for e j
    using that by (cases "j = i") simp_all
  have takes: "take i (ds[i := e]) = take i ds" for e by simp
  have conts: "map content (ds[i := e]) = map content ds" if "content e = content ?d" for e
    using that by (simp add: map_update list_update_same_conv i)
  have sum: "sum_list (map t_len (take (Suc i) ds)) = sum_list (map t_len (take i ds)) + t_len ?d"
    using i by (simp add: take_Suc_conv_app_nth)
  have rv: "rev (take (Suc i) (map content ds)) = content ?d # rev (take i (map content ds))"
    using i by (simp add: take_Suc_conv_app_nth)
  show ?case
  proof (cases "prev \<ge> 0 \<and> is_proper_suffix ?d ?big")
    case True
    let ?e = "?d\<lparr>t_offset := wrap64 (t_offset ?big + t_len ?big) - t_len ?d\<rparr>"
    have p: "Suc i \<le> nat prev" "nat prev < length ds" using Suc.prems(3) True by auto
    then have big: "placed pool n ?big" "tail_ok ?big" using Suc.prems(1,4) by auto
    have suf: "proper_suffix (content ?d) (content ?big)" using True is_proper_suffix_content[OF d big(2)] by simp
    have "n < 18446744073709551616" using Suc.prems(5,6) by linarith
    then have pl: "placed pool n ?e" by (rule placed_suffix[OF big d suf])
    have "\<forall>j \<in> {i..<length (ds[i := ?e])}. placed pool n (ds[i := ?e] ! j)"
      using Suc.prems(4) pl i by (auto simp: nth_list_update)
    moreover have "\<forall>e \<in> set (ds[i := ?e]). tail_ok e" using Suc.prems(1) d set_update_subset_insert[of ds i ?e] by auto
    moreover have "emitted (ds[i := ?e]) prev = emitted ds prev" using p by (simp add: emitted_def)
    moreover have "merged (emitted ds prev) (rev (take (Suc i) (map content ds))) = merged (emitted ds prev) (rev (take i (map content ds)))"
      unfolding rv using True suf by (simp add: emitted_def)
    ultimately show ?thesis
      using Suc.IH[of "ds[i := ?e]" prev pool n] Suc.prems(5,6) i p True sum conts[of ?e] by (simp add: Let_def)
  next
    case False
    let ?e = "?d\<lparr>t_offset := n\<rparr>" and ?n = "n + t_len ?d"
    let ?pool = "take n pool @ take (t_len ?d) (t_bytes ?d) @ drop ?n pool"
    have fit: "?n \<le> length pool" "?n < 18446744073709551616" using Suc.prems(5,6) sum by linarith+
    have cl: "length (take (t_len ?d) (t_bytes ?d)) = t_len ?d" using d by (simp add: tail_ok_def)
    have lp: "length ?pool = length pool" using fit cl by simp
    have old: "take n ?pool = take n pool" using fit by simp
    have new: "take ?n ?pool = take n pool @ content ?d" using fit cl by (simp add: content_def)
    have pl: "placed ?pool ?n ?e" using fit cl by (simp add: placed_def content_def)
    have "placed ?pool ?n (ds ! j)" if "j \<in> {Suc i..<length ds}" for j
      using Suc.prems(4) that by (intro placed_mono[OF _ old]) auto
    then have "\<forall>j \<in> {i..<length (ds[i := ?e])}. placed ?pool ?n (ds[i := ?e] ! j)"
      using pl i by (auto simp: nth_list_update)
    moreover have "\<forall>e \<in> set (ds[i := ?e]). tail_ok e" using Suc.prems(1) d set_update_subset_insert[of ds i ?e] by auto
    moreover have "emitted (ds[i := ?e]) (int i) = Some (content ?d)" using i by (simp add: emitted_def)
    moreover have "merged (emitted ds prev) (rev (take (Suc i) (map content ds))) =
        content ?d @ merged (Some (content ?d)) (rev (take i (map content ds)))"
    proof -
      have "\<not> (case emitted ds prev of None \<Rightarrow> False | Some p \<Rightarrow> proper_suffix (content ?d) p)"
        using False Suc.prems(1,3) is_proper_suffix_content[OF d] by (auto simp: emitted_def)
      then show ?thesis unfolding rv by simp
    qed
    moreover have "emit_loop (Suc i) prev ds pool n = emit_loop i (int i) (ds[i := ?e]) ?pool ?n"
      unfolding emit_loop.simps Let_def if_not_P[OF False] if_P[OF fit(1)] wrap64_small[OF fit(2)] by (rule refl)
    ultimately show ?thesis
      using Suc.IH[of "ds[i := ?e]" "int i" ?pool ?n] Suc.prems(5,6) i sum conts[of ?e] lp new by simp
  qed
qed

section \<open>Exactly the tails that are no suffix of another are emitted\<close>

lemma proper_suffix_append: "proper_suffix c t \<longleftrightarrow> (\<exists>x. x \<noteq> [] \<and> t = x @ c)"
proof
  assume p: "proper_suffix c t"
  then have "t = take (length t - length c) t @ c" by (metis append_take_drop_id proper_suffix_def)
  moreover have "take (length t - length c) t \<noteq> []" using p by (auto simp: proper_suffix_def)
  ultimately show "\<exists>x. x \<noteq> [] \<and> t = x @ c" by blast
qed (auto simp: proper_suffix_def)

lemma prefix_between: "(a :: u8 list) \<le> b \<Longrightarrow> b \<le> a @ x \<Longrightarrow> take (length a) b = a"
proof (induction a arbitrary: b)
  case (Cons y ys)
  then show ?case by (cases b) auto
qed simp

lemma append_greater: "x \<noteq> [] \<Longrightarrow> (a :: u8 list) < a @ x"
  by (induction a) (auto simp: neq_Nil_conv)

lemma merged_maximal:
  "sorted_wrt (\<lambda>a b. rev b < rev a) (A @ cs) \<Longrightarrow>
   (case prev of None \<Rightarrow> A = [] | Some p \<Rightarrow> p \<in> set A \<and> (last A = p \<or> proper_suffix (last A) p)) \<Longrightarrow>
   merged prev cs = concat (filter (\<lambda>c. \<not> (\<exists>t \<in> set (A @ cs). proper_suffix c t)) cs)"
proof (induction cs arbitrary: A prev)
  case (Cons c cs)
  have srt: "sorted_wrt (\<lambda>a b. rev b < rev a) ((A @ [c]) @ cs)" using Cons.prems(1) by simp
  have ne: "prev \<noteq> None \<Longrightarrow> A \<noteq> []" using Cons.prems(2) by (auto split: option.splits)
  show ?case
  proof (cases "case prev of None \<Rightarrow> False | Some p \<Rightarrow> proper_suffix c p")
    case True
    then obtain p where p: "prev = Some p" "proper_suffix c p" "p \<in> set A" using Cons.prems(2) by (auto split: option.splits)
    then have "\<exists>t \<in> set (A @ c # cs). proper_suffix c t" by auto
    moreover have "merged prev cs = concat (filter (\<lambda>c'. \<not> (\<exists>t \<in> set ((A @ [c]) @ cs). proper_suffix c' t)) cs)"
      using p by (intro Cons.IH[OF srt]) simp
    ultimately show ?thesis using True by auto
  next
    case False
    have "\<not> proper_suffix c t" if t: "t \<in> set (A @ c # cs)" for t
    proof
      assume "proper_suffix c t"
      then obtain x where x: "x \<noteq> []" "t = x @ c" by (auto simp: proper_suffix_append)
      have above: "rev c < rev t" using x append_greater[of "rev x" "rev c"] by simp
      then have tA: "t \<in> set A" using t Cons.prems(1) by (auto simp: sorted_wrt_append dest: less_asym)
      then obtain p where p: "prev = Some p" using Cons.prems(2) by (cases prev) auto
      have "A \<noteq> []" using tA by auto
      then have A: "A = butlast A @ [last A]" by simp
      have "last A \<in> set A" using \<open>A \<noteq> []\<close> by simp
      then have cl: "rev c < rev (last A)" using Cons.prems(1) by (auto simp: sorted_wrt_append)
      have "rev (last A) \<le> rev t"
      proof (cases "t = last A")
        case False
        then have "t \<in> set (butlast A)" using tA by (subst (asm) A) simp
        moreover have "sorted_wrt (\<lambda>a b. rev b < rev a) (butlast A @ [last A])" using Cons.prems(1) A by (simp add: sorted_wrt_append)
        ultimately show ?thesis by (simp add: sorted_wrt_append less_imp_le)
      qed simp
      then have "take (length (rev c)) (rev (last A)) = rev c"
        using cl x by (intro prefix_between[of _ _ "rev x"]) simp_all
      then have "rev (last A) = rev c @ drop (length c) (rev (last A))" using append_take_drop_id[of "length c" "rev (last A)"] by simp
      from arg_cong[OF this, of rev] have "last A = rev (drop (length c) (rev (last A))) @ c" by (simp only: rev_append rev_rev_ident)
      then obtain y where y: "last A = y @ c" by blast
      have "y \<noteq> []"
      proof
        assume "y = []"
        with y have "last A = c" by (simp only: append_Nil)
        with cl show False by (simp only: less_irrefl)
      qed
      have "last A = p \<or> proper_suffix (last A) p" using Cons.prems(2) p by simp
      then obtain z where "p = z @ last A" unfolding proper_suffix_append by (metis append_Nil)
      then have "p = (z @ y) @ c" using y by simp
      then have "proper_suffix c p" using \<open>y \<noteq> []\<close> unfolding proper_suffix_append by (intro exI[of _ "z @ y"]) simp
      then show False using False p by simp
    qed
    moreover have "merged (Some c) cs = concat (filter (\<lambda>c'. \<not> (\<exists>t \<in> set ((A @ [c]) @ cs). proper_suffix c' t)) cs)"
      by (intro Cons.IH[OF srt]) simp
    ultimately show ?thesis using False by simp
  qed
qed simp

text \<open>The specification: distinct tails in descending order of their reversed bytes, those kept that
  are no proper suffix of another.\<close>

definition tail_order :: "u8 list set \<Rightarrow> u8 list list" where
  "tail_order S = rev (map rev (sorted_list_of_set (rev ` S)))"

definition suffix_pool :: "u8 list set \<Rightarrow> u8 list" where
  "suffix_pool S = concat (filter (\<lambda>c. \<not> (\<exists>t \<in> S. proper_suffix c t)) (tail_order S))"

lemma set_tail_order: "finite S \<Longrightarrow> set (tail_order S) = S"
  by (simp add: tail_order_def image_image)

lemma tail_order_sorted: "sorted_wrt (\<lambda>a b. rev b < rev a) (tail_order S)"
  using strict_sorted_list_of_set[of "rev ` S"] by (simp add: tail_order_def sorted_wrt_rev sorted_wrt_map)

lemma merged_tail_order: "finite S \<Longrightarrow> merged None (tail_order S) = suffix_pool S"
  using merged_maximal[of "[]" "tail_order S" None] tail_order_sorted by (simp add: set_tail_order suffix_pool_def)

lemma distinct_remdups_adj: "sorted (xs :: 'b::linorder list) \<Longrightarrow> distinct (remdups_adj xs)"
  by (induction xs rule: remdups_adj.induct) auto

lemma remdups_adj_tail_order:
  assumes "sorted (map rev cs)"
  shows "rev (remdups_adj cs) = tail_order (set cs)" and "distinct (remdups_adj cs)"
proof -
  have inj: "inj (rev :: u8 list \<Rightarrow> u8 list)" by (simp add: inj_def)
  have r: "remdups_adj (map rev cs) = map rev (remdups_adj cs)" by (rule remdups_adj_map_injective[OF inj])
  have d: "sorted (map rev (remdups_adj cs))" "distinct (map rev (remdups_adj cs))"
    using sorted_remdups_adj[OF assms] distinct_remdups_adj[OF assms] unfolding r by blast+
  then show "distinct (remdups_adj cs)" by (simp add: distinct_map)
  have "map rev (remdups_adj cs) = sorted_list_of_set (rev ` set cs)"
    using d by (intro sorted_distinct_set_unique) simp_all
  from arg_cong[OF this, of "map rev"] have "remdups_adj cs = map rev (sorted_list_of_set (rev ` set cs))" by (simp add: o_def)
  then show "rev (remdups_adj cs) = tail_order (set cs)" by (simp add: tail_order_def)
qed

lemma sum_list_remdups_adj: "sum_list (map f (remdups_adj xs)) \<le> sum_list (map (f :: 'b \<Rightarrow> nat) xs)"
  by (induction xs rule: remdups_adj.induct) auto

section \<open>The whole build\<close>

definition tail_list :: "u8 list list \<Rightarrow> nat list \<Rightarrow> nat \<Rightarrow> u8 list list" where
  "tail_list tails lens cnt = map (\<lambda>i. take (lens ! i) (tails ! i)) [0..<cnt]"

definition entries_of :: "u8 list list \<Rightarrow> nat list \<Rightarrow> nat \<Rightarrow> tail_entry list" where
  "entries_of tails lens cnt =
     map (\<lambda>i. \<lparr>t_bytes = tails ! i, t_len = lens ! i, t_offset = 0, t_seq = i, t_distinct_of = 0\<rparr>) [0..<cnt]"

text \<open>The sorted and numbered entries: each input once, numbered by its tail.\<close>

lemma numbered:
  assumes q: "qsort_ok qs" and r: "tails_readable tails lens cnt"
  defines "ss \<equiv> renumbered (qs cmp_reversed (entries_of tails lens cnt))"
    and "D \<equiv> remdups_adj (map content (qs cmp_reversed (entries_of tails lens cnt)))"
  shows "number_loop cnt 0 0 (qs cmp_reversed (entries_of tails lens cnt)) = (ss, length D)"
    and "rev D = tail_order (set (tail_list tails lens cnt))" and "distinct D" and "length ss = cnt" and "length D \<le> cnt"
    and "\<forall>e \<in> set ss. tail_ok e \<and> t_seq e < cnt \<and> content e = tail_list tails lens cnt ! t_seq e \<and> t_len e = lens ! t_seq e \<and>
           t_distinct_of e < length D \<and> D ! t_distinct_of e = content e"
    and "distinct (map t_seq ss)" and "t_seq ` set ss = {0..<cnt}"
    and "t_distinct_of ` set ss = {0..<length D}" and "sum_list (map length D) \<le> sum_list (take cnt lens)"
proof -
  let ?es = "entries_of tails lens cnt" and ?T = "tail_list tails lens cnt"
  define s0 where "s0 = qs cmp_reversed ?es"
  let ?cs = "map content s0"
  note D = D_def[folded s0_def] and ss = ss_def[folded s0_def]
  have es: "\<forall>e \<in> set ?es. tail_ok e \<and> t_seq e < cnt \<and> content e = ?T ! t_seq e \<and> t_len e = lens ! t_seq e"
    using r by (auto simp: entries_of_def tails_readable_def tail_ok_def content_def tail_list_def)
  have ec: "map content ?es = ?T" by (simp add: entries_of_def tail_list_def content_def)
  have eseq: "map t_seq ?es = [0..<cnt]" by (simp add: entries_of_def o_def)
  have elen: "map t_len ?es = take cnt lens"
    using r by (intro nth_equalityI) (simp_all add: entries_of_def tails_readable_def)
  have con: "consistent_on cmp_reversed (set ?es)" using es by (intro cmp_reversed_consistent) auto
  have ms: "mset s0 = mset ?es" and so: "sorted_wrt (\<lambda>a b. cmp_reversed a b \<le> 0) s0"
    using q con by (simp_all add: qsort_ok_def s0_def)
  have st: "set s0 = set ?es" using ms by (metis set_mset_mset)
  have len: "length s0 = cnt" using mset_eq_length[OF ms] by (simp add: entries_of_def)
  have s0: "\<forall>e \<in> set s0. tail_ok e" using es st by simp
  have seqs: "mset (map t_seq s0) = mset [0..<cnt]" unfolding eseq[symmetric] mset_map ms by (rule refl)
  have srt: "sorted (map rev ?cs)"
    unfolding sorted_map map_map o_def
    using so es by (elim sorted_wrt_mono_rel[rotated]) (auto simp: cmp_reversed_order st less_imp_le)
  have sT: "set ?cs = set ?T" using st ec by (metis set_map)
  show "number_loop cnt 0 0 (qs cmp_reversed ?es) = (ss, length D)"
    using number_loop_ok[OF s0, of 0 cnt] len by (simp add: D ss s0_def[symmetric])
  show "rev D = tail_order (set ?T)" "distinct D" using remdups_adj_tail_order[OF srt] by (simp_all only: D sT)
  show "length ss = cnt" by (simp add: ss renumbered_def len)
  show "length D \<le> cnt" using remdups_adj_length[of ?cs] len by (simp add: D)
  have nth: "ss ! j = (s0 ! j)\<lparr>t_distinct_of := number_at ?cs j\<rparr>" if "j < cnt" for j
    using that len by (simp add: ss renumbered_def)
  have each: "tail_ok (ss ! j) \<and> t_seq (ss ! j) < cnt \<and> content (ss ! j) = ?T ! t_seq (ss ! j) \<and> t_len (ss ! j) = lens ! t_seq (ss ! j) \<and>
      t_distinct_of (ss ! j) < length D \<and> D ! t_distinct_of (ss ! j) = content (ss ! j)" if "j < cnt" for j
    using that es st number_at_nth[of j ?cs] len nth_mem[of j s0] by (simp add: nth D)
  then show "\<forall>e \<in> set ss. tail_ok e \<and> t_seq e < cnt \<and> content e = ?T ! t_seq e \<and> t_len e = lens ! t_seq e \<and>
      t_distinct_of e < length D \<and> D ! t_distinct_of e = content e"
    using \<open>length ss = cnt\<close> by (metis in_set_conv_nth)
  have ms2: "map t_seq ss = map t_seq s0"
    using nth \<open>length ss = cnt\<close> len by (intro nth_equalityI) simp_all
  show "distinct (map t_seq ss)" unfolding ms2 using mset_eq_imp_distinct_iff[OF seqs] by simp
  show "t_seq ` set ss = {0..<cnt}" using mset_eq_setD[OF seqs] ms2 by (metis set_map set_upt)
  show "t_distinct_of ` set ss = {0..<length D}"
  proof
    show "t_distinct_of ` set ss \<subseteq> {0..<length D}" using each \<open>length ss = cnt\<close> by (auto simp: in_set_conv_nth)
    show "{0..<length D} \<subseteq> t_distinct_of ` set ss"
    proof
      fix d assume d: "d \<in> {0..<length D}"
      then have "D ! d \<in> set ?cs" by (metis D atLeastLessThan_iff nth_mem remdups_adj_set)
      then obtain j where j: "j < cnt" "?cs ! j = D ! d" using len by (metis in_set_conv_nth length_map)
      then have "D ! number_at ?cs j = D ! d" "number_at ?cs j < length D" using number_at_nth[of j ?cs] len by (simp_all add: D)
      then have "number_at ?cs j = d" using d \<open>distinct D\<close> by (simp add: nth_eq_iff_index_eq)
      then have "t_distinct_of (ss ! j) = d" using nth[OF j(1)] by simp
      then show "d \<in> t_distinct_of ` set ss" using j \<open>length ss = cnt\<close> by (metis imageI nth_mem)
    qed
  qed
  have "sum_list (map length ?cs) = sum_list (map length (map content ?es))"
    using ms by (metis mset_map sum_mset_sum_list)
  also have "map length (map content ?es) = map t_len ?es" using es length_content by (simp only: map_map o_def) (intro map_cong refl, blast)
  finally show "sum_list (map length D) \<le> sum_list (take cnt lens)"
    using sum_list_remdups_adj[of length ?cs] by (simp add: D elen)
qed

text \<open>The distinct tails in their places.\<close>

lemma placed_entries:
  assumes nd: "\<forall>e \<in> set ss. tail_ok e \<and> t_distinct_of e < length D \<and> D ! t_distinct_of e = content e"
    and all: "t_distinct_of ` set ss = {0..<length D}"
  obtains ds where "fold_res (\<lambda>e ds. store ds (t_distinct_of e) e) ss (replicate (length D) zero_entry) = (Ok ds :: tail_entry list tp)"
    and "map content ds = D" and "\<forall>e \<in> set ds. tail_ok e" and "map t_len ds = map length D"
proof -
  obtain ds where ds: "fold_res (\<lambda>e ds. store ds (t_distinct_of e) e) ss (replicate (length D) zero_entry) = (Ok ds :: tail_entry list tp)"
    "length ds = length D"
    "\<And>d. d < length D \<Longrightarrow> \<exists>e \<in> set ss. t_distinct_of e = d \<Longrightarrow> t_distinct_of (ds ! d) = d \<and> ds ! d \<in> set ss"
    using place_ok[of ss "replicate (length D) zero_entry"] nd by auto
  have at: "t_distinct_of (ds ! d) = d \<and> ds ! d \<in> set ss" if "d < length D" for d
  proof -
    have "d \<in> t_distinct_of ` set ss" using that all by simp
    then show ?thesis using ds(3)[OF that] by blast
  qed
  then have c: "content (ds ! d) = D ! d \<and> tail_ok (ds ! d)" if "d < length D" for d using that nd by force
  have "map content ds = D" using c ds(2) by (intro nth_equalityI) simp_all
  moreover have "\<forall>e \<in> set ds. tail_ok e" using c ds(2) by (metis in_set_conv_nth)
  moreover have "map t_len ds = map length D" using c ds(2) by (intro nth_equalityI) (simp_all, metis length_content)
  ultimately show ?thesis using ds(1) that by blast
qed

text \<open>What a built pool promises for the tails \<open>T\<close>.\<close>

definition pool_holds :: "u8 list list \<Rightarrow> tp2_tailpool \<Rightarrow> bool" where
  "pool_holds T tp \<longleftrightarrow>
     tp2_tailpool_distinct (Some tp) = card (set T) \<and>
     tp2_tailpool_size (Some tp) = length (suffix_pool (set T)) \<and>
     (\<exists>pad. tp2_tailpool_bytes (Some tp) = Some (suffix_pool (set T) @ pad)) \<and>
     (\<forall>i. \<exists>r. tp2_tailpool_ref (Some tp) i = Ok r \<and>
        (if i < length T then tr_length r = length (T ! i) \<and> tr_offset r + tr_length r \<le> tp2_tailpool_size (Some tp) \<and>
           take (tr_length r) (drop (tr_offset r) (suffix_pool (set T))) = T ! i
         else r = \<lparr>tr_offset = 0, tr_length = 0\<rparr>))"

lemma tailpool_build_ok:
  assumes q: "qsort_ok qs" and r: "tails_readable tails lens cnt" and small: "sum_list (take cnt lens) < 9223372036854775808"
  shows "tp2_tailpool_build qs heap tails lens cnt = Ok None \<and> heap < 40 + 40 * cnt + sum_list (take cnt lens) \<or>
    (\<exists>tp. tp2_tailpool_build qs heap tails lens cnt = Ok (Some tp) \<and> pool_holds (tail_list tails lens cnt) tp)"
proof (cases "heap < SIZEOF_TAILPOOL \<or> cnt = 0")
  case True
  then show ?thesis by (auto simp: tp2_tailpool_build_def SIZEOF_TAILPOOL_def pool_holds_def tail_list_def suffix_pool_def
      tail_order_def tp2_tailpool_distinct_def tp2_tailpool_size_def tp2_tailpool_bytes_def tp2_tailpool_ref_def)
next
  case False
  let ?T = "tail_list tails lens cnt"
  define s0 where "s0 = qs cmp_reversed (entries_of tails lens cnt)"
  define D where "D = remdups_adj (map content s0)"
  define ss where "ss = renumbered s0"
  note n = numbered[OF q r, folded s0_def, folded D_def ss_def]
  have lT: "length ?T = cnt" by (simp add: tail_list_def)
  show ?thesis
  proof (cases "heap < cnt * SIZEOF_TAIL_REF \<or> heap < cnt * SIZEOF_TAIL_ENTRY \<or> heap < length D * SIZEOF_TAIL_ENTRY")
    case True
    then have "heap < 40 * cnt" using n(5) by (auto simp: SIZEOF_TAIL_ENTRY_def SIZEOF_TAIL_REF_def)
    moreover have "tp2_tailpool_build qs heap tails lens cnt = Ok None"
      using True False r n(1) by (auto simp: tp2_tailpool_build_def entries_of_def[symmetric] s0_def[symmetric])
    ultimately show ?thesis by simp
  next
    case room: False
    obtain ds where ds: "fold_res (\<lambda>e ds. store ds (t_distinct_of e) e) ss (replicate (length D) zero_entry) = (Ok ds :: tail_entry list tp)"
      "map content ds = D" "\<forall>e \<in> set ds. tail_ok e" "map t_len ds = map length D"
      using placed_entries[OF _ n(9)] n(6) by blast
    have ld: "length ds = length D" using arg_cong[OF ds(2), of length] by simp
    define cap where "cap = sum_list (map length D)"
    have cap: "fold (\<lambda>d cap. wrap64 (cap + t_len d)) ds 0 = cap"
      using cap_sum[of 0 ds] n(10) small ds(4) by (simp add: cap_def)
    define mem where "mem = (if cap = 0 then 1 else cap)"
    show ?thesis
    proof (cases "heap < mem")
      case True
      then have "heap < 40 + sum_list (take cnt lens)" using n(10) by (auto simp: mem_def cap_def split: if_splits)
      moreover have "tp2_tailpool_build qs heap tails lens cnt = Ok None"
        using True False room r n(1) ds(1) cap by (simp add: tp2_tailpool_build_def entries_of_def[symmetric] s0_def[symmetric] mem_def)
      ultimately show ?thesis by simp
    next
      case fits: False
      have pre: "0 + sum_list (map t_len (take (length D) ds)) \<le> length (replicate mem (0 :: u8))" "length (replicate mem (0 :: u8)) < 18446744073709551616"
        using ld ds(4) n(10) small cap_def[symmetric] by (simp_all add: mem_def)
      obtain ds' pool n' where em: "emit_loop (length D) (- 1) ds (replicate mem 0) 0 = Ok (ds', pool, n')"
        "map content ds' = map content ds" "\<forall>e \<in> set ds'. tail_ok e \<and> placed pool n' e" "n' \<le> length pool"
        "take n' pool = take 0 (replicate mem 0) @ merged (emitted ds (- 1)) (rev (take (length D) (map content ds)))"
        using emit_loop_ok[OF ds(3) _ _ _ pre, of "- 1"] ld by auto
      have pool: "take n' pool = suffix_pool (set ?T)"
        using em(5) n(2) by (simp add: emitted_def ds(2) merged_tail_order)
      then have size: "n' = length (suffix_pool (set ?T))" using em(4) by (metis length_take min_absorb2)
      have ld': "length ds' = length D" using arg_cong[OF em(2), of length] ds(2) by simp
      obtain refs where refs: "fold_res (\<lambda>e refs. rbind (fetch ds' (t_distinct_of e)) (\<lambda>d.
            store refs (t_seq e) \<lparr>tr_offset = t_offset d, tr_length = t_len d\<rparr>)) ss (replicate cnt \<lparr>tr_offset = 0, tr_length = 0\<rparr>) =
            (Ok refs :: tp2_tail_ref list tp)" "length refs = cnt"
          "\<forall>e \<in> set ss. refs ! t_seq e = \<lparr>tr_offset = t_offset (ds' ! t_distinct_of e), tr_length = t_len (ds' ! t_distinct_of e)\<rparr>"
        using refs_ok[of ss ds' "replicate cnt \<lparr>tr_offset = 0, tr_length = 0\<rparr>" "\<lambda>d. \<lparr>tr_offset = t_offset d, tr_length = t_len d\<rparr>"]
          n(6,7) ld' by auto
      let ?tp = "\<lparr>tl_pool = pool, tl_pool_len = n', tl_distinct = length D, tl_refs = Some refs, tl_count = cnt\<rparr>"
      have build: "tp2_tailpool_build qs heap tails lens cnt = Ok (Some ?tp)"
        using fits False room r n(1) ds(1) cap em(1) refs(1)
        by (simp add: tp2_tailpool_build_def entries_of_def[symmetric] s0_def[symmetric] mem_def[symmetric])
      have ref: "tr_length (refs ! i) = length (?T ! i) \<and> tr_offset (refs ! i) + tr_length (refs ! i) \<le> n' \<and>
          take (tr_length (refs ! i)) (drop (tr_offset (refs ! i)) (suffix_pool (set ?T))) = ?T ! i" if "i < cnt" for i
      proof -
        have "i \<in> t_seq ` set ss" using that n(8) by simp
        then obtain e where e: "e \<in> set ss" "t_seq e = i" by blast
        let ?d = "ds' ! t_distinct_of e"
        have lt: "t_distinct_of e < length D" "D ! t_distinct_of e = ?T ! i" using n(6) e by auto
        then have d: "tail_ok ?d" "placed pool n' ?d" using em(3) ld' by simp_all
        have "content ?d = ?T ! i" using lt ld' em(2) ds(2) by (metis nth_map)
        moreover have "placed (suffix_pool (set ?T)) n' ?d" using d(2) by (rule placed_mono) (simp_all add: pool[symmetric])
        moreover have "refs ! i = \<lparr>tr_offset = t_offset ?d, tr_length = t_len ?d\<rparr>" using refs(3) e by blast
        ultimately show ?thesis using length_content[OF d(1)] by (simp add: placed_def)
      qed
      have "card (set ?T) = length D"
        using n(2,3) set_tail_order[of "set ?T"] by (metis distinct_card distinct_rev length_rev List.finite_set)
      moreover have "pool = suffix_pool (set ?T) @ drop n' pool" using pool by (metis append_take_drop_id)
      moreover have "\<exists>r. tp2_tailpool_ref (Some ?tp) i = Ok r \<and>
          (if i < cnt then tr_length r = length (?T ! i) \<and> tr_offset r + tr_length r \<le> n' \<and>
             take (tr_length r) (drop (tr_offset r) (suffix_pool (set ?T))) = ?T ! i
           else r = \<lparr>tr_offset = 0, tr_length = 0\<rparr>)" for i
      proof (cases "i < cnt")
        case True
        then have "tp2_tailpool_ref (Some ?tp) i = Ok (refs ! i)" using refs(2) by (simp add: tp2_tailpool_ref_def fetch_def)
        then show ?thesis unfolding if_P[OF True] using ref[OF True] by blast
      qed (simp add: tp2_tailpool_ref_def)
      ultimately have "pool_holds ?T ?tp"
        unfolding pool_holds_def lT tp2_tailpool_distinct_def tp2_tailpool_size_def tp2_tailpool_bytes_def
          option.case tp2_tailpool.select_convs size[symmetric] by (metis (no_types))
      then show ?thesis using build by blast
    qed
  qed
qed

end
