(* ===== verification/Json_Encode.thy ===== *)
theory Json_Encode
  imports Build
begin

text \<open>
  The JSON encoder of \<open>src/json/json_encode.c\<close>: a recursive-descent parser that flattens a document
  into dotted paths and adds each leaf to an encoder. Parser operations return the parser they leave
  behind; on an error the caller discards parser and encoder, so an error carries none. The
  recursion takes fuel, \<open>Diverge\<close> when it runs out; \<open>Json_Safe\<close> shows that \<open>json_fuel\<close> is enough.

  \<open>strtod\<close> of the C library is a parameter, from the text of a number to the bit pattern of the
  double; \<open>strtoll\<close> and \<open>strtoull\<close> on digits are written out, with their saturation. Character
  buffers on the stack start as zeros here: a byte that was not written is never read, since a
  string that does not fit faults at its terminator.
\<close>

section \<open>State\<close>

definition TP_MAX_NESTING_DEPTH :: nat where "TP_MAX_NESTING_DEPTH = 32"
definition PATH_SIZE :: nat where "PATH_SIZE = 4096"

record json_parser =
  jp_src :: "u8 list"
  jp_len :: nat
  jp_pos :: nat
  jp_depth :: nat
  jp_enc :: tp_encoder
  jp_path :: "u8 list"
  jp_path_len :: nat

type_synonym 'a parsing = "json_parser \<Rightarrow> ('a \<times> json_parser) tp"

section \<open>White space\<close>

definition is_ws :: "u8 \<Rightarrow> bool" where
  "is_ws c \<longleftrightarrow> c = 32 \<or> c = 9 \<or> c = 10 \<or> c = 13"

function ws_end :: "u8 list \<Rightarrow> nat \<Rightarrow> nat \<Rightarrow> nat tp" where
  "ws_end src len pos =
     (if pos < len then rbind (load src pos) (\<lambda>c. if is_ws c then ws_end src len (pos + 1) else Ok pos)
      else Ok pos)"
  by pat_completeness auto
termination by (relation "measure (\<lambda>(src, len, pos). len - pos)") auto

declare ws_end.simps [simp del]

definition skip_ws :: "json_parser \<Rightarrow> json_parser tp" where
  "skip_ws p = rbind (ws_end (jp_src p) (jp_len p) (jp_pos p)) (\<lambda>pos. Ok (p\<lparr>jp_pos := pos\<rparr>))"

definition peek :: "u8 parsing" where
  "peek p =
     rbind (skip_ws p) (\<lambda>p.
     if jp_pos p \<ge> jp_len p then Ok (0, p)
     else rbind (load (jp_src p) (jp_pos p)) (\<lambda>c. Ok (c, p)))"

definition expect :: "u8 \<Rightarrow> bool parsing" where
  "expect c p =
     rbind (skip_ws p) (\<lambda>p.
     if jp_pos p < jp_len p then
       rbind (load (jp_src p) (jp_pos p)) (\<lambda>x.
       if x = c then Ok (True, p\<lparr>jp_pos := jp_pos p + 1\<rparr>) else Ok (False, p))
     else Ok (False, p))"

section \<open>Paths\<close>

text \<open>\<open>snprintf\<close> with \<open>%u\<close>: the decimal digits.\<close>

fun decimal :: "nat \<Rightarrow> u8 list" where
  "decimal n = (if n < 10 then [48 + word_of_nat n] else decimal (n div 10) @ [48 + word_of_nat (n mod 10)])"

declare decimal.simps [simp del]

definition path_push_key :: "u8 list \<Rightarrow> nat \<Rightarrow> nat parsing" where
  "path_push_key key key_len p =
     (let saved = jp_path_len p in
      rbind (if jp_path_len p > 0
             then rbind (store (jp_path p) (jp_path_len p) 46) (\<lambda>path. Ok (path, jp_path_len p + 1))
             else Ok (jp_path p, jp_path_len p)) (\<lambda>(path, path_len).
      rbind (if path_len + key_len < PATH_SIZE
             then rbind (memcpy path path_len key key_len) (\<lambda>path. Ok (path, path_len + key_len))
             else Ok (path, path_len)) (\<lambda>(path, path_len).
      rbind (store path path_len 0) (\<lambda>path. Ok (saved, p\<lparr>jp_path := path, jp_path_len := path_len\<rparr>)))))"

definition path_push_index :: "nat \<Rightarrow> nat parsing" where
  "path_push_index idx p =
     (let saved = jp_path_len p; tmp = [91] @ decimal idx @ [93]; n = length tmp in
      rbind (if n > 0 \<and> jp_path_len p + n < PATH_SIZE
             then rbind (memcpy (jp_path p) (jp_path_len p) tmp n) (\<lambda>path. Ok (path, jp_path_len p + n))
             else Ok (jp_path p, jp_path_len p)) (\<lambda>(path, path_len).
      rbind (store path path_len 0) (\<lambda>path. Ok (saved, p\<lparr>jp_path := path, jp_path_len := path_len\<rparr>))))"

definition path_restore :: "nat \<Rightarrow> json_parser \<Rightarrow> json_parser tp" where
  "path_restore saved_len p =
     rbind (store (jp_path p) saved_len 0) (\<lambda>path. Ok (p\<lparr>jp_path := path, jp_path_len := saved_len\<rparr>))"

section \<open>Strings\<close>

definition hex_digit :: "u8 \<Rightarrow> u32 option" where
  "hex_digit h =
     (if 48 \<le> h \<and> h \<le> 57 then Some (ucast h - 48)
      else if 97 \<le> h \<and> h \<le> 102 then Some (ucast h - 97 + 10)
      else if 65 \<le> h \<and> h \<le> 70 then Some (ucast h - 65 + 10)
      else None)"

fun hex_loop :: "u8 list \<Rightarrow> nat \<Rightarrow> nat \<Rightarrow> u32 \<Rightarrow> (u32 \<times> nat) tp" where
  "hex_loop src 0 pos cp = Ok (cp, pos)"
| "hex_loop src (Suc k) pos cp =
     rbind (load src pos) (\<lambda>h.
     case hex_digit h of
       None \<Rightarrow> Err TP_ERR_JSON_SYNTAX
     | Some d \<Rightarrow> hex_loop src k (pos + 1) (push_bit 4 cp OR d))"

definition json_utf8 :: "u32 \<Rightarrow> u8 list" where
  "json_utf8 cp =
     (if cp < 0x80 then [ucast cp]
      else if cp < 0x800 then [ucast (0xC0 OR drop_bit 6 cp), ucast (0x80 OR (cp AND 0x3F))]
      else if cp < 0x10000 then
        [ucast (0xE0 OR drop_bit 12 cp), ucast (0x80 OR (drop_bit 6 cp AND 0x3F)), ucast (0x80 OR (cp AND 0x3F))]
      else if cp < 0x110000 then
        [ucast (0xF0 OR drop_bit 18 cp), ucast (0x80 OR (drop_bit 12 cp AND 0x3F)),
         ucast (0x80 OR (drop_bit 6 cp AND 0x3F)), ucast (0x80 OR (cp AND 0x3F))]
      else [])"

text \<open>What follows \<open>\\u\<close>, with the second half of a surrogate pair.\<close>

definition unicode_escape :: "u8 list \<Rightarrow> nat \<Rightarrow> nat \<Rightarrow> (u8 list \<times> nat) tp" where
  "unicode_escape src len pos =
     (if pos + 4 > len then Err TP_ERR_JSON_SYNTAX
      else
        rbind (hex_loop src 4 pos 0) (\<lambda>(cp, pos).
        if cp \<ge> 0xD800 \<and> cp \<le> 0xDBFF then
          (if pos + 6 > len then Err TP_ERR_JSON_SYNTAX
           else
             rbind (load src pos) (\<lambda>a.
             if a \<noteq> 92 then Err TP_ERR_JSON_SYNTAX
             else
               rbind (load src (pos + 1)) (\<lambda>b.
               if b \<noteq> 117 then Err TP_ERR_JSON_SYNTAX
               else
                 rbind (hex_loop src 4 (pos + 2) 0) (\<lambda>(lo, pos).
                 if lo < 0xDC00 \<or> lo > 0xDFFF then Err TP_ERR_JSON_SYNTAX
                 else Ok (json_utf8 (0x10000 + push_bit 10 (cp - 0xD800) + (lo - 0xDC00)), pos)))))
        else Ok (json_utf8 cp, pos)))"

text \<open>What follows a backslash: the bytes to append.\<close>

definition escape :: "u8 list \<Rightarrow> nat \<Rightarrow> nat \<Rightarrow> (u8 list \<times> nat) tp" where
  "escape src len pos =
     (if pos \<ge> len then Err TP_ERR_JSON_SYNTAX
      else
        rbind (load src pos) (\<lambda>esc.
        let pos = pos + 1 in
        if esc = 34 \<or> esc = 92 \<or> esc = 47 then Ok ([esc], pos)
        else if esc = 98 then Ok ([8], pos)
        else if esc = 102 then Ok ([12], pos)
        else if esc = 110 then Ok ([10], pos)
        else if esc = 114 then Ok ([13], pos)
        else if esc = 116 then Ok ([9], pos)
        else if esc = 117 then unicode_escape src len pos
        else Err TP_ERR_JSON_SYNTAX))"

definition put_bytes :: "u8 list \<Rightarrow> nat \<Rightarrow> nat \<Rightarrow> u8 list \<Rightarrow> u8 list tp" where
  "put_bytes out out_cap w bs =
     (if w + (length bs - 1) < out_cap then memcpy out w bs (length bs) else Ok out)"

fun string_loop :: "nat \<Rightarrow> u8 list \<Rightarrow> nat \<Rightarrow> nat \<Rightarrow> u8 list \<Rightarrow> nat \<Rightarrow> nat \<Rightarrow> (u8 list \<times> nat \<times> nat) tp" where
  "string_loop 0 src len pos out out_cap w = Diverge"
| "string_loop (Suc fuel) src len pos out out_cap w =
     (if pos < len then
        rbind (load src pos) (\<lambda>c.
        let pos = pos + 1 in
        if c = 34 then rbind (if w < out_cap then store out w 0 else Ok out) (\<lambda>out. Ok (out, w, pos))
        else
          rbind (if c = 92 then escape src len pos else Ok ([c], pos)) (\<lambda>(bs, pos).
          rbind (put_bytes out out_cap w bs) (\<lambda>out.
          string_loop fuel src len pos out out_cap (w + length bs))))
      else Err TP_ERR_JSON_SYNTAX)"

definition parse_string_into :: "u8 list \<Rightarrow> nat \<Rightarrow> (u8 list \<times> nat) parsing" where
  "parse_string_into out out_cap p =
     rbind (expect 34 p) (\<lambda>(quote, p).
     if \<not> quote then Err TP_ERR_JSON_SYNTAX
     else
       rbind (string_loop (Suc (jp_len p)) (jp_src p) (jp_len p) (jp_pos p) out out_cap 0) (\<lambda>(out, w, pos).
       Ok ((out, w), p\<lparr>jp_pos := pos\<rparr>)))"

section \<open>Numbers\<close>

definition isdigit :: "u8 \<Rightarrow> bool" where
  "isdigit c \<longleftrightarrow> 48 \<le> c \<and> c \<le> 57"

text \<open>\<open>p->pos < p->len\<close> and the character there.\<close>

definition char_at :: "u8 list \<Rightarrow> nat \<Rightarrow> nat \<Rightarrow> u8 option tp" where
  "char_at src len pos = (if pos < len then rbind (load src pos) (\<lambda>c. Ok (Some c)) else Ok None)"

definition digit_at :: "u8 option \<Rightarrow> bool" where
  "digit_at c = (case c of None \<Rightarrow> False | Some d \<Rightarrow> isdigit d)"

function digits_end :: "u8 list \<Rightarrow> nat \<Rightarrow> nat \<Rightarrow> nat tp" where
  "digits_end src len pos =
     (if pos < len then rbind (load src pos) (\<lambda>c. if isdigit c then digits_end src len (pos + 1) else Ok pos)
      else Ok pos)"
  by pat_completeness auto
termination by (relation "measure (\<lambda>(src, len, pos). len - pos)") auto

declare digits_end.simps [simp del]

text \<open>One or more digits, as each part of a number asks for.\<close>

definition digits :: "u8 list \<Rightarrow> nat \<Rightarrow> nat \<Rightarrow> nat tp" where
  "digits src len pos =
     rbind (char_at src len pos) (\<lambda>c. if \<not> digit_at c then Err TP_ERR_JSON_SYNTAX else digits_end src len pos)"

definition fraction :: "u8 list \<Rightarrow> nat \<Rightarrow> nat \<Rightarrow> (bool \<times> nat) tp" where
  "fraction src len pos =
     rbind (char_at src len pos) (\<lambda>c.
     if c = Some 46 then rbind (digits src len (pos + 1)) (\<lambda>pos. Ok (True, pos)) else Ok (False, pos))"

definition exponent :: "u8 list \<Rightarrow> nat \<Rightarrow> bool \<Rightarrow> nat \<Rightarrow> (bool \<times> nat) tp" where
  "exponent src len is_float pos =
     rbind (char_at src len pos) (\<lambda>c.
     if c = Some 101 \<or> c = Some 69 then
       rbind (char_at src len (pos + 1)) (\<lambda>s.
       rbind (digits src len (if s = Some 43 \<or> s = Some 45 then pos + 2 else pos + 1)) (\<lambda>pos. Ok (True, pos)))
     else Ok (is_float, pos))"

definition digits_val :: "u8 list \<Rightarrow> nat" where
  "digits_val ds = foldl (\<lambda>a c. 10 * a + unat (c - 48)) 0 ds"

definition strtoull :: "u8 list \<Rightarrow> nat" where
  "strtoull ds = min (digits_val ds) 18446744073709551615"

definition strtoll_neg :: "u8 list \<Rightarrow> int" where
  "strtoll_neg ds = max (- int (digits_val ds)) (- 9223372036854775808)"

definition convert_number :: "(u8 list \<Rightarrow> u64) \<Rightarrow> bool \<Rightarrow> bool \<Rightarrow> u8 list \<Rightarrow> tp_value" where
  "convert_number strtod is_float is_neg tmp =
     (if is_float then tp_value_float64 (strtod tmp)
      else if is_neg then tp_value_int (word_of_int (strtoll_neg (tl tmp)))
      else if strtoull tmp > 9223372036854775807 then tp_value_uint (word_of_nat (strtoull tmp))
      else tp_value_int (word_of_nat (strtoull tmp)))"

definition parse_number :: "(u8 list \<Rightarrow> u64) \<Rightarrow> tp_value parsing" where
  "parse_number strtod p =
     (let src = jp_src p; len = jp_len p; start = jp_pos p in
      rbind (char_at src len start) (\<lambda>c.
      let is_neg = (c = Some 45) in
      rbind (digits src len (if is_neg then start + 1 else start)) (\<lambda>pos.
      rbind (fraction src len pos) (\<lambda>(is_float, pos).
      rbind (exponent src len is_float pos) (\<lambda>(is_float, pos).
      let numlen = (if pos - start \<ge> 64 then 63 else pos - start) in
      Ok (convert_number strtod is_float is_neg (take numlen (drop start src)), p\<lparr>jp_pos := pos\<rparr>))))))"

section \<open>Values\<close>

text \<open>Adding the value at the current path.\<close>

definition add_value :: "nat \<Rightarrow> tp_value \<Rightarrow> json_parser \<Rightarrow> json_parser tp" where
  "add_value heap val p =
     (case tp_encoder_add_n heap (Some (jp_path p)) (jp_path_len p) (Some val) (jp_enc p) of
        (Ok _, enc) \<Rightarrow> Ok (p\<lparr>jp_enc := enc\<rparr>)
      | (Err e, _) \<Rightarrow> Err e
      | (Fault, _) \<Rightarrow> Fault
      | (Diverge, _) \<Rightarrow> Diverge)"

definition at_literal :: "u8 list \<Rightarrow> json_parser \<Rightarrow> bool tp" where
  "at_literal lit p =
     (if jp_pos p + length lit \<le> jp_len p then
        (if jp_pos p + length lit \<le> length (jp_src p)
         then Ok (memcmp (drop (jp_pos p) (jp_src p)) lit (length lit) = 0) else Fault)
      else Ok False)"

definition skip :: "nat \<Rightarrow> json_parser \<Rightarrow> json_parser" where
  "skip n p = p\<lparr>jp_pos := jp_pos p + n\<rparr>"

definition parse_literal :: "nat \<Rightarrow> json_parser \<Rightarrow> json_parser tp" where
  "parse_literal heap p =
     rbind (at_literal [116, 114, 117, 101] p) (\<lambda>is_true.
     if is_true then add_value heap (tp_value_bool True) (skip 4 p)
     else
       rbind (at_literal [102, 97, 108, 115, 101] p) (\<lambda>is_false.
       if is_false then add_value heap (tp_value_bool False) (skip 5 p)
       else
         rbind (at_literal [110, 117, 108, 108] p) (\<lambda>is_null.
         if is_null then add_value heap tp_value_null (skip 4 p)
         else Err TP_ERR_JSON_SYNTAX)))"

definition parse_string_value :: "nat \<Rightarrow> json_parser \<Rightarrow> json_parser tp" where
  "parse_string_value heap p =
     rbind (parse_string_into (replicate 4096 0) 4095 p) (\<lambda>((str, slen), p).
     rbind (store str slen 0) (\<lambda>str. add_value heap (tp_value_string_n (Some str) slen) p))"

definition parse_key :: "(u8 list \<times> nat) parsing" where
  "parse_key p =
     rbind (parse_string_into (replicate 1024 0) 1023 p) (\<lambda>((key, key_len), p).
     rbind (store key key_len 0) (\<lambda>key. Ok ((key, key_len), p)))"

definition enter :: "u8 \<Rightarrow> json_parser \<Rightarrow> json_parser tp" where
  "enter bracket p =
     (let p = p\<lparr>jp_depth := jp_depth p + 1\<rparr> in
      if jp_depth p > TP_MAX_NESTING_DEPTH then Err TP_ERR_JSON_DEPTH
      else rbind (expect bracket p) (\<lambda>(ok, p). if \<not> ok then Err TP_ERR_JSON_SYNTAX else Ok p))"

definition leave :: "json_parser \<Rightarrow> json_parser" where
  "leave p = p\<lparr>jp_pos := jp_pos p + 1, jp_depth := jp_depth p - 1\<rparr>"

fun parse_value :: "(u8 list \<Rightarrow> u64) \<Rightarrow> nat \<Rightarrow> nat \<Rightarrow> json_parser \<Rightarrow> json_parser tp"
  and parse_object :: "(u8 list \<Rightarrow> u64) \<Rightarrow> nat \<Rightarrow> nat \<Rightarrow> json_parser \<Rightarrow> json_parser tp"
  and object_loop :: "(u8 list \<Rightarrow> u64) \<Rightarrow> nat \<Rightarrow> nat \<Rightarrow> json_parser \<Rightarrow> json_parser tp"
  and parse_array :: "(u8 list \<Rightarrow> u64) \<Rightarrow> nat \<Rightarrow> nat \<Rightarrow> json_parser \<Rightarrow> json_parser tp"
  and array_loop :: "(u8 list \<Rightarrow> u64) \<Rightarrow> nat \<Rightarrow> nat \<Rightarrow> nat \<Rightarrow> json_parser \<Rightarrow> json_parser tp" where
  "parse_value strtod heap 0 p = Diverge"
| "parse_value strtod heap (Suc fuel) p =
     rbind (skip_ws p) (\<lambda>p.
     if jp_pos p \<ge> jp_len p then Err TP_ERR_JSON_SYNTAX
     else
       rbind (load (jp_src p) (jp_pos p)) (\<lambda>c.
       if c = 123 then parse_object strtod heap fuel p
       else if c = 91 then parse_array strtod heap fuel p
       else if c = 34 then parse_string_value heap p
       else if c = 45 \<or> isdigit c then rbind (parse_number strtod p) (\<lambda>(val, p). add_value heap val p)
       else parse_literal heap p))"
| "parse_object strtod heap 0 p = Diverge"
| "parse_object strtod heap (Suc fuel) p =
     rbind (enter 123 p) (\<lambda>p.
     rbind (peek p) (\<lambda>(c, p).
     if c = 125 then Ok (leave p) else object_loop strtod heap fuel p))"
| "object_loop strtod heap 0 p = Diverge"
| "object_loop strtod heap (Suc fuel) p =
     rbind (parse_key p) (\<lambda>((key, key_len), p).
     rbind (skip_ws p) (\<lambda>p.
     rbind (expect 58 p) (\<lambda>(colon, p).
     if \<not> colon then Err TP_ERR_JSON_SYNTAX
     else
       rbind (path_push_key key key_len p) (\<lambda>(saved, p).
       rbind (parse_value strtod heap fuel p) (\<lambda>p.
       rbind (path_restore saved p) (\<lambda>p.
       rbind (skip_ws p) (\<lambda>p.
       rbind (peek p) (\<lambda>(c, p).
       if c = 125 then Ok (leave p)
       else
         rbind (expect 44 p) (\<lambda>(comma, p).
         if \<not> comma then Err TP_ERR_JSON_SYNTAX else object_loop strtod heap fuel p)))))))))"
| "parse_array strtod heap 0 p = Diverge"
| "parse_array strtod heap (Suc fuel) p =
     rbind (enter 91 p) (\<lambda>p.
     rbind (peek p) (\<lambda>(c, p).
     if c = 93 then Ok (leave p) else array_loop strtod heap fuel 0 p))"
| "array_loop strtod heap 0 idx p = Diverge"
| "array_loop strtod heap (Suc fuel) idx p =
     rbind (path_push_index idx p) (\<lambda>(saved, p).
     rbind (parse_value strtod heap fuel p) (\<lambda>p.
     rbind (path_restore saved p) (\<lambda>p.
     rbind (skip_ws p) (\<lambda>p.
     rbind (peek p) (\<lambda>(c, p).
     if c = 93 then Ok (leave p)
     else
       rbind (expect 44 p) (\<lambda>(comma, p).
       if \<not> comma then Err TP_ERR_JSON_SYNTAX else array_loop strtod heap fuel (wrap32 (idx + 1)) p))))))"

section \<open>Encoding a document\<close>

text \<open>\<open>TP_JSON_META_ROOT\<close>, the key of the root type, and the root types.\<close>

definition TP_JSON_META_ROOT :: "u8 list" where "TP_JSON_META_ROOT = [1, 114, 111, 111, 116, 0]"
definition TP_JSON_ROOT_OBJECT :: nat where "TP_JSON_ROOT_OBJECT = 1"
definition TP_JSON_ROOT_ARRAY :: nat where "TP_JSON_ROOT_ARRAY = 2"

definition json_fuel :: "nat \<Rightarrow> nat" where
  "json_fuel len = 4 * len + 4"

definition new_parser :: "u8 list \<Rightarrow> nat \<Rightarrow> tp_encoder \<Rightarrow> json_parser" where
  "new_parser src len enc =
     \<lparr>jp_src = src, jp_len = len, jp_pos = 0, jp_depth = 0, jp_enc = enc,
      jp_path = replicate PATH_SIZE 0, jp_path_len = 0\<rparr>"

text \<open>Parsing the root value: its type and the encoder that holds its leaves.\<close>

definition parse_root :: "(u8 list \<Rightarrow> u64) \<Rightarrow> nat \<Rightarrow> json_parser \<Rightarrow> (nat \<times> tp_encoder) tp" where
  "parse_root strtod heap p =
     rbind (skip_ws p) (\<lambda>p.
     if jp_pos p \<ge> jp_len p then Err TP_ERR_JSON_SYNTAX
     else
       rbind (load (jp_src p) (jp_pos p)) (\<lambda>root_c.
       if root_c = 123 then
         rbind (parse_object strtod heap (json_fuel (jp_len p)) p) (\<lambda>p. Ok (TP_JSON_ROOT_OBJECT, jp_enc p))
       else if root_c = 91 then
         rbind (parse_array strtod heap (json_fuel (jp_len p)) p) (\<lambda>p. Ok (TP_JSON_ROOT_ARRAY, jp_enc p))
       else Err TP_ERR_JSON_SYNTAX))"

definition tp_json_encode ::
  "(u8 list \<Rightarrow> u64) \<Rightarrow> tp_entry qsort \<Rightarrow> nat \<Rightarrow> ptr \<Rightarrow> nat \<Rightarrow> (u8 list \<times> nat) tp" where
  "tp_json_encode strtod qs heap json_str json_len =
     (case json_str of
        None \<Rightarrow> Err TP_ERR_INVALID_PARAM
      | Some src \<Rightarrow>
          rbind (tp_encoder_create heap) (\<lambda>enc.
          rbind (parse_root strtod heap (new_parser src json_len enc)) (\<lambda>(root_type, enc).
          fst (sbind (tp_encoder_add heap (Some TP_JSON_META_ROOT) (Some (tp_value_uint (word_of_nat root_type))))
                 (\<lambda>_. tp_encoder_build qs heap) enc))))"

end
