(* ===== verification/Json_Text.thy ===== *)
theory Json_Text
  imports Json_Encode
begin

text \<open>
  What a JSON text means: documents, the grammar that relates them to texts, and the flattening of a
  document into the paths and values the encoder stores. The grammar is a specification, written
  without reference to the parser: any white space where JSON allows it, all escapes, numbers as
  digit strings. \<open>strtod\<close> is the conversion of the C library; integers are those that fit the 64-bit
  types.
\<close>

section \<open>Documents\<close>

datatype json =
    JNull
  | JBool bool
  | JInt int
  | JReal u64
  | JStr "u8 list"
  | JObj "(u8 list \<times> json) list"
  | JArr "json list"

definition int_value :: "int \<Rightarrow> tp_value" where
  "int_value n = (if n > 9223372036854775807 then TP_UINT (word_of_int n) else TP_INT (word_of_int n))"

definition int_fits :: "int \<Rightarrow> bool" where
  "int_fits n \<longleftrightarrow> - 9223372036854775808 \<le> n \<and> n \<le> 18446744073709551615"

section \<open>Texts\<close>

text \<open>The characters of a string between its quotes.\<close>

definition simple_escape :: "u8 \<Rightarrow> u8 option" where
  "simple_escape e =
     map_of [(34, 34), (92, 92), (47, 47), (98, 8), (102, 12), (110, 10), (114, 13), (116, 9)] e"

text \<open>Four hexadecimal digits as a number.\<close>

definition hex_value :: "u8 list \<Rightarrow> u32 \<Rightarrow> bool" where
  "hex_value hs cp \<longleftrightarrow> length hs = 4 \<and> (\<exists>ds. map hex_digit hs = map Some ds \<and> cp = foldl (\<lambda>v d. push_bit 4 v OR d) 0 ds)"

definition high_surrogate :: "u32 \<Rightarrow> bool" where
  "high_surrogate cp \<longleftrightarrow> 0xD800 \<le> cp \<and> cp \<le> 0xDBFF"

definition low_surrogate :: "u32 \<Rightarrow> bool" where
  "low_surrogate cp \<longleftrightarrow> 0xDC00 \<le> cp \<and> cp \<le> 0xDFFF"

inductive string_chars :: "u8 list \<Rightarrow> u8 list \<Rightarrow> bool" where
  chars_none: "string_chars [] []"
| chars_plain: "c \<noteq> 34 \<Longrightarrow> c \<noteq> 92 \<Longrightarrow> string_chars bs t \<Longrightarrow> string_chars (c # bs) (c # t)"
| chars_escape: "simple_escape e = Some c \<Longrightarrow> string_chars bs t \<Longrightarrow> string_chars (c # bs) (92 # e # t)"
| chars_unicode: "hex_value hs cp \<Longrightarrow> \<not> high_surrogate cp \<Longrightarrow> string_chars bs t \<Longrightarrow>
    string_chars (json_utf8 cp @ bs) (92 # 117 # hs @ t)"
| chars_pair: "hex_value hs hi \<Longrightarrow> high_surrogate hi \<Longrightarrow> hex_value ls lo \<Longrightarrow> low_surrogate lo \<Longrightarrow> string_chars bs t \<Longrightarrow>
    string_chars (json_utf8 (0x10000 + push_bit 10 (hi - 0xD800) + (lo - 0xDC00)) @ bs) (92 # 117 # hs @ 92 # 117 # ls @ t)"

definition string_text :: "u8 list \<Rightarrow> u8 list \<Rightarrow> bool" where
  "string_text s t \<longleftrightarrow> (\<exists>body. t = 34 # body @ [34] \<and> string_chars s body)"

definition digit_text :: "u8 list \<Rightarrow> bool" where
  "digit_text t \<longleftrightarrow> t \<noteq> [] \<and> list_all isdigit t"

definition sign_text :: "u8 list \<Rightarrow> bool" where
  "sign_text t \<longleftrightarrow> t = [] \<or> t = [45]"

definition int_text :: "int \<Rightarrow> u8 list \<Rightarrow> bool" where
  "int_text n t \<longleftrightarrow> length t < 64 \<and>
     (digit_text t \<and> n = int (digits_val t) \<or>
      (\<exists>ds. t = 45 # ds \<and> digit_text ds \<and> n = - int (digits_val ds)))"

definition fraction_text :: "u8 list \<Rightarrow> bool" where
  "fraction_text t \<longleftrightarrow> t = [] \<or> (\<exists>ds. t = 46 # ds \<and> digit_text ds)"

definition exponent_text :: "u8 list \<Rightarrow> bool" where
  "exponent_text t \<longleftrightarrow> t = [] \<or>
     (\<exists>e sg ds. t = e # sg @ ds \<and> (e = 101 \<or> e = 69) \<and> (sg = [] \<or> sg = [43] \<or> sg = [45]) \<and> digit_text ds)"

definition real_text :: "u8 list \<Rightarrow> bool" where
  "real_text t \<longleftrightarrow> length t < 64 \<and>
     (\<exists>sg ds fr ex. t = sg @ ds @ fr @ ex \<and> sign_text sg \<and> digit_text ds \<and> fraction_text fr \<and> exponent_text ex \<and> fr @ ex \<noteq> [])"

definition ws :: "u8 list \<Rightarrow> bool" where
  "ws t \<longleftrightarrow> list_all is_ws t"

inductive json_text :: "(u8 list \<Rightarrow> u64) \<Rightarrow> json \<Rightarrow> u8 list \<Rightarrow> bool"
  and members_text :: "(u8 list \<Rightarrow> u64) \<Rightarrow> (u8 list \<times> json) list \<Rightarrow> u8 list \<Rightarrow> bool"
  and elements_text :: "(u8 list \<Rightarrow> u64) \<Rightarrow> json list \<Rightarrow> u8 list \<Rightarrow> bool"
  for strtod :: "u8 list \<Rightarrow> u64" where
  null_text: "json_text strtod JNull [110, 117, 108, 108]"
| true_text: "json_text strtod (JBool True) [116, 114, 117, 101]"
| false_text: "json_text strtod (JBool False) [102, 97, 108, 115, 101]"
| int_text: "int_text n t \<Longrightarrow> int_fits n \<Longrightarrow> json_text strtod (JInt n) t"
| real_text: "real_text t \<Longrightarrow> json_text strtod (JReal (strtod t)) t"
| str_text: "string_text s t \<Longrightarrow> json_text strtod (JStr s) t"
| empty_object: "ws w \<Longrightarrow> json_text strtod (JObj []) (123 # w @ [125])"
| object_text: "ws w \<Longrightarrow> members_text strtod kvs t \<Longrightarrow> json_text strtod (JObj kvs) (123 # w @ t @ [125])"
| empty_array: "ws w \<Longrightarrow> json_text strtod (JArr []) (91 # w @ [93])"
| array_text: "ws w \<Longrightarrow> elements_text strtod vs t \<Longrightarrow> json_text strtod (JArr vs) (91 # w @ t @ [93])"
| last_member: "string_text k kt \<Longrightarrow> ws w1 \<Longrightarrow> ws w2 \<Longrightarrow> json_text strtod v vt \<Longrightarrow> ws w3 \<Longrightarrow>
    members_text strtod [(k, v)] (kt @ w1 @ 58 # w2 @ vt @ w3)"
| more_members: "string_text k kt \<Longrightarrow> ws w1 \<Longrightarrow> ws w2 \<Longrightarrow> json_text strtod v vt \<Longrightarrow> ws w3 \<Longrightarrow> ws w4 \<Longrightarrow>
    members_text strtod kvs t \<Longrightarrow>
    members_text strtod ((k, v) # kvs) (kt @ w1 @ 58 # w2 @ vt @ w3 @ 44 # w4 @ t)"
| last_element: "json_text strtod v vt \<Longrightarrow> ws w \<Longrightarrow> elements_text strtod [v] (vt @ w)"
| more_elements: "json_text strtod v vt \<Longrightarrow> ws w1 \<Longrightarrow> ws w2 \<Longrightarrow> elements_text strtod vs t \<Longrightarrow>
    elements_text strtod (v # vs) (vt @ w1 @ 44 # w2 @ t)"

section \<open>Flattening\<close>

definition push_key :: "u8 list \<Rightarrow> u8 list \<Rightarrow> u8 list" where
  "push_key path k = (if path = [] then k else path @ 46 # k)"

definition push_index :: "u8 list \<Rightarrow> nat \<Rightarrow> u8 list" where
  "push_index path i = path @ 91 # decimal i @ [93]"

fun flatten :: "u8 list \<Rightarrow> json \<Rightarrow> (u8 list \<times> tp_value) list"
  and flatten_members :: "u8 list \<Rightarrow> (u8 list \<times> json) list \<Rightarrow> (u8 list \<times> tp_value) list"
  and flatten_elements :: "u8 list \<Rightarrow> nat \<Rightarrow> json list \<Rightarrow> (u8 list \<times> tp_value) list" where
  "flatten path JNull = [(path, TP_NULL)]"
| "flatten path (JBool b) = [(path, TP_BOOL b)]"
| "flatten path (JInt n) = [(path, int_value n)]"
| "flatten path (JReal d) = [(path, TP_FLOAT64 d)]"
| "flatten path (JStr s) = [(path, TP_STRING (Some s) (length s))]"
| "flatten path (JObj kvs) = flatten_members path kvs"
| "flatten path (JArr vs) = flatten_elements path 0 vs"
| "flatten_members path [] = []"
| "flatten_members path ((k, v) # kvs) = flatten (push_key path k) v @ flatten_members path kvs"
| "flatten_elements path i [] = []"
| "flatten_elements path i (v # vs) = flatten (push_index path i) v @ flatten_elements path (Suc i) vs"

text \<open>The limits of the parser's buffers: keys under 1024 bytes, strings under 4096, paths under 4096,
  32 levels.\<close>

fun fits :: "u8 list \<Rightarrow> nat \<Rightarrow> json \<Rightarrow> bool"
  and fits_members :: "u8 list \<Rightarrow> nat \<Rightarrow> (u8 list \<times> json) list \<Rightarrow> bool"
  and fits_elements :: "u8 list \<Rightarrow> nat \<Rightarrow> nat \<Rightarrow> json list \<Rightarrow> bool" where
  "fits path d (JStr s) = (length s \<le> 4095)"
| "fits path d (JObj kvs) = (d < 32 \<and> fits_members path (Suc d) kvs)"
| "fits path d (JArr vs) = (d < 32 \<and> fits_elements path (Suc d) 0 vs)"
| "fits path d _ = True"
| "fits_members path d [] = True"
| "fits_members path d ((k, v) # kvs) =
     (length k \<le> 1023 \<and> length (push_key path k) < 4096 \<and> fits (push_key path k) d v \<and> fits_members path d kvs)"
| "fits_elements path d i [] = True"
| "fits_elements path d i (v # vs) =
     (i < 4294967296 \<and> length (push_index path i) < 4096 \<and> fits (push_index path i) d v \<and> fits_elements path d (Suc i) vs)"

section \<open>Lengths\<close>

lemma json_text_nonempty: "json_text strtod j t \<Longrightarrow> t \<noteq> []"
  by (cases rule: json_text.cases) (auto simp: int_text_def real_text_def string_text_def digit_text_def)

lemma flatten_length:
  "json_text strtod j t \<Longrightarrow> length (flatten path j) \<le> length t"
  "members_text strtod kvs t \<Longrightarrow> length (flatten_members path kvs) \<le> length t"
  "elements_text strtod vs t \<Longrightarrow> length (flatten_elements path i vs) \<le> length t"
proof (induction arbitrary: path and path and path i rule: json_text_members_text_elements_text.inducts)
  case (int_text n t)
  then show ?case by (auto simp: int_text_def digit_text_def Suc_le_eq)
next
  case (real_text t)
  then show ?case by (auto simp: real_text_def digit_text_def Suc_le_eq)
next
  case (more_members k kt w1 w2 v vt w3 w4 kvs t)
  then show ?case using add_le_mono[OF more_members.IH(2)[of "push_key path k"] more_members.IH(4)[of path]] by simp
next
  case (last_member k kt w1 w2 v vt w3)
  show ?case using last_member.IH(2)[of "push_key path k"] by (simp add: trans_le_add1 trans_le_add2 le_SucI)
next
  case (last_element v vt w)
  show ?case using last_element.IH(2)[of "push_index path i"] by (simp add: trans_le_add1 trans_le_add2 le_SucI)
next
  case (more_elements v vt w1 w2 vs t)
  then show ?case using add_le_mono[OF more_elements.IH(2)[of "push_index path i"] more_elements.IH(4)[of path "Suc i"]] by simp
qed (auto simp: string_text_def le_SucI trans_le_add2)

end
