(* ===== verification/Json_Scan.thy ===== *)
theory Json_Scan
  imports Json_Text
begin

text \<open>
  The scanners of the JSON parser against the grammar: white space, strings with their escapes,
  numbers and literals. \<open>left src len pos\<close> is the text still to be read.
\<close>

section \<open>The text that is left\<close>

definition left :: "u8 list \<Rightarrow> nat \<Rightarrow> nat \<Rightarrow> u8 list" where
  "left src len pos = take (len - pos) (drop pos src)"

lemma length_left: "len \<le> length src \<Longrightarrow> length (left src len pos) = len - pos"
  by (simp add: left_def)

lemma left_append: "left src len pos = xs @ ys \<Longrightarrow> left src len (pos + length xs) = ys"
proof -
  assume a: "left src len pos = xs @ ys"
  have "left src len (pos + length xs) = drop (length xs) (left src len pos)"
    by (simp add: left_def drop_take add.commute)
  then show ?thesis by (simp add: a)
qed

lemma left_Cons:
  assumes "len \<le> length src" and "left src len pos = c # r"
  shows "pos < len" and "load src pos = Ok c" and "left src len (Suc pos) = r"
proof -
  show p: "pos < len" using assms(2) by (cases "pos < len") (auto simp: left_def)
  then have "drop pos src = src ! pos # drop (Suc pos) src" using assms(1) by (simp add: Cons_nth_drop_Suc)
  then have "src ! pos = c" using assms(2) p by (simp add: left_def take_Cons')
  then show "load src pos = Ok c" using p assms(1) by (simp add: load_def)
  show "left src len (Suc pos) = r" using left_append[of src len pos "[c]" r] assms(2) by simp
qed

lemma left_Nil: "len \<le> length src \<Longrightarrow> left src len pos = [] \<Longrightarrow> \<not> pos < len"
  by (auto simp: left_def)

text \<open>Scanning a run of characters.\<close>

definition stops :: "(u8 \<Rightarrow> bool) \<Rightarrow> u8 list \<Rightarrow> bool" where
  "stops P r \<longleftrightarrow> r = [] \<or> \<not> P (hd r)"

lemma stops_simps [simp]: "stops P []" "stops P (c # r) = (\<not> P c)"
  by (simp_all add: stops_def)

lemma ws_end_ok:
  assumes len: "len \<le> length src"
  shows "left src len pos = w @ r \<Longrightarrow> ws w \<Longrightarrow> stops is_ws r \<Longrightarrow> ws_end src len pos = Ok (pos + length w)"
proof (induction w arbitrary: pos)
  case Nil
  then show ?case using left_Cons[OF len, of pos] left_Nil[OF len, of pos]
    by (cases r) (simp_all add: ws_end.simps[of src len pos])
next
  case (Cons c w)
  note l = left_Cons[OF len, of pos c "w @ r"]
  have "ws_end src len (pos + 1) = Ok (pos + 1 + length w)" using Cons l by (simp add: ws_def)
  then show ?case using Cons.prems l by (simp add: ws_end.simps[of src len pos] ws_def)
qed

lemma digits_end_ok:
  assumes len: "len \<le> length src"
  shows "left src len pos = w @ r \<Longrightarrow> list_all isdigit w \<Longrightarrow> stops isdigit r \<Longrightarrow> digits_end src len pos = Ok (pos + length w)"
proof (induction w arbitrary: pos)
  case Nil
  then show ?case using left_Cons[OF len, of pos] left_Nil[OF len, of pos]
    by (cases r) (simp_all add: digits_end.simps[of src len pos])
next
  case (Cons c w)
  note l = left_Cons[OF len, of pos c "w @ r"]
  have "digits_end src len (pos + 1) = Ok (pos + 1 + length w)" using Cons l by simp
  then show ?case using Cons.prems l by (simp add: digits_end.simps[of src len pos])
qed

section \<open>Strings\<close>

lemma hex_loop_ok:
  assumes len: "len \<le> length src"
  shows "left src len pos = hs @ r \<Longrightarrow> map hex_digit hs = map Some ds \<Longrightarrow>
    hex_loop src (length hs) pos v = Ok (foldl (\<lambda>v d. push_bit 4 v OR d) v ds, pos + length hs)"
proof (induction hs arbitrary: pos v ds)
  case (Cons h hs)
  then obtain d ds' where ds: "ds = d # ds'" "hex_digit h = Some d" "map hex_digit hs = map Some ds'" by (cases ds) auto
  note l = left_Cons[OF len, of pos h "hs @ r"]
  then show ?case using Cons.IH[of "pos + 1" ds' "push_bit 4 v OR d"] Cons.prems ds by simp
qed simp

lemma hex_value_ok:
  assumes "len \<le> length src" and "left src len pos = hs @ r" and "hex_value hs cp"
  shows "hex_loop src 4 pos 0 = Ok (cp, pos + 4)" and "pos + 4 \<le> len"
proof -
  obtain ds where ds: "map hex_digit hs = map Some ds" "cp = foldl (\<lambda>v d. push_bit 4 v OR d) 0 ds" "length hs = 4"
    using assms(3) by (auto simp: hex_value_def)
  then show "hex_loop src 4 pos 0 = Ok (cp, pos + 4)" using hex_loop_ok[OF assms(1,2) ds(1), of 0] by simp
  show "pos + 4 \<le> len" using length_left[OF assms(1), of pos] ds(3) by (simp add: assms(2))
qed

lemma unicode_ok:
  assumes len: "len \<le> length src" and l: "left src len pos = hs @ r" and h: "hex_value hs cp" "\<not> high_surrogate cp"
  shows "unicode_escape src len pos = Ok (json_utf8 cp, pos + length hs)"
proof -
  have "length hs = 4" using h by (simp add: hex_value_def)
  then show ?thesis using hex_value_ok[OF len l h(1)] h(2) by (auto simp: unicode_escape_def high_surrogate_def)
qed

lemma pair_ok:
  assumes len: "len \<le> length src" and l: "left src len pos = hs @ 92 # 117 # ls @ r"
    and h: "hex_value hs hi" "high_surrogate hi" "hex_value ls lo" "low_surrogate lo"
  shows "unicode_escape src len pos = Ok (json_utf8 (0x10000 + push_bit 10 (hi - 0xD800) + (lo - 0xDC00)), pos + length hs + 2 + length ls)"
proof -
  have n: "length hs = 4" "length ls = 4" using h by (simp_all add: hex_value_def)
  have l1: "left src len (pos + 4) = 92 # 117 # ls @ r" using left_append[OF l] n by simp
  note a = left_Cons[OF len l1]
  note b = left_Cons[OF len a(3)]
  note c = hex_value_ok[OF len b(3) h(3)]
  have s: "Suc (Suc (pos + 4)) = pos + 4 + 2" by simp
  have "hi \<ge> 0xD800 \<and> hi \<le> 0xDBFF" "\<not> (lo < 0xDC00 \<or> lo > 0xDFFF)" using h(2,4) by (auto simp: high_surrogate_def low_surrogate_def)
  then show ?thesis using hex_value_ok[OF len l h(1)] a(1,2) b(1,2) c n
    unfolding unicode_escape_def s by (simp add: add.assoc)
qed

lemma put_bytes_ok:
  assumes "w + length bs \<le> cap" and "cap < length out"
  shows "\<exists>out'. put_bytes out cap w bs = Ok out' \<and> length out' = length out \<and> take (w + length bs) out' = take w out @ bs"
proof (cases "bs = []")
  case True
  then show ?thesis using assms by (simp add: put_bytes_def memcpy_def)
next
  case False
  then have "w + (length bs - 1) < cap" using assms(1) by (cases bs) simp_all
  then show ?thesis using assms by (simp add: put_bytes_def memcpy_def)
qed

lemma string_loop_step:
  assumes step: "(if c = 92 then escape src len (Suc pos) else Ok ([c], Suc pos)) = Ok (bs1, pos')" and c: "c \<noteq> 34"
    and l: "len \<le> length src" "left src len pos = c # r"
    and fit: "w + length bs1 \<le> cap" "cap < length out"
    and rest: "\<And>out1. length out1 = length out \<Longrightarrow> take (w + length bs1) out1 = take w out @ bs1 \<Longrightarrow>
      \<exists>out'. string_loop fuel src len pos' out1 cap (w + length bs1) = Ok (out', w + length bs1 + length bs, pos'') \<and>
        length out' = length out1 \<and> take (w + length bs1 + length bs) out' = take (w + length bs1) out1 @ bs"
  shows "\<exists>out'. string_loop (Suc fuel) src len pos out cap w = Ok (out', w + length (bs1 @ bs), pos'') \<and>
    length out' = length out \<and> take (w + length (bs1 @ bs)) out' = take w out @ bs1 @ bs"
proof -
  obtain out1 where o1: "put_bytes out cap w bs1 = Ok out1" "length out1 = length out" "take (w + length bs1) out1 = take w out @ bs1"
    using put_bytes_ok[OF fit] by blast
  obtain out' where "string_loop fuel src len pos' out1 cap (w + length bs1) = Ok (out', w + length bs1 + length bs, pos'')"
    "length out' = length out1" "take (w + length bs1 + length bs) out' = take (w + length bs1) out1 @ bs"
    using rest[OF o1(2,3)] by blast
  then show ?thesis using step c left_Cons[OF l] o1 by (simp add: add.assoc)
qed

declare string_loop.simps(2) [simp del]

lemma simple_escape_ok:
  assumes "len \<le> length src" and "left src len pos = e # r" and "simple_escape e = Some c"
  shows "escape src len pos = Ok ([c], Suc pos)"
  using left_Cons[OF assms(1,2)] assms(3) by (auto simp: escape_def simple_escape_def split: if_splits)

lemma string_loop_ok:
  assumes len: "len \<le> length src" and cap: "cap < length out0"
  shows "string_chars bs t \<Longrightarrow> left src len pos = t @ 34 # r \<Longrightarrow> length t < fuel \<Longrightarrow> w + length bs \<le> cap \<Longrightarrow> length out = length out0 \<Longrightarrow>
    \<exists>out'. string_loop fuel src len pos out cap w = Ok (out', w + length bs, pos + length t + 1) \<and>
      length out' = length out \<and> take (w + length bs) out' = take w out @ bs"
proof (induction arbitrary: pos fuel w out rule: string_chars.induct)
  case chars_none
  then obtain f where "fuel = Suc f" by (cases fuel) auto
  then show ?case using left_Cons[OF len, of pos 34 r] chars_none cap by (simp add: store_def string_loop.simps(2))
next
  case (chars_plain c bs t)
  then obtain f where f: "fuel = Suc f" by (cases fuel) auto
  note l = left_Cons[OF len, of pos c "t @ 34 # r"]
  have "left src len pos = c # t @ 34 # r" using chars_plain.prems by simp
  note l = left_Cons[OF len this] this
  have "\<exists>out'. string_loop f src len (Suc pos) o1 cap (w + length [c]) = Ok (out', w + length [c] + length bs, Suc pos + length t + 1) \<and>
      length out' = length o1 \<and> take (w + length [c] + length bs) out' = take (w + length [c]) o1 @ bs" if "length o1 = length out" for o1
    using chars_plain.prems f l that by (intro chars_plain.IH) simp_all
  from string_loop_step[of c src len pos "[c]" "Suc pos" _ w cap out f bs, OF _ _ len l(4) _ _ this]
  show ?case using chars_plain.hyps chars_plain.prems cap f by simp
next
  case (chars_escape e c bs t)
  then obtain f where f: "fuel = Suc f" by (cases fuel) auto
  have l0: "left src len pos = 92 # e # t @ 34 # r" using chars_escape.prems by simp
  note l = left_Cons[OF len l0]
  note l' = left_Cons[OF len l(3)]
  have esc: "escape src len (Suc pos) = Ok ([c], Suc (Suc pos))" by (rule simple_escape_ok[OF len l(3) chars_escape.hyps(1)])
  have "\<exists>out'. string_loop f src len (Suc (Suc pos)) o1 cap (w + length [c]) = Ok (out', w + length [c] + length bs, Suc (Suc pos) + length t + 1) \<and>
      length out' = length o1 \<and> take (w + length [c] + length bs) out' = take (w + length [c]) o1 @ bs" if "length o1 = length out" for o1
    using chars_escape.prems f l' that by (intro chars_escape.IH) simp_all
  from string_loop_step[of 92 src len pos "[c]" "Suc (Suc pos)" _ w cap out f bs, OF _ _ len l0 _ _ this]
  show ?case using chars_escape.prems cap f esc by simp
next
  case (chars_unicode hs cp bs t)
  then obtain f where f: "fuel = Suc f" by (cases fuel) auto
  let ?b = "json_utf8 cp" and ?p = "Suc (Suc pos) + length hs"
  have l0: "left src len pos = 92 # 117 # hs @ t @ 34 # r" using chars_unicode.prems by simp
  note l = left_Cons[OF len l0]
  note l' = left_Cons[OF len l(3)]
  have l2: "left src len ?p = t @ 34 # r" by (rule left_append[OF l'(3)])
  have esc: "escape src len (Suc pos) = Ok (?b, ?p)"
    using unicode_ok[OF len l'(3) chars_unicode.hyps(1,2)] l' by (simp add: escape_def)
  have "\<exists>out'. string_loop f src len ?p o1 cap (w + length ?b) = Ok (out', w + length ?b + length bs, ?p + length t + 1) \<and>
      length out' = length o1 \<and> take (w + length ?b + length bs) out' = take (w + length ?b) o1 @ bs" if "length o1 = length out" for o1
    using chars_unicode.prems f l2 that by (intro chars_unicode.IH) simp_all
  from string_loop_step[of 92 src len pos ?b ?p _ w cap out f bs, OF _ _ len l0 _ _ this]
  show ?case using chars_unicode.prems cap f esc by (simp add: add.assoc)
next
  case (chars_pair hs hi ls lo bs t)
  then obtain f where f: "fuel = Suc f" by (cases fuel) auto
  let ?b = "json_utf8 (0x10000 + push_bit 10 (hi - 0xD800) + (lo - 0xDC00))" and ?p = "Suc (Suc pos) + length hs + 2 + length ls"
  have l0: "left src len pos = 92 # 117 # hs @ 92 # 117 # ls @ t @ 34 # r" using chars_pair.prems by simp
  note l = left_Cons[OF len l0]
  note l' = left_Cons[OF len l(3)]
  have l2: "left src len ?p = t @ 34 # r"
    using left_append[of src len "Suc (Suc pos)" "hs @ 92 # 117 # ls" "t @ 34 # r"] l'(3) by (simp add: add.assoc)
  have esc: "escape src len (Suc pos) = Ok (?b, ?p)"
    using pair_ok[OF len l'(3) chars_pair.hyps(1-4)] l' by (simp add: escape_def)
  have "\<exists>out'. string_loop f src len ?p o1 cap (w + length ?b) = Ok (out', w + length ?b + length bs, ?p + length t + 1) \<and>
      length out' = length o1 \<and> take (w + length ?b + length bs) out' = take (w + length ?b) o1 @ bs" if "length o1 = length out" for o1
    using chars_pair.prems f l2 that by (intro chars_pair.IH) simp_all
  from string_loop_step[of 92 src len pos ?b ?p _ w cap out f bs, OF _ _ len l0 _ _ this]
  show ?case using chars_pair.prems cap f esc by (simp add: add.assoc)
qed

section \<open>Numbers\<close>

lemma char_at_ok:
  assumes "len \<le> length src"
  shows "left src len pos = c # r \<Longrightarrow> char_at src len pos = Ok (Some c)" and "left src len pos = [] \<Longrightarrow> char_at src len pos = Ok None"
  using left_Cons[OF assms, of pos c r] left_Nil[OF assms, of pos] by (simp_all add: char_at_def)

lemma char_at_hd: "len \<le> length src \<Longrightarrow> char_at src len pos = Ok (if left src len pos = [] then None else Some (hd (left src len pos)))"
  by (cases "left src len pos") (simp_all add: char_at_ok)

lemma digits_ok:
  assumes len: "len \<le> length src" and l: "left src len pos = ds @ r" and d: "digit_text ds" and r: "stops isdigit r"
  shows "digits src len pos = Ok (pos + length ds)"
proof -
  obtain c ds' where ds: "ds = c # ds'" "isdigit c" using d by (cases ds) (auto simp: digit_text_def)
  have "digits_end src len pos = Ok (pos + length ds)" using d by (intro digits_end_ok[OF len l _ r]) (simp add: digit_text_def)
  then show ?thesis using char_at_ok(1)[OF len, of pos c "ds' @ r"] l ds by (simp add: digits_def digit_at_def)
qed

definition number_char :: "u8 \<Rightarrow> bool" where
  "number_char c \<longleftrightarrow> isdigit c \<or> c = 46 \<or> c = 101 \<or> c = 69"

lemma stops_weaken: "stops P r \<Longrightarrow> (\<And>c. Q c \<Longrightarrow> P c) \<Longrightarrow> stops Q r"
  by (auto simp: stops_def)

lemma stops_digit: "stops number_char r \<Longrightarrow> stops isdigit r"
  by (erule stops_weaken) (simp add: number_char_def)

lemma fraction_ok:
  assumes len: "len \<le> length src" and l: "left src len pos = fr @ r" and f: "fraction_text fr" and r: "stops isdigit r" "stops (\<lambda>c. c = 46) r"
  shows "fraction src len pos = Ok (fr \<noteq> [], pos + length fr)"
proof (cases fr)
  case Nil
  then show ?thesis using char_at_hd[OF len, of pos] l r(2) by (auto simp: fraction_def stops_def)
next
  case (Cons c ds)
  then have c: "c = 46" "digit_text ds" using f by (auto simp: fraction_text_def)
  have l': "left src len pos = 46 # ds @ r" using l Cons c by simp
  note n = left_Cons[OF len l']
  have "digits src len (Suc pos) = Ok (Suc pos + length ds)" by (rule digits_ok[OF len n(3) c(2) r(1)])
  then show ?thesis using char_at_ok(1)[OF len l'] Cons by (simp add: fraction_def)
qed

lemma exponent_ok:
  assumes len: "len \<le> length src" and l: "left src len pos = ex @ r" and e: "exponent_text ex" and r: "stops number_char r"
  shows "exponent src len b pos = Ok (b \<or> ex \<noteq> [], pos + length ex)"
proof (cases "ex = []")
  case True
  then show ?thesis using char_at_hd[OF len, of pos] l r by (auto simp: exponent_def stops_def number_char_def)
next
  case False
  then obtain e sg ds where ex: "ex = e # sg @ ds" "e = 101 \<or> e = 69" "sg = [] \<or> sg = [43] \<or> sg = [45]" "digit_text ds"
    using e by (auto simp: exponent_text_def)
  have l': "left src len pos = e # (sg @ ds) @ r" using l ex by simp
  note n = left_Cons[OF len l']
  have dg: "ds \<noteq> []" "isdigit (hd ds)" using ex(4) by (cases ds; simp add: digit_text_def)+
  show ?thesis
  proof (cases sg)
    case Nil
    have "hd ds \<noteq> 43 \<and> hd ds \<noteq> 45" using dg(2) by (auto simp: isdigit_def)
    moreover have "digits src len (Suc pos) = Ok (Suc pos + length ds)" using n(3) Nil ex(4) stops_digit[OF r] by (intro digits_ok[OF len]) simp_all
    ultimately show ?thesis using char_at_ok(1)[OF len l'] char_at_hd[OF len, of "Suc pos"] n(3) ex dg Nil by (auto simp: exponent_def)
  next
    case (Cons s sg')
    then have s: "sg = [s]" "s = 43 \<or> s = 45" using ex(3) by auto
    have l2: "left src len (Suc pos) = s # ds @ r" using n(3) s by simp
    note m = left_Cons[OF len l2]
    have "digits src len (Suc (Suc pos)) = Ok (Suc (Suc pos) + length ds)" by (rule digits_ok[OF len m(3) ex(4) stops_digit[OF r]])
    then show ?thesis using char_at_ok(1)[OF len l'] char_at_ok(1)[OF len l2] ex s by (auto simp: exponent_def)
  qed
qed

lemma number_ok:
  assumes len: "jp_len p \<le> length (jp_src p)"
    and l: "left (jp_src p) (jp_len p) (jp_pos p) = t @ r" and t: "t = sg @ ds @ fr @ ex" "length t < 64"
    and parts: "sign_text sg" "digit_text ds" "fraction_text fr" "exponent_text ex" and r: "stops number_char r"
  shows "parse_number strtod p =
    Ok (convert_number strtod (fr @ ex \<noteq> []) (sg = [45]) t, p\<lparr>jp_pos := jp_pos p + length t\<rparr>)"
proof -
  let ?src = "jp_src p" and ?len = "jp_len p" and ?s = "jp_pos p"
  have dg: "ds \<noteq> []" "isdigit (hd ds)" using parts(2) by (cases ds; simp add: digit_text_def)+
  have "hd ds \<noteq> 45" using dg(2) by (auto simp: isdigit_def)
  then have c: "char_at ?src ?len ?s = Ok (Some (hd (sg @ ds)))" "hd (sg @ ds) = 45 \<longleftrightarrow> sg = [45]"
    using char_at_hd[OF len, of ?s] l t(1) dg parts(1) by (auto simp: sign_text_def)
  let ?p1 = "?s + length sg"
  have l1: "left ?src ?len ?p1 = ds @ fr @ ex @ r" using left_append[of ?src ?len ?s sg] l t(1) by simp
  have st1: "stops isdigit (fr @ ex @ r)" and st2: "stops isdigit (ex @ r)" "stops (\<lambda>c. c = 46) (ex @ r)"
  proof -
    have ex: "stops isdigit (ex @ r)" "stops (\<lambda>c. c = 46) (ex @ r)"
      using parts(4) stops_digit[OF r] r by (auto simp: exponent_text_def isdigit_def stops_def number_char_def)
    show "stops isdigit (fr @ ex @ r)" using parts(3) ex by (auto simp: fraction_text_def isdigit_def)
    show "stops isdigit (ex @ r)" "stops (\<lambda>c. c = 46) (ex @ r)" by (rule ex)+
  qed
  have d: "digits ?src ?len ?p1 = Ok (?p1 + length ds)" by (rule digits_ok[OF len l1 parts(2) st1])
  note l2 = left_append[OF l1]
  have f: "fraction ?src ?len (?p1 + length ds) = Ok (fr \<noteq> [], ?p1 + length ds + length fr)"
    by (rule fraction_ok[OF len l2 parts(3) st2])
  note l3 = left_append[OF l2]
  have e: "exponent ?src ?len (fr \<noteq> []) (?p1 + length ds + length fr) = Ok (fr \<noteq> [] \<or> ex \<noteq> [], ?p1 + length ds + length fr + length ex)"
    by (rule exponent_ok[OF len l3 parts(4) r])
  have p1: "(if sg = [45] then ?s + 1 else ?s) = ?p1" using parts(1) by (auto simp: sign_text_def)
  have end': "?p1 + length ds + length fr + length ex = ?s + length t" by (simp add: t(1))
  have "length t \<le> ?len - ?s" using length_left[OF len, of ?s] by (simp add: l)
  then have tk: "take (length t) (drop ?s ?src) = t" using arg_cong[OF l, of "take (length t)"] by (simp add: left_def min_absorb1)
  show ?thesis
    unfolding parse_number_def Let_def c(1) rbind_simps option.inject c(2) p1 d f e end' prod.case
    using t(2) tk by simp
qed

lemma int_number_ok:
  assumes len: "jp_len p \<le> length (jp_src p)"
    and l: "left (jp_src p) (jp_len p) (jp_pos p) = t @ r" and t: "int_text n t" "int_fits n" and r: "stops number_char r"
  shows "parse_number strtod p = Ok (int_value n, p\<lparr>jp_pos := jp_pos p + length t\<rparr>)"
proof -
  have none: "fraction_text []" "exponent_text []" by (simp_all add: fraction_text_def exponent_text_def)
  show ?thesis
  proof (cases "digit_text t")
    case True
    then have n: "n = int (digits_val t)" "length t < 64"
      using t(1) by (auto simp: int_text_def digit_text_def isdigit_def)
    have "parse_number strtod p = Ok (convert_number strtod ([] @ [] \<noteq> ([] :: u8 list)) ([] = [45 :: u8]) t, p\<lparr>jp_pos := jp_pos p + length t\<rparr>)"
      using True none n by (intro number_ok[OF len l _ _ _ _ none r, where ds = t]) (simp_all add: sign_text_def)
    moreover have "convert_number strtod False False t = int_value n"
      using t(2) n(1) by (auto simp: convert_number_def strtoull_def int_value_def int_fits_def tp_value_int_def tp_value_uint_def)
    ultimately show ?thesis by simp
  next
    case False
    then obtain ds where ds: "t = 45 # ds" "digit_text ds" "n = - int (digits_val ds)" "length t < 64" using t(1) by (auto simp: int_text_def)
    have "parse_number strtod p = Ok (convert_number strtod ([] @ [] \<noteq> ([] :: u8 list)) ([45] = [45 :: u8]) t, p\<lparr>jp_pos := jp_pos p + length t\<rparr>)"
      using none ds by (intro number_ok[OF len l _ _ _ _ none r, where ds = ds]) (simp_all add: sign_text_def)
    moreover have "convert_number strtod False True t = int_value n"
      using t(2) ds(1,3) by (auto simp: convert_number_def strtoll_neg_def int_value_def int_fits_def tp_value_int_def)
    ultimately show ?thesis by simp
  qed
qed

lemma real_number_ok:
  assumes len: "jp_len p \<le> length (jp_src p)"
    and l: "left (jp_src p) (jp_len p) (jp_pos p) = t @ r" and t: "real_text t" and r: "stops number_char r"
  shows "parse_number strtod p = Ok (TP_FLOAT64 (strtod t), p\<lparr>jp_pos := jp_pos p + length t\<rparr>)"
proof -
  obtain sg ds fr ex where parts: "t = sg @ ds @ fr @ ex" "sign_text sg" "digit_text ds" "fraction_text fr" "exponent_text ex"
    "fr @ ex \<noteq> []" "length t < 64" using t by (auto simp: real_text_def)
  show ?thesis using number_ok[OF len l parts(1,7,2-5) r, of strtod] parts(6)
    by (simp add: convert_number_def tp_value_float64_def)
qed

end
