(* ===== verification/Json_Parse.thy ===== *)
theory Json_Parse
  imports Json_Scan
begin

text \<open>
  The JSON parser against the grammar: on a text of a document within the limits of its buffers,
  parsing adds exactly the flattened document to the encoder, in order, and ends behind the text. If
  an addition fails, parsing fails with its error.
\<close>

section \<open>Moving on in the text\<close>

abbreviation unread :: "json_parser \<Rightarrow> u8 list" where
  "unread p \<equiv> left (jp_src p) (jp_len p) (jp_pos p)"

definition src_ok :: "json_parser \<Rightarrow> bool" where
  "src_ok p \<longleftrightarrow> jp_len p \<le> length (jp_src p)"

lemma skip_simps [simp]:
  "jp_src (skip n p) = jp_src p" "jp_len (skip n p) = jp_len p" "jp_pos (skip n p) = jp_pos p + n"
  "jp_depth (skip n p) = jp_depth p" "jp_enc (skip n p) = jp_enc p" "jp_path (skip n p) = jp_path p"
  "jp_path_len (skip n p) = jp_path_len p" "src_ok (skip n p) = src_ok p" "skip 0 p = p"
  by (simp_all add: skip_def src_ok_def)

lemma skip_skip [simp]: "skip m (skip n p) = skip (n + m) p"
  by (simp add: skip_def add.assoc)

lemma rest_skip: "unread p = xs @ ys \<Longrightarrow> unread (skip (length xs) p) = ys"
  by (simp add: left_append)

lemma ws_simps [simp]: "ws []" "ws (c # w) = (is_ws c \<and> ws w)" "ws (v @ w) = (ws v \<and> ws w)"
  by (simp_all add: ws_def)

lemma skip_ws_ok: "src_ok p \<Longrightarrow> unread p = w @ r \<Longrightarrow> ws w \<Longrightarrow> stops is_ws r \<Longrightarrow> skip_ws p = Ok (skip (length w) p)"
  by (simp add: skip_ws_def ws_end_ok src_ok_def skip_def)

lemma peek_ok: "src_ok p \<Longrightarrow> unread p = w @ c # r \<Longrightarrow> ws w \<Longrightarrow> \<not> is_ws c \<Longrightarrow> peek p = Ok (c, skip (length w) p)"
  using left_Cons[of "jp_len p" "jp_src p" "jp_pos p + length w" c r] left_append[of "jp_src p" "jp_len p" "jp_pos p" w "c # r"]
  by (simp add: peek_def skip_ws_ok src_ok_def)

lemma expect_ok: "src_ok p \<Longrightarrow> unread p = w @ c # r \<Longrightarrow> ws w \<Longrightarrow> \<not> is_ws c \<Longrightarrow> expect c p = Ok (True, skip (length w + 1) p)"
  using left_Cons[of "jp_len p" "jp_src p" "jp_pos p + length w" c r] left_append[of "jp_src p" "jp_len p" "jp_pos p" w "c # r"]
  by (simp add: expect_def skip_ws_ok src_ok_def skip_def add.assoc)

lemma parse_string_ok:
  assumes p: "src_ok p" and l: "unread p = w @ t @ r" and w: "ws w" and t: "string_text s t"
    and cap: "length s \<le> cap" "cap < length out"
  shows "\<exists>out'. parse_string_into out cap p = Ok ((out', length s), skip (length w + length t) p) \<and>
    length out' = length out \<and> take (length s) out' = s"
proof -
  obtain body where b: "t = 34 # body @ [34]" "string_chars s body" using t by (auto simp: string_text_def)
  have e: "expect 34 p = Ok (True, skip (length w + 1) p)" using l b by (intro expect_ok[OF p _ w]) (simp_all add: is_ws_def)
  have len: "jp_len p \<le> length (jp_src p)" using p by (simp add: src_ok_def)
  have l': "left (jp_src p) (jp_len p) (jp_pos p + length w + 1) = body @ 34 # r"
    using left_append[of "jp_src p" "jp_len p" "jp_pos p" "w @ [34]" "body @ 34 # r"] l b by (simp add: add.assoc)
  then have "length body < Suc (jp_len p)" using length_left[OF len, of "jp_pos p + length w + 1"] by simp
  from string_loop_ok[OF len cap(2) b(2) l' this, of 0 out] obtain out' where
    "string_loop (Suc (jp_len p)) (jp_src p) (jp_len p) (jp_pos p + length w + 1) out cap 0 =
      Ok (out', length s, jp_pos p + length w + 1 + length body + 1)" "length out' = length out" "take (length s) out' = s"
    using cap by auto
  then show ?thesis using e b by (simp add: parse_string_into_def skip_def add.assoc)
qed

lemma parse_key_ok:
  assumes "src_ok p" and "unread p = w @ t @ r" and "ws w" and "string_text s t" and "length s \<le> 1023"
  shows "\<exists>key. parse_key p = Ok ((key, length s), skip (length w + length t) p) \<and> length key = 1024 \<and> take (length s) key = s"
  using parse_string_ok[OF assms(1-4), of 1023 "replicate 1024 0"] assms(5) by (auto simp: parse_key_def store_def)

section \<open>The path buffer\<close>

definition has_path :: "json_parser \<Rightarrow> u8 list \<Rightarrow> bool" where
  "has_path p path \<longleftrightarrow> length (jp_path p) = 4096 \<and> jp_path_len p = length path \<and> take (length path) (jp_path p) = path"

lemma has_path_skip [simp]: "has_path (skip n p) path = has_path p path"
  by (simp add: has_path_def)

definition holds :: "u8 list \<Rightarrow> u8 list \<Rightarrow> bool" where
  "holds buf path \<longleftrightarrow> length buf = 4096 \<and> take (length path) buf = path"

lemma push_key_holds:
  assumes "has_path p path" and "length (push_key path k) < 4096" and "take (length k) key = k" and "length k \<le> length key"
  shows "\<exists>buf. path_push_key key (length k) p = Ok (length path, p\<lparr>jp_path := buf, jp_path_len := length (push_key path k)\<rparr>) \<and>
    holds buf (push_key path k)"
proof (cases "path = []")
  case True
  then show ?thesis using assms
    by (simp add: path_push_key_def has_path_def push_key_def holds_def memcpy_def store_def PATH_SIZE_def Let_def)
      (rule exI, rule conjI, rule refl, simp)
next
  case False
  then show ?thesis using assms
    by (simp add: path_push_key_def has_path_def push_key_def holds_def memcpy_def store_def PATH_SIZE_def Let_def)
      (rule exI, rule conjI, rule refl, simp add: take_Suc_conv_app_nth)
qed

lemma push_index_holds:
  assumes "has_path p path" and "length (push_index path i) < 4096"
  shows "\<exists>buf. path_push_index i p = Ok (length path, p\<lparr>jp_path := buf, jp_path_len := length (push_index path i)\<rparr>) \<and>
    holds buf (push_index path i)"
  using assms
  by (simp add: path_push_index_def has_path_def push_index_def holds_def memcpy_def store_def PATH_SIZE_def Let_def)
    (rule exI, rule conjI, rule refl, simp)

lemma holds_push: "holds buf (push_key path k) \<Longrightarrow> holds buf path" "holds buf (push_index path i) \<Longrightarrow> holds buf path"
proof -
  have t: "take (length path) buf = path" if "take (length (path @ x)) buf = path @ x" for x
    using arg_cong[OF that, of "take (length path)"] by (simp add: min_absorb1)
  show "holds buf (push_key path k) \<Longrightarrow> holds buf path" using t[of "46 # k"] by (auto simp: holds_def push_key_def split: if_splits)
  show "holds buf (push_index path i) \<Longrightarrow> holds buf path" using t[of "91 # decimal i @ [93]"] by (simp add: holds_def push_index_def)
qed

lemma restore_ok:
  assumes "holds (jp_path p) path" and "length path < 4096"
  shows "\<exists>buf. path_restore (length path) p = Ok (p\<lparr>jp_path := buf, jp_path_len := length path\<rparr>) \<and> holds buf path"
  using assms by (simp add: path_restore_def store_def holds_def) (rule exI, rule conjI, rule refl, simp)

section \<open>Adding a list of leaves\<close>

definition adds :: "nat \<Rightarrow> (u8 list \<times> tp_value) list \<Rightarrow> encoding" where
  "adds heap = for_each (\<lambda>(k, v). tp_encoder_add_n heap (Some k) (length k) (Some v))"

lemma for_each_append: "for_each f (xs @ ys) s = sbind (for_each f xs) (\<lambda>_. for_each f ys) s"
  by (induction xs arbitrary: s) (auto simp: sbind_def split: prod.splits res.splits)

text \<open>What adding does decides what parsing returns: its error, or a parser as \<open>Q\<close> says.\<close>

definition outcome :: "unit tp \<times> tp_encoder \<Rightarrow> (tp_encoder \<Rightarrow> json_parser tp \<Rightarrow> bool) \<Rightarrow> json_parser tp \<Rightarrow> bool" where
  "outcome a Q m \<longleftrightarrow>
     (case a of (Ok _, enc) \<Rightarrow> Q enc m | (Err e, _) \<Rightarrow> m = Err e | (Fault, _) \<Rightarrow> m = Fault | (Diverge, _) \<Rightarrow> m = Diverge)"

lemma outcome_rbind:
  assumes "outcome (adds heap xs enc) Q m" and "\<And>enc' m'. Q enc' m' \<Longrightarrow> outcome (adds heap ys enc') R (rbind m' K)"
  shows "outcome (adds heap (xs @ ys) enc) R (rbind m K)"
proof (cases "adds heap xs enc")
  case (Pair r enc1)
  have app: "adds heap (xs @ ys) enc = (case r of Ok _ \<Rightarrow> adds heap ys enc1 | Err e \<Rightarrow> (Err e, enc1) | Fault \<Rightarrow> (Fault, enc1) | Diverge \<Rightarrow> (Diverge, enc1))"
    using Pair by (cases r) (simp_all add: adds_def for_each_append sbind_def)
  show ?thesis
  proof (cases r)
    case (Ok u)
    then have "Q enc1 m" using assms(1) Pair by (simp add: outcome_def)
    then show ?thesis using assms(2) app Ok by simp
  qed (use assms(1) Pair app in \<open>simp_all add: outcome_def\<close>)
qed

definition ended :: "json_parser \<Rightarrow> nat \<Rightarrow> nat \<Rightarrow> u8 list \<Rightarrow> tp_encoder \<Rightarrow> json_parser tp \<Rightarrow> bool" where
  "ended p n d path enc m \<longleftrightarrow>
     (\<exists>buf. m = Ok (p\<lparr>jp_pos := jp_pos p + n, jp_depth := d, jp_enc := enc, jp_path := buf\<rparr>) \<and> holds buf path)"

lemma add_value_ok:
  assumes p: "has_path p path" and v: "v = v' \<or> (\<exists>s buf. v' = TP_STRING (Some s) (length s) \<and> v = TP_STRING (Some buf) (length s) \<and> length s \<le> length buf \<and> take (length s) buf = s)"
  shows "outcome (adds heap [(path, v')] (jp_enc p)) (ended p 0 (jp_depth p) path) (add_value heap v p)"
proof -
  have "value_deep_copy heap v = value_deep_copy heap v'" using v by (auto simp: value_deep_copy_def)
  then have "tp_encoder_add_n heap (Some (jp_path p)) (jp_path_len p) (Some v) (jp_enc p) =
      tp_encoder_add_n heap (Some path) (length path) (Some v') (jp_enc p)"
    using p unfolding tp_encoder_add_n_def has_path_def by (auto simp: Let_def)
  then show ?thesis using p
    by (auto simp: outcome_def adds_def add_value_def ended_def sbind_def holds_def has_path_def
        split: prod.splits res.splits intro!: exI[of _ "jp_path p"])
qed

section \<open>Values\<close>

lemma ended_skip: "ended (skip m p) n d path = ended p (m + n) d path"
  by (simp add: fun_eq_iff ended_def skip_def add.assoc)

lemma ended_depth: "ended (p\<lparr>jp_depth := x\<rparr>) n d path = ended p n d path"
  by (simp add: fun_eq_iff ended_def)

lemma outcome_weaken: "outcome a Q m \<Longrightarrow> (\<And>enc m. Q enc m \<Longrightarrow> R enc m) \<Longrightarrow> outcome a R m"
  by (auto simp: outcome_def split: prod.splits res.splits)

lemma at_literal_ok: "src_ok p \<Longrightarrow> lit \<noteq> [] \<Longrightarrow> at_literal lit p = Ok (take (length lit) (unread p) = lit)"
proof -
  assume p: "src_ok p" and ne: "lit \<noteq> []"
  show ?thesis
  proof (cases "jp_pos p + length lit \<le> jp_len p")
    case True
    then have "take (length lit) (unread p) = take (length lit) (drop (jp_pos p) (jp_src p))" by (simp add: left_def min_absorb1)
    then show ?thesis using True p memcmp_take[of "length lit" "drop (jp_pos p) (jp_src p)" lit] by (simp add: at_literal_def src_ok_def)
  next
    case False
    moreover have "0 < length lit" using ne by simp
    ultimately have "jp_len p - jp_pos p < length lit" by linarith
    then have "length (unread p) < length lit" using p length_left[of "jp_len p" "jp_src p" "jp_pos p"] by (simp add: src_ok_def)
    then have "length (take (length lit) (unread p)) < length lit" by simp
    then have "take (length lit) (unread p) \<noteq> lit" by force
    then show ?thesis using False by (simp add: at_literal_def)
  qed
qed

lemma parse_value_at:
  assumes p: "src_ok p" and l: "unread p = w @ c # r" and w: "ws w" and c: "\<not> is_ws c"
  shows "parse_value strtod heap (Suc fuel) p =
    (if c = 123 then parse_object strtod heap fuel (skip (length w) p)
     else if c = 91 then parse_array strtod heap fuel (skip (length w) p)
     else if c = 34 then parse_string_value heap (skip (length w) p)
     else if c = 45 \<or> isdigit c then rbind (parse_number strtod (skip (length w) p)) (\<lambda>(val, p). add_value heap val p)
     else parse_literal heap (skip (length w) p))"
proof -
  have "skip_ws p = Ok (skip (length w) p)" by (rule skip_ws_ok[OF p l w]) (simp add: c)
  moreover have "left (jp_src p) (jp_len p) (jp_pos p + length w) = c # r" by (rule left_append[OF l])
  note left_Cons[OF _ this]
  ultimately show ?thesis using p by (simp add: src_ok_def)
qed

lemma literal_ok:
  assumes p: "src_ok p" "has_path p path" and l: "unread p = t @ r"
    and t: "t = [116, 114, 117, 101] \<and> v = TP_BOOL True \<or> t = [102, 97, 108, 115, 101] \<and> v = TP_BOOL False \<or>
      t = [110, 117, 108, 108] \<and> v = TP_NULL"
  shows "outcome (adds heap [(path, v)] (jp_enc p)) (ended p (length t) (jp_depth p) path) (parse_literal heap p)"
proof -
  have lens: "Suc (Suc (Suc (Suc 0))) = 4" "Suc (Suc (Suc (Suc (Suc 0)))) = 5" by simp_all
  have "parse_literal heap p = add_value heap v (skip (length t) p)"
    using t l by (auto simp: parse_literal_def at_literal_ok[OF p(1)] tp_value_bool_def tp_value_null_def lens)
  then show ?thesis using add_value_ok[of "skip (length t) p" path v v heap] p(2) by (simp add: ended_skip)
qed

lemma string_value_ok:
  assumes p: "src_ok p" "has_path p path" and l: "unread p = t @ r" and t: "string_text s t" "length s \<le> 4095"
  shows "outcome (adds heap [(path, TP_STRING (Some s) (length s))] (jp_enc p)) (ended p (length t) (jp_depth p) path) (parse_string_value heap p)"
proof -
  obtain str where str: "parse_string_into (replicate 4096 0) 4095 p = Ok ((str, length s), skip (length t) p)"
    "length str = 4096" "take (length s) str = s"
    using parse_string_ok[of p "[]" t r s 4095 "replicate 4096 0"] p(1) l t by auto
  have "parse_string_value heap p = add_value heap (TP_STRING (Some (str[length s := 0])) (length s)) (skip (length t) p)"
    using str t(2) by (simp add: parse_string_value_def store_def tp_value_string_n_def)
  then show ?thesis using add_value_ok[of "skip (length t) p" path "TP_STRING (Some (str[length s := 0])) (length s)" "TP_STRING (Some s) (length s)" heap]
    p(2) str t(2) by (simp add: ended_skip)
qed

lemma number_value_ok:
  assumes p: "src_ok p" "has_path p path" and l: "unread p = t @ r" and r: "stops number_char r"
    and t: "int_text n t \<and> int_fits n \<and> v = int_value n \<or> real_text t \<and> v = TP_FLOAT64 (strtod t)"
  shows "outcome (adds heap [(path, v)] (jp_enc p)) (ended p (length t) (jp_depth p) path)
    (rbind (parse_number strtod p) (\<lambda>(val, p). add_value heap val p))"
proof -
  have "parse_number strtod p = Ok (v, skip (length t) p)"
    using t int_number_ok[OF _ l _ _ r, of n strtod] real_number_ok[OF _ l _ r, of strtod] p(1) by (auto simp: src_ok_def skip_def)
  then show ?thesis using add_value_ok[of "skip (length t) p" path v v heap] p(2) by (simp add: ended_skip)
qed

lemma digit_text_hd: "digit_text ds \<Longrightarrow> \<exists>c t. ds = c # t \<and> isdigit c"
  by (cases ds) (simp_all add: digit_text_def)

lemma number_text_hd: "int_text n t \<or> real_text t \<Longrightarrow> \<exists>c t'. t = c # t' \<and> (c = 45 \<or> isdigit c)"
  using digit_text_hd by (fastforce simp: int_text_def real_text_def sign_text_def)

lemma isdigit_not: "isdigit c \<Longrightarrow> \<not> is_ws c \<and> c \<noteq> 123 \<and> c \<noteq> 91 \<and> c \<noteq> 93 \<and> c \<noteq> 125 \<and> c \<noteq> 34 \<and> c \<noteq> 44"
  by (auto simp: isdigit_def is_ws_def)

lemma json_text_hd:
  assumes j: "json_text strtod j t"
  shows "\<exists>c t'. t = c # t' \<and> \<not> is_ws c \<and> c \<noteq> 93"
proof -
  have n: "\<exists>c t'. t = c # t' \<and> \<not> is_ws c \<and> c \<noteq> 93" if num: "int_text n t \<or> real_text t" for n
  proof -
    obtain c t' where t: "t = c # t'" "c = 45 \<or> isdigit c" using number_text_hd[OF num] by blast
    then have "\<not> is_ws c \<and> c \<noteq> 93" using isdigit_not[of c] by (auto simp: is_ws_def)
    then show ?thesis using t(1) by blast
  qed
  from j show ?thesis
  proof (cases rule: json_text.cases)
    case (int_text n)
    then show ?thesis using n by blast
  next
    case real_text
    then show ?thesis using n by blast
  qed (auto simp: string_text_def is_ws_def)
qed

lemma members_text_hd: "members_text strtod kvs t \<Longrightarrow> \<exists>t'. t = 34 # t'"
  by (cases rule: members_text.cases) (auto simp: string_text_def)

lemma elements_text_hd: "elements_text strtod vs t \<Longrightarrow> \<exists>c t'. t = c # t' \<and> \<not> is_ws c \<and> c \<noteq> 93"
  by (cases rule: elements_text.cases) (auto dest!: json_text_hd)

lemma stops_ws: "ws w \<Longrightarrow> \<not> number_char c \<Longrightarrow> stops number_char (w @ c # r)"
  by (cases w) (auto simp: number_char_def is_ws_def isdigit_def)

section \<open>Objects and arrays\<close>

text \<open>What the loops do behind a member or an element.\<close>

definition behind :: "u8 \<Rightarrow> (json_parser \<Rightarrow> json_parser tp) \<Rightarrow> json_parser \<Rightarrow> json_parser tp" where
  "behind close again p =
     rbind (peek p) (\<lambda>(c, p).
     if c = close then Ok (leave p)
     else rbind (expect 44 p) (\<lambda>(comma, p). if \<not> comma then Err TP_ERR_JSON_SYNTAX else again p))"

lemma behind_close: "src_ok p \<Longrightarrow> unread p = c # r \<Longrightarrow> \<not> is_ws c \<Longrightarrow> behind c again p = Ok (leave p)"
  using peek_ok[of p "[]" c r] by (simp add: behind_def)

lemma behind_comma: "src_ok p \<Longrightarrow> unread p = 44 # r \<Longrightarrow> close \<noteq> 44 \<Longrightarrow> behind close again p = again (skip 1 p)"
  using peek_ok[of p "[]" 44 r] expect_ok[of p "[]" 44 r] by (simp add: behind_def is_ws_def)

text \<open>The value of a member or element, from the pushed path on.\<close>

lemma pushed_value:
  assumes p: "src_ok p" and path: "length path < 4096" "\<And>buf. holds buf path' \<Longrightarrow> holds buf path"
    and push: "holds buf path'" "q = p\<lparr>jp_path := buf, jp_path_len := length path'\<rparr>"
    and l: "unread p = w @ vt @ w3 @ c # r" and c: "\<not> is_ws c" and w3: "ws w3"
    and val: "has_path q path' \<Longrightarrow> outcome (adds heap xs (jp_enc q)) (ended q (length w + length vt) (jp_depth q) path') m"
    and cont: "\<And>enc buf. holds buf path \<Longrightarrow>
       outcome (adds heap ys enc) R (K (p\<lparr>jp_pos := jp_pos p + length w + length vt + length w3, jp_enc := enc, jp_path := buf, jp_path_len := length path\<rparr>))"
  shows "outcome (adds heap (xs @ ys) (jp_enc p)) R (rbind m (\<lambda>p. rbind (path_restore (length path) p) (\<lambda>p. rbind (skip_ws p) K)))"
proof -
  have "has_path q path'" using push by (simp add: has_path_def holds_def)
  from val[OF this] have v: "outcome (adds heap xs (jp_enc p)) (ended q (length w + length vt) (jp_depth q) path') m" using push by simp
  show ?thesis
  proof (rule outcome_rbind[OF v])
    fix enc m' assume "ended q (length w + length vt) (jp_depth q) path' enc m'"
    then obtain b2 where b2: "m' = Ok (q\<lparr>jp_pos := jp_pos p + (length w + length vt), jp_enc := enc, jp_path := b2\<rparr>)" "holds b2 path'"
      using push(2) by (auto simp: ended_def)
    let ?q2 = "q\<lparr>jp_pos := jp_pos p + (length w + length vt), jp_enc := enc, jp_path := b2\<rparr>"
    obtain b3 where b3: "path_restore (length path) ?q2 = Ok (?q2\<lparr>jp_path := b3, jp_path_len := length path\<rparr>)" "holds b3 path"
      using restore_ok[of ?q2 path] path(2)[OF b2(2)] path(1) by auto
    let ?q3 = "?q2\<lparr>jp_path := b3, jp_path_len := length path\<rparr>"
    have "unread ?q3 = w3 @ c # r" using left_append[of "jp_src p" "jp_len p" "jp_pos p" "w @ vt" "w3 @ c # r"] l push(2) by simp
    moreover have "src_ok ?q3" using p push(2) by (simp add: src_ok_def)
    ultimately have "skip_ws ?q3 = Ok (skip (length w3) ?q3)" using c w3 skip_ws_ok[of ?q3 w3 "c # r"] by simp
    moreover have "skip (length w3) ?q3 = p\<lparr>jp_pos := jp_pos p + length w + length vt + length w3, jp_enc := enc, jp_path := b3, jp_path_len := length path\<rparr>"
      using push(2) by (simp add: skip_def add.assoc)
    ultimately show "outcome (adds heap ys enc) R (rbind m' (\<lambda>p. rbind (path_restore (length path) p) (\<lambda>p. rbind (skip_ws p) K)))"
      using cont[OF b3(2), of enc] b2(1) b3(1) by simp
  qed
qed

text \<open>One member of an object, and one element of an array, up to what follows them.\<close>

lemma object_step:
  assumes p: "src_ok p" "has_path p path" "length path < 4096" and fit: "length k \<le> 1023" "length (push_key path k) < 4096"
    and l: "unread p = w @ kt @ w1 @ 58 # w2 @ vt @ w3 @ c # r" and w: "ws w" "ws w1" "ws w3" and c: "\<not> is_ws c"
    and k: "string_text k kt"
    and val: "\<And>q. src_ok q \<Longrightarrow> has_path q (push_key path k) \<Longrightarrow> jp_depth q = jp_depth p \<Longrightarrow> unread q = w2 @ vt @ w3 @ c # r \<Longrightarrow>
      outcome (adds heap xs (jp_enc q)) (ended q (length w2 + length vt) (jp_depth q) (push_key path k)) (parse_value strtod heap fuel q)"
    and cont: "\<And>enc buf. holds buf path \<Longrightarrow> outcome (adds heap ys enc) R (behind 125 (object_loop strtod heap fuel)
      (p\<lparr>jp_pos := jp_pos p + (length w + length kt + length w1 + 1 + length w2 + length vt + length w3),
         jp_enc := enc, jp_path := buf, jp_path_len := length path\<rparr>))"
  shows "outcome (adds heap (xs @ ys) (jp_enc p)) R (object_loop strtod heap (Suc fuel) p)"
proof -
  obtain key where key: "parse_key p = Ok ((key, length k), skip (length w + length kt) p)" "length key = 1024" "take (length k) key = k"
    using parse_key_ok[OF p(1) l w(1) k fit(1)] by blast
  let ?q = "skip (length w + length kt + length w1 + 1) p"
  have l1: "unread (skip (length w + length kt) p) = w1 @ 58 # w2 @ vt @ w3 @ c # r"
    using rest_skip[of p "w @ kt"] l by simp
  have s1: "skip_ws (skip (length w + length kt) p) = Ok (skip (length w + length kt + length w1) p)"
    using skip_ws_ok[OF _ l1] w(2) p(1) by (simp add: is_ws_def)
  have l2: "unread (skip (length w + length kt + length w1) p) = [] @ 58 # w2 @ vt @ w3 @ c # r"
    using rest_skip[OF l1] by simp
  have e: "expect 58 (skip (length w + length kt + length w1) p) = Ok (True, ?q)"
    using expect_ok[OF _ l2] p(1) by (simp add: is_ws_def)
  have l3: "unread ?q = w2 @ vt @ w3 @ c # r" using rest_skip[of "skip (length w + length kt + length w1) p" "[58]"] l2 by simp
  obtain buf where push: "path_push_key key (length k) ?q = Ok (length path, ?q\<lparr>jp_path := buf, jp_path_len := length (push_key path k)\<rparr>)"
    "holds buf (push_key path k)"
    using push_key_holds[of ?q path k key] p(2) fit key by auto
  let ?q' = "?q\<lparr>jp_path := buf, jp_path_len := length (push_key path k)\<rparr>"
  have "outcome (adds heap (xs @ ys) (jp_enc ?q)) R (rbind (parse_value strtod heap fuel ?q')
      (\<lambda>p. rbind (path_restore (length path) p) (\<lambda>p. rbind (skip_ws p) (behind 125 (object_loop strtod heap fuel)))))"
  proof (rule pushed_value[where p = ?q, OF _ p(3) holds_push(1) push(2) refl l3 c w(3)])
    show "src_ok ?q" using p(1) by simp
    show "outcome (adds heap xs (jp_enc ?q')) (ended ?q' (length w2 + length vt) (jp_depth ?q') (push_key path k)) (parse_value strtod heap fuel ?q')"
      if "has_path ?q' (push_key path k)" using that p(1) l3 by (intro val) (simp_all add: src_ok_def)
    show "outcome (adds heap ys enc) R (behind 125 (object_loop strtod heap fuel)
      (?q\<lparr>jp_pos := jp_pos ?q + length w2 + length vt + length w3, jp_enc := enc, jp_path := buf, jp_path_len := length path\<rparr>))"
      if "holds buf path" for enc buf using cont[OF that, of enc] by (simp add: skip_def add.assoc)
  qed
  then show ?thesis using key(1) s1 e push(1) by (simp add: behind_def[abs_def])
qed

lemma array_step:
  assumes p: "src_ok p" "has_path p path" "length path < 4096" and fit: "length (push_index path i) < 4096"
    and l: "unread p = w @ vt @ w3 @ c # r" and w: "ws w3" and c: "\<not> is_ws c"
    and val: "\<And>q. src_ok q \<Longrightarrow> has_path q (push_index path i) \<Longrightarrow> jp_depth q = jp_depth p \<Longrightarrow> unread q = w @ vt @ w3 @ c # r \<Longrightarrow>
      outcome (adds heap xs (jp_enc q)) (ended q (length w + length vt) (jp_depth q) (push_index path i)) (parse_value strtod heap fuel q)"
    and cont: "\<And>enc buf. holds buf path \<Longrightarrow> outcome (adds heap ys enc) R (behind 93 (array_loop strtod heap fuel (wrap32 (i + 1)))
      (p\<lparr>jp_pos := jp_pos p + (length w + length vt + length w3), jp_enc := enc, jp_path := buf, jp_path_len := length path\<rparr>))"
  shows "outcome (adds heap (xs @ ys) (jp_enc p)) R (array_loop strtod heap (Suc fuel) i p)"
proof -
  obtain buf where push: "path_push_index i p = Ok (length path, p\<lparr>jp_path := buf, jp_path_len := length (push_index path i)\<rparr>)"
    "holds buf (push_index path i)"
    using push_index_holds[OF p(2) fit] by blast
  let ?q = "p\<lparr>jp_path := buf, jp_path_len := length (push_index path i)\<rparr>"
  have "outcome (adds heap (xs @ ys) (jp_enc p)) R (rbind (parse_value strtod heap fuel ?q)
      (\<lambda>p. rbind (path_restore (length path) p) (\<lambda>p. rbind (skip_ws p) (behind 93 (array_loop strtod heap fuel (wrap32 (i + 1)))))))"
  proof (rule pushed_value[where p = p, OF p(1,3) holds_push(2) push(2) refl l c w])
    show "outcome (adds heap xs (jp_enc ?q)) (ended ?q (length w + length vt) (jp_depth ?q) (push_index path i)) (parse_value strtod heap fuel ?q)"
      if "has_path ?q (push_index path i)" using that p(1) l by (intro val) (simp_all add: src_ok_def)
    show "outcome (adds heap ys enc) R (behind 93 (array_loop strtod heap fuel (wrap32 (i + 1)))
      (p\<lparr>jp_pos := jp_pos p + length w + length vt + length w3, jp_enc := enc, jp_path := buf, jp_path_len := length path\<rparr>))"
      if "holds buf path" for enc buf using cont[OF that, of enc] by (simp add: add.assoc)
  qed
  then show ?thesis using push(1) by (simp add: behind_def[abs_def] cong: if_cong)
qed

text \<open>The brackets of an object and of an array.\<close>

lemma enter_ok:
  assumes "src_ok p" and "unread p = b # r" and "\<not> is_ws b" and "jp_depth p < 32"
  shows "enter b p = Ok (skip 1 p\<lparr>jp_depth := jp_depth p + 1\<rparr>)"
proof -
  have "src_ok (p\<lparr>jp_depth := jp_depth p + 1\<rparr>)" "unread (p\<lparr>jp_depth := jp_depth p + 1\<rparr>) = [] @ b # r"
    using assms by (simp_all add: src_ok_def)
  from expect_ok[OF this] show ?thesis using assms by (simp add: enter_def TP_MAX_NESTING_DEPTH_def skip_def)
qed

lemma empty_ok:
  assumes p: "src_ok p" "has_path p path" "jp_depth p < 32" and l: "unread p = b # w @ c # r" and w: "ws w" "\<not> is_ws b" "\<not> is_ws c"
  shows "\<exists>p'. enter b p = Ok p' \<and> peek p' = Ok (c, skip (length w) p') \<and>
    ended p (length w + 2) (jp_depth p) path (jp_enc p) (Ok (leave (skip (length w) p')))"
proof -
  let ?p = "skip 1 p\<lparr>jp_depth := jp_depth p + 1\<rparr>"
  have e: "enter b p = Ok ?p" using l by (rule enter_ok[OF p(1) _ w(2) p(3)])
  have "src_ok ?p" "unread ?p = w @ c # r" using p(1) rest_skip[of p "[b]"] l by (simp_all add: src_ok_def)
  from peek_ok[OF this w(1,3)] have k: "peek ?p = Ok (c, skip (length w) ?p)" .
  show ?thesis
    by (rule exI[of _ ?p]) (use e k p(2) in \<open>simp add: ended_def leave_def skip_def holds_def has_path_def, auto intro!: exI[of _ "jp_path p"]\<close>)
qed

lemma bracket_ok:
  assumes p: "src_ok p" "has_path p path" "jp_depth p < 32" and l: "unread p = b # w @ t @ r" and w: "ws w" "\<not> is_ws b"
    and t: "t = c # t'" "\<not> is_ws c"
  shows "\<exists>p'. enter b p = Ok p' \<and> peek p' = Ok (c, skip (length w) p') \<and> src_ok p' \<and> unread (skip (length w) p') = [] @ t @ r \<and>
    has_path p' path \<and> jp_depth p' = Suc (jp_depth p) \<and> jp_enc p' = jp_enc p \<and>
    (\<forall>n d. ended (skip (length w) p') n d path = ended p (length w + 1 + n) d path)"
proof -
  let ?p = "skip 1 p\<lparr>jp_depth := jp_depth p + 1\<rparr>"
  have e: "enter b p = Ok ?p" using l by (rule enter_ok[OF p(1) _ w(2) p(3)])
  have s: "src_ok ?p" and r: "unread ?p = w @ c # t' @ r" using p(1) rest_skip[of p "[b]"] l t(1) by (simp_all add: src_ok_def)
  from peek_ok[OF s r w(1) t(2)] have k: "peek ?p = Ok (c, skip (length w) ?p)" .
  have "unread (skip (length w) ?p) = t @ r" using rest_skip[OF r] t(1) by simp
  then show ?thesis
    by (intro exI[of _ ?p]) (use e k s p(2) in \<open>simp add: ended_skip ended_depth has_path_def\<close>)
qed

section \<open>Parsing adds the flattened document\<close>

lemma adds_Nil: "adds heap [] enc = (Ok (), enc)"
  by (simp add: adds_def sret_def)

definition value_parses :: "(u8 list \<Rightarrow> u64) \<Rightarrow> nat \<Rightarrow> json \<Rightarrow> u8 list \<Rightarrow> bool" where
  "value_parses strtod heap j t \<longleftrightarrow>
     (\<forall>p path w r fuel. src_ok p \<longrightarrow> has_path p path \<longrightarrow> length path < 4096 \<longrightarrow> fits path (jp_depth p) j \<longrightarrow> unread p = w @ t @ r \<longrightarrow>
        ws w \<longrightarrow> stops number_char r \<longrightarrow> 2 * length t + 2 \<le> fuel \<longrightarrow>
        outcome (adds heap (flatten path j) (jp_enc p)) (ended p (length w + length t) (jp_depth p) path) (parse_value strtod heap fuel p))"

definition members_parse :: "(u8 list \<Rightarrow> u64) \<Rightarrow> nat \<Rightarrow> (u8 list \<times> json) list \<Rightarrow> u8 list \<Rightarrow> bool" where
  "members_parse strtod heap kvs t \<longleftrightarrow>
     (\<forall>p path w r fuel. src_ok p \<longrightarrow> has_path p path \<longrightarrow> length path < 4096 \<longrightarrow> fits_members path (jp_depth p) kvs \<longrightarrow>
        unread p = w @ t @ 125 # r \<longrightarrow> ws w \<longrightarrow> 2 * length t + 2 \<le> fuel \<longrightarrow>
        outcome (adds heap (flatten_members path kvs) (jp_enc p)) (ended p (length w + length t + 1) (jp_depth p - 1) path)
          (object_loop strtod heap fuel p))"

definition elements_parse :: "(u8 list \<Rightarrow> u64) \<Rightarrow> nat \<Rightarrow> json list \<Rightarrow> u8 list \<Rightarrow> bool" where
  "elements_parse strtod heap vs t \<longleftrightarrow>
     (\<forall>p path w r fuel i. src_ok p \<longrightarrow> has_path p path \<longrightarrow> length path < 4096 \<longrightarrow> fits_elements path (jp_depth p) i vs \<longrightarrow>
        unread p = w @ t @ 93 # r \<longrightarrow> ws w \<longrightarrow> 2 * length t + 3 \<le> fuel \<longrightarrow>
        outcome (adds heap (flatten_elements path i vs) (jp_enc p)) (ended p (length w + length t + 1) (jp_depth p - 1) path)
          (array_loop strtod heap fuel i p))"

text \<open>A value from its first character on.\<close>

lemma value_parsesI:
  assumes t: "t = c # t'" "\<not> is_ws c"
    and q: "\<And>q path r fuel. src_ok q \<Longrightarrow> has_path q path \<Longrightarrow> length path < 4096 \<Longrightarrow> fits path (jp_depth q) j \<Longrightarrow> unread q = t @ r \<Longrightarrow>
      stops number_char r \<Longrightarrow> 2 * length t + 1 \<le> fuel \<Longrightarrow>
      outcome (adds heap (flatten path j) (jp_enc q)) (ended q (length t) (jp_depth q) path)
        (if c = 123 then parse_object strtod heap fuel q
         else if c = 91 then parse_array strtod heap fuel q
         else if c = 34 then parse_string_value heap q
         else if c = 45 \<or> isdigit c then rbind (parse_number strtod q) (\<lambda>(val, p). add_value heap val p)
         else parse_literal heap q)"
  shows "value_parses strtod heap j t"
  unfolding value_parses_def
proof (intro allI impI)
  fix p path w r fuel
  assume p: "src_ok p" "has_path p path" "length path < 4096" "fits path (jp_depth p) j" and l: "unread p = w @ t @ r"
    and w: "ws w" "stops number_char r" "2 * length t + 2 \<le> fuel"
  obtain f where f: "fuel = Suc f" using w(3) by (cases fuel) simp_all
  have l': "unread p = w @ c # t' @ r" using l t(1) by simp
  let ?q = "skip (length w) p"
  have "unread ?q = t @ r" using rest_skip[OF l] .
  note val = q[of ?q path r f, OF _ _ p(3) _ this w(2)]
  show "outcome (adds heap (flatten path j) (jp_enc p)) (ended p (length w + length t) (jp_depth p) path) (parse_value strtod heap fuel p)"
    unfolding f parse_value_at[OF p(1) l' w(1) t(2)] using val p w(3) f by (simp add: ended_skip)
qed

lemma literal_parses:
  assumes "(j, t) \<in> {(JNull, [110, 117, 108, 108]), (JBool True, [116, 114, 117, 101]), (JBool False, [102, 97, 108, 115, 101])}"
  shows "value_parses strtod heap j t"
proof (rule value_parsesI)
  show "t = hd t # tl t" "\<not> is_ws (hd t)" using assms by (auto simp: is_ws_def)
  fix q path r fuel
  assume q: "src_ok q" "has_path q path" "unread q = t @ r"
  have "outcome (adds heap (flatten path j) (jp_enc q)) (ended q (length t) (jp_depth q) path) (parse_literal heap q)"
    using literal_ok[OF q, of "snd (hd (flatten path j))"] assms by auto
  moreover have "hd t \<noteq> 123 \<and> hd t \<noteq> 91 \<and> hd t \<noteq> 34 \<and> hd t \<noteq> 45 \<and> \<not> isdigit (hd t)" using assms by (auto simp: isdigit_def)
  ultimately show "outcome (adds heap (flatten path j) (jp_enc q)) (ended q (length t) (jp_depth q) path)
        (if hd t = 123 then parse_object strtod heap fuel q
         else if hd t = 91 then parse_array strtod heap fuel q
         else if hd t = 34 then parse_string_value heap q
         else if hd t = 45 \<or> isdigit (hd t) then rbind (parse_number strtod q) (\<lambda>(val, p). add_value heap val p)
         else parse_literal heap q)" by simp
qed

lemma number_parses:
  assumes t: "int_text n t \<and> int_fits n \<and> j = JInt n \<or> real_text t \<and> j = JReal (strtod t)"
  shows "value_parses strtod heap j t"
proof -
  obtain c t' where c: "t = c # t'" "c = 45 \<or> isdigit c" using number_text_hd[of n t] t by blast
  have ws: "\<not> is_ws c" using c(2) isdigit_not[of c] by (auto simp: is_ws_def)
  have ne: "c \<noteq> 123 \<and> c \<noteq> 91 \<and> c \<noteq> 34" using c(2) isdigit_not[of c] by auto
  show ?thesis
  proof (rule value_parsesI[OF c(1) ws])
    fix q path r fuel
    assume q: "src_ok q" "has_path q path" "unread q = t @ r" "stops number_char r"
    have "outcome (adds heap (flatten path j) (jp_enc q)) (ended q (length t) (jp_depth q) path)
       (rbind (parse_number strtod q) (\<lambda>(val, p). add_value heap val p))"
      using number_value_ok[OF q, of n "snd (hd (flatten path j))" strtod heap] t by auto
    then show "outcome (adds heap (flatten path j) (jp_enc q)) (ended q (length t) (jp_depth q) path)
        (if c = 123 then parse_object strtod heap fuel q
         else if c = 91 then parse_array strtod heap fuel q
         else if c = 34 then parse_string_value heap q
         else if c = 45 \<or> isdigit c then rbind (parse_number strtod q) (\<lambda>(val, p). add_value heap val p)
         else parse_literal heap q)" using ne c(2) by simp
  qed
qed

lemma string_parses:
  assumes t: "string_text s t"
  shows "value_parses strtod heap (JStr s) t"
proof -
  obtain t' where t': "t = 34 # t'" using t by (auto simp: string_text_def)
  show ?thesis
    by (rule value_parsesI[OF t']) (use string_value_ok t in \<open>simp_all add: is_ws_def\<close>)
qed

lemma brackets_parse:
  assumes w: "ws w"
  shows "value_parses strtod heap (JObj []) (123 # w @ [125])" and "value_parses strtod heap (JArr []) (91 # w @ [93])"
proof -
  show "value_parses strtod heap (JObj []) (123 # w @ [125])"
  proof (rule value_parsesI[OF refl])
    fix q path r fuel
    assume q: "src_ok q" "has_path q path" "fits path (jp_depth q) (JObj [])" "unread q = (123 # w @ [125]) @ r" "2 * length (123 # w @ [125]) + 1 \<le> fuel"
    then obtain f where f: "fuel = Suc f" by (cases fuel) auto
    show "outcome (adds heap (flatten path (JObj [])) (jp_enc q)) (ended q (length (123 # w @ [125])) (jp_depth q) path)
        (if (123::u8) = 123 then parse_object strtod heap fuel q
         else if (123::u8) = 91 then parse_array strtod heap fuel q
         else if (123::u8) = 34 then parse_string_value heap q
         else if (123::u8) = 45 \<or> isdigit 123 then rbind (parse_number strtod q) (\<lambda>(val, p). add_value heap val p)
         else parse_literal heap q)"
      using empty_ok[of q path 123 w 125 r] q w f by (auto simp: adds_Nil outcome_def is_ws_def)
  qed (simp add: is_ws_def)
  show "value_parses strtod heap (JArr []) (91 # w @ [93])"
  proof (rule value_parsesI[OF refl])
    fix q path r fuel
    assume q: "src_ok q" "has_path q path" "fits path (jp_depth q) (JArr [])" "unread q = (91 # w @ [93]) @ r" "2 * length (91 # w @ [93]) + 1 \<le> fuel"
    then obtain f where f: "fuel = Suc f" by (cases fuel) auto
    show "outcome (adds heap (flatten path (JArr [])) (jp_enc q)) (ended q (length (91 # w @ [93])) (jp_depth q) path)
        (if (91::u8) = 123 then parse_object strtod heap fuel q
         else if (91::u8) = 91 then parse_array strtod heap fuel q
         else if (91::u8) = 34 then parse_string_value heap q
         else if (91::u8) = 45 \<or> isdigit 91 then rbind (parse_number strtod q) (\<lambda>(val, p). add_value heap val p)
         else parse_literal heap q)"
      using empty_ok[of q path 91 w 93 r] q w f by (auto simp: adds_Nil outcome_def is_ws_def)
  qed (simp add: is_ws_def)
qed

lemma object_parses:
  assumes w: "ws w" and m: "members_text strtod kvs t" "members_parse strtod heap kvs t"
  shows "value_parses strtod heap (JObj kvs) (123 # w @ t @ [125])"
proof (rule value_parsesI[OF refl])
  obtain t' where t': "t = 34 # t'" using members_text_hd[OF m(1)] by blast
  fix q path r fuel
  assume q: "src_ok q" "has_path q path" "length path < 4096" "fits path (jp_depth q) (JObj kvs)" "unread q = (123 # w @ t @ [125]) @ r"
    "2 * length (123 # w @ t @ [125]) + 1 \<le> fuel"
  define f where "f = fuel - 1"
  have f: "fuel = Suc f" "2 * length t + 2 \<le> f" using q(6) by (auto simp: f_def)
  have "unread q = 123 # w @ t @ 125 # r" using q(5) by simp
  from bracket_ok[OF q(1,2) _ this w _ t'] obtain p' where p': "enter 123 q = Ok p'" "peek p' = Ok (34, skip (length w) p')" "src_ok p'"
    "unread (skip (length w) p') = [] @ t @ 125 # r" "has_path p' path" "jp_depth p' = Suc (jp_depth q)" "jp_enc p' = jp_enc q"
    "\<forall>n d. ended (skip (length w) p') n d path = ended q (length w + 1 + n) d path"
    using q(4) by (auto simp: is_ws_def)
  have "outcome (adds heap (flatten_members path kvs) (jp_enc q)) (ended q (length w + 1 + (length t + 1)) (jp_depth q) path)
      (object_loop strtod heap f (skip (length w) p'))"
    using m(2)[unfolded members_parse_def, rule_format, of "skip (length w) p'" path "[]" r f] p' q(3,4) f(2) by simp
  then show "outcome (adds heap (flatten path (JObj kvs)) (jp_enc q)) (ended q (length (123 # w @ t @ [125])) (jp_depth q) path)
        (if (123::u8) = 123 then parse_object strtod heap fuel q
         else if (123::u8) = 91 then parse_array strtod heap fuel q
         else if (123::u8) = 34 then parse_string_value heap q
         else if (123::u8) = 45 \<or> isdigit 123 then rbind (parse_number strtod q) (\<lambda>(val, p). add_value heap val p)
         else parse_literal heap q)"
    using p'(1,2) f(1) by simp
qed (simp add: is_ws_def)

lemma array_parses:
  assumes w: "ws w" and m: "elements_text strtod vs t" "elements_parse strtod heap vs t"
  shows "value_parses strtod heap (JArr vs) (91 # w @ t @ [93])"
proof (rule value_parsesI[OF refl])
  obtain c t' where t': "t = c # t'" "\<not> is_ws c" "c \<noteq> 93" using elements_text_hd[OF m(1)] by blast
  fix q path r fuel
  assume q: "src_ok q" "has_path q path" "length path < 4096" "fits path (jp_depth q) (JArr vs)" "unread q = (91 # w @ t @ [93]) @ r"
    "2 * length (91 # w @ t @ [93]) + 1 \<le> fuel"
  define f where "f = fuel - 1"
  have f: "fuel = Suc f" "2 * length t + 3 \<le> f" using q(6) by (auto simp: f_def)
  have "unread q = 91 # w @ t @ 93 # r" using q(5) by simp
  from bracket_ok[OF q(1,2) _ this w _ t'(1,2)] obtain p' where p': "enter 91 q = Ok p'" "peek p' = Ok (c, skip (length w) p')" "src_ok p'"
    "unread (skip (length w) p') = [] @ t @ 93 # r" "has_path p' path" "jp_depth p' = Suc (jp_depth q)" "jp_enc p' = jp_enc q"
    "\<forall>n d. ended (skip (length w) p') n d path = ended q (length w + 1 + n) d path"
    using q(4) by (auto simp: is_ws_def)
  have "outcome (adds heap (flatten_elements path 0 vs) (jp_enc q)) (ended q (length w + 1 + (length t + 1)) (jp_depth q) path)
      (array_loop strtod heap f 0 (skip (length w) p'))"
    using m(2)[unfolded elements_parse_def, rule_format, of "skip (length w) p'" path 0 "[]" r f] p' q(3,4) f(2) by simp
  then show "outcome (adds heap (flatten path (JArr vs)) (jp_enc q)) (ended q (length (91 # w @ t @ [93])) (jp_depth q) path)
        (if (91::u8) = 123 then parse_object strtod heap fuel q
         else if (91::u8) = 91 then parse_array strtod heap fuel q
         else if (91::u8) = 34 then parse_string_value heap q
         else if (91::u8) = 45 \<or> isdigit 91 then rbind (parse_number strtod q) (\<lambda>(val, p). add_value heap val p)
         else parse_literal heap q)"
    using p'(1,2) f(1) t'(3) by simp
qed (simp add: is_ws_def)

text \<open>Where parsing ends behind an element.\<close>

lemma ended_leave:
  assumes "has_path p path" and "holds buf path"
  shows "ended p (n + 1) (jp_depth p - 1) path enc
    (Ok (leave (p\<lparr>jp_pos := jp_pos p + n, jp_enc := enc, jp_path := buf, jp_path_len := length path\<rparr>)))"
  unfolding ended_def by (rule exI[of _ buf]) (use assms in \<open>cases p, simp add: leave_def has_path_def\<close>)

lemma ended_after:
  assumes "has_path p path"
  shows "ended (skip 1 (p\<lparr>jp_pos := jp_pos p + n, jp_enc := enc, jp_path := buf, jp_path_len := length path\<rparr>)) m d path = ended p (n + 1 + m) d path"
  using assms by (cases p) (simp add: ended_def skip_def has_path_def fun_eq_iff add.assoc)

lemma last_member_parses:
  assumes k: "string_text k kt" and w: "ws w1" "ws w2" "ws w3" and v: "value_parses strtod heap v vt"
  shows "members_parse strtod heap [(k, v)] (kt @ w1 @ 58 # w2 @ vt @ w3)"
  unfolding members_parse_def
proof (intro allI impI)
  fix p path w r fuel
  assume p: "src_ok p" "has_path p path" "length path < 4096" "fits_members path (jp_depth p) [(k, v)]"
    and l: "unread p = w @ (kt @ w1 @ 58 # w2 @ vt @ w3) @ 125 # r" and ww: "ws w" and fuel: "2 * length (kt @ w1 @ 58 # w2 @ vt @ w3) + 2 \<le> fuel"
  obtain f where f: "fuel = Suc f" "2 * length vt + 2 \<le> f" using fuel by (cases fuel) simp_all
  have l': "unread p = w @ kt @ w1 @ 58 # w2 @ vt @ w3 @ 125 # r" using l by simp
  have fit: "length k \<le> 1023" "length (push_key path k) < 4096" "fits (push_key path k) (jp_depth p) v" using p(4) by simp_all
  have "outcome (adds heap (flatten (push_key path k) v @ []) (jp_enc p))
      (ended p (length w + length (kt @ w1 @ 58 # w2 @ vt @ w3) + 1) (jp_depth p - 1) path) (object_loop strtod heap (Suc f) p)"
  proof (rule object_step[OF p(1-3) fit(1,2) l' ww w(1,3) _ k])
    show "\<not> is_ws 125" by (simp add: is_ws_def)
    show "outcome (adds heap (flatten (push_key path k) v) (jp_enc q)) (ended q (length w2 + length vt) (jp_depth q) (push_key path k)) (parse_value strtod heap f q)"
      if "src_ok q" "has_path q (push_key path k)" "jp_depth q = jp_depth p" "unread q = w2 @ vt @ w3 @ 125 # r" for q
      using v[unfolded value_parses_def, rule_format, of q "push_key path k" w2 "w3 @ 125 # r" f] that fit f(2) w(2)
        stops_ws[OF w(3), of 125 r] by (simp add: number_char_def isdigit_def)
    show "outcome (adds heap [] enc) (ended p (length w + length (kt @ w1 @ 58 # w2 @ vt @ w3) + 1) (jp_depth p - 1) path)
       (behind 125 (object_loop strtod heap f) (p\<lparr>jp_pos := jp_pos p + (length w + length kt + length w1 + 1 + length w2 + length vt + length w3),
         jp_enc := enc, jp_path := buf, jp_path_len := length path\<rparr>))" (is "outcome _ _ (behind _ _ ?p)") if h: "holds buf path" for enc buf
    proof -
      have "src_ok ?p" "unread ?p = 125 # r" using p(1) left_append[of "jp_src p" "jp_len p" "jp_pos p" "w @ kt @ w1 @ 58 # w2 @ vt @ w3" "125 # r"] l'
        by (simp_all add: src_ok_def add.assoc)
      then have "behind 125 (object_loop strtod heap f) ?p = Ok (leave ?p)" by (rule behind_close) (simp add: is_ws_def)
      then show ?thesis using ended_leave[OF p(2) h, of "length w + length (kt @ w1 @ 58 # w2 @ vt @ w3)" enc]
        by (simp add: adds_Nil outcome_def add.assoc)
    qed
  qed
  then show "outcome (adds heap (flatten_members path [(k, v)]) (jp_enc p))
      (ended p (length w + length (kt @ w1 @ 58 # w2 @ vt @ w3) + 1) (jp_depth p - 1) path) (object_loop strtod heap fuel p)"
    using f(1) by simp
qed

lemma more_members_parse:
  assumes k: "string_text k kt" and w: "ws w1" "ws w2" "ws w3" "ws w4" and v: "value_parses strtod heap v vt" and m: "members_parse strtod heap kvs t"
  shows "members_parse strtod heap ((k, v) # kvs) (kt @ w1 @ 58 # w2 @ vt @ w3 @ 44 # w4 @ t)"
  unfolding members_parse_def
proof (intro allI impI)
  fix p path w r fuel
  let ?t = "kt @ w1 @ 58 # w2 @ vt @ w3 @ 44 # w4 @ t"
  assume p: "src_ok p" "has_path p path" "length path < 4096" "fits_members path (jp_depth p) ((k, v) # kvs)"
    and l: "unread p = w @ ?t @ 125 # r" and ww: "ws w" and fuel: "2 * length ?t + 2 \<le> fuel"
  obtain f where f: "fuel = Suc f" "2 * length vt + 2 \<le> f" "2 * length t + 2 \<le> f" using fuel by (cases fuel) simp_all
  have l': "unread p = w @ kt @ w1 @ 58 # w2 @ vt @ w3 @ 44 # w4 @ t @ 125 # r" using l by simp
  have fit: "length k \<le> 1023" "length (push_key path k) < 4096" "fits (push_key path k) (jp_depth p) v" "fits_members path (jp_depth p) kvs" using p(4) by simp_all
  have "outcome (adds heap (flatten (push_key path k) v @ flatten_members path kvs) (jp_enc p))
      (ended p (length w + length ?t + 1) (jp_depth p - 1) path) (object_loop strtod heap (Suc f) p)"
  proof (rule object_step[OF p(1-3) fit(1,2) l' ww w(1,3) _ k])
    show "\<not> is_ws 44" by (simp add: is_ws_def)
    show "outcome (adds heap (flatten (push_key path k) v) (jp_enc q)) (ended q (length w2 + length vt) (jp_depth q) (push_key path k)) (parse_value strtod heap f q)"
      if "src_ok q" "has_path q (push_key path k)" "jp_depth q = jp_depth p" "unread q = w2 @ vt @ w3 @ 44 # w4 @ t @ 125 # r" for q
      using v[unfolded value_parses_def, rule_format, of q "push_key path k" w2 "w3 @ 44 # w4 @ t @ 125 # r" f] that fit f(2) w(2)
        stops_ws[OF w(3), of 44 "w4 @ t @ 125 # r"] by (simp add: number_char_def isdigit_def)
    show "outcome (adds heap (flatten_members path kvs) enc) (ended p (length w + length ?t + 1) (jp_depth p - 1) path)
       (behind 125 (object_loop strtod heap f) (p\<lparr>jp_pos := jp_pos p + (length w + length kt + length w1 + 1 + length w2 + length vt + length w3),
         jp_enc := enc, jp_path := buf, jp_path_len := length path\<rparr>))" (is "outcome _ _ (behind _ _ ?p)") if h: "holds buf path" for enc buf
    proof -
      have s: "src_ok ?p" and r: "unread ?p = 44 # w4 @ t @ 125 # r" and hp: "has_path (skip 1 ?p) path"
        using p(1,2) left_append[of "jp_src p" "jp_len p" "jp_pos p" "w @ kt @ w1 @ 58 # w2 @ vt @ w3" "44 # w4 @ t @ 125 # r"] l' h
        by (simp_all add: src_ok_def add.assoc has_path_def holds_def)
      have b: "behind 125 (object_loop strtod heap f) ?p = object_loop strtod heap f (skip 1 ?p)" by (rule behind_comma[OF s r]) simp
      have "unread (skip 1 ?p) = w4 @ t @ 125 # r" using rest_skip[of ?p "[44]"] r by simp
      then have "outcome (adds heap (flatten_members path kvs) enc) (ended (skip 1 ?p) (length w4 + length t + 1) (jp_depth p - 1) path) (object_loop strtod heap f (skip 1 ?p))"
        using m[unfolded members_parse_def, rule_format, of "skip 1 ?p" path w4 r f] s hp p(3) fit(4) w(4) f(3) by simp
      then show ?thesis unfolding b ended_after[OF p(2)] by (simp add: add.assoc)
    qed
  qed
  then show "outcome (adds heap (flatten_members path ((k, v) # kvs)) (jp_enc p))
      (ended p (length w + length ?t + 1) (jp_depth p - 1) path) (object_loop strtod heap fuel p)"
    using f(1) by simp
qed

lemma last_element_parses:
  assumes w: "ws w1" and v: "value_parses strtod heap v vt"
  shows "elements_parse strtod heap [v] (vt @ w1)"
  unfolding elements_parse_def
proof (intro allI impI)
  fix p path w r fuel i
  assume p: "src_ok p" "has_path p path" "length path < 4096" "fits_elements path (jp_depth p) i [v]"
    and l: "unread p = w @ (vt @ w1) @ 93 # r" and ww: "ws w" and fuel: "2 * length (vt @ w1) + 3 \<le> fuel"
  obtain f where f: "fuel = Suc f" "2 * length vt + 2 \<le> f" using fuel by (cases fuel) simp_all
  have l': "unread p = w @ vt @ w1 @ 93 # r" using l by simp
  have fit: "length (push_index path i) < 4096" "fits (push_index path i) (jp_depth p) v" using p(4) by simp_all
  have "outcome (adds heap (flatten (push_index path i) v @ []) (jp_enc p))
      (ended p (length w + length (vt @ w1) + 1) (jp_depth p - 1) path) (array_loop strtod heap (Suc f) i p)"
  proof (rule array_step[OF p(1-3) fit(1) l' w])
    show "\<not> is_ws 93" by (simp add: is_ws_def)
    show "outcome (adds heap (flatten (push_index path i) v) (jp_enc q)) (ended q (length w + length vt) (jp_depth q) (push_index path i)) (parse_value strtod heap f q)"
      if "src_ok q" "has_path q (push_index path i)" "jp_depth q = jp_depth p" "unread q = w @ vt @ w1 @ 93 # r" for q
      using v[unfolded value_parses_def, rule_format, of q "push_index path i" w "w1 @ 93 # r" f] that fit f(2) ww
        stops_ws[OF w, of 93 r] by (simp add: number_char_def isdigit_def)
    show "outcome (adds heap [] enc) (ended p (length w + length (vt @ w1) + 1) (jp_depth p - 1) path)
       (behind 93 (array_loop strtod heap f (wrap32 (i + 1))) (p\<lparr>jp_pos := jp_pos p + (length w + length vt + length w1),
         jp_enc := enc, jp_path := buf, jp_path_len := length path\<rparr>))" (is "outcome _ _ (behind _ _ ?p)") if h: "holds buf path" for enc buf
    proof -
      have "src_ok ?p" "unread ?p = 93 # r" using p(1) left_append[of "jp_src p" "jp_len p" "jp_pos p" "w @ vt @ w1" "93 # r"] l'
        by (simp_all add: src_ok_def add.assoc)
      then have "behind 93 (array_loop strtod heap f (wrap32 (i + 1))) ?p = Ok (leave ?p)" by (rule behind_close) (simp add: is_ws_def)
      then show ?thesis using ended_leave[OF p(2) h, of "length w + length (vt @ w1)" enc]
        by (simp add: adds_Nil outcome_def add.assoc)
    qed
  qed
  then show "outcome (adds heap (flatten_elements path i [v]) (jp_enc p))
      (ended p (length w + length (vt @ w1) + 1) (jp_depth p - 1) path) (array_loop strtod heap fuel i p)"
    using f(1) by simp
qed

lemma more_elements_parse:
  assumes w: "ws w1" "ws w2" and v: "value_parses strtod heap v vt" and m: "elements_parse strtod heap vs t" and t: "elements_text strtod vs t"
  shows "elements_parse strtod heap (v # vs) (vt @ w1 @ 44 # w2 @ t)"
  unfolding elements_parse_def
proof (intro allI impI)
  fix p path w r fuel i
  let ?t = "vt @ w1 @ 44 # w2 @ t"
  assume p: "src_ok p" "has_path p path" "length path < 4096" "fits_elements path (jp_depth p) i (v # vs)"
    and l: "unread p = w @ ?t @ 93 # r" and ww: "ws w" and fuel: "2 * length ?t + 3 \<le> fuel"
  obtain f where f: "fuel = Suc f" "2 * length vt + 2 \<le> f" "2 * length t + 3 \<le> f" using fuel by (cases fuel) simp_all
  have l': "unread p = w @ vt @ w1 @ 44 # w2 @ t @ 93 # r" using l by simp
  have fit: "length (push_index path i) < 4096" "fits (push_index path i) (jp_depth p) v" "fits_elements path (jp_depth p) (Suc i) vs" using p(4) by simp_all
  have "vs \<noteq> []" using t by (cases rule: elements_text.cases) simp_all
  then have i: "wrap32 (i + 1) = Suc i" using fit(3) by (cases vs) (simp_all add: wrap32_def)
  have "outcome (adds heap (flatten (push_index path i) v @ flatten_elements path (Suc i) vs) (jp_enc p))
      (ended p (length w + length ?t + 1) (jp_depth p - 1) path) (array_loop strtod heap (Suc f) i p)"
  proof (rule array_step[OF p(1-3) fit(1) l' w(1)])
    show "\<not> is_ws 44" by (simp add: is_ws_def)
    show "outcome (adds heap (flatten (push_index path i) v) (jp_enc q)) (ended q (length w + length vt) (jp_depth q) (push_index path i)) (parse_value strtod heap f q)"
      if "src_ok q" "has_path q (push_index path i)" "jp_depth q = jp_depth p" "unread q = w @ vt @ w1 @ 44 # w2 @ t @ 93 # r" for q
      using v[unfolded value_parses_def, rule_format, of q "push_index path i" w "w1 @ 44 # w2 @ t @ 93 # r" f] that fit f(2) ww
        stops_ws[OF w(1), of 44 "w2 @ t @ 93 # r"] by (simp add: number_char_def isdigit_def)
    show "outcome (adds heap (flatten_elements path (Suc i) vs) enc) (ended p (length w + length ?t + 1) (jp_depth p - 1) path)
       (behind 93 (array_loop strtod heap f (wrap32 (i + 1))) (p\<lparr>jp_pos := jp_pos p + (length w + length vt + length w1),
         jp_enc := enc, jp_path := buf, jp_path_len := length path\<rparr>))" (is "outcome _ _ (behind _ _ ?p)") if h: "holds buf path" for enc buf
    proof -
      have s: "src_ok ?p" and r: "unread ?p = 44 # w2 @ t @ 93 # r" and hp: "has_path (skip 1 ?p) path"
        using p(1,2) left_append[of "jp_src p" "jp_len p" "jp_pos p" "w @ vt @ w1" "44 # w2 @ t @ 93 # r"] l' h
        by (simp_all add: src_ok_def add.assoc has_path_def holds_def)
      have b: "behind 93 (array_loop strtod heap f (wrap32 (i + 1))) ?p = array_loop strtod heap f (Suc i) (skip 1 ?p)"
        unfolding i by (rule behind_comma[OF s r]) simp
      have "unread (skip 1 ?p) = w2 @ t @ 93 # r" using rest_skip[of ?p "[44]"] r by simp
      then have "outcome (adds heap (flatten_elements path (Suc i) vs) enc) (ended (skip 1 ?p) (length w2 + length t + 1) (jp_depth p - 1) path) (array_loop strtod heap f (Suc i) (skip 1 ?p))"
        using m[unfolded elements_parse_def, rule_format, of "skip 1 ?p" path "Suc i" w2 r f] s hp p(3) fit(3) w(2) f(3) by simp
      then show ?thesis unfolding b ended_after[OF p(2)] by (simp add: add.assoc)
    qed
  qed
  then show "outcome (adds heap (flatten_elements path i (v # vs)) (jp_enc p))
      (ended p (length w + length ?t + 1) (jp_depth p - 1) path) (array_loop strtod heap fuel i p)"
    using f(1) by simp
qed

theorem parse_text:
  "json_text strtod j t \<Longrightarrow> value_parses strtod heap j t"
  "members_text strtod kvs t \<Longrightarrow> members_parse strtod heap kvs t"
  "elements_text strtod vs t \<Longrightarrow> elements_parse strtod heap vs t"
  by (induction rule: json_text_members_text_elements_text.inducts)
    (simp_all add: literal_parses string_parses number_parses brackets_parse object_parses array_parses
      last_member_parses more_members_parse last_element_parses more_elements_parse)

end
