(* ===== verification/Json_Safe.thy ===== *)
theory Json_Safe
  imports Json_Parse
begin

text \<open>
  The JSON parser on any text, grammatical or not: the scanners and the recursive descent return,
  within the fuel given, and touch only the text, the path buffer and the string buffers, as long as
  the text is at most 1023 bytes long. Longer texts can hold keys that overflow their buffer, as
  \<open>long_key_faults\<close> shows.
\<close>

section \<open>Returning with a property\<close>

definition returns :: "'a tp \<Rightarrow> ('a \<Rightarrow> bool) \<Rightarrow> bool" where
  "returns m P \<longleftrightarrow> safe m \<and> (\<forall>x. m = Ok x \<longrightarrow> P x)"

lemma returns_simps [simp]: "returns (Ok x) P = P x" "returns (Err e) P" "\<not> returns Fault P" "\<not> returns Diverge P"
  by (simp_all add: returns_def)

lemma returns_rbind: "returns m P \<Longrightarrow> (\<And>x. P x \<Longrightarrow> returns (f x) Q) \<Longrightarrow> returns (rbind m f) Q"
  by (cases m) simp_all

lemma returns_mono: "returns m P \<Longrightarrow> (\<And>x. P x \<Longrightarrow> Q x) \<Longrightarrow> returns m Q"
  by (cases m) simp_all

lemma returns_if: "(c \<Longrightarrow> returns a P) \<Longrightarrow> (\<not> c \<Longrightarrow> returns b P) \<Longrightarrow> returns (if c then a else b) P"
  by simp

lemma returns_load: "pos < len \<Longrightarrow> len \<le> length src \<Longrightarrow> returns (load src pos) (\<lambda>_. True)"
  by (simp add: load_def)

section \<open>Scanners\<close>

lemma ws_end_returns: "len \<le> length src \<Longrightarrow> pos \<le> len \<Longrightarrow> returns (ws_end src len pos) (\<lambda>e. pos \<le> e \<and> e \<le> len)"
proof (induction src len pos rule: ws_end.induct)
  case (1 src len pos)
  show ?case
  proof (cases "pos < len")
    case True
    then have l: "load src pos = Ok (src ! pos)" using "1.prems" by (simp add: load_def)
    have "returns (ws_end src len (pos + 1)) (\<lambda>e. pos \<le> e \<and> e \<le> len)" if "is_ws (src ! pos)"
      by (rule returns_mono[OF "1.IH"[OF True l that]]) (use True "1.prems" in simp_all)
    then show ?thesis using True l by (simp add: ws_end.simps[of src len pos])
  next
    case False
    then have "ws_end src len pos = Ok pos" by (simp add: ws_end.simps[of src len pos])
    then show ?thesis using "1.prems" by simp
  qed
qed

lemma digits_end_returns: "len \<le> length src \<Longrightarrow> pos \<le> len \<Longrightarrow> returns (digits_end src len pos) (\<lambda>e. pos \<le> e \<and> e \<le> len)"
proof (induction src len pos rule: digits_end.induct)
  case (1 src len pos)
  show ?case
  proof (cases "pos < len")
    case True
    then have l: "load src pos = Ok (src ! pos)" using "1.prems" by (simp add: load_def)
    have "returns (digits_end src len (pos + 1)) (\<lambda>e. pos \<le> e \<and> e \<le> len)" if "isdigit (src ! pos)"
      by (rule returns_mono[OF "1.IH"[OF True l that]]) (use True "1.prems" in simp_all)
    then show ?thesis using True l by (simp add: digits_end.simps[of src len pos])
  next
    case False
    then have "digits_end src len pos = Ok pos" by (simp add: digits_end.simps[of src len pos])
    then show ?thesis using "1.prems" by simp
  qed
qed

lemma char_at_returns: "len \<le> length src \<Longrightarrow> returns (char_at src len pos) (\<lambda>c. c \<noteq> None \<longrightarrow> pos < len)"
  by (auto simp: char_at_def intro!: returns_rbind[OF returns_load])

lemma digits_returns: "len \<le> length src \<Longrightarrow> returns (digits src len pos) (\<lambda>e. pos \<le> e \<and> e \<le> len \<and> pos < len)"
  unfolding digits_def
  by (rule returns_rbind[OF char_at_returns])
    (auto simp: digit_at_def split: option.splits intro!: returns_mono[OF digits_end_returns])

lemma digits_end_moves: "len \<le> length src \<Longrightarrow> returns (digits src len pos) (\<lambda>e. pos < e \<and> e \<le> len)"
proof -
  assume len: "len \<le> length src"
  have "returns (digits_end src len pos) (\<lambda>e. pos < e \<and> e \<le> len)" if "pos < len" "isdigit (src ! pos)"
    using digits_end_returns[OF len, of "Suc pos"] that len
    by (auto simp: digits_end.simps[of src len pos] load_def Suc_le_eq elim: returns_mono)
  then show ?thesis using len by (auto simp: digits_def char_at_def digit_at_def load_def)
qed

lemma number_returns:
  assumes p: "jp_len p \<le> length (jp_src p)"
  shows "returns (parse_number strtod p) (\<lambda>(val, q). \<exists>n. q = p\<lparr>jp_pos := n\<rparr> \<and> jp_pos p < n \<and> n \<le> jp_len p \<and>
    (\<forall>s m. val \<noteq> TP_STRING s m) \<and> storable val)"
proof -
  let ?s = "jp_src p" and ?l = "jp_len p"
  have fr: "returns (fraction ?s ?l pos) (\<lambda>(_, e). pos \<le> e \<and> e \<le> ?l)" if "pos \<le> ?l" for pos
    unfolding fraction_def
    by (rule returns_rbind[OF char_at_returns[OF p]])
      (auto simp: that intro!: returns_rbind[OF char_at_returns[OF p]] returns_rbind[OF digits_end_moves[OF p]] split: if_splits)
  have ex: "returns (exponent ?s ?l f pos) (\<lambda>(_, e). pos \<le> e \<and> e \<le> ?l)" if "pos \<le> ?l" for pos f
    unfolding exponent_def
    by (rule returns_rbind[OF char_at_returns[OF p]])
      (auto simp: that intro!: returns_rbind[OF char_at_returns[OF p]] returns_rbind[OF digits_end_moves[OF p]] split: if_splits)
  have cv: "(\<forall>s m. convert_number strtod a b c \<noteq> TP_STRING s m) \<and> storable (convert_number strtod a b c)" for a b c
    by (simp add: convert_number_def tp_value_float64_def tp_value_int_def tp_value_uint_def)
  show ?thesis unfolding parse_number_def Let_def
    by (rule returns_rbind[OF char_at_returns[OF p]])
      (fastforce intro: returns_rbind[OF digits_end_moves[OF p]] returns_rbind[OF fr] returns_rbind[OF ex] simp: cv)
qed

section \<open>Strings\<close>

lemma hex_loop_returns: "len \<le> length src \<Longrightarrow> pos + k \<le> len \<Longrightarrow> returns (hex_loop src k pos cp) (\<lambda>(_, e). e = pos + k)"
proof (induction k arbitrary: pos cp)
  case (Suc k)
  then have l: "load src pos = Ok (src ! pos)" by (simp add: load_def)
  have "returns (hex_loop src k (Suc pos) cp) (\<lambda>(_, e). e = Suc (pos + k))" for cp
    using Suc.IH[of "Suc pos" cp] Suc.prems by simp
  then show ?case using l by (auto split: option.split)
qed simp

lemma json_utf8_length: "length (json_utf8 cp) \<le> 4"
  by (simp add: json_utf8_def)

lemma unicode_escape_returns:
  assumes len: "len \<le> length src"
  shows "returns (unicode_escape src len pos) (\<lambda>(bs, e). length bs \<le> 4 \<and> pos + 4 \<le> e \<and> e \<le> len)"
  unfolding unicode_escape_def
  by (rule returns_if, simp, rule returns_rbind[OF hex_loop_returns[OF len]], simp)
    (use len in \<open>auto simp: json_utf8_length intro!: returns_if returns_rbind[OF returns_load] returns_rbind[OF hex_loop_returns[OF len]]\<close>)

lemma escape_returns:
  assumes len: "len \<le> length src"
  shows "returns (escape src len pos) (\<lambda>(bs, e). pos + length bs \<le> e \<and> e \<le> len)"
  unfolding escape_def Let_def
  by (rule returns_if, simp, rule returns_rbind[OF returns_load[OF _ len]], simp)
    (auto intro!: returns_if returns_mono[OF unicode_escape_returns[OF len]])

lemma put_bytes_returns: "cap < length out \<Longrightarrow> returns (put_bytes out cap w bs) (\<lambda>out'. length out' = length out)"
  by (cases bs) (auto simp: put_bytes_def memcpy_def)

lemma string_loop_returns:
  assumes len: "len \<le> length src"
  shows "pos \<le> len \<Longrightarrow> len - pos < fuel \<Longrightarrow> cap < length out \<Longrightarrow>
    returns (string_loop fuel src len pos out cap w) (\<lambda>(out', w', e). length out' = length out \<and> w' + pos < w + e \<and> pos < e \<and> e \<le> len)"
proof (induction fuel arbitrary: pos out w)
  case (Suc fuel)
  show ?case
  proof (cases "pos < len")
    case True
    have cont: "returns (rbind (put_bytes out cap w bs) (\<lambda>out. string_loop fuel src len e out cap (w + length bs)))
        (\<lambda>(out', w', e'). length out' = length out \<and> w' + pos < w + e' \<and> pos < e' \<and> e' \<le> len)"
      if "Suc pos \<le> e" "pos + length bs \<le> e" "e \<le> len" for bs e
    proof (rule returns_rbind[OF put_bytes_returns[OF Suc.prems(3)]])
      fix out1 :: "u8 list" assume o: "length out1 = length out"
      have "len - e < fuel" using that True Suc.prems(2) by linarith
      then have "returns (string_loop fuel src len e out1 cap (w + length bs))
          (\<lambda>(out', w', e'). length out' = length out1 \<and> w' + e < w + length bs + e' \<and> e < e' \<and> e' \<le> len)"
        using Suc.prems(3) o that(3) by (intro Suc.IH) simp_all
      then show "returns (string_loop fuel src len e out1 cap (w + length bs))
          (\<lambda>(out', w', e'). length out' = length out \<and> w' + pos < w + e' \<and> pos < e' \<and> e' \<le> len)"
        by (rule returns_mono) (use o that in auto)
    qed
    have e: "returns (escape src len (Suc pos)) (\<lambda>(bs, e). Suc pos + length bs \<le> e \<and> e \<le> len)" by (rule escape_returns[OF len])
    have body: "returns (rbind (if c = 92 then escape src len (Suc pos) else Ok ([c], Suc pos)) (\<lambda>(bs, pos).
          rbind (put_bytes out cap w bs) (\<lambda>out. string_loop fuel src len pos out cap (w + length bs))))
        (\<lambda>(out', w', e'). length out' = length out \<and> w' + pos < w + e' \<and> pos < e' \<and> e' \<le> len)" for c
    proof (cases "c = 92")
      case esc: True
      show ?thesis unfolding esc if_P[OF refl] by (rule returns_rbind[OF e], clarify, rule cont) auto
    next
      case False
      then show ?thesis using cont[of "Suc pos" "[c]"] True by simp
    qed
    have stop: "returns (rbind (if w < cap then store out w 0 else Ok out) (\<lambda>out. Ok (out, w, Suc pos)))
        (\<lambda>(out', w', e'). length out' = length out \<and> w' + pos < w + e' \<and> pos < e' \<and> e' \<le> len)"
      using True Suc.prems(3) by (auto simp: store_def)
    show ?thesis using True len body stop by (simp add: string_loop.simps(2) load_def)
  qed (simp add: string_loop.simps(2))
qed simp

section \<open>The parser's position and path\<close>

text \<open>A step forward in the text, nothing else changed.\<close>

definition ahead :: "nat \<Rightarrow> json_parser \<Rightarrow> json_parser \<Rightarrow> bool" where
  "ahead k p q \<longleftrightarrow> (\<exists>n. q = p\<lparr>jp_pos := n\<rparr> \<and> jp_pos p + k \<le> n \<and> n \<le> jp_len p)"

definition inside :: "json_parser \<Rightarrow> bool" where
  "inside p \<longleftrightarrow> jp_len p \<le> length (jp_src p) \<and> jp_pos p \<le> jp_len p"

lemma ahead_at [simp]: "ahead k p (p\<lparr>jp_pos := n\<rparr>) \<longleftrightarrow> jp_pos p + k \<le> n \<and> n \<le> jp_len p"
proof
  assume "ahead k p (p\<lparr>jp_pos := n\<rparr>)"
  then obtain m where "p\<lparr>jp_pos := n\<rparr> = p\<lparr>jp_pos := m\<rparr>" "jp_pos p + k \<le> m" "m \<le> jp_len p" by (auto simp: ahead_def)
  moreover have "jp_pos (p\<lparr>jp_pos := n\<rparr>) = jp_pos (p\<lparr>jp_pos := m\<rparr>)" using calculation(1) by (rule arg_cong)
  ultimately show "jp_pos p + k \<le> n \<and> n \<le> jp_len p" by simp
qed (auto simp: ahead_def)

lemma aheadE:
  assumes "ahead k p q" obtains n where "q = p\<lparr>jp_pos := n\<rparr>" and "jp_pos p + k \<le> n" and "n \<le> jp_len p"
  using assms by (auto simp: ahead_def)

lemma ahead_inside: "ahead k p q \<Longrightarrow> inside p \<Longrightarrow> inside q"
  by (auto simp: ahead_def inside_def)

lemma ahead_trans: "ahead k p q \<Longrightarrow> ahead m q r \<Longrightarrow> ahead (k + m) p r"
  by (auto simp: ahead_def)

lemma ahead_le: "ahead k p q \<Longrightarrow> m \<le> k \<Longrightarrow> ahead m p q"
  by (auto simp: ahead_def)

lemma skip_ws_returns: "inside p \<Longrightarrow> returns (skip_ws p) (ahead 0 p)"
  unfolding skip_ws_def by (rule returns_rbind[OF ws_end_returns]) (auto simp: inside_def)

lemma peek_returns: "inside p \<Longrightarrow> returns (peek p) (\<lambda>(c, q). ahead 0 p q \<and> (c \<noteq> 0 \<longrightarrow> jp_pos q < jp_len q))"
  unfolding peek_def
  by (rule returns_rbind[OF skip_ws_returns]) (auto simp: inside_def elim!: aheadE intro!: returns_if returns_rbind[OF returns_load])

lemma expect_returns: "inside p \<Longrightarrow> returns (expect c p) (\<lambda>(ok, q). ahead (if ok then 1 else 0) p q)"
  unfolding expect_def
  by (rule returns_rbind[OF skip_ws_returns]) (auto simp: inside_def elim!: aheadE intro!: returns_if returns_rbind[OF returns_load])

lemma parse_string_returns:
  assumes p: "inside p" and cap: "cap < length out"
  shows "returns (parse_string_into out cap p) (\<lambda>((out', n), q). length out' = length out \<and> ahead (n + 2) p q)"
  unfolding parse_string_into_def
proof (rule returns_rbind[OF expect_returns[OF p]], clarify)
  fix ok q assume q: "ahead (if ok then 1 else 0) p q"
  then have i: "inside q" using p by (rule ahead_inside)
  have "returns (string_loop (Suc (jp_len q)) (jp_src q) (jp_len q) (jp_pos q) out cap 0)
      (\<lambda>(out', w', e). length out' = length out \<and> w' + jp_pos q < 0 + e \<and> jp_pos q < e \<and> e \<le> jp_len q)"
    using i cap by (intro string_loop_returns) (auto simp: inside_def)
  then show "returns (if \<not> ok then Err TP_ERR_JSON_SYNTAX
      else rbind (string_loop (Suc (jp_len q)) (jp_src q) (jp_len q) (jp_pos q) out cap 0) (\<lambda>(out, w, pos). Ok ((out, w), q\<lparr>jp_pos := pos\<rparr>)))
     (\<lambda>((out', n), r). length out' = length out \<and> ahead (n + 2) p r)"
    using q by (cases ok) (auto elim!: returns_rbind aheadE)
qed

lemma parse_key_returns:
  assumes p: "inside p" and len: "jp_len p \<le> 1023"
  shows "returns (parse_key p) (\<lambda>((key, n), q). length key = 1024 \<and> n < 1024 \<and> ahead (n + 2) p q)"
  unfolding parse_key_def
  by (rule returns_rbind[OF parse_string_returns[OF p]]) (use len in \<open>auto simp: store_def elim!: aheadE\<close>)

lemma decimal_length: "n < 10 ^ k \<Longrightarrow> length (decimal n) \<le> max 1 k"
proof (induction k arbitrary: n)
  case 0
  then show ?case by (simp add: decimal.simps[of 0])
next
  case (Suc k)
  then have "n div 10 < 10 ^ k" by (simp add: less_mult_imp_div_less mult.commute)
  from Suc.IH[OF this] show ?case
  proof (cases "n < 10")
    case False
    then have "k \<noteq> 0" using \<open>n div 10 < 10 ^ k\<close> by (cases k) auto
    then show ?thesis using Suc.IH[OF \<open>n div 10 < 10 ^ k\<close>] False by (simp add: decimal.simps[of n])
  qed (simp add: decimal.simps[of n])
qed

section \<open>Adding a value\<close>

text \<open>The encoder of the parser, after at most \<open>n\<close> values.\<close>

definition fine :: "nat \<Rightarrow> tp_encoder \<Rightarrow> bool" where
  "fine n enc \<longleftrightarrow> enc_ok enc \<and> en_count enc \<le> n \<and> en_opts enc = tp_encoder_defaults \<and>
     (\<forall>e \<in> set (en_entries enc). storable (e_val e) \<and> e_key_len e \<le> 4095)"

lemma fine_mono: "fine n enc \<Longrightarrow> n \<le> m \<Longrightarrow> fine m enc"
  by (simp add: fine_def)

lemma fine_less: "fine n enc \<Longrightarrow> Suc n \<le> m \<Longrightarrow> fine m enc"
  by (simp add: fine_def)

lemma deep_copy_returns: "storable v \<Longrightarrow> returns (value_deep_copy heap v) storable"
proof -
  assume s: "storable v"
  have "safe (value_deep_copy heap v)"
    using s by (cases v) (auto simp: value_deep_copy_def view_def split: option.splits if_splits)
  then show ?thesis using deep_copy_agrees[OF _ s] by (auto simp: returns_def)
qed

lemma add_n_fine:
  assumes f: "fine n enc" "n < 4294967295" and k: "k \<le> length kb" "k \<le> 4095" and v: "storable v"
  shows "returns (fst (tp_encoder_add_n heap (Some kb) k (Some v) enc)) (\<lambda>_. fine (Suc n) (snd (tp_encoder_add_n heap (Some kb) k (Some v) enc)))"
proof -
  have "safe (value_deep_copy heap v)" using deep_copy_returns[OF v] by (simp add: returns_def)
  then show ?thesis
  proof (cases rule: safe_cases)
    case (Ok v')
    then have "storable v'" using deep_copy_returns[OF v, of heap] by simp
    then show ?thesis using f k Ok
      by (auto simp: tp_encoder_add_n_def Let_def sbind_def fine_def enc_ok_def entry_ok_def wrap32_def)
  next
    case (Err e)
    then show ?thesis using k by (simp add: tp_encoder_add_n_def Let_def sbind_def)
  qed
qed

lemma add_value_returns:
  assumes f: "fine n (jp_enc p)" "n < 4294967295" and p: "length (jp_path p) = 4096" "jp_path_len p \<le> 4095" and v: "storable v"
  shows "returns (add_value heap v p) (\<lambda>q. \<exists>enc. q = p\<lparr>jp_enc := enc\<rparr> \<and> fine (Suc n) enc)"
proof -
  obtain m enc where a: "tp_encoder_add_n heap (Some (jp_path p)) (jp_path_len p) (Some v) (jp_enc p) = (m, enc)" by force
  have "returns m (\<lambda>_. fine (Suc n) enc)" using add_n_fine[OF f, of "jp_path_len p" "jp_path p" v heap] p v a by simp
  then show ?thesis using a by (cases m) (auto simp: add_value_def)
qed

section \<open>The recursive descent\<close>

text \<open>The state between two calls: room in the path buffer for everything the text can still push.\<close>

definition ready_at :: "nat \<Rightarrow> json_parser \<Rightarrow> bool" where
  "ready_at d p \<longleftrightarrow> inside p \<and> jp_len p \<le> 1023 \<and> length (jp_path p) = 4096 \<and> d \<le> 32 \<and> jp_path_len p \<le> jp_pos p + 12 * d \<and>
     fine (jp_pos p) (jp_enc p)"

text \<open>What a call leaves: the same text, further on, and the same path.\<close>

definition after :: "nat \<Rightarrow> json_parser \<Rightarrow> json_parser \<Rightarrow> bool" where
  "after d p q \<longleftrightarrow> jp_src q = jp_src p \<and> jp_len q = jp_len p \<and> jp_pos p < jp_pos q \<and> jp_depth q = d \<and> jp_path_len q = jp_path_len p \<and>
     inside q \<and> length (jp_path q) = 4096 \<and> fine (jp_pos q) (jp_enc q)"

lemma after_trans: "after d p q \<Longrightarrow> after e q r \<Longrightarrow> after e p r"
  by (auto simp: after_def)

lemma after_ready: "after e p q \<Longrightarrow> ready_at d p \<Longrightarrow> ready_at d q"
  by (auto simp: after_def ready_at_def)

lemma after_ahead: "ahead k p q \<Longrightarrow> inside p \<Longrightarrow> length (jp_path p) = 4096 \<Longrightarrow> fine (jp_pos p) (jp_enc p) \<Longrightarrow> 1 \<le> k \<Longrightarrow> after (jp_depth p) p q"
  by (auto simp: after_def inside_def elim!: aheadE intro: fine_mono)

lemma ready_ahead: "ahead k p q \<Longrightarrow> ready_at d p \<Longrightarrow> ready_at d q"
  by (auto simp: ready_at_def inside_def elim!: aheadE intro: fine_mono)

lemma ahead_after: "ahead k p q \<Longrightarrow> after d q r \<Longrightarrow> after d p r"
  by (auto simp: after_def elim!: aheadE)

lemma leaf_returns:
  assumes p: "ready_at d p" and q: "ahead 1 p q" and v: "storable v"
  shows "returns (add_value heap v q) (after (jp_depth p) p)"
proof -
  have "fine (jp_pos p) (jp_enc q)" "jp_pos p < 4294967295" "length (jp_path q) = 4096" "jp_path_len q \<le> 4095"
    using p q by (auto simp: ready_at_def inside_def elim!: aheadE)
  from add_value_returns[OF this v, of heap] show ?thesis
    by (rule returns_mono) (use p q in \<open>auto simp: ready_at_def after_def inside_def elim!: aheadE intro: fine_mono\<close>)
qed

lemma literal_returns:
  assumes p: "ready_at d p" shows "returns (parse_literal heap p) (after (jp_depth p) p)"
proof -
  have at: "returns (at_literal lit p) (\<lambda>ok. ok \<longrightarrow> ahead (length lit) p (skip (length lit) p))" for lit
    using p by (auto simp: at_literal_def ready_at_def inside_def skip_def)
  have leaf: "returns (add_value heap v (skip n p)) (after (jp_depth p) p)" if "ahead n p (skip n p)" "1 \<le> n" "storable v" for n v
    using leaf_returns[OF p ahead_le[OF that(1,2)] that(3)] .
  show ?thesis unfolding parse_literal_def
    by (intro returns_rbind[OF at] returns_if leaf) (auto simp: tp_value_bool_def tp_value_null_def numeral_eq_Suc)
qed

lemma string_value_returns:
  assumes p: "ready_at d p" shows "returns (parse_string_value heap p) (after (jp_depth p) p)"
  unfolding parse_string_value_def
proof (rule returns_rbind[OF parse_string_returns], goal_cases)
  case (3 x)
  obtain str n q where x: "x = ((str, n), q)" by (cases x) auto
  have l: "length str = 4096" and q: "ahead (n + 2) p q" using 3 x by simp_all
  have n: "n < 4095" using q p by (auto simp: ready_at_def inside_def elim!: aheadE)
  have "storable (tp_value_string_n (Some (str[n := 0])) n)" using l n by (simp add: tp_value_string_n_def view_def)
  from leaf_returns[OF p ahead_le[OF q] this, of heap] show ?case using l n by (simp add: x store_def)
qed (use p in \<open>simp_all add: ready_at_def\<close>)

lemma number_value_returns:
  assumes p: "ready_at d p" shows "returns (rbind (parse_number strtod p) (\<lambda>(val, p). add_value heap val p)) (after (jp_depth p) p)"
  by (rule returns_rbind[OF number_returns]) (use p in \<open>auto simp: ready_at_def inside_def Suc_le_eq intro!: leaf_returns[OF p]\<close>)

lemma enter_returns:
  assumes p: "ready_at (jp_depth p) p"
  shows "returns (enter b p) (\<lambda>q. after (Suc (jp_depth p)) p q \<and> jp_depth p < 32)"
proof -
  let ?p = "p\<lparr>jp_depth := jp_depth p + 1\<rparr>"
  have i: "inside ?p" using p by (simp add: ready_at_def inside_def)
  show ?thesis unfolding enter_def Let_def
    by (rule returns_if, simp, rule returns_rbind[OF expect_returns[OF i]])
      (use p fine_mono[of "jp_pos p" "jp_enc p"] in \<open>auto simp: ready_at_def after_def inside_def TP_MAX_NESTING_DEPTH_def elim!: aheadE\<close>)
qed

lemma behind_returns:
  assumes p: "inside p" and c: "close \<noteq> 0" and out: "\<And>q. ahead 0 p q \<Longrightarrow> jp_pos q < jp_len q \<Longrightarrow> P (leave q)"
    and again: "\<And>q. ahead 1 p q \<Longrightarrow> returns (again q) P"
  shows "returns (behind close again p) P"
  unfolding behind_def
proof (rule returns_rbind[OF peek_returns[OF p]], clarify)
  fix x :: u8 and q assume q: "ahead 0 p q" "x \<noteq> 0 \<longrightarrow> jp_pos q < jp_len q"
  have i: "inside q" using q(1) p by (rule ahead_inside)
  show "returns (if x = close then Ok (leave q)
      else rbind (expect 44 q) (\<lambda>(comma, p). if \<not> comma then Err TP_ERR_JSON_SYNTAX else again p)) P"
    by (rule returns_if, use c q out in simp, rule returns_rbind[OF expect_returns[OF i]])
      (use again ahead_trans[OF q(1), of 1] in auto)
qed

text \<open>Behind a member or an element: the path is restored, then the closing bracket or a comma.\<close>

lemma tail_returns:
  assumes p: "ready_at (jp_depth p - 1) p" "1 \<le> jp_depth p" and c: "close \<noteq> 0"
    and r: "jp_src r = jp_src p" "jp_len r = jp_len p" "jp_pos p < jp_pos r" "jp_depth r = jp_depth p" "inside r"
      "length (jp_path r) = 4096" "fine (jp_pos r) (jp_enc r)"
    and again: "\<And>q. after (jp_depth p) p q \<Longrightarrow> returns (again q) (after (jp_depth p - 1) p)"
  shows "returns (rbind (path_restore (jp_path_len p) r) (\<lambda>p. rbind (skip_ws p) (behind close again))) (after (jp_depth p - 1) p)"
proof -
  have "jp_path_len p < 4096" using p(1) by (auto simp: ready_at_def inside_def)
  then obtain r1 where r1: "path_restore (jp_path_len p) r = Ok r1" and s: "after (jp_depth p) p r1"
    using r by (auto simp: path_restore_def store_def after_def inside_def)
  have step: "after (jp_depth p) p q" if "ahead k r1 q" for k q using s that by (auto simp: after_def inside_def elim!: aheadE intro: fine_mono)
  have "returns (rbind (skip_ws r1) (behind close again)) (after (jp_depth p - 1) p)"
  proof (rule returns_rbind[OF skip_ws_returns behind_returns])
    show "inside r1" using s by (simp add: after_def)
    fix q0 assume q0: "ahead 0 r1 q0"
    show "inside q0" using q0 s by (auto simp: after_def intro: ahead_inside)
    show "after (jp_depth p - 1) p (leave q)" if "ahead 0 q0 q" "jp_pos q < jp_len q" for q
      using step[OF ahead_trans[OF q0 that(1)]] that(2) by (auto simp: after_def leave_def inside_def intro: fine_mono)
    show "returns (again q) (after (jp_depth p - 1) p)" if "ahead 1 q0 q" for q
      using step[OF ahead_trans[OF q0 that]] again by blast
  qed (rule c)
  then show ?thesis using r1 by simp
qed

lemma push_key_returns:
  assumes "length (jp_path p) = 4096" and "jp_path_len p + 1 + n < 4096" and "n \<le> length key"
  shows "\<exists>buf m. path_push_key key n p = Ok (jp_path_len p, p\<lparr>jp_path := buf, jp_path_len := m\<rparr>) \<and> length buf = 4096 \<and> m \<le> jp_path_len p + 1 + n"
  using assms by (auto simp: path_push_key_def store_def memcpy_def PATH_SIZE_def Let_def intro!: exI)

lemma push_index_returns:
  assumes "length (jp_path p) = 4096" and "jp_path_len p + 12 < 4096" and "i < 4294967296"
  shows "\<exists>buf m. path_push_index i p = Ok (jp_path_len p, p\<lparr>jp_path := buf, jp_path_len := m\<rparr>) \<and> length buf = 4096 \<and> m \<le> jp_path_len p + 12"
proof -
  have "length (decimal i) \<le> 10" using decimal_length[of i 10] assms(3) by simp
  then show ?thesis using assms(1,2) by (auto simp: path_push_index_def store_def memcpy_def PATH_SIZE_def Let_def intro!: exI)
qed

lemma object_loop_returns:
  assumes val: "\<And>q. ready_at (jp_depth q) q \<Longrightarrow> 3 * (jp_len q - jp_pos q) + 3 \<le> fuel \<Longrightarrow> returns (parse_value strtod heap fuel q) (after (jp_depth q) q)"
    and again: "\<And>q. ready_at (jp_depth q - 1) q \<Longrightarrow> 1 \<le> jp_depth q \<Longrightarrow> jp_depth q \<le> 32 \<Longrightarrow> 3 * (jp_len q - jp_pos q) + 4 \<le> fuel \<Longrightarrow>
      returns (object_loop strtod heap fuel q) (after (jp_depth q - 1) q)"
    and p: "ready_at (jp_depth p - 1) p" "1 \<le> jp_depth p" "jp_depth p \<le> 32" and fuel: "3 * (jp_len p - jp_pos p) + 4 \<le> Suc fuel"
  shows "returns (object_loop strtod heap (Suc fuel) p) (after (jp_depth p - 1) p)"
proof -
  have i: "inside p" and len: "jp_len p \<le> 1023" using p(1) by (simp_all add: ready_at_def)
  have body: "returns (rbind (path_push_key key n p3) (\<lambda>(saved, p). rbind (parse_value strtod heap fuel p) (\<lambda>p.
      rbind (path_restore saved p) (\<lambda>p. rbind (skip_ws p) (behind 125 (object_loop strtod heap fuel)))))) (after (jp_depth p - 1) p)"
    if a: "ahead (n + 2 + 0 + 1) p p3" and key: "length key = 1024" "n < 1024" for key n p3
  proof -
    obtain m where p3: "p3 = p\<lparr>jp_pos := m\<rparr>" "jp_pos p + (n + 3) \<le> m" "m \<le> jp_len p" using a by (auto elim: aheadE)
    have room: "jp_path_len p + 1 + n < 4096" using p(1) p3(2,3) len by (simp add: ready_at_def)
    obtain buf k where push: "path_push_key key n p3 = Ok (jp_path_len p, p3\<lparr>jp_path := buf, jp_path_len := k\<rparr>)"
      "length buf = 4096" "k \<le> jp_path_len p + 1 + n"
      using push_key_returns[of p3 n key] p(1) p3(1) key room by (auto simp: ready_at_def)
    let ?q = "p3\<lparr>jp_path := buf, jp_path_len := k\<rparr>"
    have q: "ready_at (jp_depth ?q) ?q" using p(1,3) p3 push(2,3) by (auto simp: ready_at_def inside_def intro: fine_less)
    have "3 * (jp_len ?q - jp_pos ?q) + 3 \<le> fuel" using p3 fuel by simp
    from val[OF q this] have "returns (rbind (parse_value strtod heap fuel ?q) (\<lambda>p'. rbind (path_restore (jp_path_len p) p') (\<lambda>p. rbind (skip_ws p) (behind 125 (object_loop strtod heap fuel))))) (after (jp_depth p - 1) p)"
    proof (rule returns_rbind)
      fix r assume r: "after (jp_depth ?q) ?q r"
      show "returns (rbind (path_restore (jp_path_len p) r) (\<lambda>p. rbind (skip_ws p) (behind 125 (object_loop strtod heap fuel)))) (after (jp_depth p - 1) p)"
      proof (rule tail_returns[OF p(1,2)])
        fix q' assume q': "after (jp_depth p) p q'"
        then have "jp_len q' - jp_pos q' + 1 \<le> jp_len p - jp_pos p" by (auto simp: after_def inside_def)
        then have f: "3 * (jp_len q' - jp_pos q') + 4 \<le> fuel" using fuel by linarith
        have "ready_at (jp_depth q' - 1) q'" "1 \<le> jp_depth q'" "jp_depth q' \<le> 32" using after_ready[OF q' p(1)] p(2,3) q' by (auto simp: after_def)
        from again[OF this f] show "returns (object_loop strtod heap fuel q') (after (jp_depth p - 1) p)"
          by (rule returns_mono) (use q' in \<open>auto simp: after_def\<close>)
      qed (use r p3 in \<open>auto simp: after_def\<close>)
    qed
    then show ?thesis using push(1) by simp
  qed
  have "returns (rbind (parse_key p) (\<lambda>((key, key_len), p). rbind (skip_ws p) (\<lambda>p. rbind (expect 58 p) (\<lambda>(colon, p).
     if \<not> colon then Err TP_ERR_JSON_SYNTAX
     else rbind (path_push_key key key_len p) (\<lambda>(saved, p). rbind (parse_value strtod heap fuel p) (\<lambda>p.
      rbind (path_restore saved p) (\<lambda>p. rbind (skip_ws p) (behind 125 (object_loop strtod heap fuel))))))))) (after (jp_depth p - 1) p)"
  proof (rule returns_rbind[OF parse_key_returns[OF i len]], clarify)
    fix key :: "u8 list" and n p1 assume k: "length key = 1024" "n < 1024" "ahead (n + 2) p p1"
    show "returns (rbind (skip_ws p1) (\<lambda>p. rbind (expect 58 p) (\<lambda>(colon, p).
     if \<not> colon then Err TP_ERR_JSON_SYNTAX
     else rbind (path_push_key key n p) (\<lambda>(saved, p). rbind (parse_value strtod heap fuel p) (\<lambda>p.
      rbind (path_restore saved p) (\<lambda>p. rbind (skip_ws p) (behind 125 (object_loop strtod heap fuel)))))))) (after (jp_depth p - 1) p)"
    proof (rule returns_rbind[OF skip_ws_returns[OF ahead_inside[OF k(3) i]]])
      fix p2 assume p2: "ahead 0 p1 p2"
      then have a2: "ahead (n + 2 + 0) p p2" by (rule ahead_trans[OF k(3)])
      show "returns (rbind (expect 58 p2) (\<lambda>(colon, p).
         if \<not> colon then Err TP_ERR_JSON_SYNTAX
         else rbind (path_push_key key n p) (\<lambda>(saved, p). rbind (parse_value strtod heap fuel p) (\<lambda>p.
          rbind (path_restore saved p) (\<lambda>p. rbind (skip_ws p) (behind 125 (object_loop strtod heap fuel))))))) (after (jp_depth p - 1) p)"
      proof (rule returns_rbind[OF expect_returns[OF ahead_inside[OF a2 i]]], clarify)
        fix colon p3 assume e: "ahead (if colon then 1 else 0) p2 p3"
        have "returns (rbind (path_push_key key n p3) (\<lambda>(saved, p). rbind (parse_value strtod heap fuel p) (\<lambda>p.
          rbind (path_restore saved p) (\<lambda>p. rbind (skip_ws p) (behind 125 (object_loop strtod heap fuel)))))) (after (jp_depth p - 1) p)"
          if colon using body[OF ahead_trans[OF a2] k(1,2)] e that by simp
        then show "returns (if \<not> colon then Err TP_ERR_JSON_SYNTAX
         else rbind (path_push_key key n p3) (\<lambda>(saved, p). rbind (parse_value strtod heap fuel p) (\<lambda>p.
          rbind (path_restore saved p) (\<lambda>p. rbind (skip_ws p) (behind 125 (object_loop strtod heap fuel)))))) (after (jp_depth p - 1) p)"
          by simp
      qed
    qed
  qed
  then show ?thesis by (simp add: behind_def[abs_def] cong: if_cong)
qed

lemma array_loop_returns:
  assumes val: "\<And>q. ready_at (jp_depth q) q \<Longrightarrow> 3 * (jp_len q - jp_pos q) + 3 \<le> fuel \<Longrightarrow> returns (parse_value strtod heap fuel q) (after (jp_depth q) q)"
    and again: "\<And>q i. ready_at (jp_depth q - 1) q \<Longrightarrow> 1 \<le> jp_depth q \<Longrightarrow> jp_depth q \<le> 32 \<Longrightarrow> i < 4294967296 \<Longrightarrow> 3 * (jp_len q - jp_pos q) + 4 \<le> fuel \<Longrightarrow>
      returns (array_loop strtod heap fuel i q) (after (jp_depth q - 1) q)"
    and p: "ready_at (jp_depth p - 1) p" "1 \<le> jp_depth p" "jp_depth p \<le> 32" and i: "i < 4294967296"
    and fuel: "3 * (jp_len p - jp_pos p) + 4 \<le> Suc fuel"
  shows "returns (array_loop strtod heap (Suc fuel) i p) (after (jp_depth p - 1) p)"
proof -
  have len: "jp_len p \<le> 1023" "inside p" using p(1) by (simp_all add: ready_at_def)
  have room: "jp_path_len p + 12 < 4096" using p(1) len by (auto simp: ready_at_def inside_def)
  obtain buf k where push: "path_push_index i p = Ok (jp_path_len p, p\<lparr>jp_path := buf, jp_path_len := k\<rparr>)"
    "length buf = 4096" "k \<le> jp_path_len p + 12"
    using push_index_returns[OF _ room i] p(1) by (auto simp: ready_at_def)
  let ?q = "p\<lparr>jp_path := buf, jp_path_len := k\<rparr>"
  have q: "ready_at (jp_depth ?q) ?q" using p push(2,3) by (auto simp: ready_at_def inside_def)
  have "3 * (jp_len ?q - jp_pos ?q) + 3 \<le> fuel" using fuel by simp
  from val[OF q this] have "returns (rbind (parse_value strtod heap fuel ?q) (\<lambda>p'. rbind (path_restore (jp_path_len p) p') (\<lambda>p. rbind (skip_ws p)
      (behind 93 (array_loop strtod heap fuel (wrap32 (i + 1))))))) (after (jp_depth p - 1) p)"
  proof (rule returns_rbind)
    fix r assume r: "after (jp_depth ?q) ?q r"
    show "returns (rbind (path_restore (jp_path_len p) r) (\<lambda>p. rbind (skip_ws p) (behind 93 (array_loop strtod heap fuel (wrap32 (i + 1)))))) (after (jp_depth p - 1) p)"
    proof (rule tail_returns[OF p(1,2)])
      fix q' assume q': "after (jp_depth p) p q'"
      then have "jp_len q' - jp_pos q' + 1 \<le> jp_len p - jp_pos p" by (auto simp: after_def inside_def)
      then have f: "3 * (jp_len q' - jp_pos q') + 4 \<le> fuel" using fuel by linarith
      have "ready_at (jp_depth q' - 1) q'" "1 \<le> jp_depth q'" "jp_depth q' \<le> 32" using after_ready[OF q' p(1)] p(2,3) q' by (auto simp: after_def)
      from again[OF this _ f, of "wrap32 (i + 1)"] show "returns (array_loop strtod heap fuel (wrap32 (i + 1)) q') (after (jp_depth p - 1) p)"
        by (rule returns_mono) (use q' in \<open>auto simp: after_def wrap32_def\<close>)
    qed (use r in \<open>auto simp: after_def\<close>)
  qed
  then show ?thesis using push(1) by (simp add: behind_def[abs_def] cong: if_cong)
qed

lemma bracket_returns:
  assumes p: "ready_at (jp_depth p) p" and c: "close \<noteq> 0" and fuel: "3 * (jp_len p - jp_pos p) + 2 \<le> Suc fuel"
    and loop: "\<And>q. ready_at (jp_depth q - 1) q \<Longrightarrow> 1 \<le> jp_depth q \<Longrightarrow> jp_depth q \<le> 32 \<Longrightarrow> 3 * (jp_len q - jp_pos q) + 4 \<le> fuel \<Longrightarrow>
      returns (loop q) (after (jp_depth q - 1) q)"
  shows "returns (rbind (enter b p) (\<lambda>p. rbind (peek p) (\<lambda>(c, p). if c = close then Ok (leave p) else loop p))) (after (jp_depth p) p)"
proof (rule returns_rbind[OF enter_returns[OF p]], elim conjE)
  fix q assume q: "after (Suc (jp_depth p)) p q" and d: "jp_depth p < 32"
  then have i: "inside q" by (simp add: after_def)
  show "returns (rbind (peek q) (\<lambda>(c, p). if c = close then Ok (leave p) else loop p)) (after (jp_depth p) p)"
  proof (rule returns_rbind[OF peek_returns[OF i]], clarify)
    fix x :: u8 and r assume r: "ahead 0 q r" "x \<noteq> 0 \<longrightarrow> jp_pos r < jp_len r"
    have r': "after (Suc (jp_depth p)) p r" using q r(1) by (auto simp: after_def inside_def elim!: aheadE intro: fine_mono)
    have "after (jp_depth p) p (leave r)" if "x = close"
      using r' r(2) c that fine_mono[of "jp_pos r" "jp_enc r" "Suc (jp_pos r)"] by (auto simp: after_def leave_def inside_def)
    moreover have "returns (loop r) (after (jp_depth p) p)"
    proof -
      have "jp_len r - jp_pos r + 1 \<le> jp_len p - jp_pos p" using r' by (auto simp: after_def inside_def)
      then have f: "3 * (jp_len r - jp_pos r) + 4 \<le> fuel" using fuel by linarith
      have "ready_at (jp_depth r - 1) r" "1 \<le> jp_depth r" "jp_depth r \<le> 32" using after_ready[OF r' p] r' d by (simp_all add: after_def)
      from loop[OF this f] show ?thesis by (rule returns_mono) (use r' in \<open>auto simp: after_def\<close>)
    qed
    ultimately show "returns (if x = close then Ok (leave r) else loop r) (after (jp_depth p) p)" by simp
  qed
qed

lemma value_returns:
  assumes p: "ready_at (jp_depth p) p" "3 * (jp_len p - jp_pos p) + 3 \<le> Suc fuel"
    and obj: "\<And>q. ready_at (jp_depth q) q \<Longrightarrow> 3 * (jp_len q - jp_pos q) + 2 \<le> fuel \<Longrightarrow>
      returns (parse_object strtod heap fuel q) (after (jp_depth q) q) \<and> returns (parse_array strtod heap fuel q) (after (jp_depth q) q)"
  shows "returns (parse_value strtod heap (Suc fuel) p) (after (jp_depth p) p)"
  unfolding parse_value.simps
proof (rule returns_rbind[OF skip_ws_returns])
  show i: "inside p" using p(1) by (simp add: ready_at_def)
  fix q assume q: "ahead 0 p q"
  have d: "jp_depth q = jp_depth p" using q by (auto elim!: aheadE)
  have r: "ready_at (jp_depth q) q" using ready_ahead[OF q p(1)] d by simp
  have "jp_len q - jp_pos q \<le> jp_len p - jp_pos p" using q by (auto elim!: aheadE)
  then have f: "3 * (jp_len q - jp_pos q) + 2 \<le> fuel" using p(2) by linarith
  have i: "jp_len q \<le> length (jp_src q)" using r by (simp add: ready_at_def inside_def)
  show "returns (if jp_pos q \<ge> jp_len q then Err TP_ERR_JSON_SYNTAX
     else rbind (load (jp_src q) (jp_pos q)) (\<lambda>c.
       if c = 123 then parse_object strtod heap fuel q
       else if c = 91 then parse_array strtod heap fuel q
       else if c = 34 then parse_string_value heap q
       else if c = 45 \<or> isdigit c then rbind (parse_number strtod q) (\<lambda>(val, p). add_value heap val p)
       else parse_literal heap q)) (after (jp_depth p) p)"
    by (rule returns_mono[where P = "after (jp_depth q) q"], rule returns_if, simp, rule returns_rbind[OF returns_load[OF _ i]], simp)
      (use obj[OF r f] literal_returns[OF r] string_value_returns[OF r] number_value_returns[OF r] ahead_after[OF q] d in auto)
qed

text \<open>The five mutually recursive functions, by induction on the fuel.\<close>

lemma parse_returns:
  "(ready_at (jp_depth p) p \<longrightarrow> 3 * (jp_len p - jp_pos p) + 3 \<le> fuel \<longrightarrow> returns (parse_value strtod heap fuel p) (after (jp_depth p) p)) \<and>
   (ready_at (jp_depth p) p \<longrightarrow> 3 * (jp_len p - jp_pos p) + 2 \<le> fuel \<longrightarrow>
      returns (parse_object strtod heap fuel p) (after (jp_depth p) p) \<and> returns (parse_array strtod heap fuel p) (after (jp_depth p) p)) \<and>
   (ready_at (jp_depth p - 1) p \<longrightarrow> 1 \<le> jp_depth p \<longrightarrow> jp_depth p \<le> 32 \<longrightarrow> 3 * (jp_len p - jp_pos p) + 4 \<le> fuel \<longrightarrow>
      returns (object_loop strtod heap fuel p) (after (jp_depth p - 1) p) \<and>
      (i < 4294967296 \<longrightarrow> returns (array_loop strtod heap fuel i p) (after (jp_depth p - 1) p)))"
proof (induction fuel arbitrary: p i)
  case (Suc fuel)
  have val: "returns (parse_value strtod heap fuel q) (after (jp_depth q) q)"
    if "ready_at (jp_depth q) q" "3 * (jp_len q - jp_pos q) + 3 \<le> fuel" for q using Suc.IH[of q] that by blast
  have obj: "returns (parse_object strtod heap fuel q) (after (jp_depth q) q) \<and> returns (parse_array strtod heap fuel q) (after (jp_depth q) q)"
    if "ready_at (jp_depth q) q" "3 * (jp_len q - jp_pos q) + 2 \<le> fuel" for q using Suc.IH[of q] that by blast
  have ol: "returns (object_loop strtod heap fuel q) (after (jp_depth q - 1) q)"
    and al: "i < 4294967296 \<Longrightarrow> returns (array_loop strtod heap fuel i q) (after (jp_depth q - 1) q)"
    if "ready_at (jp_depth q - 1) q" "1 \<le> jp_depth q" "jp_depth q \<le> 32" "3 * (jp_len q - jp_pos q) + 4 \<le> fuel" for q i
    using Suc.IH[of q] that by blast+
  have "returns (parse_value strtod heap (Suc fuel) p) (after (jp_depth p) p)" if p: "ready_at (jp_depth p) p" "3 * (jp_len p - jp_pos p) + 3 \<le> Suc fuel"
    by (rule value_returns[OF p obj])
  moreover have "returns (parse_object strtod heap (Suc fuel) p) (after (jp_depth p) p) \<and> returns (parse_array strtod heap (Suc fuel) p) (after (jp_depth p) p)"
    if p: "ready_at (jp_depth p) p" "3 * (jp_len p - jp_pos p) + 2 \<le> Suc fuel"
  proof
    have ol': "returns (object_loop strtod heap fuel q) (after (jp_depth q - 1) q)" and al': "returns (array_loop strtod heap fuel 0 q) (after (jp_depth q - 1) q)"
      if "ready_at (jp_depth q - 1) q" "1 \<le> jp_depth q" "jp_depth q \<le> 32" "3 * (jp_len q - jp_pos q) + 4 \<le> fuel" for q
      using ol[OF that] al[OF that, of 0] by simp_all
    show "returns (parse_object strtod heap (Suc fuel) p) (after (jp_depth p) p)"
      using bracket_returns[OF p(1) _ p(2) ol', of 125 123] by simp
    show "returns (parse_array strtod heap (Suc fuel) p) (after (jp_depth p) p)"
      using bracket_returns[OF p(1) _ p(2) al', of 93 91] by simp
  qed
  ultimately show ?case
    using object_loop_returns[OF val ol, of p] array_loop_returns[OF val al, of p i] by blast
qed simp

section \<open>Encoding any short text\<close>

lemma parse_root_returns:
  assumes n: "n \<le> length src" "n \<le> 1023" and e: "fine 0 enc"
  shows "returns (parse_root strtod heap (new_parser src n enc)) (\<lambda>(root, enc'). root \<in> {TP_JSON_ROOT_OBJECT, TP_JSON_ROOT_ARRAY} \<and> fine n enc')"
  unfolding parse_root_def
proof (rule returns_rbind[OF skip_ws_returns])
  let ?p = "new_parser src n enc"
  have p: "ready_at 0 ?p" using n e by (simp add: ready_at_def inside_def new_parser_def PATH_SIZE_def)
  then show "inside ?p" by (simp add: ready_at_def)
  fix q assume q: "ahead 0 ?p q"
  have r: "ready_at (jp_depth q) q" using ready_ahead[OF q p] q by (auto elim!: aheadE simp: new_parser_def)
  have len: "jp_len q = n" using q by (auto elim!: aheadE simp: new_parser_def)
  have f: "3 * (jp_len q - jp_pos q) + 2 \<le> json_fuel (jp_len q)" by (simp add: json_fuel_def)
  have i: "jp_len q \<le> length (jp_src q)" using r by (simp add: ready_at_def inside_def)
  have obj: "returns (parse_object strtod heap (json_fuel (jp_len q)) q) (after (jp_depth q) q)"
    and arr: "returns (parse_array strtod heap (json_fuel (jp_len q)) q) (after (jp_depth q) q)"
    using parse_returns[of q "json_fuel (jp_len q)" strtod heap] r f by blast+
  have fin: "fine n (jp_enc s)" if "after (jp_depth q) q s" for s
    using that len by (auto simp: after_def inside_def intro: fine_mono)
  show "returns (if jp_pos q \<ge> jp_len q then Err TP_ERR_JSON_SYNTAX
     else rbind (load (jp_src q) (jp_pos q)) (\<lambda>root_c.
       if root_c = 123 then rbind (parse_object strtod heap (json_fuel (jp_len q)) q) (\<lambda>p. Ok (TP_JSON_ROOT_OBJECT, jp_enc p))
       else if root_c = 91 then rbind (parse_array strtod heap (json_fuel (jp_len q)) q) (\<lambda>p. Ok (TP_JSON_ROOT_ARRAY, jp_enc p))
       else Err TP_ERR_JSON_SYNTAX)) (\<lambda>(root, enc'). root \<in> {TP_JSON_ROOT_OBJECT, TP_JSON_ROOT_ARRAY} \<and> fine n enc')"
    by (rule returns_if, simp, rule returns_rbind[OF returns_load[OF _ i]], simp)
      (auto intro!: returns_rbind[OF obj] returns_rbind[OF arr] fin)
qed

lemma fine_buildable: "fine n enc \<Longrightarrow> n \<le> 4294967295 \<Longrightarrow> buildable enc"
proof -
  assume f: "fine n enc" and n: "n \<le> 4294967295"
  have "sum_list (map e_key_len es) \<le> 4095 * length es" if "\<forall>e \<in> set es. e_key_len e \<le> 4095" for es
    using that by (induction es) auto
  from this[of "en_entries enc"] have "sum_list (map e_key_len (en_entries enc)) \<le> 4095 * length (en_entries enc)"
    using f by (simp add: fine_def)
  moreover have "length (en_entries enc) \<le> n" using f by (auto simp: fine_def enc_ok_def)
  ultimately have "key_volume (en_entries enc) < 72057594037927936" using n by (simp add: key_volume_def)
  then show ?thesis using f by (simp add: buildable_def width_fits_def fine_def tp_encoder_defaults_def)
qed

lemma build_safe:
  assumes "qsort_ok qs" and "buildable enc" and "heap \<le> 1152921504606846976" shows "safe (fst (tp_encoder_build qs heap enc))"
  using build_ok[OF assms] by (auto split: if_splits)

lemma encode_returns:
  assumes q: "qsort_ok qs" and n: "n \<le> length src" "n \<le> 1023" and h: "heap \<le> 1152921504606846976"
  shows "safe (tp_json_encode strtod qs heap (Some src) n)"
proof (cases "tp_encoder_create heap")
  case (Ok enc)
  have "en_opts enc = tp_encoder_defaults" "en_entries enc = []" "en_count enc = 0"
    using Ok by (auto simp: tp_encoder_create_def tp_encoder_create_ex_def split: if_splits)
  then have e: "fine 0 enc" by (simp add: fine_def enc_ok_def tp_encoder_defaults_def)
  have "returns (rbind (parse_root strtod heap (new_parser src n enc)) (\<lambda>(root_type, enc).
      fst (sbind (tp_encoder_add heap (Some TP_JSON_META_ROOT) (Some (tp_value_uint (word_of_nat root_type)))) (\<lambda>_. tp_encoder_build qs heap) enc))) (\<lambda>_. True)"
  proof (rule returns_rbind[OF parse_root_returns[OF n e]], clarify)
    fix root enc1 assume f: "fine n enc1"
    let ?v = "tp_value_uint (word_of_nat root)"
    have len: "strlen TP_JSON_META_ROOT = Some 5" by (simp add: TP_JSON_META_ROOT_def)
    obtain m enc2 where a: "tp_encoder_add_n heap (Some TP_JSON_META_ROOT) 5 (Some ?v) enc1 = (m, enc2)" by force
    have s: "tp_encoder_add heap (Some TP_JSON_META_ROOT) (Some ?v) enc1 = (m, enc2)"
      using a len by (simp add: tp_encoder_add_def)
    have "returns m (\<lambda>_. fine (Suc n) enc2)"
      using add_n_fine[OF f, of 5 TP_JSON_META_ROOT ?v heap] a n(2) by (simp add: TP_JSON_META_ROOT_def tp_value_uint_def)
    moreover have "safe (fst (tp_encoder_build qs heap enc2))" if "fine (Suc n) enc2"
      by (rule build_safe[OF q fine_buildable[OF that] h]) (use n(2) in simp)
    ultimately show "returns (fst (sbind (tp_encoder_add heap (Some TP_JSON_META_ROOT) (Some ?v)) (\<lambda>_. tp_encoder_build qs heap) enc1)) (\<lambda>_. True)"
      using s by (cases m) (auto simp: sbind_def returns_def)
  qed
  then show ?thesis using Ok by (simp add: tp_json_encode_def returns_def)
qed (auto simp: tp_json_encode_def tp_encoder_create_def tp_encoder_create_ex_def split: if_splits)

section \<open>A long key overflows its buffer\<close>

text \<open>The terminator of a key is stored at its length, whatever the size of the buffer.\<close>

lemma plain_string_loop:
  assumes len: "len \<le> length src"
  shows "left src len pos = k @ 34 # r \<Longrightarrow> \<forall>c \<in> set k. c \<noteq> 34 \<and> c \<noteq> 92 \<Longrightarrow> length k < fuel \<Longrightarrow> cap < length out \<Longrightarrow>
    \<exists>out'. string_loop fuel src len pos out cap w = Ok (out', w + length k, pos + length k + 1) \<and> length out' = length out"
proof (induction k arbitrary: pos fuel w out)
  case Nil
  then obtain f where "fuel = Suc f" by (cases fuel) auto
  then show ?case using left_Cons[OF len, of pos 34 r] Nil by (simp add: store_def string_loop.simps(2))
next
  case (Cons c k)
  then obtain f where f: "fuel = Suc f" by (cases fuel) auto
  have l0: "left src len pos = c # k @ 34 # r" using Cons.prems(1) by simp
  note l = left_Cons[OF len l0]
  obtain out1 where o: "put_bytes out cap w [c] = Ok out1" "length out1 = length out"
    using put_bytes_returns[OF Cons.prems(4), of w "[c]"] by (auto simp: put_bytes_def memcpy_def split: if_splits)
  have "\<exists>out'. string_loop f src len (Suc pos) out1 cap (w + 1) = Ok (out', w + 1 + length k, Suc pos + length k + 1) \<and> length out' = length out1"
    using Cons.prems f o(2) l(3) by (intro Cons.IH) simp_all
  then show ?case using f l o Cons.prems(2) by (simp add: string_loop.simps(2))
qed

lemma long_key_faults:
  assumes k: "\<forall>c \<in> set k. c \<noteq> 34 \<and> c \<noteq> 92" "1024 \<le> length k" and h: "SIZEOF_ENCODER \<le> heap"
  shows "tp_json_encode strtod qs heap (Some (123 # 34 # k @ 34 # r)) (length (123 # 34 # k @ 34 # r)) = Fault"
proof -
  let ?src = "123 # 34 # k @ 34 # r"
  obtain enc where c: "tp_encoder_create heap = Ok enc"
    using h by (simp add: tp_encoder_create_def tp_encoder_create_ex_def tp_encoder_defaults_def)
  let ?p = "new_parser ?src (length ?src) enc"
  have p: "src_ok ?p" "unread ?p = [] @ 123 # 34 # k @ 34 # r" "jp_depth ?p = 0" "jp_pos ?p = 0" "jp_len ?p = length ?src" "jp_src ?p = ?src"
    by (simp_all add: src_ok_def new_parser_def left_def)
  let ?q = "skip 1 ?p\<lparr>jp_depth := 1\<rparr>"
  have ws: "skip_ws ?p = Ok ?p" using skip_ws_ok[OF p(1,2)] by (simp add: is_ws_def)
  have e: "enter 123 ?p = Ok ?q" using enter_ok[of ?p 123 "34 # k @ 34 # r"] p by (simp add: is_ws_def)
  have q: "src_ok ?q" "unread ?q = [] @ 34 # k @ 34 # r" using p(1) rest_skip[of ?p "[123]"] p(2) by (simp_all add: src_ok_def)
  have pk: "peek ?q = Ok (34, ?q)" using peek_ok[OF q] by (simp add: is_ws_def)
  have x: "expect 34 ?q = Ok (True, skip 1 ?q)" using expect_ok[OF q] by (simp add: is_ws_def)
  have r: "left (jp_src (skip 1 ?q)) (jp_len (skip 1 ?q)) (jp_pos (skip 1 ?q)) = k @ 34 # r" using rest_skip[of ?q "[34]"] q(2) by simp
  have "length k < Suc (jp_len (skip 1 ?q))" using p(5) by simp
  from plain_string_loop[OF _ r k(1) this, of 1023 "replicate 1024 0" 0] obtain out where
    "string_loop (Suc (jp_len (skip 1 ?q))) (jp_src (skip 1 ?q)) (jp_len (skip 1 ?q)) (jp_pos (skip 1 ?q)) (replicate 1024 0) 1023 0 =
      Ok (out, length k, jp_pos (skip 1 ?q) + length k + 1)" "length out = 1024"
    using q(1) by (auto simp: src_ok_def)
  then have "parse_key ?q = Fault" using x k(2) by (simp add: parse_key_def parse_string_into_def store_def)
  then have "object_loop strtod heap (Suc f) ?q = Fault" for f by simp
  then have "parse_object strtod heap (Suc (Suc f)) ?p = Fault" for f using e pk by simp
  then have "parse_object strtod heap (json_fuel (jp_len ?p)) ?p = Fault"
    unfolding json_fuel_def by (metis add_2_eq_Suc' add_Suc_right numeral_Bit0)
  moreover have "load (jp_src ?p) (jp_pos ?p) = Ok 123" using p by (simp add: load_def)
  ultimately have "parse_root strtod heap ?p = Fault" using ws p(4,5) by (simp add: parse_root_def)
  then show ?thesis using c by (simp add: tp_json_encode_def)
qed

end
