(* ===== verification/Json_Dom.thy ===== *)
theory Json_Dom
  imports Json_Encode Lookup Iterator
begin

text \<open>
  The JSON view of a built file, \<open>src/json/json_dom.c\<close>: open a file whose keys are dotted paths, look a
  path up, iterate. The handle keeps its own copy of the file.
\<close>

record tp_json =
  j_dict :: tp_dict
  j_buf_owned :: "u8 list"
  j_buf_len :: nat
  j_root :: nat
  j_count :: nat

definition SIZEOF_JSON :: nat where "SIZEOF_JSON = 32"

definition TYPE_ARRAY :: nat where "TYPE_ARRAY = 8"
definition TYPE_DICT :: nat where "TYPE_DICT = 9"

text \<open>The root type stored under the metadata key, an object when there is none.\<close>

definition root_type_of :: "tp_value \<Rightarrow> nat" where
  "root_type_of v =
     (case v of
        TP_UINT u \<Rightarrow> wrap32 (unat u)
      | TP_INT i \<Rightarrow> wrap32 (unat i)
      | _ \<Rightarrow> 0)"

definition root_of :: "tp_value option tp \<Rightarrow> nat tp" where
  "root_of found =
     (case found of
        Ok (Some v) \<Rightarrow> Ok (if root_type_of v = TP_JSON_ROOT_ARRAY then TYPE_ARRAY else TYPE_DICT)
      | Ok None \<Rightarrow> Fault
      | Err e \<Rightarrow> Ok TYPE_DICT
      | Fault \<Rightarrow> Fault
      | Diverge \<Rightarrow> Diverge)"

definition tp_json_open :: "nat \<Rightarrow> ptr \<Rightarrow> nat \<Rightarrow> tp_json tp" where
  "tp_json_open heap buf buf_len =
     (case buf of
        None \<Rightarrow> Err TP_ERR_INVALID_PARAM
      | Some bs \<Rightarrow>
          if heap < SIZEOF_JSON \<or> heap < buf_len then Err TP_ERR_ALLOC
          else
            rbind (memcpy (replicate buf_len 0) 0 bs buf_len) (\<lambda>owned.
            rbind (tp_dict_open heap (Some owned) buf_len) (\<lambda>dict.
            rbind (root_of (tp_dict_lookup heap dict (Some TP_JSON_META_ROOT) True)) (\<lambda>root.
            let cnt = tp_dict_count dict in
            Ok \<lparr>j_dict = dict, j_buf_owned = owned, j_buf_len = buf_len, j_root = root,
                j_count = (if cnt > 0 then cnt - 1 else cnt)\<rparr>))))"

definition tp_json_lookup_path :: "nat \<Rightarrow> tp_json option \<Rightarrow> ptr \<Rightarrow> tp_value option tp" where
  "tp_json_lookup_path heap j path =
     (case j of
        None \<Rightarrow> Err TP_ERR_INVALID_PARAM
      | Some j \<Rightarrow> if path = None then Err TP_ERR_INVALID_PARAM else tp_dict_lookup heap (j_dict j) path True)"

definition tp_json_root_type :: "tp_json option \<Rightarrow> nat tp" where
  "tp_json_root_type j = (case j of None \<Rightarrow> Err TP_ERR_INVALID_PARAM | Some j \<Rightarrow> Ok (j_root j))"

definition tp_json_iterate :: "nat \<Rightarrow> tp_json option \<Rightarrow> tp_iterator tp" where
  "tp_json_iterate heap j = (case j of None \<Rightarrow> Err TP_ERR_INVALID_PARAM | Some j \<Rightarrow> tp_dict_iterate heap (j_dict j))"

definition tp_json_count :: "tp_json option \<Rightarrow> nat" where
  "tp_json_count j = (case j of None \<Rightarrow> 0 | Some j \<Rightarrow> j_count j)"

section \<open>Opening any bytes is safe\<close>

lemma memcpy_all: "n \<le> length bs \<Longrightarrow> memcpy (replicate n x) 0 bs n = Ok (take n bs)"
  by (simp add: memcpy_def)

lemma strlen_meta: "strlen TP_JSON_META_ROOT = Some 5"
  by (simp add: TP_JSON_META_ROOT_def)

lemma lookup_wanted: "tp_dict_lookup heap d key True \<noteq> Ok None"
  by (auto simp: tp_dict_lookup_def tp_dict_lookup_n_def rbind_eq_Ok fst_eq_Ok sbind_eq_Ok fetch_value_def
      split: option.splits if_splits lookup_hit.splits)

lemma json_open_safe:
  assumes len: "len \<le> length bs" "len \<le> 1152921504606846976"
  shows "safe (tp_json_open heap (Some bs) len) \<and>
    (\<forall>j. tp_json_open heap (Some bs) len = Ok j \<longrightarrow> dict_ok (j_dict j) \<and> j_root j \<in> {TYPE_ARRAY, TYPE_DICT})"
proof (cases "heap < SIZEOF_JSON \<or> heap < len")
  case True
  then show ?thesis by (simp add: tp_json_open_def)
next
  case False
  have s: "safe (tp_dict_open heap (Some (take len bs)) len)"
    using len by (simp add: tp_dict_open_def open_safe)
  then show ?thesis
  proof (cases rule: safe_cases)
    case (Ok d)
    have d: "dict_ok d" using open_ok[of len "take len bs" heap True d] Ok len by (simp add: tp_dict_open_def)
    have "safe (tp_dict_lookup heap d (Some TP_JSON_META_ROOT) True)" by (intro lookup_str_safe d) (simp add: strlen_meta)
    then have "\<exists>r. root_of (tp_dict_lookup heap d (Some TP_JSON_META_ROOT) True) = Ok r \<and> r \<in> {TYPE_ARRAY, TYPE_DICT}"
      using lookup_wanted[of heap d "Some TP_JSON_META_ROOT"]
      by (cases "tp_dict_lookup heap d (Some TP_JSON_META_ROOT) True") (auto simp: root_of_def split: option.split)
    then show ?thesis using False Ok d len by (auto simp: tp_json_open_def memcpy_all Let_def)
  next
    case (Err e)
    then show ?thesis using False len by (simp add: tp_json_open_def memcpy_all)
  qed
qed

end
