(* ===== verification/Json_Client.thy ===== *)
theory Json_Client
  imports Json_Safe Json_Dom Client
begin

text \<open>
  The JSON layer as its client sees it: encoding a text stores the leaves of the document under their
  dotted paths, and opening the file again finds each of them. \<open>leaves\<close> is the specification, the
  flattened document with the record of its root type; \<open>encode_eq\<close> reduces the encoder to it.
\<close>

section \<open>The leaves of a document\<close>

definition root_code :: "json \<Rightarrow> nat" where
  "root_code j = (case j of JObj _ \<Rightarrow> TP_JSON_ROOT_OBJECT | JArr _ \<Rightarrow> TP_JSON_ROOT_ARRAY | _ \<Rightarrow> 0)"

definition meta_key :: "u8 list" where
  "meta_key = [1, 114, 111, 111, 116]"

definition leaves :: "json \<Rightarrow> (u8 list \<times> tp_value) list" where
  "leaves j = flatten [] j @ [(meta_key, TP_UINT (word_of_nat (root_code j)))]"

text \<open>A later leaf under the same path hides an earlier one.\<close>

definition document :: "json \<Rightarrow> u8 list \<rightharpoonup> tp_value" where
  "document j = map_of (rev (leaves j))"

section \<open>Adding leaves\<close>

text \<open>What the encoder holds after adding: the keys with owned copies of the values.\<close>

definition copied :: "nat \<Rightarrow> u8 list \<times> tp_value \<Rightarrow> u8 list \<times> tp_value \<Rightarrow> bool" where
  "copied heap x y \<longleftrightarrow> fst x = fst y \<and> value_deep_copy heap (snd x) = Ok (snd y)"

lemma copied_Pair: "copied heap (k, v) (k', v') \<longleftrightarrow> k = k' \<and> value_deep_copy heap v = Ok v'"
  by (simp add: copied_def)

lemma add_n_opts: "en_opts (snd (tp_encoder_add_n heap key n val enc)) = en_opts enc"
  by (simp add: tp_encoder_add_n_def Let_def sbind_def split: option.split res.split)

lemma adds_ok:
  assumes "adds heap xs enc = (Ok (), enc')" and "enc_ok enc" and "en_count enc + length xs < 4294967296"
  shows "enc_ok enc' \<and> en_opts enc' = en_opts enc \<and> en_count enc' = en_count enc + length xs \<and>
    (\<exists>ys. list_all2 (copied heap) xs ys \<and> stored enc' = stored enc @ ys)"
  using assms
proof (induction xs arbitrary: enc)
  case Nil
  then show ?case by (simp add: adds_Nil)
next
  case (Cons x xs)
  obtain k v where x: "x = (k, v)" by force
  obtain m enc1 where a: "tp_encoder_add_n heap (Some k) (length k) (Some v) enc = (m, enc1)" by force
  have m: "m = Ok ()" and rest: "adds heap xs enc1 = (Ok (), enc')"
    using Cons.prems(1) a unfolding adds_def x by (cases m; simp add: sbind_def)+
  have cnt: "en_count enc < 4294967295" using Cons.prems(3) by simp
  obtain v' where v': "enc_ok enc1" "value_deep_copy heap v = Ok v'" "stored enc1 = stored enc @ [(k, v')]"
    using add_n_ok[OF Cons.prems(2) cnt, of heap k "length k" "Some v" enc1] a m by auto
  have ln: "en_count e = length (stored e)" if "enc_ok e" for e using that by (simp add: enc_ok_def stored_def)
  have c1: "en_count enc1 = Suc (en_count enc)" using ln[OF v'(1)] ln[OF Cons.prems(2)] v'(3) by simp
  obtain ys where "enc_ok enc'" "en_opts enc' = en_opts enc1" "en_count enc' = en_count enc1 + length xs"
    "list_all2 (copied heap) xs ys" "stored enc' = stored enc1 @ ys"
    using Cons.IH[OF rest v'(1)] Cons.prems(3) c1 by auto
  then show ?case using v' c1 add_n_opts[of heap "Some k" "length k" "Some v" enc] a
    by (auto simp: x copied_Pair intro!: exI[of _ "(k, v') # ys"])
qed

text \<open>Values that lie in their buffers, as the parser hands them over.\<close>

definition readable :: "tp_value \<Rightarrow> bool" where
  "readable v \<longleftrightarrow> (case v of TP_STRING (Some s) n \<Rightarrow> n \<le> length s | TP_BLOB (Some s) n \<Rightarrow> n \<le> length s | _ \<Rightarrow> True)"

definition grown :: "tp_encoder \<Rightarrow> bool" where
  "grown enc \<longleftrightarrow> en_entries_cap enc \<le> max 16 (2 * en_count enc)"

lemma add_n_cases:
  assumes "readable v"
  shows "(\<exists>enc'. tp_encoder_add_n heap (Some k) (length k) (Some v) enc = (Err TP_ERR_ALLOC, enc')) \<or>
    (\<exists>enc'. tp_encoder_add_n heap (Some k) (length k) (Some v) enc = (Ok (), enc') \<and> en_count enc' = wrap32 (en_count enc + 1) \<and>
       (grown enc \<longrightarrow> en_count enc < 4294967295 \<longrightarrow> grown enc'))"
proof -
  have v: "value_deep_copy heap v = Err TP_ERR_ALLOC \<or> (\<exists>v'. value_deep_copy heap v = Ok v')"
    using assms by (auto simp: readable_def value_deep_copy_def split: tp_value.splits option.splits)
  show ?thesis using v wrap64_le[of "en_entries_cap enc * 2"]
    by (elim disjE exE) (auto simp: tp_encoder_add_n_def Let_def sbind_def grown_def wrap32_def)
qed

lemma add_n_room:
  assumes v: "readable v" and "grown enc" and "40 * max 16 (2 * en_count enc) \<le> heap" and "length k < heap" and "value_len v < heap"
  shows "\<exists>enc'. tp_encoder_add_n heap (Some k) (length k) (Some v) enc = (Ok (), enc')"
proof -
  let ?cap = "if en_entries_cap enc = 0 then 16 else wrap64 (en_entries_cap enc * 2)"
  have cap: "wrap64 (?cap * SIZEOF_ENTRY) \<le> heap" if "en_entries_cap enc \<le> en_count enc"
  proof -
    have "wrap64 (en_entries_cap enc * 2) \<le> 2 * en_count enc" using that wrap64_le[of "en_entries_cap enc * 2"] by linarith
    then have "?cap \<le> max 16 (2 * en_count enc)" by (simp add: le_max_iff_disj)
    then have "?cap * SIZEOF_ENTRY \<le> heap" using assms(3) by (simp add: SIZEOF_ENTRY_def)
    then show ?thesis using wrap64_le le_trans by blast
  qed
  have small: "\<not> heap < wrap64 (Suc n)" if "n < heap" for n using that wrap64_le[of "Suc n"] by linarith
  have "\<exists>v'. value_deep_copy heap v = Ok v'"
    using v assms(4,5)
    by (auto simp: readable_def value_deep_copy_def value_len_def small split: tp_value.splits option.splits)
  then show ?thesis using cap small[OF assms(4)] by (auto simp: tp_encoder_add_n_def Let_def sbind_def)
qed

lemma adds_total:
  assumes "\<forall>(k, v) \<in> set xs. readable v"
  shows "(\<exists>enc'. adds heap xs enc = (Ok (), enc')) \<or> (\<exists>enc'. adds heap xs enc = (Err TP_ERR_ALLOC, enc'))"
  using assms
proof (induction xs arbitrary: enc)
  case Nil
  then show ?case by (simp add: adds_Nil)
next
  case (Cons x xs)
  obtain k v where x: "x = (k, v)" by force
  then have "readable v" using Cons.prems by simp
  from add_n_cases[OF this, of heap k enc] show ?case
  proof (elim disjE exE conjE)
    fix enc1 assume a: "tp_encoder_add_n heap (Some k) (length k) (Some v) enc = (Ok (), enc1)"
    then show ?thesis using Cons.IH[of enc1] Cons.prems by (simp add: x adds_def sbind_def)
  qed (simp add: x adds_def sbind_def)
qed

lemma adds_room:
  assumes "\<forall>(k, v) \<in> set xs. readable v \<and> length k < heap \<and> value_len v < heap"
    and "grown enc" and "en_count enc + length xs < 4294967296" and "640 + 80 * (en_count enc + length xs) \<le> heap"
  shows "\<exists>enc'. adds heap xs enc = (Ok (), enc')"
  using assms
proof (induction xs arbitrary: enc)
  case Nil
  then show ?case by (simp add: adds_Nil)
next
  case (Cons x xs)
  obtain k v where x: "x = (k, v)" by force
  then have v: "readable v" "length k < heap" "value_len v < heap" using Cons.prems(1) by simp_all
  have h: "40 * max 16 (2 * en_count enc) \<le> heap" using Cons.prems(4) by simp
  obtain enc1 where a: "tp_encoder_add_n heap (Some k) (length k) (Some v) enc = (Ok (), enc1)"
    using add_n_room[OF v(1) Cons.prems(2) h v(2,3)] by blast
  have cnt: "en_count enc < 4294967295" using Cons.prems(3) by simp
  have "grown enc1" "en_count enc1 = en_count enc + 1"
    using add_n_cases[OF v(1), of heap k enc] a Cons.prems(2) cnt by (auto simp: wrap32_def)
  then show ?case using Cons.IH[of enc1] Cons.prems a by (simp add: x adds_def sbind_def)
qed

section \<open>Encoding a text\<close>

lemma add_meta: "tp_encoder_add heap (Some TP_JSON_META_ROOT) val = tp_encoder_add_n heap (Some meta_key) (length meta_key) val"
  by (simp add: fun_eq_iff tp_encoder_add_def strlen_meta tp_encoder_add_n_def meta_key_def TP_JSON_META_ROOT_def Let_def)

lemma new_parser_ok:
  "n \<le> length src \<Longrightarrow> src_ok (new_parser src n enc)" "has_path (new_parser src n enc) []"
  "unread (new_parser src n enc) = take n src" "jp_enc (new_parser src n enc) = enc" "jp_depth (new_parser src n enc) = 0"
  by (simp_all add: src_ok_def new_parser_def has_path_def PATH_SIZE_def left_def)

lemma parse_root_ok:
  assumes j: "json_text strtod j t" "root_code j \<noteq> 0" "fits [] 0 j"
    and src: "n \<le> length src" "take n src = w @ t @ r" and w: "ws w" "stops number_char r"
  shows "outcome (adds heap (flatten [] j) enc) (\<lambda>enc' m. rbind m (\<lambda>p. Ok (root_code j, jp_enc p)) = Ok (root_code j, enc'))
      (parse_value strtod heap (Suc (json_fuel n)) (skip (length w) (new_parser src n enc))) \<and>
    parse_root strtod heap (new_parser src n enc) =
      rbind (parse_value strtod heap (Suc (json_fuel n)) (skip (length w) (new_parser src n enc))) (\<lambda>p. Ok (root_code j, jp_enc p))"
proof
  let ?p = "new_parser src n enc"
  let ?q = "skip (length w) ?p"
  have p: "src_ok ?p" "unread ?p = w @ t @ r" using src by (simp_all add: new_parser_ok)
  have q: "src_ok ?q" "has_path ?q []" "unread ?q = [] @ t @ r" using p rest_skip[OF p(2)] by (simp_all add: new_parser_ok)
  have "length t \<le> n" using arg_cong[OF src(2), of length] src(1) by simp
  then have fuel: "2 * length t + 2 \<le> Suc (json_fuel n)" by (simp add: json_fuel_def)
  have "outcome (adds heap (flatten [] j) (jp_enc ?q)) (ended ?q (length [] + length t) (jp_depth ?q) []) (parse_value strtod heap (Suc (json_fuel n)) ?q)"
    using parse_text(1)[OF j(1), of heap, unfolded value_parses_def, rule_format, OF q(1,2) _ _ q(3) _ w(2) fuel] j(3) by (simp add: new_parser_def)
  then have "outcome (adds heap (flatten [] j) enc) (ended ?q (length [] + length t) (jp_depth ?q) []) (parse_value strtod heap (Suc (json_fuel n)) ?q)"
    by (simp add: new_parser_ok)
  then show "outcome (adds heap (flatten [] j) enc) (\<lambda>enc' m. rbind m (\<lambda>p. Ok (root_code j, jp_enc p)) = Ok (root_code j, enc'))
      (parse_value strtod heap (Suc (json_fuel n)) ?q)"
    by (rule outcome_weaken) (auto simp: ended_def)
  obtain c :: u8 and t' where t: "t = c # t'" "\<not> is_ws c" and c: "c = 123 \<and> root_code j = 1 \<or> c = 91 \<and> root_code j = 2"
    using j(1,2) by (cases rule: json_text.cases) (auto simp: root_code_def TP_JSON_ROOT_OBJECT_def TP_JSON_ROOT_ARRAY_def is_ws_def)
  have ws: "skip_ws ?p = Ok ?q" using skip_ws_ok[OF p w(1)] t by simp
  have l: "left (jp_src ?q) (jp_len ?q) (jp_pos ?q) = c # t' @ r" using q(3) t(1) by simp
  have ld: "jp_pos ?q < jp_len ?q" "load (jp_src ?q) (jp_pos ?q) = Ok c" using left_Cons[OF _ l] q(1) by (simp_all add: src_ok_def)
  have v: "parse_value strtod heap (Suc (json_fuel n)) ?q =
      (if c = 123 then parse_object strtod heap (json_fuel n) ?q else parse_array strtod heap (json_fuel n) ?q)"
    using parse_value_at[OF q(1), of "[]" c "t' @ r" strtod heap "json_fuel n"] q(3) t c by auto
  have n: "jp_len ?q = n" by (simp add: new_parser_def)
  show "parse_root strtod heap ?p = rbind (parse_value strtod heap (Suc (json_fuel n)) ?q) (\<lambda>p. Ok (root_code j, jp_enc p))"
    unfolding v using c ld ws n by (auto simp: parse_root_def TP_JSON_ROOT_OBJECT_def TP_JSON_ROOT_ARRAY_def not_le)
qed

lemma encode_eq:
  assumes j: "json_text strtod j t" "root_code j \<noteq> 0" "fits [] 0 j"
    and src: "n \<le> length src" "take n src = w @ t @ r" and w: "ws w" "stops number_char r"
  shows "tp_json_encode strtod qs heap (Some src) n =
    rbind (tp_encoder_create heap) (\<lambda>enc. fst (sbind (adds heap (leaves j)) (\<lambda>_. tp_encoder_build qs heap) enc))"
proof -
  let ?v = "TP_UINT (word_of_nat (root_code j))"
  have "rbind (parse_root strtod heap (new_parser src n enc)) (\<lambda>(root_type, enc).
          fst (sbind (tp_encoder_add heap (Some TP_JSON_META_ROOT) (Some (tp_value_uint (word_of_nat root_type))))
                 (\<lambda>_. tp_encoder_build qs heap) enc)) =
      fst (sbind (adds heap (leaves j)) (\<lambda>_. tp_encoder_build qs heap) enc)" for enc
  proof -
    let ?m = "parse_value strtod heap (Suc (json_fuel n)) (skip (length w) (new_parser src n enc))"
    note pr = parse_root_ok[OF j src w, of heap enc]
    obtain a enc1 where a: "adds heap (flatten [] j) enc = (a, enc1)" by force
    have single: "adds heap [x] = sbind (tp_encoder_add_n heap (Some (fst x)) (length (fst x)) (Some (snd x))) (\<lambda>_. sret ())" for x
      by (simp add: fun_eq_iff adds_def split_beta sbind_def sret_def split: prod.split res.split)
    have app: "adds heap (leaves j) enc = (case a of Ok _ \<Rightarrow> sbind (tp_encoder_add_n heap (Some meta_key) (length meta_key) (Some ?v)) (\<lambda>_. sret ()) enc1
        | Err e \<Rightarrow> (Err e, enc1) | Fault \<Rightarrow> (Fault, enc1) | Diverge \<Rightarrow> (Diverge, enc1))"
      using a single[of "(meta_key, ?v)"] by (cases a) (simp_all add: leaves_def adds_def for_each_append sbind_def)
    show ?thesis
    proof (cases a)
      case (Ok u)
      then have "rbind ?m (\<lambda>p. Ok (root_code j, jp_enc p)) = Ok (root_code j, enc1)" using pr a by (simp add: outcome_def)
      moreover have "(sbind (sbind f (\<lambda>_. sret ())) g :: tp_encoder \<Rightarrow> _) = sbind f g" for f :: encoding and g :: "unit \<Rightarrow> tp_encoder \<Rightarrow> (u8 list \<times> nat) tp \<times> tp_encoder"
        by (simp add: fun_eq_iff sbind_def sret_def split: prod.split res.split)
      ultimately show ?thesis using pr app Ok by (simp add: add_meta tp_value_uint_def sbind_def split: prod.split res.split)
    qed (use pr a app in \<open>simp_all add: outcome_def sbind_def\<close>)
  qed
  then show ?thesis by (simp add: tp_json_encode_def)
qed

section \<open>The leaves fit the encoder\<close>

definition leaf_ok :: "u8 list \<times> tp_value \<Rightarrow> bool" where
  "leaf_ok x \<longleftrightarrow> length (fst x) < 4096 \<and> storable (snd x) \<and> readable (snd x) \<and> value_len (snd x) \<le> 4095"

lemma flatten_leaves:
  "length path < 4096 \<Longrightarrow> fits path d j \<Longrightarrow> x \<in> set (flatten path j) \<Longrightarrow> leaf_ok x"
  "length path < 4096 \<Longrightarrow> fits_members path d kvs \<Longrightarrow> x \<in> set (flatten_members path kvs) \<Longrightarrow> leaf_ok x"
  "length path < 4096 \<Longrightarrow> fits_elements path d i vs \<Longrightarrow> x \<in> set (flatten_elements path i vs) \<Longrightarrow> leaf_ok x"
  by (induction path j and path kvs and path i vs arbitrary: d and d and d rule: flatten_flatten_members_flatten_elements.induct)
    (auto simp: leaf_ok_def readable_def value_len_def view_def int_value_def)

lemma leaves_ok:
  assumes "fits [] 0 j" and "x \<in> set (leaves j)" shows "leaf_ok x"
  using assms flatten_leaves(1)[of "[]" 0 j x] by (auto simp: leaves_def leaf_ok_def meta_key_def readable_def value_len_def)

lemma leaves_length: "json_text strtod j t \<Longrightarrow> length (leaves j) \<le> length t + 1"
  using flatten_length(1)[of strtod j t "[]"] by (simp add: leaves_def)

lemma copied_storable: "list_all2 (copied heap) xs ys \<Longrightarrow> \<forall>x \<in> set xs. storable (snd x) \<Longrightarrow> y \<in> set ys \<Longrightarrow> storable (snd y) \<and> fst y \<in> fst ` set xs"
  by (induction rule: list_all2_induct) (auto simp: copied_def dest: deep_copy_agrees)

lemma value_agree_trans: "value_agree u v \<Longrightarrow> value_agree v w \<Longrightarrow> value_agree u w"
  by (cases u; cases v; cases w) (auto dest: sym)

lemma sum_list_bound: "\<forall>x \<in> set xs. f x \<le> (b :: nat) \<Longrightarrow> sum_list (map f xs) \<le> b * length xs"
  by (induction xs) auto

lemma encoded:
  assumes j: "json_text strtod j t" "fits [] 0 j" and t: "length t < 4294967294"
    and c: "tp_encoder_create heap = Ok enc0" and a: "adds heap (leaves j) enc0 = (Ok (), enc)"
  shows "buildable enc \<and> list_all2 (copied heap) (leaves j) (stored enc)"
proof -
  have e0: "enc_ok enc0" "stored enc0 = []" "en_count enc0 = 0" "en_opts enc0 = tp_encoder_defaults"
    using c create_ok[of heap tp_encoder_defaults enc0] by (auto simp: tp_encoder_create_def tp_encoder_create_ex_def split: if_splits)
  have len: "en_count enc0 + length (leaves j) < 4294967296" using leaves_length[OF j(1)] t e0(3) by linarith
  obtain ys where e: "enc_ok enc" "en_opts enc = tp_encoder_defaults" "en_count enc = length (leaves j)"
    "list_all2 (copied heap) (leaves j) ys" "stored enc = ys"
    using adds_ok[OF a e0(1) len] e0 by auto
  have ok: "\<forall>x \<in> set (leaves j). leaf_ok x" using leaves_ok[OF j(2)] by blast
  have st: "storable v" "length k < 4096" if "(k, v) \<in> set ys" for k v
    using copied_storable[OF e(4) _ that] ok by (auto simp: leaf_ok_def)
  have ents: "ys = map (\<lambda>e. (entry_key e, e_val e)) (en_entries enc)" using e(5) stored_entries[OF e(1)] by simp
  have each: "storable (e_val x) \<and> e_key_len x \<le> 4095" if "x \<in> set (en_entries enc)" for x
  proof -
    have "(entry_key x, e_val x) \<in> set ys" using that by (simp add: ents)
    from st[OF this] show ?thesis using that e(1) by (auto simp: enc_ok_def)
  qed
  have "sum_list (map e_key_len (en_entries enc)) \<le> 4095 * length (en_entries enc)"
    using each by (intro sum_list_bound) blast
  moreover have "length (en_entries enc) < 4294967296" using e(1) by (simp add: enc_ok_def)
  ultimately have "key_volume (en_entries enc) < 72057594037927936" by (simp add: key_volume_def)
  then have "buildable enc" using e(1,2) each by (simp add: buildable_def width_fits_def tp_encoder_defaults_def)
  then show ?thesis using e(4,5) by simp
qed

section \<open>Opening what was encoded\<close>

text \<open>The map a build keeps, told in terms of the leaves.\<close>

lemma kept_leaves:
  assumes q: "qsort_ok qs" and ok: "enc_ok enc" and c: "list_all2 (copied heap) (leaves j) (stored enc)"
    and st: "\<forall>x \<in> set (leaves j). storable (snd x)"
  shows "\<exists>m. picks (leaves j) m \<and> (\<forall>k. rel_option value_agree (m k) (kept qs enc k))"
proof -
  let ?R = "\<lambda>k x. rel_option value_agree x (kept qs enc k) \<and> (\<forall>v. x = Some v \<longrightarrow> (k, v) \<in> set (leaves j))"
  have p: "picks (stored enc) (kept qs enc)" by (rule kept_picks[OF q ok])
  have fs: "fst ` set (stored enc) = fst ` set (leaves j)"
  proof -
    have "map fst (stored enc) = map fst (leaves j)" using c by (induction rule: list_all2_induct) (auto simp: copied_def)
    then have "set (map fst (stored enc)) = set (map fst (leaves j))" by (simp only:)
    then show ?thesis by simp
  qed
  have "\<exists>x. ?R k x" for k
  proof (cases "kept qs enc k")
    case None
    then show ?thesis by (intro exI[of _ None]) simp
  next
    case (Some v')
    then have kv: "(k, v') \<in> set (stored enc)" using p by (simp add: picks_def)
    then obtain i where i: "i < length (stored enc)" "stored enc ! i = (k, v')" by (auto simp: in_set_conv_nth)
    then have l: "copied heap (leaves j ! i) (k, v')" "i < length (leaves j)"
      using list_all2_nthD2[OF c i(1)] list_all2_lengthD[OF c] by simp_all
    then have m: "leaves j ! i \<in> set (leaves j)" by simp
    obtain v where v: "leaves j ! i = (k, v)" "value_deep_copy heap v = Ok v'" using l(1) by (auto simp: copied_def) (metis prod.collapse)
    have "storable v" using st m v(1) by fastforce
    then have "value_agree v v'" using deep_copy_agrees[OF v(2)] by simp
    then show ?thesis using Some m v(1) by (intro exI[of _ "Some v"]) simp
  qed
  then obtain m where m: "\<And>k. ?R k (m k)" using choice[of ?R] by blast
  have "m k = None \<longleftrightarrow> kept qs enc k = None" for k using m[of k] by (auto elim: option.rel_cases)
  then have "dom m = dom (kept qs enc)" by (auto simp: dom_def)
  then have "dom m = fst ` set (leaves j)" using p fs by (simp add: picks_def)
  then have "picks (leaves j) m" using m by (simp add: picks_def)
  then show ?thesis using m by blast
qed

lemma lookup_path_opened:
  assumes q: "qsort_ok qs" and b: "enc_ok enc" "ready enc2" "file_layout enc2 (any_value enc2) buf len"
    and e: "en_entries enc2 = en_entries (dedup_entries (sort_entries qs enc))"
    and d: "opened enc2 (any_value enc2) buf len d" and h: "SIZEOF_READER \<le> heap"
    and doc: "\<And>k. rel_option value_agree (m k) (kept qs enc k)" and key: "strlen kb = Some n"
  shows "case m (take n kb) of
      Some v \<Rightarrow> \<exists>v'. tp_dict_lookup heap d (Some kb) True = Ok (Some v') \<and> value_agree v v'
    | None \<Rightarrow> \<not> extends (take n kb) (Max (dom m)) \<longrightarrow> tp_dict_lookup heap d (Some kb) True = Err TP_ERR_NOT_FOUND"
proof -
  have n: "n \<le> length kb" using strlen_Some[OF key] by simp
  have "kept qs enc k = None \<longleftrightarrow> m k = None" for k using doc[of k] by (auto elim: option.rel_cases)
  then have dom: "dom (contents enc) = dom m" unfolding dom_kept[OF q b(1), symmetric] by (auto simp: dom_def)
  note l = lookup_opened[OF q b e d h n, of True]
  show ?thesis
  proof (cases "m (take n kb)")
    case (Some v)
    then obtain v' where "kept qs enc (take n kb) = Some v'" "value_agree v v'" using doc[of "take n kb"] by (auto elim: option.rel_cases)
    then show ?thesis using l Some key value_agree_trans by (auto simp: tp_dict_lookup_def)
  next
    case None
    then have "kept qs enc (take n kb) = None" using doc[of "take n kb"] by (auto elim: option.rel_cases)
    then show ?thesis using l None key by (auto simp: tp_dict_lookup_def greatest_key_def dom)
  qed
qed

lemma json_round_trip:
  assumes q: "qsort_ok qs" and j: "json_text strtod j t" "root_code j \<noteq> 0" "fits [] 0 j" "length t < 4294967294"
    and src: "n \<le> length src" "take n src = w @ t @ r" and w: "ws w" "stops number_char r"
    and heap: "SIZEOF_DICT \<le> heap" "heap \<le> 1152921504606846976"
    and enc: "tp_json_encode strtod qs heap (Some src) n = Ok (buf, len)" and len: "len \<le> heap"
  shows "\<exists>m h. picks (leaves j) m \<and> (distinct (map fst (leaves j)) \<longrightarrow> m = document j) \<and>
    tp_json_open heap (Some buf) len = Ok h \<and>
    (meta_key \<notin> fst ` set (flatten [] j) \<longrightarrow> j_root h = (if root_code j = TP_JSON_ROOT_ARRAY then TYPE_ARRAY else TYPE_DICT)) \<and>
    tp_json_count (Some h) = card (fst ` set (leaves j)) - 1 \<and>
    (\<forall>kb i. strlen kb = Some i \<longrightarrow> (case m (take i kb) of
        Some v \<Rightarrow> \<exists>v'. tp_json_lookup_path heap (Some h) (Some kb) = Ok (Some v') \<and> value_agree v v'
      | None \<Rightarrow> \<not> extends (take i kb) (Max (dom m)) \<longrightarrow>
          tp_json_lookup_path heap (Some h) (Some kb) = Err TP_ERR_NOT_FOUND))"
proof -
  obtain enc0 enc1 enc2 where e: "tp_encoder_create heap = Ok enc0" "adds heap (leaves j) enc0 = (Ok (), enc1)"
    "tp_encoder_build qs heap enc1 = (Ok (buf, len), enc2)"
    using enc unfolding encode_eq[OF j(1-3) src w] by (auto simp: rbind_eq_Ok sbind_eq_Ok fst_eq_Ok)
  have b: "buildable enc1" and cp: "list_all2 (copied heap) (leaves j) (stored enc1)"
    using encoded[OF j(1,3,4) e(1,2)] by blast+
  have ok: "enc_ok enc1" using b by (simp add: buildable_def)
  have "\<forall>x \<in> set (leaves j). storable (snd x)" using leaves_ok[OF j(3)] by (auto simp: leaf_ok_def)
  from kept_leaves[OF q ok cp this] obtain m where
    p: "picks (leaves j) m" and doc: "\<And>k. rel_option value_agree (m k) (kept qs enc1 k)" by blast
  obtain r: "ready enc2" and f: "file_layout enc2 (any_value enc2) buf len"
    and es: "en_entries enc2 = en_entries (dedup_entries (sort_entries qs enc1))"
    using build_open[OF q b heap e(3), of False] by blast
  have l: "len \<le> length buf" using f by (simp add: file_layout_def)
  note f' = file_layout_take[OF f]
  obtain d where d: "tp_dict_open heap (Some (take len buf)) len = Ok d" and od: "opened enc2 (any_value enc2) (take len buf) len d"
    using open_built[OF r f' heap(1), of True] by (auto simp: tp_dict_open_def)
  have h: "SIZEOF_READER \<le> heap" using heap(1) by (simp add: SIZEOF_DICT_def SIZEOF_READER_def)
  note look = lookup_path_opened[OF q ok r f' es od h doc]
  have tk: "take 5 TP_JSON_META_ROOT = meta_key" by (simp add: TP_JSON_META_ROOT_def meta_key_def)
  have dm: "dom m = fst ` set (leaves j)" using p by (simp add: picks_def)
  have "meta_key \<in> fst ` set (leaves j)" by (simp add: leaves_def)
  then have "meta_key \<in> dom m" unfolding dm .
  then obtain v where v: "m meta_key = Some v" by blast
  then obtain v' where lm: "tp_dict_lookup heap d (Some TP_JSON_META_ROOT) True = Ok (Some v')" "value_agree v v'"
    using look[OF strlen_meta] by (auto simp: tk)
  have rt: "root_type_of v' = root_code j" if "meta_key \<notin> fst ` set (flatten [] j)"
  proof -
    have "(meta_key, v) \<in> set (leaves j)" using p v by (simp add: picks_def)
    moreover have "(meta_key, v) \<notin> set (flatten [] j)" using that imageI[of "(meta_key, v)" _ fst] by auto
    ultimately have "v = TP_UINT (word_of_nat (root_code j))" by (simp add: leaves_def)
    then have v': "v' = TP_UINT (word_of_nat (root_code j))" using lm(2) by simp
    have rc: "root_code j \<le> 2" by (simp add: root_code_def TP_JSON_ROOT_OBJECT_def TP_JSON_ROOT_ARRAY_def split: json.split)
    then have "unat (word_of_nat (root_code j) :: u64) = root_code j" by (simp add: unat_of_nat)
    then show ?thesis using rc v' by (simp add: root_type_of_def wrap32_def)
  qed
  have "kept qs enc1 k = None \<longleftrightarrow> m k = None" for k using doc[of k] by (auto elim: option.rel_cases)
  then have "dom (contents enc1) = dom m" unfolding dom_kept[OF q ok, symmetric] by (auto simp: dom_def)
  then have cnt: "tp_dict_count d = card (dom m)" using opened_info[OF q ok r es od] by simp
  have "SIZEOF_JSON \<le> heap" using heap(1) by (simp add: SIZEOF_JSON_def SIZEOF_DICT_def)
  then obtain h where o: "tp_json_open heap (Some buf) len = Ok h" "j_dict h = d" "j_count h = card (dom m) - 1"
    "j_root h = (if root_type_of v' = TP_JSON_ROOT_ARRAY then TYPE_ARRAY else TYPE_DICT)"
    using d l len lm(1) cnt by (simp add: tp_json_open_def memcpy_all root_of_def Let_def)
  have lk: "tp_json_lookup_path heap (Some h) (Some kb) = tp_dict_lookup heap d (Some kb) True" for kb
    using o(2) by (simp add: tp_json_lookup_path_def)
  have "\<forall>kb i. strlen kb = Some i \<longrightarrow> (case m (take i kb) of
        Some v \<Rightarrow> \<exists>v'. tp_json_lookup_path heap (Some h) (Some kb) = Ok (Some v') \<and> value_agree v v'
      | None \<Rightarrow> \<not> extends (take i kb) (Max (dom m)) \<longrightarrow>
          tp_json_lookup_path heap (Some h) (Some kb) = Err TP_ERR_NOT_FOUND)"
    unfolding lk by (intro allI impI) (rule look)
  moreover have "distinct (map fst (leaves j)) \<longrightarrow> m = document j"
    using picks_distinct[OF p] by (simp add: document_def)
  moreover have "tp_json_count (Some h) = card (fst ` set (leaves j)) - 1" using o(3) dm by (simp add: tp_json_count_def)
  ultimately show ?thesis using p o(1,4) rt by (intro exI[of _ m] exI[of _ h]) simp
qed

section \<open>When encoding succeeds\<close>

definition leaf_cost :: "u8 list \<times> tp_value \<Rightarrow> nat" where
  "leaf_cost x = 184 * Suc (length (fst x)) + 100 + 8 * value_len (snd x)"

lemma copied_cost: "list_all2 (copied heap) xs ys \<Longrightarrow> map leaf_cost ys = map leaf_cost xs \<and> map fst ys = map fst xs"
proof (induction rule: list_all2_induct)
  case (Cons x xs y ys)
  then have "value_len (snd y) = value_len (snd x)" by (auto simp: copied_def value_deep_copy_def value_len_def split: tp_value.splits option.splits if_splits)
  then show ?case using Cons by (simp add: leaf_cost_def copied_def)
qed simp

lemma stored_volume: "enc_ok enc \<Longrightarrow> volume enc = sum_list (map leaf_cost (stored enc)) \<and> alphabet (en_entries enc) = \<Union> (set ` fst ` set (stored enc))"
proof -
  assume ok: "enc_ok enc"
  have "entry_cost e = leaf_cost (entry_key e, e_val e)" if "e \<in> set (en_entries enc)" for e
    using ok that by (simp add: entry_cost_def leaf_cost_def enc_ok_def)
  then show ?thesis by (auto simp: volume_def stored_entries[OF ok] comp_def alphabet_def intro!: arg_cong[of _ _ sum_list])
qed

lemma encode_succeeds:
  assumes q: "qsort_ok qs" and j: "json_text strtod j t" "root_code j \<noteq> 0" "fits [] 0 j" "length t < 4294967294"
    and src: "n \<le> length src" "take n src = w @ t @ r" and w: "ws w" "stops number_char r"
    and al: "card (\<Union> (set ` fst ` set (leaves j))) \<le> 249" and cost: "19980 + sum_list (map leaf_cost (leaves j)) \<le> UINT32_MAX"
    and heap: "5000 \<le> heap" "720 + 80 * length t \<le> heap" "20283 + sum_list (map leaf_cost (leaves j)) \<le> 4 * heap" "heap \<le> 1152921504606846976"
  shows "\<exists>buf len. tp_json_encode strtod qs heap (Some src) n = Ok (buf, len) \<and> len \<le> heap"
proof -
  obtain enc0 where c: "tp_encoder_create heap = Ok enc0" and e0: "en_count enc0 = 0" "grown enc0"
    using heap(1) by (simp add: tp_encoder_create_def tp_encoder_create_ex_def tp_encoder_defaults_def SIZEOF_ENCODER_def grown_def)
  have ok: "\<forall>(k, v) \<in> set (leaves j). readable v \<and> length k < heap \<and> value_len v < heap"
    using leaves_ok[OF j(3)] heap(1) by (fastforce simp: leaf_ok_def)
  have ln: "length (leaves j) \<le> length t + 1" using leaves_length[OF j(1)] .
  have n: "en_count enc0 + length (leaves j) < 4294967296" using ln j(4) e0(1) by simp
  have "80 * length (leaves j) \<le> 80 * length t + 80" using ln by simp
  then have room: "640 + 80 * (en_count enc0 + length (leaves j)) \<le> heap" using e0(1) heap(2) by simp
  from adds_room[OF ok e0(2) n room] obtain enc where a: "adds heap (leaves j) enc0 = (Ok (), enc)" by blast
  obtain ys where b: "buildable enc" and ys: "list_all2 (copied heap) (leaves j) ys" "stored enc = ys"
    using encoded[OF j(1,3,4) c a] by blast
  have eo: "enc_ok enc" using b by (simp add: buildable_def)
  have "set (map fst ys) = set (map fst (leaves j))" using copied_cost[OF ys(1)] by simp
  then have al': "alphabet (en_entries enc) = \<Union> (set ` fst ` set (leaves j))" using stored_volume[OF eo] ys(2) by simp
  have v: "volume enc = sum_list (map leaf_cost (leaves j))" using stored_volume[OF eo] copied_cost[OF ys(1)] ys(2) by simp
  have "\<exists>buf len. fst (tp_encoder_build qs heap enc) = Ok (buf, len)"
    by (rule build_succeeds[OF q b]) (use al al' v cost heap in simp_all)
  then obtain buf len enc2 where built: "tp_encoder_build qs heap enc = (Ok (buf, len), enc2)" by (metis prod.collapse)
  have "SIZEOF_DICT \<le> heap" using heap(1) by (simp add: SIZEOF_DICT_def)
  from build_open[OF q b this heap(4) built, of False] have r: "ready enc2" and f: "file_layout enc2 (any_value enc2) buf len"
    and e: "en_entries enc2 = en_entries (dedup_entries (sort_entries qs enc))" by blast+
  have "set (en_entries enc2) \<subseteq> set (en_entries enc)" using prepare_ok(3)[OF q eo refl] by (simp add: e)
  from length_stream_bits[OF r this, of "any_value enc2"] f have "len \<le> heap"
    using heap(1,3) v by (simp add: file_layout_def)
  then show ?thesis unfolding encode_eq[OF j(1-3) src w] using c a built by (auto simp: sbind_def)
qed

section \<open>Text behind the document\<close>

lemma encode_trailing:
  assumes j: "json_text strtod j t" "root_code j \<noteq> 0" "fits [] 0 j" and r: "stops number_char r"
  shows "tp_json_encode strtod qs heap (Some (t @ r)) (length (t @ r)) = tp_json_encode strtod qs heap (Some t) (length t)"
  using encode_eq[OF j, of "length (t @ r)" "t @ r" "[]" r] encode_eq[OF j, of "length t" t "[]" "[]"] r by simp

lemma ws_stops: "ws r \<Longrightarrow> stops number_char r"
  by (cases r) (auto simp: number_char_def is_ws_def isdigit_def)

section \<open>An example\<close>

text \<open>\<open>{"a":[1, true]}\<close>.\<close>

definition sample_document :: json where
  "sample_document = JObj [([97], JArr [JInt 1, JBool True])]"

definition sample_text :: "u8 list" where
  "sample_text = [123, 34, 97, 34, 58, 91, 49, 44, 32, 116, 114, 117, 101, 93, 125]"

lemma sample_json: "json_text strtod sample_document sample_text"
proof -
  have int: "json_text strtod (JInt 1) [49]"
    by (rule json_text_members_text_elements_text.int_text)
      (simp_all add: int_text_def digit_text_def isdigit_def digits_val_def int_fits_def)
  have tr: "elements_text strtod [JBool True] ([116, 114, 117, 101] @ [])" by (rule last_element[OF true_text]) simp
  have "elements_text strtod [JInt 1, JBool True] ([49] @ [] @ 44 # [32] @ [116, 114, 117, 101])"
    using more_elements[OF int _ _ tr, of "[]" "[32]"] by (simp add: is_ws_def)
  from array_text[OF _ this, of "[]"] have arr: "json_text strtod (JArr [JInt 1, JBool True]) [91, 49, 44, 32, 116, 114, 117, 101, 93]" by simp
  have "string_chars [97] [97]" by (intro chars_plain chars_none) simp_all
  then have "string_text [97] [34, 97, 34]" unfolding string_text_def by fastforce
  from last_member[OF this _ _ arr, of "[]" "[]" "[]"] have
    "members_text strtod [([97], JArr [JInt 1, JBool True])] [34, 97, 34, 58, 91, 49, 44, 32, 116, 114, 117, 101, 93]" by simp
  from object_text[OF _ this, of "[]"] show ?thesis by (simp add: sample_document_def sample_text_def)
qed

lemma sample_leaves:
  "leaves sample_document = [([97, 91, 48, 93], TP_INT 1), ([97, 91, 49, 93], TP_BOOL True), (meta_key, TP_UINT 1)]"
  by (simp add: leaves_def sample_document_def push_key_def push_index_def decimal.simps int_value_def root_code_def TP_JSON_ROOT_OBJECT_def)

lemma sample_facts:
  "root_code sample_document = TP_JSON_ROOT_OBJECT" "root_code sample_document \<noteq> 0" "fits [] 0 sample_document" "length sample_text = 15"
  by (simp_all add: sample_document_def sample_text_def root_code_def TP_JSON_ROOT_OBJECT_def push_key_def push_index_def decimal.simps)

lemma sample_lookup: "document sample_document [97, 91, 49, 93] = Some (TP_BOOL True)"
  by (simp add: document_def sample_leaves meta_key_def)

lemma sample_alphabet: "\<Union> (set ` fst ` set (leaves sample_document)) = {97, 91, 48, 49, 93, 1, 114, 111, 116}"
  by (auto simp: sample_leaves meta_key_def)

lemma sample_cost: "sum_list (map leaf_cost (leaves sample_document)) = 3244"
  by (simp add: sample_leaves leaf_cost_def value_len_def meta_key_def)

lemma sample_encodes: "\<exists>buf len. tp_json_encode strtod insertion_sort 1000000 (Some sample_text) 15 = Ok (buf, len) \<and> len \<le> 1000000"
proof -
  have "card {97, 91, 48, 49, 93, 1, 114, 111, 116 :: u8} \<le> 249" by (simp add: card_insert_if)
  then show ?thesis
    using encode_succeeds[OF insertion_sort_ok sample_json sample_facts(2,3), of 15 sample_text "[]" "[]" 1000000 strtod,
        unfolded sample_alphabet sample_cost] sample_facts(4)
    by (simp add: UINT32_MAX_def)
qed

end
