(* ===== verification/Json_Print.thy ===== *)
theory Json_Print
  imports Json_Encode
begin

text \<open>
  Writing JSON text, \<open>src/json/json_decode.c\<close> lines 19-572: the growing string buffer, escaping,
  values, and \<open>emit_json\<close>, which rebuilds objects and arrays from flat entries whose keys are
  dotted paths. Every function leaves the buffer as its state.

  The conversion of floating-point values to text by \<open>snprintf\<close> is a parameter: \<open>g_text\<close> for \<open>%g\<close> of a
  widened float, \<open>g17_text\<close> for \<open>%.17g\<close>. Integers are written out. The recursion of \<open>emit_json\<close> takes
  fuel; prefixes grow at each level and live in a buffer of 4096 bytes, so \<open>emit_fuel\<close> is enough.
\<close>

section \<open>The string buffer\<close>

record strbuf =
  sb_data :: "u8 list"
  sb_len :: nat
  sb_cap :: nat

type_synonym printing = "strbuf \<Rightarrow> unit tp \<times> strbuf"

definition sb_init :: strbuf where
  "sb_init = \<lparr>sb_data = [], sb_len = 0, sb_cap = 0\<rparr>"

text \<open>\<open>while (new_cap < need) new_cap *= 2;\<close> A capacity that has wrapped to 0 stays 0; 64 doublings
  are the most that can come before.\<close>

fun grow_cap :: "nat \<Rightarrow> nat \<Rightarrow> nat \<Rightarrow> nat tp" where
  "grow_cap 0 new_cap need = Diverge"
| "grow_cap (Suc k) new_cap need = (if new_cap < need then grow_cap k (wrap64 (new_cap * 2)) need else Ok new_cap)"

definition sb_grow :: "nat \<Rightarrow> nat \<Rightarrow> printing" where
  "sb_grow heap need sb =
     (let want = wrap64 (sb_len sb + need) in
      if want \<le> sb_cap sb then (Ok (), sb)
      else
        sbind (slift (grow_cap 66 (if sb_cap sb = 0 then 256 else sb_cap sb) want)) (\<lambda>new_cap sb.
          if heap < new_cap then (Err TP_ERR_ALLOC, sb)
          else (Ok (), sb\<lparr>sb_data := take new_cap (sb_data sb @ replicate new_cap 0), sb_cap := new_cap\<rparr>)) sb)"

definition sb_append :: "nat \<Rightarrow> u8 list \<Rightarrow> nat \<Rightarrow> printing" where
  "sb_append heap s n =
     sbind (sb_grow heap n) (\<lambda>_ sb.
     sbind (slift (memcpy (sb_data sb) (sb_len sb) s n)) (\<lambda>dat sb.
       (Ok (), sb\<lparr>sb_data := dat, sb_len := sb_len sb + n\<rparr>)) sb)"

definition sb_appendc :: "nat \<Rightarrow> u8 \<Rightarrow> printing" where
  "sb_appendc heap c = sb_append heap [c] 1"

text \<open>\<open>sb_append_str\<close> with the bytes of a string in front of its terminator.\<close>

definition sb_append_str :: "nat \<Rightarrow> u8 list \<Rightarrow> printing" where
  "sb_append_str heap s = sb_append heap s (length s)"

section \<open>Flat entries\<close>

record flat_entry =
  f_key :: "u8 list"
  f_key_len :: nat
  f_val :: tp_value

definition flat_entry_cmp :: "flat_entry \<Rightarrow> flat_entry \<Rightarrow> int" where
  "flat_entry_cmp ea eb =
     (let min_len = (if f_key_len ea < f_key_len eb then f_key_len ea else f_key_len eb);
          c = memcmp (f_key ea) (f_key eb) min_len in
      if c \<noteq> 0 then c
      else if f_key_len ea < f_key_len eb then -1
      else if f_key_len ea > f_key_len eb then 1
      else 0)"

section \<open>Strings and values\<close>

text \<open>\<open>%04x\<close> of a byte.\<close>

definition hex_char :: "u8 \<Rightarrow> u8" where
  "hex_char d = (if d < 10 then 48 + d else 87 + d)"

definition escaped :: "u8 \<Rightarrow> u8 list" where
  "escaped c =
     (if c = 34 then [92, 34]
      else if c = 92 then [92, 92]
      else if c = 8 then [92, 98]
      else if c = 12 then [92, 102]
      else if c = 10 then [92, 110]
      else if c = 13 then [92, 114]
      else if c = 9 then [92, 116]
      else if c < 32 then [92, 117, 48, 48, hex_char (drop_bit 4 c), hex_char (c AND 15)]
      else [c])"

text \<open>The loop at index \<open>i\<close>, with \<open>k\<close> bytes to go.\<close>

fun escape_loop :: "nat \<Rightarrow> u8 list \<Rightarrow> nat \<Rightarrow> nat \<Rightarrow> printing" where
  "escape_loop heap str 0 i = sret ()"
| "escape_loop heap str (Suc k) i =
     sbind (slift (load str i)) (\<lambda>c.
     sbind (sb_append heap (escaped c) (length (escaped c))) (\<lambda>_. escape_loop heap str k (i + 1)))"

definition sb_append_json_string :: "nat \<Rightarrow> u8 list \<Rightarrow> nat \<Rightarrow> printing" where
  "sb_append_json_string heap str len =
     sbind (sb_appendc heap 34) (\<lambda>_.
     sbind (escape_loop heap str len 0) (\<lambda>_. sb_appendc heap 34))"

definition int_digits :: "int \<Rightarrow> u8 list" where
  "int_digits i = (if i < 0 then 45 # decimal (nat (- i)) else decimal (nat i))"

text \<open>\<open>snprintf\<close> into 64 bytes.\<close>

definition tmp64 :: "u8 list \<Rightarrow> u8 list" where
  "tmp64 s = take 63 s"

record printf_text =
  g_text :: "u32 \<Rightarrow> u8 list"
  g17_text :: "u64 \<Rightarrow> u8 list"

definition float_text :: "printf_text \<Rightarrow> u32 \<Rightarrow> u8 list" where
  "float_text fmt bits =
     (let tmp = tmp64 (g_text fmt bits) in
      if 46 \<notin> set tmp \<and> 101 \<notin> set tmp \<and> 69 \<notin> set tmp then tmp64 (g_text fmt bits @ [46, 48]) else tmp)"

definition sb_append_value :: "printf_text \<Rightarrow> nat \<Rightarrow> tp_value \<Rightarrow> printing" where
  "sb_append_value fmt heap val =
     (case val of
        TP_NULL \<Rightarrow> sb_append_str heap [110, 117, 108, 108]
      | TP_BOOL b \<Rightarrow> sb_append_str heap (if b then [116, 114, 117, 101] else [102, 97, 108, 115, 101])
      | TP_INT i \<Rightarrow> sb_append_str heap (tmp64 (int_digits (sint i)))
      | TP_UINT u \<Rightarrow> sb_append_str heap (tmp64 (int_digits (uint u)))
      | TP_FLOAT32 bits \<Rightarrow> sb_append_str heap (float_text fmt bits)
      | TP_FLOAT64 bits \<Rightarrow> sb_append_str heap (tmp64 (g17_text fmt bits))
      | TP_STRING (Some str) len \<Rightarrow> sb_append_json_string heap str len
      | TP_STRING None len \<Rightarrow> sb_append_str heap [34, 34]
      | _ \<Rightarrow> sb_append_str heap [110, 117, 108, 108])"

section \<open>Path segments\<close>

definition is_array_index :: "u8 list \<Rightarrow> nat \<Rightarrow> nat \<Rightarrow> bool" where
  "is_array_index key key_len pos \<longleftrightarrow> pos < key_len \<and> key ! pos = 91"

text \<open>The first position from \<open>pos\<close> on that satisfies \<open>stop\<close>, or \<open>key_len\<close>.\<close>

function segment_end :: "(u8 \<Rightarrow> bool) \<Rightarrow> u8 list \<Rightarrow> nat \<Rightarrow> nat \<Rightarrow> nat" where
  "segment_end stop key key_len pos =
     (if pos < key_len \<and> \<not> stop (key ! pos) then segment_end stop key key_len (pos + 1) else pos)"
  by pat_completeness auto
termination by (relation "measure (\<lambda>(stop, key, key_len, pos). key_len - pos)") auto

declare segment_end.simps [simp del]

definition next_segment :: "u8 list \<Rightarrow> nat \<Rightarrow> nat \<Rightarrow> nat \<times> bool" where
  "next_segment key key_len pos =
     (if pos \<ge> key_len then (0, False)
      else if key ! pos = 91 then
        (let end' = segment_end (\<lambda>c. c = 93) key key_len (pos + 1) in
         ((if end' < key_len then end' + 1 else end') - pos, True))
      else (segment_end (\<lambda>c. c = 46 \<or> c = 91) key key_len pos - pos, False))"

section \<open>One level of the tree\<close>

definition emit_indent :: "nat \<Rightarrow> ptr \<Rightarrow> nat \<Rightarrow> printing" where
  "emit_indent heap indent dep =
     (case indent of
        None \<Rightarrow> sret ()
      | Some ind \<Rightarrow>
          sbind (sb_appendc heap 10) (\<lambda>_.
          case strlen ind of
            None \<Rightarrow> slift Fault
          | Some ilen \<Rightarrow> for_each (\<lambda>_. sb_append heap ind ilen) [0..<dep]))"

text \<open>The entries below a prefix, and where their next segment starts.\<close>

definition is_meta :: "flat_entry \<Rightarrow> bool" where
  "is_meta e \<longleftrightarrow> f_key e ! 0 = 1"

definition below :: "u8 list \<Rightarrow> nat \<Rightarrow> flat_entry \<Rightarrow> bool" where
  "below prefix prefix_len e \<longleftrightarrow>
     \<not> f_key_len e < prefix_len \<and> \<not> (prefix_len > 0 \<and> memcmp (f_key e) prefix prefix_len \<noteq> 0) \<and>
     \<not> (f_key_len e > 0 \<and> is_meta e)"

definition segment_pos :: "nat \<Rightarrow> flat_entry \<Rightarrow> nat" where
  "segment_pos prefix_len e =
     (if prefix_len < f_key_len e \<and> f_key e ! prefix_len = 46 then prefix_len + 1 else prefix_len)"

definition deeper :: "u8 list \<Rightarrow> nat \<Rightarrow> flat_entry \<Rightarrow> bool" where
  "deeper prefix prefix_len e \<longleftrightarrow> below prefix prefix_len e \<and> segment_pos prefix_len e < f_key_len e"

text \<open>The segment of an entry: its length and whether it is an index.\<close>

definition segment_of :: "nat \<Rightarrow> flat_entry \<Rightarrow> nat \<times> bool" where
  "segment_of prefix_len e = next_segment (f_key e) (f_key_len e) (segment_pos prefix_len e)"

definition same_segment :: "nat \<Rightarrow> flat_entry \<Rightarrow> flat_entry \<Rightarrow> bool" where
  "same_segment prefix_len se e \<longleftrightarrow>
     fst (segment_of prefix_len se) = fst (segment_of prefix_len e) \<and>
     memcmp (drop (segment_pos prefix_len se) (f_key se)) (drop (segment_pos prefix_len e) (f_key e))
       (fst (segment_of prefix_len e)) = 0"

text \<open>\<open>segments\<close>: the indices of the first entry of each segment, with the capacity of the array.\<close>

definition collect_step :: "nat \<Rightarrow> flat_entry list \<Rightarrow> u8 list \<Rightarrow> nat \<Rightarrow> nat \<Rightarrow> nat list \<times> nat \<Rightarrow> (nat list \<times> nat) tp" where
  "collect_step heap entries prefix prefix_len i st =
     (case st of (segments, seg_cap) \<Rightarrow>
        let e = entries ! i in
        if \<not> deeper prefix prefix_len e then Ok st
        else if fst (segment_of prefix_len e) = 0 then Ok st
        else if list_ex (\<lambda>s. same_segment prefix_len (entries ! s) e) segments then Ok st
        else if length segments \<ge> seg_cap then
          (let seg_cap = (if seg_cap = 0 then 16 else seg_cap * 2) in
           if heap < seg_cap * 24 then Err TP_ERR_ALLOC else Ok (segments @ [i], seg_cap))
        else Ok (segments @ [i], seg_cap))"

definition new_prefix :: "bool \<Rightarrow> u8 list \<Rightarrow> nat \<Rightarrow> flat_entry \<Rightarrow> (u8 list \<times> nat) tp" where
  "new_prefix is_array prefix prefix_len se =
     (let sp = segment_pos prefix_len se; sl = fst (segment_of prefix_len se) in
      rbind (if prefix_len > 0 then memcpy (replicate 4096 0) 0 prefix prefix_len else Ok (replicate 4096 0)) (\<lambda>buf.
      rbind (if prefix_len > 0 \<and> \<not> is_array then rbind (store buf prefix_len 46) (\<lambda>buf. Ok (buf, prefix_len + 1))
             else Ok (buf, prefix_len)) (\<lambda>(buf, len).
      rbind (memcpy buf len (drop sp (f_key se)) sl) (\<lambda>buf.
      rbind (store buf (len + sl) 0) (\<lambda>buf. Ok (buf, len + sl))))))"

definition leaf_at :: "flat_entry list \<Rightarrow> u8 list \<Rightarrow> nat \<Rightarrow> tp_value option" where
  "leaf_at entries prefix n =
     map_option f_val (find (\<lambda>e. f_key_len e = n \<and> memcmp (f_key e) prefix n = 0 \<and> \<not> is_meta e) entries)"

definition has_children :: "flat_entry list \<Rightarrow> u8 list \<Rightarrow> nat \<Rightarrow> bool" where
  "has_children entries prefix n \<longleftrightarrow>
     list_ex (\<lambda>e. f_key_len e > n \<and> memcmp (f_key e) prefix n = 0 \<and> \<not> is_meta e) entries"

text \<open>One segment: separator, indentation, key, value. \<open>sub\<close> emits what lies below the new prefix.\<close>

definition emit_segment ::
  "printf_text \<Rightarrow> nat \<Rightarrow> flat_entry list \<Rightarrow> u8 list \<Rightarrow> nat \<Rightarrow> ptr \<Rightarrow> nat \<Rightarrow> bool \<Rightarrow> (u8 list \<Rightarrow> nat \<Rightarrow> printing) \<Rightarrow> nat \<Rightarrow> nat \<Rightarrow> printing" where
  "emit_segment fmt heap entries prefix prefix_len indent dep is_array sub s start =
     sbind (if s > 0 then sb_appendc heap 44 else sret ()) (\<lambda>_.
     sbind (if indent \<noteq> None then emit_indent heap indent (dep + 1) else sret ()) (\<lambda>_.
     let se = entries ! start; sp = segment_pos prefix_len se; sl = fst (segment_of prefix_len se) in
     sbind (if is_array then sret ()
            else
              sbind (sb_append_json_string heap (drop sp (f_key se)) sl) (\<lambda>_.
              sbind (sb_appendc heap 58) (\<lambda>_.
              if indent \<noteq> None then sb_appendc heap 32 else sret ()))) (\<lambda>_.
     sbind (slift (new_prefix is_array prefix prefix_len se)) (\<lambda>(np, n).
     case leaf_at entries np n of
       Some v \<Rightarrow> if \<not> has_children entries np n then sb_append_value fmt heap v else sub np n
     | None \<Rightarrow> sub np n))))"

fun emit_segments :: "(nat \<Rightarrow> nat \<Rightarrow> printing) \<Rightarrow> nat \<Rightarrow> nat list \<Rightarrow> printing" where
  "emit_segments seg s [] = sret ()"
| "emit_segments seg s (start # starts) = sbind (seg s start) (\<lambda>_. emit_segments seg (s + 1) starts)"

fun emit_json :: "nat \<Rightarrow> printf_text \<Rightarrow> nat \<Rightarrow> flat_entry list \<Rightarrow> ptr \<Rightarrow> u8 list \<Rightarrow> nat \<Rightarrow> nat \<Rightarrow> printing" where
  "emit_json 0 fmt heap entries indent prefix prefix_len dep = slift Diverge"
| "emit_json (Suc fuel) fmt heap entries indent prefix prefix_len dep =
     (if \<not> list_ex (deeper prefix prefix_len) entries then
        (case find (\<lambda>e. f_key_len e = prefix_len \<and> (prefix_len = 0 \<or> memcmp (f_key e) prefix prefix_len = 0) \<and> \<not> is_meta e) entries of
           Some e \<Rightarrow> sb_append_value fmt heap (f_val e)
         | None \<Rightarrow> sb_append_str heap [110, 117, 108, 108])
      else
        let all_array = list_all (\<lambda>e. deeper prefix prefix_len e \<longrightarrow> is_array_index (f_key e) (f_key_len e) (segment_pos prefix_len e)) entries in
        sbind (slift (fold_res (collect_step heap entries prefix prefix_len) [0..<length entries] ([], 0))) (\<lambda>(segments, _).
        sbind (sb_appendc heap (if all_array then 91 else 123)) (\<lambda>_.
        sbind (emit_segments (emit_segment fmt heap entries prefix prefix_len indent dep all_array
                 (\<lambda>np n. emit_json fuel fmt heap entries indent np n (dep + 1))) 0 segments) (\<lambda>_.
        sbind (if indent \<noteq> None \<and> segments \<noteq> [] then emit_indent heap indent dep else sret ()) (\<lambda>_.
        sb_appendc heap (if all_array then 93 else 125))))))"

definition emit_fuel :: nat where
  "emit_fuel = 4097"

end
