(* ===== verification/Json_Decode.thy ===== *)
theory Json_Decode
  imports Json_Print Json_Dom
begin

text \<open>
  Decoding a file to JSON text, \<open>src/json/json_decode.c\<close> lines 574-928: \<open>extract_entries\<close> walks the
  trie bits from front to back, collecting every key, looks each of them up, drops the metadata and
  sorts; \<open>decode_impl\<close> prints the entries. The walker keeps a key buffer and a stack of open branches;
  its reader is the state of the operations. \<open>qsort\<close> is a parameter. The walk takes fuel, one unit per
  symbol read; each symbol moves the reader forward, so the length of the file in bits is enough.
\<close>

section \<open>The walker\<close>

text \<open>A frame holds the length of the key at a branch and the children still to come; the head of the
  list is the top of the stack.\<close>

record walker =
  wk_entries :: "flat_entry list"
  wk_key :: "u8 list"
  wk_key_len :: nat
  wk_stack :: "(nat \<times> nat) list"

definition KEY_BUF :: nat where "KEY_BUF = 4096"
definition MAX_FRAMES :: nat where "MAX_FRAMES = 256"
definition SIZEOF_FLAT_ENTRY :: nat where "SIZEOF_FLAT_ENTRY = 40"
definition SIZEOF_WALK_FRAME :: nat where "SIZEOF_WALK_FRAME = 24"

text \<open>A terminal: the key so far and what a lookup of it finds. A key that cannot be allocated is not
  recorded.\<close>

definition found_value :: "tp_value option tp \<Rightarrow> tp_value tp" where
  "found_value found =
     (case found of
        Ok (Some v) \<Rightarrow> Ok v
      | Ok None \<Rightarrow> Ok tp_value_null
      | Err e \<Rightarrow> Ok tp_value_null
      | Fault \<Rightarrow> Fault
      | Diverge \<Rightarrow> Diverge)"

definition add_entry :: "nat \<Rightarrow> tp_dict \<Rightarrow> nat \<Rightarrow> walker \<Rightarrow> walker tp" where
  "add_entry heap dict num_keys wk =
     (if length (wk_entries wk) < num_keys \<and> wk_key_len wk + 1 \<le> heap then
        let key = take (wk_key_len wk) (wk_key wk) @ [0] in
        rbind (found_value (tp_dict_lookup_n heap dict (Some key) (wk_key_len wk) True)) (\<lambda>v.
        Ok (wk\<lparr>wk_entries := wk_entries wk @ [\<lparr>f_key = key, f_key_len = wk_key_len wk, f_val = v\<rparr>]\<rparr>))
      else Ok wk)"

text \<open>Reading the SKIP symbol and its distance, which is not used.\<close>

definition read_skip :: "nat \<Rightarrow> unit reading" where
  "read_skip bps = sbind (tp_bs_read_bits bps) (\<lambda>_. sbind tp_bs_read_varint_u (\<lambda>_. sret ()))"

text \<open>Behind a terminal: back to the innermost branch with children left. The result is the walker, or
  \<open>None\<close> when reading failed and the walk is over.\<close>

fun pop_frames :: "nat \<Rightarrow> (nat \<times> nat) list \<Rightarrow> walker \<Rightarrow> walker option reading" where
  "pop_frames bps [] wk = sret (Some (wk\<lparr>wk_stack := []\<rparr>))"
| "pop_frames bps ((key_len, remaining) # stack) wk =
     (if remaining > 0 then
        let wk = wk\<lparr>wk_key_len := key_len, wk_stack := (key_len, remaining - 1) # stack\<rparr> in
        if remaining - 1 = 0 then sret (Some wk)
        else (\<lambda>r. case read_skip bps r of
                (Ok _, r) \<Rightarrow> (Ok (Some wk), r)
              | (Err e, r) \<Rightarrow> (Ok None, r)
              | (Fault, r) \<Rightarrow> (Fault, r)
              | (Diverge, r) \<Rightarrow> (Diverge, r))
      else pop_frames bps stack wk)"

definition open_frame :: "nat \<Rightarrow> u64 \<Rightarrow> walker \<Rightarrow> walker reading" where
  "open_frame bps child_count wk =
     (if length (wk_stack wk) \<ge> MAX_FRAMES then sfail TP_ERR_JSON_DEPTH
      else if child_count > 1 then
        sbind (read_skip bps) (\<lambda>_.
        sret (wk\<lparr>wk_stack := (wk_key_len wk, wrap32 (wrap32 (unat child_count) + 4294967295)) # wk_stack wk\<rparr>))
      else sret (wk\<lparr>wk_stack := (wk_key_len wk, 0) # wk_stack wk\<rparr>))"

definition take_symbol :: "tp_symbol_info \<Rightarrow> nat \<Rightarrow> walker \<Rightarrow> walker tp" where
  "take_symbol si code wk =
     (if is_ctrl_code si code then Ok wk
      else
        let byte_val = (if code < 256 then s_reverse_map si ! code else 0) in
        if wk_key_len wk < KEY_BUF - 1 then
          rbind (store (wk_key wk) (wk_key_len wk) byte_val) (\<lambda>key.
          Ok (wk\<lparr>wk_key := key, wk_key_len := wk_key_len wk + 1\<rparr>))
        else Ok wk)"

fun walk :: "nat \<Rightarrow> nat \<Rightarrow> tp_dict \<Rightarrow> nat \<Rightarrow> walker \<Rightarrow> walker reading" where
  "walk 0 heap dict num_keys wk = slift Diverge"
| "walk (Suc fuel) heap dict num_keys wk =
     (let si = d_sym dict; bps = s_bits_per_symbol si in
      if length (wk_entries wk) < num_keys then
        sbind (tp_bs_read_bits bps) (\<lambda>sym_raw.
        let code = wrap32 (unat sym_raw) in
        if code = ctrl_code si TP_CTRL_END then
          sbind (slift (add_entry heap dict num_keys wk)) (\<lambda>wk.
          sbind (pop_frames bps (wk_stack wk) wk) (\<lambda>popped.
          case popped of None \<Rightarrow> sret wk | Some wk \<Rightarrow> walk fuel heap dict num_keys wk))
        else if code = ctrl_code si TP_CTRL_END_VAL then
          sbind tp_bs_read_varint_u (\<lambda>vi.
          sbind (slift (add_entry heap dict num_keys wk)) (\<lambda>wk.
          sbind (pop_frames bps (wk_stack wk) wk) (\<lambda>popped.
          case popped of None \<Rightarrow> sret wk | Some wk \<Rightarrow> walk fuel heap dict num_keys wk)))
        else if code = ctrl_code si TP_CTRL_BRANCH then
          sbind tp_bs_read_varint_u (\<lambda>child_count.
          sbind (open_frame bps child_count wk) (\<lambda>wk. walk fuel heap dict num_keys wk))
        else if code = ctrl_code si TP_CTRL_SKIP then
          sbind tp_bs_read_varint_u (\<lambda>dist. walk fuel heap dict num_keys wk)
        else
          sbind (slift (take_symbol si code wk)) (\<lambda>wk. walk fuel heap dict num_keys wk))
      else sret wk)"

definition walk_fuel :: "nat \<Rightarrow> nat" where
  "walk_fuel buf_len = 8 * buf_len + 2"

section \<open>The entries of a file\<close>

definition root_number :: "tp_value option tp \<Rightarrow> nat tp" where
  "root_number found =
     (case found of
        Ok (Some (TP_UINT u)) \<Rightarrow> Ok (wrap32 (unat u))
      | Ok (Some (TP_INT i)) \<Rightarrow> Ok (wrap32 (unat i))
      | Ok _ \<Rightarrow> Ok TP_JSON_ROOT_OBJECT
      | Err e \<Rightarrow> Ok TP_JSON_ROOT_OBJECT
      | Fault \<Rightarrow> Fault
      | Diverge \<Rightarrow> Diverge)"

definition extract_entries :: "flat_entry qsort \<Rightarrow> nat \<Rightarrow> u8 list \<Rightarrow> nat \<Rightarrow> (flat_entry list \<times> nat) tp" where
  "extract_entries qs heap buf buf_len =
     rbind (tp_dict_open heap (Some buf) buf_len) (\<lambda>dict.
     let num_keys = tp_dict_count dict in
     if heap < num_keys * SIZEOF_FLAT_ENTRY \<or> heap < MAX_FRAMES * SIZEOF_WALK_FRAME then Err TP_ERR_ALLOC
     else
       rbind (tp_bs_reader_create heap (Some buf) (wrap64 (buf_len * 8))) (\<lambda>r.
       rbind (fst (sbind (tp_bs_reader_seek (d_trie_start dict)) (\<lambda>_.
                   walk (walk_fuel buf_len) heap dict num_keys
                     \<lparr>wk_entries = [], wk_key = replicate KEY_BUF 0, wk_key_len = 0, wk_stack = []\<rparr>) r)) (\<lambda>wk.
       rbind (root_number (tp_dict_lookup heap dict (Some TP_JSON_META_ROOT) True)) (\<lambda>root_type.
       let entries = filter (\<lambda>e. \<not> (f_key_len e > 0 \<and> is_meta e)) (wk_entries wk) in
       Ok (if length entries > 1 then qs flat_entry_cmp entries else entries, root_type)))))"

section \<open>Decoding\<close>

definition finish_text :: "nat \<Rightarrow> unit tp \<times> strbuf \<Rightarrow> (u8 list \<times> nat) tp" where
  "finish_text heap printed =
     (case sbind (\<lambda>_. printed) (\<lambda>_. sb_appendc heap 0) (snd printed) of
        (Ok _, sb) \<Rightarrow> Ok (sb_data sb, sb_len sb - 1)
      | (Err e, _) \<Rightarrow> Err e
      | (Fault, _) \<Rightarrow> Fault
      | (Diverge, _) \<Rightarrow> Diverge)"

definition decode_impl :: "printf_text \<Rightarrow> flat_entry qsort \<Rightarrow> nat \<Rightarrow> u8 list \<Rightarrow> nat \<Rightarrow> ptr \<Rightarrow> (u8 list \<times> nat) tp" where
  "decode_impl fmt qs heap buf buf_len indent =
     rbind (extract_entries qs heap buf buf_len) (\<lambda>(entries, root_type).
     finish_text heap
       (if length entries = 0 then
          sb_append_str heap (if root_type = TP_JSON_ROOT_ARRAY then [91, 93] else [123, 125]) sb_init
        else emit_json emit_fuel fmt heap entries indent [0] 0 0 sb_init))"

definition tp_json_decode :: "printf_text \<Rightarrow> flat_entry qsort \<Rightarrow> nat \<Rightarrow> ptr \<Rightarrow> nat \<Rightarrow> (u8 list \<times> nat) tp" where
  "tp_json_decode fmt qs heap buf buf_len =
     (case buf of None \<Rightarrow> Err TP_ERR_INVALID_PARAM | Some bs \<Rightarrow> decode_impl fmt qs heap bs buf_len None)"

definition tp_json_decode_pretty ::
  "printf_text \<Rightarrow> flat_entry qsort \<Rightarrow> nat \<Rightarrow> ptr \<Rightarrow> nat \<Rightarrow> ptr \<Rightarrow> (u8 list \<times> nat) tp" where
  "tp_json_decode_pretty fmt qs heap buf buf_len indent =
     (case buf of
        None \<Rightarrow> Err TP_ERR_INVALID_PARAM
      | Some bs \<Rightarrow> if indent = None then Err TP_ERR_INVALID_PARAM else decode_impl fmt qs heap bs buf_len indent)"

end
