(* ===== verification/Json_Grammar.thy ===== *)
theory Json_Grammar
  imports Json_Text
begin

text \<open>
  JSON as RFC 8259 writes it, as a grammar of bytes without meaning: no control character in a string,
  the eight short escapes and \<open>\uXXXX\<close>, no leading zero in a number. Bytes from 128 on come in units, of
  which the grammar is told: with \<open>utf8_unit\<close>, the sequences of RFC 3629, it is the standard; with \<open>high_byte\<close>
  any such byte may stand alone. The locale \<open>coding\<close> says what a set of units has to satisfy for texts to be
  cut at ASCII characters. The more liberal grammar of \<open>Json_Text\<close> is the one the parser accepts.
\<close>

section \<open>Units\<close>

inductive units :: "(u8 list \<Rightarrow> bool) \<Rightarrow> u8 list \<Rightarrow> bool" for mb :: "u8 list \<Rightarrow> bool" where
  units_none: "units mb []"
| units_ascii: "c < 128 \<Longrightarrow> units mb t \<Longrightarrow> units mb (c # t)"
| units_multi: "mb u \<Longrightarrow> units mb t \<Longrightarrow> units mb (u @ t)"

text \<open>Two to four bytes of UTF-8: no overlong form, no surrogate, nothing above \<open>0x10FFFF\<close>.\<close>

definition cont_byte :: "u8 \<Rightarrow> bool" where
  "cont_byte b \<longleftrightarrow> 0x80 \<le> b \<and> b \<le> 0xBF"

definition utf8_unit :: "u8 list \<Rightarrow> bool" where
  "utf8_unit u \<longleftrightarrow>
     (case u of
        [a, b] \<Rightarrow> 0xC2 \<le> a \<and> a \<le> 0xDF \<and> cont_byte b
      | [a, b, c] \<Rightarrow> 0xE0 \<le> a \<and> a \<le> 0xEF \<and> cont_byte b \<and> cont_byte c \<and>
          (a = 0xE0 \<longrightarrow> 0xA0 \<le> b) \<and> (a = 0xED \<longrightarrow> b \<le> 0x9F)
      | [a, b, c, d] \<Rightarrow> 0xF0 \<le> a \<and> a \<le> 0xF4 \<and> cont_byte b \<and> cont_byte c \<and> cont_byte d \<and>
          (a = 0xF0 \<longrightarrow> 0x90 \<le> b) \<and> (a = 0xF4 \<longrightarrow> b \<le> 0x8F)
      | _ \<Rightarrow> False)"

definition high_byte :: "u8 list \<Rightarrow> bool" where
  "high_byte u \<longleftrightarrow> (\<exists>c. u = [c] \<and> 128 \<le> c)"

locale coding =
  fixes mb :: "u8 list \<Rightarrow> bool"
  assumes mb_high: "mb u \<Longrightarrow> c \<in> set u \<Longrightarrow> 128 \<le> c"
    and mb_nonempty: "mb u \<Longrightarrow> u \<noteq> []"
    and mb_prefix: "mb u \<Longrightarrow> mb v \<Longrightarrow> u @ x = v @ y \<Longrightarrow> u = v"
begin

lemma units_append: "units mb a \<Longrightarrow> units mb b \<Longrightarrow> units mb (a @ b)"
  by (induction rule: units.induct) (auto intro: units.intros)

lemma units_ascii_tail: "c < 128 \<Longrightarrow> units mb (c # t) \<Longrightarrow> units mb t"
proof -
  assume c: "c < 128" and u: "units mb (c # t)"
  from u show ?thesis
  proof (cases rule: units.cases)
    case (units_multi u t')
    then have "c \<in> set u" using mb_nonempty by (cases u) auto
    then show ?thesis using mb_high[OF units_multi(2)] c by (simp add: leD)
  qed
qed

lemma units_multi_tail: "mb u \<Longrightarrow> units mb (u @ t) \<Longrightarrow> units mb t"
proof -
  assume u: "mb u" and ut: "units mb (u @ t)"
  obtain d r where d: "u = d # r" using mb_nonempty[OF u] by (cases u) auto
  from ut show ?thesis
  proof (cases rule: units.cases)
    case units_none
    then show ?thesis using d by simp
  next
    case (units_ascii c t')
    then have "128 \<le> c" using mb_high[OF u] d by simp
    then show ?thesis using units_ascii by (simp add: leD)
  next
    case (units_multi v t')
    then have "u = v" using mb_prefix[OF u] by blast
    then show ?thesis using units_multi by simp
  qed
qed

lemma units_drop: "units mb a \<Longrightarrow> units mb (a @ b) \<Longrightarrow> units mb b"
  by (induction rule: units.induct) (auto dest: units_ascii_tail units_multi_tail)

text \<open>What stands in front of an ASCII character is a sequence of units.\<close>

lemma units_before:
  assumes "units mb (a @ c # b)" and c: "c < 128" shows "units mb a"
proof -
  have "units mb xs \<Longrightarrow> xs = a @ c # b \<Longrightarrow> units mb a" for xs
  proof (induction arbitrary: a rule: units.induct)
    case (units_ascii d t)
    then show ?case by (cases a) (auto intro: units.intros)
  next
    case (units_multi u t)
    have nc: "c \<notin> set u" using mb_high[OF units_multi.hyps(1), of c] c by (auto simp: not_le)
    from units_multi.prems obtain z where "u = a @ z \<and> z @ t = c # b \<or> u @ z = a \<and> t = z @ c # b"
      by (auto simp: append_eq_append_conv2)
    then show ?case
    proof (elim disjE conjE)
      assume "u = a @ z" "z @ t = c # b"
      then have "u = a" using nc by (cases z) auto
      moreover have "units mb (u @ [])" by (rule units.units_multi[of mb u, OF units_multi.hyps(1) units_none])
      ultimately show ?thesis by simp
    next
      assume "u @ z = a" "t = z @ c # b"
      moreover have "units mb (u @ z)" using \<open>t = z @ c # b\<close> by (intro units.units_multi[of mb u, OF units_multi.hyps(1) units_multi.IH])
      ultimately show ?thesis by simp
    qed
  qed simp
  then show ?thesis using assms(1) by blast
qed

end

lemma utf8_unit_cases:
  assumes "utf8_unit u"
  obtains a b where "u = [a, b]" "0xC2 \<le> a" "a \<le> 0xDF" "cont_byte b"
    | a b c where "u = [a, b, c]" "0xE0 \<le> a" "a \<le> 0xEF" "cont_byte b" "cont_byte c"
    | a b c d where "u = [a, b, c, d]" "0xF0 \<le> a" "a \<le> 0xF4" "cont_byte b" "cont_byte c" "cont_byte d"
  using assms unfolding utf8_unit_def by (auto split: list.splits)

text \<open>The lead byte determines the length.\<close>

definition lead_length :: "u8 \<Rightarrow> nat" where
  "lead_length a = (if a < 0xE0 then 2 else if a < 0xF0 then 3 else 4)"

lemma utf8_unit_length: "utf8_unit u \<Longrightarrow> u \<noteq> [] \<and> length u = lead_length (hd u)"
  by (erule utf8_unit_cases) (simp_all add: lead_length_def word_le_nat_alt word_less_nat_alt)

interpretation utf8: coding utf8_unit
proof
  fix u :: "u8 list" and c assume "utf8_unit u" "c \<in> set u"
  then show "128 \<le> c" by (auto elim!: utf8_unit_cases simp: cont_byte_def word_le_nat_alt)
next
  fix u v x y :: "u8 list" assume u: "utf8_unit u" "utf8_unit v" "u @ x = v @ y"
  have "hd u = hd v" using u utf8_unit_length by (metis hd_append2)
  then have "length u = length v" using u utf8_unit_length by simp
  then show "u = v" using u(3) by simp
qed (simp add: utf8_unit_length)

interpretation raw: coding high_byte
  by unfold_locales (auto simp: high_byte_def)

lemma units_raw: "units high_byte bs"
proof (induction bs)
  case (Cons c bs)
  show ?case
  proof (cases "c < 128")
    case False
    then have "high_byte [c]" by (simp add: high_byte_def)
    from units_multi[of high_byte, OF this Cons] show ?thesis by simp
  qed (use Cons in \<open>simp add: units_ascii\<close>)
qed (rule units_none)

section \<open>Texts\<close>

definition hex_byte :: "u8 \<Rightarrow> bool" where
  "hex_byte h \<longleftrightarrow> isdigit h \<or> (97 \<le> h \<and> h \<le> 102) \<or> (65 \<le> h \<and> h \<le> 70)"

inductive valid_chars :: "(u8 list \<Rightarrow> bool) \<Rightarrow> u8 list \<Rightarrow> bool" for mb :: "u8 list \<Rightarrow> bool" where
  vc_none: "valid_chars mb []"
| vc_plain: "32 \<le> c \<Longrightarrow> c < 128 \<Longrightarrow> c \<noteq> 34 \<Longrightarrow> c \<noteq> 92 \<Longrightarrow> valid_chars mb t \<Longrightarrow> valid_chars mb (c # t)"
| vc_multi: "mb u \<Longrightarrow> valid_chars mb t \<Longrightarrow> valid_chars mb (u @ t)"
| vc_escape: "e \<in> {34, 92, 47, 98, 102, 110, 114, 116} \<Longrightarrow> valid_chars mb t \<Longrightarrow> valid_chars mb (92 # e # t)"
| vc_unicode: "length hs = 4 \<Longrightarrow> list_all hex_byte hs \<Longrightarrow> valid_chars mb t \<Longrightarrow> valid_chars mb (92 # 117 # hs @ t)"

definition valid_string :: "(u8 list \<Rightarrow> bool) \<Rightarrow> u8 list \<Rightarrow> bool" where
  "valid_string mb t \<longleftrightarrow> (\<exists>body. t = 34 # body @ [34] \<and> valid_chars mb body)"

definition integer_part :: "u8 list \<Rightarrow> bool" where
  "integer_part ds \<longleftrightarrow> digit_text ds \<and> (hd ds = 48 \<longrightarrow> ds = [48])"

definition valid_number :: "u8 list \<Rightarrow> bool" where
  "valid_number t \<longleftrightarrow> (\<exists>sg ds fr ex. t = sg @ ds @ fr @ ex \<and> sign_text sg \<and> integer_part ds \<and>
     fraction_text fr \<and> exponent_text ex)"

inductive valid_json :: "(u8 list \<Rightarrow> bool) \<Rightarrow> u8 list \<Rightarrow> bool"
  and valid_members :: "(u8 list \<Rightarrow> bool) \<Rightarrow> u8 list \<Rightarrow> bool"
  and valid_elements :: "(u8 list \<Rightarrow> bool) \<Rightarrow> u8 list \<Rightarrow> bool"
  for mb :: "u8 list \<Rightarrow> bool" where
  v_null: "valid_json mb [110, 117, 108, 108]"
| v_true: "valid_json mb [116, 114, 117, 101]"
| v_false: "valid_json mb [102, 97, 108, 115, 101]"
| v_number: "valid_number t \<Longrightarrow> valid_json mb t"
| v_string: "valid_string mb t \<Longrightarrow> valid_json mb t"
| v_no_members: "ws w \<Longrightarrow> valid_json mb (123 # w @ [125])"
| v_object: "ws w \<Longrightarrow> valid_members mb t \<Longrightarrow> valid_json mb (123 # w @ t @ [125])"
| v_no_elements: "ws w \<Longrightarrow> valid_json mb (91 # w @ [93])"
| v_array: "ws w \<Longrightarrow> valid_elements mb t \<Longrightarrow> valid_json mb (91 # w @ t @ [93])"
| v_member: "valid_string mb kt \<Longrightarrow> ws w1 \<Longrightarrow> ws w2 \<Longrightarrow> valid_json mb vt \<Longrightarrow> ws w3 \<Longrightarrow>
    valid_members mb (kt @ w1 @ 58 # w2 @ vt @ w3)"
| v_members: "valid_string mb kt \<Longrightarrow> ws w1 \<Longrightarrow> ws w2 \<Longrightarrow> valid_json mb vt \<Longrightarrow> ws w3 \<Longrightarrow> ws w4 \<Longrightarrow>
    valid_members mb t \<Longrightarrow> valid_members mb (kt @ w1 @ 58 # w2 @ vt @ w3 @ 44 # w4 @ t)"
| v_element: "valid_json mb vt \<Longrightarrow> ws w \<Longrightarrow> valid_elements mb (vt @ w)"
| v_elements: "valid_json mb vt \<Longrightarrow> ws w1 \<Longrightarrow> ws w2 \<Longrightarrow> valid_elements mb t \<Longrightarrow>
    valid_elements mb (vt @ w1 @ 44 # w2 @ t)"

end
