(* ===== verification/Json_Print_Laws.thy ===== *)
theory Json_Print_Laws
  imports Json_Print Json_Safe Json_Grammar
begin

text \<open>
  What the printer writes. \<open>emits m P\<close>: the operation returns, and on success has appended a text that
  satisfies \<open>P\<close>. Values print as JSON texts of the grammar of \<open>Json_Grammar\<close>, and so does a whole level
  of the tree, whatever the entries; the bytes from 128 on are the units of which keys and strings are made.
\<close>

section \<open>Appending\<close>

definition sb_text :: "strbuf \<Rightarrow> u8 list" where
  "sb_text sb = take (sb_len sb) (sb_data sb)"

text \<open>The buffer lies in memory; \<open>2 ^ 60\<close> bytes are the most there can be.\<close>

definition sb_ok :: "strbuf \<Rightarrow> bool" where
  "sb_ok sb \<longleftrightarrow> sb_len sb \<le> sb_cap sb \<and> length (sb_data sb) = sb_cap sb \<and> sb_cap sb \<le> 1152921504606846976"

definition emits :: "printing \<Rightarrow> (u8 list \<Rightarrow> bool) \<Rightarrow> bool" where
  "emits m P \<longleftrightarrow> (\<forall>sb. sb_ok sb \<longrightarrow>
     (case m sb of
        (Ok _, sb') \<Rightarrow> sb_ok sb' \<and> (\<exists>t. P t \<and> sb_text sb' = sb_text sb @ t)
      | (Err _, _) \<Rightarrow> True
      | _ \<Rightarrow> False))"

lemma emitsI:
  assumes "\<And>sb. sb_ok sb \<Longrightarrow> (\<exists>e sb'. m sb = (Err e, sb')) \<or> (\<exists>sb' t. m sb = (Ok (), sb') \<and> sb_ok sb' \<and> P t \<and> sb_text sb' = sb_text sb @ t)"
  shows "emits m P"
  using assms by (fastforce simp: emits_def)

lemma emitsD:
  assumes "emits m P" and "sb_ok sb"
  shows "(\<exists>e sb'. m sb = (Err e, sb')) \<or> (\<exists>sb' t. m sb = (Ok (), sb') \<and> sb_ok sb' \<and> P t \<and> sb_text sb' = sb_text sb @ t)"
proof -
  obtain r sb' where "m sb = (r, sb')" by force
  then show ?thesis using assms by (cases r) (auto simp: emits_def)
qed

lemma emits_sbind:
  assumes m: "emits m P" and f: "emits (f ()) Q" and r: "\<And>t u. P t \<Longrightarrow> Q u \<Longrightarrow> R (t @ u)"
  shows "emits (sbind m f) R"
proof (rule emitsI)
  fix sb assume "sb_ok sb"
  from emitsD[OF m this] show "(\<exists>e sb'. sbind m f sb = (Err e, sb')) \<or>
      (\<exists>sb' t. sbind m f sb = (Ok (), sb') \<and> sb_ok sb' \<and> R t \<and> sb_text sb' = sb_text sb @ t)"
  proof (elim disjE exE conjE)
    fix sb1 t assume 1: "m sb = (Ok (), sb1)" "sb_ok sb1" "P t" "sb_text sb1 = sb_text sb @ t"
    from emitsD[OF f 1(2)] show ?thesis using 1 r by (fastforce simp: sbind_def)
  qed (simp add: sbind_def)
qed

lemma emits_slift:
  assumes "returns r P" and "\<And>x. P x \<Longrightarrow> emits (f x) Q" shows "emits (sbind (slift r) f) Q"
  using assms by (cases r) (auto simp: emits_def sbind_def)

lemma emits_mono: "emits m P \<Longrightarrow> (\<And>t. P t \<Longrightarrow> Q t) \<Longrightarrow> emits m Q"
  by (fastforce simp: emits_def split: prod.splits res.splits)

lemma emits_sret: "P [] \<Longrightarrow> emits (sret ()) P"
  by (fastforce simp: emits_def)

lemma emits_if: "(c \<Longrightarrow> emits a P) \<Longrightarrow> (\<not> c \<Longrightarrow> emits b P) \<Longrightarrow> emits (if c then a else b) P"
  by simp

lemma grow_cap_ok:
  "1 \<le> c \<Longrightarrow> need \<le> 4611686018427387904 \<Longrightarrow> need \<le> c * 2 ^ k \<Longrightarrow> \<exists>c'. grow_cap (Suc k) c need = Ok c' \<and> need \<le> c'"
proof (induction k arbitrary: c)
  case (Suc k)
  show ?case
  proof (cases "c < need")
    case True
    then have "wrap64 (c * 2) = c * 2" using Suc.prems(2) by (simp add: wrap64_def)
    then show ?thesis using True Suc.IH[of "c * 2"] Suc.prems by (simp add: mult.assoc)
  qed simp
qed simp

lemma sb_grow_ok:
  assumes h: "heap \<le> 1152921504606846976" and n: "n \<le> 1152921504606846976" and sb: "sb_ok sb"
  shows "(\<exists>sb'. sb_grow heap n sb = (Err TP_ERR_ALLOC, sb')) \<or>
    (\<exists>sb'. sb_grow heap n sb = (Ok (), sb') \<and> sb_ok sb' \<and> sb_len sb' = sb_len sb \<and> sb_text sb' = sb_text sb \<and> sb_len sb + n \<le> sb_cap sb')"
proof -
  have w: "wrap64 (sb_len sb + n) = sb_len sb + n" using sb n by (simp add: sb_ok_def wrap64_def)
  show ?thesis
  proof (cases "sb_len sb + n \<le> sb_cap sb")
    case True
    then show ?thesis using sb w by (simp add: sb_grow_def)
  next
    case False
    let ?c = "if sb_cap sb = 0 then 256 else sb_cap sb"
    have c: "1 \<le> ?c" by simp
    have need: "sb_len sb + n \<le> 4611686018427387904" using sb n by (simp add: sb_ok_def)
    also have "\<dots> \<le> ?c * 2 ^ 65" using mult_le_mono1[OF c, of "2 ^ 65"] by simp
    finally obtain c' where c': "grow_cap 66 ?c (sb_len sb + n) = Ok c'" "sb_len sb + n \<le> c'"
      using grow_cap_ok[OF c need, of 65] by auto
    show ?thesis
    proof (cases "heap < c'")
      case True
      then show ?thesis using False w c' by (simp add: sb_grow_def sbind_def)
    next
      case lt: False
      have "sb_len sb \<le> length (sb_data sb)" "sb_len sb \<le> c'" using sb c'(2) by (simp_all add: sb_ok_def)
      then have "take (sb_len sb) (take c' (sb_data sb @ replicate c' 0)) = take (sb_len sb) (sb_data sb)" by (simp add: min_absorb1)
      then show ?thesis using False lt w c' h sb
        by (simp add: sb_grow_def sbind_def sb_ok_def sb_text_def)
    qed
  qed
qed

lemma sb_append_emits:
  assumes h: "heap \<le> 1152921504606846976" and n: "n \<le> length s" "n \<le> 1152921504606846976"
  shows "emits (sb_append heap s n) (\<lambda>t. t = take n s)"
proof (rule emitsI)
  fix sb assume sb: "sb_ok sb"
  from sb_grow_ok[OF h n(2) sb] show "(\<exists>e sb'. sb_append heap s n sb = (Err e, sb')) \<or>
      (\<exists>sb' t. sb_append heap s n sb = (Ok (), sb') \<and> sb_ok sb' \<and> t = take n s \<and> sb_text sb' = sb_text sb @ t)"
  proof (elim disjE exE conjE)
    fix sb1 assume 1: "sb_grow heap n sb = (Ok (), sb1)" "sb_ok sb1" "sb_len sb1 = sb_len sb" "sb_text sb1 = sb_text sb" "sb_len sb + n \<le> sb_cap sb1"
    then have "sb_len sb1 + n \<le> length (sb_data sb1)" by (simp add: sb_ok_def)
    then show ?thesis using 1 n sb by (simp add: sb_append_def sbind_def memcpy_def sb_ok_def sb_text_def)
  qed (simp add: sb_append_def sbind_def)
qed

section \<open>Strings and values\<close>

lemma control_escape:
  "c < 32 \<Longrightarrow> (\<exists>e \<in> {98, 102, 110, 114, 116}. escaped c = [92, e]) \<or>
    (escaped c = [92, 117, 48, 48, hex_char (drop_bit 4 c), hex_char (c AND 15)] \<and>
      list_all hex_byte [48, 48, hex_char (drop_bit 4 c), hex_char (c AND 15)])"
proof -
  have all: "\<forall>c \<in> set (map word_of_nat [0..<32]). list_all hex_byte [48, 48, hex_char (drop_bit 4 (c :: u8)), hex_char (c AND 15)]"
    by (simp add: upt_rec hex_char_def hex_byte_def isdigit_def)
  assume c: "c < 32"
  then have "unat c < 32" by (simp add: word_less_nat_alt)
  then have "c \<in> set (map word_of_nat [0..<32])" by (auto simp: image_iff intro!: bexI[of _ "unat c"])
  then have "list_all hex_byte [48, 48, hex_char (drop_bit 4 c), hex_char (c AND 15)]" using all by blast
  then show ?thesis using c by (auto simp: escaped_def)
qed

lemma escaped_ascii:
  assumes c: "c < 128" and t: "valid_chars mb t" shows "valid_chars mb (escaped c @ t)"
proof -
  consider (control) "c < 32" | (quote) "c = 34 \<or> c = 92" | (plain) "\<not> c < 32" "c \<noteq> 34" "c \<noteq> 92" by blast
  then show ?thesis
  proof cases
    case control
    from control_escape[OF this] show ?thesis
    proof (elim disjE bexE conjE)
      fix e :: u8 assume "e \<in> {98, 102, 110, 114, 116}" "escaped c = [92, e]"
      then show ?thesis using vc_escape[of e mb t] t by auto
    next
      assume "escaped c = [92, 117, 48, 48, hex_char (drop_bit 4 c), hex_char (c AND 15)]"
        "list_all hex_byte [48, 48, hex_char (drop_bit 4 c), hex_char (c AND 15)]"
      then show ?thesis using vc_unicode[of "[48, 48, hex_char (drop_bit 4 c), hex_char (c AND 15)]" mb t] t by simp
    qed
  next
    case quote
    then have "escaped c = [92, c]" "c \<in> {34, 92, 47, 98, 102, 110, 114, 116}" by (auto simp: escaped_def)
    then show ?thesis using vc_escape[of c mb t] t by simp
  next
    case plain
    then have "escaped c = [c]" by (auto simp: escaped_def)
    then show ?thesis using vc_plain[of c mb t] plain c t by (simp add: not_less)
  qed
qed

lemma escaped_high: "\<forall>c \<in> set u. 128 \<le> c \<Longrightarrow> concat (map escaped u) = u"
proof (induction u)
  case (Cons c u)
  then have "unat c \<ge> 128" by (simp add: word_le_nat_alt)
  then have "escaped c = [c]" by (auto simp: escaped_def word_less_nat_alt)
  then show ?case using Cons by simp
qed simp

lemma escape_loop_emits:
  assumes h: "heap \<le> 1152921504606846976"
  shows "i + k \<le> length str \<Longrightarrow> emits (escape_loop heap str k i) (\<lambda>t. t = concat (map escaped (take k (drop i str))))"
proof (induction k arbitrary: i)
  case 0
  show ?case unfolding escape_loop.simps by (rule emits_sret) simp
next
  case (Suc k)
  then have l: "load str i = Ok (str ! i)" by (simp add: load_def)
  have d: "take (Suc k) (drop i str) = str ! i # take k (drop (Suc i) str)" using Suc.prems by (simp add: Cons_nth_drop_Suc[symmetric])
  have "length (escaped (str ! i)) \<le> 1152921504606846976" by (simp add: escaped_def)
  then have a: "emits (sb_append heap (escaped (str ! i)) (length (escaped (str ! i)))) (\<lambda>t. t = escaped (str ! i))"
    using sb_append_emits[OF h le_refl] by simp
  have r: "emits (escape_loop heap str k (Suc i)) (\<lambda>t. t = concat (map escaped (take k (drop (Suc i) str))))" using Suc by simp
  show ?case unfolding d escape_loop.simps l sbind_slift_Ok
    by (rule emits_sbind[OF a]) (use r in simp_all)
qed

lemma appendc_emits: "heap \<le> 1152921504606846976 \<Longrightarrow> emits (sb_appendc heap c) (\<lambda>t. t = [c])"
  using sb_append_emits[of heap 1 "[c]"] by (simp add: sb_appendc_def)

lemma append_str_emits: "heap \<le> 1152921504606846976 \<Longrightarrow> length s \<le> 1152921504606846976 \<Longrightarrow> emits (sb_append_str heap s) (\<lambda>t. t = s)"
  using sb_append_emits[of heap "length s" s] by (simp add: sb_append_str_def)

definition quoted :: "u8 list \<Rightarrow> u8 list" where
  "quoted bs = 34 # concat (map escaped bs) @ [34]"

lemma json_string_emits:
  assumes h: "heap \<le> 1152921504606846976" and n: "n \<le> length str"
  shows "emits (sb_append_json_string heap str n) (\<lambda>t. t = quoted (take n str))"
proof -
  have l: "emits (escape_loop heap str n 0) (\<lambda>t. t = concat (map escaped (take n str)))" using escape_loop_emits[OF h, of 0 n str] n by simp
  have t: "emits (sbind (escape_loop heap str n 0) (\<lambda>_. sb_appendc heap 34)) (\<lambda>t. t = concat (map escaped (take n str)) @ [34])"
    by (rule emits_sbind[OF l appendc_emits[OF h]]) auto
  show ?thesis unfolding sb_append_json_string_def
    by (rule emits_sbind[OF appendc_emits[OF h] t]) (simp add: quoted_def)
qed

text \<open>Integers in decimal, without leading zeros.\<close>

lemma digit_char: "n < 10 \<Longrightarrow> isdigit (48 + word_of_nat n) \<and> (48 + word_of_nat n = (48 :: u8) \<longleftrightarrow> n = 0)"
proof -
  assume n: "n < 10"
  have "unat (48 + word_of_nat n :: u8) = 48 + n" using n by (simp add: unat_word_ariths unat_of_nat)
  then show ?thesis using n by (simp add: isdigit_def word_le_nat_alt word_unat_eq_iff)
qed

lemma decimal_ok: "digit_text (decimal n) \<and> (hd (decimal n) = 48 \<longleftrightarrow> n = 0)"
proof (induction n rule: decimal.induct)
  case (1 n)
  show ?case
  proof (cases "n < 10")
    case True
    then show ?thesis using digit_char[OF True] by (simp add: decimal.simps[of n] digit_text_def)
  next
    case False
    have "digit_text (decimal (n div 10))" "hd (decimal (n div 10)) = 48 \<longleftrightarrow> n div 10 = 0" using "1.IH"[OF False] by simp_all
    then show ?thesis using digit_char[of "n mod 10"] False
      by (simp add: decimal.simps[of n] digit_text_def)
  qed
qed

lemma decimal_integer: "integer_part (decimal n)"
  using decimal_ok[of n] by (auto simp: integer_part_def decimal.simps[of 0])

lemma integer_number: "sign_text sg \<Longrightarrow> integer_part ds \<Longrightarrow> valid_number (sg @ ds)"
  unfolding valid_number_def
  by (intro exI[of _ sg] exI[of _ ds] exI[of _ "[]"]) (simp add: fraction_text_def exponent_text_def)

lemma int_digits_ok:
  assumes "- 9223372036854775808 \<le> i" and "i \<le> 18446744073709551615"
  shows "valid_number (tmp64 (int_digits i))"
proof -
  have "nat i < 10 ^ 20" "nat (- i) < 10 ^ 20" using assms by simp_all
  then have len: "length (decimal (nat i)) \<le> 20" "length (decimal (nat (- i))) \<le> 20" using decimal_length[of _ 20] by fastforce+
  then have t: "tmp64 (int_digits i) = int_digits i" by (simp add: tmp64_def int_digits_def)
  show ?thesis unfolding t
    using integer_number[of "[]", OF _ decimal_integer[of "nat i"]] integer_number[of "[45]", OF _ decimal_integer[of "nat (- i)"]]
    by (simp add: sign_text_def int_digits_def)
qed

text \<open>What \<open>snprintf\<close> promises: the text of a finite value is a number in decimal or exponent form, and
  \<open>%g\<close> prints at most six significant digits.\<close>

definition finite32 :: "u32 \<Rightarrow> bool" where
  "finite32 b \<longleftrightarrow> drop_bit 23 b AND 0xFF \<noteq> 0xFF"

definition finite64 :: "u64 \<Rightarrow> bool" where
  "finite64 b \<longleftrightarrow> drop_bit 52 b AND 0x7FF \<noteq> 0x7FF"

definition formats :: "printf_text \<Rightarrow> bool" where
  "formats fmt \<longleftrightarrow>
     (\<forall>b. finite32 b \<longrightarrow> valid_number (g_text fmt b) \<and> length (g_text fmt b) \<le> 16) \<and>
     (\<forall>b. finite64 b \<longrightarrow> valid_number (g17_text fmt b) \<and> length (g17_text fmt b) < 64)"

lemma point_zero:
  assumes t: "valid_number t" and no: "46 \<notin> set t" "101 \<notin> set t" "69 \<notin> set t" shows "valid_number (t @ [46, 48])"
proof -
  obtain sg ds fr ex where n: "t = sg @ ds @ fr @ ex" "sign_text sg" "integer_part ds" "fraction_text fr" "exponent_text ex"
    using t by (auto simp: valid_number_def)
  have "fr = []" "ex = []" using n no by (auto simp: fraction_text_def exponent_text_def)
  moreover have "fraction_text [46, 48]" by (simp add: fraction_text_def digit_text_def isdigit_def)
  ultimately show ?thesis unfolding valid_number_def
    by (intro exI[of _ sg] exI[of _ ds] exI[of _ "[46, 48]"] exI[of _ "[]"]) (use n in simp)
qed

lemma float_text_number:
  assumes "valid_number (g_text fmt b)" and "length (g_text fmt b) \<le> 16"
  shows "valid_number (float_text fmt b) \<and> length (float_text fmt b) \<le> 63"
proof -
  let ?t = "g_text fmt b"
  have t: "tmp64 ?t = ?t" "tmp64 (?t @ [46, 48]) = ?t @ [46, 48]" using assms(2) by (simp_all add: tmp64_def)
  show ?thesis
  proof (cases "46 \<notin> set ?t \<and> 101 \<notin> set ?t \<and> 69 \<notin> set ?t")
    case True
    then have "valid_number (?t @ [46, 48])" using assms(1) by (intro point_zero) simp_all
    then show ?thesis using True t assms(2) by (simp add: float_text_def Let_def)
  next
    case False
    then have "float_text fmt b = ?t" using t by (auto simp: float_text_def Let_def)
    then show ?thesis using assms by simp
  qed
qed

text \<open>Values that print as JSON: finite numbers, strings that lie in their memory.\<close>

definition printable :: "tp_value \<Rightarrow> bool" where
  "printable v \<longleftrightarrow>
     (case v of
        TP_FLOAT32 b \<Rightarrow> finite32 b
      | TP_FLOAT64 b \<Rightarrow> finite64 b
      | TP_STRING (Some s) n \<Rightarrow> n \<le> length s
      | _ \<Rightarrow> True)"

text \<open>Keys and strings made of units.\<close>

definition spelled_value :: "(u8 list \<Rightarrow> bool) \<Rightarrow> tp_value \<Rightarrow> bool" where
  "spelled_value mb v \<longleftrightarrow> (\<forall>s n. v = TP_STRING (Some s) n \<longrightarrow> units mb (take n s))"

definition spelled :: "(u8 list \<Rightarrow> bool) \<Rightarrow> flat_entry \<Rightarrow> bool" where
  "spelled mb e \<longleftrightarrow> units mb (take (f_key_len e) (f_key e)) \<and> spelled_value mb (f_val e)"

lemma text_emits:
  assumes "heap \<le> 1152921504606846976" and "P s" and "length s \<le> 64" shows "emits (sb_append_str heap s) P"
  by (rule emits_mono[OF append_str_emits[OF assms(1)]]) (use assms in simp_all)

context coding
begin

lemma escaped_units: "units mb bs \<Longrightarrow> valid_chars mb (concat (map escaped bs))"
proof (induction rule: units.induct)
  case (units_ascii c t)
  then show ?case using escaped_ascii by simp
next
  case (units_multi u t)
  then have "concat (map escaped u) = u" using mb_high by (intro escaped_high) blast
  then show ?case using vc_multi[of mb u, OF units_multi.hyps(1) units_multi.IH] by simp
qed (simp add: vc_none)

lemma quoted_string: "units mb bs \<Longrightarrow> valid_string mb (quoted bs)"
  using escaped_units by (auto simp: valid_string_def quoted_def)

lemma value_emits:
  assumes h: "heap \<le> 1152921504606846976" and f: "formats fmt" and v: "printable v" and sp: "spelled_value mb v"
  shows "emits (sb_append_value fmt heap v) (valid_json mb)"
proof (cases v)
  case (TP_STRING p n)
  show ?thesis
  proof (cases p)
    case None
    have "valid_json mb [34, 34]" using v_string[OF quoted_string[OF units_none]] by (simp add: quoted_def)
    then show ?thesis using TP_STRING None by (simp add: sb_append_value_def text_emits[OF h])
  next
    case (Some s)
    then have n: "n \<le> length s" and u: "units mb (take n s)" using TP_STRING v sp by (simp_all add: printable_def spelled_value_def)
    show ?thesis unfolding TP_STRING Some sb_append_value_def tp_value.case option.case
      by (rule emits_mono[OF json_string_emits[OF h n]]) (use v_string[OF quoted_string[OF u]] in simp)
  qed
next
  case (TP_INT i)
  have "- 9223372036854775808 \<le> sint i" "sint i \<le> 18446744073709551615" using sint_ge[of i] sint_lt[of i] by simp_all
  from v_number[OF int_digits_ok[OF this], of mb] show ?thesis by (simp add: TP_INT sb_append_value_def text_emits[OF h] tmp64_def)
next
  case (TP_UINT u)
  have "- 9223372036854775808 \<le> uint u" by (rule order_trans[of _ 0]) simp_all
  moreover have "uint u \<le> 18446744073709551615" using uint_bounded[of u] by simp
  ultimately have "valid_json mb (tmp64 (int_digits (uint u)))" by (intro v_number int_digits_ok)
  then show ?thesis by (simp add: TP_UINT sb_append_value_def text_emits[OF h] tmp64_def)
next
  case (TP_FLOAT32 b)
  then have "valid_number (g_text fmt b)" "length (g_text fmt b) \<le> 16" using f v by (simp_all add: formats_def printable_def)
  from float_text_number[OF this] v_number[of "float_text fmt b" mb] show ?thesis
    by (simp add: TP_FLOAT32 sb_append_value_def text_emits[OF h])
next
  case (TP_FLOAT64 b)
  then have t: "valid_number (g17_text fmt b)" "length (g17_text fmt b) < 64" using f v by (simp_all add: formats_def printable_def)
  then have "tmp64 (g17_text fmt b) = g17_text fmt b" by (simp add: tmp64_def)
  then show ?thesis using t v_number[of "g17_text fmt b" mb] by (simp add: TP_FLOAT64 sb_append_value_def text_emits[OF h])
qed (auto simp: sb_append_value_def v_null v_true v_false intro!: text_emits[OF h])

end

section \<open>Lists of members and elements\<close>

text \<open>One element of an array or one member of an object, and a sequence of them.\<close>

definition one_text :: "(u8 list \<Rightarrow> bool) \<Rightarrow> bool \<Rightarrow> u8 list \<Rightarrow> bool" where
  "one_text mb is_array u \<longleftrightarrow>
     (if is_array then valid_json mb u
      else \<exists>kt w vt. valid_string mb kt \<and> ws w \<and> valid_json mb vt \<and> u = kt @ 58 # w @ vt)"

definition list_text :: "(u8 list \<Rightarrow> bool) \<Rightarrow> bool \<Rightarrow> u8 list \<Rightarrow> bool" where
  "list_text mb is_array u \<longleftrightarrow> (if is_array then valid_elements mb u else valid_members mb u)"

lemma list_one: "one_text mb a u \<Longrightarrow> list_text mb a u"
proof (cases a)
  case True
  assume "one_text mb a u"
  then have "valid_json mb u" using True by (simp add: one_text_def)
  from v_element[OF this, of "[]"] show ?thesis using True by (simp add: list_text_def)
next
  case False
  assume "one_text mb a u"
  then obtain kt w vt where u: "valid_string mb kt" "ws w" "valid_json mb vt" "u = kt @ 58 # w @ vt"
    using False by (auto simp: one_text_def)
  from v_member[OF u(1) _ u(2,3), of "[]" "[]"] show ?thesis using False u(4) by (simp add: list_text_def)
qed

lemma list_more: "one_text mb a u \<Longrightarrow> ws w \<Longrightarrow> list_text mb a t \<Longrightarrow> list_text mb a (u @ 44 # w @ t)"
proof (cases a)
  case True
  assume o: "one_text mb a u" "ws w" "list_text mb a t"
  then have v: "valid_json mb u" "valid_elements mb t" using True by (simp_all add: one_text_def list_text_def)
  from v_elements[OF v(1) _ o(2) v(2), of "[]"] show ?thesis using True by (simp add: list_text_def)
next
  case False
  assume o: "one_text mb a u" "ws w" "list_text mb a t"
  then obtain kt w2 vt where u: "valid_string mb kt" "ws w2" "valid_json mb vt" "u = kt @ 58 # w2 @ vt" and m: "valid_members mb t"
    using False by (auto simp: one_text_def list_text_def)
  from v_members[OF u(1) _ u(2,3) _ o(2) m, of "[]" "[]"] show ?thesis using False u(4) by (simp add: list_text_def)
qed

lemma sequence_ws:
  assumes w: "ws w"
  shows "valid_json mb t \<Longrightarrow> True" and "valid_members mb t \<Longrightarrow> valid_members mb (t @ w)"
    and "valid_elements mb t \<Longrightarrow> valid_elements mb (t @ w)"
proof (induction rule: valid_json_valid_members_valid_elements.inducts)
  case (v_member kt w1 w2 vt w3)
  then show ?case using valid_json_valid_members_valid_elements.v_member[of mb kt w1 w2 vt "w3 @ w"] w by simp
next
  case (v_members kt w1 w2 vt w3 w4 t)
  then show ?case using valid_json_valid_members_valid_elements.v_members[of mb kt w1 w2 vt w3 w4 "t @ w"] by simp
next
  case (v_element vt w1)
  then show ?case using valid_json_valid_members_valid_elements.v_element[of mb vt "w1 @ w"] w by simp
next
  case (v_elements vt w1 w2 t)
  then show ?case using valid_json_valid_members_valid_elements.v_elements[of mb vt w1 w2 "t @ w"] by simp
qed simp_all

lemma list_close:
  assumes "list_text mb a u" and "ws w" and "ws w'"
  shows "valid_json mb ((if a then 91 else 123) # w @ u @ w' @ [if a then 93 else 125])"
proof (cases a)
  case True
  then have "valid_elements mb u" using assms(1) by (simp add: list_text_def)
  from v_array[OF assms(2) sequence_ws(3)[OF assms(3) this]] show ?thesis using True by simp
next
  case False
  then have "valid_members mb u" using assms(1) by (simp add: list_text_def)
  from v_object[OF assms(2) sequence_ws(2)[OF assms(3) this]] show ?thesis using False by simp
qed

lemma list_empty: "valid_json mb ((if a then 91 else 123) # [if a then 93 else 125])"
  using v_no_elements[of "[]" mb] v_no_members[of "[]" mb] by simp

section \<open>One level of the tree\<close>

definition ent_ok :: "flat_entry \<Rightarrow> bool" where
  "ent_ok e \<longleftrightarrow> length (f_key e) = Suc (f_key_len e) \<and> f_key_len e \<le> 4094 \<and> printable (f_val e)"

text \<open>An indentation is a string of white space.\<close>

definition indent_ok :: "ptr \<Rightarrow> bool" where
  "indent_ok indent \<longleftrightarrow> (\<forall>ind. indent = Some ind \<longrightarrow> (\<exists>n. strlen ind = Some n \<and> n \<le> 1152921504606846976 \<and> ws (take n ind)))"

lemma for_each_emits:
  assumes m: "\<And>x. x \<in> set xs \<Longrightarrow> emits (m x) ws" shows "emits (for_each m xs) ws"
  using m
proof (induction xs)
  case Nil
  have "for_each m [] = sret ()" by (simp add: fun_eq_iff)
  then show ?case by (simp add: emits_sret del: sret_apply)
next
  case (Cons x xs)
  have "for_each m (x # xs) = sbind (m x) (\<lambda>_. for_each m xs)" by (simp add: fun_eq_iff)
  moreover have "emits (sbind (m x) (\<lambda>_. for_each m xs)) ws" by (rule emits_sbind[of _ ws _ ws]) (use Cons in simp_all)
  ultimately show ?case by simp
qed

lemma indent_emits:
  assumes h: "heap \<le> 1152921504606846976" and i: "indent_ok indent" shows "emits (emit_indent heap indent dep) ws"
proof (cases indent)
  case None
  then show ?thesis unfolding emit_indent_def by (simp add: emits_sret del: sret_apply)
next
  case (Some ind)
  then obtain n where n: "strlen ind = Some n" "n \<le> 1152921504606846976" "ws (take n ind)" using i by (auto simp: indent_ok_def)
  have "n \<le> length ind" using strlen_Some[OF n(1)] by simp
  then have a: "emits (sb_append heap ind n) ws" by (rule emits_mono[OF sb_append_emits[OF h _ n(2)]]) (simp add: n(3))
  have l: "emits (for_each (\<lambda>_. sb_append heap ind n) [0..<dep]) ws" by (rule for_each_emits[OF a])
  show ?thesis unfolding emit_indent_def Some option.case n(1)
    by (rule emits_sbind[OF appendc_emits[OF h] l]) (simp add: is_ws_def)
qed

lemma segment_end_le: "pos \<le> key_len \<Longrightarrow> pos \<le> segment_end stop key key_len pos \<and> segment_end stop key key_len pos \<le> key_len"
proof (induction stop key key_len pos rule: segment_end.induct)
  case (1 stop key key_len pos)
  show ?case
  proof (cases "pos < key_len \<and> \<not> stop (key ! pos)")
    case True
    then show ?thesis using "1.IH"[OF True] by (simp add: segment_end.simps[of stop key key_len pos])
  next
    case False
    then show ?thesis using "1.prems" by (auto simp: segment_end.simps[of stop key key_len pos])
  qed
qed

lemma next_segment_le: "fst (next_segment key key_len pos) \<le> key_len - pos"
  using segment_end_le[of "pos + 1" key_len] segment_end_le[of pos key_len]
  by (auto simp: next_segment_def Let_def intro: diff_le_mono)

lemma returns_fold_res:
  assumes step: "\<And>x b. x \<in> set xs \<Longrightarrow> I b \<Longrightarrow> returns (f x b) I" shows "I b \<Longrightarrow> returns (fold_res f xs b) I"
  using step
proof (induction xs arbitrary: b)
  case (Cons x xs)
  have "returns (f x b) I" using Cons.prems by simp
  then show ?case using Cons.prems by (auto intro!: returns_rbind[OF _ Cons.IH])
qed simp

definition segment_ok :: "flat_entry list \<Rightarrow> u8 list \<Rightarrow> nat \<Rightarrow> nat \<Rightarrow> bool" where
  "segment_ok entries prefix n i \<longleftrightarrow> i < length entries \<and> deeper prefix n (entries ! i) \<and> 0 < fst (segment_of n (entries ! i))"

lemma collect_returns:
  "returns (fold_res (collect_step heap entries prefix n) [0..<length entries] ([], 0)) (\<lambda>(segs, _). \<forall>i \<in> set segs. segment_ok entries prefix n i)"
  by (rule returns_fold_res) (auto simp: collect_step_def Let_def segment_ok_def split: prod.splits)

lemma deeper_le:
  assumes "deeper prefix n e" shows "n \<le> segment_pos n e" and "segment_pos n e \<le> Suc n"
    and "segment_pos n e + fst (segment_of n e) \<le> f_key_len e"
  using assms next_segment_le[of "f_key e" "f_key_len e" "segment_pos n e"]
  by (auto simp: deeper_def segment_of_def segment_pos_def)

text \<open>The bytes of a segment.\<close>

lemma segment_end_stops: "segment_end stop key key_len pos < key_len \<Longrightarrow> stop (key ! segment_end stop key key_len pos)"
proof (induction stop key key_len pos rule: segment_end.induct)
  case (1 stop key key_len pos)
  show ?case
  proof (cases "pos < key_len \<and> \<not> stop (key ! pos)")
    case True
    then show ?thesis using "1.IH"[OF True] "1.prems" by (simp add: segment_end.simps[of stop key key_len pos])
  next
    case False
    then have "segment_end stop key key_len pos = pos" by (auto simp: segment_end.simps[of stop key key_len pos])
    then show ?thesis using "1.prems" False by simp
  qed
qed

definition segment_bytes :: "nat \<Rightarrow> flat_entry \<Rightarrow> u8 list" where
  "segment_bytes n e = take (fst (segment_of n e)) (drop (segment_pos n e) (f_key e))"

lemma deeper_prefix:
  assumes "deeper prefix n e" and "length (f_key e) = Suc (f_key_len e)" and "0 < n \<longrightarrow> n \<le> length prefix"
  shows "take n (f_key e) = take n prefix" and "n \<le> f_key_len e"
proof -
  show le: "n \<le> f_key_len e" using assms(1) by (simp add: deeper_def below_def)
  show "take n (f_key e) = take n prefix"
  proof (cases "n = 0")
    case False
    then have "memcmp (f_key e) prefix n = 0" using assms(1) by (simp add: deeper_def below_def)
    then show ?thesis using memcmp_take[of n "f_key e" prefix] assms(2,3) le False by simp
  qed simp
qed

context coding
begin

lemma segment_units:
  assumes d: "deeper prefix n e" and len: "length (f_key e) = Suc (f_key_len e)" and p: "0 < n \<longrightarrow> n \<le> length prefix"
    and u: "units mb (take (f_key_len e) (f_key e))" "units mb (take n prefix)"
  shows "units mb (segment_bytes n e)"
proof -
  let ?l = "f_key_len e" and ?sp = "segment_pos n e" and ?sl = "fst (segment_of n e)"
  let ?K = "take ?l (f_key e)" let ?R = "drop ?sp ?K"
  note dp = deeper_prefix[OF d len p] and le = deeper_le[OF d]
  have sp: "?sp < ?l" using d by (simp add: deeper_def)
  have K: "length ?K = ?l" using len by simp
  have nth: "?K ! j = f_key e ! j" if "j < ?l" for j using that by simp
  have "take n ?K = take n prefix" using dp by (simp add: min_absorb1)
  then have "units mb (take n prefix @ drop n ?K)" using u(1) append_take_drop_id[of n ?K] by simp
  then have dn: "units mb (drop n ?K)" by (rule units_drop[OF u(2)])
  have R: "units mb ?R"
  proof (cases "n < ?l \<and> f_key e ! n = 46")
    case True
    then have "drop n ?K = 46 # drop (Suc n) ?K" using K nth[of n] by (metis Cons_nth_drop_Suc)
    then have "units mb (drop (Suc n) ?K)" using dn units_ascii_tail[of 46] by simp
    then show ?thesis using True by (simp add: segment_pos_def)
  next
    case False
    then have "?sp = n" by (auto simp: segment_pos_def)
    then show ?thesis using dn by simp
  qed
  have bytes: "segment_bytes n e = take ?sl ?R"
    unfolding segment_bytes_def using le(3) by (simp add: drop_take min_absorb1)
  have cut: "units mb (take (q - ?sp) ?R)" if q: "?sp \<le> q" "q < ?l" "f_key e ! q < 128" for q
  proof (rule units_before)
    have "?R = take (q - ?sp) ?R @ drop (q - ?sp) ?R" by (rule append_take_drop_id[symmetric])
    also have "drop (q - ?sp) ?R = drop q ?K" using q(1) by simp
    also have "drop q ?K = f_key e ! q # drop (Suc q) ?K" using Cons_nth_drop_Suc[of q ?K] q(2) K nth[OF q(2)] by simp
    finally show "units mb (take (q - ?sp) ?R @ f_key e ! q # drop (Suc q) ?K)" using R by simp
  qed fact
  have whole: "take (?l - ?sp) ?R = ?R" by simp
  show ?thesis
  proof (cases "f_key e ! ?sp = 91")
    case True
    let ?q = "segment_end (\<lambda>c. c = 93) (f_key e) ?l (?sp + 1)"
    have q: "?sp + 1 \<le> ?q" "?q \<le> ?l" using segment_end_le[of "?sp + 1" ?l] sp by auto
    have sl: "?sl = (if ?q < ?l then ?q + 1 else ?q) - ?sp"
      using sp True by (simp add: segment_of_def next_segment_def Let_def)
    show ?thesis
    proof (cases "?q < ?l")
      case lt: True
      have c: "f_key e ! ?q = 93" using segment_end_stops[OF lt] .
      have l: "?q - ?sp < length ?R" using lt q K by simp
      have "?R ! (?q - ?sp) = 93" using lt q c K by (simp add: nth_drop)
      then have "take (Suc (?q - ?sp)) ?R = take (?q - ?sp) ?R @ [93]" using take_Suc_conv_app_nth[OF l] by simp
      moreover have "?sl = Suc (?q - ?sp)" using sl lt q by simp
      moreover have "units mb [93]" by (intro units_ascii units_none) simp
      moreover have "units mb (take (?q - ?sp) ?R)" using q lt c by (intro cut) simp_all
      ultimately show ?thesis unfolding bytes using units_append by simp
    next
      case False
      then have "?sl = ?l - ?sp" using sl q by simp
      then show ?thesis unfolding bytes using R whole by simp
    qed
  next
    case False
    let ?q = "segment_end (\<lambda>c. c = 46 \<or> c = 91) (f_key e) ?l ?sp"
    have q: "?sp \<le> ?q" "?q \<le> ?l" using segment_end_le[of ?sp ?l] sp by auto
    have sl: "?sl = ?q - ?sp" using sp False by (simp add: segment_of_def next_segment_def Let_def)
    show ?thesis
    proof (cases "?q < ?l")
      case lt: True
      have "f_key e ! ?q < 128" using segment_end_stops[OF lt] by auto
      then show ?thesis unfolding bytes sl using q(1) lt by (intro cut)
    next
      case False
      then have "?sl = ?l - ?sp" using sl q by simp
      then show ?thesis unfolding bytes using R whole by simp
    qed
  qed
qed

end

lemma new_prefix_returns:
  assumes e: "ent_ok se" and d: "deeper prefix n se" and sl: "0 < fst (segment_of n se)" and p: "0 < n \<longrightarrow> n \<le> length prefix"
  shows "returns (new_prefix a prefix n se) (\<lambda>(np, m). length np = 4096 \<and> n < m \<and> m \<le> 4095 \<and>
    take m np = take n prefix @ (if 0 < n \<and> \<not> a then [46] else []) @ segment_bytes n se)"
proof -
  let ?sp = "segment_pos n se" and ?sl = "fst (segment_of n se)"
  note le = deeper_le[OF d]
  have k: "f_key_len se \<le> 4094" "length (f_key se) = Suc (f_key_len se)" using e by (simp_all add: ent_ok_def)
  then have room: "n + 1 + ?sl \<le> 4095" "?sl \<le> length (drop ?sp (f_key se))" using le by simp_all
  have m: "min (Suc (f_key_len se) - ?sp) ?sl = ?sl" using room(2) k by simp
  show ?thesis
  proof (cases "n = 0")
    case True
    then show ?thesis using room sl m k
      by (simp add: new_prefix_def Let_def memcpy_def store_def segment_bytes_def)
  next
    case False
    have dot: "take (Suc n) ((take n prefix @ replicate (4096 - n) 0)[n := 46]) = take n prefix @ [46 :: u8]"
    proof -
      obtain r where "4096 - n = Suc r" using room by (cases "4096 - n") simp_all
      then show ?thesis using False p by (simp add: list_update_append)
    qed
    then show ?thesis using room sl p m k False
      by (simp add: new_prefix_def Let_def memcpy_def store_def segment_bytes_def)
  qed
qed

text \<open>The text of one segment: separator, white space, the quoted name when the level is an object, and a text
  for its value.\<close>

definition member_text :: "bool \<Rightarrow> bool \<Rightarrow> u8 list \<Rightarrow> u8 list \<Rightarrow> u8 list \<Rightarrow> bool" where
  "member_text first is_array name vt t \<longleftrightarrow>
     (\<exists>w w'. ws w \<and> ws w' \<and>
        t = (if first then [] else [44]) @ w @ (if is_array then [] else quoted name @ 58 # w') @ vt)"

lemma member_emits:
  assumes h: "heap \<le> 1152921504606846976" and ind: "indent_ok indent" and se: "ent_ok (entries ! start)" "deeper prefix n (entries ! start)"
    and v: "emits (sbind (slift (new_prefix a prefix n (entries ! start))) (\<lambda>(np, m). case leaf_at entries np m of
       Some v \<Rightarrow> if \<not> has_children entries np m then sb_append_value fmt heap v else sub np m
     | None \<Rightarrow> sub np m)) P"
  shows "emits (emit_segment fmt heap entries prefix n indent dep a sub s start)
    (\<lambda>t. \<exists>u. P u \<and> member_text (s = 0) a (segment_bytes n (entries ! start)) u t)"
proof -
  let ?se = "entries ! start"
  let ?key = "drop (segment_pos n ?se) (f_key ?se)" and ?sl = "fst (segment_of n ?se)"
  let ?val = "sbind (slift (new_prefix a prefix n ?se)) (\<lambda>(np, m). case leaf_at entries np m of
       Some v \<Rightarrow> if \<not> has_children entries np m then sb_append_value fmt heap v else sub np m
     | None \<Rightarrow> sub np m)"
  have kl: "?sl \<le> length ?key" using deeper_le[OF se(2)] se(1) by (simp add: ent_ok_def)
  let ?kp = "sbind (sb_append_json_string heap ?key ?sl) (\<lambda>_. sbind (sb_appendc heap 58) (\<lambda>_. if indent \<noteq> None then sb_appendc heap 32 else sret ()))"
  have sp: "emits (if indent \<noteq> None then sb_appendc heap 32 else sret ()) ws"
    by (rule emits_if, rule emits_mono[OF appendc_emits[OF h]]) (simp_all add: is_ws_def emits_sret del: sret_apply)
  have "emits (sbind (sb_appendc heap 58) (\<lambda>_. if indent \<noteq> None then sb_appendc heap 32 else sret ())) (\<lambda>t. \<exists>w. t = 58 # w \<and> ws w)"
    by (rule emits_sbind[OF appendc_emits[OF h]], rule sp, simp)
  then have kp: "emits ?kp (\<lambda>t. \<exists>w. ws w \<and> t = quoted (segment_bytes n ?se) @ 58 # w)"
    by (rule emits_sbind[OF json_string_emits[OF h kl]]) (auto simp: segment_bytes_def)
  let ?Q = "\<lambda>t. \<exists>u w'. P u \<and> ws w' \<and> t = (if a then [] else quoted (segment_bytes n ?se) @ 58 # w') @ u"
  have kv: "emits (sbind (if a then sret () else ?kp) (\<lambda>_. ?val)) ?Q"
  proof (cases a)
    case True
    have "emits ?val ?Q"
    proof (rule emits_mono[OF v])
      fix t assume "P t"
      then show "?Q t" using True by (intro exI[of _ t] exI[of _ "[]"]) simp
    qed
    then show ?thesis using True by simp
  next
    case False
    have "emits (sbind ?kp (\<lambda>_. ?val)) ?Q"
      by (rule emits_sbind[OF kp v]) (use False in auto)
    then show ?thesis using False by simp
  qed
  have iw: "emits (if indent \<noteq> None then emit_indent heap indent (dep + 1) else sret ()) ws"
    by (rule emits_if[OF indent_emits[OF h ind] emits_sret]) simp
  have ikv: "emits (sbind (if indent \<noteq> None then emit_indent heap indent (dep + 1) else sret ()) (\<lambda>_. sbind (if a then sret () else ?kp) (\<lambda>_. ?val)))
      (\<lambda>t. \<exists>w u. t = w @ u \<and> ws w \<and> ?Q u)"
    by (rule emits_sbind[OF iw], rule kv, blast)
  have c: "emits (if s > 0 then sb_appendc heap 44 else sret ()) (\<lambda>t. t = (if s = 0 then [] else [44]))"
    by (rule emits_if, rule emits_mono[OF appendc_emits[OF h]]) (simp_all add: emits_sret del: sret_apply)
  show ?thesis unfolding emit_segment_def Let_def
  proof (rule emits_sbind[OF c], rule ikv)
    fix t0 t :: "u8 list"
    assume t0: "t0 = (if s = 0 then [] else [44])" and "\<exists>w u. t = w @ u \<and> ws w \<and> ?Q u"
    then obtain w u w' where "t = w @ (if a then [] else quoted (segment_bytes n ?se) @ 58 # w') @ u" "ws w" "P u" "ws w'" by blast
    then show "\<exists>u. P u \<and> member_text (s = 0) a (segment_bytes n ?se) u (t0 @ t)"
      unfolding member_text_def t0 by blast
  qed
qed

context coding
begin

lemma item_emits:
  assumes h: "heap \<le> 1152921504606846976" and f: "formats fmt" and ind: "indent_ok indent" and ents: "\<forall>e \<in> set entries. ent_ok e \<and> spelled mb e"
    and seg: "segment_ok entries prefix n start" and p: "0 < n \<longrightarrow> n \<le> length prefix" "units mb (take n prefix)"
    and sub: "\<And>np m. length np = 4096 \<Longrightarrow> n < m \<Longrightarrow> m \<le> 4095 \<Longrightarrow> units mb (take m np) \<Longrightarrow> emits (sub np m) (valid_json mb)"
  shows "emits (emit_segment fmt heap entries prefix n indent dep a sub s start)
    (\<lambda>t. \<exists>w u. t = (if s > 0 then [44] else []) @ w @ u \<and> ws w \<and> one_text mb a u)"
proof -
  let ?se = "entries ! start"
  have se: "ent_ok ?se" "deeper prefix n ?se" "0 < fst (segment_of n ?se)" "spelled mb ?se" using seg ents by (simp_all add: segment_ok_def)
  have sg: "units mb (segment_bytes n ?se)"
    using se p by (intro segment_units) (simp_all add: ent_ok_def spelled_def)
  let ?val = "sbind (slift (new_prefix a prefix n ?se)) (\<lambda>(np, m). case leaf_at entries np m of
       Some v \<Rightarrow> if \<not> has_children entries np m then sb_append_value fmt heap v else sub np m
     | None \<Rightarrow> sub np m)"
  have leaf: "printable v" "spelled_value mb v" if "leaf_at entries np m = Some v" for np m v
    using that ents by (auto simp: leaf_at_def find_Some_iff ent_ok_def spelled_def)
  have val: "emits ?val (valid_json mb)"
  proof (rule emits_slift[OF new_prefix_returns[OF se(1-3) p(1)]], clarify)
    fix np :: "u8 list" and m assume m: "length np = 4096" "n < m" "m \<le> 4095"
      and np: "take m np = take n prefix @ (if 0 < n \<and> \<not> a then [46] else []) @ segment_bytes n ?se"
    have "units mb (if 0 < n \<and> \<not> a then [46] else [])" by (simp add: units_none units_ascii)
    then have u: "units mb (take m np)" unfolding np by (intro units_append p(2) sg)
    show "emits (case leaf_at entries np m of Some v \<Rightarrow> if \<not> has_children entries np m then sb_append_value fmt heap v else sub np m
        | None \<Rightarrow> sub np m) (valid_json mb)"
      using sub[OF m u] value_emits[OF h f leaf] by (auto split: option.split)
  qed
  have one: "one_text mb a ((if a then [] else quoted (segment_bytes n ?se) @ 58 # w') @ u)" if "ws w'" "valid_json mb u" for w' u
    using that quoted_string[OF sg] by (auto simp: one_text_def)
  from member_emits[where sub = sub, OF h ind se(1,2) val] show ?thesis
  proof (rule emits_mono)
    fix t assume "\<exists>u. valid_json mb u \<and> member_text (s = 0) a (segment_bytes n ?se) u t"
    then obtain u w w' where "t = (if s = 0 then [] else [44]) @ w @ (if a then [] else quoted (segment_bytes n ?se) @ 58 # w') @ u"
      "ws w" "ws w'" "valid_json mb u" unfolding member_text_def by blast
    with one show "\<exists>w u. t = (if s > 0 then [44] else []) @ w @ u \<and> ws w \<and> one_text mb a u"
      by (intro exI[of _ w] exI[of _ "(if a then [] else quoted (segment_bytes n ?se) @ 58 # w') @ u"]) simp
  qed
qed

end

text \<open>The loop over the segments: nothing when there are none, otherwise a sequence.\<close>

lemma segments_emits:
  assumes seg: "\<And>s start. start \<in> set starts \<Longrightarrow> emits (seg s start)
      (\<lambda>t. \<exists>w u. t = (if s > 0 then [44] else []) @ w @ u \<and> ws w \<and> one_text mb a u)"
  shows "emits (emit_segments seg s starts)
    (\<lambda>t. if starts = [] then t = [] else \<exists>w u. t = (if s > 0 then [44] else []) @ w @ u \<and> ws w \<and> list_text mb a u)"
  using seg
proof (induction starts arbitrary: s)
  case Nil
  show ?case unfolding emit_segments.simps by (rule emits_sret) simp
next
  case (Cons start starts)
  have tail: "emits (emit_segments seg (s + 1) starts)
      (\<lambda>t. if starts = [] then t = [] else \<exists>w u. t = (if s + 1 > 0 then [44] else []) @ w @ u \<and> ws w \<and> list_text mb a u)"
    by (rule Cons.IH) (use Cons.prems in simp)
  have one: "emits (seg s start) (\<lambda>t. \<exists>w u. t = (if s > 0 then [44] else []) @ w @ u \<and> ws w \<and> one_text mb a u)"
    using Cons.prems by simp
  have comp: "\<exists>w u. t @ v = (if s > 0 then [44] else []) @ w @ u \<and> ws w \<and> list_text mb a u"
    if t: "\<exists>w u. t = (if s > 0 then [44] else []) @ w @ u \<and> ws w \<and> one_text mb a u"
      and v: "if starts = [] then v = [] else \<exists>w u. v = (if s + 1 > 0 then [44] else []) @ w @ u \<and> ws w \<and> list_text mb a u" for t v
  proof -
    obtain w u where u: "t = (if s > 0 then [44] else []) @ w @ u" "ws w" "one_text mb a u" using t by blast
    show ?thesis
    proof (cases "starts = []")
      case True
      then show ?thesis using u v list_one by fastforce
    next
      case False
      then obtain w' u' where v': "v = 44 # w' @ u'" "ws w'" "list_text mb a u'" using v by auto
      from list_more[OF u(3) v'(2,3)] show ?thesis using u v'(1) by fastforce
    qed
  qed
  show ?case unfolding emit_segments.simps
    by (rule emits_sbind[OF one], rule tail) (use comp in simp)
qed

text \<open>A level with entries below it is printed as a list.\<close>

definition level_text :: "(u8 list \<Rightarrow> bool) \<Rightarrow> bool \<Rightarrow> u8 list \<Rightarrow> bool" where
  "level_text mb deep t \<longleftrightarrow> valid_json mb t \<and> (deep \<longrightarrow> (\<exists>u. t = 91 # u \<or> t = 123 # u))"

context coding
begin

lemma emit_json_level:
  assumes h: "heap \<le> 1152921504606846976" and f: "formats fmt" and ind: "indent_ok indent" and ents: "\<forall>e \<in> set entries. ent_ok e \<and> spelled mb e"
  shows "n \<le> 4095 \<Longrightarrow> 4096 \<le> fuel + n \<Longrightarrow> 0 < n \<longrightarrow> n \<le> length prefix \<Longrightarrow> units mb (take n prefix) \<Longrightarrow>
    emits (emit_json fuel fmt heap entries indent prefix n dep) (level_text mb (list_ex (deeper prefix n) entries))"
proof (induction fuel arbitrary: prefix n dep)
  case (Suc fuel)
  show ?case
  proof (cases "list_ex (deeper prefix n) entries")
    case False
    have v: "emits (sb_append_value fmt heap (f_val e)) (valid_json mb)" if "e \<in> set entries" for e
      using that ents by (intro value_emits[OF h f]) (simp_all add: ent_ok_def spelled_def)
    have nul: "emits (sb_append_str heap [110, 117, 108, 108]) (valid_json mb)"
      by (rule text_emits[OF h]) (simp_all add: v_null)
    have "emits (emit_json (Suc fuel) fmt heap entries indent prefix n dep) (valid_json mb)"
      using False v nul by (auto split: option.split simp: find_Some_iff)
    then show ?thesis using False by (simp add: level_text_def del: emit_json.simps)
  next
    case True
    let ?a = "list_all (\<lambda>e. deeper prefix n e \<longrightarrow> is_array_index (f_key e) (f_key_len e) (segment_pos n e)) entries"
    let ?seg = "emit_segment fmt heap entries prefix n indent dep ?a (\<lambda>np m. emit_json fuel fmt heap entries indent np m (dep + 1))"
    have body: "emits (sbind (sb_appendc heap (if ?a then 91 else 123)) (\<lambda>_. sbind (emit_segments ?seg 0 segments) (\<lambda>_.
        sbind (if indent \<noteq> None \<and> segments \<noteq> [] then emit_indent heap indent dep else sret ()) (\<lambda>_. sb_appendc heap (if ?a then 93 else 125)))))
      (level_text mb True)" if segs: "\<forall>i \<in> set segments. segment_ok entries prefix n i" for segments
    proof -
      have item: "emits (?seg s start) (\<lambda>t. \<exists>w u. t = (if s > 0 then [44] else []) @ w @ u \<and> ws w \<and> one_text mb ?a u)"
        if "start \<in> set segments" for s start
        by (rule item_emits[OF h f ind ents _ Suc.prems(3,4)]) (use segs that Suc.prems in \<open>auto intro!: emits_mono[OF Suc.IH] simp: level_text_def\<close>)
      have sg: "emits (emit_segments ?seg 0 segments) (\<lambda>t. if segments = [] then t = [] else \<exists>w u. t = w @ u \<and> ws w \<and> list_text mb ?a u)"
        by (rule emits_mono[OF segments_emits[OF item]]) (auto split: if_splits)
      have iw: "emits (if indent \<noteq> None \<and> segments \<noteq> [] then emit_indent heap indent dep else sret ()) (\<lambda>t. ws t \<and> (segments = [] \<longrightarrow> t = []))"
        by (rule emits_if[OF emits_mono[OF indent_emits[OF h ind]] emits_sret]) simp_all
      have ic: "emits (sbind (if indent \<noteq> None \<and> segments \<noteq> [] then emit_indent heap indent dep else sret ()) (\<lambda>_. sb_appendc heap (if ?a then 93 else 125)))
          (\<lambda>t. \<exists>w. ws w \<and> (segments = [] \<longrightarrow> w = []) \<and> t = w @ [if ?a then 93 else 125])"
        by (rule emits_sbind[OF iw], rule appendc_emits[OF h], blast)
      have sic: "emits (sbind (emit_segments ?seg 0 segments) (\<lambda>_. sbind (if indent \<noteq> None \<and> segments \<noteq> [] then emit_indent heap indent dep else sret ())
          (\<lambda>_. sb_appendc heap (if ?a then 93 else 125)))) (\<lambda>t. valid_json mb ((if ?a then 91 else 123) # t))"
      proof (rule emits_sbind[OF sg], rule ic)
        fix t u :: "u8 list"
        assume t: "if segments = [] then t = [] else \<exists>w u. t = w @ u \<and> ws w \<and> list_text mb ?a u"
          and "\<exists>w. ws w \<and> (segments = [] \<longrightarrow> w = []) \<and> u = w @ [if ?a then 93 else 125]"
        then obtain w where u: "ws w" "segments = [] \<longrightarrow> w = []" "u = w @ [if ?a then 93 else 125]" by blast
        show "valid_json mb ((if ?a then 91 else 123) # t @ u)"
        proof (cases "segments = []")
          case True
          then show ?thesis using t u list_empty[of mb ?a] by simp
        next
          case False
          then obtain w0 v where v: "t = w0 @ v" "ws w0" "list_text mb ?a v" using t by auto
          show ?thesis unfolding v(1) u(3) append_assoc by (rule list_close[OF v(3,2) u(1)])
        qed
      qed
      show ?thesis by (rule emits_sbind[OF appendc_emits[OF h]], rule sic) (simp add: level_text_def)
    qed
    then show ?thesis using True unfolding emit_json.simps Let_def
      by (simp only: if_False not_True_eq_False) (rule emits_slift[OF collect_returns], clarify)
  qed
qed simp

lemma emit_json_emits:
  assumes "heap \<le> 1152921504606846976" and "formats fmt" and "indent_ok indent" and "\<forall>e \<in> set entries. ent_ok e \<and> spelled mb e"
    and "n \<le> 4095" and "4096 \<le> fuel + n" and "0 < n \<longrightarrow> n \<le> length prefix" and "units mb (take n prefix)"
  shows "emits (emit_json fuel fmt heap entries indent prefix n dep) (valid_json mb)"
  by (rule emits_mono[OF emit_json_level[OF assms]]) (simp add: level_text_def)

end

end
