(* ===== verification/Json_Decode_Laws.thy ===== *)
theory Json_Decode_Laws
  imports Json_Decode Json_Print_Laws Iterator_Safe Client
begin

text \<open>
  Decoding any bytes: the walk over the trie bits ends and stays inside file, key buffer and stack, and
  the text that is returned is JSON. What becomes of a member whose path other paths extend.
\<close>

section \<open>Reads with a postcondition\<close>

definition reads_to :: "'a reading \<Rightarrow> tp_bitstream_reader \<Rightarrow> ('a \<Rightarrow> tp_bitstream_reader \<Rightarrow> bool) \<Rightarrow> bool" where
  "reads_to m r P \<longleftrightarrow> safe_at m r \<and> (\<forall>x r'. m r = (Ok x, r') \<longrightarrow> P x r')"

lemma reads_sbind:
  assumes m: "reads_to m r P" and f: "\<And>a r'. P a r' \<Longrightarrow> reader_ok r' \<Longrightarrow> same_stream r r' \<Longrightarrow> reads_to (f a) r' Q"
  shows "reads_to (sbind m f) r Q"
proof -
  have "safe_at (sbind m f) r"
    using m f by (intro safe_at_sbind') (simp_all add: reads_to_def)
  moreover have "Q x r'" if res: "sbind m f r = (Ok x, r')" for x r'
  proof -
    obtain a r1 where 1: "m r = (Ok a, r1)" "f a r1 = (Ok x, r')" using res by (auto simp: sbind_eq_Ok)
    then have "P a r1" "reader_ok r1" "same_stream r r1" using m by (auto simp: reads_to_def safe_at_def)
    from f[OF this] 1 show ?thesis by (simp add: reads_to_def)
  qed
  ultimately show ?thesis by (simp add: reads_to_def)
qed

lemma reads_mono: "reads_to m r P \<Longrightarrow> (\<And>x r'. P x r' \<Longrightarrow> Q x r') \<Longrightarrow> reads_to m r Q"
  by (auto simp: reads_to_def)

lemma reads_sret: "reader_ok r \<Longrightarrow> P a r \<Longrightarrow> reads_to (sret a) r P"
  by (simp add: reads_to_def safe_at_def same_stream_def)

lemma reads_sfail: "reader_ok r \<Longrightarrow> reads_to (sfail e) r P"
  by (simp add: reads_to_def safe_at_def same_stream_def)

lemma reads_slift: "reader_ok r \<Longrightarrow> returns m P \<Longrightarrow> reads_to (slift m) r (\<lambda>x r'. P x \<and> r' = r)"
  by (auto simp: reads_to_def safe_at_def same_stream_def returns_def)

lemma reads_if: "(c \<Longrightarrow> reads_to a r P) \<Longrightarrow> (\<not> c \<Longrightarrow> reads_to b r P) \<Longrightarrow> reads_to (if c then a else b) r P"
  by simp

lemma reads_bits: "reader_ok r \<Longrightarrow> 1 \<le> n \<Longrightarrow> n \<le> 8 \<Longrightarrow> reads_to (tp_bs_read_bits n) r (\<lambda>_ r'. r_pos r < r_pos r')"
  using safe_at_rsafe[OF rsafe_read_bits] by (auto simp: reads_to_def tp_bs_read_bits_def reader_ok_def split: if_splits)

lemma reads_varint: "reader_ok r \<Longrightarrow> reads_to tp_bs_read_varint_u r (\<lambda>_ r'. r_pos r \<le> r_pos r')"
  using safe_at_rsafe[OF rsafe_read_varint(1)] read_varint_pos by (auto simp: reads_to_def)

section \<open>The walk\<close>

definition flat_ok :: "flat_entry \<Rightarrow> bool" where
  "flat_ok e \<longleftrightarrow> length (f_key e) = Suc (f_key_len e) \<and> f_key_len e \<le> 4095"

definition walker_ok :: "walker \<Rightarrow> bool" where
  "walker_ok wk \<longleftrightarrow> length (wk_key wk) = 4096 \<and> wk_key_len wk \<le> 4095 \<and> (\<forall>e \<in> set (wk_entries wk). flat_ok e) \<and>
     (\<forall>(n, _) \<in> set (wk_stack wk). n \<le> 4095) \<and> length (wk_stack wk) \<le> 256"

lemma add_entry_returns:
  assumes d: "dict_ok d" and wk: "walker_ok wk" shows "returns (add_entry heap d num_keys wk) walker_ok"
proof -
  let ?key = "take (wk_key_len wk) (wk_key wk) @ [0]"
  have "safe (tp_dict_lookup_n heap d (Some ?key) (wk_key_len wk) True)"
    using wk by (intro lookup_safe[OF d]) (simp add: walker_ok_def)
  then have "returns (found_value (tp_dict_lookup_n heap d (Some ?key) (wk_key_len wk) True)) (\<lambda>_. True)"
    by (auto simp: found_value_def elim!: safe_cases split: option.split)
  then show ?thesis using wk by (auto simp: add_entry_def Let_def walker_ok_def flat_ok_def intro!: returns_rbind)
qed

lemma read_skip_reads: "reader_ok r \<Longrightarrow> 1 \<le> bps \<Longrightarrow> bps \<le> 8 \<Longrightarrow> reads_to (read_skip bps) r (\<lambda>_ r'. r_pos r \<le> r_pos r')"
  unfolding read_skip_def
  by (rule reads_sbind[OF reads_bits], assumption+, rule reads_sbind[OF reads_varint], assumption, rule reads_sret) auto

lemma pop_reads:
  assumes bps: "1 \<le> bps" "bps \<le> 8"
  shows "reader_ok r \<Longrightarrow> walker_ok (wk\<lparr>wk_stack := stack\<rparr>) \<Longrightarrow>
    reads_to (pop_frames bps stack wk) r (\<lambda>popped r'. \<forall>wk. popped = Some wk \<longrightarrow> walker_ok wk \<and> r_pos r \<le> r_pos r')"
proof (induction stack arbitrary: wk)
  case Nil
  then show ?case unfolding pop_frames.simps by (intro reads_sret) simp_all
next
  case (Cons frame stack)
  obtain n remaining where fr: "frame = (n, remaining)" by force
  let ?wk = "wk\<lparr>wk_key_len := n, wk_stack := (n, remaining - 1) # stack\<rparr>"
  have ok: "walker_ok ?wk" using Cons.prems(2) by (auto simp: walker_ok_def fr)
  have sk: "reads_to (\<lambda>r. case read_skip bps r of (Ok _, r) \<Rightarrow> (Ok (Some ?wk), r) | (Err e, r) \<Rightarrow> (Ok None, r) | (Fault, r) \<Rightarrow> (Fault, r) | (Diverge, r) \<Rightarrow> (Diverge, r)) r
      (\<lambda>popped r'. \<forall>wk. popped = Some wk \<longrightarrow> walker_ok wk \<and> r_pos r \<le> r_pos r')"
    using read_skip_reads[OF Cons.prems(1) bps] ok by (auto simp: reads_to_def safe_at_def split: prod.splits res.splits)
  have "walker_ok (wk\<lparr>wk_stack := stack\<rparr>)" using Cons.prems(2) by (auto simp: walker_ok_def)
  note again = Cons.IH[OF Cons.prems(1) this]
  have one: "reads_to (sret (Some ?wk)) r (\<lambda>popped r'. \<forall>wk. popped = Some wk \<longrightarrow> walker_ok wk \<and> r_pos r \<le> r_pos r')"
    using ok by (intro reads_sret Cons.prems(1)) simp
  show ?case unfolding pop_frames.simps Let_def fr by (intro reads_if again one sk)
qed

lemma open_frame_reads:
  assumes r: "reader_ok r" and bps: "1 \<le> bps" "bps \<le> 8" and wk: "walker_ok wk"
  shows "reads_to (open_frame bps child_count wk) r (\<lambda>wk r'. walker_ok wk \<and> r_pos r \<le> r_pos r')"
proof -
  have ok: "walker_ok (wk\<lparr>wk_stack := (wk_key_len wk, x) # wk_stack wk\<rparr>)" if "length (wk_stack wk) < 256" for x
    using wk that by (auto simp: walker_ok_def)
  show ?thesis unfolding open_frame_def MAX_FRAMES_def
    by (intro reads_if reads_sfail r reads_sbind[OF read_skip_reads[OF r bps]] reads_sret) (use ok in auto)
qed

lemma take_symbol_returns: "walker_ok wk \<Longrightarrow> returns (take_symbol si code wk) walker_ok"
  by (auto simp: take_symbol_def Let_def store_def walker_ok_def KEY_BUF_def)

lemma walk_reads:
  assumes d: "dict_ok d"
  shows "reader_ok r \<Longrightarrow> walker_ok wk \<Longrightarrow> r_bit_len r - r_pos r < fuel \<Longrightarrow> reads_to (walk fuel heap d num_keys wk) r (\<lambda>wk _. walker_ok wk)"
proof (induction fuel arbitrary: wk r)
  case (Suc fuel)
  let ?si = "d_sym d"
  let ?bps = "s_bits_per_symbol ?si"
  have bps: "1 \<le> ?bps" "?bps \<le> 8" using d by (simp_all add: dict_ok_def)
  show ?case
  proof (cases "length (wk_entries wk) < num_keys")
    case False
    then show ?thesis using Suc.prems by (simp add: reads_sret del: sret_apply)
  next
    case True
    have again: "reads_to (walk fuel heap d num_keys wk') r' (\<lambda>wk _. walker_ok wk)"
      if "reader_ok r'" "walker_ok wk'" "same_stream r r'" "r_pos r < r_pos r'" for wk' r'
      using that Suc.prems(3) by (intro Suc.IH) (auto simp: same_stream_def reader_ok_def)
    have pop: "reads_to (sbind (slift (add_entry heap d num_keys wk)) (\<lambda>wk. sbind (pop_frames ?bps (wk_stack wk) wk) (\<lambda>popped.
          case popped of None \<Rightarrow> sret wk | Some wk \<Rightarrow> walk fuel heap d num_keys wk))) r' (\<lambda>wk _. walker_ok wk)"
      if r': "reader_ok r'" "same_stream r r'" "r_pos r < r_pos r'" for r'
    proof (rule reads_sbind[OF reads_slift[OF r'(1) add_entry_returns[OF d Suc.prems(2)]]], clarify)
      fix wk1 assume w1: "walker_ok wk1"
      show "reads_to (sbind (pop_frames ?bps (wk_stack wk1) wk1) (\<lambda>popped. case popped of None \<Rightarrow> sret wk1 | Some wk \<Rightarrow> walk fuel heap d num_keys wk)) r'
          (\<lambda>wk _. walker_ok wk)"
      proof (rule reads_sbind[OF pop_reads[OF bps r'(1)]])
        show "walker_ok (wk1\<lparr>wk_stack := wk_stack wk1\<rparr>)" using w1 by simp
        fix popped r2 assume p: "\<forall>wk. popped = Some wk \<longrightarrow> walker_ok wk \<and> r_pos r' \<le> r_pos r2" and r2: "reader_ok r2" "same_stream r' r2"
        show "reads_to (case popped of None \<Rightarrow> sret wk1 | Some wk \<Rightarrow> walk fuel heap d num_keys wk) r2 (\<lambda>wk _. walker_ok wk)"
          using p r2 w1 r' same_stream_trans[OF r'(2) r2(2)] by (cases popped) (auto intro!: reads_sret again simp del: sret_apply)
      qed
    qed
    note rb = reads_bits[OF Suc.prems(1) bps]
    show ?thesis unfolding walk.simps Let_def if_P[OF True]
    proof (rule reads_sbind[OF rb])
      fix raw r1 assume r1: "r_pos r < r_pos r1" "reader_ok r1" "same_stream r r1"
      have var: "reads_to (sbind tp_bs_read_varint_u f) r1 (\<lambda>wk _. walker_ok wk)"
        if "\<And>x r'. reader_ok r' \<Longrightarrow> same_stream r r' \<Longrightarrow> r_pos r < r_pos r' \<Longrightarrow> reads_to (f x) r' (\<lambda>wk _. walker_ok wk)" for f
        by (rule reads_sbind[OF reads_varint[OF r1(2)]]) (use that r1 same_stream_trans[OF r1(3)] in auto)
      have br: "reads_to (sbind (open_frame ?bps c wk) (\<lambda>wk. walk fuel heap d num_keys wk)) r' (\<lambda>wk _. walker_ok wk)"
        if "reader_ok r'" "same_stream r r'" "r_pos r < r_pos r'" for c r'
        by (rule reads_sbind[OF open_frame_reads[OF that(1) bps Suc.prems(2)]]) (use that same_stream_trans[OF that(2)] in \<open>auto intro!: again\<close>)
      have sy: "reads_to (sbind (slift (take_symbol ?si c wk)) (\<lambda>wk. walk fuel heap d num_keys wk)) r1 (\<lambda>wk _. walker_ok wk)" for c
        by (rule reads_sbind[OF reads_slift[OF r1(2) take_symbol_returns[OF Suc.prems(2)]]]) (use r1 in \<open>auto intro!: again\<close>)
      show "reads_to (if wrap32 (unat raw) = ctrl_code ?si TP_CTRL_END then
          sbind (slift (add_entry heap d num_keys wk)) (\<lambda>wk.
          sbind (pop_frames ?bps (wk_stack wk) wk) (\<lambda>popped.
          case popped of None \<Rightarrow> sret wk | Some wk \<Rightarrow> walk fuel heap d num_keys wk))
        else if wrap32 (unat raw) = ctrl_code ?si TP_CTRL_END_VAL then
          sbind tp_bs_read_varint_u (\<lambda>vi.
          sbind (slift (add_entry heap d num_keys wk)) (\<lambda>wk.
          sbind (pop_frames ?bps (wk_stack wk) wk) (\<lambda>popped.
          case popped of None \<Rightarrow> sret wk | Some wk \<Rightarrow> walk fuel heap d num_keys wk)))
        else if wrap32 (unat raw) = ctrl_code ?si TP_CTRL_BRANCH then
          sbind tp_bs_read_varint_u (\<lambda>child_count.
          sbind (open_frame ?bps child_count wk) (\<lambda>wk. walk fuel heap d num_keys wk))
        else if wrap32 (unat raw) = ctrl_code ?si TP_CTRL_SKIP then
          sbind tp_bs_read_varint_u (\<lambda>dist. walk fuel heap d num_keys wk)
        else
          sbind (slift (take_symbol ?si (wrap32 (unat raw)) wk)) (\<lambda>wk. walk fuel heap d num_keys wk)) r1 (\<lambda>wk _. walker_ok wk)"
        by (intro reads_if pop[OF r1(2,3,1)] var pop br again sy) (use Suc.prems(2) in auto)
    qed
  qed
qed simp

section \<open>The entries\<close>

lemma flat_cmp_consistent: "\<forall>e \<in> A. flat_ok e \<Longrightarrow> consistent_on flat_entry_cmp A"
proof -
  let ?m = "\<lambda>e. \<lparr>e_key = f_key e, e_key_len = f_key_len e, e_val = TP_NULL\<rparr>"
  assume A: "\<forall>e \<in> A. flat_ok e"
  have eq: "flat_entry_cmp a b = entry_cmp (?m a) (?m b)" for a b
    by (simp only: flat_entry_cmp_def entry_cmp_def tp_entry.simps)
  have "\<forall>e \<in> ?m ` A. entry_ok e" using A by (auto simp: entry_ok_def flat_ok_def)
  from entry_cmp_consistent[OF this] have "consistent_on (\<lambda>a b. entry_cmp (?m a) (?m b)) A"
    unfolding consistent_on_def ball_simps(9) .
  then show ?thesis unfolding eq[abs_def] .
qed

lemma sorted_entries_ok:
  assumes "qsort_ok qs" and "\<forall>e \<in> set es. flat_ok e" shows "\<forall>e \<in> set (qs flat_entry_cmp es). flat_ok e"
proof -
  have "mset (qs flat_entry_cmp es) = mset es" using assms flat_cmp_consistent by (simp add: qsort_ok_def)
  then have "set (qs flat_entry_cmp es) = set es" by (metis set_mset_mset)
  then show ?thesis using assms(2) by simp
qed

lemma extract_returns:
  assumes qs: "qsort_ok qs" and len: "buf_len \<le> length buf" "buf_len \<le> 1152921504606846976"
  shows "returns (extract_entries qs heap buf buf_len) (\<lambda>(es, _). \<forall>e \<in> set es. flat_ok e)"
proof (cases "tp_dict_open heap (Some buf) buf_len")
  case (Ok d)
  then have d: "dict_ok d" "d_buf d = Some buf" "d_len d = buf_len"
    using open_ok[OF len] by (simp_all add: tp_dict_open_def)
  let ?start = "\<lparr>wk_entries = [], wk_key = replicate KEY_BUF 0, wk_key_len = 0, wk_stack = []\<rparr>"
  have start: "walker_ok ?start" by (simp add: walker_ok_def KEY_BUF_def)
  have wk: "returns (fst (sbind (tp_bs_reader_seek (d_trie_start d)) (\<lambda>_. walk (walk_fuel buf_len) heap d n ?start) r)) walker_ok"
    if c: "tp_bs_reader_create heap (Some buf) (wrap64 (buf_len * 8)) = Ok r" for r n
  proof -
    have r: "reader_ok r" "r_bit_len r = 8 * buf_len" using reader_create_ok[OF len c] by auto
    have "reads_to (sbind (tp_bs_reader_seek (d_trie_start d)) (\<lambda>_. walk (walk_fuel buf_len) heap d n ?start)) r (\<lambda>wk _. walker_ok wk)"
    proof (rule reads_sbind)
      show "reads_to (tp_bs_reader_seek (d_trie_start d)) r (\<lambda>_ _. True)"
        using safe_at_rsafe[OF rsafe_cursor(1) r(1)] by (simp add: reads_to_def)
    qed (rule walk_reads[OF d(1) _ start], use r in \<open>simp_all add: same_stream_def walk_fuel_def\<close>)
    then show ?thesis
      by (cases "sbind (tp_bs_reader_seek (d_trie_start d)) (\<lambda>_. walk (walk_fuel buf_len) heap d n ?start) r")
        (auto simp: reads_to_def safe_at_def elim: safe_cases)
  qed
  have create: "returns (tp_bs_reader_create heap (Some buf) (wrap64 (buf_len * 8)))
      (\<lambda>r. tp_bs_reader_create heap (Some buf) (wrap64 (buf_len * 8)) = Ok r)"
    by (simp add: tp_bs_reader_create_def)
  have "strlen TP_JSON_META_ROOT \<noteq> None" by (simp add: TP_JSON_META_ROOT_def)
  then have "safe (tp_dict_lookup heap d (Some TP_JSON_META_ROOT) True)" by (rule lookup_str_safe[OF d(1)])
  then have root: "returns (root_number (tp_dict_lookup heap d (Some TP_JSON_META_ROOT) True)) (\<lambda>_. True)"
    by (cases rule: safe_cases) (simp_all add: root_number_def split: option.split tp_value.split)
  have srt: "flat_ok x" if "x \<in> set (qs flat_entry_cmp (filter Q es))" "\<forall>e \<in> set es. flat_ok e" for x Q es
    using sorted_entries_ok[OF qs, of "filter Q es"] that by auto
  show ?thesis
    unfolding extract_entries_def Let_def Ok rbind_simps
    by (intro returns_if returns_rbind[OF create] returns_rbind[OF wk] returns_rbind[OF root])
      (auto simp: walker_ok_def dest: srt)
qed (use open_safe[OF len, of heap True] in \<open>auto simp: extract_entries_def tp_dict_open_def\<close>)

section \<open>Decoding\<close>

lemma sb_init_ok: "sb_ok sb_init \<and> sb_text sb_init = []"
  by (simp add: sb_ok_def sb_text_def sb_init_def)

lemma finish_returns:
  assumes h: "heap \<le> 1152921504606846976" and m: "emits m P"
  shows "returns (finish_text heap (m sb_init)) (\<lambda>(s, n). n < length s \<and> s ! n = 0 \<and> P (take n s))"
proof -
  have e: "emits (sbind m (\<lambda>_. sb_appendc heap 0)) (\<lambda>t. \<exists>u. P u \<and> t = u @ [0])"
    by (rule emits_sbind[OF m appendc_emits[OF h]]) blast
  have f: "finish_text heap (m sb_init) = (case sbind m (\<lambda>_. sb_appendc heap 0) sb_init of
        (Ok _, sb) \<Rightarrow> Ok (sb_data sb, sb_len sb - 1) | (Err e, _) \<Rightarrow> Err e | (Fault, _) \<Rightarrow> Fault | (Diverge, _) \<Rightarrow> Diverge)"
    by (cases "m sb_init"; cases "fst (m sb_init)") (auto simp: finish_text_def sbind_def)
  from emitsD[OF e conjunct1[OF sb_init_ok]] show ?thesis
  proof (elim disjE exE conjE)
    fix sb t u assume s: "sbind m (\<lambda>_. sb_appendc heap 0) sb_init = (Ok (), sb)" "sb_ok sb" "P u" "t = u @ [0]" "sb_text sb = sb_text sb_init @ t"
    then have t: "take (sb_len sb) (sb_data sb) = u @ [0]" using sb_init_ok by (simp add: sb_text_def)
    have l: "sb_len sb = Suc (length u)" using arg_cong[OF t, of length] s(2) by (simp add: sb_ok_def)
    obtain tl where d: "sb_data sb = u @ 0 # tl"
      using append_take_drop_id[of "sb_len sb" "sb_data sb"] by (metis append_Cons append_Nil append_assoc t)
    then have "length u < length (sb_data sb) \<and> sb_data sb ! length u = 0 \<and> take (length u) (sb_data sb) = u"
      by simp
    then show ?thesis using s l by (simp add: f)
  qed (simp add: f)
qed

context coding
begin

lemma decode_well_formed:
  assumes qs: "qsort_ok qs" and fmt: "formats fmt" and ind: "indent_ok indent" and h: "heap \<le> 1152921504606846976"
    and len: "buf_len \<le> length buf" "buf_len \<le> 1152921504606846976"
    and es: "\<And>es root. extract_entries qs heap buf buf_len = Ok (es, root) \<Longrightarrow>
      \<forall>e \<in> set es. printable (f_val e) \<and> f_key_len e \<le> 4094 \<and> spelled mb e"
  shows "returns (decode_impl fmt qs heap buf buf_len indent) (\<lambda>(s, n). n < length s \<and> s ! n = 0 \<and> valid_json mb (take n s))"
proof (cases "extract_entries qs heap buf buf_len")
  case (Ok x)
  obtain es root where x: "x = (es, root)" by force
  have ok: "\<forall>e \<in> set es. ent_ok e \<and> spelled mb e"
    using extract_returns[OF qs len, of heap] es[of es root] Ok x by (auto simp: ent_ok_def flat_ok_def)
  have em: "emits (if length es = 0 then
          sb_append_str heap (if root = TP_JSON_ROOT_ARRAY then [91, 93] else [123, 125])
        else emit_json emit_fuel fmt heap es indent [0] 0 0) (valid_json mb)"
    by (intro emits_if text_emits[OF h] emit_json_emits[OF h fmt ind ok])
      (use list_empty[of mb True] list_empty[of mb False] in \<open>auto simp: emit_fuel_def units_none\<close>)
  show ?thesis using finish_returns[OF h em] by (simp add: decode_impl_def Ok x if_distribR)
qed (use extract_returns[OF qs len, of heap] in \<open>simp_all add: decode_impl_def\<close>)

end

text \<open>The member of a segment whose path other paths extend is printed as a list, whatever value the path holds.\<close>

lemma spelled_raw: "spelled high_byte e"
  by (simp add: spelled_def spelled_value_def units_raw)

lemma extended_prints_list:
  assumes h: "heap \<le> 1152921504606846976" and f: "formats fmt" and ind: "indent_ok indent" and ents: "\<forall>e \<in> set entries. ent_ok e"
    and se: "segment_ok entries prefix n start" and p: "0 < n \<longrightarrow> n \<le> length prefix"
    and np: "new_prefix a prefix n (entries ! start) = Ok (np, m)"
    and e': "e' \<in> set entries" "take m (f_key e') = take m np" "m < f_key_len e'" "f_key e' ! m = 46 \<longrightarrow> m + 1 < f_key_len e'" "\<not> is_meta e'"
    and fuel: "4096 \<le> fuel + m"
  shows "emits (emit_segment fmt heap entries prefix n indent dep a (\<lambda>np m. emit_json fuel fmt heap entries indent np m (dep + 1)) s start)
    (\<lambda>t. \<exists>u. valid_json high_byte u \<and> hd u \<in> {91, 123} \<and> member_text (s = 0) a (segment_bytes n (entries ! start)) u t)"
proof -
  let ?se = "entries ! start"
  have s: "ent_ok ?se" "deeper prefix n ?se" "0 < fst (segment_of n ?se)" using se ents by (simp_all add: segment_ok_def)
  have m: "length np = 4096" "n < m" "m \<le> 4095" using new_prefix_returns[OF s p, of a] np by simp_all
  have l: "length (f_key e') = Suc (f_key_len e')" using ents e'(1) by (simp add: ent_ok_def)
  have mc: "memcmp (f_key e') np m = 0" using memcmp_take[of m "f_key e'" np] e'(2,3) l m by simp
  then have "deeper np m e'" using e'(3-5) by (auto simp: deeper_def below_def segment_pos_def)
  then have dp: "list_ex (deeper np m) entries" using e'(1) by (auto simp: list_ex_iff)
  have hc: "has_children entries np m" using e' mc by (auto simp: has_children_def list_ex_iff)
  have "emits (emit_json fuel fmt heap entries indent np m (dep + 1)) (level_text high_byte (list_ex (deeper np m) entries))"
    by (rule raw.emit_json_level[OF h f ind]) (use ents m fuel in \<open>simp_all add: spelled_raw units_raw\<close>)
  then have "emits (emit_json fuel fmt heap entries indent np m (dep + 1)) (\<lambda>u. valid_json high_byte u \<and> hd u \<in> {91, 123})"
    by (rule emits_mono) (use dp in \<open>auto simp: level_text_def\<close>)
  then have "emits (case leaf_at entries np m of Some v \<Rightarrow> if \<not> has_children entries np m then sb_append_value fmt heap v
      else emit_json fuel fmt heap entries indent np m (dep + 1)
      | None \<Rightarrow> emit_json fuel fmt heap entries indent np m (dep + 1)) (\<lambda>u. valid_json high_byte u \<and> hd u \<in> {91, 123})"
    using hc by (simp split: option.split)
  then have "emits (sbind (slift (new_prefix a prefix n ?se)) (\<lambda>(np, m). case leaf_at entries np m of
        Some v \<Rightarrow> if \<not> has_children entries np m then sb_append_value fmt heap v
          else emit_json fuel fmt heap entries indent np m (dep + 1)
      | None \<Rightarrow> emit_json fuel fmt heap entries indent np m (dep + 1))) (\<lambda>u. valid_json high_byte u \<and> hd u \<in> {91, 123})"
    by (simp add: np)
  from member_emits[where sub = "\<lambda>np m. emit_json fuel fmt heap entries indent np m (dep + 1)", OF h ind s(1,2) this]
  show ?thesis by (rule emits_mono) auto
qed

section \<open>Number formats\<close>

text \<open>A \<open>printf\<close> that meets the hypothesis.\<close>

definition zero_printf :: printf_text where
  "zero_printf = \<lparr>g_text = \<lambda>_. [48], g17_text = \<lambda>_. [48]\<rparr>"

lemma zero_printf_ok: "formats zero_printf"
proof -
  have "valid_number [48]" using integer_number[of "[]" "[48]"] by (simp add: sign_text_def integer_part_def digit_text_def isdigit_def)
  then show ?thesis by (simp add: formats_def zero_printf_def)
qed

end
