(* ===== verification/Json_Samples.thy ===== *)
theory Json_Samples
  imports Json_Decode_Laws
begin

text \<open>
  Two runs of the printer in full: the file of the one member \<open>"a"\<close>, whose string holds a line feed and a
  character of two bytes, and the level with the members \<open>a\<close> and \<open>ab\<close>. The buffer of the printer stays within its
  first 256 bytes, where appending is concatenation.
\<close>

section \<open>The first page of the buffer\<close>

definition page :: "u8 list \<Rightarrow> strbuf" where
  "page t = \<lparr>sb_data = t @ replicate (256 - length t) 0, sb_len = length t, sb_cap = 256\<rparr>"

lemma first_append:
  assumes "1 \<le> n" and "n \<le> 256" and "n \<le> length s" and "256 \<le> heap"
  shows "sb_append heap s n sb_init = (Ok (), page (take n s))"
proof -
  have "grow_cap 66 256 n = Ok 256" using assms(2) by (simp add: numeral_eq_Suc)
  then show ?thesis using assms
    by (simp add: sb_append_def sb_grow_def sb_init_def page_def sbind_def memcpy_def wrap64_def)
qed

lemma page_append:
  assumes "length t + n \<le> 256" and "n \<le> length s" shows "sb_append heap s n (page t) = (Ok (), page (t @ take n s))"
proof -
  have "256 - (length t + n) = 256 - length t - n" by simp
  then show ?thesis using assms
    by (simp add: sb_append_def sb_grow_def page_def sbind_def memcpy_def wrap64_def)
qed

lemma page_escape:
  "i + k \<le> length s \<Longrightarrow> length t + length (concat (map escaped (take k (drop i s)))) \<le> 256 \<Longrightarrow>
    escape_loop heap s k i (page t) = (Ok (), page (t @ concat (map escaped (take k (drop i s)))))"
proof (induction k arbitrary: i t)
  case (Suc k)
  have d: "take (Suc k) (drop i s) = s ! i # take k (drop (Suc i) s)" using Suc.prems(1) by (simp add: Cons_nth_drop_Suc[symmetric])
  have "length t + length (escaped (s ! i)) \<le> 256" using Suc.prems(2) d by simp
  then show ?case using Suc.prems d Suc.IH[of "Suc i" "t @ escaped (s ! i)"]
    by (simp add: load_def sbind_def page_append)
qed simp

lemma page_string:
  assumes "n \<le> length s" and "length t + length (quoted (take n s)) \<le> 256"
  shows "sb_append_json_string heap s n (page t) = (Ok (), page (t @ quoted (take n s)))"
    and "256 \<le> heap \<Longrightarrow> t = [] \<Longrightarrow> sb_append_json_string heap s n sb_init = (Ok (), page (quoted (take n s)))"
proof -
  have "escape_loop heap s n 0 (page (t @ [34])) = (Ok (), page (t @ 34 # concat (map escaped (take n s))))"
    using page_escape[of 0 n s "t @ [34]"] assms by (simp add: quoted_def)
  then show "sb_append_json_string heap s n (page t) = (Ok (), page (t @ quoted (take n s)))"
    "256 \<le> heap \<Longrightarrow> t = [] \<Longrightarrow> sb_append_json_string heap s n sb_init = (Ok (), page (quoted (take n s)))"
    using assms by (simp_all add: sb_append_json_string_def sb_appendc_def sbind_def page_append first_append quoted_def)
qed

lemma page_str: "length t + length s \<le> 256 \<Longrightarrow> sb_append_str heap s (page t) = (Ok (), page (t @ s))"
  by (simp add: sb_append_str_def page_append)

lemma page_char: "length t < 256 \<Longrightarrow> sb_appendc heap c (page t) = (Ok (), page (t @ [c]))"
  and first_char: "256 \<le> heap \<Longrightarrow> sb_appendc heap c sb_init = (Ok (), page [c])"
  by (simp_all add: sb_appendc_def page_append first_append)

section \<open>Members \<open>a\<close> and \<open>ab\<close>\<close>

definition two_members :: "flat_entry list" where
  "two_members = [\<lparr>f_key = [97, 0], f_key_len = 1, f_val = TP_INT 1\<rparr>, \<lparr>f_key = [97, 98, 0], f_key_len = 2, f_val = TP_INT 2\<rparr>]"

lemma update_replicate: "(replicate n x)[i := x] = replicate n x"
  using list_update_id[of "replicate n x" i] by (cases "i < n") (simp_all add: list_update_beyond)

lemma update_first: "(replicate 4095 (0 :: u8))[0 := c] = c # replicate 4094 0"
proof -
  have n: "(4095 :: nat) = Suc 4094" by simp
  show ?thesis unfolding n replicate_Suc by (simp only: list_update.simps nat.case)
qed

lemma path_a: "new_prefix False [0] 0 (two_members ! 0) = Ok (97 # replicate 4095 0, 1)"
  by (simp add: two_members_def new_prefix_def Let_def memcpy_def store_def segment_pos_def segment_of_def next_segment_def
      segment_end.simps update_replicate)

lemma path_ab: "new_prefix False (97 # replicate 4095 0) 1 (two_members ! 1) = Ok (97 # 46 # 98 # replicate 4093 0, 3)"
  by (simp add: two_members_def new_prefix_def Let_def memcpy_def store_def segment_pos_def segment_of_def next_segment_def
      segment_end.simps update_replicate update_first)

lemma at_a: "leaf_at two_members (97 # replicate 4095 0) 1 = Some (TP_INT 1)"
  "has_children two_members (97 # replicate 4095 0) 1"
  "list_ex (deeper (97 # replicate 4095 0) 1) two_members"
  "\<not> list_all (\<lambda>e. deeper (97 # replicate 4095 0) 1 e \<longrightarrow> is_array_index (f_key e) (f_key_len e) (segment_pos 1 e)) two_members"
  "fold_res (collect_step 1000 two_members (97 # replicate 4095 0) 1) [0..<length two_members] ([], 0) = Ok ([1], 16)"
  by (simp_all add: two_members_def leaf_at_def has_children_def is_meta_def deeper_def below_def segment_pos_def is_array_index_def
      collect_step_def segment_of_def next_segment_def segment_end.simps Let_def)

lemma at_ab: "leaf_at two_members (97 # 46 # 98 # replicate 4093 0) 3 = None"
  "\<not> list_ex (deeper (97 # 46 # 98 # replicate 4093 0) 3) two_members"
  "find (\<lambda>e. f_key_len e = 3 \<and> ((3 :: nat) = 0 \<or> memcmp (f_key e) (97 # 46 # 98 # replicate 4093 0) 3 = 0) \<and> \<not> is_meta e) two_members = None"
  by (simp_all add: two_members_def leaf_at_def deeper_def below_def)

text \<open>The member \<open>a\<close> comes out as \<open>"a":{"b":null}\<close>.\<close>

lemma below_a: "emit_json 4096 zero_printf 1000 two_members None (97 # replicate 4095 0) 1 1 (page t) =
    (Ok (), page (t @ [123, 34, 98, 34, 58, 110, 117, 108, 108, 125]))" if t: "length t \<le> 100"
proof -
  have 1: "(4096 :: nat) = Suc (Suc 4094)" by simp
  have q: "quoted [98] = [34, 98, 34]" by (simp add: quoted_def escaped_def)
  have nul: "emit_json (Suc 4094) zero_printf 1000 two_members None (97 # 46 # 98 # replicate 4093 0) 3 2 (page u) =
      (Ok (), page (u @ [110, 117, 108, 108]))" if "length u \<le> 200" for u
    unfolding emit_json.simps using at_ab(2,3) that by (simp add: page_str)
  have "segment_pos 1 (two_members ! 1) = 1" "fst (segment_of 1 (two_members ! 1)) = 1" "f_key (two_members ! 1) = [97, 98, 0]"
    by (simp_all add: two_members_def segment_pos_def segment_of_def next_segment_def segment_end.simps)
  then have seg: "emit_segment zero_printf 1000 two_members (97 # replicate 4095 0) 1 None 1 False
      (\<lambda>np n. emit_json (Suc 4094) zero_printf 1000 two_members None np n 2) 0 1 (page u) =
      (Ok (), page (u @ [34, 98, 34, 58, 110, 117, 108, 108]))" if "length u \<le> 150" for u
    using that path_ab at_ab(1) nul
    by (simp add: emit_segment_def Let_def sbind_def page_string page_char q del: emit_json.simps)
  show ?thesis unfolding 1 emit_json.simps(2)[of "Suc 4094"] Let_def if_not_P[OF at_a(4)] at_a(5)
    using at_a(3,4) t seg by (simp add: sbind_def page_char numeral_2_eq_2 del: emit_json.simps)
qed

lemma two_members_printed:
  "emit_segment zero_printf 1000 two_members [0] 0 None 0 False (\<lambda>np m. emit_json 4096 zero_printf 1000 two_members None np m 1) 0 0 sb_init =
    (Ok (), page [34, 97, 34, 58, 123, 34, 98, 34, 58, 110, 117, 108, 108, 125])"
proof -
  have s: "segment_pos 0 (two_members ! 0) = 0" "fst (segment_of 0 (two_members ! 0)) = 1" "f_key (two_members ! 0) = [97, 0]"
    by (simp_all add: two_members_def segment_pos_def segment_of_def next_segment_def segment_end.simps)
  have q: "quoted [97] = [34, 97, 34]" by (simp add: quoted_def escaped_def)
  show ?thesis using s path_a at_a(1,2) below_a page_string(2)[of 1 "[97, 0]" "[]" 1000]
    by (simp add: emit_segment_def Let_def sbind_def page_char q del: emit_json.simps)
qed

section \<open>A file with one member\<close>

text \<open>The string is a line feed and the two bytes of \<open>U+00E9\<close>.\<close>

definition menu_encoder :: tp_encoder where
  "menu_encoder = sample_encoder\<lparr>en_entries := [\<lparr>e_key = [97, 0], e_key_len = 1, e_val = TP_STRING (Some [10, 0xC3, 0xA9, 0]) 3\<rparr>]\<rparr>"

lemma menu_facts: "buildable menu_encoder" "alphabet (en_entries menu_encoder) = {97}"
  "distinct (map fst (stored menu_encoder))" "contents menu_encoder = [[97] \<mapsto> TP_STRING (Some [10, 0xC3, 0xA9, 0]) 3]"
  "en_entries (dedup_entries (sort_entries insertion_sort menu_encoder)) = en_entries menu_encoder"
  by (simp_all add: menu_encoder_def sample_encoder_def buildable_def width_fits_def enc_ok_def entry_ok_def tp_encoder_defaults_def
      key_volume_def alphabet_def entry_key_def stored_def contents_def dedup_entries_def sort_entries_def Let_def view_def)

lemma menu_trie: "trie_bits si True (en_entries menu_encoder) = chr_bits si 97 @ ctl_bits si TP_CTRL_END_VAL @ num_bits 0"
proof -
  have "trie_of [([97], True)] = Node [97] (Some True) []"
    by (simp add: trie_of.simps[of "[([97], True)]"] trie_of.simps[of "[([], True)]"] all_head_def behead_def starts_with_def)
  then show ?thesis by (simp add: trie_bits_def menu_encoder_def rest_def entry_key_def has_value_def term_bits_def)
qed

text \<open>The build, the opening, and what the two lookups of the extraction find.\<close>

lemma menu_opened:
  "\<exists>buf len enc2 d. tp_encoder_build insertion_sort 1000000 menu_encoder = (Ok (buf, len), enc2) \<and>
     tp_dict_open 1000000 (Some buf) len = Ok d \<and> opened enc2 True buf len d \<and> ready enc2 \<and> file_layout enc2 True buf len \<and>
     en_entries enc2 = en_entries menu_encoder \<and>
     (\<exists>p. tp_dict_lookup_n 1000000 d (Some [97, 0]) 1 True = Ok (Some (TP_STRING p 3)) \<and> view p 3 = Some [10, 0xC3, 0xA9]) \<and>
     tp_dict_lookup 1000000 d (Some TP_JSON_META_ROOT) True = Err TP_ERR_NOT_FOUND"
proof -
  have h: "SIZEOF_DICT \<le> 1000000" "(1000000 :: nat) \<le> 1152921504606846976" by (simp_all add: SIZEOF_DICT_def)
  have "volume menu_encoder = 492" by (simp add: volume_def entry_cost_def menu_encoder_def value_len_def)
  then have "\<exists>buf len. fst (tp_encoder_build insertion_sort 1000000 menu_encoder) = Ok (buf, len)"
    by (intro build_succeeds insertion_sort_ok menu_facts(1)) (simp_all add: menu_facts(2) UINT32_MAX_def)
  then obtain buf len enc2 where b: "tp_encoder_build insertion_sort 1000000 menu_encoder = (Ok (buf, len), enc2)"
    by (metis prod.collapse)
  obtain d where d: "dict_open_impl 1000000 (Some buf) len True = Ok d" "opened enc2 (any_value enc2) buf len d"
    "ready enc2" "file_layout enc2 (any_value enc2) buf len" "en_entries enc2 = en_entries menu_encoder"
    using build_open[OF insertion_sort_ok menu_facts(1) h b, of True] menu_facts(5) by auto
  have hv: "any_value enc2" using d(5) by (simp add: any_value_def has_value_def menu_encoder_def)
  have ok: "enc_ok menu_encoder" using menu_facts(1) by (simp add: buildable_def)
  have k: "kept insertion_sort menu_encoder = [[97] \<mapsto> TP_STRING (Some [10, 0xC3, 0xA9, 0]) 3]"
    using kept_contents[OF insertion_sort_ok ok menu_facts(3)] menu_facts(4) by simp
  have g: "greatest_key menu_encoder = [97]" by (simp add: greatest_key_def menu_facts(4))
  note l = lookup_built[OF insertion_sort_ok menu_facts(1) h b d(1)]
  obtain v where v: "tp_dict_lookup_n 1000000 d (Some [97, 0]) 1 True = Ok (Some v)" "value_agree (TP_STRING (Some [10, 0xC3, 0xA9, 0]) 3) v"
    using l[of 1 "[97, 0]"] k by auto
  then have p: "\<exists>p. v = TP_STRING p 3 \<and> view p 3 = Some [10, 0xC3, 0xA9]" by (cases v) (auto simp: view_def)
  have "tp_dict_lookup_n 1000000 d (Some TP_JSON_META_ROOT) 5 True = Err TP_ERR_NOT_FOUND"
    using l[of 5 TP_JSON_META_ROOT True] k g by (simp add: TP_JSON_META_ROOT_def extends_def)
  then have "tp_dict_lookup 1000000 d (Some TP_JSON_META_ROOT) True = Err TP_ERR_NOT_FOUND"
    using strlen_meta by (simp add: tp_dict_lookup_def)
  then show ?thesis using b d hv v(1) p by (auto simp: tp_dict_open_def)
qed

lemma menu_extracted:
  assumes o: "tp_dict_open 1000000 (Some buf) len = Ok d" "opened enc2 True buf len d" "ready enc2" "file_layout enc2 True buf len"
      "en_entries enc2 = en_entries menu_encoder"
    and a: "tp_dict_lookup_n 1000000 d (Some [97, 0]) 1 True = Ok (Some v)"
    and meta: "tp_dict_lookup 1000000 d (Some TP_JSON_META_ROOT) True = Err TP_ERR_NOT_FOUND"
  shows "extract_entries insertion_sort 1000000 buf len = Ok ([\<lparr>f_key = [97, 0], f_key_len = 1, f_val = v\<rparr>], TP_JSON_ROOT_OBJECT)"
proof -
  let ?si = "d_sym d" and ?heap = "1000000 :: nat"
  let ?bps = "s_bits_per_symbol ?si"
  have al: "alphabet (en_entries enc2) = {97}" using o(5) menu_facts(2) by simp
  have can: "canonical {97} (en_sym enc2)" using o(3) al by (simp add: ready_def)
  have so: "symbols_ok {97} ?si" using parsed_ok[OF can] o(2) al by (simp add: opened_def)
  note bps = symbols_okD(1,2)[OF so]
  have cnt: "tp_dict_count d = 1"
    using o(2,3,5) by (simp add: opened_def tp_dict_count_def ready_def enc_ok_def menu_encoder_def)
  have len: "len \<le> length buf" "len \<le> 1152921504606846976" "0 < len" using o(4) by (simp_all add: file_layout_def)
  obtain r where c: "tp_bs_reader_create ?heap (Some buf) (wrap64 (len * 8)) = Ok r"
    by (simp add: tp_bs_reader_create_def SIZEOF_READER_def)
  have rr: "reader_ok r" "r = (bytes_reader buf 0)\<lparr>r_bit_len := 8 * len\<rparr>" using reader_create_ok[OF len(1,2) c] by blast+
  have r: "reader_ok r" "r_bytes r = buf" "r_bit_len r = 8 * len"
    using rr(1) unfolding rr(2) by (simp_all add: bytes_reader_def r_bytes_def)
  have le: "d_trie_start d \<le> 8 * len" using opened_streams(3)[OF o(3,4,2) r] .
  let ?r = "r\<lparr>r_pos := d_trie_start d\<rparr>"
  have r': "reader_ok ?r" "r_bytes ?r = buf" "r_bit_len ?r = 8 * len" using r le by (simp_all add: reader_ok_def r_bytes_def)
  have "starts ?r (chr_bits ?si 97 @ ctl_bits ?si TP_CTRL_END_VAL @ num_bits 0)"
    using opened_streams(1)[OF o(3,4,2) r'] o(5) menu_trie[of ?si] by simp
  then have st: "starts ?r (chr_bits ?si 97)" "starts (adv ?bps ?r) (ctl_bits ?si TP_CTRL_END_VAL)"
    "starts (adv ?bps (adv ?bps ?r)) (num_bits 0)"
    by (simp_all add: starts_append)
  let ?c = "symbol_code ?si 97"
  have code: "?c < 2 ^ ?bps" using symbols_okD(4)[OF so] by simp
  note rd1 = read_code(1,3)[OF bps code, of ?r] and rd2 = read_ctl(2)[OF so _ st(2)] and rd3 = read_num[OF st(3)]
  have ctl: "ctrl_code ?si TP_CTRL_END_VAL < 2 ^ ?bps" using symbols_okD(3)[OF so] by (simp add: ctrl_defs)
  have w2: "wrap32 (unat (word_of_nat (ctrl_code ?si TP_CTRL_END_VAL) :: u64)) = ctrl_code ?si TP_CTRL_END_VAL"
    using read_code(3)[OF bps ctl, of "adv ?bps ?r"] st(2) by (simp add: ctl_bits_def)
  have ne: "?c \<noteq> ctrl_code ?si TP_CTRL_END" "?c \<noteq> ctrl_code ?si TP_CTRL_END_VAL" "?c \<noteq> ctrl_code ?si TP_CTRL_BRANCH"
    "?c \<noteq> ctrl_code ?si TP_CTRL_SKIP" using symbol_code_not_ctrl[OF so] by (simp_all add: ctrl_defs)
  have ne2: "ctrl_code ?si TP_CTRL_END_VAL \<noteq> ctrl_code ?si TP_CTRL_END" using ctrl_code_inj[OF so] by (simp add: ctrl_defs)
  have "(2 :: nat) ^ ?bps \<le> 2 ^ 8" using bps(2) by (intro power_increasing) simp_all
  then have c256: "?c < 256" using code by simp
  let ?w0 = "\<lparr>wk_entries = [], wk_key = replicate KEY_BUF 0, wk_key_len = 0, wk_stack = []\<rparr>"
  let ?w1 = "\<lparr>wk_entries = [], wk_key = (replicate KEY_BUF 0)[0 := 97], wk_key_len = 1, wk_stack = []\<rparr>"
  let ?w2 = "?w1\<lparr>wk_entries := [\<lparr>f_key = [97, 0], f_key_len = 1, f_val = v\<rparr>]\<rparr>"
  have take: "take_symbol ?si ?c ?w0 = Ok ?w1"
    using chr_not_is_ctrl[OF so] c256 symbols_okD(7)[OF so] by (simp add: take_symbol_def Let_def store_def KEY_BUF_def)
  have "(replicate KEY_BUF 0)[0 := 97 :: u8] = 97 # replicate 4095 0"
  proof -
    have n: "KEY_BUF = Suc 4095" by (simp add: KEY_BUF_def)
    show ?thesis unfolding n replicate_Suc by (simp only: list_update.simps nat.case)
  qed
  then have add: "add_entry ?heap d 1 ?w1 = Ok ?w2"
    using a by (simp add: add_entry_def Let_def found_value_def)
  obtain f where f: "8 * len = Suc f" using len(3) by (cases len) auto
  have walk2: "walk (Suc (8 * len)) ?heap d 1 ?w1 (adv ?bps ?r) = (Ok ?w2, adv (length (num_bits 0)) (adv ?bps (adv ?bps ?r)))"
    using rd2 rd3 w2 ne2 add f by (simp add: Let_def sbind_def ctrl_defs)
  have walk1: "walk (walk_fuel len) ?heap d 1 ?w0 ?r = walk (Suc (8 * len)) ?heap d 1 ?w1 (adv ?bps ?r)"
    using rd1 st(1) ne take unfolding walk_fuel_def add_2_eq_Suc' walk.simps(2)[of "Suc (8 * len)"]
    by (simp add: Let_def sbind_def chr_bits_def del: walk.simps)
  show ?thesis
    using o(1) cnt c le r(3) walk1 walk2 meta
    by (simp add: extract_entries_def Let_def sbind_def tp_bs_reader_seek_def SIZEOF_FLAT_ENTRY_def MAX_FRAMES_def SIZEOF_WALK_FRAME_def
        root_number_def is_meta_def del: walk.simps)
qed

text \<open>Decoded, the file is \<open>{"a":"\n\<dots>"}\<close> with the two bytes of the character as they are stored.\<close>

definition menu_text :: "u8 list" where
  "menu_text = [123, 34, 97, 34, 58, 34, 92, 110, 0xC3, 0xA9, 34, 125]"

lemma menu_printed:
  assumes s: "3 \<le> length s" "take 3 s = [10, 0xC3, 0xA9]" and es: "es = [\<lparr>f_key = [97, 0], f_key_len = 1, f_val = TP_STRING (Some s) 3\<rparr>]"
  shows "emit_json emit_fuel zero_printf 1000000 es None [0] 0 0 sb_init = (Ok (), page menu_text)"
proof -
  have fuel: "emit_fuel = Suc 4096" by (simp add: emit_fuel_def)
  have seg: "segment_pos 0 (es ! 0) = 0" "fst (segment_of 0 (es ! 0)) = 1" "f_key (es ! 0) = [97, 0]"
    by (simp_all add: es segment_pos_def segment_of_def next_segment_def segment_end.simps)
  have path: "new_prefix False [0] 0 (es ! 0) = Ok (97 # replicate 4095 0, 1)"
    by (simp add: es new_prefix_def Let_def memcpy_def store_def segment_pos_def segment_of_def next_segment_def
        segment_end.simps update_replicate)
  have leaf: "leaf_at es (97 # replicate 4095 0) 1 = Some (TP_STRING (Some s) 3)" "\<not> has_children es (97 # replicate 4095 0) 1"
    by (simp_all add: es leaf_at_def has_children_def is_meta_def)
  have root: "list_ex (deeper [0] 0) es"
    "\<not> list_all (\<lambda>e. deeper [0] 0 e \<longrightarrow> is_array_index (f_key e) (f_key_len e) (segment_pos 0 e)) es"
    "fold_res (collect_step 1000000 es [0] 0) [0..<length es] ([], 0) = Ok ([0], 16)"
    by (simp_all add: es is_meta_def deeper_def below_def segment_pos_def is_array_index_def
      collect_step_def segment_of_def next_segment_def segment_end.simps Let_def)
  have q: "quoted [97] = [34, 97, 34]" "quoted [10, 0xC3, 0xA9] = [34, 92, 110, 0xC3, 0xA9, 34]"
    by (simp_all add: quoted_def escaped_def)
  have str: "sb_append_value zero_printf 1000000 (TP_STRING (Some s) 3) (page t) = (Ok (), page (t @ quoted [10, 0xC3, 0xA9]))"
    if "length t \<le> 100" for t
    using page_string(1)[of 3 s t 1000000] s that by (simp add: sb_append_value_def q)
  have one: "emit_segment zero_printf 1000000 es [0] 0 None 0 False (\<lambda>np n. emit_json 4096 zero_printf 1000000 es None np n 1) 0 0 (page [123]) =
      (Ok (), page [123, 34, 97, 34, 58, 34, 92, 110, 0xC3, 0xA9, 34])"
    using seg path leaf str page_string(1)[of 1 "[97, 0]" "[123]" 1000000]
    by (simp add: emit_segment_def Let_def sbind_def page_char q del: emit_json.simps)
  show ?thesis unfolding fuel emit_json.simps(2)[of 4096] Let_def if_not_P[OF root(2)] root(3)
    using root(1,2) one by (simp add: sbind_def page_char first_char menu_text_def del: emit_json.simps)
qed

lemma menu_decoded:
  "\<exists>buf len s n v p. len \<le> length buf \<and> len \<le> 1152921504606846976 \<and>
     extract_entries insertion_sort 1000000 buf len = Ok ([\<lparr>f_key = [97, 0], f_key_len = 1, f_val = v\<rparr>], TP_JSON_ROOT_OBJECT) \<and>
     v = TP_STRING (Some p) 3 \<and> 3 \<le> length p \<and> take 3 p = [10, 0xC3, 0xA9] \<and>
     (\<exists>enc2. tp_encoder_build insertion_sort 1000000 menu_encoder = (Ok (buf, len), enc2)) \<and>
     decode_impl zero_printf insertion_sort 1000000 buf len None = Ok (s, n) \<and> take n s = menu_text"
proof -
  obtain buf len enc2 d v where m: "tp_encoder_build insertion_sort 1000000 menu_encoder = (Ok (buf, len), enc2)"
    "tp_dict_open 1000000 (Some buf) len = Ok d" "opened enc2 True buf len d" "ready enc2" "file_layout enc2 True buf len"
    "en_entries enc2 = en_entries menu_encoder" "tp_dict_lookup_n 1000000 d (Some [97, 0]) 1 True = Ok (Some v)"
    "tp_dict_lookup 1000000 d (Some TP_JSON_META_ROOT) True = Err TP_ERR_NOT_FOUND"
    and v: "\<exists>p. v = TP_STRING p 3 \<and> view p 3 = Some [10, 0xC3, 0xA9]"
    using menu_opened by blast
  obtain p where p: "v = TP_STRING (Some p) 3" "3 \<le> length p" "take 3 p = [10, 0xC3, 0xA9]"
    using v by (auto simp: view_def split: option.splits if_splits)
  note x = menu_extracted[OF m(2-8)]
  have len: "len \<le> length buf" "len \<le> 1152921504606846976" using m(5) by (simp_all add: file_layout_def)
  have "decode_impl zero_printf insertion_sort 1000000 buf len None = Ok (sb_data (page (menu_text @ [0])), 12)"
  proof -
    have l: "length menu_text = 12" by (simp add: menu_text_def)
    have "finish_text 1000000 (Ok (), page menu_text) = Ok (sb_data (page (menu_text @ [0])), sb_len (page (menu_text @ [0])) - 1)"
      using l by (simp add: finish_text_def sbind_def page_char)
    moreover have "sb_len (page (menu_text @ [0])) - 1 = 12" by (simp add: page_def l)
    ultimately show ?thesis using menu_printed[OF p(2,3) refl] by (simp add: decode_impl_def x p(1))
  qed
  moreover have "take 12 (sb_data (page (menu_text @ [0]))) = menu_text" by (simp add: page_def menu_text_def)
  ultimately show ?thesis using len x p m(1) by blast
qed

lemma menu_units: "units utf8_unit [97]" "units utf8_unit [10, 0xC3, 0xA9]"
proof -
  have u: "utf8_unit [0xC3, 0xA9]" by (simp add: utf8_unit_def cont_byte_def)
  show "units utf8_unit [97]" by (simp add: units_ascii units_none)
  show "units utf8_unit [10, 0xC3, 0xA9]" using units_multi[of utf8_unit, OF u units_none] by (simp add: units_ascii)
qed

end
