(* ===== verification/Terseml.thy ===== *)
theory Terseml
  imports Clib
begin

text \<open>
  The terse ML format, \<open>src/terseml/terseml.c\<close>: documents and the arena that holds them, the byte
  buffer, the encoder, and the functions a client builds trees with.

  A pair of pointer and length is the list of its bytes; an attribute's key or value that is NULL
  although its length is positive is \<open>None\<close>. Nodes are values: the tree a client builds, without sharing. The arena
  keeps what decides whether an allocation succeeds, fill and capacity of its blocks. Every allocation of at most \<open>heap\<close>
  bytes succeeds. Sizes of objects in memory are naturals; where the code doubles or rounds, the wrap-around is written out.
\<close>

section \<open>Results, nodes, documents\<close>

datatype tsml_result =
    TSML_OK
  | TSML_ERR_MALFORMED
  | TSML_ERR_DEPTH
  | TSML_ERR_ALLOC
  | TSML_ERR_PARAM

type_synonym 'a tsml = "(tsml_result, 'a) res"

definition tsml_strerror :: "tsml_result \<Rightarrow> string" where
  "tsml_strerror rc =
     (case rc of
        TSML_OK \<Rightarrow> ''OK''
      | TSML_ERR_MALFORMED \<Rightarrow> ''malformed document''
      | TSML_ERR_DEPTH \<Rightarrow> ''nesting too deep''
      | TSML_ERR_ALLOC \<Rightarrow> ''out of memory''
      | TSML_ERR_PARAM \<Rightarrow> ''invalid parameter'')"

datatype tsml_attr = Attr (attr_key: ptr) (attr_val: ptr)

datatype tsml_node =
    TSML_TEXT "u8 list"
  | TSML_ELEMENT "u8 list" "tsml_attr list" "tsml_node list"

definition TSML_MAX_DEPTH :: nat where "TSML_MAX_DEPTH = 256"
definition TSML_TAG_TEXT :: "u8 list" where "TSML_TAG_TEXT = [35, 116, 101, 120, 116]"

definition BS :: u8 where "BS = 0x5C"
definition LBR :: u8 where "LBR = 0x7B"
definition RBR :: u8 where "RBR = 0x7D"
definition LSQ :: u8 where "LSQ = 0x5B"
definition RSQ :: u8 where "RSQ = 0x5D"
definition COM :: u8 where "COM = 0x2C"
definition COL :: u8 where "COL = 0x3A"

lemmas byte_defs = BS_def LBR_def RBR_def LSQ_def RSQ_def COM_def COL_def

definition SIZEOF_NODE :: nat where "SIZEOF_NODE = 72"
definition SIZEOF_ATTR :: nat where "SIZEOF_ATTR = 32"
definition SIZEOF_POINTER :: nat where "SIZEOF_POINTER = 8"
definition SIZEOF_ARENA_BLOCK :: nat where "SIZEOF_ARENA_BLOCK = 32"
definition SIZEOF_DOC :: nat where "SIZEOF_DOC = 32"
definition ARENA_MIN :: nat where "ARENA_MIN = 64 * 1024"

lemmas size_defs = SIZEOF_NODE_def SIZEOF_ATTR_def SIZEOF_POINTER_def SIZEOF_ARENA_BLOCK_def SIZEOF_DOC_def ARENA_MIN_def

text \<open>A document: used bytes and capacity of each arena block, the newest first, and its roots.\<close>

record tsml_doc =
  td_blocks :: "(nat \<times> nat) list"
  td_roots :: "tsml_node list"
  td_roots_cap :: nat

section \<open>The arena\<close>

text \<open>Whether memory was found, and the arena behind it.\<close>

definition arena_alloc :: "nat \<Rightarrow> nat \<Rightarrow> tsml_doc \<Rightarrow> bool \<times> tsml_doc" where
  "arena_alloc heap n d =
     (let n = wrap64 (n + 15) div 16 * 16;
          fresh = (let cap = (if n > ARENA_MIN then n else ARENA_MIN) in
                   if heap < wrap64 (SIZEOF_ARENA_BLOCK + cap) then (False, d)
                   else (True, d\<lparr>td_blocks := (n, cap) # td_blocks d\<rparr>)) in
      case td_blocks d of
        [] \<Rightarrow> fresh
      | (used, cap) # bs \<Rightarrow> if cap - used < n then fresh else (True, d\<lparr>td_blocks := (used + n, cap) # bs\<rparr>))"

type_synonym 'a building = "tsml_doc \<Rightarrow> 'a tsml \<times> tsml_doc"

definition arena_dup :: "nat \<Rightarrow> ptr \<Rightarrow> nat \<Rightarrow> ptr building" where
  "arena_dup heap src n d =
     (if n = 0 then (Ok (Some []), d)
      else case arena_alloc heap n d of
        (False, d) \<Rightarrow> (Ok None, d)
      | (True, d) \<Rightarrow>
          (case src of
             None \<Rightarrow> (Fault, d)
           | Some bs \<Rightarrow> if n \<le> length bs then (Ok (Some (take n bs)), d) else (Fault, d)))"

definition doc_new :: "nat \<Rightarrow> tsml_doc tsml" where
  "doc_new heap =
     (if heap < SIZEOF_DOC then Err TSML_ERR_ALLOC else Ok \<lparr>td_blocks = [], td_roots = [], td_roots_cap = 0\<rparr>)"

definition tsml_doc_root :: "tsml_doc option \<Rightarrow> tsml_node option" where
  "tsml_doc_root doc =
     (case doc of Some d \<Rightarrow> if td_roots d \<noteq> [] then Some (td_roots d ! 0) else None | None \<Rightarrow> None)"

definition tsml_doc_count :: "tsml_doc option \<Rightarrow> nat" where
  "tsml_doc_count doc = (case doc of Some d \<Rightarrow> length (td_roots d) | None \<Rightarrow> 0)"

definition tsml_doc_node :: "tsml_doc option \<Rightarrow> nat \<Rightarrow> tsml_node option" where
  "tsml_doc_node doc i =
     (case doc of Some d \<Rightarrow> if i < length (td_roots d) then Some (td_roots d ! i) else None | None \<Rightarrow> None)"

text \<open>The growing arrays: \<open>if (n == cap) { cap = cap ? cap * 2 : first; realloc(v, cap * size) }\<close>.\<close>

definition grow_vec :: "nat \<Rightarrow> nat \<Rightarrow> nat \<Rightarrow> nat \<Rightarrow> nat \<Rightarrow> nat tsml" where
  "grow_vec heap elem first n cap =
     (if n = cap then
        let cap = (if cap \<noteq> 0 then cap * 2 else first) in
        if heap < cap * elem then Err TSML_ERR_ALLOC else Ok cap
      else Ok cap)"

definition push_root :: "nat \<Rightarrow> tsml_node \<Rightarrow> unit building" where
  "push_root heap n d =
     (case grow_vec heap SIZEOF_POINTER 8 (length (td_roots d)) (td_roots_cap d) of
        Ok cap \<Rightarrow> (Ok (), d\<lparr>td_roots := td_roots d @ [n], td_roots_cap := cap\<rparr>)
      | Err e \<Rightarrow> (Err e, d)
      | Fault \<Rightarrow> (Fault, d)
      | Diverge \<Rightarrow> (Diverge, d))"

section \<open>The byte buffer\<close>

text \<open>The bytes written so far are \<open>len\<close> many. \<open>oom\<close> stays set once an allocation has failed, and then
  nothing more is written.\<close>

record tsml_buf =
  bf_p :: "u8 list"
  bf_cap :: nat
  bf_oom :: bool

type_synonym putting = "tsml_buf \<Rightarrow> unit tsml \<times> tsml_buf"

definition buf_new :: tsml_buf where
  "buf_new = \<lparr>bf_p = [], bf_cap = 0, bf_oom = False\<rparr>"

text \<open>\<open>while (cap - len < n) cap *= 2;\<close> 64 doublings wrap to 0, and then nothing changes any more.\<close>

fun double_cap :: "nat \<Rightarrow> nat \<Rightarrow> nat \<Rightarrow> nat \<Rightarrow> nat tsml" where
  "double_cap 0 len n cap = Diverge"
| "double_cap (Suc k) len n cap =
     (if wrap64 (cap + 18446744073709551616 - len) < n then double_cap k len n (wrap64 (cap * 2)) else Ok cap)"

definition buf_need :: "nat \<Rightarrow> nat \<Rightarrow> putting" where
  "buf_need heap n b =
     (if bf_oom b \<or> bf_cap b - length (bf_p b) \<ge> n then (Ok (), b)
      else
        sbind (slift (double_cap 66 (length (bf_p b)) n (if bf_cap b \<noteq> 0 then wrap64 (bf_cap b * 2) else 4096))) (\<lambda>cap b.
          if heap < cap then (Ok (), b\<lparr>bf_oom := True\<rparr>) else (Ok (), b\<lparr>bf_cap := cap\<rparr>)) b)"

definition buf_put :: "nat \<Rightarrow> u8 \<Rightarrow> putting" where
  "buf_put heap c =
     sbind (buf_need heap 1) (\<lambda>_ b.
       if bf_oom b then (Ok (), b)
       else if length (bf_p b) < bf_cap b then (Ok (), b\<lparr>bf_p := bf_p b @ [c]\<rparr>)
       else (Fault, b))"

definition buf_write :: "nat \<Rightarrow> u8 list \<Rightarrow> nat \<Rightarrow> putting" where
  "buf_write heap src n =
     sbind (buf_need heap n) (\<lambda>_ b.
       if \<not> bf_oom b \<and> n \<noteq> 0 then
         if length (bf_p b) + n \<le> bf_cap b \<and> n \<le> length src then (Ok (), b\<lparr>bf_p := bf_p b @ take n src\<rparr>)
         else (Fault, b)
       else (Ok (), b))"

section \<open>Escaping\<close>

datatype esc_ctx = CTX_TAG | CTX_KEY | CTX_VAL | CTX_TEXT

definition is_reserved :: "esc_ctx \<Rightarrow> u8 \<Rightarrow> bool" where
  "is_reserved ctx c \<longleftrightarrow>
     c = BS \<or>
     (case ctx of
        CTX_TAG \<Rightarrow> c = COM \<or> c = LBR \<or> c = RBR
      | CTX_KEY \<Rightarrow> c = COL \<or> c = COM \<or> c = RSQ
      | CTX_VAL \<Rightarrow> c = COM \<or> c = RSQ
      | CTX_TEXT \<Rightarrow> c = LBR \<or> c = RBR)"

text \<open>The loop at index \<open>i\<close>, with \<open>k\<close> bytes to go; the run without reserved bytes began at \<open>start\<close>.\<close>

fun escape_runs :: "nat \<Rightarrow> esc_ctx \<Rightarrow> u8 list \<Rightarrow> nat \<Rightarrow> bool \<Rightarrow> nat \<Rightarrow> nat \<Rightarrow> nat \<Rightarrow> putting" where
  "escape_runs heap ctx s n lead_bracket 0 i start = buf_write heap (drop start s) (n - start)"
| "escape_runs heap ctx s n lead_bracket (Suc k) i start =
     sbind (slift (fetch s i)) (\<lambda>c.
       if is_reserved ctx c \<or> (i = 0 \<and> lead_bracket \<and> c = LSQ) then
         sbind (buf_write heap (drop start s) (i - start)) (\<lambda>_.
         sbind (buf_put heap BS) (\<lambda>_.
         sbind (buf_put heap c) (\<lambda>_. escape_runs heap ctx s n lead_bracket k (i + 1) (i + 1))))
       else escape_runs heap ctx s n lead_bracket k (i + 1) start)"

definition write_escaped :: "nat \<Rightarrow> esc_ctx \<Rightarrow> u8 list \<Rightarrow> nat \<Rightarrow> bool \<Rightarrow> putting" where
  "write_escaped heap ctx s n lead_bracket = escape_runs heap ctx s n lead_bracket n 0 0"

definition valid_escape :: "u8 \<Rightarrow> bool" where
  "valid_escape c \<longleftrightarrow> c = LBR \<or> c = RBR \<or> c = LSQ \<or> c = RSQ \<or> c = COM \<or> c = COL \<or> c = BS"

fun varint_len :: "nat \<Rightarrow> nat" where
  "varint_len n = (if n \<ge> 0x80 then varint_len (n div 128) + 1 else 1)"

fun varint_put :: "nat \<Rightarrow> nat \<Rightarrow> putting" where
  "varint_put heap n =
     (let c = n mod 128; n' = n div 128 in
      if n' = 0 then buf_put heap (word_of_nat c)
      else sbind (buf_put heap (word_of_nat c OR 0x80)) (\<lambda>_. varint_put heap n'))"

declare varint_len.simps [simp del] varint_put.simps [simp del]

section \<open>The forms of a run\<close>

datatype bin_form = FORM_INLINE | FORM_TERMINATED | FORM_COUNTED

definition choose_form :: "u8 list \<Rightarrow> nat \<Rightarrow> bool \<Rightarrow> bin_form" where
  "choose_form s n lead_bracket =
     (let inl = n + length (filter (\<lambda>c. c = LBR \<or> c = RBR \<or> c = BS) (take n s));
          term = n + 3 + length (filter (\<lambda>c. c = 0 \<or> c = BS) (take n s));
          cnt = 2 + varint_len n + n;
          inl = (if lead_bracket \<and> n \<noteq> 0 \<and> s ! 0 = LSQ then inl + 1 else inl) in
      if cnt \<le> term \<and> cnt \<le> inl then FORM_COUNTED
      else if term \<le> inl then FORM_TERMINATED
      else FORM_INLINE)"

fun binary_runs :: "nat \<Rightarrow> u8 list \<Rightarrow> nat \<Rightarrow> nat \<Rightarrow> nat \<Rightarrow> nat \<Rightarrow> putting" where
  "binary_runs heap s n 0 i start = buf_write heap (drop start s) (n - start)"
| "binary_runs heap s n (Suc k) i start =
     sbind (slift (fetch s i)) (\<lambda>c.
       if c \<noteq> 0 \<and> c \<noteq> BS then binary_runs heap s n k (i + 1) start
       else
         sbind (buf_write heap (drop start s) (i - start)) (\<lambda>_.
         sbind (buf_put heap BS) (\<lambda>_.
         sbind (buf_put heap (if c = 0 then 48 else BS)) (\<lambda>_. binary_runs heap s n k (i + 1) (i + 1)))))"

definition write_binary :: "nat \<Rightarrow> u8 list \<Rightarrow> nat \<Rightarrow> bin_form \<Rightarrow> putting" where
  "write_binary heap s n form =
     (if form = FORM_COUNTED then
        sbind (buf_put heap BS) (\<lambda>_.
        sbind (buf_put heap 66) (\<lambda>_.
        sbind (varint_put heap n) (\<lambda>_. buf_write heap s n)))
      else
        sbind (buf_put heap BS) (\<lambda>_.
        sbind (buf_put heap 98) (\<lambda>_.
        sbind (binary_runs heap s n n 0 0) (\<lambda>_. buf_put heap 0))))"

section \<open>Encoding\<close>

definition write_text :: "nat \<Rightarrow> u8 list \<Rightarrow> bool \<Rightarrow> putting" where
  "write_text heap s at_start =
     (let f = choose_form s (length s) at_start in
      if f = FORM_INLINE then write_escaped heap CTX_TEXT s (length s) at_start
      else write_binary heap s (length s) f)"

text \<open>A NULL key or value of positive length is read through.\<close>

definition write_part :: "nat \<Rightarrow> esc_ctx \<Rightarrow> ptr \<Rightarrow> putting" where
  "write_part heap ctx p = (case p of None \<Rightarrow> slift Fault | Some s \<Rightarrow> write_escaped heap ctx s (length s) False)"

fun encode_attrs :: "nat \<Rightarrow> nat \<Rightarrow> tsml_attr list \<Rightarrow> putting" where
  "encode_attrs heap i [] = sret ()"
| "encode_attrs heap i (a # as) =
     sbind (if i \<noteq> 0 then buf_put heap COM else sret ()) (\<lambda>_.
     sbind (write_part heap CTX_KEY (attr_key a)) (\<lambda>_.
     sbind (buf_put heap COL) (\<lambda>_.
     sbind (write_part heap CTX_VAL (attr_val a)) (\<lambda>_. encode_attrs heap (i + 1) as))))"

fun encode_node :: "nat \<Rightarrow> tsml_node \<Rightarrow> nat \<Rightarrow> putting"
  and encode_children :: "nat \<Rightarrow> bool \<Rightarrow> nat \<Rightarrow> tsml_node list \<Rightarrow> nat \<Rightarrow> putting" where
  "encode_node heap (TSML_TEXT s) dep =
     (if dep > TSML_MAX_DEPTH then (\<lambda>b. (Ok (), b\<lparr>bf_oom := True\<rparr>))
      else
        sbind (buf_put heap LBR) (\<lambda>_.
        sbind (buf_write heap TSML_TAG_TEXT 5) (\<lambda>_.
        sbind (buf_put heap COM) (\<lambda>_.
        sbind (write_text heap s True) (\<lambda>_. buf_put heap RBR)))))"
| "encode_node heap (TSML_ELEMENT tag attrs children) dep =
     (if dep > TSML_MAX_DEPTH then (\<lambda>b. (Ok (), b\<lparr>bf_oom := True\<rparr>))
      else
        sbind (buf_put heap LBR) (\<lambda>_.
        sbind (write_escaped heap CTX_TAG tag (length tag) False) (\<lambda>_.
        sbind (if attrs \<noteq> [] then
                 sbind (buf_put heap COM) (\<lambda>_.
                 sbind (buf_put heap LSQ) (\<lambda>_.
                 sbind (encode_attrs heap 0 attrs) (\<lambda>_. buf_put heap RSQ)))
               else sret ()) (\<lambda>_.
        sbind (buf_put heap COM) (\<lambda>_.
        sbind (encode_children heap (attrs = []) 0 children dep) (\<lambda>_. buf_put heap RBR))))))"
| "encode_children heap no_attrs i [] dep = sret ()"
| "encode_children heap no_attrs i (c # cs) dep =
     sbind (case c of
              TSML_ELEMENT _ _ _ \<Rightarrow> encode_node heap c (dep + 1)
            | TSML_TEXT s \<Rightarrow> write_text heap s (i = 0 \<and> no_attrs)) (\<lambda>_.
     encode_children heap no_attrs (i + 1) cs dep)"

definition tsml_encode :: "nat \<Rightarrow> tsml_node option \<Rightarrow> u8 list tsml" where
  "tsml_encode heap node =
     (case node of
        None \<Rightarrow> Err TSML_ERR_PARAM
      | Some n \<Rightarrow>
          (case encode_node heap n 0 buf_new of
             (Ok _, b) \<Rightarrow> if bf_oom b then Err TSML_ERR_ALLOC else Ok (bf_p b)
           | (Err e, b) \<Rightarrow> Err e
           | (Fault, b) \<Rightarrow> Fault
           | (Diverge, b) \<Rightarrow> Diverge))"

section \<open>Building\<close>

text \<open>The arena is a pointer that may be NULL; the result \<open>None\<close> is NULL.\<close>

definition tsml_builder_create :: "nat \<Rightarrow> tsml_doc tsml" where
  "tsml_builder_create heap = doc_new heap"

definition tsml_text :: "nat \<Rightarrow> ptr \<Rightarrow> nat \<Rightarrow> tsml_node option building" where
  "tsml_text heap s len d =
     (case arena_alloc heap SIZEOF_NODE d of
        (False, d) \<Rightarrow> (Ok None, d)
      | (True, d) \<Rightarrow> sbind (arena_dup heap s len) (\<lambda>p. sret (map_option TSML_TEXT p)) d)"

definition tsml_element :: "nat \<Rightarrow> ptr \<Rightarrow> nat \<Rightarrow> tsml_node option building" where
  "tsml_element heap tag len d =
     (case arena_alloc heap SIZEOF_NODE d of
        (False, d) \<Rightarrow> (Ok None, d)
      | (True, d) \<Rightarrow> sbind (arena_dup heap tag len) (\<lambda>p. sret (map_option (\<lambda>t. TSML_ELEMENT t [] []) p)) d)"

text \<open>The element behind the call is the result.\<close>

definition tsml_add_attr :: "nat \<Rightarrow> tsml_node \<Rightarrow> ptr \<Rightarrow> nat \<Rightarrow> ptr \<Rightarrow> nat \<Rightarrow> tsml_node building" where
  "tsml_add_attr heap el key key_len val val_len d =
     (case el of
        TSML_TEXT _ \<Rightarrow> (Err TSML_ERR_PARAM, d)
      | TSML_ELEMENT tag attrs children \<Rightarrow>
          (case arena_alloc heap ((length attrs + 1) * SIZEOF_ATTR) d of
             (False, d) \<Rightarrow> (Err TSML_ERR_ALLOC, d)
           | (True, d) \<Rightarrow>
               sbind (arena_dup heap key key_len) (\<lambda>k.
               sbind (arena_dup heap val val_len) (\<lambda>v.
               sret (TSML_ELEMENT tag (attrs @ [Attr k v]) children))) d))"

definition tsml_add_child :: "nat \<Rightarrow> tsml_node \<Rightarrow> tsml_node option \<Rightarrow> tsml_node building" where
  "tsml_add_child heap el child d =
     (case (el, child) of
        (TSML_ELEMENT tag attrs children, Some c) \<Rightarrow>
          (case arena_alloc heap ((length children + 1) * SIZEOF_POINTER) d of
             (False, d) \<Rightarrow> (Err TSML_ERR_ALLOC, d)
           | (True, d) \<Rightarrow> (Ok (TSML_ELEMENT tag attrs (children @ [c])), d))
      | _ \<Rightarrow> (Err TSML_ERR_PARAM, d))"

end
