(* ===== verification/Terseml_Decode.thy ===== *)
theory Terseml_Decode
  imports Terseml
begin

text \<open>
  The terse ML decoder, \<open>src/terseml/terseml.c\<close> lines 376-795: a recursive descent over the bytes, with the
  document's arena for what cannot point into the input. The reader is the state. Elements and their
  children are mutually recursive and take fuel, as does the attribute loop; every round reads at least one
  byte, so a bound in the length of the input is enough.
\<close>

section \<open>The reader\<close>

record rdr =
  rd_buf :: "u8 list"
  rd_len :: nat
  rd_i :: nat
  rd_doc :: tsml_doc

type_synonym 'a decoding = "rdr \<Rightarrow> 'a tsml \<times> rdr"

definition alloc :: "nat \<Rightarrow> nat \<Rightarrow> unit decoding" where
  "alloc heap n r =
     (case arena_alloc heap n (rd_doc r) of
        (True, d) \<Rightarrow> (Ok (), r\<lparr>rd_doc := d\<rparr>)
      | (False, d) \<Rightarrow> (Err TSML_ERR_ALLOC, r\<lparr>rd_doc := d\<rparr>))"

text \<open>The byte at the cursor, if there is one, and moving the cursor.\<close>

definition here :: "u8 option decoding" where
  "here r = (if rd_i r < rd_len r then sbind (slift (fetch (rd_buf r) (rd_i r))) (\<lambda>c. sret (Some c)) r else (Ok None, r))"

definition goto :: "nat \<Rightarrow> unit decoding" where
  "goto i r = (Ok (), r\<lparr>rd_i := i\<rparr>)"

definition step :: "unit decoding" where
  "step r = (Ok (), r\<lparr>rd_i := rd_i r + 1\<rparr>)"

text \<open>The first position from \<open>i\<close> on whose byte satisfies \<open>stop\<close>, or the end.\<close>

function scan :: "(u8 \<Rightarrow> bool) \<Rightarrow> u8 list \<Rightarrow> nat \<Rightarrow> nat \<Rightarrow> nat tsml" where
  "scan stop b n i =
     (if i < n then rbind (fetch b i) (\<lambda>c. if stop c then Ok i else scan stop b n (i + 1)) else Ok i)"
  by pat_completeness auto
termination by (relation "measure (\<lambda>(stop, b, n, i). n - i)") auto

declare scan.simps [simp del]

lemma scan_le: "scan stop b n i = Ok j \<Longrightarrow> i \<le> j"
proof (induction stop b n i rule: scan.induct)
  case (1 stop b n i)
  show ?case
  proof (cases "i < n \<and> i < length b \<and> \<not> stop (b ! i)")
    case True
    then show ?thesis using 1 by (fastforce simp: scan.simps[of stop b n i] fetch_def)
  next
    case False
    then show ?thesis using 1(2) by (auto simp: scan.simps[of stop b n i] fetch_def split: if_splits)
  qed
qed

lemma scan_less:
  assumes "scan stop b n i = Ok j" and "i < n" and "(fetch b i :: u8 tsml) = Ok c" and "\<not> stop c" shows "i < j"
proof -
  have "scan stop b n (i + 1) = Ok j" using assms(1) unfolding scan.simps[of stop b n i] by (simp add: assms(2-4))
  then show ?thesis using scan_le by fastforce
qed

section \<open>Escaped bytes\<close>

text \<open>The end of a run with escapes, and how many there are.\<close>

function measure_escapes :: "esc_ctx \<Rightarrow> u8 list \<Rightarrow> nat \<Rightarrow> nat \<Rightarrow> nat \<Rightarrow> (nat \<times> nat) tsml" where
  "measure_escapes ctx b n i nesc =
     (if i < n then
        rbind (fetch b i) (\<lambda>c.
        if c = BS then
          if i + 1 \<ge> n then Err TSML_ERR_MALFORMED
          else rbind (fetch b (i + 1)) (\<lambda>e.
            if \<not> valid_escape e then Err TSML_ERR_MALFORMED else measure_escapes ctx b n (i + 2) (nesc + 1))
        else if is_reserved ctx c then Ok (i, nesc)
        else measure_escapes ctx b n (i + 1) nesc)
      else Ok (i, nesc))"
  by pat_completeness auto
termination by (relation "measure (\<lambda>(ctx, b, n, i, nesc). n - i)") auto

text \<open>Copying it; \<open>dst\<close> has room for \<open>cap\<close> bytes and \<open>w\<close> of them are written.\<close>

function copy_escaped :: "u8 list \<Rightarrow> nat \<Rightarrow> nat \<Rightarrow> nat \<Rightarrow> u8 list \<Rightarrow> u8 list tsml" where
  "copy_escaped b stop cap pos dst =
     (if pos < stop then
        rbind (fetch b pos) (\<lambda>c.
        if c = BS then
          rbind (fetch b (pos + 1)) (\<lambda>e.
          if length dst < cap then copy_escaped b stop cap (pos + 2) (dst @ [e]) else Fault)
        else
          rbind (scan (\<lambda>c. c = BS) b stop pos) (\<lambda>run.
          if length dst + (run - pos) \<le> cap then copy_escaped b stop cap run (dst @ take (run - pos) (drop pos b)) else Fault))
      else Ok dst)"
  by pat_completeness auto
termination by (relation "measure (\<lambda>(b, stop, cap, pos, dst). stop - pos)") (auto dest: scan_less intro: diff_less_mono2)

declare measure_escapes.simps [simp del] copy_escaped.simps [simp del]

definition read_escaped :: "nat \<Rightarrow> esc_ctx \<Rightarrow> u8 list decoding" where
  "read_escaped heap ctx r =
     (let b = rd_buf r; n = rd_len r; start = rd_i r in
      sbind (slift (scan (\<lambda>c. c = BS \<or> is_reserved ctx c) b n start)) (\<lambda>i.
      if i \<ge> n then sfail TSML_ERR_MALFORMED
      else
        sbind (slift (fetch b i)) (\<lambda>c.
        if c \<noteq> BS then sbind (goto i) (\<lambda>_. sret (take (i - start) (drop start b)))
        else
          sbind (slift (measure_escapes ctx b n i 0)) (\<lambda>(stop, nesc).
          if stop \<ge> n then sfail TSML_ERR_MALFORMED
          else
            sbind (alloc heap (stop - start - nesc)) (\<lambda>_.
            sbind (slift (copy_escaped b stop (stop - start - nesc) start [])) (\<lambda>dst.
            sbind (goto stop) (\<lambda>_. sret dst)))))) r)"

section \<open>Binary runs\<close>

text \<open>The length of a counted run, with \<open>k\<close> groups still allowed.\<close>

fun read_claim :: "nat \<Rightarrow> u8 list \<Rightarrow> nat \<Rightarrow> nat \<Rightarrow> nat \<Rightarrow> u64 \<Rightarrow> (u64 \<times> nat) tsml" where
  "read_claim 0 b n i shift claim = Err TSML_ERR_MALFORMED"
| "read_claim (Suc k) b n i shift claim =
     (if i \<ge> n then Err TSML_ERR_MALFORMED
      else
        rbind (fetch b i) (\<lambda>c.
        let claim = claim OR push_bit shift (ucast (c AND 0x7F)) in
        if c AND 0x80 = 0 then Ok (claim, i + 1) else read_claim k b n (i + 1) (shift + 7) claim))"

function measure_run :: "u8 list \<Rightarrow> nat \<Rightarrow> nat \<Rightarrow> nat \<Rightarrow> (nat \<times> nat) tsml" where
  "measure_run b n i nesc =
     (if i < n then
        rbind (fetch b i) (\<lambda>c.
        if c = 0 then Ok (i, nesc)
        else if c = BS then
          if i + 1 \<ge> n then Err TSML_ERR_MALFORMED
          else rbind (fetch b (i + 1)) (\<lambda>e.
            if e \<noteq> 48 \<and> e \<noteq> BS then Err TSML_ERR_MALFORMED else measure_run b n (i + 2) (nesc + 1))
        else measure_run b n (i + 1) nesc)
      else Ok (i, nesc))"
  by pat_completeness auto
termination by (relation "measure (\<lambda>(b, n, i, nesc). n - i)") auto

text \<open>The copy of it, and the position behind its terminator.\<close>

function copy_run :: "u8 list \<Rightarrow> nat \<Rightarrow> nat \<Rightarrow> nat \<Rightarrow> u8 list \<Rightarrow> (u8 list \<times> nat) tsml" where
  "copy_run b n cap i dst =
     (if i < n then
        rbind (fetch b i) (\<lambda>c.
        if c = 0 then Ok (dst, i + 1)
        else if c = BS then
          if i + 1 \<ge> n then Err TSML_ERR_MALFORMED
          else rbind (fetch b (i + 1)) (\<lambda>e.
            if e = 48 \<or> e = BS then
              if length dst < cap then copy_run b n cap (i + 2) (dst @ [if e = 48 then 0 else BS]) else Fault
            else Err TSML_ERR_MALFORMED)
        else if length dst < cap then copy_run b n cap (i + 1) (dst @ [c]) else Fault)
      else Err TSML_ERR_MALFORMED)"
  by pat_completeness auto
termination by (relation "measure (\<lambda>(b, n, cap, i, dst). n - i)") auto

declare measure_run.simps [simp del] copy_run.simps [simp del]

definition read_binary :: "nat \<Rightarrow> u8 list decoding" where
  "read_binary heap r =
     (let b = rd_buf r; n = rd_len r; i = rd_i r + 1 in
      if i \<ge> n then sfail TSML_ERR_MALFORMED r
      else
        sbind (slift (fetch b i)) (\<lambda>kind.
        let i = i + 1 in
        if kind = 66 then
          sbind (slift (read_claim 10 b n i 0 0)) (\<lambda>(claim, i).
          if unat claim > n - i then sfail TSML_ERR_MALFORMED
          else sbind (goto (i + unat claim)) (\<lambda>_. sret (take (unat claim) (drop i b))))
        else if kind \<noteq> 98 then sfail TSML_ERR_MALFORMED
        else
          sbind (slift (scan (\<lambda>c. c = 0 \<or> c = BS) b n i)) (\<lambda>j.
          sbind (if j < n then slift (fetch b j) else sret BS) (\<lambda>c.
          if j < n \<and> c = 0 then sbind (goto (j + 1)) (\<lambda>_. sret (take (j - i) (drop i b)))
          else
            sbind (slift (measure_run b n i 0)) (\<lambda>(stop, nesc).
            if stop \<ge> n then sfail TSML_ERR_MALFORMED
            else
              sbind (alloc heap (stop - i - nesc)) (\<lambda>_.
              sbind (slift (copy_run b n (stop - i - nesc) i [])) (\<lambda>(dst, i).
              sbind (goto i) (\<lambda>_. sret dst))))))) r)"

section \<open>Attributes\<close>

fun attr_loop :: "nat \<Rightarrow> nat \<Rightarrow> tsml_attr list \<Rightarrow> nat \<Rightarrow> tsml_attr list decoding" where
  "attr_loop 0 heap av cap = slift Diverge"
| "attr_loop (Suc fuel) heap av cap =
     sbind (read_escaped heap CTX_KEY) (\<lambda>key.
     sbind here (\<lambda>c.
     if c \<noteq> Some COL then sfail TSML_ERR_MALFORMED
     else
       sbind step (\<lambda>_.
       sbind (read_escaped heap CTX_VAL) (\<lambda>val.
       sbind (slift (grow_vec heap SIZEOF_ATTR 4 (length av) cap)) (\<lambda>cap.
       let av = av @ [Attr (Some key) (Some val)] in
       sbind here (\<lambda>c.
       if c = Some COM then
         sbind step (\<lambda>_.
         sbind here (\<lambda>c. if c = Some RSQ then sret av else attr_loop fuel heap av cap))
       else sret av))))))"

definition decode_attrs :: "nat \<Rightarrow> tsml_attr list decoding" where
  "decode_attrs heap =
     sbind step (\<lambda>_.
     sbind here (\<lambda>c.
     sbind (if c \<noteq> None \<and> c \<noteq> Some RSQ then (\<lambda>r. attr_loop (rd_len r + 1) heap [] 0 r) else sret []) (\<lambda>av.
     sbind here (\<lambda>c.
     if c \<noteq> Some RSQ then sfail TSML_ERR_MALFORMED
     else
       sbind step (\<lambda>_.
       sbind (if av \<noteq> [] then alloc heap (length av * SIZEOF_ATTR) else sret ()) (\<lambda>_. sret av))))))"

section \<open>Elements\<close>

text \<open>A text child at the cursor, a binary run or escaped text.\<close>

definition read_text :: "nat \<Rightarrow> u8 list decoding" where
  "read_text heap r =
     sbind (slift (fetch (rd_buf r) (rd_i r))) (\<lambda>c.
     sbind (if c = BS \<and> rd_i r + 1 < rd_len r then slift (fetch (rd_buf r) (rd_i r + 1)) else sret 0) (\<lambda>e.
     if e = 98 \<or> e = 66 then read_binary heap else read_escaped heap CTX_TEXT)) r"

fun decode_children :: "nat \<Rightarrow> nat \<Rightarrow> nat \<Rightarrow> tsml_node list \<Rightarrow> nat \<Rightarrow> tsml_node list decoding"
  and decode_element :: "nat \<Rightarrow> nat \<Rightarrow> nat \<Rightarrow> tsml_node decoding" where
  "decode_children 0 heap dep kids cap = slift Diverge"
| "decode_children (Suc fuel) heap dep kids cap =
     sbind here (\<lambda>c.
     if c = None then sfail TSML_ERR_MALFORMED
     else if c = Some RBR then
       sbind step (\<lambda>_.
       sbind (if kids \<noteq> [] then alloc heap (length kids * SIZEOF_POINTER) else sret ()) (\<lambda>_. sret kids))
     else if c = Some LBR then
       sbind (decode_element fuel heap (dep + 1)) (\<lambda>child.
       sbind (slift (grow_vec heap SIZEOF_POINTER 4 (length kids) cap)) (\<lambda>cap.
       decode_children fuel heap dep (kids @ [child]) cap))
     else
       sbind (read_text heap) (\<lambda>t.
       if t = [] then decode_children fuel heap dep kids cap
       else
         sbind (alloc heap SIZEOF_NODE) (\<lambda>_.
         sbind (slift (grow_vec heap SIZEOF_POINTER 4 (length kids) cap)) (\<lambda>cap.
         decode_children fuel heap dep (kids @ [TSML_TEXT t]) cap))))"
| "decode_element 0 heap dep = slift Diverge"
| "decode_element (Suc fuel) heap dep =
     (if dep > TSML_MAX_DEPTH then sfail TSML_ERR_DEPTH
      else
        sbind here (\<lambda>c.
        if c \<noteq> Some LBR then sfail TSML_ERR_MALFORMED
        else
          sbind step (\<lambda>_.
          sbind (alloc heap SIZEOF_NODE) (\<lambda>_.
          sbind (read_escaped heap CTX_TAG) (\<lambda>head.
          sbind here (\<lambda>c.
          if c = Some RBR then
            sbind step (\<lambda>_.
            if head \<noteq> [] then
              sbind (alloc heap SIZEOF_NODE) (\<lambda>_.
              sbind (alloc heap SIZEOF_POINTER) (\<lambda>_. sret (TSML_ELEMENT TSML_TAG_TEXT [] [TSML_TEXT head])))
            else sret (TSML_ELEMENT TSML_TAG_TEXT [] []))
          else if c \<noteq> Some COM then sfail TSML_ERR_MALFORMED
          else
            sbind step (\<lambda>_.
            sbind here (\<lambda>c.
            if c = Some LSQ then
              sbind (decode_attrs heap) (\<lambda>attrs.
              sbind here (\<lambda>c.
              if c = Some COM then
                sbind step (\<lambda>_.
                sbind (decode_children fuel heap dep [] 0) (\<lambda>kids. sret (TSML_ELEMENT head attrs kids)))
              else if c = Some RBR then sbind step (\<lambda>_. sret (TSML_ELEMENT head attrs []))
              else sbind (decode_children fuel heap dep [] 0) (\<lambda>kids. sret (TSML_ELEMENT head attrs kids))))
            else sbind (decode_children fuel heap dep [] 0) (\<lambda>kids. sret (TSML_ELEMENT head [] kids))))))))))"

definition decode_fuel :: "nat \<Rightarrow> nat" where
  "decode_fuel len = 2 * len + 4"

section \<open>Documents\<close>

text \<open>Pushing a root onto the document in the reader.\<close>

definition add_root :: "nat \<Rightarrow> tsml_node \<Rightarrow> unit decoding" where
  "add_root heap n r = (case push_root heap n (rd_doc r) of (m, d) \<Rightarrow> (m, r\<lparr>rd_doc := d\<rparr>))"

definition tsml_decode :: "nat \<Rightarrow> ptr \<Rightarrow> nat \<Rightarrow> tsml_doc tsml" where
  "tsml_decode heap buf len =
     (case buf of
        None \<Rightarrow> Err TSML_ERR_PARAM
      | Some b \<Rightarrow>
          rbind (doc_new heap) (\<lambda>d.
          fst (sbind (decode_element (decode_fuel len) heap 0) (\<lambda>root r.
                 if rd_i r \<noteq> len then (Err TSML_ERR_MALFORMED, r)
                 else sbind (add_root heap root) (\<lambda>_ r. (Ok (rd_doc r), r)) r)
            \<lparr>rd_buf = b, rd_len = len, rd_i = 0, rd_doc = d\<rparr>)))"

fun document_loop :: "nat \<Rightarrow> nat \<Rightarrow> tsml_doc decoding" where
  "document_loop 0 heap = slift Diverge"
| "document_loop (Suc fuel) heap = (\<lambda>r.
     if rd_i r < rd_len r then
       sbind (decode_element (decode_fuel (rd_len r)) heap 0) (\<lambda>node.
       sbind (add_root heap node) (\<lambda>_. document_loop fuel heap)) r
     else if td_roots (rd_doc r) = [] then (Err TSML_ERR_MALFORMED, r)
     else (Ok (rd_doc r), r))"

definition tsml_decode_document :: "nat \<Rightarrow> ptr \<Rightarrow> nat \<Rightarrow> tsml_doc tsml" where
  "tsml_decode_document heap buf len =
     (case buf of
        None \<Rightarrow> Err TSML_ERR_PARAM
      | Some b \<Rightarrow>
          rbind (doc_new heap) (\<lambda>d.
          fst (document_loop (len + 1) heap \<lparr>rd_buf = b, rd_len = len, rd_i = 0, rd_doc = d\<rparr>)))"

end
