(* ===== verification/Terseml_Text.thy ===== *)
theory Terseml_Text
  imports Terseml
begin

text \<open>
  The text of a terse ML tree, the specification of the encoder: \<open>node_text\<close> writes a tree in the
  shortest forms of the grammar, without merging adjacent texts, and \<open>tsml_encode\<close> returns it or runs out of memory. \<open>puts\<close> is total correctness of a
  function on the byte buffer: it returns, appends one text, and succeeds when memory for twice the text is there.
\<close>

section \<open>The text\<close>

definition escaped_bytes :: "esc_ctx \<Rightarrow> u8 list \<Rightarrow> u8 list" where
  "escaped_bytes ctx s = concat (map (\<lambda>c. if is_reserved ctx c then [BS, c] else [c]) s)"

text \<open>With a leading bracket escaped as well.\<close>

definition lead_bytes :: "esc_ctx \<Rightarrow> bool \<Rightarrow> u8 list \<Rightarrow> u8 list" where
  "lead_bytes ctx lead s = (if lead \<and> s \<noteq> [] \<and> hd s = LSQ then BS # LSQ # escaped_bytes ctx (tl s) else escaped_bytes ctx s)"

fun varint_bytes :: "nat \<Rightarrow> u8 list" where
  "varint_bytes n = (if n div 128 = 0 then [word_of_nat (n mod 128)] else (word_of_nat (n mod 128) OR 0x80) # varint_bytes (n div 128))"

declare varint_bytes.simps [simp del]

definition run_bytes :: "u8 list \<Rightarrow> u8 list" where
  "run_bytes s = concat (map (\<lambda>c. if c = 0 then [BS, 48] else if c = BS then [BS, BS] else [c]) s)"

fun form_bytes :: "bool \<Rightarrow> u8 list \<Rightarrow> bin_form \<Rightarrow> u8 list" where
  "form_bytes lead s FORM_INLINE = lead_bytes CTX_TEXT lead s"
| "form_bytes lead s FORM_TERMINATED = BS # 98 # run_bytes s @ [0]"
| "form_bytes lead s FORM_COUNTED = BS # 66 # varint_bytes (length s) @ s"

definition text_bytes :: "bool \<Rightarrow> u8 list \<Rightarrow> u8 list" where
  "text_bytes lead s = form_bytes lead s (choose_form s (length s) lead)"

definition attr_bytes :: "tsml_attr \<Rightarrow> u8 list" where
  "attr_bytes a = escaped_bytes CTX_KEY (the (attr_key a)) @ COL # escaped_bytes CTX_VAL (the (attr_val a))"

fun attrs_bytes :: "bool \<Rightarrow> tsml_attr list \<Rightarrow> u8 list" where
  "attrs_bytes sep [] = []"
| "attrs_bytes sep (a # as) = (if sep then [COM] else []) @ attr_bytes a @ attrs_bytes True as"

fun node_text :: "tsml_node \<Rightarrow> u8 list"
  and children_text :: "bool \<Rightarrow> tsml_node list \<Rightarrow> u8 list" where
  "node_text (TSML_TEXT s) = LBR # TSML_TAG_TEXT @ COM # text_bytes True s @ [RBR]"
| "node_text (TSML_ELEMENT tag attrs children) =
     LBR # escaped_bytes CTX_TAG tag @ (if attrs \<noteq> [] then COM # LSQ # attrs_bytes False attrs @ [RSQ] else []) @
     COM # children_text (attrs = []) children @ [RBR]"
| "children_text lead [] = []"
| "children_text lead (c # cs) =
     (case c of TSML_ELEMENT _ _ _ \<Rightarrow> node_text c | TSML_TEXT s \<Rightarrow> text_bytes lead s) @ children_text False cs"

text \<open>Nesting within the limit, and trees whose strings are in memory.\<close>

fun node_fits :: "nat \<Rightarrow> tsml_node \<Rightarrow> bool"
  and children_fit :: "nat \<Rightarrow> tsml_node list \<Rightarrow> bool" where
  "node_fits dep (TSML_TEXT s) = (dep \<le> TSML_MAX_DEPTH)"
| "node_fits dep (TSML_ELEMENT tag attrs children) = (dep \<le> TSML_MAX_DEPTH \<and> children_fit (dep + 1) children)"
| "children_fit dep [] = True"
| "children_fit dep (c # cs) =
     ((case c of TSML_ELEMENT _ _ _ \<Rightarrow> node_fits dep c | TSML_TEXT s \<Rightarrow> True) \<and> children_fit dep cs)"

definition in_memory :: "u8 list \<Rightarrow> bool" where
  "in_memory s \<longleftrightarrow> length s \<le> 1152921504606846976"

definition attr_ok :: "tsml_attr \<Rightarrow> bool" where
  "attr_ok a \<longleftrightarrow> (\<exists>k v. a = Attr (Some k) (Some v) \<and> in_memory k \<and> in_memory v)"

fun node_ok :: "tsml_node \<Rightarrow> bool"
  and nodes_ok :: "tsml_node list \<Rightarrow> bool" where
  "node_ok (TSML_TEXT s) = in_memory s"
| "node_ok (TSML_ELEMENT tag attrs children) = (in_memory tag \<and> list_all attr_ok attrs \<and> nodes_ok children)"
| "nodes_ok [] = True"
| "nodes_ok (c # cs) = (node_ok c \<and> nodes_ok cs)"

section \<open>Appending\<close>

definition buf_ok :: "tsml_buf \<Rightarrow> bool" where
  "buf_ok b \<longleftrightarrow> length (bf_p b) \<le> bf_cap b \<and> bf_cap b \<le> 1152921504606846976"

definition enough :: "nat \<Rightarrow> nat \<Rightarrow> bool" where
  "enough heap n \<longleftrightarrow> 4096 \<le> heap \<and> 2 * n \<le> heap"

definition puts :: "nat \<Rightarrow> putting \<Rightarrow> bool \<Rightarrow> u8 list \<Rightarrow> bool" where
  "puts heap m c t \<longleftrightarrow>
     (\<forall>b. buf_ok b \<longrightarrow>
        (\<exists>b'. m b = (Ok (), b') \<and> buf_ok b' \<and> (bf_oom b \<longrightarrow> bf_oom b') \<and>
           (\<not> bf_oom b' \<longrightarrow> c \<and> bf_p b' = bf_p b @ t) \<and>
           (\<not> bf_oom b \<longrightarrow> c \<longrightarrow> enough heap (length (bf_p b) + length t) \<longrightarrow> \<not> bf_oom b')))"

lemma enough_le: "enough heap n \<Longrightarrow> m \<le> n \<Longrightarrow> enough heap m"
  by (simp add: enough_def)

lemma puts_sbind:
  assumes m: "puts heap m c t" and f: "puts heap (f ()) d u"
  shows "puts heap (sbind m f) (c \<and> d) (t @ u)"
  unfolding puts_def
proof (intro allI impI)
  fix b assume "buf_ok b"
  then obtain b1 where b1: "m b = (Ok (), b1)" "buf_ok b1" "bf_oom b \<longrightarrow> bf_oom b1"
    "\<not> bf_oom b1 \<longrightarrow> c \<and> bf_p b1 = bf_p b @ t"
    "\<not> bf_oom b \<longrightarrow> c \<longrightarrow> enough heap (length (bf_p b) + length t) \<longrightarrow> \<not> bf_oom b1"
    using m unfolding puts_def by blast
  from b1(2) obtain b2 where b2: "f () b1 = (Ok (), b2)" "buf_ok b2" "bf_oom b1 \<longrightarrow> bf_oom b2"
    "\<not> bf_oom b2 \<longrightarrow> d \<and> bf_p b2 = bf_p b1 @ u"
    "\<not> bf_oom b1 \<longrightarrow> d \<longrightarrow> enough heap (length (bf_p b1) + length u) \<longrightarrow> \<not> bf_oom b2"
    using f unfolding puts_def by blast
  have "\<not> bf_oom b2" if "\<not> bf_oom b" "c \<and> d" "enough heap (length (bf_p b) + length (t @ u))"
  proof -
    have "\<not> bf_oom b1" using b1(5) that enough_le[OF that(3)] by simp
    then show ?thesis using b1(4) b2(5) that by (simp add: add.assoc)
  qed
  then show "\<exists>b'. sbind m f b = (Ok (), b') \<and> buf_ok b' \<and> (bf_oom b \<longrightarrow> bf_oom b') \<and>
      (\<not> bf_oom b' \<longrightarrow> (c \<and> d) \<and> bf_p b' = bf_p b @ t @ u) \<and>
      (\<not> bf_oom b \<longrightarrow> c \<and> d \<longrightarrow> enough heap (length (bf_p b) + length (t @ u)) \<longrightarrow> \<not> bf_oom b')"
    using b1 b2 by (auto simp: sbind_def)
qed

lemma puts_sret: "puts heap (sret ()) True []"
  by (simp add: puts_def)

lemma puts_cong: "puts heap m c t \<Longrightarrow> c = d \<Longrightarrow> t = u \<Longrightarrow> puts heap m d u"
  by simp

lemma puts_fetch: "i < length s \<Longrightarrow> puts heap (f (s ! i)) c t \<Longrightarrow> puts heap (sbind (slift (fetch s i)) f) c t"
  by (simp add: fetch_def)

lemma puts_full: "puts heap (\<lambda>b. (Ok (), b\<lparr>bf_oom := True\<rparr>)) False t"
  by (simp add: puts_def buf_ok_def)

section \<open>The buffer\<close>

lemma wrap_free: "len \<le> cap \<Longrightarrow> cap \<le> 4611686018427387904 \<Longrightarrow> wrap64 (cap + 18446744073709551616 - len) = cap - len"
proof -
  assume le: "len \<le> cap" "cap \<le> 4611686018427387904"
  then have eq: "cap + 18446744073709551616 - len = (cap - len) + 18446744073709551616" by simp
  show ?thesis unfolding eq wrap64_def mod_add_self2 by (rule mod_less) (use le in simp)
qed

lemma double_cap_ok:
  "1 \<le> cap \<Longrightarrow> len \<le> cap \<Longrightarrow> cap \<le> 4611686018427387904 \<Longrightarrow> len + n \<le> 2305843009213693952 \<Longrightarrow> len + n \<le> cap * 2 ^ k \<Longrightarrow>
   \<exists>c. double_cap (Suc k) len n cap = Ok c \<and> len + n \<le> c \<and> c \<le> max cap (2 * (len + n))"
proof (induction k arbitrary: cap)
  case 0
  then show ?case using wrap_free[of len cap] by auto
next
  case (Suc k)
  note w = wrap_free[OF Suc.prems(2,3)]
  show ?case
  proof (cases "cap - len < n")
    case True
    then have lt: "cap < len + n" by simp
    then have "wrap64 (cap * 2) = cap * 2" using Suc.prems(4) by (simp add: wrap64_def)
    moreover have "\<exists>c. double_cap (Suc k) len n (cap * 2) = Ok c \<and> len + n \<le> c \<and> c \<le> max (cap * 2) (2 * (len + n))"
      by (rule Suc.IH) (use Suc.prems lt in \<open>simp_all add: mult.assoc\<close>)
    ultimately show ?thesis using True w lt by auto
  qed (use w Suc.prems(2) in auto)
qed

lemma buf_need_ok:
  assumes h: "heap \<le> 1152921504606846976" and n: "n \<le> 1152921504606846976" and b: "buf_ok b"
  shows "\<exists>b'. buf_need heap n b = (Ok (), b') \<and> buf_ok b' \<and> bf_p b' = bf_p b \<and> (bf_oom b \<longrightarrow> bf_oom b') \<and>
    (\<not> bf_oom b' \<longrightarrow> length (bf_p b) + n \<le> bf_cap b') \<and>
    (\<not> bf_oom b \<longrightarrow> enough heap (length (bf_p b) + n) \<longrightarrow> \<not> bf_oom b')"
proof (cases "bf_oom b \<or> bf_cap b - length (bf_p b) \<ge> n")
  case True
  then have e: "buf_need heap n b = (Ok (), b)" unfolding buf_need_def by (simp only: if_True)
  have "length (bf_p b) + n \<le> bf_cap b" if "\<not> bf_oom b" using True that b by (auto simp: buf_ok_def)
  then show ?thesis using e b by blast
next
  case False
  let ?len = "length (bf_p b)"
  define c where "c = (if bf_cap b \<noteq> 0 then bf_cap b * 2 else 4096)"
  have cap: "?len \<le> bf_cap b" "bf_cap b \<le> 1152921504606846976" using b by (simp_all add: buf_ok_def)
  have c: "(if bf_cap b \<noteq> 0 then wrap64 (bf_cap b * 2) else 4096) = c" using cap(2) by (simp add: wrap64_def c_def)
  have sm: "?len + n \<le> 2305843009213693952" using cap n by linarith
  have c1: "1 \<le> c" "?len \<le> c" "c \<le> 4611686018427387904" using cap by (auto simp: c_def)
  have "?len + n \<le> c * 2 ^ 65" using sm mult_le_mono1[OF c1(1), of "2 ^ 65"] by simp
  from double_cap_ok[OF c1 sm this] obtain c' where c': "double_cap 66 ?len n c = Ok c'" "?len + n \<le> c'" "c' \<le> max c (2 * (?len + n))"
    by auto
  have mx: "c' \<le> max 4096 (2 * (?len + n))" using c'(3) False cap by (auto simp: c_def split: if_splits)
  have nd: "buf_need heap n b = (if heap < c' then (Ok (), b\<lparr>bf_oom := True\<rparr>) else (Ok (), b\<lparr>bf_cap := c'\<rparr>))"
    unfolding buf_need_def c using False c'(1) by (simp only: if_False sbind_slift_Ok)
  show ?thesis
  proof (cases "heap < c'")
    case True
    then have "\<not> enough heap (?len + n)" using mx by (auto simp: enough_def)
    then show ?thesis using nd True b by (simp add: buf_ok_def)
  next
    case fits: False
    then show ?thesis using nd c'(2) h False by (simp add: buf_ok_def)
  qed
qed

lemma puts_put:
  assumes "heap \<le> 1152921504606846976" shows "puts heap (buf_put heap c) True [c]"
  unfolding puts_def
proof (intro allI impI)
  fix b assume b: "buf_ok b"
  have one: "(1 :: nat) \<le> 1152921504606846976" by simp
  from buf_need_ok[OF assms one b]
  show "\<exists>b'. buf_put heap c b = (Ok (), b') \<and> buf_ok b' \<and> (bf_oom b \<longrightarrow> bf_oom b') \<and>
      (\<not> bf_oom b' \<longrightarrow> True \<and> bf_p b' = bf_p b @ [c]) \<and>
      (\<not> bf_oom b \<longrightarrow> True \<longrightarrow> enough heap (length (bf_p b) + length [c]) \<longrightarrow> \<not> bf_oom b')"
    by (auto simp: buf_put_def sbind_def buf_ok_def)
qed

lemma puts_write:
  assumes "heap \<le> 1152921504606846976" and "n \<le> length s" and "in_memory s"
  shows "puts heap (buf_write heap s n) True (take n s)"
  unfolding puts_def
proof (intro allI impI)
  fix b assume b: "buf_ok b"
  have n: "n \<le> 1152921504606846976" using assms(2,3) by (simp add: in_memory_def)
  from buf_need_ok[OF assms(1) n b]
  show "\<exists>b'. buf_write heap s n b = (Ok (), b') \<and> buf_ok b' \<and> (bf_oom b \<longrightarrow> bf_oom b') \<and>
      (\<not> bf_oom b' \<longrightarrow> True \<and> bf_p b' = bf_p b @ take n s) \<and>
      (\<not> bf_oom b \<longrightarrow> True \<longrightarrow> enough heap (length (bf_p b) + length (take n s)) \<longrightarrow> \<not> bf_oom b')"
    using assms(2) by (auto simp: buf_write_def sbind_def buf_ok_def)
qed

section \<open>Escaping\<close>

lemma escaped_simps [simp]:
  "escaped_bytes ctx [] = []"
  "escaped_bytes ctx (c # s) = (if is_reserved ctx c then [BS, c] else [c]) @ escaped_bytes ctx s"
  by (simp_all add: escaped_bytes_def)

lemma lead_simps [simp]:
  "lead_bytes ctx lead [] = []"
  "lead_bytes ctx lead (c # s) = (if is_reserved ctx c \<or> (lead \<and> c = LSQ) then [BS, c] else [c]) @ escaped_bytes ctx s"
  by (simp_all add: lead_bytes_def)

lemma lead_False: "lead_bytes ctx False s = escaped_bytes ctx s"
  by (simp add: lead_bytes_def)

lemma run_simps [simp]:
  "run_bytes [] = []"
  "run_bytes (c # s) = (if c = 0 then [BS, 48] else if c = BS then [BS, BS] else [c]) @ run_bytes s"
  by (simp_all add: run_bytes_def)

lemma in_memory_drop: "in_memory s \<Longrightarrow> in_memory (drop n s)"
  by (simp add: in_memory_def)

lemma puts_part:
  assumes "heap \<le> 1152921504606846976" and "in_memory s" and "i \<le> length s"
  shows "puts heap (buf_write heap (drop start s) (i - start)) True (take (i - start) (drop start s))"
  by (rule puts_write[OF assms(1) _ in_memory_drop[OF assms(2)]]) (use assms(3) in simp)

lemma take_step: "start \<le> i \<Longrightarrow> i < length s \<Longrightarrow> take (Suc i - start) (drop start s) = take (i - start) (drop start s) @ [s ! i]"
  by (simp add: Suc_diff_le take_Suc_conv_app_nth)

lemma escape_runs_puts:
  assumes h: "heap \<le> 1152921504606846976" and s: "in_memory s"
  shows "start \<le> i \<Longrightarrow> i + k = length s \<Longrightarrow>
    puts heap (escape_runs heap ctx s (length s) lead k i start) True (take (i - start) (drop start s) @ lead_bytes ctx (lead \<and> i = 0) (drop i s))"
proof (induction k arbitrary: i start)
  case 0
  then show ?case using puts_part[OF h s, of "length s" start] by simp
next
  case (Suc k)
  then have i: "i < length s" and d: "drop i s = s ! i # drop (Suc i) s" by (simp_all add: Cons_nth_drop_Suc)
  show ?case unfolding escape_runs.simps
  proof (rule puts_fetch[OF i], cases "is_reserved ctx (s ! i) \<or> (i = 0 \<and> lead \<and> s ! i = LSQ)")
    case True
    have "puts heap (sbind (buf_write heap (drop start s) (i - start)) (\<lambda>_. sbind (buf_put heap BS) (\<lambda>_. sbind (buf_put heap (s ! i))
        (\<lambda>_. escape_runs heap ctx s (length s) lead k (i + 1) (i + 1))))) (True \<and> True \<and> True \<and> True)
      (take (i - start) (drop start s) @ [BS] @ [s ! i] @
        (take (i + 1 - (i + 1)) (drop (i + 1) s) @ lead_bytes ctx (lead \<and> i + 1 = 0) (drop (i + 1) s)))"
      by (intro puts_sbind puts_part[OF h s] puts_put[OF h] Suc.IH) (use Suc.prems in simp_all)
    then show "puts heap (if is_reserved ctx (s ! i) \<or> i = 0 \<and> lead \<and> s ! i = LSQ then
          sbind (buf_write heap (drop start s) (i - start)) (\<lambda>_. sbind (buf_put heap BS) (\<lambda>_. sbind (buf_put heap (s ! i))
            (\<lambda>_. escape_runs heap ctx s (length s) lead k (i + 1) (i + 1))))
        else escape_runs heap ctx s (length s) lead k (i + 1) start) True
        (take (i - start) (drop start s) @ lead_bytes ctx (lead \<and> i = 0) (drop i s))"
      unfolding if_P[OF True] by (rule puts_cong) (use True in \<open>auto simp: d lead_False\<close>)
  next
    case False
    have "puts heap (escape_runs heap ctx s (length s) lead k (i + 1) start) True
        (take (i + 1 - start) (drop start s) @ lead_bytes ctx (lead \<and> i + 1 = 0) (drop (i + 1) s))"
      by (rule Suc.IH) (use Suc.prems in simp_all)
    then show "puts heap (if is_reserved ctx (s ! i) \<or> i = 0 \<and> lead \<and> s ! i = LSQ then
          sbind (buf_write heap (drop start s) (i - start)) (\<lambda>_. sbind (buf_put heap BS) (\<lambda>_. sbind (buf_put heap (s ! i))
            (\<lambda>_. escape_runs heap ctx s (length s) lead k (i + 1) (i + 1))))
        else escape_runs heap ctx s (length s) lead k (i + 1) start) True
        (take (i - start) (drop start s) @ lead_bytes ctx (lead \<and> i = 0) (drop i s))"
      unfolding if_not_P[OF False]
      by (rule puts_cong) (use False take_step[OF Suc.prems(1) i] in \<open>auto simp: d lead_False\<close>)
  qed
qed

lemma write_escaped_puts:
  "heap \<le> 1152921504606846976 \<Longrightarrow> in_memory s \<Longrightarrow> puts heap (write_escaped heap ctx s (length s) lead) True (lead_bytes ctx lead s)"
  using escape_runs_puts[of heap s 0 0 "length s" ctx lead] by (simp add: write_escaped_def)

section \<open>Binary runs\<close>

lemma binary_runs_puts:
  assumes h: "heap \<le> 1152921504606846976" and s: "in_memory s"
  shows "start \<le> i \<Longrightarrow> i + k = length s \<Longrightarrow>
    puts heap (binary_runs heap s (length s) k i start) True (take (i - start) (drop start s) @ run_bytes (drop i s))"
proof (induction k arbitrary: i start)
  case 0
  then show ?case using puts_part[OF h s, of "length s" start] by simp
next
  case (Suc k)
  then have i: "i < length s" and d: "drop i s = s ! i # drop (Suc i) s" by (simp_all add: Cons_nth_drop_Suc)
  show ?case unfolding binary_runs.simps
  proof (rule puts_fetch[OF i], cases "s ! i \<noteq> 0 \<and> s ! i \<noteq> BS")
    case False
    have "puts heap (sbind (buf_write heap (drop start s) (i - start)) (\<lambda>_. sbind (buf_put heap BS) (\<lambda>_.
        sbind (buf_put heap (if s ! i = 0 then 48 else BS)) (\<lambda>_. binary_runs heap s (length s) k (i + 1) (i + 1))))) (True \<and> True \<and> True \<and> True)
      (take (i - start) (drop start s) @ [BS] @ [if s ! i = 0 then 48 else BS] @
        (take (i + 1 - (i + 1)) (drop (i + 1) s) @ run_bytes (drop (i + 1) s)))"
      by (intro puts_sbind puts_part[OF h s] puts_put[OF h] Suc.IH) (use Suc.prems in simp_all)
    then show "puts heap (if s ! i \<noteq> 0 \<and> s ! i \<noteq> BS then binary_runs heap s (length s) k (i + 1) start
        else sbind (buf_write heap (drop start s) (i - start)) (\<lambda>_. sbind (buf_put heap BS) (\<lambda>_.
          sbind (buf_put heap (if s ! i = 0 then 48 else BS)) (\<lambda>_. binary_runs heap s (length s) k (i + 1) (i + 1))))) True
        (take (i - start) (drop start s) @ run_bytes (drop i s))"
      unfolding if_not_P[OF False] by (rule puts_cong) (use False in \<open>auto simp: d\<close>)
  next
    case True
    have "puts heap (binary_runs heap s (length s) k (i + 1) start) True
        (take (i + 1 - start) (drop start s) @ run_bytes (drop (i + 1) s))"
      by (rule Suc.IH) (use Suc.prems in simp_all)
    then show "puts heap (if s ! i \<noteq> 0 \<and> s ! i \<noteq> BS then binary_runs heap s (length s) k (i + 1) start
        else sbind (buf_write heap (drop start s) (i - start)) (\<lambda>_. sbind (buf_put heap BS) (\<lambda>_.
          sbind (buf_put heap (if s ! i = 0 then 48 else BS)) (\<lambda>_. binary_runs heap s (length s) k (i + 1) (i + 1))))) True
        (take (i - start) (drop start s) @ run_bytes (drop i s))"
      unfolding if_P[OF True]
      by (rule puts_cong) (use True take_step[OF Suc.prems(1) i] in \<open>auto simp: d\<close>)
  qed
qed

lemma varint_put_puts:
  assumes h: "heap \<le> 1152921504606846976" shows "puts heap (varint_put heap n) True (varint_bytes n)"
proof (induction n rule: varint_bytes.induct)
  case (1 n)
  show ?case
  proof (cases "n div 128 = 0")
    case True
    then show ?thesis using puts_put[OF h] by (simp add: varint_put.simps[of heap n] varint_bytes.simps[of n] Let_def)
  next
    case False
    have "puts heap (sbind (buf_put heap (word_of_nat (n mod 128) OR 0x80)) (\<lambda>_. varint_put heap (n div 128))) (True \<and> True)
        ([word_of_nat (n mod 128) OR 0x80] @ varint_bytes (n div 128))"
      by (intro puts_sbind puts_put[OF h] 1 False)
    then show ?thesis using False by (simp add: varint_put.simps[of heap n] varint_bytes.simps[of n] Let_def)
  qed
qed

lemma write_binary_puts:
  assumes h: "heap \<le> 1152921504606846976" and s: "in_memory s" and f: "f \<noteq> FORM_INLINE"
  shows "puts heap (write_binary heap s (length s) f) True (form_bytes lead s f)"
proof (cases f)
  case FORM_TERMINATED
  have "puts heap (sbind (buf_put heap BS) (\<lambda>_. sbind (buf_put heap 98) (\<lambda>_. sbind (binary_runs heap s (length s) (length s) 0 0) (\<lambda>_. buf_put heap 0))))
      (True \<and> True \<and> True \<and> True) ([BS] @ [98] @ (take (0 - 0) (drop 0 s) @ run_bytes (drop 0 s)) @ [0])"
    by (intro puts_sbind puts_put[OF h] binary_runs_puts[OF h s]) simp_all
  then show ?thesis by (simp add: write_binary_def FORM_TERMINATED)
next
  case FORM_COUNTED
  have "puts heap (sbind (buf_put heap BS) (\<lambda>_. sbind (buf_put heap 66) (\<lambda>_. sbind (varint_put heap (length s)) (\<lambda>_. buf_write heap s (length s)))))
      (True \<and> True \<and> True \<and> True) ([BS] @ [66] @ varint_bytes (length s) @ take (length s) s)"
    by (intro puts_sbind puts_put[OF h] varint_put_puts[OF h] puts_write[OF h _ s]) simp
  then show ?thesis by (simp add: write_binary_def FORM_COUNTED)
qed (use f in simp)

lemma write_text_puts:
  assumes "heap \<le> 1152921504606846976" and "in_memory s"
  shows "puts heap (write_text heap s lead) True (text_bytes lead s)"
  using write_escaped_puts[OF assms, of CTX_TEXT lead] write_binary_puts[OF assms, of "choose_form s (length s) lead" lead]
  by (auto simp: write_text_def text_bytes_def Let_def)

section \<open>Trees\<close>

lemma encode_attrs_puts:
  assumes h: "heap \<le> 1152921504606846976"
  shows "list_all attr_ok as \<Longrightarrow> puts heap (encode_attrs heap i as) True (attrs_bytes (i \<noteq> 0) as)"
proof (induction as arbitrary: i)
  case Nil
  then show ?case by (simp add: puts_sret del: sret_apply)
next
  case (Cons a as)
  obtain k v where a: "a = Attr (Some k) (Some v)" "in_memory k" "in_memory v" using Cons.prems by (auto simp: attr_ok_def)
  have kv: "puts heap (write_part heap ctx (Some x)) True (escaped_bytes ctx x)" if "in_memory x" for ctx x
    using write_escaped_puts[OF h that, of ctx False] by (simp add: write_part_def lead_False)
  have sep: "puts heap (if i \<noteq> 0 then buf_put heap COM else sret ()) True (if i \<noteq> 0 then [COM] else [])"
    using puts_put[OF h] puts_sret by simp
  have "puts heap (encode_attrs heap i (a # as)) (True \<and> True \<and> True \<and> True \<and> True)
      ((if i \<noteq> 0 then [COM] else []) @ escaped_bytes CTX_KEY k @ [COL] @ escaped_bytes CTX_VAL v @ attrs_bytes (i + 1 \<noteq> 0) as)"
    unfolding encode_attrs.simps a(1) tsml_attr.sel
    by (intro puts_sbind sep kv a(2,3) puts_put[OF h] Cons.IH) (use Cons.prems in simp)
  then show ?case by (rule puts_cong) (simp_all add: a(1) attr_bytes_def)
qed

lemma encode_puts:
  shows "heap \<le> 1152921504606846976 \<Longrightarrow> node_ok n \<Longrightarrow> puts heap (encode_node heap n dep) (node_fits dep n) (node_text n)"
    and "heap \<le> 1152921504606846976 \<Longrightarrow> nodes_ok cs \<Longrightarrow>
      puts heap (encode_children heap na i cs dep) (children_fit (dep + 1) cs) (children_text (i = 0 \<and> na) cs)"
proof (induction heap n dep and heap na i cs dep rule: encode_node_encode_children.induct)
  case (1 heap s dep)
  show ?case
  proof (cases "dep > TSML_MAX_DEPTH")
    case False
    have tag: "in_memory TSML_TAG_TEXT" "length TSML_TAG_TEXT = 5" by (simp_all add: TSML_TAG_TEXT_def in_memory_def)
    have "puts heap (encode_node heap (TSML_TEXT s) dep) (True \<and> True \<and> True \<and> True \<and> True)
        ([LBR] @ take 5 TSML_TAG_TEXT @ [COM] @ text_bytes True s @ [RBR])"
      unfolding encode_node.simps if_not_P[OF False]
      by (intro puts_sbind puts_put puts_write write_text_puts) (use 1 tag in simp_all)
    then show ?thesis by (rule puts_cong) (use False tag in simp_all)
  qed (use puts_full in \<open>simp add: not_le\<close>)
next
  case (2 heap tag attrs children dep)
  show ?case
  proof (cases "dep > TSML_MAX_DEPTH")
    case False
    have ok: "in_memory tag" "list_all attr_ok attrs" "nodes_ok children" using 2(3) by simp_all
    have tg: "puts heap (write_escaped heap CTX_TAG tag (length tag) False) True (escaped_bytes CTX_TAG tag)"
      using write_escaped_puts[OF 2(2) ok(1), of CTX_TAG False] by (simp add: lead_False)
    have "puts heap (sbind (buf_put heap COM) (\<lambda>_. sbind (buf_put heap LSQ) (\<lambda>_. sbind (encode_attrs heap 0 attrs) (\<lambda>_. buf_put heap RSQ))))
        (True \<and> True \<and> True \<and> True) ([COM] @ [LSQ] @ attrs_bytes (0 \<noteq> (0 :: nat)) attrs @ [RSQ])"
      by (intro puts_sbind puts_put encode_attrs_puts 2(2) ok(2))
    then have ats: "puts heap (if attrs \<noteq> [] then sbind (buf_put heap COM) (\<lambda>_. sbind (buf_put heap LSQ) (\<lambda>_. sbind (encode_attrs heap 0 attrs) (\<lambda>_. buf_put heap RSQ)))
        else sret ()) True (if attrs \<noteq> [] then COM # LSQ # attrs_bytes False attrs @ [RSQ] else [])"
      using puts_sret by simp
    have "puts heap (encode_node heap (TSML_ELEMENT tag attrs children) dep) (True \<and> True \<and> True \<and> True \<and> children_fit (dep + 1) children \<and> True)
        ([LBR] @ escaped_bytes CTX_TAG tag @ (if attrs \<noteq> [] then COM # LSQ # attrs_bytes False attrs @ [RSQ] else []) @
         [COM] @ children_text (0 = (0 :: nat) \<and> attrs = []) children @ [RBR])"
      unfolding encode_node.simps if_not_P[OF False]
      by (intro puts_sbind puts_put tg ats 2(1)[OF False] 2(2) ok(3))
    then show ?thesis by (rule puts_cong) (use False in simp_all)
  qed (use puts_full in \<open>simp add: not_le\<close>)
next
  case (3 heap na i dep)
  then show ?case by (simp add: puts_sret del: sret_apply)
next
  case (4 heap na i c cs dep)
  have tail: "puts heap (encode_children heap na (i + 1) cs dep) (children_fit (dep + 1) cs) (children_text (i + 1 = 0 \<and> na) cs)"
    using 4 by simp
  have one: "puts heap (case c of TSML_ELEMENT _ _ _ \<Rightarrow> encode_node heap c (dep + 1) | TSML_TEXT s \<Rightarrow> write_text heap s (i = 0 \<and> na))
      (case c of TSML_ELEMENT _ _ _ \<Rightarrow> node_fits (dep + 1) c | TSML_TEXT s \<Rightarrow> True)
      (case c of TSML_ELEMENT _ _ _ \<Rightarrow> node_text c | TSML_TEXT s \<Rightarrow> text_bytes (i = 0 \<and> na) s)"
  proof (cases c)
    case (TSML_TEXT s)
    then show ?thesis using write_text_puts 4 by simp
  next
    case (TSML_ELEMENT tag attrs children)
    then show ?thesis using 4 by (simp del: encode_node.simps node_fits.simps node_text.simps)
  qed
  show ?case unfolding encode_children.simps
    by (rule puts_cong[OF puts_sbind[OF one tail]]) (cases c; simp)+
qed

text \<open>The encoder against its specification.\<close>

lemma encode_refines:
  assumes "heap \<le> 1152921504606846976" and "node_ok n"
  shows "tsml_encode heap (Some n) = Ok (node_text n) \<and> node_fits 0 n \<or>
    tsml_encode heap (Some n) = Err TSML_ERR_ALLOC \<and> \<not> (node_fits 0 n \<and> enough heap (length (node_text n)))"
proof -
  have "buf_ok buf_new" "\<not> bf_oom buf_new" "bf_p buf_new = []" by (simp_all add: buf_new_def buf_ok_def)
  then obtain b where "encode_node heap n 0 buf_new = (Ok (), b)" "\<not> bf_oom b \<longrightarrow> node_fits 0 n \<and> bf_p b = node_text n"
    "node_fits 0 n \<longrightarrow> enough heap (length (node_text n)) \<longrightarrow> \<not> bf_oom b"
    using encode_puts(1)[OF assms, of 0] unfolding puts_def by fastforce
  then show ?thesis by (auto simp: tsml_encode_def)
qed

section \<open>The chosen form is the shortest\<close>

lemma length_varint_bytes: "length (varint_bytes n) = varint_len n"
proof (induction n rule: varint_bytes.induct)
  case (1 n)
  then show ?case by (cases "n div 128 = 0") (auto simp: varint_bytes.simps[of n] varint_len.simps[of n])
qed

lemma length_escaped: "length (escaped_bytes ctx s) = length s + length (filter (is_reserved ctx) s)"
  by (induction s) simp_all

lemma length_run: "length (run_bytes s) = length s + length (filter (\<lambda>c. c = 0 \<or> c = BS) s)"
  by (induction s) (auto simp: BS_def)

lemma length_lead: "length (lead_bytes CTX_TEXT lead s) =
    length s + length (filter (\<lambda>c. c = LBR \<or> c = RBR \<or> c = BS) s) + (if lead \<and> s \<noteq> [] \<and> s ! 0 = LSQ then 1 else 0)"
proof (cases s)
  case (Cons c s')
  have f: "is_reserved CTX_TEXT = (\<lambda>c. c = LBR \<or> c = RBR \<or> c = BS)" by (auto simp: is_reserved_def fun_eq_iff)
  show ?thesis by (auto simp: Cons length_escaped f byte_defs)
qed simp

lemma form_lengths:
  "length (form_bytes lead s FORM_INLINE) = length s + length (filter (\<lambda>c. c = LBR \<or> c = RBR \<or> c = BS) s) + (if lead \<and> s \<noteq> [] \<and> s ! 0 = LSQ then 1 else 0)"
  "length (form_bytes lead s FORM_TERMINATED) = length s + 3 + length (filter (\<lambda>c. c = 0 \<or> c = BS) s)"
  "length (form_bytes lead s FORM_COUNTED) = 2 + varint_len (length s) + length s"
  by (simp_all add: length_lead length_run length_varint_bytes)

lemma choose_form_shortest: "length (text_bytes lead s) \<le> length (form_bytes lead s f)"
proof -
  have "length (form_bytes lead s (choose_form s (length s) lead)) \<le> length (form_bytes lead s f)"
    by (cases f) (auto simp: choose_form_def Let_def form_lengths simp del: form_bytes.simps)
  then show ?thesis by (simp add: text_bytes_def)
qed

end
