(* ===== verification/Terseml_Read.thy ===== *)
theory Terseml_Read
  imports Terseml_Decode Terseml_Text
begin

text \<open>
  Reading the strings of a terse ML text against reference functions on lists: \<open>read_escaped\<close>, with its scan, its
  measuring pass and its copy, computes \<open>unescape\<close>; \<open>read_binary\<close> computes \<open>unbinary\<close>. \<open>gives\<close> is total
  correctness of a function on the reader: it returns, an allocation fails only below a bound in the length of the
  input, and a result satisfies the postcondition. Unless \<open>lax\<close>, no other error is possible.
\<close>

section \<open>Total correctness on the reader\<close>

definition todo :: "rdr \<Rightarrow> u8 list" where
  "todo r = drop (rd_i r) (take (rd_len r) (rd_buf r))"

definition rd_ok :: "rdr \<Rightarrow> bool" where
  "rd_ok r \<longleftrightarrow> rd_i r \<le> rd_len r \<and> rd_len r \<le> length (rd_buf r) \<and> rd_len r \<le> 1152921504606846976"

definition same_input :: "rdr \<Rightarrow> rdr \<Rightarrow> bool" where
  "same_input r r' \<longleftrightarrow> rd_buf r' = rd_buf r \<and> rd_len r' = rd_len r"

definition alloc_bound :: "nat \<Rightarrow> nat" where
  "alloc_bound len = 66000 + 64 * len"

definition gives :: "bool \<Rightarrow> nat \<Rightarrow> 'a decoding \<Rightarrow> rdr \<Rightarrow> ('a \<Rightarrow> rdr \<Rightarrow> bool) \<Rightarrow> bool" where
  "gives lax heap m r Q \<longleftrightarrow>
     (case m r of
        (Ok v, r') \<Rightarrow> Q v r' \<and> rd_ok r' \<and> same_input r r'
      | (Err e, r') \<Rightarrow> if e = TSML_ERR_ALLOC then heap < alloc_bound (rd_len r) else lax
      | _ \<Rightarrow> False)"

lemma same_input_refl [simp]: "same_input r r"
  by (simp add: same_input_def)

lemma same_input_trans: "same_input r r' \<Longrightarrow> same_input r' r'' \<Longrightarrow> same_input r r''"
  by (simp add: same_input_def)

lemma gives_sbind:
  assumes m: "gives lax heap m r P"
    and f: "\<And>a r'. P a r' \<Longrightarrow> rd_ok r' \<Longrightarrow> same_input r r' \<Longrightarrow> gives lax heap (f a) r' Q"
  shows "gives lax heap (sbind m f) r Q"
proof -
  obtain x r1 where x: "m r = (x, r1)" by force
  show ?thesis
  proof (cases x)
    case (Ok a)
    then have "P a r1" "rd_ok r1" "same_input r r1" using m x by (simp_all add: gives_def)
    from f[OF this] \<open>same_input r r1\<close> show ?thesis using x Ok
      by (auto simp: gives_def sbind_def same_input_def split: prod.splits res.splits)
  qed (use m x in \<open>auto simp: gives_def sbind_def split: if_splits\<close>)
qed

lemma gives_mono: "gives lax heap m r P \<Longrightarrow> (\<And>a r'. P a r' \<Longrightarrow> rd_ok r' \<Longrightarrow> same_input r r' \<Longrightarrow> Q a r') \<Longrightarrow> gives lax heap m r Q"
  by (auto simp: gives_def split: prod.splits res.splits)

lemma gives_sret: "rd_ok r \<Longrightarrow> Q a r \<Longrightarrow> gives lax heap (sret a) r Q"
  by (simp add: gives_def)

lemma gives_sfail: "lax \<Longrightarrow> e \<noteq> TSML_ERR_ALLOC \<Longrightarrow> gives lax heap (sfail e) r Q"
  by (simp add: gives_def)

lemma gives_if: "(c \<Longrightarrow> gives lax heap a r Q) \<Longrightarrow> (\<not> c \<Longrightarrow> gives lax heap b r Q) \<Longrightarrow> gives lax heap (if c then a else b) r Q"
  by simp

lemma gives_lift: "m = Ok a \<Longrightarrow> gives lax heap (f a) r Q \<Longrightarrow> gives lax heap (sbind (slift m) f) r Q"
  by simp

lemma here_gives: "rd_ok r \<Longrightarrow> gives lax heap here r (\<lambda>c r'. r' = r \<and> c = (case todo r of [] \<Rightarrow> None | x # _ \<Rightarrow> Some x))"
  by (auto simp: gives_def here_def sbind_def fetch_def rd_ok_def todo_def Cons_nth_drop_Suc[symmetric])

lemma todo_length: "rd_ok r \<Longrightarrow> length (todo r) = rd_len r - rd_i r"
  by (simp add: todo_def rd_ok_def)

lemma step_gives: "rd_ok r \<Longrightarrow> todo r = x # xs \<Longrightarrow> gives lax heap step r (\<lambda>_ r'. todo r' = xs)"
  using todo_length[of r] by (auto simp: gives_def step_def rd_ok_def todo_def same_input_def drop_Suc tl_drop[symmetric])

lemma goto_gives:
  assumes "rd_ok r" and "rd_i r \<le> j" and "j \<le> rd_len r"
  shows "gives lax heap (goto j) r (\<lambda>_ r'. todo r' = drop (j - rd_i r) (todo r))"
  using assms by (auto simp: gives_def goto_def rd_ok_def todo_def same_input_def)

lemma arena_alloc_fails:
  assumes "arena_alloc heap n d = (False, d')" shows "heap < 65600 + n"
proof -
  let ?n = "wrap64 (n + 15) div 16 * 16"
  define cap where "cap = (if ?n > ARENA_MIN then ?n else ARENA_MIN)"
  have "?n \<le> n + 15"
    using wrap64_le[of "n + 15"] by (metis div_times_less_eq_dividend le_trans)
  then have "cap \<le> 65551 + n" by (simp add: cap_def size_defs)
  moreover have "heap < wrap64 (SIZEOF_ARENA_BLOCK + cap)"
    using assms by (auto simp: arena_alloc_def Let_def cap_def[symmetric] split: list.splits prod.splits if_splits)
  moreover have "wrap64 (SIZEOF_ARENA_BLOCK + cap) \<le> 32 + cap" by (metis wrap64_le SIZEOF_ARENA_BLOCK_def)
  ultimately show ?thesis by simp
qed

lemma alloc_gives:
  assumes "rd_ok r" and "n \<le> 64 * rd_len r + 128"
  shows "gives lax heap (alloc heap n) r (\<lambda>_ r'. todo r' = todo r \<and> rd_i r' = rd_i r)"
proof -
  obtain ok d where a: "arena_alloc heap n (rd_doc r) = (ok, d)" by force
  have "heap < alloc_bound (rd_len r)" if "\<not> ok"
    using arena_alloc_fails[of heap n "rd_doc r" d] a that assms(2) by (simp add: alloc_bound_def)
  then show ?thesis using assms(1) a
    by (cases ok) (auto simp: gives_def alloc_def rd_ok_def todo_def same_input_def)
qed

section \<open>Scanning\<close>

lemma scan_ok:
  "n \<le> length b \<Longrightarrow> i \<le> n \<Longrightarrow> scan stop b n i = Ok (i + length (takeWhile (\<lambda>c. \<not> stop c) (drop i (take n b))))"
proof (induction stop b n i rule: scan.induct)
  case (1 stop b n i)
  show ?case
  proof (cases "i < n")
    case True
    then have d: "drop i (take n b) = b ! i # drop (Suc i) (take n b)"
      using 1(2) by (simp add: Cons_nth_drop_Suc[symmetric])
    have f: "(fetch b i :: u8 tsml) = Ok (b ! i)" using True 1(2) by (simp add: fetch_def)
    show ?thesis using 1(1)[OF True] 1(2) True by (simp add: scan.simps[of stop b n i] f d)
  next
    case False
    then show ?thesis unfolding scan.simps[of stop b n i] by simp
  qed
qed

section \<open>Escaped bytes\<close>

fun unescape :: "esc_ctx \<Rightarrow> u8 list \<Rightarrow> (u8 list \<times> u8 list) option" where
  "unescape ctx [] = None"
| "unescape ctx (c # xs) =
     (if c = BS then
        (case xs of
           [] \<Rightarrow> None
         | e # ys \<Rightarrow> if valid_escape e then map_option (\<lambda>(t, zs). (e # t, zs)) (unescape ctx ys) else None)
      else if is_reserved ctx c then Some ([], c # xs)
      else map_option (\<lambda>(t, zs). (c # t, zs)) (unescape ctx xs))"

text \<open>A run without its escapes, and runs that do not end within an escape.\<close>

fun strip :: "u8 list \<Rightarrow> u8 list" where
  "strip [] = []"
| "strip (c # xs) = (if c = BS then (case xs of [] \<Rightarrow> [] | e # ys \<Rightarrow> e # strip ys) else c # strip xs)"

fun paired :: "u8 list \<Rightarrow> bool" where
  "paired [] = True"
| "paired (c # xs) = (if c = BS then (case xs of [] \<Rightarrow> False | e # ys \<Rightarrow> paired ys) else paired xs)"

lemma unescape_split:
  "unescape ctx xs = Some (t, ys) \<Longrightarrow>
   \<exists>us. xs = us @ ys \<and> t = strip us \<and> paired us \<and> (\<exists>c zs. ys = c # zs \<and> is_reserved ctx c \<and> c \<noteq> BS)"
proof (induction ctx xs arbitrary: t rule: unescape.induct)
  case (2 ctx c xs)
  show ?case
  proof (cases "c = BS")
    case True
    then obtain e zs t' where x: "xs = e # zs" "valid_escape e" "unescape ctx zs = Some (t', ys)" "t = e # t'"
      using 2(3) by (auto split: list.splits if_splits)
    then obtain us where "zs = us @ ys" "t' = strip us" "paired us" "\<exists>c zs. ys = c # zs \<and> is_reserved ctx c \<and> c \<noteq> BS"
      using 2(1)[OF True x(1,2,3)] by blast
    then show ?thesis using x True by (intro exI[of _ "c # e # us"]) simp
  next
    case False
    show ?thesis
    proof (cases "is_reserved ctx c")
      case True
      then show ?thesis using 2(3) False by auto
    next
      case nr: False
      then obtain t' where x: "unescape ctx xs = Some (t', ys)" "t = c # t'" using 2(3) False by auto
      then obtain us where "xs = us @ ys" "t' = strip us" "paired us" "\<exists>c zs. ys = c # zs \<and> is_reserved ctx c \<and> c \<noteq> BS"
        using 2(2)[OF False nr x(1)] by blast
      then show ?thesis using x False by (intro exI[of _ "c # us"]) simp
    qed
  qed
qed simp

lemma length_strip: "length (strip us) \<le> length us"
  by (induction us rule: strip.induct) (auto split: list.splits)

lemma unescape_bytes: "is_reserved ctx c \<Longrightarrow> c \<noteq> BS \<Longrightarrow> unescape ctx (escaped_bytes ctx s @ c # ys) = Some (s, c # ys)"
proof (induction s)
  case (Cons x s)
  have "valid_escape x" if "is_reserved ctx x"
    using that by (cases ctx) (auto simp: is_reserved_def valid_escape_def)
  moreover have "is_reserved ctx BS" by (simp add: is_reserved_def)
  ultimately show ?case using Cons by auto
qed simp

lemma unescape_lead:
  "is_reserved CTX_TEXT c \<Longrightarrow> c \<noteq> BS \<Longrightarrow> unescape CTX_TEXT (lead_bytes CTX_TEXT lead s @ c # ys) = Some (s, c # ys)"
proof (cases s)
  case (Cons x s')
  assume "is_reserved CTX_TEXT c" "c \<noteq> BS"
  then have "unescape CTX_TEXT (escaped_bytes CTX_TEXT s' @ c # ys) = Some (s', c # ys)" by (rule unescape_bytes)
  moreover have "valid_escape x" if "is_reserved CTX_TEXT x \<or> x = LSQ" using that by (auto simp: is_reserved_def valid_escape_def)
  moreover have "is_reserved CTX_TEXT BS" by (simp add: is_reserved_def)
  ultimately show ?thesis using Cons by auto
qed simp

lemma measure_escapes_ok:
  assumes "n \<le> length b" and "i \<le> n"
  shows "case unescape ctx (drop i (take n b)) of
      None \<Rightarrow> measure_escapes ctx b n i nesc = Err TSML_ERR_MALFORMED \<or> (\<exists>k. measure_escapes ctx b n i nesc = Ok (n, k))
    | Some (t, ys) \<Rightarrow> \<exists>j. i \<le> j \<and> j < n \<and> drop j (take n b) = ys \<and> length t \<le> j - i \<and> measure_escapes ctx b n i nesc = Ok (j, nesc + (j - i - length t))"
  using assms
proof (induction ctx b n i nesc rule: measure_escapes.induct)
  case (1 ctx b n i nesc)
  note unf = measure_escapes.simps[of ctx b n i nesc]
  show ?case
  proof (cases "i < n")
    case False
    then show ?thesis using 1(3,4) unfolding unf by simp
  next
    case True
    have d: "drop i (take n b) = b ! i # drop (Suc i) (take n b)" using True 1(3) by (simp add: Cons_nth_drop_Suc[symmetric])
    have f: "(fetch b i :: u8 tsml) = Ok (b ! i)" using True 1(3) by (simp add: fetch_def)
    show ?thesis
    proof (cases "b ! i = BS")
      case bs: True
      show ?thesis
      proof (cases "i + 1 \<ge> n")
        case last: True
        then have "drop (Suc i) (take n b) = []" by simp
        then show ?thesis using bs True last by (simp add: unf f d)
      next
        case False
        have d2: "drop (Suc i) (take n b) = b ! Suc i # drop (i + 2) (take n b)"
          using False 1(3) by (simp add: Cons_nth_drop_Suc[symmetric])
        have f2: "(fetch b (i + 1) :: u8 tsml) = Ok (b ! Suc i)" using False 1(3) by (simp add: fetch_def)
        have m: "measure_escapes ctx b n i nesc = (if \<not> valid_escape (b ! Suc i) then Err TSML_ERR_MALFORMED else measure_escapes ctx b n (i + 2) (nesc + 1))"
          using True False bs by (simp add: unf f f2[simplified])
        show ?thesis
        proof (cases "valid_escape (b ! Suc i)")
          case ve: True
          have ih: "case unescape ctx (drop (i + 2) (take n b)) of
              None \<Rightarrow> measure_escapes ctx b n (i + 2) (nesc + 1) = Err TSML_ERR_MALFORMED \<or> (\<exists>k. measure_escapes ctx b n (i + 2) (nesc + 1) = Ok (n, k))
            | Some (t, ys) \<Rightarrow> \<exists>j. i + 2 \<le> j \<and> j < n \<and> drop j (take n b) = ys \<and> length t \<le> j - (i + 2) \<and>
                measure_escapes ctx b n (i + 2) (nesc + 1) = Ok (j, nesc + 1 + (j - (i + 2) - length t))"
            using 1(1)[OF True f bs False f2] ve 1(3) False by simp
          show ?thesis
          proof (cases "unescape ctx (drop (i + 2) (take n b))")
            case None
            then show ?thesis using ih m ve bs by (simp add: d d2)
          next
            case (Some p)
            obtain t ys where p: "p = (t, ys)" by force
            then obtain j where "i + 2 \<le> j" "j < n" "drop j (take n b) = ys" "length t \<le> j - (i + 2)"
              "measure_escapes ctx b n (i + 2) (nesc + 1) = Ok (j, nesc + 1 + (j - (i + 2) - length t))"
              using ih Some by auto
            then show ?thesis using m ve bs Some p by (auto simp: d d2 intro!: exI[of _ j])
          qed
        qed (use m bs in \<open>simp add: d d2\<close>)
      qed
    next
      case nbs: False
      show ?thesis
      proof (cases "is_reserved ctx (b ! i)")
        case r: True
        then show ?thesis using nbs True by (auto simp: unf f d intro!: exI[of _ i])
      next
        case r: False
        have m: "measure_escapes ctx b n i nesc = measure_escapes ctx b n (i + 1) nesc" using nbs r True by (simp add: unf f)
        have ih: "case unescape ctx (drop (i + 1) (take n b)) of
              None \<Rightarrow> measure_escapes ctx b n (i + 1) nesc = Err TSML_ERR_MALFORMED \<or> (\<exists>k. measure_escapes ctx b n (i + 1) nesc = Ok (n, k))
            | Some (t, ys) \<Rightarrow> \<exists>j. i + 1 \<le> j \<and> j < n \<and> drop j (take n b) = ys \<and> length t \<le> j - (i + 1) \<and>
                measure_escapes ctx b n (i + 1) nesc = Ok (j, nesc + (j - (i + 1) - length t))"
          using 1(2)[OF True f nbs r] 1(3) True by simp
        show ?thesis
        proof (cases "unescape ctx (drop (i + 1) (take n b))")
          case None
          then show ?thesis using ih m r nbs by (simp add: d)
        next
          case (Some p)
          obtain t ys where p: "p = (t, ys)" by force
          then obtain j where "i + 1 \<le> j" "j < n" "drop j (take n b) = ys" "length t \<le> j - (i + 1)"
            "measure_escapes ctx b n (i + 1) nesc = Ok (j, nesc + (j - (i + 1) - length t))"
            using ih Some by auto
          then show ?thesis using m r nbs Some p by (auto simp: d intro!: exI[of _ j])
        qed
      qed
    qed
  qed
qed

text \<open>The copy.\<close>

lemma strip_plain: "BS \<notin> set us \<Longrightarrow> strip (us @ zs) = us @ strip zs \<and> paired (us @ zs) = paired zs"
  by (induction us) auto

lemma take_drop_nth: "i < j \<Longrightarrow> j \<le> length b \<Longrightarrow> drop i (take j b) = b ! i # drop (Suc i) (take j b)"
  by (simp add: Cons_nth_drop_Suc[symmetric])

lemma copy_escaped_ok:
  assumes "pos \<le> stop" and "stop \<le> length b" and "paired (drop pos (take stop b))"
    and "length dst + length (strip (drop pos (take stop b))) \<le> cap"
  shows "copy_escaped b stop cap pos dst = Ok (dst @ strip (drop pos (take stop b)))"
  using assms
proof (induction b stop cap pos dst rule: copy_escaped.induct)
  case (1 b stop cap pos dst)
  note unf = copy_escaped.simps[of b stop cap pos dst]
  show ?case
  proof (cases "pos < stop")
    case False
    then show ?thesis using 1(3,4) unfolding unf by simp
  next
    case True
    note d = take_drop_nth[OF True 1(4)]
    have f: "(fetch b pos :: u8 tsml) = Ok (b ! pos)" using True 1(4) by (simp add: fetch_def)
    show ?thesis
    proof (cases "b ! pos = BS")
      case bs: True
      then obtain e zs where z: "drop (Suc pos) (take stop b) = e # zs" "paired zs"
        using 1(5) d by (auto split: list.splits)
      then have lt: "Suc pos < stop" by (metis drop_eq_Nil length_take list.distinct(1) min.absorb2 1(4) not_le)
      have e: "e = b ! Suc pos" "zs = drop (pos + 2) (take stop b)"
        using z(1) take_drop_nth[OF lt 1(4)] by simp_all
      have f2: "(fetch b (pos + 1) :: u8 tsml) = Ok e" using lt 1(4) by (simp add: fetch_def e)
      have st: "strip (drop pos (take stop b)) = e # strip zs" using bs z(1) by (simp add: d)
      have room: "length dst < cap" "length (dst @ [e]) + length (strip zs) \<le> cap" using 1(6) by (simp_all add: st)
      have "copy_escaped b stop cap (pos + 2) (dst @ [e]) = Ok ((dst @ [e]) @ strip zs)"
        unfolding e(2) by (rule 1(1)[OF True f bs f2 room(1)]) (use lt 1(4) z(2)[unfolded e(2)] room(2)[unfolded e(2)] in simp_all)
      then show ?thesis using True bs room(1) unfolding unf by (simp add: f f2[simplified] st)
    next
      case nbs: False
      let ?us = "takeWhile (\<lambda>c. c \<noteq> BS) (drop pos (take stop b))"
      let ?run = "pos + length ?us"
      have sc: "scan (\<lambda>c. c = BS) b stop pos = Ok ?run" using scan_ok[OF 1(4,3)] by simp
      have le: "?run \<le> stop" using length_takeWhile_le[of "\<lambda>c. c \<noteq> BS" "drop pos (take stop b)"] 1(3,4) by simp
      have split: "drop pos (take stop b) = ?us @ drop ?run (take stop b)"
      proof -
        have "drop ?run (take stop b) = dropWhile (\<lambda>c. c \<noteq> BS) (drop pos (take stop b))"
          unfolding dropWhile_eq_drop by (simp add: add.commute)
        then show ?thesis by simp
      qed
      have us: "take (?run - pos) (drop pos b) = ?us"
      proof -
        have "take (length ?us) (drop pos (take stop b)) = ?us" by (rule takeWhile_eq_take[symmetric])
        moreover have "take (length ?us) (drop pos (take stop b)) = take (length ?us) (drop pos b)"
          using le by (simp add: drop_take min_absorb1)
        ultimately show ?thesis by simp
      qed
      have "BS \<notin> set ?us" by (auto dest: set_takeWhileD)
      from strip_plain[OF this, of "drop ?run (take stop b)"] split
      have st: "strip (drop pos (take stop b)) = ?us @ strip (drop ?run (take stop b))" "paired (drop ?run (take stop b))"
        using 1(5) by simp_all
      have room: "length dst + (?run - pos) \<le> cap" "length (dst @ ?us) + length (strip (drop ?run (take stop b))) \<le> cap"
        using 1(6) by (simp_all add: st(1))
      have "copy_escaped b stop cap ?run (dst @ take (?run - pos) (drop pos b)) = Ok ((dst @ take (?run - pos) (drop pos b)) @ strip (drop ?run (take stop b)))"
        by (rule 1(2)[OF True f nbs sc room(1)]) (use le 1(4) st(2) room(2) us in simp_all)
      then show ?thesis using True nbs room(1) unfolding unf us by (simp add: f sc st(1) us[simplified])
    qed
  qed
qed

text \<open>The whole function: the result and the cursor of the reference, or its failure.\<close>

lemma gives_move:
  assumes "rd_ok r" and "rd_i r \<le> j" and "j \<le> rd_len r"
  shows "gives lax heap (sbind (goto j) (\<lambda>_. sret t)) r (\<lambda>v r'. v = t \<and> todo r' = drop (j - rd_i r) (todo r))"
  by (rule gives_sbind[OF goto_gives[OF assms]]) (rule gives_sret, simp_all)

lemma unescape_plain:
  "unescape ctx xs =
    (let us = takeWhile (\<lambda>c. \<not> (c = BS \<or> is_reserved ctx c)) xs; zs = drop (length us) xs in map_option (\<lambda>(t, ys). (us @ t, ys)) (unescape ctx zs))"
proof (induction xs)
  case (Cons c xs)
  show ?case
  proof (cases "c = BS \<or> is_reserved ctx c")
    case False
    then show ?thesis using Cons by (simp add: Let_def option.map_comp comp_def split_def)
  next
    case True
    then have tw: "takeWhile (\<lambda>c. \<not> (c = BS \<or> is_reserved ctx c)) (c # xs) = []" by simp
    show ?thesis unfolding tw Let_def by (simp add: option.map_ident split_def del: unescape.simps)
  qed
qed simp

lemma read_escaped_gives:
  assumes r: "rd_ok r" and lax: "unescape ctx (todo r) = None \<Longrightarrow> lax"
  shows "gives lax heap (read_escaped heap ctx) r (\<lambda>t r'. unescape ctx (todo r) = Some (t, todo r'))"
proof -
  let ?b = "rd_buf r" and ?n = "rd_len r" and ?start = "rd_i r"
  let ?P = "\<lambda>c. \<not> (c = BS \<or> is_reserved ctx c)"
  define us where "us = takeWhile ?P (todo r)"
  define i where "i = ?start + length us"
  have n: "?n \<le> length ?b" "?start \<le> ?n" using r by (simp_all add: rd_ok_def)
  have sc: "scan (\<lambda>c. c = BS \<or> is_reserved ctx c) ?b ?n ?start = Ok i" using scan_ok[OF n] by (simp add: todo_def us_def i_def)
  have si: "?start \<le> i" by (simp add: i_def)
  have le: "i \<le> ?n" using length_takeWhile_le[of ?P "todo r"] todo_length[OF r] n by (simp add: i_def us_def)
  have zs: "drop (length us) (todo r) = drop i (take ?n ?b)" by (simp add: todo_def i_def add.commute)
  have un: "unescape ctx (todo r) = map_option (\<lambda>(t, ys). (us @ t, ys)) (unescape ctx (drop i (take ?n ?b)))"
    using unescape_plain[of ctx "todo r"] by (simp only: Let_def us_def[symmetric] zs)
  have us: "take (i - ?start) (drop ?start ?b) = us"
  proof -
    have "take (length us) (todo r) = us" unfolding us_def by (rule takeWhile_eq_take[symmetric])
    moreover have "take (length us) (todo r) = take (length us) (drop ?start ?b)"
      using le by (simp add: todo_def drop_take min_absorb1 i_def)
    ultimately show ?thesis by (simp add: i_def)
  qed
  let ?Q = "\<lambda>t r'. unescape ctx (todo r) = Some (t, todo r')"
  let ?copy = "\<lambda>stop nesc. sbind (alloc heap (stop - ?start - nesc)) (\<lambda>_.
      sbind (slift (copy_escaped ?b stop (stop - ?start - nesc) ?start [])) (\<lambda>dst. sbind (goto stop) (\<lambda>_. sret dst)))"
  let ?rest = "\<lambda>c. if c \<noteq> BS then sbind (goto i) (\<lambda>_. sret us)
      else sbind (slift (measure_escapes ctx ?b ?n i 0)) (\<lambda>(stop, nesc). if stop \<ge> ?n then sfail TSML_ERR_MALFORMED else ?copy stop nesc)"
  have eq: "gives lax heap (read_escaped heap ctx) r ?Q = gives lax heap (if i \<ge> ?n then sfail TSML_ERR_MALFORMED else sbind (slift (fetch ?b i)) ?rest) r ?Q"
    by (simp only: gives_def read_escaped_def Let_def sc sbind_slift_Ok us)
  show ?thesis
  proof (cases "i \<ge> ?n")
    case True
    then have "unescape ctx (todo r) = None" by (simp add: un)
    then show ?thesis unfolding eq if_P[OF True] using lax by (intro gives_sfail) simp_all
  next
    case False
    then have i: "i < ?n" by simp
    have d: "drop i (take ?n ?b) = ?b ! i # drop (Suc i) (take ?n ?b)" by (rule take_drop_nth[OF i n(1)])
    have f: "(fetch ?b i :: u8 tsml) = Ok (?b ! i)" using i n by (simp add: fetch_def)
    have dw: "dropWhile ?P (todo r) = ?b ! i # drop (Suc i) (take ?n ?b)"
      unfolding dropWhile_eq_drop us_def[symmetric] zs by (rule d)
    then have stop: "?b ! i = BS \<or> is_reserved ctx (?b ! i)"
      using hd_dropWhile[of ?P "todo r"] unfolding dw by simp
    show ?thesis
    proof (cases "?b ! i = BS")
      case nbs: False
      then have "unescape ctx (todo r) = Some (us, drop i (take ?n ?b))" using stop d by (simp add: un)
      then have "gives lax heap (sbind (goto i) (\<lambda>_. sret us)) r ?Q"
        by (intro gives_mono[OF gives_move[OF r si le]]) (simp add: zs i_def)
      then show ?thesis unfolding eq if_not_P[OF False] f sbind_slift_Ok using nbs by simp
    next
      case bs: True
      note ms = measure_escapes_ok[OF n(1) le, of ctx 0]
      have eq2: "gives lax heap (read_escaped heap ctx) r ?Q =
          gives lax heap (sbind (slift (measure_escapes ctx ?b ?n i 0)) (\<lambda>(stop, nesc). if stop \<ge> ?n then sfail TSML_ERR_MALFORMED else ?copy stop nesc)) r ?Q"
        unfolding eq if_not_P[OF False] f sbind_slift_Ok using bs by simp
      show ?thesis
      proof (cases "unescape ctx (drop i (take ?n ?b))")
        case None
        then have "unescape ctx (todo r) = None" by (simp add: un)
        moreover have "measure_escapes ctx ?b ?n i 0 = Err TSML_ERR_MALFORMED \<or> (\<exists>k. measure_escapes ctx ?b ?n i 0 = Ok (?n, k))"
          using ms None by simp
        ultimately show ?thesis unfolding eq2 using lax by (elim disjE exE) (simp_all add: gives_def sbind_def)
      next
        case (Some p)
        obtain t ys where p: "p = (t, ys)" by force
        then obtain j where j: "i \<le> j" "j < ?n" "drop j (take ?n ?b) = ys" "length t \<le> j - i"
          "measure_escapes ctx ?b ?n i 0 = Ok (j, j - i - length t)"
          using ms Some by auto
        have whole: "unescape ctx (todo r) = Some (us @ t, ys)" using un Some p by simp
        from unescape_split[OF this] obtain ws where ws: "todo r = ws @ ys" "us @ t = strip ws" "paired ws" by blast
        have lw: "length ws = j - ?start"
          using arg_cong[OF ws(1), of length] arg_cong[OF j(3), of length] todo_length[OF r] j(1,2) n by simp
        have "take (length ws) (todo r) = ws" using ws(1) by simp
        then have slice: "drop ?start (take j ?b) = ws"
          using j(2) by (simp add: lw todo_def take_drop min_absorb1 si j(1) le_trans[OF si j(1)])
        have cap: "j - ?start - (j - i - length t) = length (strip ws)"
          unfolding ws(2)[symmetric] using j(1,4) by (simp add: i_def)
        have sj: "?start \<le> j" using si j(1) by simp
        have cp: "copy_escaped ?b j (length (strip ws)) ?start [] = Ok (strip ws)"
          using copy_escaped_ok[OF sj, of ?b "[]" "length (strip ws)"] slice ws(3) j n by simp
        have small: "length (strip ws) \<le> 64 * ?n + 128"
          using length_strip[of ws] lw j(2) by simp
        have "gives lax heap (?copy j (j - i - length t)) r ?Q" unfolding cap
        proof (rule gives_sbind[OF alloc_gives[OF r small]])
          fix u r1 assume r1: "todo r1 = todo r \<and> rd_i r1 = rd_i r" "rd_ok r1" "same_input r r1"
          have "gives lax heap (sbind (goto j) (\<lambda>_. sret (strip ws))) r1 (\<lambda>v r'. v = strip ws \<and> todo r' = drop (j - rd_i r1) (todo r1))"
            by (rule gives_move[OF r1(2)]) (use r1 j sj in \<open>simp_all add: same_input_def\<close>)
          then show "gives lax heap (sbind (slift (copy_escaped ?b j (length (strip ws)) ?start [])) (\<lambda>dst. sbind (goto j) (\<lambda>_. sret dst))) r1 ?Q"
            unfolding cp sbind_slift_Ok
            by (rule gives_mono) (use r1(1) ws lw whole in simp)
        qed
        then show ?thesis unfolding eq2 j(5) sbind_slift_Ok using j(2) by simp
      qed
    qed
  qed
qed

section \<open>Binary runs\<close>

fun unclaim :: "nat \<Rightarrow> nat \<Rightarrow> u64 \<Rightarrow> u8 list \<Rightarrow> (u64 \<times> u8 list) option" where
  "unclaim (Suc k) shift claim (c # xs) =
     (let claim = claim OR push_bit shift (ucast (c AND 0x7F)) in
      if c AND 0x80 = 0 then Some (claim, xs) else unclaim k (shift + 7) claim xs)"
| "unclaim _ _ _ _ = None"

fun unrun :: "u8 list \<Rightarrow> (u8 list \<times> u8 list) option" where
  "unrun [] = None"
| "unrun (c # xs) =
     (if c = 0 then Some ([], xs)
      else if c = BS then
        (case xs of
           [] \<Rightarrow> None
         | e # ys \<Rightarrow> if e = 48 \<or> e = BS then map_option (\<lambda>(t, zs). ((if e = 48 then 0 else BS) # t, zs)) (unrun ys) else None)
      else map_option (\<lambda>(t, zs). (c # t, zs)) (unrun xs))"

fun unbinary :: "u8 list \<Rightarrow> (u8 list \<times> u8 list) option" where
  "unbinary [] = None"
| "unbinary (kind # xs) =
     (if kind = 66 then
        (case unclaim 10 0 0 xs of
           None \<Rightarrow> None
         | Some (v, ys) \<Rightarrow> if unat v > length ys then None else Some (take (unat v) ys, drop (unat v) ys))
      else if kind = 98 then unrun xs
      else None)"

lemma read_claim_ok:
  assumes "n \<le> length b" and "i \<le> n"
  shows "case unclaim k shift claim (drop i (take n b)) of
      None \<Rightarrow> read_claim k b n i shift claim = Err TSML_ERR_MALFORMED
    | Some (v, ys) \<Rightarrow> \<exists>j. i < j \<and> j \<le> n \<and> drop j (take n b) = ys \<and> read_claim k b n i shift claim = Ok (v, j)"
  using assms
proof (induction k arbitrary: i shift claim)
  case (Suc k)
  show ?case
  proof (cases "i < n")
    case True
    have d: "drop i (take n b) = b ! i # drop (i + 1) (take n b)" using take_drop_nth[OF True Suc.prems(1)] by simp
    have f: "(fetch b i :: u8 tsml) = Ok (b ! i)" using True Suc.prems(1) by (simp add: fetch_def)
    let ?claim = "claim OR push_bit shift (ucast (b ! i AND 0x7F))"
    show ?thesis
    proof (cases "b ! i AND 0x80 = 0")
      case True
      then show ?thesis using \<open>i < n\<close> unfolding d by (auto simp: f Let_def)
    next
      case False
      have "case unclaim k (shift + 7) ?claim (drop (i + 1) (take n b)) of
          None \<Rightarrow> read_claim k b n (i + 1) (shift + 7) ?claim = Err TSML_ERR_MALFORMED
        | Some (v, ys) \<Rightarrow> \<exists>j. i + 1 < j \<and> j \<le> n \<and> drop j (take n b) = ys \<and> read_claim k b n (i + 1) (shift + 7) ?claim = Ok (v, j)"
        by (rule Suc.IH) (use True Suc.prems in simp_all)
      then show ?thesis using True False unfolding d
        by (cases "unclaim k (shift + 7) ?claim (drop (i + 1) (take n b))") (auto simp: f Let_def)
    qed
  qed (use Suc.prems in simp)
qed simp

lemma measure_run_ok:
  assumes "n \<le> length b" and "i \<le> n"
  shows "case unrun (drop i (take n b)) of
      None \<Rightarrow> measure_run b n i nesc = Err TSML_ERR_MALFORMED \<or> (\<exists>k. measure_run b n i nesc = Ok (n, k))
    | Some (t, ys) \<Rightarrow> \<exists>j. i \<le> j \<and> j < n \<and> length t \<le> j - i \<and> measure_run b n i nesc = Ok (j, nesc + (j - i - length t))"
  using assms
proof (induction b n i nesc rule: measure_run.induct)
  case (1 b n i nesc)
  note unf = measure_run.simps[of b n i nesc]
  show ?case
  proof (cases "i < n")
    case False
    then show ?thesis using 1(3,4) unfolding unf by simp
  next
    case True
    note d = take_drop_nth[OF True 1(3)]
    have f: "(fetch b i :: u8 tsml) = Ok (b ! i)" using True 1(3) by (simp add: fetch_def)
    consider (nul) "b ! i = 0" | (bs) "b ! i \<noteq> 0" "b ! i = BS" | (plain) "b ! i \<noteq> 0" "b ! i \<noteq> BS" by blast
    then show ?thesis
    proof cases
      case nul
      then show ?thesis using True unfolding unf by (auto simp: f d intro!: exI[of _ i])
    next
      case bs
      show ?thesis
      proof (cases "i + 1 \<ge> n")
        case last: True
        then have "drop (Suc i) (take n b) = []" by simp
        then show ?thesis using bs True last unfolding unf by (simp add: f d)
      next
        case False
        then have lt: "Suc i < n" by simp
        have d2: "drop (Suc i) (take n b) = b ! Suc i # drop (i + 2) (take n b)" using take_drop_nth[OF lt 1(3)] by simp
        have f2: "(fetch b (i + 1) :: u8 tsml) = Ok (b ! Suc i)" using lt 1(3) by (simp add: fetch_def)
        show ?thesis
        proof (cases "b ! Suc i \<noteq> 48 \<and> b ! Suc i \<noteq> BS")
          case ve: True
          then show ?thesis using True False bs unfolding unf by (simp add: f f2[simplified] d d2)
        next
          case ve: False
          have m: "measure_run b n i nesc = measure_run b n (i + 2) (nesc + 1)"
            using True False bs ve unfolding unf by (auto simp: f f2[simplified])
          have ih: "case unrun (drop (i + 2) (take n b)) of
              None \<Rightarrow> measure_run b n (i + 2) (nesc + 1) = Err TSML_ERR_MALFORMED \<or> (\<exists>k. measure_run b n (i + 2) (nesc + 1) = Ok (n, k))
            | Some (t, ys) \<Rightarrow> \<exists>j. i + 2 \<le> j \<and> j < n \<and> length t \<le> j - (i + 2) \<and>
                measure_run b n (i + 2) (nesc + 1) = Ok (j, nesc + 1 + (j - (i + 2) - length t))"
            by (rule 1(1)[OF True f bs False f2 ve]) (use 1(3) lt in simp_all)
          show ?thesis
          proof (cases "unrun (drop (i + 2) (take n b))")
            case None
            then show ?thesis using ih m ve bs by (simp add: d d2)
          next
            case (Some p)
            obtain t ys where p: "p = (t, ys)" by force
            then obtain j where "i + 2 \<le> j" "j < n" "length t \<le> j - (i + 2)"
              "measure_run b n (i + 2) (nesc + 1) = Ok (j, nesc + 1 + (j - (i + 2) - length t))"
              using ih Some by auto
            then show ?thesis using m ve bs Some p by (auto simp: d d2 intro!: exI[of _ j])
          qed
        qed
      qed
    next
      case plain
      have m: "measure_run b n i nesc = measure_run b n (i + 1) nesc" using plain True unfolding unf by (simp add: f)
      have ih: "case unrun (drop (i + 1) (take n b)) of
          None \<Rightarrow> measure_run b n (i + 1) nesc = Err TSML_ERR_MALFORMED \<or> (\<exists>k. measure_run b n (i + 1) nesc = Ok (n, k))
        | Some (t, ys) \<Rightarrow> \<exists>j. i + 1 \<le> j \<and> j < n \<and> length t \<le> j - (i + 1) \<and>
            measure_run b n (i + 1) nesc = Ok (j, nesc + (j - (i + 1) - length t))"
        by (rule 1(2)[OF True f plain]) (use 1(3) True in simp_all)
      show ?thesis
      proof (cases "unrun (drop (i + 1) (take n b))")
        case None
        then show ?thesis using ih m plain by (simp add: d)
      next
        case (Some p)
        obtain t ys where p: "p = (t, ys)" by force
        then obtain j where "i + 1 \<le> j" "j < n" "length t \<le> j - (i + 1)"
          "measure_run b n (i + 1) nesc = Ok (j, nesc + (j - (i + 1) - length t))"
          using ih Some by auto
        then show ?thesis using m plain Some p by (auto simp: d intro!: exI[of _ j])
      qed
    qed
  qed
qed

lemma copy_run_ok:
  assumes "n \<le> length b" and "i \<le> n" and "unrun (drop i (take n b)) = Some (t, ys)" and "length dst + length t \<le> cap"
  shows "\<exists>j. i < j \<and> j \<le> n \<and> drop j (take n b) = ys \<and> copy_run b n cap i dst = Ok (dst @ t, j)"
  using assms
proof (induction b n cap i dst arbitrary: t rule: copy_run.induct)
  case (1 b n cap i dst)
  note unf = copy_run.simps[of b n cap i dst]
  show ?case
  proof (cases "i < n")
    case True
    note d = take_drop_nth[OF True 1(3)]
    have f: "(fetch b i :: u8 tsml) = Ok (b ! i)" using True 1(3) by (simp add: fetch_def)
    consider (nul) "b ! i = 0" | (bs) "b ! i \<noteq> 0" "b ! i = BS" | (plain) "b ! i \<noteq> 0" "b ! i \<noteq> BS" by blast
    then show ?thesis
    proof cases
      case nul
      then show ?thesis using True 1(5) unfolding unf by (auto simp: f d)
    next
      case bs
      have "drop (Suc i) (take n b) \<noteq> []" using 1(5) bs d by (auto split: list.splits)
      then have lt: "Suc i < n" using 1(3) by simp
      have d2: "drop (Suc i) (take n b) = b ! Suc i # drop (i + 2) (take n b)" using take_drop_nth[OF lt 1(3)] by simp
      have f2: "(fetch b (i + 1) :: u8 tsml) = Ok (b ! Suc i)" using lt 1(3) by (simp add: fetch_def)
      have nle: "\<not> i + 1 \<ge> n" using lt by simp
      obtain t' where t': "b ! Suc i = 48 \<or> b ! Suc i = BS" "unrun (drop (i + 2) (take n b)) = Some (t', ys)"
        "t = (if b ! Suc i = 48 then 0 else BS) # t'"
        using 1(5) bs by (auto simp: d d2 split: if_splits)
      have room: "length dst < cap" using 1(6) t'(3) by simp
      have "\<exists>j. i + 2 < j \<and> j \<le> n \<and> drop j (take n b) = ys \<and>
          copy_run b n cap (i + 2) (dst @ [if b ! Suc i = 48 then 0 else BS]) = Ok ((dst @ [if b ! Suc i = 48 then 0 else BS]) @ t', j)"
        by (rule 1(1)[OF True f bs nle f2 t'(1) room]) (use 1(3,6) lt t'(2,3) in simp_all)
      then show ?thesis using True bs nle t'(1) room unfolding unf by (auto simp: f f2[simplified] t'(3))
    next
      case plain
      obtain t' where t': "unrun (drop (i + 1) (take n b)) = Some (t', ys)" "t = b ! i # t'"
        using 1(5) plain by (auto simp: d)
      have room: "length dst < cap" using 1(6) t'(2) by simp
      have "\<exists>j. i + 1 < j \<and> j \<le> n \<and> drop j (take n b) = ys \<and> copy_run b n cap (i + 1) (dst @ [b ! i]) = Ok ((dst @ [b ! i]) @ t', j)"
        by (rule 1(2)[OF True f plain room]) (use 1(3,6) True t' in simp_all)
      then show ?thesis using True plain room unfolding unf by (auto simp: f t'(2))
    qed
  qed (use 1(5) in simp)
qed

lemma unrun_plain:
  "unrun xs = (let us = takeWhile (\<lambda>c. \<not> (c = 0 \<or> c = BS)) xs; zs = drop (length us) xs in map_option (\<lambda>(t, ys). (us @ t, ys)) (unrun zs))"
proof (induction xs)
  case (Cons c xs)
  show ?case
  proof (cases "c = 0 \<or> c = BS")
    case False
    then show ?thesis using Cons by (simp add: Let_def option.map_comp comp_def split_def)
  next
    case True
    then have tw: "takeWhile (\<lambda>c. \<not> (c = 0 \<or> c = BS)) (c # xs) = []" by simp
    show ?thesis unfolding tw Let_def by (simp add: option.map_ident split_def del: unrun.simps)
  qed
qed simp

text \<open>A terminated run, from the byte behind its letter on.\<close>

definition read_run :: "nat \<Rightarrow> u8 list \<Rightarrow> nat \<Rightarrow> nat \<Rightarrow> u8 list decoding" where
  "read_run heap b n i =
     sbind (slift (scan (\<lambda>c. c = 0 \<or> c = BS) b n i)) (\<lambda>j.
     sbind (if j < n then slift (fetch b j) else sret BS) (\<lambda>c.
     if j < n \<and> c = 0 then sbind (goto (j + 1)) (\<lambda>_. sret (take (j - i) (drop i b)))
     else
       sbind (slift (measure_run b n i 0)) (\<lambda>(stop, nesc).
       if stop \<ge> n then sfail TSML_ERR_MALFORMED
       else
         sbind (alloc heap (stop - i - nesc)) (\<lambda>_.
         sbind (slift (copy_run b n (stop - i - nesc) i [])) (\<lambda>(dst, i).
         sbind (goto i) (\<lambda>_. sret dst))))))"

lemma read_run_gives:
  assumes r: "rd_ok r" and i: "rd_i r \<le> i" "i \<le> rd_len r" and lax: "unrun (drop i (take (rd_len r) (rd_buf r))) = None \<Longrightarrow> lax"
  shows "gives lax heap (read_run heap (rd_buf r) (rd_len r) i) r
    (\<lambda>t r'. unrun (drop i (take (rd_len r) (rd_buf r))) = Some (t, todo r'))"
proof -
  let ?b = "rd_buf r" and ?n = "rd_len r"
  let ?P = "\<lambda>c. \<not> (c = 0 \<or> c = BS)"
  define xs where "xs = drop i (take ?n ?b)"
  define us where "us = takeWhile ?P xs"
  define j where "j = i + length us"
  have n: "?n \<le> length ?b" using r by (simp add: rd_ok_def)
  have sc: "scan (\<lambda>c. c = 0 \<or> c = BS) ?b ?n i = Ok j" using scan_ok[OF n i(2)] by (simp add: us_def j_def xs_def)
  have le: "j \<le> ?n" using length_takeWhile_le[of ?P xs] n i by (simp add: j_def us_def xs_def)
  have zs: "drop (length us) xs = drop j (take ?n ?b)" by (simp add: xs_def j_def add.commute)
  have un: "unrun xs = map_option (\<lambda>(t, ys). (us @ t, ys)) (unrun (drop j (take ?n ?b)))"
    using unrun_plain[of xs] by (simp only: Let_def us_def[symmetric] zs)
  have us: "take (j - i) (drop i ?b) = us"
  proof -
    have "take (length us) xs = us" unfolding us_def by (rule takeWhile_eq_take[symmetric])
    moreover have "take (length us) xs = take (length us) (drop i ?b)"
      using le by (simp add: xs_def drop_take min_absorb1 j_def)
    ultimately show ?thesis by (simp add: j_def)
  qed
  have move: "drop (k - rd_i r) (todo r) = drop k (take ?n ?b)" if "rd_i r \<le> k" for k
    using that by (simp add: todo_def)
  let ?Q = "\<lambda>t r'. unrun xs = Some (t, todo r')"
  let ?slow = "sbind (slift (measure_run ?b ?n i 0)) (\<lambda>(stop, nesc).
       if stop \<ge> ?n then sfail TSML_ERR_MALFORMED
       else
         sbind (alloc heap (stop - i - nesc)) (\<lambda>_.
         sbind (slift (copy_run ?b ?n (stop - i - nesc) i [])) (\<lambda>(dst, i).
         sbind (goto i) (\<lambda>_. sret dst))))"
  show ?thesis unfolding xs_def[symmetric]
  proof (cases "j < ?n \<and> ?b ! j = 0")
    case True
    then have f: "(fetch ?b j :: u8 tsml) = Ok 0" using n by (simp add: fetch_def)
    have "unrun xs = Some (us, drop (j + 1) (take ?n ?b))" using True take_drop_nth[of j ?n ?b] n by (simp add: un)
    then have "gives lax heap (sbind (goto (j + 1)) (\<lambda>_. sret us)) r ?Q"
      by (intro gives_mono[OF gives_move[OF r]]) (use True i j_def in \<open>simp_all add: move\<close>)
    then show "gives lax heap (read_run heap ?b ?n i) r ?Q" unfolding read_run_def sc sbind_slift_Ok using True by (simp add: f us)
  next
    case False
    have rr: "gives lax heap (read_run heap ?b ?n i) r ?Q = gives lax heap ?slow r ?Q"
    proof (cases "j < ?n")
      case True
      then have f: "(fetch ?b j :: u8 tsml) = Ok (?b ! j)" using n by (simp add: fetch_def)
      show ?thesis unfolding read_run_def sc sbind_slift_Ok using True False by (simp add: f)
    next
      case ge: False
      show ?thesis unfolding read_run_def sc sbind_slift_Ok using ge by simp
    qed
    note ms = measure_run_ok[OF n i(2), of 0, folded xs_def]
    show "gives lax heap (read_run heap ?b ?n i) r ?Q"
    proof (cases "unrun xs")
      case None
      then have "measure_run ?b ?n i 0 = Err TSML_ERR_MALFORMED \<or> (\<exists>k. measure_run ?b ?n i 0 = Ok (?n, k))" using ms by simp
      then show ?thesis unfolding rr using lax None by (elim disjE exE) (simp_all add: gives_def sbind_def xs_def)
    next
      case (Some p)
      obtain t ys where p: "p = (t, ys)" by force
      then obtain k where k: "i \<le> k" "k < ?n" "length t \<le> k - i" "measure_run ?b ?n i 0 = Ok (k, k - i - length t)"
        using ms Some by auto
      have cap: "k - i - (k - i - length t) = length t" using k(3) by simp
      obtain m where m: "i < m" "m \<le> ?n" "drop m (take ?n ?b) = ys" "copy_run ?b ?n (length t) i [] = Ok (t, m)"
        using copy_run_ok[OF n i(2), of t ys "[]" "length t"] Some p by (auto simp: xs_def)
      have "gives lax heap (sbind (alloc heap (length t)) (\<lambda>_. sbind (slift (copy_run ?b ?n (length t) i [])) (\<lambda>(dst, i). sbind (goto i) (\<lambda>_. sret dst)))) r ?Q"
      proof (rule gives_sbind[OF alloc_gives[OF r]])
        show "length t \<le> 64 * ?n + 128" using k by linarith
        fix u r1 assume r1: "todo r1 = todo r \<and> rd_i r1 = rd_i r" "rd_ok r1" "same_input r r1"
        have "gives lax heap (sbind (goto m) (\<lambda>_. sret t)) r1 (\<lambda>v r'. v = t \<and> todo r' = drop (m - rd_i r1) (todo r1))"
          by (rule gives_move[OF r1(2)]) (use r1 m i in \<open>simp_all add: same_input_def\<close>)
        then have "gives lax heap (sbind (goto m) (\<lambda>_. sret t)) r1 ?Q"
          by (rule gives_mono) (use r1(1) m i Some p in \<open>simp add: move\<close>)
        then show "gives lax heap (sbind (slift (copy_run ?b ?n (length t) i [])) (\<lambda>(dst, i). sbind (goto i) (\<lambda>_. sret dst))) r1 ?Q"
          unfolding m(4) sbind_slift_Ok by simp
      qed
      moreover have "\<not> k \<ge> ?n" using k(2) by simp
      ultimately show ?thesis unfolding rr k(4) sbind_slift_Ok prod.case by (simp only: if_False cap)
    qed
  qed
qed

lemma read_binary_gives:
  assumes r: "rd_ok r" and x: "todo r = x # xs" and lax: "unbinary xs = None \<Longrightarrow> lax"
  shows "gives lax heap (read_binary heap) r (\<lambda>t r'. unbinary xs = Some (t, todo r'))"
proof -
  let ?b = "rd_buf r" and ?n = "rd_len r"
  define i where "i = rd_i r + 1"
  have n: "?n \<le> length ?b" using r by (simp add: rd_ok_def)
  have i: "i \<le> ?n" "rd_i r \<le> i" using x todo_length[OF r] by (simp_all add: i_def)
  have xs: "xs = drop i (take ?n ?b)" using x by (simp add: todo_def i_def drop_Suc tl_drop[symmetric] flip: tl_drop)
  show ?thesis
  proof (cases "i < ?n")
    case False
    then have "xs = []" using xs i by simp
    then show ?thesis using False lax by (simp add: gives_def read_binary_def Let_def i_def)
  next
    case True
    have d: "xs = ?b ! i # drop (i + 1) (take ?n ?b)" using take_drop_nth[OF True n] by (simp add: xs)
    have f: "(fetch ?b i :: u8 tsml) = Ok (?b ! i)" using True n by (simp add: fetch_def)
    have eq: "gives lax heap (read_binary heap) r Q = gives lax heap
        (if ?b ! i = 66 then
          sbind (slift (read_claim 10 ?b ?n (i + 1) 0 0)) (\<lambda>(claim, i).
          if unat claim > ?n - i then sfail TSML_ERR_MALFORMED
          else sbind (goto (i + unat claim)) (\<lambda>_. sret (take (unat claim) (drop i ?b))))
        else if ?b ! i \<noteq> 98 then sfail TSML_ERR_MALFORMED
        else read_run heap ?b ?n (i + 1)) r Q" for Q
      using True by (simp only: gives_def read_binary_def Let_def i_def[symmetric] f sbind_slift_Ok read_run_def not_le[symmetric] if_False refl)
    show ?thesis
    proof (cases "?b ! i = 66")
      case B: True
      note cl = read_claim_ok[OF n, of "i + 1" 10 0 0]
      show ?thesis
      proof (cases "unclaim 10 0 0 (drop (i + 1) (take ?n ?b))")
        case None
        then have "unbinary xs = None" using B by (simp add: d)
        then show ?thesis unfolding eq if_P[OF B] using cl None True lax by (simp add: gives_def sbind_def)
      next
        case (Some p)
        obtain v ys where p: "p = (v, ys)" by force
        then obtain j where j: "i + 1 < j" "j \<le> ?n" "drop j (take ?n ?b) = ys" "read_claim 10 ?b ?n (i + 1) 0 0 = Ok (v, j)"
          using cl Some True by auto
        have ly: "length ys = ?n - j" using arg_cong[OF j(3), of length] n by simp
        show ?thesis
        proof (cases "unat v > ?n - j")
          case big: True
          then have "unbinary xs = None" using B Some p ly by (simp add: d)
          then show ?thesis unfolding eq if_P[OF B] j(4) sbind_slift_Ok using big lax by (simp add: gives_def)
        next
          case fits: False
          have tk: "take (unat v) ys = take (unat v) (drop j ?b)" "drop (unat v) ys = drop (j + unat v) (take ?n ?b)"
            using fits j(2) by (auto simp: j(3)[symmetric] drop_take add.commute min_def)
          have ub: "unbinary xs = Some (take (unat v) (drop j ?b), drop (j + unat v) (take ?n ?b))"
            using B Some p ly fits by (simp add: d tk)
          have "gives lax heap (sbind (goto (j + unat v)) (\<lambda>_. sret (take (unat v) (drop j ?b)))) r (\<lambda>t r'. unbinary xs = Some (t, todo r'))"
            by (rule gives_mono[OF gives_move[OF r]]) (use fits i j ub in \<open>auto simp: todo_def\<close>)
          then show ?thesis unfolding eq if_P[OF B] j(4) sbind_slift_Ok using fits by simp
        qed
      qed
    next
      case nB: False
      show ?thesis
      proof (cases "?b ! i = 98")
        case True
        have "unbinary xs = unrun (drop (i + 1) (take ?n ?b))" using True by (simp add: d)
        then show ?thesis unfolding eq if_not_P[OF nB]
          using read_run_gives[OF r, of "i + 1" lax heap] lax i \<open>i < ?n\<close> True by simp
      next
        case False
        then have "unbinary xs = None" using nB by (simp add: d)
        then show ?thesis unfolding eq if_not_P[OF nB] using False lax by (simp add: gives_def)
      qed
    qed
  qed
qed

section \<open>Reading what was written\<close>

lemma unrun_bytes: "unrun (run_bytes s @ 0 # ys) = Some (s, ys)"
  by (induction s) (auto simp: BS_def)

lemma claim_split: "push_bit sh (word_of_nat (n mod 128)) OR push_bit (sh + 7) (word_of_nat (n div 128)) = push_bit sh (word_of_nat n :: u64)"
proof -
  have "n mod 128 = take_bit 7 n" "n div 128 = drop_bit 7 n" by (simp_all add: take_bit_eq_mod drop_bit_eq_div)
  then show ?thesis by (auto simp: bit_simps intro!: bit_eqI)
qed

lemma claim_byte:
  assumes "m < 128"
  shows "(ucast (word_of_nat m AND 0x7F :: u8) :: u64) = word_of_nat m" "(word_of_nat m :: u8) AND 0x80 = 0"
    and "(ucast ((word_of_nat m OR 0x80) AND 0x7F :: u8) :: u64) = word_of_nat m" "((word_of_nat m :: u8) OR 0x80) AND 0x80 \<noteq> 0"
proof -
  have m: "m = take_bit 7 m" using assms by (simp add: take_bit_nat_eq_self)
  have b: "i < 7" if "bit m i" for i using that by (subst (asm) m) (simp add: bit_take_bit_iff)
  have k: "bit (0x7F :: u8) i \<longleftrightarrow> i < 7" "bit (0x80 :: u8) i \<longleftrightarrow> i = 7" if "i < 8" for i
    using that by (auto simp: less_Suc_eq numeral_eq_Suc)
  have u: "(ucast (word_of_nat m :: u8) :: u64) = word_of_nat m"
    using assms by (simp add: unsigned_of_nat take_bit_nat_eq_self)
  have "(word_of_nat m :: u8) AND 0x7F = word_of_nat m" "((word_of_nat m :: u8) OR 0x80) AND 0x7F = word_of_nat m"
    by (rule bit_eqI, use b k in \<open>fastforce simp: bit_simps\<close>)+
  then show "(ucast (word_of_nat m AND 0x7F :: u8) :: u64) = word_of_nat m" "(ucast ((word_of_nat m OR 0x80) AND 0x7F :: u8) :: u64) = word_of_nat m"
    by (simp_all only: u)
  show "(word_of_nat m :: u8) AND 0x80 = 0"
    by (rule bit_eqI) (use b k in \<open>fastforce simp: bit_simps\<close>)
  have "bit (((word_of_nat m :: u8) OR 0x80) AND 0x80) 7" using k[of 7] by (simp add: bit_simps)
  then show "((word_of_nat m :: u8) OR 0x80) AND 0x80 \<noteq> 0" by auto
qed

lemma unclaim_bytes: "n < 128 ^ k \<Longrightarrow> 0 < k \<Longrightarrow> unclaim k sh acc (varint_bytes n @ ys) = Some (acc OR push_bit sh (word_of_nat n), ys)"
proof (induction n arbitrary: k sh acc rule: varint_bytes.induct)
  case (1 n)
  obtain k' where k: "k = Suc k'" using 1(3) by (cases k) auto
  have lt: "n mod 128 < 128" by simp
  show ?case
  proof (cases "n div 128 = 0")
    case True
    then have "n mod 128 = n" by simp
    then show ?thesis using True claim_byte(1,2)[OF lt] by (simp add: k varint_bytes.simps[of n] Let_def)
  next
    case False
    have "n div 128 < 128 ^ k'" using 1(2) by (simp add: k less_mult_imp_div_less mult.commute)
    moreover from this have "0 < k'" using False by (cases k') auto
    ultimately have "unclaim k' (sh + 7) a (varint_bytes (n div 128) @ ys) = Some (a OR push_bit (sh + 7) (word_of_nat (n div 128)), ys)" for a
      by (rule 1(1)[OF False])
    then show ?thesis
      using False claim_byte(3,4)[OF lt] claim_split[of sh n] by (simp add: k varint_bytes.simps[of n] Let_def or.assoc)
  qed
qed

lemma unbinary_bytes:
  assumes "in_memory s" and "f \<noteq> FORM_INLINE"
  shows "unbinary (tl (form_bytes lead s f) @ ys) = Some (s, ys)"
proof (cases f)
  case FORM_COUNTED
  have l: "length s \<le> 1152921504606846976" using assms(1) by (simp add: in_memory_def)
  then have u: "unat (word_of_nat (length s) :: u64) = length s" by (simp add: unsigned_of_nat take_bit_nat_eq_self)
  have "length s < 128 ^ 10" using l by simp
  from unclaim_bytes[OF this, of 0 0 "s @ ys"] show ?thesis by (simp add: FORM_COUNTED u)
qed (use assms(2) unrun_bytes in simp_all)

end
