(* ===== verification/Terseml_Laws.thy ===== *)
theory Terseml_Laws
  imports Terseml_Read
begin

text \<open>
  The terse ML decoder: on any bytes it returns a well-formed tree or an error, and it reads back every tree the
  encoder writes, provided no inline text is followed by another text.
\<close>

section \<open>Rules for the reader\<close>

lemma gives_here_cases:
  assumes "rd_ok r" and "todo r = [] \<Longrightarrow> gives lax heap (f None) r Q" and "\<And>x xs. todo r = x # xs \<Longrightarrow> gives lax heap (f (Some x)) r Q"
  shows "gives lax heap (sbind here f) r Q"
  by (rule gives_sbind[OF here_gives[OF assms(1)]]) (use assms(2,3) in \<open>auto split: list.splits\<close>)

lemma gives_here:
  assumes "rd_ok r" and "todo r = x # xs" and "gives lax heap (f (Some x)) r Q" shows "gives lax heap (sbind here f) r Q"
  by (rule gives_here_cases) (use assms in auto)

lemma gives_step:
  assumes "rd_ok r" and "todo r = x # xs" and "\<And>r'. rd_ok r' \<Longrightarrow> same_input r r' \<Longrightarrow> todo r' = xs \<Longrightarrow> gives lax heap (f ()) r' Q"
  shows "gives lax heap (sbind step f) r Q"
  by (rule gives_sbind[OF step_gives[OF assms(1,2)]]) (use assms(3) in auto)

lemma gives_alloc:
  assumes "rd_ok r" and "n \<le> 64 * rd_len r + 128"
    and "\<And>r'. rd_ok r' \<Longrightarrow> same_input r r' \<Longrightarrow> todo r' = todo r \<Longrightarrow> gives lax heap (f ()) r' Q"
  shows "gives lax heap (sbind (alloc heap n) f) r Q"
  by (rule gives_sbind[OF alloc_gives[OF assms(1,2)]]) (use assms(3) in auto)

lemma gives_grow:
  assumes "rd_ok r" and "n \<le> rd_len r" and "elem \<le> 32" and "first * elem \<le> 128" and "\<And>cap. gives lax heap (f cap) r Q"
  shows "gives lax heap (sbind (slift (grow_vec heap elem first n cap)) f) r Q"
proof -
  have "n * (elem * 2) \<le> rd_len r * 64" using assms(2,3) by (intro mult_le_mono) simp_all
  then have le: "n * 2 * elem < alloc_bound (rd_len r)" by (simp add: ac_simps alloc_bound_def)
  have le0: "first * elem < alloc_bound (rd_len r)" using assms(4) by (simp add: alloc_bound_def)
  have "grow_vec heap elem first n cap = Err TSML_ERR_ALLOC \<and> heap < (if n \<noteq> 0 then n * 2 else first) * elem \<or> (\<exists>c. grow_vec heap elem first n cap = Ok c)"
    by (simp add: grow_vec_def Let_def)
  then have "grow_vec heap elem first n cap = Err TSML_ERR_ALLOC \<and> heap < alloc_bound (rd_len r) \<or> (\<exists>c. grow_vec heap elem first n cap = Ok c)"
    using less_trans[OF _ le] less_trans[OF _ le0] by (auto split: if_splits)
  then show ?thesis using assms(5) by (elim disjE exE conjE) (simp_all add: gives_def sbind_def)
qed

lemma gives_escaped:
  assumes "rd_ok r" and "\<And>t r'. rd_ok r' \<Longrightarrow> same_input r r' \<Longrightarrow> unescape ctx (todo r) = Some (t, todo r') \<Longrightarrow> gives True heap (f t) r' Q"
  shows "gives True heap (sbind (read_escaped heap ctx) f) r Q"
  by (rule gives_sbind[OF read_escaped_gives[OF assms(1)]]) (use assms(2) in simp_all)

lemma gives_escaped_exact:
  assumes "rd_ok r" and "unescape ctx (todo r) = Some (t, ys)" and "\<And>r'. rd_ok r' \<Longrightarrow> same_input r r' \<Longrightarrow> todo r' = ys \<Longrightarrow> gives lax heap (f t) r' Q"
  shows "gives lax heap (sbind (read_escaped heap ctx) f) r Q"
  by (rule gives_sbind[OF read_escaped_gives[OF assms(1)]]) (use assms(2,3) in simp_all)

lemma unescape_length: "unescape ctx xs = Some (t, ys) \<Longrightarrow> length t + length ys \<le> length xs"
  using unescape_split[of ctx xs t ys] length_strip by fastforce

lemma unescape_next: "unescape ctx xs = Some (t, ys) \<Longrightarrow> \<exists>c zs. ys = c # zs \<and> is_reserved ctx c \<and> c \<noteq> BS"
  using unescape_split[of ctx xs t ys] by blast

lemma same_len: "same_input r r' \<Longrightarrow> rd_len r' = rd_len r"
  by (simp add: same_input_def)

lemma todo_le: "rd_ok r \<Longrightarrow> length (todo r) \<le> rd_len r"
  by (simp add: todo_length)

lemma unescape_in_memory:
  assumes "rd_ok r" and "unescape ctx (todo r) = Some (t, ys)" shows "in_memory t"
  using unescape_length[OF assms(2)] todo_le[OF assms(1)] assms(1) by (simp add: in_memory_def rd_ok_def)

section \<open>Attributes\<close>

lemma attr_loop_safe:
  "rd_ok r \<Longrightarrow> length (todo r) < fuel \<Longrightarrow> length av + length (todo r) \<le> rd_len r \<Longrightarrow> list_all attr_ok av \<Longrightarrow>
   gives True heap (attr_loop fuel heap av cap) r (\<lambda>av' r'. list_all attr_ok av' \<and> length av' + length (todo r') \<le> rd_len r \<and> length (todo r') \<le> length (todo r))"
proof (induction fuel arbitrary: r av cap)
  case (Suc fuel)
  note r = Suc.prems(1)
  show ?case unfolding attr_loop.simps
  proof (rule gives_escaped[OF r])
    fix key r1 assume r1: "rd_ok r1" "same_input r r1" "unescape CTX_KEY (todo r) = Some (key, todo r1)"
    note l1 = unescape_length[OF r1(3)]
    obtain c zs where c: "todo r1 = c # zs" using unescape_next[OF r1(3)] by blast
    show "gives True heap (sbind here (\<lambda>c. if c \<noteq> Some COL then sfail TSML_ERR_MALFORMED else sbind step (\<lambda>_.
        sbind (read_escaped heap CTX_VAL) (\<lambda>val. sbind (slift (grow_vec heap SIZEOF_ATTR 4 (length av) cap)) (\<lambda>cap.
        let av = av @ [Attr (Some key) (Some val)] in sbind here (\<lambda>c. if c = Some COM then sbind step (\<lambda>_.
          sbind here (\<lambda>c. if c = Some RSQ then sret av else attr_loop fuel heap av cap)) else sret av)))))) r1
      (\<lambda>av' r'. list_all attr_ok av' \<and> length av' + length (todo r') \<le> rd_len r \<and> length (todo r') \<le> length (todo r))"
    proof (intro gives_here[OF r1(1) c] gives_if gives_sfail gives_step[OF r1(1) c] gives_escaped)
      fix r2 val r3 assume r2: "rd_ok r2" "same_input r1 r2" "todo r2 = zs" and r3: "rd_ok r3" "same_input r2 r3" "unescape CTX_VAL (todo r2) = Some (val, todo r3)"
      note l2 = unescape_length[OF r3(3)]
      let ?av = "av @ [Attr (Some key) (Some val)]"
      have len: "rd_len r3 = rd_len r" using r1 r2 r3 by (simp add: same_input_def)
      have "attr_ok (Attr (Some key) (Some val))"
        using unescape_in_memory[OF r r1(3)] unescape_in_memory[OF r2(1) r3(3)] by (simp add: attr_ok_def)
      then have ok: "list_all attr_ok ?av" using Suc.prems(4) by simp
      have room: "length ?av + length (todo r3) \<le> rd_len r" "length (todo r3) < length (todo r)"
        using Suc.prems(3) l1 l2 c r2(3) by simp_all
      have ret: "gives True heap (sret ?av) r'
          (\<lambda>av' r'. list_all attr_ok av' \<and> length av' + length (todo r') \<le> rd_len r \<and> length (todo r') \<le> length (todo r))"
        if "rd_ok r'" "length (todo r') \<le> length (todo r3)" for r'
        by (rule gives_sret[OF that(1)]) (use ok room that(2) in simp)
      show "gives True heap (sbind (slift (grow_vec heap SIZEOF_ATTR 4 (length av) cap)) (\<lambda>cap.
          let av = ?av in sbind here (\<lambda>c. if c = Some COM then sbind step (\<lambda>_.
          sbind here (\<lambda>c. if c = Some RSQ then sret av else attr_loop fuel heap av cap)) else sret av))) r3
        (\<lambda>av' r'. list_all attr_ok av' \<and> length av' + length (todo r') \<le> rd_len r \<and> length (todo r') \<le> length (todo r))"
        unfolding Let_def
      proof (rule gives_grow[OF r3(1)])
        fix cap
        show "gives True heap (sbind here (\<lambda>c. if c = Some COM then sbind step (\<lambda>_.
            sbind here (\<lambda>c. if c = Some RSQ then sret ?av else attr_loop fuel heap ?av cap)) else sret ?av)) r3
          (\<lambda>av' r'. list_all attr_ok av' \<and> length av' + length (todo r') \<le> rd_len r \<and> length (todo r') \<le> length (todo r))"
        proof (rule gives_here_cases[OF r3(1)])
          show "gives True heap (if None = Some COM then sbind step (\<lambda>_. sbind here (\<lambda>c. if c = Some RSQ then sret ?av else attr_loop fuel heap ?av cap)) else sret ?av) r3
            (\<lambda>av' r'. list_all attr_ok av' \<and> length av' + length (todo r') \<le> rd_len r \<and> length (todo r') \<le> length (todo r))"
            by (intro gives_if ret r3(1)) simp_all
        next
          fix x xs assume x: "todo r3 = x # xs"
          show "gives True heap (if Some x = Some COM then sbind step (\<lambda>_. sbind here (\<lambda>c. if c = Some RSQ then sret ?av else attr_loop fuel heap ?av cap)) else sret ?av) r3
            (\<lambda>av' r'. list_all attr_ok av' \<and> length av' + length (todo r') \<le> rd_len r \<and> length (todo r') \<le> length (todo r))"
          proof (intro gives_if ret gives_step[OF r3(1) x])
            fix r4 assume r4: "rd_ok r4" "same_input r3 r4" "todo r4 = xs"
            have again: "gives True heap (attr_loop fuel heap ?av cap) r4
                (\<lambda>av' r'. list_all attr_ok av' \<and> length av' + length (todo r') \<le> rd_len r \<and> length (todo r') \<le> length (todo r))"
              by (rule gives_mono[OF Suc.IH[OF r4(1)]]) (use r4 room x ok len Suc.prems(2) in \<open>auto simp: same_input_def\<close>)
            show "gives True heap (sbind here (\<lambda>c. if c = Some RSQ then sret ?av else attr_loop fuel heap ?av cap)) r4
                (\<lambda>av' r'. list_all attr_ok av' \<and> length av' + length (todo r') \<le> rd_len r \<and> length (todo r') \<le> length (todo r))"
              by (rule gives_here_cases[OF r4(1)]; intro gives_if again ret r4(1)) (use r4(3) x in simp_all)
          qed (use r3(1) in simp_all)
        qed
      qed (use room len in \<open>simp_all add: SIZEOF_ATTR_def\<close>)
    qed (use r1 in simp_all)
  qed
qed simp

text \<open>The brackets around the pairs.\<close>

lemma decode_attrs_safe:
  assumes r: "rd_ok r" and x: "todo r = x # xs"
  shows "gives True heap (decode_attrs heap) r (\<lambda>av r'. list_all attr_ok av \<and> length (todo r') < length (todo r))"
  unfolding decode_attrs_def
proof (rule gives_step[OF r x])
  fix r1 assume r1: "rd_ok r1" "same_input r r1" "todo r1 = xs"
  let ?Q = "\<lambda>av r'. list_all attr_ok av \<and> length (todo r') < length (todo r)"
  let ?close = "\<lambda>av. sbind here (\<lambda>c. if c \<noteq> Some RSQ then sfail TSML_ERR_MALFORMED
      else sbind step (\<lambda>_. sbind (if av \<noteq> [] then alloc heap (length av * SIZEOF_ATTR) else sret ()) (\<lambda>_. sret av)))"
  have close: "gives True heap (?close av) r2 ?Q"
    if r2: "rd_ok r2" "same_input r r2" and av: "list_all attr_ok av" "length av + length (todo r2) \<le> rd_len r" "length (todo r2) \<le> length xs" for av r2
  proof (rule gives_here_cases[OF r2(1)])
    fix y ys assume y: "todo r2 = y # ys"
    show "gives True heap (if Some y \<noteq> Some RSQ then sfail TSML_ERR_MALFORMED
        else sbind step (\<lambda>_. sbind (if av \<noteq> [] then alloc heap (length av * SIZEOF_ATTR) else sret ()) (\<lambda>_. sret av))) r2 ?Q"
    proof (intro gives_if gives_sfail gives_step[OF r2(1) y])
      fix r3 assume r3: "rd_ok r3" "same_input r2 r3" "todo r3 = ys"
      have sz: "length av * SIZEOF_ATTR \<le> 64 * rd_len r3 + 128" using av(2) r2(2) r3(2) by (simp add: SIZEOF_ATTR_def same_input_def)
      have Q: "?Q av r'" if "todo r' = ys" for r' using that av(1,3) x y by simp
      show "gives True heap (sbind (if av \<noteq> [] then alloc heap (length av * SIZEOF_ATTR) else sret ()) (\<lambda>_. sret av)) r3 ?Q"
      proof (cases "av \<noteq> []")
        case True
        show ?thesis unfolding if_P[OF True] by (rule gives_alloc[OF r3(1) sz]) (intro gives_sret Q, simp_all add: r3(3))
      next
        case False
        show ?thesis unfolding if_not_P[OF False] sbind_sret by (intro gives_sret r3(1) Q r3(3))
      qed
    qed simp_all
  qed (intro gives_if gives_sfail, simp_all)
  have loop: "gives True heap (\<lambda>r. attr_loop (rd_len r + 1) heap [] 0 r) r1 (\<lambda>av r'. list_all attr_ok av \<and> length av + length (todo r') \<le> rd_len r1 \<and> length (todo r') \<le> length (todo r1))"
    using attr_loop_safe[of r1 "rd_len r1 + 1" "[]" heap 0] todo_le[OF r1(1)] r1(1) by (simp add: gives_def)
  have body: "gives True heap (sbind (if c \<noteq> None \<and> c \<noteq> Some RSQ then (\<lambda>r. attr_loop (rd_len r + 1) heap [] 0 r) else sret []) ?close) r1 ?Q" for c
  proof (cases "c \<noteq> None \<and> c \<noteq> Some RSQ")
    case True
    show ?thesis unfolding if_P[OF True]
      by (rule gives_sbind[OF loop], rule close) (use r1 same_input_trans[OF r1(2)] in \<open>auto simp: same_input_def\<close>)
  next
    case False
    show ?thesis unfolding if_not_P[OF False] sbind_sret
      by (rule close[OF r1(1,2)]) (use r1 todo_le[OF r1(1)] in \<open>simp_all add: same_input_def\<close>)
  qed
  show "gives True heap (sbind here (\<lambda>c. sbind (if c \<noteq> None \<and> c \<noteq> Some RSQ then (\<lambda>r. attr_loop (rd_len r + 1) heap [] 0 r) else sret []) ?close)) r1 ?Q"
    by (rule gives_here_cases[OF r1(1)]; rule body)
qed

section \<open>Elements on any bytes\<close>

text \<open>What the decoder makes: nesting within the limit, attributes with key and value, no empty text.\<close>

fun decoded :: "nat \<Rightarrow> tsml_node \<Rightarrow> bool"
  and decoded_children :: "nat \<Rightarrow> tsml_node list \<Rightarrow> bool" where
  "decoded dep (TSML_TEXT s) = (s \<noteq> [] \<and> in_memory s)"
| "decoded dep (TSML_ELEMENT tag attrs children) =
     (dep \<le> TSML_MAX_DEPTH \<and> in_memory tag \<and> list_all attr_ok attrs \<and> decoded_children (dep + 1) children)"
| "decoded_children dep [] = True"
| "decoded_children dep (c # cs) = (decoded dep c \<and> decoded_children dep cs)"

lemma decoded_append: "decoded_children dep (xs @ ys) = (decoded_children dep xs \<and> decoded_children dep ys)"
  by (induction xs) auto

lemma unrun_length: "unrun xs = Some (t, ys) \<Longrightarrow> length t + length ys < length xs"
proof (induction xs arbitrary: t rule: unrun.induct)
  case (2 c xs)
  then show ?case by (cases xs) (fastforce split: if_splits)+
qed simp

lemma unclaim_length: "unclaim k sh acc xs = Some (v, ys) \<Longrightarrow> length ys < length xs"
  by (induction k sh acc xs rule: unclaim.induct) (auto simp: Let_def split: if_splits)

lemma unbinary_length: "unbinary xs = Some (t, ys) \<Longrightarrow> length t + length ys \<le> length xs"
proof (cases xs)
  case (Cons k zs)
  assume "unbinary xs = Some (t, ys)"
  then show ?thesis using unclaim_length[of 10 0 0 zs] unrun_length[of zs t ys]
    by (auto simp: Cons split: if_splits option.splits)
qed simp

text \<open>A text child.\<close>

lemma read_text_safe:
  assumes r: "rd_ok r" and x: "todo r = x # xs" "x \<noteq> LBR" "x \<noteq> RBR"
  shows "gives True heap (read_text heap) r (\<lambda>t r'. in_memory t \<and> length (todo r') < length (todo r))"
proof -
  let ?Q = "\<lambda>t r'. in_memory t \<and> length (todo r') < length (todo r)"
  have i: "rd_i r < rd_len r" "rd_len r \<le> length (rd_buf r)" "rd_len r \<le> 1152921504606846976" using r x(1) todo_length[OF r] by (simp_all add: rd_ok_def)
  have "rd_buf r ! rd_i r = x" using x(1) take_drop_nth[OF i(1,2)] by (simp add: todo_def)
  then have f: "(fetch (rd_buf r) (rd_i r) :: u8 tsml) = Ok x" using i by (simp add: fetch_def)
  have bin: "gives True heap (read_binary heap) r ?Q"
    by (rule gives_mono[OF read_binary_gives[OF r x(1)]]) (use x(1) unbinary_length todo_le[OF r] i(3) in \<open>fastforce simp: in_memory_def\<close>)+
  have esc: "gives True heap (read_escaped heap CTX_TEXT) r ?Q"
  proof (rule gives_mono[OF read_escaped_gives[OF r]])
    fix t r' assume u: "unescape CTX_TEXT (todo r) = Some (t, todo r')"
    have "length (todo r') < length (todo r)"
    proof -
      obtain us where us: "todo r = us @ todo r'" using unescape_split[OF u] by blast
      moreover obtain c zs where "todo r' = c # zs" "is_reserved CTX_TEXT c" "c \<noteq> BS" using unescape_next[OF u] by blast
      ultimately show ?thesis using x by (cases us) (auto simp: is_reserved_def)
    qed
    then show "?Q t r'" using unescape_in_memory[OF r u] by simp
  qed simp
  have "gives True heap (sbind (slift (fetch (rd_buf r) (rd_i r))) (\<lambda>c.
      sbind (if c = BS \<and> rd_i r + 1 < rd_len r then slift (fetch (rd_buf r) (rd_i r + 1)) else sret 0) (\<lambda>e.
      if e = 98 \<or> e = 66 then read_binary heap else read_escaped heap CTX_TEXT))) r ?Q"
    unfolding f sbind_slift_Ok
    using bin esc i by (auto simp: fetch_def)
  then show ?thesis by (simp add: gives_def read_text_def)
qed

lemma decode_safe:
  "rd_ok r \<Longrightarrow> 2 * length (todo r) + 1 < fuel \<Longrightarrow> length kids + length (todo r) \<le> rd_len r \<Longrightarrow> decoded_children (dep + 1) kids \<Longrightarrow>
     gives True heap (decode_children fuel heap dep kids cap) r (\<lambda>ks r'. decoded_children (dep + 1) ks \<and> length (todo r') < length (todo r))"
  "rd_ok r \<Longrightarrow> 2 * length (todo r) < fuel \<Longrightarrow>
     gives True heap (decode_element fuel heap dep) r (\<lambda>n r'. decoded dep n \<and> (\<exists>t as cs. n = TSML_ELEMENT t as cs) \<and> length (todo r') < length (todo r))"
proof (induction fuel arbitrary: r kids cap dep)
  case (Suc fuel)
  {
    case 1
    note r = 1(1)
    let ?Q = "\<lambda>ks r'. decoded_children (dep + 1) ks \<and> length (todo r') < length (todo r)"
    have more: "gives True heap (decode_children fuel heap dep (kids @ [c]) cap') r' ?Q"
      if "rd_ok r'" "same_input r r'" "length (todo r') < length (todo r)" "decoded (dep + 1) c" for c r' cap'
    proof -
      have "gives True heap (decode_children fuel heap dep (kids @ [c]) cap') r' (\<lambda>ks r''. decoded_children (dep + 1) ks \<and> length (todo r'') < length (todo r'))"
        by (rule Suc.IH(1)[OF that(1)]) (use that 1(2-4) in \<open>simp_all add: decoded_append same_input_def\<close>)
      then show ?thesis by (rule gives_mono) (use that(3) in simp)
    qed
    have pushed: "gives True heap (sbind (slift (grow_vec heap SIZEOF_POINTER 4 (length kids) cap)) (\<lambda>cap. decode_children fuel heap dep (kids @ [c]) cap)) r' ?Q"
      if "rd_ok r'" "same_input r r'" "length (todo r') < length (todo r)" "decoded (dep + 1) c" for c r'
      by (rule gives_grow[OF that(1)]) (use more[OF that] 1(3) that(2) in \<open>simp_all add: SIZEOF_POINTER_def same_input_def\<close>)
    show ?case unfolding decode_children.simps
    proof (rule gives_here_cases[OF r])
      show "gives True heap (if None = None then sfail TSML_ERR_MALFORMED
          else if None = Some RBR then sbind step (\<lambda>_. sbind (if kids \<noteq> [] then alloc heap (length kids * SIZEOF_POINTER) else sret ()) (\<lambda>_. sret kids))
          else if None = Some LBR then sbind (decode_element fuel heap (dep + 1)) (\<lambda>child. sbind (slift (grow_vec heap SIZEOF_POINTER 4 (length kids) cap)) (\<lambda>cap. decode_children fuel heap dep (kids @ [child]) cap))
          else sbind (read_text heap) (\<lambda>t. if t = [] then decode_children fuel heap dep kids cap
            else sbind (alloc heap SIZEOF_NODE) (\<lambda>_. sbind (slift (grow_vec heap SIZEOF_POINTER 4 (length kids) cap)) (\<lambda>cap. decode_children fuel heap dep (kids @ [TSML_TEXT t]) cap)))) r ?Q"
        by (simp add: gives_sfail del: sfail_apply)
    next
      fix x xs assume x: "todo r = x # xs"
      have close: "gives True heap (sbind step (\<lambda>_. sbind (if kids \<noteq> [] then alloc heap (length kids * SIZEOF_POINTER) else sret ()) (\<lambda>_. sret kids))) r ?Q"
      proof (rule gives_step[OF r x])
        fix r1 assume r1: "rd_ok r1" "same_input r r1" "todo r1 = xs"
        have sz: "length kids * SIZEOF_POINTER \<le> 64 * rd_len r1 + 128" using 1(3) r1(2) by (simp add: SIZEOF_POINTER_def same_input_def)
        show "gives True heap (sbind (if kids \<noteq> [] then alloc heap (length kids * SIZEOF_POINTER) else sret ()) (\<lambda>_. sret kids)) r1 ?Q"
        proof (cases "kids \<noteq> []")
          case True
          show ?thesis unfolding if_P[OF True] by (rule gives_alloc[OF r1(1) sz], rule gives_sret) (use 1(4) r1(3) x in simp_all)
        next
          case False
          show ?thesis unfolding if_not_P[OF False] sbind_sret by (rule gives_sret[OF r1(1)]) (use 1(4) r1(3) x in simp)
        qed
      qed
      have element: "gives True heap (sbind (decode_element fuel heap (dep + 1)) (\<lambda>child. sbind (slift (grow_vec heap SIZEOF_POINTER 4 (length kids) cap)) (\<lambda>cap. decode_children fuel heap dep (kids @ [child]) cap))) r ?Q"
        by (rule gives_sbind[OF Suc.IH(2)[OF r]]) (use 1(2) pushed in auto)
      have string: "gives True heap (sbind (read_text heap) (\<lambda>t. if t = [] then decode_children fuel heap dep kids cap
            else sbind (alloc heap SIZEOF_NODE) (\<lambda>_. sbind (slift (grow_vec heap SIZEOF_POINTER 4 (length kids) cap)) (\<lambda>cap. decode_children fuel heap dep (kids @ [TSML_TEXT t]) cap)))) r ?Q"
        if "x \<noteq> LBR" "x \<noteq> RBR"
      proof (rule gives_sbind[OF read_text_safe[OF r x that]])
        fix t r1 assume t: "in_memory t \<and> length (todo r1) < length (todo r)" and r1: "rd_ok r1" "same_input r r1"
        have again: "gives True heap (decode_children fuel heap dep kids cap) r1 ?Q"
        proof -
          have "gives True heap (decode_children fuel heap dep kids cap) r1 (\<lambda>ks r''. decoded_children (dep + 1) ks \<and> length (todo r'') < length (todo r1))"
            by (rule Suc.IH(1)[OF r1(1)]) (use t 1(2-4) r1(2) in \<open>simp_all add: same_input_def\<close>)
          then show ?thesis by (rule gives_mono) (use t in simp)
        qed
        show "gives True heap (if t = [] then decode_children fuel heap dep kids cap
            else sbind (alloc heap SIZEOF_NODE) (\<lambda>_. sbind (slift (grow_vec heap SIZEOF_POINTER 4 (length kids) cap)) (\<lambda>cap. decode_children fuel heap dep (kids @ [TSML_TEXT t]) cap))) r1 ?Q"
          by (intro gives_if again gives_alloc[OF r1(1)] pushed)
            (use t r1(2) in \<open>auto simp: SIZEOF_NODE_def intro: same_input_trans\<close>)
      qed
      show "gives True heap (if Some x = None then sfail TSML_ERR_MALFORMED
          else if Some x = Some RBR then sbind step (\<lambda>_. sbind (if kids \<noteq> [] then alloc heap (length kids * SIZEOF_POINTER) else sret ()) (\<lambda>_. sret kids))
          else if Some x = Some LBR then sbind (decode_element fuel heap (dep + 1)) (\<lambda>child. sbind (slift (grow_vec heap SIZEOF_POINTER 4 (length kids) cap)) (\<lambda>cap. decode_children fuel heap dep (kids @ [child]) cap))
          else sbind (read_text heap) (\<lambda>t. if t = [] then decode_children fuel heap dep kids cap
            else sbind (alloc heap SIZEOF_NODE) (\<lambda>_. sbind (slift (grow_vec heap SIZEOF_POINTER 4 (length kids) cap)) (\<lambda>cap. decode_children fuel heap dep (kids @ [TSML_TEXT t]) cap)))) r ?Q"
        by (intro gives_if close element string) simp_all
    qed
  next
    case 2
    note r = 2(1)
    let ?R = "\<lambda>n r'. decoded dep n \<and> (\<exists>t as cs. n = TSML_ELEMENT t as cs) \<and> length (todo r') < length (todo r)"
    show ?case
    proof (cases "dep > TSML_MAX_DEPTH")
      case True
      show ?thesis unfolding decode_element.simps if_P[OF True] by (rule gives_sfail) simp_all
    next
      case False
      have kids: "gives True heap (sbind (decode_children fuel heap dep [] 0) (\<lambda>kids. sret (TSML_ELEMENT head attrs kids))) r' ?R"
        if "rd_ok r'" "same_input r r'" "Suc (length (todo r')) < length (todo r)" "in_memory head" "list_all attr_ok attrs" for head attrs r'
      proof (rule gives_sbind[OF Suc.IH(1)[OF that(1)]])
        fix ks r2 assume "decoded_children (dep + 1) ks \<and> length (todo r2) < length (todo r')" "rd_ok r2" "same_input r' r2"
        then show "gives True heap (sret (TSML_ELEMENT head attrs ks)) r2 ?R" using that False by (intro gives_sret) simp_all
      qed (use that 2(2) todo_le[OF that(1)] in simp_all)
      show ?thesis unfolding decode_element.simps if_not_P[OF False]
      proof (rule gives_here_cases[OF r])
        fix x xs assume x: "todo r = x # xs"
        show "gives True heap (if Some x \<noteq> Some LBR then sfail TSML_ERR_MALFORMED
          else sbind step (\<lambda>_. sbind (alloc heap SIZEOF_NODE) (\<lambda>_. sbind (read_escaped heap CTX_TAG) (\<lambda>head.
          sbind here (\<lambda>c. if c = Some RBR then sbind step (\<lambda>_.
            if head \<noteq> [] then sbind (alloc heap SIZEOF_NODE) (\<lambda>_. sbind (alloc heap SIZEOF_POINTER) (\<lambda>_. sret (TSML_ELEMENT TSML_TAG_TEXT [] [TSML_TEXT head])))
            else sret (TSML_ELEMENT TSML_TAG_TEXT [] []))
          else if c \<noteq> Some COM then sfail TSML_ERR_MALFORMED
          else sbind step (\<lambda>_. sbind here (\<lambda>c. if c = Some LSQ then sbind (decode_attrs heap) (\<lambda>attrs. sbind here (\<lambda>c.
              if c = Some COM then sbind step (\<lambda>_. sbind (decode_children fuel heap dep [] 0) (\<lambda>kids. sret (TSML_ELEMENT head attrs kids)))
              else if c = Some RBR then sbind step (\<lambda>_. sret (TSML_ELEMENT head attrs []))
              else sbind (decode_children fuel heap dep [] 0) (\<lambda>kids. sret (TSML_ELEMENT head attrs kids))))
            else sbind (decode_children fuel heap dep [] 0) (\<lambda>kids. sret (TSML_ELEMENT head [] kids))))))))) r ?R"
        proof (intro gives_if gives_sfail gives_step[OF r x] gives_alloc gives_escaped)
          fix r1 r2 head r3
          assume r1: "rd_ok r1" "same_input r r1" "todo r1 = xs" and r2: "rd_ok r2" "same_input r1 r2" "todo r2 = todo r1"
            and r3: "rd_ok r3" "same_input r2 r3" "unescape CTX_TAG (todo r2) = Some (head, todo r3)"
          have head: "in_memory head" by (rule unescape_in_memory[OF r2(1) r3(3)])
          have same3: "same_input r r3" using r1(2) r2(2) r3(2) by (simp add: same_input_def)
          have len3: "length (todo r3) < length (todo r)" using unescape_length[OF r3(3)] r1(3) r2(3) x by simp
          obtain c zs where c: "todo r3 = c # zs" using unescape_next[OF r3(3)] by blast
          have single: "gives True heap (if head \<noteq> [] then sbind (alloc heap SIZEOF_NODE) (\<lambda>_. sbind (alloc heap SIZEOF_POINTER)
              (\<lambda>_. sret (TSML_ELEMENT TSML_TAG_TEXT [] [TSML_TEXT head]))) else sret (TSML_ELEMENT TSML_TAG_TEXT [] [])) r4 ?R"
            if r4: "rd_ok r4" "todo r4 = zs" for r4
            by (intro gives_if gives_alloc gives_sret)
              (use r4 head False len3 c in \<open>auto simp: SIZEOF_NODE_def SIZEOF_POINTER_def TSML_TAG_TEXT_def in_memory_def\<close>)
          have content: "gives True heap (sbind here (\<lambda>c. if c = Some LSQ then sbind (decode_attrs heap) (\<lambda>attrs. sbind here (\<lambda>c.
              if c = Some COM then sbind step (\<lambda>_. sbind (decode_children fuel heap dep [] 0) (\<lambda>kids. sret (TSML_ELEMENT head attrs kids)))
              else if c = Some RBR then sbind step (\<lambda>_. sret (TSML_ELEMENT head attrs []))
              else sbind (decode_children fuel heap dep [] 0) (\<lambda>kids. sret (TSML_ELEMENT head attrs kids))))
            else sbind (decode_children fuel heap dep [] 0) (\<lambda>kids. sret (TSML_ELEMENT head [] kids)))) r4 ?R"
            if r4: "rd_ok r4" "same_input r3 r4" "todo r4 = zs" for r4
          proof -
            have same4: "same_input r r4" using same3 r4(2) by (rule same_input_trans)
            have len4: "Suc (length (todo r4)) < length (todo r)" using len3 c r4(3) by simp
            have plain: "gives True heap (sbind (decode_children fuel heap dep [] 0) (\<lambda>kids. sret (TSML_ELEMENT head [] kids))) r4 ?R"
              by (rule kids[OF r4(1) same4 len4 head]) simp
            have behind: "gives True heap (sbind here (\<lambda>c.
                if c = Some COM then sbind step (\<lambda>_. sbind (decode_children fuel heap dep [] 0) (\<lambda>kids. sret (TSML_ELEMENT head attrs kids)))
                else if c = Some RBR then sbind step (\<lambda>_. sret (TSML_ELEMENT head attrs []))
                else sbind (decode_children fuel heap dep [] 0) (\<lambda>kids. sret (TSML_ELEMENT head attrs kids)))) r5 ?R"
              if r5: "rd_ok r5" "same_input r4 r5" "length (todo r5) < length (todo r4)" and as: "list_all attr_ok attrs" for attrs r5
            proof -
              have same5: "same_input r r5" using same4 r5(2) by (rule same_input_trans)
              have k: "gives True heap (sbind (decode_children fuel heap dep [] 0) (\<lambda>kids. sret (TSML_ELEMENT head attrs kids))) r' ?R"
                if "rd_ok r'" "same_input r5 r'" "length (todo r') \<le> length (todo r5)" for r'
                by (rule kids[OF that(1) same_input_trans[OF same5 that(2)] _ head as]) (use that(3) r5(3) len4 in linarith)
              show ?thesis
              proof (rule gives_here_cases[OF r5(1)])
                fix y ys assume y: "todo r5 = y # ys"
                show "gives True heap (if Some y = Some COM then sbind step (\<lambda>_. sbind (decode_children fuel heap dep [] 0) (\<lambda>kids. sret (TSML_ELEMENT head attrs kids)))
                  else if Some y = Some RBR then sbind step (\<lambda>_. sret (TSML_ELEMENT head attrs []))
                  else sbind (decode_children fuel heap dep [] 0) (\<lambda>kids. sret (TSML_ELEMENT head attrs kids))) r5 ?R"
                  by (intro gives_if gives_step[OF r5(1) y] k gives_sret) (use r5 y len4 head as False in auto)
              qed (intro gives_if k, use r5 in simp_all)
            qed
            show ?thesis
            proof (rule gives_here_cases[OF r4(1)])
              fix y ys assume y: "todo r4 = y # ys"
              show "gives True heap (if Some y = Some LSQ then sbind (decode_attrs heap) (\<lambda>attrs. sbind here (\<lambda>c.
                  if c = Some COM then sbind step (\<lambda>_. sbind (decode_children fuel heap dep [] 0) (\<lambda>kids. sret (TSML_ELEMENT head attrs kids)))
                  else if c = Some RBR then sbind step (\<lambda>_. sret (TSML_ELEMENT head attrs []))
                  else sbind (decode_children fuel heap dep [] 0) (\<lambda>kids. sret (TSML_ELEMENT head attrs kids))))
                else sbind (decode_children fuel heap dep [] 0) (\<lambda>kids. sret (TSML_ELEMENT head [] kids))) r4 ?R"
                by (intro gives_if plain gives_sbind[OF decode_attrs_safe[OF r4(1) y]]) (use behind in auto)
            qed (intro gives_if plain, simp_all)
          qed
          show "gives True heap (sbind here (\<lambda>c. if c = Some RBR then sbind step (\<lambda>_.
              if head \<noteq> [] then sbind (alloc heap SIZEOF_NODE) (\<lambda>_. sbind (alloc heap SIZEOF_POINTER) (\<lambda>_. sret (TSML_ELEMENT TSML_TAG_TEXT [] [TSML_TEXT head])))
              else sret (TSML_ELEMENT TSML_TAG_TEXT [] []))
            else if c \<noteq> Some COM then sfail TSML_ERR_MALFORMED
            else sbind step (\<lambda>_. sbind here (\<lambda>c. if c = Some LSQ then sbind (decode_attrs heap) (\<lambda>attrs. sbind here (\<lambda>c.
                if c = Some COM then sbind step (\<lambda>_. sbind (decode_children fuel heap dep [] 0) (\<lambda>kids. sret (TSML_ELEMENT head attrs kids)))
                else if c = Some RBR then sbind step (\<lambda>_. sret (TSML_ELEMENT head attrs []))
                else sbind (decode_children fuel heap dep [] 0) (\<lambda>kids. sret (TSML_ELEMENT head attrs kids))))
              else sbind (decode_children fuel heap dep [] 0) (\<lambda>kids. sret (TSML_ELEMENT head [] kids)))))) r3 ?R"
            by (rule gives_here[OF r3(1) c]) (intro gives_if gives_sfail gives_step[OF r3(1) c] single content, simp_all)
        qed (simp_all add: SIZEOF_NODE_def)
      qed (intro gives_if gives_sfail, simp_all)
    qed
  }
qed simp_all

section \<open>Reading back\<close>

text \<open>Trees whose text can be taken apart again: no empty text, and no text behind a text that is written inline.\<close>

fun separable :: "bool \<Rightarrow> tsml_node list \<Rightarrow> bool"
  and readable_node :: "tsml_node \<Rightarrow> bool" where
  "readable_node (TSML_TEXT s) = (s \<noteq> [])"
| "readable_node (TSML_ELEMENT tag attrs children) = separable (attrs = []) children"
| "separable lead [] = True"
| "separable lead (c # cs) =
     (readable_node c \<and> separable False cs \<and>
      (case c of
         TSML_ELEMENT _ _ _ \<Rightarrow> True
       | TSML_TEXT s \<Rightarrow> choose_form s (length s) lead = FORM_INLINE \<longrightarrow> (case cs of TSML_TEXT _ # _ \<Rightarrow> False | _ \<Rightarrow> True)))"

text \<open>A bare text comes back as the element with the reserved tag.\<close>

fun read_back :: "tsml_node \<Rightarrow> tsml_node" where
  "read_back (TSML_TEXT s) = TSML_ELEMENT TSML_TAG_TEXT [] (if s = [] then [] else [TSML_TEXT s])"
| "read_back n = n"

lemma attr_text_reserved: "is_reserved CTX_KEY COL" "is_reserved CTX_VAL COM" "is_reserved CTX_VAL RSQ" "is_reserved CTX_TAG COM"
  "is_reserved CTX_TEXT LBR" "is_reserved CTX_TEXT RBR"
  by (simp_all add: is_reserved_def)

lemma byte_neq [simp]: "COL \<noteq> BS" "COM \<noteq> BS" "RSQ \<noteq> BS" "LBR \<noteq> BS" "RBR \<noteq> BS" "LSQ \<noteq> BS" "COM \<noteq> LSQ" "RBR \<noteq> LBR" "LBR \<noteq> RBR" "RBR \<noteq> LSQ" "LBR \<noteq> LSQ"
  "RSQ \<noteq> COM" "COM \<noteq> RSQ" "BS \<noteq> RSQ" "BS \<noteq> LBR" "BS \<noteq> RBR" "BS \<noteq> LSQ" "BS \<noteq> COM" "COL \<noteq> COM" "COL \<noteq> RSQ" "COM \<noteq> RBR" "RSQ \<noteq> RBR"
  by (simp_all add: byte_defs)

lemma attrs_more: "attrs_bytes True as = (if as = [] then [] else COM # attrs_bytes False as)"
  by (cases as) simp_all

lemma attr_loop_exact:
  "rd_ok r \<Longrightarrow> as \<noteq> [] \<Longrightarrow> list_all attr_ok as \<Longrightarrow> todo r = attrs_bytes False as @ RSQ # ys \<Longrightarrow> length as < fuel \<Longrightarrow>
   length av + length (todo r) \<le> rd_len r \<Longrightarrow>
   gives False heap (attr_loop fuel heap av cap) r (\<lambda>av' r'. av' = av @ as \<and> todo r' = RSQ # ys)"
proof (induction fuel arbitrary: r av cap as)
  case (Suc fuel)
  note r = Suc.prems(1)
  obtain a as' where as: "as = a # as'" using Suc.prems(2) by (cases as) auto
  obtain k v where a: "a = Attr (Some k) (Some v)" using Suc.prems(3) by (auto simp: as attr_ok_def)
  define zs where "zs = attrs_bytes True as' @ RSQ # ys"
  have t0: "todo r = escaped_bytes CTX_KEY k @ COL # escaped_bytes CTX_VAL v @ zs"
    using Suc.prems(4) by (simp add: as a attr_bytes_def zs_def)
  obtain z zs' where z: "zs = z # zs'" "is_reserved CTX_VAL z" "z \<noteq> BS"
  proof (cases "as' = []")
    case True
    then show thesis using that[of RSQ ys] by (simp add: zs_def attr_text_reserved)
  next
    case False
    then show thesis using that[of COM "attrs_bytes False as' @ RSQ # ys"] by (simp add: zs_def attrs_more attr_text_reserved)
  qed
  have u1: "unescape CTX_KEY (todo r) = Some (k, COL # escaped_bytes CTX_VAL v @ zs)"
    unfolding t0 by (rule unescape_bytes) (simp_all add: attr_text_reserved)
  let ?Q = "\<lambda>av' r'. av' = av @ as \<and> todo r' = RSQ # ys"
  show ?case unfolding attr_loop.simps
  proof (rule gives_escaped_exact[OF r u1])
    fix r1 assume r1: "rd_ok r1" "same_input r r1" "todo r1 = COL # escaped_bytes CTX_VAL v @ zs"
    show "gives False heap (sbind here (\<lambda>c. if c \<noteq> Some COL then sfail TSML_ERR_MALFORMED else sbind step (\<lambda>_.
        sbind (read_escaped heap CTX_VAL) (\<lambda>val. sbind (slift (grow_vec heap SIZEOF_ATTR 4 (length av) cap)) (\<lambda>cap.
        let av = av @ [Attr (Some k) (Some val)] in sbind here (\<lambda>c. if c = Some COM then sbind step (\<lambda>_.
          sbind here (\<lambda>c. if c = Some RSQ then sret av else attr_loop fuel heap av cap)) else sret av)))))) r1 ?Q"
    proof (rule gives_here[OF r1(1,3)], simp del: sret_apply, rule gives_step[OF r1(1,3)])
      fix r2 assume r2: "rd_ok r2" "same_input r1 r2" "todo r2 = escaped_bytes CTX_VAL v @ zs"
      have u2: "unescape CTX_VAL (todo r2) = Some (v, z # zs')" unfolding r2(3) z(1) by (rule unescape_bytes[OF z(2,3)])
      have tail: "gives False heap (sbind here (\<lambda>c. if c = Some COM then sbind step (\<lambda>_.
          sbind here (\<lambda>c. if c = Some RSQ then sret (av @ [a]) else attr_loop fuel heap (av @ [a]) cap)) else sret (av @ [a]))) r3 ?Q"
        if r3: "rd_ok r3" "same_input r2 r3" "todo r3 = z # zs'" for cap r3
      proof (cases as')
        case Nil
        then have "z = RSQ" "zs' = ys" using z(1) by (simp_all add: zs_def)
        then show ?thesis by (intro gives_here[OF r3(1,3)] gives_if gives_sret[OF r3(1)]) (use r3(3) Nil as in simp_all)
      next
        case (Cons b bs)
        then have zc: "z = COM" "zs' = attrs_bytes False as' @ RSQ # ys" using z(1) by (simp_all add: zs_def attrs_more)
        obtain k' v' where b: "b = Attr (Some k') (Some v')" using Suc.prems(3) by (auto simp: as Cons attr_ok_def)
        obtain y ys' where y: "zs' = y # ys'" "y \<noteq> RSQ"
        proof (cases k')
          case Nil
          then show thesis using that[of COL] by (simp add: zc Cons b attr_bytes_def)
        next
          case (Cons e es)
          note e = zc(2) \<open>as' = b # bs\<close> b attr_bytes_def
          show thesis
          proof (cases "is_reserved CTX_KEY e")
            case True
            then show thesis using that[of BS] by (simp add: e Cons)
          next
            case False
            then have "e \<noteq> RSQ" by (auto simp: is_reserved_def)
            then show thesis using that[of e] False by (simp add: e Cons)
          qed
        qed
        have len: "rd_len r3 = rd_len r" using r1 r2 r3 by (simp add: same_input_def)
        have "gives False heap (sbind step (\<lambda>_. sbind here (\<lambda>c. if c = Some RSQ then sret (av @ [a]) else attr_loop fuel heap (av @ [a]) cap))) r3 ?Q"
        proof (rule gives_step[OF r3(1,3)])
          fix r4 assume r4: "rd_ok r4" "same_input r3 r4" "todo r4 = zs'"
          have ty: "todo r4 = y # ys'" using r4(3) y(1) by simp
          have "length (todo r4) < length (todo r)" unfolding r4(3) t0 z(1) by simp
          then have "gives False heap (attr_loop fuel heap (av @ [a]) cap) r4 (\<lambda>av' r'. av' = (av @ [a]) @ as' \<and> todo r' = RSQ # ys)"
            by (intro Suc.IH r4(1)) (use Suc.prems as Cons zc r4 len in \<open>auto simp: same_input_def\<close>)
          then have again: "gives False heap (attr_loop fuel heap (av @ [a]) cap) r4 ?Q" by (simp add: as)
          show "gives False heap (sbind here (\<lambda>c. if c = Some RSQ then sret (av @ [a]) else attr_loop fuel heap (av @ [a]) cap)) r4 ?Q"
            by (rule gives_here[OF r4(1) ty]) (use again y(2) in \<open>simp del: sret_apply\<close>)
        qed
        then show ?thesis by (intro gives_here[OF r3(1,3)]) (simp add: zc(1))
      qed
      show "gives False heap (sbind (read_escaped heap CTX_VAL) (\<lambda>val. sbind (slift (grow_vec heap SIZEOF_ATTR 4 (length av) cap)) (\<lambda>cap.
          let av = av @ [Attr (Some k) (Some val)] in sbind here (\<lambda>c. if c = Some COM then sbind step (\<lambda>_.
          sbind here (\<lambda>c. if c = Some RSQ then sret av else attr_loop fuel heap av cap)) else sret av)))) r2 ?Q"
        unfolding Let_def
        by (rule gives_escaped_exact[OF r2(1) u2], unfold a[symmetric], rule gives_grow)
          (use tail Suc.prems(6) r1 r2 in \<open>simp_all add: SIZEOF_ATTR_def same_input_def\<close>)
    qed
  qed
qed simp

lemma attr_bytes_length: "length as \<le> length (attrs_bytes sep as)"
  by (induction sep as rule: attrs_bytes.induct) (simp_all add: attr_bytes_def)

lemma attrs_first: "as \<noteq> [] \<Longrightarrow> list_all attr_ok as \<Longrightarrow> \<exists>y zs. attrs_bytes False as = y # zs \<and> y \<noteq> RSQ"
proof (cases as)
  case (Cons b bs)
  assume "list_all attr_ok as"
  then obtain k v where b: "b = Attr (Some k) (Some v)" by (auto simp: Cons attr_ok_def)
  have "RSQ \<noteq> e" if "\<not> is_reserved CTX_KEY e" for e using that by (auto simp: is_reserved_def)
  then show ?thesis by (cases k) (auto simp: Cons b attr_bytes_def)
qed simp

lemma decode_attrs_exact:
  assumes r: "rd_ok r" and as: "as \<noteq> []" "list_all attr_ok as" and t: "todo r = LSQ # attrs_bytes False as @ RSQ # ys"
  shows "gives False heap (decode_attrs heap) r (\<lambda>av r'. av = as \<and> todo r' = ys)"
  unfolding decode_attrs_def
proof (rule gives_step[OF r t])
  fix r1 assume r1: "rd_ok r1" "same_input r r1" "todo r1 = attrs_bytes False as @ RSQ # ys"
  let ?Q = "\<lambda>av r'. av = as \<and> todo r' = ys"
  obtain y zs where y: "attrs_bytes False as = y # zs" "y \<noteq> RSQ" using attrs_first[OF as] by blast
  have ln: "length as < length (todo r1)" using attr_bytes_length[of as False] r1(3) by simp
  then have ln': "length as \<le> rd_len r1" using todo_le[OF r1(1)] by simp
  have loop: "gives False heap (\<lambda>r. attr_loop (rd_len r + 1) heap [] 0 r) r1 (\<lambda>av r'. av = as \<and> todo r' = RSQ # ys)"
    using attr_loop_exact[OF r1(1) as r1(3), of "rd_len r1 + 1" "[]" heap 0] ln' todo_le[OF r1(1)] by (simp add: gives_def)
  show "gives False heap (sbind here (\<lambda>c. sbind (if c \<noteq> None \<and> c \<noteq> Some RSQ then (\<lambda>r. attr_loop (rd_len r + 1) heap [] 0 r) else sret [])
      (\<lambda>av. sbind here (\<lambda>c. if c \<noteq> Some RSQ then sfail TSML_ERR_MALFORMED
        else sbind step (\<lambda>_. sbind (if av \<noteq> [] then alloc heap (length av * SIZEOF_ATTR) else sret ()) (\<lambda>_. sret av)))))) r1 ?Q"
  proof (rule gives_here[OF r1(1)])
    show "todo r1 = y # zs @ RSQ # ys" using r1(3) y(1) by simp
    have behind: "gives False heap (sbind here (\<lambda>c. if c \<noteq> Some RSQ then sfail TSML_ERR_MALFORMED
        else sbind step (\<lambda>_. sbind (if as \<noteq> [] then alloc heap (length as * SIZEOF_ATTR) else sret ()) (\<lambda>_. sret as)))) r2 ?Q"
      if r2: "rd_ok r2" "same_input r1 r2" "todo r2 = RSQ # ys" for r2
    proof (intro gives_here[OF r2(1,3)] gives_if gives_step[OF r2(1,3)])
      fix r3 assume r3: "rd_ok r3" "same_input r2 r3" "todo r3 = ys"
      have "length as * SIZEOF_ATTR \<le> 64 * rd_len r3 + 128" using ln' r2(2) r3(2) by (simp add: SIZEOF_ATTR_def same_input_def)
      then show "gives False heap (sbind (if as \<noteq> [] then alloc heap (length as * SIZEOF_ATTR) else sret ()) (\<lambda>_. sret as)) r3 ?Q"
        unfolding if_P[OF as(1)] by (intro gives_alloc[OF r3(1)] gives_sret) (simp_all add: r3(3))
    qed simp_all
    have c: "Some y \<noteq> None \<and> Some y \<noteq> Some RSQ" using y(2) by simp
    show "gives False heap (sbind (if Some y \<noteq> None \<and> Some y \<noteq> Some RSQ then (\<lambda>r. attr_loop (rd_len r + 1) heap [] 0 r) else sret [])
      (\<lambda>av. sbind here (\<lambda>c. if c \<noteq> Some RSQ then sfail TSML_ERR_MALFORMED
        else sbind step (\<lambda>_. sbind (if av \<noteq> [] then alloc heap (length av * SIZEOF_ATTR) else sret ()) (\<lambda>_. sret av))))) r1 ?Q"
      unfolding if_P[OF c]
    proof (rule gives_sbind[OF loop])
      fix av r2 assume p: "av = as \<and> todo r2 = RSQ # ys" and r2: "rd_ok r2" "same_input r1 r2"
      show "gives False heap (sbind here (\<lambda>c. if c \<noteq> Some RSQ then sfail TSML_ERR_MALFORMED
        else sbind step (\<lambda>_. sbind (if av \<noteq> [] then alloc heap (length av * SIZEOF_ATTR) else sret ()) (\<lambda>_. sret av)))) r2 ?Q"
        unfolding p[THEN conjunct1] by (rule behind[OF r2]) (use p in simp)
    qed
  qed
qed

text \<open>Texts.\<close>

lemma text_bytes_first:
  assumes "s \<noteq> []" shows "\<exists>x xs. text_bytes lead s = x # xs \<and> x \<noteq> LBR \<and> x \<noteq> RBR \<and> (lead \<longrightarrow> x \<noteq> LSQ)"
proof (cases "choose_form s (length s) lead")
  case FORM_INLINE
  obtain a s' where s: "s = a # s'" using assms by (cases s) auto
  have "a \<noteq> LBR \<and> a \<noteq> RBR" if "\<not> is_reserved CTX_TEXT a" using that by (auto simp: is_reserved_def)
  then show ?thesis using FORM_INLINE by (auto simp: text_bytes_def s)
qed (auto simp: text_bytes_def)

lemma read_text_bytes:
  assumes r: "rd_ok r" and x: "todo r = x # xs"
    and esc: "x = BS \<Longrightarrow> xs \<noteq> [] \<Longrightarrow> hd xs \<in> {98, 66} \<Longrightarrow> gives lax heap (read_binary heap) r Q"
    and bin: "\<not> (x = BS \<and> xs \<noteq> [] \<and> hd xs \<in> {98, 66}) \<Longrightarrow> gives lax heap (read_escaped heap CTX_TEXT) r Q"
  shows "gives lax heap (read_text heap) r Q"
proof -
  have i: "rd_i r < rd_len r" "rd_len r \<le> length (rd_buf r)" using r x todo_length[OF r] by (simp_all add: rd_ok_def)
  have d: "todo r = rd_buf r ! rd_i r # drop (Suc (rd_i r)) (take (rd_len r) (rd_buf r))" using take_drop_nth[OF i] by (simp add: todo_def)
  then have "rd_buf r ! rd_i r = x" using x by simp
  then have f: "(fetch (rd_buf r) (rd_i r) :: u8 tsml) = Ok x" using i by (simp add: fetch_def)
  have more: "rd_i r + 1 < rd_len r \<longleftrightarrow> xs \<noteq> []" using todo_length[OF r] x i(1) by (cases xs) auto
  have f2: "(fetch (rd_buf r) (rd_i r + 1) :: u8 tsml) = Ok (hd xs)" if "xs \<noteq> []"
  proof -
    have lt: "Suc (rd_i r) < rd_len r" using more that by simp
    have "drop (Suc (rd_i r)) (take (rd_len r) (rd_buf r)) = xs" using d x by simp
    then have "hd xs = rd_buf r ! Suc (rd_i r)" using take_drop_nth[OF lt i(2)] by (metis list.sel(1))
    then show ?thesis using lt i(2) by (simp add: fetch_def)
  qed
  have "gives lax heap (sbind (slift (fetch (rd_buf r) (rd_i r))) (\<lambda>c.
      sbind (if c = BS \<and> rd_i r + 1 < rd_len r then slift (fetch (rd_buf r) (rd_i r + 1)) else sret 0) (\<lambda>e.
      if e = 98 \<or> e = 66 then read_binary heap else read_escaped heap CTX_TEXT))) r Q"
    unfolding f sbind_slift_Ok more
  proof (cases "x = BS \<and> xs \<noteq> []")
    case True
    then show "gives lax heap (sbind (if x = BS \<and> xs \<noteq> [] then slift (fetch (rd_buf r) (rd_i r + 1)) else sret 0)
      (\<lambda>e. if e = 98 \<or> e = 66 then read_binary heap else read_escaped heap CTX_TEXT)) r Q"
      unfolding if_P[OF True] f2[OF True[THEN conjunct2]] sbind_slift_Ok using esc bin by auto
  next
    case False
    have "gives lax heap (read_escaped heap CTX_TEXT) r Q" using bin False by blast
    then show "gives lax heap (sbind (if x = BS \<and> xs \<noteq> [] then slift (fetch (rd_buf r) (rd_i r + 1)) else sret 0)
      (\<lambda>e. if e = 98 \<or> e = 66 then read_binary heap else read_escaped heap CTX_TEXT)) r Q"
      unfolding if_not_P[OF False] sbind_sret by simp
  qed
  then show ?thesis by (simp add: gives_def read_text_def)
qed

text \<open>An inline text is read as escaped bytes, and what the encoder writes in another form as a run.\<close>

lemma read_text_inline:
  assumes "rd_ok r" and "s \<noteq> []" and "choose_form s (length s) lead = FORM_INLINE" and t: "todo r = text_bytes lead s @ zs"
    and "gives lax heap (read_escaped heap CTX_TEXT) r Q"
  shows "gives lax heap (read_text heap) r Q"
proof -
  obtain a s' where a: "s = a # s'" using assms(2) by (cases s) auto
  obtain x xs where x: "todo r = x # xs" using text_bytes_first[OF assms(2), of lead] t by auto
  have "\<not> (x = BS \<and> xs \<noteq> [] \<and> hd xs \<in> {98, 66})"
  proof
    assume e: "x = BS \<and> xs \<noteq> [] \<and> hd xs \<in> {98, 66}"
    then have "(is_reserved CTX_TEXT a \<or> lead \<and> a = LSQ) \<and> hd xs = a"
      using t x assms(3) by (auto simp: text_bytes_def a is_reserved_def split: if_splits)
    then show False using e by (auto simp: is_reserved_def byte_defs)
  qed
  then show ?thesis using read_text_bytes[OF assms(1) x] assms(5) by blast
qed

lemma read_text_exact:
  assumes r: "rd_ok r" and s: "s \<noteq> []" "in_memory s" and t: "todo r = text_bytes lead s @ zs"
    and next': "choose_form s (length s) lead = FORM_INLINE \<Longrightarrow> \<exists>c cs. zs = c # cs \<and> (c = LBR \<or> c = RBR)"
  shows "gives False heap (read_text heap) r (\<lambda>v r'. v = s \<and> todo r' = zs)"
proof (cases "choose_form s (length s) lead = FORM_INLINE")
  case True
  obtain c cs where c: "zs = c # cs" "c = LBR \<or> c = RBR" using next'[OF True] by blast
  have u: "unescape CTX_TEXT (todo r) = Some (s, zs)" unfolding t c(1)
    using c(2) True by (auto simp: text_bytes_def intro!: unescape_lead attr_text_reserved)
  show ?thesis by (rule read_text_inline[OF r s(1) True t], rule gives_mono[OF read_escaped_gives[OF r]]) (use u in simp_all)
next
  case False
  define f where "f = choose_form s (length s) lead"
  obtain e es where x: "todo r = BS # e # es" "e = 98 \<or> e = 66" "e # es = tl (form_bytes lead s f) @ zs"
    using False t by (cases f) (auto simp: text_bytes_def f_def)
  then have u: "unbinary (e # es) = Some (s, zs)" using unbinary_bytes[OF s(2), of f lead zs] False by (simp add: f_def)
  have bin: "gives False heap (read_binary heap) r (\<lambda>v r'. v = s \<and> todo r' = zs)"
    by (rule gives_mono[OF read_binary_gives[OF r x(1)]]) (use u in simp_all)
  show ?thesis by (rule read_text_bytes[OF r x(1)]) (use bin x(2) in simp_all)
qed

end
