(* ===== verification/Terseml_Back.thy ===== *)
theory Terseml_Back
  imports Terseml_Laws
begin

text \<open>
  The decoder on a text of the encoder: it succeeds unless memory runs out, and returns the encoded tree. A tree
  is read back when no text of it is empty and none follows another text that is written inline; the encoder
  separates two texts only by the marks of a binary run.
\<close>

section \<open>Elements\<close>

text \<open>What stands behind the tag or the attributes is not taken for attributes.\<close>

lemma children_first:
  assumes "separable lead cs" shows "\<exists>x xs. children_text lead cs @ RBR # ys = x # xs \<and> (lead \<longrightarrow> x \<noteq> LSQ)"
proof (cases cs)
  case (Cons c cs')
  show ?thesis
  proof (cases c)
    case (TSML_TEXT s)
    then show ?thesis using text_bytes_first[of s lead] assms by (auto simp: Cons)
  qed (simp add: Cons)
qed simp

text \<open>The bytes behind an inline text close its element or open another one.\<close>

lemma children_after_inline:
  assumes "separable lead (TSML_TEXT s # cs)" and "choose_form s (length s) lead = FORM_INLINE"
  shows "\<exists>c zs. children_text False cs @ RBR # ys = c # zs \<and> (c = LBR \<or> c = RBR)"
proof (cases cs)
  case (Cons n ns)
  then show ?thesis using assms by (cases n) auto
qed simp

lemma decode_exact:
  "rd_ok r \<Longrightarrow> 2 * length (todo r) + 1 < fuel \<Longrightarrow> length kids + length (todo r) \<le> rd_len r \<Longrightarrow>
     todo r = children_text lead cs @ RBR # ys \<Longrightarrow> separable lead cs \<Longrightarrow> nodes_ok cs \<Longrightarrow> children_fit (dep + 1) cs \<Longrightarrow>
     gives False heap (decode_children fuel heap dep kids cap) r (\<lambda>ks r'. ks = kids @ cs \<and> todo r' = ys)"
  "rd_ok r \<Longrightarrow> 2 * length (todo r) < fuel \<Longrightarrow> todo r = node_text (TSML_ELEMENT tag attrs children) @ ys \<Longrightarrow>
     node_ok (TSML_ELEMENT tag attrs children) \<Longrightarrow> readable_node (TSML_ELEMENT tag attrs children) \<Longrightarrow>
     node_fits dep (TSML_ELEMENT tag attrs children) \<Longrightarrow>
     gives False heap (decode_element fuel heap dep) r (\<lambda>n r'. n = TSML_ELEMENT tag attrs children \<and> todo r' = ys)"
proof (induction fuel arbitrary: r kids cap dep cs ys lead tag attrs children)
  case (Suc fuel)
  {
    case 1
    note r = 1(1)
    let ?Q = "\<lambda>ks r'. ks = kids @ cs \<and> todo r' = ys"
    let ?body = "\<lambda>x. if Some x = None then sfail TSML_ERR_MALFORMED
        else if Some x = Some RBR then sbind step (\<lambda>_. sbind (if kids \<noteq> [] then alloc heap (length kids * SIZEOF_POINTER) else sret ()) (\<lambda>_. sret kids))
        else if Some x = Some LBR then sbind (decode_element fuel heap (dep + 1)) (\<lambda>child. sbind (slift (grow_vec heap SIZEOF_POINTER 4 (length kids) cap)) (\<lambda>cap. decode_children fuel heap dep (kids @ [child]) cap))
        else sbind (read_text heap) (\<lambda>t. if t = [] then decode_children fuel heap dep kids cap
          else sbind (alloc heap SIZEOF_NODE) (\<lambda>_. sbind (slift (grow_vec heap SIZEOF_POINTER 4 (length kids) cap)) (\<lambda>cap. decode_children fuel heap dep (kids @ [TSML_TEXT t]) cap)))"
    show ?case
    proof (cases cs)
      case Nil
      then have x: "todo r = RBR # ys" using 1(4) by simp
      show ?thesis unfolding decode_children.simps
      proof (intro gives_here[OF r x] gives_if gives_step[OF r x])
        fix r1 assume r1: "rd_ok r1" "same_input r r1" "todo r1 = ys"
        have sz: "length kids * SIZEOF_POINTER \<le> 64 * rd_len r1 + 128" using 1(3) r1(2) by (simp add: SIZEOF_POINTER_def same_input_def)
        show "gives False heap (sbind (if kids \<noteq> [] then alloc heap (length kids * SIZEOF_POINTER) else sret ()) (\<lambda>_. sret kids)) r1 ?Q"
        proof (cases "kids \<noteq> []")
          case True
          show ?thesis unfolding if_P[OF True] by (rule gives_alloc[OF r1(1) sz], rule gives_sret) (use r1(3) Nil in simp_all)
        next
          case False
          show ?thesis unfolding if_not_P[OF False] sbind_sret by (rule gives_sret[OF r1(1)]) (use r1(3) Nil in simp)
        qed
      qed simp_all
    next
      case (Cons c cs')
      have rest: "gives False heap (sbind (slift (grow_vec heap SIZEOF_POINTER 4 (length kids) cap)) (\<lambda>cap. decode_children fuel heap dep (kids @ [c]) cap)) r1 ?Q"
        if r1: "rd_ok r1" "same_input r r1" "todo r1 = children_text False cs' @ RBR # ys" "length (todo r1) < length (todo r)" for r1
      proof (rule gives_grow[OF r1(1)])
        fix cap
        have "gives False heap (decode_children fuel heap dep (kids @ [c]) cap) r1 (\<lambda>ks r'. ks = (kids @ [c]) @ cs' \<and> todo r' = ys)"
        proof (rule Suc.IH(1)[OF r1(1) _ _ r1(3)])
          show "2 * length (todo r1) + 1 < fuel" using r1(4) 1(2) by simp
          show "length (kids @ [c]) + length (todo r1) \<le> rd_len r1" using r1(2,4) 1(3) by (simp add: same_input_def)
        qed (use 1(5-7) Cons in simp_all)
        then show "gives False heap (decode_children fuel heap dep (kids @ [c]) cap) r1 ?Q" by (simp add: Cons)
      qed (use 1(3) r1(2) in \<open>simp_all add: SIZEOF_POINTER_def same_input_def\<close>)
      show ?thesis
      proof (cases c)
        case (TSML_ELEMENT tag attrs children)
        have t: "todo r = node_text c @ children_text False cs' @ RBR # ys" using 1(4) by (simp add: Cons TSML_ELEMENT)
        then obtain xs where x: "todo r = LBR # xs" by (simp add: TSML_ELEMENT)
        have "gives False heap (decode_element fuel heap (dep + 1)) r (\<lambda>n r'. n = c \<and> todo r' = children_text False cs' @ RBR # ys)"
          unfolding TSML_ELEMENT
          by (rule Suc.IH(2)[OF r _ t[unfolded TSML_ELEMENT]]) (use 1(2-7) in \<open>simp_all add: Cons TSML_ELEMENT\<close>)
        then have "gives False heap (sbind (decode_element fuel heap (dep + 1)) (\<lambda>child. sbind (slift (grow_vec heap SIZEOF_POINTER 4 (length kids) cap)) (\<lambda>cap. decode_children fuel heap dep (kids @ [child]) cap))) r ?Q"
          by (rule gives_sbind) (use rest t in \<open>simp add: TSML_ELEMENT\<close>)
        then show ?thesis unfolding decode_children.simps by (intro gives_here[OF r x] gives_if) simp_all
      next
        case (TSML_TEXT s)
        have s: "s \<noteq> []" "in_memory s" using 1(5,6) by (simp_all add: Cons TSML_TEXT)
        have t: "todo r = text_bytes lead s @ children_text False cs' @ RBR # ys" using 1(4) by (simp add: Cons TSML_TEXT)
        then obtain x xs where x: "todo r = x # xs" "x \<noteq> LBR" "x \<noteq> RBR" using text_bytes_first[OF s(1), of lead] by auto
        have len: "length (children_text False cs' @ RBR # ys) < length (todo r)"
          using t text_bytes_first[OF s(1), of lead] by auto
        have after: "\<exists>c zs. children_text False cs' @ RBR # ys = c # zs \<and> (c = LBR \<or> c = RBR)"
          if "choose_form s (length s) lead = FORM_INLINE"
          using children_after_inline[OF 1(5)[unfolded Cons TSML_TEXT] that] .
        have "gives False heap (sbind (read_text heap) (\<lambda>t. if t = [] then decode_children fuel heap dep kids cap
            else sbind (alloc heap SIZEOF_NODE) (\<lambda>_. sbind (slift (grow_vec heap SIZEOF_POINTER 4 (length kids) cap)) (\<lambda>cap. decode_children fuel heap dep (kids @ [TSML_TEXT t]) cap)))) r ?Q"
        proof (rule gives_sbind[OF read_text_exact[OF r s t after]])
          fix t r1 assume t1: "t = s \<and> todo r1 = children_text False cs' @ RBR # ys" and r1: "rd_ok r1" "same_input r r1"
          show "gives False heap (if t = [] then decode_children fuel heap dep kids cap
            else sbind (alloc heap SIZEOF_NODE) (\<lambda>_. sbind (slift (grow_vec heap SIZEOF_POINTER 4 (length kids) cap)) (\<lambda>cap. decode_children fuel heap dep (kids @ [TSML_TEXT t]) cap))) r1 ?Q"
            unfolding t1[THEN conjunct1] if_not_P[OF s(1)] TSML_TEXT[symmetric]
            by (intro gives_alloc[OF r1(1)] rest) (use t1 r1(2) len in \<open>auto simp: SIZEOF_NODE_def intro: same_input_trans\<close>)
        qed
        then show ?thesis unfolding decode_children.simps by (intro gives_here[OF r x(1)] gives_if) (use x(2,3) in simp_all)
      qed
    qed
  next
    case 2
    note r = 2(1)
    let ?n = "TSML_ELEMENT tag attrs children"
    let ?R = "\<lambda>n r'. n = ?n \<and> todo r' = ys"
    define cs where "cs = children_text (attrs = []) children @ RBR # ys"
    define ws where "ws = (if attrs \<noteq> [] then LSQ # attrs_bytes False attrs @ RSQ # COM # cs else cs)"
    have dep: "\<not> dep > TSML_MAX_DEPTH" using 2(6) by simp
    have t: "todo r = LBR # escaped_bytes CTX_TAG tag @ COM # ws" using 2(3) by (simp add: ws_def cs_def)
    have kids: "gives False heap (sbind (decode_children fuel heap dep [] 0) (\<lambda>kids. sret (TSML_ELEMENT tag attrs kids))) r' ?R"
      if "rd_ok r'" "same_input r r'" "todo r' = cs" for r'
    proof (rule gives_sbind[OF Suc.IH(1)[OF that(1) _ _ that(3)[unfolded cs_def]]])
      show "2 * length (todo r') + 1 < fuel" using that(3) t 2(2) by (simp add: ws_def split: if_splits)
      show "length [] + length (todo r') \<le> rd_len r'" using todo_le[OF that(1)] by simp
    qed (use 2(4-6) in \<open>auto intro!: gives_sret\<close>)
    have u: "unescape CTX_TAG (todo r') = Some (tag, COM # ws)" if "todo r' = escaped_bytes CTX_TAG tag @ COM # ws" for r'
      unfolding that by (rule unescape_bytes) (simp_all add: attr_text_reserved)
    have content: "gives False heap (sbind here (\<lambda>c. if c = Some LSQ then sbind (decode_attrs heap) (\<lambda>attrs. sbind here (\<lambda>c.
              if c = Some COM then sbind step (\<lambda>_. sbind (decode_children fuel heap dep [] 0) (\<lambda>kids. sret (TSML_ELEMENT tag attrs kids)))
              else if c = Some RBR then sbind step (\<lambda>_. sret (TSML_ELEMENT tag attrs []))
              else sbind (decode_children fuel heap dep [] 0) (\<lambda>kids. sret (TSML_ELEMENT tag attrs kids))))
            else sbind (decode_children fuel heap dep [] 0) (\<lambda>kids. sret (TSML_ELEMENT tag [] kids)))) r4 ?R"
      if r4: "rd_ok r4" "same_input r r4" "todo r4 = ws" for r4
    proof (cases "attrs = []")
      case True
      then have cs: "todo r4 = cs" using r4(3) by (simp add: ws_def)
      obtain x xs where x: "cs = x # xs" "x \<noteq> LSQ" using children_first[of "attrs = []" children ys] 2(5) True by (auto simp: cs_def)
      show ?thesis by (rule gives_here[OF r4(1) cs[unfolded x(1)]]) (use x(2) kids[OF r4(1,2) cs] True in simp)
    next
      case False
      have t4: "todo r4 = LSQ # attrs_bytes False attrs @ RSQ # COM # cs" using r4(3) False by (simp add: ws_def)
      have as: "list_all attr_ok attrs" using 2(4) by simp
      show ?thesis
      proof (intro gives_here[OF r4(1) t4] gives_if gives_sbind[OF decode_attrs_exact[OF r4(1) False as t4]])
        fix av r5 assume p: "av = attrs \<and> todo r5 = COM # cs" and r5: "rd_ok r5" "same_input r4 r5"
        show "gives False heap (sbind here (\<lambda>c.
              if c = Some COM then sbind step (\<lambda>_. sbind (decode_children fuel heap dep [] 0) (\<lambda>kids. sret (TSML_ELEMENT tag av kids)))
              else if c = Some RBR then sbind step (\<lambda>_. sret (TSML_ELEMENT tag av []))
              else sbind (decode_children fuel heap dep [] 0) (\<lambda>kids. sret (TSML_ELEMENT tag av kids)))) r5 ?R"
          unfolding p[THEN conjunct1]
          by (intro gives_here[OF r5(1) p[THEN conjunct2]] gives_if gives_step[OF r5(1) p[THEN conjunct2]] kids)
            (use r4(2) r5(2) in \<open>auto intro: same_input_trans\<close>)
      qed simp_all
    qed
    show ?case unfolding decode_element.simps if_not_P[OF dep]
    proof (intro gives_here[OF r t] gives_if gives_step[OF r t] gives_alloc)
      fix r1 r2 assume r1: "rd_ok r1" "same_input r r1" "todo r1 = escaped_bytes CTX_TAG tag @ COM # ws"
        and r2: "rd_ok r2" "same_input r1 r2" "todo r2 = todo r1"
      have u2: "unescape CTX_TAG (todo r2) = Some (tag, COM # ws)" by (rule u) (simp add: r1(3) r2(3))
      show "gives False heap (sbind (read_escaped heap CTX_TAG) (\<lambda>head.
          sbind here (\<lambda>c. if c = Some RBR then sbind step (\<lambda>_.
            if head \<noteq> [] then sbind (alloc heap SIZEOF_NODE) (\<lambda>_. sbind (alloc heap SIZEOF_POINTER) (\<lambda>_. sret (TSML_ELEMENT TSML_TAG_TEXT [] [TSML_TEXT head])))
            else sret (TSML_ELEMENT TSML_TAG_TEXT [] []))
          else if c \<noteq> Some COM then sfail TSML_ERR_MALFORMED
          else sbind step (\<lambda>_. sbind here (\<lambda>c. if c = Some LSQ then sbind (decode_attrs heap) (\<lambda>attrs. sbind here (\<lambda>c.
              if c = Some COM then sbind step (\<lambda>_. sbind (decode_children fuel heap dep [] 0) (\<lambda>kids. sret (TSML_ELEMENT head attrs kids)))
              else if c = Some RBR then sbind step (\<lambda>_. sret (TSML_ELEMENT head attrs []))
              else sbind (decode_children fuel heap dep [] 0) (\<lambda>kids. sret (TSML_ELEMENT head attrs kids))))
            else sbind (decode_children fuel heap dep [] 0) (\<lambda>kids. sret (TSML_ELEMENT head [] kids))))))) r2 ?R"
      proof (rule gives_escaped_exact[OF r2(1) u2])
        fix r3 assume r3: "rd_ok r3" "same_input r2 r3" "todo r3 = COM # ws"
        have same: "same_input r r3" using r1(2) r2(2) r3(2) by (simp add: same_input_def)
        show "gives False heap (sbind here (\<lambda>c. if c = Some RBR then sbind step (\<lambda>_.
            if tag \<noteq> [] then sbind (alloc heap SIZEOF_NODE) (\<lambda>_. sbind (alloc heap SIZEOF_POINTER) (\<lambda>_. sret (TSML_ELEMENT TSML_TAG_TEXT [] [TSML_TEXT tag])))
            else sret (TSML_ELEMENT TSML_TAG_TEXT [] []))
          else if c \<noteq> Some COM then sfail TSML_ERR_MALFORMED
          else sbind step (\<lambda>_. sbind here (\<lambda>c. if c = Some LSQ then sbind (decode_attrs heap) (\<lambda>attrs. sbind here (\<lambda>c.
              if c = Some COM then sbind step (\<lambda>_. sbind (decode_children fuel heap dep [] 0) (\<lambda>kids. sret (TSML_ELEMENT tag attrs kids)))
              else if c = Some RBR then sbind step (\<lambda>_. sret (TSML_ELEMENT tag attrs []))
              else sbind (decode_children fuel heap dep [] 0) (\<lambda>kids. sret (TSML_ELEMENT tag attrs kids))))
            else sbind (decode_children fuel heap dep [] 0) (\<lambda>kids. sret (TSML_ELEMENT tag [] kids)))))) r3 ?R"
          by (rule gives_here[OF r3(1,3)]) (intro gives_if gives_step[OF r3(1,3)] content, use same in \<open>auto intro: same_input_trans\<close>)
      qed
    qed (simp_all add: SIZEOF_NODE_def)
  }
qed simp_all

section \<open>The roots of the document\<close>

text \<open>Reading an element uses the document's arena and leaves its roots.\<close>

definition keeps :: "'a decoding \<Rightarrow> bool" where
  "keeps m \<longleftrightarrow> (\<forall>r. td_roots (rd_doc (snd (m r))) = td_roots (rd_doc r))"

lemma keeps_sbind: "keeps m \<Longrightarrow> (\<And>a. keeps (f a)) \<Longrightarrow> keeps (sbind m f)"
  unfolding keeps_def sbind_def by (auto split: prod.splits res.splits) (metis snd_conv)+

lemma keeps_sbind_at: "(\<And>s. keeps (m s)) \<Longrightarrow> (\<And>s a. keeps (f s a)) \<Longrightarrow> keeps (\<lambda>r. sbind (m r) (f r) r)"
  using keeps_sbind[of "m s" "f s" for s] unfolding keeps_def by blast

lemma keeps_if: "keeps m \<Longrightarrow> keeps m' \<Longrightarrow> keeps (if c then m else m')"
  by simp

lemma keeps_if_at: "keeps m \<Longrightarrow> keeps m' \<Longrightarrow> keeps (\<lambda>r. if c r then m r else m' r)"
  by (simp add: keeps_def)

lemma keeps_pair: "(\<And>x y. keeps (f x y)) \<Longrightarrow> keeps (case p of (x, y) \<Rightarrow> f x y)"
  by (cases p) simp

lemma keeps_simple: "keeps (sret a)" "keeps (sfail e)" "keeps (slift m)" "keeps step" "keeps (goto i)"
  by (simp_all add: keeps_def sret_def sfail_def slift_def step_def goto_def)

lemma keeps_here: "keeps here"
  by (auto simp: keeps_def here_def sbind_def slift_def sret_def fetch_def)

lemma keeps_alloc: "keeps (alloc heap n)"
  by (auto simp: keeps_def alloc_def arena_alloc_def Let_def split: prod.splits list.splits)

lemmas keeps_intros = keeps_sbind keeps_if keeps_pair keeps_simple keeps_here keeps_alloc

lemma keeps_read: "keeps (read_escaped heap ctx)" "keeps (read_binary heap)" "keeps (read_text heap)"
proof -
  show e: "keeps (read_escaped heap ctx)" for ctx
    unfolding read_escaped_def[abs_def] Let_def by (rule keeps_sbind_at; intro keeps_intros)
  show b: "keeps (read_binary heap)"
    unfolding read_binary_def[abs_def] Let_def by (intro keeps_if_at keeps_sbind_at keeps_intros)
  show "keeps (read_text heap)"
    unfolding read_text_def[abs_def] by (rule keeps_sbind_at; intro keeps_intros e b)
qed

lemma keeps_attr_loop: "keeps (attr_loop fuel heap av cap)"
proof (induction fuel arbitrary: av cap)
  case (Suc fuel)
  then show ?case unfolding attr_loop.simps Let_def by (intro keeps_intros keeps_read)
qed (simp add: keeps_simple)

lemma keeps_decode_attrs: "keeps (decode_attrs heap)"
proof -
  have "keeps (\<lambda>r. attr_loop (rd_len r + 1) heap [] 0 r)" using keeps_attr_loop unfolding keeps_def by blast
  then show ?thesis unfolding decode_attrs_def by (intro keeps_intros)
qed

lemma keeps_decode: "keeps (decode_children fuel heap dep kids cap)" "keeps (decode_element fuel heap dep)"
proof (induction fuel arbitrary: kids cap dep)
  case (Suc fuel)
  {
    case 1
    show ?case unfolding decode_children.simps by (intro keeps_intros keeps_read Suc.IH)
  next
    case 2
    show ?case unfolding decode_element.simps by (intro keeps_intros keeps_read keeps_decode_attrs Suc.IH)
  }
qed (simp_all add: keeps_simple)

lemma gives_keeps: "keeps m \<Longrightarrow> gives lax heap m r P \<Longrightarrow> gives lax heap m r (\<lambda>a r'. P a r' \<and> td_roots (rd_doc r') = td_roots (rd_doc r))"
  by (auto simp: gives_def keeps_def split: prod.splits res.splits) (metis snd_conv)

lemma gives_root:
  assumes "rd_ok r" and "length (td_roots (rd_doc r)) \<le> rd_len r"
    and "\<And>r'. rd_ok r' \<Longrightarrow> same_input r r' \<Longrightarrow> todo r' = todo r \<Longrightarrow> rd_i r' = rd_i r \<Longrightarrow>
      td_roots (rd_doc r') = td_roots (rd_doc r) @ [n] \<Longrightarrow> gives lax heap (f ()) r' Q"
  shows "gives lax heap (sbind (add_root heap n) f) r Q"
proof -
  define d where "d = rd_doc r"
  define k where "k = length (td_roots d)"
  have g: "gives lax heap (sbind (slift (grow_vec heap SIZEOF_POINTER 8 k (td_roots_cap d)))
      (\<lambda>cap r. (Ok (), r\<lparr>rd_doc := d\<lparr>td_roots := td_roots d @ [n], td_roots_cap := cap\<rparr>\<rparr>))) r
      (\<lambda>_ r'. todo r' = todo r \<and> rd_i r' = rd_i r \<and> td_roots (rd_doc r') = td_roots d @ [n])"
    by (rule gives_grow[OF assms(1)])
      (use assms(1,2) in \<open>simp_all add: k_def d_def SIZEOF_POINTER_def gives_def todo_def rd_ok_def same_input_def\<close>)
  have "grow_vec heap SIZEOF_POINTER 8 k (td_roots_cap d) = Err TSML_ERR_ALLOC \<or> (\<exists>cap. grow_vec heap SIZEOF_POINTER 8 k (td_roots_cap d) = Ok cap)"
    by (simp add: grow_vec_def Let_def)
  then have "gives lax heap (add_root heap n) r
      (\<lambda>_ r'. todo r' = todo r \<and> rd_i r' = rd_i r \<and> td_roots (rd_doc r') = td_roots d @ [n])"
    by (elim disjE exE) (use g in \<open>simp_all add: add_root_def push_root_def d_def[symmetric] k_def[symmetric] gives_def sbind_def\<close>)
  then show ?thesis by (rule gives_sbind) (use assms(3) d_def in auto)
qed

section \<open>Documents\<close>

lemma todo_empty: "rd_ok r \<Longrightarrow> (todo r = []) = (rd_i r = rd_len r)"
  using todo_length[of r] by (auto simp: rd_ok_def)

definition reader_at :: "u8 list \<Rightarrow> nat \<Rightarrow> tsml_doc \<Rightarrow> rdr" where
  "reader_at b len d = \<lparr>rd_buf = b, rd_len = len, rd_i = 0, rd_doc = d\<rparr>"

lemma reader_at_ok:
  assumes "len \<le> length b" and "len \<le> 1152921504606846976"
  shows "rd_ok (reader_at b len d)" "todo (reader_at b len d) = take len b" "rd_len (reader_at b len d) = len" "rd_doc (reader_at b len d) = d"
  using assms by (simp_all add: reader_at_def rd_ok_def todo_def)

text \<open>The document without its reader.\<close>

definition settles :: "bool \<Rightarrow> nat \<Rightarrow> nat \<Rightarrow> tsml_doc tsml \<Rightarrow> (tsml_node list \<Rightarrow> bool) \<Rightarrow> bool" where
  "settles lax heap len m Q \<longleftrightarrow>
     (case m of Ok d \<Rightarrow> Q (td_roots d) | Err e \<Rightarrow> if e = TSML_ERR_ALLOC then heap < alloc_bound len else lax | _ \<Rightarrow> False)"

lemma settles_gives: "gives lax heap m r (\<lambda>d r'. Q (td_roots d)) \<Longrightarrow> settles lax heap (rd_len r) (fst (m r)) Q"
  by (auto simp: gives_def settles_def split: prod.splits res.splits)

lemma settles_new:
  assumes "\<And>d. td_roots d = [] \<Longrightarrow> settles lax heap len (f d) Q" shows "settles lax heap len (rbind (doc_new heap) f) Q"
  using assms[of "\<lparr>td_blocks = [], td_roots = [], td_roots_cap = 0\<rparr>"]
  by (auto simp: doc_new_def settles_def alloc_bound_def SIZEOF_DOC_def)

lemma decode_settles:
  assumes "len \<le> length b" and "len \<le> 1152921504606846976"
    and "\<And>d. td_roots d = [] \<Longrightarrow> gives lax heap (decode_element (decode_fuel len) heap 0) (reader_at b len d) (\<lambda>n r'. P n \<and> (lax \<or> todo r' = []))"
  shows "settles lax heap len (tsml_decode heap (Some b) len) (\<lambda>ns. \<exists>n. ns = [n] \<and> P n)"
proof -
  have "settles lax heap len (fst (sbind (decode_element (decode_fuel len) heap 0) (\<lambda>root r.
      if rd_i r \<noteq> len then (Err TSML_ERR_MALFORMED, r) else sbind (add_root heap root) (\<lambda>_ r. (Ok (rd_doc r), r)) r)
      (reader_at b len d))) (\<lambda>ns. \<exists>n. ns = [n] \<and> P n)" if d: "td_roots d = []" for d
  proof -
    let ?r = "reader_at b len d"
    note o = reader_at_ok[OF assms(1,2), of d]
    have "gives lax heap (sbind (decode_element (decode_fuel len) heap 0) (\<lambda>root r.
      if rd_i r \<noteq> len then (Err TSML_ERR_MALFORMED, r) else sbind (add_root heap root) (\<lambda>_ r. (Ok (rd_doc r), r)) r)) ?r
      (\<lambda>d r'. \<exists>n. td_roots d = [n] \<and> P n)"
    proof (rule gives_sbind[OF gives_keeps[OF keeps_decode(2) assms(3)[OF d]]])
      fix n r1 assume p: "(P n \<and> (lax \<or> todo r1 = [])) \<and> td_roots (rd_doc r1) = td_roots (rd_doc ?r)" and r1: "rd_ok r1" "same_input ?r r1"
      have len: "rd_len r1 = len" using r1(2) o by (simp add: same_input_def)
      have "gives lax heap (sbind (add_root heap n) (\<lambda>_ r. (Ok (rd_doc r), r))) r1 (\<lambda>d r'. \<exists>n. td_roots d = [n] \<and> P n)"
        by (rule gives_root[OF r1(1)]) (use p d o in \<open>auto simp: gives_def\<close>)
      then show "gives lax heap (\<lambda>r. if rd_i r \<noteq> len then (Err TSML_ERR_MALFORMED, r) else sbind (add_root heap n) (\<lambda>_ r. (Ok (rd_doc r), r)) r) r1
          (\<lambda>d r'. \<exists>n. td_roots d = [n] \<and> P n)"
        using p todo_empty[OF r1(1)] len by (auto simp: gives_def)
    qed
    from settles_gives[OF this] show ?thesis using o(3) by simp
  qed
  then show ?thesis unfolding tsml_decode_def option.case reader_at_def by (rule settles_new)
qed

text \<open>What the decoder makes can be encoded, and a read back tree has the text it was read from.\<close>

lemma decoded_ok:
  "decoded dep n \<Longrightarrow> node_ok n \<and> (case n of TSML_TEXT _ \<Rightarrow> True | TSML_ELEMENT _ _ _ \<Rightarrow> node_fits dep n)"
  "decoded_children dep ns \<Longrightarrow> nodes_ok ns \<and> children_fit dep ns"
  by (induction dep n and dep ns rule: decoded_decoded_children.induct) (auto split: tsml_node.splits)

definition readable :: "tsml_node \<Rightarrow> bool" where
  "readable n \<longleftrightarrow> readable_node (read_back n)"

lemma read_back_element: "\<exists>tag attrs children. read_back n = TSML_ELEMENT tag attrs children"
  by (cases n) simp_all

lemma tag_text_plain: "escaped_bytes CTX_TAG TSML_TAG_TEXT = TSML_TAG_TEXT" "in_memory TSML_TAG_TEXT" "text_bytes lead [] = []"
  by (simp_all add: TSML_TAG_TEXT_def is_reserved_def byte_defs in_memory_def text_bytes_def choose_form_def Let_def)

lemma read_back_same:
  "node_text (read_back n) = node_text n" "node_ok n \<Longrightarrow> node_ok (read_back n)" "node_fits dep (read_back n) = node_fits dep n"
  "read_back (read_back n) = read_back n"
  by (cases n; simp add: tag_text_plain)+

lemma decode_back:
  assumes "rd_ok r" and "2 * length (todo r) < fuel" and "todo r = node_text n @ ys" and "node_ok n" and "readable n" and "node_fits dep n"
  shows "gives False heap (decode_element fuel heap dep) r (\<lambda>m r'. m = read_back n \<and> todo r' = ys)"
proof -
  obtain tag attrs children where e: "read_back n = TSML_ELEMENT tag attrs children" using read_back_element by blast
  show ?thesis unfolding e
    by (rule decode_exact(2)[OF assms(1,2)]; unfold e[symmetric])
      (use assms(3-6) read_back_same[where n = n] in \<open>simp_all add: readable_def\<close>)
qed

lemma decode_text_settles:
  assumes "node_ok n" and "readable n" and "node_fits 0 n" and "length (node_text n) \<le> 1152921504606846976"
  shows "settles False heap (length (node_text n)) (tsml_decode heap (Some (node_text n)) (length (node_text n))) (\<lambda>ns. \<exists>m. ns = [m] \<and> m = read_back n)"
  by (rule decode_settles[OF order_refl assms(4)], rule gives_mono[OF decode_back[where n = n and ys = "[]"]])
    (use assms reader_at_ok[OF order_refl assms(4)] in \<open>simp_all add: decode_fuel_def\<close>)

lemma decode_any_settles:
  assumes "len \<le> length b" and "len \<le> 1152921504606846976"
  shows "settles True heap len (tsml_decode heap (Some b) len) (\<lambda>ns. \<exists>n. ns = [n] \<and> decoded 0 n \<and> (\<exists>tag as cs. n = TSML_ELEMENT tag as cs))"
  by (rule decode_settles[OF assms], rule gives_mono[OF decode_safe(2)])
    (use assms(1) reader_at_ok[OF assms] in \<open>simp_all add: decode_fuel_def\<close>)

text \<open>Several roots.\<close>

lemma document_step:
  assumes "rd_i r < rd_len r \<Longrightarrow> gives lax heap (sbind (decode_element (decode_fuel (rd_len r)) heap 0) (\<lambda>node.
      sbind (add_root heap node) (\<lambda>_. document_loop fuel heap))) r Q"
    and "\<not> rd_i r < rd_len r \<Longrightarrow> td_roots (rd_doc r) = [] \<Longrightarrow> lax"
    and "\<not> rd_i r < rd_len r \<Longrightarrow> td_roots (rd_doc r) \<noteq> [] \<Longrightarrow> rd_ok r \<and> Q (rd_doc r) r"
  shows "gives lax heap (document_loop (Suc fuel) heap) r Q"
proof (cases "rd_i r < rd_len r")
  case True
  then show ?thesis using assms(1) by (simp add: gives_def)
next
  case False
  then show ?thesis using assms(2,3) by (cases "td_roots (rd_doc r) = []") (simp_all add: gives_def)
qed

lemma document_exact:
  "rd_ok r \<Longrightarrow> length (todo r) < fuel \<Longrightarrow> length (td_roots (rd_doc r)) + length (todo r) \<le> rd_len r \<Longrightarrow>
   todo r = concat (map node_text ns) \<Longrightarrow> list_all (\<lambda>n. node_ok n \<and> readable n \<and> node_fits 0 n) ns \<Longrightarrow> td_roots (rd_doc r) @ ns \<noteq> [] \<Longrightarrow>
   gives False heap (document_loop fuel heap) r (\<lambda>d r'. td_roots d = td_roots (rd_doc r) @ map read_back ns)"
proof (induction fuel arbitrary: r ns)
  case (Suc fuel)
  note r = Suc.prems(1)
  let ?Q = "\<lambda>d r'. td_roots d = td_roots (rd_doc r) @ map read_back ns"
  show ?case
  proof (cases ns)
    case Nil
    then have i: "\<not> rd_i r < rd_len r" "td_roots (rd_doc r) \<noteq> []" using Suc.prems(4,6) todo_empty[OF r] by simp_all
    show ?thesis by (rule document_step) (use i r Nil in simp_all)
  next
    case (Cons n ns')
    have t: "todo r = node_text n @ concat (map node_text ns')" using Suc.prems(4) Cons by simp
    have "todo r \<noteq> []" by (cases n) (simp_all add: t)
    then have i: "rd_i r < rd_len r" using todo_length[OF r] by (cases "rd_i r < rd_len r") auto
    have n: "node_ok n" "readable n" "node_fits 0 n" using Suc.prems(5) Cons by simp_all
    have fuel: "2 * length (todo r) < decode_fuel (rd_len r)" using todo_le[OF r] by (simp add: decode_fuel_def)
    have shorter: "length (concat (map node_text ns')) < length (todo r)" unfolding t by (cases n) simp_all
    have "gives False heap (sbind (decode_element (decode_fuel (rd_len r)) heap 0) (\<lambda>node.
        sbind (add_root heap node) (\<lambda>_. document_loop fuel heap))) r ?Q"
    proof (rule gives_sbind[OF gives_keeps[OF keeps_decode(2) decode_back[OF r fuel t n]]])
      fix m r1 assume p: "(m = read_back n \<and> todo r1 = concat (map node_text ns')) \<and> td_roots (rd_doc r1) = td_roots (rd_doc r)" and r1: "rd_ok r1" "same_input r r1"
      show "gives False heap (sbind (add_root heap m) (\<lambda>_. document_loop fuel heap)) r1 ?Q"
      proof (rule gives_root[OF r1(1)])
        show "length (td_roots (rd_doc r1)) \<le> rd_len r1" using p r1(2) Suc.prems(3) by (simp add: same_input_def)
        fix r2 assume r2: "rd_ok r2" "same_input r1 r2" "todo r2 = todo r1" "td_roots (rd_doc r2) = td_roots (rd_doc r1) @ [m]"
        have "gives False heap (document_loop fuel heap) r2 (\<lambda>d r'. td_roots d = td_roots (rd_doc r2) @ map read_back ns')"
        proof (rule Suc.IH[OF r2(1)])
          show "length (todo r2) < fuel" using p r2(3) shorter Suc.prems(2) by simp
          show "length (td_roots (rd_doc r2)) + length (todo r2) \<le> rd_len r2"
            using p r1(2) r2(2-4) shorter Suc.prems(3) by (simp add: same_input_def)
        qed (use p r2 Suc.prems(5) Cons in simp_all)
        then show "gives False heap (document_loop fuel heap) r2 ?Q" using p r2(4) by (simp add: Cons)
      qed
    qed
    then show ?thesis using i by (intro document_step) simp_all
  qed
qed simp

lemma document_safe:
  "rd_ok r \<Longrightarrow> length (todo r) < fuel \<Longrightarrow> length (td_roots (rd_doc r)) + length (todo r) \<le> rd_len r \<Longrightarrow> list_all (decoded 0) (td_roots (rd_doc r)) \<Longrightarrow>
   gives True heap (document_loop fuel heap) r (\<lambda>d r'. td_roots d \<noteq> [] \<and> list_all (decoded 0) (td_roots d))"
proof (induction fuel arbitrary: r)
  case (Suc fuel)
  note r = Suc.prems(1)
  let ?Q = "\<lambda>d r'. td_roots d \<noteq> [] \<and> list_all (decoded 0) (td_roots d)"
  have fuel: "2 * length (todo r) < decode_fuel (rd_len r)" using todo_le[OF r] by (simp add: decode_fuel_def)
  have again: "gives True heap (sbind (decode_element (decode_fuel (rd_len r)) heap 0) (\<lambda>node.
        sbind (add_root heap node) (\<lambda>_. document_loop fuel heap))) r ?Q"
  proof (rule gives_sbind[OF gives_keeps[OF keeps_decode(2) decode_safe(2)[OF r fuel]]])
    fix m r1 assume p: "(decoded 0 m \<and> (\<exists>t as cs. m = TSML_ELEMENT t as cs) \<and> length (todo r1) < length (todo r)) \<and> td_roots (rd_doc r1) = td_roots (rd_doc r)"
      and r1: "rd_ok r1" "same_input r r1"
    show "gives True heap (sbind (add_root heap m) (\<lambda>_. document_loop fuel heap)) r1 ?Q"
      by (rule gives_root[OF r1(1)], use p r1(2) Suc.prems(3) in \<open>simp add: same_input_def\<close>, rule Suc.IH)
        (use p r1(2) Suc.prems in \<open>simp_all add: same_input_def\<close>)
  qed
  show ?case by (rule document_step) (use again r Suc.prems(4) in simp_all)
qed simp

lemma document_settles:
  assumes "len \<le> length b" and "len \<le> 1152921504606846976"
    and "\<And>d. td_roots d = [] \<Longrightarrow> gives lax heap (document_loop (len + 1) heap) (reader_at b len d) (\<lambda>d r'. P (td_roots d))"
  shows "settles lax heap len (tsml_decode_document heap (Some b) len) P"
  unfolding tsml_decode_document_def option.case reader_at_def[symmetric]
  by (rule settles_new) (use settles_gives[OF assms(3)] reader_at_ok[OF assms(1,2)] in simp)

lemma document_text_settles:
  assumes "ns \<noteq> []" and "list_all (\<lambda>n. node_ok n \<and> readable n \<and> node_fits 0 n) ns" and "t = concat (map node_text ns)"
    and "length t \<le> 1152921504606846976"
  shows "settles False heap (length t) (tsml_decode_document heap (Some t) (length t)) (\<lambda>ms. ms = map read_back ns)"
  by (rule document_settles[OF order_refl assms(4)], rule gives_mono[OF document_exact[of _ _ ns]])
    (use assms reader_at_ok[OF order_refl assms(4)] in simp_all)

lemma document_any_settles:
  assumes "len \<le> length b" and "len \<le> 1152921504606846976"
  shows "settles True heap len (tsml_decode_document heap (Some b) len) (\<lambda>ns. ns \<noteq> [] \<and> list_all (decoded 0) ns)"
  by (rule document_settles[OF assms], rule gives_mono[OF document_safe]) (use assms(1) reader_at_ok[OF assms] in simp_all)

section \<open>Texts side by side\<close>

text \<open>A binary run behind an inline text is taken for an escape of that text, which it is not.\<close>

lemma text_escapes: "is_reserved CTX_TEXT c \<or> c = LSQ \<Longrightarrow> valid_escape c" "is_reserved CTX_TEXT BS"
  by (auto simp: is_reserved_def valid_escape_def)

lemma unescape_run: "e = 98 \<or> e = 66 \<Longrightarrow> unescape CTX_TEXT (escaped_bytes CTX_TEXT s @ BS # e # ys) = None"
proof (induction s)
  case Nil
  then show ?case by (auto simp: valid_escape_def byte_defs)
next
  case (Cons c s)
  then show ?case using text_escapes(1)[of c] text_escapes(2) by auto
qed

lemma lead_run:
  assumes "e = 98 \<or> e = 66" shows "unescape CTX_TEXT (lead_bytes CTX_TEXT lead s @ BS # e # ys) = None"
proof (cases s)
  case (Cons c s')
  then show ?thesis using unescape_run[OF assms, of s'] text_escapes(1)[of c] text_escapes(2) by auto
qed (use unescape_run[OF assms, of "[]"] in simp)

text \<open>An element without attributes, up to its children.\<close>

lemma element_children:
  assumes r: "rd_ok r" and t: "todo r = LBR # escaped_bytes CTX_TAG tag @ COM # cs" and cs: "cs = x # xs" "x \<noteq> LSQ" and dep: "dep \<le> TSML_MAX_DEPTH"
    and kids: "\<And>r'. rd_ok r' \<Longrightarrow> same_input r r' \<Longrightarrow> todo r' = cs \<Longrightarrow>
      gives lax heap (decode_children fuel heap dep [] 0) r' (\<lambda>ks r''. Q (TSML_ELEMENT tag [] ks) r'')"
  shows "gives lax heap (decode_element (Suc fuel) heap dep) r Q"
proof -
  have nd: "\<not> dep > TSML_MAX_DEPTH" using dep by simp
  have u: "unescape CTX_TAG (todo r') = Some (tag, COM # cs)" if "todo r' = escaped_bytes CTX_TAG tag @ COM # cs" for r'
    unfolding that by (rule unescape_bytes) (simp_all add: attr_text_reserved)
  show ?thesis unfolding decode_element.simps if_not_P[OF nd]
  proof (intro gives_here[OF r t] gives_if gives_step[OF r t] gives_alloc)
    fix r1 r2 assume r1: "rd_ok r1" "same_input r r1" "todo r1 = escaped_bytes CTX_TAG tag @ COM # cs" and r2: "rd_ok r2" "same_input r1 r2" "todo r2 = todo r1"
    have u2: "unescape CTX_TAG (todo r2) = Some (tag, COM # cs)" by (rule u) (simp add: r1(3) r2(3))
    show "gives lax heap (sbind (read_escaped heap CTX_TAG) (\<lambda>head.
        sbind here (\<lambda>c. if c = Some RBR then sbind step (\<lambda>_.
          if head \<noteq> [] then sbind (alloc heap SIZEOF_NODE) (\<lambda>_. sbind (alloc heap SIZEOF_POINTER) (\<lambda>_. sret (TSML_ELEMENT TSML_TAG_TEXT [] [TSML_TEXT head])))
          else sret (TSML_ELEMENT TSML_TAG_TEXT [] []))
        else if c \<noteq> Some COM then sfail TSML_ERR_MALFORMED
        else sbind step (\<lambda>_. sbind here (\<lambda>c. if c = Some LSQ then sbind (decode_attrs heap) (\<lambda>attrs. sbind here (\<lambda>c.
            if c = Some COM then sbind step (\<lambda>_. sbind (decode_children fuel heap dep [] 0) (\<lambda>kids. sret (TSML_ELEMENT head attrs kids)))
            else if c = Some RBR then sbind step (\<lambda>_. sret (TSML_ELEMENT head attrs []))
            else sbind (decode_children fuel heap dep [] 0) (\<lambda>kids. sret (TSML_ELEMENT head attrs kids))))
          else sbind (decode_children fuel heap dep [] 0) (\<lambda>kids. sret (TSML_ELEMENT head [] kids))))))) r2 Q"
    proof (rule gives_escaped_exact[OF r2(1) u2])
      fix r3 assume r3: "rd_ok r3" "same_input r2 r3" "todo r3 = COM # cs"
      show "gives lax heap (sbind here (\<lambda>c. if c = Some RBR then sbind step (\<lambda>_.
          if tag \<noteq> [] then sbind (alloc heap SIZEOF_NODE) (\<lambda>_. sbind (alloc heap SIZEOF_POINTER) (\<lambda>_. sret (TSML_ELEMENT TSML_TAG_TEXT [] [TSML_TEXT tag])))
          else sret (TSML_ELEMENT TSML_TAG_TEXT [] []))
        else if c \<noteq> Some COM then sfail TSML_ERR_MALFORMED
        else sbind step (\<lambda>_. sbind here (\<lambda>c. if c = Some LSQ then sbind (decode_attrs heap) (\<lambda>attrs. sbind here (\<lambda>c.
            if c = Some COM then sbind step (\<lambda>_. sbind (decode_children fuel heap dep [] 0) (\<lambda>kids. sret (TSML_ELEMENT tag attrs kids)))
            else if c = Some RBR then sbind step (\<lambda>_. sret (TSML_ELEMENT tag attrs []))
            else sbind (decode_children fuel heap dep [] 0) (\<lambda>kids. sret (TSML_ELEMENT tag attrs kids))))
          else sbind (decode_children fuel heap dep [] 0) (\<lambda>kids. sret (TSML_ELEMENT tag [] kids)))))) r3 Q"
      proof (intro gives_here[OF r3(1,3)] gives_if gives_step[OF r3(1,3)])
        fix r4 assume r4: "rd_ok r4" "same_input r3 r4" "todo r4 = cs"
        have "same_input r r4" using r1(2) r2(2) r3(2) r4(2) by (simp add: same_input_def)
        then show "gives lax heap (sbind here (\<lambda>c. if c = Some LSQ then sbind (decode_attrs heap) (\<lambda>attrs. sbind here (\<lambda>c.
            if c = Some COM then sbind step (\<lambda>_. sbind (decode_children fuel heap dep [] 0) (\<lambda>kids. sret (TSML_ELEMENT tag attrs kids)))
            else if c = Some RBR then sbind step (\<lambda>_. sret (TSML_ELEMENT tag attrs []))
            else sbind (decode_children fuel heap dep [] 0) (\<lambda>kids. sret (TSML_ELEMENT tag attrs kids))))
          else sbind (decode_children fuel heap dep [] 0) (\<lambda>kids. sret (TSML_ELEMENT tag [] kids)))) r4 Q"
          by (intro gives_here[OF r4(1) r4(3)[unfolded cs(1)]] gives_if gives_sbind[OF kids[OF r4(1) _ r4(3)]] gives_sret) (use cs(2) in simp_all)
      qed simp_all
    qed
  qed (simp_all add: SIZEOF_NODE_def)
qed

lemma adjacent_rejected:
  assumes s: "s \<noteq> []" "choose_form s (length s) True = FORM_INLINE" and u: "choose_form u (length u) False \<noteq> FORM_INLINE"
    and t: "t = node_text (TSML_ELEMENT tag [] (TSML_TEXT s # TSML_TEXT u # cs))" and l: "length t \<le> 1152921504606846976"
  shows "settles True heap (length t) (tsml_decode heap (Some t) (length t)) (\<lambda>ns. False)"
proof -
  obtain e es where e: "text_bytes False u = BS # e # es" "e = 98 \<or> e = 66"
    using u by (cases "choose_form u (length u) False") (auto simp: text_bytes_def)
  define zs where "zs = BS # e # es @ children_text False cs @ [RBR]"
  have tt: "t = LBR # escaped_bytes CTX_TAG tag @ COM # text_bytes True s @ zs" by (simp add: t e(1) zs_def)
  obtain x xs where x: "text_bytes True s = x # xs" "x \<noteq> LBR" "x \<noteq> RBR" "x \<noteq> LSQ" using text_bytes_first[OF s(1), of True] by auto
  have none: "unescape CTX_TEXT (text_bytes True s @ zs) = None"
    using lead_run[OF e(2)] by (simp add: text_bytes_def s(2) zs_def)
  have "settles True heap (length t) (tsml_decode heap (Some t) (length t)) (\<lambda>ns. \<exists>n. ns = [n] \<and> False)"
  proof (rule decode_settles[OF order_refl l])
    fix d :: tsml_doc assume "td_roots d = []"
    let ?r = "reader_at t (length t) d"
    obtain k where k: "decode_fuel (length t) = Suc (Suc k)" by (simp add: decode_fuel_def)
    have o: "rd_ok ?r" "todo ?r = LBR # escaped_bytes CTX_TAG tag @ COM # text_bytes True s @ zs"
      using reader_at_ok[OF order_refl l, of d] tt by simp_all
    show "gives True heap (decode_element (decode_fuel (length t)) heap 0) ?r (\<lambda>n r'. False \<and> (True \<or> todo r' = []))"
      unfolding k
    proof (rule element_children[OF o])
      show "text_bytes True s @ zs = x # xs @ zs" by (simp add: x(1))
      fix r' assume r': "rd_ok r'" "same_input ?r r'" "todo r' = text_bytes True s @ zs"
      have x': "todo r' = x # xs @ zs" using r'(3) x(1) by simp
      have "gives True heap (read_text heap) r' (\<lambda>_ _. False)"
        by (rule read_text_inline[OF r'(1) s r'(3)], rule gives_mono[OF read_escaped_gives[OF r'(1)]]) (use none r'(3) in simp_all)
      then have "gives True heap (sbind (read_text heap) f) r' (\<lambda>ks r''. False \<and> (True \<or> todo r'' = []))" for f :: "u8 list \<Rightarrow> tsml_node list decoding"
        by (rule gives_sbind) simp
      then show "gives True heap (decode_children (Suc k) heap 0 [] 0) r' (\<lambda>ks r''. False \<and> (True \<or> todo r'' = []))"
        unfolding decode_children.simps by (intro gives_here[OF r'(1) x'] gives_if) (use x(2-4) in simp_all)
    qed (use x in simp_all)
  qed
  then show ?thesis by simp
qed

section \<open>A sample\<close>

definition tree_sample :: tsml_node where
  "tree_sample = TSML_ELEMENT [97] [Attr (Some [107]) (Some [118, 44])]
     [TSML_TEXT [120], TSML_ELEMENT [98] [] [TSML_TEXT [91, 92, 0]]]"

lemma tree_sample_facts:
  "node_ok tree_sample" "readable tree_sample" "node_fits 0 tree_sample" "read_back tree_sample = tree_sample" "length (node_text tree_sample) \<le> 100"
  by (simp_all add: tree_sample_def readable_def attr_ok_def in_memory_def TSML_MAX_DEPTH_def text_bytes_def choose_form_def Let_def
      varint_len.simps[of 1] varint_len.simps[of 3] byte_defs is_reserved_def attr_bytes_def length_varint_bytes)

end
