(* ===== verification/Iterator_Trie.thy ===== *)
theory Iterator_Trie
  imports Iterator_Safe Client
begin

text \<open>
  Iteration over a built file: the frames on the iterator's stack stand for the children not visited yet
  (\<open>frame_at\<close>), their keys are what is still to come (\<open>pending\<close>), and every call of \<open>tp_iter_next\<close> hands out the
  first of them with its value and leaves the others (\<open>next_listing\<close>). Keys of at most 256 bytes keep the stack and the
  key buffer within their initial sizes.
\<close>

section \<open>Bits of the dictionary\<close>

definition lies :: "tp_dict \<Rightarrow> nat \<Rightarrow> bool list \<Rightarrow> bool" where
  "lies d p xs \<longleftrightarrow> (\<exists>bs. d_buf d = Some bs \<and> has_bits bs p xs) \<and> p + length xs \<le> 8 * d_len d"

definition of_dict :: "tp_dict \<Rightarrow> tp_bitstream_reader \<Rightarrow> bool" where
  "of_dict d r \<longleftrightarrow> reader_ok r \<and> r_buf r = d_buf d \<and> r_bit_len r = 8 * d_len d"

lemma lies_append: "lies d p (xs @ ys) \<longleftrightarrow> lies d p xs \<and> lies d (p + length xs) ys"
  by (auto simp: lies_def has_bits_append add.assoc)

lemma lies_starts: "of_dict d r \<Longrightarrow> lies d (r_pos r) xs \<longleftrightarrow> starts r xs"
  by (auto simp: of_dict_def lies_def starts_def next_bits_def r_bytes_def reader_ok_def)

lemma of_dict_adv: "of_dict d r \<Longrightarrow> lies d (r_pos r) xs \<Longrightarrow> of_dict d (adv (length xs) r)"
  by (auto simp: of_dict_def lies_def reader_ok_def)

lemma of_dict_seek:
  assumes "of_dict d r" and "p \<le> 8 * d_len d"
  shows "tp_bs_reader_seek p r = (Ok (), r\<lparr>r_pos := p\<rparr>)" and "of_dict d (r\<lparr>r_pos := p\<rparr>)"
  using assms by (auto simp: of_dict_def tp_bs_reader_seek_def reader_ok_def)

section \<open>What is still to come\<close>

text \<open>Keys with their index in the value store, and whether they have a value there.\<close>

fun numbered :: "nat \<Rightarrow> (u8 list \<times> bool) list \<Rightarrow> (u8 list \<times> nat \<times> bool) list" where
  "numbered vi [] = []"
| "numbered vi ((k, b) # es) = (k, vi, b) # numbered (vi + 1) es"

lemma numbered_append: "numbered vi (xs @ ys) = numbered vi xs @ numbered (vi + length xs) ys"
  by (induction vi xs rule: numbered.induct) simp_all

lemma numbered_Nil [simp]: "numbered vi es = [] \<longleftrightarrow> es = []"
  by (cases es) auto

lemma map_fst_numbered: "map fst (numbered vi es) = map fst es"
  by (induction vi es rule: numbered.induct) auto

lemma length_numbered: "length (numbered vi es) = length es"
  by (induction vi es rule: numbered.induct) simp_all

text \<open>A frame: the key up to its node, the index of the first entry below, and the children left.\<close>

type_synonym level = "u8 list \<times> nat \<times> (u8 \<times> trie) list"

fun level_keys :: "level \<Rightarrow> (u8 list \<times> nat \<times> bool) list" where
  "level_keys (p, vi, ks) = numbered vi (map (\<lambda>(k, b). (p @ k, b)) (kid_keys ks))"

definition pending :: "level list \<Rightarrow> (u8 list \<times> nat \<times> bool) list" where
  "pending ls = concat (map level_keys (rev ls))"

lemma pending_simps [simp]: "pending [] = []" "pending (ls @ [l]) = level_keys l @ pending ls"
  by (simp_all add: pending_def)

lemma level_keys_Cons:
  "level_keys (p, vi, (c, t) # ks) =
     numbered vi (map (\<lambda>(k, b). (p @ c # k, b)) (flat t)) @ level_keys (p, vi + nterms t, ks)"
  by (simp add: numbered_append nterms_flat comp_def split_def)

lemma level_keys_node:
  "numbered vi (map (\<lambda>(k, b). (p @ k, b)) (flat (Node l tm ks))) =
     (case tm of None \<Rightarrow> [] | Some b \<Rightarrow> [(p @ l, vi, b)]) @ level_keys (p @ l, if tm = None then vi else vi + 1, ks)"
  by (cases tm) (simp_all add: flat_Node comp_def split_def del: flat.simps)

definition kids_fit :: "u8 set \<Rightarrow> nat \<Rightarrow> nat \<Rightarrow> (u8 \<times> trie) list \<Rightarrow> bool" where
  "kids_fit al n vi ks \<longleftrightarrow> (\<forall>(c, t) \<in> set ks. c \<in> al \<and> wf_trie t \<and> chars t \<subseteq> al \<and> depth t \<le> n) \<and> vi + kids_terms ks < 4294967296"

lemma kids_fit_Cons:
  "kids_fit al n vi ((c, t) # ks) \<Longrightarrow> c \<in> al \<and> wf_trie t \<and> chars t \<subseteq> al \<and> depth t \<le> n \<and> vi + nterms t < 4294967296 \<and> kids_fit al n (vi + nterms t) ks"
  by (auto simp: kids_fit_def kids_terms_def)

lemma wf_nterms: "wf_trie t \<Longrightarrow> 0 < nterms t"
  using wf_flat_nonempty[of t] by (simp add: nterms_flat)

lemma length_kids_terms: "(\<forall>(c, t) \<in> set ks. wf_trie t) \<Longrightarrow> length ks \<le> kids_terms ks"
proof (induction ks)
  case (Cons x ks)
  obtain c t where x: "x = (c, t)" by force
  then show ?case using Cons wf_nterms[of t] by (auto simp: kids_terms_def)
qed simp

lemma kids_fit_length: "kids_fit al n vi ks \<Longrightarrow> length ks < 4294967296"
proof -
  assume fit: "kids_fit al n vi ks"
  then have "\<forall>(c, t) \<in> set ks. wf_trie t" by (auto simp: kids_fit_def)
  then show ?thesis using length_kids_terms[of ks] fit by (simp add: kids_fit_def)
qed

lemma level_keys_empty: "kids_fit al n vi ks \<Longrightarrow> level_keys (p, vi, ks) = [] \<longleftrightarrow> ks = []"
proof (cases ks)
  case (Cons x xs)
  obtain c t where x: "x = (c, t)" by force
  assume "kids_fit al n vi ks"
  then have "flat t \<noteq> []" using Cons x kids_fit_Cons[of al n vi c t xs] wf_flat_nonempty by simp
  then show ?thesis by (simp add: Cons x)
qed simp

definition frame_at :: "tp_dict \<Rightarrow> u8 set \<Rightarrow> u8 list \<Rightarrow> nat \<Rightarrow> tp_iter_frame \<Rightarrow> level \<Rightarrow> bool" where
  "frame_at d al buf n f l \<longleftrightarrow>
     (case l of (p, vi, ks) \<Rightarrow>
        f_remaining f = length ks \<and> f_key_prefix_len f = length p \<and> take (length p) buf = p \<and> kids_fit al n vi ks \<and>
        (ks \<noteq> [] \<longrightarrow> lies d (f_next_child_pos f) (ser_kids (d_sym d) vi ks) \<and>
           f_subtree_end f = f_next_child_pos f + length (ser_kids (d_sym d) vi ks)))"

definition frames_at :: "tp_dict \<Rightarrow> u8 set \<Rightarrow> u8 list \<Rightarrow> tp_iter_frame list \<Rightarrow> level list \<Rightarrow> bool" where
  "frames_at d al buf fs ls \<longleftrightarrow> length fs = length ls \<and> sorted (map (\<lambda>l. length (fst l)) ls) \<and>
     (\<forall>i < length ls. frame_at d al buf (256 - i) (fs ! i) (ls ! i))"

lemma frames_at_Nil [simp]: "frames_at d al buf [] ls \<longleftrightarrow> ls = []" "frames_at d al buf fs [] \<longleftrightarrow> fs = []"
  by (auto simp: frames_at_def)

lemma frames_at_snoc:
  "frames_at d al buf (fs @ [f]) (ls @ [l]) \<longleftrightarrow>
     frames_at d al buf fs ls \<and> (\<forall>x \<in> set ls. length (fst x) \<le> length (fst l)) \<and> frame_at d al buf (256 - length ls) f l"
  by (auto simp: frames_at_def sorted_append nth_append less_Suc_eq all_conj_distrib)

lemma frames_at_cases:
  assumes "frames_at d al buf fs (ls @ [l])"
  obtains fs' f where "fs = fs' @ [f]" "frames_at d al buf fs' ls" "frame_at d al buf (256 - length ls) f l" "\<forall>x \<in> set ls. length (fst x) \<le> length (fst l)"
proof -
  have "fs \<noteq> []" using assms by (auto simp: frames_at_def)
  then obtain fs' f where "fs = fs' @ [f]" by (cases fs rule: rev_cases) auto
  then show thesis using assms that by (simp add: frames_at_snoc)
qed

lemma frames_at_take: "frames_at d al buf fs (ls @ es) \<Longrightarrow> frames_at d al buf (take (length ls) fs) ls"
proof (induction es arbitrary: fs rule: rev_induct)
  case (snoc e es)
  have "frames_at d al buf fs ((ls @ es) @ [e])" using snoc.prems by simp
  then obtain fs' f where fs: "fs = fs' @ [f]" "frames_at d al buf fs' (ls @ es)" by (rule frames_at_cases)
  then have "length ls \<le> length fs'" by (simp add: frames_at_def)
  then show ?case using snoc.IH[OF fs(2)] fs(1) by simp
qed (simp add: frames_at_def)

text \<open>Writing behind the longest prefix leaves the frames alone.\<close>

lemma frames_at_buf:
  assumes "frames_at d al buf fs ls" and "\<forall>l \<in> set ls. length (fst l) \<le> m" and "take m buf' = take m buf"
  shows "frames_at d al buf' fs ls"
proof -
  have tk: "take n buf' = take n buf" if "n \<le> m" for n using assms(3) that by (metis min.absorb1 take_take)
  have "frame_at d al buf' (256 - i) (fs ! i) (ls ! i)" if i: "i < length ls" for i
  proof -
    obtain p vi ks where l: "ls ! i = (p, vi, ks)" by (metis prod_cases3)
    have "length p \<le> m" using assms(2) nth_mem[OF i] l by force
    moreover have "frame_at d al buf (256 - i) (fs ! i) (ls ! i)" using assms(1) i by (simp add: frames_at_def)
    ultimately show ?thesis using tk[of "length p"] by (simp add: frame_at_def l)
  qed
  then show ?thesis using assms(1) by (simp add: frames_at_def)
qed

section \<open>Values in order\<close>

text \<open>The cursor stands in front of the value with its index.\<close>

definition values_at :: "tp_dict \<Rightarrow> tp_value list \<Rightarrow> nat \<Rightarrow> nat \<Rightarrow> bool" where
  "values_at d vs p j \<longleftrightarrow> j \<le> length vs \<and> lies d p (enc_seq value_enc p (drop j vs))"

definition cursor_at :: "tp_dict \<Rightarrow> tp_value list \<Rightarrow> tp_iterator \<Rightarrow> bool" where
  "cursor_at d vs it \<longleftrightarrow> (di_has_values (d_info d) \<longrightarrow> values_at d vs (it_value_pos it) (it_value_index it))"

lemma dict_of_reader:
  assumes "dict_ok d" and "tp_bs_reader_create heap (d_buf d) (wrap64 (d_len d * 8)) = Ok r"
  shows "of_dict d r"
proof -
  obtain bs where "d_buf d = Some bs" "reader_ok r" "r_bit_len r = 8 * d_len d" "r_bytes r = bs"
    by (rule dict_reader[OF assms])
  then show ?thesis by (simp add: of_dict_def r_buf_bytes)
qed

lemma seek_value_exact:
  assumes v: "values_at d vs (d_value_start d) 0" and vs: "\<forall>v \<in> set vs. storable v" and r: "of_dict d r" and j: "j \<le> length vs"
  shows "\<exists>q r'. seek_value j d (it, r) = (Ok (), it\<lparr>it_value_pos := q, it_value_index := j\<rparr>, r') \<and> of_dict d r' \<and> values_at d vs q j"
proof -
  let ?p = "d_value_start d"
  obtain bs where bs: "d_buf d = Some bs" using v by (auto simp: values_at_def lies_def)
  have le: "?p \<le> 8 * d_len d" using v by (simp add: values_at_def lies_def)
  define r1 where "r1 = r\<lparr>r_pos := ?p\<rparr>"
  have r1: "tp_bs_reader_seek ?p r = (Ok (), r1)" "of_dict d r1" "r_pos r1 = ?p" using of_dict_seek[OF r le] by (simp_all add: r1_def)
  let ?e = "enc_seq value_enc ?p (take j vs)"
  have split: "enc_seq value_enc ?p vs = ?e @ enc_seq value_enc (?p + length ?e) (drop j vs)"
    using enc_seq_append[of value_enc ?p "take j vs" "drop j vs"] by simp
  have l: "lies d ?p ?e" "lies d (?p + length ?e) (enc_seq value_enc (?p + length ?e) (drop j vs))"
    using v split by (simp_all add: values_at_def lies_append)
  have "starts r1 ?e" using l(1) lies_starts[OF r1(2)] r1(3) by simp
  moreover have "\<forall>x \<in> set (take j vs). storable x" using vs by (meson in_set_takeD)
  ultimately obtain ys where ys: "read_seq (length (take j vs)) (tp_value_decode (Some bs)) r1 = (Ok ys, adv (length ?e) r1)"
    using valc.rd_seq[of "take j vs" r1 bs] r1(3) by (auto simp: starts_def)
  have "of_dict d (adv (length ?e) r1)" using of_dict_adv[OF r1(2)] l(1) r1(3) by simp
  then show ?thesis
    using ys j r1(1,3) l(2) bs
    by (intro exI[of _ "?p + length ?e"] exI[of _ "adv (length ?e) r1"])
      (simp add: seek_value_def sbind_def on_reader_def values_at_def tp_bs_reader_position_def min_absorb2)
qed

lemma value_exact:
  assumes it: "it_dict it = d" "dict_ok d" and h: "SIZEOF_READER \<le> heap" and hv: "di_has_values (d_info d)"
    and v: "values_at d vs (d_value_start d) 0" and vs: "\<forall>v \<in> set vs. storable v" "length vs < 4294967296"
    and c: "cursor_at d vs it" and j: "j < length vs"
  shows "\<exists>v it'. iter_value_at heap j it = (Ok v, it') \<and> value_agree (vs ! j) v \<and> same_but_cursor it it' \<and> cursor_at d vs it'"
proof -
  obtain r where cr: "tp_bs_reader_create heap (d_buf d) (wrap64 (d_len d * 8)) = Ok r" using h by (simp add: tp_bs_reader_create_def)
  have r: "of_dict d r" by (rule dict_of_reader[OF it(2) cr])
  obtain bs where bs: "d_buf d = Some bs" using v by (auto simp: values_at_def lies_def)
  have "\<exists>q it1 r1. (if j \<noteq> it_value_index it then seek_value j d else sret ()) (it, r) = (Ok (), it1, r1) \<and> it_value_pos it1 = q \<and>
      same_but_cursor it it1 \<and> of_dict d r1 \<and> values_at d vs q j"
  proof (cases "j = it_value_index it")
    case True
    then show ?thesis using c hv r by (simp add: cursor_at_def)
  next
    case False
    then show ?thesis using seek_value_exact[OF v vs(1) r, of j it] j by (auto simp: same_but_cursor_def)
  qed
  then obtain q it1 r1 where s1: "(if j \<noteq> it_value_index it then seek_value j d else sret ()) (it, r) = (Ok (), it1, r1)"
    "it_value_pos it1 = q" "same_but_cursor it it1" "of_dict d r1" "values_at d vs q j" by blast
  define r2 where "r2 = r1\<lparr>r_pos := q\<rparr>"
  have r2: "tp_bs_reader_seek q r1 = (Ok (), r2)" "of_dict d r2" "r_pos r2 = q"
    using of_dict_seek[OF s1(4), of q] s1(5) by (simp_all add: r2_def values_at_def lies_def)
  have dr: "drop j vs = vs ! j # drop (Suc j) vs" using j by (simp add: Cons_nth_drop_Suc)
  let ?e = "value_enc q (vs ! j)"
  have l: "lies d q ?e" "lies d (q + length ?e) (enc_seq value_enc (q + length ?e) (drop (Suc j) vs))"
    using s1(5) by (simp_all add: values_at_def dr lies_append)
  have "starts r2 ?e" using l(1) lies_starts[OF r2(2)] r2(3) by simp
  then obtain x where x: "tp_value_decode (Some bs) r2 = (Ok x, adv (length ?e) r2)" "value_agree (vs ! j) x"
    using valc.rd_enc[of "vs ! j" r2 bs] vs(1) j r2(3) by (auto simp: starts_def)
  let ?it = "it1\<lparr>it_value_pos := q + length ?e, it_value_index := Suc j\<rparr>"
  have "iter_value_at heap j it = (Ok x, ?it)"
    using s1(1,2) r2(1,3) x(1) cr hv it bs vs(2) j
    by (simp add: iter_value_at_def Let_def sbind_def on_reader_def tp_bs_reader_position_def)
  moreover have "cursor_at d vs ?it" using l(2) j by (simp add: cursor_at_def values_at_def)
  ultimately show ?thesis using x(2) same_but_cursor_set[OF s1(3)] by blast
qed

section \<open>Key bytes\<close>

lemma push_key_exact:
  assumes "it_ok heap it" and "it_key_len it < it_key_buf_cap it"
  shows "\<exists>buf. iter_push_key heap b it = (Ok (), it\<lparr>it_key_buf := buf, it_key_len := it_key_len it + 1\<rparr>) \<and> length buf = it_key_buf_cap it \<and>
    take (it_key_len it + 1) buf = take (it_key_len it) (it_key_buf it) @ [b]"
proof -
  have c: "it_key_buf_cap it \<le> 1152921504606846976" "length (it_key_buf it) = it_key_buf_cap it" using assms(1) by (simp_all add: it_ok_def)
  then have w: "wrap64 (Suc (it_key_len it)) = Suc (it_key_len it)" using assms(2) by simp
  show ?thesis using assms(2) c
    by (intro exI[of _ "(it_key_buf it)[it_key_len it := b]"])
      (simp add: iter_push_key_def iter_key_reserve_def sbind_def w take_Suc_conv_app_nth)
qed

section \<open>The next child\<close>

definition all_used :: "level list \<Rightarrow> bool" where
  "all_used ls \<longleftrightarrow> (\<forall>(p, vi, ks) \<in> set ls. ks = [])"

lemma unwind_used:
  assumes "frames_at d al buf (take n stack) (ls @ es)" and "n \<le> length stack" and "all_used es"
    and "ls = [] \<or> (\<exists>ls' p vi c ks. ls = ls' @ [(p, vi, c # ks)])"
  shows "unwind stack n = length ls"
  using assms
proof (induction es arbitrary: n rule: rev_induct)
  case Nil
  then have n: "n = length ls" by (auto simp: frames_at_def)
  from Nil(4) show ?case
  proof
    assume "ls = []" then show ?thesis using n by simp
  next
    assume "\<exists>ls' p vi c ks. ls = ls' @ [(p, vi, c # ks)]"
    then obtain ls' p vi c ks where ls: "ls = ls' @ [(p, vi, c # ks)]" by blast
    then have n': "n = Suc (length ls')" using n by simp
    have "frame_at d al buf (256 - length ls') (take n stack ! length ls') (p, vi, c # ks)"
      using Nil(1) by (auto simp: frames_at_def ls nth_append)
    then have "f_remaining (stack ! length ls') \<noteq> 0" using n' by (simp add: frame_at_def)
    then show ?thesis using n' ls by simp
  qed
next
  case (snoc e es)
  obtain p vi ks where e: "e = (p, vi, ks)" by (metis prod_cases3)
  obtain m where n: "n = Suc m" "m < length stack" using snoc.prems(1,2) by (cases n) (auto simp: frames_at_def)
  have tk: "take n stack = take m stack @ [stack ! m]" using n by (simp add: take_Suc_conv_app_nth)
  have f: "frames_at d al buf (take m stack) (ls @ es)" "frame_at d al buf (256 - length (ls @ es)) (stack ! m) e"
    using snoc.prems(1) frames_at_snoc[of d al buf "take m stack" "stack ! m" "ls @ es" e] by (simp_all add: tk)
  have "ks = []" using snoc.prems(3) by (simp add: all_used_def e)
  then have "f_remaining (stack ! m) = 0" using f(2) by (simp add: frame_at_def e)
  moreover have "unwind stack m = length ls" by (rule snoc.IH[OF f(1)]) (use n snoc.prems in \<open>auto simp: all_used_def\<close>)
  ultimately show ?case by (simp add: n(1))
qed

lemma no_sibling:
  assumes "frames_at d al (it_key_buf it) (waiting it) ls" and "all_used ls" and "it_ok heap it"
  shows "\<exists>it'. next_sibling si (it, r) = (Err TP_ERR_EOF, it', r)"
proof -
  have "unwind (it_stack it) (nat (it_stack_top it + 1)) = 0"
    using unwind_used[of d al "it_key_buf it" "nat (it_stack_top it + 1)" "it_stack it" "[]" ls] assms
    by (auto simp: waiting_def it_ok_def)
  then show ?thesis by (simp add: next_sibling_def Let_def)
qed

text \<open>Taking the next child: the bits of its subtree and their end.\<close>

lemma read_child:
  assumes so: "symbols_ok al (d_sym d)" and d: "dict_ok d" and r: "of_dict d r" and ks: "ks \<noteq> []"
    and l: "lies d (r_pos r) (ser_kids (d_sym d) vi ((c, t) # ks))"
  defines "bps \<equiv> s_bits_per_symbol (d_sym d)"
  shows "\<exists>q. tp_bs_read_bits bps r = (Ok (word_of_nat (ctrl_code (d_sym d) TP_CTRL_SKIP)), adv bps r) \<and>
      wrap32 (unat (word_of_nat (ctrl_code (d_sym d) TP_CTRL_SKIP) :: u64)) = ctrl_code (d_sym d) TP_CTRL_SKIP \<and>
      (\<exists>n. tp_bs_read_varint_u (adv bps r) = (Ok n, adv q r) \<and> unat n = bps + length (ser (d_sym d) vi t)) \<and>
      lies d (r_pos r + q) (chr_bits (d_sym d) c @ ser (d_sym d) vi t @ ser_kids (d_sym d) (vi + nterms t) ks) \<and>
      length (ser_kids (d_sym d) vi ((c, t) # ks)) = q + bps + length (ser (d_sym d) vi t) + length (ser_kids (d_sym d) (vi + nterms t) ks) \<and>
      of_dict d (adv q r)"
proof -
  let ?si = "d_sym d"
  let ?n = "bps + length (ser ?si vi t)"
  let ?q = "bps + length (num_bits ?n)"
  have e: "ser_kids ?si vi ((c, t) # ks) = (ctl_bits ?si TP_CTRL_SKIP @ num_bits ?n) @ chr_bits ?si c @ ser ?si vi t @ ser_kids ?si (vi + nterms t) ks"
    using ks by (simp add: bps_def)
  note st = lies_starts[OF r, THEN iffD1]
  have l1: "lies d (r_pos r) (ctl_bits ?si TP_CTRL_SKIP @ num_bits ?n)"
    "lies d (r_pos r + ?q) (chr_bits ?si c @ ser ?si vi t @ ser_kids ?si (vi + nterms t) ks)"
    using l unfolding e by (simp_all add: lies_append bps_def add.assoc)
  have s: "starts r (ctl_bits ?si TP_CTRL_SKIP)" "starts (adv bps r) (num_bits ?n)"
    using st[OF l1(1)] by (simp_all add: starts_append bps_def)
  have skip: "(TP_CTRL_SKIP :: nat) < 6" by (simp add: ctrl_defs)
  have "ctrl_code ?si TP_CTRL_SKIP < 2 ^ s_bits_per_symbol ?si" using symbols_okD(3)[OF so skip] .
  then have w: "wrap32 (unat (word_of_nat (ctrl_code ?si TP_CTRL_SKIP) :: u64)) = ctrl_code ?si TP_CTRL_SKIP"
    using read_code(3)[OF symbols_okD(1,2)[OF so] _ s(1)[unfolded ctl_bits_def]] by simp
  have "?n \<le> 8 * d_len d" using l1(2) by (simp add: lies_def bps_def)
  then have "?n < 18446744073709551616" using d by (simp add: dict_ok_def)
  then have u: "unat (word_of_nat ?n :: u64) = ?n" by (simp add: unat_of_nat del: of_nat_add)
  have "of_dict d (adv ?q r)" using of_dict_adv[OF r l1(1)] by (simp add: bps_def)
  then show ?thesis using read_ctl(2)[OF so skip s(1)] w read_num[OF s(2)] u l1(2) e
    by (intro exI[of _ ?q]) (auto simp: bps_def)
qed

lemma sibling_exact:
  assumes so: "symbols_ok al (d_sym d)" and ok: "it_ok heap it" "it_dict it = d" and r: "of_dict d r"
    and fr: "frames_at d al (it_key_buf it) (waiting it) ((ls @ [(p, vi, (c, t) # ks)]) @ es)" and es: "all_used es"
  shows "\<exists>it1 r1 e. next_sibling (d_sym d) (it, r) = (Ok e, it1, r1) \<and> of_dict d r1 \<and> it_ok heap it1 \<and>
    frames_at d al (it_key_buf it) (waiting it1) (ls @ [(p, vi + nterms t, ks)]) \<and>
    lies d (it_pos it1) (chr_bits (d_sym d) c @ ser (d_sym d) vi t) \<and>
    e = it_pos it1 + length (chr_bits (d_sym d) c @ ser (d_sym d) vi t) \<and>
    it1 = it\<lparr>it_pos := it_pos it1, it_key_len := length p, it_stack := it_stack it1, it_stack_top := it_stack_top it1\<rparr>"
proof -
  let ?si = "d_sym d" let ?m = "length ls" let ?bps = "s_bits_per_symbol (d_sym d)"
  have d: "dict_ok d" using ok by (auto simp: it_ok_def)
  have len: "length (it_stack it) = TP_ITER_MAX_DEPTH" "nat (it_stack_top it + 1) \<le> TP_ITER_MAX_DEPTH" using ok by (auto simp: it_ok_def)
  have uw: "unwind (it_stack it) (nat (it_stack_top it + 1)) = Suc ?m"
    using unwind_used[OF fr[unfolded waiting_def] _ es] len by auto
  have m: "Suc ?m \<le> nat (it_stack_top it + 1)" using unwind_le[of "it_stack it" "nat (it_stack_top it + 1)"] uw by simp
  define f where "f = it_stack it ! ?m"
  have tk: "take (Suc ?m) (it_stack it) = take ?m (it_stack it) @ [f]" using m len by (simp add: take_Suc_conv_app_nth f_def)
  have "frames_at d al (it_key_buf it) (take (Suc ?m) (it_stack it)) (ls @ [(p, vi, (c, t) # ks)])"
    using frames_at_take[OF fr] m by (simp add: waiting_def min_absorb1)
  then have fs: "frames_at d al (it_key_buf it) (take ?m (it_stack it)) ls" "\<forall>x \<in> set ls. length (fst x) \<le> length p"
    and f: "frame_at d al (it_key_buf it) (256 - ?m) f (p, vi, (c, t) # ks)"
    by (simp_all add: tk frames_at_snoc)
  have f1: "f_remaining f = Suc (length ks)" "f_key_prefix_len f = length p" "take (length p) (it_key_buf it) = p"
    "kids_fit al (256 - ?m) vi ((c, t) # ks)" "lies d (f_next_child_pos f) (ser_kids ?si vi ((c, t) # ks))"
    "f_subtree_end f = f_next_child_pos f + length (ser_kids ?si vi ((c, t) # ks))"
    using f by (simp_all add: frame_at_def del: ser_kids.simps)
  define it2 where "it2 = it\<lparr>it_stack_top := int (Suc ?m) - 1, it_key_len := length p\<rparr>"
  have ok2: "it_ok heap it2"
  proof -
    have "f_key_prefix_len f \<le> it_key_buf_cap it" using ok m len by (auto simp: it_ok_def f_def)
    then show ?thesis using ok(1) m len f1(2) by (auto simp: it_ok_def it2_def)
  qed
  have le: "f_next_child_pos f \<le> 8 * d_len d" using f1(5) by (simp add: lies_def)
  define r1 where "r1 = r\<lparr>r_pos := f_next_child_pos f\<rparr>"
  have r1: "tp_bs_reader_seek (f_next_child_pos f) r = (Ok (), r1)" "of_dict d r1" "r_pos r1 = f_next_child_pos f"
    using of_dict_seek[OF r le] by (simp_all add: r1_def)
  have done_: "it_ok heap (it2\<lparr>it_pos := q, it_stack := (it_stack it2)[?m := f']\<rparr>) \<and>
      frames_at d al (it_key_buf it) (waiting (it2\<lparr>it_pos := q, it_stack := (it_stack it2)[?m := f']\<rparr>)) (ls @ [(p, vi + nterms t, ks)])"
    if f': "f_remaining f' = length ks" "f_key_prefix_len f' = length p"
      "ks \<noteq> [] \<Longrightarrow> lies d (f_next_child_pos f') (ser_kids ?si (vi + nterms t) ks) \<and>
        f_subtree_end f' = f_next_child_pos f' + length (ser_kids ?si (vi + nterms t) ks)" for f' q
  proof
    have top: "it_stack_top it2 = int ?m" "it_stack it2 ! ?m = f" by (simp_all add: it2_def f_def)
    show "it_ok heap (it2\<lparr>it_pos := q, it_stack := (it_stack it2)[?m := f']\<rparr>)"
      by (rule take_child(1)[OF ok2 top _ _ _ refl]) (use f1 f' in simp_all)
    have w: "waiting (it2\<lparr>it_pos := q, it_stack := (it_stack it2)[?m := f']\<rparr>) = take ?m (it_stack it) @ [f']"
      using m len by (simp add: waiting_def it2_def take_Suc_conv_app_nth nat_add_distrib)
    have "frame_at d al (it_key_buf it) (256 - ?m) f' (p, vi + nterms t, ks)"
      using f' f1(3) kids_fit_Cons[OF f1(4)] by (simp add: frame_at_def)
    then show "frames_at d al (it_key_buf it) (waiting (it2\<lparr>it_pos := q, it_stack := (it_stack it2)[?m := f']\<rparr>)) (ls @ [(p, vi + nterms t, ks)])"
      unfolding w using fs by (simp add: frames_at_snoc)
  qed
  show ?thesis
  proof (cases "ks = []")
    case True
    let ?f' = "f\<lparr>f_remaining := f_remaining f - 1\<rparr>"
    let ?it = "it2\<lparr>it_pos := f_next_child_pos f, it_stack := (it_stack it2)[?m := ?f']\<rparr>"
    have "next_sibling ?si (it, r) = (Ok (f_subtree_end f), ?it, r1)"
      using f1(1,2) True r1(1) by (simp add: next_sibling_def Let_def uw f_def[symmetric] sbind_def on_reader_def it2_def)
    moreover have "it_ok heap ?it \<and> frames_at d al (it_key_buf it) (waiting ?it) (ls @ [(p, vi + nterms t, ks)])"
      by (rule done_) (use f1(1,2) True in simp_all)
    moreover have "lies d (f_next_child_pos f) (chr_bits ?si c @ ser ?si vi t)" using f1(5) True by simp
    ultimately show ?thesis using r1(2) f1(6) True
      by (intro exI[of _ ?it] exI[of _ r1] exI[of _ "f_subtree_end f"]) (simp add: it2_def)
  next
    case False
    obtain q n where q: "tp_bs_read_bits ?bps r1 = (Ok (word_of_nat (ctrl_code ?si TP_CTRL_SKIP)), adv ?bps r1)"
      "wrap32 (unat (word_of_nat (ctrl_code ?si TP_CTRL_SKIP) :: u64)) = ctrl_code ?si TP_CTRL_SKIP"
      "tp_bs_read_varint_u (adv ?bps r1) = (Ok n, adv q r1)" "unat n = ?bps + length (ser ?si vi t)"
      "lies d (r_pos r1 + q) (chr_bits ?si c @ ser ?si vi t @ ser_kids ?si (vi + nterms t) ks)"
      "length (ser_kids ?si vi ((c, t) # ks)) = q + ?bps + length (ser ?si vi t) + length (ser_kids ?si (vi + nterms t) ks)"
      "of_dict d (adv q r1)"
      using read_child[OF so d r1(2) False, of vi c t] f1(5) r1(3) by auto
    let ?pos = "f_next_child_pos f + q"
    let ?e = "?pos + (?bps + length (ser ?si vi t))"
    have "?e \<le> 8 * d_len d" using q(5) r1(3) by (simp add: lies_def)
    then have w: "wrap64 ?e = ?e" using d by (simp add: dict_ok_def)
    let ?f' = "f\<lparr>f_next_child_pos := ?e, f_remaining := f_remaining f - 1\<rparr>"
    let ?it = "it2\<lparr>it_pos := ?pos, it_stack := (it_stack it2)[?m := ?f']\<rparr>"
    have "next_sibling ?si (it, r) = (Ok ?e, ?it, adv q r1)"
      using f1(1,2) False r1(1,3) q(1-4) w
      by (simp add: next_sibling_def Let_def uw f_def[symmetric] sbind_def on_reader_def it2_def tp_bs_reader_position_def)
    moreover have "it_ok heap ?it \<and> frames_at d al (it_key_buf it) (waiting ?it) (ls @ [(p, vi + nterms t, ks)])"
      by (rule done_) (use f1(1,2,6) q(5,6) r1(3) in \<open>simp_all add: lies_append add.assoc\<close>)
    moreover have "lies d ?pos (chr_bits ?si c @ ser ?si vi t)" using q(5) r1(3) by (simp add: lies_append)
    ultimately show ?thesis using q(7)
      by (intro exI[of _ ?it] exI[of _ "adv q r1"] exI[of _ ?e]) (simp add: it2_def)
  qed
qed

section \<open>Walking down a node\<close>

lemma it_ok_key: "it_ok heap it \<Longrightarrow> length buf = it_key_buf_cap it \<Longrightarrow> n \<le> it_key_buf_cap it \<Longrightarrow> it_ok heap (it\<lparr>it_key_buf := buf, it_key_len := n\<rparr>)"
  by (simp add: it_ok_def)

lemma walk_chr:
  assumes so: "symbols_ok al (d_sym d)" and c: "c \<in> al" and ok: "it_ok heap it" and r: "of_dict d r"
    and l: "lies d (r_pos r) (chr_bits (d_sym d) c)" and e: "r_pos r < e" and cap: "it_key_len it < it_key_buf_cap it"
  shows "\<exists>buf. walk_down (Suc f) heap (d_sym d) e (it, r) =
      walk_down f heap (d_sym d) e (it\<lparr>it_key_buf := buf, it_key_len := it_key_len it + 1\<rparr>, adv (s_bits_per_symbol (d_sym d)) r) \<and>
    length buf = it_key_buf_cap it \<and> take (it_key_len it + 1) buf = take (it_key_len it) (it_key_buf it) @ [c]"
proof -
  let ?si = "d_sym d" let ?code = "symbol_code ?si c"
  have st: "starts r (chr_bits ?si c)" using l lies_starts[OF r] by simp
  have code: "?code < 2 ^ s_bits_per_symbol ?si" by (rule symbols_okD(4)[OF so c])
  note rd = read_code[OF symbols_okD(1,2)[OF so] code st[unfolded chr_bits_def]]
  have "(2 :: nat) ^ s_bits_per_symbol ?si \<le> 2 ^ 8" using symbols_okD(2)[OF so] by (intro power_increasing) simp_all
  then have lt: "?code < 256" using code by simp
  have nc: "?code \<noteq> ctrl_code ?si TP_CTRL_END" "?code \<noteq> ctrl_code ?si TP_CTRL_END_VAL" "?code \<noteq> ctrl_code ?si TP_CTRL_BRANCH"
    "\<not> is_ctrl ?si ?code" using symbol_code_not_ctrl[OF so c] symbols_okD(5)[OF so c] by (simp_all add: ctrl_defs)
  obtain buf where b: "iter_push_key heap c it = (Ok (), it\<lparr>it_key_buf := buf, it_key_len := it_key_len it + 1\<rparr>)" "length buf = it_key_buf_cap it"
    "take (it_key_len it + 1) buf = take (it_key_len it) (it_key_buf it) @ [c]" using push_key_exact[OF ok cap] by blast
  show ?thesis using e nc lt b rd(1,3) symbols_okD(7)[OF so c]
    by (intro exI[of _ buf]) (simp add: sbind_def on_reader_def on_iter_def Let_def tp_bs_reader_position_def)
qed

lemma walk_label:
  assumes so: "symbols_ok al (d_sym d)"
  shows "set l \<subseteq> al \<Longrightarrow> it_ok heap it \<Longrightarrow> of_dict d r \<Longrightarrow> lies d (r_pos r) (concat (map (chr_bits (d_sym d)) l)) \<Longrightarrow>
    r_pos r + s_bits_per_symbol (d_sym d) * length l \<le> e \<Longrightarrow> it_key_len it + length l \<le> it_key_buf_cap it \<Longrightarrow>
    \<exists>buf. walk_down (length l + f) heap (d_sym d) e (it, r) =
        walk_down f heap (d_sym d) e (it\<lparr>it_key_buf := buf, it_key_len := it_key_len it + length l\<rparr>, adv (s_bits_per_symbol (d_sym d) * length l) r) \<and>
      length buf = it_key_buf_cap it \<and> take (it_key_len it + length l) buf = take (it_key_len it) (it_key_buf it) @ l"
proof (induction l arbitrary: it r)
  case Nil
  then show ?case by (intro exI[of _ "it_key_buf it"]) (simp add: it_ok_def)
next
  case (Cons c l)
  let ?bps = "s_bits_per_symbol (d_sym d)"
  have b1: "1 \<le> ?bps" using symbols_okD(1)[OF so] .
  have l1: "lies d (r_pos r) (chr_bits (d_sym d) c)" "lies d (r_pos r + ?bps) (concat (map (chr_bits (d_sym d)) l))"
    using Cons.prems(4) by (simp_all add: lies_append)
  have e: "r_pos r < e" "r_pos r + ?bps + ?bps * length l \<le> e" using Cons.prems(5) b1 by simp_all
  obtain buf where b: "walk_down (Suc (length l + f)) heap (d_sym d) e (it, r) =
      walk_down (length l + f) heap (d_sym d) e (it\<lparr>it_key_buf := buf, it_key_len := it_key_len it + 1\<rparr>, adv ?bps r)"
    "length buf = it_key_buf_cap it" "take (it_key_len it + 1) buf = take (it_key_len it) (it_key_buf it) @ [c]"
    using walk_chr[OF so _ Cons.prems(2,3) l1(1) e(1), of "length l + f"] Cons.prems(1,6) by auto
  let ?it = "it\<lparr>it_key_buf := buf, it_key_len := it_key_len it + 1\<rparr>"
  have "it_ok heap ?it" using it_ok_key[OF Cons.prems(2) b(2)] Cons.prems(6) by simp
  moreover have "of_dict d (adv ?bps r)" using of_dict_adv[OF Cons.prems(3) l1(1)] by simp
  ultimately have "\<exists>buf'. walk_down (length l + f) heap (d_sym d) e (?it, adv ?bps r) =
        walk_down f heap (d_sym d) e (?it\<lparr>it_key_buf := buf', it_key_len := it_key_len ?it + length l\<rparr>, adv (?bps * length l) (adv ?bps r)) \<and>
      length buf' = it_key_buf_cap ?it \<and> take (it_key_len ?it + length l) buf' = take (it_key_len ?it) (it_key_buf ?it) @ l"
    by (rule Cons.IH[rotated 1]) (use Cons.prems(1,6) l1(2) e(2) in simp_all)
  then show ?case using b by auto
qed

text \<open>Pushing the frame of a node with children.\<close>

lemma push_exact:
  assumes ok: "it_ok heap it" and r: "of_dict d r" and fr: "frames_at d al (it_key_buf it) (waiting it) ls"
    and len: "\<forall>l \<in> set ls. length (fst l) \<le> it_key_len it" "length ls < 256"
    and ks: "kids_fit al (256 - length ls) vi ks" and l: "lies d (r_pos r) (ser_kids (d_sym d) vi ks)"
    and e: "e = r_pos r + length (ser_kids (d_sym d) vi ks)"
  shows "\<exists>it'. push_frame e (word_of_nat (length ks)) (it, r) = (Ok (), it', r) \<and> it_ok heap it' \<and>
    frames_at d al (it_key_buf it) (waiting it') (ls @ [(take (it_key_len it) (it_key_buf it), vi, ks)]) \<and>
    it' = it\<lparr>it_stack := it_stack it', it_stack_top := it_stack_top it'\<rparr>"
proof -
  have w: "length (waiting it) = length ls" using fr by (simp add: frames_at_def)
  have top: "it_stack_top it + 1 < int TP_ITER_MAX_DEPTH"
    using length_waiting[OF ok] w len(2) ok by (simp add: TP_ITER_MAX_DEPTH_def it_ok_def)
  have n: "wrap32 (unat (word_of_nat (length ks) :: u64)) = length ks" using kids_fit_length[OF ks] by (simp add: unat_of_nat)
  define f where "f = \<lparr>f_subtree_end = e, f_next_child_pos = r_pos r, f_remaining = length ks, f_key_prefix_len = it_key_len it\<rparr>"
  define it' where "it' = it\<lparr>it_stack_top := it_stack_top it + 1, it_stack := (it_stack it)[nat (it_stack_top it + 1) := f]\<rparr>"
  have k: "it_key_len it \<le> it_key_buf_cap it" "length (it_key_buf it) = it_key_buf_cap it" using ok by (simp_all add: it_ok_def)
  note ip = it_ok_push[OF ok top, of f, folded it'_def]
  have f: "f_remaining f < 4294967296" "f_key_prefix_len f \<le> it_key_buf_cap it" using kids_fit_length[OF ks] k by (simp_all add: f_def)
  have "frame_at d al (it_key_buf it) (256 - length ls) f (take (it_key_len it) (it_key_buf it), vi, ks)"
    using ks l e k by (simp add: frame_at_def f_def)
  then have "frames_at d al (it_key_buf it) (waiting it') (ls @ [(take (it_key_len it) (it_key_buf it), vi, ks)])"
    using fr len(1) k ip(2)[OF f] by (simp add: frames_at_snoc)
  moreover have "push_frame e (word_of_nat (length ks)) (it, r) = (Ok (), it', r)"
    using top n by (simp add: push_frame_def Let_def it'_def f_def tp_bs_reader_position_def)
  ultimately show ?thesis using ip(1)[OF f] by (intro exI[of _ it']) (simp add: it'_def)
qed

lemma cursor_at_stack: "cursor_at d vs (it\<lparr>it_stack := a, it_stack_top := b\<rparr>) = cursor_at d vs it"
  by (simp add: cursor_at_def)

definition kids_bits :: "tp_symbol_info \<Rightarrow> nat \<Rightarrow> (u8 \<times> trie) list \<Rightarrow> bool list" where
  "kids_bits si vi ks = (if ks = [] then [] else ctl_bits si TP_CTRL_BRANCH @ num_bits (length ks) @ ser_kids si vi ks)"

definition kids_level :: "u8 list \<Rightarrow> nat \<Rightarrow> (u8 \<times> trie) list \<Rightarrow> level list" where
  "kids_level p vi ks = (if ks = [] then [] else [(p, vi, ks)])"

lemma read_branch:
  assumes so: "symbols_ok al (d_sym d)" and r: "of_dict d r" and ks: "ks \<noteq> []" and l: "lies d (r_pos r) (kids_bits (d_sym d) vi ks)"
  shows "\<exists>q. tp_bs_read_bits (s_bits_per_symbol (d_sym d)) r = (Ok (word_of_nat (ctrl_code (d_sym d) TP_CTRL_BRANCH)), adv (s_bits_per_symbol (d_sym d)) r) \<and>
    wrap32 (unat (word_of_nat (ctrl_code (d_sym d) TP_CTRL_BRANCH) :: u64)) = ctrl_code (d_sym d) TP_CTRL_BRANCH \<and>
    tp_bs_read_varint_u (adv (s_bits_per_symbol (d_sym d)) r) = (Ok (word_of_nat (length ks)), adv q r) \<and> of_dict d (adv q r) \<and>
    lies d (r_pos r + q) (ser_kids (d_sym d) vi ks) \<and> length (kids_bits (d_sym d) vi ks) = q + length (ser_kids (d_sym d) vi ks)"
proof -
  let ?si = "d_sym d" let ?bps = "s_bits_per_symbol (d_sym d)"
  let ?h = "ctl_bits ?si TP_CTRL_BRANCH @ num_bits (length ks)"
  have l1: "lies d (r_pos r) ?h" "lies d (r_pos r + length ?h) (ser_kids ?si vi ks)"
    using l ks by (simp_all add: kids_bits_def lies_append add.assoc)
  have s: "starts r (ctl_bits ?si TP_CTRL_BRANCH)" "starts (adv ?bps r) (num_bits (length ks))"
    using lies_starts[OF r] l1(1) by (simp_all add: starts_append)
  have br: "(TP_CTRL_BRANCH :: nat) < 6" by (simp add: ctrl_defs)
  have "wrap32 (unat (word_of_nat (ctrl_code ?si TP_CTRL_BRANCH) :: u64)) = ctrl_code ?si TP_CTRL_BRANCH"
    using read_code(3)[OF symbols_okD(1,2)[OF so] symbols_okD(3)[OF so br] s(1)[unfolded ctl_bits_def]] .
  then show ?thesis using read_ctl(2)[OF so br s(1)] read_num[OF s(2)] l1(2) of_dict_adv[OF r l1(1)] ks
    by (intro exI[of _ "length ?h"]) (simp add: kids_bits_def)
qed

text \<open>A node without a terminal.\<close>

lemma walk_branched:
  assumes so: "symbols_ok al (d_sym d)" and ok: "it_ok heap it" and r: "of_dict d r" and fr: "frames_at d al (it_key_buf it) (waiting it) ls"
    and len: "\<forall>l \<in> set ls. length (fst l) \<le> it_key_len it" "length ls < 256"
    and ks: "ks \<noteq> []" "kids_fit al (256 - length ls) vi ks" and l: "lies d (r_pos r) (kids_bits (d_sym d) vi ks)"
    and e: "e = r_pos r + length (kids_bits (d_sym d) vi ks)"
  shows "\<exists>it' r'. walk_down (Suc f) heap (d_sym d) e (it, r) = (Ok Branched, it', r') \<and> of_dict d r' \<and> it_ok heap it' \<and>
    frames_at d al (it_key_buf it) (waiting it') (ls @ [(take (it_key_len it) (it_key_buf it), vi, ks)]) \<and>
    it' = it\<lparr>it_stack := it_stack it', it_stack_top := it_stack_top it'\<rparr>"
proof -
  obtain q where q: "tp_bs_read_bits (s_bits_per_symbol (d_sym d)) r = (Ok (word_of_nat (ctrl_code (d_sym d) TP_CTRL_BRANCH)), adv (s_bits_per_symbol (d_sym d)) r)"
    "wrap32 (unat (word_of_nat (ctrl_code (d_sym d) TP_CTRL_BRANCH) :: u64)) = ctrl_code (d_sym d) TP_CTRL_BRANCH"
    "tp_bs_read_varint_u (adv (s_bits_per_symbol (d_sym d)) r) = (Ok (word_of_nat (length ks)), adv q r)" "of_dict d (adv q r)"
    "lies d (r_pos r + q) (ser_kids (d_sym d) vi ks)" "length (kids_bits (d_sym d) vi ks) = q + length (ser_kids (d_sym d) vi ks)"
    using read_branch[OF so r ks(1) l] by blast
  obtain it' where p: "push_frame e (word_of_nat (length ks)) (it, adv q r) = (Ok (), it', adv q r)" "it_ok heap it'"
    "frames_at d al (it_key_buf it) (waiting it') (ls @ [(take (it_key_len it) (it_key_buf it), vi, ks)])"
    "it' = it\<lparr>it_stack := it_stack it', it_stack_top := it_stack_top it'\<rparr>"
    using push_exact[OF ok q(4) fr len ks(2)] q(5,6) e by (auto simp: add.assoc)
  have lt: "r_pos r < e" using e q(6) ks(1) symbols_okD(1)[OF so] by (simp add: kids_bits_def)
  have nc: "ctrl_code (d_sym d) TP_CTRL_BRANCH \<noteq> ctrl_code (d_sym d) TP_CTRL_END" "ctrl_code (d_sym d) TP_CTRL_BRANCH \<noteq> ctrl_code (d_sym d) TP_CTRL_END_VAL"
    using ctrl_code_inj[OF so] by (simp_all add: ctrl_defs)
  have "walk_down (Suc f) heap (d_sym d) e (it, r) = (Ok Branched, it', adv q r)"
    using lt nc q(1-3) p(1) by (simp add: sbind_def on_reader_def Let_def tp_bs_reader_position_def)
  then show ?thesis using q(4) p(2-4) by blast
qed

text \<open>A node with one: the children are pushed first, then the value is fetched.\<close>

lemma after_terminal:
  assumes so: "symbols_ok al (d_sym d)" and ok: "it_ok heap it" and r: "of_dict d r" and fr: "frames_at d al (it_key_buf it) (waiting it) ls"
    and len: "\<forall>l \<in> set ls. length (fst l) \<le> it_key_len it" "ks \<noteq> [] \<Longrightarrow> length ls < 256"
    and ks: "kids_fit al (256 - length ls) vi ks" and l: "lies d (r_pos r) (kids_bits (d_sym d) vi ks)"
    and e: "e = r_pos r + length (kids_bits (d_sym d) vi ks)"
  shows "\<exists>it' r'. (\<lambda>(it, r).
             if tp_bs_reader_position r < e then
               sbind (on_reader (tp_bs_read_bits (s_bits_per_symbol (d_sym d)))) (\<lambda>bsym.
               if wrap32 (unat bsym) \<noteq> ctrl_code (d_sym d) TP_CTRL_BRANCH then sfail TP_ERR_CORRUPT
               else sbind (on_reader tp_bs_read_varint_u) (push_frame e)) (it, r)
             else (Ok (), it, r)) (it, r) = (Ok (), it', r') \<and> of_dict d r' \<and> it_ok heap it' \<and>
    frames_at d al (it_key_buf it) (waiting it') (ls @ kids_level (take (it_key_len it) (it_key_buf it)) vi ks) \<and>
    it' = it\<lparr>it_stack := it_stack it', it_stack_top := it_stack_top it'\<rparr>"
proof (cases "ks = []")
  case True
  then show ?thesis using ok r fr e
    by (intro exI[of _ it] exI[of _ r]) (simp add: kids_bits_def kids_level_def tp_bs_reader_position_def)
next
  case False
  obtain q where q: "tp_bs_read_bits (s_bits_per_symbol (d_sym d)) r = (Ok (word_of_nat (ctrl_code (d_sym d) TP_CTRL_BRANCH)), adv (s_bits_per_symbol (d_sym d)) r)"
    "wrap32 (unat (word_of_nat (ctrl_code (d_sym d) TP_CTRL_BRANCH) :: u64)) = ctrl_code (d_sym d) TP_CTRL_BRANCH"
    "tp_bs_read_varint_u (adv (s_bits_per_symbol (d_sym d)) r) = (Ok (word_of_nat (length ks)), adv q r)" "of_dict d (adv q r)"
    "lies d (r_pos r + q) (ser_kids (d_sym d) vi ks)" "length (kids_bits (d_sym d) vi ks) = q + length (ser_kids (d_sym d) vi ks)"
    using read_branch[OF so r False l] by blast
  obtain it' where p: "push_frame e (word_of_nat (length ks)) (it, adv q r) = (Ok (), it', adv q r)" "it_ok heap it'"
    "frames_at d al (it_key_buf it) (waiting it') (ls @ [(take (it_key_len it) (it_key_buf it), vi, ks)])"
    "it' = it\<lparr>it_stack := it_stack it', it_stack_top := it_stack_top it'\<rparr>"
    using push_exact[OF ok q(4) fr len(1) len(2)[OF False] ks] q(5,6) e by (auto simp: add.assoc)
  have lt: "r_pos r < e" using e q(6) False symbols_okD(1)[OF so] by (simp add: kids_bits_def)
  show ?thesis using lt q(1-4) p False
    by (intro exI[of _ it'] exI[of _ "adv q r"]) (simp add: kids_level_def sbind_def on_reader_def tp_bs_reader_position_def)
qed

lemma walk_emitted:
  assumes so: "symbols_ok al (d_sym d)" and ok: "it_ok heap it" "it_dict it = d" and r: "of_dict d r"
    and fr: "frames_at d al (it_key_buf it) (waiting it) ls"
    and len: "\<forall>l \<in> set ls. length (fst l) \<le> it_key_len it" "ks \<noteq> [] \<Longrightarrow> length ls < 256"
    and ks: "kids_fit al (256 - length ls) (vi + 1) ks"
    and l: "lies d (r_pos r) (term_bits (d_sym d) vi (Some b) @ kids_bits (d_sym d) (vi + 1) ks)"
    and e: "e = r_pos r + length (term_bits (d_sym d) vi (Some b) @ kids_bits (d_sym d) (vi + 1) ks)"
    and h: "SIZEOF_READER \<le> heap" and b: "b \<Longrightarrow> di_has_values (d_info d)"
    and v: "di_has_values (d_info d) \<Longrightarrow> values_at d vs (d_value_start d) 0" and vs: "\<forall>v \<in> set vs. storable v" "length vs < 4294967296" "vi < length vs"
    and c: "cursor_at d vs it"
  shows "\<exists>it' r' v. walk_down (Suc f) heap (d_sym d) e (it, r) = (Ok (Emitted v), it', r') \<and> of_dict d r' \<and> it_ok heap it' \<and>
    frames_at d al (it_key_buf it) (waiting it') (ls @ kids_level (take (it_key_len it) (it_key_buf it)) (vi + 1) ks) \<and>
    cursor_at d vs it' \<and> (if b then value_agree (vs ! vi) v else v = TP_NULL) \<and>
    it' = it\<lparr>it_stack := it_stack it', it_stack_top := it_stack_top it', it_value_pos := it_value_pos it', it_value_index := it_value_index it'\<rparr>"
proof -
  let ?si = "d_sym d" let ?bps = "s_bits_per_symbol (d_sym d)" let ?t = "term_bits (d_sym d) vi (Some b)"
  let ?code = "ctrl_code ?si (if b then TP_CTRL_END_VAL else TP_CTRL_END)"
  have lt: "lies d (r_pos r) ?t" and lk: "lies d (r_pos r + length ?t) (kids_bits ?si (vi + 1) ks)" using l by (simp_all add: lies_append)
  have st: "starts r ?t" using lt lies_starts[OF r] by simp
  define r1 where "r1 = adv (length ?t) r"
  have r1: "of_dict d r1" "r_pos r1 = r_pos r + length ?t" using of_dict_adv[OF r lt] by (simp_all add: r1_def)
  obtain it1 r2 where m: "(\<lambda>(it, r).
             if tp_bs_reader_position r < e then
               sbind (on_reader (tp_bs_read_bits ?bps)) (\<lambda>bsym.
               if wrap32 (unat bsym) \<noteq> ctrl_code ?si TP_CTRL_BRANCH then sfail TP_ERR_CORRUPT
               else sbind (on_reader tp_bs_read_varint_u) (push_frame e)) (it, r)
             else (Ok (), it, r)) (it, r1) = (Ok (), it1, r2)" "of_dict d r2" "it_ok heap it1"
    "frames_at d al (it_key_buf it) (waiting it1) (ls @ kids_level (take (it_key_len it) (it_key_buf it)) (vi + 1) ks)"
    "it1 = it\<lparr>it_stack := it_stack it1, it_stack_top := it_stack_top it1\<rparr>"
    using after_terminal[OF so ok(1) r1(1) fr len ks, of e] lk e r1(2) by (auto simp: add.assoc)
  have c6: "(if b then TP_CTRL_END_VAL else TP_CTRL_END :: nat) < 6" by (simp add: ctrl_defs)
  have sc: "starts r (code_bits ?si ?code)" using st by (cases b) (simp_all add: term_bits_def ctl_bits_def starts_append)
  note rd = read_code[OF symbols_okD(1,2)[OF so] symbols_okD(3)[OF so c6] sc]
  have pos: "r_pos r < e" using e symbols_okD(1)[OF so] by (cases b) (simp_all add: term_bits_def)
  have d: "dict_ok d" using ok by (auto simp: it_ok_def)
  have i1: "it_dict it1 = d" by (subst m(5)) (simp add: ok(2))
  have c1: "cursor_at d vs it1" by (subst m(5)) (simp add: cursor_at_stack c)
  show ?thesis
  proof (cases b)
    case False
    have "length ?t = ?bps" by (simp add: term_bits_def False)
    then have "walk_down (Suc f) heap ?si e (it, r) = (Ok (Emitted TP_NULL), it1, r2)"
      using rd(1,3) pos m(1) False ctrl_code_inj[OF so, of TP_CTRL_END TP_CTRL_END_VAL]
      by (simp add: sbind_def on_reader_def Let_def tp_bs_reader_position_def r1_def tp_value_null_def ctrl_defs)
    moreover obtain x y where it1: "it1 = it\<lparr>it_stack := x, it_stack_top := y\<rparr>" using m(5) by blast
    have "it1 = it\<lparr>it_stack := it_stack it1, it_stack_top := it_stack_top it1, it_value_pos := it_value_pos it1, it_value_index := it_value_index it1\<rparr>"
      by (simp add: it1)
    ultimately show ?thesis using m(2-4) c1 False by (intro exI[of _ it1] exI[of _ r2] exI[of _ TP_NULL]) simp
  next
    case True
    have d: "dict_ok d" using ok by (auto simp: it_ok_def)
    have u: "unat (word_of_nat vi :: u64) = vi" using vs(2,3) by (simp add: unat_of_nat)
    have vr: "tp_bs_read_varint_u (adv ?bps r) = (Ok (word_of_nat vi), r1)"
      using read_num[of "adv ?bps r" vi] st True by (simp add: term_bits_def starts_append r1_def)
    obtain v it2 where v: "iter_value_at heap vi it1 = (Ok v, it2)" "value_agree (vs ! vi) v" "same_but_cursor it1 it2" "cursor_at d vs it2"
      using value_exact[OF i1 d h b[OF True] v[OF b[OF True]] vs(1,2) c1 vs(3)] by blast
    have w: "walk_down (Suc f) heap ?si e (it, r) = (Ok (Emitted v), it2, r2)"
      using rd(1,3) pos m(1) True vr u v(1)
      by (simp add: sbind_def on_reader_def on_iter_def Let_def tp_bs_reader_position_def)
    obtain a k where it2: "it2 = it1\<lparr>it_value_pos := a, it_value_index := k\<rparr>" using v(3) by (auto simp: same_but_cursor_def)
    have "it_ok heap it2" "waiting it2 = waiting it1" using m(3) by (simp_all add: it2 it_ok_def waiting_def)
    moreover have "it2 = it\<lparr>it_stack := it_stack it2, it_stack_top := it_stack_top it2, it_value_pos := it_value_pos it2, it_value_index := it_value_index it2\<rparr>"
      unfolding it2 by (subst m(5)) simp
    ultimately show ?thesis using w m(2,4) v(2,4) True
      by (intro exI[of _ it2] exI[of _ r2] exI[of _ v]) simp
  qed
qed

section \<open>One node\<close>

definition served :: "nat \<Rightarrow> tp_dict \<Rightarrow> u8 set \<Rightarrow> tp_value list \<Rightarrow> bool" where
  "served heap d al vs \<longleftrightarrow> symbols_ok al (d_sym d) \<and> SIZEOF_READER \<le> heap \<and> (\<forall>v \<in> set vs. storable v) \<and> length vs < 4294967296 \<and>
     (di_has_values (d_info d) \<longrightarrow> values_at d vs (d_value_start d) 0)"

definition iterating :: "nat \<Rightarrow> tp_dict \<Rightarrow> u8 set \<Rightarrow> tp_value list \<Rightarrow> nat \<times> nat \<times> nat \<Rightarrow> tp_iterator \<Rightarrow> level list \<Rightarrow> bool" where
  "iterating heap d al vs ro it ls \<longleftrightarrow> it_ok heap it \<and> it_dict it = d \<and> frames_at d al (it_key_buf it) (waiting it) ls \<and>
     cursor_at d vs it \<and> 256 \<le> it_key_buf_cap it \<and>
     (it_root_pos it, it_root_end it, it_root_key_len it) = ro"

text \<open>Entries whose keys fit the buffer and whose values are in the store.\<close>

definition within :: "tp_dict \<Rightarrow> tp_value list \<Rightarrow> (u8 list \<times> nat \<times> bool) list \<Rightarrow> bool" where
  "within d vs es \<longleftrightarrow> (\<forall>(k, j, b) \<in> set es. length k \<le> 256 \<and> j < length vs \<and> (b \<longrightarrow> di_has_values (d_info d)))"

definition value_for :: "tp_value list \<Rightarrow> nat \<times> bool \<Rightarrow> tp_value \<Rightarrow> bool" where
  "value_for vs e v \<longleftrightarrow> (case e of (j, b) \<Rightarrow> if b then value_agree (vs ! j) v else v = TP_NULL)"

definition ready_at :: "tp_dict \<Rightarrow> u8 set \<Rightarrow> tp_iterator \<Rightarrow> level list \<Rightarrow> u8 list \<Rightarrow> nat \<Rightarrow> trie \<Rightarrow> nat \<Rightarrow> bool" where
  "ready_at d al it ls p vi t e \<longleftrightarrow> it_key_len it = length p \<and> take (length p) (it_key_buf it) = p \<and> (\<forall>l \<in> set ls. length (fst l) \<le> length p) \<and>
     wf_trie t \<and> chars t \<subseteq> al \<and> depth t + length ls \<le> 257 \<and> vi + nterms t < 4294967296 \<and>
     lies d (it_pos it) (ser (d_sym d) vi t) \<and> e = it_pos it + length (ser (d_sym d) vi t)"

lemma numbered_fst: "fst ` set (numbered vi es) = fst ` set es"
  by (induction vi es rule: numbered.induct) auto

lemma node_parts:
  assumes "ready_at d al it ls p vi (Node l tm ks) e"
  defines "vi' \<equiv> if tm = None then vi else vi + 1"
  shows "kids_fit al (256 - length ls) vi' ks" and "ks \<noteq> [] \<Longrightarrow> length ls < 256" and "set l \<subseteq> al"
    and "lies d (it_pos it) (concat (map (chr_bits (d_sym d)) l))"
    and "lies d (it_pos it + s_bits_per_symbol (d_sym d) * length l) (term_bits (d_sym d) vi tm @ kids_bits (d_sym d) vi' ks)"
    and "e = it_pos it + s_bits_per_symbol (d_sym d) * length l + length (term_bits (d_sym d) vi tm @ kids_bits (d_sym d) vi' ks)"
proof -
  note r = assms(1)[unfolded ready_at_def]
  have dp: "depth t < depth (Node l tm ks)" if "(c, t) \<in> set ks" for c t
    using fold_max_le[of "map (\<lambda>(c, t). depth t) ks" 0 "fold max (map (\<lambda>(c, t). depth t) ks) 0"] that by (force simp: less_Suc_eq_le)
  have d1: "depth (Node l tm ks) + length ls \<le> 257" using r by (elim conjE)
  show "kids_fit al (256 - length ls) vi' ks"
    unfolding kids_fit_def
  proof (intro conjI ballI)
    fix x assume x: "x \<in> set ks"
    obtain c t where ct: "x = (c, t)" by force
    have "depth t \<le> 256 - length ls" using dp[of c t] x ct d1 by (simp del: depth.simps)
    moreover have "wf_trie t" using r x ct by auto
    moreover have "insert c (chars t) \<subseteq> chars (Node l tm ks)" using x ct by force
    moreover have "chars (Node l tm ks) \<subseteq> al" using r by (elim conjE)
    ultimately show "case x of (c, t) \<Rightarrow> c \<in> al \<and> wf_trie t \<and> chars t \<subseteq> al \<and> depth t \<le> 256 - length ls"
      unfolding ct by (simp del: chars.simps) blast
  qed (cases tm; use r in \<open>simp add: vi'_def kids_terms_def\<close>)
  show "length ls < 256" if ne: "ks \<noteq> []"
  proof -
    obtain c t ks' where ks: "ks = (c, t) # ks'" using ne by (cases ks) auto
    have "0 < depth t" by (cases t) simp
    then show ?thesis using dp[of c t] ks d1 by (simp del: depth.simps)
  qed
  show "set l \<subseteq> al" using r by simp
  have s: "ser (d_sym d) vi (Node l tm ks) = concat (map (chr_bits (d_sym d)) l) @ term_bits (d_sym d) vi tm @ kids_bits (d_sym d) vi' ks"
    by (simp add: kids_bits_def vi'_def)
  show "lies d (it_pos it) (concat (map (chr_bits (d_sym d)) l))"
    "lies d (it_pos it + s_bits_per_symbol (d_sym d) * length l) (term_bits (d_sym d) vi tm @ kids_bits (d_sym d) vi' ks)"
    "e = it_pos it + s_bits_per_symbol (d_sym d) * length l + length (term_bits (d_sym d) vi tm @ kids_bits (d_sym d) vi' ks)"
    using r unfolding s by (simp_all add: lies_append length_concat_chr)
qed

lemma node_step:
  assumes sv: "served heap d al vs" and iv: "iterating heap d al vs ro it ls" and r: "of_dict d r"
    and at: "ready_at d al it ls p vi (Node l tm ks) e"
    and wi: "within d vs (numbered vi (map (\<lambda>(k, b). (p @ k, b)) (flat (Node l tm ks))))"
    and fuel: "8 * d_len d + 1 < fuel"
  shows "\<exists>it' r' we. sbind (\<lambda>(it, r). on_reader (tp_bs_reader_seek (it_pos it)) (it, r)) (\<lambda>_. walk_down fuel heap (d_sym d) e) (it, r) = (Ok we, it', r') \<and>
    of_dict d r' \<and> iterating heap d al vs ro it' (ls @ kids_level (p @ l) (if tm = None then vi else vi + 1) ks) \<and>
    it_key_len it' = length (p @ l) \<and> take (length (p @ l)) (it_key_buf it') = p @ l \<and>
    (case tm of None \<Rightarrow> we = Branched | Some b \<Rightarrow> \<exists>v. we = Emitted v \<and> value_for vs (vi, b) v) \<and>
    it_started it' = it_started it \<and> it_done it' = it_done it"
proof -
  let ?bps = "s_bits_per_symbol (d_sym d)" let ?vi = "if tm = None then vi else vi + 1"
  note np = node_parts[OF at]
  have so: "symbols_ok al (d_sym d)" and h: "SIZEOF_READER \<le> heap" and vs: "\<forall>v \<in> set vs. storable v" "length vs < 4294967296"
    "di_has_values (d_info d) \<Longrightarrow> values_at d vs (d_value_start d) 0" using sv by (simp_all add: served_def)
  have ok: "it_ok heap it" "it_dict it = d" "256 \<le> it_key_buf_cap it" and fr: "frames_at d al (it_key_buf it) (waiting it) ls"
    and cu: "cursor_at d vs it" and root: "(it_root_pos it, it_root_end it, it_root_key_len it) = ro"
    using iv by (simp_all add: iterating_def)
  have kl: "it_key_len it = length p" "take (length p) (it_key_buf it) = p" and lens: "\<forall>l \<in> set ls. length (fst l) \<le> length p"
    and wf: "wf_trie (Node l tm ks)" using at by (simp_all add: ready_at_def)
  have "length (p @ l) \<le> 256"
  proof -
    obtain k b where kb: "(k, b) \<in> set (flat (Node l tm ks))" using wf_flat_nonempty[OF wf] by (metis list.set_intros(1) list.exhaust surj_pair)
    then have "length l \<le> length k" by (auto simp: flat_Node simp del: flat.simps split: option.splits)
    moreover have "p @ k \<in> fst ` set (numbered vi (map (\<lambda>(k, b). (p @ k, b)) (flat (Node l tm ks))))"
      unfolding numbered_fst using kb by force
    then have "length (p @ k) \<le> 256" using wi unfolding within_def by force
    ultimately show ?thesis by simp
  qed
  then have cap: "it_key_len it + length l \<le> it_key_buf_cap it" using ok(3) kl(1) by simp
  define r1 where "r1 = r\<lparr>r_pos := it_pos it\<rparr>"
  have "it_pos it \<le> 8 * d_len d" using np(4) by (simp add: lies_def)
  then have r1: "tp_bs_reader_seek (it_pos it) r = (Ok (), r1)" "of_dict d r1" "r_pos r1 = it_pos it" using of_dict_seek[OF r] by (simp_all add: r1_def)
  have b1: "1 \<le> ?bps" using symbols_okD(1)[OF so] .
  then have "length l \<le> ?bps * length l" by simp
  also have "\<dots> \<le> 8 * d_len d" using np(4) by (simp add: lies_def length_concat_chr)
  finally have "Suc (length l) \<le> fuel" using fuel by simp
  then obtain g where "fuel = Suc (length l) + g" by (auto simp: le_iff_add)
  then obtain f where f: "fuel = length l + Suc f" by simp
  obtain buf where b: "walk_down (length l + Suc f) heap (d_sym d) e (it, r1) =
      walk_down (Suc f) heap (d_sym d) e (it\<lparr>it_key_buf := buf, it_key_len := it_key_len it + length l\<rparr>, adv (?bps * length l) r1)"
    "length buf = it_key_buf_cap it" "take (it_key_len it + length l) buf = take (it_key_len it) (it_key_buf it) @ l"
    using walk_label[OF so np(3) ok(1) r1(2), of e "Suc f"] np(4,6) r1(3) cap by auto
  define it1 where "it1 = it\<lparr>it_key_buf := buf, it_key_len := it_key_len it + length l\<rparr>"
  define r2 where "r2 = adv (?bps * length l) r1"
  have r2: "of_dict d r2" "r_pos r2 = it_pos it + ?bps * length l"
    using of_dict_adv[OF r1(2), of "concat (map (chr_bits (d_sym d)) l)"] np(4) r1(3) by (simp_all add: r2_def length_concat_chr)
  have ok1: "it_ok heap it1" "it_dict it1 = d" unfolding it1_def using it_ok_key[OF ok(1) b(2) cap] ok(2) by simp_all
  have buf: "take (length p + length l) buf = p @ l" using b(3) kl by simp
  then have "take (length p) buf = take (length p) (it_key_buf it)" using kl(2) by (metis append_eq_conv_conj take_add le_add1 min.absorb1 take_take)
  then have fr1: "frames_at d al (it_key_buf it1) (waiting it1) ls" using frames_at_buf[OF fr lens] by (simp add: it1_def waiting_def)
  have k1: "it_key_len it1 = length (p @ l)" "take (it_key_len it1) (it_key_buf it1) = p @ l" using kl buf by (simp_all add: it1_def)
  have lens1: "\<forall>x \<in> set ls. length (fst x) \<le> it_key_len it1" using lens k1(1) by auto
  have c1: "cursor_at d vs it1" using cu by (simp add: cursor_at_def it1_def)
  have go: "sbind (\<lambda>(it, r). on_reader (tp_bs_reader_seek (it_pos it)) (it, r)) (\<lambda>_. walk_down fuel heap (d_sym d) e) (it, r) = walk_down (Suc f) heap (d_sym d) e (it1, r2)"
    using r1(1) b(1) f by (simp add: sbind_def on_reader_def it1_def r2_def)
  show ?thesis
  proof (cases tm)
    case None
    then have ks: "ks \<noteq> []" using wf by simp
    obtain it2 r3 where w: "walk_down (Suc f) heap (d_sym d) e (it1, r2) = (Ok Branched, it2, r3)" "of_dict d r3" "it_ok heap it2"
      "frames_at d al (it_key_buf it1) (waiting it2) (ls @ [(take (it_key_len it1) (it_key_buf it1), vi, ks)])"
      "it2 = it1\<lparr>it_stack := it_stack it2, it_stack_top := it_stack_top it2\<rparr>"
      using walk_branched[OF so ok1(1) r2(1) fr1 lens1 np(2)[OF ks] ks, of vi e f] np(1,5,6) r2(2) None by (auto simp: term_bits_def)
    obtain x y where it2: "it2 = it1\<lparr>it_stack := x, it_stack_top := y\<rparr>" using w(5) by blast
    have "iterating heap d al vs ro it2 (ls @ kids_level (p @ l) vi ks)"
      using w(3,4) ks ok1(2) c1 k1(2) ok(3) root by (simp add: iterating_def kids_level_def it2 cursor_at_stack it1_def waiting_def)
    then show ?thesis using go w(1,2) k1 None by (intro exI[of _ it2] exI[of _ r3] exI[of _ Branched]) (simp add: it2 it1_def)
  next
    case (Some b')
    have "(p @ l, vi, b') \<in> set (numbered vi (map (\<lambda>(k, b). (p @ k, b)) (flat (Node l tm ks))))"
      by (simp add: level_keys_node Some del: flat.simps level_keys.simps)
    then have j: "vi < length vs" "b' \<Longrightarrow> di_has_values (d_info d)" using wi by (auto simp: within_def)
    have k2: "kids_fit al (256 - length ls) (vi + 1) ks"
      and l2: "lies d (r_pos r2) (term_bits (d_sym d) vi (Some b') @ kids_bits (d_sym d) (vi + 1) ks)"
      and e2: "e = r_pos r2 + length (term_bits (d_sym d) vi (Some b') @ kids_bits (d_sym d) (vi + 1) ks)"
      using np(1,5,6) r2(2) Some by simp_all
    obtain it2 r3 v where w: "walk_down (Suc f) heap (d_sym d) e (it1, r2) = (Ok (Emitted v), it2, r3)" "of_dict d r3" "it_ok heap it2"
      "frames_at d al (it_key_buf it1) (waiting it2) (ls @ kids_level (take (it_key_len it1) (it_key_buf it1)) (vi + 1) ks)"
      "cursor_at d vs it2" "if b' then value_agree (vs ! vi) v else v = TP_NULL"
      "it2 = it1\<lparr>it_stack := it_stack it2, it_stack_top := it_stack_top it2, it_value_pos := it_value_pos it2, it_value_index := it_value_index it2\<rparr>"
      using walk_emitted[where ks = ks and e = e and f = f and b = b', OF so ok1 r2(1) fr1 lens1 np(2) k2 l2 e2 h j(2) vs(3,1,2) j(1) c1] by auto
    obtain x y q i where it2: "it2 = it1\<lparr>it_stack := x, it_stack_top := y, it_value_pos := q, it_value_index := i\<rparr>" using w(7) by blast
    have "iterating heap d al vs ro it2 (ls @ kids_level (p @ l) (vi + 1) ks)"
      using w(3-5) ok1(2) k1(2) ok(3) root by (simp add: iterating_def it2 it1_def)
    then show ?thesis using go w(1,2,6) k1 Some by (intro exI[of _ it2] exI[of _ r3] exI[of _ "Emitted v"]) (simp add: it2 it1_def value_for_def)
  qed
qed


section \<open>One call\<close>

text \<open>The loop hands out the first of the entries \<open>es\<close> and leaves the others on the stack.\<close>

definition emits :: "nat \<Rightarrow> tp_dict \<Rightarrow> u8 set \<Rightarrow> tp_value list \<Rightarrow> nat \<times> nat \<times> nat \<Rightarrow> (u8 list \<times> nat \<times> bool) list \<Rightarrow>
    tp_value tp \<times> tp_iterator \<times> tp_bitstream_reader \<Rightarrow> bool" where
  "emits heap d al vs ro es m \<longleftrightarrow> (\<exists>v it r ls k x. m = (Ok v, it, r) \<and> iterating heap d al vs ro it ls \<and> es = (k, x) # pending ls \<and>
     it_key_len it = length k \<and> take (length k) (it_key_buf it) = k \<and> value_for vs x v \<and> it_started it \<and> \<not> it_done it)"

lemma iter_loop_None:
  "iter_loop (Suc n) fuel heap si None s = sbind (next_sibling si) (\<lambda>e. iter_loop (Suc n) fuel heap si (Some e)) s"
  by simp

lemma pending_kids_level [simp]: "pending (ls @ kids_level p vi ks) = level_keys (p, vi, ks) @ pending ls"
  by (simp add: kids_level_def)

lemma node_loop:
  assumes sv: "served heap d al vs" and iv: "iterating heap d al vs ro it ls" and r: "of_dict d r"
    and at: "ready_at d al it ls p vi t e" and es: "es = numbered vi (map (\<lambda>(k, b). (p @ k, b)) (flat t)) @ pending ls"
    and wi: "within d vs es" and fuel: "8 * d_len d + 1 < fuel" and on: "it_started it" "\<not> it_done it"
    and ih: "\<And>it r ls p vi c t ks. iterating heap d al vs ro it (ls @ [(p, vi, (c, t) # ks)]) \<Longrightarrow> of_dict d r \<Longrightarrow>
      within d vs (pending (ls @ [(p, vi, (c, t) # ks)])) \<Longrightarrow> depth t \<le> n \<Longrightarrow> it_started it \<Longrightarrow> \<not> it_done it \<Longrightarrow>
      emits heap d al vs ro (pending (ls @ [(p, vi, (c, t) # ks)])) (iter_loop n fuel heap (d_sym d) None (it, r))"
    and dep: "depth t \<le> Suc n"
  shows "emits heap d al vs ro es (iter_loop (Suc n) fuel heap (d_sym d) (Some e) (it, r))"
proof -
  obtain l tm ks where t: "t = Node l tm ks" by (cases t)
  let ?vi = "if tm = None then vi else vi + 1"
  have es': "es = (case tm of None \<Rightarrow> [] | Some b \<Rightarrow> [(p @ l, vi, b)]) @ pending (ls @ kids_level (p @ l) ?vi ks)"
    unfolding es t level_keys_node by simp
  have "within d vs (numbered vi (map (\<lambda>(k, b). (p @ k, b)) (flat (Node l tm ks))))"
    using wi unfolding es t within_def by simp
  from node_step[OF sv iv r at[unfolded t] this fuel] obtain it' r' we where
    w: "sbind (\<lambda>(it, r). on_reader (tp_bs_reader_seek (it_pos it)) (it, r)) (\<lambda>_. walk_down fuel heap (d_sym d) e) (it, r) = (Ok we, it', r')"
    "of_dict d r'" "iterating heap d al vs ro it' (ls @ kids_level (p @ l) ?vi ks)"
    "it_key_len it' = length (p @ l)" "take (length (p @ l)) (it_key_buf it') = p @ l"
    "case tm of None \<Rightarrow> we = Branched | Some b \<Rightarrow> \<exists>v. we = Emitted v \<and> value_for vs (vi, b) v"
    "it_started it' = it_started it" "it_done it' = it_done it" by blast
  have go: "iter_loop (Suc n) fuel heap (d_sym d) (Some e) (it, r) =
      (case we of Emitted v \<Rightarrow> sret v | _ \<Rightarrow> iter_loop n fuel heap (d_sym d) None) (it', r')"
    using w(1) by (auto simp: sbind_eq_Ok sbind_Ok)
  show ?thesis
  proof (cases tm)
    case (Some b)
    then obtain v where v: "we = Emitted v" "value_for vs (vi, b) v" using w(6) by auto
    show ?thesis using go v w(3-5,7,8) on unfolding emits_def es' by (auto simp: Some)
  next
    case None
    have wf: "wf_trie (Node l tm ks)" using at by (simp add: ready_at_def t)
    then have "ks \<noteq> []" using None by simp
    then obtain c t' ks' where ks: "ks = (c, t') # ks'" by (cases ks) auto
    have "depth t' \<le> n" using dep fold_max_le[of "map (\<lambda>(c, t). depth t) ks" 0 n] by (simp add: t ks)
    then show ?thesis using ih[of it' ls "p @ l" vi c t' ks' r'] w(2,3,7,8) wi es' go on w(6)
      by (simp add: None ks kids_level_def)
  qed
qed

lemma chars_push: "chars (push c t) = insert c (chars t)"
  by (cases t) simp

text \<open>From a stack whose topmost frame with children left is \<open>(p, vi, (c, t) # ks)\<close>.\<close>

lemma sibling_loop:
  assumes sv: "served heap d al vs" and fuel: "8 * d_len d + 1 < fuel"
  shows "iterating heap d al vs ro it ((ls @ [(p, vi, (c, t) # ks)]) @ us) \<Longrightarrow> all_used us \<Longrightarrow> of_dict d r \<Longrightarrow>
    within d vs (pending (ls @ [(p, vi, (c, t) # ks)])) \<Longrightarrow> depth t \<le> n \<Longrightarrow> it_started it \<Longrightarrow> \<not> it_done it \<Longrightarrow>
    emits heap d al vs ro (pending (ls @ [(p, vi, (c, t) # ks)])) (iter_loop n fuel heap (d_sym d) None (it, r))"
proof (induction n arbitrary: it ls p vi c t ks us r)
  case 0
  then show ?case by (cases t) simp
next
  case (Suc n)
  have so: "symbols_ok al (d_sym d)" using sv by (simp add: served_def)
  have ok: "it_ok heap it" "it_dict it = d" "256 \<le> it_key_buf_cap it" "cursor_at d vs it"
    "(it_root_pos it, it_root_end it, it_root_key_len it) = ro"
    and fr: "frames_at d al (it_key_buf it) (waiting it) ((ls @ [(p, vi, (c, t) # ks)]) @ us)"
    using Suc.prems(1) by (simp_all add: iterating_def)
  obtain it1 r1 e where w: "next_sibling (d_sym d) (it, r) = (Ok e, it1, r1)" "of_dict d r1" "it_ok heap it1"
    "frames_at d al (it_key_buf it) (waiting it1) (ls @ [(p, vi + nterms t, ks)])"
    "lies d (it_pos it1) (chr_bits (d_sym d) c @ ser (d_sym d) vi t)" "e = it_pos it1 + length (chr_bits (d_sym d) c @ ser (d_sym d) vi t)"
    "it1 = it\<lparr>it_pos := it_pos it1, it_key_len := length p, it_stack := it_stack it1, it_stack_top := it_stack_top it1\<rparr>"
    using sibling_exact[OF so ok(1,2) Suc.prems(3) fr Suc.prems(2)] by blast
  obtain q a b where it1: "it1 = it\<lparr>it_pos := q, it_key_len := length p, it_stack := a, it_stack_top := b\<rparr>" using w(7) by blast
  have iv: "iterating heap d al vs ro it1 (ls @ [(p, vi + nterms t, ks)])"
    using w(3,4) ok by (simp add: iterating_def it1 cursor_at_def)
  have "frames_at d al (it_key_buf it) (take (Suc (length ls)) (waiting it)) (ls @ [(p, vi, (c, t) # ks)])"
    using frames_at_take[OF fr] by simp
  then obtain f where f: "frame_at d al (it_key_buf it) (256 - length ls) f (p, vi, (c, t) # ks)" "\<forall>x \<in> set ls. length (fst x) \<le> length p"
    by (rule frames_at_cases) auto
  have k: "c \<in> al" "wf_trie t" "chars t \<subseteq> al" "depth t \<le> 256 - length ls" "vi + nterms t < 4294967296" "take (length p) (it_key_buf it) = p"
    using f(1) kids_fit_Cons[of al "256 - length ls" vi c t ks] by (simp_all add: frame_at_def)
  have "0 < depth t" by (cases t) simp
  then have "depth t + Suc (length ls) \<le> 257" using k(4) by linarith
  then have at: "ready_at d al it1 (ls @ [(p, vi + nterms t, ks)]) p vi (push c t) e"
    using k f(2) w(5,6) by (simp add: ready_at_def it1 wf_push chars_push ser_push)
  have es: "pending (ls @ [(p, vi, (c, t) # ks)]) =
      numbered vi (map (\<lambda>(k, b). (p @ k, b)) (flat (push c t))) @ pending (ls @ [(p, vi + nterms t, ks)])"
    by (simp add: level_keys_Cons flat_push comp_def split_def del: level_keys.simps)
  have on: "it_started it1" "\<not> it_done it1" using Suc.prems(6,7) by (simp_all add: it1)
  have "emits heap d al vs ro (pending (ls @ [(p, vi, (c, t) # ks)])) (iter_loop (Suc n) fuel heap (d_sym d) (Some e) (it1, r1))"
    by (rule node_loop[OF sv iv w(2) at es Suc.prems(4) fuel on])
      (use Suc.IH[where us = "[]"] Suc.prems(5) in \<open>simp_all add: all_used_def del: iter_loop.simps\<close>)
  then show ?case unfolding iter_loop_None sbind_Ok[of "next_sibling (d_sym d)" "(it, r)", OF w(1)] .
qed

lemma depth_pos: "0 < depth t"
  by (cases t) simp

lemma split_used:
  assumes "\<And>l. l \<in> set ls \<Longrightarrow> \<exists>al n. kids_fit al n (fst (snd l)) (snd (snd l))"
  shows "(all_used ls \<and> pending ls = []) \<or>
    (\<exists>ls' p vi c t ks us. ls = (ls' @ [(p, vi, (c, t) # ks)]) @ us \<and> all_used us \<and> pending ls = pending (ls' @ [(p, vi, (c, t) # ks)]) \<and> pending ls \<noteq> [])"
  using assms
proof (induction ls rule: rev_induct)
  case (snoc l ls)
  obtain p vi ks where l: "l = (p, vi, ks)" by (metis prod_cases3)
  show ?case
  proof (cases ks)
    case Nil
    then have pd: "pending (ls @ [l]) = pending ls" by (simp add: l)
    have al: "all_used (us @ [l]) = all_used us" for us using Nil by (simp add: all_used_def l)
    have "(all_used ls \<and> pending ls = []) \<or>
      (\<exists>ls' p vi c t ks us. ls = (ls' @ [(p, vi, (c, t) # ks)]) @ us \<and> all_used us \<and> pending ls = pending (ls' @ [(p, vi, (c, t) # ks)]) \<and> pending ls \<noteq> [])"
      by (rule snoc.IH) (simp add: snoc.prems)
    then show ?thesis
    proof (elim disjE exE conjE)
      assume "all_used ls" "pending ls = []"
      then show ?thesis using pd al by simp
    next
      fix ls' p vi c t ks us
      assume "ls = (ls' @ [(p, vi, (c, t) # ks)]) @ us" "all_used us" "pending ls = pending (ls' @ [(p, vi, (c, t) # ks)])" "pending ls \<noteq> []"
      then have "ls @ [l] = (ls' @ [(p, vi, (c, t) # ks)]) @ (us @ [l]) \<and> all_used (us @ [l]) \<and>
          pending (ls @ [l]) = pending (ls' @ [(p, vi, (c, t) # ks)]) \<and> pending (ls @ [l]) \<noteq> []"
        using pd al by simp
      then show ?thesis by blast
    qed
  next
    case (Cons x ks')
    obtain al n where "kids_fit al n vi ks" using snoc.prems[of l] l by auto
    then have "level_keys l \<noteq> []" using level_keys_empty[of al n vi ks p] Cons l by simp
    then have "pending (ls @ [l]) \<noteq> []" by simp
    moreover obtain c t where "x = (c, t)" by force
    moreover have "all_used []" by (simp add: all_used_def)
    ultimately show ?thesis using Cons l by (metis append_Nil2)
  qed
qed (simp add: all_used_def)


text \<open>An iterator in the middle of its run: started, and \<open>es\<close> still to come.\<close>

definition listing :: "nat \<Rightarrow> tp_dict \<Rightarrow> u8 set \<Rightarrow> tp_value list \<Rightarrow> nat \<times> nat \<times> nat \<Rightarrow> tp_iterator \<Rightarrow> (u8 list \<times> nat \<times> bool) list \<Rightarrow> bool" where
  "listing heap d al vs ro it es \<longleftrightarrow> (\<exists>ls. iterating heap d al vs ro it ls \<and> pending ls = es) \<and> within d vs es \<and> it_started it \<and> \<not> it_done it"

text \<open>A call that hands out the first of them.\<close>

definition next_is :: "nat \<Rightarrow> tp_dict \<Rightarrow> u8 set \<Rightarrow> tp_value list \<Rightarrow> nat \<times> nat \<times> nat \<Rightarrow> (u8 list \<times> nat \<times> bool) list \<Rightarrow>
    (u8 list \<times> nat \<times> tp_value) tp \<times> tp_iterator \<Rightarrow> bool" where
  "next_is heap d al vs ro es m \<longleftrightarrow> (\<exists>k x es' v it. es = (k, x) # es' \<and> m = (Ok (k, length k, v), it) \<and> value_for vs x v \<and> listing heap d al vs ro it es')"

lemma emits_next_is:
  assumes "emits heap d al vs ro es m" and "within d vs es"
  shows "next_is heap d al vs ro es (case m of
      (Ok v, it2, _) \<Rightarrow> (Ok (take (it_key_len it2) (it_key_buf it2), it_key_len it2, v), it2)
    | (Err e, it2, _) \<Rightarrow> (Err e, it2\<lparr>it_done := True\<rparr>)
    | (Fault, it2, _) \<Rightarrow> (Fault, it2)
    | (Diverge, it2, _) \<Rightarrow> (Diverge, it2))"
  using assms unfolding emits_def next_is_def listing_def within_def by fastforce

lemma iter_fuel_big: "257 \<le> iter_fuel it"
proof -
  have "(4294967296 :: nat) ^ 1 \<le> 4294967296 ^ TP_ITER_MAX_DEPTH" by (rule power_increasing) (simp_all add: TP_ITER_MAX_DEPTH_def)
  then show ?thesis unfolding iter_fuel_def by simp
qed

lemma next_listing:
  assumes sv: "served heap d al vs" and n: "di_num_keys (d_info d) \<noteq> 0" and l: "listing heap d al vs ro it es"
  shows "es \<noteq> [] \<Longrightarrow> next_is heap d al vs ro es (tp_iter_next heap it)"
    and "es = [] \<Longrightarrow> fst (tp_iter_next heap it) = Err TP_ERR_EOF"
proof -
  obtain ls where ls: "iterating heap d al vs ro it ls" "pending ls = es" and wi: "within d vs es" and on: "it_started it" "\<not> it_done it"
    using l by (auto simp: listing_def)
  have ok: "it_ok heap it" "it_dict it = d" "dict_ok d" and fr: "frames_at d al (it_key_buf it) (waiting it) ls"
    using ls(1) by (auto simp: iterating_def it_ok_def)
  have "SIZEOF_READER \<le> heap" using sv by (simp add: served_def)
  then obtain r where cr: "tp_bs_reader_create heap (d_buf d) (wrap64 (d_len d * 8)) = Ok r" by (simp add: tp_bs_reader_create_def)
  have r: "of_dict d r" by (rule dict_of_reader[OF ok(3) cr])
  let ?m = "iter_loop (iter_fuel it) (d_len d * 8 + 2) heap (d_sym d) None (it, r)"
  have go: "tp_iter_next heap it = (case ?m of
      (Ok v, it2, _) \<Rightarrow> (Ok (take (it_key_len it2) (it_key_buf it2), it_key_len it2, v), it2)
    | (Err e, it2, _) \<Rightarrow> (Err e, it2\<lparr>it_done := True\<rparr>)
    | (Fault, it2, _) \<Rightarrow> (Fault, it2)
    | (Diverge, it2, _) \<Rightarrow> (Diverge, it2))"
    using on n ok(2) cr by (simp add: tp_iter_next_def Let_def)
  have fits: "\<exists>al n. kids_fit al n (fst (snd l)) (snd (snd l)) \<and> n \<le> 256" if lin: "l \<in> set ls" for l
  proof -
    obtain i where i: "i < length ls" "ls ! i = l" using lin by (auto simp: in_set_conv_nth)
    then have "frame_at d al (it_key_buf it) (256 - i) (waiting it ! i) l" using fr by (auto simp: frames_at_def)
    then show ?thesis by (intro exI[of _ al] exI[of _ "256 - i"]) (auto simp: frame_at_def)
  qed
  have "\<exists>al n. kids_fit al n (fst (snd l)) (snd (snd l))" if "l \<in> set ls" for l using fits[OF that] by blast
  note split_used[OF this, of ls, unfolded ls(2)]
  then consider (stop) "all_used ls" "es = []"
    | (child) ls' p vi c t ks us where "ls = (ls' @ [(p, vi, (c, t) # ks)]) @ us" "all_used us" "es = pending (ls' @ [(p, vi, (c, t) # ks)])" "es \<noteq> []"
    by blast
  note cases = this
  show "next_is heap d al vs ro es (tp_iter_next heap it)" if "es \<noteq> []"
    using cases
  proof cases
    case child
    obtain al' m where "kids_fit al' m vi ((c, t) # ks)" "m \<le> 256" using fits[of "(p, vi, (c, t) # ks)"] child(1) by auto
    then have "depth t \<le> iter_fuel it" using iter_fuel_big[of it] kids_fit_Cons[of al' m vi c t ks] by linarith
    moreover have "8 * d_len d + 1 < d_len d * 8 + 2" by simp
    ultimately have "emits heap d al vs ro es ?m"
      using sibling_loop[OF sv _ ls(1)[unfolded child(1)] child(2) r] wi on unfolding child(3) by blast
    then show ?thesis unfolding go using wi by (rule emits_next_is)
  qed (use that in simp)
  show "fst (tp_iter_next heap it) = Err TP_ERR_EOF" if "es = []"
    using cases
  proof cases
    case stop
    obtain it' where w: "next_sibling (d_sym d) (it, r) = (Err TP_ERR_EOF, it', r)" using no_sibling[OF fr stop(1) ok(1)] by blast
    obtain k where "iter_fuel it = Suc k" using iter_fuel_big[of it] by (cases "iter_fuel it") auto
    then have "?m = (Err TP_ERR_EOF, it', r)" using w by (simp add: sbind_def)
    then show ?thesis unfolding go by simp
  qed (use that in simp)
qed

end
