(* ===== verification/Iterator_Run.thy ===== *)
theory Iterator_Run
  imports Iterator_Trie
begin

text \<open>
  A whole run of the iterator over a subtree: from the first call to the end of the sequence
  (\<open>hands_out\<close>), for a dictionary that was built and opened (\<open>open_file\<close>), from the start and
  after a reset.
\<close>

section \<open>The whole run\<close>

text \<open>An iterator that has not moved yet, below the bytes \<open>p\<close>.\<close>

definition at_start :: "nat \<Rightarrow> tp_dict \<Rightarrow> nat \<times> nat \<times> nat \<Rightarrow> u8 list \<Rightarrow> tp_iterator \<Rightarrow> bool" where
  "at_start heap d ro p it \<longleftrightarrow> it_ok heap it \<and> it_dict it = d \<and> \<not> it_started it \<and> \<not> it_done it \<and> it_stack_top it = -1 \<and>
     256 \<le> it_key_buf_cap it \<and> (it_root_pos it, it_root_end it, it_root_key_len it) = ro \<and>
     it_root_key_len it = length p \<and> take (length p) (it_key_buf it) = p \<and>
     it_value_pos it = d_value_start d \<and> it_value_index it = 0"

definition whole :: "tp_dict \<Rightarrow> nat \<times> nat \<times> nat" where
  "whole d = (d_trie_start d, d_value_start d, 0)"

lemma at_start_iterate:
  assumes "dict_ok d" and "heap \<le> 1152921504606846976" and "tp_dict_iterate heap d = Ok it"
  shows "at_start heap d (whole d) [] it"
  using assms by (auto simp: at_start_def whole_def tp_dict_iterate_def SIZEOF_ITERATOR_def KEY_BUF_INITIAL_def it_ok_def tp_iter_reset_def split: if_splits)

lemma at_start_reset: "listing heap d al vs (whole d) it es \<Longrightarrow> at_start heap d (whole d) [] (tp_iter_reset it)"
  using iter_reset_ok[of heap it] by (auto simp: listing_def iterating_def at_start_def whole_def tp_iter_reset_def)

text \<open>The subtree that \<open>ro\<close> bounds is \<open>t\<close>, its first entry has the index \<open>vi\<close>.\<close>

definition holds_trie :: "tp_dict \<Rightarrow> u8 set \<Rightarrow> tp_value list \<Rightarrow> nat \<times> nat \<times> nat \<Rightarrow> u8 list \<Rightarrow> nat \<Rightarrow> trie \<Rightarrow> bool" where
  "holds_trie d al vs ro p vi t \<longleftrightarrow> (case ro of (q, e, n) \<Rightarrow> wf_trie t \<and> chars t \<subseteq> al \<and> depth t \<le> 257 \<and> vi + nterms t < 4294967296 \<and>
     lies d q (ser (d_sym d) vi t) \<and> e = q + length (ser (d_sym d) vi t) \<and> n = length p) \<and>
     within d vs (numbered vi (map (\<lambda>(k, b). (p @ k, b)) (flat t))) \<and> di_num_keys (d_info d) \<noteq> 0"

lemma next_start:
  assumes sv: "served heap d al vs" and t: "holds_trie d al vs ro p vi t" and it: "at_start heap d ro p it"
  shows "next_is heap d al vs ro (numbered vi (map (\<lambda>(k, b). (p @ k, b)) (flat t))) (tp_iter_next heap it)"
proof -
  have d: "dict_ok d" using it by (auto simp: at_start_def it_ok_def)
  obtain q e where ro: "ro = (q, e, length p)" using t by (auto simp: holds_trie_def split: prod.splits)
  note t = t[unfolded holds_trie_def ro prod.case] and it = it[unfolded at_start_def ro prod.inject]
  let ?it = "it\<lparr>it_started := True, it_pos := it_root_pos it, it_key_len := it_root_key_len it\<rparr>"
  let ?fuel = "d_len d * 8 + 2" let ?es = "numbered vi (map (\<lambda>(k, b). (p @ k, b)) (flat t))"
  have "SIZEOF_READER \<le> heap" using sv by (simp add: served_def)
  then obtain r where cr: "tp_bs_reader_create heap (d_buf d) (wrap64 (d_len d * 8)) = Ok r" by (simp add: tp_bs_reader_create_def)
  have r: "of_dict d r" by (rule dict_of_reader[OF d cr])
  let ?m = "iter_loop (iter_fuel ?it) ?fuel heap (d_sym d) (Some (it_root_end it)) (?it, r)"
  have go: "tp_iter_next heap it = (case ?m of
      (Ok v, it2, _) \<Rightarrow> (Ok (take (it_key_len it2) (it_key_buf it2), it_key_len it2, v), it2)
    | (Err e, it2, _) \<Rightarrow> (Err e, it2\<lparr>it_done := True\<rparr>)
    | (Fault, it2, _) \<Rightarrow> (Fault, it2)
    | (Diverge, it2, _) \<Rightarrow> (Diverge, it2))"
    using it t cr by (simp add: tp_iter_next_def Let_def)
  have "it_ok heap ?it" using it d by (simp add: it_ok_def)
  moreover have "di_has_values (d_info d) \<Longrightarrow> values_at d vs (d_value_start d) 0" using sv by (simp add: served_def)
  ultimately have iv: "iterating heap d al vs ro ?it []" using it by (simp add: iterating_def waiting_def cursor_at_def ro)
  have at: "ready_at d al ?it [] p vi t (it_root_end it)" using t it by (simp add: ready_at_def)
  have es: "?es = ?es @ pending []" by simp
  have wi: "within d vs ?es" and "depth t \<le> 257" using t by simp_all
  obtain n where n: "iter_fuel ?it = Suc n" "depth t \<le> Suc n"
    using iter_fuel_big[of ?it] \<open>depth t \<le> 257\<close> by (cases "iter_fuel ?it") auto
  have fuel: "8 * d_len d + 1 < ?fuel" by simp
  have "emits heap d al vs ro ?es (iter_loop (Suc n) ?fuel heap (d_sym d) (Some (it_root_end it)) (?it, r))"
    by (rule node_loop[OF sv iv r at es wi fuel _ _ _ n(2)])
      (use it sibling_loop[OF sv fuel, where us = "[]"] in \<open>simp_all add: all_used_def del: iter_loop.simps\<close>)
  then show ?thesis unfolding go n(1) using wi by (rule emits_next_is)
qed

definition tells :: "tp_value list \<Rightarrow> u8 list \<times> nat \<times> bool \<Rightarrow> u8 list \<times> nat \<times> tp_value \<Rightarrow> bool" where
  "tells vs e x \<longleftrightarrow> (case e of (k, j) \<Rightarrow> case x of (k', n, v) \<Rightarrow> k' = k \<and> n = length k \<and> value_for vs j v)"

lemma next_isE:
  assumes "next_is heap d al vs ro (e # es) m"
  obtains x it where "m = (Ok x, it)" "tells vs e x" "listing heap d al vs ro it es"
  using assms by (auto simp: next_is_def tells_def)

lemma read_listing:
  assumes sv: "served heap d al vs" and n: "di_num_keys (d_info d) \<noteq> 0"
  shows "listing heap d al vs ro it es \<Longrightarrow>
    \<exists>xs it'. read_seq (length es) (tp_iter_next heap) it = (Ok xs, it') \<and> list_all2 (tells vs) es xs \<and> listing heap d al vs ro it' []"
proof (induction es arbitrary: it)
  case (Cons e es)
  obtain x it1 where x: "tp_iter_next heap it = (Ok x, it1)" "tells vs e x" "listing heap d al vs ro it1 es"
    using next_isE[OF next_listing(1)[OF sv n Cons.prems]] by blast
  from Cons.IH[OF x(3)] show ?case using x(1,2) by (auto simp: sbind_def)
qed simp

lemma read_all:
  assumes sv: "served heap d al vs" and t: "holds_trie d al vs ro p vi t" and it: "at_start heap d ro p it"
  shows "\<exists>xs it'. read_seq (nterms t) (tp_iter_next heap) it = (Ok xs, it') \<and>
    list_all2 (tells vs) (numbered vi (map (\<lambda>(k, b). (p @ k, b)) (flat t))) xs \<and>
    fst (tp_iter_next heap it') = Err TP_ERR_EOF \<and> listing heap d al vs ro it' []"
proof -
  have n: "di_num_keys (d_info d) \<noteq> 0" and wf: "wf_trie t" using t by (auto simp: holds_trie_def split: prod.splits)
  let ?es = "numbered vi (map (\<lambda>(k, b). (p @ k, b)) (flat t))"
  obtain e es where es: "?es = e # es" using wf_flat_nonempty[OF wf] by (cases ?es) auto
  have nt: "nterms t = Suc (length es)" using length_numbered[of vi "map (\<lambda>(k, b). (p @ k, b)) (flat t)"] by (simp add: nterms_flat es)
  obtain x it1 where x: "tp_iter_next heap it = (Ok x, it1)" "tells vs e x" "listing heap d al vs ro it1 es"
    using next_isE[OF next_start[OF sv t it, unfolded es]] by blast
  obtain xs it2 where xs: "read_seq (length es) (tp_iter_next heap) it1 = (Ok xs, it2)" "list_all2 (tells vs) es xs" "listing heap d al vs ro it2 []"
    using read_listing[OF sv n x(3)] by blast
  have "read_seq (nterms t) (tp_iter_next heap) it = (Ok (x # xs), it2)" using x(1) xs(1) by (simp add: nt sbind_def)
  then show ?thesis using x(2) xs(2) next_listing(2)[OF sv n xs(3)] xs(3) by (auto simp: es)
qed


text \<open>A built and opened file is such a dictionary.\<close>

lemma opened_holds:
  assumes r: "ready enc" and f: "file_layout enc hv buf len" and o: "opened enc hv buf len d" and h: "SIZEOF_READER \<le> heap"
    and hv: "hv = any_value enc" and ne: "en_entries enc \<noteq> []" and short: "\<forall>e \<in> set (en_entries enc). length (entry_key e) \<le> 256"
  defines "al \<equiv> alphabet (en_entries enc)" and "vs \<equiv> map e_val (en_entries enc)" and "t \<equiv> trie_of (rest hv 0 (en_entries enc))"
  shows "served heap d al vs" and "holds_trie d al vs (whole d) [] 0 t" and "flat t = rest hv 0 (en_entries enc)"
proof -
  let ?es = "en_entries enc"
  have ks: "keys_sorted ?es" and can: "canonical al (en_sym enc)" and sto: "\<forall>v \<in> set vs. storable v"
    and cnt: "en_count enc = length ?es" "length ?es < 4294967296"
    using r by (auto simp: ready_def enc_ok_def al_def vs_def)
  have d: "dict_ok d" "d_buf d = Some buf" "d_len d = len" "di_num_keys (d_info d) = en_count enc" "di_has_values (d_info d) = hv"
    "d_sym d = parsed al (en_sym enc)" using o by (simp_all add: opened_def al_def)
  obtain rd where cr: "tp_bs_reader_create heap (d_buf d) (wrap64 (d_len d * 8)) = Ok rd" using h by (simp add: tp_bs_reader_create_def)
  have od: "of_dict d rd" by (rule dict_of_reader[OF d(1) cr])
  have rd: "reader_ok rd" "r_bytes rd = buf" "r_bit_len rd = 8 * len" using od d(2,3) by (auto simp: of_dict_def r_bytes_def)
  note os = opened_streams[OF r f o]
  have seek: "of_dict d (rd\<lparr>r_pos := q\<rparr>)" "reader_ok (rd\<lparr>r_pos := q\<rparr>)" "r_bytes (rd\<lparr>r_pos := q\<rparr>) = buf" "r_bit_len (rd\<lparr>r_pos := q\<rparr>) = 8 * len"
    if "q \<le> 8 * len" for q using of_dict_seek(2)[OF od, of q] that rd d(3) by (simp_all add: of_dict_def r_bytes_def)
  have le: "d_trie_start d \<le> 8 * len" "d_value_start d \<le> 8 * len" using os(3,4)[OF rd] .
  have lt: "lies d (d_trie_start d) (trie_bits (d_sym d) hv ?es)"
    using os(1)[OF seek(2-4)[OF le(1)]] lies_starts[OF seek(1)[OF le(1)]] by simp
  have lv: "lies d (d_value_start d) (values_bits hv (d_value_start d) ?es)"
    using os(2)[OF seek(2-4)[OF le(2)]] lies_starts[OF seek(1)[OF le(2)]] by simp
  have tb: "trie_bits (d_sym d) hv ?es = ser (d_sym d) 0 t" using ne by (simp add: trie_bits_def t_def)
  note kt = keys_trie[OF ks]
  show fl: "flat t = rest hv 0 ?es" using kt(4) by (simp add: t_def)
  have "symbols_ok al (d_sym d)" using parsed_ok[OF can] d(6) by simp
  then show "served heap d al vs" using h sto cnt lv d(5)
    by (cases hv) (simp_all add: served_def values_at_def values_bits_def vs_def)
  have wi: "within d vs (numbered 0 (flat t))"
  proof -
    have "length k \<le> 256 \<and> j < i + length xs \<and> (b \<longrightarrow> hv)"
      if "(k, j, b) \<in> set (numbered i (rest hv 0 xs))" "\<forall>e \<in> set xs. length (entry_key e) \<le> 256" for k j b i xs
      using that
    proof (induction xs arbitrary: i)
      case (Cons x xs)
      from Cons.prems Cons.IH[of "Suc i"] show ?case by (auto simp: rest_def has_value_def)
    qed (simp add: rest_def)
    from this[of _ _ _ 0 ?es] show ?thesis using short d(5) unfolding within_def fl by (auto simp: vs_def)
  qed
  have "depth t \<le> Suc 256" unfolding t_def
    by (rule depth_trie_of) (use keys_range_ok[OF ks, of hv] short in \<open>auto simp: range_ok_def rest_def\<close>)
  then show "holds_trie d al vs (whole d) [] 0 t"
    using kt(2,5) ne cnt lt tb os(5)[OF rd] wi chars_trie[OF ks ne, of hv] d(4)
    by (simp add: holds_trie_def whole_def t_def al_def)
qed


lemma numbered_entries:
  "(k, j, b) \<in> set (numbered i (rest hv 0 es)) \<Longrightarrow> \<exists>m < length es. j = i + m \<and> k = entry_key (es ! m) \<and> b = has_value hv (es ! m)"
proof (induction es arbitrary: i)
  case (Cons e es)
  show ?case
  proof (cases "(k, j, b) = (entry_key e, i, has_value hv e)")
    case True
    then show ?thesis by (intro exI[of _ 0]) simp
  next
    case False
    then have "(k, j, b) \<in> set (numbered (Suc i) (rest hv 0 es))" using Cons.prems by (auto simp: rest_def)
    from Cons.IH[OF this] obtain m where "m < length es" "j = Suc i + m" "k = entry_key (es ! m)" "b = has_value hv (es ! m)" by blast
    then show ?thesis by (intro exI[of _ "Suc m"]) simp
  qed
qed (simp add: rest_def)

text \<open>Keys in order, each with its value in the map.\<close>

definition lists :: "(u8 list \<rightharpoonup> tp_value) \<Rightarrow> u8 list set \<Rightarrow> (u8 list \<times> nat \<times> tp_value) list \<Rightarrow> bool" where
  "lists kv ks xs \<longleftrightarrow> map fst xs = sorted_list_of_set ks \<and> (\<forall>(k, n, v) \<in> set xs. n = length k \<and> value_agree (the (kv k)) v)"

text \<open>As many calls as there are keys hand them out; the next reports the end.\<close>

definition hands_out :: "nat \<Rightarrow> (u8 list \<rightharpoonup> tp_value) \<Rightarrow> u8 list set \<Rightarrow> tp_iterator \<Rightarrow> tp_iterator \<Rightarrow> bool" where
  "hands_out heap kv ks it it' \<longleftrightarrow> (\<exists>xs. read_seq (card ks) (tp_iter_next heap) it = (Ok xs, it') \<and> lists kv ks xs \<and>
     fst (tp_iter_next heap it') = Err TP_ERR_EOF)"

lemma hands_out_nothing: "fst (tp_iter_next heap it) = Err TP_ERR_EOF \<Longrightarrow> hands_out heap kv {} it it"
  by (simp add: hands_out_def lists_def)

lemma list_all2_fst: "list_all2 R es xs \<Longrightarrow> (\<And>e x. R e x \<Longrightarrow> fst x = f e) \<Longrightarrow> map fst xs = map f es"
  by (induction rule: list_all2_induct) simp_all

lemma list_all2_source: "list_all2 R es xs \<Longrightarrow> x \<in> set xs \<Longrightarrow> \<exists>e \<in> set es. R e x"
  by (induction rule: list_all2_induct) auto

definition known :: "(u8 list \<rightharpoonup> tp_value) \<Rightarrow> tp_value list \<Rightarrow> (u8 list \<times> nat \<times> bool) list \<Rightarrow> bool" where
  "known kv vs es \<longleftrightarrow> sorted_wrt (<) (map fst es) \<and> (\<forall>(k, j, b) \<in> set es. kv k = Some (vs ! j) \<and> (\<not> b \<longrightarrow> vs ! j = TP_NULL))"

lemma known_filter: "known kv vs es \<Longrightarrow> known kv vs (filter P es)"
  using sorted_wrt_filter[of "\<lambda>x y. fst x < fst y" es P] by (auto simp: known_def sorted_wrt_map)

lemma tells_lists:
  assumes k: "known kv vs es" and l: "list_all2 (tells vs) es xs"
  shows "lists kv (fst ` set es) xs" and "card (fst ` set es) = length es"
proof -
  have so: "sorted (map fst es)" "distinct (map fst es)" using k by (simp_all add: known_def strict_sorted_iff)
  show "card (fst ` set es) = length es" using distinct_card[OF so(2)] by simp
  have m: "map fst xs = map fst es" by (rule list_all2_fst[OF l]) (auto simp: tells_def)
  have "sorted_list_of_set (fst ` set es) = map fst es" using sorted_list_of_set.idem_if_sorted_distinct[OF so] by simp
  moreover have "n = length k \<and> value_agree (the (kv k)) v" if kn: "(k, n, v) \<in> set xs" for k n v
  proof -
    obtain e where e: "e \<in> set es" "tells vs e (k, n, v)" using list_all2_source[OF l kn] by blast
    obtain k' j b where e': "e = (k', j, b)" by (metis prod_cases3)
    have "kv k' = Some (vs ! j)" "\<not> b \<Longrightarrow> vs ! j = TP_NULL" using k e(1) by (auto simp: known_def e')
    then show ?thesis using e(2) by (auto simp: tells_def value_for_def e' split: if_splits)
  qed
  ultimately show "lists kv (fst ` set es) xs" using m by (auto simp: lists_def)
qed

lemma run_hands_out:
  assumes "served heap d al vs" and "holds_trie d al vs ro p vi t" and "at_start heap d ro p it"
    and "known kv vs (numbered vi (map (\<lambda>(k, b). (p @ k, b)) (flat t)))"
  shows "\<exists>it'. hands_out heap kv ((@) p ` fst ` set (flat t)) it it' \<and> listing heap d al vs ro it' []"
proof -
  let ?es = "numbered vi (map (\<lambda>(k, b). (p @ k, b)) (flat t))"
  obtain xs it' where x: "read_seq (nterms t) (tp_iter_next heap) it = (Ok xs, it')" "list_all2 (tells vs) ?es xs"
    "fst (tp_iter_next heap it') = Err TP_ERR_EOF" "listing heap d al vs ro it' []" using read_all[OF assms(1-3)] by blast
  have ks: "fst ` set ?es = (@) p ` fst ` set (flat t)" unfolding numbered_fst by force
  show ?thesis using x tells_lists[OF assms(4) x(2)] unfolding ks by (auto simp: hands_out_def length_numbered nterms_flat)
qed

text \<open>What a build and an opening establish.\<close>

definition open_file :: "nat \<Rightarrow> (u8 list \<rightharpoonup> tp_value) \<Rightarrow> tp_dict \<Rightarrow> u8 set \<Rightarrow> tp_value list \<Rightarrow> trie \<Rightarrow> bool" where
  "open_file heap kv d al vs t \<longleftrightarrow> served heap d al vs \<and> holds_trie d al vs (whole d) [] 0 t \<and> known kv vs (numbered 0 (flat t)) \<and>
     fst ` set (flat t) = dom (kv)"

lemma built_open_file:
  assumes q: "qsort_ok qs" and b: "buildable enc"
    and heap: "SIZEOF_DICT \<le> heap" "heap \<le> 1152921504606846976"
    and built: "tp_encoder_build qs heap enc = (Ok (buf, len), enc2)"
    and o: "dict_open_impl heap (Some buf) len check = Ok d" and short: "\<forall>k \<in> dom (contents enc). length k \<le> 256"
  shows "dict_ok d" and "contents enc = Map.empty \<and> di_num_keys (d_info d) = 0 \<or> (\<exists>al vs t. open_file heap (kept qs enc) d al vs t)"
proof -
  have ok: "enc_ok enc" using b by (simp add: buildable_def)
  let ?hv = "any_value enc2" and ?es = "en_entries enc2"
  have r: "ready enc2" and f: "file_layout enc2 ?hv buf len" and e: "?es = en_entries (dedup_entries (sort_entries qs enc))"
    and od: "opened enc2 ?hv buf len d"
    using build_open[OF q b heap built, of check] o by auto
  show "dict_ok d" using od by (simp add: opened_def)
  have h: "SIZEOF_READER \<le> heap" using heap(1) by (simp add: SIZEOF_DICT_def SIZEOF_READER_def)
  have keys: "entry_key ` set ?es = dom (contents enc)"
    using prepare_ok(4)[OF q ok refl] unfolding e dom_contents[OF ok] by simp
  have ks: "sorted_wrt (<) (map entry_key ?es)" using r by (simp add: ready_def keys_sorted_def)
  show "contents enc = Map.empty \<and> di_num_keys (d_info d) = 0 \<or> (\<exists>al vs t. open_file heap (kept qs enc) d al vs t)"
  proof (cases "?es = []")
    case True
    then have "di_num_keys (d_info d) = 0" using od r by (simp add: opened_def ready_def enc_ok_def)
    moreover have "contents enc = Map.empty" using keys[symmetric] True by simp
    ultimately show ?thesis by simp
  next
    case False
    have sh: "\<forall>e \<in> set ?es. length (entry_key e) \<le> 256" using short by (auto simp: keys[symmetric])
    note oh = opened_holds[OF r f od h refl False sh]
    let ?t = "trie_of (rest ?hv 0 ?es)" and ?vs = "map e_val ?es"
    have "kept qs enc k = Some (?vs ! j) \<and> (\<not> b \<longrightarrow> ?vs ! j = TP_NULL)" if m: "(k, j, b) \<in> set (numbered 0 (rest ?hv 0 ?es))" for k j b
    proof -
      obtain i where i: "i < length ?es" "j = i" "k = entry_key (?es ! i)" "b = has_value ?hv (?es ! i)" using numbered_entries[OF m] by auto
      have x: "?es ! i \<in> set ?es" using i(1) by simp
      have "storable (e_val (?es ! i))" using r x by (simp add: ready_def)
      moreover have "has_value True (?es ! i) \<Longrightarrow> ?hv" using x unfolding any_value_def list_ex_iff by blast
      ultimately have "\<not> b \<Longrightarrow> e_val (?es ! i) = TP_NULL" using null_type[of "e_val (?es ! i)"] i(4) by (auto simp: has_value_def)
      then show ?thesis using kept_entry[OF q ok x[unfolded e]] i by (simp add: e[symmetric])
    qed
    then have "known (kept qs enc) ?vs (numbered 0 (flat ?t))" using ks unfolding known_def map_fst_numbered oh(3) by (auto simp: rest_def comp_def)
    moreover have "fst ` set (flat ?t) = dom (kept qs enc)" unfolding oh(3) dom_kept[OF q ok] keys[symmetric] by (auto simp: rest_def image_image)
    ultimately show ?thesis using oh(1,2) unfolding open_file_def by blast
  qed
qed

lemma iterate_built:
  assumes q: "qsort_ok qs" and b: "buildable enc"
    and heap: "SIZEOF_DICT \<le> heap" "heap \<le> 1152921504606846976"
    and built: "tp_encoder_build qs heap enc = (Ok (buf, len), enc2)"
    and o: "dict_open_impl heap (Some buf) len check = Ok d" and it: "tp_dict_iterate heap d = Ok it"
    and short: "\<forall>k \<in> dom (contents enc). length k \<le> 256"
  shows "\<exists>it' it''. hands_out heap (kept qs enc) (dom (contents enc)) it it' \<and> hands_out heap (kept qs enc) (dom (contents enc)) (tp_iter_reset it') it''"
proof -
  note bo = built_open_file[OF q b heap built o short]
  have dk: "dom (kept qs enc) = dom (contents enc)" using b by (intro dom_kept[OF q]) (simp add: buildable_def)
  have st: "at_start heap d (whole d) [] it" by (rule at_start_iterate[OF bo(1) heap(2) it])
  show ?thesis
  proof (cases "di_num_keys (d_info d) = 0 \<and> contents enc = Map.empty")
    case True
    have "fst (tp_iter_next heap x) = Err TP_ERR_EOF" if "it_dict x = d" for x using that True by (simp add: tp_iter_next_def)
    moreover have "it_dict it = d" "it_dict (tp_iter_reset it) = d" using st by (simp_all add: at_start_def tp_iter_reset_def)
    ultimately have "hands_out heap (kept qs enc) {} it it" "hands_out heap (kept qs enc) {} (tp_iter_reset it) (tp_iter_reset it)"
      by (simp_all add: hands_out_nothing)
    moreover have "dom (contents enc) = {}" using True by simp
    ultimately show ?thesis by auto
  next
    case False
    then obtain al vs t where t: "served heap d al vs" "holds_trie d al vs (whole d) [] 0 t" "known (kept qs enc) vs (numbered 0 (flat t))"
      "fst ` set (flat t) = dom (contents enc)" using bo(2) dk by (auto simp: open_file_def)
    have kn: "known (kept qs enc) vs (numbered 0 (map (\<lambda>(k, b). ([] @ k, b)) (flat t)))" using t(3) by simp
    have K: "(@) [] ` fst ` set (flat t) = dom (contents enc)" using t(4) by simp
    note run = run_hands_out[OF t(1,2) _ kn, unfolded K]
    show ?thesis using run[OF st] run[OF at_start_reset] by blast
  qed
qed

end
