(* ===== verification/Prefix_Trie.thy ===== *)
theory Prefix_Trie
  imports Iterator_Run Prefix
begin

text \<open>
  Prefix search in a built file: the descent stops at the subtree of the keys that start with the
  prefix (\<open>subtrie\<close>) or reports that there is none, so the iterator handed back runs through
  exactly these keys.
\<close>

section \<open>The subtree below a prefix\<close>

fun kid_at :: "u8 \<Rightarrow> nat \<Rightarrow> (u8 \<times> trie) list \<Rightarrow> (nat \<times> trie) option" where
  "kid_at c vi [] = None"
| "kid_at c vi ((a, t) # ks) = (if a = c then Some (vi, t) else kid_at c (vi + nterms t) ks)"

fun subtrie :: "u8 list \<Rightarrow> nat \<Rightarrow> trie \<Rightarrow> (nat \<times> trie) option" where
  "subtrie [] vi t = Some (vi, t)"
| "subtrie (c # k) vi (Node (a # l) tm ks) = (if a = c then subtrie k vi (Node l tm ks) else None)"
| "subtrie (c # k) vi (Node [] tm ks) =
     (case kid_at c (if tm = None then vi else vi + 1) ks of None \<Rightarrow> None | Some (vi', t) \<Rightarrow> subtrie k vi' t)"

definition starts_by :: "u8 list \<Rightarrow> u8 list \<times> 'a \<Rightarrow> bool" where
  "starts_by p e \<longleftrightarrow> take (length p) (fst e) = p"

lemma starts_by_simps [simp]:
  "starts_by [] e" "starts_by (c # p) ([], x) = False" "starts_by (c # p) (a # k, x) \<longleftrightarrow> a = c \<and> starts_by p (k, x)"
  by (auto simp: starts_by_def)

lemma numbered_prefix: "numbered vi (map (\<lambda>(k, b). (p @ k, b)) es) = map (\<lambda>(k, x). (p @ k, x)) (numbered vi es)"
  by (induction vi es rule: numbered.induct) auto

lemma numbered_prefix1: "numbered vi (map (\<lambda>(k, b). (c # k, b)) es) = map (\<lambda>(k, x). (c # k, x)) (numbered vi es)"
  using numbered_prefix[of vi "[c]"] by simp

lemma numbered_longer:
  "map (\<lambda>(k, x). (c # k, x)) (numbered vi (map (\<lambda>(k, b). (p @ k, b)) es)) = numbered vi (map (\<lambda>(k, b). (c # p @ k, b)) es)"
  by (induction vi es rule: numbered.induct) auto

lemma filter_starts_by:
  "filter (starts_by (c # p)) (map (\<lambda>(k, x). (a # k, x)) es) =
    (if a = c then map (\<lambda>(k, x). (a # k, x)) (filter (starts_by p) es) else [])"
  by (induction es) auto

lemma kid_at_None: "c \<notin> fst ` set ks \<Longrightarrow> kid_at c vi ks = None"
  by (induction c vi ks rule: kid_at.induct) auto

lemma kid_at_Some: "kid_at c vi ks = Some (vi', t) \<Longrightarrow> (c, t) \<in> set ks \<and> vi' + nterms t \<le> vi + kids_terms ks"
  by (induction c vi ks rule: kid_at.induct) (auto simp: kids_terms_def split: if_splits)

lemma no_kid_starting: "c \<notin> fst ` set ks \<Longrightarrow> filter (starts_by (c # p)) (numbered vi (kid_keys ks)) = []"
proof -
  assume c: "c \<notin> fst ` set ks"
  have "\<not> starts_by (c # p) e" if e: "e \<in> set (numbered vi (kid_keys ks))" for e
  proof -
    have "fst e \<in> fst ` set (kid_keys ks)" using e numbered_fst[of vi "kid_keys ks"] by blast
    then have "fst e \<noteq> [] \<and> hd (fst e) \<in> fst ` set ks" using kid_keys_hd by fastforce
    then show ?thesis using c by (cases "fst e") (auto simp: starts_by_def)
  qed
  then show ?thesis by (simp add: filter_empty_conv)
qed

lemma kids_starting:
  assumes "distinct (map fst ks)"
  shows "filter (starts_by (c # p)) (numbered vi (kid_keys ks)) =
    (case kid_at c vi ks of None \<Rightarrow> [] | Some (vi', t) \<Rightarrow> map (\<lambda>(k, x). (c # k, x)) (filter (starts_by p) (numbered vi' (flat t))))"
  using assms
proof (induction c vi ks rule: kid_at.induct)
  case (2 c vi a t ks)
  have "filter (starts_by (c # p)) (numbered vi (kid_keys ((a, t) # ks))) =
      filter (starts_by (c # p)) (map (\<lambda>(k, x). (a # k, x)) (numbered vi (flat t))) @ filter (starts_by (c # p)) (numbered (vi + nterms t) (kid_keys ks))"
    by (simp add: numbered_append numbered_prefix1 nterms_flat)
  then show ?case using 2 no_kid_starting[of c ks p "vi + nterms t"]
    by (cases "a = c") (simp_all add: filter_starts_by del: kid_keys_simps)
qed simp

lemma subtrie_entries:
  "wf_trie t \<Longrightarrow> filter (starts_by p) (numbered vi (flat t)) =
    (case subtrie p vi t of None \<Rightarrow> [] | Some (vi', t') \<Rightarrow> numbered vi' (map (\<lambda>(k, b). (p @ k, b)) (flat t')))"
proof (induction p vi t rule: subtrie.induct)
  case (1 vi t)
  then show ?case by simp
next
  case (2 c k vi a l tm ks)
  have "flat (Node (a # l) tm ks) = map (\<lambda>(k, b). (a # k, b)) (flat (Node l tm ks))"
    by (cases tm) (simp_all add: flat_Node comp_def split_def del: flat.simps)
  then show ?case using 2 by (auto simp: numbered_prefix1 numbered_longer filter_starts_by simp del: flat.simps split: option.splits)
next
  case (3 c k vi tm ks)
  let ?vi = "if tm = None then vi else vi + 1"
  have d: "distinct (map fst ks)" using 3 by simp
  have "filter (starts_by (c # k)) (numbered vi (flat (Node [] tm ks))) = filter (starts_by (c # k)) (numbered ?vi (kid_keys ks))"
    by (cases tm) (simp_all add: flat_Node del: flat.simps)
  also have "\<dots> = (case kid_at c ?vi ks of None \<Rightarrow> [] | Some (vi', t) \<Rightarrow> map (\<lambda>(k, x). (c # k, x)) (filter (starts_by k) (numbered vi' (flat t))))"
    by (rule kids_starting[OF d])
  finally have e: "filter (starts_by (c # k)) (numbered vi (flat (Node [] tm ks))) =
    (case kid_at c ?vi ks of None \<Rightarrow> [] | Some (vi', t) \<Rightarrow> map (\<lambda>(k, x). (c # k, x)) (filter (starts_by k) (numbered vi' (flat t))))" .
  show ?case
  proof (cases "kid_at c ?vi ks")
    case (Some x)
    obtain vi' t where x: "x = (vi', t)" by force
    have "wf_trie t" using 3(2) kid_at_Some[of c ?vi ks vi' t] Some x by auto
    then have "filter (starts_by k) (numbered vi' (flat t)) =
        (case subtrie k vi' t of None \<Rightarrow> [] | Some (vi', t') \<Rightarrow> numbered vi' (map (\<lambda>(k', b). (k @ k', b)) (flat t')))"
      using 3(1)[OF Some x[symmetric]] by simp
    then show ?thesis unfolding e Some x
      by (cases "subtrie k vi' t") (simp_all add: Some x numbered_longer del: flat.simps split: prod.splits)
  qed (simp add: e del: flat.simps)
qed

lemma subtrie_parts:
  "subtrie p vi t = Some (vi', t') \<Longrightarrow> wf_trie t \<Longrightarrow>
    wf_trie t' \<and> chars t' \<subseteq> chars t \<and> depth t' \<le> depth t \<and> vi' + nterms t' \<le> vi + nterms t"
proof (induction p vi t rule: subtrie.induct)
  case (2 c k vi a l tm ks)
  then show ?case by (auto split: if_splits)
next
  case (3 c k vi tm ks)
  let ?vi = "if tm = None then vi else vi + 1"
  obtain vi1 t1 where k: "kid_at c ?vi ks = Some (vi1, t1)" "subtrie k vi1 t1 = Some (vi', t')" using 3(2) by (auto split: option.splits)
  note m = kid_at_Some[OF k(1)]
  have wf: "wf_trie t1" using 3(3) m by auto
  have "chars t1 \<subseteq> chars (Node [] tm ks)" using m by force
  moreover have "depth t1 \<le> depth (Node [] tm ks)"
    using fold_max_le[of "map (\<lambda>(c, t). depth t) ks" 0 "fold max (map (\<lambda>(c, t). depth t) ks) 0"] m by force
  moreover have "vi1 + nterms t1 \<le> vi + nterms (Node [] tm ks)" using m by (cases tm) (simp_all add: kids_terms_def)
  ultimately show ?case using 3(1)[OF k(1) refl k(2) wf] by (meson order_trans)
qed simp


section \<open>The child with a byte\<close>

lemma peek_at:
  assumes "tp_bs_peek_bits n r = (Ok x, r)" and "of_dict d r"
  shows "tp_bs_read_bits_at (d_buf d) (r_pos r) n = Ok x"
  using assms by (auto simp: tp_bs_peek_bits_def of_dict_def split: if_splits)

lemma prefix_child_exact:
  assumes so: "symbols_ok al (d_sym d)" and d: "dict_ok d"
  shows "fst ` set ks \<subseteq> al \<Longrightarrow> of_dict d r \<Longrightarrow> lies d q (ser_kids (d_sym d) vi ks) \<Longrightarrow> e = q + length (ser_kids (d_sym d) vi ks) \<Longrightarrow>
    (case kid_at c vi ks of
       None \<Rightarrow> \<exists>r'. prefix_child (length ks) (d_buf d) (d_sym d) (symbol_code (d_sym d) c) e q r = (Ok None, r') \<and> of_dict d r'
     | Some (vi', t) \<Rightarrow> \<exists>s r'. prefix_child (length ks) (d_buf d) (d_sym d) (symbol_code (d_sym d) c) e q r =
           (Ok (Some (s, s + length (chr_bits (d_sym d) c @ ser (d_sym d) vi' t))), r') \<and> of_dict d r' \<and>
         lies d s (chr_bits (d_sym d) c @ ser (d_sym d) vi' t))"
proof (induction ks arbitrary: r q vi)
  case (Cons x ks)
  obtain a t where x: "x = (a, t)" by force
  let ?si = "d_sym d" let ?bps = "s_bits_per_symbol (d_sym d)" let ?want = "symbol_code (d_sym d) c"
  have al: "a \<in> al" "fst ` set ks \<subseteq> al" using Cons.prems(1) x by auto
  have eq: "symbol_code ?si a = ?want \<longleftrightarrow> a = c" by (rule symbol_code_eq_iff[OF so al(1)])
  have l: "lies d q (ser_kids ?si vi ((a, t) # ks))" and e: "e = q + length (ser_kids ?si vi ((a, t) # ks))"
    using Cons.prems(3,4) x by simp_all
  define r1 where "r1 = r\<lparr>r_pos := q\<rparr>"
  have "q \<le> 8 * d_len d" using l by (simp add: lies_def)
  then have r1: "tp_bs_reader_seek q r = (Ok (), r1)" "of_dict d r1" "r_pos r1 = q" using of_dict_seek[OF Cons.prems(2)] by (simp_all add: r1_def)
  have first: "tp_bs_read_bits_at (d_buf d) s ?bps = Ok (word_of_nat (symbol_code ?si a)) \<and>
      wrap32 (unat (word_of_nat (symbol_code ?si a) :: u64)) = symbol_code ?si a" if s: "lies d s (chr_bits ?si a)" for s
  proof -
    let ?r = "r\<lparr>r_pos := s\<rparr>"
    have r2: "of_dict d ?r" using of_dict_seek(2)[OF Cons.prems(2)] s by (simp add: lies_def)
    have "starts ?r (chr_bits ?si a)" using lies_starts[OF r2] s by simp
    note rc = read_chr[OF so al(1) this]
    show ?thesis using peek_at[OF rc(2) r2] rc(3) by simp
  qed
  show ?case
  proof (cases "ks = []")
    case True
    have s: "lies d q (chr_bits ?si a @ ser ?si vi t)" "e = q + length (chr_bits ?si a @ ser ?si vi t)" using l e True by simp_all
    have "lies d q (chr_bits ?si a)" using s(1) by (simp add: lies_append)
    note f = first[OF this]
    show ?thesis using s f r1(1,2) eq True by (auto simp: x sbind_def)
  next
    case False
    obtain m n where m: "tp_bs_read_bits ?bps r1 = (Ok (word_of_nat (ctrl_code ?si TP_CTRL_SKIP)), adv ?bps r1)"
      "wrap32 (unat (word_of_nat (ctrl_code ?si TP_CTRL_SKIP) :: u64)) = ctrl_code ?si TP_CTRL_SKIP"
      "tp_bs_read_varint_u (adv ?bps r1) = (Ok n, adv m r1)" "unat n = ?bps + length (ser ?si vi t)"
      "lies d (r_pos r1 + m) (chr_bits ?si a @ ser ?si vi t @ ser_kids ?si (vi + nterms t) ks)"
      "length (ser_kids ?si vi ((a, t) # ks)) = m + ?bps + length (ser ?si vi t) + length (ser_kids ?si (vi + nterms t) ks)"
      "of_dict d (adv m r1)"
      using read_child[OF so d r1(2) False, of vi a t] l r1(3) by auto
    let ?s = "q + m" let ?e = "q + m + (?bps + length (ser ?si vi t))"
    have ls: "lies d ?s (chr_bits ?si a @ ser ?si vi t)" "lies d ?e (ser_kids ?si (vi + nterms t) ks)" "lies d ?s (chr_bits ?si a)"
      using m(5) r1(3) by (simp_all add: lies_append add.assoc)
    note f = first[OF ls(3)]
    have "?e \<le> 8 * d_len d" using ls(2) by (simp add: lies_def)
    then have w: "wrap64 ?e = ?e" using d by (simp add: dict_ok_def)
    have step: "prefix_child (Suc (length ks)) (d_buf d) ?si ?want e q r =
      (if a = c then (Ok (Some (?s, ?e)), adv m r1) else prefix_child (length ks) (d_buf d) ?si ?want e ?e (adv m r1))"
      using False r1(1,3) m(1-4) f w eq by (simp add: sbind_def Let_def tp_bs_reader_position_def)
    have e2: "e = ?e + length (ser_kids ?si (vi + nterms t) ks)" using e m(6) by simp
    show ?thesis
    proof (cases "a = c")
      case True
      then show ?thesis using step ls(1) m(7) by (simp add: x del: prefix_child.simps)
    next
      case False
      then have step': "prefix_child (length (x # ks)) (d_buf d) ?si ?want e q r = prefix_child (length ks) (d_buf d) ?si ?want e ?e (adv m r1)"
        and kid: "kid_at c vi (x # ks) = kid_at c (vi + nterms t) ks"
        using step by (simp_all add: x del: prefix_child.simps)
      show ?thesis unfolding step' kid by (rule Cons.IH[OF al(2) m(7) ls(2) e2])
    qed
  qed
qed simp

section \<open>The descent\<close>

lemma ser_pos: "symbols_ok al si \<Longrightarrow> wf_trie t \<Longrightarrow> 0 < length (ser si vi t)"
proof -
  assume so: "symbols_ok al si" and wf: "wf_trie t"
  obtain l tm ks where t: "t = Node l tm ks" by (cases t)
  have bps: "0 < s_bits_per_symbol si" using symbols_okD(1)[OF so] by simp
  then have "length (ctl_bits si x) \<noteq> 0" for x by simp
  then have "ctl_bits si x \<noteq> []" for x by (metis list.size(3))
  then show ?thesis using wf bps by (cases tm; cases ks) (auto simp: t term_bits_def split: bool.splits)
qed

text \<open>A byte of the label.\<close>

lemma symbol_literal:
  assumes so: "symbols_ok al (d_sym d)" and a: "a \<in> al" and r: "of_dict d r" and l: "lies d (r_pos r) (chr_bits (d_sym d) a)"
  shows "prefix_symbol_at (d_sym d) e r = (Ok (Literal a), adv (s_bits_per_symbol (d_sym d)) r)"
proof -
  let ?si = "d_sym d" let ?code = "symbol_code (d_sym d) a"
  have st: "starts r (chr_bits ?si a)" using l lies_starts[OF r] by simp
  have code: "?code < 2 ^ s_bits_per_symbol ?si" by (rule symbols_okD(4)[OF so a])
  note rd = read_code[OF symbols_okD(1,2)[OF so] code st[unfolded chr_bits_def]]
  have "(2 :: nat) ^ s_bits_per_symbol ?si \<le> 2 ^ 8" using symbols_okD(2)[OF so] by (intro power_increasing) simp_all
  then have lt: "?code < 256" using code by simp
  have nc: "?code \<noteq> ctrl_code ?si TP_CTRL_END" "?code \<noteq> ctrl_code ?si TP_CTRL_END_VAL" "?code \<noteq> ctrl_code ?si TP_CTRL_BRANCH"
    "\<not> is_ctrl ?si ?code" using symbol_code_not_ctrl[OF so a] symbols_okD(5)[OF so a] by (simp_all add: ctrl_defs)
  show ?thesis using nc lt rd(1,3) symbols_okD(7)[OF so a] by (simp add: prefix_symbol_at_def sbind_def Let_def)
qed

text \<open>The end of the label: behind the terminal, if there is one, the children or nothing.\<close>

lemma symbol_branch:
  assumes so: "symbols_ok al (d_sym d)" and r: "of_dict d r" and l: "lies d (r_pos r) (term_bits (d_sym d) vi tm @ kids_bits (d_sym d) vi' ks)"
    and e: "e = r_pos r + length (term_bits (d_sym d) vi tm @ kids_bits (d_sym d) vi' ks)" and wf: "tm = None \<Longrightarrow> ks \<noteq> []"
  shows "if ks = [] then \<exists>r'. prefix_symbol_at (d_sym d) e r = (Err TP_ERR_NOT_FOUND, r')
    else \<exists>m q. prefix_symbol_at (d_sym d) e r = (Ok At_branch, adv m r) \<and>
      tp_bs_read_varint_u (adv m r) = (Ok (word_of_nat (length ks)), adv q r) \<and> of_dict d (adv q r) \<and>
      lies d (r_pos r + q) (ser_kids (d_sym d) vi' ks) \<and> e = r_pos r + q + length (ser_kids (d_sym d) vi' ks)"
proof (cases tm)
  case None
  have ks: "ks \<noteq> []" using wf None by simp
  have l: "lies d (r_pos r) (kids_bits (d_sym d) vi' ks)" using l None by (simp add: term_bits_def)
  obtain q where q: "tp_bs_read_bits (s_bits_per_symbol (d_sym d)) r = (Ok (word_of_nat (ctrl_code (d_sym d) TP_CTRL_BRANCH)), adv (s_bits_per_symbol (d_sym d)) r)"
    "wrap32 (unat (word_of_nat (ctrl_code (d_sym d) TP_CTRL_BRANCH) :: u64)) = ctrl_code (d_sym d) TP_CTRL_BRANCH"
    "tp_bs_read_varint_u (adv (s_bits_per_symbol (d_sym d)) r) = (Ok (word_of_nat (length ks)), adv q r)" "of_dict d (adv q r)"
    "lies d (r_pos r + q) (ser_kids (d_sym d) vi' ks)" "length (kids_bits (d_sym d) vi' ks) = q + length (ser_kids (d_sym d) vi' ks)"
    using read_branch[OF so r ks l] by blast
  have nc: "ctrl_code (d_sym d) TP_CTRL_BRANCH \<noteq> ctrl_code (d_sym d) TP_CTRL_END" "ctrl_code (d_sym d) TP_CTRL_BRANCH \<noteq> ctrl_code (d_sym d) TP_CTRL_END_VAL"
    using ctrl_code_inj[OF so] by (simp_all add: ctrl_defs)
  have "prefix_symbol_at (d_sym d) e r = (Ok At_branch, adv (s_bits_per_symbol (d_sym d)) r)"
    using q(1,2) nc by (simp add: prefix_symbol_at_def sbind_def Let_def)
  then show ?thesis using ks q(3-6) e None by (auto simp: term_bits_def)
next
  case (Some b)
  let ?si = "d_sym d" let ?bps = "s_bits_per_symbol (d_sym d)" let ?t = "term_bits (d_sym d) vi (Some b)"
  let ?code = "ctrl_code ?si (if b then TP_CTRL_END_VAL else TP_CTRL_END)"
  have lt: "lies d (r_pos r) ?t" and lk: "lies d (r_pos r + length ?t) (kids_bits ?si vi' ks)" using l Some by (simp_all add: lies_append)
  have st: "starts r ?t" using lt lies_starts[OF r] by simp
  define r1 where "r1 = adv (length ?t) r"
  have r1: "of_dict d r1" "r_pos r1 = r_pos r + length ?t" using of_dict_adv[OF r lt] by (simp_all add: r1_def)
  have c6: "(if b then TP_CTRL_END_VAL else TP_CTRL_END :: nat) < 6" by (simp add: ctrl_defs)
  have sc: "starts r (code_bits ?si ?code)" using st by (cases b) (simp_all add: term_bits_def ctl_bits_def starts_append)
  note rd = read_code[OF symbols_okD(1,2)[OF so] symbols_okD(3)[OF so c6] sc]
  have inj: "ctrl_code ?si TP_CTRL_END \<noteq> ctrl_code ?si TP_CTRL_END_VAL" using ctrl_code_inj[OF so] by (simp add: ctrl_defs)
  have num: "\<exists>x. (if b then tp_bs_read_varint_u else sret 0) (adv ?bps r) = (Ok x, r1)"
    using read_num[of "adv ?bps r" vi] st by (cases b) (simp_all add: term_bits_def starts_append r1_def)
  have go: "prefix_symbol_at ?si e r = (if r_pos r1 \<ge> e then (Err TP_ERR_NOT_FOUND, r1)
       else sbind (tp_bs_read_bits ?bps) (\<lambda>raw. if wrap32 (unat raw) \<noteq> ctrl_code ?si TP_CTRL_BRANCH then sfail TP_ERR_CORRUPT else sret At_branch) r1)"
    using rd(1,3) num inj by (cases b) (auto simp: prefix_symbol_at_def sbind_def Let_def tp_bs_reader_position_def)
  show ?thesis
  proof (cases "ks = []")
    case True
    then have "e = r_pos r1" using e Some r1(2) by (simp add: kids_bits_def)
    then show ?thesis using go True by simp
  next
    case False
    have lk': "lies d (r_pos r1) (kids_bits ?si vi' ks)" using lk r1(2) by simp
    obtain q where q: "tp_bs_read_bits ?bps r1 = (Ok (word_of_nat (ctrl_code ?si TP_CTRL_BRANCH)), adv ?bps r1)"
      "wrap32 (unat (word_of_nat (ctrl_code ?si TP_CTRL_BRANCH) :: u64)) = ctrl_code ?si TP_CTRL_BRANCH"
      "tp_bs_read_varint_u (adv ?bps r1) = (Ok (word_of_nat (length ks)), adv q r1)" "of_dict d (adv q r1)"
      "lies d (r_pos r1 + q) (ser_kids ?si vi' ks)" "length (kids_bits ?si vi' ks) = q + length (ser_kids ?si vi' ks)"
      using read_branch[OF so r1(1) False lk'] by blast
    have "r_pos r1 < e" using e Some r1(2) q(6) False symbols_okD(1)[OF so] by (simp add: kids_bits_def)
    then have "prefix_symbol_at ?si e r = (Ok At_branch, adv (length ?t + ?bps) r)" using go q(1,2) by (simp add: sbind_def r1_def)
    then have "prefix_symbol_at ?si e r = (Ok At_branch, adv (length ?t + ?bps) r) \<and>
        tp_bs_read_varint_u (adv (length ?t + ?bps) r) = (Ok (word_of_nat (length ks)), adv (length ?t + q) r) \<and>
        of_dict d (adv (length ?t + q) r) \<and> lies d (r_pos r + (length ?t + q)) (ser_kids ?si vi' ks) \<and>
        e = r_pos r + (length ?t + q) + length (ser_kids ?si vi' ks)"
      using q(3-6) e Some by (simp add: r1_def add.assoc)
    then show ?thesis unfolding if_not_P[OF False] by blast
  qed
qed

lemma ser_Node: "ser si vi (Node l tm ks) = concat (map (chr_bits si) l) @ term_bits si vi tm @ kids_bits si (if tm = None then vi else vi + 1) ks"
  by (simp add: kids_bits_def)

lemma descend_exact:
  assumes so: "symbols_ok al (d_sym d)" and d: "dict_ok d"
  shows "wf_trie t \<Longrightarrow> chars t \<subseteq> al \<Longrightarrow> vi + nterms t < 4294967296 \<Longrightarrow> of_dict d r \<Longrightarrow> lies d q (ser (d_sym d) vi t) \<Longrightarrow>
    e = q + length (ser (d_sym d) vi t) \<Longrightarrow> todo pb n m k \<Longrightarrow> 2 * length k < f \<Longrightarrow>
    (case subtrie k vi t of
       None \<Rightarrow> \<exists>r'. descend_loop f (d_buf d) (d_sym d) pb n q e m r = (Err TP_ERR_NOT_FOUND, r')
     | Some (vi', t') \<Rightarrow> \<exists>q' r'. descend_loop f (d_buf d) (d_sym d) pb n q e m r = (Ok (q', q' + length (ser (d_sym d) vi' t')), r') \<and>
         lies d q' (ser (d_sym d) vi' t'))"
proof (induction k vi t arbitrary: r q e m f rule: subtrie.induct)
  case (1 vi t)
  then show ?case by (cases f) (simp_all add: todo_Nil)
next
  case (2 c k vi a l tm ks)
  let ?si = "d_sym d" let ?bps = "s_bits_per_symbol (d_sym d)"
  obtain g where f: "f = Suc g" using "2.prems"(8) by (cases f) auto
  have td: "m < n" "load pb m = Ok c" "todo pb n (m + 1) k" using "2.prems"(7) by (simp_all add: todo_Cons)
  have s: "ser ?si vi (Node (a # l) tm ks) = chr_bits ?si a @ ser ?si vi (Node l tm ks)" by simp
  have l1: "lies d q (chr_bits ?si a)" "lies d (q + ?bps) (ser ?si vi (Node l tm ks))" using "2.prems"(5) unfolding s by (simp_all add: lies_append)
  have e: "e = q + ?bps + length (ser ?si vi (Node l tm ks))" using "2.prems"(6) unfolding s by simp
  have lt: "q < e" using ser_pos[OF so "2.prems"(1), of vi] "2.prems"(6) by simp
  have a: "a \<in> al" using "2.prems"(2) by simp
  define r1 where "r1 = r\<lparr>r_pos := q\<rparr>"
  have "q \<le> 8 * d_len d" using l1 by (simp add: lies_def)
  then have r1: "tp_bs_reader_seek q r = (Ok (), r1)" "of_dict d r1" "r_pos r1 = q" using of_dict_seek[OF "2.prems"(4)] by (simp_all add: r1_def)
  have sy: "prefix_symbol_at ?si e r1 = (Ok (Literal a), adv ?bps r1)" using symbol_literal[OF so a r1(2)] l1(1) r1(3) by simp
  have step: "descend_loop f (d_buf d) ?si pb n q e m r =
      (if a \<noteq> c then (Err TP_ERR_NOT_FOUND, adv ?bps r1) else descend_loop g (d_buf d) ?si pb n (q + ?bps) e (m + 1) (adv ?bps r1))"
    using f td lt r1(1,3) sy by (simp add: sbind_def tp_bs_reader_position_def)
  show ?case
  proof (cases "a = c")
    case True
    have "of_dict d (adv ?bps r1)" using of_dict_adv[OF r1(2), of "chr_bits ?si a"] l1(1) r1(3) by simp
    moreover have "wf_trie (Node l tm ks)" "chars (Node l tm ks) \<subseteq> al" "vi + nterms (Node l tm ks) < 4294967296" "2 * length k < g"
      using "2.prems"(1-3,8) f by simp_all
    ultimately have ih: "case subtrie k vi (Node l tm ks) of
       None \<Rightarrow> \<exists>r'. descend_loop g (d_buf d) ?si pb n (q + ?bps) e (m + 1) (adv ?bps r1) = (Err TP_ERR_NOT_FOUND, r')
     | Some (vi', t') \<Rightarrow> \<exists>q' r'. descend_loop g (d_buf d) ?si pb n (q + ?bps) e (m + 1) (adv ?bps r1) =
         (Ok (q', q' + length (ser ?si vi' t')), r') \<and> lies d q' (ser ?si vi' t')"
      using "2.IH"[OF True _ _ _ _ l1(2) e td(3)] by blast
    have sub: "subtrie (c # k) vi (Node (a # l) tm ks) = subtrie k vi (Node l tm ks)" using True by simp
    have step': "descend_loop f (d_buf d) ?si pb n q e m r = descend_loop g (d_buf d) ?si pb n (q + ?bps) e (m + 1) (adv ?bps r1)"
      unfolding step using True by simp
    show ?thesis unfolding sub step' by (rule ih)
  qed (simp add: step)
next
  case (3 c k vi tm ks)
  let ?si = "d_sym d" let ?bps = "s_bits_per_symbol (d_sym d)" let ?vi = "if tm = None then vi else vi + 1"
  obtain g where f: "f = Suc (Suc g)" using "3.prems"(8) by (cases f; cases "f - 1") auto
  have td: "m < n" "load pb m = Ok c" "todo pb n (m + 1) k" using "3.prems"(7) by (simp_all add: todo_Cons)
  have lt: "q < e" using ser_pos[OF so "3.prems"(1), of vi] "3.prems"(6) by simp
  define r1 where "r1 = r\<lparr>r_pos := q\<rparr>"
  have "q \<le> 8 * d_len d" using "3.prems"(5) by (simp add: lies_def)
  then have r1: "tp_bs_reader_seek q r = (Ok (), r1)" "of_dict d r1" "r_pos r1 = q" using of_dict_seek[OF "3.prems"(4)] by (simp_all add: r1_def)
  have l: "lies d (r_pos r1) (term_bits ?si vi tm @ kids_bits ?si ?vi ks)" "e = r_pos r1 + length (term_bits ?si vi tm @ kids_bits ?si ?vi ks)"
    using "3.prems"(5,6) r1(3) unfolding ser_Node by simp_all
  have wf: "tm = None \<Longrightarrow> ks \<noteq> []" using "3.prems"(1) by simp
  note br = symbol_branch[OF so r1(2) l wf]
  show ?case
  proof (cases "ks = []")
    case True
    then obtain r' where "prefix_symbol_at ?si e r1 = (Err TP_ERR_NOT_FOUND, r')" using br by auto
    then show ?thesis using True f td(1) lt r1(1) by (simp add: sbind_def)
  next
    case False
    obtain x y where b: "prefix_symbol_at ?si e r1 = (Ok At_branch, adv x r1)"
      "tp_bs_read_varint_u (adv x r1) = (Ok (word_of_nat (length ks)), adv y r1)" "of_dict d (adv y r1)"
      "lies d (r_pos r1 + y) (ser_kids ?si ?vi ks)" "e = r_pos r1 + y + length (ser_kids ?si ?vi ks)"
      using br unfolding if_not_P[OF False] by blast
    have "\<forall>(c, t) \<in> set ks. wf_trie t" using "3.prems"(1) by simp
    from length_kids_terms[OF this] have "length ks < 4294967296" using "3.prems"(3) by (simp add: kids_terms_def)
    then have u: "unat (word_of_nat (length ks) :: u64) = length ks" by (simp add: unat_of_nat)
    have al: "fst ` set ks \<subseteq> al" using "3.prems"(2) by force
    note pc = prefix_child_exact[OF so d al b(3,4,5), of c]
    have step: "descend_loop f (d_buf d) ?si pb n q e m r =
        sbind (prefix_child (length ks) (d_buf d) ?si (symbol_code ?si c) e (r_pos r1 + y)) (\<lambda>child.
            case child of None \<Rightarrow> sfail TP_ERR_NOT_FOUND
            | Some (child_start, child_end) \<Rightarrow> descend_loop (Suc g) (d_buf d) ?si pb n child_start child_end m) (adv y r1)"
      unfolding f descend_loop.simps(2)[of "Suc g"] using td lt r1(1) b(1,2) u
      by (simp add: sbind_def tp_bs_reader_position_def del: descend_loop.simps)
    show ?thesis
    proof (cases "kid_at c ?vi ks")
      case None
      then obtain r' where "prefix_child (length ks) (d_buf d) ?si (symbol_code ?si c) e (r_pos r1 + y) (adv y r1) = (Ok None, r')" using pc by auto
      then show ?thesis using step None by (simp add: sbind_def)
    next
      case (Some z)
      obtain vi' t' where z: "z = (vi', t')" by force
      let ?b = "chr_bits ?si c @ ser ?si vi' t'"
      obtain s r' where c: "prefix_child (length ks) (d_buf d) ?si (symbol_code ?si c) e (r_pos r1 + y) (adv y r1) = (Ok (Some (s, s + length ?b)), r')"
        "of_dict d r'" "lies d s ?b" using pc Some z by auto
      note kid = kid_at_Some[OF Some[unfolded z]]
      have k: "wf_trie t'" "chars t' \<subseteq> al" "vi' + nterms t' < 4294967296" "c \<in> al"
        using "3.prems"(1-3) kid by (auto simp: kids_terms_def split: if_splits)
      have l2: "lies d s (chr_bits ?si c)" "lies d (s + ?bps) (ser ?si vi' t')" using c(3) by (simp_all add: lies_append)
      define r2 where "r2 = r'\<lparr>r_pos := s\<rparr>"
      have "s \<le> 8 * d_len d" using l2 by (simp add: lies_def)
      then have r2: "tp_bs_reader_seek s r' = (Ok (), r2)" "of_dict d r2" "r_pos r2 = s" using of_dict_seek[OF c(2)] by (simp_all add: r2_def)
      have sy: "prefix_symbol_at ?si (s + length ?b) r2 = (Ok (Literal c), adv ?bps r2)" using symbol_literal[OF so k(4) r2(2)] l2(1) r2(3) by simp
      have lt2: "0 < ?bps" using symbols_okD(1)[OF so] by simp
      have "descend_loop (Suc g) (d_buf d) ?si pb n s (s + length ?b) m r' = descend_loop g (d_buf d) ?si pb n (s + ?bps) (s + length ?b) (m + 1) (adv ?bps r2)"
        using td lt2 r2(1,3) sy by (simp add: sbind_def tp_bs_reader_position_def)
      then have step2: "descend_loop f (d_buf d) ?si pb n q e m r = descend_loop g (d_buf d) ?si pb n (s + ?bps) (s + length ?b) (m + 1) (adv ?bps r2)"
        using step c(1) by (simp add: sbind_def del: descend_loop.simps)
      have o: "of_dict d (adv ?bps r2)" using of_dict_adv[OF r2(2), of "chr_bits ?si c"] l2(1) r2(3) by simp
      have e2: "s + length ?b = (s + ?bps) + length (ser ?si vi' t')" by simp
      have g: "2 * length k < g" using "3.prems"(8) f by simp
      show ?thesis using "3.IH"[OF Some z[symmetric] k(1-3) o l2(2) e2 td(3) g] unfolding step2 by (simp add: Some z del: descend_loop.simps)
    qed
  qed
qed


section \<open>The search\<close>

definition keys_below :: "(u8 list \<rightharpoonup> tp_value) \<Rightarrow> u8 list \<Rightarrow> u8 list set" where
  "keys_below kv p = {k \<in> dom kv. take (length p) k = p}"

lemma starting_keys:
  assumes "fst ` set (flat t) = dom kv" and "filter (starts_by p) (numbered vi (flat t)) = es"
  shows "fst ` set es = keys_below kv p"
proof -
  have "fst ` set es = {k \<in> fst ` set (numbered vi (flat t)). take (length p) k = p}" using assms(2) by (force simp: starts_by_def)
  then show ?thesis using assms(1) by (simp add: numbered_fst keys_below_def)
qed

lemma at_start_seeded:
  assumes it: "at_start heap d ro [] it" and p: "p = take n pb" "n \<le> length pb" "n \<le> 256"
  shows "\<exists>it'. iter_key_reserve heap n it = (Ok (), it) \<and> seed_iterator pb n q e it = (Ok (), it') \<and> at_start heap d (q, e, n) p it'"
proof -
  have ok: "it_ok heap it" "256 \<le> it_key_buf_cap it" "it_dict it = d" using it by (simp_all add: at_start_def)
  then have len: "length (it_key_buf it) = it_key_buf_cap it" by (simp add: it_ok_def)
  let ?it = "it\<lparr>it_key_buf := take n pb @ drop n (it_key_buf it), it_root_pos := q, it_root_end := e, it_root_key_len := n\<rparr>"
  have "seed_iterator pb n q e it = (Ok (), tp_iter_reset ?it)" using p ok(2) len by (simp add: seed_iterator_def)
  moreover have "it_ok heap ?it" using ok p len by (simp add: it_ok_def)
  then have "it_ok heap (tp_iter_reset ?it)" using iter_reset_ok by blast
  then have "at_start heap d (q, e, n) p (tp_iter_reset ?it)"
    using ok p by (simp add: at_start_def tp_iter_reset_def)
  ultimately show ?thesis using ok(2) p(3) by (simp add: iter_key_reserve_def)
qed

lemma descend_file:
  assumes sv: "served heap d al vs" and t: "holds_trie d al vs (whole d) [] 0 t" and d: "dict_ok d"
    and p: "p = take n pb" "n \<le> length pb"
  shows "case subtrie p 0 t of
      None \<Rightarrow> descend_to_prefix heap d pb n = Err TP_ERR_NOT_FOUND
    | Some (vi, t') \<Rightarrow> \<exists>q. descend_to_prefix heap d pb n = Ok (q, q + length (ser (d_sym d) vi t')) \<and> lies d q (ser (d_sym d) vi t')"
proof -
  have so: "symbols_ok al (d_sym d)" and "SIZEOF_READER \<le> heap" using sv by (simp_all add: served_def)
  then obtain r where cr: "tp_bs_reader_create heap (d_buf d) (wrap64 (d_len d * 8)) = Ok r" by (simp add: tp_bs_reader_create_def)
  have r: "of_dict d r" by (rule dict_of_reader[OF d cr])
  have h: "wf_trie t" "chars t \<subseteq> al" "0 + nterms t < 4294967296" "lies d (d_trie_start d) (ser (d_sym d) 0 t)"
    "d_value_start d = d_trie_start d + length (ser (d_sym d) 0 t)" using t by (simp_all add: holds_trie_def whole_def)
  have td: "todo pb n 0 p" using p by (simp add: todo_def)
  have "2 * length p < prefix_fuel n" using p by (simp add: prefix_fuel_def)
  note de = descend_exact[OF so d h(1-3) r h(4,5) td this]
  show ?thesis using de cr by (auto simp: descend_to_prefix_def split: option.splits)
qed

lemma find_prefix_file:
  assumes o: "open_file heap kv d al vs t" and d: "dict_ok d" and heap: "SIZEOF_ITERATOR \<le> heap" "heap \<le> 1152921504606846976"
    and n: "strlen pb = Some n"
  shows "\<exists>it it'. tp_dict_find_prefix heap d (Some pb) = Ok it \<and> hands_out heap kv (keys_below kv (take n pb)) it it'"
proof -
  have sv: "served heap d al vs" and ht: "holds_trie d al vs (whole d) [] 0 t" and kn: "known kv vs (numbered 0 (flat t))"
    and ks: "fst ` set (flat t) = dom kv" using o by (simp_all add: open_file_def)
  let ?p = "take n pb"
  obtain it0 where it0: "tp_dict_iterate heap d = Ok it0" using iterate_ok[OF d heap(2)] heap(1) by auto
  have st: "at_start heap d (whole d) [] it0" by (rule at_start_iterate[OF d heap(2) it0])
  have le: "n \<le> length pb" using strlen_Some[OF n] by simp
  have nk: "di_num_keys (d_info d) \<noteq> 0" and wf: "wf_trie t" and wi: "within d vs (numbered 0 (flat t))"
    and h: "chars t \<subseteq> al" "depth t \<le> 257" "nterms t < 4294967296"
    using ht by (simp_all add: holds_trie_def whole_def)
  note sub = subtrie_entries[OF wf, of ?p 0]
  note below = starting_keys[OF ks sub]
  show ?thesis
  proof (cases "n = 0")
    case True
    have kn': "known kv vs (numbered 0 (map (\<lambda>(k, b). ([] @ k, b)) (flat t)))" using kn by simp
    have K: "(@) [] ` fst ` set (flat t) = keys_below kv ?p" using ks True by (simp add: keys_below_def)
    show ?thesis using run_hands_out[OF sv ht st kn', unfolded K] it0 n True by (auto simp: tp_dict_find_prefix_def)
  next
    case False
    note de = descend_file[OF sv ht d refl le]
    show ?thesis
    proof (cases "subtrie ?p 0 t")
      case None
      then have "tp_dict_find_prefix heap d (Some pb) = Ok (it0\<lparr>it_done := True\<rparr>)"
        using de it0 n False nk by (simp add: tp_dict_find_prefix_def)
      moreover have "fst (tp_iter_next heap (it0\<lparr>it_done := True\<rparr>)) = Err TP_ERR_EOF" by (simp add: tp_iter_next_def)
      moreover have "keys_below kv ?p = {}" using below None by simp
      ultimately show ?thesis using hands_out_nothing by metis
    next
      case (Some x)
      obtain vi t' where x: "x = (vi, t')" by force
      let ?es = "numbered vi (map (\<lambda>(k, b). (?p @ k, b)) (flat t'))" and ?e = "\<lambda>q. q + length (ser (d_sym d) vi t')"
      have es: "filter (starts_by ?p) (numbered 0 (flat t)) = ?es" using sub Some x by simp
      obtain q where q: "descend_to_prefix heap d pb n = Ok (q, ?e q)" "lies d q (ser (d_sym d) vi t')" using de Some x by auto
      have sp: "wf_trie t'" "chars t' \<subseteq> al" "depth t' \<le> 257" "vi + nterms t' < 4294967296"
        using subtrie_parts[OF Some[unfolded x] wf] h by auto
      have wi': "within d vs ?es" using wi unfolding es[symmetric] within_def by auto
      have n256: "n \<le> 256"
      proof -
        obtain k b where "(k, b) \<in> set (flat t')" using wf_flat_nonempty[OF sp(1)] by (cases "flat t'") auto
        then have "?p @ k \<in> fst ` set ?es" unfolding numbered_fst by force
        then obtain x where x: "x \<in> set ?es" "fst x = ?p @ k" by auto
        have "\<forall>e \<in> set ?es. length (fst e) \<le> 256" using wi' unfolding within_def by (simp add: case_prod_beta)
        then have "length (fst x) \<le> 256" using x(1) by blast
        then have "length (?p @ k) \<le> 256" unfolding x(2) .
        then show ?thesis using le by simp
      qed
      obtain it' where s: "iter_key_reserve heap n it0 = (Ok (), it0)" "seed_iterator pb n q (?e q) it0 = (Ok (), it')"
        "at_start heap d (q, ?e q, n) ?p it'" using at_start_seeded[OF st refl le n256] by blast
      have f: "tp_dict_find_prefix heap d (Some pb) = Ok it'"
        using it0 n False nk q(1) s(1,2) by (simp add: tp_dict_find_prefix_def)
      have ht': "holds_trie d al vs (q, ?e q, n) ?p vi t'" using sp q(2) wi' nk le by (simp add: holds_trie_def)
      have kn': "known kv vs ?es" using known_filter[OF kn] unfolding es[symmetric] .
      have K: "(@) ?p ` fst ` set (flat t') = keys_below kv ?p"
      proof -
        have "(@) ?p ` fst ` set (flat t') = fst ` set ?es" unfolding numbered_fst by force
        then show ?thesis using below Some x by simp
      qed
      show ?thesis using run_hands_out[OF sv ht' s(3) kn', unfolded K] f by blast
    qed
  qed
qed

lemma find_prefix_built:
  assumes q: "qsort_ok qs" and b: "buildable enc"
    and heap: "SIZEOF_DICT \<le> heap" "SIZEOF_ITERATOR \<le> heap" "heap \<le> 1152921504606846976"
    and built: "tp_encoder_build qs heap enc = (Ok (buf, len), enc2)"
    and o: "dict_open_impl heap (Some buf) len check = Ok d" and short: "\<forall>k \<in> dom (contents enc). length k \<le> 256"
    and n: "strlen pb = Some n"
  shows "\<exists>it it'. tp_dict_find_prefix heap d (Some pb) = Ok it \<and> hands_out heap (kept qs enc) (keys_below (kept qs enc) (take n pb)) it it'"
proof -
  note bo = built_open_file[OF q b heap(1,3) built o short]
  show ?thesis
  proof (cases "contents enc = Map.empty \<and> di_num_keys (d_info d) = 0")
    case True
    obtain it where it: "tp_dict_iterate heap d = Ok it" using iterate_ok[OF bo(1) heap(3)] heap(2) by auto
    have "it_dict it = d" using at_start_iterate[OF bo(1) heap(3) it] by (simp add: at_start_def)
    then have "fst (tp_iter_next heap it) = Err TP_ERR_EOF" using True by (simp add: tp_iter_next_def)
    moreover have "keys_below (kept qs enc) (take n pb) = {}"
      using True dom_kept[OF q, of enc] b by (simp add: keys_below_def buildable_def)
    moreover have "tp_dict_find_prefix heap d (Some pb) = Ok it" using it n True by (simp add: tp_dict_find_prefix_def)
    ultimately show ?thesis using hands_out_nothing by metis
  next
    case False
    then obtain al vs t where "open_file heap (kept qs enc) d al vs t" using bo(2) by blast
    from find_prefix_file[OF this bo(1) heap(2,3) n] show ?thesis .
  qed
qed

end
