(* ===== verification/Spec2Isabelle.thy ===== *)
theory Spec2Isabelle
  imports Samples Symbol_Utf8 Bitvec_Index Tails Json_Client Json_Samples Terseml_Back Prefix_Trie
begin

text \<open>
  This library models the C implementation of triepack, a compact serialised dictionary from byte strings
  to tagged values, with the JSON layer above it, the index structures of the second format version, and the terse
  ML text format that lives in the same repository. The definitions are translated function by function from
  the source under \<open>src/\<close> and keep its names; the theorems of this theory, C1 to C40, state what
  the program does, and the other theories hold the definitions and the lemmas behind them.

  \<^bold>\<open>The program\<close>

  A client adds keys and values to an \<^emph>\<open>encoder\<close>, which keeps owned copies in a growing array. \<open>tp_encoder_build\<close> sorts and
  deduplicates the entries, collects the alphabet of key bytes, writes a bit stream with a symbol table, a trie in
  prefix order and a value store, and wraps it in a block of bytes with a header and a CRC-32. \<open>tp_dict_open\<close> checks such a
  block, which may come from anywhere, and the \<^emph>\<open>dictionary\<close> it returns answers lookups by walking the trie bits, iterates
  over the entries, and searches by prefix. The JSON encoder parses a text and adds one entry per leaf,
  under the dotted path from the root; the DOM view and the printer go back. Everything below reads and
  writes through the \<^emph>\<open>bitstream\<close> component, whose reader is a cursor over a block of bytes and whose writer
  grows its buffer.

  \<^bold>\<open>Conventions\<close>

  \<^item> A result is \<open>Ok v\<close>, \<open>Err e\<close> with a code of the C enumeration, \<open>Fault\<close> for an access outside an object or
    an operation C leaves undefined, or \<open>Diverge\<close> for a loop that does not end (\<open>Prelude\<close>). No
    theorem below allows \<open>Fault\<close> or \<open>Diverge\<close> silently: what holds "in any case" says that they do not occur.
  \<^item> \<open>heap\<close> is the size of the largest block \<open>malloc\<close> and \<open>realloc\<close> grant. An allocation of more than that fails, which makes
    every out-of-memory branch of the source a branch of the model. Memory is never released in the model.
  \<^item> C integers whose wrap-around matters are words or are reduced by \<open>wrap32\<close> and \<open>wrap64\<close>; the others are natural
    numbers, and the lemmas that rely on it bound them by \<open>2 ^ 60\<close>. A pointer to bytes is a list, or \<open>None\<close> for NULL.
  \<^item> \<open>qsort\<close>, \<open>strtod\<close> and the number formats of \<open>printf\<close> are parameters: \<open>qsort_ok\<close> says that the result of \<open>qsort\<close> is an
    ordered permutation, and nothing about the order of equal elements, which C leaves open. So of a key that is added
    repeatedly the file keeps some entry: \<open>kept qs enc\<close> is the map of the entries that stay for this \<open>qsort\<close>, \<open>picks\<close> says
    that it holds each added key with a value that was added under it (\<open>Last_Wins\<close> adds that a stable sort would keep the entry added last). \<open>formats\<close> says that a finite number is printed within its buffer as a
    JSON number. \<open>insertion_sort\<close> and \<open>zero_printf\<close> show that these hold of some function.
  \<^item> A loop whose end is not structural takes fuel and returns \<open>Diverge\<close> when it runs out. Fuel is computed from the
    input where the C function starts: \<open>trie_fuel\<close> (longest key), \<open>lookup_fuel\<close> (key length times bits), \<open>iter_fuel\<close> and
    \<open>prefix_fuel\<close> (stack depth and 64-bit counters), \<open>walk_fuel\<close> (\<open>8 * len + 2\<close>), \<open>json_fuel\<close> (\<open>4 * len + 4\<close>), \<open>emit_fuel\<close> (the 4096 bytes of a
    prefix buffer, each level extending the prefix by a byte), \<open>decode_fuel\<close> (\<open>2 * len + 4\<close>), and 66 doublings of a capacity. That each is enough is part of C2 to C4, C11,
    C12, C30, C33 and C36.

  \<^bold>\<open>Theories\<close>

  \<^item> \<open>Prelude\<close>, \<open>Clib\<close>: machine types, the result and state monads, loops; \<open>memcmp\<close>, \<open>memcpy\<close>, \<open>qsort\<close> and growing arrays.
  \<^item> \<open>Common\<close>: \<open>include/triepack/triepack_common.h\<close>, result codes and the tagged value.
  \<^item> \<open>Bitstream\<close>, \<open>Varint\<close>, \<open>Symbol_Utf8\<close>: \<open>src/bitstream/\<close>. \<open>Bitstream_Laws\<close> states what reader and writer promise. \<open>Bit_Codec\<close> holds the
    locales \<open>codec\<close>, \<open>exact_codec\<close> and \<open>strict_codec\<close>: a writer that appends the bits of a value and a reader that takes them
    off again. Fixed-width integers, varints, UTF-8, values and the header interpret them, and C16 to C19 and C20 are
    facts of these interpretations.
  \<^item> \<open>Crc32\<close>, \<open>Header\<close>, \<open>Value\<close>: \<open>src/core/integrity.c\<close>, \<open>header.c\<close>, \<open>value.c\<close>.
  \<^item> \<open>Symbols\<close>, \<open>Encoder\<close>, \<open>Trie_Write\<close>, \<open>Build\<close>: \<open>src/core/encoder.c\<close> up to \<open>tp_encoder_build\<close>. \<open>Trie\<close> is the abstract trie between the sorted
    key list and its bits, and \<open>Last_Wins\<close> says which entry of a key the deduplication keeps.
  \<^item> \<open>Dict\<close>, \<open>Lookup\<close>, \<open>Iterator\<close>, \<open>Prefix\<close>: \<open>src/core/decoder.c\<close>. \<open>Lookup_Trie\<close> relates the walk over the bits to the abstract
    trie, \<open>Reopen\<close> puts encoder and decoder together, \<open>Client\<close> states the map \<open>contents\<close> of the adds and the map
    \<open>kept\<close> that a client of the file sees, \<open>Iterator_Safe\<close> treats
    iteration over bytes from anywhere. In \<open>Iterator_Trie\<close> the frames on the iterator's stack stand for the children still to be visited and
    a call hands out the first key below them, \<open>Iterator_Run\<close> makes a whole run of it, and \<open>Prefix_Trie\<close> finds the subtree of a prefix.
  \<^item> \<open>Bitvec\<close>, \<open>Bitvec_Index\<close>, \<open>Tails\<close>: \<open>src/v2/\<close>, the ranked bit vector with its LOUDS navigation, and the suffix-merged tail pool.
  \<^item> \<open>Json_Encode\<close>, \<open>Json_Dom\<close>, \<open>Json_Print\<close>, \<open>Json_Decode\<close>: \<open>src/json/\<close>. \<open>Json_Text\<close> is the grammar the parser accepts, with the document
    a text denotes and its flattening into paths, written without reference to the parser; \<open>Json_Grammar\<close> is JSON as the standard has it,
    which the printer keeps to, with the locale \<open>coding\<close> for what stands for the characters beyond ASCII (UTF-8 or any bytes); \<open>Json_Scan\<close>, \<open>Json_Parse\<close> and \<open>Json_Safe\<close> relate the parser to it,
    \<open>Json_Print_Laws\<close> and \<open>Json_Decode_Laws\<close> the printer and the decoder, and \<open>Json_Client\<close> states the leaves a client finds again. \<open>Json_Samples\<close> runs the printer on two small inputs.
  \<^item> \<open>Terseml\<close>, \<open>Terseml_Decode\<close>: \<open>terseml/terseml.c\<close>, with trees as values. \<open>Terseml_Text\<close> is the form in which the encoder writes a tree, \<open>Terseml_Read\<close> and
    \<open>Terseml_Laws\<close> give the scanners and the decoder total correctness on any bytes, and \<open>Terseml_Back\<close> reads back what was written.
  \<^item> \<open>Samples\<close>: small objects on which the theorems are applied.

  \<^bold>\<open>What is shown\<close>

  C1 to C9: the encoder is a finite map, a build returns a file or one of the documented errors, and the opened file answers
  lookups in that map, hands out its keys in order, and lists those with a prefix. C4 is about every symbol width and every kind of value;
  C1 to C3, C5 and C6 are about files that read back: values of the scalar kinds and a width that is left to the encoder or holds the
  symbols in at most 8 bits (\<open>buildable\<close>), since the decoder refuses wider ones. Two more limits remain: a proper extension of the
  greatest key is left open in C1, because the lookup does not check the end of the last branch, and C2 and C3 are
  stated for keys of at most 256 bytes, which keeps the stack of the iterator within its 256 frames and its key buffer as it is created.
  C10 to C14: any bytes may be opened, looked up in and iterated over, and a changed byte is detected by the
  checksum. C15: the dry run that computes the skip distances agrees with the writer. C16 to C22: the codecs, their limits and the
  checksum; C22 is the limit C13 sets on the length of a string. C23 to C26: rank, select, LOUDS and tails. C27 to C34: JSON, from the text through the file to the leaves, on
  ungrammatical input, and back to text, which is JSON with its control characters escaped (C33). C35 to C40: terse ML, from trees to bytes and back, on any bytes, and the
  case of two adjacent texts that the format cannot express inline.

  \<^bold>\<open>Not modelled\<close>

  \<^item> Functions that only release memory (\<open>tp_encoder_destroy\<close>, \<open>tp_dict_close\<close>, \<open>tsml_doc_free\<close> and the like): the model has no addresses to
    release. For the same reason a terse ML node that is added under two parents is not shared, and the bytes of a
    borrowed value are the list they point to.
  \<^item> \<open>src/core/suffix.c\<close> holds no code. The C++ wrapper forwards to the functions above. The programs under \<open>tools/\<close> and
    \<open>examples/\<close> print, read files and measure; the bindings for other languages are separate implementations.
  \<^item> What the C library does with a number: \<open>strtod\<close> and \<open>printf\<close> are parameters, so nothing is said about which double a text denotes.
\<close>

section \<open>The library as its client sees it\<close>

text \<open>C1. A dictionary built by the encoder and opened again answers every lookup from a finite map with the keys that
  were added. Each key has a value that was added under it, and the map is that of the adds (C7) when every key was added
  once; of a key added repeatedly the last in the order \<open>qsort\<close> returns stays (C9). A stored key gives its
  value (strings and blobs by content), any other key is not found, save that a proper extension of the
  greatest key is left open.\<close>

theorem dictionary_answers_lookups:
  assumes "qsort_ok qs" and "buildable enc" and "SIZEOF_DICT \<le> heap" and "heap \<le> 1152921504606846976"
    and "tp_encoder_build qs heap enc = (Ok (buf, len), enc2)" and "tp_dict_open heap (Some buf) len = Ok d"
  shows "picks (stored enc) (kept qs enc) \<and> (distinct (map fst (stored enc)) \<longrightarrow> kept qs enc = contents enc) \<and>
    (\<forall>kb n want. n \<le> length kb \<longrightarrow> (case kept qs enc (take n kb) of
      Some v \<Rightarrow> \<exists>v'. tp_dict_lookup_n heap d (Some kb) n True = Ok (Some v') \<and> value_agree v v'
    | None \<Rightarrow> contents enc = Map.empty \<or> \<not> extends (take n kb) (greatest_key enc) \<longrightarrow>
        tp_dict_lookup_n heap d (Some kb) n want = Err TP_ERR_NOT_FOUND))"
proof -
  have ok: "enc_ok enc" using assms(2) by (simp add: buildable_def)
  have o: "dict_open_impl heap (Some buf) len True = Ok d" using assms(6) by (simp add: tp_dict_open_def)
  show ?thesis using kept_picks[OF assms(1) ok] kept_contents[OF assms(1) ok] lookup_built[OF assms(1-5) o] by blast
qed

theorem dictionary_answers_lookups_witness:
  "\<exists>buf len enc2 d v. tp_encoder_build insertion_sort 1000000 sample_encoder = (Ok (buf, len), enc2) \<and>
     tp_dict_open 1000000 (Some buf) len = Ok d \<and>
     tp_dict_lookup_n 1000000 d (Some [97, 0]) 1 True = Ok (Some v) \<and> value_agree (TP_INT 5) v \<and>
     tp_dict_lookup_n 1000000 d (Some [98, 0]) 1 True = Err TP_ERR_NOT_FOUND"
proof -
  obtain buf len enc2 d where s: "tp_encoder_build insertion_sort 1000000 sample_encoder = (Ok (buf, len), enc2)"
    "tp_dict_open 1000000 (Some buf) len = Ok d" using sample_opened by blast
  have h: "SIZEOF_DICT \<le> 1000000" "(1000000 :: nat) \<le> 1152921504606846976" by (simp_all add: SIZEOF_DICT_def)
  note c = dictionary_answers_lookups[OF insertion_sort_ok sample_buildable h s, unfolded sample_kept,
    THEN conjunct2, THEN conjunct2, THEN spec, THEN spec, THEN spec]
  have "greatest_key sample_encoder = [97]" by (simp add: greatest_key_def sample_contents)
  then have "tp_dict_lookup_n 1000000 d (Some [98, 0]) 1 True = Err TP_ERR_NOT_FOUND"
    using c[of 1 "[98, 0]" True] by (auto simp: extends_def)
  moreover obtain v where "tp_dict_lookup_n 1000000 d (Some [97, 0]) 1 True = Ok (Some v)" "value_agree (TP_INT 5) v"
    using c[of 1 "[97, 0]"] by auto
  ultimately show ?thesis using s by blast
qed

text \<open>C2. The iterator over a built file whose keys have at most 256 bytes hands out every key exactly once, in
  lexicographic order, each with a value that was added under it (the one of the lookups in C1), then
  reports the end; after a reset it does so again. Longer keys can nest more branches than the 256 frames of the stack,
  where \<open>tp_iter_next\<close> fails with \<open>TP_ERR_OVERFLOW\<close>.\<close>

theorem iteration_in_order:
  assumes "qsort_ok qs" and "buildable enc" and "SIZEOF_DICT \<le> heap" and "heap \<le> 1152921504606846976"
    and "tp_encoder_build qs heap enc = (Ok (buf, len), enc2)" and "tp_dict_open heap (Some buf) len = Ok d"
    and "tp_dict_iterate heap d = Ok it" and "\<forall>k \<in> dom (contents enc). length k \<le> 256"
  shows "picks (stored enc) (kept qs enc) \<and> (distinct (map fst (stored enc)) \<longrightarrow> kept qs enc = contents enc) \<and>
    (\<exists>it' it''. hands_out heap (kept qs enc) (dom (contents enc)) it it' \<and>
       hands_out heap (kept qs enc) (dom (contents enc)) (tp_iter_reset it') it'')"
proof -
  have ok: "enc_ok enc" using assms(2) by (simp add: buildable_def)
  have o: "dict_open_impl heap (Some buf) len True = Ok d" using assms(6) by (simp add: tp_dict_open_def)
  show ?thesis using kept_picks[OF assms(1) ok] kept_contents[OF assms(1) ok] iterate_built[OF assms(1-5) o assms(7,8)] by blast
qed

theorem iteration_in_order_witness:
  "\<exists>buf len enc2 d it it' it''. tp_encoder_build insertion_sort 1000000 sample_encoder = (Ok (buf, len), enc2) \<and>
     tp_dict_open 1000000 (Some buf) len = Ok d \<and> tp_dict_iterate 1000000 d = Ok it \<and>
     hands_out 1000000 [[97] \<mapsto> TP_INT 5] {[97]} it it' \<and> hands_out 1000000 [[97] \<mapsto> TP_INT 5] {[97]} (tp_iter_reset it') it''"
proof -
  obtain buf len enc2 d where s: "tp_encoder_build insertion_sort 1000000 sample_encoder = (Ok (buf, len), enc2)"
    "tp_dict_open 1000000 (Some buf) len = Ok d" using sample_opened by blast
  have h: "SIZEOF_DICT \<le> 1000000" "(1000000 :: nat) \<le> 1152921504606846976" by (simp_all add: SIZEOF_DICT_def)
  obtain it where it: "tp_dict_iterate 1000000 d = Ok it"
    by (simp add: tp_dict_iterate_def SIZEOF_ITERATOR_def KEY_BUF_INITIAL_def)
  have k: "dom (contents sample_encoder) = {[97]}" "\<forall>k \<in> dom (contents sample_encoder). length k \<le> 256" by (simp_all add: sample_contents)
  show ?thesis using iteration_in_order[OF insertion_sort_ok sample_buildable h s it k(2), unfolded k(1) sample_kept] s it by blast
qed

text \<open>C3. A prefix search in a built file whose keys have at most 256 bytes gives an iterator over exactly the keys that
  start with the prefix, in order and with the values of the lookups in C1, and an iterator at its end when there is none.\<close>

theorem prefix_search_lists_the_keys:
  assumes "qsort_ok qs" and "buildable enc" and "SIZEOF_DICT \<le> heap" and "SIZEOF_ITERATOR \<le> heap" and "heap \<le> 1152921504606846976"
    and "tp_encoder_build qs heap enc = (Ok (buf, len), enc2)" and "tp_dict_open heap (Some buf) len = Ok d"
    and "\<forall>k \<in> dom (contents enc). length k \<le> 256" and "strlen pb = Some n"
  shows "picks (stored enc) (kept qs enc) \<and> (distinct (map fst (stored enc)) \<longrightarrow> kept qs enc = contents enc) \<and>
    (\<exists>it it'. tp_dict_find_prefix heap d (Some pb) = Ok it \<and>
       hands_out heap (kept qs enc) {k \<in> dom (contents enc). take n k = take n pb} it it')"
proof -
  have ok: "enc_ok enc" using assms(2) by (simp add: buildable_def)
  have o: "dict_open_impl heap (Some buf) len True = Ok d" using assms(7) by (simp add: tp_dict_open_def)
  have "length (take n pb) = n" using strlen_Some[OF assms(9)] by simp
  then show ?thesis
    using kept_picks[OF assms(1) ok] kept_contents[OF assms(1) ok] find_prefix_built[OF assms(1-6) o assms(8,9)]
    by (simp add: keys_below_def dom_kept[OF assms(1) ok])
qed

theorem prefix_search_lists_the_keys_witness:
  "\<exists>buf len enc2 d it it' jt jt'. tp_encoder_build insertion_sort 1000000 sample_encoder = (Ok (buf, len), enc2) \<and>
     tp_dict_open 1000000 (Some buf) len = Ok d \<and>
     tp_dict_find_prefix 1000000 d (Some [97, 0]) = Ok it \<and> hands_out 1000000 [[97] \<mapsto> TP_INT 5] {[97]} it it' \<and>
     tp_dict_find_prefix 1000000 d (Some [98, 0]) = Ok jt \<and> hands_out 1000000 [[97] \<mapsto> TP_INT 5] {} jt jt'"
proof -
  obtain buf len enc2 d where s: "tp_encoder_build insertion_sort 1000000 sample_encoder = (Ok (buf, len), enc2)"
    "tp_dict_open 1000000 (Some buf) len = Ok d" using sample_opened by blast
  have h: "SIZEOF_DICT \<le> 1000000" "SIZEOF_ITERATOR \<le> 1000000" "(1000000 :: nat) \<le> 1152921504606846976"
    by (simp_all add: SIZEOF_DICT_def SIZEOF_ITERATOR_def)
  have k: "\<forall>k \<in> dom (contents sample_encoder). length k \<le> 256" by (simp add: sample_contents)
  have l: "strlen [97, 0] = Some 1" "strlen [98, 0] = Some 1" by simp_all
  have e: "{k \<in> dom (contents sample_encoder). take 1 k = take 1 [97, 0]} = {[97]}"
    "{k \<in> dom (contents sample_encoder). take 1 k = take 1 [98, 0]} = {}" by (auto simp: sample_contents)
  note p = prefix_search_lists_the_keys[OF insertion_sort_ok sample_buildable h s k, unfolded sample_kept]
  show ?thesis using p[OF l(1), unfolded e(1)] p[OF l(2), unfolded e(2)] s by blast
qed

text \<open>C4. What a build can do on any state of the encoder that a client can reach, with any symbol width and any
  values whose strings and blobs lie in memory: it refuses more than 249 distinct key bytes, runs out of memory only below the
  stated need, refuses a dictionary with an array or dictionary as a value, overflows only when the stream is
  longer than 32 bits can say, and otherwise returns a file with the specified layout of the sorted, deduplicated
  entries, in symbols of the chosen width.\<close>

theorem build_outcomes:
  assumes "qsort_ok qs" and "enc_ok enc" and "\<forall>e \<in> set (en_entries enc). legible (e_val e)"
    and "key_volume (en_entries enc) < 72057594037927936" and "heap \<le> 1152921504606846976"
  shows "if 249 < card (alphabet (en_entries enc)) then fst (tp_encoder_build qs heap enc) = Err TP_ERR_ALPHABET
    else \<exists>enc2. snd (tp_encoder_build qs heap enc) = enc2 \<and> (buildable enc \<longrightarrow> ready enc2) \<and>
      en_entries enc2 = en_entries (dedup_entries (sort_entries qs enc)) \<and>
      s_bits_per_symbol (en_sym enc2) = chosen_width enc \<and>
      (fst (tp_encoder_build qs heap enc) = Err TP_ERR_ALLOC \<and> \<not> build_room heap enc2 (any_value enc2) \<or>
       (if \<exists>e \<in> set (en_entries enc2). nested (e_val e) then fst (tp_encoder_build qs heap enc) = Err TP_ERR_INVALID_PARAM
        else fst (tp_encoder_build qs heap enc) = Err TP_ERR_OVERFLOW \<and> UINT32_MAX < length (stream_bits enc2 (any_value enc2)) \<or>
          (\<exists>buf len. fst (tp_encoder_build qs heap enc) = Ok (buf, len) \<and> file_layout enc2 (any_value enc2) buf len)))"
  using assms by (rule build_any)

theorem build_outcomes_witness:
  "\<exists>enc2. snd (tp_encoder_build insertion_sort 100 (sample_encoder\<lparr>en_entries := [\<lparr>e_key = [97, 0], e_key_len = 1, e_val = TP_ARRAY None 0\<rparr>],
       en_opts := tp_encoder_defaults\<lparr>o_bits_per_symbol := 15\<rparr>\<rparr>)) = enc2 \<and> s_bits_per_symbol (en_sym enc2) = 15 \<and>
     fst (tp_encoder_build insertion_sort 100 (sample_encoder\<lparr>en_entries := [\<lparr>e_key = [97, 0], e_key_len = 1, e_val = TP_ARRAY None 0\<rparr>],
       en_opts := tp_encoder_defaults\<lparr>o_bits_per_symbol := 15\<rparr>\<rparr>)) \<in> {Err TP_ERR_ALLOC, Err TP_ERR_INVALID_PARAM}"
proof -
  let ?e = "sample_encoder\<lparr>en_entries := [\<lparr>e_key = [97, 0], e_key_len = 1, e_val = TP_ARRAY None 0\<rparr>],
       en_opts := tp_encoder_defaults\<lparr>o_bits_per_symbol := 15\<rparr>\<rparr>"
  have ok: "enc_ok ?e" "\<forall>e \<in> set (en_entries ?e). legible (e_val e)" "key_volume (en_entries ?e) < 72057594037927936"
    by (simp_all add: sample_encoder_def enc_ok_def entry_ok_def tp_encoder_defaults_def key_volume_def)
  have a: "\<not> 249 < card (alphabet (en_entries ?e))" by (simp add: alphabet_def entry_key_def)
  have p: "en_entries (dedup_entries (sort_entries insertion_sort ?e)) = en_entries ?e"
    by (simp add: sample_encoder_def dedup_entries_def sort_entries_def Let_def)
  have w: "chosen_width ?e = 15" by (simp add: chosen_width_def)
  show ?thesis using build_outcomes[OF insertion_sort_ok ok, of 100] unfolding if_not_P[OF a] p w by auto
qed

text \<open>C5. A build succeeds whenever the added keys and values are small enough: the bounds are in terms
  of what was added, with at most 249 distinct key bytes, values of the scalar kinds, and a symbol width that is left to the
  encoder or holds the symbols in at most 8 bits (\<open>buildable\<close>).\<close>

theorem build_returns_a_file:
  assumes "qsort_ok qs" and "buildable enc" and "card (alphabet (en_entries enc)) \<le> 249"
    and "19980 + volume enc \<le> UINT32_MAX"
    and "256 \<le> heap" and "20283 + volume enc \<le> 4 * heap" and "heap \<le> 1152921504606846976"
  shows "\<exists>buf len. fst (tp_encoder_build qs heap enc) = Ok (buf, len)"
  using assms by (rule build_succeeds)

theorem build_returns_a_file_witness:
  "\<exists>buf len. fst (tp_encoder_build insertion_sort 6000 sample_encoder) = Ok (buf, len)"
proof (rule build_returns_a_file[OF insertion_sort_ok sample_buildable])
  have "volume sample_encoder = 468"
    by (simp add: volume_def entry_cost_def sample_encoder_def value_len_def)
  then show "19980 + volume sample_encoder \<le> UINT32_MAX" "20283 + volume sample_encoder \<le> 4 * 6000"
    by (simp_all add: UINT32_MAX_def)
qed (simp_all add: alphabet_def sample_encoder_def entry_key_def)



text \<open>C7. Adding a key overrides its entry in the map with the owned copy of the value.\<close>

theorem add_updates_the_map:
  assumes "enc_ok enc" and "en_count enc < 4294967295"
    and "tp_encoder_add_n heap (Some kb) n val enc = (Ok (), enc')"
  shows "enc_ok enc' \<and> (\<exists>v. value_deep_copy heap (case val of None \<Rightarrow> tp_value_null | Some v \<Rightarrow> v) = Ok v \<and>
    contents enc' = (contents enc)(take n kb \<mapsto> v))"
  using contents_add[OF assms] add_n_ok[OF assms] by blast

theorem add_updates_the_map_witness:
  "enc_ok sample_encoder \<and> (\<exists>enc. tp_encoder_create 1000000 = Ok enc \<and>
     (\<exists>v. value_deep_copy 1000000 (TP_INT 5) = Ok v \<and> contents sample_encoder = (contents enc)([97] \<mapsto> v)))"
proof -
  obtain enc where enc: "tp_encoder_create 1000000 = Ok enc"
    by (simp add: tp_encoder_create_def tp_encoder_create_ex_def tp_encoder_defaults_def SIZEOF_ENCODER_def)
  then have "enc_ok enc" "en_count enc < 4294967295" using create_ok[of 1000000 tp_encoder_defaults enc]
    by (auto simp: tp_encoder_create_def tp_encoder_create_ex_def split: if_splits)
  from add_updates_the_map[OF this sample_made[OF enc]] show ?thesis using enc by simp
qed

text \<open>C8. An add that fails, for whatever reason, changes nothing in the map.\<close>

theorem failed_add_keeps_the_map:
  assumes "enc_ok enc" and "tp_encoder_add_n heap key n val enc = (m, enc')" and "m \<noteq> Ok ()"
  shows "enc_ok enc' \<and> contents enc' = contents enc"
  using add_n_failed[OF assms] by (simp add: contents_def)

theorem failed_add_keeps_the_map_witness:
  "enc_ok sample_encoder \<and> contents (snd (tp_encoder_add_n 2 (Some [1, 2, 3]) 3 None sample_encoder)) = contents sample_encoder"
proof -
  have "tp_encoder_add_n 2 (Some [1, 2, 3]) 3 None sample_encoder = (Err TP_ERR_ALLOC, sample_encoder)"
    by (simp add: tp_encoder_add_n_def sample_encoder_def Let_def)
  from failed_add_keeps_the_map[OF _ this] show ?thesis
    using sample_buildable by (simp add: buildable_def \<open>tp_encoder_add_n _ _ _ _ _ = _\<close>)
qed

text \<open>C9. Whatever order \<open>qsort\<close> leaves equal keys in, sorting and deduplicating leaves one entry per key that was added, in
  strictly increasing byte order; it is the last of its key in the sorted array, so one that was added, and the
  entry of a key that was added once.\<close>

theorem preparation_keeps_one_entry_per_key:
  assumes "qsort_ok qs" and "enc_ok enc" and "enc' = dedup_entries (sort_entries qs enc)"
  shows "sorted_wrt (<) (map entry_key (en_entries enc')) \<and>
    entry_key ` set (en_entries enc') = entry_key ` set (en_entries enc) \<and> set (en_entries enc') \<subseteq> set (en_entries enc) \<and>
    (\<forall>e \<in> set (en_entries enc'). e = last (filter (\<lambda>x. entry_key x = entry_key e) (qs entry_cmp (en_entries enc)))) \<and>
    (\<forall>e \<in> set (en_entries enc). filter (\<lambda>x. entry_key x = entry_key e) (en_entries enc) = [e] \<longrightarrow> e \<in> set (en_entries enc'))"
proof -
  note p = prepare_ok[OF assms]
  have all: "\<forall>e \<in> set (en_entries enc). entry_ok e" using assms(2) by (simp add: enc_ok_def)
  note s = qsort_entries[OF assms(1) all]
  have "e \<in> set (en_entries enc')" if "e \<in> set (en_entries enc)" "filter (\<lambda>x. entry_key x = entry_key e) (en_entries enc) = [e]" for e
  proof -
    have "entry_key e \<in> entry_key ` set (en_entries enc')" using p(4) that(1) by simp
    then obtain x where x: "x \<in> set (en_entries enc')" "entry_key x = entry_key e" by (elim imageE) simp
    then have "x \<in> set (filter (\<lambda>x. entry_key x = entry_key e) (en_entries enc))" using p(3) by auto
    then show ?thesis using x(1) that(2) by simp
  qed
  moreover have "e = last (filter (\<lambda>x. entry_key x = entry_key e) (qs entry_cmp (en_entries enc)))" if "e \<in> set (en_entries enc')" for e
  proof (rule dedup_last)
    show "\<forall>e \<in> set (qs entry_cmp (en_entries enc)). entry_ok e" using all mset_eq_setD[OF s(1)] by simp
    show "e \<in> set (dedup (qs entry_cmp (en_entries enc)))" using that unfolding assms(3) prepare_eq[OF assms(1,2)] .
  qed (rule s(2))
  moreover have "sorted_wrt (<) (map entry_key (en_entries enc'))" using p(2) by (simp add: keys_sorted_def)
  moreover have "entry_key ` set (en_entries enc') = entry_key ` set (en_entries enc)" using p(4) by simp
  ultimately show ?thesis using p(3) by blast
qed

theorem preparation_keeps_one_entry_per_key_witness:
  "en_entries (dedup_entries (sort_entries insertion_sort sample_encoder)) = en_entries sample_encoder"
proof -
  have "filter (\<lambda>x. entry_key x = entry_key e) (en_entries sample_encoder) = [e]" if "e \<in> set (en_entries sample_encoder)" for e
    using that by (simp add: sample_encoder_def)
  then have "set (en_entries (dedup_entries (sort_entries insertion_sort sample_encoder))) = set (en_entries sample_encoder) \<and>
      sorted_wrt (<) (map entry_key (en_entries (dedup_entries (sort_entries insertion_sort sample_encoder))))"
    using preparation_keeps_one_entry_per_key[OF insertion_sort_ok _ refl, of sample_encoder] sample_buildable
    by (auto simp: buildable_def)
  then show ?thesis
    by (cases "en_entries (dedup_entries (sort_entries insertion_sort sample_encoder))" rule: remdups_adj.cases)
      (auto simp: sample_encoder_def)
qed

section \<open>Arbitrary bytes\<close>

text \<open>C10. Opening any block of bytes returns: no access outside the block, no endless loop, and what it hands
  out satisfies the invariant the walkers rely on.\<close>

theorem open_any_bytes:
  assumes "len \<le> length bs" and "len \<le> 1152921504606846976"
  shows "safe (dict_open_impl heap (Some bs) len check) \<and>
    (case dict_open_impl heap (Some bs) len check of Ok d \<Rightarrow> dict_ok d | _ \<Rightarrow> True)"
  using open_safe[OF assms, of heap check] open_ok[OF assms, of heap check]
  by (cases "dict_open_impl heap (Some bs) len check") auto

theorem open_any_bytes_witness: "safe (dict_open_impl 2000 (Some (replicate 40 (7 :: u8))) 40 True)"
  using open_any_bytes[of 40 "replicate 40 7"] by simp

text \<open>C11. A lookup in whatever opened, with any key, returns without an access outside the file or the key.\<close>

theorem lookup_any_bytes:
  assumes "len \<le> length bs" and "len \<le> 1152921504606846976"
    and "dict_open_impl heap (Some bs) len check = Ok d" and "n \<le> length kb"
  shows "safe (tp_dict_lookup_n heap' d (Some kb) n want)"
  using open_ok[OF assms(1-3)] lookup_safe[OF _ assms(4)] by blast

theorem lookup_any_bytes_witness:
  "\<exists>d. dict_ok d \<and> safe (tp_dict_lookup_n 5000 d (Some [97, 98, 0]) 2 True)"
proof -
  obtain buf len d enc2 where "tp_dict_open 1000000 (Some buf) len = Ok d" "len \<le> length buf"
    "length buf \<le> 1152921504606846976" "opened enc2 True buf len d" using sample_opened by blast
  then show ?thesis using lookup_any_bytes[of len buf 1000000 True d 2 "[97, 98, 0]"]
    by (auto simp: tp_dict_open_def opened_def)
qed

text \<open>C12. Iterating over whatever opened: any number of steps, each of which returns without an access outside
  the file, the key block or the stack of 256 frames.\<close>

theorem iteration_any_bytes:
  assumes "dict_ok d" and "heap \<le> 1152921504606846976" and "tp_dict_iterate heap d = Ok it"
  shows "safe (fst (tp_iter_next heap (((\<lambda>it. snd (tp_iter_next heap it)) ^^ n) it)))"
  using iteration_safe[OF assms] by blast

theorem iteration_any_bytes_witness:
  "\<exists>d it. tp_dict_iterate 1000000 d = Ok it \<and> safe (fst (tp_iter_next 1000000 it))"
proof -
  obtain d enc2 buf len where d: "opened enc2 True buf len d" using sample_opened by blast
  obtain it where it: "tp_dict_iterate 1000000 d = Ok it"
    by (simp add: tp_dict_iterate_def SIZEOF_ITERATOR_def KEY_BUF_INITIAL_def)
  then show ?thesis using iteration_any_bytes[of d 1000000 it 0] d by (auto simp: opened_def)
qed

text \<open>C13. A decoded string or blob shorter than \<open>2 ^ 60\<close> bytes lies inside the stream it was read from.\<close>

theorem decoded_values_in_bounds:
  assumes "reader_ok r" and "tp_value_decode (Some b) r = (Ok x, r')" and "value_len x < 1152921504606846976"
  shows "in_bounds x"
  using assms by (rule value_decode_in_bounds)

theorem decoded_values_in_bounds_witness:
  "\<exists>x. value_agree (TP_STRING (Some [104, 105]) 2) x \<and> in_bounds x"
proof -
  obtain w' x where d: "tp_value_decode (Some []) (reader_over w' 0) = (Ok x, reader_over w' (w_pos w'))"
    "reader_ok (reader_over w' 0)" "value_agree (TP_STRING (Some [104, 105]) 2) x" using sample_decodes by blast
  then have "value_len x < 1152921504606846976" by (cases x) (auto simp: value_len_def)
  then show ?thesis using decoded_values_in_bounds[OF d(2,1)] d(3) by blast
qed

text \<open>C14. The checksum: changing up to four consecutive bytes of a built file in front of it makes opening fail.\<close>

theorem tampering_is_detected:
  assumes "file_layout enc hv (pre @ ds @ post @ tail) len" and "len = length (pre @ ds @ post) + 4" and "4 \<le> length tail"
    and "length ds = length es" and "length ds \<le> 4" and "ds \<noteq> es"
  shows "\<exists>e. tp_dict_open heap (Some (pre @ es @ post @ tail)) len = Err e"
  using open_tampered[OF assms] by (simp add: tp_dict_open_def)

theorem tampering_is_detected_witness:
  "\<exists>buf len e d. tp_dict_open 1000000 (Some buf) len = Ok d \<and>
     tp_dict_open 1000000 (Some ((hd buf + 1) # tl buf)) len = Err e"
proof -
  obtain buf len d enc2 where d: "tp_dict_open 1000000 (Some buf) len = Ok d" "len \<le> length buf"
    and f: "file_layout enc2 True buf len" using sample_opened by blast
  have len: "36 \<le> len" using f by (auto simp: file_layout_def)
  then obtain b bs where buf: "buf = b # bs" using d(2) by (cases buf) auto
  have split: "buf = [] @ [b] @ take (len - 5) bs @ drop (len - 5) bs" using buf by simp
  have "len = length ([] @ [b] @ take (len - 5) bs) + 4" "4 \<le> length (drop (len - 5) bs)"
    using len d(2) buf by simp_all
  from tampering_is_detected[OF f[unfolded split] this, of "[b + 1]" 1000000]
  have "\<exists>e. tp_dict_open 1000000 (Some ((hd buf + 1) # tl buf)) len = Err e" using buf by simp
  then show ?thesis using d(1) by blast
qed

section \<open>The trie\<close>

text \<open>C15. The dry run that computes SKIP distances gives exactly the number of bits the writer then
  appends, and both assign the same value indices.\<close>

theorem dry_run_matches_writing:
  assumes "1 \<le> s_bits_per_symbol si" and "s_bits_per_symbol si \<le> 15" and "range_ok hv p es" and "es \<noteq> []"
    and "depth (trie_of (rest hv p es)) \<le> fuel" and "vi + length es < 4294967296"
    and "length (ser si vi (trie_of (rest hv p es))) < 18446744073709551616"
    and "writer_ok heap w" and "trie_write fuel heap si es p hv vi w = (Ok vi', w')"
  shows "trie_subtree_size fuel si es p hv vi = Ok (w_pos w' - w_pos w, vi') \<and> vi' = vi + length es"
proof -
  have n: "nterms (trie_of (rest hv p es)) = length es" using assms(3) by (rule nterms_range)
  show ?thesis
    using trie_subtree_size_ok[OF assms(5,3,4) _ assms(7)] trie_write_yields[OF assms(1,2,5,3,4) _ assms(7,8)] assms(6,9)
    by (auto simp: n yields_def appended_def)
qed

theorem dry_run_matches_writing_witness:
  "\<exists>w' si. trie_write 2 1000000 si [\<lparr>e_key = [7, 0], e_key_len = 1, e_val = TP_NULL\<rparr>] 0 False 0 sample_writer = (Ok 1, w') \<and>
     trie_subtree_size 2 si [\<lparr>e_key = [7, 0], e_key_len = 1, e_val = TP_NULL\<rparr>] 0 False 0 = Ok (w_pos w', 1)"
proof -
  let ?es = "[\<lparr>e_key = [7, 0], e_key_len = 1, e_val = TP_NULL\<rparr>] :: tp_entry list"
  let ?si = "zero_symbols\<lparr>s_bits_per_symbol := 3\<rparr>"
  have ks: "keys_sorted ?es" by (simp add: keys_sorted_def entry_ok_def)
  have bps: "1 \<le> s_bits_per_symbol ?si" "s_bits_per_symbol ?si \<le> 15" by simp_all
  have len: "length (ser ?si 0 (trie_of (rest False 0 ?es))) \<le> 368"
    using keys_trie(3)[OF ks, of ?si 8 0 False] by (simp add: key_volume_def)
  have "trie_fuel ?es = 2" by (simp add: trie_fuel_def)
  then have dp: "depth (trie_of (rest False 0 ?es)) \<le> 2" using keys_trie(1)[OF ks, of False] by metis
  note ro = keys_range_ok[OF ks, of False]
  have n: "nterms (trie_of (rest False 0 ?es)) = 1" using nterms_range[OF ro] by simp
  have "yields 1000000 (trie_write 2 1000000 ?si ?es 0 False 0) sample_writer (ser ?si 0 (trie_of (rest False 0 ?es))) 1"
    using trie_write_yields[OF bps dp ro _ _ _ sample_writer_ok, of 0] n len by simp
  then obtain w' where w': "trie_write 2 1000000 ?si ?es 0 False 0 sample_writer = (Ok 1, w')"
    using sample_room[OF order_trans[OF len]] by (auto simp: yields_def)
  have "trie_subtree_size 2 ?si ?es 0 False 0 = Ok (w_pos w', 1)"
    using dry_run_matches_writing[OF bps ro _ dp _ _ sample_writer_ok w'] len by (simp add: sample_writer_pos)
  then show ?thesis using w' by blast
qed

section \<open>Codecs\<close>

text \<open>C16. Values written in a loop are decoded again in a loop: equal, strings and blobs by content, wherever
  in the stream they start.\<close>

theorem values_read_back:
  assumes "\<forall>v \<in> set vs. storable v" and "writer_ok heap w"
    and "for_each (tp_value_encode heap) vs w = (Ok (), w')"
  shows "\<exists>xs. read_seq (length vs) (tp_value_decode (Some bs)) (reader_over w' (w_pos w)) =
      (Ok xs, reader_over w' (w_pos w')) \<and> list_all2 value_agree vs xs"
  using assms by (rule valc.seq_roundtrip)

theorem values_read_back_witness:
  "\<exists>w' xs. for_each (tp_value_encode 1000000) [TP_INT (- 5), TP_STRING (Some [104, 105]) 2, TP_BOOL True] sample_writer = (Ok (), w') \<and>
     read_seq 3 (tp_value_decode (Some [])) (reader_over w' 0) = (Ok xs, reader_over w' (w_pos w')) \<and>
     list_all2 value_agree [TP_INT (- 5), TP_STRING (Some [104, 105]) 2, TP_BOOL True] xs"
proof -
  let ?vs = "[TP_INT (- 5), TP_STRING (Some [104, 105]) 2, TP_BOOL True]"
  have st: "\<forall>v \<in> set ?vs. storable v" by (simp add: view_def)
  obtain w' where w': "for_each (tp_value_encode 1000000) ?vs sample_writer = (Ok (), w')"
    using sample_writes[OF valc.wr_seq[OF st sample_writer_ok]] length_values[OF st, of "w_pos sample_writer"]
    by (auto simp: value_len_def)
  have "length ?vs = 3" by simp
  then show ?thesis using values_read_back[OF st sample_writer_ok w', of "[]"] w' unfolding sample_writer_pos by metis
qed

text \<open>C17. What a sequence of unsigned varint writes appends, the same number of reads gives back, and
  the reader ends where the writer stopped.\<close>

theorem varints_read_back:
  assumes "writer_ok heap w" and "for_each (tp_bs_write_varint_u heap) vs w = (Ok (), w')"
  shows "read_seq (length vs) tp_bs_read_varint_u (reader_over w' (w_pos w)) = (Ok vs, reader_over w' (w_pos w'))"
  using varint.seq_exact_roundtrip[OF _ assms] by simp

theorem varints_read_back_witness:
  "\<exists>w'. for_each (tp_bs_write_varint_u 1000000) [5, 300, - 1] sample_writer = (Ok (), w') \<and>
     read_seq 3 tp_bs_read_varint_u (reader_over w' 0) = (Ok [5, 300, - 1], reader_over w' (w_pos w'))"
proof -
  have "length (enc_seq (\<lambda>_. varint_enc) (w_pos sample_writer) [5, 300, - 1]) \<le> 4000"
    using length_varint_enc_le[of 5] length_varint_enc_le[of 300] length_varint_enc_le[of "- 1"] by simp
  then obtain w' where w': "for_each (tp_bs_write_varint_u 1000000) [5, 300, - 1] sample_writer = (Ok (), w')"
    using sample_writes[OF varint.wr_seq[OF _ sample_writer_ok, of "[5, 300, - 1]"]] by auto
  have "length [5, 300, - 1 :: u64] = 3" by simp
  then show ?thesis using varints_read_back[OF sample_writer_ok w'] w' unfolding sample_writer_pos by metis
qed

text \<open>C18. The same for signed varints, through the zigzag map.\<close>

theorem signed_varints_read_back:
  assumes "writer_ok heap w" and "for_each (tp_bs_write_varint_s heap) vs w = (Ok (), w')"
  shows "read_seq (length vs) tp_bs_read_varint_s (reader_over w' (w_pos w)) = (Ok vs, reader_over w' (w_pos w'))"
  using varint_s.seq_exact_roundtrip[OF _ assms] by simp

theorem signed_varints_read_back_witness:
  "\<exists>w'. for_each (tp_bs_write_varint_s 1000000) [- 3, 64] sample_writer = (Ok (), w') \<and>
     read_seq 2 tp_bs_read_varint_s (reader_over w' 0) = (Ok [- 3, 64], reader_over w' (w_pos w'))"
proof -
  have "length (enc_seq (\<lambda>_ v. varint_enc (zigzag_encode v)) (w_pos sample_writer) [- 3, 64]) \<le> 4000"
    using length_varint_enc_le[of "zigzag_encode (- 3)"] length_varint_enc_le[of "zigzag_encode 64"] by simp
  then obtain w' where w': "for_each (tp_bs_write_varint_s 1000000) [- 3, 64] sample_writer = (Ok (), w')"
    using sample_writes[OF varint_s.wr_seq[OF _ sample_writer_ok, of "[- 3, 64]"]] by auto
  have "length [- 3, 64 :: u64] = 2" by simp
  then show ?thesis using signed_varints_read_back[OF sample_writer_ok w'] w' unfolding sample_writer_pos by metis
qed

text \<open>C19. Code points written as UTF-8 are read back, wherever the stream is; surrogates and everything above U+10FFFF are
  refused and leave the stream alone.\<close>

theorem utf8_reads_back:
  assumes "writer_ok heap w" and "\<forall>cp \<in> set cps. scalar_value cp" and "for_each (tp_bs_write_utf8 heap) cps w = (Ok (), w')"
  shows "read_seq (length cps) tp_bs_read_utf8 (reader_over w' (w_pos w)) = (Ok cps, reader_over w' (w_pos w')) \<and>
    (\<forall>cp v. \<not> scalar_value cp \<longrightarrow> tp_bs_write_utf8 heap cp v = (Err TP_ERR_INVALID_UTF8, v))"
  using utf8c.seq_exact_roundtrip[OF assms(2,1,3)] write_utf8_rejects by blast

theorem utf8_reads_back_witness:
  "\<exists>w'. for_each (tp_bs_write_utf8 1000000) [0x41, 0x20AC, 0x1F600] sample_writer = (Ok (), w') \<and>
     read_seq 3 tp_bs_read_utf8 (reader_over w' 0) = (Ok [0x41, 0x20AC, 0x1F600], reader_over w' (w_pos w')) \<and>
     tp_bs_write_utf8 1000000 0xD800 w' = (Err TP_ERR_INVALID_UTF8, w')"
proof -
  let ?cps = "[0x41, 0x20AC, 0x1F600] :: u32 list"
  have sv: "\<forall>cp \<in> set ?cps. scalar_value cp" by (simp add: scalar_value_def)
  have "length (enc_seq (\<lambda>_. utf8_enc) (w_pos sample_writer) ?cps) \<le> 4000" by (simp add: utf8_enc_def utf8_bytes_def)
  then obtain w' where w': "for_each (tp_bs_write_utf8 1000000) ?cps sample_writer = (Ok (), w')"
    using sample_writes[OF utf8c.wr_seq[OF sv sample_writer_ok]] by auto
  have l: "length ?cps = 3" and ns: "\<not> scalar_value 0xD800" by (simp_all add: scalar_value_def)
  note u = utf8_reads_back[OF sample_writer_ok sv w', unfolded sample_writer_pos l]
  show ?thesis using w' u ns by blast
qed

text \<open>C20. A header is read exactly from the 256 bits that encode it, with the right magic and major version,
  and from no others.\<close>

theorem header_read_iff:
  assumes "reader_ok r"
  shows "tp_header_read r = (Ok h, r') \<longleftrightarrow> header_valid h \<and> next_bits r (header_enc h) \<and> r' = adv (length (header_enc h)) r"
  using assms by (rule hdr.rd_iff)

theorem header_read_iff_witness:
  "\<exists>w'. tp_header_write 1000000 (build_header 3 True) sample_writer = (Ok (), w') \<and>
     fst (tp_header_read (reader_over w' 0)) = Ok (build_header 3 True)"
proof -
  let ?h = "build_header 3 True"
  have wr: "writes 1000000 (tp_header_write 1000000 ?h) sample_writer (header_enc ?h)"
    by (rule header_writes[OF sample_writer_ok])
  then obtain w' where w': "tp_header_write 1000000 ?h sample_writer = (Ok (), w')"
    using sample_writes by fastforce
  have a: "appended 1000000 sample_writer (header_enc ?h) w'" using writes_OkD[OF wr w'] .
  have "w_bits sample_writer = []" by (simp add: w_bits_def sample_writer_pos)
  then have "w_bits w' = [] @ header_enc ?h @ []" using a by (simp add: appended_def)
  then have nx: "next_bits (reader_over w' 0) (header_enc ?h)"
    using next_bits_reader_over[OF appended_ok[OF a], of "[]"] by simp
  have ok: "reader_ok (reader_over w' 0)" by (rule reader_over_ok[OF appended_ok[OF a]]) simp
  have hv: "header_valid ?h" by (simp add: header_valid_def build_header_def)
  from header_read_iff[OF ok, THEN iffD2, OF conjI[OF hv conjI[OF nx refl]]]
  have "fst (tp_header_read (reader_over w' 0)) = Ok ?h" by (metis fst_conv)
  then show ?thesis using w' by blast
qed

text \<open>C21. The table-driven checksum is the bitwise one: the table holds eight steps of the reflected
  polynomial for each byte, and a table step is eight bit steps on the register with the byte mixed in.\<close>

theorem crc_table_is_polynomial:
  "crc32_table = map (\<lambda>i. (crc_bit ^^ 8) (word_of_nat i)) [0..<256] \<and>
   crc32_step crc d = (crc_bit ^^ 8) (crc XOR ucast d)"
  using crc32_table_eq crc32_step_shift by blast

text \<open>C22. What a stored string length does, for all 64-bit lengths: the decoder accepts it by the end of the string modulo
  \<open>2 ^ 64\<close> bits, and what it then hands out lies inside the buffer only if the end without the wrap does. So lengths from
  \<open>2 ^ 61\<close> on, which no buffer holds, are accepted when their remainder fits.\<close>

theorem string_lengths_wrap:
  assumes "reader_ok r" and "next_bits r (string_head (r_pos r) u)" and "e = r_pos r + length (string_head (r_pos r) u)"
  shows "case fst (tp_value_decode (Some b) r) of
      Ok x \<Rightarrow> (e + 8 * unat u) mod 18446744073709551616 \<le> r_bit_len r \<and> tp_type x = 6 \<and> value_len x = unat u \<and>
        (in_bounds x \<longleftrightarrow> e + 8 * unat u \<le> 8 * length (r_bytes r))
    | Err er \<Rightarrow> er = TP_ERR_EOF \<and> r_bit_len r < (e + 8 * unat u) mod 18446744073709551616
    | _ \<Rightarrow> False"
proof -
  have w: "wrap64 (e + wrap64 (8 * unat u)) = (e + 8 * unat u) mod 18446744073709551616" by (simp add: wrap64_def mod_add_right_eq)
  have b: "unat u \<le> length (r_bytes r) - e div 8 \<longleftrightarrow> e + 8 * unat u \<le> 8 * length (r_bytes r)"
    if "(e + 8 * unat u) mod 18446744073709551616 \<le> r_bit_len r"
  proof -
    have "e \<le> r_bit_len r" using assms(2,3) by (simp add: next_bits_def)
    then have "e \<le> 8 * length (r_bytes r)" using assms(1) by (simp add: reader_ok_def)
    moreover have "8 * (e div 8) = e" using string_decode(2)[OF assms] by auto
    ultimately show ?thesis by linarith
  qed
  show ?thesis using string_decode(1)[OF assms, of b] b by (auto simp: w value_len_def in_bounds_def view_def not_le)
qed

theorem string_lengths_wrap_witness:
  "\<exists>x r. tp_value_decode (Some []) (bytes_reader [0x68, 8, 8, 8, 8, 8, 8, 8, 2, 0, 33] 0) = (Ok x, r) \<and>
     value_len x = 2305843009213693952 \<and> \<not> in_bounds x"
proof -
  let ?bs = "[0x68, 8, 8, 8, 8, 8, 8, 8, 2, 0, 33] :: u8 list"
  have "Varint.varint_bytes 2305843009213693952 = [128, 128, 128, 128, 128, 128, 128, 128, 32]"
    by (simp add: Varint.varint_bytes.simps drop_bit_eq_div)
  moreover have "replicate 4 False = [False, False, False, False]" by (simp add: numeral_eq_Suc)
  ultimately have h: "string_head 0 2305843009213693952 = map (bit_at ?bs) [0..<80]"
    by (simp add: string_head_def varint_enc_def pad_bits_def nbits_def upt_rec bit_at_def)
  have ok: "reader_ok (bytes_reader ?bs 0)" by (simp add: reader_ok_def bytes_reader_def r_bytes_def)
  have nx: "next_bits (bytes_reader ?bs 0) (string_head (r_pos (bytes_reader ?bs 0)) 2305843009213693952)"
    by (simp add: h next_bits_def has_bits_def bytes_reader_def r_bytes_def del: upt_rec)
  have r: "r_pos (bytes_reader ?bs 0) = 0" "r_bytes (bytes_reader ?bs 0) = ?bs" "r_bit_len (bytes_reader ?bs 0) = 88"
    by (simp_all add: bytes_reader_def r_bytes_def)
  note c = string_lengths_wrap[OF ok nx refl, of "[]", unfolded r h]
  obtain res r' where "tp_value_decode (Some []) (bytes_reader ?bs 0) = (res, r')" by force
  then show ?thesis using c by (cases res) auto
qed

section \<open>Format v2 structures\<close>

text \<open>C23. Rank is counting: a vector created over the first \<open>n\<close> bits of a buffer answers rank queries, from
  its two-level index and word-wise counting, with the number of ones and zeros among the first
  \<open>min i n\<close> bits. Creation fails only for want of memory.\<close>

theorem rank_counts_bits:
  assumes "n \<le> 8 * length bs" and "n < 9223372036854775808"
  shows "tp2_bv_create heap (Some bs) n = Ok None \<and> heap < 64 + n \<or>
    (\<exists>bv. tp2_bv_create heap (Some bs) n = Ok (Some bv) \<and> tp2_bv_size (Some bv) = n \<and>
       (\<forall>i. tp2_bv_rank1 (Some bv) i = Ok (bit_count True bs (min i n)) \<and>
            tp2_bv_rank0 (Some bv) i = Ok (bit_count False bs (min i n))))"
  using create_bv_ok[OF assms, of heap]
proof (elim disjE exE conjE)
  fix bv assume bv: "tp2_bv_create heap (Some bs) n = Ok (Some bv)" "bv_ok bv" "bv_nbits bv = n"
    "bv_list bv = map (bit_at bs) [0..<n]"
  then show ?thesis using created_rank[OF bv(2-4), of True] created_rank[OF bv(2-4), of False]
    by (simp add: bv_rank_def tp2_bv_size_def)
qed blast

theorem rank_counts_bits_witness:
  "\<exists>bv. tp2_bv_create 1000 (Some [0xB0, 0x01]) 12 = Ok (Some bv) \<and> tp2_bv_rank1 (Some bv) 3 = Ok 2 \<and>
     tp2_bv_rank0 (Some bv) 99 = Ok 9"
proof -
  have c: "bit_count True [0xB0, 0x01] 3 = 2" "bit_count False [0xB0, 0x01] 12 = 9"
    by (simp_all add: bit_count_def bit_at_def upt_rec)
  from rank_counts_bits[of 12 "[0xB0, 0x01]" 1000] obtain bv where
    bv: "tp2_bv_create 1000 (Some [0xB0, 0x01]) 12 = Ok (Some bv)"
      "\<And>i. tp2_bv_rank1 (Some bv) i = Ok (bit_count True [0xB0, 0x01] (min i 12))"
      "\<And>i. tp2_bv_rank0 (Some bv) i = Ok (bit_count False [0xB0, 0x01] (min i 12))" by auto
  then show ?thesis using c bv(2)[of 3] bv(3)[of 99] by auto
qed

text \<open>C24. Select inverts rank: the binary search returns the position of the \<open>k\<close>-th one or zero, and the
  length of the vector when there are not so many.\<close>

theorem select_finds_bits:
  assumes "n \<le> 8 * length bs" and "n < 9223372036854775808" and "tp2_bv_create heap (Some bs) n = Ok (Some bv)"
  shows "\<exists>j. (if b then tp2_bv_select1 (Some bv) k else tp2_bv_select0 (Some bv) k) = Ok j \<and>
    (if k < bit_count b bs n then j < n \<and> bit_at bs j = b \<and> bit_count b bs j = k else j = n)"
proof -
  have "bv_ok bv \<and> bv_nbits bv = n \<and> bv_list bv = map (bit_at bs) [0..<n]"
    using create_bv_ok[OF assms(1,2), of heap] assms(3) by auto
  then show ?thesis using created_select[of bv n bs k b] by (cases b) (simp_all add: tp2_bv_select1_def tp2_bv_select0_def)
qed

theorem select_finds_bits_witness:
  "\<exists>bv j. tp2_bv_create 1000 (Some [0xB0, 0x01]) 12 = Ok (Some bv) \<and> tp2_bv_select1 (Some bv) 1 = Ok j \<and>
     j < 12 \<and> bit_at [0xB0, 0x01] j \<and> bit_count True [0xB0, 0x01] j = 1"
proof -
  have c: "bit_count True [0xB0, 0x01] 12 = 3"
    by (simp add: bit_count_def bit_at_def upt_rec)
  obtain bv where bv: "tp2_bv_create 1000 (Some [0xB0, 0x01]) 12 = Ok (Some bv)"
    using create_bv_ok[of 12 "[0xB0, 0x01]" 1000] by auto
  show ?thesis using select_finds_bits[OF _ _ bv, of True 1] bv c by auto
qed

text \<open>C25. LOUDS navigation follows the tree: over the bits \<open>1^d 0\<close> of a tree's nodes in breadth-first order,
  the child count of node \<open>v\<close> is its number of children, and its \<open>k\<close>-th child is numbered with the
  position of that child in the order.\<close>

theorem louds_follows_the_tree:
  assumes "tp2_bv_create heap (Some bs) n = Ok (Some bv)" and "n \<le> 8 * length bs" and "n < 9223372036854775808"
    and "map (bit_at bs) [0..<n] = louds_tree t" and "v < length (bfs [t])"
  shows "tp2_louds_child_count (Some bv) v = Ok (length (rose_kids (bfs [t] ! v))) \<and>
    (\<forall>k < length (rose_kids (bfs [t] ! v)). \<exists>c. tp2_louds_child (Some bv) v k = Ok c \<and>
       c < length (bfs [t]) \<and> bfs [t] ! c = rose_kids (bfs [t] ! v) ! k)"
proof -
  have ok: "bv_ok bv" "bv_list bv = louds_tree t"
    using create_bv_ok[OF assms(2,3), of heap] assms(1,4) by auto
  then show ?thesis using louds_tree_child[OF ok assms(5)] louds_tree_count[OF ok assms(5)] by blast
qed

theorem louds_follows_the_tree_witness:
  "\<exists>bv. tp2_bv_create 1000 (Some [0xC8]) 7 = Ok (Some bv) \<and> tp2_louds_child_count (Some bv) 0 = Ok 2 \<and>
     (\<exists>c. tp2_louds_child (Some bv) 0 1 = Ok c \<and> c < 4 \<and>
        bfs [Rose [Rose [], Rose [Rose []]]] ! c = Rose [Rose []])"
proof -
  let ?t = "Rose [Rose [], Rose [Rose []]]"
  have b: "length (bfs [?t]) = 4" "bfs [?t] ! 0 = ?t" by simp_all
  have "map (bit_at [0xC8]) [0..<7] = [True, True, False, False, True, False, False]" by (simp add: bit_at_def upt_rec)
  moreover have "louds_tree ?t = [True, True, False, False, True, False, False]" by (simp add: louds_tree_def louds_bits_def)
  ultimately have l: "map (bit_at [0xC8]) [0..<7] = louds_tree ?t" by simp
  obtain bv where bv: "tp2_bv_create 1000 (Some [0xC8]) 7 = Ok (Some bv)"
    using create_bv_ok[of 7 "[0xC8]" 1000] by auto
  have "tp2_louds_child_count (Some bv) 0 = Ok 2 \<and> (\<forall>k < 2. \<exists>c. tp2_louds_child (Some bv) 0 k = Ok c \<and> c < 4 \<and>
      bfs [?t] ! c = [Rose [], Rose [Rose []]] ! k)"
    using louds_follows_the_tree[OF bv _ _ l, of 0] unfolding b by (simp add: numeral_2_eq_2)
  then show ?thesis using bv by (metis lessI nth_Cons_0 nth_Cons_Suc one_less_numeral_iff semiring_norm(76) One_nat_def)
qed

text \<open>C26. The tail pool: a build fails only for want of memory; otherwise the pool is the concatenation of the
  tails that are no proper suffix of another tail, each once, in descending order of their reversed
  bytes, so it does not depend on the order the tails are given in; it counts the distinct tails; and
  the reference of the \<open>i\<close>-th tail is a range of the pool that holds exactly its bytes.\<close>

theorem tail_pool_holds_tails:
  assumes "qsort_ok qs" and "tails_readable tails lens m" and "sum_list (take m lens) < 9223372036854775808"
  shows "tp2_tailpool_build qs heap tails lens m = Ok None \<and> heap < 40 + 40 * m + sum_list (take m lens) \<or>
    (\<exists>tp. tp2_tailpool_build qs heap tails lens m = Ok (Some tp) \<and> pool_holds (tail_list tails lens m) tp)"
  using assms by (rule tailpool_build_ok)

theorem tail_pool_holds_tails_witness:
  "\<exists>tp pad r. tp2_tailpool_build insertion_sort 1000 [[2, 3], [1, 2, 3], [9, 9]] [2, 3, 1] 3 = Ok (Some tp) \<and>
     tp2_tailpool_bytes (Some tp) = Some ([9, 1, 2, 3] @ pad) \<and> tp2_tailpool_size (Some tp) = 4 \<and>
     tp2_tailpool_ref (Some tp) 0 = Ok r \<and> tr_length r = 2 \<and> take 2 (drop (tr_offset r) [9, 1, 2, 3]) = [2, 3 :: u8]"
proof -
  let ?tails = "[[2, 3], [1, 2, 3], [9, 9]] :: u8 list list"
  have r: "tails_readable ?tails [2, 3, 1] 3" by (auto simp: tails_readable_def less_Suc_eq numeral_eq_Suc)
  have l: "tail_list ?tails [2, 3, 1] 3 = [[2, 3], [1, 2, 3], [9]]" by (simp add: tail_list_def upt_rec)
  have p: "suffix_pool (set [[2, 3], [1, 2, 3], [9]]) = [9, 1, 2, 3]"
    by (simp add: suffix_pool_def tail_order_def proper_suffix_def sorted_list_of_set_insert_remove)
  obtain tp where tp: "tp2_tailpool_build insertion_sort 1000 ?tails [2, 3, 1] 3 = Ok (Some tp)"
    "pool_holds [[2, 3], [1, 2, 3], [9]] tp"
    using tail_pool_holds_tails[OF insertion_sort_ok r, of 1000] unfolding l by auto
  then show ?thesis unfolding pool_holds_def p by (auto dest!: spec[of _ 0] simp: numeral_2_eq_2)
qed

section \<open>The JSON layer\<close>



text \<open>C28. Encoding succeeds: a text of a document within the limits of the parser's buffers is encoded, with
  memory and file size bounded by the paths and leaves and at most 249 distinct bytes in the paths.\<close>

theorem json_encoding_succeeds:
  assumes "qsort_ok qs" and "json_text strtod j t" and "root_code j \<noteq> 0" and "fits [] 0 j" and "length t < 4294967294"
    and "n \<le> length src" and "take n src = w @ t @ w'" and "ws w" and "ws w'"
    and "card (\<Union> (set ` fst ` set (leaves j))) \<le> 249" and "19980 + sum_list (map leaf_cost (leaves j)) \<le> UINT32_MAX"
    and "5000 \<le> heap" and "720 + 80 * length t \<le> heap" and "20283 + sum_list (map leaf_cost (leaves j)) \<le> 4 * heap"
    and "heap \<le> 1152921504606846976"
  shows "\<exists>buf len. tp_json_encode strtod qs heap (Some src) n = Ok (buf, len) \<and> len \<le> heap"
  using assms(1-8) ws_stops[OF assms(9)] assms(10-15) by (rule encode_succeeds)

theorem json_encoding_succeeds_witness:
  "\<exists>buf len. tp_json_encode (\<lambda>_. 0) insertion_sort 6000 (Some (sample_text @ [10])) 16 = Ok (buf, len)"
proof -
  have "card {97, 91, 48, 49, 93, 1, 114, 111, 116 :: u8} \<le> 249" by (simp add: card_insert_if)
  then show ?thesis
    using json_encoding_succeeds[OF insertion_sort_ok sample_json sample_facts(2,3), of 16 "sample_text @ [10]" "[]" "[10]" 6000 "\<lambda>_. 0",
        unfolded sample_alphabet sample_cost] sample_facts(4)
    by (auto simp: UINT32_MAX_def is_ws_def)
qed

text \<open>C29. Opening any bytes as JSON returns, and what it hands out is typed: the root is an array or an object,
  whatever the file stores under the metadata key, and the dictionary satisfies its invariant.\<close>

theorem json_open_is_typed:
  assumes "len \<le> length bs" and "len \<le> 1152921504606846976"
  shows "safe (tp_json_open heap (Some bs) len) \<and>
    (\<forall>h. tp_json_open heap (Some bs) len = Ok h \<longrightarrow>
      dict_ok (j_dict h) \<and> (tp_json_root_type (Some h) = Ok TYPE_ARRAY \<or> tp_json_root_type (Some h) = Ok TYPE_DICT))"
  using json_open_safe[OF assms, of heap] by (auto simp: tp_json_root_type_def)

theorem json_open_is_typed_witness: "safe (tp_json_open 5000 (Some (replicate 50 (84 :: u8))) 50)"
  using json_open_is_typed[of 50 "replicate 50 84" 5000] by simp

text \<open>C30. Encoding any text of at most 1023 bytes, grammatical or not, returns: the parser stays inside the text and
  its buffers, recursion ends, and so does the build.\<close>

theorem json_encode_any_short_text:
  assumes "qsort_ok qs" and "n \<le> length src" and "n \<le> 1023" and "heap \<le> 1152921504606846976"
  shows "safe (tp_json_encode strtod qs heap (Some src) n)"
  using assms by (rule encode_returns)

theorem json_encode_any_short_text_witness:
  "safe (tp_json_encode (\<lambda>_. 0) insertion_sort 100000 (Some [91, 123, 34, 92, 117]) 5)"
  using json_encode_any_short_text[OF insertion_sort_ok, of 5 "[91, 123, 34, 92, 117]" 100000] by simp

text \<open>C31. That bound is sharp but for the brackets: an object key of 1024 plain bytes or more makes the encoder store its
  terminator outside the key buffer.\<close>

theorem json_long_key_overflows:
  assumes "\<forall>c \<in> set k. c \<noteq> 34 \<and> c \<noteq> 92" and "1024 \<le> length k" and "SIZEOF_ENCODER \<le> heap"
  shows "tp_json_encode strtod qs heap (Some (123 # 34 # k @ 34 # r)) (length (123 # 34 # k @ 34 # r)) = Fault"
  using assms by (rule long_key_faults)

theorem json_long_key_overflows_witness:
  "tp_json_encode (\<lambda>_. 0) insertion_sort 2000 (Some (123 # 34 # replicate 1024 97 @ 34 # [58, 49, 125]))
     (length (123 # 34 # replicate 1024 97 @ 34 # [58, 49, 125 :: u8])) = Fault"
  by (rule json_long_key_overflows) (auto simp: SIZEOF_ENCODER_def)

text \<open>C32. Text behind the document is not looked at: the same file is built.\<close>

theorem json_trailing_text_ignored:
  assumes "json_text strtod j t" and "root_code j \<noteq> 0" and "fits [] 0 j" and "r = [] \<or> \<not> number_char (hd r)"
  shows "tp_json_encode strtod qs heap (Some (t @ r)) (length (t @ r)) = tp_json_encode strtod qs heap (Some t) (length t)"
  using assms(1-3) by (rule encode_trailing) (use assms(4) in \<open>simp add: stops_def\<close>)

theorem json_trailing_text_ignored_witness:
  "tp_json_encode (\<lambda>_. 0) insertion_sort 1000000 (Some (sample_text @ [125, 125])) (length (sample_text @ [125, 125])) =
   tp_json_encode (\<lambda>_. 0) insertion_sort 1000000 (Some sample_text) (length sample_text)"
  by (rule json_trailing_text_ignored[OF sample_json sample_facts(2,3)]) (simp add: number_char_def isdigit_def)

text \<open>C33. Decoding to text, compact or indented: for a file of any bytes whose stored numbers are finite, whose
  strings lie in memory and whose keys have at most 4094 bytes, decoding returns. A text it returns ends in a
  terminator and is JSON as RFC 8259 writes it - control characters, quotes and backslashes escaped, no leading zeros - with the bytes
  from 128 on as they are stored; when the keys and strings are UTF-8, so is the text.\<close>

theorem json_decode_prints_json:
  assumes "qsort_ok qs" and "formats fmt" and "indent_ok indent" and "heap \<le> 1152921504606846976"
    and "len \<le> length buf" and "len \<le> 1152921504606846976"
    and "\<And>es root. extract_entries qs heap buf len = Ok (es, root) \<Longrightarrow> \<forall>e \<in> set es. printable (f_val e) \<and> f_key_len e \<le> 4094"
  shows "case decode_impl fmt qs heap buf len indent of
      Ok (s, n) \<Rightarrow> n < length s \<and> s ! n = 0 \<and> valid_json high_byte (take n s) \<and>
        ((\<forall>es root. extract_entries qs heap buf len = Ok (es, root) \<longrightarrow> (\<forall>e \<in> set es. spelled utf8_unit e)) \<longrightarrow> valid_json utf8_unit (take n s))
    | Err e \<Rightarrow> True
    | _ \<Rightarrow> False"
proof -
  let ?utf8 = "\<forall>es root. extract_entries qs heap buf len = Ok (es, root) \<longrightarrow> (\<forall>e \<in> set es. spelled utf8_unit e)"
  have "returns (decode_impl fmt qs heap buf len indent) (\<lambda>(s, n). n < length s \<and> s ! n = 0 \<and> valid_json high_byte (take n s))"
    by (rule raw.decode_well_formed[OF assms(1-6)]) (use assms(7) spelled_raw in blast)
  moreover have "returns (decode_impl fmt qs heap buf len indent) (\<lambda>(s, n). n < length s \<and> s ! n = 0 \<and> valid_json utf8_unit (take n s))" if ?utf8
    by (rule utf8.decode_well_formed[OF assms(1-6)]) (use assms(7) that in blast)
  ultimately show ?thesis by (cases "decode_impl fmt qs heap buf len indent") auto
qed

theorem json_decode_prints_json_witness:
  "\<exists>buf len enc2 s n. tp_encoder_build insertion_sort 1000000 menu_encoder = (Ok (buf, len), enc2) \<and>
     decode_impl zero_printf insertion_sort 1000000 buf len None = Ok (s, n) \<and>
     take n s = [123, 34, 97, 34, 58, 34, 92, 110, 0xC3, 0xA9, 34, 125] \<and> s ! n = 0 \<and> valid_json utf8_unit (take n s)"
proof -
  obtain buf len s n v p enc2 where m: "len \<le> length buf" "len \<le> 1152921504606846976"
      "extract_entries insertion_sort 1000000 buf len = Ok ([\<lparr>f_key = [97, 0], f_key_len = 1, f_val = v\<rparr>], TP_JSON_ROOT_OBJECT)"
      "v = TP_STRING (Some p) 3" "3 \<le> length p" "take 3 p = [10, 0xC3, 0xA9]"
      "tp_encoder_build insertion_sort 1000000 menu_encoder = (Ok (buf, len), enc2)"
      "decode_impl zero_printf insertion_sort 1000000 buf len None = Ok (s, n)" "take n s = menu_text"
    using menu_decoded by blast
  have "\<And>es root. extract_entries insertion_sort 1000000 buf len = Ok (es, root) \<Longrightarrow> \<forall>e \<in> set es. printable (f_val e) \<and> f_key_len e \<le> 4094"
    using m(3-5) by (auto simp: printable_def)
  moreover have "\<forall>es root. extract_entries insertion_sort 1000000 buf len = Ok (es, root) \<longrightarrow> (\<forall>e \<in> set es. spelled utf8_unit e)"
    using m(3,4,6) menu_units by (auto simp: spelled_def spelled_value_def)
  ultimately have "s ! n = 0 \<and> valid_json utf8_unit (take n s)"
    using json_decode_prints_json[OF insertion_sort_ok zero_printf_ok _ _ m(1,2), of None 1000000] m(8) by (simp add: indent_ok_def)
  then show ?thesis using m(7-9) by (auto simp: menu_text_def)
qed



text \<open>C35. Terse ML round trip: what the encoder returns for a tree without empty texts and without a text behind an
  inline text decodes to that tree (a bare text to the element around it), and the decoded tree encodes to the
  same bytes.\<close>

theorem terseml_reads_back:
  assumes "heap \<le> 1152921504606846976" and "node_ok n" and "readable n"
    and "tsml_encode heap (Some n) = Ok t" and "alloc_bound (length t) \<le> heap"
  shows "\<exists>d. tsml_decode heap (Some t) (length t) = Ok d \<and> td_roots d = [read_back n] \<and> tsml_encode heap (tsml_doc_root (Some d)) = Ok t"
proof -
  have t: "t = node_text n" "node_fits 0 n" using encode_refines[OF assms(1,2)] assms(4) by auto
  have l: "length t \<le> 1152921504606846976" using assms(1,5) by (simp add: alloc_bound_def)
  obtain d where d: "tsml_decode heap (Some t) (length t) = Ok d" "td_roots d = [read_back n]"
    using decode_text_settles[OF assms(2,3) t(2), of heap] l assms(5)
    by (auto simp: t(1) settles_def split: res.splits if_splits)
  have "enough heap (length t)" using assms(5) by (simp add: alloc_bound_def enough_def)
  then have "tsml_encode heap (Some (read_back n)) = Ok t"
    using encode_refines[OF assms(1) read_back_same(2)[OF assms(2)]] t read_back_same(1,3)[where n = n] by auto
  then show ?thesis using d by (simp add: tsml_doc_root_def)
qed

theorem terseml_reads_back_witness:
  "\<exists>t d. tsml_encode 1000000 (Some tree_sample) = Ok t \<and> tsml_decode 1000000 (Some t) (length t) = Ok d \<and> td_roots d = [tree_sample]"
proof -
  have t: "tsml_encode 1000000 (Some tree_sample) = Ok (node_text tree_sample)"
    using encode_refines[of 1000000 tree_sample] tree_sample_facts by (auto simp: enough_def)
  from terseml_reads_back[OF _ tree_sample_facts(1,2) t] show ?thesis
    using t tree_sample_facts by (auto simp: alloc_bound_def)
qed

text \<open>C36. Decoding any bytes as terse ML returns. It fails for want of memory only below a bound linear in the length, and
  a tree it returns is one the encoder can write.\<close>

theorem terseml_decode_any_bytes:
  assumes "len \<le> length b" and "len \<le> 1152921504606846976"
  shows "case tsml_decode heap (Some b) len of
      Ok d \<Rightarrow> tsml_doc_count (Some d) = 1 \<and>
        (\<exists>n. tsml_doc_root (Some d) = Some n \<and>
          (\<forall>h. h \<le> 1152921504606846976 \<longrightarrow> enough h (length (node_text n)) \<longrightarrow> tsml_encode h (Some n) = Ok (node_text n)))
    | Err e \<Rightarrow> e = TSML_ERR_ALLOC \<longrightarrow> heap < alloc_bound len
    | _ \<Rightarrow> False"
proof -
  have enc: "tsml_encode h (Some n) = Ok (node_text n)"
    if "decoded 0 n" "\<exists>t as cs. n = TSML_ELEMENT t as cs" "h \<le> 1152921504606846976" "enough h (length (node_text n))" for n h
    using encode_refines[OF that(3), of n] decoded_ok(1)[OF that(1)] that(2,4) by auto
  show ?thesis using decode_any_settles[OF assms, of heap] enc
    by (auto simp: settles_def tsml_doc_count_def tsml_doc_root_def split: res.splits if_splits)
qed

theorem terseml_decode_any_bytes_witness:
  "safe (tsml_decode 1000000 (Some [123, 97, 44, 92, 98, 1, 92, 48]) 8) \<and> tsml_decode 1000000 (Some [123, 97, 44, 92, 98, 1, 92, 48]) 8 \<noteq> Err TSML_ERR_ALLOC"
  using terseml_decode_any_bytes[of 8 "[123, 97, 44, 92, 98, 1, 92, 48]" 1000000]
  by (auto simp: alloc_bound_def split: res.splits)

text \<open>C37. The terse ML encoder refines the written form of the tree: it returns that text, or reports memory when
  the nesting exceeds the limit or less than 4096 bytes or twice the text can be had.\<close>

theorem terseml_encode_refines_text:
  assumes "heap \<le> 1152921504606846976" and "node_ok n"
  shows "tsml_encode heap (Some n) = Ok (node_text n) \<and> node_fits 0 n \<or>
    tsml_encode heap (Some n) = Err TSML_ERR_ALLOC \<and> \<not> (node_fits 0 n \<and> enough heap (length (node_text n)))"
  using assms by (rule encode_refines)

theorem terseml_encode_refines_text_witness: "tsml_encode 1000000 (Some tree_sample) = Ok (node_text tree_sample)"
  using terseml_encode_refines_text[of 1000000 tree_sample] tree_sample_facts by (auto simp: enough_def)



text \<open>C39. The form chosen for a text is a shortest one of the three that the format has.\<close>

theorem terseml_shortest_form: "length (text_bytes lead s) \<le> length (form_bytes lead s f)"
  by (rule choose_form_shortest)

text \<open>C40. A text in a binary form behind an inline text: the encoder succeeds, and the decoder refuses the result.\<close>

theorem terseml_adjacent_texts_rejected:
  assumes "s \<noteq> []" and "choose_form s (length s) True = FORM_INLINE" and "choose_form u (length u) False \<noteq> FORM_INLINE"
    and "in_memory tag" and "in_memory s" and "in_memory u" and "heap \<le> 1152921504606846976"
    and "n = TSML_ELEMENT tag [] [TSML_TEXT s, TSML_TEXT u]" and "alloc_bound (length (node_text n)) \<le> heap"
  shows "\<exists>t. tsml_encode heap (Some n) = Ok t \<and> (\<exists>e. e \<noteq> TSML_ERR_ALLOC \<and> tsml_decode heap (Some t) (length t) = Err e)"
proof -
  have fit: "node_ok n" "node_fits 0 n" using assms(4-6) by (simp_all add: assms(8) TSML_MAX_DEPTH_def)
  moreover have "enough heap (length (node_text n))" using assms(9) by (simp add: enough_def alloc_bound_def)
  ultimately have t: "tsml_encode heap (Some n) = Ok (node_text n)" using encode_refines[OF assms(7)] by blast
  have l: "length (node_text n) \<le> 1152921504606846976" using assms(7,9) by (simp add: alloc_bound_def)
  show ?thesis using adjacent_rejected[OF assms(1-3) assms(8)[THEN arg_cong, of node_text] l, of heap] t assms(9)
    by (auto simp: settles_def split: res.splits if_splits)
qed

theorem terseml_adjacent_texts_rejected_witness:
  "\<exists>t e. tsml_encode 1000000 (Some (TSML_ELEMENT [97] [] [TSML_TEXT [120], TSML_TEXT [92, 92, 92, 92, 92]])) = Ok t \<and> tsml_decode 1000000 (Some t) (length t) = Err e"
proof -
  have v: "varint_len (Suc 0) = 1" "varint_len (Suc (Suc (Suc (Suc (Suc 0))))) = 1"
    using varint_len.simps[of "Suc 0"] varint_len.simps[of "Suc (Suc (Suc (Suc (Suc 0))))"] by simp_all
  show ?thesis
    using terseml_adjacent_texts_rejected[of "[120]" "[92, 92, 92, 92, 92]" "[97]" 1000000 "TSML_ELEMENT [97] [] [TSML_TEXT [120], TSML_TEXT [92, 92, 92, 92, 92]]"]
    by (auto simp: v choose_form_def Let_def byte_defs in_memory_def alloc_bound_def text_bytes_def length_varint_bytes is_reserved_def)
qed

end
